(* ===== verification/Prelude.thy ===== *)
theory Prelude
  imports Main "HOL-Library.Word"
begin

unbundle bit_operations_syntax

text \<open>
  Shared vocabulary of the development: the machine integers of the Rust sources, the
  outcomes a Rust function can have besides returning, two fact collections, and the lemmas on
  words, lists and state machines that the component theories use.

  The kernel is built with the release profile (xtask passes --release, and no profile sets
  overflow-checks or debug-assertions), so integer arithmetic wraps and debug\_assert! is not
  part of the program. A machine integer of width w is \<^typ>\<open>'w word\<close>, whose
  arithmetic wraps in the same way; usize is 64 bits wide on the only target.
\<close>

section \<open>Machine integers and outcomes\<close>

type_synonym u8 = "8 word"
type_synonym u16 = "16 word"
type_synonym u32 = "32 word"
type_synonym u64 = "64 word"
type_synonym usize = "64 word"

text \<open>
  A Rust function returns, panics (assert!, expect, an explicit panic!, an index of a slice or
  array out of range), or, in an unsafe block, touches memory outside the object it was given,
  which is undefined behaviour.
\<close>

datatype fault = Panic | Undefined

type_synonym 'a outcome = "fault + 'a"

definition and_then :: "'a outcome \<Rightarrow> ('a \<Rightarrow> 'b outcome) \<Rightarrow> 'b outcome" where
  "and_then m f = (case m of Inl e \<Rightarrow> Inl e | Inr x \<Rightarrow> f x)"

definition rust_assert :: "bool \<Rightarrow> unit outcome" where
  "rust_assert b = (if b then Inr () else Inl Panic)"

definition expect :: "'a option \<Rightarrow> 'a outcome" where
  "expect v = (case v of None \<Rightarrow> Inl Panic | Some x \<Rightarrow> Inr x)"

text \<open>
  The facts that evaluate the plumbing of a definition (\<open>outcome_simps\<close>), and those that
  move word arithmetic to the natural numbers (\<open>word_nat\<close>).
\<close>

named_theorems outcome_simps
named_theorems word_nat

lemma and_then_simps [simp, outcome_simps]:
  "and_then (Inl e) f = Inl e"
  "and_then (Inr x) f = f x"
  by (simp_all add: and_then_def)

lemma and_then_eq_Inr [outcome_simps]:
  "and_then m f = Inr y \<longleftrightarrow> (\<exists>x. m = Inr x \<and> f x = Inr y)"
  by (cases m) auto

lemma and_then_InrE:
  assumes "and_then r f = Inr y"
  obtains x where "r = Inr x" "f x = Inr y"
  using assms by (auto simp: and_then_eq_Inr)

lemma and_then_pairE:
  assumes "and_then r (\<lambda>(a, b). f a b) = Inr y"
  obtains a b where "r = Inr (a, b)" "f a b = Inr y"
  using assms by (auto simp: and_then_eq_Inr)

lemma and_then_cong [fundef_cong]:
  "m = m' \<Longrightarrow> (\<And>x. m' = Inr x \<Longrightarrow> f x = f' x) \<Longrightarrow> and_then m f = and_then m' f'"
  by (cases m') auto

lemma rust_assert_simps [simp, outcome_simps]:
  "rust_assert True = Inr ()"
  "rust_assert False = Inl Panic"
  by (simp_all add: rust_assert_def)

lemma rust_assert_eq_Inr [simp, outcome_simps]: "rust_assert b = Inr u \<longleftrightarrow> b"
  by (simp add: rust_assert_def)

lemma expect_simps [simp, outcome_simps]:
  "expect None = Inl Panic"
  "expect (Some x) = Inr x"
  by (simp_all add: expect_def)

lemma expect_eq_Inr [simp, outcome_simps]: "expect v = Inr x \<longleftrightarrow> v = Some x"
  by (cases v) auto

text \<open>
  A function whose loops may not end: \<^term>\<open>None\<close> when it does not return.
\<close>

type_synonym 'a run = "'a outcome option"

definition run_then :: "'a run \<Rightarrow> ('a \<Rightarrow> 'b run) \<Rightarrow> 'b run" where
  "run_then r f = (case r of None \<Rightarrow> None | Some (Inl e) \<Rightarrow> Some (Inl e) | Some (Inr x) \<Rightarrow> f x)"

abbreviation returns :: "'a \<Rightarrow> 'a run" where
  "returns x \<equiv> Some (Inr x)"

lemma run_then_simps [simp, outcome_simps]:
  "run_then None f = None"
  "run_then (Some (Inl e)) f = Some (Inl e)"
  "run_then (Some (Inr x)) f = f x"
  by (simp_all add: run_then_def)

lemma run_then_eq_ret [outcome_simps]:
  "run_then r f = Some (Inr y) \<longleftrightarrow> (\<exists>x. r = Some (Inr x) \<and> f x = Some (Inr y))"
  by (auto simp: run_then_def split: option.splits sum.splits)

section \<open>Words\<close>

text \<open>Rounding down to a power of two, as the sources write it: \<open>x & !(2^n - 1)\<close>.\<close>

lemma and_not_mask_word: "(x :: 'a::len word) AND NOT (mask n) = x - take_bit n x"
proof -
  have "x AND NOT (mask n) = push_bit n (drop_bit n x)"
    by (rule bit_eqI) (auto simp: bit_simps)
  moreover have "push_bit n (drop_bit n x) + take_bit n x = x" by (rule bits_ident)
  ultimately show ?thesis by (simp add: eq_diff_eq)
qed

lemma unat_take_bit_word: "unat (take_bit n (x :: 'a::len word)) = unat x mod 2 ^ n"
  unfolding unsigned_take_bit_eq by (simp add: take_bit_eq_mod)

lemma unat_and_not_mask [word_nat]:
  "unat ((x :: 'a::len word) AND NOT (mask n)) = unat x - unat x mod 2 ^ n"
proof -
  have "take_bit n x \<le> x"
    by (simp add: word_le_nat_alt unat_take_bit_word)
  then show ?thesis by (simp add: and_not_mask_word unat_sub unat_take_bit_word)
qed

lemma page_mask_eq: "(4096 :: u64) - 1 = mask 12" "(0xFFF :: u64) = mask 12"
  by (simp_all add: mask_eq_exp_minus_1)

lemma unat_align_down [word_nat]:
  "unat ((x :: u64) AND NOT (4096 - 1)) = unat x - unat x mod 4096"
  using unat_and_not_mask [of x 12] by (simp only: page_mask_eq) simp

lemmas unat_align_down_neg [word_nat] = unat_align_down [simplified]

lemma unat_add_noof [word_nat]:
  "unat (x :: 'a::len word) + unat y < 2 ^ LENGTH('a) \<Longrightarrow> unat (x + y) = unat x + unat y"
  by (simp add: unat_word_ariths)

lemma unat_of_nat_small [word_nat]: "n < 2 ^ LENGTH('a) \<Longrightarrow> unat (of_nat n :: 'a::len word) = n"
  by (simp add: unat_of_nat)

lemma unat_bound: "unat (w :: 'a::len word) < 2 ^ LENGTH('a)"
  by simp

lemma unat_widen_32_64: "unat (ucast (w :: u32) :: u64) = unat w"
  using unat_bound [of w] by (simp add: unsigned_ucast_eq take_bit_nat_eq_self)

lemma unat_cancel [simp]: "unat x = unat y \<longleftrightarrow> x = (y :: 'a::len word)"
  by (simp add: word_unat_eq_iff)

lemma unat_image_iff [simp]: "unat x \<in> unat ` A \<longleftrightarrow> x \<in> (A :: 'a::len word set)"
  by (auto simp: image_iff)

lemma of_nat_unat_word: "of_nat (unat w) = (w :: 'a::len word)"
  by simp

text \<open>The least multiple of \<open>k\<close> that is not below \<open>n\<close>.\<close>

lemma round_up_le_iff:
  fixes k n m :: nat
  assumes "0 < k" "k dvd m"
  shows "(n + (k - 1)) - (n + (k - 1)) mod k \<le> m \<longleftrightarrow> n \<le> m"
proof -
  obtain q where m: "m = k * q" using assms(2) by blast
  let ?u = "(n + (k - 1)) div k"
  have u: "(n + (k - 1)) - (n + (k - 1)) mod k = k * ?u"
    by (simp add: minus_mod_eq_mult_div)
  have "?u \<le> q \<longleftrightarrow> n + (k - 1) < k * Suc q"
    using assms(1) by (metis less_Suc_eq_le less_mult_imp_div_less mult.commute
        div_less_iff_less_mult)
  also have "\<dots> \<longleftrightarrow> n \<le> k * q"
    using assms(1) by auto
  finally have "?u \<le> q \<longleftrightarrow> n \<le> k * q" .
  then show ?thesis unfolding u m using assms(1) by (simp only: mult_le_cancel1 simp_thms)
qed

lemma round_down_ge_iff:
  fixes k n m :: nat
  assumes "0 < k" "k dvd m"
  shows "m \<le> n - n mod k \<longleftrightarrow> m \<le> n"
proof -
  obtain q where m: "m = k * q" using assms(2) by blast
  have u: "n - n mod k = k * (n div k)" by (simp add: minus_mod_eq_mult_div)
  have "q \<le> n div k \<longleftrightarrow> k * q \<le> n"
    using assms(1) by (simp add: less_eq_div_iff_mult_less_eq mult.commute)
  then show ?thesis using assms(1) by (simp add: u m)
qed

section \<open>Bytes\<close>

text \<open>Little-endian numbers.\<close>

fun le_nat :: "u8 list \<Rightarrow> nat" where
  "le_nat [] = 0"
| "le_nat (b # bs) = unat b + 256 * le_nat bs"

fun le_bytes :: "nat \<Rightarrow> nat \<Rightarrow> u8 list" where
  "le_bytes 0 x = []"
| "le_bytes (Suc n) x = of_nat (x mod 256) # le_bytes n (x div 256)"

lemma length_le_bytes [simp]: "length (le_bytes n x) = n"
  by (induction n arbitrary: x) auto

lemma le_nat_le_bytes [simp]: "le_nat (le_bytes n x) = x mod 256 ^ n"
proof (induction n arbitrary: x)
  case (Suc n)
  have "unat (of_nat (x mod 256) :: u8) = x mod 256" by (simp add: unat_of_nat_small)
  then show ?case by (simp add: Suc mod_mult2_eq)
qed simp

lemma le_nat_bound: "le_nat bs < 256 ^ length bs"
proof (induction bs)
  case (Cons b bs)
  have "unat b < 256" using unat_bound [of b] by simp
  with Cons show ?case by simp
qed simp

text \<open>A collection of outcomes in sequence, and one of an optional check.\<close>

fun sequence :: "'a outcome list \<Rightarrow> 'a list outcome" where
  "sequence [] = Inr []"
| "sequence (m # ms) = and_then m (\<lambda>x. and_then (sequence ms) (\<lambda>xs. Inr (x # xs)))"

lemma sequence_map_Inr [simp]: "sequence (map (\<lambda>x. Inr (f x)) xs) = Inr (map f xs)"
  by (induction xs) auto

lemma sequence_map_eq: "\<forall>x \<in> set xs. f x = Inr (g x) \<Longrightarrow> sequence (map f xs) = Inr (map g xs)"
  by (induction xs) auto

lemma sequence_map_Inl:
  "sequence (map f xs) = Inl e \<Longrightarrow> \<exists>x \<in> set xs. f x = Inl e"
proof (induction xs)
  case (Cons x xs)
  then show ?case by (cases "f x"; cases "sequence (map f xs)") auto
qed simp

text \<open>An index into a slice or an array, which is checked.\<close>

definition slice_at :: "'a list \<Rightarrow> nat \<Rightarrow> 'a outcome" where
  "slice_at xs i = (if i < length xs then Inr (xs ! i) else Inl Panic)"

lemma slice_at_in [simp]: "i < length xs \<Longrightarrow> slice_at xs i = Inr (xs ! i)"
  by (simp add: slice_at_def)

text \<open>A loop that returns at the first element that gives a result.\<close>

fun first_some :: "('a \<Rightarrow> 'b option) \<Rightarrow> 'a list \<Rightarrow> 'b option" where
  "first_some f [] = None"
| "first_some f (x # xs) = (case f x of Some y \<Rightarrow> Some y | None \<Rightarrow> first_some f xs)"

lemma first_some_None: "first_some f xs = None \<longleftrightarrow> (\<forall>x \<in> set xs. f x = None)"
  by (induction xs) (auto split: option.splits)

lemma first_some_Some:
  "first_some f xs = Some y \<longleftrightarrow> (\<exists>us x vs. xs = us @ x # vs \<and> f x = Some y \<and> (\<forall>u \<in> set us. f u = None))"
proof (induction xs)
  case (Cons a xs)
  show ?case
  proof (cases "f a")
    case None
    then have "first_some f (a # xs) = first_some f xs" by simp
    moreover have "(\<exists>us x vs. a # xs = us @ x # vs \<and> f x = Some y \<and> (\<forall>u \<in> set us. f u = None)) \<longleftrightarrow>
        (\<exists>us x vs. xs = us @ x # vs \<and> f x = Some y \<and> (\<forall>u \<in> set us. f u = None))"
      using None by (auto simp: Cons_eq_append_conv) (metis append_Cons list.set_intros(1) set_ConsD)+
    ultimately show ?thesis using Cons.IH by simp
  next
    case (Some z)
    then show ?thesis by (auto simp: Cons_eq_append_conv intro: exI [of _ "[]"])
  qed
qed simp

text \<open>A loop over a list whose body may fail; the state is threaded through.\<close>

fun fold_out :: "('a \<Rightarrow> 's \<Rightarrow> 's outcome) \<Rightarrow> 'a list \<Rightarrow> 's \<Rightarrow> 's outcome" where
  "fold_out f [] s = Inr s"
| "fold_out f (x # xs) s = and_then (f x s) (fold_out f xs)"

lemma fold_out_append: "fold_out f (xs @ ys) s = and_then (fold_out f xs s) (fold_out f ys)"
proof (induction xs arbitrary: s)
  case (Cons x xs)
  show ?case by (cases "f x s") (simp_all add: Cons.IH)
qed simp

lemma fold_out_concat_map: "fold_out f (concat (map g xs)) s = fold_out (\<lambda>x. fold_out f (g x)) xs s"
proof (induction xs arbitrary: s)
  case (Cons x xs)
  show ?case by (cases "fold_out f (g x) s") (simp_all add: Cons.IH fold_out_append)
qed simp

lemma fold_out_map: "fold_out f (map g xs) s = fold_out (\<lambda>x. f (g x)) xs s"
proof (induction xs arbitrary: s)
  case (Cons x xs)
  show ?case by (cases "f (g x) s") (simp_all add: Cons.IH)
qed simp

lemma fold_out_Inr:
  "(\<And>x s. x \<in> set xs \<Longrightarrow> I s \<Longrightarrow> f x s = Inr (g x s) \<and> I (g x s)) \<Longrightarrow> I s \<Longrightarrow>
    fold_out f xs s = Inr (fold g xs s) \<and> I (fold g xs s)"
  by (induction xs arbitrary: s) auto

lemma fold_out_total:
  assumes "\<And>x s. I s \<Longrightarrow> \<exists>t. f x s = Inr t \<and> I t" "I s"
  shows "\<exists>t. fold_out f xs s = Inr t \<and> I t"
  using assms(2)
proof (induction xs arbitrary: s)
  case (Cons x xs)
  obtain t where "f x s = Inr t" "I t" using assms(1) [OF Cons.prems] by blast
  then show ?case using Cons.IH by simp
qed simp

lemma fold_out_invariant:
  "fold_out f xs s = Inr t \<Longrightarrow> I s \<Longrightarrow> (\<And>x s t. x \<in> set xs \<Longrightarrow> I s \<Longrightarrow> f x s = Inr t \<Longrightarrow> I t) \<Longrightarrow> I t"
proof (induction xs arbitrary: s)
  case (Cons x xs)
  from Cons.prems(1) obtain u where u: "f x s = Inr u" "fold_out f xs u = Inr t"
    by (auto elim: and_then_InrE)
  have "I u" using Cons.prems(2,3) u(1) by (meson list.set_intros(1))
  then show ?case using Cons.IH [OF u(2)] Cons.prems(3) by (meson list.set_intros(2))
qed simp

lemma fold_out_cong_inv:
  assumes "\<And>x s. x \<in> set xs \<Longrightarrow> I s \<Longrightarrow> f x s = g x s" "\<And>x s t. x \<in> set xs \<Longrightarrow> I s \<Longrightarrow> g x s = Inr t \<Longrightarrow> I t" "I s"
  shows "fold_out f xs s = fold_out g xs s"
  using assms
proof (induction xs arbitrary: s)
  case (Cons x xs)
  have "f x s = g x s" using Cons.prems by simp
  moreover have "fold_out f xs t = fold_out g xs t" if "g x s = Inr t" for t
  proof (rule Cons.IH)
    show "I t" using Cons.prems(2) [OF _ Cons.prems(3) that] by simp
  next
    fix y u v assume y: "y \<in> set xs" "I u"
    then show "f y u = g y u" using Cons.prems(1) by simp
    assume "g y u = Inr v"
    then show "I v" using Cons.prems(2) [of y u v] y by simp
  qed
  ultimately show ?case by (cases "g x s") simp_all
qed simp

section \<open>State machines\<close>

text \<open>
  The states a step relation reaches from a start state, and the interface through which every
  component with steps obtains its invariant: the invariant holds at the start and every step
  keeps it.
\<close>

abbreviation reachable :: "('s \<Rightarrow> 's \<Rightarrow> bool) \<Rightarrow> 's \<Rightarrow> 's \<Rightarrow> bool" where
  "reachable step s0 \<equiv> rtranclp step s0"

locale invariant_system =
  fixes start :: "'s \<Rightarrow> bool"
    and step :: "'s \<Rightarrow> 's \<Rightarrow> bool"
    and inv :: "'s \<Rightarrow> bool"
  assumes start_inv: "start s \<Longrightarrow> inv s"
    and step_inv: "inv s \<Longrightarrow> step s t \<Longrightarrow> inv t"
begin

lemma inv_closed: "reachable step s t \<Longrightarrow> inv s \<Longrightarrow> inv t"
  by (induction rule: rtranclp_induct) (auto intro: step_inv)

lemma reachable_inv: "start s \<Longrightarrow> reachable step s t \<Longrightarrow> inv t"
  by (blast intro: inv_closed start_inv)

end

end
