(* ===== verification/Frames.thy ===== *)
theory Frames
  imports Prelude "HOL-Library.Multiset"
begin

unbundle bit_operations_syntax

text \<open>
  The physical frame allocator, arsenal-kernel/src/frames.rs: a stack of free 4-KiB frame
  addresses filled from the bootloader's memory map. The theory shows which frames the pool
  holds after boot, that it never holds a frame twice, and it provides the allocator to the
  other components through the interface \<open>frame_pool\<close>.

  The type PhysFrame of the x86\_64 crate is represented by the start address it wraps. The
  constructor \<open>PhysFrame::containing_address(PhysAddr::new(a))\<close> is the parameter
  \<open>phys_frame\<close>: it may panic, and on a page-aligned address below 2^52 it is documented
  to return the frame that starts there (\<open>phys_frame_ok\<close>).
\<close>

section \<open>Model\<close>

definition FRAME_SIZE :: u64 where
  "FRAME_SIZE = 4096"

record frame_allocator =
  free :: "u64 list" \<comment> \<open>the Vec; its last element is the top of the stack\<close>
  total_added_ctr :: usize

definition new_frame_allocator :: frame_allocator where
  "new_frame_allocator = \<lparr>free = [], total_added_ctr = 0\<rparr>"

definition add_region :: "frame_allocator \<Rightarrow> u64 \<Rightarrow> u64 \<Rightarrow> frame_allocator" where
  "add_region fa base len =
     (let aligned_base = (base + FRAME_SIZE - 1) AND NOT (FRAME_SIZE - 1);
          aligned_end = (base + len) AND NOT (FRAME_SIZE - 1)
      in if aligned_end \<le> aligned_base then fa
         else let count = (aligned_end - aligned_base) div FRAME_SIZE
              in fa\<lparr>free := free fa @ map (\<lambda>i. aligned_base + of_nat i * FRAME_SIZE) [0..<unat count],
                    total_added_ctr := total_added_ctr fa + count\<rparr>)"

type_synonym phys_frame_ctor = "u64 \<Rightarrow> u64 outcome"

definition alloc_frame ::
  "phys_frame_ctor \<Rightarrow> frame_allocator \<Rightarrow> (u64 option \<times> frame_allocator) outcome" where
  "alloc_frame phys_frame fa =
     (if free fa = [] then Inr (None, fa)
      else and_then (phys_frame (last (free fa)))
             (\<lambda>frame. Inr (Some frame, fa\<lparr>free := butlast (free fa)\<rparr>)))"

definition free_frame :: "frame_allocator \<Rightarrow> u64 \<Rightarrow> frame_allocator" where
  "free_frame fa frame = fa\<lparr>free := free fa @ [frame]\<rparr>"

definition free_count :: "frame_allocator \<Rightarrow> nat" where
  "free_count fa = length (free fa)"

definition total_added :: "frame_allocator \<Rightarrow> usize" where
  "total_added fa = total_added_ctr fa"

text \<open>The memory-map entries of the limine crate that the sources read.\<close>

datatype entry_type = USABLE | BOOTLOADER_RECLAIMABLE | OTHER_ENTRY nat

record entry =
  base :: u64
  length_of :: u64
  kind :: entry_type

fun init_regions :: "frame_allocator \<Rightarrow> entry list \<Rightarrow> u64 \<Rightarrow> u64 \<Rightarrow> frame_allocator" where
  "init_regions fa [] heap_start heap_end = fa"
| "init_regions fa (e # es) heap_start heap_end =
     (if kind e \<noteq> USABLE then init_regions fa es heap_start heap_end
      else let region_start = base e;
               region_end = base e + length_of e;
               fa = (if region_start < heap_start
                     then add_region fa region_start (min region_end heap_start - region_start)
                     else fa);
               fa = (if region_end > heap_end
                     then add_region fa (max region_start heap_end)
                            (region_end - max region_start heap_end)
                     else fa)
           in init_regions fa es heap_start heap_end)"

definition frames_init ::
  "phys_frame_ctor \<Rightarrow> frame_allocator \<Rightarrow> entry list \<Rightarrow> u64 \<Rightarrow> u64 \<Rightarrow> frame_allocator outcome" where
  "frames_init phys_frame fa entries heap_start heap_end =
     and_then (alloc_frame phys_frame (init_regions fa entries heap_start heap_end))
       (\<lambda>(test, fa). and_then (expect test) (\<lambda>frame. Inr (free_frame fa frame)))"

definition reclaim_bootloader :: "frame_allocator \<Rightarrow> entry list \<Rightarrow> nat \<times> frame_allocator" where
  "reclaim_bootloader fa entries =
     (let before = free_count fa;
          fa' = fold (\<lambda>e fa. if kind e = BOOTLOADER_RECLAIMABLE
                             then add_region fa (base e) (length_of e) else fa) entries fa
      in (free_count fa' - before, fa'))"

text \<open>What the x86\_64 crate documents of the frame constructor.\<close>

definition phys_frame_ok :: "phys_frame_ctor \<Rightarrow> bool" where
  "phys_frame_ok phys_frame \<longleftrightarrow>
     (\<forall>a. 4096 dvd unat a \<and> unat a < 2 ^ 52 \<longrightarrow> phys_frame a = Inr a)"

section \<open>The frames of a region\<close>

text \<open>The frames that lie wholly inside the byte range from \<open>lo\<close> to \<open>hi\<close>.\<close>

definition frames_within :: "nat \<Rightarrow> nat \<Rightarrow> u64 set" where
  "frames_within lo hi = {f. 4096 dvd unat f \<and> lo \<le> unat f \<and> unat f + 4096 \<le> hi}"

definition region_frames :: "u64 \<Rightarrow> u64 \<Rightarrow> u64 list" where
  "region_frames b l = free (add_region new_frame_allocator b l)"

lemma free_add_region [simp]: "free (add_region fa b l) = free fa @ region_frames b l"
  by (simp add: region_frames_def add_region_def new_frame_allocator_def Let_def)


text \<open>
  On a region that does not reach the top of the address space the word arithmetic of
  \<open>add_region\<close> is the arithmetic of the natural numbers.
\<close>

definition round_up_page :: "nat \<Rightarrow> nat" where
  "round_up_page n = (n + 4095) - (n + 4095) mod 4096"

definition round_down_page :: "nat \<Rightarrow> nat" where
  "round_down_page n = n - n mod 4096"

lemma dvd_round_page [simp]: "4096 dvd round_up_page n" "4096 dvd round_down_page n"
  by (simp_all add: round_up_page_def round_down_page_def dvd_minus_mod)

lemma round_up_page_le_iff: "4096 dvd m \<Longrightarrow> round_up_page n \<le> m \<longleftrightarrow> n \<le> m"
  using round_up_le_iff [of 4096 m n] by (simp add: round_up_page_def)

lemma round_down_page_ge_iff: "4096 dvd m \<Longrightarrow> m \<le> round_down_page n \<longleftrightarrow> m \<le> n"
  using round_down_ge_iff [of 4096 m n] by (simp add: round_down_page_def)

lemma region_frames_eq:
  assumes "unat b + unat l + 4095 < 2 ^ 64"
  shows "region_frames b l =
    map (\<lambda>i. of_nat (round_up_page (unat b) + i * 4096))
      [0..<(round_down_page (unat b + unat l) - round_up_page (unat b)) div 4096]"
proof -
  let ?ab = "(b + FRAME_SIZE - 1) AND NOT (FRAME_SIZE - 1)"
  let ?ae = "(b + l) AND NOT (FRAME_SIZE - 1)"
  have "unat (4095 + b) = unat b + 4095"
    using assms by (subst unat_add_noof) auto
  then have ab: "unat ?ab = round_up_page (unat b)"
    by (simp add: FRAME_SIZE_def round_up_page_def unat_align_down_neg)
  have ae: "unat ?ae = round_down_page (unat b + unat l)"
    using assms by (simp add: FRAME_SIZE_def round_down_page_def unat_add_noof unat_align_down_neg)
  have elem: "?ab + of_nat i * FRAME_SIZE = of_nat (round_up_page (unat b) + i * 4096)" for i
    by (simp add: FRAME_SIZE_def flip: ab)
  show ?thesis
  proof (cases "?ae \<le> ?ab")
    case True
    then have "round_down_page (unat b + unat l) \<le> round_up_page (unat b)"
      by (simp add: word_le_nat_alt ab ae)
    with True show ?thesis
      by (simp add: region_frames_def add_region_def new_frame_allocator_def)
  next
    case False
    then have "unat (?ae - ?ab) = unat ?ae - unat ?ab"
      by (intro unat_sub) simp
    then have "unat ((?ae - ?ab) div FRAME_SIZE) = (unat ?ae - unat ?ab) div unat FRAME_SIZE"
      by (simp only: unat_div_distrib)
    also have "\<dots> = (round_down_page (unat b + unat l) - round_up_page (unat b)) div 4096"
      by (simp only: ab ae) (simp add: FRAME_SIZE_def)
    finally have "unat ((?ae - ?ab) div FRAME_SIZE) =
        (round_down_page (unat b + unat l) - round_up_page (unat b)) div 4096" .
    with False show ?thesis
      by (simp add: region_frames_def add_region_def new_frame_allocator_def elem Let_def)
  qed
qed


lemma region_index_iff:
  "i < (round_down_page m - round_up_page n) div 4096 \<longleftrightarrow> round_up_page n + i * 4096 + 4096 \<le> m"
proof -
  have "4096 dvd round_down_page m - round_up_page n" by simp
  then have "i < (round_down_page m - round_up_page n) div 4096 \<longleftrightarrow>
      round_up_page n + i * 4096 + 4096 \<le> round_down_page m"
    by (auto simp: less_eq_Suc_le elim!: dvdE)
  moreover have "4096 dvd round_up_page n + i * 4096 + 4096" by simp
  ultimately show ?thesis by (simp add: round_down_page_ge_iff)
qed

lemma unat_region_elem:
  assumes "unat b + unat l + 4095 < 2 ^ 64"
    and "i < (round_down_page (unat b + unat l) - round_up_page (unat b)) div 4096"
  shows "unat (of_nat (round_up_page (unat b) + i * 4096) :: u64) = round_up_page (unat b) + i * 4096"
  using assms(1) region_index_iff [THEN iffD1, OF assms(2)]
  by (intro unat_of_nat_small) simp

lemma set_region_frames:
  assumes "unat b + unat l + 4095 < 2 ^ 64"
  shows "set (region_frames b l) = frames_within (unat b) (unat b + unat l)" (is "?L = ?R")
proof (intro set_eqI iffI)
  fix f assume "f \<in> ?L"
  then obtain i where i: "i < (round_down_page (unat b + unat l) - round_up_page (unat b)) div 4096"
    and f: "f = of_nat (round_up_page (unat b) + i * 4096)"
    by (auto simp: region_frames_eq [OF assms])
  have "unat b \<le> round_up_page (unat b)" by (simp flip: round_up_page_le_iff)
  then show "f \<in> ?R"
    using region_index_iff [THEN iffD1, OF i] unat_region_elem [OF assms i]
    by (simp add: frames_within_def f)
next
  fix f assume f: "f \<in> ?R"
  then have ge: "round_up_page (unat b) \<le> unat f"
    by (simp add: frames_within_def round_up_page_le_iff)
  with f obtain i where i: "unat f = round_up_page (unat b) + i * 4096"
    by (auto simp: frames_within_def le_iff_add) (metis dvd_add_right_iff dvd_div_mult_self dvd_round_page(1))
  with f have "i < (round_down_page (unat b + unat l) - round_up_page (unat b)) div 4096"
    by (simp add: region_index_iff frames_within_def)
  moreover have "f = of_nat (round_up_page (unat b) + i * 4096)"
    by (metis i of_nat_unat_word)
  ultimately show "f \<in> ?L" by (auto simp: region_frames_eq [OF assms])
qed

lemma distinct_region_frames:
  assumes "unat b + unat l + 4095 < 2 ^ 64"
  shows "distinct (region_frames b l)"
proof -
  have "inj_on (\<lambda>i. of_nat (round_up_page (unat b) + i * 4096) :: u64)
      {0..<(round_down_page (unat b + unat l) - round_up_page (unat b)) div 4096}"
    by (rule inj_onI) (metis unat_region_elem [OF assms] add_left_cancel atLeastLessThan_iff
        mult_cancel2 zero_neq_numeral)
  then show ?thesis by (simp add: region_frames_eq [OF assms] distinct_map)
qed

lemma frames_within_disjoint:
  assumes "hi \<le> lo'" shows "frames_within lo hi \<inter> frames_within lo' hi' = {}"
  using assms by (auto simp: frames_within_def)


section \<open>The pool after boot\<close>

text \<open>Frames that do not touch the heap's byte range.\<close>

definition outside_heap :: "u64 \<Rightarrow> u64 \<Rightarrow> u64 \<Rightarrow> bool" where
  "outside_heap heap_start heap_end f \<longleftrightarrow> unat f + 4096 \<le> unat heap_start \<or> unat heap_end \<le> unat f"

text \<open>An entry that ends at least one frame below the top of the address space.\<close>

definition entry_ok :: "entry \<Rightarrow> bool" where
  "entry_ok e \<longleftrightarrow> unat (base e) + unat (length_of e) + 4095 < 2 ^ 64"

definition entry_frames :: "u64 \<Rightarrow> u64 \<Rightarrow> entry \<Rightarrow> u64 list" where
  "entry_frames heap_start heap_end e = free (init_regions new_frame_allocator [e] heap_start heap_end)"

lemma free_init_regions:
  "free (init_regions fa es hs he) = free fa @ concat (map (entry_frames hs he) es)"
  by (induction fa es hs he rule: init_regions.induct)
    (simp_all add: entry_frames_def new_frame_allocator_def Let_def)

lemma entry_frames_other: "kind e \<noteq> USABLE \<Longrightarrow> entry_frames hs he e = []"
  by (simp add: entry_frames_def new_frame_allocator_def)

text \<open>
  A usable entry contributes the prefix below the heap and the suffix above it, each rounded
  inwards to whole frames.
\<close>

lemma entry_frames_usable:
  assumes "entry_ok e" "kind e = USABLE"
  defines "lo \<equiv> unat (base e)" and "hi \<equiv> unat (base e) + unat (length_of e)"
  shows "set (entry_frames hs he e) =
      (if lo < unat hs then frames_within lo (min hi (unat hs)) else {}) \<union>
      (if unat he < hi then frames_within (max lo (unat he)) hi else {})"
    and "unat hs \<le> unat he \<Longrightarrow> distinct (entry_frames hs he e)"
proof -
  let ?top = "base e + length_of e"
  have e: "unat ?top = hi" and le: "base e \<le> ?top"
    using assms(1) by (simp_all add: entry_ok_def unat_add_noof hi_def word_le_nat_alt)
  have below: "base e < hs \<longleftrightarrow> lo < unat hs" and above: "?top > he \<longleftrightarrow> unat he < hi"
    by (simp_all add: word_less_nat_alt lo_def e)
  let ?p = "region_frames (base e) (min ?top hs - base e)"
  let ?s = "region_frames (max (base e) he) (?top - max (base e) he)"
  have pre: "set ?p = frames_within lo (min hi (unat hs)) \<and> distinct ?p" if "lo < unat hs"
  proof -
    have b: "base e \<le> min ?top hs" using that le by (simp add: word_le_nat_alt lo_def)
    then have "unat (base e) + unat (min ?top hs - base e) = min hi (unat hs)"
      by (simp add: unat_sub word_le_nat_alt) (simp add: min_def word_le_nat_alt e)
    moreover from this have "unat (base e) + unat (min ?top hs - base e) + 4095 < 2 ^ 64"
      using assms(1) by (simp add: entry_ok_def hi_def)
    ultimately show ?thesis
      using set_region_frames distinct_region_frames by (simp add: lo_def)
  qed
  have suf: "set ?s = frames_within (max lo (unat he)) hi \<and> distinct ?s" if "unat he < hi"
  proof -
    have m: "unat (max (base e) he) = max lo (unat he)"
      by (simp add: max_def word_le_nat_alt lo_def)
    have b: "max (base e) he \<le> ?top"
      using that le by (simp add: word_le_nat_alt e)
    then have "unat (max (base e) he) + unat (?top - max (base e) he) = hi"
      by (simp add: unat_sub e word_le_nat_alt)
    moreover from this have "unat (max (base e) he) + unat (?top - max (base e) he) + 4095 < 2 ^ 64"
      using assms(1) by (simp add: entry_ok_def hi_def)
    ultimately show ?thesis
      using set_region_frames distinct_region_frames m by metis
  qed
  have frames: "entry_frames hs he e =
      (if lo < unat hs then ?p else []) @ (if unat he < hi then ?s else [])"
    using assms(2) by (simp add: entry_frames_def new_frame_allocator_def Let_def below above)
  show "set (entry_frames hs he e) =
      (if lo < unat hs then frames_within lo (min hi (unat hs)) else {}) \<union>
      (if unat he < hi then frames_within (max lo (unat he)) hi else {})"
    using pre suf by (simp add: frames)
  show "distinct (entry_frames hs he e)" if "unat hs \<le> unat he"
    using pre suf that frames_within_disjoint [of "min hi (unat hs)" "max lo (unat he)" lo hi]
    by (auto simp: frames)
qed

lemma set_entry_frames:
  assumes "entry_ok e" "kind e = USABLE" "hs \<le> he"
  shows "set (entry_frames hs he e) =
    {f \<in> frames_within (unat (base e)) (unat (base e) + unat (length_of e)). outside_heap hs he f}"
  using assms(3) unfolding entry_frames_usable(1) [OF assms(1,2)]
  by (auto simp: frames_within_def outside_heap_def word_le_nat_alt)


section \<open>The allocator as an interface\<close>

text \<open>
  What the other components rely on: allocation takes one frame out of the pool, releasing
  puts the frame back, and nothing else changes. \<open>sound\<close> holds for the frames the
  constructor accepts.
\<close>

locale frame_pool =
  fixes alloc :: "'p \<Rightarrow> ('f option \<times> 'p) outcome"
    and release :: "'p \<Rightarrow> 'f \<Rightarrow> 'p"
    and pool :: "'p \<Rightarrow> 'f multiset"
    and sound :: "'f \<Rightarrow> bool"
  assumes alloc_empty: "pool p = {#} \<Longrightarrow> alloc p = Inr (None, p)"
    and alloc_frame: "pool p \<noteq> {#} \<Longrightarrow> \<forall>f \<in># pool p. sound f \<Longrightarrow>
      \<exists>f p'. alloc p = Inr (Some f, p') \<and> pool p = add_mset f (pool p')"
    and pool_release: "pool (release p f) = add_mset f (pool p)"

text \<open>
  Clients of the allocator: a step either allocates, and the client then owns the frame, or
  releases a frame it owns.
\<close>

inductive own_step ::
  "('p \<Rightarrow> ('f option \<times> 'p) outcome) \<Rightarrow> ('p \<Rightarrow> 'f \<Rightarrow> 'p) \<Rightarrow>
   'p \<times> 'f multiset \<Rightarrow> 'p \<times> 'f multiset \<Rightarrow> bool" for alloc release where
  own_alloc: "alloc p = Inr (Some f, p') \<Longrightarrow> own_step alloc release (p, ow) (p', add_mset f ow)"
| own_exhausted: "alloc p = Inr (None, p') \<Longrightarrow> own_step alloc release (p, ow) (p', ow)"
| own_release: "own_step alloc release (p, add_mset f ow) (release p f, ow)"

context frame_pool
begin

lemma alloc_Some:
  assumes "alloc p = Inr (Some f, p')" "\<forall>f \<in># pool p. sound f"
  shows "pool p = add_mset f (pool p')"
  using assms alloc_empty [of p] alloc_frame [of p] by (cases "pool p = {#}") auto

lemma alloc_None:
  assumes "alloc p = Inr (None, p')" "\<forall>f \<in># pool p. sound f"
  shows "pool p = {#} \<and> p' = p"
  using assms alloc_empty [of p] alloc_frame [of p] by (cases "pool p = {#}") auto

lemma alloc_fresh:
  assumes "alloc p = Inr (Some f, p')" "\<forall>f \<in># pool p. sound f" "\<forall>g. count (pool p) g \<le> 1"
  shows "f \<in># pool p \<and> f \<notin># pool p'"
proof -
  have *: "pool p = add_mset f (pool p')" using assms(1,2) by (rule alloc_Some)
  with assms(3) have "count (add_mset f (pool p')) f \<le> 1" by metis
  then show ?thesis by (simp add: * not_in_iff)
qed

lemma own_step_total:
  assumes "own_step alloc release s t" "\<forall>f \<in># pool (fst s) + snd s. sound f"
  shows "pool (fst t) + snd t = pool (fst s) + snd s"
  using assms by (induction rule: own_step.induct) (auto dest: alloc_Some alloc_None simp: pool_release)

end

text \<open>Every frame is in the pool or owned, and stays accounted for.\<close>

sublocale frame_pool \<subseteq> ownership: invariant_system
  "\<lambda>s. snd s = {#} \<and> pool (fst s) = total \<and> (\<forall>f \<in># total. sound f)"
  "own_step alloc release"
  "\<lambda>s. pool (fst s) + snd s = total \<and> (\<forall>f \<in># total. sound f)" for total
  by unfold_locales (auto dest: own_step_total)

context frame_pool
begin

lemma own_accounted:
  assumes "\<forall>f \<in># pool p\<^sub>0. sound f" "reachable (own_step alloc release) (p\<^sub>0, {#}) (p, ow)"
  shows "pool p + ow = pool p\<^sub>0"
  using ownership.reachable_inv [OF _ assms(2), of "pool p\<^sub>0"] assms(1) by simp

end

lemma alloc_frame_pool:
  assumes "phys_frame_ok pf"
  shows "frame_pool (alloc_frame pf) free_frame (\<lambda>fa. mset (free fa))
    (\<lambda>f. 4096 dvd unat f \<and> unat f < 2 ^ 52)"
proof
  fix fa :: frame_allocator
  assume "mset (free fa) \<noteq> {#}" and ok: "\<forall>f \<in># mset (free fa). 4096 dvd unat f \<and> unat f < 2 ^ 52"
  then have ne: "free fa \<noteq> []" by simp
  then have "last (free fa) \<in> set (free fa)" by simp
  with ok assms have "pf (last (free fa)) = Inr (last (free fa))"
    by (simp add: phys_frame_ok_def)
  moreover have "mset (free fa) = add_mset (last (free fa)) (mset (butlast (free fa)))"
    using ne by (metis append_butlast_last_id mset.simps(2) mset_append mset_rev rev_eq_Cons_iff
        union_mset_add_mset_right add.right_neutral mset.simps(1))
  ultimately show "\<exists>f fa'. alloc_frame pf fa = Inr (Some f, fa') \<and>
      mset (free fa) = add_mset f (mset (free fa'))"
    using ne by (simp add: alloc_frame_def)
qed (simp_all add: alloc_frame_def free_frame_def)


text \<open>
  The constructor as the x86\_64 crate documents it: an address with bits above 51 is refused,
  any other is rounded down to its frame.
\<close>

definition x86_phys_frame :: phys_frame_ctor where
  "x86_phys_frame a = (if unat a < 2 ^ 52 then Inr (a AND NOT (4096 - 1)) else Inl Panic)"

lemma x86_phys_frame_ok: "phys_frame_ok x86_phys_frame"
  unfolding phys_frame_ok_def x86_phys_frame_def
  by (auto simp: word_unat_eq_iff unat_align_down_neg)

interpretation frames: frame_pool "alloc_frame x86_phys_frame" free_frame "\<lambda>fa. mset (free fa)"
  "\<lambda>f. 4096 dvd unat f \<and> unat f < 2 ^ 52"
  by (rule alloc_frame_pool) (rule x86_phys_frame_ok)

section \<open>Properties\<close>

text \<open>
  The frames that should be free after boot: those wholly inside a usable entry of the memory
  map and clear of the heap.
\<close>

definition boot_frames :: "entry list \<Rightarrow> u64 \<Rightarrow> u64 \<Rightarrow> u64 set" where
  "boot_frames es heap_start heap_end =
     {f. (\<exists>e \<in> set es. kind e = USABLE \<and>
            f \<in> frames_within (unat (base e)) (unat (base e) + unat (length_of e))) \<and>
         outside_heap heap_start heap_end f}"

lemma set_init_regions:
  assumes "\<forall>e \<in> set es. entry_ok e" "hs \<le> he"
  shows "set (free (init_regions new_frame_allocator es hs he)) = boot_frames es hs he"
proof -
  have "set (entry_frames hs he e) = (if kind e = USABLE then
      {f \<in> frames_within (unat (base e)) (unat (base e) + unat (length_of e)). outside_heap hs he f}
      else {})" if "e \<in> set es" for e
    using that assms set_entry_frames entry_frames_other by auto
  then show ?thesis
    by (auto simp: free_init_regions boot_frames_def new_frame_allocator_def split: if_splits)
qed

lemma frames_init_eq:
  assumes "phys_frame_ok pf" "\<forall>f \<in> set (free fa'). 4096 dvd unat f \<and> unat f < 2 ^ 52"
    and "fa' = init_regions fa es hs he"
  shows "frames_init pf fa es hs he = (if free fa' = [] then Inl Panic else Inr fa')"
proof (cases "free fa' = []")
  case True
  with assms(3) show ?thesis by (simp add: frames_init_def alloc_frame_def)
next
  case False
  then have "pf (last (free fa')) = Inr (last (free fa'))"
    using assms(1,2) by (simp add: phys_frame_ok_def)
  with False show ?thesis
    by (simp add: frames_init_def alloc_frame_def free_frame_def flip: assms(3))
qed


text \<open>The memory map describes memory below 2^52, the physical address width.\<close>

definition map_ok :: "entry list \<Rightarrow> bool" where
  "map_ok es \<longleftrightarrow> (\<forall>e \<in> set es. unat (base e) + unat (length_of e) \<le> 2 ^ 52)"

lemma map_ok_entry_ok: "map_ok es \<Longrightarrow> \<forall>e \<in> set es. entry_ok e"
  by (fastforce simp: map_ok_def entry_ok_def)

lemma boot_frames_sound: "map_ok es \<Longrightarrow> f \<in> boot_frames es hs he \<Longrightarrow> 4096 dvd unat f \<and> unat f < 2 ^ 52"
  by (fastforce simp: map_ok_def boot_frames_def frames_within_def)

lemma frames_init_boot:
  assumes "phys_frame_ok pf" "map_ok es" "hs \<le> he"
  defines "fa \<equiv> init_regions new_frame_allocator es hs he"
  shows "frames_init pf new_frame_allocator es hs he = (if boot_frames es hs he = {} then Inl Panic else Inr fa)"
    and "set (free fa) = boot_frames es hs he"
proof -
  show pool: "set (free fa) = boot_frames es hs he"
    unfolding fa_def by (intro set_init_regions map_ok_entry_ok assms)
  then have "\<forall>f \<in> set (free fa). 4096 dvd unat f \<and> unat f < 2 ^ 52"
    using boot_frames_sound [OF assms(2)] by blast
  with pool show "frames_init pf new_frame_allocator es hs he =
      (if boot_frames es hs he = {} then Inl Panic else Inr fa)"
    using frames_init_eq [OF assms(1) _ fa_def [THEN meta_eq_to_obj_eq]] by (simp flip: pool)
qed

text \<open>Memory maps whose entries do not overlap.\<close>

definition entries_disjoint :: "entry \<Rightarrow> entry \<Rightarrow> bool" where
  "entries_disjoint e e' \<longleftrightarrow>
     unat (base e) + unat (length_of e) \<le> unat (base e') \<or> unat (base e') + unat (length_of e') \<le> unat (base e)"

lemma distinct_init_regions:
  assumes "\<forall>e \<in> set es. entry_ok e" "hs \<le> he" "sorted_wrt entries_disjoint es"
  shows "distinct (free (init_regions new_frame_allocator es hs he))"
proof -
  have sub: "set (entry_frames hs he e) \<subseteq> frames_within (unat (base e)) (unat (base e) + unat (length_of e))"
    if "e \<in> set es" for e
    using that assms(1,2) set_entry_frames [of e hs he] entry_frames_other [of e hs he] by (cases "kind e = USABLE") auto
  have disj: "set (entry_frames hs he e) \<inter> set (entry_frames hs he e') = {}"
    if "e \<in> set es" "e' \<in> set es" "entries_disjoint e e'" for e e'
    using that(3) sub [OF that(1)] sub [OF that(2)] frames_within_disjoint
    by (fastforce simp: entries_disjoint_def)
  have "distinct (entry_frames hs he e)" if "e \<in> set es" for e
    using that assms(1,2) entry_frames_usable(2) [of e hs he] entry_frames_other [of e hs he]
    by (cases "kind e = USABLE") (auto simp: word_le_nat_alt)
  with disj assms(3) have "distinct (concat (map (entry_frames hs he) es))"
    by (induction es) auto
  then show ?thesis by (simp add: free_init_regions new_frame_allocator_def)
qed

text \<open>
  frames::init leaves in the pool exactly the 4-KiB frames that lie wholly inside a USABLE
  entry of the memory map and do not touch the heap's range, for every memory map below 2^52;
  when there is no such frame it panics instead of returning.
\<close>

theorem frames_init_pool:
  assumes "phys_frame_ok pf" "map_ok es" "hs \<le> he"
  shows "if boot_frames es hs he = {}
         then frames_init pf new_frame_allocator es hs he = Inl Panic
         else \<exists>fa. frames_init pf new_frame_allocator es hs he = Inr fa \<and> set (free fa) = boot_frames es hs he"
  using frames_init_boot [OF assms] by simp

theorem frames_init_pool_witness:
  "\<exists>fa. frames_init x86_phys_frame new_frame_allocator
       [\<lparr>base = 0x800, length_of = 0x4000, kind = USABLE\<rparr>] 0x2000 0x3000 = Inr fa \<and>
     set (free fa) = boot_frames [\<lparr>base = 0x800, length_of = 0x4000, kind = USABLE\<rparr>] 0x2000 0x3000"
proof -
  let ?es = "[\<lparr>base = 0x800, length_of = 0x4000, kind = USABLE\<rparr>]"
  have "map_ok ?es" by (simp add: map_ok_def)
  moreover have "0x1000 \<in> boot_frames ?es 0x2000 0x3000"
    by (simp add: boot_frames_def frames_within_def outside_heap_def)
  then have "boot_frames ?es 0x2000 0x3000 \<noteq> {}" by blast
  ultimately show ?thesis
    using frames_init_pool [OF x86_phys_frame_ok, of ?es "0x2000" "0x3000"] by simp
qed

text \<open>
  C4. Exclusive ownership: from a pool filled from a memory map without overlapping entries,
  along any sequence of allocations and releases of owned frames, the free and the owned frames
  together stay the frames of the boot pool, each of them held exactly once; so no two live
  allocations share a frame.
\<close>

theorem frames_exclusive:
  assumes "phys_frame_ok pf" "map_ok es" "hs \<le> he" "sorted_wrt entries_disjoint es"
    and "frames_init pf new_frame_allocator es hs he = Inr fa\<^sub>0"
    and "reachable (own_step (alloc_frame pf) free_frame) (fa\<^sub>0, {#}) (fa, owned)"
  shows "set_mset (mset (free fa) + owned) = boot_frames es hs he \<and>
    (\<forall>f \<in> boot_frames es hs he. count (mset (free fa) + owned) f = 1)"
proof -
  note init = frames_init_boot [OF assms(1-3)]
  have fa0: "fa\<^sub>0 = init_regions new_frame_allocator es hs he"
    using init(1) assms(5) by (simp split: if_splits)
  have sound: "\<forall>f \<in># mset (free fa\<^sub>0). 4096 dvd unat f \<and> unat f < 2 ^ 52"
    using boot_frames_sound [OF assms(2)] init(2) by (simp add: fa0)
  have total: "mset (free fa) + owned = mset (free fa\<^sub>0)"
    using frame_pool.own_accounted [OF alloc_frame_pool [OF assms(1)] sound assms(6)] .
  have "distinct (free fa\<^sub>0)"
    using distinct_init_regions [OF map_ok_entry_ok [OF assms(2)] assms(3,4)] by (simp add: fa0)
  then show ?thesis
    unfolding total using init(2) by (simp add: fa0 distinct_count_atmost_1)
qed


theorem frames_exclusive_witness:
  "\<exists>fa\<^sub>0 fa f. frames_init x86_phys_frame new_frame_allocator
       [\<lparr>base = 0x800, length_of = 0x4000, kind = USABLE\<rparr>] 0x2000 0x3000 = Inr fa\<^sub>0 \<and>
     alloc_frame x86_phys_frame fa\<^sub>0 = Inr (Some f, fa) \<and>
     count (mset (free fa) + {#f#}) 0x1000 = 1"
proof -
  let ?es = "[\<lparr>base = 0x800, length_of = 0x4000, kind = USABLE\<rparr>]"
  let ?fa0 = "init_regions new_frame_allocator ?es 0x2000 0x3000"
  have ok: "map_ok ?es" "sorted_wrt entries_disjoint ?es" by (simp_all add: map_ok_def)
  have le: "(0x2000 :: u64) \<le> 0x3000" by simp
  have mem: "0x1000 \<in> boot_frames ?es 0x2000 0x3000"
    by (simp add: boot_frames_def frames_within_def outside_heap_def)
  then have "boot_frames ?es 0x2000 0x3000 \<noteq> {}" by blast
  then have init: "frames_init x86_phys_frame new_frame_allocator ?es 0x2000 0x3000 = Inr ?fa0"
    and pool: "set (free ?fa0) = boot_frames ?es 0x2000 0x3000"
    using frames_init_boot [OF x86_phys_frame_ok ok(1), of "0x2000" "0x3000"] by simp_all
  have "\<forall>f \<in># mset (free ?fa0). 4096 dvd unat f \<and> unat f < 2 ^ 52"
    using boot_frames_sound [OF ok(1)] pool by simp
  moreover have "mset (free ?fa0) \<noteq> {#}" using pool mem by auto
  ultimately obtain f fa where al: "alloc_frame x86_phys_frame ?fa0 = Inr (Some f, fa)"
    using frames.alloc_frame by blast
  then have "reachable (own_step (alloc_frame x86_phys_frame) free_frame) (?fa0, {#}) (fa, {#f#})"
    by (intro r_into_rtranclp own_alloc)
  then have "count (mset (free fa) + {#f#}) 0x1000 = 1"
    using frames_exclusive [OF x86_phys_frame_ok ok(1) _ ok(2) init, of fa "{#f#}"] mem
    by (metis le)
  with init al show ?thesis by blast
qed

end
