(* ===== verification/Virtqueue.thy ===== *)
theory Virtqueue
  imports Frames
begin

unbundle bit_operations_syntax

text \<open>
  Split virtqueues, the second half of arsenal-kernel/src/virtio.rs: the descriptor table with
  its free chain, the available ring the driver publishes requests on and the used ring the
  device completes them on. The device is modelled as an environment that fetches published
  requests and completes fetched ones in any order. The theory shows that the driver's
  bookkeeping is exact along every interleaving of driver and device steps.

  The three rings live in one frame that the device also reads and writes; the record below is
  the contents of that frame, with the pointers \<open>desc\<close>, \<open>avail\<close> and
  \<open>used\<close> replaced by what they point at.
\<close>

section \<open>Model\<close>

definition VIRTQ_DESC_F_NEXT :: u16 where "VIRTQ_DESC_F_NEXT = 1"
definition VIRTQ_DESC_F_WRITE :: u16 where "VIRTQ_DESC_F_WRITE = 2"

record virtq_desc =
  addr :: u64
  len :: u32
  flags :: u16
  nxt :: u16

record virtq_used_elem =
  used_id :: u32
  used_len :: u32

record virtqueue =
  qsize :: u16
  desc :: "virtq_desc list"
  avail_idx :: u16
  avail_ring :: "u16 list"
  used_idx :: u16
  used_ring :: "virtq_used_elem list"
  desc_phys :: u64
  avail_phys :: u64
  used_phys :: u64
  free_head :: u16
  num_free :: u16
  last_used_idx :: u16
  backing_frame :: u64

definition is_power_of_two :: "u16 \<Rightarrow> bool" where
  "is_power_of_two n \<longleftrightarrow> n \<in> set (map (\<lambda>k. 2 ^ k) [0..<16])"

text \<open>The byte layout of the three rings inside the frame, in usize arithmetic.\<close>

definition desc_size :: "u16 \<Rightarrow> usize" where
  "desc_size sz = 16 * ucast sz"

definition avail_size :: "u16 \<Rightarrow> usize" where
  "avail_size sz = 4 + 2 * ucast sz"

definition used_offset :: "u16 \<Rightarrow> usize" where
  "used_offset sz = (desc_size sz + avail_size sz + 3) AND NOT 3"

definition used_size :: "u16 \<Rightarrow> usize" where
  "used_size sz = 4 + 8 * ucast sz"

definition virtq_new ::
  "phys_frame_ctor \<Rightarrow> frame_allocator \<Rightarrow> u16 \<Rightarrow> (virtqueue \<times> frame_allocator) outcome" where
  "virtq_new phys_frame fa sz =
     and_then (rust_assert (sz > 0 \<and> is_power_of_two sz)) (\<lambda>_.
     and_then (rust_assert (used_offset sz + used_size sz \<le> 4096)) (\<lambda>_.
     and_then (alloc_frame phys_frame fa) (\<lambda>(frame, fa).
     and_then (expect frame) (\<lambda>phys.
       let n = unat sz
       in Inr (\<lparr>qsize = sz,
                desc = map (\<lambda>i. \<lparr>addr = 0, len = 0, flags = 0,
                                 nxt = (if i = n - 1 then 0 else of_nat (i + 1))\<rparr>) [0..<n],
                avail_idx = 0, avail_ring = replicate n 0,
                used_idx = 0, used_ring = replicate n \<lparr>used_id = 0, used_len = 0\<rparr>,
                desc_phys = phys, avail_phys = phys + desc_size sz, used_phys = phys + used_offset sz,
                free_head = 0, num_free = sz, last_used_idx = 0, backing_frame = phys\<rparr>, fa)))))"

definition virtq_drop :: "frame_allocator \<Rightarrow> virtqueue \<Rightarrow> frame_allocator" where
  "virtq_drop fa vq = free_frame fa (backing_frame vq)"

text \<open>The write of a head index to the available ring that ends both push operations.\<close>

definition publish :: "virtqueue \<Rightarrow> u16 \<Rightarrow> virtqueue outcome" where
  "publish vq idx =
     (if qsize vq = 0 then Inl Panic
      else let ring_slot = unat (avail_idx vq mod qsize vq)
           in if ring_slot < length (avail_ring vq)
              then Inr (vq\<lparr>avail_ring := (avail_ring vq)[ring_slot := idx], avail_idx := avail_idx vq + 1\<rparr>)
              else Inl Undefined)"

definition push_descriptor ::
  "virtqueue \<Rightarrow> u64 \<Rightarrow> u32 \<Rightarrow> u16 \<Rightarrow> (u16 option \<times> virtqueue) outcome" where
  "push_descriptor vq a l f =
     (if num_free vq = 0 then Inr (None, vq)
      else let idx = free_head vq
           in if unat idx < length (desc vq)
              then and_then
                (publish (vq\<lparr>free_head := nxt (desc vq ! unat idx),
                            desc := (desc vq)[unat idx := \<lparr>addr = a, len = l, flags = f AND NOT VIRTQ_DESC_F_NEXT, nxt = 0\<rparr>],
                            num_free := num_free vq - 1\<rparr>) idx)
                (\<lambda>vq. Inr (Some idx, vq))
              else Inl Undefined)"

text \<open>The loop that pops descriptors off the free chain, recording their indices.\<close>

fun take_free :: "virtq_desc list \<Rightarrow> u16 \<Rightarrow> nat \<Rightarrow> (u16 list \<times> u16) outcome" where
  "take_free ds cur 0 = Inr ([], cur)"
| "take_free ds cur (Suc n) =
     (if unat cur < length ds
      then and_then (take_free ds (nxt (ds ! unat cur)) n) (\<lambda>(is, cur'). Inr (cur # is, cur'))
      else Inl Undefined)"

text \<open>The loop that fills the popped descriptors, each linked to the one after it.\<close>

type_synonym part = "u64 \<times> u32 \<times> u16"

fun fill_chain :: "virtq_desc list \<Rightarrow> u16 list \<Rightarrow> part list \<Rightarrow> virtq_desc list outcome" where
  "fill_chain ds (idx # is) ((a, l, f) # parts) =
     (if unat idx < length ds
      then fill_chain
        (ds[unat idx := \<lparr>addr = a, len = l,
                        flags = (f AND NOT VIRTQ_DESC_F_NEXT) OR (if parts = [] then 0 else VIRTQ_DESC_F_NEXT),
                        nxt = (case is of [] \<Rightarrow> 0 | next_idx # _ \<Rightarrow> next_idx)\<rparr>]) is parts
      else Inl Undefined)"
| "fill_chain ds _ _ = Inr ds"

definition push_chain :: "virtqueue \<Rightarrow> part list \<Rightarrow> (u16 option \<times> virtqueue) outcome" where
  "push_chain vq parts =
     (if parts = [] \<or> (of_nat (length parts) :: u16) > num_free vq then Inr (None, vq)
      else and_then (rust_assert (length parts \<le> 8)) (\<lambda>_.
           and_then (take_free (desc vq) (free_head vq) (length parts)) (\<lambda>(indices, cur).
           and_then (fill_chain (desc vq) indices parts) (\<lambda>ds.
           and_then (publish (vq\<lparr>free_head := cur, num_free := num_free vq - of_nat (length parts), desc := ds\<rparr>)
                       (hd indices)) (\<lambda>vq.
             Inr (Some (hd indices), vq))))))"

text \<open>
  The loop of pop\_used that returns a chain to the free list. It stops at the first
  descriptor without F\_NEXT; \<open>None\<close> is a walk that never stops.
\<close>

partial_function (option) free_chain ::
  "virtq_desc list \<Rightarrow> u16 \<Rightarrow> u16 \<Rightarrow> u16 \<Rightarrow> (virtq_desc list \<times> u16 \<times> u16) outcome option" where
  "free_chain ds fh nf cur =
     (if unat cur < length ds
      then let d = ds ! unat cur;
               ds' = ds[unat cur := d\<lparr>nxt := fh\<rparr>]
           in if flags d AND VIRTQ_DESC_F_NEXT = 0 then Some (Inr (ds', cur, nf + 1))
              else free_chain ds' cur (nf + 1) (nxt d)
      else Some (Inl Undefined))"

definition pop_used :: "virtqueue \<Rightarrow> (virtq_used_elem option \<times> virtqueue) outcome option" where
  "pop_used vq =
     (if used_idx vq = last_used_idx vq then Some (Inr (None, vq))
      else if qsize vq = 0 then Some (Inl Panic)
      else let ring_slot = unat (last_used_idx vq mod qsize vq)
           in if ring_slot < length (used_ring vq)
              then let elem = used_ring vq ! ring_slot
                   in map_option (\<lambda>r. and_then r (\<lambda>(ds, fh, nf).
                        Inr (Some elem, vq\<lparr>last_used_idx := last_used_idx vq + 1,
                                          desc := ds, free_head := fh, num_free := nf\<rparr>)))
                        (free_chain (desc vq) (free_head vq) (num_free vq) (ucast (used_id elem)))
              else Some (Inl Undefined))"

section \<open>Chains of descriptors\<close>

text \<open>The free chain: the indices reachable from a head through \<open>next\<close>.\<close>

fun free_path :: "virtq_desc list \<Rightarrow> u16 \<Rightarrow> u16 list \<Rightarrow> bool" where
  "free_path ds h [] = True"
| "free_path ds h (x # xs) = (x = h \<and> unat x < length ds \<and> free_path ds (nxt (ds ! unat x)) xs)"

text \<open>A request: a chain in which every descriptor but the last carries F\_NEXT.\<close>

fun request :: "virtq_desc list \<Rightarrow> u16 list \<Rightarrow> bool" where
  "request ds [] = False"
| "request ds [x] = (unat x < length ds \<and> flags (ds ! unat x) AND VIRTQ_DESC_F_NEXT = 0)"
| "request ds (x # y # ys) =
     (unat x < length ds \<and> flags (ds ! unat x) AND VIRTQ_DESC_F_NEXT \<noteq> 0 \<and>
      nxt (ds ! unat x) = y \<and> request ds (y # ys))"

text \<open>The buffers a device reads off a chain that it walks from a head.\<close>

definition desc_part :: "virtq_desc \<Rightarrow> part" where
  "desc_part d = (addr d, len d, flags d AND NOT VIRTQ_DESC_F_NEXT)"

lemma request_nonempty: "request ds r \<Longrightarrow> r \<noteq> []"
  by (cases r) auto

lemma free_path_cong:
  "length ds' = length ds \<Longrightarrow> \<forall>x \<in> set xs. ds' ! unat x = ds ! unat x \<Longrightarrow> free_path ds' h xs = free_path ds h xs"
  by (induction xs arbitrary: h) auto

lemma request_cong:
  "length ds' = length ds \<Longrightarrow> \<forall>x \<in> set xs. ds' ! unat x = ds ! unat x \<Longrightarrow> request ds' xs = request ds xs"
  by (induction ds xs rule: request.induct) auto

lemma request_bound: "request ds r \<Longrightarrow> x \<in> set r \<Longrightarrow> unat x < length ds"
  by (induction ds r rule: request.induct) auto

lemma free_path_bound: "free_path ds h xs \<Longrightarrow> x \<in> set xs \<Longrightarrow> unat x < length ds"
  by (induction xs arbitrary: h) auto

lemma free_path_append: "free_path ds h (xs @ ys) \<Longrightarrow> free_path ds h xs"
  by (induction xs arbitrary: h) auto

lemma take_free_path:
  "free_path ds h (xs @ ys) \<Longrightarrow> \<exists>h'. take_free ds h (length xs) = Inr (xs, h') \<and> free_path ds h' ys"
  by (induction xs arbitrary: h) fastforce+


lemma flag_next_simps [simp]:
  "(f AND NOT VIRTQ_DESC_F_NEXT) AND VIRTQ_DESC_F_NEXT = 0"
  "((f AND NOT VIRTQ_DESC_F_NEXT) OR VIRTQ_DESC_F_NEXT) AND VIRTQ_DESC_F_NEXT = VIRTQ_DESC_F_NEXT"
  "((f AND NOT VIRTQ_DESC_F_NEXT) OR VIRTQ_DESC_F_NEXT) AND NOT VIRTQ_DESC_F_NEXT = f AND NOT VIRTQ_DESC_F_NEXT"
  "(f AND NOT VIRTQ_DESC_F_NEXT) AND NOT VIRTQ_DESC_F_NEXT = f AND NOT VIRTQ_DESC_F_NEXT"
  by (rule bit_eqI; auto simp: bit_simps VIRTQ_DESC_F_NEXT_def)+

lemma flag_next_nonzero [simp]: "VIRTQ_DESC_F_NEXT \<noteq> 0"
  by (simp add: VIRTQ_DESC_F_NEXT_def)

text \<open>Filling a set of free descriptors makes them one request that carries the given parts.\<close>

lemma fill_chain_request:
  assumes "distinct is" "\<forall>x \<in> set is. unat x < length ds" "length parts = length is" "is \<noteq> []"
  shows "\<exists>ds'. fill_chain ds is parts = Inr ds' \<and> length ds' = length ds \<and>
    (\<forall>i. i \<notin> unat ` set is \<longrightarrow> ds' ! i = ds ! i) \<and> request ds' is \<and>
    map (\<lambda>x. desc_part (ds' ! unat x)) is = map (\<lambda>(a, l, f). (a, l, f AND NOT VIRTQ_DESC_F_NEXT)) parts"
  using assms
proof (induction "is" arbitrary: ds parts)
  case Nil
  then show ?case by simp
next
  case (Cons x xs)
  then obtain a l f ps where parts: "parts = (a, l, f) # ps" by (cases parts) auto
  have x: "unat x \<notin> unat ` set xs" using Cons.prems(1) by simp
  show ?case
  proof (cases xs)
    case Nil
    with Cons.prems parts show ?thesis by (auto simp: desc_part_def)
  next
    case (Cons y ys)
    let ?d = "\<lparr>addr = a, len = l, flags = (f AND NOT VIRTQ_DESC_F_NEXT) OR VIRTQ_DESC_F_NEXT, nxt = y\<rparr>"
    let ?ds = "ds[unat x := ?d]"
    have "ps \<noteq> []" using Cons.prems(3) Cons parts by auto
    then have fc: "fill_chain ds (x # xs) parts = fill_chain ?ds xs ps"
      using Cons.prems(2) Cons by (simp add: parts)
    obtain ds' where ds': "fill_chain ?ds xs ps = Inr ds'" "length ds' = length ds"
      "\<forall>i. i \<notin> unat ` set xs \<longrightarrow> ds' ! i = ?ds ! i" "request ds' xs"
      "map (\<lambda>x. desc_part (ds' ! unat x)) xs = map (\<lambda>(a, l, f). (a, l, f AND NOT VIRTQ_DESC_F_NEXT)) ps"
      using Cons.IH [of ?ds ps] Cons.prems Cons parts by auto
    from ds'(3) x have d: "ds' ! unat x = ?d" using Cons.prems(2) by simp
    with ds' Cons x Cons.prems(2) show ?thesis
      by (auto simp: fc parts desc_part_def nth_list_update)
  qed
qed

text \<open>Freeing a request pushes its descriptors, last one first, on the free chain.\<close>

lemma free_chain_request:
  assumes "request ds r" "distinct r" "free_path ds fh fl" "set fl \<inter> set r = {}"
  shows "\<exists>ds'. free_chain ds fh nf (hd r) = Some (Inr (ds', last r, nf + of_nat (length r))) \<and>
    length ds' = length ds \<and> (\<forall>i. i \<notin> unat ` set r \<longrightarrow> ds' ! i = ds ! i) \<and>
    free_path ds' (last r) (rev r @ fl)"
  using assms
proof (induction r arbitrary: ds fh nf fl)
  case Nil
  then show ?case by simp
next
  case (Cons x xs)
  let ?d = "ds ! unat x"
  let ?ds = "ds[unat x := ?d\<lparr>nxt := fh\<rparr>]"
  have x: "unat x < length ds" using Cons.prems(1) by (auto dest: request_bound)
  have other: "?ds ! unat y = ds ! unat y" if "y \<noteq> x" for y
    using that by simp
  have "\<forall>y \<in> set fl. ?ds ! unat y = ds ! unat y"
    using Cons.prems(4) other by (metis disjoint_iff list.set_intros(1))
  then have "free_path ?ds fh fl = free_path ds fh fl"
    by (intro free_path_cong) simp_all
  then have fl: "free_path ?ds x (x # fl)"
    using x Cons.prems(3) by simp
  show ?case
  proof (cases xs)
    case Nil
    with Cons.prems x fl show ?thesis by (subst free_chain.simps) auto
  next
    case (Cons y ys)
    have "\<forall>z \<in> set xs. ?ds ! unat z = ds ! unat z"
      using Cons.prems(2) other by (metis distinct.simps(2))
    then have req: "request ?ds xs"
      using Cons.prems(1) Cons by (subst request_cong [of ?ds ds]) simp_all
    have fc: "free_chain ds fh nf (hd (x # xs)) = free_chain ?ds x (nf + 1) (hd xs)"
      using Cons.prems(1) Cons x by (subst free_chain.simps) (simp add: Let_def)
    have "set (x # fl) \<inter> set xs = {}" using Cons.prems(2,4) by auto
    then obtain ds' where ds':
      "free_chain ?ds x (nf + 1) (hd xs) = Some (Inr (ds', last xs, nf + 1 + of_nat (length xs)))"
      "length ds' = length ds" "\<forall>i. i \<notin> unat ` set xs \<longrightarrow> ds' ! i = ?ds ! i"
      "free_path ds' (last xs) (rev xs @ x # fl)"
      using Cons.IH [OF req _ fl, of "nf + 1"] Cons.prems(2) by auto
    have "free_chain ds fh nf (hd (x # xs)) =
        Some (Inr (ds', last (x # xs), nf + of_nat (length (x # xs))))"
      by (simp only: fc ds'(1)) (use Cons in simp)
    with ds'(2-4) show ?thesis by (intro exI [of _ ds']) (use Cons in simp)
  qed
qed


section \<open>Rings indexed by free-running 16-bit counters\<close>

text \<open>
  Both rings are indexed by counters that run freely through all 16-bit values and are reduced
  modulo the queue size; this is consistent across the wrap of the counter because the size is
  a power of two.
\<close>

lemma is_power_of_two_unat:
  assumes "is_power_of_two n"
  shows "unat n dvd 2 ^ 16" "0 < unat n"
proof -
  from assms obtain k where k: "k < 16" "n = 2 ^ k" by (auto simp: is_power_of_two_def)
  have "unat (2 ^ k :: u16) = 2 ^ k"
    using unat_of_nat_small [of "2 ^ k", where 'a = 16] power_strict_increasing [OF k(1), of "2 :: nat"] by simp
  with k show "unat n dvd 2 ^ 16" "0 < unat n" using le_imp_power_dvd [of k 16 "2 :: nat"] by simp_all
qed

lemma unat_slot:
  assumes "is_power_of_two n"
  shows "unat ((i + of_nat k) mod n) = (unat i + k) mod unat n"
proof -
  have "unat (i + of_nat k) = (unat i + k) mod 2 ^ 16"
    by (simp add: unat_word_ariths unat_of_nat mod_add_right_eq)
  then show ?thesis
    using mod_mod_cancel [OF is_power_of_two_unat(1) [OF assms]] by (simp add: unat_mod_distrib)
qed

definition ring_holds :: "'a list \<Rightarrow> u16 \<Rightarrow> 'a list \<Rightarrow> bool" where
  "ring_holds ring start xs \<longleftrightarrow>
     length xs \<le> length ring \<and> (\<forall>k < length xs. ring ! ((unat start + k) mod length ring) = xs ! k)"

lemma slot_neq: "j < k \<Longrightarrow> k < n \<Longrightarrow> (a + j) mod n \<noteq> (a + k) mod (n :: nat)"
  using mod_eq_dvd_iff_nat [of "a + j" "a + k" n] nat_dvd_not_less [of "k - j" n] by auto

lemma ring_push:
  assumes "is_power_of_two n" "length ring = unat n" "ring_holds ring start xs" "length xs < unat n"
  shows "ring_holds (ring[unat ((start + of_nat (length xs)) mod n) := v]) start (xs @ [v])"
  using assms(3,4) slot_neq [of _ "length xs" "unat n" "unat start"]
  by (fastforce simp: ring_holds_def unat_slot [OF assms(1)] assms(2) nth_append less_Suc_eq nth_list_update)

lemma ring_pop:
  assumes "is_power_of_two n" "length ring = unat n" "ring_holds ring start (x # xs)"
  shows "ring ! unat (start mod n) = x" "ring_holds ring (start + 1) xs"
proof -
  show "ring ! unat (start mod n) = x"
    using assms(3) unat_slot [OF assms(1), of start 0] by (auto simp: ring_holds_def assms(2))
  have "(unat (start + 1) + k) mod unat n = (unat start + Suc k) mod unat n" for k
  proof -
    have "unat (start + 1) mod unat n = (unat start + 1) mod unat n"
      using unat_slot [OF assms(1), of start 1] by (simp add: unat_mod_distrib)
    then show ?thesis by (metis add.assoc mod_add_left_eq plus_1_eq_Suc)
  qed
  then show "ring_holds ring (start + 1) xs"
    using assms(3) by (auto simp: ring_holds_def assms(2) Suc_le_eq)
qed

section \<open>Descriptor accounting\<close>

text \<open>
  The descriptors are the free chain and the requests in flight: each descriptor belongs to
  exactly one of them, and \<open>num_free\<close> is the length of the free chain.
\<close>

definition accounted :: "virtq_desc list \<Rightarrow> u16 \<Rightarrow> u16 \<Rightarrow> u16 list \<Rightarrow> u16 list list \<Rightarrow> bool" where
  "accounted ds fh nf fl reqs \<longleftrightarrow>
     free_path ds fh fl \<and> length fl = unat nf \<and> (\<forall>r \<in> set reqs. request ds r) \<and>
     distinct (fl @ concat reqs) \<and> length (fl @ concat reqs) = length ds"

lemma accounted_perm:
  assumes "mset reqs = mset reqs'" "accounted ds fh nf fl reqs"
  shows "accounted ds fh nf fl reqs'"
proof -
  have m: "mset (fl @ concat reqs) = mset (fl @ concat reqs')"
    using assms(1) by (simp add: mset_concat) (metis mset_map sum_mset_sum_list)
  then show ?thesis
    using assms mset_eq_imp_distinct_iff [OF m] mset_eq_length [OF m] mset_eq_setD [OF assms(1)]
    by (simp add: accounted_def)
qed

lemma length_le_concat: "\<forall>r \<in> set rs. r \<noteq> [] \<Longrightarrow> length rs \<le> length (concat rs)"
  by (induction rs) (auto simp: Suc_le_eq add_strict_increasing)

lemma accounted_in_flight:
  "accounted ds fh nf fl reqs \<Longrightarrow> unat nf + length reqs \<le> length ds"
  using length_le_concat [of reqs] request_nonempty by (fastforce simp: accounted_def)

lemma agree_off:
  "set xs \<inter> set ys = {} \<Longrightarrow> \<forall>i. i \<notin> unat ` set xs \<longrightarrow> ds' ! i = ds ! i \<Longrightarrow>
   \<forall>x \<in> set (ys :: u16 list). ds' ! unat x = ds ! unat x"
  by (metis disjoint_iff unat_image_iff)

lemma accounted_alloc:
  assumes "accounted ds fh nf (xs @ ys) reqs" "xs \<noteq> []" "length ds' = length ds"
    and "\<forall>i. i \<notin> unat ` set xs \<longrightarrow> ds' ! i = ds ! i" "request ds' xs" "free_path ds fh' ys"
  shows "accounted ds' fh' (nf - of_nat (length xs)) ys (xs # reqs)"
proof -
  have len: "length xs + length ys = unat nf" using assms(1) by (simp add: accounted_def)
  then have "unat (of_nat (length xs) :: u16) = length xs"
    using unat_bound [of nf] by (intro unat_of_nat_small) simp
  then have nf: "unat (nf - of_nat (length xs)) = length ys"
    using len by (simp add: unat_sub word_le_nat_alt)
  have disj: "set xs \<inter> set ys = {}" "\<And>r. r \<in> set reqs \<Longrightarrow> set xs \<inter> set r = {}"
    using assms(1) by (auto simp: accounted_def)
  from agree_off [OF disj(1) assms(4)] have "free_path ds' fh' ys"
    using assms(6) by (subst free_path_cong [OF assms(3)]) simp_all
  moreover have "request ds' r" if "r \<in> set reqs" for r
  proof -
    from agree_off [OF disj(2) [OF that] assms(4)] show ?thesis
      using request_cong [OF assms(3)] assms(1) that by (auto simp: accounted_def)
  qed
  ultimately show ?thesis
    using assms(1,3,5) nf by (auto simp: accounted_def)
qed

lemma accounted_free:
  assumes "accounted ds fh nf fl (r # reqs)" "length ds < 2 ^ 16"
  shows "\<exists>ds'. free_chain ds fh nf (hd r) = Some (Inr (ds', last r, nf + of_nat (length r))) \<and>
    accounted ds' (last r) (nf + of_nat (length r)) (rev r @ fl) reqs \<and>
    length ds' = length ds \<and> unat (nf + of_nat (length r)) = unat nf + length r"
proof -
  have r: "request ds r" "distinct r" "free_path ds fh fl" "set fl \<inter> set r = {}"
    and len: "length fl = unat nf" "length r + (length fl + length (concat reqs)) = length ds"
    using assms(1) by (auto simp: accounted_def)
  obtain ds' where ds': "free_chain ds fh nf (hd r) = Some (Inr (ds', last r, nf + of_nat (length r)))"
    "length ds' = length ds" "\<forall>i. i \<notin> unat ` set r \<longrightarrow> ds' ! i = ds ! i" "free_path ds' (last r) (rev r @ fl)"
    using free_chain_request [OF r] by blast
  have nf: "unat (nf + of_nat (length r)) = unat nf + length r"
    using len assms(2) by (subst unat_add_noof) (simp_all add: unat_of_nat_small)
  have "request ds' q" if "q \<in> set reqs" for q
  proof -
    have "set r \<inter> set q = {}" using that assms(1) by (auto simp: accounted_def)
    from agree_off [OF this ds'(3)] show ?thesis
      using request_cong [OF ds'(2)] assms(1) that by (auto simp: accounted_def)
  qed
  with ds' nf assms(1) show ?thesis by (auto simp: accounted_def)
qed


section \<open>The driver's operations on an accounted queue\<close>

definition vq_ok :: "virtqueue \<Rightarrow> bool" where
  "vq_ok v \<longleftrightarrow> is_power_of_two (qsize v) \<and> length (desc v) = unat (qsize v) \<and>
     length (avail_ring v) = unat (qsize v) \<and> length (used_ring v) = unat (qsize v)"

abbreviation vq_accounted :: "virtqueue \<Rightarrow> u16 list \<Rightarrow> u16 list list \<Rightarrow> bool" where
  "vq_accounted v \<equiv> accounted (desc v) (free_head v) (num_free v)"

lemma publish_eq:
  assumes "vq_ok v"
  shows "publish v idx =
    Inr (v\<lparr>avail_ring := (avail_ring v)[unat (avail_idx v mod qsize v) := idx], avail_idx := avail_idx v + 1\<rparr>)"
proof -
  have "0 < unat (qsize v)" using assms is_power_of_two_unat(2) by (simp add: vq_ok_def)
  then show ?thesis
    using assms by (auto simp: publish_def vq_ok_def unat_mod_distrib Let_def)
qed

lemma push_chain_eq:
  assumes "vq_ok v" "vq_accounted v fl reqs"
    and "parts \<noteq> []" "length parts \<le> 8" "length parts \<le> unat (num_free v)"
  defines "r \<equiv> take (length parts) fl" and "fl' \<equiv> drop (length parts) fl"
  shows "\<exists>ds' fh'. push_chain v parts =
      Inr (Some (hd r), v\<lparr>free_head := fh', num_free := num_free v - of_nat (length parts), desc := ds',
        avail_ring := (avail_ring v)[unat (avail_idx v mod qsize v) := hd r], avail_idx := avail_idx v + 1\<rparr>) \<and>
    accounted ds' fh' (num_free v - of_nat (length parts)) fl' (r # reqs) \<and> length ds' = length (desc v) \<and>
    map (\<lambda>x. desc_part (ds' ! unat x)) r = map (\<lambda>(a, l, f). (a, l, f AND NOT VIRTQ_DESC_F_NEXT)) parts"
proof -
  have fl: "fl = r @ fl'" by (simp add: r_def fl'_def)
  have lr: "length r = length parts" and path: "free_path (desc v) (free_head v) (r @ fl')"
    using assms(2,5) by (simp_all add: accounted_def r_def fl'_def)
  then have r: "r \<noteq> []" "distinct r" "\<forall>x \<in> set r. unat x < length (desc v)"
    using assms(2,3) by (auto simp: accounted_def fl intro: free_path_bound [OF path])
  obtain fh' where fh': "take_free (desc v) (free_head v) (length r) = Inr (r, fh')" "free_path (desc v) fh' fl'"
    using take_free_path [OF path] by blast
  obtain ds' where ds': "fill_chain (desc v) r parts = Inr ds'" "length ds' = length (desc v)"
    "\<forall>i. i \<notin> unat ` set r \<longrightarrow> ds' ! i = desc v ! i" "request ds' r"
    "map (\<lambda>x. desc_part (ds' ! unat x)) r = map (\<lambda>(a, l, f). (a, l, f AND NOT VIRTQ_DESC_F_NEXT)) parts"
    using fill_chain_request [OF r(2,3) lr [symmetric] r(1)] by blast
  have "unat (of_nat (length parts) :: u16) = length parts"
    using assms(4) by (intro unat_of_nat_small) simp
  then have "\<not> (of_nat (length parts) :: u16) > num_free v"
    using assms(5) by (simp add: word_less_nat_alt)
  moreover have "vq_ok (v\<lparr>free_head := fh', num_free := num_free v - of_nat (length parts), desc := ds'\<rparr>)"
    using assms(1) ds'(2) by (simp add: vq_ok_def)
  ultimately have "push_chain v parts =
      Inr (Some (hd r), v\<lparr>free_head := fh', num_free := num_free v - of_nat (length parts), desc := ds',
        avail_ring := (avail_ring v)[unat (avail_idx v mod qsize v) := hd r], avail_idx := avail_idx v + 1\<rparr>)"
    using assms(3,4) fh'(1) ds'(1) by (simp add: push_chain_def publish_eq lr)
  moreover have "accounted ds' fh' (num_free v - of_nat (length parts)) fl' (r # reqs)"
    using accounted_alloc [OF _ r(1) ds'(2-4) fh'(2)] assms(2) by (simp add: fl lr)
  ultimately show ?thesis using ds'(2,5) by blast
qed

lemma push_chain_full:
  "parts = [] \<or> length parts \<le> 8 \<and> unat (num_free v) < length parts \<Longrightarrow> push_chain v parts = Inr (None, v)"
  by (auto simp: push_chain_def word_less_nat_alt unat_of_nat)

lemma ucast_head [simp]: "ucast (ucast (h :: u16) :: u32) = h"
  by (rule bit_eqI) (simp add: bit_simps)

lemma pop_used_eq:
  assumes "vq_ok v" "vq_accounted v fl (r # reqs)" "used_idx v \<noteq> last_used_idx v"
    and "ring_holds (map used_id (used_ring v)) (last_used_idx v) (ucast (hd r) # us)"
  shows "\<exists>ds' e. pop_used v = Some (Inr (Some e, v\<lparr>last_used_idx := last_used_idx v + 1, desc := ds',
      free_head := last r, num_free := num_free v + of_nat (length r)\<rparr>)) \<and> used_id e = ucast (hd r) \<and>
    accounted ds' (last r) (num_free v + of_nat (length r)) (rev r @ fl) reqs \<and> length ds' = length (desc v) \<and>
    unat (num_free v + of_nat (length r)) = unat (num_free v) + length r"
proof -
  have sz: "is_power_of_two (qsize v)" "length (used_ring v) = unat (qsize v)" "0 < unat (qsize v)"
    using assms(1) is_power_of_two_unat by (auto simp: vq_ok_def)
  let ?slot = "unat (last_used_idx v mod qsize v)"
  have slot: "?slot < length (used_ring v)" using sz by (simp add: unat_mod_distrib)
  have "map used_id (used_ring v) ! ?slot = ucast (hd r)"
    using ring_pop(1) [OF sz(1) _ assms(4)] sz(2) by simp
  then have id: "used_id (used_ring v ! ?slot) = ucast (hd r)" using slot by simp
  have "length (desc v) < 2 ^ 16" using assms(1) unat_bound [of "qsize v"] by (simp add: vq_ok_def)
  from accounted_free [OF assms(2) this] obtain ds' where
    ds': "free_chain (desc v) (free_head v) (num_free v) (hd r) =
        Some (Inr (ds', last r, num_free v + of_nat (length r)))"
      "accounted ds' (last r) (num_free v + of_nat (length r)) (rev r @ fl) reqs"
      "length ds' = length (desc v)" "unat (num_free v + of_nat (length r)) = unat (num_free v) + length r"
    by blast
  have "pop_used v = Some (Inr (Some (used_ring v ! ?slot), v\<lparr>last_used_idx := last_used_idx v + 1,
      desc := ds', free_head := last r, num_free := num_free v + of_nat (length r)\<rparr>))"
    using assms(3) sz(3) slot by (auto simp: pop_used_def Let_def id ds'(1))
  with id ds'(2-4) show ?thesis by blast
qed


section \<open>Driver and device\<close>

text \<open>
  The device keeps its own position in the available ring and the heads it has fetched and not
  yet completed. It may fetch and complete at any moment and in any order, but completes only
  requests it has fetched, each once, as virtio v1.2 section 2.6 requires of it.
\<close>

record vq_sys =
  vq :: virtqueue
  last_avail :: u16
  taken :: "u16 list"

definition used_push :: "virtqueue \<Rightarrow> u16 \<Rightarrow> u32 \<Rightarrow> virtqueue" where
  "used_push v h n =
     v\<lparr>used_ring := (used_ring v)[unat (used_idx v mod qsize v) := \<lparr>used_id = ucast h, used_len = n\<rparr>],
       used_idx := used_idx v + 1\<rparr>"

inductive vq_step :: "vq_sys \<Rightarrow> vq_sys \<Rightarrow> bool" where
  drv_push_descriptor: "push_descriptor (vq s) a l f = Inr (res, v) \<Longrightarrow> vq_step s (s\<lparr>vq := v\<rparr>)"
| drv_push_chain: "push_chain (vq s) parts = Inr (res, v) \<Longrightarrow> vq_step s (s\<lparr>vq := v\<rparr>)"
| drv_pop_used: "pop_used (vq s) = Some (Inr (res, v)) \<Longrightarrow> vq_step s (s\<lparr>vq := v\<rparr>)"
| dev_fetch: "last_avail s \<noteq> avail_idx (vq s) \<Longrightarrow>
    vq_step s (s\<lparr>last_avail := last_avail s + 1,
                taken := avail_ring (vq s) ! unat (last_avail s mod qsize (vq s)) # taken s\<rparr>)"
| dev_complete: "taken s = xs @ h # ys \<Longrightarrow> vq_step s (s\<lparr>taken := xs @ ys, vq := used_push (vq s) h n\<rparr>)"

text \<open>
  The invariant, with the requests split into published, fetched and completed ones: the
  available ring holds the heads of the published requests from the device's position on, the
  used ring the heads of the completed ones from the driver's position on.
\<close>

definition vq_split :: "vq_sys \<Rightarrow> u16 list \<Rightarrow> u16 list list \<Rightarrow> u16 list list \<Rightarrow> u16 list list \<Rightarrow> bool" where
  "vq_split s fl pub tak dn \<longleftrightarrow>
     vq_ok (vq s) \<and> vq_accounted (vq s) fl (pub @ tak @ dn) \<and>
     ring_holds (avail_ring (vq s)) (last_avail s) (map hd pub) \<and>
     avail_idx (vq s) = last_avail s + of_nat (length pub) \<and>
     taken s = map hd tak \<and>
     ring_holds (map used_id (used_ring (vq s))) (last_used_idx (vq s)) (map (\<lambda>r. ucast (hd r)) dn) \<and>
     used_idx (vq s) = last_used_idx (vq s) + of_nat (length dn)"

definition vq_inv :: "vq_sys \<Rightarrow> bool" where
  "vq_inv s \<longleftrightarrow> (\<exists>fl pub tak dn. vq_split s fl pub tak dn)"

text \<open>A single-descriptor push is a chain push with one part.\<close>

lemma push_descriptor_chain: "push_descriptor v a l f = push_chain v [(a, l, f)]"
proof (cases "num_free v = 0")
  case True
  then show ?thesis by (simp add: push_descriptor_def push_chain_def)
next
  case False
  then have "\<not> (1 :: u16) > num_free v" by (simp add: word_less_nat_alt unat_eq_zero [symmetric]) 
  with False show ?thesis by (cases v) (simp add: push_descriptor_def push_chain_def Let_def)
qed

lemma push_chain_long: "8 < length parts \<Longrightarrow> push_chain v parts = Inr (res, v') \<Longrightarrow> res = None \<and> v' = v"
  by (simp add: push_chain_def split: if_splits)

lemma vq_split_push:
  assumes "vq_split s fl pub tak dn" "push_chain (vq s) parts = Inr (res, v)"
  shows "vq_split (s\<lparr>vq := v\<rparr>) fl pub tak dn \<and> res = None \<and> v = vq s \<or>
    (\<exists>r fl'. fl = r @ fl' \<and> length r = length parts \<and> res = Some (hd r) \<and>
      vq_split (s\<lparr>vq := v\<rparr>) fl' (pub @ [r]) tak dn)"
proof (cases "parts = [] \<or> 8 < length parts \<or> unat (num_free (vq s)) < length parts")
  case True
  then have "res = None \<and> v = vq s"
    using push_chain_full [of parts "vq s"] push_chain_long [OF _ assms(2)] assms(2) by fastforce
  with assms(1) show ?thesis by simp
next
  case False
  let ?r = "take (length parts) fl" and ?fl = "drop (length parts) fl"
  have inv: "vq_ok (vq s)" "vq_accounted (vq s) fl (pub @ tak @ dn)"
    "ring_holds (avail_ring (vq s)) (last_avail s) (map hd pub)"
    "avail_idx (vq s) = last_avail s + of_nat (length pub)"
    using assms(1) by (auto simp: vq_split_def)
  obtain ds' fh' where v: "res = Some (hd ?r)"
    "v = (vq s)\<lparr>free_head := fh', num_free := num_free (vq s) - of_nat (length parts), desc := ds',
        avail_ring := (avail_ring (vq s))[unat (avail_idx (vq s) mod qsize (vq s)) := hd ?r],
        avail_idx := avail_idx (vq s) + 1\<rparr>"
    and acc: "accounted ds' fh' (num_free (vq s) - of_nat (length parts)) ?fl (?r # pub @ tak @ dn)"
      "length ds' = length (desc (vq s))"
    using push_chain_eq [OF inv(1,2), of parts] False assms(2) by auto
  have room: "length pub < unat (qsize (vq s))"
    using accounted_in_flight [OF acc(1)] acc(2) inv(1) by (simp add: vq_ok_def)
  have "accounted ds' fh' (num_free (vq s) - of_nat (length parts)) ?fl ((pub @ [?r]) @ tak @ dn)"
    by (rule accounted_perm [OF _ acc(1)]) simp
  moreover have "ring_holds (avail_ring v) (last_avail s) (map hd (pub @ [?r]))"
    using ring_push [of "qsize (vq s)" "avail_ring (vq s)" "last_avail s" "map hd pub" "hd ?r"] inv room
    by (simp add: vq_ok_def v(2))
  ultimately have "vq_split (s\<lparr>vq := v\<rparr>) ?fl (pub @ [?r]) tak dn"
    using assms(1) acc(2) by (simp add: vq_split_def vq_ok_def v(2))
  moreover have "length ?r = length parts" using inv(2) False by (simp add: accounted_def)
  ultimately show ?thesis
    using v(1) by (intro disjI2 exI [of _ ?r] exI [of _ ?fl]) simp
qed

lemma vq_split_in_flight:
  assumes "vq_split s fl pub tak dn"
  shows "length pub + length tak + length dn \<le> unat (qsize (vq s))"
  using assms accounted_in_flight [of _ _ _ fl "pub @ tak @ dn"] by (fastforce simp: vq_split_def vq_ok_def)

lemma used_idx_eq_iff:
  assumes "vq_split s fl pub tak dn"
  shows "used_idx (vq s) = last_used_idx (vq s) \<longleftrightarrow> dn = []"
proof -
  have "length dn < 2 ^ 16"
    using vq_split_in_flight [OF assms] unat_bound [of "qsize (vq s)"] by simp
  then have "(of_nat (length dn) :: u16) = 0 \<longleftrightarrow> dn = []"
    using unat_of_nat_small [of "length dn", where 'a = 16] by (auto simp: word_unat_eq_iff)
  then show ?thesis using assms by (simp add: vq_split_def)
qed

lemma vq_split_pop:
  assumes "vq_split s fl pub tak dn"
  shows "case dn of
      [] \<Rightarrow> pop_used (vq s) = Some (Inr (None, vq s))
    | r # dn' \<Rightarrow> \<exists>e v. pop_used (vq s) = Some (Inr (Some e, v)) \<and> used_id e = ucast (hd r) \<and>
        unat (num_free v) = unat (num_free (vq s)) + length r \<and>
        vq_split (s\<lparr>vq := v\<rparr>) (rev r @ fl) pub tak dn'"
proof (cases dn)
  case Nil
  with used_idx_eq_iff [OF assms] show ?thesis by (simp add: pop_used_def)
next
  case (Cons r dn')
  have inv: "vq_ok (vq s)" "vq_accounted (vq s) fl (r # pub @ tak @ dn')"
    "ring_holds (map used_id (used_ring (vq s))) (last_used_idx (vq s)) (ucast (hd r) # map (\<lambda>r. ucast (hd r)) dn')"
    using assms Cons by (auto simp: vq_split_def intro: accounted_perm [rotated])
  have "used_idx (vq s) \<noteq> last_used_idx (vq s)" using used_idx_eq_iff [OF assms] Cons by simp
  from pop_used_eq [OF inv(1,2) this inv(3)] obtain ds' e where
    pop: "pop_used (vq s) = Some (Inr (Some e, (vq s)\<lparr>last_used_idx := last_used_idx (vq s) + 1, desc := ds',
        free_head := last r, num_free := num_free (vq s) + of_nat (length r)\<rparr>))" "used_id e = ucast (hd r)"
      "accounted ds' (last r) (num_free (vq s) + of_nat (length r)) (rev r @ fl) (pub @ tak @ dn')"
      "length ds' = length (desc (vq s))"
      "unat (num_free (vq s) + of_nat (length r)) = unat (num_free (vq s)) + length r"
    by blast
  moreover have "ring_holds (map used_id (used_ring (vq s))) (last_used_idx (vq s) + 1) (map (\<lambda>r. ucast (hd r)) dn')"
    using ring_pop(2) [of "qsize (vq s)", OF _ _ inv(3)] inv(1) by (simp add: vq_ok_def)
  ultimately show ?thesis
    using assms Cons by (simp add: vq_split_def vq_ok_def)
qed


lemma vq_split_fetch:
  assumes "vq_split s fl pub tak dn" "last_avail s \<noteq> avail_idx (vq s)"
  shows "\<exists>r pub'. pub = r # pub' \<and> vq_split (s\<lparr>last_avail := last_avail s + 1,
    taken := avail_ring (vq s) ! unat (last_avail s mod qsize (vq s)) # taken s\<rparr>) fl pub' (r # tak) dn"
proof -
  obtain r pub' where pub: "pub = r # pub'"
    using assms by (cases pub) (auto simp: vq_split_def)
  have inv: "is_power_of_two (qsize (vq s))" "length (avail_ring (vq s)) = unat (qsize (vq s))"
    "ring_holds (avail_ring (vq s)) (last_avail s) (hd r # map hd pub')"
    "vq_accounted (vq s) fl (pub @ tak @ dn)"
    using assms(1) by (auto simp: vq_split_def vq_ok_def pub)
  have "vq_accounted (vq s) fl (pub' @ (r # tak) @ dn)"
    by (rule accounted_perm [OF _ inv(4)]) (simp add: pub)
  with pub show ?thesis
    using assms(1) ring_pop [OF inv(1-3)] by (simp add: vq_split_def algebra_simps)
qed

lemma vq_split_complete:
  assumes "vq_split s fl pub tak dn" "taken s = xs @ h # ys"
  shows "\<exists>tak\<^sub>1 r tak\<^sub>2. tak = tak\<^sub>1 @ r # tak\<^sub>2 \<and> hd r = h \<and>
    vq_split (s\<lparr>taken := xs @ ys, vq := used_push (vq s) h n\<rparr>) fl pub (tak\<^sub>1 @ tak\<^sub>2) (dn @ [r])"
proof -
  obtain tak\<^sub>1 r tak\<^sub>2 where tak: "tak = tak\<^sub>1 @ r # tak\<^sub>2" "map hd tak\<^sub>1 = xs" "hd r = h" "map hd tak\<^sub>2 = ys"
    using assms by (auto simp: vq_split_def map_eq_append_conv map_eq_Cons_conv Cons_eq_map_conv append_eq_map_conv)
  let ?ring = "map used_id (used_ring (vq s))"
  have inv: "is_power_of_two (qsize (vq s))" "length ?ring = unat (qsize (vq s))"
    "ring_holds ?ring (last_used_idx (vq s)) (map (\<lambda>r. ucast (hd r)) dn)"
    "used_idx (vq s) = last_used_idx (vq s) + of_nat (length dn)" "vq_accounted (vq s) fl (pub @ tak @ dn)"
    using assms(1) by (auto simp: vq_split_def vq_ok_def)
  have room: "length dn < unat (qsize (vq s))" using vq_split_in_flight [OF assms(1)] by (simp add: tak(1))
  have "vq_accounted (vq s) fl (pub @ (tak\<^sub>1 @ tak\<^sub>2) @ dn @ [r])"
    by (rule accounted_perm [OF _ inv(5)]) (simp add: tak(1))
  moreover have "ring_holds (map used_id (used_ring (used_push (vq s) h n))) (last_used_idx (vq s))
      (map (\<lambda>r. ucast (hd r)) (dn @ [r]))"
    using ring_push [OF inv(1-3), of "ucast h"] room inv(4) by (simp add: used_push_def map_update tak(3))
  ultimately show ?thesis
    using assms(1) tak by (intro exI [of _ tak\<^sub>1] exI [of _ r] exI [of _ tak\<^sub>2])
      (simp add: vq_split_def vq_ok_def used_push_def)
qed

lemma vq_step_inv:
  assumes "vq_inv s" "vq_step s t" shows "vq_inv t"
proof -
  obtain fl pub tak dn where sp: "vq_split s fl pub tak dn" using assms(1) by (auto simp: vq_inv_def)
  show ?thesis
    using assms(2)
  proof cases
    case (drv_pop_used res v)
    with vq_split_pop [OF sp] show ?thesis
      using sp by (auto simp: vq_inv_def split: list.splits) blast
  next
    case dev_fetch
    with vq_split_fetch [OF sp] show ?thesis by (auto simp: vq_inv_def)
  next
    case (dev_complete xs h ys n)
    with vq_split_complete [OF sp, of xs h ys n] show ?thesis by (auto simp: vq_inv_def)
  qed (use vq_split_push [OF sp] push_descriptor_chain in \<open>fastforce simp: vq_inv_def\<close>)+
qed

section \<open>A fresh queue\<close>

definition vq_fresh :: "vq_sys \<Rightarrow> bool" where
  "vq_fresh s \<longleftrightarrow> last_avail s = 0 \<and> taken s = [] \<and>
     (\<exists>pf fa sz fa'. virtq_new pf fa sz = Inr (vq s, fa'))"

lemma fresh_free_path:
  assumes "n \<le> 2 ^ 16"
    and "\<forall>i < n. nxt (ds ! i) = (if i = n - 1 then 0 else of_nat (i + 1))" "length ds = n"
  shows "i \<le> n \<Longrightarrow> free_path ds (of_nat i) (map of_nat [i..<n])"
proof (induction "n - i" arbitrary: i)
  case 0
  then show ?case by simp
next
  case (Suc k)
  then have i: "i < n" by simp
  then have u: "unat (of_nat i :: u16) = i" using assms(1) by (intro unat_of_nat_small) simp
  have "free_path ds (of_nat (Suc i)) (map of_nat [Suc i..<n])"
    using Suc by (intro Suc.hyps) auto
  then show ?case
    using i assms(2,3) u by (cases "i = n - 1") (auto simp: upt_conv_Cons)
qed

lemma virtq_new_split:
  assumes "virtq_new pf fa sz = Inr (v, fa')" "last_avail s = 0" "taken s = []" "vq s = v"
  shows "vq_split s (map of_nat [0..<unat sz]) [] [] []"
proof -
  let ?n = "unat sz"
  have pow: "is_power_of_two sz" and v: "qsize v = sz" "length (desc v) = ?n"
    "\<forall>i < ?n. nxt (desc v ! i) = (if i = ?n - 1 then 0 else of_nat (i + 1))"
    "length (avail_ring v) = ?n" "length (used_ring v) = ?n" "free_head v = 0" "num_free v = sz"
    "avail_idx v = 0" "used_idx v = 0" "last_used_idx v = 0"
    using assms(1) by (auto simp: virtq_new_def and_then_eq_Inr Let_def)
  have n: "?n \<le> 2 ^ 16" using unat_bound [of sz] by simp
  have "inj_on (of_nat :: nat \<Rightarrow> u16) {0..<?n}"
  proof (rule inj_onI)
    fix i j assume "i \<in> {0..<?n}" "j \<in> {0..<?n}" and eq: "of_nat i = (of_nat j :: u16)"
    then have "i < 2 ^ LENGTH(16)" "j < 2 ^ LENGTH(16)" using n by simp_all
    then show "i = j" using unat_of_nat_small eq by metis
  qed
  moreover have "free_path (desc v) 0 (map of_nat [0..<?n])"
    using fresh_free_path [OF n v(3,2), of 0] by simp
  ultimately show ?thesis
    using assms(2-4) v pow by (simp add: vq_split_def vq_ok_def accounted_def distinct_map ring_holds_def)
qed

interpretation vq: invariant_system vq_fresh vq_step vq_inv
proof
  fix s assume "vq_fresh s"
  then show "vq_inv s"
    unfolding vq_fresh_def vq_inv_def using virtq_new_split by blast
qed (rule vq_step_inv)


section \<open>Properties\<close>

text \<open>
  The number of descriptors of the requests in flight, as the queue accounts for them.
\<close>

lemma reachable_split:
  assumes "vq_fresh s\<^sub>0" "reachable vq_step s\<^sub>0 s"
  obtains fl pub tak dn where "vq_split s fl pub tak dn"
  using vq.reachable_inv [OF assms] by (auto simp: vq_inv_def)

text \<open>
  C2. The driver side of a virtqueue never fails: in every state that driver and device reach
  from a fresh queue, along any interleaving, pushing a descriptor, pushing a chain of at most
  eight parts and popping a completion all return. None of them panics, touches memory outside
  the rings or walks a descriptor chain forever.
\<close>

theorem virtqueue_never_stuck:
  assumes "vq_fresh s\<^sub>0" "reachable vq_step s\<^sub>0 s"
  shows "(\<exists>res v. push_descriptor (vq s) a l f = Inr (res, v)) \<and>
    (length parts \<le> 8 \<longrightarrow> (\<exists>res v. push_chain (vq s) parts = Inr (res, v))) \<and>
    (\<exists>res v. pop_used (vq s) = Some (Inr (res, v)))"
proof -
  obtain fl pub tak dn where sp: "vq_split s fl pub tak dn" using reachable_split [OF assms] .
  then have inv: "vq_ok (vq s)" "vq_accounted (vq s) fl (pub @ tak @ dn)" by (auto simp: vq_split_def)
  have push: "\<exists>res v. push_chain (vq s) ps = Inr (res, v)" if "length ps \<le> 8" for ps
    using push_chain_eq [OF inv, of ps] push_chain_full [of ps "vq s"] that
    by (cases "ps = [] \<or> unat (num_free (vq s)) < length ps") (force simp: not_less)+
  then show ?thesis
    using vq_split_pop [OF sp] push [of "[(a, l, f)]"]
    by (auto simp: push_descriptor_chain split: list.splits)
qed

text \<open>
  C12. Requests go out as they were given and come back once: a push of at least one part takes
  that many descriptors off the free count, returns the head of a chain that carries exactly the
  given addresses, lengths and flags in order, and publishes that head in the available ring; or
  it returns None, when there are no parts or more parts than free descriptors, and changes
  nothing.
\<close>

theorem push_chain_publishes:
  assumes "vq_fresh s\<^sub>0" "reachable vq_step s\<^sub>0 s" "length parts \<le> 8"
  shows "if parts = [] \<or> unat (num_free (vq s)) < length parts
    then push_chain (vq s) parts = Inr (None, vq s)
    else \<exists>r v. push_chain (vq s) parts = Inr (Some (hd r), v) \<and>
      request (desc v) r \<and> length r = length parts \<and>
      map (\<lambda>x. desc_part (desc v ! unat x)) r = map (\<lambda>(a, l, f). (a, l, f AND NOT VIRTQ_DESC_F_NEXT)) parts \<and>
      unat (num_free v) + length parts = unat (num_free (vq s)) \<and>
      avail_idx v = avail_idx (vq s) + 1 \<and>
      avail_ring v ! unat (avail_idx (vq s) mod qsize v) = hd r"
proof (cases "parts = [] \<or> unat (num_free (vq s)) < length parts")
  case True
  with push_chain_full [of parts "vq s"] assms(3) show ?thesis by auto
next
  case False
  obtain fl pub tak dn where sp: "vq_split s fl pub tak dn" using reachable_split [OF assms(1,2)] .
  then have inv: "vq_ok (vq s)" "vq_accounted (vq s) fl (pub @ tak @ dn)" by (auto simp: vq_split_def)
  let ?r = "take (length parts) fl" and ?n = "num_free (vq s) - of_nat (length parts)"
  obtain ds' fh' where push: "push_chain (vq s) parts = Inr (Some (hd ?r),
      (vq s)\<lparr>free_head := fh', num_free := ?n, desc := ds',
        avail_ring := (avail_ring (vq s))[unat (avail_idx (vq s) mod qsize (vq s)) := hd ?r],
        avail_idx := avail_idx (vq s) + 1\<rparr>)" (is "_ = Inr (_, ?v)")
    and acc: "accounted ds' fh' ?n (drop (length parts) fl) (?r # pub @ tak @ dn)"
    and parts: "map (\<lambda>x. desc_part (ds' ! unat x)) ?r = map (\<lambda>(a, l, f). (a, l, f AND NOT VIRTQ_DESC_F_NEXT)) parts"
    using push_chain_eq [OF inv _ assms(3)] False by auto
  have len: "length fl = unat (num_free (vq s))" using inv(2) by (simp add: accounted_def)
  have slot: "unat (avail_idx (vq s) mod qsize (vq s)) < length (avail_ring (vq s))"
    using inv(1) is_power_of_two_unat(2) by (simp add: vq_ok_def unat_mod_distrib)
  have "unat ?n + length parts = unat (num_free (vq s))" "request ds' ?r" "length ?r = length parts"
    using acc len False by (auto simp: accounted_def)
  then have "request (desc ?v) ?r \<and> length ?r = length parts \<and>
      map (\<lambda>x. desc_part (desc ?v ! unat x)) ?r = map (\<lambda>(a, l, f). (a, l, f AND NOT VIRTQ_DESC_F_NEXT)) parts \<and>
      unat (num_free ?v) + length parts = unat (num_free (vq s)) \<and> avail_idx ?v = avail_idx (vq s) + 1 \<and>
      avail_ring ?v ! unat (avail_idx (vq s) mod qsize ?v) = hd ?r"
    using parts slot by simp
  with push show ?thesis unfolding if_not_P [OF False] by blast
qed


text \<open>
  A completion comes back for a request that is in flight, and its descriptors become free
  again: pop\_used returns None exactly when the device has completed nothing new; otherwise the
  element it returns names the head of a request chain, the free count grows by the length of
  that chain, and the chain's descriptors, last one first, are the new start of the free list.
\<close>

theorem pop_used_frees:
  assumes "vq_fresh s\<^sub>0" "reachable vq_step s\<^sub>0 s"
  shows "if used_idx (vq s) = last_used_idx (vq s)
    then pop_used (vq s) = Some (Inr (None, vq s))
    else \<exists>e r v. pop_used (vq s) = Some (Inr (Some e, v)) \<and>
      request (desc (vq s)) r \<and> used_id e = ucast (hd r) \<and>
      unat (num_free v) = unat (num_free (vq s)) + length r \<and> unat (num_free v) \<le> unat (qsize (vq s)) \<and>
      free_path (desc v) (free_head v) (rev r)"
proof -
  obtain fl pub tak dn where sp: "vq_split s fl pub tak dn" using reachable_split [OF assms] .
  show ?thesis
  proof (cases dn)
    case Nil
    with vq_split_pop [OF sp] used_idx_eq_iff [OF sp] show ?thesis by simp
  next
    case (Cons r dn')
    then obtain e v where pop: "pop_used (vq s) = Some (Inr (Some e, v))" "used_id e = ucast (hd r)"
      "unat (num_free v) = unat (num_free (vq s)) + length r" "vq_split (s\<lparr>vq := v\<rparr>) (rev r @ fl) pub tak dn'"
      using vq_split_pop [OF sp] by auto
    have "request (desc (vq s)) r"
      using sp Cons by (auto simp: vq_split_def accounted_def)
    moreover have "unat (num_free v) \<le> unat (qsize (vq s))"
      using sp accounted_in_flight [of _ _ _ fl "pub @ tak @ dn"] pop(3,4) Cons
      by (auto simp: vq_split_def vq_ok_def accounted_def)
    moreover have "free_path (desc v) (free_head v) (rev r @ fl)"
      using pop(4) by (simp add: vq_split_def accounted_def)
    then have "free_path (desc v) (free_head v) (rev r)"
      by (rule free_path_append)
    ultimately show ?thesis using pop used_idx_eq_iff [OF sp] Cons by auto
  qed
qed

text \<open>
  Virtqueue::new succeeds exactly for the power-of-two sizes up to 128 when a frame is
  available: for those the three rings fit in one 4-KiB frame, and for every other size it
  panics before a frame is taken.
\<close>

theorem virtq_new_sizes:
  assumes "phys_frame_ok pf" "free fa \<noteq> []" "\<forall>f \<in> set (free fa). 4096 dvd unat f \<and> unat f < 2 ^ 52"
  shows "if is_power_of_two sz \<and> sz \<le> 128
    then \<exists>v fa'. virtq_new pf fa sz = Inr (v, fa') \<and> mset (free fa) = add_mset (backing_frame v) (mset (free fa'))
    else virtq_new pf fa sz = Inl Panic"
proof -
  have "\<forall>n \<in> set (map (\<lambda>k. 2 ^ k) [0..<16]). (used_offset n + used_size n \<le> 4096) = (n \<le> 128)"
    by (simp add: upt_rec used_offset_def used_size_def desc_size_def avail_size_def)
  then have fits: "used_offset sz + used_size sz \<le> 4096 \<longleftrightarrow> sz \<le> 128" if "is_power_of_two sz"
    using that unfolding is_power_of_two_def by blast
  have pos: "sz > 0" if "is_power_of_two sz"
    using is_power_of_two_unat(2) [OF that] by (simp add: word_less_nat_alt)
  obtain f fa' where al: "alloc_frame pf fa = Inr (Some f, fa')" "mset (free fa) = add_mset f (mset (free fa'))"
    using frame_pool.alloc_frame [OF alloc_frame_pool [OF assms(1)], of fa] assms(2,3) by auto
  show ?thesis
  proof (cases "is_power_of_two sz \<and> sz \<le> 128")
    case True
    then have "rust_assert (sz > 0 \<and> is_power_of_two sz) = Inr ()"
      "rust_assert (used_offset sz + used_size sz \<le> 4096) = Inr ()"
      using fits pos by simp_all
    with True al show ?thesis by (simp add: virtq_new_def Let_def)
  next
    case False
    then show ?thesis using fits by (auto simp: virtq_new_def rust_assert_def)
  qed
qed

text \<open>
  A used-ring element whose id names no descriptor makes pop\_used access memory outside
  the descriptor table; it is neither detected nor turned into a panic.
\<close>

theorem pop_used_bogus_id:
  assumes "vq_ok v" "used_idx v \<noteq> last_used_idx v"
    and "unat (qsize v) \<le> unat (ucast (used_id (used_ring v ! unat (last_used_idx v mod qsize v))) :: u16)"
  shows "pop_used v = Some (Inl Undefined)"
proof -
  have "0 < unat (qsize v)" "length (used_ring v) = unat (qsize v)" "length (desc v) = unat (qsize v)"
    using assms(1) is_power_of_two_unat(2) by (auto simp: vq_ok_def)
  with assms(2,3) show ?thesis
    by (subst pop_used_def, subst free_chain.simps) (auto simp: unat_mod_distrib Let_def)
qed

section \<open>Witnesses\<close>

text \<open>A queue of two descriptors in the frame at 0x1000.\<close>

definition demo_pool :: frame_allocator where
  "demo_pool = \<lparr>free = [0x1000], total_added_ctr = 1\<rparr>"

definition demo_queue :: virtqueue where
  "demo_queue = \<lparr>qsize = 2,
     desc = [\<lparr>addr = 0, len = 0, flags = 0, nxt = 1\<rparr>, \<lparr>addr = 0, len = 0, flags = 0, nxt = 0\<rparr>],
     avail_idx = 0, avail_ring = [0, 0],
     used_idx = 0, used_ring = [\<lparr>used_id = 0, used_len = 0\<rparr>, \<lparr>used_id = 0, used_len = 0\<rparr>],
     desc_phys = 0x1000, avail_phys = 0x1020, used_phys = 0x1028,
     free_head = 0, num_free = 2, last_used_idx = 0, backing_frame = 0x1000\<rparr>"

definition demo_sys :: vq_sys where
  "demo_sys = \<lparr>vq = demo_queue, last_avail = 0, taken = []\<rparr>"

lemma replicate_two: "replicate 2 x = [x, x]"
  by (simp add: numeral_2_eq_2)

lemma demo_new: "virtq_new x86_phys_frame demo_pool 2 = Inr (demo_queue, demo_pool\<lparr>free := []\<rparr>)"
  by (simp add: virtq_new_def is_power_of_two_def upt_rec alloc_frame_def demo_pool_def demo_queue_def
      used_offset_def used_size_def desc_size_def avail_size_def x86_phys_frame_def replicate_two)

lemma demo_fresh: "vq_fresh demo_sys"
  using demo_new by (auto simp: vq_fresh_def demo_sys_def)

theorem virtqueue_never_stuck_witness:
  "\<exists>res v. push_chain demo_queue [(0x2000, 16, 0), (0x3000, 512, 2)] = Inr (res, v)"
  using virtqueue_never_stuck [OF demo_fresh rtranclp.rtrancl_refl, of 0 0 0 "[(0x2000, 16, 0), (0x3000, 512, 2)]"]
  by (simp add: demo_sys_def)

theorem push_chain_publishes_witness:
  "\<exists>r v. push_chain demo_queue [(0x2000, 16, 0), (0x3000, 512, 2)] = Inr (Some (hd r), v) \<and>
     map (\<lambda>x. desc_part (desc v ! unat x)) r = [(0x2000, 16, 0), (0x3000, 512, 2)]"
proof -
  let ?parts = "[(0x2000, 16, 0), (0x3000, 512, 2)] :: part list"
  have mask: "map (\<lambda>(a, l, f). (a, l, f AND NOT VIRTQ_DESC_F_NEXT)) ?parts = ?parts"
    by (simp add: VIRTQ_DESC_F_NEXT_def)
  have room: "\<not> (?parts = [] \<or> unat (num_free (vq demo_sys)) < length ?parts)"
    by (simp add: demo_sys_def demo_queue_def)
  have "length ?parts \<le> 8" by simp
  from push_chain_publishes [OF demo_fresh rtranclp.rtrancl_refl this] show ?thesis
    unfolding if_not_P [OF room] mask unfolding demo_sys_def vq_sys.simps by metis
qed

theorem virtq_new_sizes_witness:
  "virtq_new x86_phys_frame demo_pool 100 = Inl Panic"
  using virtq_new_sizes [OF x86_phys_frame_ok, of demo_pool 100]
  by (simp add: demo_pool_def is_power_of_two_def upt_rec)

theorem pop_used_bogus_id_witness:
  "pop_used (demo_queue\<lparr>used_idx := 1, used_ring := [\<lparr>used_id = 7, used_len = 0\<rparr>, \<lparr>used_id = 0, used_len = 0\<rparr>]\<rparr>)
    = Some (Inl Undefined)"
  by (rule pop_used_bogus_id) (simp_all add: vq_ok_def demo_queue_def is_power_of_two_def upt_rec)


text \<open>One descriptor pushed, fetched and completed by the device.\<close>

definition demo_pushed :: virtqueue where
  "demo_pushed = demo_queue\<lparr>desc := [\<lparr>addr = 0x2000, len = 16, flags = 0, nxt = 0\<rparr>, \<lparr>addr = 0, len = 0, flags = 0, nxt = 0\<rparr>],
     free_head := 1, num_free := 1, avail_idx := 1\<rparr>"

lemma demo_run:
  "reachable vq_step demo_sys \<lparr>vq = used_push demo_pushed 0 16, last_avail = 1, taken = []\<rparr>"
proof -
  have "push_descriptor demo_queue 0x2000 16 0 = Inr (Some 0, demo_pushed)"
    by (simp add: push_descriptor_def publish_def demo_queue_def demo_pushed_def Let_def)
  then have s1: "vq_step demo_sys (demo_sys\<lparr>vq := demo_pushed\<rparr>)"
    by (intro drv_push_descriptor) (simp add: demo_sys_def)
  have s2: "vq_step (demo_sys\<lparr>vq := demo_pushed\<rparr>) \<lparr>vq = demo_pushed, last_avail = 1, taken = [0]\<rparr>"
    using dev_fetch [of "demo_sys\<lparr>vq := demo_pushed\<rparr>"] by (simp add: demo_sys_def demo_pushed_def demo_queue_def)
  have s3: "vq_step \<lparr>vq = demo_pushed, last_avail = 1, taken = [0]\<rparr>
      \<lparr>vq = used_push demo_pushed 0 16, last_avail = 1, taken = []\<rparr>"
    using dev_complete [of "\<lparr>vq = demo_pushed, last_avail = 1, taken = [0]\<rparr>" "[]" 0 "[]" 16] by simp
  from s1 s2 s3 show ?thesis by (meson converse_rtranclp_into_rtranclp rtranclp.rtrancl_refl)
qed

theorem pop_used_frees_witness:
  "\<exists>e (r :: u16 list) v. pop_used (used_push demo_pushed 0 16) = Some (Inr (Some e, v)) \<and>
     used_id e = ucast (hd r) \<and> unat (num_free v) = 1 + length r"
proof -
  have new: "\<not> used_idx (used_push demo_pushed 0 16) = last_used_idx (used_push demo_pushed 0 16)"
    by (simp add: used_push_def demo_pushed_def demo_queue_def)
  have nf: "unat (num_free (used_push demo_pushed 0 16)) = 1" by (simp add: used_push_def demo_pushed_def)
  show ?thesis
    using pop_used_frees [OF demo_fresh demo_run] unfolding vq_sys.simps if_not_P [OF new] nf by blast
qed

end
