(* ===== verification/Kbd.thy ===== *)
theory Kbd
  imports Prelude
begin

unbundle bit_operations_syntax

text \<open>
  The PS/2 keyboard driver, arsenal-kernel/src/kbd.rs: the scancode decoder, the ring of decoded
  bytes between the interrupt handler and the shell, and the operations on them.

  The statics of the module are the fields of one record. The ring operations are given twice:
  as whole functions, and as the sequences of loads and stores they consist of, because the
  interrupt handler and the shell run them interleaved. The port input instruction is the
  parameter \<open>inb\<close> over a hardware state of any type.
\<close>

section \<open>Model\<close>

definition PS2_DATA :: u16 where "PS2_DATA = 0x60"
definition PS2_STATUS :: u16 where "PS2_STATUS = 0x64"
definition STATUS_OBF :: u8 where "STATUS_OBF = 1"
definition SC_RELEASE_MASK :: u8 where "SC_RELEASE_MASK = 0x80"
definition SC_EXTENDED_E0 :: u8 where "SC_EXTENDED_E0 = 0xE0"
definition SC_EXTENDED_E1 :: u8 where "SC_EXTENDED_E1 = 0xE1"
definition SC_LSHIFT_PRESS :: u8 where "SC_LSHIFT_PRESS = 0x2A"
definition SC_LSHIFT_RELEASE :: u8 where "SC_LSHIFT_RELEASE = 0xAA"
definition SC_RSHIFT_PRESS :: u8 where "SC_RSHIFT_PRESS = 0x36"
definition SC_RSHIFT_RELEASE :: u8 where "SC_RSHIFT_RELEASE = 0xB6"
definition INIT_DRAIN_BUDGET :: nat where "INIT_DRAIN_BUDGET = 16"
definition RING_SIZE :: usize where "RING_SIZE = 256"

text \<open>A byte string literal of the source.\<close>

definition bytes :: "string \<Rightarrow> u8 list" where
  "bytes s = map (\<lambda>c. of_nat (of_char c)) s"

definition SC_TO_ASCII :: "u8 list" where
  "SC_TO_ASCII =
     [0, 0x1B] @ bytes ''123456'' @
     bytes ''7890-='' @ [0x08, 0x09] @
     bytes ''qwertyui'' @
     bytes ''op[]'' @ [0x0A, 0] @ bytes ''as'' @
     bytes ''dfghjkl;'' @
     [0x27, 0x60, 0, 0x5C] @ bytes ''zxcv'' @
     bytes ''bnm,./'' @ [0] @ bytes ''*'' @
     [0, 0x20] @ replicate 31 0"

definition SC_TO_ASCII_SHIFTED :: "u8 list" where
  "SC_TO_ASCII_SHIFTED =
     [0, 0x1B] @ bytes ''!@#$%^'' @
     bytes ''&*()_+'' @ [0x08, 0x09] @
     bytes ''QWERTYUI'' @
     bytes ''OP{}'' @ [0x0A, 0] @ bytes ''AS'' @
     bytes ''DFGHJKL:'' @
     [0x22] @ bytes ''~'' @ [0] @ bytes ''|ZXCV'' @
     bytes ''BNM<>?'' @ [0] @ bytes ''*'' @
     [0, 0x20] @ replicate 31 0"

record kbd =
  buf :: "u8 list"
  head :: usize
  tail :: usize
  dropped :: usize
  in_e0_sequence :: bool
  in_e1_sequence_remaining :: u8
  lshift_down :: bool
  rshift_down :: bool

definition kbd_boot :: kbd where
  "kbd_boot = \<lparr>buf = replicate 256 0, head = 0, tail = 0, dropped = 0, in_e0_sequence = False,
     in_e1_sequence_remaining = 0, lshift_down = False, rshift_down = False\<rparr>"

definition ring_push :: "u8 \<Rightarrow> kbd \<Rightarrow> kbd outcome" where
  "ring_push b k =
     (let hd = head k; tl = tail k; next_head = (hd + 1) mod RING_SIZE
      in if next_head = tl then Inr (k\<lparr>dropped := dropped k + 1\<rparr>)
         else if unat hd < length (buf k)
         then Inr (k\<lparr>buf := (buf k)[unat hd := b], head := next_head\<rparr>)
         else Inl Panic)"

definition ring_pop :: "kbd \<Rightarrow> (u8 option \<times> kbd) outcome" where
  "ring_pop k =
     (let tl = tail k; hd = head k
      in if hd = tl then Inr (None, k)
         else if unat tl < length (buf k)
         then Inr (Some (buf k ! unat tl), k\<lparr>tail := (tl + 1) mod RING_SIZE\<rparr>)
         else Inl Panic)"

type_synonym 'io port_in = "u16 \<Rightarrow> 'io \<Rightarrow> u8 \<times> 'io"

text \<open>The loop of init; the count of drained bytes is what it logs.\<close>

function drain :: "'io port_in \<Rightarrow> 'io \<Rightarrow> nat \<Rightarrow> nat \<times> 'io" where
  "drain inb io drained =
     (if drained < INIT_DRAIN_BUDGET
      then let (status, io) = inb PS2_STATUS io
           in if status AND STATUS_OBF = 0 then (drained, io)
              else let (_, io) = inb PS2_DATA io in drain inb io (drained + 1)
      else (drained, io))"
  by pat_completeness auto
termination
  by (relation "measure (\<lambda>(inb, io, drained). INIT_DRAIN_BUDGET - drained)") auto

definition kbd_init :: "'io port_in \<Rightarrow> 'io \<Rightarrow> nat \<times> 'io" where
  "kbd_init inb io = drain inb io 0"

definition inject :: "u8 \<Rightarrow> kbd \<Rightarrow> kbd outcome" where
  "inject b k = ring_push b k"

definition decode_scancode :: "u8 \<Rightarrow> kbd \<Rightarrow> (u8 option \<times> kbd) outcome" where
  "decode_scancode sc k =
     (if in_e1_sequence_remaining k > 0
      then Inr (None, k\<lparr>in_e1_sequence_remaining := in_e1_sequence_remaining k - 1\<rparr>)
      else if in_e0_sequence k then Inr (None, k\<lparr>in_e0_sequence := False\<rparr>)
      else if sc = SC_EXTENDED_E0 then Inr (None, k\<lparr>in_e0_sequence := True\<rparr>)
      else if sc = SC_EXTENDED_E1 then Inr (None, k\<lparr>in_e1_sequence_remaining := 2\<rparr>)
      else if sc = SC_LSHIFT_PRESS then Inr (None, k\<lparr>lshift_down := True\<rparr>)
      else if sc = SC_LSHIFT_RELEASE then Inr (None, k\<lparr>lshift_down := False\<rparr>)
      else if sc = SC_RSHIFT_PRESS then Inr (None, k\<lparr>rshift_down := True\<rparr>)
      else if sc = SC_RSHIFT_RELEASE then Inr (None, k\<lparr>rshift_down := False\<rparr>)
      else if sc AND SC_RELEASE_MASK \<noteq> 0 then Inr (None, k)
      else let idx = unat sc
           in if idx \<ge> length SC_TO_ASCII then Inr (None, k)
              else let tab = (if lshift_down k \<or> rshift_down k then SC_TO_ASCII_SHIFTED else SC_TO_ASCII)
                   in if idx < length tab
                      then Inr (if tab ! idx = 0 then None else Some (tab ! idx), k)
                      else Inl Panic)"

definition keyboard_handler ::
  "'io port_in \<Rightarrow> ('io \<Rightarrow> 'io) \<Rightarrow> kbd \<times> 'io \<Rightarrow> (kbd \<times> 'io) outcome" where
  "keyboard_handler inb send_eoi = (\<lambda>(k, io).
     let (sc, io) = inb PS2_DATA io
     in and_then (decode_scancode sc k) (\<lambda>(r, k).
        and_then (case r of Some b \<Rightarrow> ring_push b k | None \<Rightarrow> Inr k) (\<lambda>k.
          Inr (k, send_eoi io))))"

text \<open>
  The receive loop. What the rest of the kernel does to the driver's state during the i-th
  sched::yield\_now is the parameter \<open>yield_now i\<close>; a loop that never gets a byte is None.
\<close>

partial_function (option) recv_blocking ::
  "(nat \<Rightarrow> kbd \<Rightarrow> kbd) \<Rightarrow> nat \<Rightarrow> kbd \<Rightarrow> (u8 \<times> nat \<times> kbd) outcome option" where
  "recv_blocking yield_now i k =
     (case ring_pop k of
        Inl e \<Rightarrow> Some (Inl e)
      | Inr (Some b, k') \<Rightarrow> Some (Inr (b, i, k'))
      | Inr (None, k') \<Rightarrow> recv_blocking yield_now (i + 1) (yield_now i k'))"

text \<open>
  The ring operations as the loads and stores they consist of. The first argument is the
  position in the function's body with the values of its locals.
\<close>

datatype producer =
    P_start u8
  | P_head u8 usize
  | P_tail u8 usize usize
  | P_written u8 usize
  | P_done

fun push_micro :: "producer \<Rightarrow> kbd \<Rightarrow> (producer \<times> kbd) outcome" where
  "push_micro (P_start b) k = Inr (P_head b (head k), k)"
| "push_micro (P_head b h) k = Inr (P_tail b h (tail k), k)"
| "push_micro (P_tail b h t) k =
     (let next_head = (h + 1) mod RING_SIZE
      in if next_head = t then Inr (P_done, k\<lparr>dropped := dropped k + 1\<rparr>)
         else if unat h < length (buf k)
         then Inr (P_written b next_head, k\<lparr>buf := (buf k)[unat h := b]\<rparr>)
         else Inl Panic)"
| "push_micro (P_written b next_head) k = Inr (P_done, k\<lparr>head := next_head\<rparr>)"
| "push_micro P_done k = Inr (P_done, k)"

datatype consumer =
    C_start
  | C_tail usize
  | C_head usize usize
  | C_read usize u8
  | C_done "u8 option"

fun pop_micro :: "consumer \<Rightarrow> kbd \<Rightarrow> (consumer \<times> kbd) outcome" where
  "pop_micro C_start k = Inr (C_tail (tail k), k)"
| "pop_micro (C_tail t) k = Inr (C_head t (head k), k)"
| "pop_micro (C_head t h) k =
     (if h = t then Inr (C_done None, k)
      else if unat t < length (buf k) then Inr (C_read t (buf k ! unat t), k)
      else Inl Panic)"
| "pop_micro (C_read t b) k = Inr (C_done (Some b), k\<lparr>tail := (t + 1) mod RING_SIZE\<rparr>)"
| "pop_micro (C_done r) k = Inr (C_done r, k)"

lemma ring_push_micro:
  "ring_push b k =
     and_then (push_micro (P_start b) k) (\<lambda>(p, k). and_then (push_micro p k) (\<lambda>(p, k).
     and_then (push_micro p k) (\<lambda>(p, k). and_then (push_micro p k) (\<lambda>(p, k). Inr k))))"
  by (simp add: ring_push_def Let_def)

lemma ring_pop_micro:
  "ring_pop k =
     and_then (pop_micro C_start k) (\<lambda>(c, k). and_then (pop_micro c k) (\<lambda>(c, k).
     and_then (pop_micro c k) (\<lambda>(c, k). and_then (pop_micro c k) (\<lambda>(c, k).
       Inr (case c of C_done r \<Rightarrow> r | _ \<Rightarrow> None, k)))))"
  by (simp add: ring_pop_def Let_def)

section \<open>The ring as a bounded queue\<close>

definition ring_ok :: "kbd \<Rightarrow> bool" where
  "ring_ok k \<longleftrightarrow> length (buf k) = 256 \<and> unat (head k) < 256 \<and> unat (tail k) < 256"

text \<open>The number of slots from a tail index up to a head index.\<close>

definition dist :: "usize \<Rightarrow> usize \<Rightarrow> nat" where
  "dist h t = (unat h + 256 - unat t) mod 256"

definition ring_contents :: "kbd \<Rightarrow> u8 list" where
  "ring_contents k = map (\<lambda>i. buf k ! ((unat (tail k) + i) mod 256)) [0..<dist (head k) (tail k)]"

abbreviation bump :: "usize \<Rightarrow> usize" where
  "bump i \<equiv> (i + 1) mod RING_SIZE"

lemma unat_bump [simp]: "unat i < 256 \<Longrightarrow> unat (bump i) = (unat i + 1) mod 256"
  unfolding RING_SIZE_def by (simp add: unat_mod_distrib unat_word_ariths)

lemma mod_ring: "n < 512 \<Longrightarrow> n mod 256 = (if n < 256 then n else n - 256)" for n :: nat
  by (auto simp: mod_if)

lemma dist_alt:
  "unat h < 256 \<Longrightarrow> unat t < 256 \<Longrightarrow> dist h t = (if unat t \<le> unat h then unat h - unat t else unat h + 256 - unat t)"
  unfolding dist_def by (subst mod_ring) auto

lemma unat_bump_alt: "unat i < 256 \<Longrightarrow> unat (bump i) = (if unat i = 255 then 0 else unat i + 1)"
  unfolding unat_bump by auto

lemma unat_bump_less: "unat i < 256 \<Longrightarrow> unat (bump i) < 256"
  by simp

lemmas ring_index = dist_alt unat_bump_alt unat_bump_less

lemma bump_eq_iff:
  assumes "unat h < 256" "unat t < 256"
  shows "bump h = t \<longleftrightarrow> dist h t = 255"
  unfolding unat_cancel [symmetric] ring_index [OF assms(1)] dist_alt [OF assms] using assms by auto

lemma eq_iff_dist: "unat h < 256 \<Longrightarrow> unat t < 256 \<Longrightarrow> h = t \<longleftrightarrow> dist h t = 0"
  unfolding unat_cancel [symmetric] by (auto simp: dist_alt simp del: unat_cancel)

lemma dist_bump_head:
  assumes "unat h < 256" "unat t < 256" "dist h t < 255"
  shows "dist (bump h) t = dist h t + 1"
  using assms(3) unfolding dist_alt [OF assms(1,2)] dist_alt [OF unat_bump_less [OF assms(1)] assms(2)]
    unat_bump_alt [OF assms(1)] using assms(1,2) by (auto split: if_splits)

lemma dist_bump_tail:
  assumes "unat h < 256" "unat t < 256" "0 < dist h t"
  shows "dist h (bump t) = dist h t - 1"
  using assms(3) unfolding dist_alt [OF assms(1,2)] dist_alt [OF assms(1) unat_bump_less [OF assms(2)]]
    unat_bump_alt [OF assms(2)] using assms(1,2) by (auto split: if_splits)

lemma dist_bound [simp]: "dist h t < 256"
  by (simp add: dist_def)

text \<open>The slot a producer writes is the one behind the contents.\<close>

lemma head_slot:
  assumes "unat h < 256" "unat t < 256" "i \<le> dist h t"
  shows "(unat t + i) mod 256 = unat h \<longleftrightarrow> i = dist h t"
  using assms by (subst mod_ring) (auto simp: dist_alt split: if_splits)

lemma contents_write_head:
  assumes "ring_ok k"
  shows "ring_contents (k\<lparr>buf := (buf k)[unat (head k) := b]\<rparr>) = ring_contents k"
proof -
  have "(unat (tail k) + i) mod 256 \<noteq> unat (head k)" if "i < dist (head k) (tail k)" for i
    using head_slot [of "head k" "tail k" i] assms that by (auto simp: ring_ok_def)
  then have "(buf k)[unat (head k) := b] ! ((unat (tail k) + i) mod 256) = buf k ! ((unat (tail k) + i) mod 256)"
    if "i < dist (head k) (tail k)" for i
    using that by (metis nth_list_update_neq)
  then show ?thesis by (simp add: ring_contents_def)
qed

lemma contents_store_head:
  assumes "ring_ok k" "dist (head k) (tail k) < 255"
  shows "ring_contents (k\<lparr>head := bump (head k)\<rparr>) = ring_contents k @ [buf k ! unat (head k)]"
proof -
  have "(unat (tail k) + dist (head k) (tail k)) mod 256 = unat (head k)"
    using head_slot [of "head k" "tail k"] assms by (simp add: ring_ok_def)
  then show ?thesis
    using assms by (simp add: ring_contents_def dist_bump_head ring_ok_def)
qed

lemma contents_store_tail:
  assumes "ring_ok k" "0 < dist (head k) (tail k)"
  shows "ring_contents k = buf k ! unat (tail k) # ring_contents (k\<lparr>tail := bump (tail k)\<rparr>)"
proof -
  obtain n where n: "dist (head k) (tail k) = Suc n" using assms(2) gr0_implies_Suc by blast
  have "(Suc (unat (tail k)) mod 256 + i) mod 256 = Suc (unat (tail k) + i) mod 256" for i
    by (simp add: mod_add_left_eq)
  with n assms show ?thesis
    by (simp add: ring_contents_def dist_bump_tail ring_ok_def map_upt_Suc del: upt_Suc)
qed

lemma length_contents: "length (ring_contents k) = dist (head k) (tail k)"
  by (simp add: ring_contents_def)

text \<open>
  The interface the receiving side relies on: a first-in first-out queue of limited capacity
  that drops what it is given when it is full.
\<close>

locale bounded_fifo =
  fixes push :: "'a \<Rightarrow> 'q \<Rightarrow> 'q outcome"
    and pop :: "'q \<Rightarrow> ('a option \<times> 'q) outcome"
    and contents :: "'q \<Rightarrow> 'a list"
    and ok :: "'q \<Rightarrow> bool"
    and capacity :: nat
  assumes bounded: "ok q \<Longrightarrow> length (contents q) \<le> capacity"
    and push_room: "ok q \<Longrightarrow> length (contents q) < capacity \<Longrightarrow>
      \<exists>q'. push x q = Inr q' \<and> ok q' \<and> contents q' = contents q @ [x]"
    and push_full: "ok q \<Longrightarrow> length (contents q) = capacity \<Longrightarrow>
      \<exists>q'. push x q = Inr q' \<and> ok q' \<and> contents q' = contents q"
    and pop_empty: "ok q \<Longrightarrow> contents q = [] \<Longrightarrow> pop q = Inr (None, q)"
    and pop_first: "ok q \<Longrightarrow> contents q = x # xs \<Longrightarrow>
      \<exists>q'. pop q = Inr (Some x, q') \<and> ok q' \<and> contents q' = xs"

fun push_all :: "('a \<Rightarrow> 'q \<Rightarrow> 'q outcome) \<Rightarrow> 'a list \<Rightarrow> 'q \<Rightarrow> 'q outcome" where
  "push_all push [] q = Inr q"
| "push_all push (x # xs) q = and_then (push x q) (push_all push xs)"

fun pop_many :: "('q \<Rightarrow> ('a option \<times> 'q) outcome) \<Rightarrow> nat \<Rightarrow> 'q \<Rightarrow> ('a option list \<times> 'q) outcome" where
  "pop_many pop 0 q = Inr ([], q)"
| "pop_many pop (Suc n) q =
     and_then (pop q) (\<lambda>(r, q). and_then (pop_many pop n q) (\<lambda>(rs, q). Inr (r # rs, q)))"

context bounded_fifo
begin

lemma push_take:
  assumes "ok q"
  shows "\<exists>q'. push x q = Inr q' \<and> ok q' \<and> contents q' = take capacity (contents q @ [x])"
proof (cases "length (contents q) < capacity")
  case True
  with push_room [OF assms, of x] show ?thesis by auto
next
  case False
  with bounded [OF assms] push_full [OF assms, of x] show ?thesis by auto
qed

text \<open>A burst is kept in order up to the capacity.\<close>

lemma push_all_contents:
  "ok q \<Longrightarrow> \<exists>q'. push_all push xs q = Inr q' \<and> ok q' \<and> contents q' = take capacity (contents q @ xs)"
proof (induction xs arbitrary: q)
  case Nil
  then show ?case using bounded by simp
next
  case (Cons x xs)
  obtain q1 where q1: "push x q = Inr q1" "ok q1" "contents q1 = take capacity (contents q @ [x])"
    using push_take [OF Cons.prems] by blast
  obtain q2 where q2: "push_all push xs q1 = Inr q2" "ok q2" "contents q2 = take capacity (contents q1 @ xs)"
    using Cons.IH [OF q1(2)] by blast
  have absorb: "take capacity (take capacity ys @ xs) = take capacity (ys @ xs)" for ys
    by (simp add: min_def)
  have "contents q2 = take capacity (contents q @ x # xs)"
    unfolding q2(3) q1(3) absorb by simp
  with q1 q2 show ?case by simp
qed

lemma pop_many_contents:
  "ok q \<Longrightarrow> n \<le> length (contents q) \<Longrightarrow>
    \<exists>q'. pop_many pop n q = Inr (map Some (take n (contents q)), q') \<and> ok q' \<and> contents q' = drop n (contents q)"
proof (induction n arbitrary: q)
  case 0
  then show ?case by simp
next
  case (Suc n)
  then obtain x xs where xs: "contents q = x # xs" by (cases "contents q") auto
  then obtain q1 where q1: "pop q = Inr (Some x, q1)" "ok q1" "contents q1 = xs"
    using pop_first [OF Suc.prems(1)] by blast
  then obtain q2 where "pop_many pop n q1 = Inr (map Some (take n xs), q2)" "ok q2" "contents q2 = drop n xs"
    using Suc.IH [OF q1(2)] Suc.prems(2) xs by auto
  with q1 xs show ?case by simp
qed

end

lemma ring_push_eq:
  assumes "ring_ok k"
  shows "ring_push b k = Inr (if dist (head k) (tail k) = 255 then k\<lparr>dropped := dropped k + 1\<rparr>
    else k\<lparr>buf := (buf k)[unat (head k) := b], head := bump (head k)\<rparr>)"
  using assms bump_eq_iff [of "head k" "tail k"] by (simp add: ring_push_def ring_ok_def Let_def)

lemma ring_pop_eq:
  assumes "ring_ok k"
  shows "ring_pop k = Inr (if dist (head k) (tail k) = 0 then (None, k)
    else (Some (buf k ! unat (tail k)), k\<lparr>tail := bump (tail k)\<rparr>))"
  using assms eq_iff_dist [of "head k" "tail k"] by (simp add: ring_pop_def ring_ok_def Let_def)

lemma ring_ok_simps [simp]:
  "ring_ok (k\<lparr>dropped := d\<rparr>) = ring_ok k"
  "ring_ok (k\<lparr>buf := (buf k)[i := b]\<rparr>) = ring_ok k"
  "ring_ok k \<Longrightarrow> ring_ok (k\<lparr>head := bump (head k)\<rparr>)"
  "ring_ok k \<Longrightarrow> ring_ok (k\<lparr>tail := bump (tail k)\<rparr>)"
  by (simp_all add: ring_ok_def)

lemma ring_contents_dropped [simp]: "ring_contents (k\<lparr>dropped := d\<rparr>) = ring_contents k"
  by (simp add: ring_contents_def)

lemma ring_push_room:
  assumes "ring_ok k" "dist (head k) (tail k) < 255"
  shows "\<exists>k'. ring_push b k = Inr k' \<and> ring_ok k' \<and> ring_contents k' = ring_contents k @ [b] \<and> dropped k' = dropped k"
proof -
  let ?k = "k\<lparr>buf := (buf k)[unat (head k) := b]\<rparr>"
  have ok: "ring_ok ?k" using assms(1) by simp
  have "ring_contents (?k\<lparr>head := bump (head ?k)\<rparr>) = ring_contents ?k @ [buf ?k ! unat (head ?k)]"
    by (rule contents_store_head [OF ok]) (use assms(2) in simp)
  moreover have "buf ?k ! unat (head ?k) = b" using assms(1) by (simp add: ring_ok_def)
  moreover have "ring_ok (?k\<lparr>head := bump (head ?k)\<rparr>)" using ok by (rule ring_ok_simps)
  ultimately show ?thesis
    using assms contents_write_head [OF assms(1)] by (simp add: ring_push_eq)
qed

interpretation kbd_ring: bounded_fifo ring_push ring_pop ring_contents ring_ok 255
proof
  fix k :: kbd and x :: u8 and xs :: "u8 list"
  assume ok: "ring_ok k"
  show "length (ring_contents k) \<le> 255"
    using dist_bound [of "head k" "tail k"] unfolding length_contents by linarith
  show "\<exists>k'. ring_push x k = Inr k' \<and> ring_ok k' \<and> ring_contents k' = ring_contents k @ [x]"
    if "length (ring_contents k) < 255"
    using ring_push_room [OF ok] that by (auto simp: length_contents)
  show "\<exists>k'. ring_push x k = Inr k' \<and> ring_ok k' \<and> ring_contents k' = ring_contents k"
    if "length (ring_contents k) = 255"
    using that ok by (simp add: ring_push_eq length_contents)
  show "ring_pop k = Inr (None, k)" if "ring_contents k = []"
    using that ok length_contents [of k] by (simp add: ring_pop_eq)
  show "\<exists>k'. ring_pop k = Inr (Some x, k') \<and> ring_ok k' \<and> ring_contents k' = xs"
    if "ring_contents k = x # xs"
    using that ok contents_store_tail [OF ok] length_contents [of k] by (auto simp: ring_pop_eq)
qed

lemma kbd_boot_ring [simp]: "ring_ok kbd_boot" "ring_contents kbd_boot = []"
  by (simp_all add: ring_ok_def kbd_boot_def ring_contents_def dist_def)

section \<open>Producer and consumer interleaved\<close>

text \<open>
  The ring between one producer and one consumer that run their loads and stores in any order.
  \<open>sent\<close> lists the bytes whose head store has happened, \<open>rcvd\<close> those whose tail store
  has. The accesses are the acquire and release accesses of the source, which the steps order
  sequentially.
\<close>

record spsc =
  ring :: kbd
  prod :: producer
  cons :: consumer
  sent :: "u8 list"
  rcvd :: "u8 list"

fun sent_by :: "producer \<Rightarrow> u8 list" where
  "sent_by (P_written b h) = [b]"
| "sent_by _ = []"

fun rcvd_by :: "consumer \<Rightarrow> u8 list" where
  "rcvd_by (C_read t b) = [b]"
| "rcvd_by _ = []"

inductive spsc_step :: "spsc \<Rightarrow> spsc \<Rightarrow> bool" where
  call_push: "prod s = P_done \<Longrightarrow> spsc_step s (s\<lparr>prod := P_start b\<rparr>)"
| call_pop: "cons s = C_done r \<Longrightarrow> spsc_step s (s\<lparr>cons := C_start\<rparr>)"
| step_push: "push_micro (prod s) (ring s) = Inr (p, k) \<Longrightarrow>
    spsc_step s (s\<lparr>prod := p, ring := k, sent := sent s @ sent_by (prod s)\<rparr>)"
| step_pop: "pop_micro (cons s) (ring s) = Inr (c, k) \<Longrightarrow>
    spsc_step s (s\<lparr>cons := c, ring := k, rcvd := rcvd s @ rcvd_by (cons s)\<rparr>)"

definition spsc_boot :: spsc where
  "spsc_boot = \<lparr>ring = kbd_boot, prod = P_done, cons = C_done None, sent = [], rcvd = []\<rparr>"

text \<open>
  What the locals of each side say about the shared indices. The producer's copy of the tail
  and the consumer's copy of the head may be old; an old tail only makes the ring look fuller
  and an old head only emptier.
\<close>

fun prod_ok :: "producer \<Rightarrow> kbd \<Rightarrow> bool" where
  "prod_ok (P_head b h) k = (h = head k)"
| "prod_ok (P_tail b h t) k = (h = head k \<and> unat t < 256 \<and> dist (head k) (tail k) \<le> dist h t)"
| "prod_ok (P_written b n) k = (n = bump (head k) \<and> dist (head k) (tail k) < 255 \<and> buf k ! unat (head k) = b)"
| "prod_ok _ k = True"

fun cons_ok :: "consumer \<Rightarrow> kbd \<Rightarrow> bool" where
  "cons_ok (C_tail t) k = (t = tail k)"
| "cons_ok (C_head t h) k = (t = tail k \<and> (h \<noteq> t \<longrightarrow> 0 < dist (head k) (tail k)))"
| "cons_ok (C_read t b) k = (t = tail k \<and> 0 < dist (head k) (tail k) \<and> buf k ! unat (tail k) = b)"
| "cons_ok _ k = True"

definition spsc_inv :: "spsc \<Rightarrow> bool" where
  "spsc_inv s \<longleftrightarrow> ring_ok (ring s) \<and> prod_ok (prod s) (ring s) \<and> cons_ok (cons s) (ring s) \<and>
     sent s = rcvd s @ ring_contents (ring s)"

text \<open>One step of the producer; the consumer's view survives it.\<close>

lemma push_micro_inv:
  assumes "ring_ok k" "prod_ok p k" "cons_ok c k"
  shows "\<exists>p' k'. push_micro p k = Inr (p', k') \<and> ring_ok k' \<and> prod_ok p' k' \<and> cons_ok c k' \<and>
    ring_contents k' = ring_contents k @ sent_by p"
proof (cases p)
  case (P_tail b h t)
  have bounds: "unat (head k) < 256" "unat (tail k) < 256" "length (buf k) = 256"
    using assms(1) by (auto simp: ring_ok_def)
  have h: "h = head k" and t: "unat t < 256" "dist (head k) (tail k) \<le> dist h t"
    using assms(2) P_tail by auto
  show ?thesis
  proof (cases "bump h = t")
    case True
    with P_tail assms show ?thesis by (cases c) auto
  next
    case False
    then have "dist h t \<noteq> 255" using bump_eq_iff h t bounds by blast
    then have room: "dist (head k) (tail k) < 255"
      using t(2) dist_bound [of h t] by linarith
    have "0 < dist (head k) (tail k) \<Longrightarrow> unat (tail k) \<noteq> unat (head k)"
      using eq_iff_dist [of "head k" "tail k"] bounds by auto
    then have "cons_ok c (k\<lparr>buf := (buf k)[unat (head k) := b]\<rparr>)"
      using assms(3) by (cases c) auto
    with False P_tail assms room bounds h contents_write_head [OF assms(1)] show ?thesis by simp
  qed
next
  case (P_written b n)
  have bounds: "unat (head k) < 256" "unat (tail k) < 256" using assms(1) by (auto simp: ring_ok_def)
  have "cons_ok c (k\<lparr>head := bump (head k)\<rparr>)"
    using assms(2,3) P_written dist_bump_head [OF bounds] by (cases c) auto
  with P_written assms contents_store_head [OF assms(1)] show ?thesis by simp
qed (use assms in \<open>auto simp: ring_ok_def\<close>)

lemma pop_micro_inv:
  assumes "ring_ok k" "prod_ok p k" "cons_ok c k"
  shows "\<exists>c' k'. pop_micro c k = Inr (c', k') \<and> ring_ok k' \<and> prod_ok p k' \<and> cons_ok c' k' \<and>
    ring_contents k = rcvd_by c @ ring_contents k'"
proof (cases c)
  case (C_read t b)
  have bounds: "unat (head k) < 256" "unat (tail k) < 256" using assms(1) by (auto simp: ring_ok_def)
  have "prod_ok p (k\<lparr>tail := bump (tail k)\<rparr>)"
    using assms(2,3) C_read dist_bump_tail [OF bounds] by (cases p) auto
  with C_read assms contents_store_tail [OF assms(1)] show ?thesis by simp
next
  case (C_head t h)
  with assms show ?thesis by (auto simp: ring_ok_def)
next
  case (C_tail t)
  then have "h \<noteq> t \<longrightarrow> 0 < dist (head k) (tail k)" if "h = head k" for h
    using assms eq_iff_dist [of "head k" "tail k"] that by (auto simp: ring_ok_def)
  with C_tail assms show ?thesis by simp
qed (use assms in auto)

interpretation spsc: invariant_system "\<lambda>s. s = spsc_boot" spsc_step spsc_inv
proof
  fix s t
  assume inv: "spsc_inv s" and "spsc_step s t"
  from this(2) show "spsc_inv t"
  proof cases
    case (step_push p k)
    then show ?thesis
      using push_micro_inv [of "ring s" "prod s" "cons s"] inv by (auto simp: spsc_inv_def)
  next
    case (step_pop c k)
    then show ?thesis
      using pop_micro_inv [of "ring s" "prod s" "cons s"] inv by (auto simp: spsc_inv_def)
  qed (use inv in \<open>auto simp: spsc_inv_def\<close>)
qed (simp add: spsc_inv_def spsc_boot_def)

section \<open>Typed text\<close>

text \<open>
  What a set-1 keyboard sends for a character: press and release of its key, and around them
  press and release of the left shift key where the character needs it.
\<close>

definition key_of :: "u8 list \<Rightarrow> u8 \<Rightarrow> u8" where
  "key_of tab c = of_nat (length (takeWhile (\<lambda>x. x \<noteq> c) tab))"

definition keystrokes :: "u8 \<Rightarrow> u8 list" where
  "keystrokes c =
     (if c \<in> set SC_TO_ASCII then [key_of SC_TO_ASCII c, key_of SC_TO_ASCII c + 0x80]
      else [SC_LSHIFT_PRESS, key_of SC_TO_ASCII_SHIFTED c, key_of SC_TO_ASCII_SHIFTED c + 0x80, SC_LSHIFT_RELEASE])"

definition typeable :: "u8 \<Rightarrow> bool" where
  "typeable c \<longleftrightarrow> c \<noteq> 0 \<and> c \<in> set SC_TO_ASCII \<union> set SC_TO_ASCII_SHIFTED"

text \<open>The handler without its port read and its end-of-interrupt write.\<close>

definition irq_byte :: "u8 \<Rightarrow> kbd \<Rightarrow> kbd outcome" where
  "irq_byte sc k = and_then (decode_scancode sc k)
     (\<lambda>(r, k). case r of Some b \<Rightarrow> ring_push b k | None \<Rightarrow> Inr k)"

text \<open>The decoder between keystrokes: no extended sequence open, both shift keys up.\<close>

definition at_rest :: "kbd \<Rightarrow> bool" where
  "at_rest k \<longleftrightarrow> in_e1_sequence_remaining k = 0 \<and> \<not> in_e0_sequence k \<and> \<not> lshift_down k \<and> \<not> rshift_down k"

lemma SC_length [simp]: "length SC_TO_ASCII = 89" "length SC_TO_ASCII_SHIFTED = 89"
  by (simp_all add: SC_TO_ASCII_def SC_TO_ASCII_SHIFTED_def bytes_def)

lemma SC_values:
  "map unat SC_TO_ASCII = [0, 27, 49, 50, 51, 52, 53, 54, 55, 56, 57, 48, 45, 61, 8, 9, 113, 119, 101, 114, 116, 121,
      117, 105, 111, 112, 91, 93, 10, 0, 97, 115, 100, 102, 103, 104, 106, 107, 108, 59, 39, 96,
      0, 92, 122, 120, 99, 118, 98, 110, 109, 44, 46, 47, 0, 42, 0, 32] @ replicate 31 0"
  "map unat SC_TO_ASCII_SHIFTED = [0, 27, 33, 64, 35, 36, 37, 94, 38, 42, 40, 41, 95, 43, 8, 9, 81, 87, 69, 82, 84, 89, 85,
      73, 79, 80, 123, 125, 10, 0, 65, 83, 68, 70, 71, 72, 74, 75, 76, 58, 34, 126, 0, 124, 90,
      88, 67, 86, 66, 78, 77, 60, 62, 63, 0, 42, 0, 32] @ replicate 31 0"
  by (simp_all add: SC_TO_ASCII_def SC_TO_ASCII_SHIFTED_def bytes_def)

lemma SC_shift_keys:
  "SC_TO_ASCII ! 42 = 0" "SC_TO_ASCII ! 54 = 0" "SC_TO_ASCII_SHIFTED ! 42 = 0" "SC_TO_ASCII_SHIFTED ! 54 = 0"
  by code_simp+

lemmas SC_codes = SC_EXTENDED_E0_def SC_EXTENDED_E1_def SC_LSHIFT_PRESS_def SC_LSHIFT_RELEASE_def
  SC_RSHIFT_PRESS_def SC_RSHIFT_RELEASE_def SC_RELEASE_MASK_def

lemma takeWhile_neq_less: "c \<in> set tab \<Longrightarrow> length (takeWhile (\<lambda>x. x \<noteq> c) tab) < length tab"
  by (induction tab) auto

lemma key_of_nth:
  assumes "c \<in> set tab" "length tab = 89"
  shows "tab ! unat (key_of tab c) = c" "unat (key_of tab c) < 89"
proof -
  let ?n = "length (takeWhile (\<lambda>x. x \<noteq> c) tab)"
  have n: "?n < 89" using takeWhile_neq_less assms by metis
  then have "unat (key_of tab c) = ?n" by (simp add: key_of_def unat_of_nat_small)
  with n show "unat (key_of tab c) < 89" "tab ! unat (key_of tab c) = c"
    using nth_length_takeWhile [of "\<lambda>x. x \<noteq> c" tab] assms(2) by auto
qed

lemma release_bit: "unat (sc :: u8) < 128 \<Longrightarrow> sc AND 0x80 = 0"
  "unat sc < 128 \<Longrightarrow> (sc + 0x80) AND 0x80 \<noteq> 0"
proof -
  have bit7: "x AND 0x80 = 0 \<longleftrightarrow> \<not> bit x 7" for x :: u8
    using and_exp_eq_0_iff_not_bit [of x 7] by simp
  have *: "bit x 7 \<longleftrightarrow> 128 \<le> unat x" for x :: u8
  proof -
    have "bit x 7 \<longleftrightarrow> odd (unat x div 128)"
      using bit_unsigned_iff [of x 7, where ?'a = nat] by (simp add: bit_iff_odd [of "unat x"])
    moreover have "unat x div 128 < 2" using unat_bound [of x] by simp
    ultimately show ?thesis by (cases "unat x div 128") auto
  qed
  show "sc AND 0x80 = 0" if "unat sc < 128" using that by (simp add: bit7 *)
  show "(sc + 0x80) AND 0x80 \<noteq> 0" if "unat sc < 128"
  proof -
    have "unat (sc + 0x80) = unat sc + 128" using that by (subst unat_add_noof) auto
    then show ?thesis by (simp add: bit7 *)
  qed
qed

lemma decode_press:
  assumes "unat sc < 89" "unat sc \<noteq> 42" "unat sc \<noteq> 54"
    and "in_e1_sequence_remaining k = 0" "\<not> in_e0_sequence k"
  defines "tab \<equiv> if lshift_down k \<or> rshift_down k then SC_TO_ASCII_SHIFTED else SC_TO_ASCII"
  shows "decode_scancode sc k = Inr (if tab ! unat sc = 0 then None else Some (tab ! unat sc), k)"
proof -
  have "sc \<noteq> 0xE0" "sc \<noteq> 0xE1" "sc \<noteq> 0x2A" "sc \<noteq> 0xAA" "sc \<noteq> 0x36" "sc \<noteq> 0xB6"
    using assms(1-3) by auto
  moreover have "sc AND 0x80 = 0" using release_bit(1) assms(1) by simp
  ultimately show ?thesis
    using assms by (simp add: decode_scancode_def SC_codes)
qed

lemma decode_release:
  assumes "unat sc < 89" "unat sc \<noteq> 42" "unat sc \<noteq> 54"
    and "in_e1_sequence_remaining k = 0" "\<not> in_e0_sequence k"
  shows "decode_scancode (sc + 0x80) k = Inr (None, k)"
proof -
  have "unat (sc + 0x80) = unat sc + 128" using assms(1) by (subst unat_add_noof) auto
  then have "sc + 0x80 \<noteq> 0xE0" "sc + 0x80 \<noteq> 0xE1" "sc + 0x80 \<noteq> 0x2A" "sc + 0x80 \<noteq> 0xAA" "sc + 0x80 \<noteq> 0x36"
    "sc + 0x80 \<noteq> 0xB6"
    using assms(1-3) by (auto simp flip: unat_cancel)
  moreover have "(sc + 0x80) AND 0x80 \<noteq> 0" using release_bit(2) assms(1) by simp
  ultimately show ?thesis
    using assms(4,5) by (simp add: decode_scancode_def SC_codes)
qed

lemma ring_push_flags:
  "ring_push b k = Inr k' \<Longrightarrow> lshift_down k' = lshift_down k \<and> rshift_down k' = rshift_down k \<and>
     in_e0_sequence k' = in_e0_sequence k \<and> in_e1_sequence_remaining k' = in_e1_sequence_remaining k"
  by (auto simp: ring_push_def Let_def split: if_splits)

lemma ring_push_shift:
  "ring_push b (k\<lparr>lshift_down := v\<rparr>) = and_then (ring_push b k) (\<lambda>k. Inr (k\<lparr>lshift_down := v\<rparr>))"
  by (cases k) (simp add: ring_push_def Let_def)

text \<open>The keystrokes of a character put that character, and nothing else, in the ring.\<close>

lemma keystrokes_push:
  assumes "at_rest k" "typeable c"
  shows "push_all irq_byte (keystrokes c) k = ring_push c k"
proof -
  have nz: "c \<noteq> 0" and rest: "in_e1_sequence_remaining k = 0" "\<not> in_e0_sequence k" "\<not> lshift_down k" "\<not> rshift_down k"
    using assms by (auto simp: typeable_def at_rest_def)
  note step = irq_byte_def decode_press decode_release
  show ?thesis
  proof (cases "c \<in> set SC_TO_ASCII")
    case True
    let ?i = "key_of SC_TO_ASCII c"
    have i: "SC_TO_ASCII ! unat ?i = c" "unat ?i < 89" "unat ?i \<noteq> 42" "unat ?i \<noteq> 54"
      using key_of_nth [OF True] SC_shift_keys nz by auto
    have press: "irq_byte ?i k = ring_push c k" using i rest nz by (simp add: step)
    show ?thesis
    proof (cases "ring_push c k")
      case (Inl e)
      with press True show ?thesis by (simp add: keystrokes_def)
    next
      case (Inr k')
      then have "irq_byte (?i + 0x80) k' = Inr k'" using i rest ring_push_flags [OF Inr] by (simp add: step)
      with Inr press True show ?thesis by (simp add: keystrokes_def)
    qed
  next
    case False
    then have in_sh: "c \<in> set SC_TO_ASCII_SHIFTED" using assms(2) by (auto simp: typeable_def)
    let ?i = "key_of SC_TO_ASCII_SHIFTED c" and ?k = "k\<lparr>lshift_down := True\<rparr>"
    have i: "SC_TO_ASCII_SHIFTED ! unat ?i = c" "unat ?i < 89" "unat ?i \<noteq> 42" "unat ?i \<noteq> 54"
      using key_of_nth [OF in_sh] SC_shift_keys nz by auto
    have down: "irq_byte SC_LSHIFT_PRESS k = Inr ?k"
      using rest by (simp add: irq_byte_def decode_scancode_def SC_codes)
    have press: "irq_byte ?i ?k = ring_push c ?k" using i rest nz by (simp add: step)
    show ?thesis
    proof (cases "ring_push c k")
      case (Inl e)
      with down press False show ?thesis by (simp add: keystrokes_def ring_push_shift)
    next
      case (Inr k')
      note flags = ring_push_flags [OF Inr]
      have rel: "irq_byte (?i + 0x80) (k'\<lparr>lshift_down := True\<rparr>) = Inr (k'\<lparr>lshift_down := True\<rparr>)"
        using i rest flags by (simp add: step)
      have up: "irq_byte SC_LSHIFT_RELEASE (k'\<lparr>lshift_down := True\<rparr>) = Inr (k'\<lparr>lshift_down := False\<rparr>)"
        using rest flags by (simp add: irq_byte_def decode_scancode_def SC_codes)
      have "k'\<lparr>lshift_down := False\<rparr> = k'" using rest flags by (cases k') simp
      with Inr down press rel up False show ?thesis by (simp add: keystrokes_def ring_push_shift)
    qed
  qed
qed

lemma push_all_append: "push_all f (xs @ ys) q = and_then (push_all f xs q) (push_all f ys)"
  by (induction xs arbitrary: q) (simp_all add: and_then_def split: sum.splits)

lemma type_text_push:
  "at_rest k \<Longrightarrow> \<forall>c \<in> set cs. typeable c \<Longrightarrow>
    push_all irq_byte (concat (map keystrokes cs)) k = push_all ring_push cs k"
proof (induction cs arbitrary: k)
  case Nil
  then show ?case by simp
next
  case (Cons c cs)
  show ?case
  proof (cases "ring_push c k")
    case (Inl e)
    with Cons.prems show ?thesis by (simp add: push_all_append keystrokes_push)
  next
    case (Inr k')
    then have "at_rest k'" using Cons.prems(1) ring_push_flags [OF Inr] by (simp add: at_rest_def)
    with Inr Cons show ?thesis by (simp add: push_all_append keystrokes_push)
  qed
qed

text \<open>The interrupt handler on an i8042 that holds a sequence of scancodes.\<close>

fun i8042_in :: "u8 list port_in" where
  "i8042_in port (sc # scs) = (sc, scs)"
| "i8042_in port [] = (0, [])"

fun irqs :: "nat \<Rightarrow> kbd \<times> u8 list \<Rightarrow> (kbd \<times> u8 list) outcome" where
  "irqs 0 s = Inr s"
| "irqs (Suc n) s = and_then (keyboard_handler i8042_in (\<lambda>io. io) s) (irqs n)"

lemma keyboard_handler_i8042:
  "keyboard_handler i8042_in (\<lambda>io. io) (k, sc # scs) = and_then (irq_byte sc k) (\<lambda>k. Inr (k, scs))"
  by (auto simp: keyboard_handler_def irq_byte_def and_then_def split: sum.splits)

lemma irqs_push_all: "irqs (length scs) (k, scs) = and_then (push_all irq_byte scs k) (\<lambda>k. Inr (k, []))"
proof (induction scs arbitrary: k)
  case (Cons sc scs)
  then show ?case by (cases "irq_byte sc k") (simp_all add: keyboard_handler_i8042)
qed simp

text \<open>Printable ASCII, Backspace, Tab, Enter and Escape.\<close>

definition text_byte :: "u8 \<Rightarrow> bool" where
  "text_byte c \<longleftrightarrow> 0x20 \<le> c \<and> c \<le> 0x7E \<or> c \<in> {0x08, 0x09, 0x0A, 0x1B}"

definition scancodes :: "u8 list \<Rightarrow> u8 list" where
  "scancodes cs = concat (map keystrokes cs)"

lemma printable_typeable:
  assumes "text_byte c"
  shows "typeable c"
proof -
  have "unat c \<in> {32..126} \<union> {8, 9, 10, 27}" using assms by (auto simp: text_byte_def word_le_nat_alt)
  then have "unat c \<in> unat ` (set SC_TO_ASCII \<union> set SC_TO_ASCII_SHIFTED)"
    unfolding image_Un set_map [symmetric] SC_values by simp presburger
  then show ?thesis using assms by (auto simp: typeable_def text_byte_def)
qed

lemma typed_irqs:
  assumes "\<forall>c \<in> set cs. text_byte c"
  shows "\<exists>k. irqs (length (scancodes cs)) (kbd_boot, scancodes cs) = Inr (k, []) \<and> ring_ok k \<and>
    ring_contents k = take 255 cs"
proof -
  have "\<forall>c \<in> set cs. typeable c" using assms printable_typeable by blast
  moreover have "at_rest kbd_boot" by (simp add: at_rest_def kbd_boot_def)
  ultimately have "push_all irq_byte (scancodes cs) kbd_boot = push_all ring_push cs kbd_boot"
    unfolding scancodes_def by (intro type_text_push)
  then show ?thesis
    using kbd_ring.push_all_contents [of kbd_boot cs] unfolding irqs_push_all by auto
qed

text \<open>The receive loop pops as soon as one of its yields has let a byte in.\<close>

fun after_yields :: "(nat \<Rightarrow> kbd \<Rightarrow> kbd) \<Rightarrow> nat \<Rightarrow> kbd \<Rightarrow> kbd" where
  "after_yields y 0 k = k"
| "after_yields y (Suc n) k = after_yields (\<lambda>i. y (Suc i)) n (y 0 k)"

lemma recv_blocking_shift:
  assumes "\<And>i k. ring_ok k \<Longrightarrow> ring_ok (y i k)" "ring_ok k"
    and "\<forall>m < n. ring_contents (after_yields (\<lambda>i. y (j + i)) m k) = []"
    and "ring_contents (after_yields (\<lambda>i. y (j + i)) n k) = b # bs"
  shows "\<exists>k'. recv_blocking y j k = Some (Inr (b, j + n, k')) \<and> ring_contents k' = bs"
  using assms
proof (induction n arbitrary: j k)
  case 0
  then show ?case using kbd_ring.pop_first [of k b bs] by (subst recv_blocking.simps) auto
next
  case (Suc n)
  have "ring_contents k = []" using Suc.prems(3) by (metis after_yields.simps(1) zero_less_Suc)
  then have rec: "recv_blocking y j k = recv_blocking y (j + 1) (y j k)"
    using kbd_ring.pop_empty Suc.prems(2) by (subst recv_blocking.simps) simp
  have shift: "after_yields (\<lambda>i. y (j + 1 + i)) m (y j k) = after_yields (\<lambda>i. y (j + i)) (Suc m) k" for m
    by simp
  have "\<forall>m < n. ring_contents (after_yields (\<lambda>i. y (j + i)) (Suc m) k) = []" using Suc.prems(3) by blast
  then show ?case
    using Suc.IH [of "y j k" "j + 1"] Suc.prems unfolding rec shift by auto
qed

section \<open>Properties\<close>

text \<open>
  C6. The keyboard ring is a correct single-producer single-consumer queue: however the loads
  and stores of one ring\_push and one ring\_pop caller interleave, the bytes received followed by
  the bytes in the ring are exactly the bytes accepted, in order, and neither side ever indexes
  outside the buffer.
\<close>

theorem kbd_ring_spsc:
  assumes "reachable spsc_step spsc_boot s"
  shows "sent s = rcvd s @ ring_contents (ring s) \<and>
    (\<exists>r. push_micro (prod s) (ring s) = Inr r) \<and> (\<exists>r. pop_micro (cons s) (ring s) = Inr r)"
proof -
  have inv: "ring_ok (ring s)" "prod_ok (prod s) (ring s)" "cons_ok (cons s) (ring s)"
    and log: "sent s = rcvd s @ ring_contents (ring s)"
    using spsc.reachable_inv [OF refl assms] by (simp_all add: spsc_inv_def)
  show ?thesis using log push_micro_inv [OF inv] pop_micro_inv [OF inv] by blast
qed

text \<open>
  Typing works end to end up to the shell: for any text of printable ASCII characters,
  Backspace, Tab, Enter and Escape, the interrupts for its keystrokes leave in the ring of a freshly
  booted driver the text itself, in order, cut at the 255 bytes the ring holds.
\<close>

theorem typed_text_in_ring:
  assumes "\<forall>c \<in> set cs. text_byte c"
  shows "\<exists>k. irqs (length (scancodes cs)) (kbd_boot, scancodes cs) = Inr (k, []) \<and> ring_contents k = take 255 cs"
  using typed_irqs [OF assms] by blast

text \<open>
  Extended sequences are absorbed: from a decoder with no sequence open, an E0 byte with
  the byte after it, and an E1 byte with the two bytes after it, produce no character and leave the
  whole driver state as it was, whatever those bytes are, shift codes and further prefixes
  included.
\<close>

theorem extended_absorbed:
  assumes "in_e1_sequence_remaining k = 0" "\<not> in_e0_sequence k"
  shows "push_all irq_byte [0xE0, x] k = Inr k \<and> push_all irq_byte [0xE1, x, y] k = Inr k"
  using assms by (cases k) (simp add: irq_byte_def decode_scancode_def SC_codes)

text \<open>
  The receive loop returns: if each yield keeps the ring well formed and the ring is first
  non-empty after n of them, recv\_blocking yields exactly n times, returns the oldest byte and
  leaves the others.
\<close>

theorem recv_blocking_returns:
  assumes "\<And>i k. ring_ok k \<Longrightarrow> ring_ok (y i k)" "ring_ok k"
    and "\<forall>m < n. ring_contents (after_yields y m k) = []"
    and "ring_contents (after_yields y n k) = b # bs"
  shows "\<exists>k'. recv_blocking y 0 k = Some (Inr (b, n, k')) \<and> ring_contents k' = bs"
  using recv_blocking_shift [of y k n 0 b bs] assms by simp

text \<open>
  Two producers lose bytes: if the keyboard interrupt runs between the loads and the stores
  of an injection, the byte of the interrupt is overwritten by the injected one, and the
  count of dropped bytes does not change.
\<close>

theorem inject_race:
  assumes "ring_ok k" "length (ring_contents k) < 255"
  shows "\<exists>k1 k2 k3 p. push_micro (P_start b) k = Inr (P_head b (head k), k) \<and>
    push_micro (P_head b (head k)) k = Inr (P_tail b (head k) (tail k), k) \<and>
    ring_push a k = Inr k1 \<and>
    push_micro (P_tail b (head k) (tail k)) k1 = Inr (p, k2) \<and> push_micro p k2 = Inr (P_done, k3) \<and>
    ring_contents k3 = ring_contents k @ [b] \<and> dropped k3 = dropped k"
proof -
  have room: "dist (head k) (tail k) < 255" using assms(2) by (simp add: length_contents)
  have nb: "bump (head k) \<noteq> tail k" "unat (head k) < length (buf k)"
    using bump_eq_iff assms(1) room by (auto simp: ring_ok_def)
  let ?k1 = "k\<lparr>buf := (buf k)[unat (head k) := a], head := bump (head k)\<rparr>"
  let ?k3 = "k\<lparr>buf := (buf k)[unat (head k) := b], head := bump (head k)\<rparr>"
  have "ring_push a k = Inr ?k1" "ring_push b k = Inr ?k3" using room assms(1) by (simp_all add: ring_push_eq)
  with ring_push_room [OF assms(1) room, of b] nb show ?thesis by (simp add: Let_def)
qed

section \<open>Witnesses\<close>

lemma spsc_demo: "reachable spsc_step spsc_boot (spsc_boot\<lparr>prod := P_head 0x61 0\<rparr>)"
proof -
  have "spsc_step spsc_boot (spsc_boot\<lparr>prod := P_start 0x61\<rparr>)"
    by (intro call_push) (simp add: spsc_boot_def)
  moreover have "spsc_step (spsc_boot\<lparr>prod := P_start 0x61\<rparr>) (spsc_boot\<lparr>prod := P_head 0x61 0\<rparr>)"
    using step_push [of "spsc_boot\<lparr>prod := P_start 0x61\<rparr>" "P_head 0x61 0" kbd_boot]
    by (simp add: spsc_boot_def kbd_boot_def)
  ultimately show ?thesis by (meson converse_rtranclp_into_rtranclp r_into_rtranclp)
qed

theorem kbd_ring_spsc_witness: "\<exists>r. push_micro (P_head 0x61 0) kbd_boot = Inr r"
  using kbd_ring_spsc [OF spsc_demo] by (simp add: spsc_boot_def)

theorem typed_text_in_ring_witness:
  "\<exists>k. irqs (length [0x2A, 0x23, 0xA3, 0xAA, 0x17, 0x97 :: u8]) (kbd_boot, [0x2A, 0x23, 0xA3, 0xAA, 0x17, 0x97]) = Inr (k, []) \<and>
     ring_contents k = bytes ''Hi''"
proof -
  have "scancodes (bytes ''Hi'') = [0x2A, 0x23, 0xA3, 0xAA, 0x17, 0x97]" by code_simp
  moreover have "take 255 (bytes ''Hi'') = bytes ''Hi''" by (simp add: bytes_def)
  moreover have "\<forall>c \<in> set (bytes ''Hi''). text_byte c" by (simp add: bytes_def text_byte_def)
  ultimately show ?thesis using typed_text_in_ring [of "bytes ''Hi''"] by metis
qed

theorem extended_absorbed_witness: "push_all irq_byte [0xE0, 0xE0] kbd_boot = Inr kbd_boot"
  using extended_absorbed [of kbd_boot "0xE0"] by (simp add: kbd_boot_def)

theorem recv_blocking_returns_witness:
  "\<exists>k'. recv_blocking (\<lambda>i k. case ring_push 0x61 k of Inr k' \<Rightarrow> k' | Inl e \<Rightarrow> k) 0 kbd_boot = Some (Inr (0x61, 1, k')) \<and>
     ring_contents k' = []"
proof -
  let ?y = "\<lambda>i :: nat. \<lambda>k. case ring_push 0x61 k of Inr k' \<Rightarrow> k' | Inl e \<Rightarrow> k"
  have ok: "ring_ok (?y i k)" if "ring_ok k" for i k
    using kbd_ring.push_take [OF that, of "0x61"] by auto
  have "ring_contents (after_yields ?y 1 kbd_boot) = 0x61 # []"
    using kbd_ring.push_room [of kbd_boot "0x61"] by auto
  then show ?thesis
    by (intro recv_blocking_returns [of ?y kbd_boot 1 "0x61" "[]"]) (auto simp: ok)
qed

theorem inject_race_witness: "\<exists>k1. ring_push 0x61 kbd_boot = Inr k1"
  using inject_race [of kbd_boot "0x62" "0x61"] by auto

end
