(* ===== verification/Shell.thy ===== *)
theory Shell
  imports Frames Kbd
begin

unbundle bit_operations_syntax

text \<open>
  The interactive shell, arsenal-kernel/src/shell.rs: the line editor of \<open>run\<close>, the command
  dispatcher and the commands. The state is the fixed line buffer, the number of bytes used of it
  and the console: the bytes handed to serial::write\_str so far. The theory shows that the
  editor with its fixed buffer is an editor on lists, and which input makes the shell panic.
\<close>

section \<open>Model\<close>

definition LINE_MAX :: nat where "LINE_MAX = 256"
definition BS :: u8 where "BS = 0x08"
definition LF :: u8 where "LF = 0x0A"

definition PROMPT :: "u8 list" where
  "PROMPT = bytes ''> ''"

text \<open>
  What the hw command reads: the CPUID instruction, the frame allocator and the version word
  that the local APIC driver cached.
\<close>

record hw_env =
  cpuid :: "u32 \<Rightarrow> u32 \<times> u32 \<times> u32 \<times> u32"
  hw_frames :: frame_allocator
  lapic_version :: u32

record shell =
  line_buf :: "u8 list"
  line_len :: usize
  console :: "u8 list"

text \<open>core::str::from\_utf8 accepts exactly the well-formed UTF-8 byte sequences.\<close>

definition cont :: "u8 \<Rightarrow> bool" where
  "cont b \<longleftrightarrow> 0x80 \<le> b \<and> b \<le> 0xBF"

fun utf8_valid :: "u8 list \<Rightarrow> bool" where
  "utf8_valid [] = True"
| "utf8_valid (b # bs) =
     (if b < 0x80 then utf8_valid bs
      else if 0xC2 \<le> b \<and> b \<le> 0xDF
      then (case bs of c # bs' \<Rightarrow> cont c \<and> utf8_valid bs' | _ \<Rightarrow> False)
      else if 0xE0 \<le> b \<and> b \<le> 0xEF
      then (case bs of c # d # bs' \<Rightarrow>
              cont c \<and> (b = 0xE0 \<longrightarrow> 0xA0 \<le> c) \<and> (b = 0xED \<longrightarrow> c \<le> 0x9F) \<and> cont d \<and> utf8_valid bs'
            | _ \<Rightarrow> False)
      else if 0xF0 \<le> b \<and> b \<le> 0xF4
      then (case bs of c # d # e # bs' \<Rightarrow>
              cont c \<and> (b = 0xF0 \<longrightarrow> 0x90 \<le> c) \<and> (b = 0xF4 \<longrightarrow> c \<le> 0x8F) \<and> cont d \<and> cont e \<and> utf8_valid bs'
            | _ \<Rightarrow> False)
      else False)"

text \<open>Integer formatting: \<open>{}\<close>, \<open>{:#x}\<close> and \<open>{:#010x}\<close>.\<close>

definition digit :: "nat \<Rightarrow> u8" where
  "digit n = of_nat (if n < 10 then 48 + n else 87 + n)"

fun radix :: "nat \<Rightarrow> nat \<Rightarrow> u8 list" where
  "radix b n = (if n < b \<or> b < 2 then [digit n] else radix b (n div b) @ [digit (n mod b)])"

declare radix.simps [simp del]

definition dec :: "nat \<Rightarrow> u8 list" where
  "dec n = radix 10 n"

definition hex :: "nat \<Rightarrow> u8 list" where
  "hex n = bytes ''0x'' @ radix 16 n"

definition hex010 :: "nat \<Rightarrow> u8 list" where
  "hex010 n = bytes ''0x'' @ replicate (8 - length (radix 16 n)) 48 @ radix 16 n"

definition le_bytes32 :: "u32 \<Rightarrow> u8 list" where
  "le_bytes32 w = map (\<lambda>i. ucast (drop_bit (8 * i) w)) [0..<4]"

text \<open>Iterator::position with unwrap\_or.\<close>

definition position_or :: "(u8 \<Rightarrow> bool) \<Rightarrow> u8 list \<Rightarrow> nat \<Rightarrow> nat" where
  "position_or P xs d = (if list_ex P xs then length (takeWhile (\<lambda>x. \<not> P x) xs) else d)"

definition echo :: "u8 \<Rightarrow> u8 list" where
  "echo byte = (if utf8_valid [byte] then [byte] else [])"

text \<open>The dash of the help text is U+2014, three bytes in UTF-8.\<close>

definition em_dash :: "u8 list" where
  "em_dash = [0xE2, 0x80, 0x94]"

definition cmd_help :: "u8 list" where
  "cmd_help =
     bytes ''help  '' @ em_dash @ bytes '' list available commands'' @ [LF] @
     bytes ''hw    '' @ em_dash @ bytes '' show hardware summary (CPU, memory, LAPIC, virtio)'' @ [LF] @
     bytes ''panic '' @ em_dash @ bytes '' deliberately panic the kernel (interactive testing)'' @ [LF]"

definition cpu_brand :: "(u32 \<Rightarrow> u32 \<times> u32 \<times> u32 \<times> u32) \<Rightarrow> u8 list" where
  "cpu_brand cp =
     (let brand = concat (map (\<lambda>leaf. let (eax, ebx, ecx, edx) = cp leaf
                    in le_bytes32 eax @ le_bytes32 ebx @ le_bytes32 ecx @ le_bytes32 edx)
                  [0x80000002, 0x80000003, 0x80000004]);
          nul = position_or (\<lambda>b. b = 0) brand (length brand);
          lead = position_or (\<lambda>b. b \<noteq> 0x20) (take nul brand) nul;
          s = drop lead (take nul brand)
      in if utf8_valid s then s else bytes ''(non-ascii brand)'')"

definition cmd_hw :: "hw_env \<Rightarrow> u8 list" where
  "cmd_hw hw =
     (let fr = of_nat (free_count (hw_frames hw)) :: usize;
          total = total_added (hw_frames hw)
      in bytes ''hw:'' @ [LF] @
         bytes ''  cpu: '' @ cpu_brand (cpuid hw) @ [LF] @
         bytes ''  cores: 1 (single-CPU stage)'' @ [LF] @
         bytes ''  ram: '' @ dec (unat (fr * 4)) @ bytes '' KiB free / '' @ dec (unat (total * 4)) @
           bytes '' KiB total ('' @ dec (unat fr) @ bytes '' / '' @ dec (unat total) @ bytes '' 4-KiB frames)'' @ [LF] @
         bytes ''  lapic: version='' @ hex010 (unat (lapic_version hw)) @ bytes '' timer-vector='' @ hex 0xEF @
           bytes '' spurious-vector='' @ hex 0xFF @ [LF] @
         bytes ''  virtio: blk=present net=present'' @ [LF])"

definition cmd_unknown :: "u8 list \<Rightarrow> u8 list" where
  "cmd_unknown token =
     bytes ''unknown command: '' @ (if utf8_valid token then token else bytes ''(non-utf8)'') @
     bytes ''; try '' @ [0x27] @ bytes ''help'' @ [0x27] @ [LF]"

definition first_token :: "u8 list \<Rightarrow> u8 list" where
  "first_token line = take (position_or (\<lambda>b. b = 0x20 \<or> b = 0x09) line (length line)) line"

text \<open>A dispatch returns what it printed; the panic command does not return.\<close>

definition dispatch :: "hw_env \<Rightarrow> u8 list \<Rightarrow> u8 list outcome" where
  "dispatch hw line =
     (if line = [] then Inr []
      else let token = first_token line
           in if token = bytes ''help'' then Inr cmd_help
              else if token = bytes ''hw'' then Inr (cmd_hw hw)
              else if token = bytes ''panic'' then Inl Panic
              else Inr (cmd_unknown token))"

definition print :: "u8 list \<Rightarrow> shell \<Rightarrow> shell" where
  "print s sh = sh\<lparr>console := console sh @ s\<rparr>"

text \<open>One turn of the loop of \<open>run\<close>, for the byte that recv\_blocking returned.\<close>

definition run_byte :: "hw_env \<Rightarrow> u8 \<Rightarrow> shell \<Rightarrow> shell outcome" where
  "run_byte hw b sh =
     (if b = LF then
        let sh = print [LF] sh
        in if unat (line_len sh) \<le> length (line_buf sh)
           then and_then (dispatch hw (take (unat (line_len sh)) (line_buf sh))) (\<lambda>r.
                  Inr (print PROMPT ((print r sh)\<lparr>line_len := 0\<rparr>)))
           else Inl Panic
      else if b = BS then
        if line_len sh > 0
        then Inr (print [BS, 0x20, BS] (sh\<lparr>line_len := line_len sh - 1\<rparr>))
        else Inr sh
      else if unat (line_len sh) < LINE_MAX then
        if unat (line_len sh) < length (line_buf sh)
        then Inr (print (echo b) (sh\<lparr>line_buf := (line_buf sh)[unat (line_len sh) := b], line_len := line_len sh + 1\<rparr>))
        else Inl Panic
      else Inr sh)"

definition run_start :: shell where
  "run_start = \<lparr>line_buf = replicate LINE_MAX 0, line_len = 0,
     console = bytes ''ARSENAL_PROMPT_OK'' @ [LF] @ PROMPT\<rparr>"

text \<open>The loop of \<open>run\<close> on the bytes received so far.\<close>

fun run_bytes :: "hw_env \<Rightarrow> u8 list \<Rightarrow> shell \<Rightarrow> shell outcome" where
  "run_bytes hw [] sh = Inr sh"
| "run_bytes hw (b # bs) sh = and_then (run_byte hw b sh) (run_bytes hw bs)"

section \<open>The editor on lists\<close>

text \<open>
  What the editor promises: a line is the list of the bytes typed, Backspace removes the last,
  and bytes beyond the 256th are ignored.
\<close>

definition edit_byte :: "u8 \<Rightarrow> u8 list \<Rightarrow> u8 list" where
  "edit_byte b line = (if b = LF then [] else if b = BS then butlast line
     else if length line < LINE_MAX then line @ [b] else line)"

definition edit_echo :: "u8 \<Rightarrow> u8 list \<Rightarrow> u8 list" where
  "edit_echo b line = (if b = BS then if line = [] then [] else [BS, 0x20, BS]
     else if length line < LINE_MAX then echo b else [])"

text \<open>The lines that are entered when the given bytes are typed after a pending line.\<close>

fun entered :: "u8 list \<Rightarrow> u8 list \<Rightarrow> u8 list list" where
  "entered line [] = []"
| "entered line (b # bs) = (if b = LF then [line] else []) @ entered (edit_byte b line) bs"

fun pending :: "u8 list \<Rightarrow> u8 list \<Rightarrow> u8 list" where
  "pending line [] = line"
| "pending line (b # bs) = pending (edit_byte b line) bs"

definition panics :: "u8 list \<Rightarrow> bool" where
  "panics line \<longleftrightarrow> line \<noteq> [] \<and> first_token line = bytes ''panic''"

text \<open>What appears on the console.\<close>

fun transcript :: "hw_env \<Rightarrow> u8 list \<Rightarrow> u8 list \<Rightarrow> u8 list" where
  "transcript hw line [] = []"
| "transcript hw line (b # bs) =
     (if b = LF then [LF] @ (case dispatch hw line of Inr r \<Rightarrow> r | Inl e \<Rightarrow> []) @ PROMPT else edit_echo b line) @
     transcript hw (edit_byte b line) bs"

definition cur_line :: "shell \<Rightarrow> u8 list" where
  "cur_line sh = take (unat (line_len sh)) (line_buf sh)"

definition shell_ok :: "shell \<Rightarrow> bool" where
  "shell_ok sh \<longleftrightarrow> length (line_buf sh) = LINE_MAX \<and> unat (line_len sh) \<le> LINE_MAX"

lemma dispatch_outcome: "dispatch hw line = (if panics line then Inl Panic else Inr (projr (dispatch hw line)))"
  by (simp add: dispatch_def panics_def Let_def bytes_def)

lemma length_cur_line [simp]: "shell_ok sh \<Longrightarrow> length (cur_line sh) = unat (line_len sh)"
  by (simp add: shell_ok_def cur_line_def)

lemma cur_line_Nil: "shell_ok sh \<Longrightarrow> cur_line sh = [] \<longleftrightarrow> line_len sh = 0"
  by (auto simp: shell_ok_def cur_line_def LINE_MAX_def unat_eq_0)

text \<open>One byte in the fixed buffer is one byte of the editor on lists.\<close>

lemma run_byte_refines:
  assumes "shell_ok sh"
  shows "if b = LF \<and> panics (cur_line sh) then run_byte hw b sh = Inl Panic
    else \<exists>sh'. run_byte hw b sh = Inr sh' \<and> shell_ok sh' \<and> cur_line sh' = edit_byte b (cur_line sh) \<and>
      console sh' = console sh @ transcript hw (cur_line sh) [b]"
proof -
  have len: "unat (line_len sh) \<le> 256" "length (line_buf sh) = 256"
    using assms by (auto simp: shell_ok_def LINE_MAX_def)
  consider "b = LF" | "b \<noteq> LF" "b = BS" "line_len sh = 0" | "b \<noteq> LF" "b = BS" "line_len sh \<noteq> 0"
    | "b \<noteq> LF" "b \<noteq> BS" "unat (line_len sh) < 256" | "b \<noteq> LF" "b \<noteq> BS" "unat (line_len sh) = 256"
    using len(1) by linarith
  then show ?thesis
  proof cases
    case 1
    let ?done = "\<lambda>r. print PROMPT ((print r (print [LF] sh))\<lparr>line_len := 0\<rparr>)"
    have run: "run_byte hw b sh = and_then (dispatch hw (cur_line sh)) (\<lambda>r. Inr (?done r))"
      using 1 len by (simp add: run_byte_def cur_line_def print_def)
    show ?thesis
    proof (cases "panics (cur_line sh)")
      case True
      with 1 run dispatch_outcome [of hw "cur_line sh"] show ?thesis by simp
    next
      case False
      then obtain r where r: "dispatch hw (cur_line sh) = Inr r" using dispatch_outcome by metis
      have "shell_ok (?done r)" "cur_line (?done r) = []"
        using len by (simp_all add: shell_ok_def cur_line_def print_def LINE_MAX_def)
      moreover have "console (?done r) = console sh @ transcript hw (cur_line sh) [b]"
        using 1 r by (simp add: print_def)
      moreover have "edit_byte b (cur_line sh) = []" using 1 by (simp add: edit_byte_def)
      ultimately show ?thesis using False run r by simp
    qed
  next
    case 2
    then have "cur_line sh = []" using assms cur_line_Nil by simp
    with 2 assms show ?thesis by (simp add: run_byte_def edit_byte_def edit_echo_def)
  next
    case 3
    then have "cur_line sh \<noteq> []" using assms cur_line_Nil by simp
    moreover from 3 have "unat (line_len sh - 1) = unat (line_len sh) - 1" by (metis unat_minus_one)
    ultimately show ?thesis using 3 assms len
      by (auto simp: run_byte_def edit_byte_def edit_echo_def print_def shell_ok_def LINE_MAX_def
          word_gt_0 cur_line_def butlast_take)
  next
    case 4
    then have "unat (line_len sh + 1) = unat (line_len sh) + 1" by (subst unat_add_noof) auto
    with 4 assms len show ?thesis
      by (simp add: run_byte_def edit_byte_def edit_echo_def print_def shell_ok_def LINE_MAX_def
          cur_line_def take_Suc_conv_app_nth)
  next
    case 5
    with assms show ?thesis by (simp add: run_byte_def edit_byte_def edit_echo_def LINE_MAX_def)
  qed
qed

lemma run_bytes_refines:
  "shell_ok sh \<Longrightarrow> if \<exists>l \<in> set (entered (cur_line sh) bs). panics l then run_bytes hw bs sh = Inl Panic
    else \<exists>sh'. run_bytes hw bs sh = Inr sh' \<and> shell_ok sh' \<and> cur_line sh' = pending (cur_line sh) bs \<and>
      console sh' = console sh @ transcript hw (cur_line sh) bs"
proof (induction bs arbitrary: sh)
  case (Cons b bs)
  show ?case
  proof (cases "b = LF \<and> panics (cur_line sh)")
    case True
    with run_byte_refines [OF Cons.prems, of b hw] show ?thesis by simp
  next
    case False
    then obtain sh' where sh': "run_byte hw b sh = Inr sh'" "shell_ok sh'" "cur_line sh' = edit_byte b (cur_line sh)"
      "console sh' = console sh @ transcript hw (cur_line sh) [b]"
      using run_byte_refines [OF Cons.prems, of b hw] by auto
    have "(\<exists>l \<in> set (entered (cur_line sh) (b # bs)). panics l) = (\<exists>l \<in> set (entered (cur_line sh') bs). panics l)"
      using False sh'(3) by auto
    with Cons.IH [OF sh'(2)] sh' show ?thesis by (auto split: if_splits)
  qed
qed simp

lemma run_start_ok [simp]: "shell_ok run_start" "cur_line run_start = []"
  by (simp_all add: shell_ok_def cur_line_def run_start_def)

section \<open>Properties\<close>

text \<open>
  C29. The shell in its fixed 256-byte buffer behaves as the editor on lists: for every sequence
  of bytes received, it panics exactly when some entered line has the first word panic, and
  otherwise it keeps running, its pending line is the edited one, and the console shows the echo of
  every edit and the output of every command in order. No input indexes outside the buffer.
\<close>

theorem shell_refines_editor:
  "if \<exists>l \<in> set (entered [] bs). panics l then run_bytes hw bs run_start = Inl Panic
   else \<exists>sh. run_bytes hw bs run_start = Inr sh \<and> cur_line sh = pending [] bs \<and>
     console sh = console run_start @ transcript hw [] bs"
  using run_bytes_refines [OF run_start_ok(1), of bs hw] by auto

lemma position_or_append:
  assumes "\<forall>x \<in> set xs. \<not> P x" "ys = [] \<or> P (hd ys)"
  shows "position_or P (xs @ ys) (length (xs @ ys)) = length xs"
proof -
  have "takeWhile (\<lambda>x. \<not> P x) (xs @ ys) = xs"
    using assms by (cases ys) (auto simp: takeWhile_append2)
  with assms show ?thesis by (cases ys) (auto simp: position_or_def list_ex_iff)
qed

text \<open>
  Only the first word of a line selects a command: whatever follows its first space or tab,
  a non-empty line whose first word is help prints the help text, and one whose first word is
  none of the commands names that word in the message.
\<close>

theorem dispatch_first_word:
  assumes "w \<noteq> []" "0x20 \<notin> set w" "0x09 \<notin> set w" "rest = [] \<or> hd rest \<in> {0x20, 0x09}"
  shows "dispatch hw (w @ rest) =
    (if w = bytes ''help'' then Inr cmd_help else if w = bytes ''hw'' then Inr (cmd_hw hw)
     else if w = bytes ''panic'' then Inl Panic else Inr (cmd_unknown w))"
proof -
  have "position_or (\<lambda>b. b = 0x20 \<or> b = 0x09) (w @ rest) (length (w @ rest)) = length w"
    using assms by (intro position_or_append) auto
  then have "first_token (w @ rest) = w" unfolding first_token_def by simp
  with assms(1) show ?thesis by (simp add: dispatch_def)
qed

definition demo_hw :: hw_env where
  "demo_hw = \<lparr>cpuid = (\<lambda>_. (0, 0, 0, 0)), hw_frames = new_frame_allocator, lapic_version = 0x50014\<rparr>"

theorem dispatch_first_word_witness: "dispatch demo_hw (bytes ''help me'') = Inr cmd_help"
  using dispatch_first_word [of "bytes ''help''" "bytes '' me''" demo_hw] by (simp add: bytes_def)

end
