(* ===== verification/Sched.thy ===== *)
theory Sched
  imports Prelude
begin

unbundle bit_operations_syntax

text \<open>
  Tasks and the scheduler: arsenal-kernel/src/task.rs, sched.rs, cpu.rs and irq.rs. The context
  switch is modelled at the level of its instructions, on registers and stack memory; the
  scheduler on top of it keeps the per-CPU data, the heap of tasks and the machine in one record.
  The theory shows that a task resumes with exactly the context it was suspended with, whatever
  the other tasks did meanwhile, that no task is ever lost or duplicated, and that the rotation
  is fair.

  Stack memory is a function from the address of an 8-byte slot to its value; every access of
  this code is to an 8-byte slot. What Box::new returns for a stack and for a task is an
  argument of the operation that allocates it.
\<close>

section \<open>The machine\<close>

record machine =
  rbx :: u64
  rbp :: u64
  r12 :: u64
  r13 :: u64
  r14 :: u64
  r15 :: u64
  rsp :: u64
  rip :: u64
  rflags :: u64
  mem :: "u64 \<Rightarrow> u64"

definition push :: "u64 \<Rightarrow> machine \<Rightarrow> machine" where
  "push v m = m\<lparr>rsp := rsp m - 8, mem := (mem m)(rsp m - 8 := v)\<rparr>"

definition top :: "machine \<Rightarrow> u64" where
  "top m = mem m (rsp m)"

definition drop8 :: "machine \<Rightarrow> machine" where
  "drop8 m = m\<lparr>rsp := rsp m + 8\<rparr>"

text \<open>
  switch\_to, in two halves around the exchange of the stack pointer: the pushes, after which the
  stack pointer is stored to \<open>*prev\<close>, and the pops from the next stack with the final ret.
\<close>

definition switch_save :: "machine \<Rightarrow> machine" where
  "switch_save m =
     (let m = push (rflags m) m;
          m = push (rbx m) m;
          m = push (rbp m) m;
          m = push (r12 m) m;
          m = push (r13 m) m;
          m = push (r14 m) m;
          m = push (r15 m) m
      in m)"

definition switch_load :: "u64 \<Rightarrow> machine \<Rightarrow> machine" where
  "switch_load next m =
     (let m = m\<lparr>rsp := next\<rparr>;
          m = drop8 (m\<lparr>r15 := top m\<rparr>);
          m = drop8 (m\<lparr>r14 := top m\<rparr>);
          m = drop8 (m\<lparr>r13 := top m\<rparr>);
          m = drop8 (m\<lparr>r12 := top m\<rparr>);
          m = drop8 (m\<lparr>rbp := top m\<rparr>);
          m = drop8 (m\<lparr>rbx := top m\<rparr>);
          m = drop8 (m\<lparr>rflags := top m\<rparr>);
          m = drop8 (m\<lparr>rip := top m\<rparr>)
      in m)"

text \<open>irq::IrqGuard: the guard is the saved flags word. IF is bit 9.\<close>

definition IF :: u64 where "IF = 0x200"

definition save_and_disable :: "machine \<Rightarrow> u64 \<times> machine" where
  "save_and_disable m = (rflags m, m\<lparr>rflags := rflags m AND NOT IF\<rparr>)"

definition guard_drop :: "u64 \<Rightarrow> machine \<Rightarrow> machine" where
  "guard_drop g m = m\<lparr>rflags := g\<rparr>"

section \<open>Tasks\<close>

definition STACK_SIZE :: nat where "STACK_SIZE = 32 * 1024"

datatype task_state = Ready | Running | Blocked | Exited

record task =
  saved_rsp :: u64
  state :: task_state
  entry_fn :: u64
  stack :: u64

text \<open>The 8-byte slots of the kernel stack that starts at an address.\<close>

definition stack_slots :: "u64 \<Rightarrow> u64 set" where
  "stack_slots b = {a. unat b \<le> unat a \<and> unat a < unat b + STACK_SIZE}"

definition zero_stack :: "u64 \<Rightarrow> machine \<Rightarrow> machine" where
  "zero_stack b m = m\<lparr>mem := (\<lambda>a. if unat b \<le> unat a \<and> unat a < unat b + STACK_SIZE then 0 else mem m a)\<rparr>"

definition poke :: "u64 \<Rightarrow> u64 \<Rightarrow> machine \<Rightarrow> machine" where
  "poke a v m = m\<lparr>mem := (mem m)(a := v)\<rparr>"

definition task_new :: "u64 \<Rightarrow> u64 \<Rightarrow> machine \<Rightarrow> task \<times> machine" where
  "task_new stack_addr entry m =
     (let m = zero_stack stack_addr m;
          stack_top = stack_addr + of_nat STACK_SIZE;
          p = stack_top - 72;
          m = fold (\<lambda>i. poke (p + 8 * of_nat i) 0) [0..<6] m;
          m = poke (p + 48) 0x202 m;
          m = poke (p + 56) entry m;
          m = poke (p + 64) 0 m
      in (\<lparr>saved_rsp = p, state = Ready, entry_fn = entry, stack = stack_addr\<rparr>, m))"

section \<open>Per-CPU data\<close>

definition MAX_CPUS :: nat where "MAX_CPUS = 64"

record cpu_local =
  self_ptr :: u64
  cpu_id :: u32
  apic_id :: u32
  current :: u64
  idle :: u64
  runqueue :: "u64 list" \<comment> \<open>addresses of the boxed tasks, front first\<close>
  ticks :: usize
  spurious_seen :: bool
  preempt_count :: usize
  last_switch_tick :: usize

definition cpu_local_new :: "u32 \<Rightarrow> cpu_local" where
  "cpu_local_new i = \<lparr>self_ptr = 0, cpu_id = i, apic_id = 0, current = 0, idle = 0, runqueue = [],
     ticks = 0, spurious_seen = False, preempt_count = 0, last_switch_tick = 0\<rparr>"

definition build_cpus :: "cpu_local list" where
  "build_cpus = map (\<lambda>i. (cpu_local_new 0)\<lparr>cpu_id := of_nat i\<rparr>) [0..<MAX_CPUS]"

text \<open>
  The static array, the address of each of its slots, and the GS base of the core that runs.
\<close>

record cpus =
  slots :: "cpu_local list"
  gs_base :: u64

text \<open>wrmsr takes the value in two halves, which the processor joins.\<close>

definition wrmsr_gs :: "u64 \<Rightarrow> cpus \<Rightarrow> cpus" where
  "wrmsr_gs v c = (let low = ucast v :: u32; high = ucast (drop_bit 32 v) :: u32
     in c\<lparr>gs_base := push_bit 32 (ucast high) OR ucast low\<rparr>)"

definition init_slot :: "(nat \<Rightarrow> u64) \<Rightarrow> u32 \<Rightarrow> u32 \<Rightarrow> cpus \<Rightarrow> cpus outcome" where
  "init_slot slot_addr slot_idx ap c =
     and_then (rust_assert (unat slot_idx < MAX_CPUS)) (\<lambda>_.
       if unat slot_idx < length (slots c)
       then let i = unat slot_idx;
                c = c\<lparr>slots := (slots c)[i := (slots c ! i)\<lparr>self_ptr := slot_addr i, apic_id := ap\<rparr>]\<rparr>
            in Inr (wrmsr_gs (slot_addr i) c)
       else Inl Panic)"

definition init_bsp :: "(nat \<Rightarrow> u64) \<Rightarrow> u8 \<Rightarrow> cpus \<Rightarrow> cpus outcome" where
  "init_bsp slot_addr lapic_id c = init_slot slot_addr 0 (ucast lapic_id) c"

definition init_ap :: "(nat \<Rightarrow> u64) \<Rightarrow> u32 \<Rightarrow> u32 \<Rightarrow> cpus \<Rightarrow> cpus outcome" where
  "init_ap slot_addr slot ap c = init_slot slot_addr slot ap c"

text \<open>The slot whose address an index has: the load through gs:[0] and the dereference.\<close>

definition slot_at :: "(nat \<Rightarrow> u64) \<Rightarrow> u64 \<Rightarrow> nat option" where
  "slot_at slot_addr a = List.find (\<lambda>i. slot_addr i = a) [0..<MAX_CPUS]"

definition current_cpu :: "(nat \<Rightarrow> u64) \<Rightarrow> cpus \<Rightarrow> cpu_local outcome" where
  "current_cpu slot_addr c =
     (case slot_at slot_addr (gs_base c) of
        None \<Rightarrow> Inl Undefined
      | Some i \<Rightarrow> (case slot_at slot_addr (self_ptr (slots c ! i)) of
          None \<Rightarrow> Inl Undefined
        | Some j \<Rightarrow> Inr (slots c ! j)))"

section \<open>The scheduler\<close>

record kern =
  mach :: machine
  tasks :: "u64 \<rightharpoonup> task"
  cpu :: cpu_local

definition SLICE_TICKS :: usize where "SLICE_TICKS = 10"

text \<open>The call of switch\_to with a return address, and the store to \<open>*prev\<close> it makes.\<close>

definition switch_to :: "u64 \<Rightarrow> u64 \<Rightarrow> u64 \<Rightarrow> kern \<Rightarrow> kern outcome" where
  "switch_to ret prev next k =
     (let m = switch_save (push ret (mach k))
      in case tasks k prev of
           None \<Rightarrow> Inl Undefined
         | Some t \<Rightarrow> Inr (k\<lparr>tasks := (tasks k)(prev \<mapsto> t\<lparr>saved_rsp := rsp m\<rparr>), mach := switch_load next m\<rparr>))"

definition spawn :: "u64 \<Rightarrow> u64 \<Rightarrow> u64 \<Rightarrow> kern \<Rightarrow> kern" where
  "spawn stack_addr box_addr entry k =
     (let (t, m) = task_new stack_addr entry (mach k);
          (g, m) = save_and_disable m;
          k = k\<lparr>mach := m, tasks := (tasks k)(box_addr \<mapsto> t)\<rparr>;
          k = k\<lparr>cpu := (cpu k)\<lparr>runqueue := runqueue (cpu k) @ [box_addr]\<rparr>\<rparr>
      in k\<lparr>mach := guard_drop g (mach k)\<rparr>)"

text \<open>
  The rotation that yield\_now and preempt share from the pop on: the new current task, the
  tick it starts at, and the old one at the back of the queue, then the switch.
\<close>

definition switch_next :: "u64 \<Rightarrow> u64 \<Rightarrow> u64 list \<Rightarrow> kern \<Rightarrow> kern outcome" where
  "switch_next ret next_ptr rest k =
     (case tasks k next_ptr of
        None \<Rightarrow> Inl Undefined
      | Some next_box \<Rightarrow>
          let next_saved_rsp = saved_rsp next_box;
              prev_ptr = current (cpu k)
          in and_then (rust_assert (prev_ptr \<noteq> 0)) (\<lambda>_.
               switch_to ret prev_ptr next_saved_rsp
                 (k\<lparr>cpu := (cpu k)\<lparr>current := next_ptr, runqueue := rest @ [prev_ptr],
                                  last_switch_tick := ticks (cpu k)\<rparr>\<rparr>)))"

text \<open>
  yield\_now up to the switch. The guard is a local of its stack frame; \<open>ret\<close> is the return
  address of its call of switch\_to. The part after that call, which runs when the task is
  resumed, drops the guard.
\<close>

definition yield_now :: "u64 \<Rightarrow> kern \<Rightarrow> kern outcome" where
  "yield_now ret k =
     (let (g, m) = save_and_disable (mach k);
          k = k\<lparr>mach := m\<rparr>
      in case runqueue (cpu k) of
           [] \<Rightarrow> Inr (k\<lparr>mach := guard_drop g (mach k)\<rparr>)
         | next_ptr # rest \<Rightarrow> switch_next ret next_ptr rest (k\<lparr>mach := push g (mach k)\<rparr>))"

definition yield_return :: "machine \<Rightarrow> machine" where
  "yield_return m = guard_drop (top m) (drop8 m)"

definition preempt :: "u64 \<Rightarrow> kern \<Rightarrow> kern outcome" where
  "preempt ret k =
     (if preempt_count (cpu k) > 0 then Inr k
      else if ticks (cpu k) - last_switch_tick (cpu k) < SLICE_TICKS then Inr k
      else case runqueue (cpu k) of
             [] \<Rightarrow> Inr k
           | next_ptr # rest \<Rightarrow> switch_next ret next_ptr rest k)"

text \<open>init switches away for good; the outgoing stack pointer goes to a local of its frame.\<close>

definition sched_init :: "u64 \<Rightarrow> u64 \<Rightarrow> u64 \<Rightarrow> u64 \<Rightarrow> u64 \<Rightarrow> kern \<Rightarrow> kern" where
  "sched_init stack_addr box_addr idle_loop throwaway ret k =
     (let (t, m) = task_new stack_addr idle_loop (mach k);
          k = k\<lparr>mach := m, tasks := (tasks k)(box_addr \<mapsto> t),
                cpu := (cpu k)\<lparr>idle := box_addr, current := box_addr\<rparr>\<rparr>;
          m = switch_save (push ret (mach k))
      in k\<lparr>mach := switch_load (saved_rsp t) (poke throwaway (rsp m) m)\<rparr>)"

section \<open>The saved frame\<close>

text \<open>
  The eight slots from \<open>s\<close> up hold the registers, flags and return address of the context
  \<open>c\<close>, whose stack pointer is just above them.
\<close>

definition frame_at :: "(u64 \<Rightarrow> u64) \<Rightarrow> u64 \<Rightarrow> machine \<Rightarrow> bool" where
  "frame_at M s c \<longleftrightarrow>
     M s = r15 c \<and> M (s + 8) = r14 c \<and> M (s + 16) = r13 c \<and> M (s + 24) = r12 c \<and>
     M (s + 32) = rbp c \<and> M (s + 40) = rbx c \<and> M (s + 48) = rflags c \<and> M (s + 56) = rip c \<and>
     rsp c = s + 64"

lemma switch_load_frame:
  assumes "frame_at (mem m) s c"
  shows "switch_load s m = c\<lparr>mem := mem m\<rparr>"
  using assms unfolding frame_at_def
  by (cases c, cases m) (simp add: switch_load_def drop8_def top_def Let_def add.commute)

lemma switch_save_eq:
  "switch_save (push ret m) = m\<lparr>rsp := rsp m - 64,
     mem := (mem m)(rsp m - 8 := ret, rsp m - 16 := rflags m, rsp m - 24 := rbx m, rsp m - 32 := rbp m,
       rsp m - 40 := r12 m, rsp m - 48 := r13 m, rsp m - 56 := r14 m, rsp m - 64 := r15 m)\<rparr>"
  by (simp add: switch_save_def push_def Let_def)

lemma switch_save_frame:
  "frame_at (mem (switch_save (push ret m))) (rsp (switch_save (push ret m))) (m\<lparr>rip := ret\<rparr>)"
  unfolding switch_save_eq by (simp add: frame_at_def)

text \<open>A stack that does not wrap around the address space, and the room on it.\<close>

definition stack_ok :: "u64 \<Rightarrow> bool" where
  "stack_ok b \<longleftrightarrow> 16 dvd unat b \<and> unat b + STACK_SIZE < 2 ^ 64"

definition room :: "nat \<Rightarrow> u64 \<Rightarrow> machine \<Rightarrow> bool" where
  "room n b m \<longleftrightarrow> unat b + n \<le> unat (rsp m) \<and> unat (rsp m) \<le> unat b + STACK_SIZE"

lemma slot_up:
  assumes "stack_ok b" "unat b \<le> unat s" "unat s + n \<le> unat b + STACK_SIZE" "unat j < n"
  shows "s + j \<in> stack_slots b"
proof -
  have "unat (s + j) = unat s + unat j"
    using assms by (intro unat_add_noof) (simp add: stack_ok_def)
  with assms show ?thesis by (simp add: stack_slots_def)
qed

lemma slot_down:
  assumes "room n b m" "0 < j" "unat j \<le> n"
  shows "unat (rsp m - j) = unat (rsp m) - unat j" "rsp m - j \<in> stack_slots b"
proof -
  have "j \<le> rsp m" using assms by (simp add: room_def word_le_nat_alt)
  then show *: "unat (rsp m - j) = unat (rsp m) - unat j" by (rule unat_sub)
  have "0 < unat j" using assms(2) by (simp add: word_less_nat_alt)
  with * assms show "rsp m - j \<in> stack_slots b" by (auto simp: room_def stack_slots_def)
qed

lemma mem_save_outside:
  assumes "room 64 b m" "a \<notin> stack_slots b"
  shows "mem (switch_save (push ret m)) a = mem m a"
proof -
  have "a \<noteq> rsp m - j" if "0 < j" "unat j \<le> 64" for j
    using slot_down(2) [OF assms(1) that] assms(2) by blast
  then have "a \<noteq> rsp m - 8" "a \<noteq> rsp m - 16" "a \<noteq> rsp m - 24" "a \<noteq> rsp m - 32" "a \<noteq> rsp m - 40"
    "a \<noteq> rsp m - 48" "a \<noteq> rsp m - 56" "a \<noteq> rsp m - 64"
    by auto
  then show ?thesis by (simp add: switch_save_eq)
qed

lemma mem_save_above:
  assumes "room 64 b m" "unat (rsp m) \<le> unat a"
  shows "mem (switch_save (push ret m)) a = mem m a"
proof -
  have "a \<noteq> rsp m - j" if "0 < j" "unat j \<le> 64" for j
  proof
    assume "a = rsp m - j"
    then have "unat a = unat (rsp m) - unat j" using slot_down(1) [OF assms(1) that] by simp
    moreover have "0 < unat j" "unat j \<le> unat (rsp m)"
      using that assms(1) by (auto simp: room_def word_less_nat_alt)
    ultimately show False using assms(2) by linarith
  qed
  then have "a \<noteq> rsp m - 8" "a \<noteq> rsp m - 16" "a \<noteq> rsp m - 24" "a \<noteq> rsp m - 32" "a \<noteq> rsp m - 40"
    "a \<noteq> rsp m - 48" "a \<noteq> rsp m - 56" "a \<noteq> rsp m - 64"
    by auto
  then show ?thesis by (simp add: switch_save_eq)
qed

section \<open>Suspended tasks\<close>

text \<open>
  How a task last gave up the processor: it is fresh, or it called yield\_now or preempt in a
  given machine state.
\<close>

datatype history = Fresh u64 | Yielded u64 machine | Preempted u64 machine

definition same_context :: "u64 set \<Rightarrow> machine \<Rightarrow> machine \<Rightarrow> bool" where
  "same_context S m c \<longleftrightarrow>
     rbx m = rbx c \<and> rbp m = rbp c \<and> r12 m = r12 c \<and> r13 m = r13 c \<and> r14 m = r14 c \<and> r15 m = r15 c \<and>
     rsp m = rsp c \<and> rflags m = rflags c \<and> (\<forall>a \<in> S. unat (rsp c) \<le> unat a \<longrightarrow> mem m a = mem c a)"

text \<open>
  What a task finds when it runs again. A fresh one starts at its entry point with cleared
  registers, interrupts enabled and the stack alignment of a called function; the others are back
  at the return address with the context of the call.
\<close>

fun resumed :: "history \<Rightarrow> u64 \<Rightarrow> machine \<Rightarrow> bool" where
  "resumed (Fresh e) b m =
     (rip m = e \<and> rbx m = 0 \<and> rbp m = 0 \<and> r12 m = 0 \<and> r13 m = 0 \<and> r14 m = 0 \<and> r15 m = 0 \<and>
      rflags m = 0x202 \<and> unat (rsp m) = unat b + STACK_SIZE - 8 \<and> unat (rsp m) mod 16 = 8)"
| "resumed (Yielded ret c) b m = (rip m = ret \<and> same_context (stack_slots b) (yield_return m) c)"
| "resumed (Preempted ret c) b m = (rip m = ret \<and> same_context (stack_slots b) m c)"

fun frame_len :: "history \<Rightarrow> nat" where
  "frame_len (Yielded ret c) = 72"
| "frame_len _ = 64"

definition suspended :: "history \<Rightarrow> task \<Rightarrow> (u64 \<Rightarrow> u64) \<Rightarrow> bool" where
  "suspended h t M \<longleftrightarrow>
     unat (stack t) \<le> unat (saved_rsp t) \<and> unat (saved_rsp t) + frame_len h \<le> unat (stack t) + STACK_SIZE \<and>
     (\<exists>c. frame_at M (saved_rsp t) c \<and> resumed h (stack t) (c\<lparr>mem := M\<rparr>))"

text \<open>A suspended task depends on no memory but its own stack.\<close>

lemma frame_at_cong:
  assumes "stack_ok b" "unat b \<le> unat s" "unat s + 64 \<le> unat b + STACK_SIZE"
    and "\<forall>a \<in> stack_slots b. M' a = M a"
  shows "frame_at M' s c = frame_at M s c"
proof -
  have *: "M' (s + j) = M (s + j)" if "unat j < 64" for j
    using slot_up [OF assms(1-3) that] assms(4) by blast
  show ?thesis using * [of 0] by (simp add: frame_at_def *)
qed

lemma resumed_cong:
  assumes "\<forall>a \<in> stack_slots b. M' a = M a" "frame_len h = 72 \<longrightarrow> rsp c \<in> stack_slots b"
  shows "resumed h b (c\<lparr>mem := M'\<rparr>) = resumed h b (c\<lparr>mem := M\<rparr>)"
  using assms by (cases h) (auto simp: same_context_def yield_return_def guard_drop_def top_def drop8_def)

lemma suspended_cong:
  assumes "stack_ok (stack t)" "\<forall>a \<in> stack_slots (stack t). M' a = M a" "suspended h t M"
  shows "suspended h t M'"
proof -
  obtain c where c: "frame_at M (saved_rsp t) c" "resumed h (stack t) (c\<lparr>mem := M\<rparr>)"
    and b: "unat (stack t) \<le> unat (saved_rsp t)" "unat (saved_rsp t) + frame_len h \<le> unat (stack t) + STACK_SIZE"
    using assms(3) by (auto simp: suspended_def)
  have "64 \<le> frame_len h" by (cases h) auto
  then have "frame_at M' (saved_rsp t) c"
    using frame_at_cong [OF assms(1) b(1) _ assms(2), of c] b(2) c(1) by simp
  moreover have "rsp c \<in> stack_slots (stack t)" if "frame_len h = 72"
    using slot_up [OF assms(1) b(1), of 72 64] b(2) c(1) that by (simp add: frame_at_def)
  then have "resumed h (stack t) (c\<lparr>mem := M'\<rparr>)"
    using resumed_cong [OF assms(2)] c(2) by blast
  ultimately show ?thesis using b by (auto simp: suspended_def)
qed

section \<open>The system of tasks\<close>

type_synonym sched = "kern \<times> (u64 \<rightharpoonup> history)"

abbreviation cur_stack :: "kern \<Rightarrow> u64" where
  "cur_stack k \<equiv> stack (the (tasks k (current (cpu k))))"

text \<open>
  Steps of a CPU: the current task runs any code that writes no memory but its own stack, with
  interrupts advancing the tick count; it calls yield\_now, or a timer interrupt on its stack
  calls preempt, while there is room left on the stack; or it spawns a task, for which the heap
  returns memory that is not in use.
\<close>

inductive sched_step :: "sched \<Rightarrow> sched \<Rightarrow> bool" where
  run_task: "\<forall>a. a \<notin> stack_slots (cur_stack k) \<longrightarrow> mem m a = mem (mach k) a \<Longrightarrow>
    sched_step (k, g) (k\<lparr>mach := m, cpu := (cpu k)\<lparr>ticks := ti, preempt_count := pc\<rparr>\<rparr>, g)"
| yields: "room 72 (cur_stack k) (mach k) \<Longrightarrow> yield_now ret k = Inr k' \<Longrightarrow>
    sched_step (k, g) (k', g(current (cpu k) \<mapsto> Yielded ret (mach k)))"
| preempted: "room 64 (cur_stack k) (mach k) \<Longrightarrow> preempt ret k = Inr k' \<Longrightarrow>
    sched_step (k, g) (k', g(current (cpu k) \<mapsto> Preempted ret (mach k)))"
| spawns: "box \<noteq> 0 \<Longrightarrow> box \<notin> dom (tasks k) \<Longrightarrow> stack_ok b \<Longrightarrow>
    \<forall>t \<in> ran (tasks k). stack_slots b \<inter> stack_slots (stack t) = {} \<Longrightarrow>
    sched_step (k, g) (spawn b box entry k, g(box \<mapsto> Fresh entry))"

definition sched_inv :: "sched \<Rightarrow> bool" where
  "sched_inv = (\<lambda>(k, g).
     distinct (current (cpu k) # runqueue (cpu k)) \<and>
     set (current (cpu k) # runqueue (cpu k)) = dom (tasks k) \<and> tasks k 0 = None \<and>
     (\<forall>p t. tasks k p = Some t \<longrightarrow> stack_ok (stack t)) \<and>
     (\<forall>p q t u. tasks k p = Some t \<longrightarrow> tasks k q = Some u \<longrightarrow> p \<noteq> q \<longrightarrow>
        stack_slots (stack t) \<inter> stack_slots (stack u) = {}) \<and>
     (\<forall>p \<in> set (runqueue (cpu k)). \<exists>t h. tasks k p = Some t \<and> g p = Some h \<and> suspended h t (mem (mach k))))"

lemma sched_invD:
  assumes "sched_inv (k, g)"
  shows "distinct (current (cpu k) # runqueue (cpu k))"
    and "set (current (cpu k) # runqueue (cpu k)) = dom (tasks k)"
    and "tasks k 0 = None"
    and "tasks k p = Some t \<Longrightarrow> stack_ok (stack t)"
    and "tasks k p = Some t \<Longrightarrow> tasks k q = Some u \<Longrightarrow> p \<noteq> q \<Longrightarrow> stack_slots (stack t) \<inter> stack_slots (stack u) = {}"
    and "p \<in> set (runqueue (cpu k)) \<Longrightarrow> \<exists>t h. tasks k p = Some t \<and> g p = Some h \<and> suspended h t (mem (mach k))"
  using assms unfolding sched_inv_def by blast+

lemma current_task:
  assumes "sched_inv (k, g)"
  obtains t where "tasks k (current (cpu k)) = Some t" "stack_ok (stack t)"
  using sched_invD(2,4) [OF assms] by (metis domD list.set_intros(1))

text \<open>Writes to the stack of the current task leave the other tasks suspended as they were.\<close>

lemma suspended_others:
  assumes "sched_inv (k, g)" "\<forall>a. a \<notin> stack_slots (cur_stack k) \<longrightarrow> M a = mem (mach k) a"
    and "p \<in> set (runqueue (cpu k))"
  shows "\<exists>t h. tasks k p = Some t \<and> g p = Some h \<and> suspended h t M"
proof -
  obtain t h where t: "tasks k p = Some t" "g p = Some h" "suspended h t (mem (mach k))"
    using sched_invD(6) [OF assms(1,3)] by blast
  obtain tc where tc: "tasks k (current (cpu k)) = Some tc" using current_task [OF assms(1)] .
  have "p \<noteq> current (cpu k)" using sched_invD(1) [OF assms(1)] assms(3) by auto
  then have "stack_slots (stack t) \<inter> stack_slots (stack tc) = {}"
    using sched_invD(5) [OF assms(1) t(1) tc] by blast
  then have "\<forall>a \<in> stack_slots (stack t). M a = mem (mach k) a" using assms(2) tc by auto
  then have "suspended h t M" using suspended_cong sched_invD(4) [OF assms(1) t(1)] t(3) by blast
  with t show ?thesis by blast
qed

lemma run_task_inv:
  assumes "sched_inv (k, g)" "\<forall>a. a \<notin> stack_slots (cur_stack k) \<longrightarrow> mem m a = mem (mach k) a"
  shows "sched_inv (k\<lparr>mach := m, cpu := (cpu k)\<lparr>ticks := ti, preempt_count := pc\<rparr>\<rparr>, g)"
  using sched_invD [OF assms(1)] suspended_others [OF assms] unfolding sched_inv_def by auto

lemma set_mach_inv:
  assumes "sched_inv (k, g)" "\<forall>a. a \<notin> stack_slots (cur_stack k) \<longrightarrow> mem m a = mem (mach k) a"
  shows "sched_inv (k\<lparr>mach := m\<rparr>, g)"
  using sched_invD [OF assms(1)] suspended_others [OF assms] unfolding sched_inv_def by auto

text \<open>
  The rotation: the next task is resumed as its history says, the previous one is suspended, and
  nothing else changes.
\<close>

lemma switch_next_inv:
  assumes inv: "sched_inv (k, g)" and rq: "runqueue (cpu k) = n # rest" and room: "room 64 (cur_stack k) (mach k)"
    and hist: "resumed h (cur_stack k) ((mach k)\<lparr>rip := ret, mem := mem (switch_save (push ret (mach k)))\<rparr>)"
      "unat (rsp (mach k)) + frame_len h \<le> unat (cur_stack k) + STACK_SIZE + 64"
  obtains k' t hn where "switch_next ret n rest k = Inr k'"
    "current (cpu k') = n" "runqueue (cpu k') = rest @ [current (cpu k)]" "dom (tasks k') = dom (tasks k)"
    "last_switch_tick (cpu k') = ticks (cpu k)"
    "tasks k' n = Some t" "g n = Some hn" "resumed hn (stack t) (mach k')"
    "sched_inv (k', g(current (cpu k) \<mapsto> h))"
proof -
  let ?p = "current (cpu k)" and ?m = "switch_save (push ret (mach k))"
  obtain tp where tp: "tasks k ?p = Some tp" "stack_ok (stack tp)" using current_task [OF inv] .
  have out: "\<forall>a. a \<notin> stack_slots (cur_stack k) \<longrightarrow> mem ?m a = mem (mach k) a"
    using mem_save_outside [OF room] by blast
  have ne: "n \<noteq> ?p" "?p \<noteq> 0" using sched_invD(1,3) [OF inv] rq tp(1) by auto
  obtain t hn where t: "tasks k n = Some t" "g n = Some hn" "suspended hn t (mem ?m)"
    using suspended_others [OF inv out, of n] rq by auto
  obtain c where c: "frame_at (mem ?m) (saved_rsp t) c" "resumed hn (stack t) (c\<lparr>mem := mem ?m\<rparr>)"
    using t(3) by (auto simp: suspended_def)
  let ?tp = "tp\<lparr>saved_rsp := rsp ?m\<rparr>"
  let ?k = "k\<lparr>tasks := (tasks k)(?p \<mapsto> ?tp), mach := switch_load (saved_rsp t) ?m,
    cpu := (cpu k)\<lparr>current := n, runqueue := rest @ [?p], last_switch_tick := ticks (cpu k)\<rparr>\<rparr>"
  have rot: "switch_next ret n rest k = Inr ?k"
    using t(1) tp(1) ne by (cases k) (simp add: switch_next_def switch_to_def Let_def)
  have load: "switch_load (saved_rsp t) ?m = c\<lparr>mem := mem ?m\<rparr>" by (rule switch_load_frame [OF c(1)])
  have rspm: "unat (rsp ?m) = unat (rsp (mach k)) - 64"
    using slot_down(1) [OF room, of 64] by (simp add: switch_save_eq)
  have susp: "suspended h ?tp (mem ?m)"
    unfolding suspended_def
    using room hist tp(1) rspm switch_save_frame [of ret "mach k"] by (auto simp: room_def intro!: exI)
  have others: "\<exists>t h. ((tasks k)(?p \<mapsto> ?tp)) q = Some t \<and> (g(?p \<mapsto> h0)) q = Some h \<and> suspended h t (mem ?m)"
    if "q \<in> set rest" for q h0
    using suspended_others [OF inv out, of q] that rq sched_invD(1) [OF inv] by auto
  have inv': "sched_inv (?k, g(?p \<mapsto> h))"
    unfolding sched_inv_def prod.case
  proof (intro conjI)
    show "distinct (current (cpu ?k) # runqueue (cpu ?k))" using sched_invD(1) [OF inv] rq by auto
    show "set (current (cpu ?k) # runqueue (cpu ?k)) = dom (tasks ?k)"
      using sched_invD(2) [OF inv] rq tp(1) by auto
    show "tasks ?k 0 = None" using sched_invD(3) [OF inv] ne by simp
    show "\<forall>p t. tasks ?k p = Some t \<longrightarrow> stack_ok (stack t)"
      using sched_invD(4) [OF inv] tp by simp
    show "\<forall>p q t u. tasks ?k p = Some t \<longrightarrow> tasks ?k q = Some u \<longrightarrow> p \<noteq> q \<longrightarrow> stack_slots (stack t) \<inter> stack_slots (stack u) = {}"
      using sched_invD(5) [OF inv] tp(1) by (auto split: if_splits)
    show "\<forall>p \<in> set (runqueue (cpu ?k)). \<exists>t h'. tasks ?k p = Some t \<and> (g(?p \<mapsto> h)) p = Some h' \<and> suspended h' t (mem (mach ?k))"
      using others susp load by auto
  qed
  show thesis
  proof (rule that [OF rot])
    show "tasks ?k n = Some t" "g n = Some hn" using t ne by auto
    show "dom (tasks ?k) = dom (tasks k)" using tp(1) by auto
    show "resumed hn (stack t) (mach ?k)" using c(2) load by simp
    show "sched_inv (?k, g(?p \<mapsto> h))" by (rule inv')
  qed simp_all
qed

lemma task_new_eq:
  assumes "stack_ok b"
  defines "p \<equiv> b + of_nat STACK_SIZE - 72"
  shows "fst (task_new b e m) = \<lparr>saved_rsp = p, state = Ready, entry_fn = e, stack = b\<rparr>"
    and "unat p = unat b + STACK_SIZE - 72"
    and "frame_at (mem (snd (task_new b e m))) p
      \<lparr>rbx = 0, rbp = 0, r12 = 0, r13 = 0, r14 = 0, r15 = 0, rsp = p + 64, rip = e, rflags = 0x202, mem = mem m\<rparr>"
    and "a \<notin> stack_slots b \<Longrightarrow> mem (snd (task_new b e m)) a = mem m a"
    and "snd (task_new b e m) = m\<lparr>mem := mem (snd (task_new b e m))\<rparr>"
proof -
  have m': "mem (snd (task_new b e m)) = (mem (zero_stack b m))(p := 0, p + 8 := 0, p + 16 := 0, p + 24 := 0,
      p + 32 := 0, p + 40 := 0, p + 48 := 0x202, p + 56 := e, p + 64 := 0)"
    by (simp add: task_new_def Let_def p_def poke_def upt_rec algebra_simps)
  have top: "unat (b + of_nat STACK_SIZE) = unat b + STACK_SIZE"
    using assms(1) by (simp add: stack_ok_def STACK_SIZE_def unat_add_noof)
  have "unat p = unat (b + of_nat STACK_SIZE) - unat (72 :: u64)"
    unfolding p_def using top by (intro unat_sub) (simp add: word_le_nat_alt STACK_SIZE_def)
  then show p: "unat p = unat b + STACK_SIZE - 72" by (simp add: top)
  show "fst (task_new b e m) = \<lparr>saved_rsp = p, state = Ready, entry_fn = e, stack = b\<rparr>"
    by (simp add: task_new_def Let_def p_def)
  show "frame_at (mem (snd (task_new b e m))) p
      \<lparr>rbx = 0, rbp = 0, r12 = 0, r13 = 0, r14 = 0, r15 = 0, rsp = p + 64, rip = e, rflags = 0x202, mem = mem m\<rparr>"
    unfolding m' by (simp add: frame_at_def)
  show "mem (snd (task_new b e m)) a = mem m a" if "a \<notin> stack_slots b"
  proof -
    have "p + j \<in> stack_slots b" if "unat j < 72" for j
      using slot_up [OF assms(1), of p 72 j] p that by (simp add: STACK_SIZE_def)
    then have "a \<noteq> p + j" if "unat j < 72" for j using that \<open>a \<notin> stack_slots b\<close> by blast
    from this [of 0] this [of 8] this [of 16] this [of 24] this [of 32] this [of 40] this [of 48] this [of 56] this [of 64]
    have "mem (snd (task_new b e m)) a = mem (zero_stack b m) a" unfolding m' by simp
    then show ?thesis using that by (auto simp: zero_stack_def stack_slots_def)
  qed
  show "snd (task_new b e m) = m\<lparr>mem := mem (snd (task_new b e m))\<rparr>"
    by (cases m) (simp add: task_new_def Let_def poke_def zero_stack_def upt_rec)
qed

lemma task_new_suspended:
  assumes "stack_ok b"
  shows "suspended (Fresh e) (fst (task_new b e m)) (mem (snd (task_new b e m)))"
proof -
  define p where "p = b + of_nat STACK_SIZE - 72"
  note tn = task_new_eq [OF assms, folded p_def]
  have "unat (p + 64) = unat p + 64"
    using assms by (subst unat_add_noof) (simp_all add: tn(2) stack_ok_def STACK_SIZE_def)
  then have rsp: "unat (p + 64) = unat b + STACK_SIZE - 8" by (simp add: tn(2) STACK_SIZE_def)
  moreover have "(unat b + STACK_SIZE - 8) mod 16 = 8"
  proof -
    obtain q where "unat b = 16 * q" using assms by (auto simp: stack_ok_def)
    then have "unat b + STACK_SIZE - 8 = 8 + 16 * (q + 2047)" by (simp add: STACK_SIZE_def)
    then show ?thesis by (simp only: mod_mult_self2) simp
  qed
  ultimately show ?thesis
    unfolding suspended_def tn(1) using tn(2)
    by (intro conjI exI [of _ "\<lparr>rbx = 0, rbp = 0, r12 = 0, r13 = 0, r14 = 0, r15 = 0, rsp = p + 64, rip = e,
        rflags = 0x202, mem = mem m\<rparr>"]) (simp_all add: tn(3) STACK_SIZE_def)
qed

lemma spawn_eq:
  "spawn b box e k = k\<lparr>mach := snd (task_new b e (mach k)), tasks := (tasks k)(box \<mapsto> fst (task_new b e (mach k))),
     cpu := (cpu k)\<lparr>runqueue := runqueue (cpu k) @ [box]\<rparr>\<rparr>"
  by (cases "task_new b e (mach k)") (simp add: spawn_def save_and_disable_def guard_drop_def Let_def)

lemma spawn_inv:
  assumes inv: "sched_inv (k, g)" and fresh: "box \<noteq> 0" "box \<notin> dom (tasks k)" "stack_ok b"
    "\<forall>t \<in> ran (tasks k). stack_slots b \<inter> stack_slots (stack t) = {}"
  shows "sched_inv (spawn b box e k, g(box \<mapsto> Fresh e))"
proof -
  let ?t = "fst (task_new b e (mach k))" and ?m = "snd (task_new b e (mach k))"
  have t: "stack ?t = b" using task_new_eq(1) [OF fresh(3)] by simp
  have box: "box \<noteq> current (cpu k)" "box \<notin> set (runqueue (cpu k))" using sched_invD(2) [OF inv] fresh(2) by auto
  have disj: "stack_slots b \<inter> stack_slots (stack u) = {}" if "tasks k q = Some u" for q u
    using fresh(4) that by (auto simp: ran_def)
  have old: "\<exists>t h. tasks k q = Some t \<and> g q = Some h \<and> suspended h t (mem ?m)" if q: "q \<in> set (runqueue (cpu k))" for q
  proof -
    obtain u h where u: "tasks k q = Some u" "g q = Some h" "suspended h u (mem (mach k))"
      using sched_invD(6) [OF inv q] by blast
    have "\<forall>a \<in> stack_slots (stack u). mem ?m a = mem (mach k) a"
      using disj [OF u(1)] task_new_eq(4) [OF fresh(3)] by blast
    with u show ?thesis using suspended_cong sched_invD(4) [OF inv u(1)] by blast
  qed
  have susp: "suspended (Fresh e) ?t (mem ?m)" by (rule task_new_suspended [OF fresh(3)])
  let ?k = "spawn b box e k"
  show ?thesis
    unfolding sched_inv_def prod.case spawn_eq
  proof (intro conjI, goal_cases)
    case 1 then show ?case using sched_invD(1) [OF inv] box by simp
  next
    case 2 then show ?case using sched_invD(2) [OF inv] by auto
  next
    case 3 then show ?case using sched_invD(3) [OF inv] fresh(1) by simp
  next
    case 4 then show ?case using sched_invD(4) [OF inv] fresh(3) t by simp
  next
    case 5 then show ?case using sched_invD(5) [OF inv] disj t by (auto split: if_splits) blast+
  next
    case 6 then show ?case using old susp box(2) by auto
  qed
qed

text \<open>The two callers of the rotation.\<close>

lemma yield_hist:
  assumes "room 72 b m" "stack_ok b"
  defines "m' \<equiv> push (rflags m) (m\<lparr>rflags := rflags m AND NOT IF\<rparr>)"
  shows "room 64 b m'" "\<forall>a. a \<notin> stack_slots b \<longrightarrow> mem m' a = mem m a"
    and "resumed (Yielded ret m) b (m'\<lparr>rip := ret, mem := mem (switch_save (push ret m'))\<rparr>)"
    and "unat (rsp m') + 72 \<le> unat b + STACK_SIZE + 64"
proof -
  have rsp: "unat (rsp m - 8) = unat (rsp m) - 8" "rsp m - 8 \<in> stack_slots b"
    using slot_down [OF assms(1), of 8] by simp_all
  then show room: "room 64 b m'" using assms(1) by (auto simp: room_def m'_def push_def)
  show "\<forall>a. a \<notin> stack_slots b \<longrightarrow> mem m' a = mem m a" using rsp(2) by (auto simp: m'_def push_def)
  show "unat (rsp m') + 72 \<le> unat b + STACK_SIZE + 64"
    using rsp(1) assms(1) by (auto simp: m'_def push_def room_def)
  have above: "mem (switch_save (push ret m')) a = mem m' a" if "unat (rsp m') \<le> unat a" for a
    using mem_save_above [OF room that] .
  have guard: "mem (switch_save (push ret m')) (rsp m') = rflags m"
    using above [of "rsp m'"] by (simp add: m'_def push_def)
  have "mem (switch_save (push ret m')) a = mem m a" if "unat (rsp m) \<le> unat a" for a
  proof -
    have "a \<noteq> rsp m - 8" using that rsp(1) assms(1) by (auto simp: room_def)
    with above [of a] that rsp(1) show ?thesis by (simp add: m'_def push_def)
  qed
  then show "resumed (Yielded ret m) b (m'\<lparr>rip := ret, mem := mem (switch_save (push ret m'))\<rparr>)"
    using guard by (simp add: same_context_def yield_return_def guard_drop_def top_def drop8_def m'_def push_def)
qed

lemma preempt_hist:
  assumes "room 64 b m"
  shows "resumed (Preempted ret m) b (m\<lparr>rip := ret, mem := mem (switch_save (push ret m))\<rparr>)"
    and "unat (rsp m) + 64 \<le> unat b + STACK_SIZE + 64"
  using assms mem_save_above [OF assms] by (auto simp: same_context_def room_def)

text \<open>
  What a switch does, for either caller: the first queued task runs, resumed as its history
  says, and the queue with the current task in front is rotated by one.
\<close>

definition switched :: "sched \<Rightarrow> kern \<Rightarrow> bool" where
  "switched = (\<lambda>(k, g) k'.
     current (cpu k') # runqueue (cpu k') = rotate1 (current (cpu k) # runqueue (cpu k)) \<and>
     dom (tasks k') = dom (tasks k) \<and> last_switch_tick (cpu k') = ticks (cpu k) \<and>
     (\<exists>t h. tasks k' (current (cpu k')) = Some t \<and> g (current (cpu k')) = Some h \<and> resumed h (stack t) (mach k')))"

lemma yield_now_cases:
  assumes inv: "sched_inv (k, g)" and room: "room 72 (cur_stack k) (mach k)"
  obtains "runqueue (cpu k) = []" "yield_now ret k = Inr k"
  | k' where "runqueue (cpu k) \<noteq> []" "yield_now ret k = Inr k'" "switched (k, g) k'"
      "sched_inv (k', g(current (cpu k) \<mapsto> Yielded ret (mach k)))"
proof (cases "runqueue (cpu k)")
  case Nil
  then have "yield_now ret k = Inr k"
    by (simp add: yield_now_def save_and_disable_def guard_drop_def)
  with Nil show ?thesis using that(1) by blast
next
  case (Cons n rest)
  obtain t where t: "tasks k (current (cpu k)) = Some t" "stack_ok (stack t)" using current_task [OF inv] .
  let ?m = "push (rflags (mach k)) ((mach k)\<lparr>rflags := rflags (mach k) AND NOT IF\<rparr>)"
  let ?k = "k\<lparr>mach := ?m\<rparr>"
  have b: "stack_ok (cur_stack k)" using t by simp
  note yh = yield_hist [OF room b]
  have inv': "sched_inv (?k, g)" using set_mach_inv [OF inv yh(2)] .
  have yield: "yield_now ret k = switch_next ret n rest ?k"
    using Cons by (simp add: yield_now_def save_and_disable_def)
  show ?thesis
  proof (rule switch_next_inv [OF inv', of n rest "Yielded ret (mach k)" ret])
    show "runqueue (cpu ?k) = n # rest" "room 64 (cur_stack ?k) (mach ?k)" using Cons yh(1) by simp_all
    show "resumed (Yielded ret (mach k)) (cur_stack ?k) ((mach ?k)\<lparr>rip := ret, mem := mem (switch_save (push ret (mach ?k)))\<rparr>)"
      using yh(3) by simp
    show "unat (rsp (mach ?k)) + frame_len (Yielded ret (mach k)) \<le> unat (cur_stack ?k) + STACK_SIZE + 64"
      using yh(4) by simp
  qed (rule that(2), use Cons yield in \<open>auto simp: switched_def\<close>)
qed

lemma preempt_cases:
  assumes inv: "sched_inv (k, g)" and room: "room 64 (cur_stack k) (mach k)"
  obtains "preempt_count (cpu k) > 0 \<or> ticks (cpu k) - last_switch_tick (cpu k) < SLICE_TICKS \<or> runqueue (cpu k) = []"
      "preempt ret k = Inr k"
  | k' where "preempt_count (cpu k) = 0" "ticks (cpu k) - last_switch_tick (cpu k) \<ge> SLICE_TICKS" "runqueue (cpu k) \<noteq> []"
      "preempt ret k = Inr k'" "switched (k, g) k'"
      "sched_inv (k', g(current (cpu k) \<mapsto> Preempted ret (mach k)))"
proof (cases "preempt_count (cpu k) > 0 \<or> ticks (cpu k) - last_switch_tick (cpu k) < SLICE_TICKS \<or> runqueue (cpu k) = []")
  case True
  then show ?thesis using that(1) by (auto simp: preempt_def)
next
  case False
  then obtain n rest where rq: "runqueue (cpu k) = n # rest" by (cases "runqueue (cpu k)") auto
  have pre: "preempt ret k = switch_next ret n rest k" using False rq by (simp add: preempt_def)
  show ?thesis
  proof (rule switch_next_inv [OF inv rq room, of "Preempted ret (mach k)" ret])
    show "resumed (Preempted ret (mach k)) (cur_stack k) ((mach k)\<lparr>rip := ret, mem := mem (switch_save (push ret (mach k)))\<rparr>)"
      by (rule preempt_hist [OF room])
    show "unat (rsp (mach k)) + frame_len (Preempted ret (mach k)) \<le> unat (cur_stack k) + STACK_SIZE + 64"
      using preempt_hist(2) [OF room] by simp
  qed (rule that(2), use False rq pre in \<open>auto simp: switched_def word_gt_0\<close>)
qed

lemma hist_current_inv: "sched_inv (k, g) \<Longrightarrow> sched_inv (k, g(current (cpu k) \<mapsto> h))"
  unfolding sched_inv_def by auto

lemma sched_step_inv: "sched_step s s' \<Longrightarrow> sched_inv s \<Longrightarrow> sched_inv s'"
proof (induction rule: sched_step.induct)
  case (run_task k m g ti pc)
  then show ?case using run_task_inv by blast
next
  case (yields k ret k' g)
  then show ?case using yield_now_cases [OF yields(3,1), of ret] hist_current_inv by (metis sum.inject(2))
next
  case (preempted k ret k' g)
  then show ?case using preempt_cases [OF preempted(3,1), of ret] hist_current_inv by (metis sum.inject(2))
next
  case (spawns box k b g entry)
  then show ?case using spawn_inv by blast
qed

text \<open>The scheduler as it starts: init, with an empty heap of tasks and an empty queue.\<close>

definition sched_boot :: "sched \<Rightarrow> bool" where
  "sched_boot = (\<lambda>(k, g). \<exists>k\<^sub>0 b box idle_loop throwaway ret.
     tasks k\<^sub>0 = Map.empty \<and> runqueue (cpu k\<^sub>0) = [] \<and> box \<noteq> 0 \<and> stack_ok b \<and>
     k = sched_init b box idle_loop throwaway ret k\<^sub>0 \<and> g = Map.empty)"

lemma sched_init_simps:
  "cpu (sched_init b box e tw ret k) = (cpu k)\<lparr>idle := box, current := box\<rparr>"
  "tasks (sched_init b box e tw ret k) = (tasks k)(box \<mapsto> fst (task_new b e (mach k)))"
  by (simp_all add: sched_init_def Let_def split: prod.splits)

interpretation sched: invariant_system sched_boot sched_step sched_inv
proof
  fix s :: sched
  assume "sched_boot s"
  then obtain k g k0 b box e tw ret where s: "s = (k, g)" "tasks k0 = Map.empty" "runqueue (cpu k0) = []"
    "box \<noteq> 0" "stack_ok b" "k = sched_init b box e tw ret k0" "g = Map.empty"
    by (auto simp: sched_boot_def)
  have "stack (fst (task_new b e (mach k0))) = b" using task_new_eq(1) [OF s(5)] by simp
  with s show "sched_inv s"
    by (auto simp: sched_inv_def sched_init_simps split: if_splits)
qed (rule sched_step_inv)

lemma rsp_set_mem: "rsp (m\<lparr>mem := M\<rparr>) = rsp m"
  by simp

section \<open>Turns\<close>

text \<open>One turn of the current task: it runs its code and then a yield or a timer tick switches away.\<close>

inductive turn :: "sched \<Rightarrow> sched \<Rightarrow> bool" where
  turn_yield: "sched_step (k, g) (k1, g1) \<Longrightarrow> current (cpu k1) = current (cpu k) \<Longrightarrow> runqueue (cpu k1) = runqueue (cpu k) \<Longrightarrow>
    room 72 (cur_stack k1) (mach k1) \<Longrightarrow> yield_now ret k1 = Inr k2 \<Longrightarrow> runqueue (cpu k1) \<noteq> [] \<Longrightarrow>
    turn (k, g) (k2, g1(current (cpu k1) \<mapsto> Yielded ret (mach k1)))"
| turn_tick: "sched_step (k, g) (k1, g1) \<Longrightarrow> current (cpu k1) = current (cpu k) \<Longrightarrow> runqueue (cpu k1) = runqueue (cpu k) \<Longrightarrow>
    room 64 (cur_stack k1) (mach k1) \<Longrightarrow> preempt ret k1 = Inr k2 \<Longrightarrow> k2 \<noteq> k1 \<Longrightarrow>
    turn (k, g) (k2, g1(current (cpu k1) \<mapsto> Preempted ret (mach k1)))"

abbreviation order :: "sched \<Rightarrow> u64 list" where
  "order s \<equiv> current (cpu (fst s)) # runqueue (cpu (fst s))"

lemma turn_rotates:
  assumes "turn s s'" "sched_inv s"
  shows "sched_inv s' \<and> order s' = rotate1 (order s)"
  using assms
proof (induction rule: turn.induct)
  case (turn_yield k g k1 g1 ret k2)
  then have "sched_inv (k1, g1)" using sched_step_inv by blast
  from yield_now_cases [OF this turn_yield(4), of ret] turn_yield show ?case by (auto simp: switched_def)
next
  case (turn_tick k g k1 g1 ret k2)
  then have "sched_inv (k1, g1)" using sched_step_inv by blast
  from preempt_cases [OF this turn_tick(4), of ret] turn_tick show ?case by (auto simp: switched_def)
qed

lemma turns_rotate: "(turn ^^ n) s s' \<Longrightarrow> sched_inv s \<Longrightarrow> sched_inv s' \<and> order s' = rotate n (order s)"
proof (induction n arbitrary: s')
  case (Suc n)
  then obtain t where t: "(turn ^^ n) s t" "turn t s'" by auto
  then have "sched_inv t" "order t = rotate n (order s)" using Suc by blast+
  with turn_rotates [OF t(2)] show ?case by (metis rotate_Suc)
qed simp

lemma rotate_reaches:
  assumes "p \<in> set xs"
  shows "\<exists>n < length xs. hd (rotate n xs) = p"
proof -
  obtain n where "n < length xs" "xs ! n = p" using assms by (auto simp: in_set_conv_nth)
  moreover from this have "xs \<noteq> []" by auto
  ultimately show ?thesis by (intro exI [of _ n]) (simp add: hd_rotate_conv_nth)
qed

lemma sched_init_idle:
  assumes "stack_ok b" "\<forall>j. 0 < j \<and> unat j \<le> 64 \<longrightarrow> rsp (mach k) - j \<notin> stack_slots b" "throwaway \<notin> stack_slots b"
  shows "resumed (Fresh idle_loop) b (mach (sched_init b box idle_loop throwaway ret k)) \<and>
    current (cpu (sched_init b box idle_loop throwaway ret k)) = box"
proof -
  let ?t = "fst (task_new b idle_loop (mach k))" and ?m = "snd (task_new b idle_loop (mach k))"
  let ?s = "switch_save (push ret ?m)"
  let ?w = "poke throwaway (rsp ?s) ?s"
  have rsp: "rsp ?m = rsp (mach k)" using task_new_eq(5) [OF assms(1)] by (metis rsp_set_mem)
  have "mem ?w a = mem ?m a" if "a \<in> stack_slots b" for a
  proof -
    have "a \<noteq> rsp ?m - j" if "0 < j" "unat j \<le> 64" for j
      using assms(2) that \<open>a \<in> stack_slots b\<close> rsp by metis
    then have "a \<noteq> rsp ?m - 8" "a \<noteq> rsp ?m - 16" "a \<noteq> rsp ?m - 24" "a \<noteq> rsp ?m - 32" "a \<noteq> rsp ?m - 40"
      "a \<noteq> rsp ?m - 48" "a \<noteq> rsp ?m - 56" "a \<noteq> rsp ?m - 64"
      by auto
    moreover have "a \<noteq> throwaway" using assms(3) that by blast
    ultimately show ?thesis by (simp add: poke_def switch_save_eq)
  qed
  moreover have "stack ?t = b" using task_new_eq(1) [OF assms(1)] by simp
  ultimately have "suspended (Fresh idle_loop) ?t (mem ?w)"
    using suspended_cong [of ?t "mem ?w" "mem ?m"] task_new_suspended [OF assms(1)] assms(1) by simp
  then obtain c where c: "frame_at (mem ?w) (saved_rsp ?t) c" "resumed (Fresh idle_loop) (stack ?t) (c\<lparr>mem := mem ?w\<rparr>)"
    by (auto simp: suspended_def)
  have "mach (sched_init b box idle_loop throwaway ret k) = switch_load (saved_rsp ?t) ?w"
    by (simp add: sched_init_def Let_def split: prod.splits)
  then have "resumed (Fresh idle_loop) b (mach (sched_init b box idle_loop throwaway ret k))"
    using c switch_load_frame [OF c(1)] \<open>stack ?t = b\<close> by (simp only:)
  then show ?thesis by (simp only: sched_init_simps) simp
qed

section \<open>Properties\<close>

text \<open>
  C1. Context switches are exact: in every reachable state in which the current task has room
  on its stack, yield\_now and preempt return without a fault; when they switch, the next task in
  the queue runs, with exactly the context it gave up the processor with, whatever other tasks did
  since: callee-saved registers, stack pointer, flags as at its call and every slot of its stack at
  or above the stack pointer; a fresh task starts at its entry point with interrupts enabled
  and an ABI-aligned stack.
\<close>

theorem switch_exact:
  assumes "sched_boot s\<^sub>0" "reachable sched_step s\<^sub>0 (k, g)" "room 72 (cur_stack k) (mach k)"
  shows "(\<exists>k'. yield_now ret k = Inr k' \<and> (if runqueue (cpu k) = [] then k' = k else switched (k, g) k')) \<and>
    (\<exists>k'. preempt ret k = Inr k' \<and> (k' = k \<or> switched (k, g) k'))"
proof -
  have inv: "sched_inv (k, g)" using sched.reachable_inv [OF assms(1,2)] .
  have "room 64 (cur_stack k) (mach k)" using assms(3) by (simp add: room_def)
  from preempt_cases [OF inv this, of ret] have "\<exists>k'. preempt ret k = Inr k' \<and> (k' = k \<or> switched (k, g) k')"
    by metis
  moreover from yield_now_cases [OF inv assms(3), of ret]
  have "\<exists>k'. yield_now ret k = Inr k' \<and> (if runqueue (cpu k) = [] then k' = k else switched (k, g) k')"
    by metis
  ultimately show ?thesis by blast
qed

text \<open>
  C7. No task is lost or duplicated: in every reachable state each live task is exactly once
  either the current one or in the runqueue, every entry of either is a live task, and the stacks of
  two tasks never overlap.
\<close>

theorem tasks_conserved:
  assumes "sched_boot s\<^sub>0" "reachable sched_step s\<^sub>0 (k, g)"
  shows "distinct (current (cpu k) # runqueue (cpu k)) \<and>
    set (current (cpu k) # runqueue (cpu k)) = dom (tasks k) \<and>
    (\<forall>p q t u. tasks k p = Some t \<and> tasks k q = Some u \<and> p \<noteq> q \<longrightarrow> stack_slots (stack t) \<inter> stack_slots (stack u) = {})"
  using sched_invD(1,2,5) [OF sched.reachable_inv [OF assms]] by blast

text \<open>
  C18. The rotation is fair: from any reachable state, every live task is the current one after a
  number of turns smaller than the number of live tasks, however long each turn is and whichever
  of yield\_now and the timer ends it.
\<close>

theorem round_robin_fair:
  assumes "sched_boot s\<^sub>0" "reachable sched_step s\<^sub>0 (k, g)" "p \<in> dom (tasks k)"
  shows "\<exists>n < card (dom (tasks k)). \<forall>k' g'. (turn ^^ n) (k, g) (k', g') \<longrightarrow> current (cpu k') = p"
proof -
  have inv: "sched_inv (k, g)" using sched.reachable_inv [OF assms(1,2)] .
  have "card (dom (tasks k)) = length (order (k, g))"
    using sched_invD(1,2) [OF inv] distinct_card by (metis fst_conv)
  moreover obtain n where n: "n < length (order (k, g))" "hd (rotate n (order (k, g))) = p"
    using rotate_reaches [of p "order (k, g)"] sched_invD(2) [OF inv] assms(3) by auto
  moreover have "current (cpu k') = p" if "(turn ^^ n) (k, g) (k', g')" for k' g'
    using turns_rotate [OF that inv] n(2) by (metis fst_conv list.sel(1))
  ultimately show ?thesis by metis
qed

text \<open>
  The timer preempts exactly when it may: preempt leaves the state as it is while
  preempt\_count is raised, while fewer than ten ticks passed since the last switch (counted with
  wrap-around) or while no other task is runnable, and switches otherwise.
\<close>

theorem preempt_on_expiry:
  assumes "sched_boot s\<^sub>0" "reachable sched_step s\<^sub>0 (k, g)" "room 64 (cur_stack k) (mach k)" "preempt ret k = Inr k'"
  shows "k' \<noteq> k \<longleftrightarrow> preempt_count (cpu k) = 0 \<and> ticks (cpu k) - last_switch_tick (cpu k) \<ge> SLICE_TICKS \<and> runqueue (cpu k) \<noteq> []"
proof -
  have inv: "sched_inv (k, g)" using sched.reachable_inv [OF assms(1,2)] .
  have moves: "k'' \<noteq> k" if "switched (k, g) k''" "runqueue (cpu k) \<noteq> []" for k''
    using that sched_invD(1) [OF inv] by (cases "runqueue (cpu k)") (auto simp: switched_def)
  from preempt_cases [OF inv assms(3), of ret] show ?thesis
  proof cases
    case 1
    with assms(4) show ?thesis by (auto simp: word_gt_0)
  next
    case (2 k'')
    with assms(4) moves show ?thesis by auto
  qed
qed

text \<open>
  sched::init starts the idle task: it leaves the boot stack for the idle task's, which
  begins at idle\_loop with cleared registers, interrupts enabled and an ABI-aligned stack pointer,
  when the boot stack does not overlap the idle task's stack.
\<close>

theorem sched_init_enters_idle:
  assumes "stack_ok b" "\<forall>j. 0 < j \<and> unat j \<le> 64 \<longrightarrow> rsp (mach k) - j \<notin> stack_slots b" "throwaway \<notin> stack_slots b"
  shows "resumed (Fresh idle_loop) b (mach (sched_init b box idle_loop throwaway ret k)) \<and>
    current (cpu (sched_init b box idle_loop throwaway ret k)) = box"
  using sched_init_idle [OF assms] .

lemma slot_at_own:
  assumes "inj_on slot_addr {..<MAX_CPUS}" "n < MAX_CPUS"
  shows "slot_at slot_addr (slot_addr n) = Some n"
proof -
  have only: "slot_addr j = slot_addr n \<Longrightarrow> j < MAX_CPUS \<Longrightarrow> j = n" for j
    using assms by (auto simp: inj_on_def)
  show ?thesis unfolding slot_at_def find_Some_iff
    using assms(2) only by (intro exI [of _ n]) (auto dest: order.strict_trans)
qed

lemma wrmsr_gs_eq: "wrmsr_gs v c = c\<lparr>gs_base := v\<rparr>"
proof -
  have "push_bit 32 (ucast (ucast (drop_bit 32 v) :: u32)) OR ucast (ucast v :: u32) = v"
    by (rule bit_eqI) (auto simp: bit_simps)
  then show ?thesis by (simp add: wrmsr_gs_def)
qed

text \<open>
  Each core finds its own data: after init\_slot has run on a core for one of the 64 slots,
  current\_cpu on that core returns exactly that slot, with its index as id and the given APIC id,
  provided the slots have different addresses; any other slot index panics.
\<close>

theorem current_cpu_own_slot:
  assumes "inj_on slot_addr {..<MAX_CPUS}" "slots c = build_cpus"
  shows "if unat i < MAX_CPUS
    then \<exists>c' l. init_slot slot_addr i ap c = Inr c' \<and> current_cpu slot_addr c' = Inr l \<and> cpu_id l = i \<and> apic_id l = ap
    else init_slot slot_addr i ap c = Inl Panic"
proof (cases "unat i < MAX_CPUS")
  case True
  let ?n = "unat i" and ?a = "slot_addr (unat i)"
  let ?l = "(slots c ! ?n)\<lparr>self_ptr := ?a, apic_id := ap\<rparr>"
  have len: "length (slots c) = MAX_CPUS" using assms(2) by (simp add: build_cpus_def)
  have init: "init_slot slot_addr i ap c = Inr (c\<lparr>slots := (slots c)[?n := ?l], gs_base := ?a\<rparr>)"
    using True len by (simp add: init_slot_def wrmsr_gs_eq Let_def)
  have "slot_at slot_addr ?a = Some ?n" by (rule slot_at_own [OF assms(1) True])
  moreover have "cpu_id (slots c ! ?n) = i" using assms(2) True by (simp add: build_cpus_def)
  ultimately show ?thesis using True init len by (simp add: current_cpu_def)
next
  case False
  then show ?thesis by (simp add: init_slot_def)
qed

section \<open>Witnesses\<close>

definition demo_kern :: kern where
  "demo_kern = \<lparr>mach = \<lparr>rbx = 0, rbp = 0, r12 = 0, r13 = 0, r14 = 0, r15 = 0, rsp = 0x8000, rip = 0, rflags = 2, mem = (\<lambda>_. 0)\<rparr>,
     tasks = Map.empty, cpu = cpu_local_new 0\<rparr>"

definition demo_boot :: kern where
  "demo_boot = sched_init 0x10000 0x100 0x5000 0x8008 0x6000 demo_kern"

definition demo_two :: kern where
  "demo_two = spawn 0x20000 0x200 0x7000 demo_boot"

definition demo_late :: kern where
  "demo_late = demo_two\<lparr>mach := mach demo_two, cpu := (cpu demo_two)\<lparr>ticks := 10, preempt_count := 0\<rparr>\<rparr>"

lemma demo_stacks: "stack_ok 0x10000" "stack_ok 0x20000" "stack_slots 0x20000 \<inter> stack_slots 0x10000 = {}"
  by (auto simp: stack_ok_def STACK_SIZE_def stack_slots_def)

lemma demo_boot_start: "sched_boot (demo_boot, Map.empty)"
  unfolding sched_boot_def prod.case demo_boot_def using demo_stacks(1)
  by (intro exI [of _ demo_kern] exI [of _ "0x10000"] exI [of _ "0x100"] exI [of _ "0x5000"] exI [of _ "0x8008"] exI [of _ "0x6000"])
    (simp add: demo_kern_def cpu_local_new_def)

lemma demo_fields:
  "current (cpu demo_two) = 0x100" "runqueue (cpu demo_two) = [0x200]" "dom (tasks demo_two) = {0x100, 0x200}"
  "cur_stack demo_two = 0x10000" "ticks (cpu demo_two) = 0" "last_switch_tick (cpu demo_two) = 0"
  using task_new_eq(1) [OF demo_stacks(1)]
  by (auto simp: demo_two_def demo_boot_def spawn_eq sched_init_simps demo_kern_def cpu_local_new_def)

lemma demo_reach: "reachable sched_step (demo_boot, Map.empty) (demo_two, [0x200 \<mapsto> Fresh 0x7000])"
proof -
  have "\<forall>t \<in> ran (tasks demo_boot). stack_slots 0x20000 \<inter> stack_slots (stack t) = {}"
    using demo_stacks(3) task_new_eq(1) [OF demo_stacks(1)]
    by (simp add: demo_boot_def sched_init_simps demo_kern_def ran_def)
  moreover have "0x200 \<notin> dom (tasks demo_boot)" by (simp add: demo_boot_def sched_init_simps demo_kern_def)
  ultimately show ?thesis
    unfolding demo_two_def by (intro r_into_rtranclp spawns) (simp_all add: demo_stacks)
qed

lemma demo_reach_late: "reachable sched_step (demo_boot, Map.empty) (demo_late, [0x200 \<mapsto> Fresh 0x7000])"
  unfolding demo_late_def by (rule rtranclp.rtrancl_into_rtrancl [OF demo_reach]) (rule run_task, simp)

lemma demo_outside: "\<forall>j. 0 < j \<and> unat j \<le> 64 \<longrightarrow> rsp (mach demo_kern) - j \<notin> stack_slots 0x10000"
proof (intro allI impI)
  fix j :: u64
  assume j: "0 < j \<and> unat j \<le> 64"
  then have "unat (0x8000 - j) = 0x8000 - unat j" by (subst unat_sub) (simp_all add: word_le_nat_alt)
  with j show "rsp (mach demo_kern) - j \<notin> stack_slots 0x10000"
    by (simp add: demo_kern_def stack_slots_def)
qed

lemma demo_throwaway: "0x8008 \<notin> stack_slots 0x10000"
  by (simp add: stack_slots_def)

lemma demo_room: "room 72 (cur_stack demo_two) (mach demo_two)" "room 64 (cur_stack demo_late) (mach demo_late)"
proof -
  from sched_init_idle [OF demo_stacks(1) demo_outside demo_throwaway, of "0x5000" "0x100" "0x6000"]
  have "unat (rsp (mach demo_boot)) = 0x10000 + 32760" by (simp add: demo_boot_def STACK_SIZE_def)
  moreover have "rsp (mach demo_two) = rsp (mach demo_boot)"
    using task_new_eq(5) [OF demo_stacks(2)] by (simp add: demo_two_def spawn_eq) (metis rsp_set_mem)
  ultimately show r: "room 72 (cur_stack demo_two) (mach demo_two)"
    unfolding demo_fields(4) by (simp add: room_def STACK_SIZE_def)
  then show "room 64 (cur_stack demo_late) (mach demo_late)" by (simp add: demo_late_def room_def)
qed

theorem switch_exact_witness: "\<exists>k'. yield_now 0x6000 demo_two = Inr k' \<and> current (cpu k') = 0x200"
  using switch_exact [OF demo_boot_start demo_reach demo_room(1), of "0x6000"]
  by (auto simp: demo_fields switched_def)

theorem tasks_conserved_witness: "set (current (cpu demo_two) # runqueue (cpu demo_two)) = dom (tasks demo_two)"
  using tasks_conserved [OF demo_boot_start demo_reach] by blast

theorem round_robin_fair_witness:
  "\<exists>n < card (dom (tasks demo_two)). \<forall>k' g'. (turn ^^ n) (demo_two, [0x200 \<mapsto> Fresh 0x7000]) (k', g') \<longrightarrow> current (cpu k') = 0x200"
  by (rule round_robin_fair [OF demo_boot_start demo_reach]) (simp add: demo_fields)

theorem preempt_on_expiry_witness: "\<exists>k'. preempt 0x6000 demo_late = Inr k' \<and> k' \<noteq> demo_late"
proof -
  obtain k' where k': "preempt 0x6000 demo_late = Inr k'"
    using preempt_cases [OF sched.reachable_inv [OF demo_boot_start demo_reach_late] demo_room(2), of "0x6000"] by metis
  moreover from preempt_on_expiry [OF demo_boot_start demo_reach_late demo_room(2) k'] have "k' \<noteq> demo_late"
    using demo_fields by (simp add: demo_late_def SLICE_TICKS_def)
  ultimately show ?thesis by blast
qed

theorem sched_init_enters_idle_witness: "resumed (Fresh 0x5000) 0x10000 (mach demo_boot)"
  unfolding demo_boot_def using sched_init_enters_idle [OF demo_stacks(1) demo_outside demo_throwaway, of "0x5000" "0x100" "0x6000"]
  by (rule conjunct1)

theorem current_cpu_own_slot_witness:
  "\<exists>c' l. init_slot (\<lambda>n. 0x1000 + 128 * of_nat n) 3 5 \<lparr>slots = build_cpus, gs_base = 0\<rparr> = Inr c' \<and>
     current_cpu (\<lambda>n. 0x1000 + 128 * of_nat n) c' = Inr l \<and> cpu_id l = 3 \<and> apic_id l = 5"
proof -
  have "inj_on (\<lambda>n. 0x1000 + 128 * of_nat n :: u64) {..<MAX_CPUS}"
  proof (rule inj_onI)
    fix x y assume xy: "x \<in> {..<MAX_CPUS}" "y \<in> {..<MAX_CPUS}" "0x1000 + 128 * of_nat x = (0x1000 + 128 * of_nat y :: u64)"
    then have "(of_nat (128 * x) :: u64) = of_nat (128 * y)" by simp
    then have "unat (of_nat (128 * x) :: u64) = unat (of_nat (128 * y) :: u64)" by simp
    moreover have "unat (of_nat (128 * z) :: u64) = 128 * z" if "z < MAX_CPUS" for z
      using that by (subst unat_of_nat_small) (auto simp: MAX_CPUS_def)
    ultimately have "128 * x = 128 * y" using xy(1,2) by (metis lessThan_iff)
    then show "x = y" by simp
  qed
  from current_cpu_own_slot [OF this, of "\<lparr>slots = build_cpus, gs_base = 0\<rparr>" 3 5] show ?thesis
    by (simp add: MAX_CPUS_def)
qed

end
