(* ===== verification/Acpi.thy ===== *)
theory Acpi
  imports Prelude
begin

unbundle bit_operations_syntax

text \<open>
  The ACPI table walk, arsenal-kernel/src/acpi.rs: from the RSDP through the RSDT or XSDT to the
  MADT and its entries. Physical memory is a function from addresses to bytes; a load is defined
  only inside a range that has been given to paging::map\_mmio, and is undefined behaviour
  elsewhere. Offsets and lengths inside a table are natural numbers: all of them come from 32-bit
  length fields or are bounded by one, so the usize arithmetic of the source does not wrap, except
  where the source subtracts the header length, which is kept in word arithmetic.
\<close>

section \<open>Model\<close>

record cpu_info =
  acpi_processor_id :: u8
  cpu_apic_id :: u8
  cpu_flags :: u32

definition enabled :: "cpu_info \<Rightarrow> bool" where
  "enabled c \<longleftrightarrow> cpu_flags c AND 1 \<noteq> 0"

definition online_capable :: "cpu_info \<Rightarrow> bool" where
  "online_capable c \<longleftrightarrow> cpu_flags c AND 2 \<noteq> 0"

record ioapic_info =
  ioapic_id :: u8
  ioapic_base :: u32
  gsi_base :: u32

record irq_override =
  ov_bus :: u8
  ov_source :: u8
  ov_gsi :: u32
  ov_flags :: u16

record acpi_tables =
  acpi_cpus :: "cpu_info list"
  acpi_ioapics :: "ioapic_info list"
  acpi_overrides :: "irq_override list"
  local_apic_base :: u32

text \<open>The getter used by interrupt routing; the tables are None until init has run.\<close>

definition irq_override_for :: "acpi_tables option \<Rightarrow> u8 \<Rightarrow> irq_override option" where
  "irq_override_for ts isa_irq =
     (case ts of None \<Rightarrow> None | Some t \<Rightarrow> List.find (\<lambda>v. ov_source v = isa_irq) (acpi_overrides t))"

text \<open>Memory: its contents, the HHDM offset, and the ranges (start, length) mapped so far.\<close>

record phys =
  ram :: "u64 \<Rightarrow> u8"
  hhdm :: u64
  mapped :: "(u64 \<times> u64) list"

definition readable :: "phys \<Rightarrow> u64 \<Rightarrow> bool" where
  "readable ph a \<longleftrightarrow> list_ex (\<lambda>(start, len). a - start < len) (mapped ph)"

definition read_u8 :: "phys \<Rightarrow> u64 \<Rightarrow> nat \<Rightarrow> u8 outcome" where
  "read_u8 ph base off =
     (let a = base + of_nat off - hhdm ph in if readable ph a then Inr (ram ph a) else Inl Undefined)"

definition read_bytes :: "phys \<Rightarrow> nat \<Rightarrow> u64 \<Rightarrow> nat \<Rightarrow> u8 list outcome" where
  "read_bytes ph n base off = sequence (map (\<lambda>i. read_u8 ph base (off + i)) [0..<n])"

definition read_u16 :: "phys \<Rightarrow> u64 \<Rightarrow> nat \<Rightarrow> u16 outcome" where
  "read_u16 ph base off = and_then (read_bytes ph 2 base off) (\<lambda>bs. Inr (of_nat (le_nat bs)))"

definition read_u32 :: "phys \<Rightarrow> u64 \<Rightarrow> nat \<Rightarrow> u32 outcome" where
  "read_u32 ph base off = and_then (read_bytes ph 4 base off) (\<lambda>bs. Inr (of_nat (le_nat bs)))"

definition read_u64 :: "phys \<Rightarrow> u64 \<Rightarrow> nat \<Rightarrow> u64 outcome" where
  "read_u64 ph base off = and_then (read_bytes ph 8 base off) (\<lambda>bs. Inr (of_nat (le_nat bs)))"

definition rsdp_phys_from :: "u64 \<Rightarrow> u64 \<Rightarrow> u64" where
  "rsdp_phys_from off addr = (if addr \<ge> off then addr - off else addr)"

definition map_table :: "phys \<Rightarrow> u64 \<Rightarrow> u64 \<Rightarrow> u64 \<times> phys" where
  "map_table ph p len =
     (let page_mask = 0xFFF;
          aligned_phys = p AND NOT page_mask;
          span = (p - aligned_phys + len + page_mask) AND NOT page_mask
      in (p + hhdm ph, ph\<lparr>mapped := (aligned_phys, span) # mapped ph\<rparr>))"

text \<open>One MADT entry, and the walk over the entries from a cursor on.\<close>

definition madt_entry :: "phys \<Rightarrow> u64 \<Rightarrow> nat \<Rightarrow> u8 \<Rightarrow> nat \<Rightarrow> acpi_tables \<Rightarrow> acpi_tables outcome" where
  "madt_entry ph madt cursor entry_type entry_len t =
     (if entry_type = 0 \<and> entry_len \<ge> 8 then
        and_then (read_u8 ph madt (cursor + 2)) (\<lambda>i. and_then (read_u8 ph madt (cursor + 3)) (\<lambda>a.
        and_then (read_u32 ph madt (cursor + 4)) (\<lambda>f.
          Inr (t\<lparr>acpi_cpus := acpi_cpus t @ [\<lparr>acpi_processor_id = i, cpu_apic_id = a, cpu_flags = f\<rparr>]\<rparr>))))
      else if entry_type = 1 \<and> entry_len \<ge> 12 then
        and_then (read_u8 ph madt (cursor + 2)) (\<lambda>i. and_then (read_u32 ph madt (cursor + 4)) (\<lambda>b.
        and_then (read_u32 ph madt (cursor + 8)) (\<lambda>g.
          Inr (t\<lparr>acpi_ioapics := acpi_ioapics t @ [\<lparr>ioapic_id = i, ioapic_base = b, gsi_base = g\<rparr>]\<rparr>))))
      else if entry_type = 2 \<and> entry_len \<ge> 10 then
        and_then (read_u8 ph madt (cursor + 2)) (\<lambda>b. and_then (read_u8 ph madt (cursor + 3)) (\<lambda>s.
        and_then (read_u32 ph madt (cursor + 4)) (\<lambda>g. and_then (read_u16 ph madt (cursor + 8)) (\<lambda>f.
          Inr (t\<lparr>acpi_overrides := acpi_overrides t @ [\<lparr>ov_bus = b, ov_source = s, ov_gsi = g, ov_flags = f\<rparr>]\<rparr>)))))
      else Inr t)"

function madt_walk :: "phys \<Rightarrow> u64 \<Rightarrow> nat \<Rightarrow> nat \<Rightarrow> acpi_tables \<Rightarrow> acpi_tables outcome" where
  "madt_walk ph madt madt_length cursor t =
     (if cursor + 2 \<le> madt_length then
        (case read_u8 ph madt cursor of Inl e \<Rightarrow> Inl e | Inr entry_type \<Rightarrow>
        (case read_u8 ph madt (cursor + 1) of Inl e \<Rightarrow> Inl e | Inr l \<Rightarrow>
          let entry_len = unat l
          in if entry_len < 2 then Inl Panic
             else if madt_length < cursor + entry_len then Inl Panic
             else (case madt_entry ph madt cursor entry_type entry_len t of
                     Inl e \<Rightarrow> Inl e
                   | Inr t' \<Rightarrow> madt_walk ph madt madt_length (cursor + entry_len) t')))
      else Inr t)"
  by pat_completeness auto
termination
  by (relation "measure (\<lambda>(ph, madt, len, cursor, t). len - cursor)") auto

declare madt_walk.simps [simp del]

text \<open>The search of the (X)SDT for the MADT; every header is mapped before it is read.\<close>

fun find_madt :: "phys \<Rightarrow> u64 \<Rightarrow> nat \<Rightarrow> nat \<Rightarrow> nat \<Rightarrow> (u64 option \<times> phys) outcome" where
  "find_madt ph sdt entry_width i 0 = Inr (None, ph)"
| "find_madt ph sdt entry_width i (Suc n) =
     (let entry_offset = 36 + i * entry_width
      in and_then (if entry_width = 8 then read_u64 ph sdt entry_offset
                   else and_then (read_u32 ph sdt entry_offset) (\<lambda>v. Inr (ucast v))) (\<lambda>table_phys.
         let (table, ph) = map_table ph table_phys 36
         in and_then (read_bytes ph 4 table 0) (\<lambda>sig.
            if sig = [0x41, 0x50, 0x49, 0x43] then Inr (Some table_phys, ph)
            else find_madt ph sdt entry_width (i + 1) n)))"

definition RSD_PTR :: "u8 list" where "RSD_PTR = [0x52, 0x53, 0x44, 0x20, 0x50, 0x54, 0x52, 0x20]"
definition XSDT :: "u8 list" where "XSDT = [0x58, 0x53, 0x44, 0x54]"
definition RSDT :: "u8 list" where "RSDT = [0x52, 0x53, 0x44, 0x54]"

definition no_tables :: "u32 \<Rightarrow> acpi_tables" where
  "no_tables lapic_base = \<lparr>acpi_cpus = [], acpi_ioapics = [], acpi_overrides = [], local_apic_base = lapic_base\<rparr>"

text \<open>From the MADT's address on: its length, the LAPIC base, the entries and the check of the BSP.\<close>

definition load_madt :: "u8 \<Rightarrow> phys \<Rightarrow> u64 \<Rightarrow> (acpi_tables \<times> phys) outcome" where
  "load_madt bsp_apic_id ph madt_phys =
     (let (madt, ph) = map_table ph madt_phys 36
      in and_then (read_u32 ph madt 4) (\<lambda>len32.
         let madt_length = unat len32;
             (madt, ph) = map_table ph madt_phys (ucast len32)
         in and_then (read_u32 ph madt 36) (\<lambda>lapic_base.
            and_then (read_u32 ph madt 40) (\<lambda>_.
            and_then (madt_walk ph madt madt_length 44 (no_tables lapic_base)) (\<lambda>t.
            and_then (rust_assert (list_ex (\<lambda>c. cpu_apic_id c = bsp_apic_id) (acpi_cpus t))) (\<lambda>_.
              Inr (t, ph)))))))"

definition acpi_init :: "u8 \<Rightarrow> phys \<Rightarrow> u64 \<Rightarrow> (acpi_tables \<times> phys) outcome" where
  "acpi_init bsp_apic_id ph rsdp_addr =
     (let (rsdp, ph) = map_table ph (rsdp_phys_from (hhdm ph) rsdp_addr) 36
      in and_then (read_bytes ph 8 rsdp 0) (\<lambda>signature.
         and_then (rust_assert (signature = RSD_PTR)) (\<lambda>_.
         and_then (read_u8 ph rsdp 15) (\<lambda>revision.
         and_then (if revision \<ge> 2 then and_then (read_u64 ph rsdp 24) (\<lambda>a. Inr (a, 8))
                   else and_then (read_u32 ph rsdp 16) (\<lambda>a. Inr (ucast a, 4))) (\<lambda>(sdt_phys, entry_width).
           let (sdt, ph) = map_table ph sdt_phys 36
           in and_then (read_bytes ph 4 sdt 0) (\<lambda>sdt_signature.
              and_then (rust_assert (sdt_signature = (if entry_width = 8 then XSDT else RSDT))) (\<lambda>_.
              and_then (read_u32 ph sdt 4) (\<lambda>len32.
                let sdt_length = ucast len32 :: usize;
                    (sdt, ph) = map_table ph sdt_phys sdt_length;
                    entry_count = (sdt_length - 36) div of_nat entry_width
                in and_then (find_madt ph sdt entry_width 0 (unat entry_count)) (\<lambda>(madt, ph).
                   and_then (expect madt) (\<lambda>madt_phys. load_madt bsp_apic_id ph madt_phys))))))))))"

section \<open>Mapped tables\<close>

text \<open>The first \<open>n\<close> bytes behind the virtual address \<open>base\<close> are mapped.\<close>

definition in_map :: "phys \<Rightarrow> u64 \<Rightarrow> nat \<Rightarrow> bool" where
  "in_map ph base n \<longleftrightarrow> (\<forall>off < n. readable ph (base + of_nat off - hhdm ph))"

definition byte_at :: "phys \<Rightarrow> u64 \<Rightarrow> nat \<Rightarrow> u8" where
  "byte_at ph base off = ram ph (base + of_nat off - hhdm ph)"

lemma in_map_mono: "in_map ph base n \<Longrightarrow> m \<le> n \<Longrightarrow> in_map ph base m"
  by (auto simp: in_map_def)

lemma read_u8_mapped: "in_map ph base n \<Longrightarrow> off < n \<Longrightarrow> read_u8 ph base off = Inr (byte_at ph base off)"
  by (simp add: in_map_def read_u8_def byte_at_def Let_def)

lemma read_bytes_mapped:
  "in_map ph base n \<Longrightarrow> off + k \<le> n \<Longrightarrow> read_bytes ph k base off = Inr (map (\<lambda>i. byte_at ph base (off + i)) [0..<k])"
  unfolding read_bytes_def by (rule sequence_map_eq) (auto intro: read_u8_mapped)

lemma read_words_mapped:
  assumes "in_map ph base n"
  shows "off + 2 \<le> n \<Longrightarrow> read_u16 ph base off = Inr (of_nat (le_nat (map (\<lambda>i. byte_at ph base (off + i)) [0..<2])))"
    and "off + 4 \<le> n \<Longrightarrow> read_u32 ph base off = Inr (of_nat (le_nat (map (\<lambda>i. byte_at ph base (off + i)) [0..<4])))"
    and "off + 8 \<le> n \<Longrightarrow> read_u64 ph base off = Inr (of_nat (le_nat (map (\<lambda>i. byte_at ph base (off + i)) [0..<8])))"
  using read_bytes_mapped [OF assms] by (simp_all only: read_u16_def read_u32_def read_u64_def and_then_simps)

lemmas read_mapped = read_u8_mapped read_bytes_mapped read_words_mapped

lemma map_table_in_map:
  assumes "map_table ph p len = (v, ph')" "unat len < 2 ^ 32"
  shows "in_map ph' v (unat len)" "v = p + hhdm ph" "ram ph' = ram ph" "hhdm ph' = hhdm ph"
    and "in_map ph base n \<Longrightarrow> in_map ph' base n"
proof -
  let ?al = "p AND NOT 0xFFF" and ?x = "p - (p AND NOT 0xFFF)"
  let ?span = "(?x + len + 0xFFF) AND NOT 0xFFF"
  have ph': "v = p + hhdm ph" "ph' = ph\<lparr>mapped := (?al, ?span) # mapped ph\<rparr>"
    using assms(1) by (simp_all add: map_table_def Let_def)
  then show "v = p + hhdm ph" "ram ph' = ram ph" "hhdm ph' = hhdm ph" by simp_all
  show "in_map ph' base n" if "in_map ph base n"
    using that ph' by (simp add: in_map_def readable_def)
  have m: "unat (a AND NOT 0xFFF) = unat a - unat a mod 4096" for a :: u64
    using unat_and_not_mask [of a 12] by (simp only: page_mask_eq) simp
  have al: "unat ?al = unat p - unat p mod 4096" by (rule m)
  then have "unat ?x = unat p - unat ?al" by (intro unat_sub) (simp add: word_le_nat_alt)
  then have x: "unat ?x = unat p mod 4096" unfolding al by simp
  then have x4: "unat ?x < 4096" by simp
  have sum: "unat (?x + len + 0xFFF) = unat ?x + unat len + 4095"
    using x4 assms(2) by (simp add: unat_add_noof)
  have span: "unat ?x + unat len \<le> unat ?span"
    using m [of "?x + len + 0xFFF"] mod_less_divisor [of 4096 "unat ?x + unat len + 4095"] unfolding sum by linarith
  have "p + of_nat off - ?al < ?span" if "off < unat len" for off
  proof -
    have o: "unat (of_nat off :: u64) = off" using that assms(2) by (intro unat_of_nat_small) simp
    have "unat (?x + of_nat off) = unat ?x + off" using x4 that assms(2) o by (subst unat_add_noof) simp_all
    moreover have "p + of_nat off - ?al = ?x + of_nat off" by simp
    ultimately have "unat (p + of_nat off - ?al) < unat ?span" using span that by (simp only:)
    then show ?thesis by (simp only: word_less_nat_alt)
  qed
  then show "in_map ph' v (unat len)" using ph' by (simp add: in_map_def readable_def)
qed

text \<open>Outcomes that touch no memory outside what is mapped.\<close>

definition safe :: "'a outcome \<Rightarrow> bool" where
  "safe r \<longleftrightarrow> r \<noteq> Inl Undefined"

lemma safe_simps [simp]: "safe (Inr x)" "safe (Inl Panic)" "safe (rust_assert b)" "safe (expect v)"
  by (auto simp: safe_def rust_assert_def expect_def split: option.splits)

lemma safe_and_then: "safe m \<Longrightarrow> (\<And>x. m = Inr x \<Longrightarrow> safe (f x)) \<Longrightarrow> safe (and_then m f)"
  by (cases m) (auto simp: safe_def)

lemma madt_entry_safe:
  assumes "in_map ph madt n" "cursor + entry_len \<le> n"
  shows "\<exists>t'. madt_entry ph madt cursor ty entry_len t = Inr t'"
  using assms by (auto simp: madt_entry_def read_mapped)

lemma madt_walk_safe: "in_map ph madt len \<Longrightarrow> safe (madt_walk ph madt len cursor t)"
proof (induction ph madt len cursor t rule: madt_walk.induct)
  case (1 ph madt len cursor t)
  show ?case
  proof (cases "cursor + 2 \<le> len")
    case True
    let ?ty = "byte_at ph madt cursor" and ?l = "byte_at ph madt (cursor + 1)"
    have rd: "read_u8 ph madt cursor = Inr ?ty" "read_u8 ph madt (cursor + 1) = Inr ?l"
      using True read_u8_mapped [OF "1.prems"] by simp_all
    show ?thesis
    proof (cases "unat ?l < 2 \<or> len < cursor + unat ?l")
      case bad: True
      with True rd show ?thesis by (subst madt_walk.simps) auto
    next
      case False
      then obtain t' where t': "madt_entry ph madt cursor ?ty (unat ?l) t = Inr t'"
        using madt_entry_safe [OF "1.prems", of cursor "unat ?l" ?ty t] by auto
      have "safe (madt_walk ph madt len (cursor + unat ?l) t')"
        using "1.IH" [OF True rd refl _ _ t' "1.prems"] False by auto
      with True rd t' False show ?thesis by (subst madt_walk.simps) simp
    qed
  next
    case False
    then show ?thesis by (subst madt_walk.simps) simp
  qed
qed

text \<open>
  What the specification says of the length fields: a table is at least as long as its fixed
  part.
\<close>

definition sig4 :: "(u64 \<Rightarrow> u8) \<Rightarrow> u64 \<Rightarrow> u8 list" where
  "sig4 m a = map (\<lambda>i. m (a + of_nat i)) [0..<4]"

definition len_field :: "(u64 \<Rightarrow> u8) \<Rightarrow> u64 \<Rightarrow> nat" where
  "len_field m a = le_nat (map (\<lambda>i. m (a + of_nat (4 + i))) [0..<4])"

definition lengths_ok :: "(u64 \<Rightarrow> u8) \<Rightarrow> bool" where
  "lengths_ok m \<longleftrightarrow> (\<forall>a. (sig4 m a \<in> {XSDT, RSDT} \<longrightarrow> 36 \<le> len_field m a) \<and>
     (sig4 m a = [0x41, 0x50, 0x49, 0x43] \<longrightarrow> 44 \<le> len_field m a))"

lemma byte_at_table: "v = p + hhdm ph \<Longrightarrow> byte_at ph v off = ram ph (p + of_nat off)"
  by (simp add: byte_at_def)

lemma len_field_bound: "len_field m a < 2 ^ 32"
  using le_nat_bound [of "map (\<lambda>i. m (a + of_nat (4 + i))) [0..<4]"] by (simp add: len_field_def)

text \<open>A header that has just been mapped: its signature and its length are read safely.\<close>

lemma header_read:
  assumes "map_table ph p 36 = (v, ph')"
  shows "read_bytes ph' 4 v 0 = Inr (sig4 (ram ph) p)"
    and "read_u32 ph' v 4 = Inr (of_nat (len_field (ram ph) p))"
  using map_table_in_map [OF assms]
  by (simp_all only: read_mapped(2) [of ph' v 36] read_mapped(4) [of ph' v 36] sig4_def len_field_def byte_at_def)
    (simp_all add: read_mapped sig4_def len_field_def byte_at_def)

lemma unat_len32 [simp]: "unat (of_nat (len_field m a) :: u32) = len_field m a"
  using len_field_bound [of m a] by (intro unat_of_nat_small) simp

lemma unat_len64 [simp]: "unat (ucast (of_nat (len_field m a) :: u32) :: u64) = len_field m a"
  by (simp add: unat_widen_32_64)

lemma map_table_obtain:
  obtains v ph' where "map_table ph p len = (v, ph')"
  by (cases "map_table ph p len") blast

lemma load_madt_safe:
  assumes "44 \<le> len_field (ram ph) madt_phys"
  shows "safe (load_madt bsp ph madt_phys)"
proof -
  obtain v1 ph1 where m1: "map_table ph madt_phys 36 = (v1, ph1)" by (rule map_table_obtain)
  let ?len = "of_nat (len_field (ram ph) madt_phys) :: u32"
  obtain v2 ph2 where m2: "map_table ph1 madt_phys (ucast ?len) = (v2, ph2)" by (rule map_table_obtain)
  have im: "in_map ph2 v2 (len_field (ram ph) madt_phys)"
    using map_table_in_map(1) [OF m2] len_field_bound by simp
  have "safe (read_u32 ph2 v2 36)" "safe (read_u32 ph2 v2 40)"
    using read_words_mapped(2) [OF im] assms by simp_all
  moreover have "safe (madt_walk ph2 v2 (len_field (ram ph) madt_phys) 44 t)" for t
    by (rule madt_walk_safe [OF im])
  ultimately show ?thesis
    by (simp add: load_madt_def m1 m2 header_read(2) [OF m1]) (intro safe_and_then; simp)
qed

lemma find_madt_returns:
  assumes "w = 8 \<or> w = 4"
  shows "in_map ph sdt (36 + (i + n) * w) \<Longrightarrow> \<exists>r ph'. find_madt ph sdt w i n = Inr (r, ph') \<and>
    ram ph' = ram ph \<and> hhdm ph' = hhdm ph \<and> (\<forall>p. r = Some p \<longrightarrow> sig4 (ram ph) p = [0x41, 0x50, 0x49, 0x43])"
proof (induction n arbitrary: ph i)
  case (Suc n)
  let ?rd = "if w = 8 then read_u64 ph sdt (36 + i * w) else and_then (read_u32 ph sdt (36 + i * w)) (\<lambda>v. Inr (ucast v))"
  have "36 + i * w + w \<le> 36 + (i + Suc n) * w" by simp
  then have "\<exists>q. ?rd = Inr q"
    using assms read_words_mapped(2,3) [OF Suc.prems, of "36 + i * w"] by auto
  then obtain q where q: "?rd = Inr q" by blast
  obtain v ph1 where m: "map_table ph q 36 = (v, ph1)" by (rule map_table_obtain)
  note mp = map_table_in_map [OF m, simplified]
  have step: "find_madt ph sdt w i (Suc n) =
      (if sig4 (ram ph) q = [0x41, 0x50, 0x49, 0x43] then Inr (Some q, ph1) else find_madt ph1 sdt w (i + 1) n)"
    using q by (simp add: Let_def m header_read(1) [OF m])
  have "in_map ph1 sdt (36 + (i + 1 + n) * w)" using mp(5) Suc.prems by simp
  from Suc.IH [OF this] show ?case unfolding step using mp(3,4) by auto
qed simp

text \<open>The division by the entry width leaves every entry inside the table.\<close>

lemma entry_count_fits:
  assumes "36 \<le> unat (len :: u64)" "w = 8 \<or> w = 4"
  shows "36 + unat ((len - 36) div of_nat w) * w \<le> unat len"
proof -
  have "unat (len - 36) = unat len - 36" using assms(1) by (subst unat_sub) (simp_all add: word_le_nat_alt)
  moreover have "unat (of_nat w :: u64) = w" using assms(2) by auto
  ultimately have "unat ((len - 36) div of_nat w) = (unat len - 36) div w" by (simp add: unat_div_distrib)
  then show ?thesis using assms(1) by (metis add.commute div_times_less_eq_dividend le_diff_conv2)
qed

lemma acpi_init_safe:
  assumes "lengths_ok (ram ph)"
  shows "safe (acpi_init bsp ph rsdp_addr)"
proof -
  obtain v1 ph1 where m1: "map_table ph (rsdp_phys_from (hhdm ph) rsdp_addr) 36 = (v1, ph1)" by (rule map_table_obtain)
  note im1 = map_table_in_map [OF m1, simplified]
  have walk: "safe (let (sdt, ph) = map_table ph1 sdt_phys 36
        in and_then (read_bytes ph 4 sdt 0) (\<lambda>sdt_signature.
           and_then (rust_assert (sdt_signature = (if w = 8 then XSDT else RSDT))) (\<lambda>_.
           and_then (read_u32 ph sdt 4) (\<lambda>len32.
             let sdt_length = ucast len32 :: usize;
                 (sdt, ph) = map_table ph sdt_phys sdt_length;
                 entry_count = (sdt_length - 36) div of_nat w
             in and_then (find_madt ph sdt w 0 (unat entry_count)) (\<lambda>(madt, ph).
                and_then (expect madt) (\<lambda>madt_phys. load_madt bsp ph madt_phys))))))"
    if w: "w = 8 \<or> w = 4" for sdt_phys w
  proof -
    obtain v2 ph2 where m2: "map_table ph1 sdt_phys 36 = (v2, ph2)" by (rule map_table_obtain)
    let ?len = "ucast (of_nat (len_field (ram ph1) sdt_phys) :: u32) :: u64"
    obtain v3 ph3 where m3: "map_table ph2 sdt_phys ?len = (v3, ph3)" by (rule map_table_obtain)
    have im3: "in_map ph3 v3 (unat ?len)" "ram ph3 = ram ph"
      using map_table_in_map [OF m3] map_table_in_map(3) [OF m2] im1(3) len_field_bound by simp_all
    let ?n = "unat ((?len - 36) div of_nat w)"
    show ?thesis
    proof (cases "sig4 (ram ph) sdt_phys = (if w = 8 then XSDT else RSDT)")
      case True
      then have "36 \<le> unat ?len" using assms im1(3) by (auto simp: lengths_ok_def split: if_splits)
      then have "in_map ph3 v3 (36 + (0 + ?n) * w)"
        using in_map_mono [OF im3(1) entry_count_fits [OF _ w]] by simp
      then obtain r ph4 where f: "find_madt ph3 v3 w 0 ?n = Inr (r, ph4)" "ram ph4 = ram ph"
        "\<forall>p. r = Some p \<longrightarrow> sig4 (ram ph) p = [0x41, 0x50, 0x49, 0x43]"
        using find_madt_returns [OF w] im3(2) by metis
      have "safe (load_madt bsp ph4 p)" if "r = Some p" for p
        using load_madt_safe [of ph4 p] f(2,3) that assms by (simp add: lengths_ok_def)
      then have "safe (and_then (expect r) (load_madt bsp ph4))" by (intro safe_and_then) auto
      with True m2 m3 f im1(3) show ?thesis by (simp add: header_read [OF m2])
    next
      case False
      then show ?thesis using m2 im1(3) by (simp add: header_read [OF m2])
    qed
  qed
  show ?thesis
    unfolding acpi_init_def m1 Let_def prod.case
  proof (rule safe_and_then, goal_cases)
    case 1 show ?case using read_bytes_mapped [OF im1(1)] by simp
  next
    case (2 sig)
    show ?case
    proof (rule safe_and_then, simp, rule safe_and_then, goal_cases)
      case 1 show ?case using read_u8_mapped [OF im1(1)] by simp
    next
      case (2 _ rev)
      show ?case
      proof (rule safe_and_then, goal_cases)
        case 1 show ?case using read_words_mapped [OF im1(1)] by (simp add: safe_and_then)
      next
        case (2 r)
        then have "snd r = 8 \<or> snd r = 4" by (auto simp: and_then_eq_Inr split: if_splits)
        from walk [OF this, of "fst r"] show ?case by (cases r) (simp add: Let_def)
      qed
    qed
  qed
qed

section \<open>Tables as firmware writes them\<close>

text \<open>MADT entries and their layout in the table.\<close>

datatype madt_item =
    Lapic cpu_info
  | Io_apic ioapic_info
  | Source_override irq_override
  | Other_item u8 "u8 list"

fun encode :: "madt_item \<Rightarrow> u8 list" where
  "encode (Lapic c) = [0, 8, acpi_processor_id c, cpu_apic_id c] @ le_bytes 4 (unat (cpu_flags c))"
| "encode (Io_apic i) = [1, 12, ioapic_id i, 0] @ le_bytes 4 (unat (ioapic_base i)) @ le_bytes 4 (unat (gsi_base i))"
| "encode (Source_override v) = [2, 10, ov_bus v, ov_source v] @ le_bytes 4 (unat (ov_gsi v)) @ le_bytes 2 (unat (ov_flags v))"
| "encode (Other_item ty payload) = [ty, of_nat (2 + length payload)] @ payload"

fun item_ok :: "madt_item \<Rightarrow> bool" where
  "item_ok (Other_item ty payload) = (ty \<notin> {0, 1, 2} \<and> length payload \<le> 253)"
| "item_ok _ = True"

fun add_item :: "madt_item \<Rightarrow> acpi_tables \<Rightarrow> acpi_tables" where
  "add_item (Lapic c) t = t\<lparr>acpi_cpus := acpi_cpus t @ [c]\<rparr>"
| "add_item (Io_apic i) t = t\<lparr>acpi_ioapics := acpi_ioapics t @ [i]\<rparr>"
| "add_item (Source_override v) t = t\<lparr>acpi_overrides := acpi_overrides t @ [v]\<rparr>"
| "add_item (Other_item ty payload) t = t"

definition madt_table :: "u32 \<Rightarrow> u8 list \<Rightarrow> u32 \<Rightarrow> madt_item list \<Rightarrow> u8 list" where
  "madt_table lapic_base rest flags items =
     (let body = concat (map encode items)
      in [0x41, 0x50, 0x49, 0x43] @ le_bytes 4 (44 + length body) @ take 28 (rest @ replicate 28 0) @
         le_bytes 4 (unat lapic_base) @ le_bytes 4 (unat flags) @ body)"

text \<open>The bytes behind the virtual address \<open>base\<close> are the list \<open>bs\<close>, and they are mapped.\<close>

definition table_at :: "phys \<Rightarrow> u64 \<Rightarrow> u8 list \<Rightarrow> bool" where
  "table_at ph base bs \<longleftrightarrow> in_map ph base (length bs) \<and> (\<forall>i < length bs. byte_at ph base i = bs ! i)"

lemma read_table:
  assumes "table_at ph base bs"
  shows "off < length bs \<Longrightarrow> read_u8 ph base off = Inr (bs ! off)"
    and "off + 2 \<le> length bs \<Longrightarrow> read_u16 ph base off = Inr (of_nat (le_nat (take 2 (drop off bs))))"
    and "off + 4 \<le> length bs \<Longrightarrow> read_u32 ph base off = Inr (of_nat (le_nat (take 4 (drop off bs))))"
proof -
  have im: "in_map ph base (length bs)" and b: "\<forall>i < length bs. byte_at ph base i = bs ! i"
    using assms by (auto simp: table_at_def)
  have bytes: "map (\<lambda>i. byte_at ph base (off + i)) [0..<k] = take k (drop off bs)" if "off + k \<le> length bs" for k
    using that b by (intro nth_equalityI) auto
  show "read_u8 ph base off = Inr (bs ! off)" if "off < length bs"
    using that b read_u8_mapped [OF im] by simp
  show "read_u16 ph base off = Inr (of_nat (le_nat (take 2 (drop off bs))))" if "off + 2 \<le> length bs"
    unfolding read_words_mapped(1) [OF im that] bytes [OF that] ..
  show "read_u32 ph base off = Inr (of_nat (le_nat (take 4 (drop off bs))))" if "off + 4 \<le> length bs"
    unfolding read_words_mapped(2) [OF im that] bytes [OF that] ..
qed

text \<open>Reads inside one entry, at a cursor that stands at its start.\<close>

lemma read_entry:
  assumes "table_at ph base (pre @ enc @ post)"
  shows "k < length enc \<Longrightarrow> read_u8 ph base (length pre + k) = Inr (enc ! k)"
    and "k + 2 \<le> length enc \<Longrightarrow> read_u16 ph base (length pre + k) = Inr (of_nat (le_nat (take 2 (drop k enc))))"
    and "k + 4 \<le> length enc \<Longrightarrow> read_u32 ph base (length pre + k) = Inr (of_nat (le_nat (take 4 (drop k enc))))"
  using read_table [OF assms, of "length pre + k"] by (simp_all add: nth_append)

lemma le_word:
  "(of_nat (unat w mod 4294967296) :: u32) = w" "(of_nat (unat v mod 65536) :: u16) = v"
  using unat_bound [of w] unat_bound [of v] by simp_all

lemma madt_entry_encode:
  assumes "table_at ph base (pre @ encode it @ post)" "item_ok it"
  shows "madt_entry ph base (length pre) (encode it ! 0) (length (encode it)) t = Inr (add_item it t)"
proof -
  note rd = read_entry(1) [OF assms(1), of 2] read_entry(1) [OF assms(1), of 3] read_entry(3) [OF assms(1), of 4]
    read_entry(3) [OF assms(1), of 8] read_entry(2) [OF assms(1), of 8]
  show ?thesis
  proof (cases it)
    case (Lapic c)
    with rd show ?thesis by (cases c) (simp add: madt_entry_def le_word)
  next
    case (Io_apic i)
    with rd show ?thesis by (cases i) (simp add: madt_entry_def le_word)
  next
    case (Source_override v)
    with rd show ?thesis by (cases v) (simp add: madt_entry_def le_word)
  next
    case (Other_item ty payload)
    with assms(2) show ?thesis by (simp add: madt_entry_def)
  qed
qed

lemma encode_length: "item_ok it \<Longrightarrow> unat (encode it ! 1) = length (encode it) \<and> 2 \<le> length (encode it)"
proof (cases it)
  case (Other_item ty payload)
  moreover assume "item_ok it"
  ultimately have "unat (of_nat (2 + length payload) :: u8) = 2 + length payload"
    by (intro unat_of_nat_small) simp
  then show ?thesis using Other_item by simp
qed auto

lemma madt_walk_items:
  assumes "\<forall>it \<in> set items. item_ok it" "table_at ph base (pre @ concat (map encode items))"
  shows "madt_walk ph base (length (pre @ concat (map encode items))) (length pre) t = Inr (fold add_item items t)"
  using assms
proof (induction items arbitrary: pre t)
  case Nil
  then show ?case by (subst madt_walk.simps) simp
next
  case (Cons it items)
  let ?post = "concat (map encode items)"
  have ok: "item_ok it" "\<forall>it \<in> set items. item_ok it" using Cons.prems(1) by auto
  have tab: "table_at ph base (pre @ encode it @ ?post)" using Cons.prems(2) by simp
  note len = encode_length [OF ok(1)]
  have rd: "read_u8 ph base (length pre) = Inr (encode it ! 0)" "read_u8 ph base (length pre + 1) = Inr (encode it ! 1)"
    using read_entry(1) [OF tab, of 0] read_entry(1) [OF tab, of 1] len by (fastforce simp del: encode.simps)+
  have "madt_walk ph base (length (pre @ encode it @ ?post)) (length pre) t =
      madt_walk ph base (length (pre @ encode it @ ?post)) (length pre + length (encode it)) (add_item it t)"
    using rd len madt_entry_encode [OF tab ok(1), of t] by (subst madt_walk.simps) (simp add: Let_def)
  also have "\<dots> = Inr (fold add_item items (add_item it t))"
    using Cons.IH [OF ok(2), of "pre @ encode it" "add_item it t"] tab by simp
  finally show ?case by simp
qed

text \<open>A table in physical memory is what a mapping of it shows.\<close>

definition ram_at :: "phys \<Rightarrow> u64 \<Rightarrow> u8 list \<Rightarrow> bool" where
  "ram_at ph p bs \<longleftrightarrow> (\<forall>i < length bs. ram ph (p + of_nat i) = bs ! i)"

lemma table_at_mapped:
  assumes "ram_at ph p bs" "map_table ph p len = (v, ph')" "unat len = length bs" "length bs < 2 ^ 32"
  shows "table_at ph' v bs"
  using assms map_table_in_map [OF assms(2)] by (simp add: table_at_def ram_at_def byte_at_def)

lemma len_field_madt:
  assumes "ram_at ph p (madt_table lapic_base rest flags items)"
    and "length (madt_table lapic_base rest flags items) < 2 ^ 32"
  shows "len_field (ram ph) p = length (madt_table lapic_base rest flags items)"
proof -
  let ?bs = "madt_table lapic_base rest flags items"
  have len: "length ?bs = 44 + length (concat (map encode items))"
    by (simp add: madt_table_def Let_def)
  have "map (\<lambda>i. ram ph (p + of_nat (4 + i))) [0..<4] = take 4 (drop 4 ?bs)"
    using assms(1) [unfolded ram_at_def, rule_format, of "4 + _"] len by (intro nth_equalityI) simp_all
  also have "\<dots> = le_bytes 4 (length ?bs)" unfolding len by (simp add: madt_table_def Let_def)
  finally show ?thesis using assms(2) by (simp add: len_field_def)
qed

lemma load_madt_items:
  assumes "ram_at ph p (madt_table lapic_base rest flags items)" "\<forall>it \<in> set items. item_ok it"
    and "length (madt_table lapic_base rest flags items) < 2 ^ 32"
    and "\<exists>c. Lapic c \<in> set items \<and> cpu_apic_id c = bsp"
  shows "\<exists>ph'. load_madt bsp ph p = Inr (fold add_item items (no_tables lapic_base), ph')"
proof -
  let ?bs = "madt_table lapic_base rest flags items" and ?body = "concat (map encode items)"
  obtain v1 ph1 where m1: "map_table ph p 36 = (v1, ph1)" by (rule map_table_obtain)
  note len = len_field_madt [OF assms(1,3)]
  let ?len = "of_nat (len_field (ram ph) p) :: u32"
  obtain v2 ph2 where m2: "map_table ph1 p (ucast ?len) = (v2, ph2)" by (rule map_table_obtain)
  have "ram ph1 = ram ph" using map_table_in_map(3) [OF m1] by simp
  then have "ram_at ph1 p ?bs" using assms(1) by (simp add: ram_at_def)
  moreover have "unat (ucast ?len :: u64) = length ?bs" by (simp only: unat_len64) (rule len)
  ultimately have tab: "table_at ph2 v2 ?bs" using table_at_mapped [OF _ m2] assms(3) by blast
  obtain hdr where hdr: "?bs = hdr @ le_bytes 4 (unat lapic_base) @ le_bytes 4 (unat flags) @ ?body" "length hdr = 36"
    by (simp add: madt_table_def Let_def)
  have lapic: "read_u32 ph2 v2 36 = Inr lapic_base"
    using read_entry(3) [of ph2 v2 hdr "le_bytes 4 (unat lapic_base)" _ 0] tab hdr by (simp add: le_word)
  have fl: "safe (read_u32 ph2 v2 40)" "\<exists>x. read_u32 ph2 v2 40 = Inr x"
    using read_table(3) [OF tab, of 40] hdr by simp_all
  let ?pre = "hdr @ le_bytes 4 (unat lapic_base) @ le_bytes 4 (unat flags)"
  have "table_at ph2 v2 (?pre @ ?body)" using tab hdr(1) by simp
  from madt_walk_items [OF assms(2) this, of "no_tables lapic_base"]
  have walk: "madt_walk ph2 v2 (len_field (ram ph) p) 44 (no_tables lapic_base) = Inr (fold add_item items (no_tables lapic_base))"
    using hdr len by simp
  have cpus: "acpi_cpus (fold add_item items t) = acpi_cpus t @ concat (map (\<lambda>it. case it of Lapic c \<Rightarrow> [c] | _ \<Rightarrow> []) items)" for t
  proof (induction items arbitrary: t)
    case (Cons it items) then show ?case by (cases it) auto
  qed simp
  have "list_ex (\<lambda>c. cpu_apic_id c = bsp) (acpi_cpus (fold add_item items (no_tables lapic_base)))"
    using assms(4) unfolding cpus list_ex_iff by force
  then show ?thesis
    using fl walk lapic by (auto simp: load_madt_def m1 m2 header_read(2) [OF m1])
qed

section \<open>Properties\<close>


text \<open>
  C28. The MADT is parsed back exactly: for a table laid out in memory from any sequence of
  processor, I/O APIC, override and other entries that lists the boot processor, the parser
  returns those processors, I/O APICs and overrides in order with the local APIC base, and skips
  the other entries.
\<close>

theorem madt_parse_roundtrip:
  assumes "ram_at ph p (madt_table lapic_base rest flags items)" "\<forall>it \<in> set items. item_ok it"
    and "length (madt_table lapic_base rest flags items) < 2 ^ 32"
    and "\<exists>c. Lapic c \<in> set items \<and> cpu_apic_id c = bsp"
  shows "\<exists>t ph'. load_madt bsp ph p = Inr (t, ph') \<and> local_apic_base t = lapic_base \<and>
    acpi_cpus t = [c. Lapic c \<leftarrow> items] \<and> acpi_ioapics t = [i. Io_apic i \<leftarrow> items] \<and>
    acpi_overrides t = [v. Source_override v \<leftarrow> items]"
proof -
  have "acpi_cpus (fold add_item items t) = acpi_cpus t @ [c. Lapic c \<leftarrow> items] \<and>
      acpi_ioapics (fold add_item items t) = acpi_ioapics t @ [i. Io_apic i \<leftarrow> items] \<and>
      acpi_overrides (fold add_item items t) = acpi_overrides t @ [v. Source_override v \<leftarrow> items] \<and>
      local_apic_base (fold add_item items t) = local_apic_base t" for t
  proof (induction items arbitrary: t)
    case (Cons it items) then show ?case by (cases it) auto
  qed simp
  then show ?thesis using load_madt_items [OF assms] by (auto simp: no_tables_def)
qed

section \<open>Witnesses\<close>

definition demo_items :: "madt_item list" where
  "demo_items = [Lapic \<lparr>acpi_processor_id = 0, cpu_apic_id = 0, cpu_flags = 1\<rparr>, Other_item 4 [0xFF, 0, 0, 1],
     Io_apic \<lparr>ioapic_id = 0, ioapic_base = 0xFEC00000, gsi_base = 0\<rparr>,
     Source_override \<lparr>ov_bus = 0, ov_source = 0, ov_gsi = 2, ov_flags = 0\<rparr>]"

definition demo_madt :: "u8 list" where
  "demo_madt = madt_table 0xFEE00000 [] 1 demo_items"

definition demo_ram :: phys where
  "demo_ram = \<lparr>ram = (\<lambda>a. if unat a < length demo_madt then demo_madt ! unat a else 0), hhdm = 0xFFFF800000000000, mapped = []\<rparr>"

lemma demo_madt_length: "length demo_madt = 80"
  by (simp add: demo_madt_def madt_table_def demo_items_def Let_def)

lemma demo_ram_at: "ram_at demo_ram 0 demo_madt"
  by (simp add: ram_at_def demo_ram_def demo_madt_length unat_of_nat_small)

theorem madt_parse_roundtrip_witness:
  "\<exists>t ph'. load_madt 0 demo_ram 0 = Inr (t, ph') \<and> acpi_ioapics t = [\<lparr>ioapic_id = 0, ioapic_base = 0xFEC00000, gsi_base = 0\<rparr>]"
proof -
  have "\<forall>it \<in> set demo_items. item_ok it" "\<exists>c. Lapic c \<in> set demo_items \<and> cpu_apic_id c = 0"
    by (auto simp: demo_items_def)
  moreover have "[i. Io_apic i \<leftarrow> demo_items] = [\<lparr>ioapic_id = 0, ioapic_base = 0xFEC00000, gsi_base = 0\<rparr>]"
    by (simp add: demo_items_def)
  moreover have "length (madt_table 0xFEE00000 [] 1 demo_items) < 2 ^ 32"
    using demo_madt_length by (simp add: demo_madt_def)
  ultimately show ?thesis
    using madt_parse_roundtrip [OF demo_ram_at [unfolded demo_madt_def], of 0] by metis
qed

lemma zero_lengths_ok: "lengths_ok (\<lambda>_. 0)"
  by (simp add: lengths_ok_def sig4_def XSDT_def RSDT_def upt_rec)


end
