(* ===== verification/Ioapic.thy ===== *)
theory Ioapic
  imports Acpi
begin

unbundle bit_operations_syntax

text \<open>
  The I/O APIC, arsenal-kernel/src/ioapic.rs, and the keyboard's use of it in kbd.rs: init masks
  every redirection entry, program routes one interrupt. The chip is its register file, which is
  reached through the select register and the data window.
\<close>

section \<open>Model\<close>

definition IOAPIC_REG_VER :: u32 where "IOAPIC_REG_VER = 1"
definition IOREDTBL_BASE :: u32 where "IOREDTBL_BASE = 0x10"
definition IOREDTBL_MASKED :: u32 where "IOREDTBL_MASKED = push_bit 16 1"

record ioapic =
  ioregsel :: u32
  regs :: "u32 \<Rightarrow> u32"
  base_virt :: usize
  chip_gsi_base :: u32
  redir_count :: u32

definition read_unlocked :: "u32 \<Rightarrow> ioapic \<Rightarrow> u32 \<times> ioapic" where
  "read_unlocked reg a = (let a = a\<lparr>ioregsel := reg\<rparr> in (regs a (ioregsel a), a))"

definition write_unlocked :: "u32 \<Rightarrow> u32 \<Rightarrow> ioapic \<Rightarrow> ioapic" where
  "write_unlocked reg val a = (let a = a\<lparr>ioregsel := reg\<rparr> in a\<lparr>regs := (regs a)(ioregsel a := val)\<rparr>)"

text \<open>The loop of init: set the mask bit in the low half of an entry, keep the rest.\<close>

definition mask_entry :: "nat \<Rightarrow> ioapic \<Rightarrow> ioapic" where
  "mask_entry n a =
     (let low_reg = IOREDTBL_BASE + 2 * of_nat n;
          (existing, a) = read_unlocked low_reg a
      in write_unlocked low_reg (existing OR IOREDTBL_MASKED) a)"

definition ioapic_init :: "u64 \<Rightarrow> ioapic_info list \<Rightarrow> ioapic \<Rightarrow> ioapic outcome" where
  "ioapic_init off ioapics a =
     (case ioapics of
        [] \<Rightarrow> Inl Panic
      | info # _ \<Rightarrow>
          let a = a\<lparr>base_virt := ucast (ioapic_base info) + off, chip_gsi_base := gsi_base info\<rparr>;
              (ver, a) = read_unlocked IOAPIC_REG_VER a;
              max_redir = drop_bit 16 ver AND 0xFF;
              entry_count = max_redir + 1;
              a = a\<lparr>redir_count := entry_count\<rparr>
          in Inr (fold mask_entry [0..<unat entry_count] a))"

definition program :: "u32 \<Rightarrow> u8 \<Rightarrow> u8 \<Rightarrow> ioapic \<Rightarrow> ioapic outcome" where
  "program gsi vector target_apic_id a =
     and_then (rust_assert (gsi \<ge> chip_gsi_base a \<and> gsi < chip_gsi_base a + redir_count a)) (\<lambda>_.
       let entry = gsi - chip_gsi_base a;
           low_reg = IOREDTBL_BASE + 2 * entry;
           high_reg = low_reg + 1;
           low = ucast vector;
           high = push_bit 24 (ucast target_apic_id)
       in Inr (write_unlocked low_reg low (write_unlocked high_reg high a)))"

text \<open>kbd::init\_irq routes the keyboard.\<close>

definition KEYBOARD_ISA_IRQ :: u8 where "KEYBOARD_ISA_IRQ = 1"
definition KEYBOARD_VECTOR :: u8 where "KEYBOARD_VECTOR = 0x21"

definition kbd_gsi :: "acpi_tables option \<Rightarrow> u32" where
  "kbd_gsi ts = (case irq_override_for ts KEYBOARD_ISA_IRQ of
     Some v \<Rightarrow> ov_gsi v | None \<Rightarrow> ucast KEYBOARD_ISA_IRQ)"

definition kbd_init_irq :: "u8 \<Rightarrow> acpi_tables option \<Rightarrow> ioapic \<Rightarrow> ioapic outcome" where
  "kbd_init_irq bsp ts a = program (kbd_gsi ts) KEYBOARD_VECTOR bsp a"

section \<open>Redirection entries\<close>

definition low_of :: "ioapic \<Rightarrow> nat \<Rightarrow> u32" where
  "low_of a n = regs a (IOREDTBL_BASE + 2 * of_nat n)"

definition high_of :: "ioapic \<Rightarrow> nat \<Rightarrow> u32" where
  "high_of a n = regs a (IOREDTBL_BASE + 2 * of_nat n + 1)"

definition masked :: "ioapic \<Rightarrow> nat \<Rightarrow> bool" where
  "masked a n \<longleftrightarrow> low_of a n AND IOREDTBL_MASKED \<noteq> 0"

lemma unat_low_reg: "n < 256 \<Longrightarrow> unat (IOREDTBL_BASE + 2 * of_nat n) = 16 + 2 * n"
  by (simp add: IOREDTBL_BASE_def unat_word_ariths unat_of_nat)

lemma unat_high_reg: "n < 256 \<Longrightarrow> unat (IOREDTBL_BASE + 2 * of_nat n + 1) = 17 + 2 * n"
  using unat_low_reg [of n] by (simp add: unat_word_ariths)

lemma redir_regs_distinct:
  assumes "n < 256" "m < 256"
  shows "IOREDTBL_BASE + 2 * of_nat n = IOREDTBL_BASE + 2 * of_nat m \<longleftrightarrow> n = m"
    and "IOREDTBL_BASE + 2 * of_nat n \<noteq> IOREDTBL_BASE + 2 * of_nat m + 1"
    and "IOREDTBL_BASE + 2 * of_nat m + 1 \<noteq> IOREDTBL_BASE + 2 * of_nat n"
    and "IOREDTBL_BASE + 2 * of_nat n + 1 = IOREDTBL_BASE + 2 * of_nat m + 1 \<longleftrightarrow> n = m"
  using unat_low_reg [OF assms(1)] unat_low_reg [OF assms(2)] unat_high_reg [OF assms(1)] unat_high_reg [OF assms(2)]
  by (auto simp flip: unat_cancel) presburger+

lemma masked_or: "(x OR IOREDTBL_MASKED) AND IOREDTBL_MASKED \<noteq> 0"
proof
  assume "(x OR IOREDTBL_MASKED) AND IOREDTBL_MASKED = 0"
  then have "bit ((x OR IOREDTBL_MASKED) AND IOREDTBL_MASKED) 16 = bit 0 16" by simp
  then show False unfolding IOREDTBL_MASKED_def bit_and_iff bit_or_iff bit_push_bit_iff by simp
qed

lemma mask_entry_other_fields [simp]:
  "redir_count (mask_entry n a) = redir_count a" "chip_gsi_base (mask_entry n a) = chip_gsi_base a"
  "redir_count (fold mask_entry ns a) = redir_count a" "chip_gsi_base (fold mask_entry ns a) = chip_gsi_base a"
  by (induction ns arbitrary: a) (simp_all add: mask_entry_def read_unlocked_def write_unlocked_def Let_def)

lemma mask_entry_low:
  assumes "n < 256" "m < 256"
  shows "low_of (mask_entry n a) m = (if m = n then low_of a m OR IOREDTBL_MASKED else low_of a m)"
    and "high_of (mask_entry n a) m = high_of a m"
  using redir_regs_distinct [OF assms] redir_regs_distinct [OF assms(2,1)]
  by (auto simp: low_of_def high_of_def mask_entry_def read_unlocked_def write_unlocked_def Let_def)

lemma fold_mask_entry:
  assumes "\<forall>n \<in> set ns. n < 256" "m < 256"
  shows "low_of (fold mask_entry ns a) m = (if m \<in> set ns then low_of a m OR IOREDTBL_MASKED else low_of a m)"
    and "high_of (fold mask_entry ns a) m = high_of a m"
  using assms by (induction ns arbitrary: a) (auto simp: mask_entry_low or.assoc)

lemma entry_count_bound: "unat ((drop_bit 16 ver AND 0xFF) + 1 :: u32) \<le> 256" "0 < unat ((drop_bit 16 ver AND 0xFF) + 1 :: u32)"
proof -
  have "(0xFF :: u32) = mask 8" by (simp add: mask_eq_exp_minus_1)
  then have "unat (drop_bit 16 ver AND 0xFF :: u32) = unat (drop_bit 16 ver) mod 256"
    by (simp only: flip: take_bit_eq_mask) (simp add: unat_take_bit_word)
  then have "unat (drop_bit 16 ver AND 0xFF :: u32) < 256" by simp
  moreover from this have "unat ((drop_bit 16 ver AND 0xFF) + 1 :: u32) = unat (drop_bit 16 ver AND 0xFF :: u32) + 1"
    by (subst unat_add_noof) simp_all
  ultimately show "unat ((drop_bit 16 ver AND 0xFF) + 1 :: u32) \<le> 256" "0 < unat ((drop_bit 16 ver AND 0xFF) + 1 :: u32)"
    by linarith+
qed

lemma ioapic_init_masks:
  assumes "ioapic_init off ioapics a = Inr a'"
  shows "unat (redir_count a') \<le> 256" "\<forall>n < unat (redir_count a'). masked a' n"
    and "chip_gsi_base a' = gsi_base (hd ioapics)"
proof -
  obtain info rest where io: "ioapics = info # rest" using assms by (cases ioapics) (auto simp: ioapic_init_def)
  define c where "c = (drop_bit 16 (regs a IOAPIC_REG_VER) AND 0xFF) + 1"
  define b where "b = a\<lparr>base_virt := ucast (ioapic_base info) + off, chip_gsi_base := gsi_base info,
    ioregsel := IOAPIC_REG_VER, redir_count := c\<rparr>"
  have a': "a' = fold mask_entry [0..<unat c] b"
    using assms by (simp add: io ioapic_init_def read_unlocked_def Let_def b_def c_def)
  have c: "unat c \<le> 256" using entry_count_bound(1) by (simp add: c_def)
  then show "unat (redir_count a') \<le> 256" by (simp add: a' b_def)
  show "chip_gsi_base a' = gsi_base (hd ioapics)" by (simp add: a' b_def io)
  show "\<forall>n < unat (redir_count a'). masked a' n"
    using c fold_mask_entry(1) [of "[0..<unat c]" _ b] masked_or by (simp add: masked_def a' b_def)
qed

lemma gsi_entry:
  assumes "b \<le> gsi" "gsi < b + (c :: u32)"
  shows "unat (gsi - b) < unat c"
proof -
  have "unat (gsi - b) = unat gsi - unat b" using assms(1) by (rule unat_sub)
  moreover have "unat (b + c) \<le> unat b + unat c" by (simp add: unat_word_ariths)
  ultimately show ?thesis using assms by (simp add: word_le_nat_alt word_less_nat_alt)
qed

lemma program_entry:
  assumes "b = chip_gsi_base a" "b \<le> gsi" "gsi < b + redir_count a" "unat (redir_count a) \<le> 256"
  defines "n \<equiv> unat (gsi - b)"
  obtains a' where "program gsi vec target a = Inr a'" "redir_count a' = redir_count a"
    "low_of a' n = ucast vec" "high_of a' n = push_bit 24 (ucast target)"
    "\<And>m. m < 256 \<Longrightarrow> m \<noteq> n \<Longrightarrow> low_of a' m = low_of a m \<and> high_of a' m = high_of a m"
proof -
  have n: "n < 256" using gsi_entry [OF assms(2,3)] assms(4) by (simp add: n_def)
  let ?low = "IOREDTBL_BASE + 2 * of_nat n"
  let ?a = "write_unlocked ?low (ucast vec) (write_unlocked (?low + 1) (push_bit 24 (ucast target)) a)"
  have "program gsi vec target a = Inr ?a"
    using assms(1-3) by (simp add: program_def Let_def n_def)
  moreover have "redir_count ?a = redir_count a" "low_of ?a n = ucast vec" "high_of ?a n = push_bit 24 (ucast target)"
    using redir_regs_distinct [OF n n] by (simp_all add: write_unlocked_def low_of_def high_of_def Let_def)
  moreover have "low_of ?a m = low_of a m \<and> high_of ?a m = high_of a m" if "m < 256" "m \<noteq> n" for m
    using redir_regs_distinct [OF n that(1)] redir_regs_distinct [OF that(1) n] that(2)
    by (simp add: write_unlocked_def low_of_def high_of_def Let_def)
  ultimately show thesis using that by blast
qed

section \<open>Properties\<close>

text \<open>
  Exactly the keyboard is routed: after ioapic::init and kbd::init\_irq, the redirection entry
  of the keyboard's GSI (the MADT override of ISA interrupt 1, or 1 itself) delivers vector
  0x21 to the boot processor, and every other entry of the chip is masked; a GSI outside the chip
  panics and leaves every entry masked.
\<close>

theorem keyboard_routed:
  assumes "ioapic_init off ioapics a = Inr a\<^sub>1"
  shows "if gsi_base (hd ioapics) \<le> kbd_gsi ts \<and> kbd_gsi ts < gsi_base (hd ioapics) + redir_count a\<^sub>1
    then \<exists>a\<^sub>2. kbd_init_irq bsp ts a\<^sub>1 = Inr a\<^sub>2 \<and>
      (\<forall>m. m < unat (redir_count a\<^sub>1) \<longrightarrow> masked a\<^sub>2 m = (m \<noteq> unat (kbd_gsi ts - gsi_base (hd ioapics)))) \<and>
      low_of a\<^sub>2 (unat (kbd_gsi ts - gsi_base (hd ioapics))) = 0x21 \<and>
      high_of a\<^sub>2 (unat (kbd_gsi ts - gsi_base (hd ioapics))) = push_bit 24 (ucast bsp)
    else kbd_init_irq bsp ts a\<^sub>1 = Inl Panic \<and> (\<forall>m. m < unat (redir_count a\<^sub>1) \<longrightarrow> masked a\<^sub>1 m)"
proof (cases "gsi_base (hd ioapics) \<le> kbd_gsi ts \<and> kbd_gsi ts < gsi_base (hd ioapics) + redir_count a\<^sub>1")
  case True
  note init = ioapic_init_masks [OF assms]
  obtain a2 where a2: "program (kbd_gsi ts) KEYBOARD_VECTOR bsp a\<^sub>1 = Inr a2"
    "low_of a2 (unat (kbd_gsi ts - gsi_base (hd ioapics))) = ucast KEYBOARD_VECTOR"
    "high_of a2 (unat (kbd_gsi ts - gsi_base (hd ioapics))) = push_bit 24 (ucast bsp)"
    "\<And>m. m < 256 \<Longrightarrow> m \<noteq> unat (kbd_gsi ts - gsi_base (hd ioapics)) \<Longrightarrow> low_of a2 m = low_of a\<^sub>1 m \<and> high_of a2 m = high_of a\<^sub>1 m"
    using program_entry [OF init(3) [symmetric], of "kbd_gsi ts" KEYBOARD_VECTOR bsp] True init(1) by blast
  have "masked a2 m = (m \<noteq> unat (kbd_gsi ts - gsi_base (hd ioapics)))" if "m < unat (redir_count a\<^sub>1)" for m
    using a2(2) a2(4) [of m] init(1,2) that
    by (cases "m = unat (kbd_gsi ts - gsi_base (hd ioapics))")
      (auto simp: masked_def KEYBOARD_VECTOR_def IOREDTBL_MASKED_def)
  with a2 True show ?thesis by (auto simp: kbd_init_irq_def KEYBOARD_VECTOR_def)
next
  case False
  with ioapic_init_masks [OF assms] show ?thesis by (auto simp: kbd_init_irq_def program_def rust_assert_def)
qed

section \<open>Witnesses\<close>

definition demo_chip :: ioapic where
  "demo_chip = \<lparr>ioregsel = 0, regs = (\<lambda>r. if r = 1 then 0x00170020 else 0), base_virt = 0, chip_gsi_base = 0, redir_count = 0\<rparr>"

definition demo_io :: "ioapic_info list" where
  "demo_io = [\<lparr>ioapic_id = 0, ioapic_base = 0xFEC00000, gsi_base = 0\<rparr>]"

theorem keyboard_routed_witness:
  "\<exists>a\<^sub>1 a\<^sub>2. ioapic_init 0xFFFF800000000000 demo_io demo_chip = Inr a\<^sub>1 \<and> kbd_init_irq 0 None a\<^sub>1 = Inr a\<^sub>2 \<and> low_of a\<^sub>2 1 = 0x21"
proof -
  obtain a1 where a1: "ioapic_init 0xFFFF800000000000 demo_io demo_chip = Inr a1" "redir_count a1 = 24"
    by (simp add: ioapic_init_def demo_io_def demo_chip_def read_unlocked_def IOAPIC_REG_VER_def Let_def)
  have "kbd_gsi None = 1" by (simp add: kbd_gsi_def irq_override_for_def KEYBOARD_ISA_IRQ_def)
  then show ?thesis
    using keyboard_routed [OF a1(1), of None 0] a1 by (auto simp: demo_io_def)
qed

end
