(* ===== verification/Pci.thy ===== *)
theory Pci
  imports Prelude
begin

unbundle bit_operations_syntax

text \<open>
  PCI configuration access and discovery, arsenal-kernel/src/pci.rs. The configuration space
  behind the port pair CF8/CFC is a function from the address written to CF8 to the dword read at
  CFC; a write to CFC updates it at the selected address. The theory shows that different
  registers have different addresses, what the brute-force scan counts, and that the bounded
  capability walk finds the MSI-X capability of every list it can hold.
\<close>

section \<open>Model\<close>

definition VIRTIO_VENDOR :: u16 where "VIRTIO_VENDOR = 0x1AF4"
definition PCI_CAP_ID_MSIX :: u8 where "PCI_CAP_ID_MSIX = 0x11"
definition STATUS_CAP_LIST :: u32 where "STATUS_CAP_LIST = push_bit 20 1"
definition CFG_CAPS_PTR :: u8 where "CFG_CAPS_PTR = 0x34"
definition MSIX_CTRL_TABLE_SIZE_MASK :: u16 where "MSIX_CTRL_TABLE_SIZE_MASK = 0x07FF"

record bdf =
  bus :: u8
  dev :: u8
  func :: u8

record msix =
  msix_bdf :: bdf
  cap_offset :: u8
  table_size :: u32
  table_bar :: u8
  table_offset :: u32
  pba_bar :: u8
  pba_offset :: u32

type_synonym config_space = "u32 \<Rightarrow> u32"

definition config_addr :: "u8 \<Rightarrow> u8 \<Rightarrow> u8 \<Rightarrow> u8 \<Rightarrow> u32" where
  "config_addr b d f off =
     push_bit 31 1 OR push_bit 16 (ucast b) OR push_bit 11 (ucast d AND 0x1F) OR
     push_bit 8 (ucast f AND 0x07) OR (ucast off AND 0xFC)"

definition config_read32 :: "config_space \<Rightarrow> u8 \<Rightarrow> u8 \<Rightarrow> u8 \<Rightarrow> u8 \<Rightarrow> u32" where
  "config_read32 cfg b d f off = cfg (config_addr b d f off)"

definition config_write32 :: "u8 \<Rightarrow> u8 \<Rightarrow> u8 \<Rightarrow> u8 \<Rightarrow> u32 \<Rightarrow> config_space \<Rightarrow> config_space" where
  "config_write32 b d f off val cfg = cfg(config_addr b d f off := val)"

definition bar_address :: "config_space \<Rightarrow> u8 \<Rightarrow> u8 \<Rightarrow> u8 \<Rightarrow> u8 \<Rightarrow> u64" where
  "bar_address cfg b d f bar =
     (let lo = config_read32 cfg b d f (0x10 + bar * 4)
      in if lo AND 1 \<noteq> 0 then 0
         else if lo AND 6 = 4
         then let hi = config_read32 cfg b d f (0x10 + (bar + 1) * 4)
              in push_bit 32 (ucast hi) OR ucast (lo AND 0xFFFFFFF0)
         else ucast (lo AND 0xFFFFFFF0))"

text \<open>The loop of the capability walk, with the number of rounds left.\<close>

fun msix_walk :: "config_space \<Rightarrow> u8 \<Rightarrow> u8 \<Rightarrow> u8 \<Rightarrow> nat \<Rightarrow> u8 \<Rightarrow> msix option" where
  "msix_walk cfg b d f 0 cap = None"
| "msix_walk cfg b d f (Suc n) cap =
     (if cap = 0 then None
      else let cap_header = config_read32 cfg b d f cap;
               cap_id = ucast (cap_header AND 0xFF) :: u8;
               next = ucast (drop_bit 8 cap_header AND 0xFC) :: u8
           in if cap_id = PCI_CAP_ID_MSIX
              then let msg_ctrl = ucast (drop_bit 16 cap_header AND 0xFFFF) :: u16;
                       table_dword = config_read32 cfg b d f (cap + 4);
                       pba_dword = config_read32 cfg b d f (cap + 8)
                   in Some \<lparr>msix_bdf = \<lparr>bus = b, dev = d, func = f\<rparr>, cap_offset = cap,
                        table_size = ucast (msg_ctrl AND MSIX_CTRL_TABLE_SIZE_MASK) + 1,
                        table_bar = ucast (table_dword AND 7), table_offset = table_dword AND NOT 7,
                        pba_bar = ucast (pba_dword AND 7), pba_offset = pba_dword AND NOT 7\<rparr>
              else msix_walk cfg b d f n next)"

definition msix_info :: "config_space \<Rightarrow> u8 \<Rightarrow> u8 \<Rightarrow> u8 \<Rightarrow> msix option" where
  "msix_info cfg b d f =
     (if config_read32 cfg b d f 0x04 AND STATUS_CAP_LIST = 0 then None
      else msix_walk cfg b d f 64 (ucast (config_read32 cfg b d f CFG_CAPS_PTR AND 0xFC)))"

text \<open>print\_function reports whether the function is a virtio device; the log line is left out.\<close>

definition print_function :: "config_space \<Rightarrow> u8 \<Rightarrow> u8 \<Rightarrow> u8 \<Rightarrow> bool" where
  "print_function cfg b d f =
     (let vendor = ucast (config_read32 cfg b d f 0 AND 0xFFFF) :: u16 in vendor = VIRTIO_VENDOR)"

fun scan_functions :: "config_space \<Rightarrow> u8 \<Rightarrow> u8 \<Rightarrow> u8 list \<Rightarrow> nat \<times> nat \<Rightarrow> nat \<times> nat" where
  "scan_functions cfg b d [] (tot, virtio) = (tot, virtio)"
| "scan_functions cfg b d (f # fs) (tot, virtio) =
     (if (ucast (config_read32 cfg b d f 0 AND 0xFFFF) :: u16) = 0xFFFF
      then scan_functions cfg b d fs (tot, virtio)
      else scan_functions cfg b d fs (tot + 1, if print_function cfg b d f then virtio + 1 else virtio))"

definition scan_device :: "config_space \<Rightarrow> u8 \<Rightarrow> u8 \<Rightarrow> nat \<times> nat" where
  "scan_device cfg b d =
     (if (ucast (config_read32 cfg b d 0 0 AND 0xFFFF) :: u16) = 0xFFFF then (0, 0)
      else let tot = 1;
               virtio = (if print_function cfg b d 0 then 1 else 0);
               header_type = ucast (drop_bit 16 (config_read32 cfg b d 0 0x0C) AND 0xFF) :: u8
           in if header_type AND 0x80 \<noteq> 0 then scan_functions cfg b d [1, 2, 3, 4, 5, 6, 7] (tot, virtio)
              else (tot, virtio))"

definition scan :: "config_space \<Rightarrow> nat \<times> nat" where
  "scan cfg = fold (\<lambda>b acc. fold (\<lambda>d (tot, virtio).
       let (added_tot, added_virtio) = scan_device cfg (of_nat b) (of_nat d)
       in (tot + added_tot, virtio + added_virtio)) [0..<32] acc) [0..<256] (0, 0)"

section \<open>Addresses\<close>

lemma bit_u8_less: "bit (w :: u8) n \<Longrightarrow> n < 8"
  using bit_imp_le_length [of w n] by simp

lemma bit_config_addr:
  "bit (config_addr b d f off) n \<longleftrightarrow>
     n = 31 \<or> (16 \<le> n \<and> bit b (n - 16)) \<or> (11 \<le> n \<and> n < 16 \<and> bit d (n - 11)) \<or>
     (8 \<le> n \<and> n < 11 \<and> bit f (n - 8)) \<or> (2 \<le> n \<and> n < 8 \<and> bit off n)"
proof -
  have m: "(0x1F :: u32) = mask 5" "(0x07 :: u32) = mask 3" "(0xFC :: u32) = mask 8 AND NOT (mask 2)"
    by (simp_all add: mask_eq_exp_minus_1)
  have one: "bit (push_bit 31 1 :: u32) n \<longleftrightarrow> n = 31" unfolding bit_push_bit_iff bit_1_iff by auto
  have b: "bit (push_bit 16 (ucast b) :: u32) n \<longleftrightarrow> 16 \<le> n \<and> bit b (n - 16)"
    by (auto simp: bit_simps dest: bit_u8_less)
  have d: "bit (push_bit 11 (ucast d AND mask 5) :: u32) n \<longleftrightarrow> 11 \<le> n \<and> n < 16 \<and> bit d (n - 11)"
    by (auto simp: bit_simps dest: bit_u8_less)
  have f: "bit (push_bit 8 (ucast f AND mask 3) :: u32) n \<longleftrightarrow> 8 \<le> n \<and> n < 11 \<and> bit f (n - 8)"
    by (auto simp: bit_simps dest: bit_u8_less)
  have o: "bit (ucast off AND (mask 8 AND NOT (mask 2)) :: u32) n \<longleftrightarrow> 2 \<le> n \<and> n < 8 \<and> bit off n"
    by (auto simp: bit_simps dest: bit_u8_less)
  show ?thesis unfolding config_addr_def m bit_or_iff one b d f o by blast
qed

lemma config_addr_inject:
  assumes "config_addr b d f off = config_addr b' d' f' off'"
    and "unat d < 32" "unat f < 8" "off AND 3 = 0" "unat d' < 32" "unat f' < 8" "off' AND 3 = 0"
  shows "b = b' \<and> d = d' \<and> f = f' \<and> off = off'"
proof -
  have eq: "bit (config_addr b d f off) n = bit (config_addr b' d' f' off') n" for n using assms(1) by simp
  have high: "\<not> bit (x :: u8) n" if "unat x < 2 ^ k" "k \<le> n" for x n k
  proof -
    have "take_bit k x = x" using that(1) by (simp add: unat_take_bit_word flip: unat_cancel)
    then have "bit x n \<Longrightarrow> bit (take_bit k x) n" by simp
    then show ?thesis using that(2) by (auto simp: bit_simps)
  qed
  have low: "\<not> bit (x :: u8) n" if "x AND 3 = 0" "n < 2" for x n
  proof -
    have "bit (x AND mask 2) n = bit x n" using that(2) by (simp add: bit_simps)
    then show ?thesis using that(1) by (simp add: mask_eq_exp_minus_1)
  qed
  have "b = b'"
  proof (rule bit_eqI)
    fix n show "bit b n = bit b' n" using eq [of "n + 16"] by (auto simp: bit_config_addr dest: bit_u8_less)
  qed
  moreover have "d = d'"
  proof (rule bit_eqI)
    fix n show "bit d n = bit d' n"
      using eq [of "n + 11"] high [of d 5 n] high [of d' 5 n] assms(2,5) by (cases "n < 5") (auto simp: bit_config_addr)
  qed
  moreover have "f = f'"
  proof (rule bit_eqI)
    fix n show "bit f n = bit f' n"
      using eq [of "n + 8"] high [of f 3 n] high [of f' 3 n] assms(3,6) by (cases "n < 3") (auto simp: bit_config_addr)
  qed
  moreover have "off = off'"
  proof (rule bit_eqI)
    fix n show "bit off n = bit off' n"
      using eq [of n] low [OF assms(4), of n] low [OF assms(7), of n]
      by (cases "n < 2"; cases "n < 8") (auto simp: bit_config_addr dest: bit_u8_less)
  qed
  ultimately show ?thesis by blast
qed

section \<open>Counting and walking\<close>

definition present :: "config_space \<Rightarrow> u8 \<Rightarrow> u8 \<Rightarrow> u8 \<Rightarrow> bool" where
  "present cfg b d f \<longleftrightarrow> (ucast (config_read32 cfg b d f 0 AND 0xFFFF) :: u16) \<noteq> 0xFFFF"

definition multifunction :: "config_space \<Rightarrow> u8 \<Rightarrow> u8 \<Rightarrow> bool" where
  "multifunction cfg b d \<longleftrightarrow>
     (ucast (drop_bit 16 (config_read32 cfg b d 0 0x0C) AND 0xFF) :: u8) AND 0x80 \<noteq> 0"

text \<open>The functions a scan should report.\<close>

definition reported :: "config_space \<Rightarrow> (nat \<times> nat \<times> nat) set" where
  "reported cfg = {(b, d, f). b < 256 \<and> d < 32 \<and> f < 8 \<and>
     present cfg (of_nat b) (of_nat d) 0 \<and>
     (f = 0 \<or> multifunction cfg (of_nat b) (of_nat d) \<and> present cfg (of_nat b) (of_nat d) (of_nat f))}"

lemma scan_functions_eq:
  "scan_functions cfg b d fs (t, v) =
     (t + length (filter (present cfg b d) fs),
      v + length (filter (\<lambda>f. present cfg b d f \<and> print_function cfg b d f) fs))"
  by (induction fs arbitrary: t v) (auto simp: present_def)

definition dev_functions :: "config_space \<Rightarrow> u8 \<Rightarrow> u8 \<Rightarrow> nat list" where
  "dev_functions cfg b d = filter (\<lambda>f. present cfg b d 0 \<and>
     (f = 0 \<or> multifunction cfg b d \<and> present cfg b d (of_nat f))) [0..<8]"

lemma scan_device_alt:
  "scan_device cfg b d =
     (if \<not> present cfg b d 0 then (0, 0)
      else let virtio = (if print_function cfg b d 0 then 1 else 0)
           in if multifunction cfg b d then scan_functions cfg b d [1, 2, 3, 4, 5, 6, 7] (1, virtio) else (1, virtio))"
  by (simp add: scan_device_def present_def multifunction_def Let_def)

lemma dev_functions_eq:
  "dev_functions cfg b d =
     (if present cfg b d 0 then 0 # (if multifunction cfg b d then filter (\<lambda>f. present cfg b d (of_nat f)) [1..<8] else []) else [])"
proof -
  have upt: "[0..<8] = 0 # [1..<8]" by (simp add: upt_rec)
  have "filter (\<lambda>f. f = 0 \<or> multifunction cfg b d \<and> present cfg b d (of_nat f)) [1..<8] =
      (if multifunction cfg b d then filter (\<lambda>f. present cfg b d (of_nat f)) [1..<8] else [])"
    by (auto intro: filter_cong)
  then show ?thesis unfolding dev_functions_def upt by simp
qed

lemma scan_device_eq:
  "scan_device cfg b d = (length (dev_functions cfg b d),
     length (filter (\<lambda>f. print_function cfg b d (of_nat f)) (dev_functions cfg b d)))"
proof -
  have fs: "[1, 2, 3, 4, 5, 6, 7] = map (of_nat :: nat \<Rightarrow> u8) [1..<8]" by (simp add: upt_rec)
  have conv: "length (filter P (map (of_nat :: nat \<Rightarrow> u8) xs)) = length (filter (\<lambda>f. P (of_nat f)) xs)" for P xs
    by (simp add: filter_map o_def)
  show ?thesis
    unfolding scan_device_alt dev_functions_eq fs scan_functions_eq conv Let_def
    by (simp add: conj_commute)
qed

lemma fold_pair_sum:
  fixes F :: "'a \<Rightarrow> nat \<times> nat"
  shows "fold (\<lambda>x (t, v). let (a, c) = F x in (t + a, v + c)) xs (t, v) =
    (t + sum_list (map (fst \<circ> F) xs), v + sum_list (map (snd \<circ> F) xs))"
  by (induction xs arbitrary: t v) (auto simp: Let_def split: prod.splits)

lemma fold_nested_sum:
  fixes F :: "'b \<Rightarrow> 'a \<Rightarrow> nat \<times> nat"
  shows "fold (\<lambda>y acc. fold (\<lambda>x (t, v). let (a, c) = F y x in (t + a, v + c)) xs acc) ys (t, v) =
    (t + sum_list (map (\<lambda>y. sum_list (map (fst \<circ> F y) xs)) ys), v + sum_list (map (\<lambda>y. sum_list (map (snd \<circ> F y) xs)) ys))"
proof (induction ys arbitrary: t v)
  case (Cons y ys)
  show ?case unfolding fold.simps o_apply fold_pair_sum [of "F y"] Cons.IH by simp
qed simp

lemma scan_sums:
  "scan cfg = ((\<Sum>b<256. \<Sum>d<32. fst (scan_device cfg (of_nat b) (of_nat d))),
               (\<Sum>b<256. \<Sum>d<32. snd (scan_device cfg (of_nat b) (of_nat d))))"
proof -
  have sum: "sum_list (map g [0..<n]) = (\<Sum>i<n. g i)" for g :: "nat \<Rightarrow> nat" and n
    by (simp add: interv_sum_list_conv_sum_set_nat atLeast0LessThan)
  show ?thesis
    unfolding scan_def fold_nested_sum [where F = "\<lambda>b d. scan_device cfg (of_nat b) (of_nat d)"] sum by simp
qed

lemma card_functions:
  fixes B :: "nat \<Rightarrow> nat \<Rightarrow> nat list"
  assumes "\<And>b d. distinct (B b d)"
  shows "card {(b, d, f). b < m \<and> d < n \<and> f \<in> set (B b d)} = (\<Sum>b<m. \<Sum>d<n. length (B b d))"
proof -
  have "{(b, d, f). b < m \<and> d < n \<and> f \<in> set (B b d)} = (SIGMA b:{..<m}. SIGMA d:{..<n}. set (B b d))"
    by auto
  then show ?thesis using assms by (simp add: card_SigmaI distinct_card)
qed

text \<open>A capability list: the offsets the next pointers lead through, ending at zero.\<close>

definition cap_next :: "config_space \<Rightarrow> u8 \<Rightarrow> u8 \<Rightarrow> u8 \<Rightarrow> u8 \<Rightarrow> u8" where
  "cap_next cfg b d f cap = ucast (drop_bit 8 (config_read32 cfg b d f cap) AND 0xFC)"

definition cap_id :: "config_space \<Rightarrow> u8 \<Rightarrow> u8 \<Rightarrow> u8 \<Rightarrow> u8 \<Rightarrow> u8" where
  "cap_id cfg b d f cap = ucast (config_read32 cfg b d f cap AND 0xFF)"

inductive cap_list :: "config_space \<Rightarrow> u8 \<Rightarrow> u8 \<Rightarrow> u8 \<Rightarrow> u8 \<Rightarrow> u8 list \<Rightarrow> bool" for cfg b d f where
  cap_end: "cap_list cfg b d f 0 []"
| cap_more: "cap \<noteq> 0 \<Longrightarrow> cap_list cfg b d f (cap_next cfg b d f cap) caps \<Longrightarrow> cap_list cfg b d f cap (cap # caps)"

text \<open>The MSI-X capability at an offset.\<close>

definition msix_at :: "config_space \<Rightarrow> u8 \<Rightarrow> u8 \<Rightarrow> u8 \<Rightarrow> u8 \<Rightarrow> msix" where
  "msix_at cfg b d f cap =
     (let ctrl = ucast (drop_bit 16 (config_read32 cfg b d f cap) AND 0xFFFF) :: u16;
          table = config_read32 cfg b d f (cap + 4);
          pba = config_read32 cfg b d f (cap + 8)
      in \<lparr>msix_bdf = \<lparr>bus = b, dev = d, func = f\<rparr>, cap_offset = cap,
          table_size = ucast (ctrl AND MSIX_CTRL_TABLE_SIZE_MASK) + 1,
          table_bar = ucast (table AND 7), table_offset = table AND NOT 7,
          pba_bar = ucast (pba AND 7), pba_offset = pba AND NOT 7\<rparr>)"

lemma msix_walk_step:
  "msix_walk cfg b d f (Suc n) cap =
     (if cap = 0 then None else if cap_id cfg b d f cap = PCI_CAP_ID_MSIX then Some (msix_at cfg b d f cap)
      else msix_walk cfg b d f n (cap_next cfg b d f cap))"
  by (simp add: cap_id_def cap_next_def msix_at_def Let_def)

lemma msix_walk_list:
  assumes "cap_list cfg b d f cap caps" "length caps \<le> n"
  shows "msix_walk cfg b d f n cap = map_option (msix_at cfg b d f) (List.find (\<lambda>c. cap_id cfg b d f c = PCI_CAP_ID_MSIX) caps)"
  using assms
proof (induction arbitrary: n rule: cap_list.induct)
  case cap_end
  then show ?case by (cases n) (simp_all add: msix_walk_step del: msix_walk.simps(2))
next
  case (cap_more cap caps)
  then obtain m where "n = Suc m" "length caps \<le> m" by (cases n) auto
  with cap_more show ?case by (simp add: msix_walk_step del: msix_walk.simps(2))
qed

section \<open>Properties\<close>

text \<open>
  Configuration registers do not alias: two registers of valid functions (device below 32,
  function below 8, dword-aligned offset) have the same CF8 address only if they are the same
  register of the same function, so a write to one changes no other.
\<close>

theorem config_write_isolated:
  assumes "unat d < 32" "unat f < 8" "off AND 3 = 0" "unat d' < 32" "unat f' < 8" "off' AND 3 = 0"
  shows "config_read32 (config_write32 b d f off v cfg) b' d' f' off' =
    (if b = b' \<and> d = d' \<and> f = f' \<and> off = off' then v else config_read32 cfg b' d' f' off')"
  using config_addr_inject [of b d f off b' d' f' off'] assms by (auto simp: config_read32_def config_write32_def)

text \<open>
  The scan counts exactly: its totals are the number of functions that exist, function 0 of
  every device that answers and the further functions that answer of every multi-function device,
  and the number of virtio functions among them.
\<close>

theorem scan_counts:
  "scan cfg = (card (reported cfg),
     card {(b, d, f) \<in> reported cfg. print_function cfg (of_nat b) (of_nat d) (of_nat f)})"
proof -
  have mem: "f \<in> set (dev_functions cfg (of_nat b) (of_nat d)) \<longleftrightarrow>
      f < 8 \<and> present cfg (of_nat b) (of_nat d) 0 \<and>
      (f = 0 \<or> multifunction cfg (of_nat b) (of_nat d) \<and> present cfg (of_nat b) (of_nat d) (of_nat f))" for b d f
    by (auto simp: dev_functions_def)
  have r: "reported cfg = {(b, d, f). b < 256 \<and> d < 32 \<and> f \<in> set (dev_functions cfg (of_nat b) (of_nat d))}"
    by (auto simp: reported_def mem)
  have v: "{(b, d, f) \<in> reported cfg. print_function cfg (of_nat b) (of_nat d) (of_nat f)} =
      {(b, d, f). b < 256 \<and> d < 32 \<and>
        f \<in> set (filter (\<lambda>f. print_function cfg (of_nat b) (of_nat d) (of_nat f)) (dev_functions cfg (of_nat b) (of_nat d)))}"
    unfolding r by auto
  have dist: "distinct (dev_functions cfg b d)" for b d by (simp add: dev_functions_def)
  show ?thesis
    unfolding v unfolding r scan_sums scan_device_eq fst_conv snd_conv
    by (subst (1 2) card_functions) (simp_all add: dist)
qed

text \<open>
  The bounded capability walk is complete: on every capability list of at most 64
  entries, msix\_info returns the first MSI-X capability of the list, parsed, and None exactly when
  the device has no capability list or there is no such capability in it. It returns on
  malformed, cyclic lists too.
\<close>

theorem msix_info_complete:
  assumes "cap_list cfg b d f (ucast (config_read32 cfg b d f CFG_CAPS_PTR AND 0xFC)) caps" "length caps \<le> 64"
  shows "msix_info cfg b d f =
    (if config_read32 cfg b d f 0x04 AND STATUS_CAP_LIST = 0 then None
     else map_option (msix_at cfg b d f) (List.find (\<lambda>c. cap_id cfg b d f c = PCI_CAP_ID_MSIX) caps))"
  using msix_walk_list [OF assms] by (simp only: msix_info_def if_True if_False refl)

section \<open>Witnesses\<close>

theorem config_write_isolated_witness:
  "config_read32 (config_write32 0 3 0 0x10 7 (\<lambda>_. 0)) 0 3 1 0x10 = 0"
  using config_write_isolated [of 3 0 "0x10" 3 1 "0x10" 0 7 "\<lambda>_. 0" 0] by (simp add: config_read32_def)

text \<open>One function whose list holds a vendor capability at 0x40 and MSI-X at 0x50.\<close>

definition demo_cfg :: config_space where
  "demo_cfg = (\<lambda>_. 0)(config_addr 0 3 0 0x04 := 0x100000, config_addr 0 3 0 0x34 := 0x40,
     config_addr 0 3 0 0x40 := 0x5009, config_addr 0 3 0 0x50 := 0x00030011, config_addr 0 3 0 0x54 := 0x2001)"

lemma demo_cfg_reads:
  "config_read32 demo_cfg 0 3 0 0x04 = 0x100000" "config_read32 demo_cfg 0 3 0 0x34 = 0x40"
  "config_read32 demo_cfg 0 3 0 0x40 = 0x5009" "config_read32 demo_cfg 0 3 0 0x50 = 0x00030011"
  "config_read32 demo_cfg 0 3 0 0x54 = 0x2001" "config_read32 demo_cfg 0 3 0 0x58 = 0"
  by (simp_all add: demo_cfg_def config_read32_def config_addr_def)

theorem msix_info_complete_witness: "map_option table_size (msix_info demo_cfg 0 3 0) = Some 4"
proof -
  have "cap_list demo_cfg 0 3 0 0x40 [0x40, 0x50]"
    by (intro cap_more; simp add: cap_next_def demo_cfg_reads) (intro cap_more cap_end; simp add: cap_next_def demo_cfg_reads cap_end)
  then have "msix_info demo_cfg 0 3 0 =
      (if config_read32 demo_cfg 0 3 0 0x04 AND STATUS_CAP_LIST = 0 then None
       else map_option (msix_at demo_cfg 0 3 0) (List.find (\<lambda>c. cap_id demo_cfg 0 3 0 c = PCI_CAP_ID_MSIX) [0x40, 0x50]))"
    by (intro msix_info_complete) (simp_all add: CFG_CAPS_PTR_def demo_cfg_reads)
  then show ?thesis
    by (simp add: demo_cfg_reads STATUS_CAP_LIST_def cap_id_def PCI_CAP_ID_MSIX_def msix_at_def MSIX_CTRL_TABLE_SIZE_MASK_def Let_def)
qed

end
