(* ===== verification/Paging.thy ===== *)
theory Paging
  imports Frames
begin

unbundle bit_operations_syntax

text \<open>
  The page tables, arsenal-kernel/src/paging.rs: the deep clone by which the kernel takes over the
  bootloader's tables, and the loop that maps device memory. Page-table memory is a function from
  the physical address of a table and an index to the 64-bit entry.

  The entry format belongs to the x86\_64 crate and is the parameter \<open>pte_ops\<close>; what the
  clone relies on is stated in the locale \<open>pte_format\<close>, which the architecture's format
  satisfies. The mapper of that crate is the parameter \<open>map_to\<close> of the mapping loop.
\<close>

section \<open>Model\<close>

record pte_ops =
  is_unused :: "u64 \<Rightarrow> bool"
  flags_of :: "u64 \<Rightarrow> u64"
  huge_flag :: "u64 \<Rightarrow> bool"
  addr_of :: "u64 \<Rightarrow> u64"
  set_addr :: "u64 \<Rightarrow> u64 \<Rightarrow> u64" \<comment> \<open>address, flags\<close>

type_synonym table_mem = "u64 \<Rightarrow> nat \<Rightarrow> u64"

definition write_entry :: "table_mem \<Rightarrow> u64 \<Rightarrow> nat \<Rightarrow> u64 \<Rightarrow> table_mem" where
  "write_entry M t i e = M(t := (M t)(i := e))"

text \<open>The indices of a table, in the order the clone visits them.\<close>

definition table_indices :: "nat list" where
  "table_indices = [0..<512]"

lemma set_table_indices [simp]: "i \<in> set table_indices \<longleftrightarrow> i < 512" "distinct table_indices"
  by (simp_all add: table_indices_def del: upt_rec_numeral)

text \<open>
  deep\_clone\_table and its loop over the entries. The level is that of the source: 4 for the
  PML4 down to 1, where every entry is a leaf.
\<close>

function (sequential)
  deep_clone_table :: "pte_ops \<Rightarrow> phys_frame_ctor \<Rightarrow> nat \<Rightarrow> u64 \<Rightarrow> table_mem \<Rightarrow> frame_allocator \<Rightarrow>
    (u64 \<times> table_mem \<times> frame_allocator) outcome" and
  clone_entries :: "pte_ops \<Rightarrow> phys_frame_ctor \<Rightarrow> nat \<Rightarrow> u64 \<Rightarrow> u64 \<Rightarrow> nat list \<Rightarrow> table_mem \<Rightarrow> frame_allocator \<Rightarrow>
    (table_mem \<times> frame_allocator) outcome"
where
  "deep_clone_table ops pf level src M fa =
     (case alloc_frame pf fa of
        Inl e \<Rightarrow> Inl e
      | Inr (None, fa) \<Rightarrow> Inl Panic
      | Inr (Some new, fa) \<Rightarrow>
          (case clone_entries ops pf level src new table_indices (M(new := (\<lambda>_. 0))) fa of
             Inl e \<Rightarrow> Inl e
           | Inr (M, fa) \<Rightarrow> Inr (new, M, fa)))"
| "clone_entries ops pf level src new [] M fa = Inr (M, fa)"
| "clone_entries ops pf level src new (i # is) M fa =
     (let e = M src i
      in if is_unused ops e then clone_entries ops pf level src new is M fa
         else if level \<le> 1 \<or> huge_flag ops (flags_of ops e)
         then clone_entries ops pf level src new is (write_entry M new i e) fa
         else (case deep_clone_table ops pf (level - 1) (addr_of ops e) M fa of
                 Inl e \<Rightarrow> Inl e
               | Inr (child, M, fa) \<Rightarrow>
                   clone_entries ops pf level src new is
                     (write_entry M new i (set_addr ops child (flags_of ops e))) fa))"
  by pat_completeness auto
termination
  by (relation "measures [\<lambda>x. case x of Inl (ops, pf, level, src, M, fa) \<Rightarrow> level | Inr (ops, pf, level, src, new, is, M, fa) \<Rightarrow> level,
      \<lambda>x. case x of Inl _ \<Rightarrow> 1000 | Inr (ops, pf, level, src, new, is, M, fa) \<Rightarrow> length is]") (auto simp: table_indices_def)

declare deep_clone_table.simps [simp del]

record paging =
  hhdm_offset :: u64
  kernel_pml4_phys :: u64
  cr3 :: u64
  tabs :: table_mem

definition paging_init :: "pte_ops \<Rightarrow> phys_frame_ctor \<Rightarrow> u64 \<Rightarrow> paging \<Rightarrow> frame_allocator \<Rightarrow> (paging \<times> frame_allocator) outcome" where
  "paging_init ops pf off p fa =
     and_then (deep_clone_table ops pf 4 (cr3 p) (tabs p) fa) (\<lambda>(new_pml4, M, fa).
       Inr (p\<lparr>hhdm_offset := off, cr3 := new_pml4, kernel_pml4_phys := new_pml4, tabs := M\<rparr>, fa))"

datatype map_result = Mapped | PageAlreadyMapped | ParentEntryHugePage | OtherMapError

text \<open>The loop of map\_mmio over a mapper state of any type.\<close>

partial_function (option) mmio_loop ::
  "(u64 \<Rightarrow> u64 \<Rightarrow> 'm \<Rightarrow> map_result \<times> 'm) \<Rightarrow> u64 \<Rightarrow> u64 \<Rightarrow> u64 \<Rightarrow> 'm \<Rightarrow> 'm outcome option" where
  "mmio_loop map_to virt_end v p m =
     (if v < virt_end
      then let (result, m) = map_to v p m
           in if result = OtherMapError then Some (Inl Panic)
              else mmio_loop map_to virt_end (v + 4096) (p + 4096) m
      else Some (Inr m))"

definition map_mmio :: "(u64 \<Rightarrow> u64 \<Rightarrow> 'm \<Rightarrow> map_result \<times> 'm) \<Rightarrow> u64 \<Rightarrow> u64 \<Rightarrow> u64 \<Rightarrow> 'm \<Rightarrow> 'm outcome option" where
  "map_mmio map_to off p len m =
     (let virt_start = (p + off) AND NOT 0xFFF;
          virt_end = (p + off + len + 0xFFF) AND NOT 0xFFF;
          phys_start = p AND NOT 0xFFF
      in mmio_loop map_to virt_end virt_start phys_start m)"

section \<open>Translation\<close>

text \<open>
  What the processor reads for a path of table indices: the flags of the entries it passes and
  the leaf entry with the number of indices left.
\<close>

fun walk :: "pte_ops \<Rightarrow> table_mem \<Rightarrow> u64 \<Rightarrow> nat list \<Rightarrow> (u64 list \<times> u64 \<times> nat) option" where
  "walk ops M t [] = None"
| "walk ops M t (i # is) =
     (let e = M t i
      in if is_unused ops e then None
         else if is = [] \<or> huge_flag ops (flags_of ops e) then Some ([], e, length is)
         else map_option (\<lambda>(fs, leaf). (flags_of ops e # fs, leaf)) (walk ops M (addr_of ops e) is))"

text \<open>The tables of a tree, and how many a clone of it allocates.\<close>

definition child_idx :: "pte_ops \<Rightarrow> table_mem \<Rightarrow> nat \<Rightarrow> u64 \<Rightarrow> nat \<Rightarrow> bool" where
  "child_idx ops M level t i \<longleftrightarrow> \<not> is_unused ops (M t i) \<and> \<not> (level \<le> 1 \<or> huge_flag ops (flags_of ops (M t i)))"

fun tables :: "pte_ops \<Rightarrow> table_mem \<Rightarrow> nat \<Rightarrow> u64 \<Rightarrow> u64 set" where
  "tables ops M 0 t = {t}"
| "tables ops M (Suc n) t =
     insert t (\<Union>i \<in> {i. i < 512 \<and> child_idx ops M (Suc n) t i}. tables ops M n (addr_of ops (M t i)))"

fun nodes :: "pte_ops \<Rightarrow> table_mem \<Rightarrow> nat \<Rightarrow> u64 \<Rightarrow> nat" where
  "nodes ops M 0 t = 1"
| "nodes ops M (Suc n) t =
     1 + sum_list (map (\<lambda>i. if child_idx ops M (Suc n) t i then nodes ops M n (addr_of ops (M t i)) else 0) table_indices)"

locale pte_format =
  fixes ops :: pte_ops
    and frame_ok :: "u64 \<Rightarrow> bool"
  assumes unused_zero: "is_unused ops 0"
    and set_addr_used: "frame_ok f \<Longrightarrow> \<not> is_unused ops e \<Longrightarrow> \<not> is_unused ops (set_addr ops f (flags_of ops e))"
    and set_addr_flags: "frame_ok f \<Longrightarrow> flags_of ops (set_addr ops f (flags_of ops e)) = flags_of ops e"
    and set_addr_addr: "frame_ok f \<Longrightarrow> addr_of ops (set_addr ops f (flags_of ops e)) = f"

lemma tables_self [simp]: "t \<in> tables ops M n t"
  by (cases n) auto

lemma tables_cong: "\<forall>s \<in> tables ops M n t. M' s = M s \<Longrightarrow> tables ops M' n t = tables ops M n t \<and> nodes ops M' n t = nodes ops M n t"
proof (induction n arbitrary: t)
  case (Suc n)
  have t: "M' t = M t" using Suc.prems by simp
  have child: "tables ops M' n (addr_of ops (M t i)) = tables ops M n (addr_of ops (M t i)) \<and>
      nodes ops M' n (addr_of ops (M t i)) = nodes ops M n (addr_of ops (M t i))"
    if "i < 512" "child_idx ops M (Suc n) t i" for i
    by (rule Suc.IH) (use Suc.prems that in auto)
  have ci: "child_idx ops M' (Suc n) t = child_idx ops M (Suc n) t" by (simp add: child_idx_def fun_eq_iff t)
  show ?case using child by (auto simp: t ci intro!: arg_cong [where f = sum_list])
qed simp

lemma walk_cong:
  assumes "\<forall>s \<in> tables ops M n t. M' s = M s" "length is = n" "\<forall>i \<in> set is. i < 512"
  shows "walk ops M' t is = walk ops M t is"
  using assms
proof (induction n arbitrary: t "is")
  case (Suc n)
  then obtain i js where path: "is = i # js" by (cases "is") auto
  have t: "M' t = M t" using Suc.prems by simp
  have "walk ops M' (addr_of ops (M t i)) js = walk ops M (addr_of ops (M t i)) js"
    if "\<not> is_unused ops (M t i)" "js \<noteq> []" "\<not> huge_flag ops (flags_of ops (M t i))"
  proof (rule Suc.IH)
    have "child_idx ops M (Suc n) t i" using that Suc.prems(2) path by (cases n) (auto simp: child_idx_def)
    then show "\<forall>s \<in> tables ops M n (addr_of ops (M t i)). M' s = M s"
      using Suc.prems(1,3) path by auto
  qed (use Suc.prems path in auto)
  then show ?case by (simp add: path t Let_def)
qed simp

section \<open>The clone\<close>

definition pool_ok :: "(u64 \<Rightarrow> bool) \<Rightarrow> phys_frame_ctor \<Rightarrow> frame_allocator \<Rightarrow> bool" where
  "pool_ok ok pf fa \<longleftrightarrow> distinct (free fa) \<and> (\<forall>f \<in> set (free fa). ok f \<and> pf f = Inr f)"

lemma pool_ok_prefix: "pool_ok ok pf fa \<Longrightarrow> free fa = free fa' @ used \<Longrightarrow> pool_ok ok pf fa' \<and> distinct used \<and> set used \<inter> set (free fa') = {}"
  by (auto simp: pool_ok_def)

lemma alloc_frame_last:
  assumes "pool_ok ok pf fa" "free fa \<noteq> []"
  obtains new fa' where "alloc_frame pf fa = Inr (Some new, fa')" "free fa = free fa' @ [new]" "ok new"
proof -
  have "last (free fa) \<in> set (free fa)" using assms(2) by simp
  then have "pf (last (free fa)) = Inr (last (free fa))" "ok (last (free fa))" using assms(1) by (auto simp: pool_ok_def)
  with assms(2) show thesis
    using that [of "last (free fa)" "fa\<lparr>free := butlast (free fa)\<rparr>"] by (simp add: alloc_frame_def)
qed

text \<open>
  What cloning a table promises: with enough frames in the pool it takes one frame per table of
  the source tree off the pool, writes no other frame, and the new tree lies in those frames and
  translates every path as the source does.
\<close>

definition cloned ::
  "pte_ops \<Rightarrow> nat \<Rightarrow> u64 \<Rightarrow> table_mem \<Rightarrow> frame_allocator \<Rightarrow> u64 \<Rightarrow> table_mem \<Rightarrow> frame_allocator \<Rightarrow> bool" where
  "cloned ops level src M fa new M' fa' \<longleftrightarrow>
     (\<exists>used. free fa = free fa' @ used \<and> length used = nodes ops M level src \<and> tables ops M' level new \<subseteq> set used \<and>
       (\<forall>s. s \<notin> set used \<longrightarrow> M' s = M s)) \<and>
     (\<forall>path. length path = level \<longrightarrow> (\<forall>i \<in> set path. i < 512) \<longrightarrow> walk ops M' new path = walk ops M src path)"

text \<open>The same for the loop, entry by entry.\<close>

definition entry_cloned :: "pte_ops \<Rightarrow> nat \<Rightarrow> u64 \<Rightarrow> u64 \<Rightarrow> table_mem \<Rightarrow> table_mem \<Rightarrow> u64 set \<Rightarrow> nat \<Rightarrow> bool" where
  "entry_cloned ops level src new M M' used i \<longleftrightarrow>
     (if is_unused ops (M src i) then M' new i = M new i
      else if level \<le> 1 \<or> huge_flag ops (flags_of ops (M src i)) then M' new i = M src i
      else \<exists>c \<in> used. M' new i = set_addr ops c (flags_of ops (M src i)) \<and> tables ops M' (level - 1) c \<subseteq> used \<and>
        (\<forall>path. length path = level - 1 \<longrightarrow> (\<forall>i \<in> set path. i < 512) \<longrightarrow>
           walk ops M' c path = walk ops M (addr_of ops (M src i)) path))"

lemma entry_cloned_alt:
  "entry_cloned ops level src new M M' used i =
     (if child_idx ops M level src i
      then \<exists>c \<in> used. M' new i = set_addr ops c (flags_of ops (M src i)) \<and> tables ops M' (level - 1) c \<subseteq> used \<and>
        (\<forall>path. length path = level - 1 \<longrightarrow> (\<forall>i \<in> set path. i < 512) \<longrightarrow>
           walk ops M' c path = walk ops M (addr_of ops (M src i)) path)
      else M' new i = (if is_unused ops (M src i) then M new i else M src i))"
  unfolding entry_cloned_def child_idx_def by (cases "is_unused ops (M src i)") simp_all

definition entry_nodes :: "pte_ops \<Rightarrow> nat \<Rightarrow> u64 \<Rightarrow> table_mem \<Rightarrow> nat \<Rightarrow> nat" where
  "entry_nodes ops level src M i =
     (if child_idx ops M level src i then nodes ops M (level - 1) (addr_of ops (M src i)) else 0)"

definition entries_cloned ::
  "pte_ops \<Rightarrow> nat \<Rightarrow> u64 \<Rightarrow> u64 \<Rightarrow> nat list \<Rightarrow> table_mem \<Rightarrow> frame_allocator \<Rightarrow> table_mem \<Rightarrow> frame_allocator \<Rightarrow> bool" where
  "entries_cloned ops level src new is M fa M' fa' \<longleftrightarrow>
     (\<exists>used. free fa = free fa' @ used \<and> length used = sum_list (map (entry_nodes ops level src M) is) \<and>
       (\<forall>s. s \<notin> insert new (set used) \<longrightarrow> M' s = M s) \<and> (\<forall>i. i \<notin> set is \<longrightarrow> M' new i = M new i) \<and>
       (\<forall>i \<in> set is. entry_cloned ops level src new M M' (set used) i))"

lemma nodes_entries: "nodes ops M (Suc n) t = 1 + sum_list (map (entry_nodes ops (Suc n) t M) table_indices)"
  unfolding entry_nodes_def [abs_def] by (simp only: nodes.simps diff_Suc_1)

lemma tables_child:
  assumes "child_idx ops M level t i" "i < 512"
  shows "tables ops M (level - 1) (addr_of ops (M t i)) \<subseteq> tables ops M level t"
  using assms by (cases level) (auto simp: child_idx_def)

text \<open>An entry of the source that is cloned stays cloned when only frames outside are written.\<close>

lemma entry_cloned_mono:
  assumes "entry_cloned ops level src new M M1 used1 i" "M2 new i = M1 new i" "used1 \<subseteq> used2"
    and "\<forall>s \<in> used1. M2 s = M1 s"
  shows "entry_cloned ops level src new M M2 used2 i"
proof -
  have keep: "tables ops M2 (level - 1) c = tables ops M1 (level - 1) c \<and> (\<forall>path. length path = level - 1 \<longrightarrow>
      (\<forall>i \<in> set path. i < 512) \<longrightarrow> walk ops M2 c path = walk ops M1 c path)" if "tables ops M1 (level - 1) c \<subseteq> used1" for c
  proof -
    have "\<forall>s \<in> tables ops M1 (level - 1) c. M2 s = M1 s" using that assms(4) by blast
    then show ?thesis using tables_cong walk_cong by blast
  qed
  show ?thesis
  proof (cases "child_idx ops M level src i")
    case True
    then obtain c where c: "c \<in> used1" "M1 new i = set_addr ops c (flags_of ops (M src i))" "tables ops M1 (level - 1) c \<subseteq> used1"
      "\<forall>path. length path = level - 1 \<longrightarrow> (\<forall>i \<in> set path. i < 512) \<longrightarrow>
         walk ops M1 c path = walk ops M (addr_of ops (M src i)) path"
      using assms(1) unfolding entry_cloned_def child_idx_def by (metis (no_types, lifting))
    show ?thesis
      unfolding entry_cloned_alt if_P [OF True]
      using c keep [OF c(3)] assms(2,3) by (intro bexI [of _ c]) auto
  next
    case False
    with assms(1,2) show ?thesis unfolding entry_cloned_alt by simp
  qed
qed

lemma entry_source_cong:
  assumes "\<forall>s \<in> tables ops M level src. M1 s = M s" "M1 new i = M new i \<or> \<not> is_unused ops (M src i)" "i < 512"
  shows "entry_cloned ops level src new M1 M' used i \<longleftrightarrow> entry_cloned ops level src new M M' used i"
    and "entry_nodes ops level src M1 i = entry_nodes ops level src M i"
proof -
  have src: "M1 src = M src" using assms(1) by simp
  have ci: "child_idx ops M1 level src i = child_idx ops M level src i" by (simp add: child_idx_def src)
  have agree: "\<forall>s \<in> tables ops M (level - 1) (addr_of ops (M src i)). M1 s = M s" if "child_idx ops M level src i"
    using tables_child [OF that assms(3)] assms(1) by blast
  show "entry_nodes ops level src M1 i = entry_nodes ops level src M i"
  proof (cases "child_idx ops M level src i")
    case True
    from tables_cong [OF agree [OF True]] have "nodes ops M1 (level - 1) (addr_of ops (M src i)) = nodes ops M (level - 1) (addr_of ops (M src i))"
      by (rule conjunct2)
    then show ?thesis unfolding entry_nodes_def ci src if_P [OF True] .
  next
    case False
    then show ?thesis by (simp add: entry_nodes_def ci src)
  qed
  show "entry_cloned ops level src new M1 M' used i \<longleftrightarrow> entry_cloned ops level src new M M' used i"
  proof (cases "child_idx ops M level src i")
    case True
    have "walk ops M1 (addr_of ops (M src i)) path = walk ops M (addr_of ops (M src i)) path"
      if "length path = level - 1" "\<forall>i \<in> set path. i < 512" for path
      using walk_cong [OF agree [OF True] that] .
    then have "(\<forall>path. length path = level - 1 \<longrightarrow> (\<forall>i \<in> set path. i < 512) \<longrightarrow> walk ops M' c path = walk ops M1 (addr_of ops (M src i)) path) =
        (\<forall>path. length path = level - 1 \<longrightarrow> (\<forall>i \<in> set path. i < 512) \<longrightarrow> walk ops M' c path = walk ops M (addr_of ops (M src i)) path)" for c
      by metis
    then show ?thesis unfolding entry_cloned_alt ci src if_P [OF True] by simp
  next
    case False
    then show ?thesis using assms(2) unfolding entry_cloned_alt ci src if_not_P [OF False] by (cases "is_unused ops (M src i)") simp_all
  qed
qed

text \<open>The first entry is written into \<open>M1\<close> with the frames \<open>used1\<close>; the loop goes on from there.\<close>

definition first_cloned ::
  "pte_ops \<Rightarrow> nat \<Rightarrow> u64 \<Rightarrow> u64 \<Rightarrow> nat \<Rightarrow> table_mem \<Rightarrow> frame_allocator \<Rightarrow> table_mem \<Rightarrow> frame_allocator \<Rightarrow> u64 list \<Rightarrow> bool" where
  "first_cloned ops level src new i M fa M1 fa1 used1 \<longleftrightarrow>
     free fa = free fa1 @ used1 \<and> length used1 = entry_nodes ops level src M i \<and>
     (\<forall>s. s \<notin> insert new (set used1) \<longrightarrow> M1 s = M s) \<and> (\<forall>j. j \<noteq> i \<longrightarrow> M1 new j = M new j) \<and>
     entry_cloned ops level src new M M1 (set used1) i"

lemma first_cloned_source:
  assumes "first_cloned ops level src new i M fa M1 fa1 used1" "tables ops M level src \<inter> insert new (set (free fa)) = {}"
    and "i \<notin> set js" "\<forall>j \<in> set js. j < 512"
  shows "\<forall>s \<in> tables ops M level src. M1 s = M s" "tables ops M1 level src = tables ops M level src"
    and "sum_list (map (entry_nodes ops level src M1) js) = sum_list (map (entry_nodes ops level src M) js)"
proof -
  show agree: "\<forall>s \<in> tables ops M level src. M1 s = M s"
    using assms(1,2) unfolding first_cloned_def by fastforce
  then show "tables ops M1 level src = tables ops M level src" using tables_cong by blast
  have "entry_nodes ops level src M1 j = entry_nodes ops level src M j" if "j \<in> set js" for j
    using entry_source_cong(2) [OF agree] assms(1,3,4) that unfolding first_cloned_def by metis
  then show "sum_list (map (entry_nodes ops level src M1) js) = sum_list (map (entry_nodes ops level src M) js)"
    by (metis (no_types, lifting) map_cong)
qed

lemma entries_cloned_Cons:
  assumes first: "first_cloned ops level src new i M fa M1 fa1 used1"
    and pool: "pool_ok ok pf fa" "new \<notin> set (free fa)" "tables ops M level src \<inter> insert new (set (free fa)) = {}"
    and idx: "i \<notin> set js" "\<forall>j \<in> set js. j < 512"
    and rest: "entries_cloned ops level src new js M1 fa1 M' fa'"
  shows "entries_cloned ops level src new (i # js) M fa M' fa'"
proof -
  have fa1: "free fa = free fa1 @ used1" "length used1 = entry_nodes ops level src M i"
    and M1: "\<forall>s. s \<notin> insert new (set used1) \<longrightarrow> M1 s = M s" "\<forall>j. j \<noteq> i \<longrightarrow> M1 new j = M new j"
    and ec: "entry_cloned ops level src new M M1 (set used1) i"
    using first by (simp_all add: first_cloned_def)
  note source = first_cloned_source [OF first pool(3) idx]
  obtain used2 where u2: "free fa1 = free fa' @ used2" "length used2 = sum_list (map (entry_nodes ops level src M) js)"
    "\<forall>s. s \<notin> insert new (set used2) \<longrightarrow> M' s = M1 s" "\<forall>j. j \<notin> set js \<longrightarrow> M' new j = M1 new j"
    "\<forall>j \<in> set js. entry_cloned ops level src new M1 M' (set used2) j"
    using rest source(3) unfolding entries_cloned_def by metis
  have "set used1 \<inter> set (free fa1) = {}" "new \<notin> set used1"
    using pool_ok_prefix [OF pool(1) fa1(1)] pool(2) fa1(1) by auto
  then have keep1: "\<forall>s \<in> set used1. M' s = M1 s" using u2(1,3) by fastforce
  have "entry_cloned ops level src new M M' (set (used2 @ used1)) i"
    by (rule entry_cloned_mono [OF ec]) (use u2(4) idx keep1 in auto)
  moreover have "entry_cloned ops level src new M M' (set (used2 @ used1)) j" if "j \<in> set js" for j
  proof -
    have "entry_cloned ops level src new M M' (set used2) j"
      using entry_source_cong(1) [OF source(1), of new j M' "set used2"] M1(2) u2(5) that idx by metis
    then show ?thesis by (rule entry_cloned_mono) auto
  qed
  ultimately show ?thesis
    unfolding entries_cloned_def using fa1 u2 M1 by (intro exI [of _ "used2 @ used1"]) auto
qed

text \<open>The first entry when it leads to a table whose clone is at hand.\<close>

lemma child_first_cloned:
  assumes child: "child_idx ops M level src i" and new: "new \<notin> set (free fa)"
    and cl: "cloned ops (level - 1) (addr_of ops (M src i)) M fa c M0 fa1"
  shows "\<exists>used1. first_cloned ops level src new i M fa (write_entry M0 new i (set_addr ops c (flags_of ops (M src i)))) fa1 used1"
proof -
  let ?c = "addr_of ops (M src i)" and ?M1 = "write_entry M0 new i (set_addr ops c (flags_of ops (M src i)))"
  obtain used1 where u1: "free fa = free fa1 @ used1" "length used1 = nodes ops M (level - 1) ?c"
    "tables ops M0 (level - 1) c \<subseteq> set used1" "\<forall>s. s \<notin> set used1 \<longrightarrow> M0 s = M s"
    and wk: "\<forall>path. length path = level - 1 \<longrightarrow> (\<forall>i \<in> set path. i < 512) \<longrightarrow> walk ops M0 c path = walk ops M ?c path"
    using cl unfolding cloned_def by blast
  have new1: "new \<notin> set used1" using new u1(1) by auto
  have M0new: "M0 new = M new" using u1(4) new1 by blast
  have agree: "\<forall>s \<in> tables ops M0 (level - 1) c. ?M1 s = M0 s" using u1(3) new1 by (auto simp: write_entry_def)
  have T: "tables ops ?M1 (level - 1) c = tables ops M0 (level - 1) c" using tables_cong [OF agree] by blast
  have W: "walk ops ?M1 c path = walk ops M ?c path" if "length path = level - 1" "\<forall>i \<in> set path. i < 512" for path
    using walk_cong [OF agree that] wk that by simp
  have "c \<in> set used1" using u1(3) tables_self [of c ops M0 "level - 1"] by blast
  then have "entry_cloned ops level src new M ?M1 (set used1) i"
    unfolding entry_cloned_alt if_P [OF child] using T u1(3) W
    by (intro bexI [of _ c]) (simp_all add: write_entry_def)
  moreover have "entry_nodes ops level src M i = nodes ops M (level - 1) ?c" using child by (simp add: entry_nodes_def)
  ultimately show ?thesis
    unfolding first_cloned_def using u1(1,2,4) M0new by (intro exI [of _ used1]) (auto simp: write_entry_def)
qed

context pte_format
begin

definition clones :: "phys_frame_ctor \<Rightarrow> nat \<Rightarrow> bool" where
  "clones pf level \<longleftrightarrow> (\<forall>src M fa. pool_ok frame_ok pf fa \<longrightarrow> tables ops M level src \<inter> set (free fa) = {} \<longrightarrow>
     (if nodes ops M level src \<le> length (free fa)
      then \<exists>new M' fa'. deep_clone_table ops pf level src M fa = Inr (new, M', fa') \<and> cloned ops level src M fa new M' fa'
      else deep_clone_table ops pf level src M fa = Inl Panic))"

lemma clone_entries_cloned:
  assumes IH: "1 < level \<Longrightarrow> clones pf (level - 1)"
    and "pool_ok frame_ok pf fa" "new \<notin> set (free fa)" "tables ops M level src \<inter> insert new (set (free fa)) = {}"
    and "distinct is" "\<forall>i \<in> set is. i < 512"
  shows "if sum_list (map (entry_nodes ops level src M) is) \<le> length (free fa)
    then \<exists>M' fa'. clone_entries ops pf level src new is M fa = Inr (M', fa') \<and> entries_cloned ops level src new is M fa M' fa'
    else clone_entries ops pf level src new is M fa = Inl Panic"
  using assms(2-6)
proof (induction "is" arbitrary: M fa)
  case Nil
  then show ?case by (simp add: entries_cloned_def)
next
  case (Cons i js)
  let ?e = "M src i"
  have i: "i < 512" "i \<notin> set js" "distinct js" "\<forall>j \<in> set js. j < 512" using Cons.prems(4,5) by auto
  have rest: "if sum_list (map (entry_nodes ops level src M) (i # js)) \<le> length (free fa)
      then \<exists>M' fa'. clone_entries ops pf level src new js M1 fa1 = Inr (M', fa') \<and> entries_cloned ops level src new (i # js) M fa M' fa'
      else clone_entries ops pf level src new js M1 fa1 = Inl Panic"
    if first: "first_cloned ops level src new i M fa M1 fa1 used1" for M1 fa1 used1
  proof -
    have fa1: "free fa = free fa1 @ used1" "length used1 = entry_nodes ops level src M i"
      using first by (simp_all add: first_cloned_def)
    note source = first_cloned_source [OF first Cons.prems(3) i(2,4)]
    have "pool_ok frame_ok pf fa1" using pool_ok_prefix [OF Cons.prems(1) fa1(1)] by blast
    then have "if sum_list (map (entry_nodes ops level src M1) js) \<le> length (free fa1)
      then \<exists>M' fa'. clone_entries ops pf level src new js M1 fa1 = Inr (M', fa') \<and> entries_cloned ops level src new js M1 fa1 M' fa'
      else clone_entries ops pf level src new js M1 fa1 = Inl Panic"
      using Cons.prems(2,3) i fa1(1) by (intro Cons.IH) (auto simp: source(2))
    then show ?thesis
      using entries_cloned_Cons [OF first Cons.prems(1-3) i(2,4)] fa1 source(3) by (auto split: if_splits)
  qed
  show ?case
  proof (cases "child_idx ops M level src i")
    case False
    define M1 where "M1 = (if is_unused ops ?e then M else write_entry M new i ?e)"
    have "clone_entries ops pf level src new (i # js) M fa = clone_entries ops pf level src new js M1 fa"
      using False by (auto simp: child_idx_def M1_def Let_def)
    moreover have "first_cloned ops level src new i M fa M1 fa []"
      using False by (simp add: first_cloned_def entry_nodes_def entry_cloned_alt M1_def write_entry_def)
    ultimately show ?thesis using rest by simp
  next
    case True
    have lev: "1 < level" and used: "\<not> is_unused ops ?e" "\<not> huge_flag ops (flags_of ops ?e)" using True by (auto simp: child_idx_def)
    have rec: "clone_entries ops pf level src new (i # js) M fa =
        (case deep_clone_table ops pf (level - 1) (addr_of ops ?e) M fa of Inl e \<Rightarrow> Inl e
         | Inr (child, M, fa) \<Rightarrow> clone_entries ops pf level src new js (write_entry M new i (set_addr ops child (flags_of ops ?e))) fa)"
      using lev used by (simp add: Let_def)
    have "tables ops M (level - 1) (addr_of ops ?e) \<inter> set (free fa) = {}"
      using tables_child [OF True i(1)] Cons.prems(3) by blast
    note ih = IH [OF lev, unfolded clones_def, rule_format, OF Cons.prems(1) this]
    show ?thesis
    proof (cases "nodes ops M (level - 1) (addr_of ops ?e) \<le> length (free fa)")
      case False
      with ih rec True show ?thesis by (simp add: entry_nodes_def)
    next
      case enough: True
      then obtain c M0 fa1 where c: "deep_clone_table ops pf (level - 1) (addr_of ops ?e) M fa = Inr (c, M0, fa1)"
        "cloned ops (level - 1) (addr_of ops ?e) M fa c M0 fa1"
        using ih by auto
      then show ?thesis using child_first_cloned [OF True Cons.prems(2) c(2)] rest rec by auto
    qed
  qed
qed

text \<open>The three kinds of entries of the new table.\<close>

lemma new_entry:
  assumes "entry_cloned ops (Suc n) src new M M' used i" "M new i = 0" "\<forall>f \<in> used. frame_ok f"
  obtains "is_unused ops (M src i)" "is_unused ops (M' new i)"
  | "\<not> is_unused ops (M src i)" "\<not> child_idx ops M (Suc n) src i" "M' new i = M src i"
  | c where "child_idx ops M (Suc n) src i" "child_idx ops M' (Suc n) new i" "flags_of ops (M' new i) = flags_of ops (M src i)"
      "addr_of ops (M' new i) = c" "tables ops M' n c \<subseteq> used"
      "\<And>path. length path = n \<Longrightarrow> \<forall>i \<in> set path. i < 512 \<Longrightarrow> walk ops M' c path = walk ops M (addr_of ops (M src i)) path"
proof (cases "child_idx ops M (Suc n) src i")
  case True
  then obtain c where c: "c \<in> used" "M' new i = set_addr ops c (flags_of ops (M src i))" "tables ops M' n c \<subseteq> used"
    "\<forall>path. length path = n \<longrightarrow> (\<forall>i \<in> set path. i < 512) \<longrightarrow> walk ops M' c path = walk ops M (addr_of ops (M src i)) path"
    using assms(1) unfolding entry_cloned_alt by auto
  then have ok: "frame_ok c" using assms(3) by blast
  have "child_idx ops M' (Suc n) new i"
    using True c(2) set_addr_used [OF ok] set_addr_flags [OF ok] by (simp add: child_idx_def)
  then show thesis using that(3) [of c] True c set_addr_flags [OF ok] set_addr_addr [OF ok] by simp
next
  case False
  then have "M' new i = (if is_unused ops (M src i) then M new i else M src i)" using assms(1) by (simp add: entry_cloned_alt)
  then show thesis using that(1,2) False assms(2) unused_zero by (cases "is_unused ops (M src i)") simp_all
qed

lemma walk_new_entry:
  assumes "entry_cloned ops (Suc n) src new M M' used i" "M new i = 0" "\<forall>f \<in> used. frame_ok f"
    and "length js = n" "\<forall>j \<in> set js. j < 512"
  shows "walk ops M' new (i # js) = walk ops M src (i # js)"
  using assms(1-3)
proof (cases rule: new_entry)
  case (3 c)
  have "js \<noteq> []" using 3(1) assms(4) by (auto simp: child_idx_def)
  moreover have "\<not> is_unused ops (M' new i)" "\<not> is_unused ops (M src i)" "\<not> huge_flag ops (flags_of ops (M src i))"
    using 3(1,2) by (auto simp: child_idx_def)
  ultimately show ?thesis using 3(3,4) 3(6) [OF assms(4,5)] by (simp add: Let_def)
next
  case 2
  then have "is_unused ops (M src i) \<or> js = [] \<or> huge_flag ops (flags_of ops (M src i))"
    using assms(4) by (auto simp: child_idx_def)
  with 2 show ?thesis by (auto simp: Let_def)
qed simp

lemma cloned_root:
  assumes alloc: "free fa = free fa1 @ [new]" and pool: "pool_ok frame_ok pf fa"
    and disj: "tables ops M (Suc n) src \<inter> set (free fa) = {}"
    and ecs: "entries_cloned ops (Suc n) src new table_indices (M(new := (\<lambda>_. 0))) fa1 M' fa'"
  shows "cloned ops (Suc n) src M fa new M' fa'"
proof -
  let ?M0 = "M(new := (\<lambda>_. 0))"
  have agree: "\<forall>s \<in> tables ops M (Suc n) src. ?M0 s = M s" using disj alloc by auto
  note same = tables_cong [OF agree]
  obtain used where u: "free fa1 = free fa' @ used" "length used = sum_list (map (entry_nodes ops (Suc n) src ?M0) table_indices)"
    "\<forall>s. s \<notin> insert new (set used) \<longrightarrow> M' s = ?M0 s"
    "\<forall>i < 512. entry_cloned ops (Suc n) src new ?M0 M' (set used) i"
    using ecs unfolding entries_cloned_def by auto
  have ok: "\<forall>f \<in> set used. frame_ok f" using pool alloc u(1) by (auto simp: pool_ok_def)
  have zero: "?M0 new i = 0" for i by simp
  have "length (used @ [new]) = nodes ops ?M0 (Suc n) src"
    unfolding nodes_entries u(2) [symmetric] by simp
  also have "\<dots> = nodes ops M (Suc n) src" using same by (rule conjunct2)
  finally have len: "length (used @ [new]) = nodes ops M (Suc n) src" .
  have "tables ops M' n (addr_of ops (M' new i)) \<subseteq> set used" if "i < 512" "child_idx ops M' (Suc n) new i" for i
    using u(4) [rule_format, OF that(1)] zero ok
  proof (cases rule: new_entry)
    case (3 c)
    then show ?thesis by simp
  qed (use that in \<open>simp_all add: child_idx_def\<close>)
  then have tab: "tables ops M' (Suc n) new \<subseteq> set (used @ [new])" by auto
  have off: "M' s = M s" if "s \<notin> set (used @ [new])" for s using u(3) that by simp
  have "walk ops M' new path = walk ops M src path" if lp: "length path = Suc n" "\<forall>i \<in> set path. i < 512" for path
  proof -
    obtain i js where path: "path = i # js" using lp(1) by (cases path) auto
    then have i: "i < 512" and js: "length js = n" "\<forall>j \<in> set js. j < 512" using lp by auto
    have "walk ops M' new path = walk ops ?M0 src path"
      unfolding path by (rule walk_new_entry [OF u(4) [rule_format, OF i] zero ok js])
    also have "\<dots> = walk ops M src path" by (rule walk_cong [OF agree lp])
    finally show ?thesis .
  qed
  with len tab off show ?thesis
    unfolding cloned_def using alloc u(1) by (intro conjI exI [of _ "used @ [new]"]) auto
qed

lemma clones_Suc:
  assumes "0 < n \<Longrightarrow> clones pf n"
  shows "clones pf (Suc n)"
  unfolding clones_def
proof (intro allI impI)
  fix src M fa
  assume pool: "pool_ok frame_ok pf fa" and disj: "tables ops M (Suc n) src \<inter> set (free fa) = {}"
  show "if nodes ops M (Suc n) src \<le> length (free fa)
      then \<exists>new M' fa'. deep_clone_table ops pf (Suc n) src M fa = Inr (new, M', fa') \<and> cloned ops (Suc n) src M fa new M' fa'
      else deep_clone_table ops pf (Suc n) src M fa = Inl Panic"
  proof (cases "free fa = []")
    case True
    then show ?thesis by (simp add: deep_clone_table.simps alloc_frame_def)
  next
    case False
    then obtain new fa1 where al: "alloc_frame pf fa = Inr (Some new, fa1)" "free fa = free fa1 @ [new]"
      using alloc_frame_last [OF pool] by blast
    let ?M0 = "M(new := (\<lambda>_. 0))"
    have new: "new \<notin> set (free fa1)" and pool1: "pool_ok frame_ok pf fa1" using pool al(2) by (auto simp: pool_ok_def)
    have "\<forall>s \<in> tables ops M (Suc n) src. ?M0 s = M s" using disj al(2) by auto
    note same = tables_cong [OF this]
    have sum: "nodes ops M (Suc n) src = 1 + sum_list (map (entry_nodes ops (Suc n) src ?M0) table_indices)"
      using conjunct2 [OF same] by (simp only: nodes_entries)
    have "tables ops ?M0 (Suc n) src \<inter> insert new (set (free fa1)) = {}"
      unfolding conjunct1 [OF same] using disj unfolding al(2) by (simp only: set_append list.set) blast
    from clone_entries_cloned [OF _ pool1 new this, of "table_indices"] assms
    have "if sum_list (map (entry_nodes ops (Suc n) src ?M0) table_indices) \<le> length (free fa1)
      then \<exists>M' fa'. clone_entries ops pf (Suc n) src new table_indices ?M0 fa1 = Inr (M', fa') \<and>
        entries_cloned ops (Suc n) src new table_indices ?M0 fa1 M' fa'
      else clone_entries ops pf (Suc n) src new table_indices ?M0 fa1 = Inl Panic"
      by simp
    note loop = this
    have dct: "deep_clone_table ops pf (Suc n) src M fa =
        (case clone_entries ops pf (Suc n) src new table_indices ?M0 fa1 of Inl e \<Rightarrow> Inl e | Inr (M, fa) \<Rightarrow> Inr (new, M, fa))"
      by (simp add: deep_clone_table.simps al(1))
    have len: "nodes ops M (Suc n) src \<le> length (free fa) \<longleftrightarrow> sum_list (map (entry_nodes ops (Suc n) src ?M0) table_indices) \<le> length (free fa1)"
      unfolding sum al(2) by simp
    show ?thesis
    proof (cases "sum_list (map (entry_nodes ops (Suc n) src ?M0) table_indices) \<le> length (free fa1)")
      case True
      then obtain M' fa' where c: "clone_entries ops pf (Suc n) src new table_indices ?M0 fa1 = Inr (M', fa')"
        "entries_cloned ops (Suc n) src new table_indices ?M0 fa1 M' fa'"
        using loop by (simp only: if_True) blast
      have "deep_clone_table ops pf (Suc n) src M fa = Inr (new, M', fa')" unfolding dct c(1) by simp
      with cloned_root [OF al(2) pool disj c(2)] True show ?thesis unfolding len by (simp only: if_True) blast
    next
      case False
      then have "clone_entries ops pf (Suc n) src new table_indices ?M0 fa1 = Inl Panic" using loop by (simp only: if_False)
      with False show ?thesis unfolding len dct by (simp only: if_False sum.case)
    qed
  qed
qed

lemma clones_all: "clones pf (Suc n)"
  by (induction n) (auto intro: clones_Suc)

lemma deep_clone:
  assumes "pool_ok frame_ok pf fa" "tables ops M (Suc n) src \<inter> set (free fa) = {}"
  shows "if nodes ops M (Suc n) src \<le> length (free fa)
    then \<exists>new M' fa'. deep_clone_table ops pf (Suc n) src M fa = Inr (new, M', fa') \<and> cloned ops (Suc n) src M fa new M' fa'
    else deep_clone_table ops pf (Suc n) src M fa = Inl Panic"
  using clones_all assms unfolding clones_def by blast

end

text \<open>The entry format of the architecture: the address in bits 12 to 51, the rest flags.\<close>

definition x86_pte :: pte_ops where
  "x86_pte = \<lparr>is_unused = (\<lambda>e. e = 0), flags_of = (\<lambda>e. e AND NOT 0x000FFFFFFFFFF000), huge_flag = (\<lambda>fl. bit fl 7),
     addr_of = (\<lambda>e. e AND 0x000FFFFFFFFFF000), set_addr = (\<lambda>a fl. a OR fl)\<rparr>"

definition table_frame :: "u64 \<Rightarrow> bool" where
  "table_frame f \<longleftrightarrow> f \<noteq> 0 \<and> f AND 0x000FFFFFFFFFF000 = f"

lemma mask_split:
  "(f OR (e AND NOT m)) AND m = f AND m" "(f OR (e AND NOT m)) AND NOT m = (f AND NOT m) OR (e AND NOT m)"
  "(f AND m) AND NOT m = 0" for f e m :: u64
  by (rule bit_eqI; auto simp: bit_and_iff bit_or_iff bit_not_iff)+

interpretation x86: pte_format x86_pte table_frame
proof
  fix f e :: u64
  assume "table_frame f"
  then have f: "f \<noteq> 0" "f AND 0x000FFFFFFFFFF000 = f" by (auto simp: table_frame_def)
  let ?m = "0x000FFFFFFFFFF000 :: u64"
  have "(f OR (e AND NOT ?m)) AND ?m = f" using mask_split(1) [of f e ?m] f(2) by (simp only:)
  then show addr: "addr_of x86_pte (set_addr x86_pte f (flags_of x86_pte e)) = f" unfolding x86_pte_def by (simp only: pte_ops.simps)
  have "f AND NOT ?m = 0" using mask_split(3) [of f ?m] f(2) by (simp only:)
  then have "(f OR (e AND NOT ?m)) AND NOT ?m = e AND NOT ?m" using mask_split(2) [of f e ?m] by (simp only: or.left_neutral)
  then show "flags_of x86_pte (set_addr x86_pte f (flags_of x86_pte e)) = flags_of x86_pte e" unfolding x86_pte_def by (simp only: pte_ops.simps)
  show "\<not> is_unused x86_pte (set_addr x86_pte f (flags_of x86_pte e))"
    using addr f(1) by (auto simp: x86_pte_def)
qed (simp add: x86_pte_def)

section \<open>The mapping loop\<close>

text \<open>A mapper that keeps a log of its calls and answers as it likes, short of an unexpected error.\<close>

definition logged :: "(u64 \<Rightarrow> u64 \<Rightarrow> map_result) \<Rightarrow> u64 \<Rightarrow> u64 \<Rightarrow> (u64 \<times> u64) list \<Rightarrow> map_result \<times> (u64 \<times> u64) list" where
  "logged res v p log = (res v p, log @ [(v, p)])"

lemma mmio_loop_logged:
  assumes "\<forall>v p. res v p \<noteq> OtherMapError" "unat virt_end = unat v + 4096 * n"
  shows "mmio_loop (logged res) virt_end v p log =
    Some (Inr (log @ map (\<lambda>i. (v + of_nat (4096 * i), p + of_nat (4096 * i))) [0..<n]))"
  using assms(2)
proof (induction n arbitrary: v p log)
  case 0
  then show ?case by (subst mmio_loop.simps) (simp add: word_less_nat_alt)
next
  case (Suc n)
  have lt: "v < virt_end" using Suc.prems by (simp add: word_less_nat_alt)
  have "unat (v + 4096) = unat v + 4096"
    using Suc.prems unat_bound [of virt_end] by (subst unat_add_noof) simp_all
  then have "unat virt_end = unat (v + 4096) + 4096 * n" using Suc.prems by simp
  note ih = Suc.IH [OF this, of "p + 4096" "log @ [(v, p)]"]
  have "mmio_loop (logged res) virt_end v p log = mmio_loop (logged res) virt_end (v + 4096) (p + 4096) (log @ [(v, p)])"
    using lt assms(1) by (subst mmio_loop.simps) (simp add: logged_def)
  also note ih
  finally show ?case by (simp add: map_upt_Suc add.assoc del: upt_Suc)
qed

lemma unat_page_down: "unat (a AND NOT 0xFFF) = round_down_page (unat a)" for a :: u64
  using unat_align_down [of a] by (simp add: round_down_page_def)

lemma round_down_page_div: "round_down_page n = 4096 * (n div 4096)"
  by (simp add: round_down_page_def minus_mod_eq_mult_div)

text \<open>The frames that a byte range touches.\<close>

definition frames_touching :: "u64 \<Rightarrow> u64 \<Rightarrow> u64 set" where
  "frames_touching p len = {f. 4096 dvd unat f \<and> unat p < unat f + 4096 \<and> unat f < unat p + unat len}"

lemma frames_touching_eq:
  assumes "unat p + unat len + 4095 < 2 ^ 64"
  defines "n \<equiv> (unat p + unat len + 4095) div 4096 - unat p div 4096"
  shows "round_down_page (unat p + unat len + 4095) = round_down_page (unat p) + 4096 * n"
    and "(\<lambda>i. (p AND NOT 0xFFF) + of_nat (4096 * i)) ` {0..<n} = frames_touching p len"
proof -
  let ?lo = "unat p div 4096" and ?hi = "(unat p + unat len + 4095) div 4096"
  have le: "?lo \<le> ?hi" by (intro div_le_mono) simp
  then show "round_down_page (unat p + unat len + 4095) = round_down_page (unat p) + 4096 * n"
    by (simp add: round_down_page_div n_def algebra_simps)
  have hb: "4096 * ?hi < 2 ^ 64" using assms(1) by (metis le_less_trans times_div_less_eq_dividend)
  have el: "unat ((p AND NOT 0xFFF) + of_nat (4096 * i)) = 4096 * (?lo + i)" if "i < n" for i
  proof -
    define al where "al = p AND NOT 0xFFF"
    have al: "unat al = 4096 * ?lo" unfolding al_def unat_page_down round_down_page_div ..
    have "?lo + i < ?hi" using that by (simp add: n_def)
    then have b: "4096 * ?lo + 4096 * i < 2 ^ 64" using hb by linarith
    then have u: "unat (of_nat (4096 * i) :: u64) = 4096 * i" by (intro unat_of_nat_small) simp
    have "unat (al + of_nat (4096 * i)) = unat al + unat (of_nat (4096 * i) :: u64)"
      by (rule unat_add_noof) (use b in \<open>simp only: al u len_of_numeral_defs\<close>, simp)
    then have "unat (al + of_nat (4096 * i)) = 4096 * (?lo + i)" unfolding al u distrib_left .
    then show ?thesis by (simp only: al_def)
  qed
  have touch: "f \<in> frames_touching p len \<longleftrightarrow> (\<exists>q. unat f = 4096 * q \<and> ?lo \<le> q \<and> q < ?hi)" for f
  proof -
    have "unat p < 4096 * q + 4096 \<longleftrightarrow> ?lo \<le> q" for q
      using div_less_iff_less_mult [of 4096 "unat p" "q + 1"] by (simp add: algebra_simps less_Suc_eq_le)
    moreover have "4096 * q < unat p + unat len \<longleftrightarrow> q < ?hi" for q
      using less_eq_div_iff_mult_less_eq [of 4096 "q + 1" "unat p + unat len + 4095"] by (simp add: algebra_simps less_eq_Suc_le)
    ultimately show ?thesis by (auto simp: frames_touching_def)
  qed
  show "(\<lambda>i. (p AND NOT 0xFFF) + of_nat (4096 * i)) ` {0..<n} = frames_touching p len" (is "?F ` _ = _")
  proof (intro equalityI subsetI)
    fix f assume "f \<in> ?F ` {0..<n}"
    then obtain i where i: "i < n" "f = ?F i" by auto
    then have "unat f = 4096 * (?lo + i)" "?lo \<le> ?lo + i" "?lo + i < ?hi" using el by (simp_all add: n_def)
    then show "f \<in> frames_touching p len" unfolding touch by blast
  next
    fix f assume "f \<in> frames_touching p len"
    then obtain q where q: "unat f = 4096 * q" "?lo \<le> q" "q < ?hi" unfolding touch by blast
    then have "q - ?lo < n" "unat (?F (q - ?lo)) = unat f" using el [of "q - ?lo"] by (simp_all add: n_def)
    then show "f \<in> ?F ` {0..<n}" unfolding unat_cancel by force
  qed
qed

section \<open>Properties\<close>

text \<open>
  C3. Taking over the page tables changes no mapping: if the pool has a frame for every table of
  the live tree, paging::init switches to a tree that translates every virtual page exactly as
  before, with the same flags at every level, the same leaf entry and the same page size; every
  table of the new tree lies in a frame it took from the pool, and no memory outside those
  frames is written. With fewer frames it panics and CR3 is not changed.
\<close>

theorem paging_init_same_mappings:
  assumes "pte_format ops ok" "pool_ok ok pf fa" "tables ops (tabs p) 4 (cr3 p) \<inter> set (free fa) = {}"
  shows "if nodes ops (tabs p) 4 (cr3 p) \<le> length (free fa)
    then \<exists>p' fa' used. paging_init ops pf off p fa = Inr (p', fa') \<and> free fa = free fa' @ used \<and>
      (\<forall>path. length path = 4 \<and> (\<forall>i \<in> set path. i < 512) \<longrightarrow> walk ops (tabs p') (cr3 p') path = walk ops (tabs p) (cr3 p) path) \<and>
      tables ops (tabs p') 4 (cr3 p') \<subseteq> set used \<and> (\<forall>s. s \<notin> set used \<longrightarrow> tabs p' s = tabs p s) \<and>
      hhdm_offset p' = off \<and> kernel_pml4_phys p' = cr3 p'
    else paging_init ops pf off p fa = Inl Panic"
proof -
  have four: "(4 :: nat) = Suc 3" by simp
  note dc = pte_format.deep_clone [OF assms(1,2), of "tabs p" 3 "cr3 p", folded four, OF assms(3)]
  show ?thesis
  proof (cases "nodes ops (tabs p) 4 (cr3 p) \<le> length (free fa)")
    case True
    then obtain new M fa' where c: "deep_clone_table ops pf 4 (cr3 p) (tabs p) fa = Inr (new, M, fa')" "cloned ops 4 (cr3 p) (tabs p) fa new M fa'"
      using dc by (simp only: if_True) blast
    obtain used where u: "free fa = free fa' @ used" "tables ops M 4 new \<subseteq> set used" "\<forall>s. s \<notin> set used \<longrightarrow> M s = tabs p s"
      and w: "\<forall>path. length path = 4 \<longrightarrow> (\<forall>i \<in> set path. i < 512) \<longrightarrow> walk ops M new path = walk ops (tabs p) (cr3 p) path"
      using c(2) unfolding cloned_def by blast
    let ?p = "p\<lparr>hhdm_offset := off, cr3 := new, kernel_pml4_phys := new, tabs := M\<rparr>"
    have "paging_init ops pf off p fa = Inr (?p, fa')" by (simp add: paging_init_def c(1))
    then show ?thesis unfolding if_P [OF True] using u w by (intro exI [of _ ?p] exI [of _ fa'] exI [of _ used]) simp
  next
    case False
    with dc show ?thesis by (simp add: paging_init_def)
  qed
qed

text \<open>
  map\_mmio covers exactly what it is asked for: for a page-aligned offset and a range that
  does not wrap, it returns after one mapping request for each 4-KiB frame the range touches, at
  that frame's address plus the offset, and for no other frame, whichever of the accepted answers
  the mapper gives.
\<close>

theorem map_mmio_exact:
  assumes "\<forall>v p. res v p \<noteq> OtherMapError" "4096 dvd unat off" "unat p + unat off + unat len + 4095 < 2 ^ 64"
  shows "\<exists>log. map_mmio (logged res) off p len [] = Some (Inr log) \<and> set log = (\<lambda>f. (f + off, f)) ` frames_touching p len"
proof -
  have fit: "unat p + unat len + 4095 < 2 ^ 64" using assms(3) by linarith
  note ft = frames_touching_eq [OF fit]
  let ?n = "(unat p + unat len + 4095) div 4096 - unat p div 4096"
  obtain k where k: "unat off = 4096 * k" using assms(2) by blast
  have shift: "round_down_page (m + unat off) = round_down_page m + unat off" for m by (simp add: round_down_page_div k)
  have po: "unat (p + off) = unat p + unat off" using assms(3) by (intro unat_add_noof) simp
  have start: "(p + off) AND NOT 0xFFF = (p AND NOT 0xFFF) + off"
  proof -
    define al where "al = p AND NOT 0xFFF"
    have al: "unat al = round_down_page (unat p)" unfolding al_def unat_page_down ..
    have "unat (al + off) = round_down_page (unat p) + unat off"
      unfolding al [symmetric] using assms(3) al by (intro unat_add_noof) (simp add: round_down_page_def)
    then show ?thesis unfolding unat_cancel [symmetric] unat_page_down po shift al_def by (rule sym)
  qed
  have "unat (p + off + len + 0xFFF) = unat p + unat len + 4095 + unat off"
    using assms(3) po by (simp add: unat_add_noof)
  then have "unat ((p + off + len + 0xFFF) AND NOT 0xFFF) = unat ((p + off) AND NOT 0xFFF) + 4096 * ?n"
    unfolding unat_page_down po shift by (simp only: ft(1) shift)
  note loop = mmio_loop_logged [OF assms(1) this, of "p AND NOT 0xFFF" "[]"]
  have "(\<lambda>i. ((p AND NOT 0xFFF) + off + of_nat (4096 * i), (p AND NOT 0xFFF) + of_nat (4096 * i))) ` {0..<?n} =
      (\<lambda>f. (f + off, f)) ` frames_touching p len"
    unfolding ft(2) [symmetric] image_image by (simp add: algebra_simps)
  then show ?thesis unfolding map_mmio_def Let_def using loop start by (simp only: append_Nil set_map set_upt option.inject sum.inject ex_simps) auto
qed

section \<open>Witnesses\<close>

text \<open>A live tree of one PML4 with one huge entry, and a pool of one frame.\<close>

definition demo_tabs :: table_mem where
  "demo_tabs t i = (if t = 0x1000 \<and> i = 3 then 0x200083 else 0)"

definition demo_paging :: paging where
  "demo_paging = \<lparr>hhdm_offset = 0, kernel_pml4_phys = 0, cr3 = 0x1000, tabs = demo_tabs\<rparr>"

definition one_frame :: frame_allocator where
  "one_frame = \<lparr>free = [0x5000], total_added_ctr = 1\<rparr>"

lemma demo_no_child: "\<not> child_idx x86_pte demo_tabs n 0x1000 i"
proof -
  have "bit (0x83 :: u64) 7" by (simp add: bit_iff_odd)
  then show ?thesis by (simp add: child_idx_def x86_pte_def demo_tabs_def)
qed

lemma demo_tree: "tables x86_pte demo_tabs 4 0x1000 = {0x1000}" "nodes x86_pte demo_tabs 4 0x1000 = 1"
proof -
  have four: "(4 :: nat) = Suc 3" by simp
  show "tables x86_pte demo_tabs 4 0x1000 = {0x1000}" by (subst four, subst tables.simps) (simp add: demo_no_child)
  show "nodes x86_pte demo_tabs 4 0x1000 = 1" by (subst four, subst nodes.simps) (simp add: demo_no_child)
qed

theorem paging_init_same_mappings_witness:
  "\<exists>p' fa'. paging_init x86_pte x86_phys_frame 0xFFFF800000000000 demo_paging one_frame = Inr (p', fa') \<and>
     walk x86_pte (tabs p') (cr3 p') [3, 0, 0, 0] = walk x86_pte demo_tabs 0x1000 [3, 0, 0, 0]"
proof -
  have pool: "pool_ok table_frame x86_phys_frame one_frame"
    by (simp add: pool_ok_def one_frame_def table_frame_def x86_phys_frame_def)
  have fits: "nodes x86_pte (tabs demo_paging) 4 (cr3 demo_paging) \<le> length (free one_frame)"
    by (simp add: demo_paging_def demo_tree one_frame_def)
  have "tables x86_pte (tabs demo_paging) 4 (cr3 demo_paging) \<inter> set (free one_frame) = {}"
    by (simp add: demo_paging_def demo_tree one_frame_def)
  from paging_init_same_mappings [OF x86.pte_format_axioms pool this, of "0xFFFF800000000000", unfolded if_P [OF fits]]
  obtain p' fa' where "paging_init x86_pte x86_phys_frame 0xFFFF800000000000 demo_paging one_frame = Inr (p', fa')"
    and w: "\<forall>path. length path = 4 \<and> (\<forall>i \<in> set path. i < 512) \<longrightarrow> walk x86_pte (tabs p') (cr3 p') path = walk x86_pte (tabs demo_paging) (cr3 demo_paging) path"
    by blast
  moreover from w have "walk x86_pte (tabs p') (cr3 p') [3, 0, 0, 0] = walk x86_pte (tabs demo_paging) (cr3 demo_paging) [3, 0, 0, 0]"
    by (elim allE [of _ "[3, 0, 0, 0]"]) simp
  ultimately show ?thesis by (auto simp: demo_paging_def)
qed

theorem map_mmio_exact_witness:
  "\<exists>log. map_mmio (logged (\<lambda>v p. Mapped)) 0x100000 0xFEC00010 0x20 [] = Some (Inr log) \<and>
     set log = (\<lambda>f. (f + 0x100000, f)) ` frames_touching 0xFEC00010 0x20"
  by (rule map_mmio_exact) simp_all

end
