(* ===== verification/Klist.thy ===== *)
theory Klist
  imports Prelude
begin

text \<open>
  The intrusive doubly-linked list of the LinuxKPI shim (linuxkpi/src/list.rs). Memory is a map
  from addresses to the list nodes that live there; a load or store through a pointer that
  addresses no node is undefined behaviour. A circular list through a sentinel represents the
  sequence of its entries (\<open>is_list\<close>), several disjoint lists represent a map from sentinels to
  sequences (\<open>lists_rep\<close>), and every sequence of list operations that respects the documented
  contracts acts on the memory as the operations on sequences act on that map.
\<close>

section \<open>Nodes and operations\<close>

record list_head =
  lh_next :: u64
  lh_prev :: u64

type_synonym list_mem = "u64 \<rightharpoonup> list_head"

definition list_head_new :: list_head where
  "list_head_new = \<lparr>lh_next = 0, lh_prev = 0\<rparr>"

definition load_node :: "list_mem \<Rightarrow> u64 \<Rightarrow> list_head outcome" where
  "load_node h p = (case h p of None \<Rightarrow> Inl Undefined | Some n \<Rightarrow> Inr n)"

definition set_next :: "u64 \<Rightarrow> u64 \<Rightarrow> list_mem \<Rightarrow> list_mem outcome" where
  "set_next p v h = and_then (load_node h p) (\<lambda>n. Inr (h(p \<mapsto> n\<lparr>lh_next := v\<rparr>)))"

definition set_prev :: "u64 \<Rightarrow> u64 \<Rightarrow> list_mem \<Rightarrow> list_mem outcome" where
  "set_prev p v h = and_then (load_node h p) (\<lambda>n. Inr (h(p \<mapsto> n\<lparr>lh_prev := v\<rparr>)))"

definition INIT_LIST_HEAD :: "u64 \<Rightarrow> list_mem \<Rightarrow> list_mem outcome" where
  "INIT_LIST_HEAD l h =
     (if l = 0 then Inr h
      else and_then (set_next l l h) (\<lambda>h. set_prev l l h))"

definition list_add_between :: "u64 \<Rightarrow> u64 \<Rightarrow> u64 \<Rightarrow> list_mem \<Rightarrow> list_mem outcome" where
  "list_add_between nw p n h =
     and_then (set_prev n nw h) (\<lambda>h.
     and_then (set_next nw n h) (\<lambda>h.
     and_then (set_prev nw p h) (\<lambda>h.
     set_next p nw h)))"

definition list_add :: "u64 \<Rightarrow> u64 \<Rightarrow> list_mem \<Rightarrow> list_mem outcome" where
  "list_add nw head h =
     (if nw = 0 \<or> head = 0 then Inr h
      else and_then (load_node h head) (\<lambda>n. list_add_between nw head (lh_next n) h))"

definition list_add_tail :: "u64 \<Rightarrow> u64 \<Rightarrow> list_mem \<Rightarrow> list_mem outcome" where
  "list_add_tail nw head h =
     (if nw = 0 \<or> head = 0 then Inr h
      else and_then (load_node h head) (\<lambda>n. list_add_between nw (lh_prev n) head h))"

definition list_del :: "u64 \<Rightarrow> list_mem \<Rightarrow> list_mem outcome" where
  "list_del e h =
     (if e = 0 then Inr h
      else and_then (load_node h e) (\<lambda>n.
           let p = lh_prev n; nx = lh_next n in
           and_then (set_prev nx p h) (\<lambda>h.
           and_then (set_next p nx h) (\<lambda>h.
           and_then (set_next e e h) (\<lambda>h.
           set_prev e e h)))))"

definition list_empty :: "u64 \<Rightarrow> list_mem \<Rightarrow> int outcome" where
  "list_empty head h =
     (if head = 0 then Inr 1
      else and_then (load_node h head) (\<lambda>n. Inr (if lh_next n = head then 1 else 0)))"

section \<open>The sequence a circular list represents\<close>

definition linked :: "list_mem \<Rightarrow> u64 \<Rightarrow> u64 \<Rightarrow> bool" where
  "linked h a b =
     (case (h a, h b) of
        (Some m, Some n) \<Rightarrow> lh_next m = b \<and> lh_prev n = a
      | _ \<Rightarrow> False)"

fun chain :: "list_mem \<Rightarrow> u64 \<Rightarrow> u64 list \<Rightarrow> bool" where
  "chain h a [] = True"
| "chain h a (b # bs) = (linked h a b \<and> chain h b bs)"

definition is_list :: "list_mem \<Rightarrow> u64 \<Rightarrow> u64 list \<Rightarrow> bool" where
  "is_list h head xs =
     (distinct (head # xs) \<and> 0 \<notin> set (head # xs) \<and> chain h head (xs @ [head]))"

lemma chain_append: "chain h a (xs @ ys) \<longleftrightarrow> chain h a xs \<and> chain h (last (a # xs)) ys"
  by (induction xs arbitrary: a) auto

lemma chain_frame:
  assumes "chain h a xs"
    and "\<And>x. x \<in> set (butlast (a # xs)) \<Longrightarrow> map_option lh_next (h' x) = map_option lh_next (h x)"
    and "\<And>x. x \<in> set xs \<Longrightarrow> map_option lh_prev (h' x) = map_option lh_prev (h x)"
  shows "chain h' a xs"
  using assms
proof (induction xs arbitrary: a)
  case (Cons b bs)
  have "linked h a b" using Cons.prems(1) by simp
  moreover have "map_option lh_next (h' a) = map_option lh_next (h a)"
    using Cons.prems(2) [of a] by simp
  moreover have "map_option lh_prev (h' b) = map_option lh_prev (h b)"
    using Cons.prems(3) [of b] by simp
  ultimately have "linked h' a b" by (auto simp: linked_def split: option.splits)
  moreover have "chain h' b bs"
  proof (rule Cons.IH)
    show "chain h b bs" using Cons.prems(1) by simp
  next
    fix x assume "x \<in> set (butlast (b # bs))"
    then show "map_option lh_next (h' x) = map_option lh_next (h x)"
      using Cons.prems(2) [of x] by simp
  next
    fix x assume "x \<in> set bs"
    then show "map_option lh_prev (h' x) = map_option lh_prev (h x)"
      using Cons.prems(3) [of x] by simp
  qed
  ultimately show ?case by simp
qed simp

lemma is_list_frame:
  assumes "is_list h head xs" "\<And>x. x \<in> set (head # xs) \<Longrightarrow> h' x = h x"
  shows "is_list h' head xs"
  using assms chain_frame [of h head "xs @ [head]" h'] by (auto simp: is_list_def butlast_append)

lemma linked_dom: "linked h a b \<Longrightarrow> a \<in> dom h \<and> b \<in> dom h"
  by (auto simp: linked_def split: option.splits)

lemma chain_dom: "chain h a xs \<Longrightarrow> set xs \<subseteq> dom h"
  by (induction xs arbitrary: a) (auto dest: linked_dom)

lemma is_list_dom: "is_list h head xs \<Longrightarrow> set (head # xs) \<subseteq> dom h"
  using chain_dom [of h head "xs @ [head]"] by (auto simp: is_list_def)

lemma list_empty_iff:
  assumes "is_list h head xs"
  shows "list_empty head h = Inr (if xs = [] then 1 else 0)"
proof -
  obtain n where n: "h head = Some n" using is_list_dom [OF assms] by auto
  have "lh_next n = hd (xs @ [head])"
    using assms n by (cases xs) (auto simp: is_list_def linked_def split: option.splits)
  then show ?thesis using assms n by (cases xs) (auto simp: list_empty_def load_node_def is_list_def)
qed

section \<open>Insertion and removal\<close>

abbreviation next_of :: "list_mem \<Rightarrow> u64 \<Rightarrow> u64 option" where
  "next_of h x \<equiv> map_option lh_next (h x)"

abbreviation prev_of :: "list_mem \<Rightarrow> u64 \<Rightarrow> u64 option" where
  "prev_of h x \<equiv> map_option lh_prev (h x)"

lemma linked_iff: "linked h a b \<longleftrightarrow> next_of h a = Some b \<and> prev_of h b = Some a"
  by (auto simp: linked_def split: option.splits)

lemma set_next_eff:
  assumes "p \<in> dom h"
  obtains h' where "set_next p v h = Inr h'" "dom h' = dom h"
    "\<And>x. next_of h' x = (if x = p then Some v else next_of h x)"
    "\<And>x. prev_of h' x = prev_of h x" "\<And>x. x \<noteq> p \<Longrightarrow> h' x = h x"
proof -
  obtain n where "h p = Some n" using assms by blast
  then show ?thesis
    by (intro that [of "h(p \<mapsto> n\<lparr>lh_next := v\<rparr>)"]) (auto simp: set_next_def load_node_def)
qed

lemma set_prev_eff:
  assumes "p \<in> dom h"
  obtains h' where "set_prev p v h = Inr h'" "dom h' = dom h"
    "\<And>x. prev_of h' x = (if x = p then Some v else prev_of h x)"
    "\<And>x. next_of h' x = next_of h x" "\<And>x. x \<noteq> p \<Longrightarrow> h' x = h x"
proof -
  obtain n where "h p = Some n" using assms by blast
  then show ?thesis
    by (intro that [of "h(p \<mapsto> n\<lparr>lh_prev := v\<rparr>)"]) (auto simp: set_prev_def load_node_def)
qed

text \<open>The four stores of an insertion and of a removal, whatever nodes coincide.\<close>

lemma list_add_between_eff:
  assumes d: "nw \<in> dom h" "p \<in> dom h" "n \<in> dom h" and ne: "nw \<noteq> p" "nw \<noteq> n"
  obtains h' where "list_add_between nw p n h = Inr h'" "dom h' = dom h"
    "\<And>x. next_of h' x = (if x = p then Some nw else if x = nw then Some n else next_of h x)"
    "\<And>x. prev_of h' x = (if x = n then Some nw else if x = nw then Some p else prev_of h x)"
    "\<And>x. x \<noteq> p \<Longrightarrow> x \<noteq> n \<Longrightarrow> x \<noteq> nw \<Longrightarrow> h' x = h x"
proof -
  obtain h1 where 1: "set_prev n nw h = Inr h1" "dom h1 = dom h"
    "\<And>x. prev_of h1 x = (if x = n then Some nw else prev_of h x)"
    "\<And>x. next_of h1 x = next_of h x" "\<And>x. x \<noteq> n \<Longrightarrow> h1 x = h x"
    using set_prev_eff [of n h nw] d by blast
  obtain h2 where 2: "set_next nw n h1 = Inr h2" "dom h2 = dom h1"
    "\<And>x. next_of h2 x = (if x = nw then Some n else next_of h1 x)"
    "\<And>x. prev_of h2 x = prev_of h1 x" "\<And>x. x \<noteq> nw \<Longrightarrow> h2 x = h1 x"
    using set_next_eff [of nw h1 n] d 1(2) by blast
  obtain h3 where 3: "set_prev nw p h2 = Inr h3" "dom h3 = dom h2"
    "\<And>x. prev_of h3 x = (if x = nw then Some p else prev_of h2 x)"
    "\<And>x. next_of h3 x = next_of h2 x" "\<And>x. x \<noteq> nw \<Longrightarrow> h3 x = h2 x"
    using set_prev_eff [of nw h2 p] d 1(2) 2(2) by blast
  obtain h4 where 4: "set_next p nw h3 = Inr h4" "dom h4 = dom h3"
    "\<And>x. next_of h4 x = (if x = p then Some nw else next_of h3 x)"
    "\<And>x. prev_of h4 x = prev_of h3 x" "\<And>x. x \<noteq> p \<Longrightarrow> h4 x = h3 x"
    using set_next_eff [of p h3 nw] d 1(2) 2(2) 3(2) by blast
  show ?thesis
  proof (rule that [of h4])
    show "list_add_between nw p n h = Inr h4"
      by (simp add: list_add_between_def 1(1) 2(1) 3(1) 4(1))
  qed (use 1 2 3 4 ne in auto)
qed

lemma list_del_eff:
  assumes n0: "e \<noteq> 0" and l: "linked h p e" "linked h e n" and ne: "e \<noteq> p" "e \<noteq> n"
  obtains h' where "list_del e h = Inr h'" "dom h' = dom h"
    "\<And>x. next_of h' x = (if x = e then Some e else if x = p then Some n else next_of h x)"
    "\<And>x. prev_of h' x = (if x = e then Some e else if x = n then Some p else prev_of h x)"
    "\<And>x. x \<noteq> p \<Longrightarrow> x \<noteq> n \<Longrightarrow> x \<noteq> e \<Longrightarrow> h' x = h x"
proof -
  have d: "e \<in> dom h" "p \<in> dom h" "n \<in> dom h" using l by (auto dest: linked_dom)
  obtain m where m: "h e = Some m" "lh_prev m = p" "lh_next m = n"
    using l by (auto simp: linked_def split: option.splits)
  obtain h1 where 1: "set_prev n p h = Inr h1" "dom h1 = dom h"
    "\<And>x. prev_of h1 x = (if x = n then Some p else prev_of h x)"
    "\<And>x. next_of h1 x = next_of h x" "\<And>x. x \<noteq> n \<Longrightarrow> h1 x = h x"
    using set_prev_eff [of n h p] d by blast
  obtain h2 where 2: "set_next p n h1 = Inr h2" "dom h2 = dom h1"
    "\<And>x. next_of h2 x = (if x = p then Some n else next_of h1 x)"
    "\<And>x. prev_of h2 x = prev_of h1 x" "\<And>x. x \<noteq> p \<Longrightarrow> h2 x = h1 x"
    using set_next_eff [of p h1 n] d 1(2) by blast
  obtain h3 where 3: "set_next e e h2 = Inr h3" "dom h3 = dom h2"
    "\<And>x. next_of h3 x = (if x = e then Some e else next_of h2 x)"
    "\<And>x. prev_of h3 x = prev_of h2 x" "\<And>x. x \<noteq> e \<Longrightarrow> h3 x = h2 x"
    using set_next_eff [of e h2 e] d 1(2) 2(2) by blast
  obtain h4 where 4: "set_prev e e h3 = Inr h4" "dom h4 = dom h3"
    "\<And>x. prev_of h4 x = (if x = e then Some e else prev_of h3 x)"
    "\<And>x. next_of h4 x = next_of h3 x" "\<And>x. x \<noteq> e \<Longrightarrow> h4 x = h3 x"
    using set_prev_eff [of e h3 e] d 1(2) 2(2) 3(2) by blast
  show ?thesis
  proof (rule that [of h4])
    show "list_del e h = Inr h4"
      using n0 m by (simp add: list_del_def load_node_def 1(1) 2(1) 3(1) 4(1))
  qed (use 1 2 3 4 ne in auto)
qed

lemma chain_split_list:
  "chain h head (xs @ ys @ [head]) \<longleftrightarrow>
     chain h head xs \<and> linked h (last (head # xs)) (hd (ys @ [head])) \<and>
     chain h (hd (ys @ [head])) (tl (ys @ [head]))"
  by (cases ys) (auto simp: chain_append)

lemma butlast_last_notin: "distinct (a # xs) \<Longrightarrow> last (a # xs) \<notin> set (butlast (a # xs))"
  by (metis append_butlast_last_id distinct_butlast list.discI not_distinct_conv_prefix)

text \<open>The two halves of a list keep their links when only the joint changes.\<close>

lemma chain_halves:
  assumes dist: "distinct (head # xs @ ys)"
    and ch: "chain h head xs" "chain h (hd (ys @ [head])) (tl (ys @ [head]))"
    and nx: "\<And>x. x \<in> set (head # xs @ ys) \<Longrightarrow> x \<noteq> last (head # xs) \<Longrightarrow> next_of h' x = next_of h x"
    and pv: "\<And>x. x \<in> set (head # xs @ ys) \<Longrightarrow> x \<noteq> hd (ys @ [head]) \<Longrightarrow> prev_of h' x = prev_of h x"
  shows "chain h' head xs \<and> chain h' (hd (ys @ [head])) (tl (ys @ [head]))"
proof
  show "chain h' head xs"
  proof (rule chain_frame [OF ch(1)])
    fix x assume x: "x \<in> set (butlast (head # xs))"
    then have "x \<noteq> last (head # xs)" using butlast_last_notin [of head xs] dist by auto
    then show "next_of h' x = next_of h x" using nx x by (auto dest: in_set_butlastD split: if_splits)
  next
    fix x assume "x \<in> set xs"
    moreover have "x \<noteq> hd (ys @ [head])" using \<open>x \<in> set xs\<close> dist by (cases ys) auto
    ultimately show "prev_of h' x = prev_of h x" using pv by auto
  qed
  show "chain h' (hd (ys @ [head])) (tl (ys @ [head]))"
  proof (rule chain_frame [OF ch(2)])
    fix x assume "x \<in> set (butlast (hd (ys @ [head]) # tl (ys @ [head])))"
    then have "x \<in> set ys" by (simp add: butlast_append)
    moreover have "x \<noteq> last (head # xs)"
      using \<open>x \<in> set ys\<close> dist last_in_set [of "head # xs"] by auto
    ultimately show "next_of h' x = next_of h x" using nx by auto
  next
    fix x assume "x \<in> set (tl (ys @ [head]))"
    then show "prev_of h' x = prev_of h x" using pv [of x] dist by (cases ys) auto
  qed
qed

lemma list_add_between_is_list:
  assumes l: "is_list h head (xs @ ys)" and nw: "nw \<in> dom h" "nw \<noteq> 0" "nw \<notin> set (head # xs @ ys)"
  obtains h' where "list_add_between nw (last (head # xs)) (hd (ys @ [head])) h = Inr h'"
    "is_list h' head (xs @ nw # ys)" "dom h' = dom h"
    "\<And>x. x \<notin> set (head # nw # xs @ ys) \<Longrightarrow> h' x = h x"
proof -
  define p n where "p = last (head # xs)" and "n = hd (ys @ [head])"
  have pm: "p \<in> set (head # xs)" unfolding p_def using last_in_set [of "head # xs"] by blast
  have nm: "n \<in> set (head # ys)" unfolding n_def by (cases ys) auto
  have d: "p \<in> dom h" "n \<in> dom h" using is_list_dom [OF l] pm nm by auto
  have ne: "nw \<noteq> p" "nw \<noteq> n" using pm nm nw(3) by auto
  obtain h' where h': "list_add_between nw p n h = Inr h'" "dom h' = dom h"
    "\<And>x. next_of h' x = (if x = p then Some nw else if x = nw then Some n else next_of h x)"
    "\<And>x. prev_of h' x = (if x = n then Some nw else if x = nw then Some p else prev_of h x)"
    "\<And>x. x \<noteq> p \<Longrightarrow> x \<noteq> n \<Longrightarrow> x \<noteq> nw \<Longrightarrow> h' x = h x"
    using list_add_between_eff [OF nw(1) d ne] by blast
  have dist: "distinct (head # xs @ ys)" using l by (simp add: is_list_def)
  have ch: "chain h head xs" "chain h n (tl (ys @ [head]))"
    using l by (auto simp: is_list_def chain_split_list [simplified] n_def)
  have "chain h' head xs \<and> chain h' n (tl (ys @ [head]))"
    unfolding n_def
    by (rule chain_halves [OF dist ch [unfolded n_def]])
      (use h'(3, 4) nw(3) in \<open>auto simp: p_def n_def\<close>)
  moreover have "linked h' p nw" "linked h' nw n"
    using ne by (auto simp: linked_iff h'(3, 4))
  ultimately have "chain h' head (xs @ nw # ys @ [head])"
    unfolding chain_append p_def [symmetric] by (cases ys) (auto simp: n_def)
  then have "is_list h' head (xs @ nw # ys)" using l nw by (auto simp: is_list_def)
  moreover have "h' x = h x" if "x \<notin> set (head # nw # xs @ ys)" for x
    using that h'(5) [of x] pm nm by auto
  ultimately show ?thesis using h'(1, 2) that unfolding p_def n_def by blast
qed

lemma list_del_is_list:
  assumes l: "is_list h head (xs @ e # ys)"
  obtains h' where "list_del e h = Inr h'" "is_list h' head (xs @ ys)" "is_list h' e []"
    "dom h' = dom h" "\<And>x. x \<notin> set (head # xs @ e # ys) \<Longrightarrow> h' x = h x"
proof -
  define p n where "p = last (head # xs)" and "n = hd (ys @ [head])"
  have pm: "p \<in> set (head # xs)" unfolding p_def using last_in_set [of "head # xs"] by blast
  have nm: "n \<in> set (head # ys)" unfolding n_def by (cases ys) auto
  have dist: "distinct (head # xs @ e # ys)" "e \<noteq> 0" using l by (auto simp: is_list_def)
  then have ne: "e \<noteq> p" "e \<noteq> n" using pm nm by auto
  have ch: "chain h head xs" "linked h p e" "chain h e (ys @ [head])"
    using l by (auto simp: is_list_def chain_append p_def)
  then have ln: "linked h e n" "chain h n (tl (ys @ [head]))" by (cases ys; simp add: n_def)+
  obtain h' where h': "list_del e h = Inr h'" "dom h' = dom h"
    "\<And>x. next_of h' x = (if x = e then Some e else if x = p then Some n else next_of h x)"
    "\<And>x. prev_of h' x = (if x = e then Some e else if x = n then Some p else prev_of h x)"
    "\<And>x. x \<noteq> p \<Longrightarrow> x \<noteq> n \<Longrightarrow> x \<noteq> e \<Longrightarrow> h' x = h x"
    using list_del_eff [OF dist(2) ch(2) ln(1) ne] by blast
  have "distinct (head # xs @ ys)" using dist by auto
  then have "chain h' head xs \<and> chain h' n (tl (ys @ [head]))"
    unfolding n_def
    by (rule chain_halves [OF _ ch(1) ln(2) [unfolded n_def]])
      (use h'(3, 4) dist in \<open>auto simp: p_def n_def\<close>)
  moreover have "linked h' p n" using ne by (auto simp: linked_iff h'(3, 4))
  ultimately have "chain h' head (xs @ ys @ [head])"
    unfolding chain_split_list p_def n_def by blast
  then have "is_list h' head (xs @ ys)" using l by (auto simp: is_list_def)
  moreover have "is_list h' e []"
    using dist(2) by (simp add: is_list_def linked_iff h'(3, 4))
  moreover have "h' x = h x" if "x \<notin> set (head # xs @ e # ys)" for x
    using that h'(5) [of x] pm nm by auto
  ultimately show ?thesis using h'(1, 2) that by blast
qed

lemma is_list_head_node:
  assumes "is_list h head xs"
  obtains n where "h head = Some n" "lh_next n = hd (xs @ [head])" "lh_prev n = last (head # xs)"
proof -
  obtain n where n: "h head = Some n" using is_list_dom [OF assms] by auto
  have c: "chain h head (xs @ [head])" using assms by (simp add: is_list_def)
  have "lh_next n = hd (xs @ [head])" using c n by (cases xs) (auto simp: linked_iff)
  moreover have "lh_prev n = last (head # xs)" using c n by (auto simp: chain_append linked_iff)
  ultimately show ?thesis using n that by blast
qed

lemma list_add_is_list:
  assumes l: "is_list h head xs" and nw: "nw \<in> dom h" "nw \<noteq> 0" "nw \<notin> set (head # xs)"
  obtains h' where "list_add nw head h = Inr h'" "is_list h' head (nw # xs)" "dom h' = dom h"
    "\<And>x. x \<notin> set (head # nw # xs) \<Longrightarrow> h' x = h x"
proof -
  obtain n where n: "h head = Some n" "lh_next n = hd (xs @ [head])"
    using is_list_head_node [OF l] by blast
  have "head \<noteq> 0" using l by (auto simp: is_list_def)
  then have "list_add nw head h = list_add_between nw head (hd (xs @ [head])) h"
    using n nw by (simp add: list_add_def load_node_def)
  then show ?thesis
    using list_add_between_is_list [of h head "[]" xs nw] l nw that by auto
qed

lemma list_add_tail_is_list:
  assumes l: "is_list h head xs" and nw: "nw \<in> dom h" "nw \<noteq> 0" "nw \<notin> set (head # xs)"
  obtains h' where "list_add_tail nw head h = Inr h'" "is_list h' head (xs @ [nw])"
    "dom h' = dom h" "\<And>x. x \<notin> set (head # nw # xs) \<Longrightarrow> h' x = h x"
proof -
  obtain n where n: "h head = Some n" "lh_prev n = last (head # xs)"
    using is_list_head_node [OF l] by blast
  have "head \<noteq> 0" using l by (auto simp: is_list_def)
  then have "list_add_tail nw head h = list_add_between nw (last (head # xs)) head h"
    using n nw by (simp add: list_add_tail_def load_node_def)
  then show ?thesis
    using list_add_between_is_list [of h head xs "[]" nw] l nw that by auto
qed

lemma INIT_LIST_HEAD_is_list:
  assumes "p \<in> dom h" "p \<noteq> 0"
  obtains h' where "INIT_LIST_HEAD p h = Inr h'" "is_list h' p []" "dom h' = dom h"
    "\<And>x. x \<noteq> p \<Longrightarrow> h' x = h x"
proof -
  obtain n where "h p = Some n" using assms(1) by blast
  then show ?thesis
    by (intro that [of "h(p \<mapsto> \<lparr>lh_next = p, lh_prev = p\<rparr>)"])
      (use assms in \<open>auto simp: INIT_LIST_HEAD_def set_next_def set_prev_def load_node_def
        is_list_def linked_def\<close>)
qed

section \<open>Several lists in one memory\<close>

datatype list_op =
    Op_init u64
  | Op_add u64 u64
  | Op_add_tail u64 u64
  | Op_del u64

fun list_step :: "list_op \<Rightarrow> list_mem \<Rightarrow> list_mem outcome" where
  "list_step (Op_init p) h = INIT_LIST_HEAD p h"
| "list_step (Op_add nw head) h = list_add nw head h"
| "list_step (Op_add_tail nw head) h = list_add_tail nw head h"
| "list_step (Op_del e) h = list_del e h"

fun list_run :: "list_op list \<Rightarrow> list_mem \<Rightarrow> list_mem outcome" where
  "list_run [] h = Inr h"
| "list_run (c # cs) h = and_then (list_step c h) (list_run cs)"

text \<open>
  The abstract state gives every sentinel in use the sequence of its entries, as an association
  list; an operation is allowed when its documented contract holds: the node to add (or the new
  sentinel) is addressable, not NULL and in no list, the sentinel is one, and the entry to delete
  is in a list.
\<close>

type_synonym abs_lists = "(u64 \<times> u64 list) list"

definition nodes :: "abs_lists \<Rightarrow> u64 list" where
  "nodes A = concat (map (\<lambda>(hd, xs). hd # xs) A)"

definition fresh :: "u64 set \<Rightarrow> abs_lists \<Rightarrow> u64 \<Rightarrow> bool" where
  "fresh M A p = (p \<in> M \<and> p \<noteq> 0 \<and> p \<notin> set (nodes A))"

fun on_list :: "u64 \<Rightarrow> (u64 list \<Rightarrow> u64 list) \<Rightarrow> abs_lists \<Rightarrow> abs_lists" where
  "on_list head f [] = []"
| "on_list head f ((k, xs) # A) = (if k = head then (k, f xs) # A else (k, xs) # on_list head f A)"

fun abs_step :: "u64 set \<Rightarrow> list_op \<Rightarrow> abs_lists \<Rightarrow> abs_lists option" where
  "abs_step M (Op_init p) A = (if fresh M A p then Some ((p, []) # A) else None)"
| "abs_step M (Op_add nw head) A =
     (if fresh M A nw \<and> head \<in> fst ` set A then Some (on_list head (\<lambda>xs. nw # xs) A) else None)"
| "abs_step M (Op_add_tail nw head) A =
     (if fresh M A nw \<and> head \<in> fst ` set A then Some (on_list head (\<lambda>xs. xs @ [nw]) A) else None)"
| "abs_step M (Op_del e) A =
     (if e \<in> \<Union> (set ` snd ` set A) then Some (map (\<lambda>(k, xs). (k, removeAll e xs)) A) else None)"

fun abs_run :: "u64 set \<Rightarrow> list_op list \<Rightarrow> abs_lists \<Rightarrow> abs_lists option" where
  "abs_run M [] A = Some A"
| "abs_run M (c # cs) A = (case abs_step M c A of None \<Rightarrow> None | Some B \<Rightarrow> abs_run M cs B)"

definition lists_rep :: "list_mem \<Rightarrow> abs_lists \<Rightarrow> bool" where
  "lists_rep h A = (distinct (nodes A) \<and> (\<forall>(k, xs) \<in> set A. is_list h k xs))"

lemma nodes_simps [simp]:
  "nodes [] = []"
  "nodes ((k, xs) # A) = k # xs @ nodes A"
  "nodes (A @ B) = nodes A @ nodes B"
  by (simp_all add: nodes_def)

lemma nodes_member: "(k, xs) \<in> set A \<Longrightarrow> set (k # xs) \<subseteq> set (nodes A)"
  by (force simp: nodes_def)

lemma on_list_split:
  assumes "head \<in> fst ` set A"
  obtains pre xs post where "A = pre @ (head, xs) # post"
    "\<And>f. on_list head f A = pre @ (head, f xs) # post"
  using assms
proof (induction A arbitrary: thesis)
  case (Cons a A)
  obtain k ys where a: "a = (k, ys)" by force
  show ?case
  proof (cases "k = head")
    case True then show ?thesis using Cons.prems(1) [of "[]" ys A] a by simp
  next
    case False
    then obtain pre xs post where "A = pre @ (head, xs) # post"
      "\<And>f. on_list head f A = pre @ (head, f xs) # post"
      using Cons.IH Cons.prems(2) a by auto
    then show ?thesis using Cons.prems(1) [of "(k, ys) # pre" xs post] a False by simp
  qed
qed simp

text \<open>Changing one list, and only its nodes, keeps the others.\<close>

lemma lists_rep_replace:
  assumes r: "lists_rep h (pre @ (k, xs) # post)" and l: "is_list h' k ys"
    and d: "set ys \<inter> set (nodes (pre @ post)) = {}"
    and fr: "\<And>x. x \<notin> set (k # xs @ ys) \<Longrightarrow> h' x = h x"
  shows "lists_rep h' (pre @ (k, ys) # post)"
proof -
  have "is_list h' j zs" if "(j, zs) \<in> set (pre @ post)" for j zs
  proof (rule is_list_frame)
    show "is_list h j zs" using r that by (auto simp: lists_rep_def)
    show "h' x = h x" if "x \<in> set (j # zs)" for x
    proof (rule fr)
      have "x \<in> set (nodes (pre @ post))"
        using that nodes_member [OF \<open>(j, zs) \<in> set (pre @ post)\<close>] by blast
      then show "x \<notin> set (k # xs @ ys)" using r d by (auto simp: lists_rep_def)
    qed
  qed
  moreover have "distinct (nodes (pre @ (k, ys) # post))"
    using r l d by (auto simp: lists_rep_def is_list_def)
  ultimately show ?thesis using l by (auto simp: lists_rep_def)
qed

lemma removeAll_other_lists:
  assumes "e \<notin> set (nodes A)"
  shows "map (\<lambda>(k, xs). (k, removeAll e xs)) A = A"
  using assms by (induction A) auto

lemma list_step_refines:
  assumes r: "lists_rep h A" and s: "abs_step (dom h) c A = Some B"
  obtains h' where "list_step c h = Inr h'" "lists_rep h' B" "dom h' = dom h"
proof (cases c)
  case (Op_init p)
  then have f: "p \<in> dom h" "p \<noteq> 0" "p \<notin> set (nodes A)" and B: "B = (p, []) # A"
    using s by (auto simp: fresh_def split: if_splits)
  obtain h' where h': "INIT_LIST_HEAD p h = Inr h'" "is_list h' p []" "dom h' = dom h"
    "\<And>x. x \<noteq> p \<Longrightarrow> h' x = h x" using INIT_LIST_HEAD_is_list [OF f(1, 2)] by blast
  have "is_list h' k xs" if "(k, xs) \<in> set A" for k xs
  proof (rule is_list_frame)
    show "is_list h k xs" using r that by (auto simp: lists_rep_def)
    show "h' x = h x" if "x \<in> set (k # xs)" for x
      using that nodes_member [OF \<open>(k, xs) \<in> set A\<close>] f(3) h'(4) [of x] by auto
  qed
  then have "lists_rep h' B" using r h'(2) f(3) B by (auto simp: lists_rep_def)
  then show ?thesis using that h'(1, 3) Op_init by simp
next
  case (Op_add nw head)
  then have f: "nw \<in> dom h" "nw \<noteq> 0" "nw \<notin> set (nodes A)" and hd: "head \<in> fst ` set A"
    and B: "B = on_list head (\<lambda>xs. nw # xs) A"
    using s by (auto simp: fresh_def split: if_splits)
  obtain pre xs post where A: "A = pre @ (head, xs) # post"
    and B': "B = pre @ (head, nw # xs) # post"
    using on_list_split [OF hd] unfolding B by metis
  have l: "is_list h head xs" using r A by (auto simp: lists_rep_def)
  obtain h' where h': "list_add nw head h = Inr h'" "is_list h' head (nw # xs)" "dom h' = dom h"
    "\<And>x. x \<notin> set (head # nw # xs) \<Longrightarrow> h' x = h x"
    using list_add_is_list [OF l f(1, 2)] f(3) A by auto
  have "lists_rep h' B"
    unfolding B' by (rule lists_rep_replace [OF r [unfolded A] h'(2)])
      (use r f(3) A h'(4) in \<open>auto simp: lists_rep_def\<close>)
  then show ?thesis using that h'(1, 3) Op_add by simp
next
  case (Op_add_tail nw head)
  then have f: "nw \<in> dom h" "nw \<noteq> 0" "nw \<notin> set (nodes A)" and hd: "head \<in> fst ` set A"
    and B: "B = on_list head (\<lambda>xs. xs @ [nw]) A"
    using s by (auto simp: fresh_def split: if_splits)
  obtain pre xs post where A: "A = pre @ (head, xs) # post"
    and B': "B = pre @ (head, xs @ [nw]) # post"
    using on_list_split [OF hd] unfolding B by metis
  have l: "is_list h head xs" using r A by (auto simp: lists_rep_def)
  obtain h' where h': "list_add_tail nw head h = Inr h'" "is_list h' head (xs @ [nw])"
    "dom h' = dom h" "\<And>x. x \<notin> set (head # nw # xs) \<Longrightarrow> h' x = h x"
    using list_add_tail_is_list [OF l f(1, 2)] f(3) A by auto
  have "lists_rep h' B"
    unfolding B' by (rule lists_rep_replace [OF r [unfolded A] h'(2)])
      (use r f(3) A h'(4) in \<open>auto simp: lists_rep_def\<close>)
  then show ?thesis using that h'(1, 3) Op_add_tail by simp
next
  case (Op_del e)
  then obtain k xs where m: "(k, xs) \<in> set A" "e \<in> set xs"
    and B: "B = map (\<lambda>(k, xs). (k, removeAll e xs)) A"
    using s by (auto split: if_splits)
  obtain pre post where A: "A = pre @ (k, xs) # post" using m(1) by (meson split_list)
  obtain us vs where xs: "xs = us @ e # vs" using m(2) by (meson split_list)
  have dist: "distinct (nodes A)" using r by (simp add: lists_rep_def)
  have B': "B = pre @ (k, us @ vs) # post"
    using dist unfolding B A xs by (auto simp: removeAll_other_lists [where e = e])
  have l: "is_list h k (us @ e # vs)" using r A xs by (auto simp: lists_rep_def)
  obtain h' where h': "list_del e h = Inr h'" "is_list h' k (us @ vs)" "dom h' = dom h"
    "\<And>x. x \<notin> set (k # us @ e # vs) \<Longrightarrow> h' x = h x"
    using list_del_is_list [OF l] by metis
  have "lists_rep h' B"
    unfolding B' by (rule lists_rep_replace [OF r [unfolded A] h'(2)])
      (use dist A xs h'(4) in auto)
  then show ?thesis using that h'(1, 3) Op_del by simp
qed

text \<open>
  C25. Refinement of the intrusive list. For every sequence of INIT\_LIST\_HEAD, list\_add,
  list\_add\_tail and list\_del calls whose contracts hold, in any number of lists sharing one
  memory, the pointer code never dereferences an invalid pointer, and the memory it leaves
  represents exactly the sequences that cons, append and deletion compute. list\_empty then
  answers 1 exactly for the sentinels whose sequence is empty.
\<close>
theorem list_ops_refine:
  assumes "lists_rep h A" "abs_run (dom h) cs A = Some B"
  shows "\<exists>h'. list_run cs h = Inr h' \<and> lists_rep h' B \<and> dom h' = dom h \<and>
           (\<forall>(k, xs) \<in> set B. list_empty k h' = Inr (if xs = [] then 1 else 0))"
  using assms
proof (induction cs arbitrary: h A)
  case Nil
  then show ?case using list_empty_iff by (fastforce simp: lists_rep_def)
next
  case (Cons c cs)
  then obtain A' where A': "abs_step (dom h) c A = Some A'" "abs_run (dom h) cs A' = Some B"
    by (auto split: option.splits)
  obtain h1 where h1: "list_step c h = Inr h1" "lists_rep h1 A'" "dom h1 = dom h"
    using list_step_refines [OF Cons.prems(1) A'(1)] by blast
  show ?case using Cons.IH [OF h1(2)] A'(2) h1(1, 3) by simp
qed

text \<open>Two lists in a memory of five nodes; an entry is added at each end and one is removed.\<close>

definition list_demo_mem :: list_mem where
  "list_demo_mem = map_of (map (\<lambda>p. (p, list_head_new)) [16, 32, 48, 64, 80])"

definition list_demo :: "list_op list" where
  "list_demo = [Op_init 16, Op_init 32, Op_add 48 16, Op_add_tail 64 16, Op_add 80 32, Op_del 48]"

lemma list_demo_abs:
  "abs_run (dom list_demo_mem) list_demo [] = Some [(32, [80]), (16, [64])]"
  by (simp add: list_demo_def list_demo_mem_def fresh_def)

theorem list_ops_refine_witness:
  "\<exists>h'. list_run list_demo list_demo_mem = Inr h' \<and> lists_rep h' [(32, [80]), (16, [64])] \<and>
     dom h' = dom list_demo_mem \<and>
     (\<forall>(k, xs) \<in> set [(32, [80]), (16, [64 :: u64])].
        list_empty k h' = Inr (if xs = [] then 1 else 0))"
proof (rule list_ops_refine)
  show "lists_rep list_demo_mem []" by (simp add: lists_rep_def)
qed (rule list_demo_abs)

end
