(* ===== verification/Kprim.thy ===== *)
theory Kprim
  imports Prelude "HOL-Library.Signed_Division"
begin

text \<open>
  Three small interfaces of the LinuxKPI shim: the atomic bit operations
  (linuxkpi/src/bitops.rs), errno values carried by pointers (linuxkpi/src/err.rs) and the
  delays (linuxkpi/src/time.rs).
\<close>

section \<open>Bit operations\<close>

text \<open>
  A bitmap is an array of 64-bit words in memory; memory is a map from the addresses of words to
  their contents. The bit number is a signed C long, divided as Rust divides, towards zero; the
  shift by a remainder uses its low six bits, as the release build does. Each operation is one
  atomic read-modify-write of the word.
\<close>

type_synonym word_mem = "u64 \<rightharpoonup> u64"

definition BITS_PER_LONG :: "64 word" where
  "BITS_PER_LONG = 64"

definition word_and_mask :: "64 word \<Rightarrow> u64 \<Rightarrow> u64 \<times> u64" where
  "word_and_mask nr addr =
     (let word_index = word_of_int (sint nr sdiv sint BITS_PER_LONG);
          b = word_of_int (sint nr smod sint BITS_PER_LONG) :: 64 word
      in (addr + 8 * word_index, push_bit (unat (b AND 63)) 1))"

definition fetch_word :: "(u64 \<Rightarrow> u64) \<Rightarrow> u64 \<Rightarrow> word_mem \<Rightarrow> (u64 \<times> word_mem) outcome" where
  "fetch_word f p m = (case m p of None \<Rightarrow> Inl Undefined | Some w \<Rightarrow> Inr (w, m(p \<mapsto> f w)))"

definition test_and_set_bit :: "64 word \<Rightarrow> u64 \<Rightarrow> word_mem \<Rightarrow> (int \<times> word_mem) outcome" where
  "test_and_set_bit nr addr m =
     (let (p, mk) = word_and_mask nr addr in
      and_then (fetch_word (\<lambda>w. w OR mk) p m) (\<lambda>(prev, m).
        Inr (if prev AND mk \<noteq> 0 then 1 else 0, m)))"

definition test_and_clear_bit :: "64 word \<Rightarrow> u64 \<Rightarrow> word_mem \<Rightarrow> (int \<times> word_mem) outcome" where
  "test_and_clear_bit nr addr m =
     (let (p, mk) = word_and_mask nr addr in
      and_then (fetch_word (\<lambda>w. w AND NOT mk) p m) (\<lambda>(prev, m).
        Inr (if prev AND mk \<noteq> 0 then 1 else 0, m)))"

section \<open>Errno values in pointers\<close>

definition MAX_ERRNO :: u64 where
  "MAX_ERRNO = 4095"

definition ERR_PTR :: "64 word \<Rightarrow> u64" where
  "ERR_PTR e = ucast e"

definition PTR_ERR :: "u64 \<Rightarrow> 64 word" where
  "PTR_ERR p = ucast p"

definition IS_ERR :: "u64 \<Rightarrow> int" where
  "IS_ERR p = (if p \<ge> 0 - MAX_ERRNO then 1 else 0)"

definition IS_ERR_OR_NULL :: "u64 \<Rightarrow> int" where
  "IS_ERR_OR_NULL p = (if p = 0 then 1 else IS_ERR p)"

section \<open>Delays\<close>

text \<open>
  The delays poll the tick counter of the kernel. The counter is a parameter: \<open>clk k\<close> is
  the value the k-th poll reads, and a delay that starts with poll \<open>k\<close> returns the number
  of the first poll after it. A delay that never ends is the value \<^term>\<open>None\<close>.
\<close>

type_synonym clock = "nat \<Rightarrow> u64"

definition HZ :: u64 where
  "HZ = 100"

definition jiffies :: "clock \<Rightarrow> nat \<Rightarrow> u64 \<times> nat" where
  "jiffies clk k = (clk k, k + 1)"

partial_function (option) msleep_loop :: "clock \<Rightarrow> u64 \<Rightarrow> u64 \<Rightarrow> nat \<Rightarrow> nat option" where
  [code]: "msleep_loop clk start needed k =
     (if clk k - start < needed then msleep_loop clk start needed (k + 1) else Some (k + 1))"

definition needed_ticks :: "u32 \<Rightarrow> u64" where
  "needed_ticks msecs =
     (let n = ucast msecs * HZ; q = n div 1000; r = n mod 1000
      in if r > 0 then q + 1 else q)"

definition msleep :: "clock \<Rightarrow> u32 \<Rightarrow> nat \<Rightarrow> nat option" where
  "msleep clk msecs k = msleep_loop clk (clk k) (needed_ticks msecs) (k + 1)"

partial_function (option) udelay_loop :: "clock \<Rightarrow> u64 \<Rightarrow> nat \<Rightarrow> nat option" where
  [code]: "udelay_loop clk start k =
     (if clk k = start then udelay_loop clk start (k + 1) else Some (k + 1))"

definition udelay :: "clock \<Rightarrow> u32 \<Rightarrow> nat \<Rightarrow> nat option" where
  "udelay clk usecs k = (if usecs = 0 then Some k else udelay_loop clk (clk k) (k + 1))"

definition ndelay :: "clock \<Rightarrow> u32 \<Rightarrow> nat \<Rightarrow> nat option" where
  "ndelay clk nsecs k = udelay clk 1 k"

section \<open>A bitmap is a set of numbers\<close>

text \<open>
  The bitmap at \<open>addr\<close> holds \<open>len\<close> words that do not wrap around the address space,
  and its bits have numbers that are non-negative as a signed 64-bit integer.
\<close>

definition bitmap_at :: "u64 \<Rightarrow> nat \<Rightarrow> word_mem \<Rightarrow> bool" where
  "bitmap_at addr len m =
     (unat addr + 8 * len \<le> 2 ^ 64 \<and> 64 * len \<le> 2 ^ 63 \<and>
      (\<forall>i < len. m (addr + of_nat (8 * i)) \<noteq> None))"

definition bits_of :: "u64 \<Rightarrow> nat \<Rightarrow> word_mem \<Rightarrow> nat set" where
  "bits_of addr len m =
     {n. n < 64 * len \<and> (\<exists>w. m (addr + of_nat (8 * (n div 64))) = Some w \<and> bit w (n mod 64))}"


lemma sint_of_nat_small: "n < 2 ^ 63 \<Longrightarrow> sint (of_nat n :: 64 word) = int n"
  by (simp add: signed_of_nat signed_take_bit_int_eq_self)

lemma word_and_mask_nat:
  assumes "n < 2 ^ 63"
  shows "word_and_mask (of_nat n) addr = (addr + of_nat (8 * (n div 64)), push_bit (n mod 64) 1)"
proof -
  have s: "sint (of_nat n :: 64 word) = int n" by (rule sint_of_nat_small [OF assms])
  have q: "int n sdiv 64 = int (n div 64)" by (cases "n = 0") (simp_all add: signed_divide_int_def zdiv_int)
  have r: "int n smod 64 = int (n mod 64)" by (cases "n = 0") (simp_all add: signed_modulo_int_def q zmod_int minus_div_mult_eq_mod)
  have "unat ((of_nat (n mod 64) :: u64) AND 63) = n mod 64"
  proof -
    have "(of_nat (n mod 64) :: u64) AND 63 = take_bit 6 (of_nat (n mod 64))"
      by (simp add: take_bit_eq_mask mask_eq_exp_minus_1)
    then show ?thesis by (simp add: unat_take_bit_word unat_of_nat_small)
  qed
  then show ?thesis by (simp add: word_and_mask_def BITS_PER_LONG_def s q r)
qed


lemma bitmap_word_inj:
  assumes "bitmap_at addr len m" "i < len" "j < len"
  shows "addr + of_nat (8 * i) = addr + of_nat (8 * j) \<longleftrightarrow> i = j"
proof
  assume "addr + of_nat (8 * i) = addr + of_nat (8 * j)"
  then have e: "unat (of_nat (8 * i) :: u64) = unat (of_nat (8 * j) :: u64)" by simp
  have b: "8 * i < 2 ^ LENGTH(64)" "8 * j < 2 ^ LENGTH(64)" using assms by (auto simp: bitmap_at_def)
  show "i = j" using e unfolding unat_of_nat_small [OF b(1)] unat_of_nat_small [OF b(2)] by simp
qed simp

lemma and_bit_mask_iff: "(w :: u64) AND push_bit k 1 \<noteq> 0 \<longleftrightarrow> bit w k" if "k < 64"
  proof -
  have "(w AND push_bit k 1 = 0) = (\<forall>i. \<not> bit (w AND push_bit k 1) i)"
    by (metis bit_0_eq bit_eqI bot_apply bot_bool_def)
  also have "\<dots> = (\<not> bit w k)"
    using that by (auto simp: bit_and_iff bit_exp_iff)
  finally show ?thesis by simp
qed

text \<open>One read-modify-write of the word of bit \<open>n\<close>, where \<open>f\<close> touches bit \<open>n mod 64\<close> only.\<close>

lemma fetch_word_bits:
  assumes b: "bitmap_at addr len m" and n: "n < 64 * len"
    and f: "\<And>w k. k < 64 \<Longrightarrow> bit (f w) k = (if k = n mod 64 then v else bit w k)"
  obtains w m' where "fetch_word f (addr + of_nat (8 * (n div 64))) m = Inr (w, m')"
    "bit w (n mod 64) \<longleftrightarrow> n \<in> bits_of addr len m" "bitmap_at addr len m'"
    "bits_of addr len m' = (if v then insert n (bits_of addr len m) else bits_of addr len m - {n})"
proof -
  let ?p = "\<lambda>i. addr + of_nat (8 * i) :: u64"
  have i: "n div 64 < len" using n by (simp add: less_mult_imp_div_less mult.commute)
  obtain w where w: "m (?p (n div 64)) = Some w" using b i by (auto simp: bitmap_at_def)
  let ?m = "m(?p (n div 64) \<mapsto> f w)"
  have look: "?m (?p (j div 64)) = (if j div 64 = n div 64 then Some (f w) else m (?p (j div 64)))"
    if "j < 64 * len" for j
  proof -
    have "j div 64 < len" using that by (simp add: less_mult_imp_div_less mult.commute)
    then show ?thesis using bitmap_word_inj [OF b _ i, of "j div 64"] by simp
  qed
  have same: "j = n \<longleftrightarrow> j div 64 = n div 64 \<and> j mod 64 = n mod 64" for j
    by (metis div_mult_mod_eq)
  have "(j \<in> bits_of addr len ?m) = (if j = n then v else j \<in> bits_of addr len m)"
    if j: "j < 64 * len" for j
    using look [OF j] f [of "j mod 64" w] same [of j] w j by (auto simp: bits_of_def simp del: fun_upd_apply)
  moreover have "j \<notin> bits_of addr len ?m" "j \<notin> bits_of addr len m" if "\<not> j < 64 * len" for j
    using that by (auto simp: bits_of_def)
  ultimately have "bits_of addr len ?m =
      (if v then insert n (bits_of addr len m) else bits_of addr len m - {n})"
    using n by (auto split: if_splits) (metis | blast)+
  moreover have "bitmap_at addr len ?m" using b by (auto simp: bitmap_at_def)
  moreover have "bit w (n mod 64) \<longleftrightarrow> n \<in> bits_of addr len m" using w n by (auto simp: bits_of_def)
  moreover have "fetch_word f (?p (n div 64)) m = Inr (w, ?m)" using w by (simp add: fetch_word_def)
  ultimately show ?thesis using that by blast
qed


datatype bit_op = Bit_set nat | Bit_clear nat

fun bit_number :: "bit_op \<Rightarrow> nat" where
  "bit_number (Bit_set n) = n"
| "bit_number (Bit_clear n) = n"

fun bit_step :: "u64 \<Rightarrow> bit_op \<Rightarrow> word_mem \<Rightarrow> (int \<times> word_mem) outcome" where
  "bit_step addr (Bit_set n) m = test_and_set_bit (of_nat n) addr m"
| "bit_step addr (Bit_clear n) m = test_and_clear_bit (of_nat n) addr m"

fun bit_run :: "u64 \<Rightarrow> bit_op list \<Rightarrow> word_mem \<Rightarrow> (int list \<times> word_mem) outcome" where
  "bit_run addr [] m = Inr ([], m)"
| "bit_run addr (c # cs) m =
     and_then (bit_step addr c m) (\<lambda>(r, m).
     and_then (bit_run addr cs m) (\<lambda>(rs, m). Inr (r # rs, m)))"

fun set_step :: "bit_op \<Rightarrow> nat set \<Rightarrow> int \<times> nat set" where
  "set_step (Bit_set n) S = (if n \<in> S then 1 else 0, insert n S)"
| "set_step (Bit_clear n) S = (if n \<in> S then 1 else 0, S - {n})"

fun set_run :: "bit_op list \<Rightarrow> nat set \<Rightarrow> int list \<times> nat set" where
  "set_run [] S = ([], S)"
| "set_run (c # cs) S = (let (r, S) = set_step c S; (rs, S) = set_run cs S in (r # rs, S))"

lemma bit_step_refines:
  assumes b: "bitmap_at addr len m" and n: "bit_number c < 64 * len"
  obtains r m' where "bit_step addr c m = Inr (r, m')" "bitmap_at addr len m'"
    "set_step c (bits_of addr len m) = (r, bits_of addr len m')"
proof (cases c)
  case (Bit_set k)
  have k: "k < 64 * len" using n Bit_set by simp
  then have "k < 2 ^ 63" using b by (simp add: bitmap_at_def)
  note wm = word_and_mask_nat [OF this, of addr]
  have "k mod 64 < 64" by simp
  note am = and_bit_mask_iff [OF this]
  obtain w m' where "fetch_word (\<lambda>w. w OR push_bit (k mod 64) 1) (addr + of_nat (8 * (k div 64))) m = Inr (w, m')"
    "bit w (k mod 64) \<longleftrightarrow> k \<in> bits_of addr len m" "bitmap_at addr len m'"
    "bits_of addr len m' = insert k (bits_of addr len m)"
    by (rule fetch_word_bits [OF b k, where v = True and f = "\<lambda>w. w OR push_bit (k mod 64) 1"])
      (auto simp: bit_or_iff bit_exp_iff)
  then show ?thesis
    using that [of "if bit w (k mod 64) then 1 else 0" m'] Bit_set
    by (simp add: test_and_set_bit_def wm am del: push_bit_of_1)
next
  case (Bit_clear k)
  have k: "k < 64 * len" using n Bit_clear by simp
  then have "k < 2 ^ 63" using b by (simp add: bitmap_at_def)
  note wm = word_and_mask_nat [OF this, of addr]
  have "k mod 64 < 64" by simp
  note am = and_bit_mask_iff [OF this]
  obtain w m' where "fetch_word (\<lambda>w. w AND NOT (push_bit (k mod 64) 1)) (addr + of_nat (8 * (k div 64))) m = Inr (w, m')"
    "bit w (k mod 64) \<longleftrightarrow> k \<in> bits_of addr len m" "bitmap_at addr len m'"
    "bits_of addr len m' = bits_of addr len m - {k}"
    by (rule fetch_word_bits [OF b k, where v = False and f = "\<lambda>w. w AND NOT (push_bit (k mod 64) 1)"])
      (auto simp: bit_and_iff bit_not_iff bit_exp_iff)
  then show ?thesis
    using that [of "if bit w (k mod 64) then 1 else 0" m'] Bit_clear
    by (simp add: test_and_clear_bit_def wm am del: push_bit_of_1)
qed

text \<open>
  Refinement of the bit operations. On a bitmap of \<open>len\<close> words, any sequence of
  test\_and\_set\_bit and test\_and\_clear\_bit calls on bits in range is defined, returns what
  the same operations on a set of numbers return (1 exactly when the bit was in the set), and
  leaves the bitmap of the resulting set. In particular of several callers that set a clear bit,
  in whatever order the atomic operations happen, exactly the first one is told 0.
\<close>
theorem bitmap_refines_set:
  assumes "bitmap_at addr len m" "\<forall>c \<in> set cs. bit_number c < 64 * len"
  shows "\<exists>rs m'. bit_run addr cs m = Inr (rs, m') \<and> bitmap_at addr len m' \<and>
           set_run cs (bits_of addr len m) = (rs, bits_of addr len m')"
  using assms
proof (induction cs arbitrary: m)
  case (Cons c cs)
  then obtain r m1 where s: "bit_step addr c m = Inr (r, m1)" "bitmap_at addr len m1"
    "set_step c (bits_of addr len m) = (r, bits_of addr len m1)"
    using bit_step_refines [of addr len m c] by auto
  show ?case using Cons.IH [OF s(2)] Cons.prems(2) s(1, 3) by fastforce
qed simp

text \<open>A bitmap of two words at 4096; bit 70 is set twice, then cleared.\<close>

theorem bitmap_refines_set_witness:
  "\<exists>rs m'. bit_run 4096 [Bit_set 70, Bit_set 70, Bit_clear 70] [4096 \<mapsto> 0, 4104 \<mapsto> 0] = Inr (rs, m') \<and>
     bitmap_at 4096 2 m' \<and>
     set_run [Bit_set 70, Bit_set 70, Bit_clear 70] (bits_of 4096 2 [4096 \<mapsto> 0, 4104 \<mapsto> 0]) =
       (rs, bits_of 4096 2 m')"
  by (rule bitmap_refines_set) (auto simp: bitmap_at_def less_2_cases_iff)


section \<open>Errno values\<close>

lemma neg_errno_range:
  "(p :: u64) \<ge> 0 - MAX_ERRNO \<longleftrightarrow> - 4095 \<le> sint p \<and> sint p < 0"
proof -
  have u: "uint p < 2 ^ 64" "0 \<le> uint p" using uint_lt2p [of p] by simp_all
  have "sint p = uint p" if "uint p < 2 ^ 63"
    using that u by (auto simp: sint_uint signed_take_bit_int_eq_self_iff intro: order_trans [of _ 0])
  moreover have "sint p = uint p - 2 ^ 64" if "\<not> uint p < 2 ^ 63"
  proof -
    have "uint p div 2 ^ 63 = 1" using that u by simp
    then have "bit (uint p) 63" by (simp add: bit_iff_odd)
    then show ?thesis
      using u by (simp add: sint_uint signed_take_bit_eq_take_bit_minus take_bit_int_eq_self)
  qed
  ultimately have "uint p \<ge> 2 ^ 64 - 4095 \<longleftrightarrow> - 4095 \<le> sint p \<and> sint p < 0"
    using u by (cases "uint p < 2 ^ 63") auto
  then show ?thesis by (simp add: word_le_def MAX_ERRNO_def uint_word_ariths)
qed

text \<open>
  Errno round trip. A pointer tests as an error exactly when it is ERR\_PTR of an errno
  between -4095 and -1, PTR\_ERR gives every errno back, and IS\_ERR\_OR\_NULL adds the null
  pointer to the error pointers and nothing else.
\<close>
theorem err_ptr_roundtrip:
  "(IS_ERR p = 1 \<longleftrightarrow> (\<exists>e. - 4095 \<le> sint e \<and> sint e < 0 \<and> p = ERR_PTR e)) \<and>
   (IS_ERR_OR_NULL p = 1 \<longleftrightarrow> p = 0 \<or> IS_ERR p = 1) \<and>
   IS_ERR p \<in> {0, 1} \<and>
   PTR_ERR (ERR_PTR e) = e"
proof -
  have "IS_ERR p = 1 \<longleftrightarrow> - 4095 \<le> sint p \<and> sint p < 0"
    using neg_errno_range [of p] by (simp add: IS_ERR_def)
  then show ?thesis by (auto simp: ERR_PTR_def PTR_ERR_def IS_ERR_OR_NULL_def IS_ERR_def)
qed

section \<open>How long msleep sleeps\<close>

text \<open>
  The tick counter at 100 Hz: \<open>now k\<close> is the real time of the k-th poll in microseconds, and
  a tick is counted every 10000 of them. Time does not run backwards, does not stop, and
  two polls in a row are less than \<open>2 ^ 62\<close> ticks apart.
\<close>

definition tick_clock :: "(nat \<Rightarrow> nat) \<Rightarrow> clock" where
  "tick_clock now k = of_nat (now k div 10000)"

definition time_flows :: "(nat \<Rightarrow> nat) \<Rightarrow> bool" where
  "time_flows now =
     ((\<forall>k. now k \<le> now (Suc k) \<and> now (Suc k) \<le> now k + 10000 * 2 ^ 62) \<and> (\<forall>t. \<exists>k. t \<le> now k))"

lemma unat_needed_ticks: "unat (needed_ticks ms) = (unat ms + 9) div 10"
proof -
  have b: "unat ms < 2 ^ 32" using unat_bound [of ms] by simp
  let ?n = "ucast ms * HZ :: u64"
  have n: "unat ?n = unat ms * 100"
    using b by (simp add: HZ_def unat_word_ariths unat_widen_32_64)
  have d: "unat (?n div 1000) = unat ms * 100 div 1000" "unat (?n mod 1000) = unat ms * 100 mod 1000"
    by (simp_all add: unat_div unat_mod n)
  have "?n mod 1000 > 0 \<longleftrightarrow> unat ms * 100 mod 1000 > 0"
    using d(2) by (simp add: word_less_nat_alt)
  moreover have "unat (?n div 1000 + 1) = unat ms * 100 div 1000 + 1"
    using d(1) b by (subst unat_add_noof) auto
  ultimately have "unat (needed_ticks ms) =
      (if unat ms * 100 mod 1000 > 0 then unat ms * 100 div 1000 + 1 else unat ms * 100 div 1000)"
    by (simp only: needed_ticks_def Let_def d(1) if_distrib [of unat])
  also have "\<dots> = (if unat ms mod 10 > 0 then unat ms div 10 + 1 else unat ms div 10)"
  proof -
    have k: "(1000 :: nat) = 10 * 100" by simp
    have "unat ms * 100 div 1000 = unat ms div 10" unfolding k by (rule div_mult_mult2) simp
    moreover have "unat ms * 100 mod 1000 = unat ms mod 10 * 100"
      unfolding k by (rule mod_mult_mult2)
    ultimately show ?thesis by (simp only: zero_less_mult_iff) simp
  qed
  also have "\<dots> = (unat ms + 9) div 10"
  proof -
    obtain q r where qr: "unat ms = 10 * q + r" "r < 10"
      using mult_div_mod_eq [of 10 "unat ms"] mod_less_divisor [of 10 "unat ms"]
      by (metis zero_less_numeral)
    have "(10 * q + r + 9) div 10 = (if r > 0 then q + 1 else q)"
      using qr(2) by (intro div_nat_eqI) auto
    then show ?thesis using qr by simp
  qed
  finally show ?thesis .
qed


lemma time_mono: "time_flows now \<Longrightarrow> i \<le> j \<Longrightarrow> now i \<le> now j"
  by (simp add: time_flows_def lift_Suc_mono_le)

text \<open>As long as fewer than \<open>2 ^ 64\<close> ticks have passed, the wrapping difference counts them.\<close>

lemma tick_diff:
  assumes "a \<le> b" "b - a < 2 ^ 64"
  shows "unat (of_nat b - of_nat a :: u64) = b - a"
proof -
  have "(of_nat b - of_nat a :: u64) = of_nat (b - a)" using assms(1) by simp
  then show ?thesis using assms(2) by (simp only:) (rule unat_of_nat_small, simp)
qed

lemma msleep_loop_returns:
  assumes t: "\<And>i. k \<le> i \<Longrightarrow> i < j \<Longrightarrow> clk i - start < n" and e: "\<not> clk j - start < n" and k: "k \<le> j"
  shows "msleep_loop clk start n k = Some (j + 1)"
  using k t
proof (induction rule: inc_induct)
  case base
  then show ?case using e by (simp add: msleep_loop.simps [of _ _ _ j])
next
  case (step i)
  then show ?case using step.prems [of i] by (simp add: msleep_loop.simps [of _ _ _ i])
qed

lemma ticks_elapsed_lower:
  assumes "n + a div 10000 \<le> b div (10000 :: nat)"
  shows "10000 * n < (b - a) + 10000"
  using assms by (simp add: less_eq_div_iff_mult_less_eq algebra_simps)

text \<open>
  msleep returns, at the first poll that sees \<open>\<lceil>msecs / 10\<rceil>\<close> ticks counted since it
  was called, for any clock that runs, the wrap-around of the counter included. The real time
  slept is more than \<open>msecs\<close> milliseconds less one tick.
\<close>
theorem msleep_returns:
  assumes t: "time_flows now"
  shows "\<exists>j > k. msleep (tick_clock now) ms k = Some (j + 1) \<and>
           now k div 10000 + (unat ms + 9) div 10 \<le> now j div 10000 \<and>
           (\<forall>i. k < i \<and> i < j \<longrightarrow> now i div 10000 < now k div 10000 + (unat ms + 9) div 10) \<and>
           1000 * unat ms < (now j - now k) + 10000"
proof -
  let ?n = "(unat ms + 9) div 10"
  let ?T = "\<lambda>i. now i div 10000"
  have nb: "?n < 2 ^ 32" using unat_bound [of ms] by simp
  define P where "P = (\<lambda>j. k < j \<and> ?T k + ?n \<le> ?T j)"
  obtain j0 where "10000 * (?T k + ?n) \<le> now j0" using t unfolding time_flows_def by blast
  then have "10000 * (?T k + ?n) \<le> now (max j0 (Suc k))"
    using time_mono [OF t, of j0 "max j0 (Suc k)"] by simp
  then have "P (max j0 (Suc k))" by (simp add: P_def less_eq_div_iff_mult_less_eq mult.commute)
  define j where "j = (LEAST j. P j)"
  have Pj: "P j" unfolding j_def by (rule LeastI) fact
  have before: "?T i < ?T k + ?n" if "k < i" "i < j" for i
    using that not_less_Least [of i P] by (force simp: j_def P_def)
  have close: "?T i - ?T k < 2 ^ 64" if i: "k < i" "i \<le> j" for i
  proof -
    obtain i' where i': "i = Suc i'" "k \<le> i'" using i(1) by (cases i) auto
    have "?T i' \<le> ?T k + ?n" using before [of i'] i' i(2) by (cases "k = i'") auto
    moreover have "?T i \<le> ?T i' + 2 ^ 62"
    proof -
      have "now i \<le> now i' + 10000 * 2 ^ 62" using t i' by (simp add: time_flows_def)
      then have "?T i \<le> (now i' + 10000 * 2 ^ 62) div 10000" by (rule div_le_mono)
      then show ?thesis by simp
    qed
    ultimately show ?thesis using nb by simp
  qed
  have less: "tick_clock now i - tick_clock now k < needed_ticks ms \<longleftrightarrow> ?T i < ?T k + ?n"
    if i: "k < i" "i \<le> j" for i
  proof -
    have "?T k \<le> ?T i" using time_mono [OF t, of k i] i(1) by (simp add: div_le_mono)
    then show ?thesis
      using tick_diff [OF _ close [OF i]]
      by (simp add: word_less_nat_alt tick_clock_def unat_needed_ticks less_diff_conv2 add.commute)
  qed
  have "msleep (tick_clock now) ms k = Some (j + 1)"
    unfolding msleep_def
    by (rule msleep_loop_returns) (use less before Pj in \<open>auto simp: P_def\<close>)
  moreover have "1000 * unat ms < (now j - now k) + 10000"
    using ticks_elapsed_lower [of ?n "now k" "now j"] Pj by (simp add: P_def add.commute)
  ultimately show ?thesis using Pj before by (auto simp: P_def)
qed


text \<open>A clock polled every 2.5 ms, half-way through a tick at the start; msleep(25) waits three ticks.\<close>

definition demo_now :: "nat \<Rightarrow> nat" where
  "demo_now k = 5000 + 2500 * k"

lemma demo_time_flows: "time_flows demo_now"
  unfolding time_flows_def demo_now_def
proof (intro conjI allI)
  fix t :: nat
  show "\<exists>k. t \<le> 5000 + 2500 * k" by (rule exI [of _ t]) simp
qed simp_all

theorem msleep_returns_witness:
  "\<exists>j > 0. msleep (tick_clock demo_now) 25 0 = Some (j + 1) \<and>
     demo_now 0 div 10000 + (unat (25 :: u32) + 9) div 10 \<le> demo_now j div 10000 \<and>
     (\<forall>i. 0 < i \<and> i < j \<longrightarrow>
        demo_now i div 10000 < demo_now 0 div 10000 + (unat (25 :: u32) + 9) div 10) \<and>
     1000 * unat (25 :: u32) < (demo_now j - demo_now 0) + 10000"
  by (rule msleep_returns [OF demo_time_flows])

text \<open>
  The bound of one tick is needed: msleep(10) called 1 microsecond before a tick returns as soon
  as that tick is counted, although it promises to sleep at least its argument.
\<close>

definition late_now :: "nat \<Rightarrow> nat" where
  "late_now k = 9999 + k"

lemma msleep_undersleeps:
  "msleep (tick_clock late_now) 10 0 = Some 2 \<and> late_now 1 - late_now 0 = 1"
  by (simp add: msleep_def msleep_loop.simps [of _ _ _ "Suc 0"] tick_clock_def late_now_def
      needed_ticks_def HZ_def)

end
