(* ===== verification/Slab.thy ===== *)
theory Slab
  imports Prelude
begin

text \<open>
  The slab shim of LinuxKPI (linuxkpi/src/slab.rs): kmalloc, kzalloc, krealloc and kfree over the
  global allocator, with a 16-byte header in front of every payload that records its size. The
  global allocator is the linked\_list\_allocator crate, so it is a parameter: a record of its
  operations on a state and the memory, and the layout it has on record for a live block. Its
  contract is that of Rust's GlobalAlloc trait. A call that breaks the safety conditions of the
  trait (a layout that is not the one the block was allocated with, a size that overflows isize)
  is undefined behaviour.
\<close>

section \<open>Memory and the global allocator\<close>

type_synonym byte_mem = "u64 \<Rightarrow> u8"

definition mem_bytes :: "byte_mem \<Rightarrow> u64 \<Rightarrow> nat \<Rightarrow> u8 list" where
  "mem_bytes m a n = map (\<lambda>i. m (a + of_nat i)) [0..<n]"

definition store_bytes :: "u64 \<Rightarrow> u8 list \<Rightarrow> byte_mem \<Rightarrow> byte_mem" where
  "store_bytes a bs m = (\<lambda>x. if unat (x - a) < length bs then bs ! unat (x - a) else m x)"

record layout =
  lsize :: usize
  lalign :: usize

record 's allocator =
  al_alloc :: "layout \<Rightarrow> 's \<Rightarrow> byte_mem \<Rightarrow> u64 \<times> 's \<times> byte_mem"
  al_dealloc :: "u64 \<Rightarrow> layout \<Rightarrow> 's \<Rightarrow> byte_mem \<Rightarrow> 's \<times> byte_mem"
  al_realloc :: "u64 \<Rightarrow> layout \<Rightarrow> usize \<Rightarrow> 's \<Rightarrow> byte_mem \<Rightarrow> u64 \<times> 's \<times> byte_mem"
  al_live :: "'s \<Rightarrow> u64 \<rightharpoonup> layout"

text \<open>Layout::from\_size\_align: the size rounded up to the alignment must not exceed isize::MAX.\<close>

definition size_fits :: "nat \<Rightarrow> nat \<Rightarrow> bool" where
  "size_fits n align = (n \<le> 2 ^ 63 - align)"

definition from_size_align :: "usize \<Rightarrow> usize \<Rightarrow> layout option" where
  "from_size_align n align =
     (if size_fits (unat n) (unat align) then Some \<lparr>lsize = n, lalign = align\<rparr> else None)"

definition call_alloc ::
    "'s allocator \<Rightarrow> layout \<Rightarrow> 's \<times> byte_mem \<Rightarrow> (u64 \<times> 's \<times> byte_mem) outcome" where
  "call_alloc A l st = (if lsize l = 0 then Inl Undefined else Inr (al_alloc A l (fst st) (snd st)))"

definition call_dealloc ::
    "'s allocator \<Rightarrow> u64 \<Rightarrow> layout \<Rightarrow> 's \<times> byte_mem \<Rightarrow> ('s \<times> byte_mem) outcome" where
  "call_dealloc A r l st =
     (if al_live A (fst st) r = Some l then Inr (al_dealloc A r l (fst st) (snd st))
      else Inl Undefined)"

definition call_realloc ::
    "'s allocator \<Rightarrow> u64 \<Rightarrow> layout \<Rightarrow> usize \<Rightarrow> 's \<times> byte_mem \<Rightarrow> (u64 \<times> 's \<times> byte_mem) outcome" where
  "call_realloc A r l n st =
     (if al_live A (fst st) r = Some l \<and> n \<noteq> 0 \<and> size_fits (unat n) (unat (lalign l))
      then Inr (al_realloc A r l n (fst st) (snd st)) else Inl Undefined)"

section \<open>The shim\<close>

definition HEADER_SIZE :: usize where
  "HEADER_SIZE = 16"

definition PAYLOAD_ALIGN :: usize where
  "PAYLOAD_ALIGN = 16"

definition header_bytes :: "usize \<Rightarrow> u8 list" where
  "header_bytes n = le_bytes 8 (unat n) @ le_bytes 8 0"

definition header_size_at :: "byte_mem \<Rightarrow> u64 \<Rightarrow> usize" where
  "header_size_at m r = of_nat (le_nat (mem_bytes m r 8))"

definition checked_add :: "usize \<Rightarrow> usize \<Rightarrow> usize option" where
  "checked_add a b = (if unat a + unat b < 2 ^ 64 then Some (a + b) else None)"

definition kmalloc ::
    "'s allocator \<Rightarrow> usize \<Rightarrow> u32 \<Rightarrow> 's \<times> byte_mem \<Rightarrow> (u64 \<times> 's \<times> byte_mem) outcome" where
  "kmalloc A n flags st =
     (if n = 0 then Inr (0, st)
      else case checked_add n HEADER_SIZE of
        None \<Rightarrow> Inr (0, st)
      | Some tot \<Rightarrow>
          (case from_size_align tot PAYLOAD_ALIGN of
             None \<Rightarrow> Inr (0, st)
           | Some l \<Rightarrow>
               and_then (call_alloc A l st) (\<lambda>(raw, s, m).
                 if raw = 0 then Inr (0, s, m)
                 else Inr (raw + HEADER_SIZE, s, store_bytes raw (header_bytes n) m))))"

definition kzalloc ::
    "'s allocator \<Rightarrow> usize \<Rightarrow> u32 \<Rightarrow> 's \<times> byte_mem \<Rightarrow> (u64 \<times> 's \<times> byte_mem) outcome" where
  "kzalloc A n flags st =
     and_then (kmalloc A n flags st) (\<lambda>(p, s, m).
       if p \<noteq> 0 then Inr (p, s, store_bytes p (replicate (unat n) 0) m) else Inr (p, s, m))"

definition kfree :: "'s allocator \<Rightarrow> u64 \<Rightarrow> 's \<times> byte_mem \<Rightarrow> ('s \<times> byte_mem) outcome" where
  "kfree A p st =
     (if p = 0 then Inr st
      else let header_ptr = p - HEADER_SIZE;
               n = header_size_at (snd st) header_ptr;
               tot = n + HEADER_SIZE
           in call_dealloc A header_ptr \<lparr>lsize = tot, lalign = PAYLOAD_ALIGN\<rparr> st)"

definition krealloc ::
    "'s allocator \<Rightarrow> u64 \<Rightarrow> usize \<Rightarrow> u32 \<Rightarrow> 's \<times> byte_mem \<Rightarrow> (u64 \<times> 's \<times> byte_mem) outcome" where
  "krealloc A p new_size flags st =
     (if p = 0 then kmalloc A new_size flags st
      else if new_size = 0 then and_then (kfree A p st) (\<lambda>st. Inr (0, st))
      else case checked_add new_size HEADER_SIZE of
        None \<Rightarrow> Inr (0, st)
      | Some new_total \<Rightarrow>
          (let header_ptr = p - HEADER_SIZE;
               old_size = header_size_at (snd st) header_ptr;
               old_total = old_size + HEADER_SIZE;
               old_layout = \<lparr>lsize = old_total, lalign = PAYLOAD_ALIGN\<rparr>
           in and_then (call_realloc A header_ptr old_layout new_total st) (\<lambda>(new_raw, s, m).
                if new_raw = 0 then Inr (0, s, m)
                else Inr (new_raw + HEADER_SIZE, s, store_bytes new_raw (header_bytes new_size) m))))"

section \<open>The contract of the global allocator\<close>

definition region :: "u64 \<Rightarrow> layout \<Rightarrow> nat set" where
  "region r l = {unat r ..< unat r + unat (lsize l)}"

text \<open>Live blocks lie inside the address space, at aligned addresses, and do not overlap.\<close>

definition alloc_ok :: "('s, 'x) allocator_scheme \<Rightarrow> 's \<Rightarrow> bool" where
  "alloc_ok A s =
     ((\<forall>r l. al_live A s r = Some l \<longrightarrow>
         r \<noteq> 0 \<and> unat r + unat (lsize l) \<le> 2 ^ 64 \<and> unat (lalign l) dvd unat r) \<and>
      (\<forall>r l r' l'. al_live A s r = Some l \<and> al_live A s r' = Some l' \<and> r \<noteq> r' \<longrightarrow>
         region r l \<inter> region r' l' = {}))"

definition keeps :: "('s, 'x) allocator_scheme \<Rightarrow> 's \<Rightarrow> u64 set \<Rightarrow> byte_mem \<Rightarrow> byte_mem \<Rightarrow> bool" where
  "keeps A s X m m' =
     (\<forall>r l. al_live A s r = Some l \<and> r \<notin> X \<longrightarrow> (\<forall>x. unat x \<in> region r l \<longrightarrow> m' x = m x))"

definition alloc_contract :: "('s, 'x) allocator_scheme \<Rightarrow> bool" where
  "alloc_contract A =
     (\<forall>s m l r s' m'. alloc_ok A s \<and> lsize l \<noteq> 0 \<and> al_alloc A l s m = (r, s', m') \<longrightarrow>
        alloc_ok A s' \<and> keeps A s {} m m' \<and>
        (if r = 0 then al_live A s' = al_live A s
         else al_live A s r = None \<and> al_live A s' = (al_live A s)(r \<mapsto> l)))"

definition dealloc_contract :: "('s, 'x) allocator_scheme \<Rightarrow> bool" where
  "dealloc_contract A =
     (\<forall>s m r l s' m'. alloc_ok A s \<and> al_live A s r = Some l \<and> al_dealloc A r l s m = (s', m') \<longrightarrow>
        alloc_ok A s' \<and> keeps A s {r} m m' \<and> al_live A s' = (al_live A s)(r := None))"

definition realloc_contract :: "('s, 'x) allocator_scheme \<Rightarrow> bool" where
  "realloc_contract A =
     (\<forall>s m r l n r' s' m'.
        alloc_ok A s \<and> al_live A s r = Some l \<and> n \<noteq> 0 \<and> size_fits (unat n) (unat (lalign l)) \<and>
        al_realloc A r l n s m = (r', s', m') \<longrightarrow>
        alloc_ok A s' \<and>
        (if r' = 0 then al_live A s' = al_live A s \<and> keeps A s {} m m'
         else (r' = r \<or> al_live A s r' = None) \<and> keeps A s {r} m m' \<and>
              al_live A s' = ((al_live A s)(r := None))(r' \<mapsto> l\<lparr>lsize := n\<rparr>) \<and>
              (let k = min (unat n) (unat (lsize l)) in mem_bytes m' r' k = mem_bytes m r k)))"

definition global_alloc :: "('s, 'x) allocator_scheme \<Rightarrow> bool" where
  "global_alloc A = (alloc_contract A \<and> dealloc_contract A \<and> realloc_contract A)"

section \<open>The user's view\<close>

text \<open>
  The user of the shim sees a map from payload pointers to the bytes stored there. It is
  represented when every payload is preceded by its header in a live block of the right layout.
\<close>

type_synonym user_heap = "u64 \<rightharpoonup> u8 list"

definition block_ok :: "('s, 'x) allocator_scheme \<Rightarrow> 's \<Rightarrow> byte_mem \<Rightarrow> u64 \<Rightarrow> u8 list \<Rightarrow> bool" where
  "block_ok A s m p bs =
     (bs \<noteq> [] \<and> size_fits (length bs + 16) 16 \<and>
      al_live A s (p - 16) = Some \<lparr>lsize = of_nat (length bs) + 16, lalign = 16\<rparr> \<and>
      mem_bytes m (p - 16) (16 + length bs) = header_bytes (of_nat (length bs)) @ bs)"

definition slab_rep :: "('s, 'x) allocator_scheme \<Rightarrow> user_heap \<Rightarrow> 's \<times> byte_mem \<Rightarrow> bool" where
  "slab_rep A U st =
     (alloc_ok A (fst st) \<and> (\<forall>p bs. U p = Some bs \<longrightarrow> block_ok A (fst st) (snd st) p bs))"


section \<open>Bytes in memory\<close>

lemma length_mem_bytes [simp]: "length (mem_bytes m a n) = n"
  by (simp add: mem_bytes_def)

lemma mem_bytes_add:
  "mem_bytes m a (i + j) = mem_bytes m a i @ mem_bytes m (a + of_nat i) j"
  by (rule nth_equalityI) (auto simp: mem_bytes_def nth_append algebra_simps simp flip: of_nat_add)

lemma take_mem_bytes: "k \<le> n \<Longrightarrow> take k (mem_bytes m a n) = mem_bytes m a k"
  by (simp add: mem_bytes_def take_map)

lemma take_mem_bytes_min: "take k (mem_bytes m a n) = mem_bytes m a (min k n)"
  by (cases "k \<le> n") (simp_all add: take_mem_bytes min_def)

lemma mem_bytes_cong:
  assumes "unat a + n \<le> 2 ^ 64" "\<And>x. unat x \<in> {unat a ..< unat a + n} \<Longrightarrow> m' x = m x"
  shows "mem_bytes m' a n = mem_bytes m a n"
proof -
  have "m' (a + of_nat i) = m (a + of_nat i)" if "i < n" for i
  proof (rule assms(2))
    have "unat (of_nat i :: u64) = i" using that assms(1) by (intro unat_of_nat_small) simp
    then have "unat (a + of_nat i) = unat a + i"
      using that assms(1) by (subst unat_add_noof) simp_all
    then show "unat (a + of_nat i) \<in> {unat a ..< unat a + n}" using that by simp
  qed
  then show ?thesis by (simp add: mem_bytes_def)
qed

lemma mem_bytes_store:
  assumes "length bs < 2 ^ 64"
  shows "mem_bytes (store_bytes a bs m) a (length bs) = bs"
proof (rule nth_equalityI)
  fix i assume "i < length (mem_bytes (store_bytes a bs m) a (length bs))"
  then have i: "i < length bs" by simp
  then have "unat (of_nat i :: u64) = i" using assms by (intro unat_of_nat_small) simp
  then show "mem_bytes (store_bytes a bs m) a (length bs) ! i = bs ! i"
    using i by (simp add: mem_bytes_def store_bytes_def)
qed simp

lemma store_bytes_outside:
  assumes "unat a + length bs \<le> 2 ^ 64" "unat x \<notin> {unat a ..< unat a + length bs}"
  shows "store_bytes a bs m x = m x"
proof -
  have "\<not> unat (x - a) < length bs"
  proof (cases "a \<le> x")
    case True
    then have "unat (x - a) = unat x - unat a" by (simp add: unat_sub)
    moreover have "unat a \<le> unat x" using True by (simp add: word_le_nat_alt)
    ultimately show ?thesis using assms(2) by auto
  next
    case False
    then have "unat x < unat a" by (simp add: word_less_nat_alt not_le)
    moreover have "unat (x - a) = 2 ^ 64 - unat a + unat x"
      using False unat_sub_if' [of x a] unat_bound [of a] by (simp add: word_le_nat_alt)
    ultimately show ?thesis using assms(1) by simp
  qed
  then show ?thesis by (simp add: store_bytes_def)
qed

lemma length_header [simp]: "length (header_bytes n) = 16"
  by (simp add: header_bytes_def)

lemma header_size_at_block:
  assumes "mem_bytes m r (16 + k) = header_bytes n @ bs"
  shows "header_size_at m r = n"
proof -
  have "mem_bytes m r 8 = take 8 (mem_bytes m r (16 + k))" by (simp add: take_mem_bytes)
  also have "\<dots> = le_bytes 8 (unat n)" by (simp add: assms header_bytes_def)
  finally have "le_nat (mem_bytes m r 8) = unat n mod 256 ^ 8" by simp
  also have "\<dots> = unat n" using unat_bound [of n] by simp
  finally show ?thesis by (simp add: header_size_at_def)
qed


section \<open>Blocks\<close>

lemma unat_total:
  assumes "size_fits (k + 16) 16"
  shows "unat (of_nat k + 16 :: u64) = k + 16" "unat (of_nat k :: u64) = k"
proof -
  have k: "k + 16 < 2 ^ 64" using assms by (simp add: size_fits_def)
  then show 1: "unat (of_nat k :: u64) = k" by (intro unat_of_nat_small) simp
  show "unat (of_nat k + 16 :: u64) = k + 16"
    using k 1 by (subst unat_add_noof) simp_all
qed

lemma block_bounds:
  assumes a: "alloc_ok A s" and b: "block_ok A s m p bs"
  shows "p \<noteq> 0" "unat p = unat (p - 16) + 16" "unat (p - 16) + (16 + length bs) \<le> 2 ^ 64"
    "16 dvd unat p" "header_size_at m (p - 16) = of_nat (length bs)"
    "region (p - 16) \<lparr>lsize = of_nat (length bs) + 16, lalign = 16\<rparr> =
       {unat (p - 16) ..< unat (p - 16) + (16 + length bs)}"
proof -
  have fits: "size_fits (length bs + 16) 16" and ne: "0 < length bs"
    and live: "al_live A s (p - 16) = Some \<lparr>lsize = of_nat (length bs) + 16, lalign = 16\<rparr>"
    using b by (auto simp: block_ok_def)
  note t = unat_total [OF fits]
  have f: "unat (p - 16) + unat (of_nat (length bs) + 16 :: u64) \<le> 2 ^ 64" "16 dvd unat (p - 16)"
    using a live by (force simp: alloc_ok_def)+
  then show 3: "unat (p - 16) + (16 + length bs) \<le> 2 ^ 64" by (simp add: t add.commute)
  have "unat ((p - 16) + 16) = unat (p - 16) + unat (16 :: u64)"
  proof (rule unat_add_noof)
    have "unat (p - 16) + 16 < 2 ^ 64" using 3 ne by linarith
    then show "unat (p - 16) + unat (16 :: u64) < 2 ^ LENGTH(64)" by simp
  qed
  then show 2: "unat p = unat (p - 16) + 16" by simp
  then show "p \<noteq> 0" by auto
  show "16 dvd unat p" using 2 f(2) by simp
  show "header_size_at m (p - 16) = of_nat (length bs)"
    using b by (intro header_size_at_block [where bs = bs]) (auto simp: block_ok_def)
  show "region (p - 16) \<lparr>lsize = of_nat (length bs) + 16, lalign = 16\<rparr> =
       {unat (p - 16) ..< unat (p - 16) + (16 + length bs)}"
    by (simp add: region_def t add.commute)
qed

lemma block_keep:
  assumes a: "alloc_ok A s" and b: "block_ok A s m p bs"
    and l: "al_live A s' (p - 16) = al_live A s (p - 16)"
    and m: "\<And>x. unat x \<in> region (p - 16) \<lparr>lsize = of_nat (length bs) + 16, lalign = 16\<rparr> \<Longrightarrow> m' x = m x"
  shows "block_ok A s' m' p bs"
proof -
  have "mem_bytes m' (p - 16) (16 + length bs) = mem_bytes m (p - 16) (16 + length bs)"
    using block_bounds [OF a b] m by (intro mem_bytes_cong) auto
  then show ?thesis using b l by (simp add: block_ok_def)
qed

lemma block_kept:
  assumes "alloc_ok A s" "block_ok A s m p bs" "keeps A s X m m'" "p - 16 \<notin> X"
    "al_live A s' (p - 16) = al_live A s (p - 16)"
  shows "block_ok A s' m' p bs"
proof (rule block_keep [OF assms(1, 2, 5)])
  have "al_live A s (p - 16) = Some \<lparr>lsize = of_nat (length bs) + 16, lalign = 16\<rparr>"
    using assms(2) by (simp add: block_ok_def)
  then show "m' x = m x" if "unat x \<in> region (p - 16) \<lparr>lsize = of_nat (length bs) + 16, lalign = 16\<rparr>" for x
    using assms(3, 4) that unfolding keeps_def by metis
qed

text \<open>Writing the header of a block makes it a payload; the bytes behind the header are kept.\<close>

lemma block_install:
  assumes a: "alloc_ok A s" and l: "al_live A s r = Some \<lparr>lsize = n + 16, lalign = 16\<rparr>"
    and n: "n \<noteq> 0" "size_fits (unat n + 16) 16"
  shows "block_ok A s (store_bytes r (header_bytes n) m) (r + 16) (mem_bytes m (r + 16) (unat n))"
    (is "block_ok A s ?m _ _")
proof -
  have t: "unat (n + 16) = unat n + 16" using unat_total [OF n(2)] by simp
  have in_space: "unat r + (16 + unat n) \<le> 2 ^ 64"
    using a l t by (force simp: alloc_ok_def)
  have n0: "unat n \<noteq> 0" using n(1) by (simp add: unat_eq_0)
  have r16: "unat (r + 16) = unat r + 16" using in_space n0 by (subst unat_add_noof) auto
  have "mem_bytes ?m (r + 16) (unat n) = mem_bytes m (r + 16) (unat n)"
    using in_space by (intro mem_bytes_cong) (auto simp: r16 intro!: store_bytes_outside)
  moreover have "mem_bytes ?m r 16 = header_bytes n"
    using mem_bytes_store [of "header_bytes n" r m] by simp
  ultimately have "mem_bytes ?m r (16 + unat n) = header_bytes n @ mem_bytes m (r + 16) (unat n)"
    using mem_bytes_add [of ?m r 16 "unat n"] by simp
  moreover have "mem_bytes m (r + 16) (unat n) \<noteq> []" using n0 by (metis length_0_conv length_mem_bytes)
  ultimately show ?thesis using l n by (simp add: block_ok_def)
qed

text \<open>The other blocks survive an allocation step followed by the header write.\<close>

lemma block_other:
  assumes a: "alloc_ok A s" "alloc_ok A s'" and b: "block_ok A s m p bs"
    and k: "keeps A s X m m'" "p - 16 \<notin> X"
    and l: "al_live A s' (p - 16) = al_live A s (p - 16)"
    and r: "al_live A s' r = Some lr" "16 \<le> unat (lsize lr)" "p - 16 \<noteq> r"
  shows "block_ok A s' (store_bytes r (header_bytes n) m') p bs"
proof (rule block_keep [OF a(1) b l])
  let ?l = "\<lparr>lsize = of_nat (length bs) + 16, lalign = 16\<rparr>"
  fix x :: u64 assume x: "unat x \<in> region (p - 16) ?l"
  have live: "al_live A s (p - 16) = Some ?l" using b by (simp add: block_ok_def)
  have "unat x \<notin> region r lr" using a(2) live l r x by (fastforce simp: alloc_ok_def)
  moreover have "unat r + unat (lsize lr) \<le> 2 ^ 64" using a(2) r(1) by (force simp: alloc_ok_def)
  ultimately have "store_bytes r (header_bytes n) m' x = m' x"
    using r(2) by (intro store_bytes_outside) (auto simp: region_def)
  then show "store_bytes r (header_bytes n) m' x = m x"
    using k live x by (auto simp: keeps_def)
qed

lemma kmalloc_refines:
  assumes A: "global_alloc A" and r: "slab_rep A U (s, m)"
  obtains p s' m' where "kmalloc A n f (s, m) = Inr (p, s', m')"
    "p = 0 \<Longrightarrow> slab_rep A U (s', m')"
    "p \<noteq> 0 \<Longrightarrow> U p = None \<and> 16 dvd unat p \<and>
       (\<exists>bs. length bs = unat n \<and> slab_rep A (U(p \<mapsto> bs)) (s', m'))"
proof (cases "n \<noteq> 0 \<and> unat n + 16 < 2 ^ 64 \<and> size_fits (unat n + 16) 16")
  case False
  then have "kmalloc A n f (s, m) = Inr (0, s, m)"
    by (auto simp: kmalloc_def checked_add_def HEADER_SIZE_def PAYLOAD_ALIGN_def from_size_align_def
        unat_add_noof size_fits_def)
  then show ?thesis using that r by simp
next
  case True
  then have n: "n \<noteq> 0" "size_fits (unat n + 16) 16" by simp_all
  have t: "unat (n + 16) = unat n + 16" using unat_total [OF n(2)] by simp
  then have nz: "n + 16 \<noteq> 0" by (metis add_eq_0_iff_both_eq_0 unat_0 zero_neq_numeral)
  let ?l = "\<lparr>lsize = n + 16, lalign = 16\<rparr>"
  obtain q s' m' where q: "al_alloc A ?l s m = (q, s', m')" by (metis prod_cases3)
  have ok: "alloc_ok A s" and bl: "\<And>p bs. U p = Some bs \<Longrightarrow> block_ok A s m p bs"
    using r by (auto simp: slab_rep_def)
  have c: "alloc_ok A s'" "keeps A s {} m m'"
    "if q = 0 then al_live A s' = al_live A s
     else al_live A s q = None \<and> al_live A s' = (al_live A s)(q \<mapsto> ?l)"
    using A ok q nz unfolding global_alloc_def alloc_contract_def
    by (metis layout.select_convs(1))+
  have e: "kmalloc A n f (s, m) =
      (if q = 0 then Inr (0, s', m') else Inr (q + 16, s', store_bytes q (header_bytes n) m'))"
    using True t nz q by (simp add: kmalloc_def checked_add_def HEADER_SIZE_def PAYLOAD_ALIGN_def
        from_size_align_def call_alloc_def)
  show ?thesis
  proof (cases "q = 0")
    case q0: True
    have "block_ok A s' m' p bs" if "U p = Some bs" for p bs
      by (rule block_kept [OF ok bl [OF that] c(2)]) (use c(3) q0 in simp_all)
    then show ?thesis using that [of 0 s' m'] e q0 c(1) by (simp add: slab_rep_def)
  next
    case q1: False
    then have live: "al_live A s q = None" "al_live A s' = (al_live A s)(q \<mapsto> ?l)" using c(3) by auto
    let ?m = "store_bytes q (header_bytes n) m'"
    have new: "block_ok A s' ?m (q + 16) (mem_bytes m' (q + 16) (unat n))"
      using live by (intro block_install [OF c(1) _ n]) simp
    have other: "block_ok A s' ?m p bs \<and> p - 16 \<noteq> q" if "U p = Some bs" for p bs
    proof -
      have "al_live A s (p - 16) \<noteq> None" using bl [OF that] by (simp add: block_ok_def)
      then have ne: "p - 16 \<noteq> q" using live(1) by metis
      then show ?thesis
        using live(2) t by (auto intro!: block_other [OF ok c(1) bl [OF that] c(2)])
    qed
    have "U (q + 16) = None" using other [of "q + 16"] by (cases "U (q + 16)") auto
    moreover have "slab_rep A (U(q + 16 \<mapsto> mem_bytes m' (q + 16) (unat n))) (s', ?m)"
      using c(1) new other by (auto simp: slab_rep_def)
    ultimately show ?thesis
      using that [of "q + 16" s' ?m] e q1 block_bounds(1, 4) [OF c(1) new]
      by (metis length_mem_bytes)
  qed
qed


lemma user_store_refines:
  assumes r: "slab_rep A U (s, m)" and u: "U p = Some bs" "length cs = length bs"
  shows "slab_rep A (U(p \<mapsto> cs)) (s, store_bytes p cs m)"
proof -
  have ok: "alloc_ok A s" and bl: "\<And>p bs. U p = Some bs \<Longrightarrow> block_ok A s m p bs"
    using r by (auto simp: slab_rep_def)
  note b = bl [OF u(1)] and bb = block_bounds [OF ok bl [OF u(1)]]
  let ?m = "store_bytes p cs m"
  have outside: "?m x = m x" if "unat x \<notin> {unat p ..< unat p + length bs}" for x
    using that bb(2, 3) u(2) by (intro store_bytes_outside) auto
  have "mem_bytes ?m (p - 16) 16 = mem_bytes m (p - 16) 16"
    using bb(2, 3) by (intro mem_bytes_cong outside) auto
  also have "\<dots> = take 16 (mem_bytes m (p - 16) (16 + length bs))" by (simp add: take_mem_bytes)
  also have "\<dots> = header_bytes (of_nat (length bs))" using b by (simp add: block_ok_def)
  finally have hd: "mem_bytes ?m (p - 16) 16 = header_bytes (of_nat (length bs))" .
  have "length cs < 2 ^ 64" using b u(2) by (simp add: block_ok_def size_fits_def)
  then have "mem_bytes ?m p (length cs) = cs" by (rule mem_bytes_store)
  then have "block_ok A s ?m p cs"
    using b hd u(2) mem_bytes_add [of ?m "p - 16" 16 "length cs"] by (auto simp: block_ok_def)
  moreover have "block_ok A s ?m q ds" if q: "U q = Some ds" "q \<noteq> p" for q ds
  proof (rule block_keep [OF ok bl [OF q(1)] refl])
    let ?r = "\<lambda>q ds. region (q - 16) \<lparr>lsize = of_nat (length ds) + 16, lalign = 16\<rparr>"
    fix x :: u64 assume x: "unat x \<in> ?r q ds"
    have "?r q ds \<inter> ?r p bs = {}"
      using ok b bl [OF q(1)] q(2) unfolding alloc_ok_def block_ok_def by auto
    then have "unat x \<notin> {unat (p - 16) ..< unat (p - 16) + (16 + length bs)}"
      using x unfolding bb(6) by blast
    then show "?m x = m x" using bb(2) by (intro outside) auto
  qed
  ultimately show ?thesis using ok by (auto simp: slab_rep_def)
qed

lemma kfree_refines:
  assumes A: "global_alloc A" and r: "slab_rep A U (s, m)" and u: "U p = Some bs"
  obtains s' m' where "kfree A p (s, m) = Inr (s', m')" "slab_rep A (U(p := None)) (s', m')"
proof -
  have ok: "alloc_ok A s" and bl: "\<And>p bs. U p = Some bs \<Longrightarrow> block_ok A s m p bs"
    using r by (auto simp: slab_rep_def)
  note bb = block_bounds [OF ok bl [OF u]]
  let ?l = "\<lparr>lsize = of_nat (length bs) + 16, lalign = 16\<rparr>"
  have live: "al_live A s (p - 16) = Some ?l" using bl [OF u] by (simp add: block_ok_def)
  obtain s' m' where q: "al_dealloc A (p - 16) ?l s m = (s', m')" by force
  have c: "alloc_ok A s'" "keeps A s {p - 16} m m'" "al_live A s' = (al_live A s)(p - 16 := None)"
    using A ok q live unfolding global_alloc_def dealloc_contract_def by blast+
  have "block_ok A s' m' k cs" if k: "U k = Some cs" "k \<noteq> p" for k cs
    by (rule block_kept [OF ok bl [OF k(1)] c(2)]) (use c(3) k(2) in simp_all)
  then have "slab_rep A (U(p := None)) (s', m')" using c(1) by (auto simp: slab_rep_def)
  moreover have "kfree A p (s, m) = Inr (s', m')"
    using bb(1, 5) live q by (simp add: kfree_def HEADER_SIZE_def PAYLOAD_ALIGN_def call_dealloc_def)
  ultimately show ?thesis using that by blast
qed

lemma realloc_contractD:
  assumes "global_alloc A" "alloc_ok A s" "al_live A s r = Some l" "n \<noteq> 0"
    "size_fits (unat n) (unat (lalign l))" "al_realloc A r l n s m = (r', s', m')"
  shows "alloc_ok A s'"
    "r' = 0 \<Longrightarrow> al_live A s' = al_live A s \<and> keeps A s {} m m'"
    "r' \<noteq> 0 \<Longrightarrow> (r' = r \<or> al_live A s r' = None) \<and> keeps A s {r} m m' \<and>
       al_live A s' = ((al_live A s)(r := None))(r' \<mapsto> l\<lparr>lsize := n\<rparr>) \<and>
       mem_bytes m' r' (min (unat n) (unat (lsize l))) = mem_bytes m r (min (unat n) (unat (lsize l)))"
proof -
  have "alloc_ok A s' \<and>
        (if r' = 0 then al_live A s' = al_live A s \<and> keeps A s {} m m'
         else (r' = r \<or> al_live A s r' = None) \<and> keeps A s {r} m m' \<and>
              al_live A s' = ((al_live A s)(r := None))(r' \<mapsto> l\<lparr>lsize := n\<rparr>) \<and>
              (let k = min (unat n) (unat (lsize l)) in mem_bytes m' r' k = mem_bytes m r k))"
    using assms unfolding global_alloc_def realloc_contract_def by blast
  then show "alloc_ok A s'"
    "r' = 0 \<Longrightarrow> al_live A s' = al_live A s \<and> keeps A s {} m m'"
    "r' \<noteq> 0 \<Longrightarrow> (r' = r \<or> al_live A s r' = None) \<and> keeps A s {r} m m' \<and>
       al_live A s' = ((al_live A s)(r := None))(r' \<mapsto> l\<lparr>lsize := n\<rparr>) \<and>
       mem_bytes m' r' (min (unat n) (unat (lsize l))) = mem_bytes m r (min (unat n) (unat (lsize l)))"
    by (auto simp: Let_def)
qed

lemma krealloc_refines:
  assumes A: "global_alloc A" and r: "slab_rep A U (s, m)" and u: "U p = Some bs"
    and n: "n \<noteq> 0" "size_fits (unat n + 16) 16"
  obtains q s' m' where "krealloc A p n f (s, m) = Inr (q, s', m')"
    "q = 0 \<Longrightarrow> slab_rep A U (s', m')"
    "q \<noteq> 0 \<Longrightarrow> (q = p \<or> U q = None) \<and> 16 dvd unat q \<and>
       (\<exists>cs. length cs = unat n \<and> take (length bs) cs = take (unat n) bs \<and>
             slab_rep A ((U(p := None))(q \<mapsto> cs)) (s', m'))"
proof -
  have ok: "alloc_ok A s" and bl: "\<And>p bs. U p = Some bs \<Longrightarrow> block_ok A s m p bs"
    using r by (auto simp: slab_rep_def)
  note b = bl [OF u] and bb = block_bounds [OF ok bl [OF u]]
  let ?l = "\<lparr>lsize = of_nat (length bs) + 16, lalign = 16\<rparr>"
  have live: "al_live A s (p - 16) = Some ?l" using b by (simp add: block_ok_def)
  have t: "unat (n + 16) = unat n + 16" using unat_total [OF n(2)] by simp
  then have nz: "n + 16 \<noteq> 0" by (metis add_eq_0_iff_both_eq_0 unat_0 zero_neq_numeral)
  have n64: "unat n + 16 < 2 ^ 64" using n(2) by (simp add: size_fits_def)
  obtain q s' m' where q: "al_realloc A (p - 16) ?l (n + 16) s m = (q, s', m')" by (metis prod_cases3)
  have "size_fits (unat (n + 16)) (unat (lalign ?l))" using n(2) t by simp
  note c = realloc_contractD [OF A ok live nz this q]
  have e: "krealloc A p n f (s, m) =
      (if q = 0 then Inr (0, s', m') else Inr (q + 16, s', store_bytes q (header_bytes n) m'))"
    using bb(1, 5) n n64 live nz t q
    by (simp add: krealloc_def checked_add_def HEADER_SIZE_def PAYLOAD_ALIGN_def call_realloc_def)
  show ?thesis
  proof (cases "q = 0")
    case q0: True
    have "block_ok A s' m' k cs" if k: "U k = Some cs" for k cs
      by (rule block_kept [OF ok bl [OF k], of "{}"]) (use c(2) [OF q0] in simp_all)
    then show ?thesis using that [of 0 s' m'] e q0 c(1) by (simp add: slab_rep_def)
  next
    case q1: False
    let ?m = "store_bytes q (header_bytes n) m'" and ?cs = "mem_bytes m' (q + 16) (unat n)"
    have fr: "q = p - 16 \<or> al_live A s q = None" and kp: "keeps A s {p - 16} m m'"
      and lv: "al_live A s' = ((al_live A s)(p - 16 := None))(q \<mapsto> \<lparr>lsize = n + 16, lalign = 16\<rparr>)"
      and cp: "mem_bytes m' q (16 + min (unat n) (length bs)) =
               mem_bytes m (p - 16) (16 + min (unat n) (length bs))"
    proof -
      have "unat (of_nat (length bs) + 16 :: u64) = length bs + 16"
        using b by (intro unat_total) (simp add: block_ok_def)
      then have k: "min (unat (n + 16)) (unat (lsize ?l)) = 16 + min (unat n) (length bs)"
        by (simp add: t min_def)
      show "q = p - 16 \<or> al_live A s q = None" "keeps A s {p - 16} m m'"
        "al_live A s' = ((al_live A s)(p - 16 := None))(q \<mapsto> \<lparr>lsize = n + 16, lalign = 16\<rparr>)"
        "mem_bytes m' q (16 + min (unat n) (length bs)) =
           mem_bytes m (p - 16) (16 + min (unat n) (length bs))"
        using c(3) [OF q1] unfolding k by simp_all
    qed
    have new: "block_ok A s' ?m (q + 16) ?cs"
      using lv by (intro block_install [OF c(1) _ n]) simp
    have other: "block_ok A s' ?m k ds \<and> k - 16 \<noteq> q" if k: "U k = Some ds" "k \<noteq> p" for k ds
    proof -
      have "al_live A s (k - 16) \<noteq> None" using bl [OF k(1)] by (simp add: block_ok_def)
      then have ne: "k - 16 \<noteq> q" using fr k(2) by auto
      then show ?thesis
        using lv t k(2) by (auto intro!: block_other [OF ok c(1) bl [OF k(1)] kp])
    qed
    have pre: "take (length bs) ?cs = take (unat n) bs"
    proof -
      let ?k = "min (unat n) (length bs)"
      have "mem_bytes m' (q + 16) ?k = mem_bytes m p ?k"
        using cp mem_bytes_add [of m' q 16 ?k] mem_bytes_add [of m "p - 16" 16 ?k] by simp
      moreover have "mem_bytes m p (length bs) = bs"
        using b mem_bytes_add [of m "p - 16" 16 "length bs"] by (simp add: block_ok_def)
      then have "take (unat n) bs = mem_bytes m p ?k" by (metis take_mem_bytes_min)
      ultimately show ?thesis by (simp add: take_mem_bytes_min min.commute)
    qed
    have "q + 16 = p \<or> U (q + 16) = None" using other [of "q + 16"] by (cases "U (q + 16)") auto
    moreover have "slab_rep A ((U(p := None))(q + 16 \<mapsto> ?cs)) (s', ?m)"
      using c(1) new other by (auto simp: slab_rep_def split: if_splits)
    ultimately show ?thesis
      using that [of "q + 16" s' ?m] e q1 block_bounds(1, 4) [OF c(1) new] pre
      by (metis length_mem_bytes)
  qed
qed


section \<open>The shim refines the user's view\<close>

datatype slab_op =
    Kmalloc usize
  | Kzalloc usize
  | Krealloc u64 usize
  | Kfree u64
  | Store u64 "u8 list"

text \<open>A call, and the driver's own store to a whole payload; a call without result gives 0.\<close>

fun slab_step ::
    "'s allocator \<Rightarrow> slab_op \<Rightarrow> 's \<times> byte_mem \<Rightarrow> (u64 \<times> 's \<times> byte_mem) outcome" where
  "slab_step A (Kmalloc n) st = kmalloc A n 1 st"
| "slab_step A (Kzalloc n) st = kzalloc A n 1 st"
| "slab_step A (Krealloc p n) st = krealloc A p n 1 st"
| "slab_step A (Kfree p) st = and_then (kfree A p st) (\<lambda>st. Inr (0, st))"
| "slab_step A (Store p bs) st = Inr (0, fst st, store_bytes p bs (snd st))"

text \<open>
  What the caller must respect: pointers are NULL or live, stores stay inside the payload, and the
  new size of a reallocation, with its header, is one a Layout can have.
\<close>

fun slab_pre :: "user_heap \<Rightarrow> slab_op \<Rightarrow> bool" where
  "slab_pre U (Krealloc p n) = ((p = 0 \<or> p \<in> dom U) \<and> size_fits (unat n + 16) 16)"
| "slab_pre U (Kfree p) = (p = 0 \<or> p \<in> dom U)"
| "slab_pre U (Store p bs) = (\<exists>old. U p = Some old \<and> length bs = length old)"
| "slab_pre U _ = True"

text \<open>What a call does to the user's heap, given the pointer \<open>r\<close> it returns.\<close>

definition fresh_block :: "u64 \<Rightarrow> u8 list \<Rightarrow> user_heap \<Rightarrow> user_heap \<Rightarrow> bool" where
  "fresh_block r bs U U' = (r \<noteq> 0 \<and> 16 dvd unat r \<and> U r = None \<and> U' = U(r \<mapsto> bs))"

fun slab_post :: "slab_op \<Rightarrow> u64 \<Rightarrow> user_heap \<Rightarrow> user_heap \<Rightarrow> bool" where
  "slab_post (Kmalloc n) r U U' =
     (r = 0 \<and> U' = U \<or> (\<exists>bs. length bs = unat n \<and> fresh_block r bs U U'))"
| "slab_post (Kzalloc n) r U U' =
     (r = 0 \<and> U' = U \<or> fresh_block r (replicate (unat n) 0) U U')"
| "slab_post (Krealloc p n) r U U' =
     (if p = 0 then r = 0 \<and> U' = U \<or> (\<exists>bs. length bs = unat n \<and> fresh_block r bs U U')
      else if n = 0 then r = 0 \<and> U' = U(p := None)
      else r = 0 \<and> U' = U \<or>
           (\<exists>bs old. U p = Some old \<and> length bs = unat n \<and>
              take (length old) bs = take (unat n) old \<and> fresh_block r bs (U(p := None)) U'))"
| "slab_post (Kfree p) r U U' = (U' = U(p := None))"
| "slab_post (Store p bs) r U U' = (U' = U(p \<mapsto> bs))"

lemma slab_rep_not_null: "slab_rep A U (s, m) \<Longrightarrow> U 0 = None"
  using block_bounds(1) [of A s m 0] by (cases "U 0") (auto simp: slab_rep_def)

lemma kmalloc_post:
  assumes A: "global_alloc A" and r: "slab_rep A U (s, m)"
  shows "\<exists>p st' U'. kmalloc A n f (s, m) = Inr (p, st') \<and>
           slab_post (Kmalloc n) p U U' \<and> slab_rep A U' st'"
proof -
  obtain p s' m' where k: "kmalloc A n f (s, m) = Inr (p, s', m')"
    "p = 0 \<Longrightarrow> slab_rep A U (s', m')"
    "p \<noteq> 0 \<Longrightarrow> U p = None \<and> 16 dvd unat p \<and>
       (\<exists>bs. length bs = unat n \<and> slab_rep A (U(p \<mapsto> bs)) (s', m'))"
    by (rule kmalloc_refines [OF A r, of n f]) blast
  show ?thesis
  proof (cases "p = 0")
    case False
    then obtain bs where bs: "length bs = unat n" "slab_rep A (U(p \<mapsto> bs)) (s', m')"
      and p: "U p = None" "16 dvd unat p" using k(3) by blast
    then have "slab_post (Kmalloc n) p U (U(p \<mapsto> bs))" using False by (auto simp: fresh_block_def)
    then show ?thesis using k(1) bs(2) by blast
  qed (use k in auto)
qed

lemma krealloc_post:
  assumes A: "global_alloc A" and r: "slab_rep A U (s, m)" and u: "U p = Some bs"
    and n: "n \<noteq> 0" "size_fits (unat n + 16) 16" and p: "p \<noteq> 0"
  shows "\<exists>q st' U'. krealloc A p n f (s, m) = Inr (q, st') \<and>
           slab_post (Krealloc p n) q U U' \<and> slab_rep A U' st'"
proof -
  obtain q s' m' where k: "krealloc A p n f (s, m) = Inr (q, s', m')"
    "q = 0 \<Longrightarrow> slab_rep A U (s', m')"
    "q \<noteq> 0 \<Longrightarrow> (q = p \<or> U q = None) \<and> 16 dvd unat q \<and>
       (\<exists>cs. length cs = unat n \<and> take (length bs) cs = take (unat n) bs \<and>
             slab_rep A ((U(p := None))(q \<mapsto> cs)) (s', m'))"
    by (rule krealloc_refines [OF A r u n, of f]) blast
  show ?thesis
  proof (cases "q = 0")
    case False
    then obtain cs where cs: "length cs = unat n" "take (length bs) cs = take (unat n) bs"
      "slab_rep A ((U(p := None))(q \<mapsto> cs)) (s', m')" and q: "q = p \<or> U q = None" "16 dvd unat q"
      using k(3) by blast
    have "fresh_block q cs (U(p := None)) ((U(p := None))(q \<mapsto> cs))"
      using False q by (auto simp: fresh_block_def)
    then have "slab_post (Krealloc p n) q U ((U(p := None))(q \<mapsto> cs))"
      using cs u n(1) p by auto
    then show ?thesis using k(1) cs(3) by blast
  next
    case True
    then have "slab_post (Krealloc p n) q U U" using n(1) p by simp
    then show ?thesis using k(1, 2) True by blast
  qed
qed

lemma kzalloc_refines:
  assumes A: "global_alloc A" and r: "slab_rep A U (s, m)"
  shows "\<exists>p s' m' U'. kzalloc A n f (s, m) = Inr (p, s', m') \<and>
           slab_post (Kzalloc n) p U U' \<and> slab_rep A U' (s', m')"
proof -
  obtain p s' m' where k: "kmalloc A n f (s, m) = Inr (p, s', m')"
    "p = 0 \<Longrightarrow> slab_rep A U (s', m')"
    "p \<noteq> 0 \<Longrightarrow> U p = None \<and> 16 dvd unat p \<and>
       (\<exists>bs. length bs = unat n \<and> slab_rep A (U(p \<mapsto> bs)) (s', m'))"
    by (rule kmalloc_refines [OF A r, of n f]) blast
  show ?thesis
  proof (cases "p = 0")
    case True
    then show ?thesis using k(1, 2) by (auto simp: kzalloc_def)
  next
    case False
    then obtain bs where bs: "length bs = unat n" "slab_rep A (U(p \<mapsto> bs)) (s', m')"
      and p: "U p = None" "16 dvd unat p" using k(3) by blast
    have "slab_rep A (U(p \<mapsto> replicate (unat n) 0)) (s', store_bytes p (replicate (unat n) 0) m')"
      using user_store_refines [OF bs(2), of p bs "replicate (unat n) 0"] bs(1) by simp
    then show ?thesis using False k(1) p by (auto simp: kzalloc_def fresh_block_def)
  qed
qed

text \<open>
  C22. Refinement of the slab shim. Over any global allocator that keeps its contract, every call
  of kmalloc, kzalloc, krealloc and kfree with arguments a driver may pass is free of undefined
  behaviour (in particular the layout handed back to the allocator is always the one the block was
  allocated with), and acts on the driver's payloads as their specification says: a payload
  is fresh, 16-byte aligned and of the requested size, zeroed by kzalloc; krealloc keeps the
  common prefix; no call changes any other payload, and an impossible size gives NULL.
\<close>
theorem slab_refines:
  assumes "global_alloc A" "slab_rep A U st" "slab_pre U c"
  shows "\<exists>r st' U'. slab_step A c st = Inr (r, st') \<and> slab_post c r U U' \<and> slab_rep A U' st'"
proof -
  obtain s m where st: "st = (s, m)" by force
  note A = assms(1) and r = assms(2) [unfolded st]
  have null: "U 0 = None" by (rule slab_rep_not_null [OF r])
  have km: "\<exists>r st' U'. kmalloc A n 1 st = Inr (r, st') \<and> slab_post (Kmalloc n) r U U' \<and> slab_rep A U' st'" for n
    unfolding st by (rule kmalloc_post [OF A r])
  have kf: "\<exists>st'. kfree A p st = Inr st' \<and> slab_rep A (U(p := None)) st'" if pp: "p = 0 \<or> p \<in> dom U" for p
  proof (cases "p = 0")
    case True
    moreover have "U(0 := None) = U" using null by auto
    ultimately show ?thesis using r by (simp add: kfree_def st)
  next
    case False
    then obtain bs where "U p = Some bs" using pp by blast
    from kfree_refines [OF A r this] show ?thesis unfolding st by blast
  qed
  show ?thesis
  proof (cases c)
    case (Kmalloc n) then show ?thesis using km by simp
  next
    case (Kzalloc n)
    obtain p s' m' U' where z: "kzalloc A n 1 st = Inr (p, s', m')"
      "slab_post (Kzalloc n) p U U'" "slab_rep A U' (s', m')"
      using kzalloc_refines [OF A r, of n 1] unfolding st by blast
    show ?thesis unfolding Kzalloc slab_step.simps z(1) using z(2, 3) by blast
  next
    case (Kfree p) then show ?thesis using kf [of p] assms(3) by auto
  next
    case (Store p bs)
    then show ?thesis using user_store_refines [OF r] assms(3) by (auto simp: st)
  next
    case (Krealloc p n)
    show ?thesis
    proof (cases "p = 0 \<or> n = 0")
      case True
      then show ?thesis
      proof (cases "p = 0")
        case True then show ?thesis using km [of n] Krealloc by (simp add: krealloc_def)
      next
        case False
        then show ?thesis using True kf [of p] Krealloc assms(3) by (auto simp: krealloc_def)
      qed
    next
      case False
      then obtain bs where u: "U p = Some bs" "n \<noteq> 0" "size_fits (unat n + 16) 16"
        using assms(3) Krealloc by auto
      then show ?thesis using krealloc_post [OF A r u, of 1] False Krealloc unfolding st by auto
    qed
  qed
qed


text \<open>
  A concrete allocator for the witness: a bump pointer over the address space from 4096 up. It
  rounds sizes up to 16, never reuses memory, refuses to resize, and refuses every request that
  has another alignment than 16 or does not fit below \<open>2 ^ 62\<close>.
\<close>

record bump =
  bump_next :: nat
  bump_live :: "u64 \<rightharpoonup> layout"

definition bump_fits :: "bump \<Rightarrow> layout \<Rightarrow> bool" where
  "bump_fits s l = (16 \<le> bump_next s \<and> 16 dvd bump_next s \<and> lalign l = 16 \<and>
     bump_next s + unat (lsize l) < 2 ^ 62 \<and> bump_live s (of_nat (bump_next s)) = None \<and>
     (\<forall>r k. bump_live s r = Some k \<longrightarrow> unat r + unat (lsize k) \<le> bump_next s))"

definition bump_alloc :: "layout \<Rightarrow> bump \<Rightarrow> byte_mem \<Rightarrow> u64 \<times> bump \<times> byte_mem" where
  "bump_alloc l s m =
     (if bump_fits s l \<and> lsize l \<noteq> 0
      then let r = of_nat (bump_next s) in
        (r, \<lparr>bump_next = bump_next s + 16 * ((unat (lsize l) + 15) div 16),
             bump_live = (bump_live s)(r \<mapsto> l)\<rparr>, m)
      else (0, s, m))"

definition bump_dealloc :: "u64 \<Rightarrow> layout \<Rightarrow> bump \<Rightarrow> byte_mem \<Rightarrow> bump \<times> byte_mem" where
  "bump_dealloc r l s m = (s\<lparr>bump_live := (bump_live s)(r := None)\<rparr>, m)"

definition bump_realloc ::
    "u64 \<Rightarrow> layout \<Rightarrow> usize \<Rightarrow> bump \<Rightarrow> byte_mem \<Rightarrow> u64 \<times> bump \<times> byte_mem" where
  "bump_realloc r l n s m = (0, s, m)"

definition bump_allocator :: "bump allocator" where
  "bump_allocator = \<lparr>al_alloc = bump_alloc, al_dealloc = bump_dealloc,
     al_realloc = bump_realloc, al_live = bump_live\<rparr>"

lemma keeps_refl [simp]: "keeps A s X m m"
  by (simp add: keeps_def)

lemma bump_alloc_ok:
  assumes a: "alloc_ok bump_allocator s" and f: "bump_fits s l"
    and s': "bump_live s' = (bump_live s)(of_nat (bump_next s) \<mapsto> l)"
  shows "alloc_ok bump_allocator s'" "(of_nat (bump_next s) :: u64) \<noteq> 0"
proof -
  let ?r = "of_nat (bump_next s) :: u64"
  have u: "unat ?r = bump_next s" using f by (intro unat_of_nat_small) (simp add: bump_fits_def)
  have below: "unat r + unat (lsize k) \<le> unat ?r" if "bump_live s r = Some k" for r k
    using f that u by (simp add: bump_fits_def)
  show nz: "?r \<noteq> 0" using u f by (auto simp: bump_fits_def)
  have new: "unat ?r + unat (lsize l) \<le> 2 ^ 64" "unat (lalign l) dvd unat ?r"
    using f u by (auto simp: bump_fits_def)
  have disj: "region r k \<inter> region ?r l = {}" if "bump_live s r = Some k" for r k
    using below [OF that] by (auto simp: region_def)
  show "alloc_ok bump_allocator s'"
    using a nz new disj unfolding alloc_ok_def bump_allocator_def
    by (auto simp: s' Int_commute split: if_splits)
qed

lemma bump_global_alloc: "global_alloc bump_allocator"
proof -
  have "alloc_contract bump_allocator"
    unfolding alloc_contract_def
  proof (intro allI impI)
    fix s m l r s' m'
    assume h: "alloc_ok bump_allocator s \<and> lsize l \<noteq> 0 \<and> al_alloc bump_allocator l s m = (r, s', m')"
    show "alloc_ok bump_allocator s' \<and> keeps bump_allocator s {} m m' \<and>
        (if r = 0 then al_live bump_allocator s' = al_live bump_allocator s
         else al_live bump_allocator s r = None \<and>
              al_live bump_allocator s' = (al_live bump_allocator s)(r \<mapsto> l))"
    proof (cases "bump_fits s l")
      case True
      then have e: "r = of_nat (bump_next s)" "m' = m" "bump_live s' = (bump_live s)(of_nat (bump_next s) \<mapsto> l)"
        using h by (auto simp: bump_allocator_def bump_alloc_def Let_def)
      have "bump_live s (of_nat (bump_next s)) = None" using True by (simp add: bump_fits_def)
      then show ?thesis using bump_alloc_ok [of s l s'] h True e by (simp add: bump_allocator_def)
    next
      case False
      then show ?thesis using h by (auto simp: bump_allocator_def bump_alloc_def)
    qed
  qed
  moreover have "dealloc_contract bump_allocator"
    unfolding dealloc_contract_def alloc_ok_def
    by (auto simp: bump_allocator_def bump_dealloc_def split: if_splits)
  moreover have "realloc_contract bump_allocator"
    unfolding realloc_contract_def by (auto simp: bump_allocator_def bump_realloc_def)
  ultimately show ?thesis by (simp add: global_alloc_def)
qed

definition bump_start :: "bump \<times> byte_mem" where
  "bump_start = (\<lparr>bump_next = 4096, bump_live = Map.empty\<rparr>, \<lambda>_. 0xAA)"

theorem slab_refines_witness:
  "\<exists>r st' U'. slab_step bump_allocator (Kzalloc 100) bump_start = Inr (r, st') \<and>
     slab_post (Kzalloc 100) r Map.empty U' \<and> slab_rep bump_allocator U' st'"
  by (rule slab_refines [OF bump_global_alloc])
    (simp_all add: slab_rep_def alloc_ok_def bump_start_def bump_allocator_def)

text \<open>
  The size condition on krealloc is needed: unlike kmalloc, krealloc does not build its new layout
  with Layout::from\_size\_align, so a size above isize::MAX that does not overflow usize reaches
  the allocator and breaks the safety contract of GlobalAlloc::realloc.
\<close>

lemma krealloc_oversize_undefined:
  assumes "slab_rep A U (s, m)" "U p = Some bs"
  shows "krealloc A p (2 ^ 63) f (s, m) = Inl Undefined" "kmalloc A (2 ^ 63) f (s, m) = Inr (0, s, m)"
proof -
  have b: "alloc_ok A s" "block_ok A s m p bs" using assms by (auto simp: slab_rep_def)
  have u: "unat (0x8000000000000010 :: u64) = 0x8000000000000010" by simp
  show "krealloc A p (2 ^ 63) f (s, m) = Inl Undefined"
    using block_bounds(1) [OF b]
    by (simp add: krealloc_def checked_add_def HEADER_SIZE_def PAYLOAD_ALIGN_def call_realloc_def size_fits_def)
  show "kmalloc A (2 ^ 63) f (s, m) = Inr (0, s, m)"
    by (simp add: kmalloc_def checked_add_def HEADER_SIZE_def PAYLOAD_ALIGN_def from_size_align_def size_fits_def)
qed

end
