(* ===== verification/Workqueue.thy ===== *)
theory Workqueue
  imports Prelude "HOL-Library.Multiset"
begin

text \<open>
  The deferred-work queue of the LinuxKPI shim (linuxkpi/src/workqueue.rs). A work item is the
  state byte and the function pointer of its work\_struct; the queue is the list of the pointers
  in PENDING. The atomic accesses are separate definitions (one compare-exchange, one store, one
  critical section of the queue's mutex), from which the operations are composed, and which are
  also the steps of an interleaving system of any number of callers and the one runner.

  A work function is code of the inherited driver, so it is a parameter: \<open>body f w\<close> is the
  sequence of shim calls the function at \<open>f\<close> makes when it is invoked on \<open>w\<close>.
\<close>

section \<open>Work items and the queue\<close>

definition STATE_IDLE :: u8 where "STATE_IDLE = 0"
definition STATE_PENDING :: u8 where "STATE_PENDING = 1"
definition STATE_RUNNING :: u8 where "STATE_RUNNING = 2"

lemma state_distinct [simp]:
  "STATE_IDLE \<noteq> STATE_PENDING" "STATE_PENDING \<noteq> STATE_IDLE"
  "STATE_IDLE \<noteq> STATE_RUNNING" "STATE_RUNNING \<noteq> STATE_IDLE"
  "STATE_PENDING \<noteq> STATE_RUNNING" "STATE_RUNNING \<noteq> STATE_PENDING"
  by (simp_all add: STATE_IDLE_def STATE_PENDING_def STATE_RUNNING_def)

record work =
  wk_state :: u8
  wk_func :: "u64 option"

record workqueue =
  wq_mem :: "u64 \<rightharpoonup> work"
  wq_pending :: "u64 list"

definition work_struct_new :: work where
  "work_struct_new = \<lparr>wk_state = 0, wk_func = None\<rparr>"

definition wq_start :: "(u64 \<rightharpoonup> work) \<Rightarrow> workqueue" where
  "wq_start m = \<lparr>wq_mem = m, wq_pending = []\<rparr>"

section \<open>Atomic accesses\<close>

definition inner :: "workqueue \<Rightarrow> u64 \<Rightarrow> work outcome" where
  "inner q w = (case wq_mem q w of None \<Rightarrow> Inl Undefined | Some k \<Rightarrow> Inr k)"

definition store_state :: "u64 \<Rightarrow> u8 \<Rightarrow> workqueue \<Rightarrow> workqueue outcome" where
  "store_state w v q =
     and_then (inner q w) (\<lambda>k. Inr (q\<lparr>wq_mem := (wq_mem q)(w \<mapsto> k\<lparr>wk_state := v\<rparr>)\<rparr>))"

definition compare_exchange ::
    "u64 \<Rightarrow> u8 \<Rightarrow> u8 \<Rightarrow> workqueue \<Rightarrow> (bool \<times> workqueue) outcome" where
  "compare_exchange w cur new q =
     and_then (inner q w) (\<lambda>k.
       if wk_state k = cur
       then and_then (store_state w new q) (\<lambda>q. Inr (True, q))
       else Inr (False, q))"

definition push_pending :: "u64 \<Rightarrow> workqueue \<Rightarrow> workqueue" where
  "push_pending w q = q\<lparr>wq_pending := wq_pending q @ [w]\<rparr>"

definition retain_pending :: "u64 \<Rightarrow> workqueue \<Rightarrow> workqueue" where
  "retain_pending w q = q\<lparr>wq_pending := filter (\<lambda>v. v \<noteq> w) (wq_pending q)\<rparr>"

definition pop_pending :: "workqueue \<Rightarrow> (u64 \<times> workqueue) option" where
  "pop_pending q =
     (case wq_pending q of [] \<Rightarrow> None | w # ws \<Rightarrow> Some (w, q\<lparr>wq_pending := ws\<rparr>))"

section \<open>Operations\<close>

definition linuxkpi_work_init :: "u64 \<Rightarrow> u64 \<Rightarrow> workqueue \<Rightarrow> workqueue outcome" where
  "linuxkpi_work_init w func q =
     (if w = 0 then Inr q
      else and_then (inner q w) (\<lambda>k.
        Inr (q\<lparr>wq_mem := (wq_mem q)(w \<mapsto> \<lparr>wk_state = STATE_IDLE,
                 wk_func = (if func = 0 then None else Some func)\<rparr>)\<rparr>)))"

definition queue_work :: "u64 \<Rightarrow> u64 \<Rightarrow> workqueue \<Rightarrow> (bool \<times> workqueue) outcome" where
  "queue_work wq w q =
     (if w = 0 then Inr (False, q)
      else and_then (compare_exchange w STATE_IDLE STATE_PENDING q) (\<lambda>(ok, q).
             if ok then Inr (True, push_pending w q) else Inr (False, q)))"

definition cancel_work :: "u64 \<Rightarrow> workqueue \<Rightarrow> (bool \<times> workqueue) outcome" where
  "cancel_work w q =
     (if w = 0 then Inr (False, q)
      else and_then (compare_exchange w STATE_PENDING STATE_IDLE q) (\<lambda>(ok, q).
             if ok then Inr (True, retain_pending w q) else Inr (False, q)))"

text \<open>
  The spin of cancel\_work\_sync: \<open>env k\<close> is what the rest of the machine does between poll
  \<open>k\<close> and the next. Not returning is the value \<^term>\<open>None\<close>.
\<close>

partial_function (option) cancel_spin ::
    "(nat \<Rightarrow> workqueue \<Rightarrow> workqueue) \<Rightarrow> u64 \<Rightarrow> nat \<Rightarrow> workqueue \<Rightarrow> workqueue outcome option" where
  [code]: "cancel_spin env w k q =
     (case inner q w of
        Inl e \<Rightarrow> Some (Inl e)
      | Inr i \<Rightarrow> if wk_state i = STATE_RUNNING then cancel_spin env w (k + 1) (env k q)
                 else Some (Inr q))"

definition cancel_work_sync ::
    "(nat \<Rightarrow> workqueue \<Rightarrow> workqueue) \<Rightarrow> u64 \<Rightarrow> workqueue \<Rightarrow> (bool \<times> workqueue) outcome option" where
  "cancel_work_sync env w q =
     (if w = 0 then Some (Inr (False, q))
      else case cancel_work w q of
        Inl e \<Rightarrow> Some (Inl e)
      | Inr (was_pending, q) \<Rightarrow>
          (case cancel_spin env w 0 q of
             None \<Rightarrow> None
           | Some (Inl e) \<Rightarrow> Some (Inl e)
           | Some (Inr q) \<Rightarrow>
               Some (and_then (inner q w) (\<lambda>i. Inr (was_pending \<or> wk_state i \<noteq> STATE_IDLE, q)))))"

definition SENTINEL_WQ_STORAGE :: "u64 \<Rightarrow> u64" where
  "SENTINEL_WQ_STORAGE a = a"

definition alloc_workqueue :: "u64 \<Rightarrow> u64 \<Rightarrow> u32 \<Rightarrow> u32 \<Rightarrow> u64" where
  "alloc_workqueue sentinel fmt flags max_active = SENTINEL_WQ_STORAGE sentinel"

definition destroy_workqueue :: "u64 \<Rightarrow> workqueue \<Rightarrow> workqueue" where
  "destroy_workqueue wq q = q"

text \<open>The calls a driver or a work function makes, and what is observed of them.\<close>

datatype wq_call = Queue u64 | Cancel u64

datatype wq_event = Queued u64 | Cancelled u64 | Ran u64

fun wq_do :: "wq_call \<Rightarrow> workqueue \<Rightarrow> (wq_event list \<times> workqueue) outcome" where
  "wq_do (Queue w) q =
     and_then (queue_work 0 w q) (\<lambda>(ok, q). Inr (if ok then [Queued w] else [], q))"
| "wq_do (Cancel w) q =
     and_then (cancel_work w q) (\<lambda>(ok, q). Inr (if ok then [Cancelled w] else [], q))"

fun wq_calls :: "wq_call list \<Rightarrow> workqueue \<Rightarrow> (wq_event list \<times> workqueue) outcome" where
  "wq_calls [] q = Inr ([], q)"
| "wq_calls (c # cs) q =
     and_then (wq_do c q) (\<lambda>(e, q). and_then (wq_calls cs q) (\<lambda>(es, q). Inr (e @ es, q)))"

definition drain_one ::
    "(u64 \<Rightarrow> u64 \<Rightarrow> wq_call list) \<Rightarrow> workqueue \<Rightarrow> (bool \<times> wq_event list \<times> workqueue) outcome" where
  "drain_one body q =
     (case pop_pending q of
        None \<Rightarrow> Inr (False, [], q)
      | Some (w, q) \<Rightarrow>
          and_then (store_state w STATE_RUNNING q) (\<lambda>q.
          and_then (inner q w) (\<lambda>k.
          and_then (case wk_func k of None \<Rightarrow> Inr ([], q) | Some f \<Rightarrow> wq_calls (body f w) q) (\<lambda>(es, q).
          and_then (store_state w STATE_IDLE q) (\<lambda>q.
          Inr (True, Ran w # es, q))))))"


section \<open>Every queued work runs once or is cancelled once\<close>

text \<open>A program of the driver and the runner, each call running to its end.\<close>

datatype wq_top = Call wq_call | Drain

fun wq_run ::
    "(u64 \<Rightarrow> u64 \<Rightarrow> wq_call list) \<Rightarrow> wq_top list \<Rightarrow> workqueue \<Rightarrow> (wq_event list \<times> workqueue) outcome" where
  "wq_run body [] q = Inr ([], q)"
| "wq_run body (Call c # ts) q =
     and_then (wq_do c q) (\<lambda>(e, q). and_then (wq_run body ts q) (\<lambda>(es, q). Inr (e @ es, q)))"
| "wq_run body (Drain # ts) q =
     and_then (drain_one body q) (\<lambda>(ran, e, q).
     and_then (wq_run body ts q) (\<lambda>(es, q). Inr (e @ es, q)))"

abbreviation state_of :: "workqueue \<Rightarrow> u64 \<Rightarrow> u8 option" where
  "state_of q w \<equiv> map_option wk_state (wq_mem q w)"

definition wq_inv :: "workqueue \<Rightarrow> bool" where
  "wq_inv q = (distinct (wq_pending q) \<and>
     (\<forall>w. w \<in> set (wq_pending q) \<longleftrightarrow> state_of q w = Some STATE_PENDING))"

definition waiting :: "u64 \<Rightarrow> workqueue \<Rightarrow> nat" where
  "waiting w q = (if w \<in> set (wq_pending q) then 1 else 0)"

text \<open>The works still waiting are those that were waiting or got queued, less those that ran or were cancelled.\<close>

definition balanced :: "workqueue \<Rightarrow> wq_event list \<Rightarrow> workqueue \<Rightarrow> bool" where
  "balanced q es q' = (\<forall>w. waiting w q + count_list es (Queued w) =
     count_list es (Cancelled w) + count_list es (Ran w) + waiting w q')"

fun call_ptr :: "wq_call \<Rightarrow> u64" where
  "call_ptr (Queue w) = w"
| "call_ptr (Cancel w) = w"

definition ptr_ok :: "u64 set \<Rightarrow> wq_call \<Rightarrow> bool" where
  "ptr_ok D c = (call_ptr c = 0 \<or> call_ptr c \<in> D)"

fun top_ok :: "u64 set \<Rightarrow> wq_top \<Rightarrow> bool" where
  "top_ok D (Call c) = ptr_ok D c"
| "top_ok D Drain = True"

lemma balanced_refl [simp]: "balanced q [] q"
  by (simp add: balanced_def)

lemma balanced_trans:
  assumes "balanced q es r" "balanced r fs t"
  shows "balanced q (es @ fs) t"
  unfolding balanced_def
proof
  fix w
  have "waiting w q + count_list es (Queued w) =
      count_list es (Cancelled w) + count_list es (Ran w) + waiting w r"
    "waiting w r + count_list fs (Queued w) =
      count_list fs (Cancelled w) + count_list fs (Ran w) + waiting w t"
    using assms by (auto simp: balanced_def)
  then show "waiting w q + count_list (es @ fs) (Queued w) =
      count_list (es @ fs) (Cancelled w) + count_list (es @ fs) (Ran w) + waiting w t"
    by simp
qed

lemma store_state_ok:
  assumes "w \<in> dom (wq_mem q)"
  obtains q' where "store_state w v q = Inr q'" "wq_pending q' = wq_pending q"
    "dom (wq_mem q') = dom (wq_mem q)" "\<And>x. state_of q' x = (if x = w then Some v else state_of q x)"
    "\<And>x. map_option wk_func (wq_mem q' x) = map_option wk_func (wq_mem q x)"
proof -
  obtain k where "wq_mem q w = Some k" using assms by blast
  then show ?thesis
    by (intro that [of "q\<lparr>wq_mem := (wq_mem q)(w \<mapsto> k\<lparr>wk_state := v\<rparr>)\<rparr>"])
      (simp_all add: store_state_def inner_def insert_absorb assms)
qed

lemma compare_exchange_ok:
  assumes "w \<in> dom (wq_mem q)"
  obtains (success) q' where "compare_exchange w a b q = Inr (True, q')" "state_of q w = Some a"
      "store_state w b q = Inr q'"
  | (failure) "compare_exchange w a b q = Inr (False, q)" "state_of q w \<noteq> Some a"
proof -
  obtain k where k: "wq_mem q w = Some k" using assms by blast
  obtain q' where q': "store_state w b q = Inr q'" by (rule store_state_ok [OF assms, of b])
  show ?thesis
  proof (cases "wk_state k = a")
    case True
    show ?thesis
      by (rule success [of q']) (use k q' True in \<open>simp_all add: compare_exchange_def inner_def\<close>)
  next
    case False
    show ?thesis
      by (rule failure) (use k False in \<open>simp_all add: compare_exchange_def inner_def\<close>)
  qed
qed

lemma wq_do_ok:
  assumes i: "wq_inv q" and p: "ptr_ok (dom (wq_mem q)) c"
  obtains es q' where "wq_do c q = Inr (es, q')" "wq_inv q'" "dom (wq_mem q') = dom (wq_mem q)"
    "balanced q es q'" "\<And>x. state_of q' x = Some STATE_RUNNING \<longleftrightarrow> state_of q x = Some STATE_RUNNING"
proof (cases c)
  case (Queue w)
  show ?thesis
  proof (cases "w = 0")
    case True
    then show ?thesis using that [of "[]" q] i Queue by (simp add: queue_work_def)
  next
    case False
    then have w: "w \<in> dom (wq_mem q)" using p Queue by (simp add: ptr_ok_def)
    show ?thesis
      using w
    proof (cases rule: compare_exchange_ok [where a = STATE_IDLE and b = STATE_PENDING, case_names success failure])
      case (success q1)
      then obtain s: "wq_pending q1 = wq_pending q" "dom (wq_mem q1) = dom (wq_mem q)"
        "\<And>x. state_of q1 x = (if x = w then Some STATE_PENDING else state_of q x)"
        using store_state_ok [OF w, of STATE_PENDING] by (metis sum.inject(2))
      have nw: "w \<notin> set (wq_pending q)" using i success(2) by (auto simp: wq_inv_def)
      have "wq_inv (push_pending w q1)" using i nw s by (auto simp: wq_inv_def push_pending_def)
      moreover have "balanced q [Queued w] (push_pending w q1)"
        using nw s(1) by (auto simp: balanced_def waiting_def push_pending_def)
      ultimately show ?thesis
        using that [of "[Queued w]" "push_pending w q1"] success False Queue s
        by (auto simp: queue_work_def push_pending_def)
    next
      case failure
      then show ?thesis using that [of "[]" q] i False Queue by (simp add: queue_work_def)
    qed
  qed
next
  case (Cancel w)
  show ?thesis
  proof (cases "w = 0")
    case True
    then show ?thesis using that [of "[]" q] i Cancel by (simp add: cancel_work_def)
  next
    case False
    then have w: "w \<in> dom (wq_mem q)" using p Cancel by (simp add: ptr_ok_def)
    show ?thesis
      using w
    proof (cases rule: compare_exchange_ok [where a = STATE_PENDING and b = STATE_IDLE, case_names success failure])
      case (success q1)
      then obtain s: "wq_pending q1 = wq_pending q" "dom (wq_mem q1) = dom (wq_mem q)"
        "\<And>x. state_of q1 x = (if x = w then Some STATE_IDLE else state_of q x)"
        using store_state_ok [OF w, of STATE_IDLE] by (metis sum.inject(2))
      have nw: "w \<in> set (wq_pending q)" using i success(2) by (auto simp: wq_inv_def)
      have "wq_inv (retain_pending w q1)" using i nw s by (auto simp: wq_inv_def retain_pending_def)
      moreover have "balanced q [Cancelled w] (retain_pending w q1)"
        using nw s(1) by (auto simp: balanced_def waiting_def retain_pending_def)
      ultimately show ?thesis
        using that [of "[Cancelled w]" "retain_pending w q1"] success False Cancel s
        by (auto simp: cancel_work_def retain_pending_def)
    next
      case failure
      then show ?thesis using that [of "[]" q] i False Cancel by (simp add: cancel_work_def)
    qed
  qed
qed


lemma wq_calls_ok:
  assumes "wq_inv q" "\<forall>c \<in> set cs. ptr_ok (dom (wq_mem q)) c"
  shows "\<exists>es q'. wq_calls cs q = Inr (es, q') \<and> wq_inv q' \<and> dom (wq_mem q') = dom (wq_mem q) \<and>
    balanced q es q' \<and> (\<forall>x. state_of q' x = Some STATE_RUNNING \<longleftrightarrow> state_of q x = Some STATE_RUNNING)"
  using assms
proof (induction cs arbitrary: q)
  case (Cons c cs)
  obtain e r where r: "wq_do c q = Inr (e, r)" "wq_inv r" "dom (wq_mem r) = dom (wq_mem q)"
    "balanced q e r" "\<And>x. state_of r x = Some STATE_RUNNING \<longleftrightarrow> state_of q x = Some STATE_RUNNING"
    by (rule wq_do_ok [of q c]) (use Cons.prems in auto)
  obtain es t where t: "wq_calls cs r = Inr (es, t)" "wq_inv t" "dom (wq_mem t) = dom (wq_mem r)"
    "balanced r es t" "\<forall>x. state_of t x = Some STATE_RUNNING \<longleftrightarrow> state_of r x = Some STATE_RUNNING"
    using Cons.IH [OF r(2)] Cons.prems(2) r(3) by auto
  show ?case
    using balanced_trans [OF r(4) t(4)] r(1, 3, 5) t(1, 2, 3, 5) by auto
qed simp

lemma drain_one_ok:
  assumes i: "wq_inv q" and b: "\<And>f w. \<forall>c \<in> set (body f w). ptr_ok (dom (wq_mem q)) c"
  obtains ran es q' where "drain_one body q = Inr (ran, es, q')" "wq_inv q'"
    "dom (wq_mem q') = dom (wq_mem q)" "balanced q es q'"
    "case wq_pending q of [] \<Rightarrow> \<not> ran \<and> es = [] | w # ws \<Rightarrow> ran \<and> hd es = Ran w \<and> es \<noteq> []"
proof (cases "wq_pending q")
  case Nil
  then show ?thesis using that [of False "[]" q] i by (simp add: drain_one_def pop_pending_def)
next
  case (Cons w ws)
  let ?q = "q\<lparr>wq_pending := ws\<rparr>"
  have w: "w \<in> dom (wq_mem ?q)" using i Cons by (auto simp: wq_inv_def)
  obtain q1 where q1: "store_state w STATE_RUNNING ?q = Inr q1" "wq_pending q1 = ws"
    "dom (wq_mem q1) = dom (wq_mem q)"
    "\<And>x. state_of q1 x = (if x = w then Some STATE_RUNNING else state_of q x)"
    by (rule store_state_ok [OF w, of STATE_RUNNING]) simp
  have ws: "distinct (w # ws)" "\<And>x. x \<in> set (w # ws) \<longleftrightarrow> state_of q x = Some STATE_PENDING"
    using i Cons by (auto simp: wq_inv_def)
  have i1: "wq_inv q1"
    unfolding wq_inv_def q1(2)
  proof (intro conjI allI)
    fix x show "x \<in> set ws \<longleftrightarrow> state_of q1 x = Some STATE_PENDING"
      using ws(1) ws(2) [of x] q1(4) [of x] by auto
  qed (use ws(1) in simp)
  obtain k where k: "wq_mem q1 w = Some k" using w q1(3) by auto
  obtain es q2 where q2:
    "(case wk_func k of None \<Rightarrow> Inr ([], q1) | Some f \<Rightarrow> wq_calls (body f w) q1) = Inr (es, q2)"
    "wq_inv q2" "dom (wq_mem q2) = dom (wq_mem q)" "balanced q1 es q2"
    "state_of q2 w = Some STATE_RUNNING"
  proof (cases "wk_func k")
    case None
    have "state_of q1 w = Some STATE_RUNNING" using q1(4) [of w] by simp
    then show ?thesis using that [of "[]" q1] None i1 q1(3) by simp
  next
    case (Some f)
    have "\<forall>c \<in> set (body f w). ptr_ok (dom (wq_mem q1)) c" unfolding q1(3) by (rule b)
    from wq_calls_ok [OF i1 this] obtain es t where "wq_calls (body f w) q1 = Inr (es, t)" "wq_inv t"
      "dom (wq_mem t) = dom (wq_mem q1)" "balanced q1 es t"
      "state_of t w = Some STATE_RUNNING \<longleftrightarrow> state_of q1 w = Some STATE_RUNNING" by blast
    then show ?thesis using that [of es t] Some q1(3) q1(4) [of w] by simp
  qed
  have w2: "w \<in> dom (wq_mem q2)" using w q2(3) by simp
  obtain q3 where q3: "store_state w STATE_IDLE q2 = Inr q3" "wq_pending q3 = wq_pending q2"
    "dom (wq_mem q3) = dom (wq_mem q)"
    "\<And>x. state_of q3 x = (if x = w then Some STATE_IDLE else state_of q2 x)"
    by (rule store_state_ok [OF w2, of STATE_IDLE]) (simp add: q2(3))
  have nw: "w \<notin> set (wq_pending q2)" using q2(2, 5) by (auto simp: wq_inv_def)
  have "wq_inv q3"
    unfolding wq_inv_def q3(2)
  proof (intro conjI allI)
    show "distinct (wq_pending q2)" using q2(2) by (simp add: wq_inv_def)
    fix x show "x \<in> set (wq_pending q2) \<longleftrightarrow> state_of q3 x = Some STATE_PENDING"
      using nw q3(4) [of x] q2(2) by (auto simp: wq_inv_def)
  qed
  moreover have "balanced q (Ran w # es) q3"
  proof -
    have "balanced q [Ran w] q1"
      using ws(1) Cons q1(2) by (auto simp: balanced_def waiting_def)
    moreover have "balanced q2 [] q3" using q3(2) by (simp add: balanced_def waiting_def)
    ultimately show ?thesis using balanced_trans [OF _ balanced_trans [OF q2(4)]] by fastforce
  qed
  moreover have "drain_one body q = Inr (True, Ran w # es, q3)"
    using Cons q1(1) k q2(1) q3(1) by (simp add: drain_one_def pop_pending_def inner_def)
  ultimately show ?thesis using that [of True "Ran w # es" q3] q3(3) Cons by simp
qed

text \<open>
  No work is lost and none runs twice. From any state in which the queue holds exactly the
  pending works, once each, any sequence of queue\_work and cancel\_work calls and of rounds
  of the runner, with work functions that themselves queue and cancel works, is free of undefined
  behaviour and keeps that invariant, and for every work the number of successful queue\_work
  calls is the number of its runs plus the number of successful cancellations plus one if it is
  still waiting.
\<close>
theorem work_runs_once:
  assumes "wq_inv q" "\<forall>t \<in> set ts. top_ok (dom (wq_mem q)) t"
    and "\<forall>f w. \<forall>c \<in> set (body f w). ptr_ok (dom (wq_mem q)) c"
  shows "\<exists>es q'. wq_run body ts q = Inr (es, q') \<and> wq_inv q' \<and> balanced q es q'"
  using assms
proof (induction ts arbitrary: q)
  case (Cons t ts)
  obtain e r where r: "wq_inv r" "dom (wq_mem r) = dom (wq_mem q)" "balanced q e r"
    and e: "wq_run body (t # ts) q = and_then (wq_run body ts r) (\<lambda>(es, q). Inr (e @ es, q))"
  proof (cases t)
    case (Call c)
    have "ptr_ok (dom (wq_mem q)) c" using Cons.prems(2) Call by simp
    with Cons.prems(1) show ?thesis by (rule wq_do_ok) (rule that, auto simp: Call)
  next
    case Drain
    have b: "\<And>f w. \<forall>c \<in> set (body f w). ptr_ok (dom (wq_mem q)) c" using Cons.prems(3) by blast
    show ?thesis by (rule drain_one_ok [where body = body, OF Cons.prems(1) b]) (rule that, auto simp: Drain)
  qed
  have "\<exists>es q'. wq_run body ts r = Inr (es, q') \<and> wq_inv q' \<and> balanced r es q'"
    using Cons.prems(2, 3) by (intro Cons.IH [OF r(1)]) (auto simp: r(2))
  then show ?case using balanced_trans [OF r(3)] unfolding e by fastforce
qed simp


text \<open>Two works; the function of the first queues the second and tries to queue itself.\<close>

definition wq_demo :: workqueue where
  "wq_demo = wq_start [64 \<mapsto> \<lparr>wk_state = STATE_IDLE, wk_func = Some 1\<rparr>,
                       128 \<mapsto> \<lparr>wk_state = STATE_IDLE, wk_func = None\<rparr>]"

definition wq_demo_body :: "u64 \<Rightarrow> u64 \<Rightarrow> wq_call list" where
  "wq_demo_body f w = [Queue 128, Queue 64]"

definition wq_demo_run :: "wq_top list" where
  "wq_demo_run = [Call (Queue 64), Call (Queue 64), Drain, Drain, Drain]"

lemma wq_demo_inv: "wq_inv wq_demo"
  by (simp add: wq_inv_def wq_demo_def wq_start_def)

theorem work_runs_once_witness:
  "\<exists>es q'. wq_run wq_demo_body wq_demo_run wq_demo = Inr (es, q') \<and> wq_inv q' \<and> balanced wq_demo es q'"
  by (rule work_runs_once [OF wq_demo_inv])
    (simp_all add: wq_demo_run_def wq_demo_body_def wq_demo_def wq_start_def ptr_ok_def)

text \<open>
  A work function that queues its own work gets \<open>false\<close> and the request is dropped, because the
  work is RUNNING: in the demo, work 64 runs once although its function asks for another run.
\<close>

lemma self_requeue_lost:
  "\<exists>q'. wq_run wq_demo_body wq_demo_run wq_demo = Inr ([Queued 64, Ran 64, Queued 128, Ran 128], q')"
  by (simp add: wq_demo_run_def wq_demo_body_def wq_demo_def wq_start_def queue_work_def
      compare_exchange_def inner_def store_state_def push_pending_def drain_one_def pop_pending_def)

text \<open>
  cancel\_work\_sync on a work that is running waits for the runner, and then answers
  \<open>false\<close>: the work was not pending and is idle when the state is read again.
\<close>

lemma cancel_work_sync_of_running:
  assumes "w \<noteq> 0" "wq_mem q w = Some k" "wk_state k = STATE_RUNNING"
    and "wq_mem (env 0 q) w = Some k'" "wk_state k' = STATE_IDLE"
  shows "cancel_work_sync env w q = Some (Inr (False, env 0 q))"
  using assms
  by (simp add: cancel_work_sync_def cancel_work_def compare_exchange_def inner_def
      cancel_spin.simps [of env w 0 q] cancel_spin.simps [of env w "Suc 0"])

section \<open>Interleavings\<close>

text \<open>
  Every caller and the runner can be preempted between two atomic accesses. A state adds to the
  queue the works that a caller of queue\_work has marked and not yet pushed, the works that a
  caller of cancel\_work has marked and not yet removed, and the point the runner is at. A step is
  one atomic access; it is \<^term>\<open>None\<close> when no thread is at a point where it can take it.
\<close>

datatype runner = Resting | Popped u64 | Running u64

record wq_sys =
  ws_queue :: workqueue
  ws_pushing :: "u64 multiset"
  ws_cancelling :: "u64 multiset"
  ws_runner :: runner

datatype wq_act = Q_cas u64 | Q_push u64 | C_cas u64 | C_retain u64 | R_pop u64 | R_start u64 | R_end u64

definition ok_queue :: "wq_sys \<Rightarrow> workqueue outcome \<Rightarrow> wq_sys option" where
  "ok_queue s r = (case r of Inl _ \<Rightarrow> None | Inr q \<Rightarrow> Some (s\<lparr>ws_queue := q\<rparr>))"

fun wq_micro :: "wq_act \<Rightarrow> wq_sys \<Rightarrow> wq_sys option" where
  "wq_micro (Q_cas w) s =
     (case compare_exchange w STATE_IDLE STATE_PENDING (ws_queue s) of
        Inr (True, q) \<Rightarrow>
          if w = 0 then None
          else Some (s\<lparr>ws_queue := q, ws_pushing := add_mset w (ws_pushing s)\<rparr>)
      | _ \<Rightarrow> None)"
| "wq_micro (Q_push w) s =
     (if w \<in># ws_pushing s
      then Some (s\<lparr>ws_queue := push_pending w (ws_queue s), ws_pushing := ws_pushing s - {#w#}\<rparr>)
      else None)"
| "wq_micro (C_cas w) s =
     (case compare_exchange w STATE_PENDING STATE_IDLE (ws_queue s) of
        Inr (True, q) \<Rightarrow>
          if w = 0 then None
          else Some (s\<lparr>ws_queue := q, ws_cancelling := add_mset w (ws_cancelling s)\<rparr>)
      | _ \<Rightarrow> None)"
| "wq_micro (C_retain w) s =
     (if w \<in># ws_cancelling s
      then Some (s\<lparr>ws_queue := retain_pending w (ws_queue s),
                   ws_cancelling := ws_cancelling s - {#w#}\<rparr>)
      else None)"
| "wq_micro (R_pop w) s =
     (case pop_pending (ws_queue s) of
        Some (v, q) \<Rightarrow>
          if v = w \<and> ws_runner s = Resting then Some (s\<lparr>ws_queue := q, ws_runner := Popped w\<rparr>) else None
      | None \<Rightarrow> None)"
| "wq_micro (R_start w) s =
     (if ws_runner s = Popped w
      then ok_queue (s\<lparr>ws_runner := Running w\<rparr>) (store_state w STATE_RUNNING (ws_queue s)) else None)"
| "wq_micro (R_end w) s =
     (if ws_runner s = Running w
      then ok_queue (s\<lparr>ws_runner := Resting\<rparr>) (store_state w STATE_IDLE (ws_queue s)) else None)"

fun wq_trace :: "wq_act list \<Rightarrow> wq_sys \<Rightarrow> wq_sys option" where
  "wq_trace [] s = Some s"
| "wq_trace (a # acts) s = (case wq_micro a s of None \<Rightarrow> None | Some t \<Rightarrow> wq_trace acts t)"

text \<open>How many times a work is on its way to the runner.\<close>

definition on_the_way :: "u64 \<Rightarrow> wq_sys \<Rightarrow> nat" where
  "on_the_way w s = count (ws_pushing s) w + count_list (wq_pending (ws_queue s)) w +
     (if ws_runner s = Popped w then 1 else 0)"

definition sys_inv :: "wq_sys \<Rightarrow> bool" where
  "sys_inv s = (\<forall>w.
     on_the_way w s = (if state_of (ws_queue s) w = Some STATE_PENDING then 1 else 0) \<and>
     (state_of (ws_queue s) w = Some STATE_RUNNING \<longleftrightarrow> ws_runner s = Running w))"


fun cancels :: "wq_act \<Rightarrow> bool" where
  "cancels (C_cas w) = True"
| "cancels (C_retain w) = True"
| "cancels _ = False"

lemma store_state_InrD:
  assumes "store_state w v q = Inr q'"
  shows "wq_pending q' = wq_pending q" "state_of q' = (state_of q)(w \<mapsto> v)" "w \<in> dom (wq_mem q)"
  using assms by (auto simp: store_state_def inner_def fun_eq_iff split: option.splits)

lemma compare_exchange_InrD:
  assumes "compare_exchange w a b q = Inr (True, q')"
  shows "wq_pending q' = wq_pending q" "state_of q' = (state_of q)(w \<mapsto> b)" "state_of q w = Some a"
proof -
  have "store_state w b q = Inr q' \<and> state_of q w = Some a"
    using assms by (auto simp: compare_exchange_def inner_def and_then_eq_Inr split: option.splits if_splits)
  then show "wq_pending q' = wq_pending q" "state_of q' = (state_of q)(w \<mapsto> b)" "state_of q w = Some a"
    using store_state_InrD by blast+
qed

definition marks :: "wq_act \<Rightarrow> u64 \<Rightarrow> nat" where
  "marks a w = (if a = Q_cas w then 1 else 0)"

definition starts :: "wq_act \<Rightarrow> u64 \<Rightarrow> nat" where
  "starts a w = (if a = R_start w then 1 else 0)"

lemma wq_micro_inv:
  assumes i: "sys_inv s" and a: "\<not> cancels a" and s: "wq_micro a s = Some t"
  shows "sys_inv t \<and> (\<forall>w. on_the_way w t + starts a w = on_the_way w s + marks a w)"
proof -
  have iw: "on_the_way w s = (if state_of (ws_queue s) w = Some STATE_PENDING then 1 else 0)"
    "state_of (ws_queue s) w = Some STATE_RUNNING \<longleftrightarrow> ws_runner s = Running w" for w
    using i by (auto simp: sys_inv_def)
  show ?thesis
  proof (cases a)
    case (Q_cas v)
    obtain q where q: "compare_exchange v STATE_IDLE STATE_PENDING (ws_queue s) = Inr (True, q)"
      and t: "t = s\<lparr>ws_queue := q, ws_pushing := add_mset v (ws_pushing s)\<rparr>"
      using s Q_cas by (auto split: sum.splits bool.splits if_splits)
    note d = compare_exchange_InrD [OF q]
    have o: "on_the_way w t = on_the_way w s + marks a w" for w
      using d(1) by (simp add: on_the_way_def t marks_def Q_cas)
    have "sys_inv t"
      unfolding sys_inv_def
    proof
      fix w
      show "on_the_way w t = (if state_of (ws_queue t) w = Some STATE_PENDING then 1 else 0) \<and>
        (state_of (ws_queue t) w = Some STATE_RUNNING \<longleftrightarrow> ws_runner t = Running w)"
        using iw [of w] o [of w] d(2, 3) by (auto simp: t marks_def Q_cas fun_eq_iff)
    qed
    then show ?thesis using o by (simp add: starts_def Q_cas)
  next
    case (Q_push v)
    then have v: "v \<in># ws_pushing s"
      and t: "t = s\<lparr>ws_queue := push_pending v (ws_queue s), ws_pushing := ws_pushing s - {#v#}\<rparr>"
      using s by (auto split: if_splits)
    have "on_the_way w t = on_the_way w s" for w
      using v by (auto simp: on_the_way_def t push_pending_def)
    then show ?thesis using iw by (auto simp: sys_inv_def t push_pending_def starts_def marks_def Q_push)
  next
    case (R_pop v)
    then obtain q where q: "pop_pending (ws_queue s) = Some (v, q)" and r: "ws_runner s = Resting"
      and t: "t = s\<lparr>ws_queue := q, ws_runner := Popped v\<rparr>"
      using s by (auto split: option.splits if_splits)
    have p: "wq_pending (ws_queue s) = v # wq_pending q" "wq_mem q = wq_mem (ws_queue s)"
      using q by (auto simp: pop_pending_def split: list.splits)
    have "on_the_way w t = on_the_way w s" for w
      using p r by (auto simp: on_the_way_def t)
    then show ?thesis using iw p r by (auto simp: sys_inv_def t starts_def marks_def R_pop)
  next
    case (R_start v)
    then obtain q where r: "ws_runner s = Popped v" and q: "store_state v STATE_RUNNING (ws_queue s) = Inr q"
      and t: "t = s\<lparr>ws_queue := q, ws_runner := Running v\<rparr>"
      using s by (auto simp: ok_queue_def split: if_splits sum.splits)
    note d = store_state_InrD [OF q]
    have o: "on_the_way w t + starts a w = on_the_way w s" for w
      using d(1) r by (auto simp: on_the_way_def t starts_def R_start)
    have "sys_inv t"
      unfolding sys_inv_def
    proof
      fix w
      show "on_the_way w t = (if state_of (ws_queue t) w = Some STATE_PENDING then 1 else 0) \<and>
        (state_of (ws_queue t) w = Some STATE_RUNNING \<longleftrightarrow> ws_runner t = Running w)"
        using iw [of w] o [of w] d(2) r
        by (auto simp: t starts_def R_start on_the_way_def fun_eq_iff split: if_splits)
    qed
    then show ?thesis using o by (simp add: marks_def R_start)
  next
    case (R_end v)
    then obtain q where r: "ws_runner s = Running v" and q: "store_state v STATE_IDLE (ws_queue s) = Inr q"
      and t: "t = s\<lparr>ws_queue := q, ws_runner := Resting\<rparr>"
      using s by (auto simp: ok_queue_def split: if_splits sum.splits)
    note d = store_state_InrD [OF q]
    have o: "on_the_way w t = on_the_way w s" for w
      using d(1) r by (auto simp: on_the_way_def t)
    have "sys_inv t"
      unfolding sys_inv_def
    proof
      fix w
      show "on_the_way w t = (if state_of (ws_queue t) w = Some STATE_PENDING then 1 else 0) \<and>
        (state_of (ws_queue t) w = Some STATE_RUNNING \<longleftrightarrow> ws_runner t = Running w)"
        using iw [of w] o [of w] d(2) r by (auto simp: t fun_eq_iff)
    qed
    then show ?thesis using o by (simp add: marks_def starts_def R_end)
  qed (use a in auto)
qed

text \<open>
  C16. Exactly-once delivery under preemption. However the atomic accesses of any number of
  queue\_work callers and of the runner interleave, a work is in the hands of at most one of them
  (marked and about to be pushed, once in the queue, or popped) and exactly when its state is
  PENDING, it is RUNNING exactly while the runner is inside its function, and every successful
  queue\_work leads to one start of the function or is still on its way.
\<close>
theorem queue_work_exactly_once:
  assumes "sys_inv s" "wq_trace acts s = Some t" "\<forall>a \<in> set acts. \<not> cancels a"
  shows "sys_inv t \<and>
    (\<forall>w. on_the_way w s + count_list acts (Q_cas w) = count_list acts (R_start w) + on_the_way w t)"
  using assms
proof (induction acts arbitrary: s)
  case (Cons a acts)
  then obtain r where r: "wq_micro a s = Some r" "wq_trace acts r = Some t"
    by (auto split: option.splits)
  have m: "sys_inv r \<and> (\<forall>w. on_the_way w r + starts a w = on_the_way w s + marks a w)"
    using wq_micro_inv [OF Cons.prems(1) _ r(1)] Cons.prems(3) by simp
  have i: "sys_inv t \<and>
    (\<forall>w. on_the_way w r + count_list acts (Q_cas w) = count_list acts (R_start w) + on_the_way w t)"
    using Cons.IH [OF _ r(2)] m Cons.prems(3) by simp
  have "on_the_way w s + count_list (a # acts) (Q_cas w) =
      count_list (a # acts) (R_start w) + on_the_way w t" for w
  proof -
    have "on_the_way w r + starts a w = on_the_way w s + marks a w"
      "on_the_way w r + count_list acts (Q_cas w) = count_list acts (R_start w) + on_the_way w t"
      using m i by auto
    then show ?thesis by (auto simp: starts_def marks_def split: if_splits)
  qed
  then show ?case using i by blast
qed simp

definition sys_demo :: wq_sys where
  "sys_demo = \<lparr>ws_queue = wq_demo, ws_pushing = {#}, ws_cancelling = {#}, ws_runner = Resting\<rparr>"

lemma sys_demo_inv: "sys_inv sys_demo"
  by (simp add: sys_inv_def on_the_way_def sys_demo_def wq_demo_def wq_start_def)

lemmas micro_eval = compare_exchange_def inner_def store_state_def push_pending_def retain_pending_def
  pop_pending_def ok_queue_def sys_demo_def wq_demo_def wq_start_def

definition interleaved :: "wq_act list" where
  "interleaved = [Q_cas 64, Q_cas 128, Q_push 128, R_pop 128, Q_push 64, R_start 128, R_end 128, R_pop 64]"

theorem queue_work_exactly_once_witness:
  "sys_inv (the (wq_trace interleaved sys_demo)) \<and>
    (\<forall>w. on_the_way w sys_demo + count_list interleaved (Q_cas w) =
         count_list interleaved (R_start w) + on_the_way w (the (wq_trace interleaved sys_demo)))"
proof (rule queue_work_exactly_once [OF sys_demo_inv])
  show "wq_trace interleaved sys_demo = Some (the (wq_trace interleaved sys_demo))"
    by (simp add: interleaved_def micro_eval)
qed (simp add: interleaved_def)

text \<open>
  Cancellation is not atomic with the queue. There is an interleaving in which cancel\_work
  reports success and the runner, which had already popped the work, still starts its function
  afterwards; and one in which a cancellation between the two steps of queue\_work leaves the
  work queued twice after the next queue\_work.
\<close>
theorem cancel_work_races:
  "(\<exists>t. wq_trace [Q_cas 64, Q_push 64, R_pop 64, C_cas 64, C_retain 64, R_start 64] sys_demo = Some t \<and>
        ws_runner t = Running 64) \<and>
   (\<exists>t. wq_trace [Q_cas 64, C_cas 64, C_retain 64, Q_push 64, Q_cas 64, Q_push 64] sys_demo = Some t \<and>
        wq_pending (ws_queue t) = [64, 64])"
  by (simp add: micro_eval)

end
