(* ===== verification/Idt.thy ===== *)
theory Idt
  imports Prelude
begin

text \<open>
  The interrupt descriptor table, arsenal-kernel/src/idt.rs: the entries every core shares, their
  one-time initialisation, and the allocation of vectors to PCIe drivers. An entry is a handler
  and, for three exceptions, the index of its own stack. A driver's handler is a number.
\<close>

section \<open>Model\<close>

datatype handler =
    Divide_by_zero | Invalid_opcode | Breakpoint | General_protection | Page_fault
  | Double_fault | Non_maskable | Machine_check
  | Spurious | Timer | Keyboard
  | Driver nat

record idt_entry =
  ie_handler :: handler
  ie_ist :: "nat option"

record idt =
  idt_entries :: "u8 \<rightharpoonup> idt_entry"
  IDT_POPULATED :: u8
  NEXT_DYN_VECTOR :: u8

definition DYN_VECTOR_FIRST :: u8 where "DYN_VECTOR_FIRST = 0x40"
definition DYN_VECTOR_LAST :: u8 where "DYN_VECTOR_LAST = 0xEE"
definition SPURIOUS_VECTOR :: u8 where "SPURIOUS_VECTOR = 0xFF"
definition TIMER_VECTOR :: u8 where "TIMER_VECTOR = 0xEF"
definition KBD_VECTOR :: u8 where "KBD_VECTOR = 0x21"
definition DOUBLE_FAULT_IST :: nat where "DOUBLE_FAULT_IST = 0"
definition NMI_IST :: nat where "NMI_IST = 1"
definition MACHINE_CHECK_IST :: nat where "MACHINE_CHECK_IST = 2"

definition idt_boot :: idt where
  "idt_boot = \<lparr>idt_entries = Map.empty, IDT_POPULATED = 0, NEXT_DYN_VECTOR = DYN_VECTOR_FIRST\<rparr>"

definition set_handler_fn :: "u8 \<Rightarrow> handler \<Rightarrow> idt \<Rightarrow> idt" where
  "set_handler_fn v h t = t\<lparr>idt_entries := (idt_entries t)(v \<mapsto> \<lparr>ie_handler = h, ie_ist = None\<rparr>)\<rparr>"

definition set_handler_ist :: "u8 \<Rightarrow> handler \<Rightarrow> nat \<Rightarrow> idt \<Rightarrow> idt" where
  "set_handler_ist v h i t =
     t\<lparr>idt_entries := (idt_entries t)(v \<mapsto> \<lparr>ie_handler = h, ie_ist = Some i\<rparr>)\<rparr>"

text \<open>The exception vectors are those of the architecture, which the x86\_64 crate names.\<close>

definition populate_static_entries :: "idt \<Rightarrow> idt" where
  "populate_static_entries t =
     (let t = set_handler_fn 0 Divide_by_zero t;
          t = set_handler_fn 6 Invalid_opcode t;
          t = set_handler_fn 3 Breakpoint t;
          t = set_handler_fn 13 General_protection t;
          t = set_handler_fn 14 Page_fault t;
          t = set_handler_ist 8 Double_fault DOUBLE_FAULT_IST t;
          t = set_handler_ist 2 Non_maskable NMI_IST t;
          t = set_handler_ist 18 Machine_check MACHINE_CHECK_IST t;
          t = set_handler_fn SPURIOUS_VECTOR Spurious t;
          t = set_handler_fn TIMER_VECTOR Timer t
      in set_handler_fn KBD_VECTOR Keyboard t)"

definition idt_init :: "idt \<Rightarrow> idt" where
  "idt_init t = (if IDT_POPULATED t = 0 then populate_static_entries (t\<lparr>IDT_POPULATED := 1\<rparr>) else t)"

definition register_vector :: "handler \<Rightarrow> idt \<Rightarrow> (u8 \<times> idt) outcome" where
  "register_vector h t =
     (let vector = NEXT_DYN_VECTOR t;
          t = t\<lparr>NEXT_DYN_VECTOR := vector + 1\<rparr>
      in and_then (rust_assert (vector \<le> DYN_VECTOR_LAST)) (\<lambda>_. Inr (vector, set_handler_fn vector h t)))"

section \<open>Vectors are handed out once\<close>

text \<open>The registrations of a list of drivers in turn, with the vectors they get.\<close>

fun register_all :: "handler list \<Rightarrow> idt \<Rightarrow> (u8 list \<times> idt) outcome" where
  "register_all [] t = Inr ([], t)"
| "register_all (h # hs) t =
     and_then (register_vector h t) (\<lambda>(v, t). and_then (register_all hs t) (\<lambda>(vs, t). Inr (v # vs, t)))"

lemmas idt_consts = DYN_VECTOR_FIRST_def DYN_VECTOR_LAST_def SPURIOUS_VECTOR_def TIMER_VECTOR_def
  KBD_VECTOR_def

lemma register_all_from:
  assumes "unat (NEXT_DYN_VECTOR t) = n" "n + length hs \<le> 0xEF"
  shows "\<exists>t'. register_all hs t = Inr (map of_nat [n..<n + length hs], t') \<and>
    unat (NEXT_DYN_VECTOR t') = n + length hs \<and>
    (\<forall>i < length hs. idt_entries t' (of_nat (n + i)) = Some \<lparr>ie_handler = hs ! i, ie_ist = None\<rparr>) \<and>
    (\<forall>v. unat v < n \<or> n + length hs \<le> unat v \<longrightarrow> idt_entries t' v = idt_entries t v)"
  using assms
proof (induction hs arbitrary: t n)
  case (Cons h hs)
  define t1 where "t1 = set_handler_fn (of_nat n) h (t\<lparr>NEXT_DYN_VECTOR := of_nat n + 1\<rparr>)"
  have n: "NEXT_DYN_VECTOR t = of_nat n" using Cons.prems(1) by (metis of_nat_unat_word)
  have un: "unat (of_nat n :: u8) = n" using Cons.prems(2) by (intro unat_of_nat_small) simp
  have "(of_nat n :: u8) \<le> DYN_VECTOR_LAST"
    using Cons.prems(2) un by (simp add: word_le_nat_alt idt_consts)
  then have r: "register_vector h t = Inr (of_nat n, t1)"
    by (simp add: register_vector_def n t1_def Let_def)
  have "unat (of_nat n + 1 :: u8) = Suc n"
    using Cons.prems(2) un by (subst unat_add_noof) simp_all
  then have "unat (NEXT_DYN_VECTOR t1) = Suc n" by (simp add: t1_def set_handler_fn_def)
  from Cons.IH [OF this] Cons.prems(2) obtain t' where
    t': "register_all hs t1 = Inr (map of_nat [Suc n..<Suc n + length hs], t')"
      "unat (NEXT_DYN_VECTOR t') = Suc n + length hs"
      "\<forall>i < length hs. idt_entries t' (of_nat (Suc n + i)) = Some \<lparr>ie_handler = hs ! i, ie_ist = None\<rparr>"
      "\<forall>v. unat v < Suc n \<or> Suc n + length hs \<le> unat v \<longrightarrow> idt_entries t' v = idt_entries t1 v"
    by auto
  have e1: "idt_entries t1 v = (if v = of_nat n then Some \<lparr>ie_handler = h, ie_ist = None\<rparr> else idt_entries t v)" for v
    by (simp add: t1_def set_handler_fn_def)
  have "idt_entries t' (of_nat (n + i)) = Some \<lparr>ie_handler = (h # hs) ! i, ie_ist = None\<rparr>"
    if "i < length (h # hs)" for i
  proof (cases i)
    case 0
    then show ?thesis using t'(4) un e1 by simp
  next
    case (Suc j)
    then show ?thesis using t'(3) that by (metis Suc_less_eq add_Suc_shift length_Cons nth_Cons_Suc)
  qed
  moreover have "idt_entries t' v = idt_entries t v" if "unat v < n \<or> n + length (h # hs) \<le> unat v" for v
  proof -
    have "v \<noteq> of_nat n" using that un by auto
    then show ?thesis using t'(4) that e1 by auto
  qed
  moreover have "[n..<n + length (h # hs)] = n # [Suc n..<Suc n + length hs]" by (simp add: upt_rec)
  ultimately show ?case using r t'(1, 2) by (intro exI [of _ t']) auto
qed simp

text \<open>
  Dynamic vectors are exclusive. After any core initialised the table, up to 175 drivers can
  register; they get the consecutive vectors from 0x40, all different, each dispatches to
  its own handler, and none of the entries the kernel wired itself (exceptions with their
  stacks, timer, spurious, keyboard) is disturbed, whatever core initialises again. The 176th
  registration panics.
\<close>
theorem vectors_exclusive:
  assumes "length hs \<le> 175"
  shows "\<exists>t. register_all hs (idt_init idt_boot) = Inr (map of_nat [0x40..<0x40 + length hs], t) \<and>
    distinct (map (of_nat :: nat \<Rightarrow> u8) [0x40..<0x40 + length hs]) \<and>
    (\<forall>i < length hs. idt_entries t (of_nat (0x40 + i)) = Some \<lparr>ie_handler = hs ! i, ie_ist = None\<rparr>) \<and>
    (\<forall>v. unat v < 0x40 \<or> 0xEF \<le> unat v \<longrightarrow>
       idt_entries t v = idt_entries (populate_static_entries idt_boot) v) \<and>
    idt_init t = t \<and>
    (length hs = 175 \<longrightarrow> register_vector h t = Inl Panic)"
proof -
  let ?t0 = "idt_init idt_boot"
  have n: "unat (NEXT_DYN_VECTOR ?t0) = 0x40"
    by (simp add: idt_init_def idt_boot_def populate_static_entries_def set_handler_fn_def
        set_handler_ist_def idt_consts)
  obtain t where t: "register_all hs ?t0 = Inr (map of_nat [0x40..<0x40 + length hs], t)"
    "unat (NEXT_DYN_VECTOR t) = 0x40 + length hs"
    "\<forall>i < length hs. idt_entries t (of_nat (0x40 + i)) = Some \<lparr>ie_handler = hs ! i, ie_ist = None\<rparr>"
    "\<forall>v. unat v < 0x40 \<or> 0x40 + length hs \<le> unat v \<longrightarrow> idt_entries t v = idt_entries ?t0 v"
    using register_all_from [OF n, of hs] assms by auto
  have "idt_entries ?t0 = idt_entries (populate_static_entries idt_boot)"
    by (simp add: idt_init_def idt_boot_def populate_static_entries_def set_handler_fn_def set_handler_ist_def)
  then have keep: "\<forall>v. unat v < 0x40 \<or> 0xEF \<le> unat v \<longrightarrow>
      idt_entries t v = idt_entries (populate_static_entries idt_boot) v"
    using t(4) assms by auto
  have inj: "inj_on (of_nat :: nat \<Rightarrow> u8) {0x40..<0x40 + length hs}"
  proof (rule inj_onI)
    fix i j assume ij: "i \<in> {0x40..<0x40 + length hs}" "j \<in> {0x40..<0x40 + length hs}"
      and e: "(of_nat i :: u8) = of_nat j"
    have "unat (of_nat k :: u8) = k" if "k \<in> {0x40..<0x40 + length hs}" for k
      using that assms by (intro unat_of_nat_small) simp
    then show "i = j" using ij e by metis
  qed
  have pop: "IDT_POPULATED t' = IDT_POPULATED s" if "register_all gs s = Inr (vs, t')" for gs s vs t'
    using that
    by (induction gs arbitrary: s vs) (auto simp: register_vector_def set_handler_fn_def Let_def and_then_eq_Inr)
  have "IDT_POPULATED t = 1"
    using pop [OF t(1)] by (simp add: idt_init_def idt_boot_def populate_static_entries_def
        set_handler_fn_def set_handler_ist_def)
  then have again: "idt_init t = t" by (simp add: idt_init_def)
  have "register_vector h t = Inl Panic" if "length hs = 175"
  proof -
    have "\<not> NEXT_DYN_VECTOR t \<le> DYN_VECTOR_LAST"
      using t(2) that by (simp add: word_le_nat_alt idt_consts)
    then show ?thesis by (simp add: register_vector_def Let_def)
  qed
  then show ?thesis using t(1, 3) keep inj again by (auto simp: distinct_map)
qed

theorem vectors_exclusive_witness:
  "\<exists>t. register_all [Driver 0, Driver 1] (idt_init idt_boot) =
         Inr (map of_nat [0x40..<0x40 + length [Driver 0, Driver 1]], t) \<and>
    distinct (map (of_nat :: nat \<Rightarrow> u8) [0x40..<0x40 + length [Driver 0, Driver 1]]) \<and>
    (\<forall>i < length [Driver 0, Driver 1].
       idt_entries t (of_nat (0x40 + i)) = Some \<lparr>ie_handler = [Driver 0, Driver 1] ! i, ie_ist = None\<rparr>) \<and>
    (\<forall>v. unat v < 0x40 \<or> 0xEF \<le> unat v \<longrightarrow>
       idt_entries t v = idt_entries (populate_static_entries idt_boot) v) \<and>
    idt_init t = t \<and>
    (length [Driver 0, Driver 1] = 175 \<longrightarrow> register_vector (Driver 2) t = Inl Panic)"
  by (rule vectors_exclusive) simp

end
