(* ===== verification/Nvme.thy ===== *)
theory Nvme
  imports Frames Pci Idt
begin

unbundle bit_operations_syntax

text \<open>
  The NVMe driver, arsenal-kernel/src/nvme.rs: discovery, the reset and admin-queue sequence, the
  submission and completion rings, MSI-X routing and the first sector read. The controller and the
  memory it shares with the driver are hardware, so they are a parameter: a record of what a
  register access, a store to a submission slot, a load of a completion slot and the other
  accesses to shared memory return and do to the state of the device. Every access is also
  recorded in a log, which is what the theorems on their order speak about. Log lines are left out.
\<close>

section \<open>Registers and rings\<close>

definition NVME_CLASS :: u8 where "NVME_CLASS = 0x01"
definition NVME_SUBCLASS :: u8 where "NVME_SUBCLASS = 0x08"
definition NVME_PROG_IF :: u8 where "NVME_PROG_IF = 0x02"
definition BAR0_MAP_SIZE :: u64 where "BAR0_MAP_SIZE = 0x4000"
definition REG_CAP :: usize where "REG_CAP = 0x0000"
definition REG_VS :: usize where "REG_VS = 0x0008"
definition REG_CC :: usize where "REG_CC = 0x0014"
definition REG_CSTS :: usize where "REG_CSTS = 0x001C"
definition REG_AQA :: usize where "REG_AQA = 0x0024"
definition REG_ASQ :: usize where "REG_ASQ = 0x0028"
definition REG_ACQ :: usize where "REG_ACQ = 0x0030"
definition DOORBELL_BASE :: usize where "DOORBELL_BASE = 0x1000"
definition ADMIN_QUEUE_SIZE :: u16 where "ADMIN_QUEUE_SIZE = 64"
definition CC_EN :: u32 where "CC_EN = push_bit 0 1"
definition CC_CSS_NVM :: u32 where "CC_CSS_NVM = push_bit 4 0"
definition CC_MPS_4K :: u32 where "CC_MPS_4K = push_bit 7 0"
definition CC_AMS_RR :: u32 where "CC_AMS_RR = push_bit 11 0"
definition CC_IOSQES_64 :: u32 where "CC_IOSQES_64 = push_bit 16 6"
definition CC_IOCQES_16 :: u32 where "CC_IOCQES_16 = push_bit 20 4"
definition CSTS_RDY :: u32 where "CSTS_RDY = push_bit 0 1"
definition CSTS_CFS :: u32 where "CSTS_CFS = push_bit 1 1"
definition OPC_CREATE_IO_SQ :: u8 where "OPC_CREATE_IO_SQ = 0x01"
definition OPC_CREATE_IO_CQ :: u8 where "OPC_CREATE_IO_CQ = 0x05"
definition OPC_IDENTIFY :: u8 where "OPC_IDENTIFY = 0x06"
definition OPC_READ :: u8 where "OPC_READ = 0x02"
definition CNS_NAMESPACE :: u32 where "CNS_NAMESPACE = 0x00"
definition CNS_CONTROLLER :: u32 where "CNS_CONTROLLER = 0x01"
definition IO_QID :: u16 where "IO_QID = 1"
definition IO_MSIX_INDEX :: u16 where "IO_MSIX_INDEX = 0"
definition MSIX_ENTRY_BYTES :: usize where "MSIX_ENTRY_BYTES = 16"
definition MSIX_CTRL_ENABLE_DWORD_BIT :: u32 where "MSIX_CTRL_ENABLE_DWORD_BIT = push_bit 31 1"
definition IO_QUEUE_SIZE :: u16 where "IO_QUEUE_SIZE = 64"
definition CSTS_POLL_LIMIT :: nat where "CSTS_POLL_LIMIT = 100000000"

record sq_entry =
  sq_cdw0 :: u32
  sq_nsid :: u32
  sq_rsvd :: u64
  sq_mptr :: u64
  sq_prp1 :: u64
  sq_prp2 :: u64
  sq_cdw10 :: u32
  sq_cdw11 :: u32
  sq_cdw12 :: u32
  sq_cdw13 :: u32
  sq_cdw14 :: u32
  sq_cdw15 :: u32

record cq_entry =
  cq_dw0 :: u32
  cq_rsvd :: u32
  cq_sq_head :: u16
  cq_sq_id :: u16
  cq_cid :: u16
  cq_status :: u16

record nvme_queue =
  nq_qid :: u16
  nq_size :: u16
  nq_sq_phys :: u64
  nq_cq_phys :: u64
  nq_sq_tail :: u16
  nq_cq_head :: u16
  nq_cq_phase :: u8
  nq_next_cid :: u16

datatype queue_kind = Admin | Io

record controller =
  nc_bdf :: bdf
  nc_bar0_phys :: u64
  nc_bar0_virt :: usize
  nc_cap :: u64
  nc_version :: u32
  nc_doorbell_stride :: u8
  nc_admin :: "nvme_queue option"
  nc_io :: "nvme_queue option"

definition cap_mqes :: "u64 \<Rightarrow> u16" where "cap_mqes c = ucast (c AND 0xFFFF)"
definition cap_dstrd :: "u64 \<Rightarrow> u8" where "cap_dstrd c = ucast (drop_bit 32 c AND 0xF)"
definition cap_css :: "u64 \<Rightarrow> u8" where "cap_css c = ucast (drop_bit 37 c AND 0xFF)"
definition cap_mpsmin :: "u64 \<Rightarrow> u8" where "cap_mpsmin c = ucast (drop_bit 48 c AND 0xF)"
definition cap_mpsmax :: "u64 \<Rightarrow> u8" where "cap_mpsmax c = ucast (drop_bit 52 c AND 0xF)"

section \<open>The machine\<close>

text \<open>
  Addresses of accesses to memory are virtual; register accesses are given by their offset in
  BAR 0. The interrupt counter is read like a register, since the handler runs concurrently.
\<close>

record 'd nvme_dev =
  nv_read32 :: "usize \<Rightarrow> 'd \<Rightarrow> u32 \<times> 'd"
  nv_read64 :: "usize \<Rightarrow> 'd \<Rightarrow> u64 \<times> 'd"
  nv_write32 :: "usize \<Rightarrow> u32 \<Rightarrow> 'd \<Rightarrow> 'd"
  nv_write64 :: "usize \<Rightarrow> u64 \<Rightarrow> 'd \<Rightarrow> 'd"
  nv_zero_frame :: "u64 \<Rightarrow> 'd \<Rightarrow> 'd"
  nv_put_sqe :: "u64 \<Rightarrow> sq_entry \<Rightarrow> 'd \<Rightarrow> 'd"
  nv_get_cqe :: "u64 \<Rightarrow> 'd \<Rightarrow> cq_entry \<times> 'd"
  nv_bytes :: "u64 \<Rightarrow> nat \<Rightarrow> 'd \<Rightarrow> u8 list"
  nv_irq_count :: "'d \<Rightarrow> u64 \<times> 'd"

datatype nvme_io =
    Read32 usize u32 | Read64 usize u64 | Write32 usize u32 | Write64 usize u64
  | Zero_frame u64 | Put_sqe u64 sq_entry | Get_cqe u64 cq_entry | Map_mmio u64 u64 | Irq_count u64

record 'd nvme_m =
  nm_dev :: 'd
  nm_log :: "nvme_io list"
  nm_frames :: frame_allocator
  nm_cfg :: config_space
  nm_idt :: idt

definition log_io :: "nvme_io \<Rightarrow> 'd \<Rightarrow> 'd nvme_m \<Rightarrow> 'd nvme_m" where
  "log_io e d m = m\<lparr>nm_dev := d, nm_log := nm_log m @ [e]\<rparr>"

definition read32 :: "'d nvme_dev \<Rightarrow> usize \<Rightarrow> 'd nvme_m \<Rightarrow> u32 \<times> 'd nvme_m" where
  "read32 D reg m = (let (v, d) = nv_read32 D reg (nm_dev m) in (v, log_io (Read32 reg v) d m))"

definition read64 :: "'d nvme_dev \<Rightarrow> usize \<Rightarrow> 'd nvme_m \<Rightarrow> u64 \<times> 'd nvme_m" where
  "read64 D reg m = (let (v, d) = nv_read64 D reg (nm_dev m) in (v, log_io (Read64 reg v) d m))"

definition write32 :: "'d nvme_dev \<Rightarrow> usize \<Rightarrow> u32 \<Rightarrow> 'd nvme_m \<Rightarrow> 'd nvme_m" where
  "write32 D reg v m = log_io (Write32 reg v) (nv_write32 D reg v (nm_dev m)) m"

definition write64 :: "'d nvme_dev \<Rightarrow> usize \<Rightarrow> u64 \<Rightarrow> 'd nvme_m \<Rightarrow> 'd nvme_m" where
  "write64 D reg v m = log_io (Write64 reg v) (nv_write64 D reg v (nm_dev m)) m"

definition zero_frame :: "'d nvme_dev \<Rightarrow> u64 \<Rightarrow> 'd nvme_m \<Rightarrow> 'd nvme_m" where
  "zero_frame D a m = log_io (Zero_frame a) (nv_zero_frame D a (nm_dev m)) m"

definition phys_to_virt :: "u64 \<Rightarrow> u64 \<Rightarrow> u64" where
  "phys_to_virt hhdm p = p + hhdm"

text \<open>frames::FRAMES.alloc\_frame().expect(..)\<close>

definition take_frame :: "phys_frame_ctor \<Rightarrow> 'd nvme_m \<Rightarrow> (u64 \<times> 'd nvme_m) outcome" where
  "take_frame pf m =
     and_then (alloc_frame pf (nm_frames m)) (\<lambda>(f, fa).
     and_then (expect f) (\<lambda>f. Inr (f, m\<lparr>nm_frames := fa\<rparr>)))"

section \<open>Discovery\<close>

definition check_function :: "config_space \<Rightarrow> u8 \<Rightarrow> u8 \<Rightarrow> u8 \<Rightarrow> (bdf \<times> u64) option" where
  "check_function cfg b d f =
     (let ident = config_read32 cfg b d f 0x00
      in if (ucast (ident AND 0xFFFF) :: u16) = 0xFFFF then None
         else let class_dword = config_read32 cfg b d f 0x08;
                  class_code = ucast (drop_bit 24 class_dword AND 0xFF) :: u8;
                  subclass = ucast (drop_bit 16 class_dword AND 0xFF) :: u8;
                  prog_if = ucast (drop_bit 8 class_dword AND 0xFF) :: u8
              in if class_code \<noteq> NVME_CLASS \<or> subclass \<noteq> NVME_SUBCLASS \<or> prog_if \<noteq> NVME_PROG_IF
                 then None
                 else let bar0_phys = bar_address cfg b d f 0
                      in if bar0_phys = 0 then None
                         else Some (\<lparr>bus = b, dev = d, func = f\<rparr>, bar0_phys))"

definition find_controller :: "config_space \<Rightarrow> (bdf \<times> u64) option" where
  "find_controller cfg =
     first_some (\<lambda>b. first_some (\<lambda>d.
       case check_function cfg b d 0 of
         Some found \<Rightarrow> Some found
       | None \<Rightarrow>
           (let header_dword = config_read32 cfg b d 0 0x0C
            in if drop_bit 16 header_dword AND 0x80 \<noteq> 0
               then first_some (\<lambda>f. check_function cfg b d f) [1, 2, 3, 4, 5, 6, 7]
               else None)) (map of_nat [0..<32])) (map of_nat [0..<256])"

definition nvme_init :: "'d nvme_dev \<Rightarrow> u64 \<Rightarrow> 'd nvme_m \<Rightarrow> (controller \<times> 'd nvme_m) outcome" where
  "nvme_init D hhdm m =
     and_then (expect (find_controller (nm_cfg m))) (\<lambda>(where_is, bar0_phys).
       let m = log_io (Map_mmio bar0_phys BAR0_MAP_SIZE) (nm_dev m) m;
           bar0_virt = bar0_phys + hhdm;
           (c, m) = read64 D REG_CAP m;
           (v, m) = read32 D REG_VS m
       in and_then (rust_assert (cap_mpsmin c \<le> 12)) (\<lambda>_.
          and_then (rust_assert (cap_css c AND 0x01 \<noteq> 0)) (\<lambda>_.
          Inr (\<lparr>nc_bdf = where_is, nc_bar0_phys = bar0_phys, nc_bar0_virt = bar0_virt, nc_cap = c,
                nc_version = v, nc_doorbell_stride = cap_dstrd c, nc_admin = None, nc_io = None\<rparr>, m))))"


section \<open>Reset and admin queue\<close>

fun csts_loop :: "'d nvme_dev \<Rightarrow> u32 \<Rightarrow> u32 \<Rightarrow> nat \<Rightarrow> 'd nvme_m \<Rightarrow> 'd nvme_m outcome" where
  "csts_loop D msk expected 0 m = Inl Panic"
| "csts_loop D msk expected (Suc n) m =
     (let (csts, m) = read32 D REG_CSTS m
      in and_then (rust_assert (csts AND CSTS_CFS = 0)) (\<lambda>_.
           if csts AND msk = expected then Inr m else csts_loop D msk expected n m))"

definition wait_csts :: "'d nvme_dev \<Rightarrow> u32 \<Rightarrow> u32 \<Rightarrow> 'd nvme_m \<Rightarrow> 'd nvme_m outcome" where
  "wait_csts D msk expected m = csts_loop D msk expected CSTS_POLL_LIMIT m"

definition new_queue :: "u16 \<Rightarrow> u16 \<Rightarrow> u64 \<Rightarrow> u64 \<Rightarrow> nvme_queue" where
  "new_queue i n sq cq =
     \<lparr>nq_qid = i, nq_size = n, nq_sq_phys = sq, nq_cq_phys = cq, nq_sq_tail = 0, nq_cq_head = 0,
      nq_cq_phase = 1, nq_next_cid = 0\<rparr>"

definition setup_admin ::
    "'d nvme_dev \<Rightarrow> phys_frame_ctor \<Rightarrow> u64 \<Rightarrow> controller \<Rightarrow> 'd nvme_m \<Rightarrow> (controller \<times> 'd nvme_m) outcome" where
  "setup_admin D pf hhdm ctrl m =
     and_then (rust_assert (nc_admin ctrl = None)) (\<lambda>_.
     let (cc, m) = read32 D REG_CC m in
     and_then (if cc AND CC_EN \<noteq> 0
               then wait_csts D CSTS_RDY 0 (write32 D REG_CC (cc AND NOT CC_EN) m)
               else Inr m) (\<lambda>m.
     and_then (take_frame pf m) (\<lambda>(sq_phys, m).
     and_then (take_frame pf m) (\<lambda>(cq_phys, m).
     let m = zero_frame D (phys_to_virt hhdm sq_phys) m;
         m = zero_frame D (phys_to_virt hhdm cq_phys) m;
         aqa = push_bit 16 (ucast ADMIN_QUEUE_SIZE - 1) OR (ucast ADMIN_QUEUE_SIZE - 1);
         m = write32 D REG_AQA aqa m;
         m = write64 D REG_ASQ sq_phys m;
         m = write64 D REG_ACQ cq_phys m;
         new_cc = CC_IOCQES_16 OR CC_IOSQES_64 OR CC_AMS_RR OR CC_MPS_4K OR CC_CSS_NVM OR CC_EN;
         m = write32 D REG_CC new_cc m
     in and_then (wait_csts D CSTS_RDY CSTS_RDY m) (\<lambda>m.
        Inr (ctrl\<lparr>nc_admin := Some (new_queue 0 ADMIN_QUEUE_SIZE sq_phys cq_phys)\<rparr>, m))))))"

section \<open>Submission and completion\<close>

definition queue_of :: "controller \<Rightarrow> queue_kind \<Rightarrow> nvme_queue outcome" where
  "queue_of ctrl qk = (case qk of Admin \<Rightarrow> expect (nc_admin ctrl) | Io \<Rightarrow> expect (nc_io ctrl))"

definition put_queue :: "queue_kind \<Rightarrow> nvme_queue \<Rightarrow> controller \<Rightarrow> controller" where
  "put_queue qk q ctrl =
     (case qk of Admin \<Rightarrow> ctrl\<lparr>nc_admin := Some q\<rparr> | Io \<Rightarrow> ctrl\<lparr>nc_io := Some q\<rparr>)"

definition doorbell :: "u8 \<Rightarrow> u16 \<Rightarrow> usize \<Rightarrow> usize" where
  "doorbell dstrd i off = DOORBELL_BASE + (2 * ucast i + off) * push_bit (unat (dstrd AND 63)) 4"

definition make_sqe :: "u8 \<Rightarrow> u16 \<Rightarrow> u32 \<Rightarrow> u64 \<Rightarrow> u32 \<Rightarrow> u32 \<Rightarrow> u32 \<Rightarrow> sq_entry" where
  "make_sqe opc cid nsid prp1 cdw10 cdw11 cdw12 =
     \<lparr>sq_cdw0 = ucast opc OR push_bit 16 (ucast cid), sq_nsid = nsid, sq_rsvd = 0, sq_mptr = 0,
      sq_prp1 = prp1, sq_prp2 = 0, sq_cdw10 = cdw10, sq_cdw11 = cdw11, sq_cdw12 = cdw12,
      sq_cdw13 = 0, sq_cdw14 = 0, sq_cdw15 = 0\<rparr>"

definition submit_qe ::
    "'d nvme_dev \<Rightarrow> u64 \<Rightarrow> queue_kind \<Rightarrow> u8 \<Rightarrow> u32 \<Rightarrow> u64 \<Rightarrow> u32 \<Rightarrow> u32 \<Rightarrow> u32 \<Rightarrow>
     controller \<Rightarrow> 'd nvme_m \<Rightarrow> (u16 \<times> controller \<times> 'd nvme_m) outcome" where
  "submit_qe D hhdm qk opc nsid prp1 cdw10 cdw11 cdw12 ctrl m =
     and_then (queue_of ctrl qk) (\<lambda>q.
       let cid = nq_next_cid q;
           sqe = make_sqe opc cid nsid prp1 cdw10 cdw11 cdw12;
           slot = nq_sq_tail q;
           a = phys_to_virt hhdm (nq_sq_phys q) + 64 * ucast slot;
           m = log_io (Put_sqe a sqe) (nv_put_sqe D a sqe (nm_dev m)) m
       in if nq_size q = 0 then Inl Panic
          else let q = q\<lparr>nq_next_cid := cid + 1, nq_sq_tail := (slot + 1) mod nq_size q\<rparr>;
                   m = write32 D (doorbell (nc_doorbell_stride ctrl) (nq_qid q) 0) (ucast (nq_sq_tail q)) m
               in Inr (cid, put_queue qk q ctrl, m))"

fun poll_loop ::
    "'d nvme_dev \<Rightarrow> u64 \<Rightarrow> queue_kind \<Rightarrow> u16 \<Rightarrow> nat \<Rightarrow> controller \<Rightarrow> 'd nvme_m \<Rightarrow>
     (u16 \<times> controller \<times> 'd nvme_m) outcome" where
  "poll_loop D hhdm qk expected_cid 0 ctrl m = Inl Panic"
| "poll_loop D hhdm qk expected_cid (Suc n) ctrl m =
     and_then (queue_of ctrl qk) (\<lambda>q.
       let a = phys_to_virt hhdm (nq_cq_phys q) + 16 * ucast (nq_cq_head q);
           (cqe, d) = nv_get_cqe D a (nm_dev m);
           m = log_io (Get_cqe a cqe) d m;
           phase = ucast (cq_status cqe AND 1) :: u8
       in if phase \<noteq> nq_cq_phase q then poll_loop D hhdm qk expected_cid n ctrl m
          else and_then (rust_assert (cq_cid cqe = expected_cid)) (\<lambda>_.
            let status = drop_bit 1 (cq_status cqe)
            in if nq_size q = 0 then Inl Panic
               else let new_head = (nq_cq_head q + 1) mod nq_size q;
                        q = q\<lparr>nq_cq_head := new_head,
                              nq_cq_phase := (if new_head = 0 then nq_cq_phase q XOR 1 else nq_cq_phase q)\<rparr>;
                        m = write32 D (doorbell (nc_doorbell_stride ctrl) (nq_qid q) 1) (ucast new_head) m
                    in Inr (status, put_queue qk q ctrl, m)))"

definition poll_qe ::
    "'d nvme_dev \<Rightarrow> u64 \<Rightarrow> queue_kind \<Rightarrow> u16 \<Rightarrow> controller \<Rightarrow> 'd nvme_m \<Rightarrow>
     (u16 \<times> controller \<times> 'd nvme_m) outcome" where
  "poll_qe D hhdm qk expected_cid ctrl m = poll_loop D hhdm qk expected_cid CSTS_POLL_LIMIT ctrl m"

text \<open>A command on the admin queue: submit, poll, and the check every caller makes of the status.\<close>

definition status_check :: "u16 \<Rightarrow> unit outcome" where
  "status_check status = rust_assert (status AND 0xFFFE = 0)"

definition admin_command ::
    "'d nvme_dev \<Rightarrow> u64 \<Rightarrow> u8 \<Rightarrow> u32 \<Rightarrow> u64 \<Rightarrow> u32 \<Rightarrow> u32 \<Rightarrow> controller \<Rightarrow> 'd nvme_m \<Rightarrow>
     (controller \<times> 'd nvme_m) outcome" where
  "admin_command D hhdm opc nsid prp1 cdw10 cdw11 ctrl m =
     and_then (submit_qe D hhdm Admin opc nsid prp1 cdw10 cdw11 0 ctrl m) (\<lambda>(cid, ctrl, m).
     and_then (poll_qe D hhdm Admin cid ctrl m) (\<lambda>(status, ctrl, m).
     and_then (status_check status) (\<lambda>_. Inr (ctrl, m))))"

section \<open>Identify\<close>

definition ascii_trim :: "u8 list \<Rightarrow> u8 list" where
  "ascii_trim bs = rev (dropWhile (\<lambda>b. b = 0x20 \<or> b = 0) (rev bs))"

record ident_ctrl =
  id_sn :: "u8 list"
  id_mn :: "u8 list"
  id_fr :: "u8 list"
  id_nn :: u32

definition parse_ident_ctrl :: "u8 list \<Rightarrow> ident_ctrl" where
  "parse_ident_ctrl bs =
     \<lparr>id_sn = ascii_trim (take 20 (drop 4 bs)), id_mn = ascii_trim (take 40 (drop 24 bs)),
      id_fr = ascii_trim (take 8 (drop 64 bs)), id_nn = of_nat (le_nat (take 4 (drop 516 bs)))\<rparr>"

definition identify_controller ::
    "'d nvme_dev \<Rightarrow> phys_frame_ctor \<Rightarrow> u64 \<Rightarrow> controller \<Rightarrow> 'd nvme_m \<Rightarrow>
     (ident_ctrl \<times> controller \<times> 'd nvme_m) outcome" where
  "identify_controller D pf hhdm ctrl m =
     and_then (take_frame pf m) (\<lambda>(buf_phys, m).
       let buf_virt = phys_to_virt hhdm buf_phys;
           m = zero_frame D buf_virt m
       in and_then (admin_command D hhdm OPC_IDENTIFY 0 buf_phys CNS_CONTROLLER 0 ctrl m) (\<lambda>(ctrl, m).
          let bytes = nv_bytes D buf_virt 4096 (nm_dev m)
          in Inr (parse_ident_ctrl bytes, ctrl, m\<lparr>nm_frames := free_frame (nm_frames m) buf_phys\<rparr>)))"

record ident_ns =
  ns_nsze :: u64
  ns_flbas :: u8
  ns_lbads :: u8
  ns_lba_bytes :: u64

definition parse_ident_ns :: "u8 list \<Rightarrow> ident_ns" where
  "parse_ident_ns bs =
     (let flbas = bs ! 26;
          lbaf_index = unat (flbas AND 0xF);
          lbaf_off = 128 + lbaf_index * 4;
          lbaf = of_nat (le_nat (take 4 (drop lbaf_off bs))) :: u32;
          lbads = ucast (drop_bit 16 lbaf AND 0xFF) :: u8
      in \<lparr>ns_nsze = of_nat (le_nat (take 8 bs)), ns_flbas = flbas, ns_lbads = lbads,
          ns_lba_bytes = push_bit (unat (lbads AND 63)) 1\<rparr>)"

definition identify_namespace ::
    "'d nvme_dev \<Rightarrow> phys_frame_ctor \<Rightarrow> u64 \<Rightarrow> u32 \<Rightarrow> controller \<Rightarrow> 'd nvme_m \<Rightarrow>
     (ident_ns \<times> controller \<times> 'd nvme_m) outcome" where
  "identify_namespace D pf hhdm nsid ctrl m =
     and_then (take_frame pf m) (\<lambda>(buf_phys, m).
       let buf_virt = phys_to_virt hhdm buf_phys;
           m = zero_frame D buf_virt m
       in and_then (admin_command D hhdm OPC_IDENTIFY nsid buf_phys CNS_NAMESPACE 0 ctrl m) (\<lambda>(ctrl, m).
          let bytes = nv_bytes D buf_virt 4096 (nm_dev m)
          in Inr (parse_ident_ns bytes, ctrl, m\<lparr>nm_frames := free_frame (nm_frames m) buf_phys\<rparr>)))"

section \<open>MSI-X and the I/O queue\<close>

definition program_msix_entry ::
    "'d nvme_dev \<Rightarrow> u8 \<Rightarrow> u8 \<Rightarrow> controller \<Rightarrow> 'd nvme_m \<Rightarrow> 'd nvme_m outcome" where
  "program_msix_entry D vector bsp_apic_id ctrl m =
     (let b = bus (nc_bdf ctrl); d = dev (nc_bdf ctrl); f = func (nc_bdf ctrl) in
      and_then (expect (msix_info (nm_cfg m) b d f)) (\<lambda>msx.
      and_then (rust_assert (table_bar msx = 0)) (\<lambda>_.
      and_then (rust_assert ((ucast (table_offset msx) :: u64) +
                  (ucast IO_MSIX_INDEX + 1) * MSIX_ENTRY_BYTES \<le> BAR0_MAP_SIZE)) (\<lambda>_.
      let entry_off = ucast (table_offset msx) + ucast IO_MSIX_INDEX * MSIX_ENTRY_BYTES;
          addr_lo = 0xFEE00000 OR push_bit 12 (ucast bsp_apic_id) :: u32;
          m = write32 D entry_off addr_lo m;
          m = write32 D (entry_off + 4) 0 m;
          m = write32 D (entry_off + 8) (ucast vector) m;
          m = write32 D (entry_off + 12) 0 m;
          dw = config_read32 (nm_cfg m) b d f (cap_offset msx);
          new_dw = dw OR MSIX_CTRL_ENABLE_DWORD_BIT
      in Inr (m\<lparr>nm_cfg := config_write32 b d f (cap_offset msx) new_dw (nm_cfg m)\<rparr>)))))"

definition setup_io_queue ::
    "'d nvme_dev \<Rightarrow> phys_frame_ctor \<Rightarrow> u64 \<Rightarrow> handler \<Rightarrow> u8 \<Rightarrow> controller \<Rightarrow> 'd nvme_m \<Rightarrow>
     (controller \<times> 'd nvme_m) outcome" where
  "setup_io_queue D pf hhdm nvme_io_handler lapic ctrl m =
     and_then (rust_assert (nc_io ctrl = None)) (\<lambda>_.
     and_then (register_vector nvme_io_handler (nm_idt m)) (\<lambda>(vector, t).
     and_then (program_msix_entry D vector lapic ctrl (m\<lparr>nm_idt := t\<rparr>)) (\<lambda>m.
     and_then (take_frame pf m) (\<lambda>(cq_phys, m).
     and_then (take_frame pf m) (\<lambda>(sq_phys, m).
     let m = zero_frame D (phys_to_virt hhdm cq_phys) m;
         m = zero_frame D (phys_to_virt hhdm sq_phys) m;
         cdw10 = push_bit 16 (ucast IO_QUEUE_SIZE - 1) OR ucast IO_QID;
         cdw11_cq = push_bit 16 (ucast IO_MSIX_INDEX) OR 3;
         cdw11_sq = push_bit 16 (ucast IO_QID) OR 1
     in and_then (admin_command D hhdm OPC_CREATE_IO_CQ 0 cq_phys cdw10 cdw11_cq ctrl m) (\<lambda>(ctrl, m).
        and_then (admin_command D hhdm OPC_CREATE_IO_SQ 0 sq_phys cdw10 cdw11_sq ctrl m) (\<lambda>(ctrl, m).
        Inr (ctrl\<lparr>nc_io := Some (new_queue IO_QID IO_QUEUE_SIZE sq_phys cq_phys)\<rparr>, m))))))))"

text \<open>The wait for the interrupt; not returning is the value \<^term>\<open>None\<close>.\<close>

definition irq_count :: "'d nvme_dev \<Rightarrow> 'd nvme_m \<Rightarrow> u64 \<times> 'd nvme_m" where
  "irq_count D m = (let (v, d) = nv_irq_count D (nm_dev m) in (v, log_io (Irq_count v) d m))"

partial_function (option) irq_wait :: "'d nvme_dev \<Rightarrow> u64 \<Rightarrow> 'd nvme_m \<Rightarrow> 'd nvme_m option" where
  [code]: "irq_wait D target m =
     (let (v, m) = irq_count D m in if v < target then irq_wait D target m else Some m)"

definition smoke_read_sector_0 ::
    "'d nvme_dev \<Rightarrow> phys_frame_ctor \<Rightarrow> u64 \<Rightarrow> u32 \<Rightarrow> controller \<Rightarrow> 'd nvme_m \<Rightarrow>
     (controller \<times> 'd nvme_m) outcome option" where
  "smoke_read_sector_0 D pf hhdm nsid ctrl m =
     (case take_frame pf m of
        Inl e \<Rightarrow> Some (Inl e)
      | Inr (buf_phys, m) \<Rightarrow>
          (let buf_virt = phys_to_virt hhdm buf_phys;
               m = zero_frame D buf_virt m;
               slba = 0 :: u64;
               (n, m) = irq_count D m;
               target = n + 1
           in case submit_qe D hhdm Io OPC_READ nsid buf_phys (ucast slba) (ucast (drop_bit 32 slba)) 0 ctrl m of
                Inl e \<Rightarrow> Some (Inl e)
              | Inr (cid, ctrl, m) \<Rightarrow>
                  (case irq_wait D target m of
                     None \<Rightarrow> None
                   | Some m \<Rightarrow>
                       Some (and_then (poll_qe D hhdm Io cid ctrl m) (\<lambda>(status, ctrl, m).
                             and_then (status_check status) (\<lambda>_.
                             let sig = of_nat (le_nat (take 2 (drop 510 (nv_bytes D buf_virt 4096 (nm_dev m))))) :: u16
                             in and_then (rust_assert (sig = 0xAA55)) (\<lambda>_.
                                Inr (ctrl, m\<lparr>nm_frames := free_frame (nm_frames m) buf_phys\<rparr>))))))))"


section \<open>The order of the reset sequence\<close>

lemma log_io_simps [simp]:
  "nm_log (log_io e d m) = nm_log m @ [e]" "nm_frames (log_io e d m) = nm_frames m"
  "nm_cfg (log_io e d m) = nm_cfg m" "nm_idt (log_io e d m) = nm_idt m" "nm_dev (log_io e d m) = d"
  by (simp_all add: log_io_def)

lemma read32_log: "read32 D reg m = (v, m') \<Longrightarrow> nm_log m' = nm_log m @ [Read32 reg v] \<and> nm_frames m' = nm_frames m"
  by (auto simp: read32_def split: prod.splits)

lemma write_log [simp]:
  "nm_log (write32 D reg v32 m) = nm_log m @ [Write32 reg v32]"
  "nm_log (write64 D reg v64 m) = nm_log m @ [Write64 reg v64]"
  "nm_log (zero_frame D a m) = nm_log m @ [Zero_frame a]"
  "nm_frames (write32 D reg v32 m) = nm_frames m"
  "nm_frames (write64 D reg v64 m) = nm_frames m"
  "nm_frames (zero_frame D a m) = nm_frames m"
  by (simp_all add: write32_def write64_def zero_frame_def)

text \<open>What a successful wait read: no fatal status, and the awaited bits at the end.\<close>

definition waited :: "u32 \<Rightarrow> u32 \<Rightarrow> nvme_io list \<Rightarrow> bool" where
  "waited msk expected es = (\<exists>vs v. es = map (Read32 REG_CSTS) (vs @ [v]) \<and> v AND msk = expected \<and>
     (\<forall>u \<in> set (vs @ [v]). u AND CSTS_CFS = 0) \<and> (\<forall>u \<in> set vs. u AND msk \<noteq> expected) \<and>
     length es \<le> CSTS_POLL_LIMIT)"

lemma csts_loop_log:
  assumes "csts_loop D msk expected n m = Inr m'"
  shows "nm_frames m' = nm_frames m \<and> (\<exists>vs v. nm_log m' = nm_log m @ map (Read32 REG_CSTS) (vs @ [v]) \<and>
    v AND msk = expected \<and> (\<forall>u \<in> set (vs @ [v]). u AND CSTS_CFS = 0) \<and>
    (\<forall>u \<in> set vs. u AND msk \<noteq> expected) \<and> Suc (length vs) \<le> n)"
  using assms
proof (induction n arbitrary: m)
  case (Suc n)
  obtain v m1 where r: "read32 D REG_CSTS m = (v, m1)" by force
  note l = read32_log [OF r]
  have cfs: "v AND CSTS_CFS = 0" using Suc.prems r by (auto simp: and_then_eq_Inr)
  show ?case
  proof (cases "v AND msk = expected")
    case True
    then have "m' = m1" using Suc.prems r cfs by simp
    then show ?thesis using l True cfs by (intro conjI exI [of _ "[]"] exI [of _ v]) auto
  next
    case False
    then have "csts_loop D msk expected n m1 = Inr m'" using Suc.prems r cfs by simp
    from Suc.IH [OF this] obtain vs u where u: "nm_frames m' = nm_frames m1"
      "nm_log m' = nm_log m1 @ map (Read32 REG_CSTS) (vs @ [u])" "u AND msk = expected"
      "\<forall>x \<in> set (vs @ [u]). x AND CSTS_CFS = 0" "\<forall>x \<in> set vs. x AND msk \<noteq> expected" "Suc (length vs) \<le> n"
      by blast
    then show ?thesis using l cfs False by (intro conjI exI [of _ "v # vs"] exI [of _ u]) auto
  qed
qed simp

lemma wait_csts_log:
  assumes "wait_csts D msk expected m = Inr m'"
  shows "nm_frames m' = nm_frames m \<and> (\<exists>es. nm_log m' = nm_log m @ es \<and> waited msk expected es)"
  using csts_loop_log [OF assms [unfolded wait_csts_def]] unfolding waited_def by fastforce

lemma take_frame_log:
  assumes "take_frame pf m = Inr (f, m')"
  shows "nm_log m' = nm_log m" "free (nm_frames m) \<noteq> []" "pf (last (free (nm_frames m))) = Inr f"
    "free (nm_frames m') = butlast (free (nm_frames m))"
  using assms by (auto simp: take_frame_def alloc_frame_def and_then_eq_Inr split: if_splits)

text \<open>
  C17. The reset sequence, for every controller whatsoever. If setup\_admin returns, it has touched
  the controller in the order the specification prescribes and in no other way: it read CC; if
  the controller was enabled it cleared EN and polled CSTS until RDY read 0; only then it
  zeroed two frames taken from the pool and programmed AQA (64 entries each), ASQ and ACQ
  with them; EN was set in the very last write, and CSTS was polled until RDY read 1. No poll that
  was accepted showed the fatal-status bit, and no wait took more than its bound.
\<close>
theorem setup_admin_order:
  assumes "setup_admin D pf hhdm ctrl m = Inr (ctrl', m')"
  shows "\<exists>cc disable sq cq ready.
    nm_log m' = nm_log m @ [Read32 REG_CC cc] @ disable @
      [Zero_frame (sq + hhdm), Zero_frame (cq + hhdm), Write32 REG_AQA 0x003F003F,
       Write64 REG_ASQ sq, Write64 REG_ACQ cq, Write32 REG_CC 0x00460001] @ ready \<and>
    (if bit cc 0 then \<exists>w. disable = Write32 REG_CC (cc AND NOT 1) # w \<and> waited 1 0 w else disable = []) \<and>
    waited 1 1 ready \<and>
    (\<exists>rest a b. free (nm_frames m) = rest @ [b, a] \<and> pf a = Inr sq \<and> pf b = Inr cq \<and> free (nm_frames m') = rest) \<and>
    nc_admin ctrl = None \<and> ctrl' = ctrl\<lparr>nc_admin := Some (new_queue 0 64 sq cq)\<rparr>"
proof -
  have en: "CC_EN = 1" "CSTS_RDY = 1" by (simp_all add: CC_EN_def CSTS_RDY_def)
  have bit0: "(x :: u32) AND 1 \<noteq> 0 \<longleftrightarrow> bit x 0" for x
    by (simp add: and_one_eq bit_0 mod_2_eq_odd)
  obtain cc m1 where r: "read32 D REG_CC m = (cc, m1)" by force
  note l1 = read32_log [OF r]
  from assms obtain m2 sq m3 cq m4 m5 where
    none: "nc_admin ctrl = None" and
    s2: "(if bit cc 0 then wait_csts D 1 0 (write32 D REG_CC (cc AND NOT 1) m1) else Inr m1) = Inr m2" and
    s3: "take_frame pf m2 = Inr (sq, m3)" and s4: "take_frame pf m3 = Inr (cq, m4)" and
    s5: "wait_csts D 1 1 (write32 D REG_CC 0x00460001 (write64 D REG_ACQ cq (write64 D REG_ASQ sq
       (write32 D REG_AQA 0x003F003F (zero_frame D (cq + hhdm) (zero_frame D (sq + hhdm) m4)))))) = Inr m5" and
    fin: "m' = m5" "ctrl' = ctrl\<lparr>nc_admin := Some (new_queue 0 64 sq cq)\<rparr>"
    unfolding setup_admin_def r en bit0
    by (auto simp: and_then_eq_Inr phys_to_virt_def en bit0 ADMIN_QUEUE_SIZE_def CC_IOCQES_16_def
        CC_IOSQES_64_def CC_AMS_RR_def CC_MPS_4K_def CC_CSS_NVM_def)
  obtain disable where d: "nm_log m2 = nm_log m1 @ disable" "nm_frames m2 = nm_frames m1"
    "if bit cc 0 then \<exists>w. disable = Write32 REG_CC (cc AND NOT 1) # w \<and> waited 1 0 w else disable = []"
  proof (cases "bit cc 0")
    case True
    with s2 wait_csts_log [of D 1 0 "write32 D REG_CC (cc AND NOT 1) m1" m2] obtain w where
      "nm_frames m2 = nm_frames m1" "nm_log m2 = nm_log m1 @ Write32 REG_CC (cc AND NOT 1) # w" "waited 1 0 w"
      by auto
    then show ?thesis using that True by auto
  next
    case False then show ?thesis using s2 that [of "[]"] by simp
  qed
  note f3 = take_frame_log [OF s3] and f4 = take_frame_log [OF s4]
  obtain ready where e: "nm_log m5 = nm_log m4 @ [Zero_frame (sq + hhdm), Zero_frame (cq + hhdm),
      Write32 REG_AQA 0x003F003F, Write64 REG_ASQ sq, Write64 REG_ACQ cq, Write32 REG_CC 0x00460001] @ ready"
    "waited 1 1 ready" "nm_frames m5 = nm_frames m4"
    using wait_csts_log [OF s5] by auto
  have "free (nm_frames m) = butlast (butlast (free (nm_frames m))) @
      [last (butlast (free (nm_frames m))), last (free (nm_frames m))]"
    using f3(2, 4) f4(2) d(2) l1 by (metis append_butlast_last_id append_Cons append_assoc append_Nil)
  then have fr: "\<exists>rest a b. free (nm_frames m) = rest @ [b, a] \<and> pf a = Inr sq \<and> pf b = Inr cq \<and>
      free (nm_frames m') = rest"
    using f3 f4 e(3) d(2) l1 fin(1) by auto
  have log: "nm_log m' = nm_log m @ [Read32 REG_CC cc] @ disable @
      [Zero_frame (sq + hhdm), Zero_frame (cq + hhdm), Write32 REG_AQA 0x003F003F,
       Write64 REG_ASQ sq, Write64 REG_ACQ cq, Write32 REG_CC 0x00460001] @ ready"
    using fin(1) d(1) e(1) f3(1) f4(1) l1 by simp
  show ?thesis
    by (rule exI [of _ cc], rule exI [of _ disable], rule exI [of _ sq], rule exI [of _ cq],
        rule exI [of _ ready])
      (intro conjI, rule log, rule d(3), rule e(2), rule fr, rule none, rule fin(2))
qed


section \<open>The completion ring\<close>

text \<open>
  What the controller promises of a completion queue of \<open>n\<close> slots at virtual address \<open>a\<close>. It
  posts completions in order (\<open>posted\<close>: command identifier and status field of each, from the
  creation of the queue), the i-th into slot \<open>i mod n\<close> with a phase bit that is 1 in the even
  rounds and 0 in the odd ones; a slot that was never written is zero. It posts at most one completion
  per command it was given (\<open>issued\<close>), and a load by the driver issues nothing.
\<close>

definition cqe_is :: "cq_entry \<Rightarrow> u16 \<times> u16 \<Rightarrow> bool \<Rightarrow> bool" where
  "cqe_is e c ph = (cq_cid e = fst c \<and> drop_bit 1 (cq_status e) = snd c \<and>
     cq_status e AND 1 = (if ph then 1 else 0))"

definition slot_ok :: "nat \<Rightarrow> (u16 \<times> u16) list \<Rightarrow> nat \<Rightarrow> cq_entry \<Rightarrow> bool" where
  "slot_ok n ps j e =
     ((\<forall>i < length ps. i mod n = j \<and> length ps \<le> i + n \<longrightarrow> cqe_is e (ps ! i) (even (i div n))) \<and>
      ((\<forall>i < length ps. i mod n \<noteq> j) \<longrightarrow> cq_status e AND 1 = 0))"

record 'd cq_view =
  posted :: "'d \<Rightarrow> (u16 \<times> u16) list"
  issued :: "'d \<Rightarrow> nat"

definition cq_device :: "'d nvme_dev \<Rightarrow> 'd cq_view \<Rightarrow> u64 \<Rightarrow> nat \<Rightarrow> bool" where
  "cq_device D V a n =
     (\<forall>d e d' j. j < n \<and> nv_get_cqe D (a + of_nat (16 * j)) d = (e, d') \<longrightarrow>
        slot_ok n (posted V d') j e \<and> (\<exists>new. posted V d' = posted V d @ new) \<and>
        issued V d' = issued V d \<and> length (posted V d') \<le> issued V d')"

text \<open>The driver's side after it consumed \<open>k\<close> completions.\<close>

definition cq_rep :: "nat \<Rightarrow> nvme_queue \<Rightarrow> bool" where
  "cq_rep k q = (nq_size q \<noteq> 0 \<and> unat (nq_cq_head q) = k mod unat (nq_size q) \<and>
     nq_cq_phase q = (if even (k div unat (nq_size q)) then 1 else 0))"

text \<open>The device after the driver loaded one address \<open>i\<close> times.\<close>

fun loads :: "'d nvme_dev \<Rightarrow> u64 \<Rightarrow> nat \<Rightarrow> 'd \<Rightarrow> 'd" where
  "loads D a 0 d = d"
| "loads D a (Suc i) d = loads D a i (snd (nv_get_cqe D a d))"

lemma phase_bit: "(ucast (w AND 1) :: u8) = (if (w :: u16) AND 1 = 1 then 1 else 0)"
  by (simp add: and_one_eq mod_2_eq_odd)

lemma bit_1_cases: "(w :: u16) AND 1 = 0 \<or> w AND 1 = 1"
  by (simp add: and_one_eq mod_2_eq_odd)

text \<open>The phase bit tells a new completion from a stale one, in every round.\<close>

lemma phase_fresh:
  assumes n: "0 < n" and s: "slot_ok n ps (k mod n) e" and k: "k \<le> length ps" "length ps \<le> k + n"
  shows "cq_status e AND 1 = (if even (k div n) then 1 else 0) \<longleftrightarrow> k < length ps"
    and "k < length ps \<Longrightarrow> cqe_is e (ps ! k) (even (k div n))"
proof -
  show new: "k < length ps \<Longrightarrow> cqe_is e (ps ! k) (even (k div n))"
    using s k(2) by (simp add: slot_ok_def)
  have old: "cq_status e AND 1 \<noteq> (if even (k div n) then 1 else 0)" if "length ps = k"
  proof (cases "n \<le> k")
    case True
    have "(k - n) mod n = k mod n" "k div n = Suc ((k - n) div n)"
      using True n by (simp_all add: le_mod_geq le_div_geq)
    then have "cqe_is e (ps ! (k - n)) (even ((k - n) div n))"
      using s that True n by (simp add: slot_ok_def)
    then show ?thesis using \<open>k div n = Suc ((k - n) div n)\<close> by (simp add: cqe_is_def)
  next
    case False
    then have "\<forall>i < length ps. i mod n \<noteq> k mod n" using that by auto
    then have "cq_status e AND 1 = 0" using s by (simp add: slot_ok_def)
    then show ?thesis using False by simp
  qed
  show "cq_status e AND 1 = (if even (k div n) then 1 else 0) \<longleftrightarrow> k < length ps"
    using old new k(1) by (cases "k < length ps") (auto simp: cqe_is_def)
qed

definition ack_state :: "nat \<Rightarrow> nvme_queue \<Rightarrow> nvme_queue" where
  "ack_state k q = q\<lparr>nq_cq_head := of_nat (Suc k mod unat (nq_size q)),
     nq_cq_phase := (if even (Suc k div unat (nq_size q)) then 1 else 0)\<rparr>"

lemma ack_rep: "cq_rep k q \<Longrightarrow> cq_rep (Suc k) (ack_state k q)"
proof -
  assume r: "cq_rep k q"
  have "0 < unat (nq_size q)" using r by (simp add: cq_rep_def unat_gt_0)
  then have "Suc k mod unat (nq_size q) < unat (nq_size q)" by simp
  then have "Suc k mod unat (nq_size q) < 2 ^ 16" using unat_bound [of "nq_size q"] by simp
  then have "unat (of_nat (Suc k mod unat (nq_size q)) :: u16) = Suc k mod unat (nq_size q)"
    by (intro unat_of_nat_small) simp
  then show ?thesis using r by (simp add: cq_rep_def ack_state_def)
qed

lemma ack_step:
  assumes r: "cq_rep k q"
  shows "(nq_cq_head q + 1) mod nq_size q = of_nat (Suc k mod unat (nq_size q))"
    "(if (nq_cq_head q + 1) mod nq_size q = 0 then nq_cq_phase q XOR 1 else nq_cq_phase q) =
       (if even (Suc k div unat (nq_size q)) then 1 else 0)"
proof -
  let ?n = "unat (nq_size q)"
  have n: "0 < ?n" and h: "unat (nq_cq_head q) = k mod ?n"
    and ph: "nq_cq_phase q = (if even (k div ?n) then 1 else 0)"
    using r by (auto simp: cq_rep_def unat_gt_0)
  have "k mod ?n < ?n" using n by simp
  then have h1: "k mod ?n + 1 < 2 ^ 16 \<or> k mod ?n + 1 = ?n"
    using unat_bound [of "nq_size q"] by auto
  have b: "k mod ?n + 1 < 2 ^ 16" using \<open>k mod ?n < ?n\<close> unat_bound [of "nq_size q"] by simp
  have "unat (nq_cq_head q + 1) = k mod ?n + 1"
    using b h by (subst unat_add_noof) simp_all
  then have u: "unat ((nq_cq_head q + 1) mod nq_size q) = Suc k mod ?n"
    by (simp add: unat_mod mod_Suc_eq)
  then show e: "(nq_cq_head q + 1) mod nq_size q = of_nat (Suc k mod ?n)"
    by (metis of_nat_unat_word)
  have z: "(nq_cq_head q + 1) mod nq_size q = 0 \<longleftrightarrow> Suc k mod ?n = 0"
    using u by (metis unat_0 unat_eq_0)
  show "(if (nq_cq_head q + 1) mod nq_size q = 0 then nq_cq_phase q XOR 1 else nq_cq_phase q) =
       (if even (Suc k div ?n) then 1 else 0)"
    unfolding z ph using div_Suc [of k ?n] by auto
qed


text \<open>A queue in use: its completion ring is one the controller serves, and nothing can be overrun.\<close>

definition cq_in_use ::
    "'d nvme_dev \<Rightarrow> 'd cq_view \<Rightarrow> u64 \<Rightarrow> nat \<Rightarrow> nvme_queue \<Rightarrow> 'd \<Rightarrow> bool" where
  "cq_in_use D V hhdm k q d =
     (cq_device D V (nq_cq_phys q + hhdm) (unat (nq_size q)) \<and> cq_rep k q \<and>
      k \<le> length (posted V d) \<and> issued V d \<le> k + unat (nq_size q))"

definition head_addr :: "u64 \<Rightarrow> nvme_queue \<Rightarrow> u64" where
  "head_addr hhdm q = phys_to_virt hhdm (nq_cq_phys q) + 16 * ucast (nq_cq_head q)"

lemma head_addr_eq: "cq_rep k q \<Longrightarrow> head_addr hhdm q = nq_cq_phys q + hhdm + of_nat (16 * (k mod unat (nq_size q)))"
proof -
  assume "cq_rep k q"
  moreover have "(ucast (nq_cq_head q) :: u64) = of_nat (unat (nq_cq_head q))" by simp
  ultimately show ?thesis by (simp add: head_addr_def phys_to_virt_def cq_rep_def)
qed

lemma cq_in_use_load:
  assumes u: "cq_in_use D V hhdm k q d" and g: "nv_get_cqe D (head_addr hhdm q) d = (e, d')"
  shows "cq_in_use D V hhdm k q d'"
    "ucast (cq_status e AND 1) = nq_cq_phase q \<longleftrightarrow> k < length (posted V d')"
    "k < length (posted V d') \<Longrightarrow> cq_cid e = fst (posted V d' ! k) \<and> drop_bit 1 (cq_status e) = snd (posted V d' ! k)"
proof -
  let ?n = "unat (nq_size q)"
  have r: "cq_rep k q" and n: "0 < ?n" using u by (auto simp: cq_in_use_def cq_rep_def unat_gt_0)
  have "k mod ?n < ?n" using n by simp
  then have c: "slot_ok ?n (posted V d') (k mod ?n) e" "\<exists>new. posted V d' = posted V d @ new"
    "issued V d' = issued V d" "length (posted V d') \<le> issued V d'"
    using u g unfolding cq_in_use_def cq_device_def head_addr_eq [OF r] by blast+
  show "cq_in_use D V hhdm k q d'" using u c(2, 3) by (auto simp: cq_in_use_def)
  have k: "k \<le> length (posted V d')" "length (posted V d') \<le> k + ?n"
    using u c by (auto simp: cq_in_use_def)
  have "ucast (cq_status e AND 1) = nq_cq_phase q \<longleftrightarrow>
      cq_status e AND 1 = (if even (k div ?n) then 1 else 0)"
    using r bit_1_cases [of "cq_status e"] unfolding phase_bit by (auto simp: cq_rep_def)
  then show "ucast (cq_status e AND 1) = nq_cq_phase q \<longleftrightarrow> k < length (posted V d')"
    using phase_fresh(1) [OF n c(1) k] by simp
  show "k < length (posted V d') \<Longrightarrow> cq_cid e = fst (posted V d' ! k) \<and> drop_bit 1 (cq_status e) = snd (posted V d' ! k)"
    using phase_fresh(2) [OF n c(1) k] by (simp add: cqe_is_def)
qed

lemma poll_step:
  assumes q: "queue_of ctrl qk = Inr q" and u: "cq_in_use D V hhdm k q (nm_dev m)"
    and g: "nv_get_cqe D (head_addr hhdm q) (nm_dev m) = (e, d')"
  shows "poll_loop D hhdm qk cid (Suc n) ctrl m =
    (let m1 = log_io (Get_cqe (head_addr hhdm q) e) d' m in
     if k < length (posted V d')
     then if fst (posted V d' ! k) = cid
          then Inr (snd (posted V d' ! k), put_queue qk (ack_state k q) ctrl,
                    write32 D (doorbell (nc_doorbell_stride ctrl) (nq_qid q) 1)
                      (ucast (nq_cq_head (ack_state k q))) m1)
          else Inl Panic
     else poll_loop D hhdm qk cid n ctrl m1)"
proof -
  note l = cq_in_use_load [OF u g]
  have r: "cq_rep k q" using u by (simp add: cq_in_use_def)
  then have sz: "nq_size q \<noteq> 0" by (simp add: cq_rep_def)
  have st: "q\<lparr>nq_cq_head := (nq_cq_head q + 1) mod nq_size q,
       nq_cq_phase := (if (nq_cq_head q + 1) mod nq_size q = 0 then nq_cq_phase q XOR 1 else nq_cq_phase q)\<rparr> =
     ack_state k q"
    unfolding ack_step(2) [OF r] unfolding ack_step(1) [OF r] ack_state_def ..
  have hd: "(nq_cq_head q + 1) mod nq_size q = nq_cq_head (ack_state k q)"
    unfolding ack_step(1) [OF r] by (simp add: ack_state_def)
  have qid: "nq_qid (ack_state k q) = nq_qid q" by (simp add: ack_state_def)
  show ?thesis
    using q g l(2, 3) sz st hd qid
    unfolding poll_loop.simps head_addr_def [symmetric]
    by (auto simp: Let_def split: if_splits)
qed

declare poll_loop.simps(2) [simp del]

lemma poll_loop_result:
  assumes q: "queue_of ctrl qk = Inr q" and u: "cq_in_use D V hhdm k q (nm_dev m)"
  defines "seen \<equiv> \<lambda>i. k < length (posted V (loads D (head_addr hhdm q) i (nm_dev m)))"
  shows "(\<forall>i. 0 < i \<and> i \<le> n \<longrightarrow> \<not> seen i) \<Longrightarrow> poll_loop D hhdm qk cid n ctrl m = Inl Panic"
    and "0 < i \<Longrightarrow> i \<le> n \<Longrightarrow> seen i \<Longrightarrow> (\<forall>j. 0 < j \<and> j < i \<longrightarrow> \<not> seen j) \<Longrightarrow>
      (let d' = loads D (head_addr hhdm q) i (nm_dev m); c = posted V d' ! k;
           head' = nq_cq_head (ack_state k q)
       in if fst c = cid
          then \<exists>m'. poll_loop D hhdm qk cid n ctrl m = Inr (snd c, put_queue qk (ack_state k q) ctrl, m') \<and>
            nm_dev m' = nv_write32 D (doorbell (nc_doorbell_stride ctrl) (nq_qid q) 1) (ucast head') d' \<and>
            last (nm_log m') = Write32 (doorbell (nc_doorbell_stride ctrl) (nq_qid q) 1) (ucast head') \<and>
            nm_frames m' = nm_frames m
          else poll_loop D hhdm qk cid n ctrl m = Inl Panic)"
  using u unfolding seen_def
proof (induction n arbitrary: m i)
  case (Suc n)
  {
    case 1
    obtain e d1 where g: "nv_get_cqe D (head_addr hhdm q) (nm_dev m) = (e, d1)" by force
    have no: "\<not> k < length (posted V d1)" using "1.prems"(1) g by (auto dest: spec [of _ "Suc 0"])
    let ?m = "log_io (Get_cqe (head_addr hhdm q) e) d1 m"
    have u1: "cq_in_use D V hhdm k q (nm_dev ?m)" using cq_in_use_load(1) [OF "1.prems"(2) g] by simp
    have "poll_loop D hhdm qk cid n ctrl ?m = Inl Panic"
    proof (rule Suc.IH(1) [OF _ u1], intro allI impI)
      fix i assume "0 < i \<and> i \<le> n"
      then show "\<not> k < length (posted V (loads D (head_addr hhdm q) i (nm_dev ?m)))"
        using "1.prems"(1) g by (auto dest: spec [of _ "Suc i"])
    qed
    then show ?case using poll_step [OF q "1.prems"(2) g] no by (simp add: Let_def)
  next
    case 2
    obtain e d1 where g: "nv_get_cqe D (head_addr hhdm q) (nm_dev m) = (e, d1)" by force
    let ?m = "log_io (Get_cqe (head_addr hhdm q) e) d1 m"
    have u1: "cq_in_use D V hhdm k q (nm_dev ?m)" using cq_in_use_load(1) [OF "2.prems"(5) g] by simp
    obtain i' where i': "i = Suc i'" using "2.prems"(1) by (cases i) auto
    show ?case
    proof (cases i')
      case 0
      then have "k < length (posted V d1)" using "2.prems"(3) i' g by simp
      then show ?thesis
        using poll_step [OF q "2.prems"(5) g] i' 0 g by (auto simp: Let_def write32_def)
    next
      case (Suc i'')
      then have no: "\<not> k < length (posted V d1)"
        using "2.prems"(4) i' g by (auto dest: spec [of _ "Suc 0"])
      have "(let d' = loads D (head_addr hhdm q) i' (nm_dev ?m); c = posted V d' ! k;
           head' = nq_cq_head (ack_state k q)
       in if fst c = cid
          then \<exists>m'. poll_loop D hhdm qk cid n ctrl ?m = Inr (snd c, put_queue qk (ack_state k q) ctrl, m') \<and>
            nm_dev m' = nv_write32 D (doorbell (nc_doorbell_stride ctrl) (nq_qid q) 1) (ucast head') d' \<and>
            last (nm_log m') = Write32 (doorbell (nc_doorbell_stride ctrl) (nq_qid q) 1) (ucast head') \<and>
            nm_frames m' = nm_frames ?m
          else poll_loop D hhdm qk cid n ctrl ?m = Inl Panic)"
      proof (rule Suc.IH(2) [OF _ _ _ _ u1])
        show "0 < i'" "i' \<le> n" using Suc i' "2.prems"(2) by auto
        show "k < length (posted V (loads D (head_addr hhdm q) i' (nm_dev ?m)))"
          using "2.prems"(3) i' g by simp
        show "\<forall>j. 0 < j \<and> j < i' \<longrightarrow> \<not> k < length (posted V (loads D (head_addr hhdm q) j (nm_dev ?m)))"
        proof (intro allI impI)
          fix j assume "0 < j \<and> j < i'"
          then show "\<not> k < length (posted V (loads D (head_addr hhdm q) j (nm_dev ?m)))"
            using "2.prems"(4) i' g by (auto dest: spec [of _ "Suc j"])
        qed
      qed
      moreover have "poll_loop D hhdm qk cid (Suc n) ctrl m = poll_loop D hhdm qk cid n ctrl ?m"
        using poll_step [OF q "2.prems"(5) g] no by (simp add: Let_def)
      moreover have "loads D (head_addr hhdm q) i (nm_dev m) = loads D (head_addr hhdm q) i' (nm_dev ?m)"
        using i' g by simp
      ultimately show ?thesis by (simp only: log_io_simps)
    qed
  }
qed simp_all


text \<open>
  C10. Completions are consumed in order, and never a stale one. For every controller that follows
  the phase-tag protocol, after the driver consumed \<open>k\<close> completions of a queue (any \<open>k\<close>,
  so across every wrap of the ring), poll\_qe returns with the status of completion number
  \<open>k\<close> as soon as a load sees it, acknowledges it with the right doorbell write, and leaves the
  queue in the state for completion \<open>k + 1\<close>; it panics if that completion belongs to another
  command, and if it is not there within the bound of 100 million loads, although stale
  entries of earlier rounds are in the ring all the time.
\<close>
theorem poll_qe_in_order:
  assumes "queue_of ctrl qk = Inr q" "cq_in_use D V hhdm k q (nm_dev m)"
  defines "at \<equiv> \<lambda>i. loads D (head_addr hhdm q) i (nm_dev m)"
  shows "cq_rep (Suc k) (ack_state k q) \<and>
    ((\<forall>i \<le> 100000000. \<not> k < length (posted V (at i))) \<longrightarrow> poll_qe D hhdm qk cid ctrl m = Inl Panic) \<and>
    (\<forall>i \<le> 100000000. 0 < i \<and> k < length (posted V (at i)) \<and> (\<forall>j < i. 0 < j \<longrightarrow> \<not> k < length (posted V (at j))) \<longrightarrow>
      (if fst (posted V (at i) ! k) = cid
       then \<exists>m'. poll_qe D hhdm qk cid ctrl m =
               Inr (snd (posted V (at i) ! k), put_queue qk (ack_state k q) ctrl, m') \<and>
             nm_dev m' = nv_write32 D (doorbell (nc_doorbell_stride ctrl) (nq_qid q) 1)
               (ucast (nq_cq_head (ack_state k q))) (at i)
       else poll_qe D hhdm qk cid ctrl m = Inl Panic))"
proof (intro conjI impI allI)
  show "cq_rep (Suc k) (ack_state k q)" using assms(2) by (intro ack_rep) (simp add: cq_in_use_def)
next
  assume "\<forall>i \<le> 100000000. \<not> k < length (posted V (at i))"
  then show "poll_qe D hhdm qk cid ctrl m = Inl Panic"
    unfolding poll_qe_def CSTS_POLL_LIMIT_def at_def
    by (intro poll_loop_result(1) [OF assms(1, 2)]) auto
next
  fix i :: nat
  assume "i \<le> 100000000"
    and "0 < i \<and> k < length (posted V (at i)) \<and> (\<forall>j < i. 0 < j \<longrightarrow> \<not> k < length (posted V (at j)))"
  then show "if fst (posted V (at i) ! k) = cid
       then \<exists>m'. poll_qe D hhdm qk cid ctrl m =
               Inr (snd (posted V (at i) ! k), put_queue qk (ack_state k q) ctrl, m') \<and>
             nm_dev m' = nv_write32 D (doorbell (nc_doorbell_stride ctrl) (nq_qid q) 1)
               (ucast (nq_cq_head (ack_state k q))) (at i)
       else poll_qe D hhdm qk cid ctrl m = Inl Panic"
    using poll_loop_result(2) [OF assms(1, 2), of i 100000000 cid]
    unfolding poll_qe_def CSTS_POLL_LIMIT_def at_def Let_def by (auto split: if_splits)
qed


section \<open>A controller for the witnesses\<close>

text \<open>
  It is ready as soon as it is enabled, and it completes one command with status 0: the completion
  appears in slot 0 of the queue at 8192 with the first load after the command was stored.
\<close>

record toy =
  toy_cc :: u32
  toy_cmd :: "u16 option"
  toy_done :: "u16 option"

definition toy_load :: "u64 \<Rightarrow> toy \<Rightarrow> cq_entry \<times> toy" where
  "toy_load a d =
     (let d = d\<lparr>toy_done := (case toy_done d of None \<Rightarrow> toy_cmd d | Some c \<Rightarrow> Some c)\<rparr> in
      (case toy_done d of
         Some c \<Rightarrow>
           if a = 8192 then \<lparr>cq_dw0 = 0, cq_rsvd = 0, cq_sq_head = 1, cq_sq_id = 0, cq_cid = c, cq_status = 1\<rparr>
           else \<lparr>cq_dw0 = 0, cq_rsvd = 0, cq_sq_head = 0, cq_sq_id = 0, cq_cid = 0, cq_status = 0\<rparr>
       | None \<Rightarrow> \<lparr>cq_dw0 = 0, cq_rsvd = 0, cq_sq_head = 0, cq_sq_id = 0, cq_cid = 0, cq_status = 0\<rparr>, d))"

definition toy_dev :: "toy nvme_dev" where
  "toy_dev = \<lparr>
     nv_read32 = (\<lambda>r d. (if r = REG_CC then toy_cc d else if r = REG_CSTS then toy_cc d AND 1 else 0, d)),
     nv_read64 = (\<lambda>r d. (0, d)),
     nv_write32 = (\<lambda>r v d. if r = REG_CC then d\<lparr>toy_cc := v\<rparr> else d),
     nv_write64 = (\<lambda>r v d. d),
     nv_zero_frame = (\<lambda>a d. d),
     nv_put_sqe = (\<lambda>a e d. d\<lparr>toy_cmd := Some (ucast (drop_bit 16 (sq_cdw0 e)))\<rparr>),
     nv_get_cqe = toy_load,
     nv_bytes = (\<lambda>a n d. replicate n 0),
     nv_irq_count = (\<lambda>d. (0, d))\<rparr>"

definition toy_view :: "toy cq_view" where
  "toy_view = \<lparr>posted = (\<lambda>d. case toy_done d of None \<Rightarrow> [] | Some c \<Rightarrow> [(c, 0)]), issued = (\<lambda>d. 1)\<rparr>"

definition toy_ctrl :: controller where
  "toy_ctrl = \<lparr>nc_bdf = \<lparr>bus = 0, dev = 4, func = 0\<rparr>, nc_bar0_phys = 0xFEBF0000, nc_bar0_virt = 0xFEBF0000,
     nc_cap = 0, nc_version = 0, nc_doorbell_stride = 0, nc_admin = None, nc_io = None\<rparr>"

definition toy_m :: "u32 \<Rightarrow> u16 option \<Rightarrow> toy nvme_m" where
  "toy_m cc cmd = \<lparr>nm_dev = \<lparr>toy_cc = cc, toy_cmd = cmd, toy_done = None\<rparr>, nm_log = [],
     nm_frames = \<lparr>free = [0x1000, 0x2000], total_added_ctr = 2\<rparr>, nm_cfg = (\<lambda>_. 0), nm_idt = idt_boot\<rparr>"

lemma csts_loop_unroll:
  "0 < n \<Longrightarrow> csts_loop D msk expected n m =
     (let (csts, m) = read32 D REG_CSTS m
      in and_then (rust_assert (csts AND CSTS_CFS = 0)) (\<lambda>_.
           if csts AND msk = expected then Inr m else csts_loop D msk expected (n - 1) m))"
  by (cases n) (simp, simp only: csts_loop.simps diff_Suc_1)

lemma toy_setup:
  "\<exists>r. setup_admin toy_dev Inr 0 toy_ctrl (toy_m 1 None) = Inr r"
  by (simp add: setup_admin_def toy_m_def toy_ctrl_def toy_dev_def wait_csts_def csts_loop_unroll
      CSTS_POLL_LIMIT_def read32_def write32_def write64_def zero_frame_def take_frame_def
      alloc_frame_def log_io_def REG_CC_def REG_CSTS_def REG_AQA_def CC_EN_def CSTS_RDY_def CSTS_CFS_def
      CC_IOCQES_16_def CC_IOSQES_64_def CC_AMS_RR_def CC_MPS_4K_def CC_CSS_NVM_def ADMIN_QUEUE_SIZE_def)

theorem setup_admin_order_witness:
  "\<exists>ctrl' m' cc disable sq cq ready.
    setup_admin toy_dev Inr 0 toy_ctrl (toy_m 1 None) = Inr (ctrl', m') \<and>
    nm_log m' = nm_log (toy_m 1 None) @ [Read32 REG_CC cc] @ disable @
      [Zero_frame (sq + 0), Zero_frame (cq + 0), Write32 REG_AQA 0x003F003F,
       Write64 REG_ASQ sq, Write64 REG_ACQ cq, Write32 REG_CC 0x00460001] @ ready \<and>
    waited 1 1 ready"
proof -
  obtain ctrl' m' where r: "setup_admin toy_dev Inr 0 toy_ctrl (toy_m 1 None) = Inr (ctrl', m')"
    using toy_setup by force
  show ?thesis using setup_admin_order [OF r] r by blast
qed

lemma toy_cq_device: "cq_device toy_dev toy_view 8192 64"
  unfolding cq_device_def
proof (intro allI impI)
  fix d e d' and j :: nat
  assume h: "j < 64 \<and> nv_get_cqe toy_dev (8192 + of_nat (16 * j)) d = (e, d')"
  have "(8192 + of_nat (16 * j) = (8192 :: u64)) \<longleftrightarrow> j = 0"
  proof -
    have "unat (of_nat (16 * j) :: u64) = 16 * j" using h by (intro unat_of_nat_small) simp
    then show ?thesis by (metis add_cancel_left_right mult_eq_0_iff unat_0 unat_eq_0 zero_neq_numeral)
  qed
  then show "slot_ok 64 (posted toy_view d') j e \<and> (\<exists>new. posted toy_view d' = posted toy_view d @ new) \<and>
      issued toy_view d' = issued toy_view d \<and> length (posted toy_view d') \<le> issued toy_view d'"
    using h by (auto simp: toy_dev_def toy_load_def toy_view_def slot_ok_def cqe_is_def Let_def
        split: option.splits if_splits)
qed

definition toy_queue :: nvme_queue where
  "toy_queue = new_queue 0 64 0x1000 0x2000"

theorem poll_qe_in_order_witness:
  "\<exists>m'. poll_qe toy_dev 0 Admin 7 (toy_ctrl\<lparr>nc_admin := Some toy_queue\<rparr>) (toy_m 1 (Some 7)) =
     Inr (0, put_queue Admin (ack_state 0 toy_queue) (toy_ctrl\<lparr>nc_admin := Some toy_queue\<rparr>), m')"
proof -
  let ?c = "toy_ctrl\<lparr>nc_admin := Some toy_queue\<rparr>" and ?m = "toy_m 1 (Some 7)"
  have q: "queue_of ?c Admin = Inr toy_queue" by (simp add: queue_of_def)
  have u: "cq_in_use toy_dev toy_view 0 0 toy_queue (nm_dev ?m)"
    using toy_cq_device
    by (simp add: cq_in_use_def cq_rep_def toy_queue_def new_queue_def toy_view_def toy_m_def)
  have l: "posted toy_view (loads toy_dev (head_addr 0 toy_queue) (Suc 0) (nm_dev ?m)) = [(7, 0)]"
    by (simp add: toy_dev_def toy_load_def toy_m_def toy_view_def Let_def)
  show ?thesis
    using poll_qe_in_order [OF q u, of 7, THEN conjunct2, THEN conjunct2, THEN spec [of _ "Suc 0"]] l
    by auto
qed

section \<open>Bounds\<close>

lemma doorbell_offset:
  assumes "unat i \<le> 1" "off \<le> 1" "unat s \<le> 9"
  shows "unat (doorbell s i off) + 4 \<le> 0x4000"
proof -
  have s: "s AND 63 = s"
  proof -
    have "s AND 63 = take_bit 6 s" by (simp add: take_bit_eq_mask mask_eq_exp_minus_1)
    then show ?thesis using assms(3) by (simp add: unat_take_bit_word flip: unat_cancel)
  qed
  have p: "unat (push_bit (unat s) 4 :: u64) = 4 * 2 ^ unat s"
  proof -
    have "(4 :: nat) * 2 ^ unat s \<le> 4 * 2 ^ 9" using assms(3) by (intro mult_left_mono power_increasing) auto
    then have b: "4 * 2 ^ unat s < (2 :: nat) ^ LENGTH(64)" by simp
    have "(push_bit (unat s) 4 :: u64) = of_nat (4 * 2 ^ unat s)" by (simp add: push_bit_eq_mult)
    then show ?thesis using unat_of_nat_small [OF b] by metis
  qed
  have pb: "4 * 2 ^ unat s \<le> (2048 :: nat)"
  proof -
    have "(2 :: nat) ^ unat s \<le> 2 ^ 9" using assms(3) by (intro power_increasing) auto
    then show ?thesis by simp
  qed
  have i: "unat (ucast i :: u64) = unat i" using unat_bound [of i] by (simp add: unsigned_ucast_eq take_bit_nat_eq_self)
  have off: "unat off \<le> 1" using assms(2) by (simp add: word_le_nat_alt)
  have k: "unat (2 * ucast i + off :: u64) = 2 * unat i + unat off"
    using assms(1) off i by (simp add: unat_word_ariths)
  have "unat ((2 * ucast i + off) * push_bit (unat s) 4 :: u64) = (2 * unat i + unat off) * (4 * 2 ^ unat s)"
  proof -
    have "(2 * unat i + unat off) * (4 * 2 ^ unat s) \<le> 3 * 2048"
      using assms(1) off pb by (intro mult_le_mono) auto
    then show ?thesis using k p by (simp add: unat_word_ariths)
  qed
  moreover have "(2 * unat i + unat off) * (4 * 2 ^ unat s) \<le> 3 * 2048"
    using assms(1) off pb by (intro mult_le_mono) auto
  ultimately show ?thesis unfolding doorbell_def s by (simp add: DOORBELL_BASE_def unat_word_ariths)
qed

text \<open>With a larger stride the doorbells of queue 1 lie outside the 16 KiB that init maps.\<close>

lemma doorbell_outside: "unat (doorbell 10 IO_QID 1) + 4 > unat BAR0_MAP_SIZE"
  by (simp add: doorbell_def DOORBELL_BASE_def IO_QID_def BAR0_MAP_SIZE_def)


definition queue_wf :: "nvme_queue \<Rightarrow> bool" where
  "queue_wf q = (unat (nq_qid q) \<le> 1 \<and> nq_size q = 64 \<and> unat (nq_sq_tail q) < 64 \<and> unat (nq_cq_head q) < 64)"

fun access_ok :: "u64 \<Rightarrow> nvme_queue \<Rightarrow> nvme_io \<Rightarrow> bool" where
  "access_ok hhdm q (Put_sqe a e) = (unat (a - phys_to_virt hhdm (nq_sq_phys q)) + 64 \<le> 4096)"
| "access_ok hhdm q (Get_cqe a e) = (unat (a - phys_to_virt hhdm (nq_cq_phys q)) + 16 \<le> 4096)"
| "access_ok hhdm q (Write32 reg v) = (unat reg + 4 \<le> unat BAR0_MAP_SIZE)"
| "access_ok hhdm q _ = False"

lemma slot_offset:
  assumes "unat (i :: u16) < 64" "n \<le> 64"
  shows "unat (of_nat n * ucast i :: u64) \<le> n * 63"
proof -
  have i: "unat (ucast i :: u64) = unat i" using unat_bound [of i] by (simp add: unsigned_ucast_eq take_bit_nat_eq_self)
  have n: "unat (of_nat n :: u64) = n" using assms(2) by (intro unat_of_nat_small) simp
  have "n * unat i \<le> 64 * 63" using assms by (intro mult_le_mono) auto
  then have "unat (of_nat n * ucast i :: u64) = n * unat i" using i n by (simp add: unat_word_ariths)
  then show ?thesis using assms(1) by simp
qed

lemma next_index:
  fixes i :: u16
  shows "unat ((i + 1) mod 64) < 64"
  by (simp add: unat_mod)

lemma queue_put_get [simp]: "queue_of (put_queue qk q ctrl) qk = Inr q"
  "nc_doorbell_stride (put_queue qk q ctrl) = nc_doorbell_stride ctrl"
  by (cases qk; simp add: queue_of_def put_queue_def)+

lemma poll_loop_bounds:
  assumes "queue_of ctrl qk = Inr q" "queue_wf q" "unat (nc_doorbell_stride ctrl) \<le> 9"
    and "poll_loop D hhdm qk cid n ctrl m = Inr (st, ctrl', m')"
  shows "\<exists>es q'. nm_log m' = nm_log m @ es \<and> list_all (access_ok hhdm q) es \<and>
    queue_of ctrl' qk = Inr q' \<and> queue_wf q' \<and> nc_doorbell_stride ctrl' = nc_doorbell_stride ctrl"
  using assms(4)
proof (induction n arbitrary: m)
  case (Suc n)
  obtain e d where g: "nv_get_cqe D (head_addr hhdm q) (nm_dev m) = (e, d)" by force
  let ?m = "log_io (Get_cqe (head_addr hhdm q) e) d m"
  have cq: "access_ok hhdm q (Get_cqe (head_addr hhdm q) e)"
    using slot_offset [of "nq_cq_head q" 16] assms(2) by (simp add: head_addr_def queue_wf_def)
  have db: "access_ok hhdm q (Write32 (doorbell (nc_doorbell_stride ctrl) (nq_qid q) 1) v)" for v
    using doorbell_offset [of "nq_qid q" 1 "nc_doorbell_stride ctrl"] assms(2, 3)
    by (simp add: queue_wf_def BAR0_MAP_SIZE_def)
  show ?case
  proof (cases "ucast (cq_status e AND 1) = nq_cq_phase q")
    case False
    then have "poll_loop D hhdm qk cid n ctrl ?m = Inr (st, ctrl', m')"
      using Suc.prems assms(1) g by (simp add: poll_loop.simps(2) head_addr_def [symmetric])
    from Suc.IH [OF this] cq show ?thesis by fastforce
  next
    case True
    let ?h = "(nq_cq_head q + 1) mod 64"
    let ?q = "q\<lparr>nq_cq_head := ?h, nq_cq_phase := (if ?h = 0 then nq_cq_phase q XOR 1 else nq_cq_phase q)\<rparr>"
    have sz: "nq_size q = 64" using assms(2) by (simp add: queue_wf_def)
    have "ctrl' = put_queue qk ?q ctrl \<and>
        m' = write32 D (doorbell (nc_doorbell_stride ctrl) (nq_qid q) 1) (ucast ?h) ?m"
      using Suc.prems assms(1) g True sz
      by (auto simp: poll_loop.simps(2) head_addr_def [symmetric] and_then_eq_Inr Let_def)
    moreover have "queue_wf ?q" using assms(2) next_index [of "nq_cq_head q"] by (simp add: queue_wf_def)
    ultimately show ?thesis using cq db by auto
  qed
qed simp

text \<open>
  C30. Every access of the queue paths is in bounds. On a queue that setup\_admin or
  setup\_io\_queue made, with a doorbell stride of at most 9, submit\_qe always returns, and
  submit\_qe and poll\_qe store submissions only inside the frame of the submission queue, load
  completions only inside the frame of the completion queue, and write registers only inside the
  16 KiB of BAR 0 that init maps; and the queue stays such a queue, so this holds for ever.
\<close>
theorem nvme_accesses_in_bounds:
  assumes "queue_of ctrl qk = Inr q" "queue_wf q" "unat (nc_doorbell_stride ctrl) \<le> 9"
  shows "(\<exists>cid ctrl' m' es q'. submit_qe D hhdm qk opc nsid prp1 cdw10 cdw11 cdw12 ctrl m = Inr (cid, ctrl', m') \<and>
      nm_log m' = nm_log m @ es \<and> list_all (access_ok hhdm q) es \<and>
      queue_of ctrl' qk = Inr q' \<and> queue_wf q' \<and> nc_doorbell_stride ctrl' = nc_doorbell_stride ctrl) \<and>
    (poll_qe D hhdm qk cid ctrl m = Inr (st, ctrl', m') \<longrightarrow>
      (\<exists>es q'. nm_log m' = nm_log m @ es \<and> list_all (access_ok hhdm q) es \<and>
       queue_of ctrl' qk = Inr q' \<and> queue_wf q' \<and> nc_doorbell_stride ctrl' = nc_doorbell_stride ctrl))"
proof
  let ?q = "q\<lparr>nq_next_cid := nq_next_cid q + 1, nq_sq_tail := (nq_sq_tail q + 1) mod 64\<rparr>"
  let ?a = "phys_to_virt hhdm (nq_sq_phys q) + 64 * ucast (nq_sq_tail q)"
  have sz: "nq_size q = 64" using assms(2) by (simp add: queue_wf_def)
  have db: "access_ok hhdm q (Write32 (doorbell (nc_doorbell_stride ctrl) (nq_qid q) 0) v)" for v
    using doorbell_offset [of "nq_qid q" 0 "nc_doorbell_stride ctrl"] assms(2, 3)
    by (simp add: queue_wf_def BAR0_MAP_SIZE_def)
  have put: "access_ok hhdm q (Put_sqe ?a e)" for e
    using slot_offset [of "nq_sq_tail q" 64] assms(2) by (simp add: queue_wf_def)
  have wf: "queue_wf ?q" using assms(2) next_index [of "nq_sq_tail q"] by (simp add: queue_wf_def)
  show "\<exists>cid ctrl' m' es q'. submit_qe D hhdm qk opc nsid prp1 cdw10 cdw11 cdw12 ctrl m = Inr (cid, ctrl', m') \<and>
      nm_log m' = nm_log m @ es \<and> list_all (access_ok hhdm q) es \<and>
      queue_of ctrl' qk = Inr q' \<and> queue_wf q' \<and> nc_doorbell_stride ctrl' = nc_doorbell_stride ctrl"
    using assms(1) sz db put wf by (simp add: submit_qe_def Let_def)
  show "poll_qe D hhdm qk cid ctrl m = Inr (st, ctrl', m') \<longrightarrow>
      (\<exists>es q'. nm_log m' = nm_log m @ es \<and> list_all (access_ok hhdm q) es \<and>
       queue_of ctrl' qk = Inr q' \<and> queue_wf q' \<and> nc_doorbell_stride ctrl' = nc_doorbell_stride ctrl)"
    unfolding poll_qe_def by (intro impI poll_loop_bounds [OF assms]) assumption
qed

theorem nvme_accesses_in_bounds_witness:
  "\<exists>cid ctrl' m' es q'. submit_qe toy_dev 0 Admin OPC_IDENTIFY 0 0x3000 CNS_CONTROLLER 0 0
       (toy_ctrl\<lparr>nc_admin := Some toy_queue\<rparr>) (toy_m 1 None) = Inr (cid, ctrl', m') \<and>
      nm_log m' = nm_log (toy_m 1 None) @ es \<and> list_all (access_ok 0 toy_queue) es \<and>
      queue_of ctrl' Admin = Inr q' \<and> queue_wf q' \<and>
      nc_doorbell_stride ctrl' = nc_doorbell_stride (toy_ctrl\<lparr>nc_admin := Some toy_queue\<rparr>)"
  by (rule nvme_accesses_in_bounds [THEN conjunct1])
    (simp_all add: queue_of_def queue_wf_def toy_queue_def new_queue_def toy_ctrl_def)

section \<open>The status check\<close>

text \<open>
  What the status check of the callers accepts. poll\_qe already dropped the phase bit, and the
  callers then mask the lowest bit of the status field once more: the check passes exactly for
  the status fields 0 (success) and 1, the generic status Invalid Command Opcode, so a command the
  controller rejected with that status is taken for a success.
\<close>
theorem status_check_accepts:
  "status_check (drop_bit 1 (cq_status e)) = Inr () \<longleftrightarrow> drop_bit 1 (cq_status e) \<in> {0, 1}"
proof -
  have "(w AND 0xFFFE = 0) = (w \<in> {0, 1})" for w :: u16
  proof -
    have "(0xFFFE :: u16) = NOT (mask 1)" by code_simp
    then have "w AND 0xFFFE = w AND NOT (mask 1)" by (simp only:)
    then have "(w AND 0xFFFE = 0) = (unat (w AND NOT (mask 1)) = 0)" by (simp add: unat_eq_0)
    also have "\<dots> = (unat w < 2)" unfolding unat_and_not_mask by (auto simp: minus_mod_eq_mult_div)
    also have "\<dots> = (w \<in> {0, 1})" by (metis One_nat_def insert_iff less_2_cases_iff singletonD unat_0 unat_1 unat_cancel)
    finally show ?thesis .
  qed
  then show ?thesis by (simp add: status_check_def)
qed

end
