(* ===== verification/VirtioPci.thy ===== *)
theory VirtioPci
  imports Virtqueue Pci
begin

unbundle bit_operations_syntax

text \<open>
  The modern virtio PCI transport and the block driver on top of it: the capability walk, feature
  negotiation, queue activation and notification of arsenal-kernel/src/virtio.rs, and the sector
  read of arsenal-kernel/src/virtio\_blk.rs. The device is hardware, so it is a parameter: a record of what
  a register access returns and does, what the device does to the rings between two polls, and
  what it has stored in the request buffer. Register accesses are recorded in a log.
\<close>

section \<open>Capabilities\<close>

definition PCI_CAP_ID_VENDOR :: u8 where "PCI_CAP_ID_VENDOR = 0x09"
definition VIRTIO_PCI_CAP_COMMON_CFG :: u8 where "VIRTIO_PCI_CAP_COMMON_CFG = 1"
definition VIRTIO_PCI_CAP_NOTIFY_CFG :: u8 where "VIRTIO_PCI_CAP_NOTIFY_CFG = 2"
definition VIRTIO_PCI_CAP_ISR_CFG :: u8 where "VIRTIO_PCI_CAP_ISR_CFG = 3"
definition VIRTIO_PCI_CAP_DEVICE_CFG :: u8 where "VIRTIO_PCI_CAP_DEVICE_CFG = 4"

record virtio_device =
  vd_bus :: u8
  vd_dev :: u8
  vd_func :: u8
  vd_device_id :: u16
  vd_common_cfg :: u64
  vd_notify_base :: u64
  vd_notify_off_multiplier :: u32
  vd_isr :: u64
  vd_device_cfg :: u64

text \<open>The pointers collected so far, and the MMIO ranges handed to paging::map\_mmio.\<close>

record cap_ptrs =
  cp_common :: u64
  cp_notify :: u64
  cp_mult :: u32
  cp_isr :: u64
  cp_device :: u64
  cp_mapped :: "(u64 \<times> u64) list"

definition no_caps :: cap_ptrs where
  "no_caps = \<lparr>cp_common = 0, cp_notify = 0, cp_mult = 0, cp_isr = 0, cp_device = 0, cp_mapped = []\<rparr>"

definition cap_next :: "config_space \<Rightarrow> u8 \<Rightarrow> u8 \<Rightarrow> u8 \<Rightarrow> u8 \<Rightarrow> u8" where
  "cap_next cfg b d f off = ucast (drop_bit 8 (config_read32 cfg b d f off) AND 0xFC)"

text \<open>One round of the loop of try\_resolve.\<close>

definition cap_step :: "config_space \<Rightarrow> u64 \<Rightarrow> u8 \<Rightarrow> u8 \<Rightarrow> u8 \<Rightarrow> u8 \<Rightarrow> cap_ptrs \<Rightarrow> cap_ptrs" where
  "cap_step cfg hhdm b d f off c =
     (let cap_header = config_read32 cfg b d f off;
          cap_id = ucast (cap_header AND 0xFF) :: u8;
          cap_len = ucast (drop_bit 16 cap_header AND 0xFF) :: u8;
          cfg_type = ucast (drop_bit 24 cap_header AND 0xFF) :: u8
      in if cap_id = PCI_CAP_ID_VENDOR \<and> cap_len \<ge> 16
         then let bar = ucast (config_read32 cfg b d f (off + 4) AND 0xFF) :: u8;
                  off_in_bar = config_read32 cfg b d f (off + 8);
                  cap_length = config_read32 cfg b d f (off + 12);
                  bar_phys = bar_address cfg b d f bar;
                  cap_phys = bar_phys + ucast off_in_bar;
                  c = (if cap_length > 0 then c\<lparr>cp_mapped := cp_mapped c @ [(cap_phys, ucast cap_length)]\<rparr> else c);
                  virt = cap_phys + hhdm
              in if cfg_type = VIRTIO_PCI_CAP_COMMON_CFG then c\<lparr>cp_common := virt\<rparr>
                 else if cfg_type = VIRTIO_PCI_CAP_NOTIFY_CFG
                 then c\<lparr>cp_notify := virt, cp_mult := config_read32 cfg b d f (off + 16)\<rparr>
                 else if cfg_type = VIRTIO_PCI_CAP_ISR_CFG then c\<lparr>cp_isr := virt\<rparr>
                 else if cfg_type = VIRTIO_PCI_CAP_DEVICE_CFG then c\<lparr>cp_device := virt\<rparr>
                 else c
         else c)"

text \<open>The loop has no bound; a walk that never reaches offset 0 is the value \<^term>\<open>None\<close>.\<close>

partial_function (option) cap_walk ::
    "config_space \<Rightarrow> u64 \<Rightarrow> u8 \<Rightarrow> u8 \<Rightarrow> u8 \<Rightarrow> u8 \<Rightarrow> cap_ptrs \<Rightarrow> cap_ptrs option" where
  [code]: "cap_walk cfg hhdm b d f off c =
     (if off = 0 then Some c
      else cap_walk cfg hhdm b d f (cap_next cfg b d f off) (cap_step cfg hhdm b d f off c))"

definition try_resolve ::
    "config_space \<Rightarrow> u64 \<Rightarrow> u8 \<Rightarrow> u8 \<Rightarrow> u8 \<Rightarrow> u16 \<Rightarrow> virtio_device option option" where
  "try_resolve cfg hhdm b d f want =
     (let ident = config_read32 cfg b d f 0x00;
          device_id = ucast (drop_bit 16 ident AND 0xFFFF) :: u16
      in if (ucast (ident AND 0xFFFF) :: u16) \<noteq> VIRTIO_VENDOR then Some None
         else if device_id \<noteq> want then Some None
         else if drop_bit 16 (config_read32 cfg b d f 0x04) AND 0x10 = 0 then Some None
         else map_option (\<lambda>c.
                if cp_common c = 0 \<or> cp_notify c = 0 \<or> cp_device c = 0 then None
                else Some \<lparr>vd_bus = b, vd_dev = d, vd_func = f, vd_device_id = device_id,
                       vd_common_cfg = cp_common c, vd_notify_base = cp_notify c,
                       vd_notify_off_multiplier = cp_mult c, vd_isr = cp_isr c, vd_device_cfg = cp_device c\<rparr>)
              (cap_walk cfg hhdm b d f (ucast (config_read32 cfg b d f 0x34 AND 0xFC)) no_caps))"

text \<open>A search loop whose test may not return.\<close>

fun first_found :: "('a \<Rightarrow> 'b option option) \<Rightarrow> 'a list \<Rightarrow> 'b option option" where
  "first_found f [] = Some None"
| "first_found f (x # xs) =
     (case f x of None \<Rightarrow> None | Some (Some y) \<Rightarrow> Some (Some y) | Some None \<Rightarrow> first_found f xs)"

definition find_in_device ::
    "config_space \<Rightarrow> u64 \<Rightarrow> u16 \<Rightarrow> u8 \<Rightarrow> u8 \<Rightarrow> virtio_device option option" where
  "find_in_device cfg hhdm device_id b d =
     (case try_resolve cfg hhdm b d 0 device_id of
        None \<Rightarrow> None
      | Some (Some v) \<Rightarrow> Some (Some v)
      | Some None \<Rightarrow>
          if drop_bit 16 (config_read32 cfg b d 0 0x0C) AND 0x80 \<noteq> 0
          then first_found (\<lambda>f. try_resolve cfg hhdm b d f device_id) [1, 2, 3, 4, 5, 6, 7]
          else Some None)"

definition find_device :: "config_space \<Rightarrow> u64 \<Rightarrow> u16 \<Rightarrow> virtio_device option option" where
  "find_device cfg hhdm device_id =
     first_found (\<lambda>b. first_found (find_in_device cfg hhdm device_id b) (map of_nat [0..<32]))
       (map of_nat [0..<256])"

section \<open>The transport\<close>

definition CC_DEVICE_FEATURE_SELECT :: usize where "CC_DEVICE_FEATURE_SELECT = 0x00"
definition CC_DEVICE_FEATURE :: usize where "CC_DEVICE_FEATURE = 0x04"
definition CC_DRIVER_FEATURE_SELECT :: usize where "CC_DRIVER_FEATURE_SELECT = 0x08"
definition CC_DRIVER_FEATURE :: usize where "CC_DRIVER_FEATURE = 0x0C"
definition CC_DEVICE_STATUS :: usize where "CC_DEVICE_STATUS = 0x14"
definition CC_QUEUE_SELECT :: usize where "CC_QUEUE_SELECT = 0x16"
definition CC_QUEUE_SIZE :: usize where "CC_QUEUE_SIZE = 0x18"
definition CC_QUEUE_ENABLE :: usize where "CC_QUEUE_ENABLE = 0x1C"
definition CC_QUEUE_NOTIFY_OFF :: usize where "CC_QUEUE_NOTIFY_OFF = 0x1E"
definition CC_QUEUE_DESC :: usize where "CC_QUEUE_DESC = 0x20"
definition CC_QUEUE_DRIVER :: usize where "CC_QUEUE_DRIVER = 0x28"
definition CC_QUEUE_DEVICE :: usize where "CC_QUEUE_DEVICE = 0x30"
definition STATUS_ACKNOWLEDGE :: u8 where "STATUS_ACKNOWLEDGE = 1"
definition STATUS_DRIVER :: u8 where "STATUS_DRIVER = 2"
definition STATUS_DRIVER_OK :: u8 where "STATUS_DRIVER_OK = 4"
definition STATUS_FEATURES_OK :: u8 where "STATUS_FEATURES_OK = 8"
definition VIRTIO_F_VERSION_1 :: u32 where "VIRTIO_F_VERSION_1 = 1"

record 'd virtio_hw =
  vh_read :: "u64 \<Rightarrow> 'd \<Rightarrow> u64 \<times> 'd" \<comment> \<open>value of a load at an address, zero-extended\<close>
  vh_write :: "u64 \<Rightarrow> u64 \<Rightarrow> 'd \<Rightarrow> 'd"
  vh_run :: "virtqueue \<Rightarrow> 'd \<Rightarrow> virtqueue \<times> 'd" \<comment> \<open>what the device does to the rings before a poll\<close>
  vh_byte :: "u64 \<Rightarrow> 'd \<Rightarrow> u8" \<comment> \<open>a byte of memory the device can write\<close>

datatype cc_io = CC_read u64 nat u64 | CC_write u64 nat u64 \<comment> \<open>address, width in bits, value\<close>

record 'd virtio_m =
  vm_dev :: 'd
  vm_log :: "cc_io list"

definition cc_read8 :: "'d virtio_hw \<Rightarrow> u64 \<Rightarrow> usize \<Rightarrow> 'd virtio_m \<Rightarrow> u8 \<times> 'd virtio_m" where
  "cc_read8 D common off m = (let (v, d) = vh_read D (common + off) (vm_dev m); v = ucast v :: u8
     in (v, \<lparr>vm_dev = d, vm_log = vm_log m @ [CC_read (common + off) 8 (ucast v)]\<rparr>))"

definition cc_read16 :: "'d virtio_hw \<Rightarrow> u64 \<Rightarrow> usize \<Rightarrow> 'd virtio_m \<Rightarrow> u16 \<times> 'd virtio_m" where
  "cc_read16 D common off m = (let (v, d) = vh_read D (common + off) (vm_dev m); v = ucast v :: u16
     in (v, \<lparr>vm_dev = d, vm_log = vm_log m @ [CC_read (common + off) 16 (ucast v)]\<rparr>))"

definition cc_read32 :: "'d virtio_hw \<Rightarrow> u64 \<Rightarrow> usize \<Rightarrow> 'd virtio_m \<Rightarrow> u32 \<times> 'd virtio_m" where
  "cc_read32 D common off m = (let (v, d) = vh_read D (common + off) (vm_dev m); v = ucast v :: u32
     in (v, \<lparr>vm_dev = d, vm_log = vm_log m @ [CC_read (common + off) 32 (ucast v)]\<rparr>))"

definition cc_write :: "'d virtio_hw \<Rightarrow> nat \<Rightarrow> u64 \<Rightarrow> u64 \<Rightarrow> 'd virtio_m \<Rightarrow> 'd virtio_m" where
  "cc_write D w a v m = \<lparr>vm_dev = vh_write D a v (vm_dev m), vm_log = vm_log m @ [CC_write a w v]\<rparr>"

definition cc_write8 :: "'d virtio_hw \<Rightarrow> u64 \<Rightarrow> usize \<Rightarrow> u8 \<Rightarrow> 'd virtio_m \<Rightarrow> 'd virtio_m" where
  "cc_write8 D common off v m = cc_write D 8 (common + off) (ucast v) m"

definition cc_write16 :: "'d virtio_hw \<Rightarrow> u64 \<Rightarrow> usize \<Rightarrow> u16 \<Rightarrow> 'd virtio_m \<Rightarrow> 'd virtio_m" where
  "cc_write16 D common off v m = cc_write D 16 (common + off) (ucast v) m"

definition cc_write32 :: "'d virtio_hw \<Rightarrow> u64 \<Rightarrow> usize \<Rightarrow> u32 \<Rightarrow> 'd virtio_m \<Rightarrow> 'd virtio_m" where
  "cc_write32 D common off v m = cc_write D 32 (common + off) (ucast v) m"

definition cc_write64 :: "'d virtio_hw \<Rightarrow> u64 \<Rightarrow> usize \<Rightarrow> u64 \<Rightarrow> 'd virtio_m \<Rightarrow> 'd virtio_m" where
  "cc_write64 D common off v m = cc_write D 64 (common + off) v m"

text \<open>The bounded wait for the reset to take effect; it goes on after 16 reads in any case.\<close>

fun reset_wait :: "'d virtio_hw \<Rightarrow> u64 \<Rightarrow> nat \<Rightarrow> 'd virtio_m \<Rightarrow> 'd virtio_m" where
  "reset_wait D common 0 m = m"
| "reset_wait D common (Suc n) m =
     (let (v, m) = cc_read8 D common CC_DEVICE_STATUS m in if v = 0 then m else reset_wait D common n m)"

definition init_transport ::
    "'d virtio_hw \<Rightarrow> virtio_device \<Rightarrow> u64 \<Rightarrow> 'd virtio_m \<Rightarrow> (u64 \<times> 'd virtio_m) outcome" where
  "init_transport D v driver_features m =
     (let cc = vd_common_cfg v;
          m = cc_write8 D cc CC_DEVICE_STATUS 0 m;
          m = reset_wait D cc 16 m;
          m = cc_write8 D cc CC_DEVICE_STATUS STATUS_ACKNOWLEDGE m;
          m = cc_write8 D cc CC_DEVICE_STATUS (STATUS_ACKNOWLEDGE OR STATUS_DRIVER) m;
          m = cc_write32 D cc CC_DEVICE_FEATURE_SELECT 0 m;
          (dev_lo, m) = cc_read32 D cc CC_DEVICE_FEATURE m;
          m = cc_write32 D cc CC_DEVICE_FEATURE_SELECT 1 m;
          (dev_hi, m) = cc_read32 D cc CC_DEVICE_FEATURE m;
          device_features = push_bit 32 (ucast dev_hi) OR ucast dev_lo;
          drv_lo = ucast (driver_features AND 0xFFFFFFFF) :: u32;
          drv_hi = ucast (drop_bit 32 driver_features) :: u32;
          m = cc_write32 D cc CC_DRIVER_FEATURE_SELECT 0 m;
          m = cc_write32 D cc CC_DRIVER_FEATURE drv_lo m;
          m = cc_write32 D cc CC_DRIVER_FEATURE_SELECT 1 m;
          m = cc_write32 D cc CC_DRIVER_FEATURE drv_hi m;
          m = cc_write8 D cc CC_DEVICE_STATUS (STATUS_ACKNOWLEDGE OR STATUS_DRIVER OR STATUS_FEATURES_OK) m;
          (after, m) = cc_read8 D cc CC_DEVICE_STATUS m
      in and_then (rust_assert (after AND STATUS_FEATURES_OK = STATUS_FEATURES_OK)) (\<lambda>_.
           Inr (device_features, m)))"

definition activate_queue ::
    "'d virtio_hw \<Rightarrow> virtio_device \<Rightarrow> u16 \<Rightarrow> virtqueue \<Rightarrow> 'd virtio_m \<Rightarrow> (u64 \<times> 'd virtio_m) outcome" where
  "activate_queue D v idx q m =
     (let cc = vd_common_cfg v;
          m = cc_write16 D cc CC_QUEUE_SELECT idx m;
          (mx, m) = cc_read16 D cc CC_QUEUE_SIZE m
      in and_then (rust_assert (mx \<ge> qsize q)) (\<lambda>_.
         let m = cc_write16 D cc CC_QUEUE_SIZE (qsize q) m;
             m = cc_write64 D cc CC_QUEUE_DESC (desc_phys q) m;
             m = cc_write64 D cc CC_QUEUE_DRIVER (avail_phys q) m;
             m = cc_write64 D cc CC_QUEUE_DEVICE (used_phys q) m;
             (queue_notify_off, m) = cc_read16 D cc CC_QUEUE_NOTIFY_OFF m;
             notify_off = ucast queue_notify_off * ucast (vd_notify_off_multiplier v);
             notify_ptr = vd_notify_base v + notify_off;
             m = cc_write16 D cc CC_QUEUE_ENABLE 1 m
         in Inr (notify_ptr, m)))"

definition set_driver_ok :: "'d virtio_hw \<Rightarrow> virtio_device \<Rightarrow> 'd virtio_m \<Rightarrow> 'd virtio_m" where
  "set_driver_ok D v m =
     cc_write8 D (vd_common_cfg v) CC_DEVICE_STATUS
       (STATUS_ACKNOWLEDGE OR STATUS_DRIVER OR STATUS_FEATURES_OK OR STATUS_DRIVER_OK) m"

definition notify :: "'d virtio_hw \<Rightarrow> u64 \<Rightarrow> u16 \<Rightarrow> 'd virtio_m \<Rightarrow> 'd virtio_m" where
  "notify D notify_ptr queue_idx m = cc_write D 16 notify_ptr (ucast queue_idx) m"

section \<open>The block driver\<close>

definition VIRTIO_BLK_DEVICE_ID :: u16 where "VIRTIO_BLK_DEVICE_ID = 0x1001"
definition VIRTIO_BLK_S_OK :: u8 where "VIRTIO_BLK_S_OK = 0"
definition QUEUE_SIZE :: u16 where "QUEUE_SIZE = 16"
definition SECTOR_SIZE :: u64 where "SECTOR_SIZE = 512"

text \<open>The request is one heap object: a 16-byte header, the data and the status byte.\<close>

definition blk_parts :: "u64 \<Rightarrow> u64 \<Rightarrow> part list" where
  "blk_parts hhdm req_virt =
     (let header_phys = req_virt - hhdm;
          data_phys = (req_virt + 16) - hhdm;
          status_phys = (req_virt + 16 + SECTOR_SIZE) - hhdm
      in [(header_phys, 16, 0), (data_phys, ucast SECTOR_SIZE, VIRTQ_DESC_F_WRITE),
          (status_phys, 1, VIRTQ_DESC_F_WRITE)])"

fun blk_poll ::
    "'d virtio_hw \<Rightarrow> nat \<Rightarrow> virtqueue \<Rightarrow> 'd \<Rightarrow> (virtq_used_elem \<times> virtqueue \<times> 'd) outcome option" where
  "blk_poll D 0 q d = Some (Inl Panic)"
| "blk_poll D (Suc n) q d =
     (let (q, d) = vh_run D q d
      in case pop_used q of
           None \<Rightarrow> None
         | Some (Inl e) \<Rightarrow> Some (Inl e)
         | Some (Inr (Some elem, q)) \<Rightarrow> Some (Inr (elem, q, d))
         | Some (Inr (None, q)) \<Rightarrow> blk_poll D n q d)"

definition blk_bring_up ::
    "'d virtio_hw \<Rightarrow> phys_frame_ctor \<Rightarrow> virtio_device \<Rightarrow> frame_allocator \<Rightarrow> 'd virtio_m \<Rightarrow>
     (u64 \<times> virtqueue \<times> frame_allocator \<times> 'd virtio_m) outcome" where
  "blk_bring_up D pf v fa m =
     (let driver_features = push_bit 32 (ucast VIRTIO_F_VERSION_1) in
      and_then (init_transport D v driver_features m) (\<lambda>(device_features, m).
      and_then (virtq_new pf fa QUEUE_SIZE) (\<lambda>(q, fa).
      and_then (activate_queue D v 0 q m) (\<lambda>(notify_ptr, m).
      Inr (notify_ptr, q, fa, set_driver_ok D v m)))))"

definition blk_smoke ::
    "'d virtio_hw \<Rightarrow> phys_frame_ctor \<Rightarrow> config_space \<Rightarrow> u64 \<Rightarrow> u64 \<Rightarrow> frame_allocator \<Rightarrow> 'd virtio_m \<Rightarrow>
     (virtqueue option \<times> frame_allocator \<times> 'd virtio_m) outcome option" where
  "blk_smoke D pf cfg hhdm req_virt fa m =
     (case find_device cfg hhdm VIRTIO_BLK_DEVICE_ID of
        None \<Rightarrow> None
      | Some None \<Rightarrow> Some (Inr (None, fa, m))
      | Some (Some v) \<Rightarrow>
          (case blk_bring_up D pf v fa m of
             Inl e \<Rightarrow> Some (Inl e)
           | Inr (notify_ptr, q, fa, m) \<Rightarrow>
               (case and_then (push_chain q (blk_parts hhdm req_virt)) (\<lambda>(h, q).
                     and_then (expect h) (\<lambda>_. Inr q)) of
                  Inl e \<Rightarrow> Some (Inl e)
                | Inr q \<Rightarrow>
                    (let m = notify D notify_ptr 0 m
                     in case blk_poll D 1000001 q (vm_dev m) of
                          None \<Rightarrow> None
                        | Some (Inl e) \<Rightarrow> Some (Inl e)
                        | Some (Inr (elem, q, d)) \<Rightarrow>
                            (let status = vh_byte D (req_virt + 16 + SECTOR_SIZE) d;
                                 b510 = vh_byte D (req_virt + 16 + 510) d;
                                 b511 = vh_byte D (req_virt + 16 + 511) d;
                                 sig = of_nat (le_nat [b510, b511]) :: u16
                             in Some (and_then (rust_assert (status = VIRTIO_BLK_S_OK)) (\<lambda>_.
                                      and_then (rust_assert (sig = 0xAA55)) (\<lambda>_.
                                      Inr (Some q, virtq_drop fa q, m\<lparr>vm_dev := d\<rparr>)))))))))"


section \<open>When the capability walk returns\<close>

text \<open>The offsets the walk visits from an offset on, if it ends.\<close>

fun cap_chain :: "config_space \<Rightarrow> u8 \<Rightarrow> u8 \<Rightarrow> u8 \<Rightarrow> u8 \<Rightarrow> u8 list \<Rightarrow> bool" where
  "cap_chain cfg b d f off [] = (off = 0)"
| "cap_chain cfg b d f off (x # xs) = (off = x \<and> x \<noteq> 0 \<and> cap_chain cfg b d f (cap_next cfg b d f x) xs)"

lemma cap_walk_chain:
  "cap_chain cfg b d f off offs \<Longrightarrow>
     cap_walk cfg hhdm b d f off c = Some (fold (cap_step cfg hhdm b d f) offs c)"
  by (induction offs arbitrary: off c) (simp_all add: cap_walk.simps)

lemma cap_walk_chainD:
  "cap_walk cfg hhdm b d f off c = Some r \<Longrightarrow> \<exists>offs. cap_chain cfg b d f off offs"
proof (induction arbitrary: rule: cap_walk.raw_induct [rotated 1, consumes 1])
  case (1 walk cfg hhdm b d f off c r)
  show ?case
  proof (cases "off = 0")
    case True then show ?thesis by (intro exI [of _ "[]"]) simp
  next
    case False
    then obtain offs where "cap_chain cfg b d f (cap_next cfg b d f off) offs"
      using 1(1) [of cfg hhdm b d f "cap_next cfg b d f off"] 1(2) by auto
    then show ?thesis using False by (intro exI [of _ "off # offs"]) simp
  qed
qed

lemma cap_chain_unique: "cap_chain cfg b d f off xs \<Longrightarrow> cap_chain cfg b d f off ys \<Longrightarrow> xs = ys"
proof (induction xs arbitrary: off ys)
  case Nil then show ?case by (cases ys) auto
next
  case (Cons x xs) then show ?case by (cases ys) auto
qed

lemma cap_chain_suffix: "cap_chain cfg b d f off (us @ x # vs) \<Longrightarrow> cap_chain cfg b d f x (x # vs)"
  by (induction us arbitrary: off) auto

lemma cap_chain_distinct:
  assumes "cap_chain cfg b d f off offs"
  shows "distinct offs"
proof (rule ccontr)
  assume "\<not> distinct offs"
  then obtain us x vs ws where o: "offs = us @ [x] @ vs @ [x] @ ws" using not_distinct_decomp by blast
  have "cap_chain cfg b d f x (x # vs @ x # ws)"
    using cap_chain_suffix [of cfg b d f off us x "vs @ x # ws"] assms o by simp
  moreover have "cap_chain cfg b d f x (x # ws)"
    using cap_chain_suffix [of cfg b d f off "us @ x # vs" x ws] assms o by simp
  ultimately have "x # vs @ x # ws = x # ws" by (rule cap_chain_unique)
  then have "length (vs @ x # ws) = length ws" by simp
  then show False by simp
qed

definition cap_offsets :: "u8 set" where
  "cap_offsets = (\<lambda>i. of_nat (4 * i)) ` {1..<64}"

lemma masked_offset: "(w :: u8) = v AND 0xFC \<Longrightarrow> w \<noteq> 0 \<Longrightarrow> w \<in> cap_offsets"
proof -
  assume w: "w = v AND 0xFC" "w \<noteq> 0"
  have c: "(0xFC :: u8) = NOT (mask 2)" by code_simp
  have "unat w = unat v - unat v mod 4" using unat_and_not_mask [of v 2] by (simp add: w(1) c)
  then have q: "unat w = 4 * (unat v div 4)" by (simp add: minus_mod_eq_mult_div)
  have "unat v < 256" using unat_bound [of v] by simp
  then have "unat v div 4 < 64" by simp
  moreover have "0 < unat v div 4" using q w(2) by (metis gr0I mult_0_right unat_eq_0)
  moreover have "w = of_nat (4 * (unat v div 4))" using q by (metis of_nat_unat_word)
  ultimately show ?thesis unfolding cap_offsets_def by force
qed

lemma ucast_mask: "(ucast (x AND 0xFC :: u32) :: u8) = ucast x AND 0xFC"
  by (rule bit_eqI) (simp add: bit_simps)

lemma cap_next_range: "cap_next cfg b d f off \<noteq> 0 \<Longrightarrow> cap_next cfg b d f off \<in> cap_offsets"
  unfolding cap_next_def ucast_mask by (rule masked_offset [OF refl])

lemma cap_chain_range:
  "cap_chain cfg b d f off offs \<Longrightarrow> off = 0 \<or> off \<in> cap_offsets \<Longrightarrow> set offs \<subseteq> cap_offsets"
proof (induction offs arbitrary: off)
  case (Cons x xs)
  then show ?case using cap_next_range [of cfg b d f x] by auto
qed simp

lemma card_cap_offsets: "card cap_offsets \<le> 63"
  unfolding cap_offsets_def by (rule order_trans [OF card_image_le]) simp_all


text \<open>A device with a common, a notify and a device capability at 0x40, 0x50 and 0x64.\<close>

definition caps_cfg :: config_space where
  "caps_cfg = (\<lambda>a.
     if a = config_addr 0 3 0 0x40 then 0x01105009
     else if a = config_addr 0 3 0 0x50 then 0x02146409
     else if a = config_addr 0 3 0 0x64 then 0x04100009
     else 0)"


section \<open>The order of the bring-up\<close>

lemma cc_write_log [simp]:
  "vm_log (cc_write8 D c off v8 m) = vm_log m @ [CC_write (c + off) 8 (ucast v8)]"
  "vm_log (cc_write16 D c off v16 m) = vm_log m @ [CC_write (c + off) 16 (ucast v16)]"
  "vm_log (cc_write32 D c off v32 m) = vm_log m @ [CC_write (c + off) 32 (ucast v32)]"
  "vm_log (cc_write64 D c off v64 m) = vm_log m @ [CC_write (c + off) 64 v64]"
  by (simp_all add: cc_write8_def cc_write16_def cc_write32_def cc_write64_def cc_write_def)

lemma cc_read8_log: "cc_read8 D c off m = (v, m') \<Longrightarrow> vm_log m' = vm_log m @ [CC_read (c + off) 8 (ucast v)]"
  by (auto simp: cc_read8_def Let_def split: prod.splits)

lemma cc_read16_log: "cc_read16 D c off m = (v, m') \<Longrightarrow> vm_log m' = vm_log m @ [CC_read (c + off) 16 (ucast v)]"
  by (auto simp: cc_read16_def Let_def split: prod.splits)

lemma cc_read32_log: "cc_read32 D c off m = (v, m') \<Longrightarrow> vm_log m' = vm_log m @ [CC_read (c + off) 32 (ucast v)]"
  by (auto simp: cc_read32_def Let_def split: prod.splits)

lemma reset_wait_log:
  "\<exists>vs. vm_log (reset_wait D c n m) = vm_log m @ map (CC_read (c + CC_DEVICE_STATUS) 8) vs \<and> length vs \<le> n"
proof (induction n arbitrary: m)
  case (Suc n)
  obtain v m1 where r: "cc_read8 D c CC_DEVICE_STATUS m = (v, m1)" by force
  note l = cc_read8_log [OF r]
  obtain vs where vs: "vm_log (reset_wait D c n m1) = vm_log m1 @ map (CC_read (c + CC_DEVICE_STATUS) 8) vs" "length vs \<le> n"
    using Suc.IH by blast
  show ?case
    using r l vs by (intro exI [of _ "if v = 0 then [ucast v] else ucast v # vs"]) simp
qed simp

text \<open>The accesses of a feature negotiation and of a queue activation.\<close>

definition negotiation_log :: "u64 \<Rightarrow> u64 \<Rightarrow> u64 list \<Rightarrow> u32 \<Rightarrow> u32 \<Rightarrow> u8 \<Rightarrow> cc_io list" where
  "negotiation_log c feats resets lo hi after =
     [CC_write (c + 0x14) 8 0] @ map (CC_read (c + 0x14) 8) resets @
     [CC_write (c + 0x14) 8 1, CC_write (c + 0x14) 8 3,
      CC_write c 32 0, CC_read (c + 0x04) 32 (ucast lo), CC_write c 32 1, CC_read (c + 0x04) 32 (ucast hi),
      CC_write (c + 0x08) 32 0, CC_write (c + 0x0C) 32 (feats AND mask 32),
      CC_write (c + 0x08) 32 1, CC_write (c + 0x0C) 32 (drop_bit 32 feats),
      CC_write (c + 0x14) 8 11, CC_read (c + 0x14) 8 (ucast after)]"

definition activation_log :: "u64 \<Rightarrow> u16 \<Rightarrow> virtqueue \<Rightarrow> u16 \<Rightarrow> u16 \<Rightarrow> cc_io list" where
  "activation_log c idx q mx off =
     [CC_write (c + 0x16) 16 (ucast idx), CC_read (c + 0x18) 16 (ucast mx), CC_write (c + 0x18) 16 (ucast (qsize q)),
      CC_write (c + 0x20) 64 (desc_phys q), CC_write (c + 0x28) 64 (avail_phys q), CC_write (c + 0x30) 64 (used_phys q),
      CC_read (c + 0x1E) 16 (ucast off), CC_write (c + 0x1C) 16 1]"

lemmas cc_offsets = CC_DEVICE_FEATURE_SELECT_def CC_DEVICE_FEATURE_def CC_DRIVER_FEATURE_SELECT_def
  CC_DRIVER_FEATURE_def CC_DEVICE_STATUS_def CC_QUEUE_SELECT_def CC_QUEUE_SIZE_def CC_QUEUE_ENABLE_def
  CC_QUEUE_NOTIFY_OFF_def CC_QUEUE_DESC_def CC_QUEUE_DRIVER_def CC_QUEUE_DEVICE_def

lemmas status_bits = STATUS_ACKNOWLEDGE_def STATUS_DRIVER_def STATUS_DRIVER_OK_def STATUS_FEATURES_OK_def

lemma feature_halves:
  fixes x :: u64
  shows "ucast (ucast (x AND 0xFFFFFFFF) :: u32) = x AND mask 32"
    "ucast (ucast (drop_bit 32 x) :: u32) = drop_bit 32 x"
proof -
  have m: "(0xFFFFFFFF :: u64) = mask 32" by (simp add: mask_eq_exp_minus_1)
  show "ucast (ucast (x AND 0xFFFFFFFF) :: u32) = x AND mask 32"
    unfolding m by (rule bit_eqI) (auto simp: bit_simps)
  show "ucast (ucast (drop_bit 32 x) :: u32) = drop_bit 32 x"
    by (rule bit_eqI) (auto simp: bit_simps dest: bit_imp_le_length)
qed

lemma init_transport_log:
  assumes "init_transport D v feats m = Inr (df, m')"
  shows "\<exists>resets lo hi after. vm_log m' = vm_log m @ negotiation_log (vd_common_cfg v) feats resets lo hi after \<and>
    length resets \<le> 16 \<and> after AND 8 = 8 \<and> df = push_bit 32 (ucast hi) OR ucast lo"
proof -
  let ?c = "vd_common_cfg v"
  define m1 where "m1 = reset_wait D ?c 16 (cc_write8 D ?c CC_DEVICE_STATUS 0 m)"
  obtain vs where vs: "vm_log m1 = vm_log m @ [CC_write (?c + 0x14) 8 0] @ map (CC_read (?c + 0x14) 8) vs" "length vs \<le> 16"
    using reset_wait_log [of D ?c 16 "cc_write8 D ?c CC_DEVICE_STATUS 0 m"] unfolding m1_def
    by (auto simp: cc_offsets)
  define m2 where "m2 = cc_write32 D ?c CC_DEVICE_FEATURE_SELECT 0
    (cc_write8 D ?c CC_DEVICE_STATUS (STATUS_ACKNOWLEDGE OR STATUS_DRIVER) (cc_write8 D ?c CC_DEVICE_STATUS STATUS_ACKNOWLEDGE m1))"
  obtain lo m3 where r3: "cc_read32 D ?c CC_DEVICE_FEATURE m2 = (lo, m3)" by force
  obtain hi m4 where r4: "cc_read32 D ?c CC_DEVICE_FEATURE (cc_write32 D ?c CC_DEVICE_FEATURE_SELECT 1 m3) = (hi, m4)" by force
  define m5 where "m5 = cc_write8 D ?c CC_DEVICE_STATUS (STATUS_ACKNOWLEDGE OR STATUS_DRIVER OR STATUS_FEATURES_OK)
    (cc_write32 D ?c CC_DRIVER_FEATURE (ucast (drop_bit 32 feats)) (cc_write32 D ?c CC_DRIVER_FEATURE_SELECT 1
    (cc_write32 D ?c CC_DRIVER_FEATURE (ucast (feats AND 0xFFFFFFFF)) (cc_write32 D ?c CC_DRIVER_FEATURE_SELECT 0 m4))))"
  obtain af m6 where r6: "cc_read8 D ?c CC_DEVICE_STATUS m5 = (af, m6)" by force
  have e: "af AND STATUS_FEATURES_OK = STATUS_FEATURES_OK" "df = push_bit 32 (ucast hi) OR ucast lo" "m' = m6"
    using assms r3 r4 r6
    by (auto simp: init_transport_def Let_def m1_def [symmetric] m2_def [symmetric] m5_def [symmetric] and_then_eq_Inr)
  have "vm_log m' = vm_log m @ negotiation_log ?c feats vs lo hi af"
    using cc_read32_log [OF r3] cc_read32_log [OF r4] cc_read8_log [OF r6] vs(1) e(3)
    by (simp add: m2_def m5_def negotiation_log_def cc_offsets status_bits feature_halves)
  then show ?thesis using vs(2) e by (auto simp: status_bits)
qed

lemma activate_queue_log:
  assumes "activate_queue D v idx q m = Inr (np, m')"
  shows "\<exists>mx off. vm_log m' = vm_log m @ activation_log (vd_common_cfg v) idx q mx off \<and> qsize q \<le> mx \<and>
    np = vd_notify_base v + ucast off * ucast (vd_notify_off_multiplier v)"
proof -
  let ?c = "vd_common_cfg v"
  obtain mx m1 where r1: "cc_read16 D ?c CC_QUEUE_SIZE (cc_write16 D ?c CC_QUEUE_SELECT idx m) = (mx, m1)" by force
  define m2 where "m2 = cc_write64 D ?c CC_QUEUE_DEVICE (used_phys q) (cc_write64 D ?c CC_QUEUE_DRIVER (avail_phys q)
    (cc_write64 D ?c CC_QUEUE_DESC (desc_phys q) (cc_write16 D ?c CC_QUEUE_SIZE (qsize q) m1)))"
  obtain off m3 where r3: "cc_read16 D ?c CC_QUEUE_NOTIFY_OFF m2 = (off, m3)" by force
  have e: "qsize q \<le> mx" "np = vd_notify_base v + ucast off * ucast (vd_notify_off_multiplier v)"
    "m' = cc_write16 D ?c CC_QUEUE_ENABLE 1 m3"
    using assms r1 r3 by (auto simp: activate_queue_def Let_def m2_def [symmetric] and_then_eq_Inr)
  have "vm_log m' = vm_log m @ activation_log ?c idx q mx off"
    using cc_read16_log [OF r1] cc_read16_log [OF r3] e(3)
    by (simp add: m2_def activation_log_def cc_offsets)
  then show ?thesis using e by blast
qed

text \<open>
  The bring-up of a virtio device, for every device whatsoever. If the block driver's bring-up
  returns, its accesses to the device were exactly: reset and at most 16 status reads, then
  ACKNOWLEDGE, DRIVER, both halves of the feature exchange (the driver asks for VERSION\_1 only),
  FEATURES\_OK and the read that confirms it; then queue 0 is selected, found to hold at least 16
  entries, given the three ring addresses, which all lie in one frame taken from the pool, and enabled; and
  only after that DRIVER\_OK is set.
\<close>
theorem blk_bring_up_order:
  assumes "blk_bring_up D pf v fa m = Inr (np, q, fa', m')"
  shows "\<exists>resets lo hi after mx off phys.
    vm_log m' = vm_log m @ negotiation_log (vd_common_cfg v) 0x100000000 resets lo hi after @
      activation_log (vd_common_cfg v) 0 q mx off @ [CC_write (vd_common_cfg v + 0x14) 8 15] \<and>
    length resets \<le> 16 \<and> after AND 8 = 8 \<and> 16 \<le> mx \<and> qsize q = 16 \<and>
    free fa = free fa' @ [last (free fa)] \<and> pf (last (free fa)) = Inr phys \<and>
    desc_phys q = phys \<and> avail_phys q = phys + 256 \<and> used_phys q = phys + 292 \<and>
    np = vd_notify_base v + ucast off * ucast (vd_notify_off_multiplier v)"
proof -
  obtain df m1 fa1 m2 where
    i: "init_transport D v 0x100000000 m = Inr (df, m1)" and n: "virtq_new pf fa 16 = Inr (q, fa')" and
    a: "activate_queue D v 0 q m1 = Inr (np, m2)" and m': "m' = set_driver_ok D v m2"
    using assms by (auto simp: blk_bring_up_def and_then_eq_Inr VIRTIO_F_VERSION_1_def QUEUE_SIZE_def)
  obtain phys where q: "free fa \<noteq> []" "pf (last (free fa)) = Inr phys" "free fa' = butlast (free fa)"
    "qsize q = 16" "desc_phys q = phys" "avail_phys q = phys + desc_size 16" "used_phys q = phys + used_offset 16"
    using n by (auto simp: virtq_new_def and_then_eq_Inr alloc_frame_def split: if_splits)
  have off: "desc_size 16 = 256" "used_offset 16 = 292" by code_simp+
  have "free fa = free fa' @ [last (free fa)]" using q(1, 3) by simp
  moreover obtain resets lo hi after where
    l1: "vm_log m1 = vm_log m @ negotiation_log (vd_common_cfg v) 0x100000000 resets lo hi after"
      "length resets \<le> 16" "after AND 8 = 8"
    using init_transport_log [OF i] by blast
  moreover obtain mx off where
    l2: "vm_log m2 = vm_log m1 @ activation_log (vd_common_cfg v) 0 q mx off" "qsize q \<le> mx"
      "np = vd_notify_base v + ucast off * ucast (vd_notify_off_multiplier v)"
    using activate_queue_log [OF a] by blast
  moreover have "vm_log m' = vm_log m @ negotiation_log (vd_common_cfg v) 0x100000000 resets lo hi after @
      activation_log (vd_common_cfg v) 0 q mx off @ [CC_write (vd_common_cfg v + 0x14) 8 15]"
    by (simp add: m' set_driver_ok_def status_bits cc_offsets l1(1) l2(1))
  ultimately show ?thesis
    using q off
    by (intro exI [of _ resets] exI [of _ lo] exI [of _ hi] exI [of _ after] exI [of _ mx] exI [of _ off]
        exI [of _ phys]) simp
qed

text \<open>A device at common configuration 0x1000 that keeps its status register and offers queues of 256 entries.\<close>

definition demo_virtio_hw :: "u64 virtio_hw" where
  "demo_virtio_hw = \<lparr>vh_read = (\<lambda>a d. (if a = 0x1014 then d else if a = 0x1018 then 256 else 1, d)),
     vh_write = (\<lambda>a v d. if a = 0x1014 then v else d), vh_run = (\<lambda>q d. (q, d)), vh_byte = (\<lambda>a d. 0)\<rparr>"

definition demo_virtio_device :: virtio_device where
  "demo_virtio_device = \<lparr>vd_bus = 0, vd_dev = 3, vd_func = 0, vd_device_id = 0x1001, vd_common_cfg = 0x1000,
     vd_notify_base = 0x3000, vd_notify_off_multiplier = 4, vd_isr = 0, vd_device_cfg = 0x2000\<rparr>"

definition demo_bring_up :: "(u64 \<times> virtqueue \<times> frame_allocator \<times> u64 virtio_m) outcome" where
  "demo_bring_up = blk_bring_up demo_virtio_hw Inr demo_virtio_device
     \<lparr>free = [0x5000, 0x6000], total_added_ctr = 2\<rparr> \<lparr>vm_dev = 7, vm_log = []\<rparr>"

theorem blk_bring_up_order_witness:
  "\<exists>np q fa' m'. demo_bring_up = Inr (np, q, fa', m') \<and> desc_phys q = 0x6000 \<and> last (vm_log m') = CC_write 0x1014 8 15"
proof -
  have "\<not> isl demo_bring_up" by code_simp
  then obtain np q fa' m' where r: "demo_bring_up = Inr (np, q, fa', m')" 
    by (metis isl_def prod_cases4 sum.exhaust)
  from blk_bring_up_order [OF this [unfolded demo_bring_up_def]] show ?thesis
    by (intro exI [of _ np] exI [of _ q] exI [of _ fa'] exI [of _ m'])
      (auto simp: r demo_virtio_device_def)
qed

end
