(* ===== verification/Usb.thy ===== *)
theory Usb
  imports Kbd
begin

unbundle bit_operations_syntax

text \<open>
  The parts of arsenal-kernel/src/xhci.rs that interpret bytes from a USB device: the walks over a
  configuration descriptor and the decoding of a boot keyboard's reports into the keyboard ring
  of \<open>Kbd\<close>. The walks are shown equivalent to a search in the list of descriptors that the bytes
  encode.
\<close>

section \<open>Configuration descriptors\<close>

definition USB_DESC_INTERFACE :: u8 where "USB_DESC_INTERFACE = 4"
definition USB_DESC_ENDPOINT :: u8 where "USB_DESC_ENDPOINT = 5"

function first_interface_from :: "u8 list \<Rightarrow> nat \<Rightarrow> (u8 \<times> u8 \<times> u8 \<times> u8) outcome" where
  "first_interface_from cfg i =
     (if i + 2 \<le> length cfg
      then and_then (slice_at cfg i) (\<lambda>b.
           if unat b < 2 \<or> i + unat b > length cfg then Inr (0, 0, 0, 0)
           else and_then (slice_at cfg (i + 1)) (\<lambda>t.
                if t = USB_DESC_INTERFACE \<and> unat b \<ge> 9
                then and_then (slice_at cfg (i + 5)) (\<lambda>c5. and_then (slice_at cfg (i + 6)) (\<lambda>c6.
                     and_then (slice_at cfg (i + 7)) (\<lambda>c7. and_then (slice_at cfg (i + 4)) (\<lambda>c4.
                     Inr (c5, c6, c7, c4)))))
                else first_interface_from cfg (i + unat b)))
      else Inr (0, 0, 0, 0))"
  by pat_completeness auto
termination by (relation "measure (\<lambda>(cfg, i). length cfg - i)") auto

declare first_interface_from.simps [simp del]

definition first_interface :: "u8 list \<Rightarrow> (u8 \<times> u8 \<times> u8 \<times> u8) outcome" where
  "first_interface cfg = first_interface_from cfg 0"

function find_interrupt_in_from :: "u8 list \<Rightarrow> nat \<Rightarrow> (u8 \<times> u16 \<times> u8) option outcome" where
  "find_interrupt_in_from cfg i =
     (if i + 2 \<le> length cfg
      then and_then (slice_at cfg i) (\<lambda>b.
           if unat b < 2 \<or> i + unat b > length cfg then Inr None
           else and_then (slice_at cfg (i + 1)) (\<lambda>t.
                if t = USB_DESC_ENDPOINT \<and> unat b \<ge> 7
                then and_then (slice_at cfg (i + 2)) (\<lambda>a. and_then (slice_at cfg (i + 3)) (\<lambda>attrs.
                     and_then (slice_at cfg (i + 4)) (\<lambda>lo. and_then (slice_at cfg (i + 5)) (\<lambda>hi.
                     and_then (slice_at cfg (i + 6)) (\<lambda>interval.
                     if attrs AND 0x3 = 0x3 \<and> a AND 0x80 \<noteq> 0
                     then Inr (Some (a, of_nat (le_nat [lo, hi]), interval))
                     else find_interrupt_in_from cfg (i + unat b))))))
                else find_interrupt_in_from cfg (i + unat b)))
      else Inr None)"
  by pat_completeness auto
termination by (relation "measure (\<lambda>(cfg, i). length cfg - i)") auto

declare find_interrupt_in_from.simps [simp del]

definition find_interrupt_in_endpoint :: "u8 list \<Rightarrow> (u8 \<times> u16 \<times> u8) option outcome" where
  "find_interrupt_in_endpoint cfg = find_interrupt_in_from cfg 0"

definition or_some :: "'a option \<Rightarrow> 'a option \<Rightarrow> 'a option" where
  "or_some x y = (case x of Some v \<Rightarrow> Some v | None \<Rightarrow> y)"

function bulk_from ::
    "u8 list \<Rightarrow> nat \<Rightarrow> (u8 \<times> u16) option \<Rightarrow> (u8 \<times> u16) option \<Rightarrow>
     ((u8 \<times> u16) option \<times> (u8 \<times> u16) option) outcome" where
  "bulk_from cfg i bulk_in bulk_out =
     (if i + 2 \<le> length cfg
      then and_then (slice_at cfg i) (\<lambda>b.
           if unat b < 2 \<or> i + unat b > length cfg then Inr (bulk_in, bulk_out)
           else and_then (slice_at cfg (i + 1)) (\<lambda>t.
                if t = USB_DESC_ENDPOINT \<and> unat b \<ge> 7
                then and_then (slice_at cfg (i + 2)) (\<lambda>a. and_then (slice_at cfg (i + 3)) (\<lambda>attrs.
                     and_then (slice_at cfg (i + 4)) (\<lambda>lo. and_then (slice_at cfg (i + 5)) (\<lambda>hi.
                     if attrs AND 0x3 = 0x2
                     then if a AND 0x80 \<noteq> 0
                          then bulk_from cfg (i + unat b) (or_some bulk_in (Some (a, of_nat (le_nat [lo, hi])))) bulk_out
                          else bulk_from cfg (i + unat b) bulk_in (or_some bulk_out (Some (a, of_nat (le_nat [lo, hi]))))
                     else bulk_from cfg (i + unat b) bulk_in bulk_out))))
                else bulk_from cfg (i + unat b) bulk_in bulk_out))
      else Inr (bulk_in, bulk_out))"
  by pat_completeness auto
termination by (relation "measure (\<lambda>(cfg, i, _). length cfg - i)") auto

declare bulk_from.simps [simp del]

definition find_bulk_endpoints :: "u8 list \<Rightarrow> (u8 \<times> u16 \<times> u8 \<times> u16) option outcome" where
  "find_bulk_endpoints cfg =
     and_then (bulk_from cfg 0 None None) (\<lambda>(bulk_in, bulk_out).
       Inr (case (bulk_in, bulk_out) of
              (Some (ia, im), Some (oa, om)) \<Rightarrow> Some (ia, im, oa, om)
            | _ \<Rightarrow> None))"

section \<open>The boot keyboard\<close>

definition hid_usage_to_ascii :: "u8 \<Rightarrow> bool \<Rightarrow> u8 option" where
  "hid_usage_to_ascii usage shift =
     (let letter = (\<lambda>c :: u8. Some (if shift \<and> 0x61 \<le> c \<and> c \<le> 0x7A then c - 32 else c))
      in if 0x04 \<le> usage \<and> usage \<le> 0x1D then letter (0x61 + (usage - 0x04))
         else if 0x1E \<le> usage \<and> usage \<le> 0x26 then letter (0x31 + (usage - 0x1E))
         else if usage = 0x27 then letter 0x30
         else if usage = 0x28 then letter 0x0A
         else if usage = 0x2A then letter 0x08
         else if usage = 0x2B then letter 0x09
         else if usage = 0x2C then letter 0x20
         else if usage = 0x2D then Some (if shift then 0x5F else 0x2D)
         else if usage = 0x2E then Some (if shift then 0x2B else 0x3D)
         else if usage = 0x36 then Some (if shift then 0x3C else 0x2C)
         else if usage = 0x37 then Some (if shift then 0x3E else 0x2E)
         else if usage = 0x38 then Some (if shift then 0x3F else 0x2F)
         else None)"

record hid_state =
  hs_db_base :: usize
  hs_rt_base :: usize
  hs_event_ring_phys :: u64
  hs_event_deq :: usize
  hs_event_ccs :: u32
  hs_slot_id :: u8
  hs_ep_dci :: u32
  hs_ep_ring_phys :: u64
  hs_ep_enqueue :: usize
  hs_ep_cycle :: u32
  hs_report_phys :: u64
  hs_prev :: "u8 list" \<comment> \<open>8 bytes\<close>
  hs_sentinel_fired :: bool

text \<open>The loop over the key slots of a report, and the report as a whole.\<close>

fun decode_keys :: "bool \<Rightarrow> u8 list \<Rightarrow> hid_state \<Rightarrow> kbd \<Rightarrow> (hid_state \<times> kbd) outcome" where
  "decode_keys shift [] hid k = Inr (hid, k)"
| "decode_keys shift (usage # us) hid k =
     (if usage = 0 \<or> usage \<in> set (take 6 (drop 2 (hs_prev hid))) then decode_keys shift us hid k
      else case hid_usage_to_ascii usage shift of
             None \<Rightarrow> decode_keys shift us hid k
           | Some ascii \<Rightarrow>
               and_then (inject ascii k) (\<lambda>k.
                 decode_keys shift us (if hs_sentinel_fired hid then hid else hid\<lparr>hs_sentinel_fired := True\<rparr>) k))"

definition decode_report :: "u8 list \<Rightarrow> hid_state \<Rightarrow> kbd \<Rightarrow> (hid_state \<times> kbd) outcome" where
  "decode_report report hid k =
     and_then (slice_at report 0) (\<lambda>modifiers.
     and_then (decode_keys (modifiers AND 0x22 \<noteq> 0) (take 6 (drop 2 report)) hid k) (\<lambda>(hid, k).
     Inr (hid\<lparr>hs_prev := report\<rparr>, k)))"

section \<open>The walks search the descriptors\<close>

text \<open>
  The descriptors that a byte string holds: each starts with its own length; what follows the last
  well-formed one is ignored.
\<close>

function descs :: "u8 list \<Rightarrow> u8 list list" where
  "descs bs =
     (if length bs < 2 \<or> unat (hd bs) < 2 \<or> length bs < unat (hd bs) then []
      else take (unat (hd bs)) bs # descs (drop (unat (hd bs)) bs))"
  by pat_completeness auto
termination by (relation "measure length") auto

declare descs.simps [simp del]

definition is_interface :: "u8 list \<Rightarrow> bool" where
  "is_interface d \<longleftrightarrow> length d \<ge> 9 \<and> d ! 1 = USB_DESC_INTERFACE"

definition is_endpoint :: "(u8 \<Rightarrow> u8 \<Rightarrow> bool) \<Rightarrow> u8 list \<Rightarrow> bool" where
  "is_endpoint P d \<longleftrightarrow> length d \<ge> 7 \<and> d ! 1 = USB_DESC_ENDPOINT \<and> P (d ! 2) (d ! 3)"

abbreviation interrupt_in :: "u8 \<Rightarrow> u8 \<Rightarrow> bool" where
  "interrupt_in a attrs \<equiv> attrs AND 0x3 = 0x3 \<and> a AND 0x80 \<noteq> 0"

abbreviation bulk :: "bool \<Rightarrow> u8 \<Rightarrow> u8 \<Rightarrow> bool" where
  "bulk is_in a attrs \<equiv> attrs AND 0x3 = 0x2 \<and> (a AND 0x80 \<noteq> 0) = is_in"

definition max_packet :: "u8 list \<Rightarrow> u16" where
  "max_packet d = of_nat (le_nat [d ! 4, d ! 5])"

lemma descs_step:
  assumes "i + 2 \<le> length cfg"
  shows "unat (cfg ! i) < 2 \<or> length cfg < i + unat (cfg ! i) \<Longrightarrow> descs (drop i cfg) = []"
    and "\<not> (unat (cfg ! i) < 2 \<or> length cfg < i + unat (cfg ! i)) \<Longrightarrow>
      descs (drop i cfg) = take (unat (cfg ! i)) (drop i cfg) # descs (drop (i + unat (cfg ! i)) cfg)"
proof -
  have h: "hd (drop i cfg) = cfg ! i" using assms by (simp add: hd_drop_conv_nth)
  show "unat (cfg ! i) < 2 \<or> length cfg < i + unat (cfg ! i) \<Longrightarrow> descs (drop i cfg) = []"
    using assms by (subst descs.simps) (auto simp: h)
  show "\<not> (unat (cfg ! i) < 2 \<or> length cfg < i + unat (cfg ! i)) \<Longrightarrow>
      descs (drop i cfg) = take (unat (cfg ! i)) (drop i cfg) # descs (drop (i + unat (cfg ! i)) cfg)"
    using assms by (subst descs.simps) (auto simp: h add.commute)
qed

lemma descs_short: "length bs < 2 \<Longrightarrow> descs bs = []"
  by (subst descs.simps) simp

text \<open>The three cases in which a round of a walk can find itself.\<close>

lemma walk_cases:
  obtains (stop) "descs (drop i cfg) = []" "length cfg < i + 2"
  | (bad) "descs (drop i cfg) = []" "i + 2 \<le> length cfg" "unat (cfg ! i) < 2 \<or> length cfg < i + unat (cfg ! i)"
  | (desc) d where "descs (drop i cfg) = d # descs (drop (i + unat (cfg ! i)) cfg)" "length d = unat (cfg ! i)"
      "2 \<le> unat (cfg ! i)" "i + unat (cfg ! i) \<le> length cfg" "\<And>j. j < unat (cfg ! i) \<Longrightarrow> d ! j = cfg ! (i + j)"
proof -
  consider "length cfg < i + 2" | "i + 2 \<le> length cfg" "unat (cfg ! i) < 2 \<or> length cfg < i + unat (cfg ! i)"
    | "i + 2 \<le> length cfg" "\<not> (unat (cfg ! i) < 2 \<or> length cfg < i + unat (cfg ! i))" by linarith
  then show thesis
  proof cases
    case 1 then show ?thesis by (intro stop) (simp_all add: descs_short)
  next
    case 2 then show ?thesis by (intro bad descs_step(1))
  next
    case 3 then show ?thesis using descs_step(2) [OF 3] by (intro desc) auto
  qed
qed

definition interface_of :: "u8 list list \<Rightarrow> u8 \<times> u8 \<times> u8 \<times> u8" where
  "interface_of ds = (case find is_interface ds of Some d \<Rightarrow> (d ! 5, d ! 6, d ! 7, d ! 4) | None \<Rightarrow> (0, 0, 0, 0))"

definition interrupt_in_of :: "u8 list list \<Rightarrow> (u8 \<times> u16 \<times> u8) option" where
  "interrupt_in_of ds = map_option (\<lambda>d. (d ! 2, max_packet d, d ! 6)) (find (is_endpoint interrupt_in) ds)"

definition bulk_of :: "bool \<Rightarrow> u8 list list \<Rightarrow> (u8 \<times> u16) option" where
  "bulk_of is_in ds = map_option (\<lambda>d. (d ! 2, max_packet d)) (find (is_endpoint (bulk is_in)) ds)"

lemma first_interface_from_descs:
  "first_interface_from cfg i = Inr (interface_of (descs (drop i cfg)))"
proof (induction cfg i rule: first_interface_from.induct)
  case (1 cfg i)
  show ?case
  proof (cases rule: walk_cases [of i cfg])
    case (desc d)
    then show ?thesis
      using 1 [of "cfg ! i" "cfg ! (i + 1)"]
      by (subst first_interface_from.simps) (auto simp: interface_of_def is_interface_def)
  qed (subst first_interface_from.simps, simp add: interface_of_def)+
qed

lemma find_interrupt_in_from_descs:
  "find_interrupt_in_from cfg i = Inr (interrupt_in_of (descs (drop i cfg)))"
proof (induction cfg i rule: find_interrupt_in_from.induct)
  case (1 cfg i)
  show ?case
  proof (cases rule: walk_cases [of i cfg])
    case (desc d)
    then show ?thesis
      using 1(1) [of "cfg ! i" "cfg ! (i + 1)" "cfg ! (i + 2)" "cfg ! (i + 3)" "cfg ! (i + 4)" "cfg ! (i + 5)" "cfg ! (i + 6)"]
        1(2) [of "cfg ! i" "cfg ! (i + 1)"]
      by (subst find_interrupt_in_from.simps) (auto simp: interrupt_in_of_def is_endpoint_def max_packet_def)
  qed (subst find_interrupt_in_from.simps, simp add: interrupt_in_of_def)+
qed

lemma or_some_simps [simp]: "or_some None y = y" "or_some (Some v) y = Some v" "or_some y None = y"
  by (auto simp: or_some_def split: option.splits)

lemma or_some_assoc: "or_some (or_some x y) z = or_some x (or_some y z)"
  by (auto simp: or_some_def split: option.splits)

lemma bulk_of_Cons:
  "bulk_of is_in (d # ds) =
     or_some (if is_endpoint (bulk is_in) d then Some (d ! 2, max_packet d) else None) (bulk_of is_in ds)"
  by (simp add: bulk_of_def)

lemma bulk_from_descs:
  "bulk_from cfg i x y =
     Inr (or_some x (bulk_of True (descs (drop i cfg))), or_some y (bulk_of False (descs (drop i cfg))))"
proof (induction cfg i x y rule: bulk_from.induct)
  case (1 cfg i x y)
  show ?case
  proof (cases rule: walk_cases [of i cfg])
    case (desc d)
    let ?b = "cfg ! i" and ?t = "cfg ! (i + 1)"
    show ?thesis
      using desc 1(1) [of ?b ?t "cfg ! (i + 2)" "cfg ! (i + 3)" "cfg ! (i + 4)" "cfg ! (i + 5)"]
        1(2) [of ?b ?t "cfg ! (i + 2)" "cfg ! (i + 3)" "cfg ! (i + 4)" "cfg ! (i + 5)"]
        1(3) [of ?b ?t "cfg ! (i + 2)" "cfg ! (i + 3)" "cfg ! (i + 4)" "cfg ! (i + 5)"] 1(4) [of ?b ?t]
      by (subst bulk_from.simps) (auto simp: bulk_of_Cons or_some_assoc is_endpoint_def max_packet_def)
  qed (subst bulk_from.simps, simp add: bulk_of_def)+
qed

text \<open>A descriptor as a device sends it, and the string of several.\<close>

definition descriptor :: "u8 list \<Rightarrow> bool" where
  "descriptor d \<longleftrightarrow> 2 \<le> length d \<and> length d < 256 \<and> hd d = of_nat (length d)"

lemma descs_concat: "\<forall>d \<in> set ds. descriptor d \<Longrightarrow> descs (concat ds) = ds"
proof (induction ds)
  case (Cons d ds)
  then have d: "2 \<le> length d" "length d < 256" "hd d = of_nat (length d)" "d \<noteq> []"
    by (auto simp: descriptor_def)
  then have "unat (hd d) = length d" by (simp add: unat_of_nat_small)
  then show ?case using d Cons by (subst descs.simps) simp
qed (simp add: descs_short)

text \<open>
  The descriptor walks search the descriptor list. On every byte string a device can send, the
  three walks return without an index out of range: first\_interface gives the fields of the first
  interface descriptor of at least 9 bytes or zeros, find\_interrupt\_in\_endpoint the first
  interrupt IN endpoint, and find\_bulk\_endpoints the first bulk IN and the first bulk OUT
  endpoint if both exist, among the descriptors the bytes hold; and the bytes of a list of
  well-formed descriptors hold exactly that list.
\<close>
theorem descriptor_walks:
  "first_interface cfg = Inr (interface_of (descs cfg)) \<and>
   find_interrupt_in_endpoint cfg = Inr (interrupt_in_of (descs cfg)) \<and>
   find_bulk_endpoints cfg = Inr (case (bulk_of True (descs cfg), bulk_of False (descs cfg)) of
     (Some (ia, im), Some (oa, om)) \<Rightarrow> Some (ia, im, oa, om) | _ \<Rightarrow> None) \<and>
   ((\<forall>d \<in> set ds. descriptor d) \<longrightarrow> descs (concat ds) = ds)"
  by (simp add: first_interface_def first_interface_from_descs find_interrupt_in_endpoint_def
      find_interrupt_in_from_descs find_bulk_endpoints_def bulk_from_descs descs_concat)

text \<open>The configuration of a boot keyboard: configuration, interface, HID and endpoint descriptor.\<close>

definition keyboard_descs :: "u8 list list" where
  "keyboard_descs =
     [[9, 2, 34, 0, 1, 1, 0, 0xA0, 50], [9, 4, 0, 0, 1, 3, 1, 1, 0], [9, 0x21, 0x11, 1, 0, 1, 0x22, 63, 0],
      [7, 5, 0x81, 3, 8, 0, 7]]"

theorem descriptor_walks_witness:
  "first_interface (concat keyboard_descs) = Inr (3, 1, 1, 1) \<and>
   find_interrupt_in_endpoint (concat keyboard_descs) = Inr (Some (0x81, 8, 7)) \<and>
   find_bulk_endpoints (concat keyboard_descs) = Inr None"
proof -
  have d: "\<forall>d \<in> set keyboard_descs. descriptor d" by (simp add: keyboard_descs_def descriptor_def)
  note w = descriptor_walks [of "concat keyboard_descs" keyboard_descs]
  have e: "descs (concat keyboard_descs) = keyboard_descs" using w d by blast
  have "interface_of keyboard_descs = (3, 1, 1, 1)" "interrupt_in_of keyboard_descs = Some (0x81, 8, 7)"
    "bulk_of True keyboard_descs = None" by code_simp+
  then show ?thesis using w by (simp add: e)
qed

section \<open>Typing on a USB keyboard\<close>

abbreviation key_slots :: "u8 list \<Rightarrow> u8 list" where
  "key_slots report \<equiv> take 6 (drop 2 report)"

text \<open>The characters of the keys that are down in a report and were not in the one before.\<close>

definition pressed :: "u8 list \<Rightarrow> u8 list \<Rightarrow> u8 list" where
  "pressed prev report =
     List.map_filter (\<lambda>u. if u = 0 \<or> u \<in> set (key_slots prev) then None
                          else hid_usage_to_ascii u (report ! 0 AND 0x22 \<noteq> 0)) (key_slots report)"

lemma decode_keys_push:
  "decode_keys shift us hid k =
     (let cs = List.map_filter (\<lambda>u. if u = 0 \<or> u \<in> set (key_slots (hs_prev hid)) then None
                 else hid_usage_to_ascii u shift) us
      in and_then (push_all ring_push cs k) (\<lambda>k.
           Inr (hid\<lparr>hs_sentinel_fired := hs_sentinel_fired hid \<or> cs \<noteq> []\<rparr>, k)))"
proof (induction us arbitrary: hid k)
  case (Cons u us)
  show ?case
  proof (cases "u = 0 \<or> u \<in> set (key_slots (hs_prev hid)) \<or> hid_usage_to_ascii u shift = None")
    case True
    then show ?thesis using Cons by (auto simp: map_filter_simps)
  next
    case False
    then obtain c where c: "hid_usage_to_ascii u shift = Some c" by blast
    show ?thesis
    proof (cases "ring_push c k")
      case (Inl e)
      then show ?thesis using False c by (auto simp: map_filter_simps inject_def)
    next
      case (Inr k1)
      have e: "(if hs_sentinel_fired hid then hid else hid\<lparr>hs_sentinel_fired := True\<rparr>) = hid\<lparr>hs_sentinel_fired := True\<rparr>"
        by (cases hid) simp
      show ?thesis using Inr False c Cons [of "hid\<lparr>hs_sentinel_fired := True\<rparr>" k1]
        unfolding decode_keys.simps e by (auto simp: map_filter_simps inject_def)
    qed
  qed
qed (simp add: map_filter_simps)

lemma decode_report_push:
  assumes "length report = 8"
  shows "decode_report report hid k =
    and_then (push_all ring_push (pressed (hs_prev hid) report) k) (\<lambda>k.
      Inr (hid\<lparr>hs_sentinel_fired := hs_sentinel_fired hid \<or> pressed (hs_prev hid) report \<noteq> [], hs_prev := report\<rparr>, k))"
proof -
  have "slice_at report 0 = Inr (report ! 0)" using assms by simp
  then show ?thesis
    by (cases "push_all ring_push (pressed (hs_prev hid) report) k")
      (simp_all add: decode_report_def decode_keys_push pressed_def [symmetric] Let_def)
qed

text \<open>The reports of pressing and releasing one key for a character.\<close>

definition usb_keys :: "(u8 \<times> bool) list" where
  "usb_keys = List.product (map of_nat [4..<57]) [False, True]"

definition usb_typeable :: "u8 \<Rightarrow> bool" where
  "usb_typeable c \<longleftrightarrow> (\<exists>(u, s) \<in> set usb_keys. hid_usage_to_ascii u s = Some c)"

definition usb_key :: "u8 \<Rightarrow> u8 \<times> bool" where
  "usb_key c = the (find (\<lambda>(u, s). hid_usage_to_ascii u s = Some c) usb_keys)"

definition type_key :: "u8 \<Rightarrow> u8 list list" where
  "type_key c = (let (u, s) = usb_key c
     in [[if s then 0x02 else 0, 0, u, 0, 0, 0, 0, 0], [0, 0, 0, 0, 0, 0, 0, 0]])"

fun decode_all :: "u8 list list \<Rightarrow> hid_state \<Rightarrow> kbd \<Rightarrow> (hid_state \<times> kbd) outcome" where
  "decode_all [] hid k = Inr (hid, k)"
| "decode_all (r # rs) hid k = and_then (decode_report r hid k) (\<lambda>(hid, k). decode_all rs hid k)"

lemma usb_key_ascii:
  assumes "usb_typeable c" "usb_key c = (u, s)"
  shows "hid_usage_to_ascii u s = Some c" "u \<noteq> 0"
proof -
  have "find (\<lambda>(u, s). hid_usage_to_ascii u s = Some c) usb_keys \<noteq> None"
    using assms(1) unfolding usb_typeable_def find_None_iff by blast
  then obtain us where us: "find (\<lambda>(u, s). hid_usage_to_ascii u s = Some c) usb_keys = Some us" by blast
  then have "us = (u, s)" using assms(2) by (simp add: usb_key_def)
  then show a: "hid_usage_to_ascii u s = Some c" using us by (auto simp: find_Some_iff)
  have "hid_usage_to_ascii 0 s = None" by (simp add: hid_usage_to_ascii_def)
  then show "u \<noteq> 0" using a by (metis option.distinct(1))
qed

lemma pressed_type_key:
  assumes "usb_typeable c" "set (key_slots prev) \<subseteq> {0}" "type_key c = [r, r']"
  shows "length r = 8" "length r' = 8" "pressed prev r = [c]" "pressed r r' = []" "set (key_slots r') \<subseteq> {0}"
proof -
  obtain u s where us: "usb_key c = (u, s)" by force
  note a = usb_key_ascii [OF assms(1) us]
  have r: "r = [if s then 0x02 else 0, 0, u, 0, 0, 0, 0, 0]" "r' = [0, 0, 0, 0, 0, 0, 0, 0]"
    using assms(3) us by (simp_all add: type_key_def)
  show "length r = 8" "length r' = 8" "pressed r r' = []" "set (key_slots r') \<subseteq> {0}"
    by (simp_all add: r pressed_def map_filter_simps)
  have "u \<notin> set (key_slots prev)" using a(2) assms(2) by blast
  then show "pressed prev r = [c]" using a by (cases s) (simp_all add: r pressed_def map_filter_simps)
qed

lemma decode_report_ring:
  assumes "length report = 8" "ring_ok k"
  shows "\<exists>hid' k'. decode_report report hid k = Inr (hid', k') \<and> hs_prev hid' = report \<and> ring_ok k' \<and>
    ring_contents k' = take 255 (ring_contents k @ pressed (hs_prev hid) report)"
  using kbd_ring.push_all_contents [OF assms(2), of "pressed (hs_prev hid) report"]
  by (auto simp: decode_report_push [OF assms(1)])

text \<open>The characters that a sequence of reports enters.\<close>

fun typed :: "u8 list \<Rightarrow> u8 list list \<Rightarrow> u8 list" where
  "typed prev [] = []"
| "typed prev (r # rs) = pressed prev r @ typed r rs"

lemma decode_all_ring:
  assumes "\<forall>r \<in> set rs. length r = 8" "ring_ok k"
  shows "\<exists>hid' k'. decode_all rs hid k = Inr (hid', k') \<and> ring_ok k' \<and>
    ring_contents k' = take 255 (ring_contents k @ typed (hs_prev hid) rs)"
  using assms
proof (induction rs arbitrary: hid k)
  case Nil
  then show ?case using kbd_ring.bounded by simp
next
  case (Cons r rs)
  obtain h1 k1 where d: "decode_report r hid k = Inr (h1, k1)" "hs_prev h1 = r" "ring_ok k1"
    "ring_contents k1 = take 255 (ring_contents k @ pressed (hs_prev hid) r)"
    using decode_report_ring [of r k hid] Cons.prems by auto
  obtain h2 k2 where "decode_all rs h1 k1 = Inr (h2, k2)" "ring_ok k2"
    "ring_contents k2 = take 255 (ring_contents k1 @ typed r rs)"
    using Cons.IH [of k1 h1] Cons.prems d by auto
  then show ?case using d by (simp add: min_def)
qed

lemma typed_type_keys:
  "\<forall>c \<in> set cs. usb_typeable c \<Longrightarrow> set (key_slots prev) \<subseteq> {0} \<Longrightarrow>
     typed prev (concat (map type_key cs)) = cs \<and> (\<forall>r \<in> set (concat (map type_key cs)). length r = 8)"
proof (induction cs arbitrary: prev)
  case (Cons c cs)
  obtain r r' where tk: "type_key c = [r, r']" by (cases "usb_key c") (simp add: type_key_def)
  note p = pressed_type_key [OF _ Cons.prems(2) tk]
  show ?case using Cons.IH [of r'] Cons.prems(1) p by (simp add: tk)
qed simp

lemma pressed_one:
  assumes "hid_usage_to_ascii u s = Some c" "r = [if s then 2 else 0, 0, u, 0, 0, 0, 0, 0]"
  shows "u \<notin> set (key_slots prev) \<Longrightarrow> pressed prev r = [c]" "u \<in> set (key_slots prev) \<Longrightarrow> pressed prev r = []"
    "pressed r [0, 0, 1, 1, 1, 1, 1, 1] = []" "u \<noteq> 0" "u \<noteq> 1"
proof -
  have n: "hid_usage_to_ascii 0 s = None" "hid_usage_to_ascii 1 x = None" for x
    by (simp_all add: hid_usage_to_ascii_def word_le_nat_alt)
  show u: "u \<noteq> 0" "u \<noteq> 1" using assms(1) n by (metis option.distinct(1))+
  show "pressed r [0, 0, 1, 1, 1, 1, 1, 1] = []" using n by (simp add: pressed_def map_filter_simps)
  show "u \<in> set (key_slots prev) \<Longrightarrow> pressed prev r = []"
    by (simp add: assms(2) pressed_def map_filter_simps)
  show "u \<notin> set (key_slots prev) \<Longrightarrow> pressed prev r = [c]"
    using u assms(1) by (cases s) (simp_all add: assms(2) pressed_def map_filter_simps)
qed

lemma typed_held:
  assumes "hid_usage_to_ascii u s = Some c" "r = [if s then 2 else 0, 0, u, 0, 0, 0, 0, 0]"
  shows "typed r (replicate n r) = []"
  by (induction n) (simp_all add: assms(2) pressed_one(2) [OF assms(1) refl])


definition demo_hid :: hid_state where
  "demo_hid = \<lparr>hs_db_base = 0, hs_rt_base = 0, hs_event_ring_phys = 0, hs_event_deq = 0, hs_event_ccs = 1,
     hs_slot_id = 1, hs_ep_dci = 3, hs_ep_ring_phys = 0, hs_ep_enqueue = 0, hs_ep_cycle = 1, hs_report_phys = 0,
     hs_prev = replicate 8 0, hs_sentinel_fired = False\<rparr>"


end
