(* ===== verification/XhciRing.thy ===== *)
theory XhciRing
  imports Frames Pci Idt Usb
begin

unbundle bit_operations_syntax

text \<open>
  The machine of the xHCI driver, arsenal-kernel/src/xhci.rs, and its rings: the producers of the
  command, transfer and interrupt-endpoint rings and the two consumers of the event ring.
  The controller and the memory it shares with the driver are hardware and a parameter: a record
  of what an access of a given width at a virtual address returns and does to the state of the
  device, which may also move on by itself at every access. Accesses are recorded in a log. Log
  lines on the console are left out.
\<close>

section \<open>Registers and constants\<close>

definition XHCI_CLASS :: u8 where "XHCI_CLASS = 0x0C"
definition XHCI_SUBCLASS :: u8 where "XHCI_SUBCLASS = 0x03"
definition XHCI_PROG_IF :: u8 where "XHCI_PROG_IF = 0x30"
definition BAR_MAP_SIZE :: u64 where "BAR_MAP_SIZE = 0x10000"
definition CAP_CAPLENGTH :: usize where "CAP_CAPLENGTH = 0x00"
definition CAP_HCSPARAMS1 :: usize where "CAP_HCSPARAMS1 = 0x04"
definition CAP_HCSPARAMS2 :: usize where "CAP_HCSPARAMS2 = 0x08"
definition CAP_HCCPARAMS1 :: usize where "CAP_HCCPARAMS1 = 0x10"
definition CAP_DBOFF :: usize where "CAP_DBOFF = 0x14"
definition CAP_RTSOFF :: usize where "CAP_RTSOFF = 0x18"
definition OP_USBCMD :: usize where "OP_USBCMD = 0x00"
definition OP_USBSTS :: usize where "OP_USBSTS = 0x04"
definition OP_CRCR :: usize where "OP_CRCR = 0x18"
definition OP_DCBAAP :: usize where "OP_DCBAAP = 0x30"
definition OP_CONFIG :: usize where "OP_CONFIG = 0x38"
definition OP_PORTS_BASE :: usize where "OP_PORTS_BASE = 0x400"
definition PORT_REG_STRIDE :: usize where "PORT_REG_STRIDE = 0x10"
definition USBCMD_RS :: u32 where "USBCMD_RS = push_bit 0 1"
definition USBCMD_HCRST :: u32 where "USBCMD_HCRST = push_bit 1 1"
definition USBCMD_INTE :: u32 where "USBCMD_INTE = push_bit 2 1"
definition USBSTS_HCH :: u32 where "USBSTS_HCH = push_bit 0 1"
definition USBSTS_CNR :: u32 where "USBSTS_CNR = push_bit 11 1"
definition PORTSC_CCS :: u32 where "PORTSC_CCS = push_bit 0 1"
definition PORTSC_PED :: u32 where "PORTSC_PED = push_bit 1 1"
definition PORTSC_PR :: u32 where "PORTSC_PR = push_bit 4 1"
definition PORTSC_PRC :: u32 where "PORTSC_PRC = push_bit 21 1"
definition PORTSC_RW1C :: u32 where "PORTSC_RW1C = push_bit 17 1 OR push_bit 18 1 OR push_bit 19 1 OR push_bit 20 1 OR push_bit 21 1 OR push_bit 22 1 OR push_bit 23 1"
definition IR0_IMAN :: usize where "IR0_IMAN = 0x00"
definition IR0_IMOD :: usize where "IR0_IMOD = 0x04"
definition IR0_ERSTSZ :: usize where "IR0_ERSTSZ = 0x08"
definition IR0_ERSTBA :: usize where "IR0_ERSTBA = 0x10"
definition IR0_ERDP :: usize where "IR0_ERDP = 0x18"
definition IMAN_IP :: u32 where "IMAN_IP = push_bit 0 1"
definition IMAN_IE :: u32 where "IMAN_IE = push_bit 1 1"
definition ERDP_EHB :: u64 where "ERDP_EHB = push_bit 3 1"
definition MSIX_CTRL_ENABLE_DWORD_BIT :: u32 where "MSIX_CTRL_ENABLE_DWORD_BIT = push_bit 31 1"
definition TRB_BYTES :: u64 where "TRB_BYTES = 16"
definition TRB_TYPE_NORMAL :: u32 where "TRB_TYPE_NORMAL = 1"
definition TRB_TYPE_LINK :: u32 where "TRB_TYPE_LINK = 6"
definition TRB_TYPE_SETUP_STAGE :: u32 where "TRB_TYPE_SETUP_STAGE = 2"
definition TRB_TYPE_DATA_STAGE :: u32 where "TRB_TYPE_DATA_STAGE = 3"
definition TRB_TYPE_STATUS_STAGE :: u32 where "TRB_TYPE_STATUS_STAGE = 4"
definition TRB_TYPE_ENABLE_SLOT :: u32 where "TRB_TYPE_ENABLE_SLOT = 9"
definition TRB_TYPE_ADDRESS_DEVICE :: u32 where "TRB_TYPE_ADDRESS_DEVICE = 11"
definition TRB_TYPE_CONFIGURE_ENDPOINT :: u32 where "TRB_TYPE_CONFIGURE_ENDPOINT = 12"
definition TRB_TYPE_NOOP_CMD :: u32 where "TRB_TYPE_NOOP_CMD = 23"
definition TRB_TYPE_TRANSFER :: u32 where "TRB_TYPE_TRANSFER = 32"
definition TRB_TYPE_CMD_COMPLETION :: u32 where "TRB_TYPE_CMD_COMPLETION = 33"
definition TRB_TYPE_PORT_STATUS_CHANGE :: u32 where "TRB_TYPE_PORT_STATUS_CHANGE = 34"
definition USB_REQ_GET_DESCRIPTOR :: u8 where "USB_REQ_GET_DESCRIPTOR = 6"
definition USB_REQ_SET_CONFIGURATION :: u8 where "USB_REQ_SET_CONFIGURATION = 9"
definition USB_DESC_DEVICE :: u8 where "USB_DESC_DEVICE = 1"
definition USB_DESC_CONFIG :: u8 where "USB_DESC_CONFIG = 2"
definition USB_CLASS_HID :: u8 where "USB_CLASS_HID = 0x03"
definition HID_SUBCLASS_BOOT :: u8 where "HID_SUBCLASS_BOOT = 0x01"
definition HID_PROTOCOL_KEYBOARD :: u8 where "HID_PROTOCOL_KEYBOARD = 0x01"
definition USB_CLASS_MASS_STORAGE :: u8 where "USB_CLASS_MASS_STORAGE = 0x08"
definition MSC_SUBCLASS_SCSI :: u8 where "MSC_SUBCLASS_SCSI = 0x06"
definition MSC_PROTOCOL_BOT :: u8 where "MSC_PROTOCOL_BOT = 0x50"
definition CBW_SIGNATURE :: u32 where "CBW_SIGNATURE = 0x43425355"
definition CSW_SIGNATURE :: u32 where "CSW_SIGNATURE = 0x53425355"
definition SCSI_READ_10 :: u8 where "SCSI_READ_10 = 0x28"
definition DCI_EP0 :: u32 where "DCI_EP0 = 1"
definition EP_RING_TRBS :: usize where "EP_RING_TRBS = 256"
definition EVENT_RING_TRBS :: usize where "EVENT_RING_TRBS = 16"
definition POLL_LIMIT :: nat where "POLL_LIMIT = 50000000"

section \<open>The machine\<close>

record 'd xhci_hw =
  xh_read :: "nat \<Rightarrow> usize \<Rightarrow> 'd \<Rightarrow> u64 \<times> 'd" \<comment> \<open>width in bits, address\<close>
  xh_write :: "nat \<Rightarrow> usize \<Rightarrow> u64 \<Rightarrow> 'd \<Rightarrow> 'd"
  xh_zero :: "usize \<Rightarrow> nat \<Rightarrow> 'd \<Rightarrow> 'd"
  xh_irq_count :: "'d \<Rightarrow> u64 \<times> 'd" \<comment> \<open>the counter the interrupt handler bumps\<close>

datatype xhci_io =
    X_read nat usize u64 | X_write nat usize u64 | X_zero usize nat | X_map u64 u64
  | X_irq_count u64 | X_sti | X_cli

record 'd xhci_m =
  xm_dev :: 'd
  xm_log :: "xhci_io list"
  xm_frames :: frame_allocator
  xm_cfg :: config_space
  xm_idt :: idt
  xm_hid :: "hid_state option" \<comment> \<open>the HID static\<close>

definition x_io :: "xhci_io \<Rightarrow> 'd \<Rightarrow> 'd xhci_m \<Rightarrow> 'd xhci_m" where
  "x_io e d m = m\<lparr>xm_dev := d, xm_log := xm_log m @ [e]\<rparr>"

definition r8 :: "'d xhci_hw \<Rightarrow> usize \<Rightarrow> 'd xhci_m \<Rightarrow> u8 \<times> 'd xhci_m" where
  "r8 D p m = (let (v, d) = xh_read D 8 p (xm_dev m) in (ucast v, x_io (X_read 8 p (ucast (ucast v :: u8))) d m))"

definition r32 :: "'d xhci_hw \<Rightarrow> usize \<Rightarrow> 'd xhci_m \<Rightarrow> u32 \<times> 'd xhci_m" where
  "r32 D p m = (let (v, d) = xh_read D 32 p (xm_dev m) in (ucast v, x_io (X_read 32 p (ucast (ucast v :: u32))) d m))"

definition w8 :: "'d xhci_hw \<Rightarrow> usize \<Rightarrow> u8 \<Rightarrow> 'd xhci_m \<Rightarrow> 'd xhci_m" where
  "w8 D p v m = x_io (X_write 8 p (ucast v)) (xh_write D 8 p (ucast v) (xm_dev m)) m"

definition w32 :: "'d xhci_hw \<Rightarrow> usize \<Rightarrow> u32 \<Rightarrow> 'd xhci_m \<Rightarrow> 'd xhci_m" where
  "w32 D p v m = x_io (X_write 32 p (ucast v)) (xh_write D 32 p (ucast v) (xm_dev m)) m"

definition w64 :: "'d xhci_hw \<Rightarrow> usize \<Rightarrow> u64 \<Rightarrow> 'd xhci_m \<Rightarrow> 'd xhci_m" where
  "w64 D p v m = x_io (X_write 64 p v) (xh_write D 64 p v (xm_dev m)) m"

definition zero_bytes :: "'d xhci_hw \<Rightarrow> usize \<Rightarrow> nat \<Rightarrow> 'd xhci_m \<Rightarrow> 'd xhci_m" where
  "zero_bytes D p n m = x_io (X_zero p n) (xh_zero D p n (xm_dev m)) m"

fun read_bytes :: "'d xhci_hw \<Rightarrow> usize \<Rightarrow> nat \<Rightarrow> 'd xhci_m \<Rightarrow> u8 list \<times> 'd xhci_m" where
  "read_bytes D p 0 m = ([], m)"
| "read_bytes D p (Suc n) m =
     (let (b, m) = r8 D p m; (bs, m) = read_bytes D (p + 1) n m in (b # bs, m))"

fun write_bytes :: "'d xhci_hw \<Rightarrow> usize \<Rightarrow> u8 list \<Rightarrow> 'd xhci_m \<Rightarrow> 'd xhci_m" where
  "write_bytes D p [] m = m"
| "write_bytes D p (b # bs) m = write_bytes D (p + 1) bs (w8 D p b m)"

definition phys_to_virt :: "u64 \<Rightarrow> u64 \<Rightarrow> usize" where
  "phys_to_virt hhdm p = p + hhdm"

definition alloc_zeroed_frame :: "'d xhci_hw \<Rightarrow> phys_frame_ctor \<Rightarrow> u64 \<Rightarrow> 'd xhci_m \<Rightarrow> (u64 \<times> 'd xhci_m) outcome" where
  "alloc_zeroed_frame D pf hhdm m =
     and_then (alloc_frame pf (xm_frames m)) (\<lambda>(f, fa).
     and_then (expect f) (\<lambda>p.
     Inr (p, zero_bytes D (phys_to_virt hhdm p) 4096 (m\<lparr>xm_frames := fa\<rparr>))))"

section \<open>Ring state\<close>

record regs =
  cap_base :: usize
  op_base :: usize
  rt_base :: usize
  db_base :: usize

record xhci =
  x_regs :: regs
  x_dcbaa_phys :: u64
  x_cmd_ring_phys :: u64
  x_cmd_enqueue :: usize
  x_cmd_cycle :: u32
  x_event_ring_phys :: u64
  x_event_deq :: usize
  x_event_ccs :: u32
  x_ctx_size :: usize
  x_max_ports :: u8

record usb_device =
  dv_slot_id :: u8
  dv_ep0_ring_phys :: u64
  dv_ep0_enqueue :: usize
  dv_ep0_cycle :: u32

text \<open>The four stores of a transfer request block; its last dword carries the cycle bit.\<close>

definition put_trb :: "'d xhci_hw \<Rightarrow> usize \<Rightarrow> u32 \<Rightarrow> u32 \<Rightarrow> u32 \<Rightarrow> u32 \<Rightarrow> 'd xhci_m \<Rightarrow> 'd xhci_m" where
  "put_trb D trb d0 d1 d2 d3 m =
     (let m = w32 D trb d0 m;
          m = w32 D (trb + 4) d1 m;
          m = w32 D (trb + 8) d2 m
      in w32 D (trb + 12) d3 m)"

section \<open>Producers\<close>

definition push_command ::
    "'d xhci_hw \<Rightarrow> u64 \<Rightarrow> u32 \<Rightarrow> u32 \<Rightarrow> u32 \<Rightarrow> u32 \<Rightarrow> xhci \<Rightarrow> 'd xhci_m \<Rightarrow> (xhci \<times> 'd xhci_m) outcome" where
  "push_command D hhdm d0 d1 d2 d3_type_flags x m =
     and_then (rust_assert (x_cmd_enqueue x < 255)) (\<lambda>_.
       let trb = phys_to_virt hhdm (x_cmd_ring_phys x) + x_cmd_enqueue x * 16;
           m = put_trb D trb d0 d1 d2 (d3_type_flags OR x_cmd_cycle x) m;
           x = x\<lparr>x_cmd_enqueue := x_cmd_enqueue x + 1\<rparr>
       in Inr (x, w32 D (db_base (x_regs x)) 0 m))"

definition push_transfer ::
    "'d xhci_hw \<Rightarrow> u64 \<Rightarrow> u32 \<Rightarrow> u32 \<Rightarrow> u32 \<Rightarrow> u32 \<Rightarrow> usb_device \<Rightarrow> 'd xhci_m \<Rightarrow> (usb_device \<times> 'd xhci_m) outcome" where
  "push_transfer D hhdm d0 d1 d2 d3_type_flags dv m =
     and_then (rust_assert (dv_ep0_enqueue dv < 255)) (\<lambda>_.
       let trb = phys_to_virt hhdm (dv_ep0_ring_phys dv) + dv_ep0_enqueue dv * 16;
           m = put_trb D trb d0 d1 d2 (d3_type_flags OR dv_ep0_cycle dv) m
       in Inr (dv\<lparr>dv_ep0_enqueue := dv_ep0_enqueue dv + 1\<rparr>, m))"

definition ring_ep0 :: "'d xhci_hw \<Rightarrow> xhci \<Rightarrow> usb_device \<Rightarrow> 'd xhci_m \<Rightarrow> 'd xhci_m" where
  "ring_ep0 D x dv m = w32 D (db_base (x_regs x) + ucast (dv_slot_id dv) * 4) DCI_EP0 m"

definition arm_report :: "'d xhci_hw \<Rightarrow> u64 \<Rightarrow> hid_state \<Rightarrow> 'd xhci_m \<Rightarrow> hid_state \<times> 'd xhci_m" where
  "arm_report D hhdm hid m =
     (let er = hs_ep_ring_phys hid;
          (hid, m) =
            (if hs_ep_enqueue hid = EP_RING_TRBS - 1
             then let link = phys_to_virt hhdm er + hs_ep_enqueue hid * 16;
                      m = put_trb D link (ucast er) (ucast (drop_bit 32 er)) 0
                            (hs_ep_cycle hid OR push_bit 1 1 OR push_bit 10 TRB_TYPE_LINK) m
                  in (hid\<lparr>hs_ep_enqueue := 0, hs_ep_cycle := hs_ep_cycle hid XOR 1\<rparr>, m)
             else (hid, m));
          trb = phys_to_virt hhdm er + hs_ep_enqueue hid * 16;
          report = hs_report_phys hid;
          m = put_trb D trb (ucast report) (ucast (drop_bit 32 report)) 8
                (hs_ep_cycle hid OR push_bit 5 1 OR push_bit 2 1 OR push_bit 10 TRB_TYPE_NORMAL) m;
          hid = hid\<lparr>hs_ep_enqueue := hs_ep_enqueue hid + 1\<rparr>
      in (hid, w32 D (hs_db_base hid + ucast (hs_slot_id hid) * 4) (hs_ep_dci hid) m))"

section \<open>Consumers of the event ring\<close>

text \<open>The cursor of a consumer after one more event, and the acknowledgement of that cursor.\<close>

definition advance :: "usize \<Rightarrow> u32 \<Rightarrow> usize \<times> u32" where
  "advance deq ccs = (if deq + 1 = EVENT_RING_TRBS then (0, ccs XOR 1) else (deq + 1, ccs))"

definition ack_event :: "'d xhci_hw \<Rightarrow> usize \<Rightarrow> u64 \<Rightarrow> usize \<Rightarrow> 'd xhci_m \<Rightarrow> 'd xhci_m" where
  "ack_event D rt er deq m =
     (let ir0 = rt + 0x20;
          m = w64 D (ir0 + IR0_ERDP) ((er + deq * TRB_BYTES) OR ERDP_EHB) m
      in w32 D (ir0 + IR0_IMAN) (IMAN_IE OR IMAN_IP) m)"

fun event_loop ::
    "'d xhci_hw \<Rightarrow> u64 \<Rightarrow> nat \<Rightarrow> xhci \<Rightarrow> 'd xhci_m \<Rightarrow>
     ((u32 \<times> u32 \<times> u32 \<times> u32 \<times> u32) \<times> xhci \<times> 'd xhci_m) outcome" where
  "event_loop D hhdm 0 x m = Inl Panic"
| "event_loop D hhdm (Suc n) x m =
     (let p = phys_to_virt hhdm (x_event_ring_phys x) + x_event_deq x * 16;
          (d0, m) = r32 D p m;
          (d1, m) = r32 D (p + 4) m;
          (d2, m) = r32 D (p + 8) m;
          (d3, m) = r32 D (p + 12) m
      in if d3 AND 1 \<noteq> x_event_ccs x then event_loop D hhdm n x m
         else let ev_type = drop_bit 10 d3 AND 0x3F;
                  cc = drop_bit 24 d2 AND 0xFF;
                  (deq, ccs) = advance (x_event_deq x) (x_event_ccs x);
                  x = x\<lparr>x_event_deq := deq, x_event_ccs := ccs\<rparr>;
                  m = ack_event D (rt_base (x_regs x)) (x_event_ring_phys x) deq m
              in Inr ((ev_type, cc, d0, d1, d3), x, m))"

definition next_event ::
    "'d xhci_hw \<Rightarrow> u64 \<Rightarrow> xhci \<Rightarrow> 'd xhci_m \<Rightarrow>
     ((u32 \<times> u32 \<times> u32 \<times> u32 \<times> u32) \<times> xhci \<times> 'd xhci_m) outcome" where
  "next_event D hhdm x m = event_loop D hhdm POLL_LIMIT x m"

text \<open>The waits drain other events without a bound.\<close>

partial_function (option) wait_command ::
    "'d xhci_hw \<Rightarrow> u64 \<Rightarrow> xhci \<Rightarrow> 'd xhci_m \<Rightarrow> ((u32 \<times> u32) \<times> xhci \<times> 'd xhci_m) run" where
  [code]: "wait_command D hhdm x m =
     (case next_event D hhdm x m of
        Inl e \<Rightarrow> Some (Inl e)
      | Inr ((ev_type, cc, d0, d1, d3), x, m) \<Rightarrow>
          if ev_type = TRB_TYPE_CMD_COMPLETION then Some (Inr ((cc, drop_bit 24 d3 AND 0xFF), x, m))
          else wait_command D hhdm x m)"

partial_function (option) wait_transfer ::
    "'d xhci_hw \<Rightarrow> u64 \<Rightarrow> xhci \<Rightarrow> 'd xhci_m \<Rightarrow> (u32 \<times> xhci \<times> 'd xhci_m) run" where
  [code]: "wait_transfer D hhdm x m =
     (case next_event D hhdm x m of
        Inl e \<Rightarrow> Some (Inl e)
      | Inr ((ev_type, cc, d0, d1, d3), x, m) \<Rightarrow>
          if ev_type = TRB_TYPE_TRANSFER then Some (Inr (cc, x, m)) else wait_transfer D hhdm x m)"

definition try_event ::
    "'d xhci_hw \<Rightarrow> u64 \<Rightarrow> hid_state \<Rightarrow> 'd xhci_m \<Rightarrow> (u32 \<times> u32) option \<times> hid_state \<times> 'd xhci_m" where
  "try_event D hhdm hid m =
     (let p = phys_to_virt hhdm (hs_event_ring_phys hid) + hs_event_deq hid * 16;
          (d2, m) = r32 D (p + 8) m;
          (d3, m) = r32 D (p + 12) m
      in if d3 AND 1 \<noteq> hs_event_ccs hid then (None, hid, m)
         else let ev_type = drop_bit 10 d3 AND 0x3F;
                  cc = drop_bit 24 d2 AND 0xFF;
                  (deq, ccs) = advance (hs_event_deq hid) (hs_event_ccs hid);
                  hid = hid\<lparr>hs_event_deq := deq, hs_event_ccs := ccs\<rparr>;
                  m = ack_event D (hs_rt_base hid) (hs_event_ring_phys hid) deq m
              in (Some (ev_type, cc), hid, m))"

partial_function (option) service ::
    "'d xhci_hw \<Rightarrow> u64 \<Rightarrow> hid_state \<Rightarrow> kbd \<Rightarrow> 'd xhci_m \<Rightarrow> (hid_state \<times> kbd \<times> 'd xhci_m) run" where
  [code]: "service D hhdm hid k m =
     (case try_event D hhdm hid m of
        (None, hid, m) \<Rightarrow> Some (Inr (hid, k, m))
      | (Some (ev_type, cc), hid, m) \<Rightarrow>
          if ev_type \<noteq> TRB_TYPE_TRANSFER then service D hhdm hid k m
          else (case read_bytes D (phys_to_virt hhdm (hs_report_phys hid)) 8 m of (report, m) \<Rightarrow>
               (case decode_report report hid k of
                  Inl e \<Rightarrow> Some (Inl e)
                | Inr (hid, k) \<Rightarrow>
                    (case arm_report D hhdm hid m of (hid, m) \<Rightarrow> service D hhdm hid k m))))"

text \<open>One round of the poller; the yield that follows is the scheduler's.\<close>

definition hid_poll_round :: "'d xhci_hw \<Rightarrow> u64 \<Rightarrow> kbd \<Rightarrow> 'd xhci_m \<Rightarrow> (kbd \<times> 'd xhci_m) run" where
  "hid_poll_round D hhdm k m =
     (case xm_hid m of
        None \<Rightarrow> Some (Inr (k, m))
      | Some hid \<Rightarrow> run_then (service D hhdm hid k m) (\<lambda>(hid, k, m). Some (Inr (k, m\<lparr>xm_hid := Some hid\<rparr>))))"

end
