(* ===== verification/XhciEvents.thy ===== *)
theory XhciEvents
  imports XhciRing
begin

unbundle bit_operations_syntax

text \<open>
  The correctness of the xHCI rings of \<open>XhciRing\<close>: the consumers of the event ring against every controller
  that follows the cycle-bit protocol, and the producer of the keyboard's transfer ring.
\<close>

section \<open>The event ring\<close>

text \<open>
  A controller posts events one after the other around the ring, each as a whole, with a
  cycle bit that is 1 on the first lap, 0 on the second and so on; the driver zeroed the ring before.
\<close>

definition lap_cycle :: "nat \<Rightarrow> u32" where
  "lap_cycle n = (if even (n div 16) then 1 else 0)"

definition ev_dword :: "(nat \<Rightarrow> nat \<Rightarrow> u32) \<Rightarrow> nat \<Rightarrow> nat \<Rightarrow> u32" where
  "ev_dword ev n j = (if j = 3 then unset_bit 0 (ev n 3) OR lap_cycle n else ev n j)"

text \<open>Dword \<open>j\<close> of slot \<open>i\<close> when \<open>p\<close> events have been posted.\<close>

definition slot_dword :: "(nat \<Rightarrow> nat \<Rightarrow> u32) \<Rightarrow> nat \<Rightarrow> nat \<Rightarrow> nat \<Rightarrow> u32" where
  "slot_dword ev p i j = (if i < p then ev_dword ev (i + 16 * ((p - 1 - i) div 16)) j else 0)"

lemma lap_cycle_bit: "lap_cycle n AND 1 = lap_cycle n" "lap_cycle n XOR 1 = lap_cycle (n + 16)"
  by (auto simp: lap_cycle_def div_add_self2)

lemma lap_cycle_far: "lap_cycle (n + 16 * q) = lap_cycle n \<longleftrightarrow> even q"
  by (auto simp: lap_cycle_def)

lemma ev_dword_cycle: "ev_dword ev n 3 AND 1 = lap_cycle n"
  by (rule bit_eqI) (auto simp: ev_dword_def lap_cycle_def bit_simps)

lemma ev_dword_high: "drop_bit (Suc k) (ev_dword ev n 3) = drop_bit (Suc k) (ev n 3)"
  by (rule bit_eqI) (auto simp: ev_dword_def lap_cycle_def bit_simps dest: bit_imp_le_length)

lemma slot_dword_at:
  assumes "c < p"
  shows "slot_dword ev p (c mod 16) j = ev_dword ev (c + 16 * ((p - 1 - c) div 16)) j"
proof -
  have "p - 1 - c mod 16 = (p - 1 - c) + 16 * (c div 16)" using assms by (simp add: mod_mult_div_eq) presburger
  then have "c mod 16 + 16 * ((p - 1 - c mod 16) div 16) = c + 16 * ((p - 1 - c) div 16)"
    by simp
  moreover have "c mod 16 < p" using assms by (meson mod_less_eq_dividend order_le_less_trans)
  ultimately show ?thesis by (simp add: slot_dword_def)
qed

lemma slot_cycle_empty: "slot_dword ev c (c mod 16) 3 AND 1 \<noteq> lap_cycle c"
proof (cases "c < 16")
  case True
  then show ?thesis by (simp add: slot_dword_def lap_cycle_def)
next
  case False
  then have "c = (c - 16) + 16" by simp
  have "slot_dword ev c ((c - 16) mod 16) 3 = ev_dword ev (c - 16) 3"
    using False by (subst slot_dword_at) auto
  moreover have "(c - 16) mod 16 = c mod 16" using False by (simp add: le_mod_geq)
  moreover have "lap_cycle (c - 16) \<noteq> lap_cycle c"
    using lap_cycle_far [of "c - 16" 1] False by simp
  ultimately show ?thesis by (simp add: ev_dword_cycle)
qed

text \<open>What a consumer that has read \<open>c\<close> events finds in its slot.\<close>

lemma slot_valid_iff:
  assumes "c \<le> p"
  shows "slot_dword ev p (c mod 16) 3 AND 1 = lap_cycle c \<longleftrightarrow> c < p \<and> even ((p - 1 - c) div 16)"
proof (cases "c = p")
  case True then show ?thesis using slot_cycle_empty by simp
next
  case False
  then have "c < p" using assms by simp
  then show ?thesis by (simp add: slot_dword_at ev_dword_cycle lap_cycle_far)
qed

lemma slot_valid: "c \<le> p \<Longrightarrow> p \<le> c + 16 \<Longrightarrow> slot_dword ev p (c mod 16) 3 AND 1 = lap_cycle c \<longleftrightarrow> c < p"
  by (subst slot_valid_iff) auto

lemma slot_event: "c < p \<Longrightarrow> p \<le> c + 16 \<Longrightarrow> slot_dword ev p (c mod 16) j = ev_dword ev c j"
  by (simp add: slot_dword_at)

definition cursor :: "nat \<Rightarrow> usize \<times> u32" where
  "cursor c = (of_nat (c mod 16), lap_cycle c)"

lemma advance_cursor: "advance (fst (cursor c)) (snd (cursor c)) = cursor (Suc c)"
proof -
  have "c mod 16 < 16" by simp
  then have "(of_nat (c mod 16) :: usize) + 1 = 16 \<longleftrightarrow> c mod 16 = 15"
    by (subst word_unat_eq_iff) (auto simp: unat_word_ariths unat_of_nat)
  moreover have "lap_cycle (Suc c) = (if c mod 16 = 15 then lap_cycle c XOR 1 else lap_cycle c)"
    by (auto simp: lap_cycle_def div_Suc mod_Suc)
  moreover have "Suc c mod 16 = (if c mod 16 = 15 then 0 else Suc (c mod 16))" by (simp add: mod_Suc)
  ultimately show ?thesis by (auto simp: cursor_def advance_def EVENT_RING_TRBS_def add.commute)
qed

text \<open>
  A conforming controller: what its state says it has posted and what the driver has acknowledged.
  A load of the ring sees whole events, possibly posted just before the load; no more than 16
  events are outstanding; and a store to ERDP with the slot after the acknowledged event
  acknowledges it.
\<close>

record 'd event_view =
  ev_posted :: "'d \<Rightarrow> nat"
  ev_acked :: "'d \<Rightarrow> nat"

definition event_controller ::
    "'d xhci_hw \<Rightarrow> 'd event_view \<Rightarrow> (nat \<Rightarrow> nat \<Rightarrow> u32) \<Rightarrow> u64 \<Rightarrow> u64 \<Rightarrow> usize \<Rightarrow> bool" where
  "event_controller D V ev hhdm er rt \<longleftrightarrow>
     (\<forall>d i j. i < 16 \<longrightarrow> j < 4 \<longrightarrow> ev_posted V d \<le> ev_acked V d + 16 \<longrightarrow>
        (\<exists>d'. xh_read D 32 (er + hhdm + of_nat (16 * i + 4 * j)) d =
                (ucast (slot_dword ev (ev_posted V d') i j), d') \<and>
              ev_posted V d \<le> ev_posted V d' \<and> ev_posted V d' \<le> ev_acked V d' + 16 \<and> ev_acked V d' = ev_acked V d)) \<and>
     (\<forall>d. ev_acked V d < ev_posted V d \<longrightarrow> ev_posted V d \<le> ev_acked V d + 16 \<longrightarrow>
        (let d' = xh_write D 64 (rt + 0x38) ((er + of_nat (16 * (Suc (ev_acked V d) mod 16))) OR 8) d
         in ev_acked V d' = Suc (ev_acked V d) \<and> ev_posted V d \<le> ev_posted V d' \<and> ev_posted V d' \<le> ev_acked V d' + 16)) \<and>
     (\<forall>d. ev_posted V d \<le> ev_acked V d + 16 \<longrightarrow>
        (let d' = xh_write D 32 (rt + 0x20) 3 d
         in ev_acked V d' = ev_acked V d \<and> ev_posted V d \<le> ev_posted V d' \<and> ev_posted V d' \<le> ev_acked V d' + 16))"

text \<open>The driver and the controller agree that \<open>c\<close> events have been consumed.\<close>

definition consumed :: "'d event_view \<Rightarrow> nat \<Rightarrow> usize \<Rightarrow> u32 \<Rightarrow> 'd \<Rightarrow> bool" where
  "consumed V c deq ccs d \<longleftrightarrow> (deq, ccs) = cursor c \<and> ev_acked V d = c \<and> c \<le> ev_posted V d \<and> ev_posted V d \<le> c + 16"

lemma r32_event:
  assumes "event_controller D V ev hhdm er rt" "consumed V c deq ccs (xm_dev m)" "j < 4" "k = of_nat (4 * j)"
  shows "\<exists>d'. r32 D (phys_to_virt hhdm er + deq * 16 + k) m =
      (slot_dword ev (ev_posted V d') (c mod 16) j,
       x_io (X_read 32 (phys_to_virt hhdm er + deq * 16 + k) (ucast (slot_dword ev (ev_posted V d') (c mod 16) j))) d' m) \<and>
    ev_posted V (xm_dev m) \<le> ev_posted V d' \<and> consumed V c deq ccs d'"
proof -
  have a: "phys_to_virt hhdm er + deq * 16 + k = er + hhdm + of_nat (16 * (c mod 16) + 4 * j)"
    using assms(2,4) by (simp add: consumed_def cursor_def phys_to_virt_def algebra_simps)
  have "c mod 16 < 16" by simp
  with assms(1-3) obtain d' where
    r: "xh_read D 32 (er + hhdm + of_nat (16 * (c mod 16) + 4 * j)) (xm_dev m) =
        (ucast (slot_dword ev (ev_posted V d') (c mod 16) j), d')" and
    d: "ev_posted V (xm_dev m) \<le> ev_posted V d'" "ev_posted V d' \<le> ev_acked V d' + 16" "ev_acked V d' = ev_acked V (xm_dev m)"
    unfolding event_controller_def consumed_def by blast
  have u: "ucast (ucast w :: u64) = w" for w :: u32 by (rule bit_eqI) (simp add: bit_simps)
  show ?thesis
    using d assms(2) unfolding a r32_def r by (intro exI [of _ d']) (auto simp: consumed_def u)
qed

lemma x_io_simps [simp]:
  "xm_dev (x_io e d m) = d" "xm_log (x_io e d m) = xm_log m @ [e]" "xm_frames (x_io e d m) = xm_frames m"
  "xm_cfg (x_io e d m) = xm_cfg m" "xm_idt (x_io e d m) = xm_idt m" "xm_hid (x_io e d m) = xm_hid m"
  by (simp_all add: x_io_def)

abbreviation event_type :: "u32 \<Rightarrow> u32" where "event_type d3 \<equiv> drop_bit 10 d3 AND 0x3F"
abbreviation event_code :: "u32 \<Rightarrow> u32" where "event_code d2 \<equiv> drop_bit 24 d2 AND 0xFF"

definition at_cursor :: "nat \<Rightarrow> xhci \<Rightarrow> xhci" where
  "at_cursor c x = x\<lparr>x_event_deq := fst (cursor c), x_event_ccs := snd (cursor c)\<rparr>"

lemma event_type_dword: "event_type (ev_dword ev n 3) = event_type (ev n 3)"
  using ev_dword_high [of 9] by simp

text \<open>One round of polling.\<close>

lemma event_loop_round:
  assumes ctl: "event_controller D V ev hhdm (x_event_ring_phys x) rt" and
    con: "consumed V c (x_event_deq x) (x_event_ccs x) (xm_dev m)"
  shows "\<exists>p1 p2 p3 m4.
    ev_posted V (xm_dev m) \<le> p1 \<and> p1 \<le> p2 \<and> p2 \<le> p3 \<and> p3 \<le> ev_posted V (xm_dev m4) \<and>
    consumed V c (x_event_deq x) (x_event_ccs x) (xm_dev m4) \<and>
    event_loop D hhdm (Suc n) x m =
      (if c < ev_posted V (xm_dev m4)
       then Inr ((event_type (ev c 3), event_code (slot_dword ev p3 (c mod 16) 2), slot_dword ev p1 (c mod 16) 0,
                  slot_dword ev p2 (c mod 16) 1, ev_dword ev c 3), at_cursor (Suc c) x,
                 ack_event D (rt_base (x_regs x)) (x_event_ring_phys x) (fst (cursor (Suc c))) m4)
       else event_loop D hhdm n x m4)"
proof -
  let ?a = "phys_to_virt hhdm (x_event_ring_phys x) + x_event_deq x * 16"
  let ?s = "\<lambda>d j. slot_dword ev (ev_posted V d) (c mod 16) j"
  let ?con = "\<lambda>d. consumed V c (x_event_deq x) (x_event_ccs x) d"
  obtain d1 where 1: "r32 D ?a m = (?s d1 0, x_io (X_read 32 ?a (ucast (?s d1 0))) d1 m)"
    "ev_posted V (xm_dev m) \<le> ev_posted V d1" "?con d1"
    using r32_event [OF ctl con, of 0 0] by auto
  define m1 where "m1 = x_io (X_read 32 ?a (ucast (?s d1 0))) d1 m"
  obtain d2 where 2: "r32 D (?a + 4) m1 = (?s d2 1, x_io (X_read 32 (?a + 4) (ucast (?s d2 1))) d2 m1)"
    "ev_posted V d1 \<le> ev_posted V d2" "?con d2"
    using r32_event [OF ctl, of c _ _ m1 1 4] 1(3) by (auto simp: m1_def)
  define m2 where "m2 = x_io (X_read 32 (?a + 4) (ucast (?s d2 1))) d2 m1"
  obtain d3 where 3: "r32 D (?a + 8) m2 = (?s d3 2, x_io (X_read 32 (?a + 8) (ucast (?s d3 2))) d3 m2)"
    "ev_posted V d2 \<le> ev_posted V d3" "?con d3"
    using r32_event [OF ctl, of c _ _ m2 2 8] 2(3) by (auto simp: m2_def)
  define m3 where "m3 = x_io (X_read 32 (?a + 8) (ucast (?s d3 2))) d3 m2"
  obtain d4 where 4: "r32 D (?a + 12) m3 = (?s d4 3, x_io (X_read 32 (?a + 12) (ucast (?s d4 3))) d4 m3)"
    "ev_posted V d3 \<le> ev_posted V d4" "?con d4"
    using r32_event [OF ctl, of c _ _ m3 3 12] 3(3) by (auto simp: m3_def)
  define m4 where "m4 = x_io (X_read 32 (?a + 12) (ucast (?s d4 3))) d4 m3"
  have p4: "c \<le> ev_posted V d4" "ev_posted V d4 \<le> c + 16" and cc: "x_event_ccs x = lap_cycle c"
    and cur: "advance (x_event_deq x) (x_event_ccs x) = cursor (Suc c)"
    using 4(3) advance_cursor [of c] by (auto simp: consumed_def cursor_def)
  have e: "event_loop D hhdm (Suc n) x m =
      (if c < ev_posted V d4
       then Inr ((event_type (ev c 3), event_code (?s d3 2), ?s d1 0, ?s d2 1, ev_dword ev c 3), at_cursor (Suc c) x,
                 ack_event D (rt_base (x_regs x)) (x_event_ring_phys x) (fst (cursor (Suc c))) m4)
       else event_loop D hhdm n x m4)"
    using 1(1) [folded m1_def] 2(1) [folded m2_def] 3(1) [folded m3_def] 4(1) [folded m4_def] slot_valid [OF p4, of ev] slot_event [OF _ p4(2), of ev 3]
    by (cases "cursor (Suc c)")
      (auto simp: cc cur [unfolded cc] Let_def at_cursor_def event_type_dword)
  show ?thesis
    using e 1(2) 2(2) 3(2) 4(2, 3)
    by (intro exI [of _ "ev_posted V d1"] exI [of _ "ev_posted V d2"] exI [of _ "ev_posted V d3"] exI [of _ m4])
      (simp add: m4_def)
qed

lemma event_controller_acks:
  assumes "event_controller D V ev hhdm er rt" "ev_posted V d \<le> ev_acked V d + 16"
  shows "ev_acked V d < ev_posted V d \<Longrightarrow>
      d' = xh_write D 64 (rt + 0x38) ((er + of_nat (16 * (Suc (ev_acked V d) mod 16))) OR 8) d \<Longrightarrow>
      ev_acked V d' = Suc (ev_acked V d) \<and> ev_posted V d \<le> ev_posted V d' \<and> ev_posted V d' \<le> ev_acked V d' + 16"
    and "d' = xh_write D 32 (rt + 0x20) 3 d \<Longrightarrow>
      ev_acked V d' = ev_acked V d \<and> ev_posted V d \<le> ev_posted V d' \<and> ev_posted V d' \<le> ev_acked V d' + 16"
  using assms unfolding event_controller_def Let_def by blast+

lemma ack_event_consumed:
  assumes ctl: "event_controller D V ev hhdm er rt" and
    con: "consumed V c deq ccs (xm_dev m)" and p: "c < ev_posted V (xm_dev m)"
  shows "consumed V (Suc c) (fst (cursor (Suc c))) (snd (cursor (Suc c)))
    (xm_dev (ack_event D rt er (fst (cursor (Suc c))) m))"
proof -
  have a: "ev_acked V (xm_dev m) = c" "ev_posted V (xm_dev m) \<le> c + 16" using con by (auto simp: consumed_def)
  let ?w = "(er + of_nat (16 * (Suc c mod 16))) OR 8"
  define d1 where "d1 = xh_write D 64 (rt + 0x38) ?w (xm_dev m)"
  define d2 where "d2 = xh_write D 32 (rt + 0x20) 3 d1"
  have 1: "ev_acked V d1 = Suc c" "ev_posted V (xm_dev m) \<le> ev_posted V d1" "ev_posted V d1 \<le> ev_acked V d1 + 16"
    using event_controller_acks(1) [OF ctl, of "xm_dev m" d1] a p by (auto simp: d1_def)
  have 2: "ev_acked V d2 = Suc c" "ev_posted V d1 \<le> ev_posted V d2" "ev_posted V d2 \<le> ev_acked V d2 + 16"
    using event_controller_acks(2) [OF ctl, of d1 d2] 1 by (auto simp: d2_def)
  have w: "(er + fst (cursor (Suc c)) * TRB_BYTES) OR ERDP_EHB = ?w"
    by (simp add: cursor_def TRB_BYTES_def ERDP_EHB_def mult.commute)
  have "xm_dev (ack_event D rt er (fst (cursor (Suc c))) m) = d2"
    unfolding d2_def d1_def ack_event_def Let_def w
    by (simp add: w64_def w32_def IR0_ERDP_def IR0_IMAN_def IMAN_IE_def IMAN_IP_def add.commute [of _ rt])
  then show ?thesis using 1 2 p by (simp add: consumed_def)
qed

lemma event_loop_in_order:
  assumes ctl: "event_controller D V ev hhdm (x_event_ring_phys x) (rt_base (x_regs x))" and
    con: "consumed V c (x_event_deq x) (x_event_ccs x) (xm_dev m)"
  shows "event_loop D hhdm n x m = Inl Panic \<or>
    (\<exists>cc d0 d1 m'. event_loop D hhdm n x m =
        Inr ((event_type (ev c 3), cc, d0, d1, ev_dword ev c 3), at_cursor (Suc c) x, m') \<and>
      consumed V (Suc c) (fst (cursor (Suc c))) (snd (cursor (Suc c))) (xm_dev m'))"
  using con
proof (induction n arbitrary: m)
  case (Suc n)
  obtain p1 p2 p3 m4 where r: "consumed V c (x_event_deq x) (x_event_ccs x) (xm_dev m4)"
    "event_loop D hhdm (Suc n) x m =
      (if c < ev_posted V (xm_dev m4)
       then Inr ((event_type (ev c 3), event_code (slot_dword ev p3 (c mod 16) 2), slot_dword ev p1 (c mod 16) 0,
                  slot_dword ev p2 (c mod 16) 1, ev_dword ev c 3), at_cursor (Suc c) x,
                 ack_event D (rt_base (x_regs x)) (x_event_ring_phys x) (fst (cursor (Suc c))) m4)
       else event_loop D hhdm n x m4)"
    using event_loop_round [OF ctl Suc.prems] by blast
  show ?case
  proof (cases "c < ev_posted V (xm_dev m4)")
    case True
    then show ?thesis using r ack_event_consumed [OF ctl r(1) True] by auto
  next
    case False
    then show ?thesis using r Suc.IH [OF r(1)] by simp
  qed
qed simp

text \<open>
  C11. Events are consumed in order. With every controller that follows the cycle-bit protocol,
  after \<open>c\<close> events (any \<open>c\<close>, so across every wrap of the 16-entry ring), next\_event either
  gives up after its 50 million polls or returns the type and the last dword of event number
  \<open>c\<close>, never of a stale entry, advances its cursor to \<open>c + 1\<close> and acknowledges exactly that
  event to the controller. If the event was there when the call began, it returns, and the
  completion code and the parameter are those of event \<open>c\<close> too.
\<close>
theorem next_event_in_order:
  assumes ctl: "event_controller D V ev hhdm (x_event_ring_phys x) (rt_base (x_regs x))" and
    con: "consumed V c (x_event_deq x) (x_event_ccs x) (xm_dev m)"
  defines "next \<equiv> consumed V (Suc c) (fst (cursor (Suc c))) (snd (cursor (Suc c)))"
  shows "(next_event D hhdm x m = Inl Panic \<or>
      (\<exists>cc d0 d1 m'. next_event D hhdm x m =
          Inr ((event_type (ev c 3), cc, d0, d1, ev_dword ev c 3), at_cursor (Suc c) x, m') \<and> next (xm_dev m'))) \<and>
    (c < ev_posted V (xm_dev m) \<longrightarrow>
      (\<exists>m'. next_event D hhdm x m =
          Inr ((event_type (ev c 3), event_code (ev c 2), ev c 0, ev c 1, ev_dword ev c 3), at_cursor (Suc c) x, m') \<and>
        next (xm_dev m')))"
proof (intro conjI impI)
  show "next_event D hhdm x m = Inl Panic \<or>
      (\<exists>cc d0 d1 m'. next_event D hhdm x m =
          Inr ((event_type (ev c 3), cc, d0, d1, ev_dword ev c 3), at_cursor (Suc c) x, m') \<and> next (xm_dev m'))"
    unfolding next_event_def next_def by (rule event_loop_in_order [OF ctl con])
next
  assume c: "c < ev_posted V (xm_dev m)"
  have n: "POLL_LIMIT = Suc 49999999" by (simp add: POLL_LIMIT_def)
  obtain p1 p2 p3 m4 where r: "ev_posted V (xm_dev m) \<le> p1" "p1 \<le> p2" "p2 \<le> p3" "p3 \<le> ev_posted V (xm_dev m4)"
    "consumed V c (x_event_deq x) (x_event_ccs x) (xm_dev m4)"
    "event_loop D hhdm (Suc 49999999) x m =
      (if c < ev_posted V (xm_dev m4)
       then Inr ((event_type (ev c 3), event_code (slot_dword ev p3 (c mod 16) 2), slot_dword ev p1 (c mod 16) 0,
                  slot_dword ev p2 (c mod 16) 1, ev_dword ev c 3), at_cursor (Suc c) x,
                 ack_event D (rt_base (x_regs x)) (x_event_ring_phys x) (fst (cursor (Suc c))) m4)
       else event_loop D hhdm 49999999 x m4)"
    using event_loop_round [OF ctl con] by blast
  have p: "c < p1" "c < p2" "c < p3" "c < ev_posted V (xm_dev m4)" "p1 \<le> c + 16" "p2 \<le> c + 16" "p3 \<le> c + 16"
    using c r(1-5) by (auto simp: consumed_def)
  have d: "ev_dword ev c j = ev c j" if "j \<noteq> 3" for j using that by (simp add: ev_dword_def)
  show "\<exists>m'. next_event D hhdm x m =
          Inr ((event_type (ev c 3), event_code (ev c 2), ev c 0, ev c 1, ev_dword ev c 3), at_cursor (Suc c) x, m') \<and>
        next (xm_dev m')"
    unfolding next_event_def next_def n r(6)
    using p ack_event_consumed [OF ctl r(5) p(4)] by (simp add: slot_event d)
qed

section \<open>A controller for the witnesses\<close>

text \<open>
  Its state counts the loads it has served and the acknowledged events. It posts event 0, a
  successful command completion, with load number \<open>late\<close>, and nothing else; the ring is at 0x2000 and the
  runtime registers at 0x1000.
\<close>

definition noop_event :: "nat \<Rightarrow> nat \<Rightarrow> u32" where
  "noop_event n j = (if j = 2 then 0x01000000 else if j = 3 then push_bit 10 TRB_TYPE_CMD_COMPLETION else 0)"

definition late_view :: "nat \<Rightarrow> (nat \<times> nat) event_view" where
  "late_view late = \<lparr>ev_posted = (\<lambda>(l, a). if late \<le> l then 1 else 0), ev_acked = (\<lambda>(l, a). min a 1)\<rparr>"

definition late_hw :: "nat \<Rightarrow> (nat \<times> nat) xhci_hw" where
  "late_hw late = \<lparr>xh_read = (\<lambda>w a (l, k).
       (let off = unat (a - 0x2000) in ucast (slot_dword noop_event (if late \<le> Suc l then 1 else 0) (off div 16) (off mod 16 div 4)),
        (Suc l, k))),
     xh_write = (\<lambda>w a v (l, k). if w = 64 then (l, Suc k) else (l, k)),
     xh_zero = (\<lambda>a n d. d), xh_irq_count = (\<lambda>d. (1, d))\<rparr>"

lemma late_controller: "event_controller (late_hw late) (late_view late) noop_event 0 0x2000 0x1000"
proof -
  have off: "unat (of_nat (16 * i + 4 * j) :: usize) = 16 * i + 4 * j" if "i < 16" "j < 4" for i j
    using that by (intro unat_of_nat_small) simp
  have dm: "4 * j mod 16 div 4 = j" if "j < 4" for j :: nat
    using that by simp
  show ?thesis
    unfolding event_controller_def
  proof (intro conjI allI impI)
    fix d :: "nat \<times> nat" and i j :: nat
    assume ij: "i < 16" "j < 4"
    obtain l k where d: "d = (l, k)" by force
    show "\<exists>d'. xh_read (late_hw late) 32 (0x2000 + 0 + of_nat (16 * i + 4 * j)) d =
        (ucast (slot_dword noop_event (ev_posted (late_view late) d') i j), d') \<and>
      ev_posted (late_view late) d \<le> ev_posted (late_view late) d' \<and>
      ev_posted (late_view late) d' \<le> ev_acked (late_view late) d' + 16 \<and>
      ev_acked (late_view late) d' = ev_acked (late_view late) d"
      by (intro exI [of _ "(Suc l, k)"])
        (simp add: d late_hw_def late_view_def off [OF ij] dm [OF ij(2)] ij(2) Let_def del: of_nat_add of_nat_mult)
  qed (auto simp: late_hw_def late_view_def Let_def split: prod.splits if_splits)
qed

definition late_xhci :: xhci where
  "late_xhci = \<lparr>x_regs = \<lparr>cap_base = 0, op_base = 0, rt_base = 0x1000, db_base = 0\<rparr>, x_dcbaa_phys = 0,
     x_cmd_ring_phys = 0, x_cmd_enqueue = 1, x_cmd_cycle = 1, x_event_ring_phys = 0x2000, x_event_deq = 0,
     x_event_ccs = 1, x_ctx_size = 32, x_max_ports = 0\<rparr>"

definition late_m :: "(nat \<times> nat) xhci_m" where
  "late_m = \<lparr>xm_dev = (0, 0), xm_log = [], xm_frames = new_frame_allocator, xm_cfg = (\<lambda>_. 0), xm_idt = idt_boot,
     xm_hid = None\<rparr>"

lemma late_consumed:
  "consumed (late_view late) 0 (x_event_deq late_xhci) (x_event_ccs late_xhci) (xm_dev late_m)"
  by (simp add: consumed_def late_view_def late_xhci_def late_m_def cursor_def lap_cycle_def)

lemma late_regs [simp]: "x_event_ring_phys late_xhci = 0x2000" "rt_base (x_regs late_xhci) = 0x1000"
  by (simp_all add: late_xhci_def)

theorem next_event_in_order_witness:
  "\<exists>m'. next_event (late_hw 0) 0 late_xhci late_m =
     Inr ((TRB_TYPE_CMD_COMPLETION, 1, 0, 0, ev_dword noop_event 0 3), at_cursor 1 late_xhci, m')"
proof -
  have "event_type (noop_event 0 3) = TRB_TYPE_CMD_COMPLETION" "event_code (noop_event 0 2) = 1"
    "noop_event 0 0 = 0" "noop_event 0 1 = 0" by code_simp+
  moreover have "0 < ev_posted (late_view 0) (xm_dev late_m)" by (simp add: late_view_def late_m_def)
  ultimately show ?thesis
    using next_event_in_order [of "late_hw 0" "late_view 0" noop_event 0 late_xhci 0 late_m]
      late_controller [of 0] late_consumed [of 0] by auto
qed

lemma late_loop:
  "\<exists>m'. event_loop (late_hw 4) 0 (Suc n) late_xhci late_m =
     Inr ((TRB_TYPE_CMD_COMPLETION, 0, 0, 0, ev_dword noop_event 0 3), at_cursor 1 late_xhci, m')"
proof -
  have "slot_dword noop_event 0 0 0 = 0" "slot_dword noop_event 0 0 1 = 0" "slot_dword noop_event 0 0 2 = 0"
    "slot_dword noop_event 1 0 3 = 0x00008401" "ev_dword noop_event 0 3 = 0x00008401"
    "event_type (0x00008401 :: u32) = TRB_TYPE_CMD_COMPLETION" "advance 0 1 = (1, 1)" "cursor 1 = (1, 1)"
    by code_simp+
  then show ?thesis
    by (simp add: Let_def r32_def late_hw_def late_xhci_def late_m_def phys_to_virt_def at_cursor_def TRB_TYPE_CMD_COMPLETION_def)
qed

text \<open>
  An event that arrives while it is being read is torn. next\_event loads the dword with
  the cycle bit last, so a conforming controller that posts its event, a command completion with
  code 1 (success), between the third and the fourth load makes it return that completion with code 0,
  which it loaded before the event was there. The callers take that for a failed command.
\<close>
theorem next_event_torn:
  "event_controller (late_hw 4) (late_view 4) noop_event 0 (x_event_ring_phys late_xhci) (rt_base (x_regs late_xhci)) \<and>
   consumed (late_view 4) 0 (x_event_deq late_xhci) (x_event_ccs late_xhci) (xm_dev late_m) \<and>
   event_code (noop_event 0 2) = 1 \<and>
   (\<exists>m'. next_event (late_hw 4) 0 late_xhci late_m =
      Inr ((TRB_TYPE_CMD_COMPLETION, 0, 0, 0, ev_dword noop_event 0 3), at_cursor 1 late_xhci, m'))"
proof -
  have n: "POLL_LIMIT = Suc 49999999" by (simp add: POLL_LIMIT_def)
  have "event_code (noop_event 0 2) = 1" by code_simp
  then show ?thesis
    using late_controller [of 4] late_consumed [of 4] late_loop [of 49999999]
    unfolding next_event_def n by simp
qed

section \<open>Two consumers of one ring\<close>

text \<open>A consumer whose count is behind that of the acknowledged events.\<close>

definition stale :: "'d event_view \<Rightarrow> (nat \<Rightarrow> nat \<Rightarrow> u32) \<Rightarrow> 'd xhci_hw \<Rightarrow> u64 \<Rightarrow> u64 \<Rightarrow> nat \<Rightarrow> 'd \<Rightarrow> bool" where
  "stale V ev D hhdm er c d \<longleftrightarrow>
     (\<forall>j < 4. xh_read D 32 (er + hhdm + of_nat (16 * (c mod 16) + 4 * j)) d =
        (ucast (slot_dword ev (ev_posted V d) (c mod 16) j), d)) \<and> c \<le> ev_posted V d"

lemma try_event_stale:
  assumes "stale V ev D hhdm (hs_event_ring_phys hid) c (xm_dev m)"
    "(hs_event_deq hid, hs_event_ccs hid) = cursor c"
  defines "p \<equiv> ev_posted V (xm_dev m)"
  shows "\<exists>m'. try_event D hhdm hid m =
    (if c < p \<and> even ((p - 1 - c) div 16)
     then let n = c + 16 * ((p - 1 - c) div 16)
          in (Some (event_type (ev n 3), event_code (ev n 2)),
              hid\<lparr>hs_event_deq := fst (cursor (Suc c)), hs_event_ccs := snd (cursor (Suc c))\<rparr>, m')
     else (None, hid, m'))"
proof -
  let ?a = "phys_to_virt hhdm (hs_event_ring_phys hid) + hs_event_deq hid * 16"
  let ?s = "\<lambda>j. slot_dword ev p (c mod 16) j"
  have u: "ucast (ucast w :: u64) = w" for w :: u32 by (rule bit_eqI) (simp add: bit_simps)
  have a: "?a + of_nat (4 * j) = hs_event_ring_phys hid + hhdm + of_nat (16 * (c mod 16) + 4 * j)" for j
    using assms(2) by (simp add: cursor_def phys_to_virt_def algebra_simps)
  have r: "\<exists>m'. r32 D (?a + of_nat (4 * j)) m1 = (?s j, m') \<and> xm_dev m' = xm_dev m" if "xm_dev m1 = xm_dev m" "j < 4" for j m1
    using assms(1) that unfolding stale_def a p_def r32_def by (simp add: u)
  obtain m1 where m1: "r32 D (?a + 8) m = (?s 2, m1)" "xm_dev m1 = xm_dev m" using r [of m 2] by auto
  obtain m2 where m2: "r32 D (?a + 12) m1 = (?s 3, m2)" "xm_dev m2 = xm_dev m" using r [of m1 3] m1(2) by auto
  have c: "c \<le> p" using assms(1) by (simp add: stale_def p_def)
  have cc: "hs_event_ccs hid = lap_cycle c" and cur: "advance (hs_event_deq hid) (lap_cycle c) = cursor (Suc c)"
    using assms(2) advance_cursor [of c] by (simp_all add: cursor_def)
  note v = slot_valid_iff [OF c, of ev]
  show ?thesis
  proof (cases "c < p \<and> even ((p - 1 - c) div 16)")
    case True
    let ?n = "c + 16 * ((p - 1 - c) div 16)"
    have s: "?s 3 = ev_dword ev ?n 3" "?s 2 = ev ?n 2" using True by (simp_all add: slot_dword_at ev_dword_def)
    show ?thesis
      using True m1(1) m2(1) v cc cur
      by (cases "cursor (Suc c)") (simp add: try_event_def Let_def s event_type_dword)
  next
    case False
    then show ?thesis using m1(1) m2(1) v cc by (simp add: try_event_def Let_def)
  qed
qed

text \<open>
  The keyboard poller inherits a cursor that goes stale. setup\_hid\_keyboard copies the
  position of the enumeration in the event ring, say after \<open>c\<close> events, into the poller's state while the
  enumeration of the remaining ports goes on. When \<open>p\<close> events have been posted by the time the poller
  runs, try\_event finds nothing if \<open>p = c\<close>, the next event if at most 16 were posted since,
  and on 17 to 32 events again nothing, without moving: a report of the keyboard among them is never seen. After
  still more events it returns one that is 32 further on.
\<close>
theorem hid_cursor_stale:
  assumes "stale V ev D hhdm (hs_event_ring_phys hid) c (xm_dev m)"
    "(hs_event_deq hid, hs_event_ccs hid) = cursor c" "p = ev_posted V (xm_dev m)"
  defines "found n \<equiv> \<exists>m'. try_event D hhdm hid m =
     (Some (event_type (ev n 3), event_code (ev n 2)),
      hid\<lparr>hs_event_deq := fst (cursor (Suc c)), hs_event_ccs := snd (cursor (Suc c))\<rparr>, m')"
  shows "(p = c \<or> c + 16 < p \<and> p \<le> c + 32 \<longrightarrow> (\<exists>m'. try_event D hhdm hid m = (None, hid, m'))) \<and>
    (c < p \<and> p \<le> c + 16 \<longrightarrow> found c) \<and> (c + 32 < p \<and> p \<le> c + 48 \<longrightarrow> found (c + 32))"
proof (intro conjI impI)
  note t = try_event_stale [OF assms(1, 2), folded assms(3)]
  { assume a: "p = c \<or> c + 16 < p \<and> p \<le> c + 32"
    have "\<not> (c < p \<and> even ((p - 1 - c) div 16))"
    proof (cases "p = c")
      case False
      with a have "(p - 1 - c) div 16 = 1" by auto
      then show ?thesis by simp
    qed simp
    then show "\<exists>m'. try_event D hhdm hid m = (None, hid, m')" using t by (auto split: if_splits) }
  { assume "c < p \<and> p \<le> c + 16"
    then have "c < p" "(p - 1 - c) div 16 = 0" by auto
    then show "found c" using t by (simp add: found_def Let_def) }
  { assume "c + 32 < p \<and> p \<le> c + 48"
    then have "c < p" "(p - 1 - c) div 16 = 2" by auto
    then show "found (c + 32)" using t by (simp add: found_def Let_def) }
qed

text \<open>A controller that posted 20 transfer events in the ring at 0x2000 and is quiet now.\<close>

definition quiet_hw :: "unit xhci_hw" where
  "quiet_hw = \<lparr>xh_read = (\<lambda>w a d. (let off = unat (a - 0x2000)
       in ucast (slot_dword (\<lambda>n j. if j = 3 then push_bit 10 TRB_TYPE_TRANSFER else 0) 20 (off div 16) (off mod 16 div 4)), d)),
     xh_write = (\<lambda>w a v d. d), xh_zero = (\<lambda>a n d. d), xh_irq_count = (\<lambda>d. (1, d))\<rparr>"

definition quiet_m :: "unit xhci_m" where
  "quiet_m = \<lparr>xm_dev = (), xm_log = [], xm_frames = new_frame_allocator, xm_cfg = (\<lambda>_. 0), xm_idt = idt_boot,
     xm_hid = None\<rparr>"

definition behind_hid :: hid_state where
  "behind_hid = demo_hid\<lparr>hs_event_ring_phys := 0x2000, hs_event_deq := 3, hs_event_ccs := 1\<rparr>"

theorem hid_cursor_stale_witness: "\<exists>m'. try_event quiet_hw 0 behind_hid quiet_m = (None, behind_hid, m')"
proof -
  let ?V = "\<lparr>ev_posted = (\<lambda>_. 20), ev_acked = (\<lambda>_. 20)\<rparr> :: unit event_view"
  let ?ev = "\<lambda>(n :: nat) j. if j = (3 :: nat) then push_bit 10 TRB_TYPE_TRANSFER else 0"
  have off: "unat ((0x2000 :: usize) + 0 + of_nat (16 * (3 mod 16) + 4 * j) - 0x2000) = 48 + 4 * j" if "j < 4" for j
    using unat_of_nat_small [of "48 + 4 * j", where 'a = 64] that by simp
  have dm: "(48 + 4 * j) div 16 = 3" "(48 + 4 * j) mod 16 div 4 = j" if "j < 4" for j :: nat
    using that by (auto simp: mod_add_left_eq [of 48 16, symmetric])
  have r: "xh_read quiet_hw 32 (0x2000 + 0 + of_nat (16 * (3 mod 16) + 4 * j)) () = (ucast (slot_dword ?ev 20 (3 mod 16) j), ())"
    if "j < 4" for j
    unfolding quiet_hw_def xhci_hw.select_convs Let_def off [OF that] dm [OF that] by simp
  have "hs_event_ring_phys behind_hid = 0x2000" by (simp add: behind_hid_def)
  then have "stale ?V ?ev quiet_hw 0 (hs_event_ring_phys behind_hid) 3 (xm_dev quiet_m)"
    unfolding stale_def using r by (auto simp del: of_nat_add of_nat_mult)
  moreover have "(hs_event_deq behind_hid, hs_event_ccs behind_hid) = cursor 3" by code_simp
  ultimately show ?thesis
    using hid_cursor_stale [of ?V ?ev quiet_hw 0 behind_hid 3 quiet_m 20] by simp
qed

section \<open>The ring of the interrupt endpoint\<close>

text \<open>The dwords of memory after the stores of a log, starting from zero.\<close>

definition image_step :: "xhci_io \<Rightarrow> (usize \<Rightarrow> u64) \<Rightarrow> usize \<Rightarrow> u64" where
  "image_step e M = (case e of X_write w a v \<Rightarrow> if w = 32 then M(a := v) else M | _ \<Rightarrow> M)"

definition image :: "xhci_io list \<Rightarrow> usize \<Rightarrow> u64" where
  "image log = fold image_step log (\<lambda>_. 0)"

lemma image_snoc [simp]: "image (log @ [X_write 32 a v]) = (image log)(a := v)"
  by (simp add: image_def image_step_def)

lemma w32_log [simp]: "xm_log (w32 D a v m) = xm_log m @ [X_write 32 a (ucast v)]"
  by (simp add: w32_def)

text \<open>The request blocks of a ring of 256 that starts at an address.\<close>

type_synonym trbs = "nat \<Rightarrow> nat \<Rightarrow> u32"

definition ring_image :: "xhci_io list \<Rightarrow> usize \<Rightarrow> trbs \<Rightarrow> bool" where
  "ring_image log a R \<longleftrightarrow> (\<forall>s < 256. \<forall>j < 4. image log (a + of_nat (16 * s + 4 * j)) = ucast (R s j))"

lemma ring_slot_inj:
  assumes "s < 256" "j < 4" "s' < 256" "j' < 4"
  shows "(a :: usize) + of_nat (16 * s + 4 * j) = a + of_nat (16 * s' + 4 * j') \<longleftrightarrow> s = s' \<and> j = j'"
proof -
  have u: "unat (of_nat (16 * s + 4 * j) :: usize) = 16 * s + 4 * j" "unat (of_nat (16 * s' + 4 * j') :: usize) = 16 * s' + 4 * j'"
    using assms by (intro unat_of_nat_small, simp)+
  have "16 * s + 4 * j = 16 * s' + 4 * j' \<longleftrightarrow> s = s' \<and> j = j'"
  proof
    assume e: "16 * s + 4 * j = 16 * s' + 4 * j'"
    have "(16 * s + 4 * j) div 16 = s" "(16 * s' + 4 * j') div 16 = s'" using assms(2, 4) by simp_all
    then show "s = s' \<and> j = j'" using e by simp
  qed simp
  then show ?thesis by (metis add_left_cancel u)
qed

lemma ring_image_store:
  assumes "ring_image log a R" "s < 256" "j < 4" "p = a + of_nat (16 * s + 4 * j)"
  shows "ring_image (log @ [X_write 32 p (ucast v)]) a (R(s := (R s)(j := v)))"
  unfolding ring_image_def
proof (intro allI impI)
  fix t k :: nat assume tk: "t < 256" "k < 4"
  show "image (log @ [X_write 32 p (ucast v)]) (a + of_nat (16 * t + 4 * k)) = ucast ((R(s := (R s)(j := v))) t k)"
    using assms tk ring_slot_inj [OF tk assms(2, 3), of a] by (auto simp: ring_image_def simp del: of_nat_add of_nat_mult)
qed

lemma ring_image_put_trb:
  assumes "ring_image (xm_log m) a R" "s < 256" "trb = a + of_nat s * 16"
  shows "ring_image (xm_log (put_trb D trb d0 d1 d2 d3 m)) a
    (R(s := (R s)(0 := d0, 1 := d1, 2 := d2, 3 := d3)))"
proof -
  have p: "trb = a + of_nat (16 * s + 4 * 0)" "trb + 4 = a + of_nat (16 * s + 4 * 1)"
    "trb + 8 = a + of_nat (16 * s + 4 * 2)" "trb + 12 = a + of_nat (16 * s + 4 * 3)"
    using assms(3) by (simp_all add: algebra_simps)
  note 1 = ring_image_store [OF assms(1, 2) _ p(1), of d0]
  note 2 = ring_image_store [OF 1 assms(2) _ p(2), of d1]
  note 3 = ring_image_store [OF 2 assms(2) _ p(3), of d2]
  note 4 = ring_image_store [OF 3 assms(2) _ p(4), of d3]
  show ?thesis using 4 by (simp add: put_trb_def)
qed

lemma four_slots: "s < 256 \<Longrightarrow> j < 4 \<Longrightarrow> 16 * s + 4 * j < (4096 :: nat)"
  by simp

lemma ring_image_outside:
  "ring_image log a R \<Longrightarrow> (\<And>k. k < 4096 \<Longrightarrow> p \<noteq> a + of_nat k) \<Longrightarrow> ring_image (log @ [X_write 32 p v]) a R"
  unfolding ring_image_def
proof (intro allI impI)
  fix s j :: nat
  assume "\<forall>s<256. \<forall>j<4. image log (a + of_nat (16 * s + 4 * j)) = ucast (R s j)"
    "\<And>k. k < 4096 \<Longrightarrow> p \<noteq> a + of_nat k" "s < 256" "j < 4"
  moreover from this have "a + of_nat (16 * s + 4 * j) \<noteq> p" by (metis (no_types) four_slots)
  ultimately show "image (log @ [X_write 32 p v]) (a + of_nat (16 * s + 4 * j)) = ucast (R s j)" by simp
qed

text \<open>The ring after \<open>n\<close> armed reports.\<close>

definition cyc :: "nat \<Rightarrow> u32" where
  "cyc q = (if even q then 1 else 0)"

definition normal_trb :: "u64 \<Rightarrow> u32 \<Rightarrow> nat \<Rightarrow> u32" where
  "normal_trb report c = (\<lambda>_. 0)(0 := ucast report, 1 := ucast (drop_bit 32 report), 2 := 8, 3 := c OR 0x424)"

definition link_trb :: "u64 \<Rightarrow> u32 \<Rightarrow> nat \<Rightarrow> u32" where
  "link_trb er c = (\<lambda>_. 0)(0 := ucast er, 1 := ucast (drop_bit 32 er), 2 := 0, 3 := c OR 0x1802)"

fun ring_after :: "u64 \<Rightarrow> u64 \<Rightarrow> nat \<Rightarrow> trbs" where
  "ring_after er report 0 = (\<lambda>_ _. 0)"
| "ring_after er report (Suc n) =
     (if 0 < n \<and> n mod 255 = 0 then (ring_after er report n)(255 := link_trb er (cyc (n div 255 - 1)))
      else ring_after er report n)(n mod 255 := normal_trb report (cyc (n div 255)))"

text \<open>The slot and the cycle state of a producer or consumer after \<open>k\<close> requests.\<close>

definition ctl_pos :: "nat \<Rightarrow> nat \<times> u32" where
  "ctl_pos k = (if k = 0 then (0, 1) else (Suc ((k - 1) mod 255), cyc ((k - 1) div 255)))"

definition arm_pos :: "nat \<Rightarrow> usize \<times> u32" where
  "arm_pos n = (of_nat (fst (ctl_pos n)), snd (ctl_pos n))"

lemma ctl_pos_cases:
  obtains (wrap) q where "k = 255 * Suc q" "ctl_pos k = (255, cyc q)"
  | (inside) "\<not> (0 < k \<and> k mod 255 = 0)" "ctl_pos k = (k mod 255, cyc (k div 255))"
proof (cases k)
  case 0 then show ?thesis by (intro inside) (simp_all add: ctl_pos_def cyc_def)
next
  case (Suc i)
  have p: "ctl_pos k = (Suc (i mod 255), cyc (i div 255))" by (simp add: ctl_pos_def Suc)
  have l: "i = 255 * (i div 255) + i mod 255" by simp
  show ?thesis
  proof (cases "i mod 255 = 254")
    case True
    then show ?thesis using p l Suc by (intro wrap [of "i div 255"]) simp_all
  next
    case False
    then have "k mod 255 = Suc (i mod 255)" "k div 255 = i div 255" using Suc by (simp_all add: mod_Suc div_Suc)
    then show ?thesis using p by (intro inside) simp_all
  qed
qed

fun arm_times :: "nat \<Rightarrow> 'd xhci_hw \<Rightarrow> u64 \<Rightarrow> hid_state \<times> 'd xhci_m \<Rightarrow> hid_state \<times> 'd xhci_m" where
  "arm_times 0 D hhdm s = s"
| "arm_times (Suc n) D hhdm s = (case arm_times n D hhdm s of (hid, m) \<Rightarrow> arm_report D hhdm hid m)"

lemma ring_image_ext:
  "ring_image log a R \<Longrightarrow> (\<And>s j. j < 4 \<Longrightarrow> R s j = R' s j) \<Longrightarrow> ring_image log a R'"
  by (simp add: ring_image_def)

lemma four: "(j :: nat) < 4 \<longleftrightarrow> j = 0 \<or> j = 1 \<or> j = 2 \<or> j = 3" by auto

lemma arm_pos_enqueue:
  "fst (arm_pos n) = 255 \<longleftrightarrow> 0 < n \<and> n mod 255 = 0"
  "\<not> (0 < n \<and> n mod 255 = 0) \<Longrightarrow> arm_pos n = (of_nat (n mod 255), cyc (n div 255))"
  "0 < n \<Longrightarrow> n mod 255 = 0 \<Longrightarrow> arm_pos n = (255, cyc (n div 255 - 1))"
proof -
  have lt: "n mod 255 < 255" by simp
  have ne: "(of_nat (n mod 255) :: usize) \<noteq> 255"
    using lt by (subst word_unat_eq_iff) (simp add: unat_of_nat_small)
  show "fst (arm_pos n) = 255 \<longleftrightarrow> 0 < n \<and> n mod 255 = 0"
    by (cases rule: ctl_pos_cases [of n]) (use ne in \<open>auto simp: arm_pos_def\<close>)
  show "\<not> (0 < n \<and> n mod 255 = 0) \<Longrightarrow> arm_pos n = (of_nat (n mod 255), cyc (n div 255))"
    by (cases rule: ctl_pos_cases [of n]) (auto simp: arm_pos_def)
  show "0 < n \<Longrightarrow> n mod 255 = 0 \<Longrightarrow> arm_pos n = (255, cyc (n div 255 - 1))"
    by (cases rule: ctl_pos_cases [of n]) (auto simp: arm_pos_def)
qed

lemma arm_report_step:
  assumes "ring_image (xm_log m) (phys_to_virt hhdm er) (ring_after er report n)"
    "hs_ep_ring_phys hid = er" "hs_report_phys hid = report" "(hs_ep_enqueue hid, hs_ep_cycle hid) = arm_pos n"
    "\<And>k. k < 4096 \<Longrightarrow> hs_db_base hid + ucast (hs_slot_id hid) * 4 \<noteq> phys_to_virt hhdm er + of_nat k"
    "arm_report D hhdm hid m = (hid', m')"
  shows "ring_image (xm_log m') (phys_to_virt hhdm er) (ring_after er report (Suc n)) \<and>
    hid' = hid\<lparr>hs_ep_enqueue := fst (arm_pos (Suc n)), hs_ep_cycle := snd (arm_pos (Suc n))\<rparr>"
proof -
  let ?a = "phys_to_virt hhdm er" and ?R = "ring_after er report n"
  define wrap where "wrap \<longleftrightarrow> 0 < n \<and> n mod 255 = 0"
  define m1 where "m1 = (if wrap then put_trb D (?a + of_nat 255 * 16) (ucast er) (ucast (drop_bit 32 er)) 0
      (cyc (n div 255 - 1) OR push_bit 1 1 OR push_bit 10 TRB_TYPE_LINK) m else m)"
  define R1 where "R1 = (if wrap then ?R(255 := link_trb er (cyc (n div 255 - 1))) else ?R)"
  define m2 where "m2 = put_trb D (?a + of_nat (n mod 255) * 16) (ucast report) (ucast (drop_bit 32 report)) 8
      (cyc (n div 255) OR push_bit 5 1 OR push_bit 2 1 OR push_bit 10 TRB_TYPE_NORMAL) m1"
  have or: "c OR push_bit 1 1 OR push_bit 10 TRB_TYPE_LINK = c OR 0x1802"
    "c OR push_bit 5 1 OR push_bit 2 1 OR push_bit 10 TRB_TYPE_NORMAL = c OR 0x424" for c :: u32
    by (simp_all add: TRB_TYPE_LINK_def TRB_TYPE_NORMAL_def or.assoc)
  have 1: "ring_image (xm_log m1) ?a R1"
  proof (cases wrap)
    case True
    have "ring_image (xm_log m1) ?a (?R(255 := (?R 255)(0 := ucast er, 1 := ucast (drop_bit 32 er), 2 := 0,
        3 := cyc (n div 255 - 1) OR 0x1802)))"
      using ring_image_put_trb [OF assms(1), of 255] True unfolding m1_def or by simp
    then show ?thesis
      by (rule ring_image_ext) (auto simp: R1_def True link_trb_def four)
  qed (simp add: m1_def R1_def assms(1))
  have "ring_image (xm_log m2) ?a (R1(n mod 255 := (R1 (n mod 255))(0 := ucast report,
      1 := ucast (drop_bit 32 report), 2 := 8, 3 := cyc (n div 255) OR 0x424)))"
    using ring_image_put_trb [OF 1, of "n mod 255"] unfolding m2_def or
    by (simp add: order_less_trans [OF mod_less_divisor])
  then have 2: "ring_image (xm_log m2) ?a (ring_after er report (Suc n))"
    by (rule ring_image_ext) (auto simp: R1_def wrap_def normal_trb_def four)
  have cy: "cyc (n div 255 - 1) XOR 1 = cyc (n div 255)" if wrap
    using that by (cases "n div 255") (auto simp: wrap_def cyc_def)
  have e: "arm_report D hhdm hid m =
      (hid\<lparr>hs_ep_enqueue := of_nat (n mod 255) + 1, hs_ep_cycle := cyc (n div 255)\<rparr>,
       w32 D (hs_db_base hid + ucast (hs_slot_id hid) * 4) (hs_ep_dci hid) m2)"
  proof (cases wrap)
    case True
    then have h: "hs_ep_enqueue hid = 255" "hs_ep_cycle hid = cyc (n div 255 - 1)" "n mod 255 = 0"
      using assms(4) arm_pos_enqueue(3) [of n] by (auto simp: wrap_def)
    show ?thesis
      unfolding arm_report_def m2_def m1_def using True cy
      by (simp add: Let_def EP_RING_TRBS_def h assms(2, 3))
  next
    case False
    then have h: "hs_ep_enqueue hid = of_nat (n mod 255)" "hs_ep_cycle hid = cyc (n div 255)" "hs_ep_enqueue hid \<noteq> 255"
      using assms(4) arm_pos_enqueue(2) [of n] arm_pos_enqueue(1) [of n] by (auto simp: wrap_def)
    show ?thesis
      unfolding arm_report_def m2_def m1_def using False h(3)
      by (simp add: Let_def EP_RING_TRBS_def h(1, 2) assms(2, 3))
  qed
  have "arm_pos (Suc n) = (of_nat (n mod 255) + 1, cyc (n div 255))"
    by (simp add: arm_pos_def ctl_pos_def add.commute)
  then show ?thesis
    using e assms(6) ring_image_outside [OF 2 assms(5)] by auto
qed

lemma arm_times_ring:
  assumes "xm_log m = []" "hs_ep_ring_phys hid = er" "hs_report_phys hid = report"
    "hs_ep_enqueue hid = 0" "hs_ep_cycle hid = 1"
    "\<And>k. k < 4096 \<Longrightarrow> hs_db_base hid + ucast (hs_slot_id hid) * 4 \<noteq> phys_to_virt hhdm er + of_nat k"
    "arm_times n D hhdm (hid, m) = (hid', m')"
  shows "ring_image (xm_log m') (phys_to_virt hhdm er) (ring_after er report n) \<and>
    hid' = hid\<lparr>hs_ep_enqueue := fst (arm_pos n), hs_ep_cycle := snd (arm_pos n)\<rparr>"
  using assms(7)
proof (induction n arbitrary: hid' m')
  case 0
  then show ?case using assms(1, 4, 5) by (auto simp: ring_image_def image_def arm_pos_def ctl_pos_def)
next
  case (Suc n)
  obtain h1 m1 where a: "arm_times n D hhdm (hid, m) = (h1, m1)" by force
  have 1: "ring_image (xm_log m1) (phys_to_virt hhdm er) (ring_after er report n)"
    "h1 = hid\<lparr>hs_ep_enqueue := fst (arm_pos n), hs_ep_cycle := snd (arm_pos n)\<rparr>" using Suc.IH [OF a] by auto
  show ?case
    using arm_report_step [OF 1(1), of h1 D hid' m'] 1(2) Suc.prems a assms(2, 3, 6)
    by (auto simp del: ring_after.simps)
qed

text \<open>What the controller finds at a position of the ring: it follows a valid link once.\<close>

definition fetch :: "trbs \<Rightarrow> nat \<times> u32 \<Rightarrow> ((nat \<Rightarrow> u32) \<times> nat \<times> u32) option" where
  "fetch R pos =
     (let (s, c) = pos;
          (s, c) = (if R s 3 AND 1 = c \<and> event_type (R s 3) = TRB_TYPE_LINK
                    then (0, if R s 3 AND 2 \<noteq> 0 then c XOR 1 else c) else (s, c))
      in if R s 3 AND 1 = c then Some (R s, Suc s, c) else None)"

lemma trb_bits:
  "normal_trb report (cyc q) 3 AND 1 = cyc q" "event_type (normal_trb report (cyc q) 3) = 1"
  "link_trb er (cyc q) 3 AND 1 = cyc q" "event_type (link_trb er (cyc q) 3) = TRB_TYPE_LINK"
  "link_trb er (cyc q) 3 AND 2 \<noteq> 0"
  by (auto simp: normal_trb_def link_trb_def cyc_def TRB_TYPE_LINK_def)

lemma ring_after_armed:
  "k < n \<Longrightarrow> n \<le> k + 255 \<Longrightarrow> ring_after er report n (k mod 255) = normal_trb report (cyc (k div 255))"
proof (induction n)
  case (Suc n)
  show ?case
  proof (cases "k = n")
    case False
    then have "k < n" "n - k < 255" using Suc.prems by auto
    then have "k mod 255 \<noteq> n mod 255"
      by (metis dvd_imp_le le_add_diff_inverse less_imp_le mod_eq_dvd_iff_nat not_le zero_less_diff)
    moreover have "k mod 255 \<noteq> 255" using mod_less_divisor [of 255 k] by linarith
    ultimately show ?thesis using Suc.IH \<open>k < n\<close> Suc.prems(2) by auto
  qed simp
qed simp

lemma ring_after_fresh: "n \<le> s \<Longrightarrow> s < 255 \<Longrightarrow> ring_after er report n s = (\<lambda>_. 0)"
  by (induction n) auto

lemma ring_after_link:
  "ring_after er report n 255 = (if 255 < n then link_trb er (cyc ((n - 1) div 255 - 1)) else (\<lambda>_. 0))"
proof (induction n)
  case (Suc n)
  have "n mod 255 \<noteq> 255" using mod_less_divisor [of 255 n] by linarith
  moreover have "n mod 255 = 0 \<Longrightarrow> 0 < n \<Longrightarrow> 255 \<le> n" by (metis dvd_imp_le mod_0_imp_dvd)
  moreover have "n mod 255 \<noteq> 0 \<Longrightarrow> (n - 1) div 255 = n div 255"
    using div_Suc [of "n - 1" 255] by (cases n) auto
  moreover have "n mod 255 \<noteq> 0 \<Longrightarrow> n \<noteq> 255" by auto
  ultimately show ?case using Suc.IH by auto
qed simp

lemma fetch_ring_after:
  assumes "k \<le> n" "n \<le> k + 255"
  shows "fetch (ring_after er report n) (ctl_pos k) =
    (if k < n then Some (normal_trb report (cyc (k div 255)), ctl_pos (Suc k)) else None)"
proof -
  let ?R = "ring_after er report n"
  have ne: "(1 :: u32) \<noteq> TRB_TYPE_LINK" by (simp add: TRB_TYPE_LINK_def)
  have sp: "ctl_pos (Suc k) = (Suc (k mod 255), cyc (k div 255))" by (simp add: ctl_pos_def)
  have flip: "cyc (Suc q) = cyc q XOR 1" "cyc (Suc q) \<noteq> cyc q" "cyc 0 = 1" for q by (auto simp: cyc_def)
  consider (wrap) q where "k = 255 * Suc q" "ctl_pos k = (255, cyc q)"
    | (inside) "ctl_pos k = (k mod 255, cyc (k div 255))"
    using ctl_pos_cases [of k] by blast
  then show ?thesis
  proof cases
    case wrap
    show ?thesis
    proof (cases "k < n")
      case True
      then have "(n - 1) div 255 = Suc q" using assms(2) wrap(1) by auto
      then have "?R 255 = link_trb er (cyc q)" using True wrap(1) by (simp add: ring_after_link)
      moreover have "?R 0 = normal_trb report (cyc (Suc q))"
        using ring_after_armed [OF True assms(2), of er report] wrap(1) by simp
      ultimately show ?thesis
        using True wrap by (simp add: fetch_def wrap(2) trb_bits flip(1) [symmetric] sp ctl_pos_def)
    next
      case False
      then have n: "n = 255 * Suc q" using assms(1) wrap(1) by simp
      have "?R 255 3 AND 1 \<noteq> cyc q"
      proof (cases q)
        case 0 then show ?thesis using n by (simp add: ring_after_link flip(3))
      next
        case (Suc r)
        have "(n - 1) div 255 = q" unfolding n by auto
        then show ?thesis using Suc n flip(2) [of r] by (simp add: ring_after_link trb_bits)
      qed
      then show ?thesis using False by (simp add: fetch_def wrap(2))
    qed
  next
    case inside
    show ?thesis
    proof (cases "k < n")
      case True
      then show ?thesis
        using ring_after_armed [OF True assms(2), of er report] ne by (simp add: fetch_def inside trb_bits sp)
    next
      case False
      then have n: "n = k" using assms(1) by simp
      show ?thesis
      proof (cases "k < 255")
        case True
        then show ?thesis by (simp add: fetch_def inside n ring_after_fresh flip(3))
      next
        case False
        have "?R ((k - 255) mod 255) = normal_trb report (cyc ((k - 255) div 255))"
          using False n by (intro ring_after_armed) auto
        moreover have "(k - 255) mod 255 = k mod 255" "k div 255 = Suc ((k - 255) div 255)"
          using False by (simp_all add: le_mod_geq le_div_geq)
        ultimately show ?thesis using ne flip(2) [THEN not_sym] n by (simp add: fetch_def inside trb_bits)
      qed
    qed
  qed
qed

text \<open>
  The transfer ring of the keyboard never runs dry or stale. After any number \<open>n\<close> of
  calls of arm\_report on a fresh, zeroed ring, a controller that has executed \<open>k\<close> of the requests, with at most
  255 outstanding, finds at its position the request for the report buffer if \<open>k < n\<close>, following the
  link block with its toggle bit at every wrap, and after it the position for \<open>k + 1\<close>; and
  it finds no valid request if \<open>k = n\<close>, although the ring is full of those of earlier laps.
\<close>
theorem arm_report_ring:
  assumes "xm_log m = []" "hs_ep_enqueue hid = 0" "hs_ep_cycle hid = 1"
    "\<And>i. i < 4096 \<Longrightarrow> hs_db_base hid + ucast (hs_slot_id hid) * 4 \<noteq> phys_to_virt hhdm (hs_ep_ring_phys hid) + of_nat i"
    "k \<le> n" "n \<le> k + 255"
  shows "\<exists>hid' m' R. arm_times n D hhdm (hid, m) = (hid', m') \<and>
    ring_image (xm_log m') (phys_to_virt hhdm (hs_ep_ring_phys hid)) R \<and>
    fetch R (ctl_pos k) =
      (if k < n then Some (normal_trb (hs_report_phys hid) (cyc (k div 255)), ctl_pos (Suc k)) else None)"
proof -
  obtain hid' m' where a: "arm_times n D hhdm (hid, m) = (hid', m')" by force
  from arm_times_ring [OF assms(1) refl refl assms(2-4) this]
  show ?thesis
    using fetch_ring_after [OF assms(5, 6), of "hs_ep_ring_phys hid" "hs_report_phys hid"] a by blast
qed

definition armed_hid :: hid_state where
  "armed_hid = demo_hid\<lparr>hs_ep_ring_phys := 0x4000, hs_report_phys := 0x5000\<rparr>"

theorem arm_report_ring_witness:
  "\<exists>hid' m' R. arm_times 256 quiet_hw 0 (armed_hid, quiet_m) = (hid', m') \<and>
     ring_image (xm_log m') (phys_to_virt 0 (hs_ep_ring_phys armed_hid)) R \<and>
     fetch R (255, 1) = Some (normal_trb 0x5000 0, 1, 0)"
proof -
  have c: "ctl_pos 255 = (255, 1)" "ctl_pos 256 = (1, 0)" "cyc (Suc 0) = 0"
    by (simp_all add: ctl_pos_def cyc_def)
  have d: "hs_db_base armed_hid + ucast (hs_slot_id armed_hid) * 4 \<noteq> phys_to_virt 0 (hs_ep_ring_phys armed_hid) + of_nat i"
    if "i < 4096" for i
  proof -
    have "unat ((0x4000 :: usize) + of_nat i) = 0x4000 + i"
      using that by (subst unat_add_noof) (simp_all add: unat_of_nat_small)
    then have "unat (4 :: usize) \<noteq> unat ((0x4000 :: usize) + of_nat i)" by simp
    then have "(4 :: usize) \<noteq> 0x4000 + of_nat i" by (rule contrapos_nn) (rule arg_cong)
    then show ?thesis by (simp add: armed_hid_def demo_hid_def phys_to_virt_def)
  qed
  have "xm_log quiet_m = []" "hs_ep_enqueue armed_hid = 0" "hs_ep_cycle armed_hid = 1" "hs_report_phys armed_hid = 0x5000"
    by (simp_all add: quiet_m_def armed_hid_def demo_hid_def)
  then show ?thesis
    using arm_report_ring [of quiet_m armed_hid 0 255 256 quiet_hw, OF _ _ _ d] by (simp add: c)
qed

end
