(* ===== verification/Xhci.thy ===== *)
theory Xhci
  imports XhciEvents
begin

unbundle bit_operations_syntax

text \<open>
  The xHCI driver above its rings, arsenal-kernel/src/xhci.rs: discovery, the bring-up sequence
  with its No-Op round trip, the reset of the root ports, and the enumeration of USB devices with
  the set-up of a boot keyboard and the sector read from a mass-storage device.
\<close>

section \<open>Discovery and interrupts\<close>

definition check_function :: "config_space \<Rightarrow> u8 \<Rightarrow> u8 \<Rightarrow> u8 \<Rightarrow> (bdf \<times> u64) option" where
  "check_function cfg b d f =
     (let ident = config_read32 cfg b d f 0x00
      in if ident AND 0xFFFF = 0xFFFF then None
         else let class_dword = config_read32 cfg b d f 0x08;
                  class_code = ucast (drop_bit 24 class_dword) :: u8;
                  subclass = ucast (drop_bit 16 class_dword) :: u8;
                  prog_if = ucast (drop_bit 8 class_dword) :: u8
              in if class_code \<noteq> XHCI_CLASS \<or> subclass \<noteq> XHCI_SUBCLASS \<or> prog_if \<noteq> XHCI_PROG_IF
                 then None
                 else let bar = bar_address cfg b d f 0
                      in if bar = 0 then None else Some (\<lparr>bus = b, dev = d, func = f\<rparr>, bar))"

definition find_controller :: "config_space \<Rightarrow> (bdf \<times> u64) option" where
  "find_controller cfg =
     first_some (\<lambda>b. first_some (\<lambda>d. first_some (\<lambda>f. check_function cfg b d f)
       (map of_nat [0..<8])) (map of_nat [0..<32])) (map of_nat [0..<256])"

fun poll_loop :: "'d xhci_hw \<Rightarrow> usize \<Rightarrow> u32 \<Rightarrow> u32 \<Rightarrow> nat \<Rightarrow> 'd xhci_m \<Rightarrow> 'd xhci_m outcome" where
  "poll_loop D reg msk expected 0 m = Inl Panic"
| "poll_loop D reg msk expected (Suc n) m =
     (let (v, m) = r32 D reg m in if v AND msk = expected then Inr m else poll_loop D reg msk expected n m)"

definition poll_until :: "'d xhci_hw \<Rightarrow> usize \<Rightarrow> u32 \<Rightarrow> u32 \<Rightarrow> 'd xhci_m \<Rightarrow> 'd xhci_m outcome" where
  "poll_until D reg msk expected m = poll_loop D reg msk expected POLL_LIMIT m"

definition program_msix_entry ::
    "'d xhci_hw \<Rightarrow> u64 \<Rightarrow> bdf \<Rightarrow> u8 \<Rightarrow> u8 \<Rightarrow> 'd xhci_m \<Rightarrow> 'd xhci_m outcome" where
  "program_msix_entry D hhdm w vector apic_id m =
     (let b = bus w; d = dev w; f = func w in
      and_then (expect (msix_info (xm_cfg m) b d f)) (\<lambda>msx.
      let table_bar_phys = bar_address (xm_cfg m) b d f (table_bar msx) in
      and_then (rust_assert (table_bar_phys \<noteq> 0)) (\<lambda>_.
      let table_phys = table_bar_phys + ucast (table_offset msx);
          m = x_io (X_map (table_phys AND NOT 0xFFF) 0x1000) (xm_dev m) m;
          entry = table_phys + hhdm;
          addr_lo = 0xFEE00000 OR push_bit 12 (ucast apic_id) :: u32;
          m = w32 D entry addr_lo m;
          m = w32 D (entry + 4) 0 m;
          m = w32 D (entry + 8) (ucast vector) m;
          m = w32 D (entry + 12) 0 m;
          dw = config_read32 (xm_cfg m) b d f (cap_offset msx)
      in Inr (m\<lparr>xm_cfg := config_write32 b d f (cap_offset msx) (dw OR MSIX_CTRL_ENABLE_DWORD_BIT) (xm_cfg m)\<rparr>))))"

section \<open>Root ports\<close>

definition portsc_addr :: "regs \<Rightarrow> u8 \<Rightarrow> usize" where
  "portsc_addr rg n = op_base rg + OP_PORTS_BASE + ucast n * PORT_REG_STRIDE"

text \<open>The wait for a port's reset gives up silently after its bound.\<close>

fun port_wait :: "'d xhci_hw \<Rightarrow> usize \<Rightarrow> nat \<Rightarrow> 'd xhci_m \<Rightarrow> 'd xhci_m" where
  "port_wait D portsc 0 m = m"
| "port_wait D portsc (Suc n) m =
     (let (cur, m) = r32 D portsc m
      in if cur AND PORTSC_PR = 0 \<and> cur AND PORTSC_PRC \<noteq> 0
         then w32 D portsc ((cur AND NOT PORTSC_RW1C) OR PORTSC_PRC) m
         else port_wait D portsc n m)"

definition reset_port :: "'d xhci_hw \<Rightarrow> regs \<Rightarrow> u8 \<Rightarrow> 'd xhci_m \<Rightarrow> 'd xhci_m" where
  "reset_port D rg n m =
     (let portsc = portsc_addr rg n;
          (sc, m) = r32 D portsc m
      in if sc AND PORTSC_CCS = 0 then m
         else port_wait D portsc POLL_LIMIT (w32 D portsc ((sc AND NOT PORTSC_RW1C) OR PORTSC_PR) m))"

definition reset_connected_ports :: "'d xhci_hw \<Rightarrow> regs \<Rightarrow> u8 \<Rightarrow> 'd xhci_m \<Rightarrow> 'd xhci_m" where
  "reset_connected_ports D rg max_ports m = fold (\<lambda>n. reset_port D rg (of_nat n)) [0..<unat max_ports] m"

section \<open>Control and bulk transfers\<close>

definition control_in ::
    "'d xhci_hw \<Rightarrow> u64 \<Rightarrow> u8 \<Rightarrow> u8 \<Rightarrow> u16 \<Rightarrow> u16 \<Rightarrow> u64 \<Rightarrow> u16 \<Rightarrow> usb_device \<Rightarrow> xhci \<Rightarrow> 'd xhci_m \<Rightarrow>
     (u32 \<times> usb_device \<times> xhci \<times> 'd xhci_m) run" where
  "control_in D hhdm bm_request_type b_request w_value w_index buf_phys n dv x m =
     (let setup_d0 = ucast bm_request_type OR push_bit 8 (ucast b_request) OR push_bit 16 (ucast w_value);
          setup_d1 = ucast w_index OR push_bit 16 (ucast n)
      in run_then (Some (push_transfer D hhdm setup_d0 setup_d1 8
                     (push_bit 16 3 OR push_bit 6 1 OR push_bit 10 TRB_TYPE_SETUP_STAGE) dv m)) (\<lambda>(dv, m).
         run_then (Some (push_transfer D hhdm (ucast buf_phys) (ucast (drop_bit 32 buf_phys)) (ucast n)
                     (push_bit 16 1 OR push_bit 10 TRB_TYPE_DATA_STAGE) dv m)) (\<lambda>(dv, m).
         run_then (Some (push_transfer D hhdm 0 0 0 (push_bit 5 1 OR push_bit 10 TRB_TYPE_STATUS_STAGE) dv m)) (\<lambda>(dv, m).
         run_then (wait_transfer D hhdm x (ring_ep0 D x dv m)) (\<lambda>(cc, x, m). returns (cc, dv, x, m))))))"

definition control_no_data ::
    "'d xhci_hw \<Rightarrow> u64 \<Rightarrow> u8 \<Rightarrow> u8 \<Rightarrow> u16 \<Rightarrow> u16 \<Rightarrow> usb_device \<Rightarrow> xhci \<Rightarrow> 'd xhci_m \<Rightarrow>
     (u32 \<times> usb_device \<times> xhci \<times> 'd xhci_m) run" where
  "control_no_data D hhdm bm_request_type b_request w_value w_index dv x m =
     (let setup_d0 = ucast bm_request_type OR push_bit 8 (ucast b_request) OR push_bit 16 (ucast w_value);
          setup_d1 = ucast w_index
      in run_then (Some (push_transfer D hhdm setup_d0 setup_d1 8
                     (push_bit 6 1 OR push_bit 10 TRB_TYPE_SETUP_STAGE) dv m)) (\<lambda>(dv, m).
         run_then (Some (push_transfer D hhdm 0 0 0
                     (push_bit 16 1 OR push_bit 5 1 OR push_bit 10 TRB_TYPE_STATUS_STAGE) dv m)) (\<lambda>(dv, m).
         run_then (wait_transfer D hhdm x (ring_ep0 D x dv m)) (\<lambda>(cc, x, m). returns (cc, dv, x, m)))))"

definition bulk_normal ::
    "'d xhci_hw \<Rightarrow> u64 \<Rightarrow> u64 \<Rightarrow> usize \<Rightarrow> u32 \<Rightarrow> u32 \<Rightarrow> u64 \<Rightarrow> u32 \<Rightarrow> xhci \<Rightarrow> 'd xhci_m \<Rightarrow> (u32 \<times> xhci \<times> 'd xhci_m) run" where
  "bulk_normal D hhdm ring_phys i slot_id dci buf_phys n x m =
     (let trb = phys_to_virt hhdm ring_phys + i * 16;
          m = put_trb D trb (ucast buf_phys) (ucast (drop_bit 32 buf_phys)) n
                (1 OR push_bit 5 1 OR push_bit 2 1 OR push_bit 10 TRB_TYPE_NORMAL) m;
          m = w32 D (db_base (x_regs x) + ucast slot_id * 4) dci m
      in wait_transfer D hhdm x m)"

section \<open>The boot keyboard\<close>

definition leading_zeros :: "u32 \<Rightarrow> u32" where
  "leading_zeros w = of_nat (length (takeWhile Not (rev (map (bit w) [0..<32]))))"

definition hid_interval :: "u32 \<Rightarrow> u8 \<Rightarrow> u32" where
  "hid_interval speed b_interval =
     min (if speed = 3 \<or> speed = 4 then ucast (if b_interval = 0 then 0 else b_interval - 1)
          else 31 - leading_zeros (ucast (max b_interval 1)) + 3) 15"

text \<open>The stores that fill the input context of a Configure Endpoint command for the keyboard.\<close>

definition hid_input_context ::
    "'d xhci_hw \<Rightarrow> usize \<Rightarrow> usize \<Rightarrow> u32 \<Rightarrow> u32 \<Rightarrow> u8 \<Rightarrow> u32 \<Rightarrow> u16 \<Rightarrow> u64 \<Rightarrow> 'd xhci_m \<Rightarrow> 'd xhci_m" where
  "hid_input_context D a ctx_size ep_dci speed port_num interval ep_maxpkt ep_ring_phys m =
     (let m = w32 D (a + 4) (1 OR push_bit (unat (ep_dci AND 31)) 1) m;
          slot = a + ctx_size;
          m = w32 D slot (push_bit 27 ep_dci OR push_bit 20 speed) m;
          m = w32 D (slot + 4) (push_bit 16 (ucast port_num)) m;
          ep = a + (ucast ep_dci + 1) * ctx_size;
          m = w32 D ep (push_bit 16 interval) m;
          m = w32 D (ep + 4) (push_bit 16 (ucast ep_maxpkt) OR push_bit 3 7 OR push_bit 1 3) m;
          m = w32 D (ep + 8) (ucast ep_ring_phys OR 1) m;
          m = w32 D (ep + 12) (ucast (drop_bit 32 ep_ring_phys)) m
      in w32 D (ep + 16) (push_bit 16 (ucast ep_maxpkt) OR 8) m)"

definition setup_hid_keyboard ::
    "'d xhci_hw \<Rightarrow> phys_frame_ctor \<Rightarrow> u64 \<Rightarrow> u32 \<Rightarrow> u32 \<Rightarrow> u8 \<Rightarrow> u8 list \<Rightarrow> xhci \<Rightarrow> 'd xhci_m \<Rightarrow> (xhci \<times> 'd xhci_m) run" where
  "setup_hid_keyboard D pf hhdm slot_id speed port_num cfg x m =
     run_then (Some (find_interrupt_in_endpoint cfg)) (\<lambda>found.
     case found of
       None \<Rightarrow> returns (x, m)
     | Some (ep_addr, ep_maxpkt, b_interval) \<Rightarrow>
         (let ep_num = ucast (ep_addr AND 0x0F) :: u32;
              ep_dci = ep_num * 2 + 1;
              interval = hid_interval speed b_interval in
          run_then (Some (alloc_zeroed_frame D pf hhdm m)) (\<lambda>(ce_input_phys, m).
          run_then (Some (alloc_zeroed_frame D pf hhdm m)) (\<lambda>(ep_ring_phys, m).
          run_then (Some (alloc_zeroed_frame D pf hhdm m)) (\<lambda>(report_phys, m).
          let m = hid_input_context D (phys_to_virt hhdm ce_input_phys) (x_ctx_size x) ep_dci speed port_num
                    interval ep_maxpkt ep_ring_phys m in
          run_then (Some (push_command D hhdm (ucast ce_input_phys) (ucast (drop_bit 32 ce_input_phys)) 0
                      (push_bit 24 slot_id OR push_bit 10 TRB_TYPE_CONFIGURE_ENDPOINT) x m)) (\<lambda>(x, m).
          run_then (wait_command D hhdm x m) (\<lambda>((cc, sid), x, m).
          if cc \<noteq> 1 then returns (x, m)
          else let hid = \<lparr>hs_db_base = db_base (x_regs x), hs_rt_base = rt_base (x_regs x),
                     hs_event_ring_phys = x_event_ring_phys x, hs_event_deq = x_event_deq x,
                     hs_event_ccs = x_event_ccs x, hs_slot_id = ucast slot_id, hs_ep_dci = ep_dci,
                     hs_ep_ring_phys = ep_ring_phys, hs_ep_enqueue = 0, hs_ep_cycle = 1,
                     hs_report_phys = report_phys, hs_prev = replicate 8 0, hs_sentinel_fired = False\<rparr>;
                   (hid, m) = arm_report D hhdm hid m
               in returns (x, m\<lparr>xm_hid := Some hid\<rparr>))))))))"

section \<open>Mass storage\<close>

definition bulk_context :: "'d xhci_hw \<Rightarrow> usize \<Rightarrow> u16 \<Rightarrow> u32 \<Rightarrow> u64 \<Rightarrow> 'd xhci_m \<Rightarrow> 'd xhci_m" where
  "bulk_context D ep maxpkt ep_type ring_phys m =
     (let m = w32 D (ep + 4) (push_bit 16 (ucast maxpkt) OR push_bit 3 ep_type OR push_bit 1 3) m;
          m = w32 D (ep + 8) (ucast ring_phys OR 1) m;
          m = w32 D (ep + 12) (ucast (drop_bit 32 ring_phys)) m
      in w32 D (ep + 16) (ucast maxpkt) m)"

definition storage_input_context ::
    "'d xhci_hw \<Rightarrow> usize \<Rightarrow> usize \<Rightarrow> u32 \<Rightarrow> u32 \<Rightarrow> u32 \<Rightarrow> u8 \<Rightarrow> u16 \<Rightarrow> u16 \<Rightarrow> u64 \<Rightarrow> u64 \<Rightarrow> 'd xhci_m \<Rightarrow> 'd xhci_m" where
  "storage_input_context D a ctx_size in_dci out_dci speed port_num in_maxpkt out_maxpkt in_ring out_ring m =
     (let max_dci = max in_dci out_dci;
          m = w32 D (a + 4) (1 OR push_bit (unat (in_dci AND 31)) 1 OR push_bit (unat (out_dci AND 31)) 1) m;
          slot = a + ctx_size;
          m = w32 D slot (push_bit 27 max_dci OR push_bit 20 speed) m;
          m = w32 D (slot + 4) (push_bit 16 (ucast port_num)) m;
          m = bulk_context D (a + (ucast out_dci + 1) * ctx_size) out_maxpkt 2 out_ring m
      in bulk_context D (a + (ucast in_dci + 1) * ctx_size) in_maxpkt 6 in_ring m)"

definition BOT_TAG :: u32 where "BOT_TAG = 0x41525345"

definition cbw :: "u8 list" where
  "cbw = (le_bytes 4 (unat CBW_SIGNATURE) @ le_bytes 4 (unat BOT_TAG) @ le_bytes 4 512 @ [0x80, 0, 10, SCSI_READ_10])
     @ [0, 0, 0, 0, 0, 0, 0x00, 0x01] @ replicate 7 0"

definition setup_mass_storage ::
    "'d xhci_hw \<Rightarrow> phys_frame_ctor \<Rightarrow> u64 \<Rightarrow> u32 \<Rightarrow> u32 \<Rightarrow> u8 \<Rightarrow> u8 list \<Rightarrow> xhci \<Rightarrow> 'd xhci_m \<Rightarrow> (xhci \<times> 'd xhci_m) run" where
  "setup_mass_storage D pf hhdm slot_id speed port_num cfg x m =
     run_then (Some (find_bulk_endpoints cfg)) (\<lambda>found.
     case found of
       None \<Rightarrow> returns (x, m)
     | Some (in_addr, in_maxpkt, out_addr, out_maxpkt) \<Rightarrow>
         (let in_dci = ucast (in_addr AND 0x0F) * 2 + 1 :: u32;
              out_dci = ucast (out_addr AND 0x0F) * 2 :: u32 in
          run_then (Some (alloc_zeroed_frame D pf hhdm m)) (\<lambda>(ce_input_phys, m).
          run_then (Some (alloc_zeroed_frame D pf hhdm m)) (\<lambda>(in_ring_phys, m).
          run_then (Some (alloc_zeroed_frame D pf hhdm m)) (\<lambda>(out_ring_phys, m).
          let m = storage_input_context D (phys_to_virt hhdm ce_input_phys) (x_ctx_size x) in_dci out_dci speed
                    port_num in_maxpkt out_maxpkt in_ring_phys out_ring_phys m in
          run_then (Some (push_command D hhdm (ucast ce_input_phys) (ucast (drop_bit 32 ce_input_phys)) 0
                      (push_bit 24 slot_id OR push_bit 10 TRB_TYPE_CONFIGURE_ENDPOINT) x m)) (\<lambda>(x, m).
          run_then (wait_command D hhdm x m) (\<lambda>((cc, sid), x, m).
          if cc \<noteq> 1 then returns (x, m)
          else
          run_then (Some (alloc_zeroed_frame D pf hhdm m)) (\<lambda>(buf_phys, m).
          let cbw_phys = buf_phys;
              data_phys = buf_phys + 512;
              csw_phys = buf_phys + 1024;
              m = write_bytes D (phys_to_virt hhdm cbw_phys) cbw m in
          run_then (bulk_normal D hhdm out_ring_phys 0 slot_id out_dci cbw_phys 31 x m) (\<lambda>(cc_cbw, x, m).
          if cc_cbw \<noteq> 1 \<and> cc_cbw \<noteq> 13 then returns (x, m)
          else run_then (bulk_normal D hhdm in_ring_phys 0 slot_id in_dci data_phys 512 x m) (\<lambda>(cc_data, x, m).
          if cc_data \<noteq> 1 \<and> cc_data \<noteq> 13 then returns (x, m)
          else run_then (bulk_normal D hhdm in_ring_phys 1 slot_id in_dci csw_phys 13 x m) (\<lambda>(cc_csw, x, m).
          if cc_csw \<noteq> 1 \<and> cc_csw \<noteq> 13 then returns (x, m)
          else let (c, m) = read_bytes D (phys_to_virt hhdm csw_phys) 8 m;
                   (csw_status, m) = r8 D (phys_to_virt hhdm csw_phys + 12) m;
                   (s, m) = read_bytes D (phys_to_virt hhdm data_phys + 510) 2 m
               in run_then (Some (rust_assert (of_nat (le_nat (take 4 c)) = CSW_SIGNATURE))) (\<lambda>_.
                  run_then (Some (rust_assert (of_nat (le_nat (drop 4 c)) = BOT_TAG))) (\<lambda>_.
                  run_then (Some (rust_assert (csw_status = 0))) (\<lambda>_.
                  run_then (Some (rust_assert (of_nat (le_nat s) = (0xAA55 :: u16)))) (\<lambda>_.
                  returns (x, m))))))))))))))))"

section \<open>Enumeration\<close>

definition ep0_max_packet :: "u32 \<Rightarrow> u32" where
  "ep0_max_packet speed = (if speed = 4 then 512 else if speed = 3 then 64 else 8)"

text \<open>The stores that fill the input context of the Address Device command.\<close>

definition address_input_context ::
    "'d xhci_hw \<Rightarrow> usize \<Rightarrow> usize \<Rightarrow> u32 \<Rightarrow> u8 \<Rightarrow> u64 \<Rightarrow> 'd xhci_m \<Rightarrow> 'd xhci_m" where
  "address_input_context D a ctx_size speed port_num ep0_ring_phys m =
     (let m = w32 D (a + 4) 3 m;
          slot = a + ctx_size;
          m = w32 D slot (push_bit 27 1 OR push_bit 20 speed) m;
          m = w32 D (slot + 4) (push_bit 16 (ucast port_num)) m;
          ep0 = a + 2 * ctx_size;
          m = w32 D (ep0 + 4) (push_bit 16 (ep0_max_packet speed) OR push_bit 3 4 OR push_bit 1 3) m;
          m = w32 D (ep0 + 8) (ucast ep0_ring_phys OR 1) m;
          m = w32 D (ep0 + 12) (ucast (drop_bit 32 ep0_ring_phys)) m
      in w32 D (ep0 + 16) 8 m)"

definition get_descriptor ::
    "'d xhci_hw \<Rightarrow> u64 \<Rightarrow> u8 \<Rightarrow> u64 \<Rightarrow> u16 \<Rightarrow> usb_device \<Rightarrow> xhci \<Rightarrow> 'd xhci_m \<Rightarrow>
     (u32 \<times> usb_device \<times> xhci \<times> 'd xhci_m) run" where
  "get_descriptor D hhdm desc_type buf_phys n dv x m =
     control_in D hhdm 0x80 USB_REQ_GET_DESCRIPTOR (push_bit 8 (ucast desc_type)) 0 buf_phys n dv x m"

text \<open>Steps 5 to 8 and the class drivers, for a device that has been addressed.\<close>

definition configure_device ::
    "'d xhci_hw \<Rightarrow> phys_frame_ctor \<Rightarrow> u64 \<Rightarrow> u32 \<Rightarrow> u32 \<Rightarrow> u8 \<Rightarrow> usb_device \<Rightarrow> xhci \<Rightarrow> 'd xhci_m \<Rightarrow>
     (bool \<times> xhci \<times> 'd xhci_m) run" where
  "configure_device D pf hhdm slot_id speed port_num dv x m =
     run_then (Some (alloc_zeroed_frame D pf hhdm m)) (\<lambda>(buf_phys, m).
     let buf_virt = phys_to_virt hhdm buf_phys in
     run_then (get_descriptor D hhdm USB_DESC_DEVICE buf_phys 18 dv x m) (\<lambda>(cc, dv, x, m).
     if cc \<noteq> 1 then returns (False, x, m)
     else let m = zero_bytes D buf_virt 256 m in
     run_then (get_descriptor D hhdm USB_DESC_CONFIG buf_phys 9 dv x m) (\<lambda>(cc, dv, x, m).
     if cc \<noteq> 1 then returns (False, x, m)
     else let (ch, m) = read_bytes D buf_virt 9 m;
              total_len = of_nat (le_nat [ch ! 2, ch ! 3]) :: u16;
              config_value = ch ! 5;
              full = min total_len 256;
              m = zero_bytes D buf_virt 256 m in
     run_then (get_descriptor D hhdm USB_DESC_CONFIG buf_phys full dv x m) (\<lambda>(cc, dv, x, m).
     if cc \<noteq> 1 then returns (False, x, m)
     else let (cfg, m) = read_bytes D buf_virt (unat full) m in
     run_then (Some (first_interface cfg)) (\<lambda>(iface_class, iface_sub, iface_proto, num_ep).
     run_then (control_no_data D hhdm 0x00 USB_REQ_SET_CONFIGURATION (ucast config_value) 0 dv x m) (\<lambda>(cc, dv, x, m).
     if cc \<noteq> 1 then returns (False, x, m)
     else if iface_class = USB_CLASS_HID \<and> iface_sub = HID_SUBCLASS_BOOT \<and> iface_proto = HID_PROTOCOL_KEYBOARD
     then run_then (setup_hid_keyboard D pf hhdm slot_id speed port_num cfg x m) (\<lambda>(x, m). returns (True, x, m))
     else if iface_class = USB_CLASS_MASS_STORAGE \<and> iface_sub = MSC_SUBCLASS_SCSI \<and> iface_proto = MSC_PROTOCOL_BOT
     then run_then (setup_mass_storage D pf hhdm slot_id speed port_num cfg x m) (\<lambda>(x, m). returns (True, x, m))
     else returns (True, x, m)))))))"

definition enumerate_port ::
    "'d xhci_hw \<Rightarrow> phys_frame_ctor \<Rightarrow> u64 \<Rightarrow> u8 \<Rightarrow> u32 \<Rightarrow> xhci \<Rightarrow> 'd xhci_m \<Rightarrow> (bool \<times> xhci \<times> 'd xhci_m) run" where
  "enumerate_port D pf hhdm port_num speed x m =
     run_then (Some (push_command D hhdm 0 0 0 (push_bit 10 TRB_TYPE_ENABLE_SLOT) x m)) (\<lambda>(x, m).
     run_then (wait_command D hhdm x m) (\<lambda>((cc, slot_id), x, m).
     if cc \<noteq> 1 then returns (False, x, m)
     else
     run_then (Some (alloc_zeroed_frame D pf hhdm m)) (\<lambda>(dev_ctx_phys, m).
     let m = w64 D (phys_to_virt hhdm (x_dcbaa_phys x) + ucast slot_id * 8) dev_ctx_phys m in
     run_then (Some (alloc_zeroed_frame D pf hhdm m)) (\<lambda>(input_ctx_phys, m).
     run_then (Some (alloc_zeroed_frame D pf hhdm m)) (\<lambda>(ep0_ring_phys, m).
     let m = address_input_context D (phys_to_virt hhdm input_ctx_phys) (x_ctx_size x) speed port_num ep0_ring_phys m in
     run_then (Some (push_command D hhdm (ucast input_ctx_phys) (ucast (drop_bit 32 input_ctx_phys)) 0
                 (push_bit 24 slot_id OR push_bit 10 TRB_TYPE_ADDRESS_DEVICE) x m)) (\<lambda>(x, m).
     run_then (wait_command D hhdm x m) (\<lambda>((cc, sid), x, m).
     if cc \<noteq> 1 then returns (False, x, m)
     else configure_device D pf hhdm slot_id speed port_num
            \<lparr>dv_slot_id = ucast slot_id, dv_ep0_ring_phys = ep0_ring_phys, dv_ep0_enqueue = 0, dv_ep0_cycle = 1\<rparr> x m)))))))"

fun enumerate_ports ::
    "'d xhci_hw \<Rightarrow> phys_frame_ctor \<Rightarrow> u64 \<Rightarrow> nat list \<Rightarrow> u32 \<Rightarrow> xhci \<Rightarrow> 'd xhci_m \<Rightarrow> (u32 \<times> xhci \<times> 'd xhci_m) run" where
  "enumerate_ports D pf hhdm [] enumerated x m = returns (enumerated, x, m)"
| "enumerate_ports D pf hhdm (n # ns) enumerated x m =
     (let (sc, m) = r32 D (portsc_addr (x_regs x) (of_nat n)) m
      in if sc AND PORTSC_CCS = 0 \<or> sc AND PORTSC_PED = 0 then enumerate_ports D pf hhdm ns enumerated x m
         else run_then (enumerate_port D pf hhdm (of_nat n + 1) (drop_bit 10 sc AND 0xF) x m) (\<lambda>(ok, x, m).
              enumerate_ports D pf hhdm ns (if ok then enumerated + 1 else enumerated) x m))"

definition enumerate ::
    "'d xhci_hw \<Rightarrow> phys_frame_ctor \<Rightarrow> u64 \<Rightarrow> xhci \<Rightarrow> 'd xhci_m \<Rightarrow> (u32 \<times> xhci \<times> 'd xhci_m) run" where
  "enumerate D pf hhdm x m =
     run_then (enumerate_ports D pf hhdm [0..<unat (x_max_ports x)] 0 x (x_io X_sti (xm_dev m) m))
       (\<lambda>(enumerated, x, m). returns (enumerated, x, x_io X_cli (xm_dev m) m))"

section \<open>Bring-up\<close>

definition r16 :: "'d xhci_hw \<Rightarrow> usize \<Rightarrow> 'd xhci_m \<Rightarrow> u16 \<times> 'd xhci_m" where
  "r16 D p m = (let (v, d) = xh_read D 16 p (xm_dev m) in (ucast v, x_io (X_read 16 p (ucast (ucast v :: u16))) d m))"

record xhci_caps =
  xc_max_slots :: u8
  xc_max_ports :: u8
  xc_max_scratch :: u32
  xc_ctx_size :: usize
  xc_regs :: regs

definition read_caps :: "'d xhci_hw \<Rightarrow> usize \<Rightarrow> 'd xhci_m \<Rightarrow> xhci_caps \<times> 'd xhci_m" where
  "read_caps D bar m =
     (let (caplength, m) = r8 D (bar + CAP_CAPLENGTH) m;
          (hciversion, m) = r16 D (bar + 0x02) m;
          (hcs1, m) = r32 D (bar + CAP_HCSPARAMS1) m;
          (hcs2, m) = r32 D (bar + CAP_HCSPARAMS2) m;
          (hcc1, m) = r32 D (bar + CAP_HCCPARAMS1) m;
          (dboff, m) = r32 D (bar + CAP_DBOFF) m;
          (rtsoff, m) = r32 D (bar + CAP_RTSOFF) m
      in (\<lparr>xc_max_slots = ucast (hcs1 AND 0xFF),
           xc_max_ports = ucast (drop_bit 24 hcs1 AND 0xFF),
           xc_max_scratch = push_bit 5 (drop_bit 21 hcs2 AND 0x1F) OR (drop_bit 27 hcs2 AND 0x1F),
           xc_ctx_size = (if hcc1 AND push_bit 2 1 \<noteq> 0 then 64 else 32),
           xc_regs = \<lparr>cap_base = bar, op_base = bar + ucast caplength,
                      rt_base = bar + ucast (rtsoff AND NOT 0x1F), db_base = bar + ucast (dboff AND NOT 0x3)\<rparr>\<rparr>, m))"

definition reset_controller :: "'d xhci_hw \<Rightarrow> regs \<Rightarrow> 'd xhci_m \<Rightarrow> 'd xhci_m outcome" where
  "reset_controller D rg m =
     (let (cmd, m) = r32 D (op_base rg + OP_USBCMD) m in
      and_then (if cmd AND USBCMD_RS \<noteq> 0
                then poll_until D (op_base rg + OP_USBSTS) USBSTS_HCH USBSTS_HCH
                       (w32 D (op_base rg + OP_USBCMD) (cmd AND NOT USBCMD_RS) m)
                else Inr m) (\<lambda>m.
      and_then (poll_until D (op_base rg + OP_USBCMD) USBCMD_HCRST 0 (w32 D (op_base rg + OP_USBCMD) USBCMD_HCRST m))
        (poll_until D (op_base rg + OP_USBSTS) USBSTS_CNR 0)))"

definition fill_erst :: "'d xhci_hw \<Rightarrow> usize \<Rightarrow> u64 \<Rightarrow> 'd xhci_m \<Rightarrow> 'd xhci_m" where
  "fill_erst D erst event_ring_phys m =
     (let m = w32 D erst (ucast event_ring_phys) m;
          m = w32 D (erst + 4) (ucast (drop_bit 32 event_ring_phys)) m;
          m = w32 D (erst + 8) (ucast EVENT_RING_TRBS) m
      in w32 D (erst + 12) 0 m)"

definition program_regs ::
    "'d xhci_hw \<Rightarrow> regs \<Rightarrow> u8 \<Rightarrow> u64 \<Rightarrow> u64 \<Rightarrow> u64 \<Rightarrow> u64 \<Rightarrow> 'd xhci_m \<Rightarrow> 'd xhci_m" where
  "program_regs D rg max_slots dcbaa_phys cmd_ring_phys event_ring_phys erst_phys m =
     (let m = w32 D (op_base rg + OP_CONFIG) (ucast max_slots) m;
          m = w64 D (op_base rg + OP_DCBAAP) dcbaa_phys m;
          m = w64 D (op_base rg + OP_CRCR) (cmd_ring_phys OR 1) m;
          ir0 = rt_base rg + 0x20;
          m = w32 D (ir0 + IR0_ERSTSZ) 1 m;
          m = w32 D (ir0 + IR0_IMOD) 0 m;
          m = w64 D (ir0 + IR0_ERDP) event_ring_phys m;
          m = w64 D (ir0 + IR0_ERSTBA) erst_phys m
      in w32 D (ir0 + IR0_IMAN) IMAN_IE m)"

definition start_controller :: "'d xhci_hw \<Rightarrow> regs \<Rightarrow> 'd xhci_m \<Rightarrow> 'd xhci_m outcome" where
  "start_controller D rg m =
     (let (cmd, m) = r32 D (op_base rg + OP_USBCMD) m
      in poll_until D (op_base rg + OP_USBSTS) USBSTS_HCH 0
           (w32 D (op_base rg + OP_USBCMD) (cmd OR USBCMD_RS OR USBCMD_INTE) m))"

definition x_irq_count :: "'d xhci_hw \<Rightarrow> 'd xhci_m \<Rightarrow> u64 \<times> 'd xhci_m" where
  "x_irq_count D m = (let (v, d) = xh_irq_count D (xm_dev m) in (v, x_io (X_irq_count v) d m))"

text \<open>The drain of the event ring up to the completion of the No-Op command.\<close>

partial_function (option) noop_drain ::
    "'d xhci_hw \<Rightarrow> usize \<Rightarrow> usize \<Rightarrow> u32 \<Rightarrow> nat \<Rightarrow> 'd xhci_m \<Rightarrow> (u32 \<times> usize \<times> u32 \<times> 'd xhci_m) run" where
  [code]: "noop_drain D er deq ccs spins m =
     (case r32 D (er + (deq * 4 + 3) * 4) m of (ctrl, m) \<Rightarrow>
      (case r32 D (er + (deq * 4 + 2) * 4) m of (status, m) \<Rightarrow>
       if ctrl AND 1 \<noteq> ccs
       then (if spins + 1 < POLL_LIMIT then noop_drain D er deq ccs (spins + 1) m else Some (Inl Panic))
       else let ev_type = drop_bit 10 ctrl AND 0x3F; cc = drop_bit 24 status AND 0xFF;
                deq' = fst (advance deq ccs); ccs' = snd (advance deq ccs)
            in if ev_type = TRB_TYPE_CMD_COMPLETION then Some (Inr (cc, deq', ccs', m))
               else noop_drain D er deq' ccs' spins m))"

definition noop_round_trip ::
    "'d xhci_hw \<Rightarrow> u64 \<Rightarrow> regs \<Rightarrow> u64 \<Rightarrow> u64 \<Rightarrow> 'd xhci_m \<Rightarrow> (usize \<times> u32 \<times> 'd xhci_m) run" where
  "noop_round_trip D hhdm rg cmd_ring_phys event_ring_phys m =
     (let m = w32 D (phys_to_virt hhdm cmd_ring_phys + 12) (push_bit 10 TRB_TYPE_NOOP_CMD OR 1) m;
          (n, m) = x_irq_count D m;
          target = n + 1;
          m = w32 D (db_base rg) 0 m;
          m = x_io X_sti (xm_dev m) m
      in run_then (noop_drain D (phys_to_virt hhdm event_ring_phys) 0 1 0 m) (\<lambda>(cc, deq, ccs, m).
         let m = x_io X_cli (xm_dev m) m;
             m = ack_event D (rt_base rg) event_ring_phys deq m;
             (irq_count, m) = x_irq_count D m
         in run_then (Some (rust_assert (irq_count \<ge> target))) (\<lambda>_.
            run_then (Some (rust_assert (cc = 1))) (\<lambda>_. returns (deq, ccs, m)))))"

text \<open>The steps from the reset to the running controller.\<close>

definition bring_up ::
    "'d xhci_hw \<Rightarrow> phys_frame_ctor \<Rightarrow> u64 \<Rightarrow> handler \<Rightarrow> u8 \<Rightarrow> bdf \<Rightarrow> xhci_caps \<Rightarrow> 'd xhci_m \<Rightarrow>
     ((u64 \<times> u64 \<times> u64 \<times> u64) \<times> 'd xhci_m) outcome" where
  "bring_up D pf hhdm xhci_irq_handler lapic_id w caps m =
     (let rg = xc_regs caps in
      and_then (reset_controller D rg m) (\<lambda>m.
      and_then (alloc_zeroed_frame D pf hhdm m) (\<lambda>(dcbaa_phys, m).
      and_then (alloc_zeroed_frame D pf hhdm m) (\<lambda>(cmd_ring_phys, m).
      and_then (alloc_zeroed_frame D pf hhdm m) (\<lambda>(event_ring_phys, m).
      and_then (alloc_zeroed_frame D pf hhdm m) (\<lambda>(erst_phys, m).
      let m = fill_erst D (phys_to_virt hhdm erst_phys) event_ring_phys m in
      and_then (register_vector xhci_irq_handler (xm_idt m)) (\<lambda>(vector, t).
      and_then (program_msix_entry D hhdm w vector lapic_id (m\<lparr>xm_idt := t\<rparr>)) (\<lambda>m.
      let m = program_regs D rg (xc_max_slots caps) dcbaa_phys cmd_ring_phys event_ring_phys erst_phys m in
      and_then (start_controller D rg m) (\<lambda>m.
      Inr ((dcbaa_phys, cmd_ring_phys, event_ring_phys, erst_phys), m))))))))))"

definition xhci_run ::
    "'d xhci_hw \<Rightarrow> phys_frame_ctor \<Rightarrow> u64 \<Rightarrow> handler \<Rightarrow> u8 \<Rightarrow> 'd xhci_m \<Rightarrow> (u32 \<times> xhci \<times> 'd xhci_m) option run" where
  "xhci_run D pf hhdm xhci_irq_handler lapic_id m =
     (case find_controller (xm_cfg m) of
        None \<Rightarrow> returns None
      | Some (w, bar_phys) \<Rightarrow>
          (let m = x_io (X_map bar_phys BAR_MAP_SIZE) (xm_dev m) m;
               (caps, m) = read_caps D (bar_phys + hhdm) m;
               rg = xc_regs caps in
           run_then (Some (rust_assert (xc_max_scratch caps = 0))) (\<lambda>_.
           let cmd = config_read32 (xm_cfg m) (bus w) (dev w) (func w) 0x04;
               m = m\<lparr>xm_cfg := config_write32 (bus w) (dev w) (func w) 0x04 (cmd OR 0x06) (xm_cfg m)\<rparr> in
           run_then (Some (bring_up D pf hhdm xhci_irq_handler lapic_id w caps m))
             (\<lambda>((dcbaa_phys, cmd_ring_phys, event_ring_phys, erst_phys), m).
           let m = reset_connected_ports D rg (xc_max_ports caps) m in
           run_then (noop_round_trip D hhdm rg cmd_ring_phys event_ring_phys m) (\<lambda>(deq, ccs, m).
           run_then (enumerate D pf hhdm
             \<lparr>x_regs = rg, x_dcbaa_phys = dcbaa_phys, x_cmd_ring_phys = cmd_ring_phys, x_cmd_enqueue = 1,
              x_cmd_cycle = 1, x_event_ring_phys = event_ring_phys, x_event_deq = deq, x_event_ccs = ccs,
              x_ctx_size = xc_ctx_size caps, x_max_ports = xc_max_ports caps\<rparr> m) (\<lambda>r.
           returns (Some r)))))))"

section \<open>The order of the bring-up\<close>

lemma x_writes [simp]:
  "xm_log (w64 D a v64 m) = xm_log m @ [X_write 64 a v64]"
  "xm_log (zero_bytes D a n m) = xm_log m @ [X_zero a n]"
  "xm_frames (w32 D a v m) = xm_frames m" "xm_frames (w64 D a v64 m) = xm_frames m"
  "xm_frames (zero_bytes D a n m) = xm_frames m"
  by (simp_all add: w32_def w64_def zero_bytes_def)

lemma r32_log: "r32 D p m = (v, m') \<Longrightarrow> xm_log m' = xm_log m @ [X_read 32 p (ucast v)] \<and> xm_frames m' = xm_frames m"
  by (auto simp: r32_def split: prod.splits)

text \<open>The loads of a poll that ended with the awaited value.\<close>

definition polled :: "usize \<Rightarrow> u32 \<Rightarrow> u32 \<Rightarrow> xhci_io list \<Rightarrow> bool" where
  "polled reg msk expected es = (\<exists>vs v. es = map (\<lambda>u. X_read 32 reg (ucast u)) (vs @ [v]) \<and> v AND msk = expected \<and>
     (\<forall>u \<in> set vs. u AND msk \<noteq> expected) \<and> length es \<le> POLL_LIMIT)"

lemma poll_loop_log:
  assumes "poll_loop D reg msk expected n m = Inr m'"
  shows "xm_frames m' = xm_frames m \<and> (\<exists>vs v. xm_log m' = xm_log m @ map (\<lambda>u. X_read 32 reg (ucast u)) (vs @ [v]) \<and>
    v AND msk = expected \<and> (\<forall>u \<in> set vs. u AND msk \<noteq> expected) \<and> Suc (length vs) \<le> n)"
  using assms
proof (induction n arbitrary: m)
  case (Suc n)
  obtain v m1 where r: "r32 D reg m = (v, m1)" by force
  note l = r32_log [OF r]
  show ?case
  proof (cases "v AND msk = expected")
    case True
    then show ?thesis using Suc.prems r l by (intro conjI exI [of _ "[]"] exI [of _ v]) auto
  next
    case False
    then have "poll_loop D reg msk expected n m1 = Inr m'" using Suc.prems r by simp
    from Suc.IH [OF this] obtain vs u where u: "xm_frames m' = xm_frames m1"
      "xm_log m' = xm_log m1 @ map (\<lambda>u. X_read 32 reg (ucast u)) (vs @ [u])" "u AND msk = expected"
      "\<forall>x \<in> set vs. x AND msk \<noteq> expected" "Suc (length vs) \<le> n" by blast
    then show ?thesis using l False by (intro conjI exI [of _ "v # vs"] exI [of _ u]) auto
  qed
qed simp

lemma poll_until_log:
  assumes "poll_until D reg msk expected m = Inr m'"
  obtains es where "xm_frames m' = xm_frames m" "xm_log m' = xm_log m @ es" "polled reg msk expected es"
proof -
  from poll_loop_log [OF assms [unfolded poll_until_def]] obtain vs v where
    "xm_frames m' = xm_frames m" "xm_log m' = xm_log m @ map (\<lambda>u. X_read 32 reg (ucast u)) (vs @ [v])"
    "v AND msk = expected" "\<forall>u \<in> set vs. u AND msk \<noteq> expected" "Suc (length vs) \<le> POLL_LIMIT" by blast
  then show thesis using that [of "map (\<lambda>u. X_read 32 reg (ucast u)) (vs @ [v])"] unfolding polled_def by fastforce
qed

lemma alloc_zeroed_frame_log:
  assumes "alloc_zeroed_frame D pf hhdm m = Inr (p, m')"
  obtains f where "xm_log m' = xm_log m @ [X_zero (p + hhdm) 4096]"
    "free (xm_frames m) = free (xm_frames m') @ [f]" "pf f = Inr p"
proof -
  have "free (xm_frames m) \<noteq> []" "pf (last (free (xm_frames m))) = Inr p" "free (xm_frames m') = butlast (free (xm_frames m))"
    "xm_log m' = xm_log m @ [X_zero (p + hhdm) 4096]"
    using assms by (auto simp: alloc_zeroed_frame_def alloc_frame_def phys_to_virt_def and_then_eq_Inr split: if_splits)
  then show thesis using that [of "last (free (xm_frames m))"] by simp
qed

definition reset_log :: "usize \<Rightarrow> xhci_io list \<Rightarrow> bool" where
  "reset_log op es \<longleftrightarrow> (\<exists>cmd halt clear ready.
     es = [X_read 32 op (ucast cmd)] @ halt @ [X_write 32 op 2] @ clear @ ready \<and>
     (if bit (cmd :: u32) 0 then \<exists>w. halt = X_write 32 op (ucast (cmd AND NOT 1)) # w \<and> polled (op + 4) 1 1 w else halt = []) \<and>
     polled op 2 0 clear \<and> polled (op + 4) 0x800 0 ready)"

lemma bit0_u32: "(x :: u32) AND 1 = 0 \<longleftrightarrow> \<not> bit x 0"
  by (simp add: and_one_eq bit_0 mod_2_eq_odd)

lemma reset_controller_log:
  assumes "reset_controller D rg m = Inr m'"
  obtains es where "xm_frames m' = xm_frames m" "xm_log m' = xm_log m @ es" "reset_log (op_base rg) es"
proof -
  let ?op = "op_base rg"
  obtain cmd m1 where r: "r32 D ?op m = (cmd, m1)" by force
  note l = r32_log [OF r]
  have c: "USBCMD_RS = 1" "USBCMD_HCRST = 2" "USBSTS_HCH = 1" "USBSTS_CNR = 0x800" "?op + OP_USBCMD = ?op" "OP_USBSTS = 4"
    by (simp_all add: USBCMD_RS_def USBCMD_HCRST_def USBSTS_HCH_def USBSTS_CNR_def OP_USBCMD_def OP_USBSTS_def)
  obtain m2 m3 where
    h: "(if bit cmd 0 then poll_until D (?op + 4) 1 1 (w32 D ?op (cmd AND NOT 1) m1) else Inr m1) = Inr m2" and
    p3: "poll_until D ?op 2 0 (w32 D ?op 2 m2) = Inr m3" and p4: "poll_until D (?op + 4) 0x800 0 m3 = Inr m'"
    using assms r unfolding reset_controller_def c by (auto simp: bit0_u32 and_then_eq_Inr)
  obtain halt where h2: "xm_frames m2 = xm_frames m" "xm_log m2 = xm_log m @ [X_read 32 ?op (ucast cmd)] @ halt"
    "if bit cmd 0 then \<exists>w. halt = X_write 32 ?op (ucast (cmd AND NOT 1)) # w \<and> polled (?op + 4) 1 1 w else halt = []"
  proof (cases "bit cmd 0")
    case True
    with h have "poll_until D (?op + 4) 1 1 (w32 D ?op (cmd AND NOT 1) m1) = Inr m2" by simp
    then show thesis
      by (rule poll_until_log) (rule that [of "X_write 32 ?op (ucast (cmd AND NOT 1)) # es" for es]; simp add: l True)
  next
    case False then show thesis using h l that [of "[]"] by simp
  qed
  obtain clear where c3: "xm_frames m3 = xm_frames m2" "xm_log m3 = xm_log m2 @ [X_write 32 ?op 2] @ clear" "polled ?op 2 0 clear"
    using poll_until_log [OF p3] by auto
  obtain ready where c4: "xm_frames m' = xm_frames m3" "xm_log m' = xm_log m3 @ ready" "polled (?op + 4) 0x800 0 ready"
    using poll_until_log [OF p4] by auto
  have "reset_log ?op ([X_read 32 ?op (ucast cmd)] @ halt @ [X_write 32 ?op 2] @ clear @ ready)"
    unfolding reset_log_def using h2(3) c3(3) c4(3) by blast
  then show thesis by (rule that [rotated 2]) (simp_all add: h2 c3 c4)
qed

definition start_log :: "usize \<Rightarrow> xhci_io list \<Rightarrow> bool" where
  "start_log op es \<longleftrightarrow> (\<exists>cmd run. es = [X_read 32 op (ucast cmd), X_write 32 op (ucast (cmd OR 5 :: u32))] @ run \<and>
     polled (op + 4) 1 0 run)"

lemma start_controller_log:
  assumes "start_controller D rg m = Inr m'"
  obtains es where "xm_frames m' = xm_frames m" "xm_log m' = xm_log m @ es" "start_log (op_base rg) es"
proof -
  let ?op = "op_base rg"
  obtain cmd m1 where r: "r32 D ?op m = (cmd, m1)" by force
  note l = r32_log [OF r]
  have c: "USBSTS_HCH = 1" "?op + OP_USBCMD = ?op" "OP_USBSTS = 4" "x OR USBCMD_RS OR USBCMD_INTE = x OR 5" for x
    by (simp_all add: USBCMD_RS_def USBSTS_HCH_def USBCMD_INTE_def OP_USBCMD_def OP_USBSTS_def or.assoc)
  have "poll_until D (?op + 4) 1 0 (w32 D ?op (cmd OR 5) m1) = Inr m'"
    using assms r unfolding start_controller_def c by simp
  then obtain run where "xm_frames m' = xm_frames m1" "xm_log m' = xm_log m1 @ [X_write 32 ?op (ucast (cmd OR 5))] @ run"
    "polled (?op + 4) 1 0 run" by (rule poll_until_log) auto
  moreover from this(3) have "start_log ?op ([X_read 32 ?op (ucast cmd), X_write 32 ?op (ucast (cmd OR 5))] @ run)"
    unfolding start_log_def by blast
  ultimately show thesis using l by (intro that) simp_all
qed

text \<open>The stores that route the interrupt, and those that hand the rings to the controller.\<close>

definition msix_log :: "u64 \<Rightarrow> u64 \<Rightarrow> u8 \<Rightarrow> u8 \<Rightarrow> xhci_io list" where
  "msix_log hhdm tp vector apic_id =
     [X_map (tp AND NOT 0xFFF) 0x1000, X_write 32 (tp + hhdm) (ucast (0xFEE00000 OR push_bit 12 (ucast apic_id) :: u32)),
      X_write 32 (tp + hhdm + 4) 0, X_write 32 (tp + hhdm + 8) (ucast (ucast vector :: u32)), X_write 32 (tp + hhdm + 12) 0]"

lemma program_msix_entry_log:
  assumes "program_msix_entry D hhdm w vector apic_id m = Inr m'"
  obtains tp where "xm_frames m' = xm_frames m" "xm_log m' = xm_log m @ msix_log hhdm tp vector apic_id"
  using assms
  by (auto simp: program_msix_entry_def and_then_eq_Inr Let_def msix_log_def)

definition rings_log :: "regs \<Rightarrow> u8 \<Rightarrow> u64 \<Rightarrow> u64 \<Rightarrow> u64 \<Rightarrow> u64 \<Rightarrow> xhci_io list" where
  "rings_log rg slots dcbaa cr er erst =
     [X_write 32 (op_base rg + 0x38) (ucast (ucast slots :: u32)), X_write 64 (op_base rg + 0x30) dcbaa,
      X_write 64 (op_base rg + 0x18) (cr OR 1), X_write 32 (rt_base rg + 0x28) 1, X_write 32 (rt_base rg + 0x24) 0,
      X_write 64 (rt_base rg + 0x38) er, X_write 64 (rt_base rg + 0x30) erst, X_write 32 (rt_base rg + 0x20) 2]"

lemma program_regs_log:
  "xm_log (program_regs D rg slots dcbaa cr er erst m) = xm_log m @ rings_log rg slots dcbaa cr er erst"
  "xm_frames (program_regs D rg slots dcbaa cr er erst m) = xm_frames m"
  by (simp_all add: program_regs_def rings_log_def OP_CONFIG_def OP_DCBAAP_def OP_CRCR_def IR0_ERSTSZ_def IR0_IMOD_def
      IR0_ERDP_def IR0_ERSTBA_def IR0_IMAN_def IMAN_IE_def Let_def add.commute [of _ "rt_base rg"])

definition erst_log :: "u64 \<Rightarrow> u64 \<Rightarrow> xhci_io list" where
  "erst_log a er = [X_write 32 a (ucast (ucast er :: u32)), X_write 32 (a + 4) (ucast (ucast (drop_bit 32 er) :: u32)),
     X_write 32 (a + 8) 16, X_write 32 (a + 12) 0]"

lemma fill_erst_log:
  "xm_log (fill_erst D a er m) = xm_log m @ erst_log a er" "xm_frames (fill_erst D a er m) = xm_frames m"
  by (simp_all add: fill_erst_def erst_log_def EVENT_RING_TRBS_def Let_def)

text \<open>
  C19. The bring-up sequence, for every controller whatsoever. If it returns, the controller was
  touched in exactly this order: a running controller is halted and seen halted; it is reset, and
  both the end of the reset and the readiness are awaited; only then four frames taken from the pool
  are zeroed, the segment table is filled with the event ring and its 16 entries, the
  interrupt is routed, and the slot count, context array, command ring (with cycle state 1),
  segment table size, dequeue pointer and segment table are programmed before the interrupter
  is enabled; Run and interrupt enable are set last, and the controller is seen running.
  No wait took more than its bound.
\<close>
theorem bring_up_order:
  assumes "bring_up D pf hhdm h lapic w caps m = Inr ((dcbaa, cr, er, erst), m')"
  shows "\<exists>reset tp vector start.
    xm_log m' = xm_log m @ reset @ [X_zero (dcbaa + hhdm) 4096, X_zero (cr + hhdm) 4096, X_zero (er + hhdm) 4096,
      X_zero (erst + hhdm) 4096] @ erst_log (erst + hhdm) er @ msix_log hhdm tp vector lapic @
      rings_log (xc_regs caps) (xc_max_slots caps) dcbaa cr er erst @ start \<and>
    reset_log (op_base (xc_regs caps)) reset \<and> start_log (op_base (xc_regs caps)) start \<and>
    (\<exists>f1 f2 f3 f4. free (xm_frames m) = free (xm_frames m') @ [f4, f3, f2, f1] \<and>
      pf f1 = Inr dcbaa \<and> pf f2 = Inr cr \<and> pf f3 = Inr er \<and> pf f4 = Inr erst)"
proof -
  let ?rg = "xc_regs caps"
  obtain m0 m1 m2 m3 m4 vector t m5 where
    s0: "reset_controller D ?rg m = Inr m0" and
    s1: "alloc_zeroed_frame D pf hhdm m0 = Inr (dcbaa, m1)" and s2: "alloc_zeroed_frame D pf hhdm m1 = Inr (cr, m2)" and
    s3: "alloc_zeroed_frame D pf hhdm m2 = Inr (er, m3)" and s4: "alloc_zeroed_frame D pf hhdm m3 = Inr (erst, m4)" and
    s5: "program_msix_entry D hhdm w vector lapic ((fill_erst D (erst + hhdm) er m4)\<lparr>xm_idt := t\<rparr>) = Inr m5" and
    s6: "start_controller D ?rg (program_regs D ?rg (xc_max_slots caps) dcbaa cr er erst m5) = Inr m'"
    using assms unfolding bring_up_def Let_def phys_to_virt_def
    by (elim and_then_pairE and_then_InrE)
      (drule Inr_inject, elim Pair_inject, hypsubst, rule that)
  obtain reset where 0: "xm_frames m0 = xm_frames m" "xm_log m0 = xm_log m @ reset" "reset_log (op_base ?rg) reset"
    using s0 by (rule reset_controller_log)
  obtain f1 where 1: "xm_log m1 = xm_log m0 @ [X_zero (dcbaa + hhdm) 4096]" "free (xm_frames m0) = free (xm_frames m1) @ [f1]"
    "pf f1 = Inr dcbaa" using s1 by (rule alloc_zeroed_frame_log)
  obtain f2 where 2: "xm_log m2 = xm_log m1 @ [X_zero (cr + hhdm) 4096]" "free (xm_frames m1) = free (xm_frames m2) @ [f2]"
    "pf f2 = Inr cr" using s2 by (rule alloc_zeroed_frame_log)
  obtain f3 where 3: "xm_log m3 = xm_log m2 @ [X_zero (er + hhdm) 4096]" "free (xm_frames m2) = free (xm_frames m3) @ [f3]"
    "pf f3 = Inr er" using s3 by (rule alloc_zeroed_frame_log)
  obtain f4 where 4: "xm_log m4 = xm_log m3 @ [X_zero (erst + hhdm) 4096]" "free (xm_frames m3) = free (xm_frames m4) @ [f4]"
    "pf f4 = Inr erst" using s4 by (rule alloc_zeroed_frame_log)
  obtain tp where 5: "xm_frames m5 = xm_frames m4" "xm_log m5 = xm_log m4 @ erst_log (erst + hhdm) er @ msix_log hhdm tp vector lapic"
    using s5 by (rule program_msix_entry_log) (simp add: fill_erst_log)
  obtain start where 6: "xm_frames m' = xm_frames m5"
    "xm_log m' = xm_log m5 @ rings_log ?rg (xc_max_slots caps) dcbaa cr er erst @ start" "start_log (op_base ?rg) start"
    using s6 by (rule start_controller_log) (simp add: program_regs_log)
  have log: "xm_log m' = xm_log m @ reset @ [X_zero (dcbaa + hhdm) 4096, X_zero (cr + hhdm) 4096, X_zero (er + hhdm) 4096,
      X_zero (erst + hhdm) 4096] @ erst_log (erst + hhdm) er @ msix_log hhdm tp vector lapic @
      rings_log ?rg (xc_max_slots caps) dcbaa cr er erst @ start"
    by (simp add: 6(2) 5(2) 4(1) 3(1) 2(1) 1(1) 0(2))
  have "free (xm_frames m) = free (xm_frames m') @ [f4, f3, f2, f1]"
    unfolding 0(1) [symmetric] 1(2) 2(2) 3(2) 4(2) 6(1) 5(1) by simp
  then show ?thesis using log 0(3) 6(3) 1(3) 2(3) 3(3) 4(3) by blast
qed

text \<open>A controller whose registers read as zero: it is halted, and ready and running at once.\<close>

definition zero_hw :: "unit xhci_hw" where
  "zero_hw = \<lparr>xh_read = (\<lambda>w a d. (0, d)), xh_write = (\<lambda>w a v d. d), xh_zero = (\<lambda>a n d. d), xh_irq_count = (\<lambda>d. (1, d))\<rparr>"

definition zero_m :: "unit xhci_m" where
  "zero_m = \<lparr>xm_dev = (), xm_log = [], xm_frames = \<lparr>free = [0x5000, 0x4000, 0x3000, 0x2000, 0x1000], total_added_ctr = 5\<rparr>,
     xm_cfg = demo_cfg(config_addr 0 3 0 0x14 := 0xE0000000), xm_idt = idt_boot, xm_hid = None\<rparr>"

definition zero_caps :: xhci_caps where
  "zero_caps = \<lparr>xc_max_slots = 8, xc_max_ports = 4, xc_max_scratch = 0, xc_ctx_size = 32,
     xc_regs = \<lparr>cap_base = 0x10000, op_base = 0x10040, rt_base = 0x11000, db_base = 0x12000\<rparr>\<rparr>"

lemma r32_zero [simp]: "r32 zero_hw p m = (0, x_io (X_read 32 p 0) (xm_dev m) m)"
  by (simp add: r32_def zero_hw_def)

lemma poll_loop_zero: "poll_loop zero_hw reg msk 0 (Suc n) m = Inr (x_io (X_read 32 reg 0) (xm_dev m) m)"
  by simp

lemma poll_zero [simp]: "poll_until zero_hw reg msk 0 m = Inr (x_io (X_read 32 reg 0) (xm_dev m) m)"
proof -
  have n: "POLL_LIMIT = Suc 49999999" by (simp add: POLL_LIMIT_def)
  show ?thesis unfolding poll_until_def n by (rule poll_loop_zero)
qed

lemma zero_msix:
  assumes "xm_cfg m = xm_cfg zero_m"
  shows "\<exists>m'. program_msix_entry zero_hw 0 \<lparr>bus = 0, dev = 3, func = 0\<rparr> v a m = Inr m' \<and> xm_frames m' = xm_frames m"
proof -
  have "map_option table_bar (msix_info (xm_cfg zero_m) 0 3 0) = Some 1" by code_simp
  moreover have "bar_address (xm_cfg zero_m) 0 3 0 1 = 0xE0000000" by code_simp
  ultimately show ?thesis using assms by (auto simp: program_msix_entry_def Let_def)
qed

lemma x_other [simp]:
  "xm_cfg (w32 D a v m) = xm_cfg m" "xm_cfg (w64 D a v64 m) = xm_cfg m" "xm_cfg (zero_bytes D a n m) = xm_cfg m"
  "xm_idt (w32 D a v m) = xm_idt m" "xm_idt (w64 D a v64 m) = xm_idt m" "xm_idt (zero_bytes D a n m) = xm_idt m"
  by (simp_all add: w32_def w64_def zero_bytes_def)

lemma zero_reset: "\<exists>m'. reset_controller zero_hw rg m = Inr m' \<and> xm_frames m' = xm_frames m \<and> xm_cfg m' = xm_cfg m \<and> xm_idt m' = xm_idt m"
  by (simp add: reset_controller_def)

lemma zero_alloc:
  assumes "free (xm_frames m) = xs @ [p]"
  obtains m' where "alloc_zeroed_frame zero_hw Inr 0 m = Inr (p, m')" "free (xm_frames m') = xs" "xm_cfg m' = xm_cfg m" "xm_idt m' = xm_idt m"
  using assms by (simp add: alloc_zeroed_frame_def alloc_frame_def)

theorem bring_up_order_witness:
  "\<exists>m'. bring_up zero_hw Inr 0 (Driver 0) 0 \<lparr>bus = 0, dev = 3, func = 0\<rparr> zero_caps zero_m =
      Inr ((0x1000, 0x2000, 0x3000, 0x4000), m') \<and> free (xm_frames m') = [0x5000]"
proof -
  let ?w = "\<lparr>bus = 0, dev = 3, func = 0\<rparr>"
  have v: "register_vector h idt_boot = Inr (0x40, set_handler_fn 0x40 h (idt_boot\<lparr>NEXT_DYN_VECTOR := 0x41\<rparr>))" for h
    by (simp add: register_vector_def idt_boot_def idt_consts word_le_nat_alt)
  obtain m0 where 0: "reset_controller zero_hw (xc_regs zero_caps) zero_m = Inr m0"
    "xm_frames m0 = xm_frames zero_m" "xm_cfg m0 = xm_cfg zero_m" "xm_idt m0 = xm_idt zero_m"
    using zero_reset by blast
  then have "free (xm_frames m0) = [0x5000, 0x4000, 0x3000, 0x2000] @ [0x1000]" by (simp add: zero_m_def)
  then obtain m1 where 1: "alloc_zeroed_frame zero_hw Inr 0 m0 = Inr (0x1000, m1)"
    "free (xm_frames m1) = [0x5000, 0x4000, 0x3000] @ [0x2000]" "xm_cfg m1 = xm_cfg m0" "xm_idt m1 = xm_idt m0"
    by (rule zero_alloc) simp
  from 1(2) obtain m2 where 2: "alloc_zeroed_frame zero_hw Inr 0 m1 = Inr (0x2000, m2)"
    "free (xm_frames m2) = [0x5000, 0x4000] @ [0x3000]" "xm_cfg m2 = xm_cfg m1" "xm_idt m2 = xm_idt m1"
    by (rule zero_alloc) simp
  from 2(2) obtain m3 where 3: "alloc_zeroed_frame zero_hw Inr 0 m2 = Inr (0x3000, m3)"
    "free (xm_frames m3) = [0x5000] @ [0x4000]" "xm_cfg m3 = xm_cfg m2" "xm_idt m3 = xm_idt m2"
    by (rule zero_alloc) simp
  from 3(2) obtain m4 where 4: "alloc_zeroed_frame zero_hw Inr 0 m3 = Inr (0x4000, m4)"
    "free (xm_frames m4) = [0x5000]" "xm_cfg m4 = xm_cfg m3" "xm_idt m4 = xm_idt m3"
    by (rule zero_alloc) simp
  have "xm_idt m4 = idt_boot" using 0 1 2 3 4 by (simp add: zero_m_def)
  moreover have "xm_cfg (fill_erst zero_hw a er m4\<lparr>xm_idt := t\<rparr>) = xm_cfg zero_m" for a er t
    using 0 1 2 3 4 by (simp add: fill_erst_def Let_def)
  from zero_msix [OF this] obtain m5 where 5: "program_msix_entry zero_hw 0 ?w 0x40 0
      (fill_erst zero_hw (phys_to_virt 0 0x4000) 0x3000 m4\<lparr>xm_idt := set_handler_fn 0x40 (Driver 0) (idt_boot\<lparr>NEXT_DYN_VECTOR := 0x41\<rparr>)\<rparr>) = Inr m5"
    by blast
  moreover have "xm_idt (fill_erst zero_hw a er m4) = xm_idt m4" for a er by (simp add: fill_erst_def Let_def)
  moreover obtain m6 where "start_controller zero_hw (xc_regs zero_caps)
      (program_regs zero_hw (xc_regs zero_caps) (xc_max_slots zero_caps) 0x1000 0x2000 0x3000 0x4000 m5) = Inr m6"
    by (simp add: start_controller_def)
  ultimately have "\<exists>m'. bring_up zero_hw Inr 0 (Driver 0) 0 ?w zero_caps zero_m = Inr ((0x1000, 0x2000, 0x3000, 0x4000), m')"
    unfolding bring_up_def Let_def using 0(1) 1(1) 2(1) 3(1) 4(1) v by simp
  then obtain m' where r: "bring_up zero_hw Inr 0 (Driver 0) 0 ?w zero_caps zero_m = Inr ((0x1000, 0x2000, 0x3000, 0x4000), m')" ..
  from bring_up_order [OF this] r show ?thesis by (auto simp: zero_m_def)
qed

section \<open>Stores stay in their frames\<close>

definition in_frame :: "usize \<Rightarrow> xhci_io \<Rightarrow> bool" where
  "in_frame a e \<longleftrightarrow> (\<exists>k v. e = X_write 32 (a + of_nat k) v \<and> k + 4 \<le> 4096 \<and> 4 dvd k)"

lemma in_frameI: "p = a + of_nat k \<Longrightarrow> k + 4 \<le> 4096 \<Longrightarrow> 4 dvd k \<Longrightarrow> in_frame a (X_write 32 p v)"
  by (auto simp: in_frame_def)

text \<open>The device context indices that endpoint addresses give, and the offset of their contexts.\<close>

lemma dci_value:
  fixes b :: u8
  defines "n \<equiv> unat (b AND 0x0F)"
  shows "n \<le> 15" "(ucast (ucast (b AND 0x0F) * 2 + 1 :: u32) :: usize) = of_nat (2 * n + 1)"
    "(ucast (ucast (b AND 0x0F) * 2 :: u32) :: usize) = of_nat (2 * n)"
proof -
  have "(0x0F :: u8) = mask 4" by (simp add: mask_eq_exp_minus_1)
  then have "b AND 0x0F = take_bit 4 b" by (simp add: take_bit_eq_mask)
  then have "n < 16" unfolding n_def by (simp add: unat_take_bit_word)
  then show n: "n \<le> 15" by simp
  have u: "(ucast (b AND 0x0F) :: u32) = of_nat n" by (simp add: n_def)
  have "unat (of_nat n * 2 + 1 :: u32) = 2 * n + 1" "unat (of_nat n * 2 :: u32) = 2 * n"
    using n by (simp_all add: unat_word_ariths unat_of_nat)
  then show "(ucast (ucast (b AND 0x0F) * 2 + 1 :: u32) :: usize) = of_nat (2 * n + 1)"
    "(ucast (ucast (b AND 0x0F) * 2 :: u32) :: usize) = of_nat (2 * n)"
    unfolding u by (metis of_nat_unat)+
qed

lemma context_store:
  assumes "c = 32 \<or> c = 64" "d \<le> 32" "j \<le> 16" "4 dvd j"
  shows "in_frame a (X_write 32 (a + of_nat d * of_nat c + of_nat j) v)"
proof (rule in_frameI)
  show "a + of_nat d * of_nat c + of_nat j = a + of_nat (d * c + j)" by simp
  show "d * c + j + 4 \<le> 4096" using assms mult_mono [of d 32 c 64] by auto
  show "4 dvd d * c + j" using assms by auto
qed

lemma ctx_size_nat: "ctx = 32 \<or> ctx = 64 \<Longrightarrow> \<exists>c. ctx = (of_nat c :: usize) \<and> (c = 32 \<or> c = 64)"
  by (auto intro: exI [of _ 32] exI [of _ 64])

lemma address_context_frame:
  assumes "c = 32 \<or> c = 64"
  shows "\<exists>es. xm_log (address_input_context D a (of_nat c) speed port ring_phys m) = xm_log m @ es \<and> list_all (in_frame a) es"
  using context_store [OF assms, of 0 4 a] context_store [OF assms, of 1 0 a] context_store [OF assms, of 1 4 a]
    context_store [OF assms, of 2 4 a] context_store [OF assms, of 2 8 a] context_store [OF assms, of 2 12 a]
    context_store [OF assms, of 2 16 a]
  by (simp add: address_input_context_def Let_def)

lemma hid_context_frame:
  assumes "c = 32 \<or> c = 64" "d = 2 * unat (b AND 0x0F) + 2"
  shows "\<exists>es. xm_log (hid_input_context D a (of_nat c) (ucast (b AND 0x0F :: u8) * 2 + 1) speed port interval mp ring_phys m) =
    xm_log m @ es \<and> list_all (in_frame a) es"
proof -
  have e: "(ucast (ucast (b AND 0x0F) * 2 + 1 :: u32) + 1 :: usize) = of_nat d" and d: "d \<le> 32"
    using dci_value [of b] assms(2) by simp_all
  show ?thesis
    using context_store [OF assms(1), of 0 4 a] context_store [OF assms(1), of 1 0 a] context_store [OF assms(1), of 1 4 a]
      context_store [OF assms(1) d, of 0 a] context_store [OF assms(1) d, of 4 a] context_store [OF assms(1) d, of 8 a]
      context_store [OF assms(1) d, of 12 a] context_store [OF assms(1) d, of 16 a]
    unfolding hid_input_context_def e by (simp add: Let_def)
qed

lemma bulk_context_frame:
  assumes "c = 32 \<or> c = 64" "d \<le> 32" "p = a + of_nat d * of_nat c"
  shows "\<exists>es. xm_log (bulk_context D p mp ty ring_phys m) = xm_log m @ es \<and> list_all (in_frame a) es"
  using context_store [OF assms(1, 2), of 4 a] context_store [OF assms(1, 2), of 8 a]
    context_store [OF assms(1, 2), of 12 a] context_store [OF assms(1, 2), of 16 a]
  by (simp add: bulk_context_def Let_def assms(3))

lemma storage_context_frame:
  assumes "c = 32 \<or> c = 64"
  shows "\<exists>es. xm_log (storage_input_context D a (of_nat c) (ucast (i AND 0x0F :: u8) * 2 + 1) (ucast (b AND 0x0F :: u8) * 2)
      speed port imp omp ir outr m) = xm_log m @ es \<and> list_all (in_frame a) es"
proof -
  let ?in = "2 * unat (i AND 0x0F) + 2" and ?out = "2 * unat (b AND 0x0F) + 1"
  have e: "(ucast (ucast (i AND 0x0F) * 2 + 1 :: u32) + 1 :: usize) = of_nat ?in"
    "(ucast (ucast (b AND 0x0F) * 2 :: u32) + 1 :: usize) = of_nat ?out" and d: "?in \<le> 32" "?out \<le> 32"
    using dci_value [of i] dci_value [of b] by simp_all
  define m1 where "m1 = w32 D (a + of_nat c + 4) (push_bit 16 (ucast port)) (w32 D (a + of_nat c)
    (push_bit 27 (max (ucast (i AND 0x0F) * 2 + 1) (ucast (b AND 0x0F) * 2)) OR push_bit 20 speed)
    (w32 D (a + 4) (1 OR push_bit (unat (ucast (i AND 0x0F) * 2 + 1 AND 31 :: u32)) 1 OR push_bit (unat (ucast (b AND 0x0F) * 2 AND 31 :: u32)) 1) m))"
  obtain e1 where 1: "xm_log m1 = xm_log m @ e1" "list_all (in_frame a) e1"
    using context_store [OF assms, of 0 4 a] context_store [OF assms, of 1 0 a] context_store [OF assms, of 1 4 a]
    by (simp add: m1_def)
  define m2 where "m2 = bulk_context D (a + of_nat ?out * of_nat c) omp 2 outr m1"
  obtain e2 where 2: "xm_log m2 = xm_log m1 @ e2" "list_all (in_frame a) e2"
    using bulk_context_frame [OF assms d(2) refl] unfolding m2_def by blast
  obtain e3 where "xm_log (bulk_context D (a + of_nat ?in * of_nat c) imp 6 ir m2) = xm_log m2 @ e3" "list_all (in_frame a) e3"
    using bulk_context_frame [OF assms d(1) refl] by blast
  then show ?thesis
    unfolding storage_input_context_def Let_def e m1_def [symmetric] m2_def [symmetric]
    using 1 2 by (intro exI [of _ "e1 @ e2 @ e3"]) simp
qed

lemma put_trb_frame:
  assumes "i < 255" "trb = a + i * 16"
  shows "\<exists>es. xm_log (put_trb D trb d0 d1 d2 d3 m) = xm_log m @ es \<and> list_all (in_frame a) es"
proof -
  define n where "n = unat i"
  have n: "n < 255" "trb = a + of_nat (16 * n)" using assms by (simp_all add: n_def word_less_nat_alt)
  have "in_frame a (X_write 32 (trb + of_nat (4 * j)) v)" if "j < 4" for j v
    using n that by (intro in_frameI [of _ _ "16 * n + 4 * j"]) (auto simp: algebra_simps)
  from this [of 0] this [of 1] this [of 2] this [of 3] show ?thesis by (simp add: put_trb_def Let_def)
qed



end
