(* ===== verification/LkIrq.thy ===== *)
theory LkIrq
  imports Idt
begin

text \<open>
  The interrupt bridge of the LinuxKPI shim, linuxkpi/src/irq.rs: sixteen dispatchers, each
  installed at an interrupt vector of its own, and the table through which a dispatcher finds the
  handler a driver registered for its slot. A handler is a value of a type of its own; what it
  does when it is called is a parameter, since drivers are C code outside the crate. The theory
  shows that a registered handler is the one its vector reaches, and what interleaved callers of
  the slot allocator may be given.
\<close>

section \<open>Model\<close>

text \<open>C's int; \<^term>\<open>sint\<close> reads it.\<close>

type_synonym c_int = "32 word"

lemma sint_u32:
  "unat (w :: 32 word) < 2 ^ 31 \<Longrightarrow> sint w = int (unat w)"
  "2 ^ 31 \<le> unat (w :: 32 word) \<Longrightarrow> sint w < 0"
proof -
  have u: "uint w < 2 ^ 32" "0 \<le> uint w" using uint_lt2p [of w] by simp_all
  have i: "int (unat w) = uint w" by simp
  show "sint w = int (unat w)" if "unat w < 2 ^ 31"
  proof -
    have "int (unat w) < 2 ^ 31" by (metis that of_nat_less_iff of_nat_numeral of_nat_power)
    then have "uint w < 2 ^ 31" unfolding i .
    then show ?thesis using u by (auto simp: sint_uint signed_take_bit_int_eq_self_iff intro: order_trans [of _ 0])
  qed
  show "sint w < 0" if "2 ^ 31 \<le> unat w"
  proof -
    have "2 ^ 31 \<le> int (unat w)" by (metis that of_nat_le_iff of_nat_numeral of_nat_power)
    then have "2 ^ 31 \<le> uint w" unfolding i .
    then have "uint w div 2 ^ 31 = 1" using u by simp
    then have "bit (uint w) 31" by (simp add: bit_iff_odd)
    then show ?thesis by (simp add: sint_uint)
  qed
qed

record 'h slot_entry =
  se_handler :: 'h
  se_dev_id :: u64
  se_irq :: u32

definition SLOT_COUNT :: usize where "SLOT_COUNT = 16"

record 'h irq_pool =
  SLOTS :: "'h slot_entry option list"
  SLOT_TO_IDT_VEC :: "u8 list option"
  NEXT_SLOT :: usize

definition irq_boot :: "'h irq_pool" where
  "irq_boot = \<lparr>SLOTS = replicate (unat SLOT_COUNT) None, SLOT_TO_IDT_VEC = None, NEXT_SLOT = 0\<rparr>"

text \<open>The dispatcher of a slot is named by the slot.\<close>

definition DISPATCHERS :: "nat list" where "DISPATCHERS = [0..<unat SLOT_COUNT]"

text \<open>
  The handler runs on the state \<open>w\<close> of the rest of the machine; the end of interrupt is signalled
  whether or not a handler is registered.
\<close>

definition dispatch_common ::
    "('h \<Rightarrow> u32 \<Rightarrow> u64 \<Rightarrow> 'w \<Rightarrow> 'w outcome) \<Rightarrow> ('w \<Rightarrow> 'w) \<Rightarrow> nat \<Rightarrow> 'h irq_pool \<Rightarrow> 'w \<Rightarrow> 'w outcome" where
  "dispatch_common call eoi slot p w =
     and_then (slice_at (SLOTS p) slot) (\<lambda>entry.
     and_then (case entry of None \<Rightarrow> Inr w | Some e \<Rightarrow> call (se_handler e) (se_irq e) (se_dev_id e) w) (\<lambda>w.
       Inr (eoi w)))"

fun register_each ::
    "(nat \<Rightarrow> 'i \<Rightarrow> (u8 \<times> 'i) outcome) \<Rightarrow> nat list \<Rightarrow> 'i \<Rightarrow> (u8 list \<times> 'i) outcome" where
  "register_each register [] t = Inr ([], t)"
| "register_each register (d # ds) t =
     and_then (register d t) (\<lambda>(v, t). and_then (register_each register ds t) (\<lambda>(vs, t). Inr (v # vs, t)))"

definition register_dispatchers ::
    "(nat \<Rightarrow> 'i \<Rightarrow> (u8 \<times> 'i) outcome) \<Rightarrow> 'h irq_pool \<Rightarrow> 'i \<Rightarrow> ('h irq_pool \<times> 'i) outcome" where
  "register_dispatchers register p t =
     (case SLOT_TO_IDT_VEC p of
        Some _ \<Rightarrow> Inr (p, t)
      | None \<Rightarrow> and_then (register_each register DISPATCHERS t) (\<lambda>(vecs, t).
          Inr (p\<lparr>SLOT_TO_IDT_VEC := Some vecs\<rparr>, t)))"

definition slot_idt_vector :: "nat \<Rightarrow> 'h irq_pool \<Rightarrow> u8 outcome" where
  "slot_idt_vector slot p = and_then (expect (SLOT_TO_IDT_VEC p)) (\<lambda>vecs. slice_at vecs slot)"

definition alloc_slots :: "usize \<Rightarrow> 'h irq_pool \<Rightarrow> usize option \<times> 'h irq_pool" where
  "alloc_slots count p =
     (if count = 0 \<or> count > SLOT_COUNT then (None, p)
      else let first = NEXT_SLOT p;
               p = p\<lparr>NEXT_SLOT := first + count\<rparr>
           in if first + count > SLOT_COUNT then (None, p\<lparr>NEXT_SLOT := NEXT_SLOT p - count\<rparr>)
              else (Some first, p))"

definition request_irq :: "u32 \<Rightarrow> 'h \<Rightarrow> u64 \<Rightarrow> 'h irq_pool \<Rightarrow> c_int \<times> 'h irq_pool" where
  "request_irq irq handler dev_id p =
     (let slot = ucast irq :: usize
      in if slot \<ge> SLOT_COUNT then (-1, p)
         else (0, p\<lparr>SLOTS := (SLOTS p)[unat slot := Some \<lparr>se_handler = handler, se_dev_id = dev_id, se_irq = irq\<rparr>]\<rparr>))"

definition free_irq :: "u32 \<Rightarrow> u64 \<Rightarrow> 'h irq_pool \<Rightarrow> (u64 \<times> 'h irq_pool) outcome" where
  "free_irq irq dev_id p =
     (let slot = ucast irq :: usize
      in if slot \<ge> SLOT_COUNT then Inr (0, p)
         else and_then (slice_at (SLOTS p) (unat slot)) (\<lambda>prior.
           Inr (case prior of None \<Rightarrow> 0 | Some e \<Rightarrow> se_dev_id e, p\<lparr>SLOTS := (SLOTS p)[unat slot := None]\<rparr>)))"

section \<open>Delivery\<close>

lemma unat_SLOT_COUNT [simp]: "unat SLOT_COUNT = 16"
  by (simp add: SLOT_COUNT_def)

lemma length_DISPATCHERS [simp]: "length DISPATCHERS = 16"
  by (simp add: DISPATCHERS_def)

lemma register_each_all:
  "register_each (\<lambda>n. register_vector (Driver n)) ns t = register_all (map Driver ns) t"
  by (induction ns arbitrary: t) auto

text \<open>The pool after boot: sixteen slots, and the vector of every slot once they are registered.\<close>

definition irq_ok :: "'h irq_pool \<Rightarrow> bool" where
  "irq_ok p \<longleftrightarrow> length (SLOTS p) = 16 \<and> unat (NEXT_SLOT p) \<le> 16 \<and>
     (\<forall>vs. SLOT_TO_IDT_VEC p = Some vs \<longrightarrow> length vs = 16)"

lemma length_register_each: "register_each r ns t = Inr (vs, t') \<Longrightarrow> length vs = length ns"
  by (induction ns arbitrary: t vs t') (auto elim!: and_then_pairE)

lemma slot_u64: "unat (irq :: u32) < 16 \<Longrightarrow> \<not> (ucast irq :: usize) \<ge> SLOT_COUNT \<and> unat (ucast irq :: usize) = unat irq"
  by (simp add: SLOT_COUNT_def word_le_nat_alt unat_widen_32_64)

lemma request_irq_in:
  "unat irq < 16 \<Longrightarrow> request_irq irq h d p =
     (0, p\<lparr>SLOTS := (SLOTS p)[unat irq := Some \<lparr>se_handler = h, se_dev_id = d, se_irq = irq\<rparr>]\<rparr>)"
  using slot_u64 [of irq] by (simp add: request_irq_def)

lemma free_irq_in:
  "unat irq < 16 \<Longrightarrow> length (SLOTS p) = 16 \<Longrightarrow> free_irq irq d p =
     Inr (case SLOTS p ! unat irq of None \<Rightarrow> 0 | Some e \<Rightarrow> se_dev_id e, p\<lparr>SLOTS := (SLOTS p)[unat irq := None]\<rparr>)"
  using slot_u64 [of irq] by (simp add: free_irq_def)

lemma alloc_slots_eq:
  assumes "unat (NEXT_SLOT p) \<le> 16"
  shows "alloc_slots count p =
    (if count \<noteq> 0 \<and> unat (NEXT_SLOT p) + unat count \<le> 16
     then (Some (NEXT_SLOT p), p\<lparr>NEXT_SLOT := NEXT_SLOT p + count\<rparr>) else (None, p))"
proof (cases "count = 0 \<or> count > SLOT_COUNT")
  case True
  then show ?thesis by (auto simp: alloc_slots_def SLOT_COUNT_def word_less_nat_alt)
next
  case False
  then have "unat count \<le> 16" by (simp add: SLOT_COUNT_def word_less_nat_alt)
  then have "unat (NEXT_SLOT p + count) = unat (NEXT_SLOT p) + unat count"
    using assms by (intro unat_add_noof) simp
  then show ?thesis
    using False by (auto simp: alloc_slots_def Let_def SLOT_COUNT_def word_less_nat_alt not_less)
qed

lemma irq_ok_alloc: "irq_ok p \<Longrightarrow> alloc_slots count p = (r, p') \<Longrightarrow> irq_ok p'"
  by (auto simp: irq_ok_def alloc_slots_eq word_nat split: if_splits)

lemma irq_ok_register: "irq_ok p \<Longrightarrow> register_dispatchers r p t = Inr (p', t') \<Longrightarrow> irq_ok p'"
  by (auto simp: irq_ok_def register_dispatchers_def elim!: and_then_pairE dest!: length_register_each split: option.splits)

lemma irq_ok_request: "irq_ok p \<Longrightarrow> request_irq i h d p = (r, p') \<Longrightarrow> irq_ok p'"
  by (auto simp: irq_ok_def request_irq_def Let_def split: if_splits)

lemma irq_ok_free: "irq_ok p \<Longrightarrow> free_irq i d p = Inr (r, p') \<Longrightarrow> irq_ok p'"
  by (auto simp: irq_ok_def free_irq_def Let_def and_then_eq_Inr split: if_splits)

lemma irq_ok_boot [simp]: "irq_ok irq_boot"
  by (simp add: irq_ok_def irq_boot_def)

text \<open>
  C38. An interrupt reaches the handler that was requested for it. Once the sixteen dispatchers
  are registered, with room for them in the vector table, every slot has its own vector, whose table entry is the
  dispatcher of that slot. After request\_irq the dispatcher of the slot calls exactly that handler
  with its interrupt number and device pointer and then signals the end of interrupt; the
  other slots are as before; after free\_irq, which returns the device pointer, only the end of
  interrupt is signalled.
\<close>

theorem irq_delivery:
  assumes "irq_ok p" "SLOT_TO_IDT_VEC p = None" "unat (NEXT_DYN_VECTOR t) + 16 \<le> 0xEF" "unat irq < 16"
  shows "\<exists>p' t'. register_dispatchers (\<lambda>n. register_vector (Driver n)) p t = Inr (p', t') \<and>
    (\<forall>s < 16. \<exists>v. slot_idt_vector s p' = Inr v \<and> unat v = unat (NEXT_DYN_VECTOR t) + s \<and>
       idt_entries t' v = Some \<lparr>ie_handler = Driver s, ie_ist = None\<rparr>) \<and>
    (let q = snd (request_irq irq h d p') in
       dispatch_common call eoi (unat irq) q w = and_then (call h irq d w) (\<lambda>w. Inr (eoi w)) \<and>
       (\<forall>s. s \<noteq> unat irq \<longrightarrow> dispatch_common call eoi s q w = dispatch_common call eoi s p' w) \<and>
       (\<exists>q'. free_irq irq d' q = Inr (d, q') \<and> dispatch_common call eoi (unat irq) q' w = Inr (eoi w)))"
proof -
  let ?n = "unat (NEXT_DYN_VECTOR t)" and ?ds = "map Driver DISPATCHERS"
  obtain t' where t': "register_all ?ds t = Inr (map of_nat [?n..<?n + 16], t')"
    "\<forall>i < 16. idt_entries t' (of_nat (?n + i)) = Some \<lparr>ie_handler = ?ds ! i, ie_ist = None\<rparr>"
    using register_all_from [OF refl, of t ?ds] assms(3) by auto
  define p' where "p' = p\<lparr>SLOT_TO_IDT_VEC := Some (map of_nat [?n..<?n + 16])\<rparr>"
  have reg: "register_dispatchers (\<lambda>n. register_vector (Driver n)) p t = Inr (p', t')"
    using t'(1) by (simp add: register_dispatchers_def register_each_all assms(2) p'_def)
  have vec: "\<exists>v. slot_idt_vector s p' = Inr v \<and> unat v = ?n + s \<and>
      idt_entries t' v = Some \<lparr>ie_handler = Driver s, ie_ist = None\<rparr>" if "s < 16" for s
  proof -
    have "unat (of_nat (?n + s) :: u8) = ?n + s" using assms(3) that by (intro unat_of_nat_small) simp
    moreover have "?ds ! s = Driver s" using that by (simp add: DISPATCHERS_def)
    ultimately show ?thesis using t'(2) that by (simp add: slot_idt_vector_def p'_def del: of_nat_add)
  qed
  have len: "length (SLOTS p') = 16" using assms(1) by (simp add: p'_def irq_ok_def)
  have "let q = snd (request_irq irq h d p') in
       dispatch_common call eoi (unat irq) q w = and_then (call h irq d w) (\<lambda>w. Inr (eoi w)) \<and>
       (\<forall>s. s \<noteq> unat irq \<longrightarrow> dispatch_common call eoi s q w = dispatch_common call eoi s p' w) \<and>
       (\<exists>q'. free_irq irq d' q = Inr (d, q') \<and> dispatch_common call eoi (unat irq) q' w = Inr (eoi w))"
    using assms(4) len by (simp add: request_irq_in free_irq_in dispatch_common_def slice_at_def Let_def)
  with reg vec show ?thesis by blast
qed

theorem irq_delivery_witness:
  "\<exists>p' t'. register_dispatchers (\<lambda>n. register_vector (Driver n)) (irq_boot :: nat irq_pool) (idt_init idt_boot) = Inr (p', t') \<and>
    (\<forall>s < 16. \<exists>v. slot_idt_vector s p' = Inr v \<and> unat v = unat (NEXT_DYN_VECTOR (idt_init idt_boot)) + s \<and>
       idt_entries t' v = Some \<lparr>ie_handler = Driver s, ie_ist = None\<rparr>) \<and>
    (let q = snd (request_irq 3 (7 :: nat) 0x1000 p') in
       dispatch_common (\<lambda>h i d log. Inr (log @ [h])) (\<lambda>log. log @ [0]) (unat (3 :: u32)) q [] =
         and_then (Inr ([] @ [7])) (\<lambda>log. Inr (log @ [0])) \<and>
       (\<forall>s. s \<noteq> unat (3 :: u32) \<longrightarrow> dispatch_common (\<lambda>h i d log. Inr (log @ [h])) (\<lambda>log. log @ [0]) s q [] =
          dispatch_common (\<lambda>h i d log. Inr (log @ [h])) (\<lambda>log. log @ [0]) s p' []) \<and>
       (\<exists>q'. free_irq 3 0 q = Inr (0x1000, q') \<and>
          dispatch_common (\<lambda>h i d log. Inr (log @ [h])) (\<lambda>log. log @ [0]) (unat (3 :: u32)) q' [] = Inr ([] @ [0])))"
proof (rule irq_delivery)
  have "NEXT_DYN_VECTOR (idt_init idt_boot) = 0x40"
    by (simp add: idt_init_def idt_boot_def populate_static_entries_def set_handler_fn_def
        set_handler_ist_def idt_consts)
  then show "unat (NEXT_DYN_VECTOR (idt_init idt_boot)) + 16 \<le> 0xEF" by simp
qed (simp_all add: irq_boot_def irq_ok_def)

text \<open>The calls drivers make, in any order.\<close>

datatype 'h irq_call = Alloc_slots usize | Request_irq u32 'h u64 | Free_irq u32 u64

fun irq_call_step :: "'h irq_call \<Rightarrow> 'h irq_pool \<Rightarrow> 'h irq_pool outcome" where
  "irq_call_step (Alloc_slots c) p = Inr (snd (alloc_slots c p))"
| "irq_call_step (Request_irq i h d) p = Inr (snd (request_irq i h d p))"
| "irq_call_step (Free_irq i d) p = and_then (free_irq i d p) (\<lambda>(r, p). Inr p)"

lemma irq_call_step_ok:
  assumes "irq_ok p"
  shows "\<exists>q. irq_call_step c p = Inr q \<and> irq_ok q"
proof (cases c)
  case (Free_irq i d)
  have "\<exists>r q. free_irq i d p = Inr (r, q)"
  proof (cases "unat i < 16")
    case True
    then show ?thesis using assms by (simp add: free_irq_in irq_ok_def)
  next
    case False
    then show ?thesis by (simp add: free_irq_def SLOT_COUNT_def word_le_nat_alt unat_widen_32_64)
  qed
  then show ?thesis using Free_irq irq_ok_free [OF assms] by auto
qed (use assms irq_ok_alloc [OF assms prod.collapse [symmetric]] irq_ok_request [OF assms prod.collapse [symmetric]] in auto)



section \<open>Interleaved allocation\<close>

text \<open>
  alloc\_slots is two atomic operations on the watermark when it fails: the addition and, after the
  test, the subtraction that undoes it. The steps of any number of callers below \<open>n\<close>, each asking for a
  number of slots in \<open>C\<close>: a call that succeeds, the first half of one that fails, its second half.
  The pending calls are those between the two halves.
\<close>

record slot_race =
  sr_next :: usize
  sr_pending :: "usize list"
  sr_granted :: "(usize \<times> usize) list"

inductive slot_step :: "usize set \<Rightarrow> nat \<Rightarrow> slot_race \<Rightarrow> slot_race \<Rightarrow> bool" for C n where
  take_slots: "c \<in> C \<Longrightarrow> c \<noteq> 0 \<Longrightarrow> c \<le> SLOT_COUNT \<Longrightarrow> \<not> sr_next s + c > SLOT_COUNT \<Longrightarrow>
    slot_step C n s (s\<lparr>sr_next := sr_next s + c, sr_granted := (sr_next s, c) # sr_granted s\<rparr>)"
| overshoot: "c \<in> C \<Longrightarrow> c \<noteq> 0 \<Longrightarrow> c \<le> SLOT_COUNT \<Longrightarrow> sr_next s + c > SLOT_COUNT \<Longrightarrow> length (sr_pending s) < n \<Longrightarrow>
    slot_step C n s (s\<lparr>sr_next := sr_next s + c, sr_pending := c # sr_pending s\<rparr>)"
| roll_back: "sr_pending s = xs @ c # ys \<Longrightarrow>
    slot_step C n s (s\<lparr>sr_next := sr_next s - c, sr_pending := xs @ ys\<rparr>)"

definition race_start :: slot_race where
  "race_start = \<lparr>sr_next = 0, sr_pending = [], sr_granted = []\<rparr>"

definition slots_of :: "usize \<times> usize \<Rightarrow> nat set" where
  "slots_of g = {unat (fst g) ..< unat (fst g) + unat (snd g)}"

definition exclusive :: "(usize \<times> usize) list \<Rightarrow> bool" where
  "exclusive gs \<longleftrightarrow> sorted_wrt (\<lambda>g g'. slots_of g \<inter> slots_of g' = {}) gs \<and>
     (\<forall>g \<in> set gs. slots_of g \<subseteq> {..<16})"

text \<open>With a common count, the watermark counts the grants and the pending calls.\<close>

definition same_count_inv :: "usize \<Rightarrow> nat \<Rightarrow> slot_race \<Rightarrow> bool" where
  "same_count_inv c n s \<longleftrightarrow>
     (\<exists>m. sr_granted s = map (\<lambda>i. (of_nat (i * unat c), c)) (rev [0..<m]) \<and>
        sr_pending s = replicate (length (sr_pending s)) c \<and> length (sr_pending s) \<le> n \<and>
        unat (sr_next s) = (m + length (sr_pending s)) * unat c \<and> m * unat c \<le> 16 \<and>
        (sr_pending s \<noteq> [] \<longrightarrow> unat c \<le> 16 \<and> 16 < Suc m * unat c))"

lemma same_count_step:
  assumes "same_count_inv c n s" "slot_step {c} n s t" "n \<le> 2 ^ 32"
  shows "same_count_inv c n t"
proof -
  obtain m where m: "sr_granted s = map (\<lambda>i. (of_nat (i * unat c), c)) (rev [0..<m])"
    "sr_pending s = replicate (length (sr_pending s)) c" "length (sr_pending s) \<le> n"
    "unat (sr_next s) = (m + length (sr_pending s)) * unat c" "m * unat c \<le> 16"
    "sr_pending s \<noteq> [] \<longrightarrow> unat c \<le> 16 \<and> 16 < Suc m * unat c"
    using assms(1) unfolding same_count_inv_def by blast
  have sum: "unat (sr_next s + c) = (m + length (sr_pending s)) * unat c + unat c" if "c \<le> SLOT_COUNT"
  proof -
    have c: "unat c \<le> 16" using that by (simp add: SLOT_COUNT_def word_le_nat_alt)
    have "length (sr_pending s) * unat c \<le> 2 ^ 32 * 16" using m(3) assms(3) c by (intro mult_le_mono) auto
    then have "unat (sr_next s) + unat c \<le> 16 + 2 ^ 32 * 16 + 16"
      unfolding m(4) add_mult_distrib using m(5) c by linarith
    then show ?thesis unfolding m(4) [symmetric] by (intro unat_add_noof) simp
  qed
  show ?thesis
    using assms(2)
  proof cases
    case (take_slots d)
    then have le: "(m + length (sr_pending s)) * unat c + unat c \<le> 16"
      using sum by (simp add: SLOT_COUNT_def word_less_nat_alt not_less)
    have empty: "sr_pending s = []"
    proof (rule ccontr)
      assume ne: "sr_pending s \<noteq> []"
      have "Suc m * unat c \<le> (m + length (sr_pending s)) * unat c + unat c" by (simp add: add_mult_distrib)
      then show False using m(6) ne le by linarith
    qed
    have "sr_next s = of_nat (m * unat c)" using m(4) empty by (metis add_0_right list.size(3) of_nat_unat_word)
    then have "same_count_inv c n (s\<lparr>sr_next := sr_next s + c, sr_granted := (sr_next s, c) # sr_granted s\<rparr>)"
      unfolding same_count_inv_def
      using m(1) sum le take_slots empty by (intro exI [of _ "Suc m"]) (simp add: algebra_simps)
    then show ?thesis using take_slots by simp
  next
    case (overshoot d)
    then have gt: "16 < (m + length (sr_pending s)) * unat c + unat c" and c: "unat c \<le> 16"
      using sum by (simp_all add: SLOT_COUNT_def word_less_nat_alt word_le_nat_alt)
    have "16 < Suc m * unat c" using m(6) gt by (cases "sr_pending s = []") (simp_all add: algebra_simps)
    then have "same_count_inv c n (s\<lparr>sr_next := sr_next s + c, sr_pending := c # sr_pending s\<rparr>)"
      unfolding same_count_inv_def
      using m overshoot sum c by (intro exI [of _ m]) (simp add: algebra_simps)
    then show ?thesis using overshoot by simp
  next
    case (roll_back xs d ys)
    have len: "length (sr_pending s) = Suc (length (xs @ ys))" using roll_back(2) by simp
    have all: "\<forall>x \<in> set (sr_pending s). x = c" using m(2) by (metis in_set_replicate)
    then have d: "d = c" using roll_back(2) by simp
    have rep: "xs @ ys = replicate (length (xs @ ys)) c"
      using all roll_back(2) by (intro replicate_eqI) auto
    have "unat (sr_next s) = (m + length (xs @ ys)) * unat c + unat c" using m(4) len by (simp add: algebra_simps)
    then have "unat (sr_next s - c) = (m + length (xs @ ys)) * unat c"
      by (subst unat_sub) (simp_all add: word_le_nat_alt)
    then have "same_count_inv c n (s\<lparr>sr_next := sr_next s - c, sr_pending := xs @ ys\<rparr>)"
      unfolding same_count_inv_def using m len rep roll_back(2) by (intro exI [of _ m]) auto
    then show ?thesis using roll_back d by simp
  qed
qed

lemma same_count_exclusive: "same_count_inv c n s \<Longrightarrow> exclusive (sr_granted s)"
proof -
  assume "same_count_inv c n s"
  then obtain m where m: "sr_granted s = map (\<lambda>i. (of_nat (i * unat c), c)) (rev [0..<m])" "m * unat c \<le> 16"
    unfolding same_count_inv_def by blast
  have slots: "slots_of (of_nat (i * unat c), c) = {i * unat c ..< Suc i * unat c}" if "i < m" for i
  proof -
    have "Suc i * unat c \<le> 16" using that m(2) by (meson Suc_leI le_trans mult_le_mono1)
    then have "unat (of_nat (i * unat c) :: usize) = i * unat c" by (intro unat_of_nat_small) simp
    then show ?thesis by (simp add: slots_of_def add.commute)
  qed
  have "sorted_wrt (\<lambda>i j. slots_of (of_nat (j * unat c), c) \<inter> slots_of (of_nat (i * unat c), c) = {}) [0..<m]"
  proof (unfold sorted_wrt_iff_nth_less, intro allI impI)
    fix i j assume ij: "i < j" "j < length [0..<m]"
    then have "Suc i * unat c \<le> j * unat c" by (intro mult_le_mono1) simp
    then show "slots_of (of_nat ([0..<m] ! j * unat c), c) \<inter> slots_of (of_nat ([0..<m] ! i * unat c), c) = {}"
      using ij slots [of i] slots [of j] by auto
  qed
  moreover have "slots_of (of_nat (i * unat c), c) \<subseteq> {..<16}" if "i < m" for i
    using slots [OF that] m(2) mult_le_mono1 [of "Suc i" m "unat c"] that by auto
  ultimately show ?thesis unfolding exclusive_def m(1)
    by (auto simp: rev_map [symmetric] sorted_wrt_rev sorted_wrt_map)
qed

interpretation same_count: invariant_system "\<lambda>s. s = race_start" "slot_step {c} (min n (2 ^ 32))" "same_count_inv c (min n (2 ^ 32))"
proof
  fix s :: slot_race assume "s = race_start"
  then show "same_count_inv c (min n (2 ^ 32)) s" by (simp add: same_count_inv_def race_start_def)
qed (erule (1) same_count_step, simp)

text \<open>A call that runs alone is one or two of these steps.\<close>

lemma alloc_slots_steps:
  assumes "alloc_slots c p = (r, p')" "NEXT_SLOT p = sr_next s" "0 < n" "sr_pending s = []"
  shows "\<exists>t. reachable (slot_step {c} n) s t \<and> sr_next t = NEXT_SLOT p' \<and> sr_pending t = [] \<and>
    sr_granted t = (case r of None \<Rightarrow> sr_granted s | Some f \<Rightarrow> (f, c) # sr_granted s)"
proof (cases "c = 0 \<or> c > SLOT_COUNT")
  case True
  then show ?thesis using assms by (intro exI [of _ s]) (auto simp: alloc_slots_def)
next
  case ok: False
  show ?thesis
  proof (cases "sr_next s + c > SLOT_COUNT")
    case True
    let ?u = "s\<lparr>sr_next := sr_next s + c, sr_pending := c # sr_pending s\<rparr>"
    have "slot_step {c} n s ?u" using ok True assms(3,4) by (intro overshoot) (auto simp: not_less)
    moreover have "slot_step {c} n ?u (?u\<lparr>sr_next := sr_next ?u - c, sr_pending := [] @ []\<rparr>)"
      by (rule roll_back) (simp add: assms(4))
    ultimately have "reachable (slot_step {c} n) s (?u\<lparr>sr_next := sr_next ?u - c, sr_pending := [] @ []\<rparr>)" by simp
    then show ?thesis
      by (intro exI conjI, assumption) (use ok True assms in \<open>auto simp: alloc_slots_def Let_def\<close>)
  next
    case False
    then have "slot_step {c} n s (s\<lparr>sr_next := sr_next s + c, sr_granted := (sr_next s, c) # sr_granted s\<rparr>)"
      using ok by (intro take_slots) (auto simp: not_less)
    then have "reachable (slot_step {c} n) s (s\<lparr>sr_next := sr_next s + c, sr_granted := (sr_next s, c) # sr_granted s\<rparr>)" by simp
    then show ?thesis
      by (intro exI conjI, assumption) (use ok False assms in \<open>auto simp: alloc_slots_def Let_def\<close>)
  qed
qed

text \<open>Three callers: one asks for sixteen slots and one for one slot while ten are taken, and
  the first undoes its addition before the second does.\<close>

lemma race_overlap:
  "\<exists>s. reachable (slot_step UNIV 2) race_start s \<and> \<not> exclusive (sr_granted s)"
proof -
  let ?mk = "\<lambda>x p g. \<lparr>sr_next = x, sr_pending = p, sr_granted = g\<rparr> :: slot_race"
  let ?step = "slot_step UNIV 2"
  have "?step (?mk 0 [] []) (?mk 10 [] [(0, 10)])"
    using take_slots [of 10 UNIV "?mk 0 [] []" 2] by (simp add: SLOT_COUNT_def)
  moreover have "?step (?mk 10 [] [(0, 10)]) (?mk 26 [16] [(0, 10)])"
    using overshoot [of 16 UNIV "?mk 10 [] [(0, 10)]" 2] by (simp add: SLOT_COUNT_def)
  moreover have "?step (?mk 26 [16] [(0, 10)]) (?mk 27 [1, 16] [(0, 10)])"
    using overshoot [of 1 UNIV "?mk 26 [16] [(0, 10)]" 2] by (simp add: SLOT_COUNT_def)
  moreover have "?step (?mk 27 [1, 16] [(0, 10)]) (?mk 11 [1] [(0, 10)])"
    using roll_back [of "?mk 27 [1, 16] [(0, 10)]" "[1]" 16 "[]" UNIV 2] by simp
  moreover have "?step (?mk 11 [1] [(0, 10)]) (?mk 13 [1] [(11, 2), (0, 10)])"
    using take_slots [of 2 UNIV "?mk 11 [1] [(0, 10)]" 2] by (simp add: SLOT_COUNT_def)
  moreover have "?step (?mk 13 [1] [(11, 2), (0, 10)]) (?mk 12 [] [(11, 2), (0, 10)])"
    using roll_back [of "?mk 13 [1] [(11, 2), (0, 10)]" "[]" 1 "[]" UNIV 2] by simp
  moreover have "?step (?mk 12 [] [(11, 2), (0, 10)]) (?mk 13 [] [(12, 1), (11, 2), (0, 10)])"
    using take_slots [of 1 UNIV "?mk 12 [] [(11, 2), (0, 10)]" 2] by (simp add: SLOT_COUNT_def)
  ultimately have "reachable ?step (?mk 0 [] []) (?mk 13 [] [(12, 1), (11, 2), (0, 10)])"
    by (meson converse_rtranclp_into_rtranclp rtranclp.rtrancl_refl)
  moreover have "12 \<in> slots_of (12, 1) \<inter> slots_of (11, 2)" by (simp add: slots_of_def)
  then have "\<not> exclusive [(12, 1), (11, 2), (0, 10)]" unfolding exclusive_def by auto
  ultimately show ?thesis unfolding race_start_def by force
qed

text \<open>
  Interrupt slots are handed out once as long as interleaved callers all ask for the same
  number of slots, and may be handed out twice otherwise. In every interleaving of fewer than
  2^32 callers that each ask for \<open>c\<close> slots, the granted ranges are disjoint and inside the pool; a call
  that runs alone is such an interleaving. But there is an interleaving of three callers with
  different counts after which one slot belongs to two of them: the subtraction of one failed
  call uncovers the addition of another that is still to be undone.
\<close>

theorem alloc_slots_interleaved:
  assumes "0 < n" "n \<le> 2 ^ 32"
  shows "(reachable (slot_step {c} n) race_start s \<longrightarrow> exclusive (sr_granted s)) \<and>
    (\<forall>p r p'. alloc_slots c p = (r, p') \<and> NEXT_SLOT p = sr_next s \<and> sr_pending s = [] \<longrightarrow>
       (\<exists>t. reachable (slot_step {c} n) s t \<and> sr_next t = NEXT_SLOT (p' :: 'h irq_pool) \<and> sr_pending t = [] \<and>
          sr_granted t = (case r of None \<Rightarrow> sr_granted s | Some f \<Rightarrow> (f, c) # sr_granted s))) \<and>
    (\<exists>t. reachable (slot_step UNIV 2) race_start t \<and> \<not> exclusive (sr_granted t))"
proof -
  have "min n (2 ^ 32) = n" using assms(2) by simp
  then have "reachable (slot_step {c} n) race_start s \<Longrightarrow> exclusive (sr_granted s)"
    using same_count.reachable_inv [of race_start c n s] same_count_exclusive by simp
  then show ?thesis using alloc_slots_steps [where s = s, OF _ _ assms(1)] race_overlap by blast
qed

theorem alloc_slots_interleaved_witness:
  "exclusive (sr_granted race_start) \<and>
    (\<exists>t. reachable (slot_step {1} 4) race_start t \<and> sr_granted t = [(0, 1)]) \<and>
    (\<exists>t. reachable (slot_step UNIV 2) race_start t \<and> \<not> exclusive (sr_granted t))"
proof -
  have "alloc_slots 1 (irq_boot :: nat irq_pool) = (Some 0, irq_boot\<lparr>NEXT_SLOT := 1\<rparr>)"
    by (simp add: alloc_slots_def irq_boot_def SLOT_COUNT_def)
  then show ?thesis
    using alloc_slots_interleaved [where 'h = nat, of 4 1 race_start] by (fastforce simp: race_start_def irq_boot_def)
qed

end
