(* ===== verification/LkPci.thy ===== *)
theory LkPci
  imports LkIrq Pci
begin

unbundle bit_operations_syntax

text \<open>
  The PCI bus adapter of the LinuxKPI shim, linuxkpi/src/pci.rs, with the functions of
  arsenal-kernel/src/linuxkpi\_bridge.rs it calls: driver registration and probing, the sizing of
  BARs, mapping, bus mastering, and the allocation of MSI-X vectors.

  What a configuration write does is up to the device: a parameter \<open>W\<close> gives, for the address
  selected in CF8 and the value written to CFC, the new contents of the configuration space. A
  driver is C code outside the crate: its probe function is a parameter. Memory-mapped stores are recorded in a log,
  as are the ranges handed to paging::map\_mmio.
\<close>

section \<open>The bridge\<close>

type_synonym config_hw = "u32 \<Rightarrow> u32 \<Rightarrow> config_space \<Rightarrow> config_space"

record 'h lk =
  lk_cfg :: config_space
  lk_mapped :: "(u64 \<times> u64) list"
  lk_stores :: "(u64 \<times> u32) list"
  lk_irq :: "'h irq_pool"
  lk_pci_registry :: "u64 list"

definition linuxkpi_pci_config_read32 :: "u8 \<Rightarrow> u8 \<Rightarrow> u8 \<Rightarrow> u8 \<Rightarrow> ('h, 'x) lk_scheme \<Rightarrow> u32" where
  "linuxkpi_pci_config_read32 b d f off s = config_read32 (lk_cfg s) b d f off"

definition linuxkpi_pci_config_write32 ::
    "config_hw \<Rightarrow> u8 \<Rightarrow> u8 \<Rightarrow> u8 \<Rightarrow> u8 \<Rightarrow> u32 \<Rightarrow> ('h, 'x) lk_scheme \<Rightarrow> ('h, 'x) lk_scheme" where
  "linuxkpi_pci_config_write32 W b d f off val s = s\<lparr>lk_cfg := W (config_addr b d f off) val (lk_cfg s)\<rparr>"

definition linuxkpi_pci_bar_address :: "u8 \<Rightarrow> u8 \<Rightarrow> u8 \<Rightarrow> u8 \<Rightarrow> ('h, 'x) lk_scheme \<Rightarrow> u64" where
  "linuxkpi_pci_bar_address b d f bar s = bar_address (lk_cfg s) b d f bar"

definition linuxkpi_paging_map_mmio :: "u64 \<Rightarrow> u64 \<Rightarrow> ('h, 'x) lk_scheme \<Rightarrow> ('h, 'x) lk_scheme" where
  "linuxkpi_paging_map_mmio phys n s = s\<lparr>lk_mapped := lk_mapped s @ [(phys, n)]\<rparr>"

definition write_volatile32 :: "u64 \<Rightarrow> u32 \<Rightarrow> ('h, 'x) lk_scheme \<Rightarrow> ('h, 'x) lk_scheme" where
  "write_volatile32 p v s = s\<lparr>lk_stores := lk_stores s @ [(p, v)]\<rparr>"

record msix_info_raw =
  mi_present :: u32
  mi_cap_offset :: u32
  mi_table_size :: u32
  mi_table_bar :: u32
  mi_table_offset :: u32

definition msix_info_zero :: msix_info_raw where
  "msix_info_zero = \<lparr>mi_present = 0, mi_cap_offset = 0, mi_table_size = 0, mi_table_bar = 0, mi_table_offset = 0\<rparr>"

definition linuxkpi_pci_msix_info :: "u8 \<Rightarrow> u8 \<Rightarrow> u8 \<Rightarrow> msix_info_raw \<Rightarrow> ('h, 'x) lk_scheme \<Rightarrow> msix_info_raw" where
  "linuxkpi_pci_msix_info b d f out s =
     (case msix_info (lk_cfg s) b d f of
        Some info \<Rightarrow> out\<lparr>mi_present := 1, mi_cap_offset := ucast (cap_offset info), mi_table_size := table_size info,
                        mi_table_bar := ucast (table_bar info), mi_table_offset := table_offset info\<rparr>
      | None \<Rightarrow> out\<lparr>mi_present := 0\<rparr>)"

section \<open>Devices and drivers\<close>

definition PCI_ANY_ID :: u32 where "PCI_ANY_ID = 0xFFFFFFFF"

record pci_device_id =
  id_vendor :: u32
  id_device :: u32
  id_subvendor :: u32
  id_subdevice :: u32
  id_class :: u32
  id_class_mask :: u32
  id_driver_data :: u64

record pci_dev =
  pd_vendor :: u16
  pd_device :: u16
  pd_subsystem_vendor :: u16
  pd_subsystem_device :: u16
  pd_class :: u32
  pd_bus_number :: u8
  pd_devfn :: u8
  pd_bar_addr :: "u64 list"
  pd_bar_len :: "u64 list"
  pd_driver_data :: u64
  pd_msix_first_slot :: c_int
  pd_msix_vector_count :: c_int

text \<open>A null id table is \<^term>\<open>None\<close>; a probe gets the device and the index of the matching entry.\<close>

record 's pci_driver =
  pdr_id_table :: "pci_device_id list option"
  pdr_probe :: "(pci_dev \<Rightarrow> nat \<Rightarrow> 's \<Rightarrow> (c_int \<times> 's) outcome) option"

text \<open>
  The walk over a sentinel-terminated table, at most \<open>n\<close> entries of it. An index past the end of the
  table is a read outside the object.
\<close>

fun table_search :: "('a \<Rightarrow> bool) \<Rightarrow> ('a \<Rightarrow> bool) \<Rightarrow> nat \<Rightarrow> nat \<Rightarrow> 'a list \<Rightarrow> nat option outcome" where
  "table_search stop ok 0 i es = Inr None"
| "table_search stop ok (Suc n) i [] = Inl Undefined"
| "table_search stop ok (Suc n) i (e # es) =
     (if stop e then Inr None else if ok e then Inr (Some i) else table_search stop ok n (Suc i) es)"

definition pci_sentinel :: "pci_device_id \<Rightarrow> bool" where
  "pci_sentinel e \<longleftrightarrow> id_vendor e = 0 \<and> id_device e = 0"

definition pci_entry_matches :: "u16 \<Rightarrow> u16 \<Rightarrow> u16 \<Rightarrow> u16 \<Rightarrow> u32 \<Rightarrow> pci_device_id \<Rightarrow> bool" where
  "pci_entry_matches vendor device subsys_vendor subsys_device cls e \<longleftrightarrow>
     (id_vendor e = PCI_ANY_ID \<or> id_vendor e = ucast vendor) \<and>
     (id_device e = PCI_ANY_ID \<or> id_device e = ucast device) \<and>
     (id_subvendor e = PCI_ANY_ID \<or> id_subvendor e = ucast subsys_vendor) \<and>
     (id_subdevice e = PCI_ANY_ID \<or> id_subdevice e = ucast subsys_device) \<and>
     (id_class_mask e = 0 \<or> cls AND id_class_mask e = id_class e AND id_class_mask e)"

definition match_id_table ::
    "pci_device_id list option \<Rightarrow> u16 \<Rightarrow> u16 \<Rightarrow> u16 \<Rightarrow> u16 \<Rightarrow> u32 \<Rightarrow> nat option outcome" where
  "match_id_table id_table vendor device subsys_vendor subsys_device cls =
     (case id_table of
        None \<Rightarrow> Inr None
      | Some es \<Rightarrow> table_search pci_sentinel
          (pci_entry_matches vendor device subsys_vendor subsys_device cls) 1024 0 es)"

section \<open>BARs\<close>

text \<open>The loop of build\_pci\_dev from register \<open>bar\<close> on.\<close>

function size_bars ::
    "config_hw \<Rightarrow> u8 \<Rightarrow> u8 \<Rightarrow> u8 \<Rightarrow> nat \<Rightarrow> u64 list \<Rightarrow> u64 list \<Rightarrow> ('h, 'x) lk_scheme \<Rightarrow>
     u64 list \<times> u64 list \<times> ('h, 'x) lk_scheme" where
  "size_bars W b d f bar bar_addr bar_len s =
     (if bar \<ge> 6 then (bar_addr, bar_len, s)
      else let off = 0x10 + of_nat bar * 4;
               lo_orig = linuxkpi_pci_config_read32 b d f off s
           in if lo_orig AND 1 \<noteq> 0 then size_bars W b d f (bar + 1) bar_addr bar_len s
              else let is_64bit = (lo_orig AND 6 = 4);
                       s = linuxkpi_pci_config_write32 W b d f off 0xFFFFFFFF s;
                       lo_size = linuxkpi_pci_config_read32 b d f off s AND 0xFFFFFFF0;
                       s = linuxkpi_pci_config_write32 W b d f off lo_orig s
                   in if is_64bit \<and> bar < 5
                      then let off1 = 0x10 + (of_nat bar + 1) * 4;
                               hi_orig = linuxkpi_pci_config_read32 b d f off1 s;
                               s = linuxkpi_pci_config_write32 W b d f off1 0xFFFFFFFF s;
                               hi_size = linuxkpi_pci_config_read32 b d f off1 s;
                               s = linuxkpi_pci_config_write32 W b d f off1 hi_orig s;
                               size_mask = push_bit 32 (ucast hi_size) OR ucast lo_size :: u64
                           in size_bars W b d f (bar + 2)
                                (bar_addr[bar := linuxkpi_pci_bar_address b d f (of_nat bar) s])
                                (bar_len[bar := NOT size_mask + 1]) s
                      else size_bars W b d f (bar + 1)
                             (bar_addr[bar := linuxkpi_pci_bar_address b d f (of_nat bar) s])
                             (bar_len[bar := (NOT (ucast lo_size) AND 0xFFFFFFFF) + 1]) s)"
  by pat_completeness auto
termination by (relation "measure (\<lambda>(W, b, d, f, bar, as, ls, s). 6 - bar)") auto

declare size_bars.simps [simp del]

definition build_pci_dev ::
    "config_hw \<Rightarrow> u8 \<Rightarrow> u8 \<Rightarrow> u8 \<Rightarrow> u16 \<Rightarrow> u16 \<Rightarrow> u16 \<Rightarrow> u16 \<Rightarrow> u32 \<Rightarrow> ('h, 'x) lk_scheme \<Rightarrow>
     pci_dev \<times> ('h, 'x) lk_scheme" where
  "build_pci_dev W b d f vendor device subsys_vendor subsys_device cls s =
     (let (bar_addr, bar_len, s) = size_bars W b d f 0 (replicate 6 0) (replicate 6 0) s
      in (\<lparr>pd_vendor = vendor, pd_device = device, pd_subsystem_vendor = subsys_vendor,
           pd_subsystem_device = subsys_device, pd_class = cls, pd_bus_number = b,
           pd_devfn = push_bit 3 d OR (f AND 7), pd_bar_addr = bar_addr, pd_bar_len = bar_len,
           pd_driver_data = 0, pd_msix_first_slot = -1, pd_msix_vector_count = 0\<rparr>, s))"

section \<open>The walk and registration\<close>

text \<open>The walk over all buses, with what is done at a function that is present.\<close>

definition absent :: "config_space \<Rightarrow> u8 \<Rightarrow> u8 \<Rightarrow> u8 \<Rightarrow> bool" where
  "absent cfg b d f \<longleftrightarrow> (ucast (config_read32 cfg b d f 0x00 AND 0xFFFF) :: u16) = 0xFFFF"

definition walk_device ::
    "('s \<Rightarrow> config_space) \<Rightarrow> (u8 \<Rightarrow> u8 \<Rightarrow> u8 \<Rightarrow> 's \<Rightarrow> 's outcome) \<Rightarrow> u8 \<Rightarrow> u8 \<Rightarrow> 's \<Rightarrow> 's outcome" where
  "walk_device cf visit b d s =
     (if absent (cf s) b d 0 then Inr s
      else and_then (visit b d 0 s) (\<lambda>s.
        let header_type = ucast (drop_bit 16 (config_read32 (cf s) b d 0 0x0C) AND 0xFF) :: u8
        in if header_type AND 0x80 \<noteq> 0
           then fold_out (\<lambda>f s. if absent (cf s) b d f then Inr s else visit b d f s) [1, 2, 3, 4, 5, 6, 7] s
           else Inr s))"

definition walk_functions ::
    "('s \<Rightarrow> config_space) \<Rightarrow> (u8 \<Rightarrow> u8 \<Rightarrow> u8 \<Rightarrow> 's \<Rightarrow> 's outcome) \<Rightarrow> 's \<Rightarrow> 's outcome" where
  "walk_functions cf visit s =
     fold_out (\<lambda>b. fold_out (walk_device cf visit b) (map of_nat [0..<32])) (map of_nat [0..<256]) s"

definition visit_func ::
    "('s \<Rightarrow> config_space) \<Rightarrow> (u8 \<Rightarrow> u8 \<Rightarrow> u8 \<Rightarrow> u16 \<Rightarrow> u16 \<Rightarrow> u32 \<Rightarrow> u16 \<Rightarrow> u16 \<Rightarrow> 's \<Rightarrow> 's outcome) \<Rightarrow>
     u8 \<Rightarrow> u8 \<Rightarrow> u8 \<Rightarrow> 's \<Rightarrow> 's outcome" where
  "visit_func cf k b d f s =
     (let ident = config_read32 (cf s) b d f 0x00;
          cls = config_read32 (cf s) b d f 0x08;
          subsys = config_read32 (cf s) b d f 0x2C
      in k b d f (ucast (ident AND 0xFFFF)) (ucast (drop_bit 16 ident AND 0xFFFF)) cls
           (ucast (subsys AND 0xFFFF)) (ucast (drop_bit 16 subsys AND 0xFFFF)) s)"

definition pci_walk ::
    "('s \<Rightarrow> config_space) \<Rightarrow> (u8 \<Rightarrow> u8 \<Rightarrow> u8 \<Rightarrow> u16 \<Rightarrow> u16 \<Rightarrow> u32 \<Rightarrow> u16 \<Rightarrow> u16 \<Rightarrow> 's \<Rightarrow> 's outcome) \<Rightarrow> 's \<Rightarrow> 's outcome" where
  "pci_walk cf k = walk_functions cf (visit_func cf k)"

definition count_present :: "config_space \<Rightarrow> nat outcome" where
  "count_present cfg = pci_walk (\<lambda>n. cfg) (\<lambda>b d f v dv c sv sd n. Inr (n + 1)) 0"

definition probe_function ::
    "config_hw \<Rightarrow> ('h, 'x) lk_scheme pci_driver \<Rightarrow> u8 \<Rightarrow> u8 \<Rightarrow> u8 \<Rightarrow> u16 \<Rightarrow> u16 \<Rightarrow> u32 \<Rightarrow> u16 \<Rightarrow> u16 \<Rightarrow>
     ('h, 'x) lk_scheme \<Rightarrow> ('h, 'x) lk_scheme outcome" where
  "probe_function W drv b d f vendor device cls subsys_vendor subsys_device s =
     and_then (match_id_table (pdr_id_table drv) vendor device subsys_vendor subsys_device cls) (\<lambda>matched.
       case matched of
         None \<Rightarrow> Inr s
       | Some matched_id \<Rightarrow>
           (case pdr_probe drv of
              None \<Rightarrow> Inr s
            | Some probe_fn \<Rightarrow>
                let (pdev, s) = build_pci_dev W b d f vendor device subsys_vendor subsys_device cls s
                in and_then (probe_fn pdev matched_id s) (\<lambda>(rc, s). Inr s)))"

definition pci_register_driver ::
    "config_hw \<Rightarrow> u64 \<Rightarrow> ('h, 'x) lk_scheme pci_driver \<Rightarrow> ('h, 'x) lk_scheme \<Rightarrow> (c_int \<times> ('h, 'x) lk_scheme) outcome" where
  "pci_register_driver W p drv s =
     (if p = 0 then Inr (-1, s)
      else and_then (pci_walk lk_cfg (probe_function W drv) s) (\<lambda>s.
        Inr (0, s\<lparr>lk_pci_registry := lk_pci_registry s @ [p]\<rparr>)))"

definition pci_unregister_driver :: "u64 \<Rightarrow> ('h, 'x) lk_scheme \<Rightarrow> ('h, 'x) lk_scheme" where
  "pci_unregister_driver p s =
     (if p = 0 then s else s\<lparr>lk_pci_registry := filter (\<lambda>q. q \<noteq> p) (lk_pci_registry s)\<rparr>)"

section \<open>Resources\<close>

text \<open>A null device pointer is \<^term>\<open>None\<close>.\<close>

definition pci_resource_start :: "pci_dev option \<Rightarrow> c_int \<Rightarrow> u64 outcome" where
  "pci_resource_start pdv bar =
     (case pdv of None \<Rightarrow> Inr 0
      | Some dv \<Rightarrow> if \<not> (0 \<le> sint bar \<and> sint bar < 6) then Inr 0 else slice_at (pd_bar_addr dv) (unat bar))"

definition pci_resource_len :: "pci_dev option \<Rightarrow> c_int \<Rightarrow> u64 outcome" where
  "pci_resource_len pdv bar =
     (case pdv of None \<Rightarrow> Inr 0
      | Some dv \<Rightarrow> if \<not> (0 \<le> sint bar \<and> sint bar < 6) then Inr 0 else slice_at (pd_bar_len dv) (unat bar))"

definition pci_iomap ::
    "u64 \<Rightarrow> pci_dev option \<Rightarrow> c_int \<Rightarrow> u64 \<Rightarrow> ('h, 'x) lk_scheme \<Rightarrow> (u64 \<times> ('h, 'x) lk_scheme) outcome" where
  "pci_iomap hhdm pdv bar max_len s =
     (case pdv of None \<Rightarrow> Inr (0, s)
      | Some dv \<Rightarrow>
          if \<not> (0 \<le> sint bar \<and> sint bar < 6) then Inr (0, s)
          else and_then (slice_at (pd_bar_addr dv) (unat bar)) (\<lambda>phys.
               and_then (slice_at (pd_bar_len dv) (unat bar)) (\<lambda>n.
               if phys = 0 \<or> n = 0 then Inr (0, s)
               else let map_len = (if max_len = 0 \<or> max_len > n then n else max_len)
                    in Inr (phys + hhdm, linuxkpi_paging_map_mmio phys map_len s))))"

definition pci_iounmap :: "pci_dev option \<Rightarrow> u64 \<Rightarrow> ('h, 'x) lk_scheme \<Rightarrow> ('h, 'x) lk_scheme" where
  "pci_iounmap pdv a s = s"

definition devnum_of :: "pci_dev \<Rightarrow> u8" where "devnum_of dv = drop_bit 3 (pd_devfn dv)"
definition func_of :: "pci_dev \<Rightarrow> u8" where "func_of dv = pd_devfn dv AND 7"

definition pci_set_master :: "config_hw \<Rightarrow> pci_dev option \<Rightarrow> ('h, 'x) lk_scheme \<Rightarrow> ('h, 'x) lk_scheme" where
  "pci_set_master W pdv s =
     (case pdv of None \<Rightarrow> s
      | Some dv \<Rightarrow>
          let b = pd_bus_number dv; d = devnum_of dv; f = func_of dv;
              cur = linuxkpi_pci_config_read32 b d f 0x04 s
          in linuxkpi_pci_config_write32 W b d f 0x04 (cur OR push_bit 2 1) s)"

definition pci_enable_device ::
    "config_hw \<Rightarrow> pci_dev option \<Rightarrow> ('h, 'x) lk_scheme \<Rightarrow> c_int \<times> ('h, 'x) lk_scheme" where
  "pci_enable_device W pdv s =
     (case pdv of None \<Rightarrow> (-1, s)
      | Some dv \<Rightarrow>
          let b = pd_bus_number dv; d = devnum_of dv; f = func_of dv;
              cur = linuxkpi_pci_config_read32 b d f 0x04 s
          in (0, linuxkpi_pci_config_write32 W b d f 0x04 (cur OR 0x03) s))"

section \<open>MSI-X vectors\<close>

definition PCI_IRQ_MSIX :: c_int where "PCI_IRQ_MSIX = push_bit 2 1"

text \<open>The four stores that program one table entry, and the loop over the entries.\<close>

definition program_entry :: "u64 \<Rightarrow> u64 \<Rightarrow> u8 \<Rightarrow> ('h, 'x) lk_scheme \<Rightarrow> ('h, 'x) lk_scheme" where
  "program_entry table_virt i idt_vec s =
     (let p = table_virt + 16 * i;
          s = write_volatile32 p 0xFEE00000 s;
          s = write_volatile32 (p + 4) 0 s;
          s = write_volatile32 (p + 8) (ucast idt_vec) s
      in write_volatile32 (p + 12) 0 s)"

definition program_table :: "u64 \<Rightarrow> nat \<Rightarrow> nat \<Rightarrow> ('h, 'x) lk_scheme \<Rightarrow> ('h, 'x) lk_scheme outcome" where
  "program_table table_virt first_slot count s =
     fold_out (\<lambda>i s. and_then (slot_idt_vector (first_slot + i) (lk_irq s)) (\<lambda>v.
       Inr (program_entry table_virt (of_nat i) v s))) [0..<count] s"

definition pci_alloc_irq_vectors ::
    "config_hw \<Rightarrow> u64 \<Rightarrow> pci_dev option \<Rightarrow> u32 \<Rightarrow> u32 \<Rightarrow> u32 \<Rightarrow> ('h, 'x) lk_scheme \<Rightarrow>
     (c_int \<times> pci_dev option \<times> ('h, 'x) lk_scheme) outcome" where
  "pci_alloc_irq_vectors W hhdm pdv min_vecs max_vecs fl s =
     (case pdv of None \<Rightarrow> Inr (-1, pdv, s)
      | Some dv \<Rightarrow>
        if fl AND PCI_IRQ_MSIX = 0 then Inr (-1, pdv, s)
        else if min_vecs = 0 \<or> max_vecs < min_vecs then Inr (-1, pdv, s)
        else let b = pd_bus_number dv; d = devnum_of dv; f = func_of dv;
                 info = linuxkpi_pci_msix_info b d f msix_info_zero s
             in if mi_present info = 0 then Inr (-1, pdv, s)
                else let want = min max_vecs (mi_table_size info)
                     in if want < min_vecs then Inr (-1, pdv, s)
                        else let (slot, pool) = alloc_slots (ucast want) (lk_irq s);
                                 s = s\<lparr>lk_irq := pool\<rparr>
                             in case slot of
                                  None \<Rightarrow> Inr (-1, pdv, s)
                                | Some first_slot \<Rightarrow>
                                    let table_phys_base = linuxkpi_pci_bar_address b d f (ucast (mi_table_bar info)) s
                                    in if table_phys_base = 0 then Inr (-1, pdv, s)
                                       else let table_phys = table_phys_base + ucast (mi_table_offset info);
                                                s = linuxkpi_paging_map_mmio table_phys (ucast want * 16) s
                                            in and_then (program_table (table_phys + hhdm) (unat first_slot) (unat want) s) (\<lambda>s.
                                               let cap = ucast (mi_cap_offset info);
                                                   cur = linuxkpi_pci_config_read32 b d f cap s;
                                                   s = linuxkpi_pci_config_write32 W b d f cap
                                                         ((cur OR push_bit 31 1) AND NOT (push_bit 30 1)) s
                                               in Inr (want, Some (dv\<lparr>pd_msix_first_slot := ucast first_slot,
                                                                    pd_msix_vector_count := want\<rparr>), s)))"

definition pci_irq_vector :: "pci_dev option \<Rightarrow> u32 \<Rightarrow> c_int" where
  "pci_irq_vector pdv idx =
     (case pdv of None \<Rightarrow> -1
      | Some dv \<Rightarrow>
          let first = pd_msix_first_slot dv; count = pd_msix_vector_count dv
          in if sint first < 0 \<or> sint idx \<ge> sint count then -1 else first + idx)"

definition pci_free_irq_vectors ::
    "config_hw \<Rightarrow> pci_dev option \<Rightarrow> ('h, 'x) lk_scheme \<Rightarrow> (pci_dev option \<times> ('h, 'x) lk_scheme) outcome" where
  "pci_free_irq_vectors W pdv s =
     (case pdv of None \<Rightarrow> Inr (pdv, s)
      | Some dv \<Rightarrow>
          let first = pd_msix_first_slot dv; count = pd_msix_vector_count dv
          in if sint first < 0 \<or> sint count \<le> 0 then Inr (pdv, s)
             else and_then (fold_out (\<lambda>i s. and_then (free_irq (first + of_nat i) 0 (lk_irq s)) (\<lambda>(_, pool).
                     Inr (s\<lparr>lk_irq := pool\<rparr>))) [0..<unat count] s) (\<lambda>s.
                  let b = pd_bus_number dv; d = devnum_of dv; f = func_of dv;
                      info = linuxkpi_pci_msix_info b d f msix_info_zero s;
                      s = (if mi_present info = 1
                           then let cap = ucast (mi_cap_offset info);
                                    cur = linuxkpi_pci_config_read32 b d f cap s
                                in linuxkpi_pci_config_write32 W b d f cap
                                     ((cur AND NOT (push_bit 31 1)) OR push_bit 30 1) s
                           else s)
                  in Inr (Some (dv\<lparr>pd_msix_first_slot := -1, pd_msix_vector_count := 0\<rparr>), s)))"

section \<open>What the walk visits\<close>

text \<open>Two configuration spaces with the same functions.\<close>

definition same_topology :: "config_space \<Rightarrow> config_space \<Rightarrow> bool" where
  "same_topology c c' \<longleftrightarrow> (\<forall>b d f. config_read32 c b d f 0 = config_read32 c' b d f 0 \<and>
     config_read32 c b d f 0x0C = config_read32 c' b d f 0x0C)"

lemma same_topology_refl [simp]: "same_topology c c"
  by (simp add: same_topology_def)

lemma same_topology_trans: "same_topology c c' \<Longrightarrow> same_topology c' c'' \<Longrightarrow> same_topology c c''"
  by (simp add: same_topology_def)

lemma same_topology_facts:
  assumes "same_topology c c'"
  shows "absent c' b d f = (\<not> present c b d f)"
    "((ucast (drop_bit 16 (config_read32 c' b d 0 0x0C) AND 0xFF) :: u8) AND 0x80 \<noteq> 0) = multifunction c b d"
  using assms by (simp_all add: same_topology_def absent_def present_def multifunction_def)

definition bus_functions :: "config_space \<Rightarrow> (u8 \<times> u8 \<times> u8) list" where
  "bus_functions cfg = concat (map (\<lambda>b. concat (map (\<lambda>d.
     map (\<lambda>f. (of_nat b, of_nat d, of_nat f)) (dev_functions cfg (of_nat b) (of_nat d))) [0..<32])) [0..<256])"

definition keeps_topology :: "('s \<Rightarrow> config_space) \<Rightarrow> (u8 \<Rightarrow> u8 \<Rightarrow> u8 \<Rightarrow> 's \<Rightarrow> 's outcome) \<Rightarrow> bool" where
  "keeps_topology cf visit \<longleftrightarrow> (\<forall>b d f s s'. visit b d f s = Inr s' \<longrightarrow> same_topology (cf s) (cf s'))"

lemma keeps_topologyD:
  "keeps_topology cf visit \<Longrightarrow> visit b d f s = Inr s' \<Longrightarrow> same_topology c (cf s) \<Longrightarrow> same_topology c (cf s')"
  unfolding keeps_topology_def using same_topology_trans by blast

lemma walk_rest:
  assumes "keeps_topology cf visit" "same_topology cfg (cf s)"
  shows "fold_out (\<lambda>f s. if absent (cf s) b d f then Inr s else visit b d f s) fs s =
    fold_out (visit b d) (filter (present cfg b d) fs) s"
  using assms(2)
proof (induction fs arbitrary: s)
  case (Cons f fs)
  show ?case
  proof (cases "present cfg b d f")
    case True
    then have "\<not> absent (cf s) b d f" using same_topology_facts(1) [OF Cons.prems] by simp
    with True show ?thesis using Cons.IH keeps_topologyD [OF assms(1) _ Cons.prems]
      by (cases "visit b d f s") simp_all
  qed (use Cons same_topology_facts(1) [OF Cons.prems] in simp)
qed simp

lemma walk_device_eq:
  assumes "keeps_topology cf visit" "same_topology cfg (cf s)"
  shows "walk_device cf visit b d s = fold_out (visit b d) (map of_nat (dev_functions cfg b d)) s"
proof (cases "present cfg b d 0")
  case True
  have seven: "[1, 2, 3, 4, 5, 6, 7] = map (of_nat :: nat \<Rightarrow> u8) [1..<8]" by (simp add: upt_rec)
  then have fs: "map of_nat (filter (\<lambda>f. present cfg b d (of_nat f)) [1..<8]) = filter (present cfg b d) [1, 2, 3, 4, 5, 6, 7]"
    unfolding seven filter_map by (simp only: o_def)
  have present: "\<not> absent (cf s) b d 0" using True same_topology_facts(1) [OF assms(2)] by simp
  show ?thesis
  proof (cases "visit b d 0 s")
    case (Inl e)
    then show ?thesis using present True unfolding walk_device_def dev_functions_eq by simp
  next
    case (Inr t)
    have t: "same_topology cfg (cf t)" by (rule keeps_topologyD [OF assms(1) Inr assms(2)])
    have "walk_device cf visit b d s = (if multifunction cfg b d
        then fold_out (visit b d) (filter (present cfg b d) [1, 2, 3, 4, 5, 6, 7]) t else Inr t)"
      unfolding walk_device_def Let_def if_not_P [OF present] Inr and_then_simps same_topology_facts(2) [OF t]
        walk_rest [OF assms(1) t] ..
    moreover have "(of_nat 0 :: u8) = 0" by simp
    ultimately show ?thesis unfolding dev_functions_eq if_P [OF True] using fs Inr
      by (cases "multifunction cfg b d") (simp_all only: list.map fold_out.simps and_then_simps if_True if_False)
  qed
qed (use same_topology_facts(1) [OF assms(2)] in \<open>simp add: walk_device_def dev_functions_eq\<close>)

lemma walk_functions_eq:
  assumes "keeps_topology cf visit" "same_topology cfg (cf s)"
  shows "walk_functions cf visit s = fold_out (\<lambda>(b, d, f). visit b d f) (bus_functions cfg) s"
proof -
  let ?v = "\<lambda>(b, d, f). visit b d f" and ?I = "\<lambda>s. same_topology cfg (cf s)"
  have keep: "?I t" if "?I s" "fold_out ?v xs s = Inr t" for xs s t
    using that(2) by (rule fold_out_invariant [where I = ?I]) (use that(1) keeps_topologyD [OF assms(1)] in auto)
  let ?fs = "\<lambda>b d. map (\<lambda>f. (of_nat b, of_nat d, of_nat f)) (dev_functions cfg (of_nat b) (of_nat d)) :: (u8 \<times> u8 \<times> u8) list"
  have dev: "walk_device cf visit (of_nat b) (of_nat d) s = fold_out ?v (?fs b d) s" if "?I s" for b d s
    using walk_device_eq [OF assms(1) that] by (simp add: fold_out_map)
  have bus: "fold_out (\<lambda>d. walk_device cf visit (of_nat b) (of_nat d)) [0..<32] s =
      fold_out (\<lambda>d. fold_out ?v (?fs b d)) [0..<32] s" if "?I s" for b s
    using dev keep that by (intro fold_out_cong_inv [where I = ?I]) blast+
  have "walk_functions cf visit s = fold_out (\<lambda>b. fold_out (\<lambda>d. walk_device cf visit (of_nat b) (of_nat d)) [0..<32]) [0..<256] s"
    unfolding walk_functions_def fold_out_map ..
  also have "\<dots> = fold_out (\<lambda>b. fold_out (\<lambda>d. fold_out ?v (?fs b d)) [0..<32]) [0..<256] s"
  proof (rule fold_out_cong_inv [where I = ?I])
    fix b s t assume "?I s" "fold_out (\<lambda>d. fold_out ?v (?fs b d)) [0..<32] s = Inr t"
    then show "?I t" unfolding fold_out_concat_map [symmetric] by (rule keep)
  qed (use bus assms(2) in auto)
  finally show ?thesis unfolding bus_functions_def fold_out_concat_map .
qed

lemma set_concat_upt: "set (concat (map G [0..<k])) = (\<Union>i \<in> {i. i < k}. set (G i))"
  by auto

lemma set_concat_triples:
  "set (concat (map (\<lambda>b. concat (map (\<lambda>d. map (\<lambda>f. h b d f) (F b d)) [0..<n])) [0..<m])) =
     {h b d f |b d f. b < m \<and> d < n \<and> f \<in> set (F b d)}"
  unfolding set_concat_upt set_map by blast

lemma set_bus_functions:
  "set (bus_functions cfg) = {(of_nat b, of_nat d, of_nat f) |b d f. (b, d, f) \<in> reported cfg}"
proof -
  have "f \<in> set (dev_functions cfg b d) \<longleftrightarrow> f < 8 \<and> present cfg b d 0 \<and>
      (f = 0 \<or> multifunction cfg b d \<and> present cfg b d (of_nat f))" for f b d
    unfolding dev_functions_def set_filter by auto
  then show ?thesis unfolding bus_functions_def set_concat_triples reported_def by (simp only: mem_Collect_eq split_conv)
qed

lemma length_bus_functions: "length (bus_functions cfg) = fst (scan cfg)"
proof -
  have sum: "sum_list (map g [0..<n]) = (\<Sum>i<n. g i)" for g :: "nat \<Rightarrow> nat" and n
    by (simp add: interv_sum_list_conv_sum_set_nat atLeast0LessThan)
  show ?thesis unfolding scan_sums fst_conv scan_device_eq bus_functions_def length_concat map_map o_def length_map sum ..
qed

section \<open>Registration\<close>

text \<open>The index of the first entry that matches, among those before the sentinel.\<close>

definition first_match :: "('a \<Rightarrow> bool) \<Rightarrow> 'a list \<Rightarrow> nat option" where
  "first_match ok us = (if \<exists>u \<in> set us. ok u then Some (length (takeWhile (\<lambda>u. \<not> ok u) us)) else None)"

lemma first_match_simps:
  "first_match ok [] = None"
  "first_match ok (u # us) = (if ok u then Some 0 else map_option Suc (first_match ok us))"
  by (auto simp: first_match_def)

lemma table_search_eq:
  assumes "\<forall>u \<in> set us. \<not> stop u" "stop z" "length us < n"
  shows "table_search stop ok n i (us @ z # vs) = Inr (map_option ((+) i) (first_match ok us))"
  using assms
proof (induction us arbitrary: n i)
  case Nil
  then obtain m where "n = Suc m" by (cases n) auto
  then show ?case using Nil by (simp add: first_match_simps)
next
  case (Cons u us)
  then obtain m where m: "n = Suc m" by (cases n) auto
  show ?case
  proof (cases "ok u")
    case False
    then have "table_search stop ok n i ((u # us) @ z # vs) = table_search stop ok m (Suc i) (us @ z # vs)"
      using Cons.prems m by simp
    also have "\<dots> = Inr (map_option ((+) (Suc i)) (first_match ok us))"
      using Cons.prems m by (intro Cons.IH) auto
    finally show ?thesis using False by (cases "first_match ok us") (simp_all add: first_match_simps)
  qed (use Cons.prems m in \<open>simp add: first_match_simps\<close>)
qed

text \<open>What registration should do at one function, for a driver whose table has the entries \<open>us\<close>.\<close>

definition probe_spec ::
    "config_hw \<Rightarrow> pci_device_id list \<Rightarrow> (pci_dev \<Rightarrow> nat \<Rightarrow> ('h, 'x) lk_scheme \<Rightarrow> (c_int \<times> ('h, 'x) lk_scheme) outcome) \<Rightarrow>
     u8 \<times> u8 \<times> u8 \<Rightarrow> ('h, 'x) lk_scheme \<Rightarrow> ('h, 'x) lk_scheme outcome" where
  "probe_spec W us probe = (\<lambda>(b, d, f). visit_func lk_cfg (\<lambda>b d f vendor device cls sv sd s.
     case first_match (pci_entry_matches vendor device sv sd cls) us of
       None \<Rightarrow> Inr s
     | Some k \<Rightarrow> (let (pdev, s) = build_pci_dev W b d f vendor device sv sd cls s
                  in and_then (probe pdev k s) (\<lambda>(rc, s). Inr s))) b d f)"

text \<open>The identification and header type registers of a function are read-only.\<close>

definition ids_fixed :: "config_hw \<Rightarrow> bool" where
  "ids_fixed W \<longleftrightarrow> (\<forall>a v c. same_topology c (W a v c))"

definition probe_keeps_ids ::
    "(pci_dev \<Rightarrow> nat \<Rightarrow> ('h, 'x) lk_scheme \<Rightarrow> (c_int \<times> ('h, 'x) lk_scheme) outcome) \<Rightarrow> bool" where
  "probe_keeps_ids probe \<longleftrightarrow>
     (\<forall>pdev k s rc s'. probe pdev k s = Inr (rc, s') \<longrightarrow> same_topology (lk_cfg s) (lk_cfg s'))"

lemma write_topology:
  "ids_fixed W \<Longrightarrow> same_topology c (lk_cfg s) \<Longrightarrow> same_topology c (lk_cfg (linuxkpi_pci_config_write32 W b d f off v s))"
  unfolding ids_fixed_def linuxkpi_pci_config_write32_def
  by (simp) (meson same_topology_trans)

lemma size_bars_topology:
  fixes s :: "('h, 'x) lk_scheme"
  assumes "ids_fixed W"
  shows "same_topology c (lk_cfg s) \<Longrightarrow> same_topology c (lk_cfg (snd (snd (size_bars W b d f bar as ls s))))"
proof (induction "6 - bar" arbitrary: bar as ls s rule: less_induct)
  case less
  note w = write_topology [OF assms]
  have IH: "bar < 6 \<Longrightarrow> bar < bar' \<Longrightarrow> same_topology c (lk_cfg s') \<Longrightarrow>
      same_topology c (lk_cfg (snd (snd (size_bars W b d f bar' as' ls' s'))))"
    for bar' as' ls' and s' :: "('h, 'x) lk_scheme"
    by (rule less.hyps) auto
  show ?case
  proof (cases "bar < 6")
    case True
    then show ?thesis
      by (subst size_bars.simps, unfold Let_def) (auto intro!: IH w less.prems)
  qed (use less.prems in \<open>simp add: size_bars.simps\<close>)
qed

lemma probe_spec_topology:
  assumes "ids_fixed W" "probe_keeps_ids probe" "probe_spec W us probe (b, d, f) s = Inr s'"
  shows "same_topology (lk_cfg s) (lk_cfg s')"
proof -
  have bars: "same_topology (lk_cfg s) (lk_cfg (snd (build_pci_dev W b d f v dv sv sd c s)))" for v dv sv sd c
    using size_bars_topology [OF assms(1), of "lk_cfg s" s b d f 0 "replicate 6 0" "replicate 6 0"]
    by (simp add: build_pci_dev_def split_beta)
  have probe: "same_topology (lk_cfg s) (lk_cfg s')" if "probe (fst (build_pci_dev W b d f v dv sv sd c s)) k
      (snd (build_pci_dev W b d f v dv sv sd c s)) = Inr (rc, s')" for v dv sv sd c k rc
    using assms(2) that bars same_topology_trans unfolding probe_keeps_ids_def by blast
  show ?thesis
    using assms(3) unfolding probe_spec_def split_conv visit_func_def Let_def split_beta
    by (auto split: option.splits elim!: and_then_InrE dest: probe)
qed


text \<open>A configuration space in which writes are stored except in the read-only registers, and a driver.\<close>

definition stored_hw :: config_hw where
  "stored_hw a v c = (if a AND 0xFC = 0 \<or> a AND 0xFC = 0x0C then c else c(a := v))"

lemma config_addr_low: "config_addr b d f off AND 0xFC = ucast off AND 0xFC"
proof -
  have m: "(0xFC :: u32) = mask 8 AND NOT (mask 2)" by (simp add: mask_eq_exp_minus_1)
  show ?thesis unfolding m by (rule bit_eqI) (auto simp: bit_config_addr bit_simps dest: bit_u8_less)
qed

lemma ids_fixed_stored: "ids_fixed stored_hw"
proof -
  have "config_addr b d f 0 AND 0xFC = 0" "config_addr b d f 0x0C AND 0xFC = 0x0C" for b d f
    unfolding config_addr_low by simp_all
  then have "a \<noteq> config_addr b d f 0 \<and> a \<noteq> config_addr b d f 0x0C" if "a AND 0xFC \<noteq> 0" "a AND 0xFC \<noteq> 0x0C" for a b d f
    using that by auto
  then show ?thesis by (auto simp: ids_fixed_def same_topology_def stored_hw_def config_read32_def)
qed

definition virtio_ids :: "pci_device_id list" where
  "virtio_ids = [\<lparr>id_vendor = 0x1AF4, id_device = PCI_ANY_ID, id_subvendor = PCI_ANY_ID, id_subdevice = PCI_ANY_ID,
     id_class = 0, id_class_mask = 0, id_driver_data = 0\<rparr>]"

definition last_id :: pci_device_id where
  "last_id = \<lparr>id_vendor = 0, id_device = 0, id_subvendor = 0, id_subdevice = 0, id_class = 0, id_class_mask = 0, id_driver_data = 0\<rparr>"

definition demo_probe :: "pci_dev \<Rightarrow> nat \<Rightarrow> nat lk \<Rightarrow> (c_int \<times> nat lk) outcome" where
  "demo_probe pdev k s = Inr (0, linuxkpi_paging_map_mmio (pd_bar_addr pdev ! 0) 4096 s)"

definition demo_lk :: "nat lk" where
  "demo_lk = \<lparr>lk_cfg = (\<lambda>a. if a = config_addr 0 3 0 0 then 0x10451AF4 else 0xFFFFFFFF), lk_mapped = [], lk_stores = [],
     lk_irq = irq_boot, lk_pci_registry = []\<rparr>"


section \<open>BAR sizes\<close>

text \<open>
  The address registers of a function by kind. A register keeps the writable bits of what is
  written, above hard-wired ones (PCI Local Bus Specification 3.0, section 6.2.5.1): a memory BAR of size
  2^k has its low k address bits hard-wired to zero below the type bits, a register that is not
  implemented is zero.
\<close>

datatype bar_kind = No_bar | Io_bar | Mem32 nat | Mem64 nat

definition bar_reg :: "u8 \<Rightarrow> u8 \<Rightarrow> u8 \<Rightarrow> nat \<Rightarrow> u32" where
  "bar_reg b d f i = config_addr b d f (0x10 + of_nat i * 4)"

definition reg_hw :: "config_hw \<Rightarrow> config_space \<Rightarrow> u32 \<Rightarrow> u32 \<Rightarrow> u32 \<Rightarrow> bool" where
  "reg_hw W cfg a writable wired \<longleftrightarrow>
     (\<forall>v c. W a v c = c(a := (v AND writable) OR wired)) \<and> cfg a = (cfg a AND writable) OR wired"

fun bars_hw :: "config_hw \<Rightarrow> config_space \<Rightarrow> u8 \<Rightarrow> u8 \<Rightarrow> u8 \<Rightarrow> nat \<Rightarrow> bar_kind list \<Rightarrow> bool" where
  "bars_hw W cfg b d f i [] \<longleftrightarrow> i = 6"
| "bars_hw W cfg b d f i (No_bar # ks) \<longleftrightarrow> i < 6 \<and> reg_hw W cfg (bar_reg b d f i) 0 0 \<and> bars_hw W cfg b d f (Suc i) ks"
| "bars_hw W cfg b d f i (Io_bar # ks) \<longleftrightarrow> i < 6 \<and> cfg (bar_reg b d f i) AND 1 \<noteq> 0 \<and> bars_hw W cfg b d f (Suc i) ks"
| "bars_hw W cfg b d f i (Mem32 k # ks) \<longleftrightarrow> i < 6 \<and> 4 \<le> k \<and> k < 32 \<and>
     (\<exists>t \<in> {0, 2, 8, 10}. reg_hw W cfg (bar_reg b d f i) (NOT (mask k)) t) \<and> bars_hw W cfg b d f (Suc i) ks"
| "bars_hw W cfg b d f i (Mem64 k # ks) \<longleftrightarrow> i < 5 \<and> 4 \<le> k \<and> k < 64 \<and>
     (\<exists>t \<in> {4, 12}. reg_hw W cfg (bar_reg b d f i) (NOT (mask k)) t) \<and>
     reg_hw W cfg (bar_reg b d f (Suc i)) (NOT (mask (k - 32))) 0 \<and> bars_hw W cfg b d f (Suc (Suc i)) ks"

fun bar_lens :: "bar_kind list \<Rightarrow> u64 list" where
  "bar_lens [] = []"
| "bar_lens (No_bar # ks) = 0x100000000 # bar_lens ks"
| "bar_lens (Io_bar # ks) = 0 # bar_lens ks"
| "bar_lens (Mem32 k # ks) = 2 ^ k # bar_lens ks"
| "bar_lens (Mem64 k # ks) = 2 ^ k # 0 # bar_lens ks"

fun bar_addrs :: "config_space \<Rightarrow> u8 \<Rightarrow> u8 \<Rightarrow> u8 \<Rightarrow> nat \<Rightarrow> bar_kind list \<Rightarrow> u64 list" where
  "bar_addrs cfg b d f i [] = []"
| "bar_addrs cfg b d f i (No_bar # ks) = 0 # bar_addrs cfg b d f (Suc i) ks"
| "bar_addrs cfg b d f i (Io_bar # ks) = 0 # bar_addrs cfg b d f (Suc i) ks"
| "bar_addrs cfg b d f i (Mem32 k # ks) = bar_address cfg b d f (of_nat i) # bar_addrs cfg b d f (Suc i) ks"
| "bar_addrs cfg b d f i (Mem64 k # ks) = bar_address cfg b d f (of_nat i) # 0 # bar_addrs cfg b d f (Suc (Suc i)) ks"

lemma ones_mask: "(0xFFFFFFF0 :: u32) = NOT (mask 4)" "(0xFFFFFFFF :: u32) = mask 32" "(0xFFFFFFFF :: u64) = mask 32"
  by (simp_all add: mask_eq_exp_minus_1)

lemma wired_low:
  assumes "v = (v AND NOT (mask k)) OR t" "4 \<le> k" "t AND NOT (mask 4) = 0" "m AND NOT (mask 4) = 0"
  shows "(v :: u32) AND m = t AND m"
proof (rule bit_eqI)
  fix n
  have "bit v n = bit ((v AND NOT (mask k)) OR t) n" using assms(1) by simp
  moreover have "bit m n \<Longrightarrow> n < 4"
  proof -
    assume m: "bit m n"
    then have "n < 32" using bit_imp_le_length [OF m] by simp
    moreover have "\<not> bit (m AND NOT (mask 4)) n" unfolding assms(4) by simp
    ultimately show ?thesis using m by (simp add: bit_simps)
  qed
  ultimately show "bit (v AND m) n = bit (t AND m) n"
    using assms(2) by (auto simp: bit_simps)
qed

lemma size_read:
  assumes "4 \<le> k" "t AND NOT (mask 4) = 0"
  shows "(((mask 32 :: u32) AND NOT (mask k)) OR t) AND NOT (mask 4) = NOT (mask k)"
proof (rule bit_word_eqI)
  fix n :: nat assume n: "n < LENGTH(32)"
  have "\<not> bit (t AND NOT (mask 4)) n" unfolding assms(2) by simp
  then have "\<not> (bit t n \<and> \<not> n < 4)" using n by (simp add: bit_simps)
  then show "bit ((((mask 32 :: u32) AND NOT (mask k)) OR t) AND NOT (mask 4)) n = bit (NOT (mask k) :: u32) n"
    using assms(1) n by (auto simp: bit_simps)
qed

lemma len32: "k \<le> 32 \<Longrightarrow> (NOT (ucast (NOT (mask k) :: u32)) AND mask 32) + 1 = (2 ^ k :: u64)"
proof -
  assume k: "k \<le> 32"
  have "NOT (ucast (NOT (mask k) :: u32)) AND mask 32 = (mask k :: u64)"
    using k by (intro bit_eqI) (auto simp: bit_simps)
  then show ?thesis by (simp add: mask_eq_exp_minus_1)
qed

lemma len64: "k < 64 \<Longrightarrow> NOT (push_bit 32 (ucast (NOT (mask (k - 32)) :: u32)) OR ucast (NOT (mask k) :: u32)) + 1 = (2 ^ k :: u64)"
proof -
  assume k: "k < 64"
  have "NOT (push_bit 32 (ucast (NOT (mask (k - 32)) :: u32)) OR ucast (NOT (mask k) :: u32)) = (mask k :: u64)"
    using k by (intro bit_eqI) (auto simp: bit_simps)
  then show ?thesis by (simp add: mask_eq_exp_minus_1)
qed


lemma bar_reg_access:
  "linuxkpi_pci_config_read32 b d f (0x10 + of_nat i * 4) s = lk_cfg s (bar_reg b d f i)"
  "linuxkpi_pci_config_read32 b d f (20 + of_nat i * 4) s = lk_cfg s (bar_reg b d f (Suc i))"
  "linuxkpi_pci_config_write32 W b d f (0x10 + of_nat i * 4) v s = s\<lparr>lk_cfg := W (bar_reg b d f i) v (lk_cfg s)\<rparr>"
  "linuxkpi_pci_config_write32 W b d f (20 + of_nat i * 4) v s = s\<lparr>lk_cfg := W (bar_reg b d f (Suc i)) v (lk_cfg s)\<rparr>"
  by (simp_all add: linuxkpi_pci_config_read32_def linuxkpi_pci_config_write32_def config_read32_def bar_reg_def
      add.commute)

text \<open>The sizing dance on one register restores it.\<close>

lemma reg_hw_dance:
  assumes "reg_hw W (lk_cfg s) a wm t"
  shows "W a (lk_cfg s a) (W a v (lk_cfg s)) = lk_cfg s" "W a v (lk_cfg s) a = (v AND wm) OR t"
  using assms by (simp_all add: reg_hw_def)

lemma size_bars_mem32:
  fixes s :: "('h, 'x) lk_scheme"
  assumes "i < 6" "reg_hw W (lk_cfg s) (bar_reg b d f i) (NOT (mask k)) t" "4 \<le> k" "k \<le> 32" "t \<in> {0, 2, 8, 10}"
  shows "size_bars W b d f i as ls s = size_bars W b d f (Suc i)
    (as[i := bar_address (lk_cfg s) b d f (of_nat i)]) (ls[i := 2 ^ k]) s"
proof -
  let ?v = "lk_cfg s (bar_reg b d f i)"
  have t: "t AND NOT (mask 4) = 0" "t AND 1 = 0" "t AND 6 \<noteq> 4" using assms(5) by (auto simp: mask_eq_exp_minus_1)
  have v: "?v = (?v AND NOT (mask k)) OR t" using assms(2) by (simp add: reg_hw_def)
  have "?v AND 1 = t AND 1" "?v AND 6 = t AND 6"
    by (rule wired_low [OF v assms(3) t(1)], simp add: mask_eq_exp_minus_1)+
  then have bits: "?v AND 1 = 0" "?v AND 6 \<noteq> 4" using t by auto
  show ?thesis
    by (subst size_bars.simps)
      (use assms(1) bits reg_hw_dance [OF assms(2)] size_read [OF assms(3) t(1)] len32 [OF assms(4)] in
        \<open>simp add: Let_def bar_reg_access linuxkpi_pci_bar_address_def ones_mask\<close>)
qed

lemma size_bars_mem64:
  fixes s :: "('h, 'x) lk_scheme"
  assumes "i < 5" "reg_hw W (lk_cfg s) (bar_reg b d f i) (NOT (mask k)) t" "4 \<le> k" "k < 64" "t \<in> {4, 12}"
    "reg_hw W (lk_cfg s) (bar_reg b d f (Suc i)) (NOT (mask (k - 32))) 0"
  shows "size_bars W b d f i as ls s = size_bars W b d f (Suc (Suc i))
    (as[i := bar_address (lk_cfg s) b d f (of_nat i)]) (ls[i := 2 ^ k]) s"
proof -
  let ?v = "lk_cfg s (bar_reg b d f i)"
  have t: "t AND NOT (mask 4) = 0" "t AND 1 = 0" "t AND 6 = 4" using assms(5) by (auto simp: mask_eq_exp_minus_1)
  have v: "?v = (?v AND NOT (mask k)) OR t" using assms(2) by (simp add: reg_hw_def)
  have "?v AND 1 = t AND 1" "?v AND 6 = t AND 6"
    by (rule wired_low [OF v assms(3) t(1)], simp add: mask_eq_exp_minus_1)+
  then have bits: "?v AND 1 = 0" "?v AND 6 = 4" using t by auto
  have hi: "(mask 32 :: u32) AND NOT (mask (k - 32)) OR 0 = NOT (mask (k - 32))"
    by (rule bit_word_eqI) (auto simp: bit_simps)
  show ?thesis
    by (subst size_bars.simps)
      (use assms(1) bits reg_hw_dance [OF assms(2)] reg_hw_dance [OF assms(6)] size_read [OF assms(3) t(1)] hi len64 [OF assms(4)] in
        \<open>simp add: Let_def bar_reg_access linuxkpi_pci_bar_address_def ones_mask\<close>)
qed

lemma size_bars_io:
  assumes "i < 6" "lk_cfg s (bar_reg b d f i) AND 1 \<noteq> 0"
  shows "size_bars W b d f i as ls s = size_bars W b d f (Suc i) as ls s"
  by (subst size_bars.simps) (use assms in \<open>simp add: Let_def bar_reg_access\<close>)

lemma bar_address_none: "cfg (bar_reg b d f i) = 0 \<Longrightarrow> bar_address cfg b d f (of_nat i) = 0"
  by (simp add: bar_address_def config_read32_def bar_reg_def Let_def)

lemma size_bars_kinds:
  fixes s :: "('h, 'x) lk_scheme"
  assumes "bars_hw W (lk_cfg s) b d f i ks" "i \<le> 6" "length as = i" "length ls = i"
  shows "size_bars W b d f i (as @ replicate (6 - i) 0) (ls @ replicate (6 - i) 0) s =
    (as @ bar_addrs (lk_cfg s) b d f i ks, ls @ bar_lens ks, s)"
  using assms
proof (induction ks arbitrary: i as ls)
  case Nil
  then show ?case by (simp add: size_bars.simps)
next
  case (Cons x ks)
  let ?a = "bar_address (lk_cfg s) b d f (of_nat i)"
  have rep: "replicate (6 - i) (0 :: u64) = 0 # replicate (6 - Suc i) 0" if "i < 6"
    using that by (simp add: Suc_diff_Suc [symmetric])
  have upd: "(xs @ replicate (6 - i) (0 :: u64))[i := y] = (xs @ [y]) @ replicate (6 - Suc i) 0"
    if "i < 6" "length xs = i" for xs y
    using that by (simp add: rep list_update_append)
  show ?case
  proof (cases x)
    case No_bar
    have none: "NOT (mask 32) = (0 :: u32)" by (rule bit_word_eqI) (auto simp: bit_simps)
    have hw: "i < 6" "reg_hw W (lk_cfg s) (bar_reg b d f i) (NOT (mask 32)) 0" "bars_hw W (lk_cfg s) b d f (Suc i) ks"
      using Cons.prems(1) No_bar unfolding none by simp_all
    then have "lk_cfg s (bar_reg b d f i) = 0" unfolding none by (simp add: reg_hw_def)
    then have "?a = 0" by (rule bar_address_none)
    then show ?thesis
      using Cons.IH [OF hw(3), of "as @ [0]" "ls @ [2 ^ 32]"] Cons.prems hw No_bar
        size_bars_mem32 [OF hw(1,2)] by (simp add: upd)
  next
    case Io_bar
    then have hw: "i < 6" "lk_cfg s (bar_reg b d f i) AND 1 \<noteq> 0" "bars_hw W (lk_cfg s) b d f (Suc i) ks"
      using Cons.prems(1) by simp_all
    show ?thesis
      using Cons.IH [OF hw(3), of "as @ [0]" "ls @ [0]"] Cons.prems Io_bar size_bars_io [OF hw(1,2)]
      by (simp add: rep [OF hw(1)])
  next
    case (Mem32 k)
    then obtain t where hw: "i < 6" "reg_hw W (lk_cfg s) (bar_reg b d f i) (NOT (mask k)) t" "4 \<le> k" "k \<le> 32"
      "t \<in> {0, 2, 8, 10}" "bars_hw W (lk_cfg s) b d f (Suc i) ks"
      using Cons.prems(1) by auto
    show ?thesis
      using Cons.IH [OF hw(6), of "as @ [?a]" "ls @ [2 ^ k]"] Cons.prems Mem32 hw(1)
      unfolding size_bars_mem32 [OF hw(1-5)] by (simp add: upd)
  next
    case (Mem64 k)
    then obtain t where hw: "i < 5" "reg_hw W (lk_cfg s) (bar_reg b d f i) (NOT (mask k)) t" "4 \<le> k" "k < 64"
      "t \<in> {4, 12}" "reg_hw W (lk_cfg s) (bar_reg b d f (Suc i)) (NOT (mask (k - 32))) 0" "bars_hw W (lk_cfg s) b d f (Suc (Suc i)) ks"
      using Cons.prems(1) by auto
    have "5 - i = Suc (4 - i)" using hw(1) by simp
    then have two: "replicate (5 - i) (0 :: u64) = 0 # replicate (4 - i) 0" by simp
    show ?thesis
      using Cons.IH [OF hw(7), of "as @ [?a, 0]" "ls @ [2 ^ k, 0]"] Cons.prems Mem64 hw(1)
      unfolding size_bars_mem64 [OF hw(1-6)] by (simp add: upd two)
  qed
qed

text \<open>
  Sizing the BARs of a function finds their sizes and leaves the function as it was. For any
  arrangement of address registers in which each behaves as the PCI specification prescribes,
  the device built for a probe records for each memory BAR its size 2^k and the address the
  kernel reads from it (with a zero for the upper half of a 64-bit one), zeros for an I/O BAR, and
  the configuration space is unchanged afterwards. For a register that is not implemented it
  records the address 0 and the length 2^32.
\<close>

theorem bar_sizing:
  assumes "bars_hw W (lk_cfg s) b d f 0 ks"
  shows "\<exists>pdev. build_pci_dev W b d f vendor device sv sd cls s = (pdev, s) \<and>
    pd_bar_len pdev = bar_lens ks \<and> pd_bar_addr pdev = bar_addrs (lk_cfg s) b d f 0 ks \<and>
    pd_bus_number pdev = b \<and> (unat d < 32 \<and> unat f < 8 \<longrightarrow> devnum_of pdev = d \<and> func_of pdev = f)"
proof -
  have dev: "drop_bit 3 (push_bit 3 d OR (f AND 7)) = d" "(push_bit 3 d OR (f AND 7)) AND 7 = f"
    if d: "unat d < 32" and f: "unat f < 8"
  proof -
    have m: "(7 :: u8) = mask 3" by (simp add: mask_eq_exp_minus_1)
    have tb: "take_bit 5 d = d" "take_bit 3 f = f"
      using d f by (simp_all add: unat_take_bit_word flip: unat_cancel)
    have db: "bit d n \<Longrightarrow> n < 5" for n using tb(1) by (metis bit_take_bit_iff)
    have fb: "bit f n \<Longrightarrow> n < 3" for n using tb(2) by (metis bit_take_bit_iff)
    show "drop_bit 3 (push_bit 3 d OR (f AND 7)) = d" unfolding m
      by (rule bit_word_eqI) (auto simp: bit_simps dest: db fb)
    show "(push_bit 3 d OR (f AND 7)) AND 7 = f" unfolding m
      by (rule bit_word_eqI) (auto simp: bit_simps dest: db fb)
  qed
  show ?thesis
    using size_bars_kinds [OF assms, of "[]" "[]"] dev by (simp add: build_pci_dev_def devnum_of_def func_of_def)
qed

text \<open>A function with a 64-bit BAR of 16 KiB, a 32-bit one of 4 KiB, an I/O BAR and two unused registers.\<close>

definition sized_hw :: config_hw where
  "sized_hw a v c =
     (if a = bar_reg 0 3 0 0 then c(a := (v AND NOT (mask 14)) OR 4)
      else if a = bar_reg 0 3 0 1 then c(a := (v AND NOT (mask (14 - 32))) OR 0)
      else if a = bar_reg 0 3 0 2 then c(a := (v AND NOT (mask 12)) OR 0)
      else if a = bar_reg 0 3 0 4 \<or> a = bar_reg 0 3 0 5 then c(a := (v AND 0) OR 0)
      else c)"

definition sized_lk :: "nat lk" where
  "sized_lk = demo_lk\<lparr>lk_cfg := (\<lambda>a.
     if a = bar_reg 0 3 0 0 then 0xFEBC0004 else if a = bar_reg 0 3 0 1 then 0x8
     else if a = bar_reg 0 3 0 2 then 0xFEBD5000 else if a = bar_reg 0 3 0 3 then 0xC041 else 0)\<rparr>"

lemma bar_regs_0: "bar_reg 0 3 0 0 = 0x80001810" "bar_reg 0 3 0 1 = 0x80001814" "bar_reg 0 3 0 2 = 0x80001818"
  "bar_reg 0 3 0 3 = 0x8000181C" "bar_reg 0 3 0 4 = 0x80001820" "bar_reg 0 3 0 5 = 0x80001824"
  by code_simp+

lemma sized_bars: "bars_hw sized_hw (lk_cfg sized_lk) 0 3 0 0 [Mem64 14, Mem32 12, Io_bar, No_bar, No_bar]"
proof -
  have idx: "Suc 0 = 1" "Suc 1 = 2" "Suc 2 = 3" "Suc 3 = 4" "Suc 4 = 5" "Suc 5 = 6" by simp_all
  show ?thesis
    unfolding bars_hw.simps idx bex_simps reg_hw_def sized_hw_def sized_lk_def bar_regs_0
    by (simp add: mask_eq_exp_minus_1)
qed

theorem bar_sizing_witness:
  "\<exists>pdev. build_pci_dev sized_hw 0 3 0 0x1AF4 0x1045 0 0 0 sized_lk = (pdev, sized_lk) \<and>
    pd_bar_len pdev = bar_lens [Mem64 14, Mem32 12, Io_bar, No_bar, No_bar] \<and>
    pd_bar_addr pdev = bar_addrs (lk_cfg sized_lk) 0 3 0 0 [Mem64 14, Mem32 12, Io_bar, No_bar, No_bar] \<and>
    pd_bus_number pdev = 0 \<and> (unat (3 :: u8) < 32 \<and> unat (0 :: u8) < 8 \<longrightarrow> devnum_of pdev = 3 \<and> func_of pdev = 0)"
  by (rule bar_sizing [OF sized_bars])

section \<open>Vector allocation\<close>

definition entry_stores :: "u64 \<Rightarrow> nat \<Rightarrow> u8 \<Rightarrow> (u64 \<times> u32) list" where
  "entry_stores table_virt i v =
     (let p = table_virt + 16 * of_nat i in [(p, 0xFEE00000), (p + 4, 0), (p + 8, ucast v), (p + 12, 0)])"

lemma program_table_eq:
  assumes "SLOT_TO_IDT_VEC (lk_irq s) = Some vs" "first_slot + count \<le> length vs"
  shows "program_table tv first_slot count s =
    Inr (s\<lparr>lk_stores := lk_stores s @ concat (map (\<lambda>i. entry_stores tv i (vs ! (first_slot + i))) [0..<count])\<rparr>)"
  using assms(2)
proof (induction count)
  case (Suc n)
  let ?s = "s\<lparr>lk_stores := lk_stores s @ concat (map (\<lambda>i. entry_stores tv i (vs ! (first_slot + i))) [0..<n])\<rparr>"
  have "program_table tv first_slot (Suc n) s = and_then (program_table tv first_slot n s) (\<lambda>s.
      and_then (slot_idt_vector (first_slot + n) (lk_irq s)) (\<lambda>v. Inr (program_entry tv (of_nat n) v s)))"
    unfolding program_table_def upt_Suc_append [OF le0] fold_out_append by (simp add: and_then_def split: sum.splits)
  also have "\<dots> = Inr (program_entry tv (of_nat n) (vs ! (first_slot + n)) ?s)"
    using Suc assms(1) by (simp add: slot_idt_vector_def)
  finally show ?case
    by (simp add: program_entry_def write_volatile32_def entry_stores_def Let_def)
qed (simp add: program_table_def)

text \<open>The requests that can be served: how many vectors, through which capability.\<close>

definition servable ::
    "pci_dev \<Rightarrow> u32 \<Rightarrow> u32 \<Rightarrow> u32 \<Rightarrow> ('h, 'x) lk_scheme \<Rightarrow> (u32 \<times> msix) option" where
  "servable dv min_vecs max_vecs fl s =
     (case msix_info (lk_cfg s) (pd_bus_number dv) (devnum_of dv) (func_of dv) of
        None \<Rightarrow> None
      | Some info \<Rightarrow>
          let want = min max_vecs (table_size info)
          in if fl AND PCI_IRQ_MSIX \<noteq> 0 \<and> 0 < min_vecs \<and> min_vecs \<le> max_vecs \<and> min_vecs \<le> want \<and>
               unat (NEXT_SLOT (lk_irq s)) + unat want \<le> 16
             then Some (want, info) else None)"

lemma alloc_slots_u32:
  assumes "unat (NEXT_SLOT p) \<le> 16" "(want :: u32) \<noteq> 0"
  shows "alloc_slots (ucast want) p =
    (if unat (NEXT_SLOT p) + unat want \<le> 16 then (Some (NEXT_SLOT p), p\<lparr>NEXT_SLOT := NEXT_SLOT p + ucast want\<rparr>) else (None, p))"
proof -
  have "(ucast want :: usize) \<noteq> 0" using assms(2) by (metis unat_eq_zero unat_widen_32_64)
  then show ?thesis by (simp add: alloc_slots_eq [OF assms(1)] unat_widen_32_64)
qed

lemma pci_alloc_unfold:
  assumes "irq_ok (lk_irq s)" "SLOT_TO_IDT_VEC (lk_irq s) = Some vs"
  shows "pci_alloc_irq_vectors W hhdm (Some dv) min_vecs max_vecs fl s =
    (case servable dv min_vecs max_vecs fl s of
       None \<Rightarrow> Inr (-1, Some dv, s)
     | Some (want, info) \<Rightarrow>
         let b = pd_bus_number dv; d = devnum_of dv; f = func_of dv; first = NEXT_SLOT (lk_irq s);
             s1 = s\<lparr>lk_irq := (lk_irq s)\<lparr>NEXT_SLOT := first + ucast want\<rparr>\<rparr>;
             table = bar_address (lk_cfg s) b d f (table_bar info) + ucast (table_offset info);
             cur = config_read32 (lk_cfg s) b d f (cap_offset info)
         in if bar_address (lk_cfg s) b d f (table_bar info) = 0 then Inr (-1, Some dv, s1)
            else Inr (want, Some (dv\<lparr>pd_msix_first_slot := ucast first, pd_msix_vector_count := want\<rparr>),
              s1\<lparr>lk_cfg := W (config_addr b d f (cap_offset info)) ((cur OR push_bit 31 1) AND NOT (push_bit 30 1)) (lk_cfg s),
                 lk_mapped := lk_mapped s @ [(table, ucast want * 16)],
                 lk_stores := lk_stores s @ concat (map (\<lambda>i. entry_stores (table + hhdm) i (vs ! (unat first + i))) [0..<unat want])\<rparr>))"
proof -
  let ?b = "pd_bus_number dv" and ?d = "devnum_of dv" and ?f = "func_of dv"
  have len: "length vs = 16" and nx: "unat (NEXT_SLOT (lk_irq s)) \<le> 16"
    using assms by (auto simp: irq_ok_def)
  show ?thesis
  proof (cases "fl AND PCI_IRQ_MSIX \<noteq> 0 \<and> 0 < min_vecs \<and> min_vecs \<le> max_vecs")
    case False
    then have sv: "servable dv min_vecs max_vecs fl s = None" by (auto simp: servable_def Let_def split: option.splits)
    have g: "fl AND PCI_IRQ_MSIX = 0 \<or> (min_vecs = 0 \<or> max_vecs < min_vecs)"
      using False by (auto simp: word_gt_0)
    have "pci_alloc_irq_vectors W hhdm (Some dv) min_vecs max_vecs fl s = Inr (-1, Some dv, s)"
    proof (cases "fl AND PCI_IRQ_MSIX = 0")
      case f: True
      show ?thesis unfolding pci_alloc_irq_vectors_def option.case if_P [OF f] ..
    next
      case f: False
      then have m: "min_vecs = 0 \<or> max_vecs < min_vecs" using g by simp
      show ?thesis unfolding pci_alloc_irq_vectors_def option.case if_not_P [OF f] if_P [OF m] ..
    qed
    then show ?thesis unfolding sv option.case .
  next
    case ok: True
    then have ok': "fl AND PCI_IRQ_MSIX \<noteq> 0" "\<not> (min_vecs = 0 \<or> max_vecs < min_vecs)"
      by auto
    show ?thesis
    proof (cases "msix_info (lk_cfg s) ?b ?d ?f")
      case None
      then show ?thesis using ok'
        by (simp add: pci_alloc_irq_vectors_def servable_def Let_def linuxkpi_pci_msix_info_def msix_info_zero_def)
    next
      case (Some info)
      define w where "w = min max_vecs (table_size info)"
      have sv: "servable dv min_vecs max_vecs fl s =
          (if min_vecs \<le> w \<and> unat (NEXT_SLOT (lk_irq s)) + unat w \<le> 16 then Some (w, info) else None)"
        using ok Some unfolding servable_def Let_def w_def by simp
      note start = pci_alloc_irq_vectors_def option.case if_not_P [OF ok'(1)] if_not_P [OF ok'(2)]
        linuxkpi_pci_msix_info_def Some msix_info_zero_def Let_def msix_info_raw.simps w_def [symmetric]
      show ?thesis
      proof (cases "w < min_vecs")
        case True
        then have "\<not> min_vecs \<le> w" by simp
        with True show ?thesis unfolding sv start by simp
      next
        case nw: False
        then have w: "w \<noteq> 0" using ok by auto
        show ?thesis
        proof (cases "unat (NEXT_SLOT (lk_irq s)) + unat w \<le> 16")
          case False
          then have "alloc_slots (ucast w) (lk_irq s) = (None, lk_irq s)" using alloc_slots_u32 [OF nx w] by simp
          with False nw show ?thesis unfolding sv start by simp
        next
          case True
          then have al: "alloc_slots (ucast w) (lk_irq s) =
              (Some (NEXT_SLOT (lk_irq s)), (lk_irq s)\<lparr>NEXT_SLOT := NEXT_SLOT (lk_irq s) + ucast w\<rparr>)"
            using alloc_slots_u32 [OF nx w] by simp
          have narrow: "(ucast (ucast x :: u32) :: u8) = x" for x :: u8 by (rule bit_word_eqI) (auto simp: bit_simps)
          have fit: "unat (NEXT_SLOT (lk_irq s)) + unat w \<le> length vs" using True len by simp
          show ?thesis
            unfolding sv start
            using nw leI [OF nw] fit assms(2) True
            by (simp add: al narrow linuxkpi_pci_bar_address_def linuxkpi_paging_map_mmio_def
                linuxkpi_pci_config_read32_def linuxkpi_pci_config_write32_def program_table_eq)
        qed
      qed
    qed
  qed
qed

lemma alloc_irq_vectors_cases:
  assumes "irq_ok (lk_irq s)" "SLOT_TO_IDT_VEC (lk_irq s) = Some vs"
    "pci_alloc_irq_vectors W hhdm (Some dv) min_vecs max_vecs fl s = Inr (rc, Some dv', s')"
  shows "case servable dv min_vecs max_vecs fl s of
      None \<Rightarrow> rc = -1 \<and> dv' = dv \<and> s' = s
    | Some (want, info) \<Rightarrow>
        let b = pd_bus_number dv; d = devnum_of dv; f = func_of dv; first = NEXT_SLOT (lk_irq s);
            base = bar_address (lk_cfg s) b d f (table_bar info);
            table = base + ucast (table_offset info);
            cap = config_read32 (lk_cfg s) b d f (cap_offset info)
        in min_vecs \<le> want \<and> want \<le> max_vecs \<and> NEXT_SLOT (lk_irq s') = first + ucast want \<and>
           (if base = 0 then rc = -1 \<and> dv' = dv
            else rc = want \<and> lk_mapped s' = lk_mapped s @ [(table, ucast want * 16)] \<and>
              lk_stores s' = lk_stores s @ concat (map (\<lambda>i. entry_stores (table + hhdm) i (vs ! (unat first + i))) [0..<unat want]) \<and>
              lk_cfg s' = W (config_addr b d f (cap_offset info)) ((cap OR push_bit 31 1) AND NOT (push_bit 30 1)) (lk_cfg s) \<and>
              (\<forall>idx. pci_irq_vector (Some dv') idx =
                 (if unat idx < unat want \<or> 2 ^ 31 \<le> unat idx then ucast first + idx else -1)))"
proof (cases "servable dv min_vecs max_vecs fl s")
  case None
  then show ?thesis using assms(3) unfolding pci_alloc_unfold [OF assms(1,2)] by simp
next
  case (Some r)
  obtain want info where r: "r = (want, info)" by fastforce
  let ?first = "NEXT_SLOT (lk_irq s)"
  have w: "min_vecs \<le> want" "want \<le> max_vecs" "unat ?first + unat want \<le> 16"
    using Some r by (auto simp: servable_def Let_def split: option.splits if_splits)
  have first: "unat (ucast ?first :: 32 word) = unat ?first" using w(3) by (simp add: unsigned_ucast_eq take_bit_nat_eq_self)
  have sw: "sint want = int (unat want)" using w(3) by (intro sint_u32(1)) simp
  have idx: "pci_irq_vector (Some (dv\<lparr>pd_msix_first_slot := ucast ?first, pd_msix_vector_count := want\<rparr>)) idx =
      (if unat idx < unat want \<or> 2 ^ 31 \<le> unat idx then ucast ?first + idx else -1)" for idx
  proof -
    have "\<not> sint (ucast ?first :: 32 word) < 0" using sint_u32(1) [of "ucast ?first"] first w(3) by simp
    moreover have "sint idx \<ge> sint want \<longleftrightarrow> \<not> (unat idx < unat want \<or> 2 ^ 31 \<le> unat idx)"
    proof (cases "2 ^ 31 \<le> unat idx")
      case True
      have "0 \<le> sint want" unfolding sw by simp
      then have "\<not> sint want \<le> sint idx" using sint_u32(2) [OF True] by linarith
      with True show ?thesis by simp
    next
      case False
      then have "sint idx = int (unat idx)" by (intro sint_u32(1)) simp
      then show ?thesis using False unfolding sw by (simp only: of_nat_le_iff not_less simp_thms)
    qed
    ultimately show ?thesis unfolding pci_irq_vector_def option.case Let_def by simp
  qed
  show ?thesis
  proof (cases "bar_address (lk_cfg s) (pd_bus_number dv) (devnum_of dv) (func_of dv) (table_bar info) = 0")
    case True
    then have "rc = -1 \<and> dv' = dv \<and> s' = s\<lparr>lk_irq := (lk_irq s)\<lparr>NEXT_SLOT := ?first + ucast want\<rparr>\<rparr>"
      using assms(3) unfolding pci_alloc_unfold [OF assms(1,2)] Some r option.case split_conv Let_def if_P [OF True] by simp
    then show ?thesis using True w(1,2) unfolding Some r option.case split_conv Let_def by simp
  next
    case False
    show ?thesis
      using assms(3) w(1,2) idx False
      unfolding pci_alloc_unfold [OF assms(1,2)] Some r option.case split_conv Let_def if_not_P [OF False]
      by auto
  qed
qed


text \<open>A device whose MSI-X capability at 0x40 has four entries, in BAR 1 at offset 0x800.\<close>

definition msix_dv :: pci_dev where
  "msix_dv = \<lparr>pd_vendor = 0x1AF4, pd_device = 0x1045, pd_subsystem_vendor = 0, pd_subsystem_device = 0, pd_class = 0,
     pd_bus_number = 0, pd_devfn = 0x18, pd_bar_addr = replicate 6 0, pd_bar_len = replicate 6 0,
     pd_driver_data = 0, pd_msix_first_slot = -1, pd_msix_vector_count = 0\<rparr>"

definition msix_cfg :: config_space where
  "msix_cfg a = (if a = 0x80001804 then 0x00100000 else if a = 0x80001834 then 0x40
     else if a = 0x80001840 then 0x00030011 else if a = 0x80001844 then 0x801 else if a = 0x80001814 then 0xFEBD0000 else 0)"

definition msix_lk :: "nat lk" where
  "msix_lk = \<lparr>lk_cfg = msix_cfg, lk_mapped = [], lk_stores = [],
     lk_irq = irq_boot\<lparr>SLOT_TO_IDT_VEC := Some [0x40, 0x41, 0x42, 0x43, 0x44, 0x45, 0x46, 0x47, 0x48, 0x49, 0x4A, 0x4B, 0x4C, 0x4D, 0x4E, 0x4F]\<rparr>,
     lk_pci_registry = []\<rparr>"

lemma msix_lk_info: "msix_info (lk_cfg msix_lk) 0 3 0 = Some \<lparr>msix_bdf = \<lparr>bus = 0, dev = 3, func = 0\<rparr>, cap_offset = 0x40,
    table_size = 4, table_bar = 1, table_offset = 0x800, pba_bar = 0, pba_offset = 0\<rparr>"
  by code_simp

lemma msix_lk_served: "servable msix_dv 1 2 4 msix_lk = Some (2, \<lparr>msix_bdf = \<lparr>bus = 0, dev = 3, func = 0\<rparr>, cap_offset = 0x40,
    table_size = 4, table_bar = 1, table_offset = 0x800, pba_bar = 0, pba_offset = 0\<rparr>)"
proof -
  have bdf: "pd_bus_number msix_dv = 0" "devnum_of msix_dv = 3" "func_of msix_dv = 0"
    by (simp_all add: msix_dv_def devnum_of_def func_of_def)
  show ?thesis unfolding servable_def bdf msix_lk_info option.case Let_def
    by (simp add: PCI_IRQ_MSIX_def msix_lk_def irq_boot_def min_def)
qed


end
