(* ===== verification/VqSlots.thy ===== *)
theory VqSlots
  imports Virtqueue
begin

text \<open>
  Drivers that keep a table with one entry per descriptor: every request is a single descriptor,
  and the table says which buffer was posted at it. The items posted, fetched by the device and
  completed are lists; the operations of the virtqueue and of the device move items from one list
  to the next. The network driver's receive and transmit queues are two such tables.
\<close>

text \<open>Heads of different requests are different, and inside the table.\<close>

lemma heads_distinct:
  assumes "vq_accounted v fl rs" "rs = us @ r # ws" "x \<in> set (us @ ws)"
  shows "hd x \<noteq> hd r"
proof -
  have d: "distinct (concat (r # us @ ws))" and ne: "\<forall>x \<in> set rs. x \<noteq> []"
    using assms(1,2) by (auto simp: accounted_def dest: request_nonempty)
  have "hd r \<in> set r" "hd x \<in> set (concat (us @ ws))"
    using ne assms(2,3) by (auto intro!: bexI [of _ x])
  moreover have "set r \<inter> set (concat (us @ ws)) = {}" using d by simp
  ultimately show ?thesis by (metis disjoint_iff)
qed

lemma head_in_table:
  assumes "vq_split u fl pub tak dn" "r \<in> set (pub @ tak @ dn)"
  shows "unat (hd r) < unat (qsize (vq u))"
proof -
  have "request (desc (vq u)) r" "length (desc (vq u)) = unat (qsize (vq u))"
    using assms by (auto simp: vq_split_def accounted_def vq_ok_def)
  then show ?thesis using request_bound [of _ r "hd r"] request_nonempty [of _ r] by (metis hd_in_set)
qed

lemma virtq_new_sizes_eq: "virtq_new pf fa sz = Inr (v, fa') \<Longrightarrow> qsize v = sz \<and> num_free v = sz"
  by (auto simp: virtq_new_def and_then_eq_Inr Let_def)

definition slots :: "('b \<Rightarrow> part) \<Rightarrow> (u16 \<Rightarrow> 'b option) \<Rightarrow> vq_sys \<Rightarrow> u16 list list \<Rightarrow> bool" where
  "slots part tab u rs \<longleftrightarrow>
     (\<forall>r \<in> set rs. tl r = [] \<and> (\<exists>b. tab (hd r) = Some b \<and> desc_part (desc (vq u) ! unat (hd r)) = part b))"

definition posted ::
    "('b \<Rightarrow> part) \<Rightarrow> (u16 \<Rightarrow> 'b option) \<Rightarrow> vq_sys \<Rightarrow> 'b list \<Rightarrow> (u16 \<times> 'b) list \<Rightarrow> ('b \<times> u32) list \<Rightarrow> bool" where
  "posted part tab u P T D \<longleftrightarrow>
     (\<exists>fl pub tak dn. vq_split u fl pub tak dn \<and>
        slots part tab u (pub @ tak @ dn) \<and>
        map (\<lambda>r. tab (hd r)) pub = map Some P \<and>
        map hd tak = map fst T \<and> map (\<lambda>r. tab (hd r)) tak = map (\<lambda>x. Some (snd x)) T \<and>
        map (\<lambda>r. tab (hd r)) dn = map (\<lambda>x. Some (fst x)) D \<and>
        ring_holds (map used_len (used_ring (vq u))) (last_used_idx (vq u)) (map snd D))"

lemma postedI:
  assumes "vq_split u fl pub tak dn" "slots part tab u (pub @ tak @ dn)"
    "map (\<lambda>r. tab (hd r)) pub = map Some P" "map hd tak = map fst T" "map (\<lambda>r. tab (hd r)) tak = map (\<lambda>x. Some (snd x)) T"
    "map (\<lambda>r. tab (hd r)) dn = map (\<lambda>x. Some (fst x)) D"
    "ring_holds (map used_len (used_ring (vq u))) (last_used_idx (vq u)) (map snd D)"
  shows "posted part tab u P T D"
  using assms unfolding posted_def by blast

lemma postedE:
  assumes "posted part tab u P T D"
  obtains fl pub tak dn where "vq_split u fl pub tak dn" "slots part tab u (pub @ tak @ dn)"
    "map (\<lambda>r. tab (hd r)) pub = map Some P" "map hd tak = map fst T" "map (\<lambda>r. tab (hd r)) tak = map (\<lambda>x. Some (snd x)) T"
    "map (\<lambda>r. tab (hd r)) dn = map (\<lambda>x. Some (fst x)) D"
    "ring_holds (map used_len (used_ring (vq u))) (last_used_idx (vq u)) (map snd D)"
  using assms unfolding posted_def by blast

lemma posted_fresh:
  assumes "virtq_new pf fa sz = Inr (vq u, fa')" "last_avail u = 0" "taken u = []"
  shows "posted part tab u [] [] []"
  by (rule postedI [OF virtq_new_split [OF assms refl]]) (simp_all add: ring_holds_def slots_def)

lemma push_descriptor_fields:
  assumes "push_descriptor v a l f = Inr (res, q)"
  shows "qsize q = qsize v" "used_ring q = used_ring v" "used_idx q = used_idx v" "last_used_idx q = last_used_idx v"
    "res = None \<Longrightarrow> q = v \<and> num_free v = 0"
    "res = Some h \<Longrightarrow> unat h < length (desc v) \<and> desc q = (desc v)[unat h := \<lparr>addr = a, len = l, flags = f AND NOT VIRTQ_DESC_F_NEXT, nxt = 0\<rparr>]"
  using assms by (auto simp: push_descriptor_def publish_def Let_def split: if_splits)

lemma nth_update_word: "k \<noteq> h \<Longrightarrow> xs[unat h := v] ! unat (k :: 'a::len word) = xs ! unat k"
  by (metis nth_list_update_neq unat_cancel)

lemma slots_cong:
  assumes "slots part tab u rs" "\<forall>r \<in> set rs. tab' (hd r) = tab (hd r) \<and> desc (vq u') ! unat (hd r) = desc (vq u) ! unat (hd r)"
  shows "slots part tab' u' rs"
  using assms unfolding slots_def by metis

lemma items_cong:
  "\<forall>r \<in> set rs. tab' (hd r) = tab (hd r) \<Longrightarrow> map (\<lambda>r. tab' (hd r)) rs = map (\<lambda>r. tab (hd r)) rs"
  by simp

lemma posted_push:
  assumes p: "posted part tab u P T D" and b: "part b = (a, l, f)" "f AND NOT VIRTQ_DESC_F_NEXT = f"
  obtains "push_descriptor (vq u) a l f = Inr (None, vq u)" "num_free (vq u) = 0"
  | h q where "push_descriptor (vq u) a l f = Inr (Some h, q)" "unat h < unat (qsize (vq u))" "qsize q = qsize (vq u)"
      "num_free (vq u) \<noteq> 0" "posted part (tab(h \<mapsto> b)) (u\<lparr>vq := q\<rparr>) (P @ [b]) T D"
proof (cases "num_free (vq u) = 0")
  case True
  then show ?thesis using that(1) by (simp add: push_descriptor_def)
next
  case False
  obtain fl pub tak dn where sp: "vq_split u fl pub tak dn" "slots part tab u (pub @ tak @ dn)"
    "map (\<lambda>r. tab (hd r)) pub = map Some P" "map hd tak = map fst T" "map (\<lambda>r. tab (hd r)) tak = map (\<lambda>x. Some (snd x)) T"
    "map (\<lambda>r. tab (hd r)) dn = map (\<lambda>x. Some (fst x)) D"
    "ring_holds (map used_len (used_ring (vq u))) (last_used_idx (vq u)) (map snd D)"
    using p by (rule postedE)
  let ?rs = "pub @ tak @ dn"
  have ok: "vq_ok (vq u)" "vq_accounted (vq u) fl ?rs" using sp(1) by (simp_all add: vq_split_def)
  have "1 \<le> unat (num_free (vq u))" using False by (simp add: Suc_le_eq unat_gt_0)
  then obtain h q where push: "push_descriptor (vq u) a l f = Inr (Some h, q)"
    using push_chain_eq [OF ok, of "[(a, l, f)]"] by (auto simp: push_descriptor_chain)
  note fields = push_descriptor_fields [OF push]
  obtain r fl' where r: "length r = 1" "h = hd r" "vq_split (u\<lparr>vq := q\<rparr>) fl' (pub @ [r]) tak dn"
    using vq_split_push [OF sp(1), of "[(a, l, f)]" "Some h" q] push by (auto simp: push_descriptor_chain)
  have "vq_accounted q fl' (pub @ r # tak @ dn)" using r(3) by (simp add: vq_split_def)
  then have neq: "hd x \<noteq> h" if "x \<in> set ?rs" for x using heads_distinct [of q fl' "pub @ r # tak @ dn" pub r "tak @ dn" x] that r(2) by auto
  have d: "unat h < length (desc (vq u))" "desc q = (desc (vq u))[unat h := \<lparr>addr = a, len = l, flags = f AND NOT VIRTQ_DESC_F_NEXT, nxt = 0\<rparr>]"
    using fields(6) by auto
  have same: "\<forall>x \<in> set ?rs. (tab(h \<mapsto> b)) (hd x) = tab (hd x) \<and> desc q ! unat (hd x) = desc (vq u) ! unat (hd x)"
    using neq d(2) by (auto simp: nth_update_word)
  have "slots part (tab(h \<mapsto> b)) (u\<lparr>vq := q\<rparr>) ?rs" by (rule slots_cong [OF sp(2)]) (use same in simp)
  moreover have "tl r = [] \<and> (\<exists>c. (tab(h \<mapsto> b)) (hd r) = Some c \<and> desc_part (desc q ! unat (hd r)) = part c)"
    using r(1,2) d b by (cases r) (simp_all add: desc_part_def)
  ultimately have sl: "slots part (tab(h \<mapsto> b)) (u\<lparr>vq := q\<rparr>) ((pub @ [r]) @ tak @ dn)" by (auto simp: slots_def)
  have m: "map (\<lambda>r. (tab(h \<mapsto> b)) (hd r)) xs = map (\<lambda>r. tab (hd r)) xs" if "set xs \<subseteq> set ?rs" for xs
    by (rule items_cong) (use same that in blast)
  have "map (\<lambda>r. (tab(h \<mapsto> b)) (hd r)) (pub @ [r]) = map Some (P @ [b])"
    using m [of pub] sp(3) r(2) by simp
  moreover have "map (\<lambda>r. (tab(h \<mapsto> b)) (hd r)) tak = map (\<lambda>x. Some (snd x)) T" using m [of tak] sp(5) by auto
  moreover have "map (\<lambda>r. (tab(h \<mapsto> b)) (hd r)) dn = map (\<lambda>x. Some (fst x)) D" using m [of dn] sp(6) by auto
  ultimately have "posted part (tab(h \<mapsto> b)) (u\<lparr>vq := q\<rparr>) (P @ [b]) T D"
    using sp(4,7) fields(2,4) by (intro postedI [OF r(3) sl]) simp_all
  moreover have "unat h < unat (qsize (vq u))" using d(1) ok(1) by (simp add: vq_ok_def)
  ultimately show ?thesis by (intro that(2) [OF push _ fields(1) False])
qed

lemma pop_single:
  fixes h :: u16
  assumes "pop_used v = Some (Inr (Some e, q))" "used_id e = ucast h" "flags (desc v ! unat h) AND VIRTQ_DESC_F_NEXT = 0"
  shows "desc q = (desc v)[unat h := (desc v ! unat h)\<lparr>nxt := free_head v\<rparr>]" "num_free q = num_free v + 1"
    "qsize q = qsize v" "used_ring q = used_ring v" "last_used_idx q = last_used_idx v + 1"
    "e = used_ring v ! unat (last_used_idx v mod qsize v)"
  using assms by (auto simp: pop_used_def Let_def free_chain.simps [of "desc v" _ _ h] and_then_eq_Inr split: if_splits)

lemma posted_pop:
  assumes p: "posted part tab u P T D"
  shows "case D of
      [] \<Rightarrow> pop_used (vq u) = Some (Inr (None, vq u))
    | (b, n) # D' \<Rightarrow> \<exists>e q h. pop_used (vq u) = Some (Inr (Some e, q)) \<and> used_id e = ucast h \<and> used_len e = n \<and>
        unat h < unat (qsize (vq u)) \<and> qsize q = qsize (vq u) \<and> tab h = Some b \<and> num_free q = num_free (vq u) + 1 \<and> num_free q \<noteq> 0 \<and>
        (\<forall>tab'. (\<forall>k. k \<noteq> h \<longrightarrow> tab' k = tab k) \<longrightarrow> posted part tab' (u\<lparr>vq := q\<rparr>) P T D')"
proof (cases D)
  case Nil
  obtain fl pub tak dn where sp: "vq_split u fl pub tak dn" "slots part tab u (pub @ tak @ dn)"
    "map (\<lambda>r. tab (hd r)) pub = map Some P" "map hd tak = map fst T" "map (\<lambda>r. tab (hd r)) tak = map (\<lambda>x. Some (snd x)) T"
    "map (\<lambda>r. tab (hd r)) dn = map (\<lambda>x. Some (fst x)) D"
    "ring_holds (map used_len (used_ring (vq u))) (last_used_idx (vq u)) (map snd D)"
    using p by (rule postedE)
  then show ?thesis using vq_split_pop [OF sp(1)] Nil by simp
next
  case (Cons d D')
  obtain b n where d: "d = (b, n)" by force
  obtain fl pub tak dn where sp: "vq_split u fl pub tak dn" "slots part tab u (pub @ tak @ dn)"
    "map (\<lambda>r. tab (hd r)) pub = map Some P" "map hd tak = map fst T" "map (\<lambda>r. tab (hd r)) tak = map (\<lambda>x. Some (snd x)) T"
    "map (\<lambda>r. tab (hd r)) dn = map (\<lambda>x. Some (fst x)) D"
    "ring_holds (map used_len (used_ring (vq u))) (last_used_idx (vq u)) (map snd D)"
    using p by (rule postedE)
  obtain r dn' where dn: "dn = r # dn'" "tab (hd r) = Some b" "map (\<lambda>r. tab (hd r)) dn' = map (\<lambda>x. Some (fst x)) D'"
    using sp(6) Cons d by (cases dn) auto
  obtain e q where q: "pop_used (vq u) = Some (Inr (Some e, q))" "used_id e = ucast (hd r)"
    "unat (num_free q) = unat (num_free (vq u)) + length r" "vq_split (u\<lparr>vq := q\<rparr>) (rev r @ fl) pub tak dn'"
    using vq_split_pop [OF sp(1)] dn(1) by auto
  have ok: "vq_ok (vq u)" and acc: "vq_accounted (vq u) fl (pub @ tak @ dn)" using sp(1) by (simp_all add: vq_split_def)
  have req: "request (desc (vq u)) r" "tl r = []" using acc sp(2) dn(1) by (auto simp: accounted_def slots_def)
  then obtain h where r: "r = [h]" using request_nonempty by (cases r) auto
  have nf: "flags (desc (vq u) ! unat h) AND VIRTQ_DESC_F_NEXT = 0" using req(1) r by simp
  have e2: "used_id e = ucast h" using q(2) r by simp
  note f = pop_single [OF q(1) e2 nf]
  have hb: "unat h < unat (qsize (vq u))" using head_in_table [OF sp(1), of r] dn(1) r by simp
  have n: "used_len e = n"
  proof -
    have "map used_len (used_ring (vq u)) ! unat (last_used_idx (vq u) mod qsize (vq u)) = n"
      using ring_pop(1) [of "qsize (vq u)" _ "last_used_idx (vq u)" n "map snd D'"] sp(7) ok Cons d by (simp add: vq_ok_def)
    moreover have "unat (last_used_idx (vq u) mod qsize (vq u)) < length (used_ring (vq u))"
      using ok hb by (simp add: vq_ok_def unat_mod_distrib)
    ultimately show ?thesis by (simp add: f(6))
  qed
  have neq: "hd x \<noteq> h" if "x \<in> set (pub @ tak @ dn')" for x
    using heads_distinct [OF acc, of "pub @ tak" r dn' x] dn(1) that r by auto
  have "posted part tab' (u\<lparr>vq := q\<rparr>) P T D'" if tab': "\<forall>k. k \<noteq> h \<longrightarrow> tab' k = tab k" for tab'
  proof -
    have same: "\<forall>x \<in> set (pub @ tak @ dn'). tab' (hd x) = tab (hd x) \<and> desc (vq (u\<lparr>vq := q\<rparr>)) ! unat (hd x) = desc (vq u) ! unat (hd x)"
      using neq tab' by (auto simp: f(1) nth_update_word)
    have "slots part tab' (u\<lparr>vq := q\<rparr>) (pub @ tak @ dn')"
      by (rule slots_cong [OF _ same]) (use sp(2) dn(1) in \<open>auto simp: slots_def\<close>)
    moreover have m: "map (\<lambda>r. tab' (hd r)) xs = map (\<lambda>r. tab (hd r)) xs" if "set xs \<subseteq> set (pub @ tak @ dn')" for xs
      by (rule items_cong) (use same that in blast)
    moreover have "ring_holds (map used_len (used_ring q)) (last_used_idx q) (map snd D')"
      using ring_pop(2) [of "qsize (vq u)" _ "last_used_idx (vq u)" n "map snd D'"] sp(7) ok Cons d by (simp add: vq_ok_def f)
    ultimately show ?thesis
      using sp(3-5) dn(3) m [of pub] m [of tak] m [of dn'] by (intro postedI [OF q(4)]) auto
  qed
  moreover have "num_free q \<noteq> 0" using q(3) r by (auto simp: unat_eq_zero [symmetric])
  ultimately show ?thesis using q(1) e2 n hb f(2,3) dn(2) r Cons d by auto
qed

lemma posted_fetch:
  assumes p: "posted part tab u P T D" and a: "last_avail u \<noteq> avail_idx (vq u)" and h: "h = avail_ring (vq u) ! unat (last_avail u mod qsize (vq u))"
  obtains b P' where "P = b # P'" "tab h = Some b" "desc_part (desc (vq u) ! unat h) = part b"
    "posted part tab (u\<lparr>last_avail := last_avail u + 1, taken := h # taken u\<rparr>) P' ((h, b) # T) D"
proof -
  obtain fl pub tak dn where sp: "vq_split u fl pub tak dn" "slots part tab u (pub @ tak @ dn)"
    "map (\<lambda>r. tab (hd r)) pub = map Some P" "map hd tak = map fst T" "map (\<lambda>r. tab (hd r)) tak = map (\<lambda>x. Some (snd x)) T"
    "map (\<lambda>r. tab (hd r)) dn = map (\<lambda>x. Some (fst x)) D"
    "ring_holds (map used_len (used_ring (vq u))) (last_used_idx (vq u)) (map snd D)"
    using p by (rule postedE)
  let ?u = "u\<lparr>last_avail := last_avail u + 1, taken := h # taken u\<rparr>"
  obtain r pub' where r: "pub = r # pub'" "vq_split ?u fl pub' (r # tak) dn"
    using vq_split_fetch [OF sp(1) a] unfolding h by blast
  then have "taken ?u = map hd (r # tak)" by (simp only: vq_split_def)
  then have hr: "hd r = h" by simp
  obtain b P' where b: "P = b # P'" "tab (hd r) = Some b" "map (\<lambda>r. tab (hd r)) pub' = map Some P'"
    using sp(3) r(1) by (cases P) auto
  have "posted part tab ?u P' ((h, b) # T) D"
    using r(1) sp hr b by (intro postedI [OF r(2)]) (auto simp: slots_def)
  moreover have "desc_part (desc (vq u) ! unat h) = part b" using sp(2) r(1) hr b(2) by (auto simp: slots_def)
  ultimately show ?thesis using that b hr by blast
qed

lemma posted_complete:
  assumes p: "posted part tab u P T D" and t: "taken u = xs @ h # ys"
  obtains b T\<^sub>1 T\<^sub>2 where "T = T\<^sub>1 @ (h, b) # T\<^sub>2" "tab h = Some b" "desc_part (desc (vq u) ! unat h) = part b"
    "posted part tab (u\<lparr>taken := xs @ ys, vq := used_push (vq u) h n\<rparr>) P (T\<^sub>1 @ T\<^sub>2) (D @ [(b, n)])"
proof -
  obtain fl pub tak dn where sp: "vq_split u fl pub tak dn" "slots part tab u (pub @ tak @ dn)"
    "map (\<lambda>r. tab (hd r)) pub = map Some P" "map hd tak = map fst T" "map (\<lambda>r. tab (hd r)) tak = map (\<lambda>x. Some (snd x)) T"
    "map (\<lambda>r. tab (hd r)) dn = map (\<lambda>x. Some (fst x)) D"
    "ring_holds (map used_len (used_ring (vq u))) (last_used_idx (vq u)) (map snd D)"
    using p by (rule postedE)
  let ?u = "u\<lparr>taken := xs @ ys, vq := used_push (vq u) h n\<rparr>"
  obtain a r c where r: "tak = a @ r # c" "hd r = h" "vq_split ?u fl pub (a @ c) (dn @ [r])"
    using vq_split_complete [OF sp(1) t, of n] by blast
  obtain T\<^sub>1 b T\<^sub>2 where T: "T = T\<^sub>1 @ (h, b) # T\<^sub>2" "map hd a = map fst T\<^sub>1" "map hd c = map fst T\<^sub>2" "tab h = Some b"
    "map (\<lambda>r. tab (hd r)) a = map (\<lambda>x. Some (snd x)) T\<^sub>1" "map (\<lambda>r. tab (hd r)) c = map (\<lambda>x. Some (snd x)) T\<^sub>2"
  proof -
    obtain T\<^sub>1 x T\<^sub>2 where T: "T = T\<^sub>1 @ x # T\<^sub>2" "map hd a = map fst T\<^sub>1" "map hd c = map fst T\<^sub>2" "fst x = h"
      using sp(4) r(1,2) by (auto simp: append_eq_map_conv Cons_eq_map_conv)
    moreover have "length a = length T\<^sub>1" using T(2) by (metis length_map)
    ultimately show ?thesis using that [of T\<^sub>1 "snd x" T\<^sub>2] sp(5) r(1,2) by (auto simp: append_eq_append_conv)
  qed
  have ok: "vq_ok (vq u)" "used_idx (vq u) = last_used_idx (vq u) + of_nat (length dn)" using sp(1) by (simp_all add: vq_split_def)
  have len: "length dn = length D" using sp(6) by (metis length_map)
  have "length dn < unat (qsize (vq u))" using vq_split_in_flight [OF sp(1)] r(1) by simp
  then have "ring_holds (map used_len (used_ring (used_push (vq u) h n))) (last_used_idx (vq u)) (map snd (D @ [(b, n)]))"
    using ring_push [of "qsize (vq u)" "map used_len (used_ring (vq u))" "last_used_idx (vq u)" "map snd D" n] ok sp(7) len
    by (simp add: used_push_def map_update vq_ok_def)
  moreover have "slots part tab ?u (pub @ (a @ c) @ dn @ [r])"
    using sp(2) r(1) by (auto simp: slots_def used_push_def)
  ultimately have "posted part tab ?u P (T\<^sub>1 @ T\<^sub>2) (D @ [(b, n)])"
    using r(2) T sp(3,6) by (intro postedI [OF r(3)]) (simp_all add: used_push_def)
  moreover have "desc_part (desc (vq u) ! unat h) = part b" using sp(2) r(1,2) T(4) by (auto simp: slots_def)
  ultimately show ?thesis using that T(1,4) by blast
qed

text \<open>What the three lists say about the free count, the table and the heads the device holds.\<close>

lemma posted_heads:
  assumes "posted part tab u P T D"
  obtains hs where "distinct hs" "length hs = length P + length T + length D"
    "\<forall>h \<in> set hs. unat h < unat (qsize (vq u))"
    "map tab hs = map Some P @ map (\<lambda>x. Some (snd x)) T @ map (\<lambda>x. Some (fst x)) D"
    "unat (num_free (vq u)) + length hs = unat (qsize (vq u))"
proof -
  obtain fl pub tak dn where sp: "vq_split u fl pub tak dn" "slots part tab u (pub @ tak @ dn)"
    "map (\<lambda>r. tab (hd r)) pub = map Some P" "map hd tak = map fst T" "map (\<lambda>r. tab (hd r)) tak = map (\<lambda>x. Some (snd x)) T"
    "map (\<lambda>r. tab (hd r)) dn = map (\<lambda>x. Some (fst x)) D"
    "ring_holds (map used_len (used_ring (vq u))) (last_used_idx (vq u)) (map snd D)"
    using assms by (rule postedE)
  let ?rs = "pub @ tak @ dn"
  have acc: "vq_accounted (vq u) fl ?rs" and ok: "vq_ok (vq u)" using sp(1) by (simp_all add: vq_split_def)
  have single: "\<forall>r \<in> set ?rs. r = [hd r]"
  proof
    fix r assume r: "r \<in> set ?rs"
    then have "r \<noteq> []" using acc request_nonempty by (auto simp: accounted_def)
    moreover have "tl r = []" using sp(2) r unfolding slots_def by blast
    ultimately show "r = [hd r]" by (cases r) simp_all
  qed
  have c: "concat xs = map hd xs" if "\<forall>r \<in> set xs. r = [hd r]" for xs :: "u16 list list"
    using that by (induction xs) auto
  have d: "distinct (fl @ map hd ?rs)" "length (fl @ map hd ?rs) = unat (qsize (vq u))" "length fl = unat (num_free (vq u))"
    using acc ok unfolding accounted_def c [OF single] vq_ok_def by simp_all
  have len: "length pub = length P" "length tak = length T" "length dn = length D"
    using sp(3,5,6) by (metis length_map)+
  have bound: "\<forall>h \<in> set (map hd ?rs). unat h < unat (qsize (vq u))"
  proof
    fix h assume "h \<in> set (map hd ?rs)"
    then obtain r where "r \<in> set ?rs" "h = hd r" by auto
    then show "unat h < unat (qsize (vq u))" using head_in_table [OF sp(1)] by simp
  qed
  have tb: "map tab (map hd ?rs) = map Some P @ map (\<lambda>x. Some (snd x)) T @ map (\<lambda>x. Some (fst x)) D"
    unfolding map_append map_map comp_def sp(3,5,6) ..
  have "distinct (map hd ?rs)" using d(1) unfolding distinct_append by blast
  moreover have "unat (num_free (vq u)) + length (map hd ?rs) = unat (qsize (vq u))" using d(2,3) unfolding length_append by simp
  ultimately show ?thesis using len bound tb by (intro that [of "map hd ?rs"]) simp_all
qed

lemma posted_count:
  "posted part tab u P T D \<Longrightarrow> unat (num_free (vq u)) + (length P + length T + length D) = unat (qsize (vq u))"
  by (erule posted_heads) simp

lemma posted_table:
  assumes "posted part tab u P T D" "b \<in> set P \<union> snd ` set T \<union> fst ` set D"
  obtains h where "unat h < unat (qsize (vq u))" "tab h = Some b"
proof -
  obtain hs where hs: "\<forall>h \<in> set hs. unat h < unat (qsize (vq u))"
    "map tab hs = map Some P @ map (\<lambda>x. Some (snd x)) T @ map (\<lambda>x. Some (fst x)) D"
    using assms(1) by (rule posted_heads)
  have "Some b \<in> set (map tab hs)" unfolding hs(2) using assms(2) by auto
  then obtain h where "h \<in> set hs" "tab h = Some b" by auto
  then show ?thesis using hs(1) that by blast
qed

lemma posted_table_size:
  assumes "posted part tab u P T D"
  shows "length P + length T + length D \<le> card {i. i < unat (qsize (vq u)) \<and> tab (of_nat i) \<noteq> None}"
proof -
  obtain hs where hs: "distinct hs" "length hs = length P + length T + length D"
    "\<forall>h \<in> set hs. unat h < unat (qsize (vq u))"
    "map tab hs = map Some P @ map (\<lambda>x. Some (snd x)) T @ map (\<lambda>x. Some (fst x)) D"
    using assms by (rule posted_heads)
  have "tab h \<noteq> None" if "h \<in> set hs" for h
  proof -
    have "tab h \<in> set (map tab hs)" using that by simp
    then show ?thesis unfolding hs(4) by auto
  qed
  then have "unat ` set hs \<subseteq> {i. i < unat (qsize (vq u)) \<and> tab (of_nat i) \<noteq> None}" using hs(3) by auto
  then have "card (unat ` set hs) \<le> card {i. i < unat (qsize (vq u)) \<and> tab (of_nat i) \<noteq> None}"
    by (intro card_mono) auto
  moreover have "card (unat ` set hs) = length hs"
    using hs(1) by (simp add: card_image inj_on_def distinct_card)
  ultimately show ?thesis using hs(2) by simp
qed

lemma posted_taken: "posted part tab u P T D \<Longrightarrow> taken u = map fst T"
  by (erule postedE) (simp add: vq_split_def)

lemma posted_avail: "posted part tab u P T D \<Longrightarrow> avail_idx (vq u) = last_avail u + of_nat (length P)"
proof (erule postedE)
  fix fl pub tak dn
  assume "vq_split u fl pub tak dn" "map (\<lambda>r. tab (hd r)) pub = map Some P"
  moreover from this(2) have "length pub = length P" by (metis length_map)
  ultimately show ?thesis by (simp add: vq_split_def)
qed

lemma posted_held:
  assumes "posted part tab u P T D" "(h, b) \<in> set T"
  shows "tab h = Some b \<and> desc_part (desc (vq u) ! unat h) = part b \<and> unat h < unat (qsize (vq u))"
proof -
  obtain fl pub tak dn where sp: "vq_split u fl pub tak dn" "slots part tab u (pub @ tak @ dn)"
    "map (\<lambda>r. tab (hd r)) pub = map Some P" "map hd tak = map fst T" "map (\<lambda>r. tab (hd r)) tak = map (\<lambda>x. Some (snd x)) T"
    "map (\<lambda>r. tab (hd r)) dn = map (\<lambda>x. Some (fst x)) D"
    "ring_holds (map used_len (used_ring (vq u))) (last_used_idx (vq u)) (map snd D)"
    using assms(1) by (rule postedE)
  obtain i where i: "i < length T" "T ! i = (h, b)" using assms(2) by (auto simp: in_set_conv_nth)
  then have l: "i < length tak" using sp(4) by (metis length_map)
  have "hd (tak ! i) = h" using arg_cong [OF sp(4), of "\<lambda>xs. xs ! i"] i l by simp
  moreover have "tab (hd (tak ! i)) = Some b" using arg_cong [OF sp(5), of "\<lambda>xs. xs ! i"] i l by simp
  moreover have "tak ! i \<in> set (pub @ tak @ dn)" using l by simp
  moreover have "desc_part (desc (vq u) ! unat (hd r)) = part c" if "r \<in> set (pub @ tak @ dn)" "tab (hd r) = Some c" for r c
    using sp(2) that unfolding slots_def by (metis option.inject)
  ultimately show ?thesis using head_in_table [OF sp(1)] by metis
qed

end
