(* ===== verification/LkVq.thy ===== *)
theory LkVq
  imports VqSlots VirtioPci LkIrq
begin

unbundle bit_operations_syntax

text \<open>
  The virtqueue interface the LinuxKPI shim gives to Linux drivers, linuxkpi/src/virtio.rs
  (virtio\_find\_vqs, virtqueue\_add\_outbuf, virtqueue\_add\_inbuf, virtqueue\_get\_buf and the accessors), with the
  bridge functions of arsenal-kernel/src/linuxkpi\_bridge.rs it goes through. A null pointer is
  \<^term>\<open>None\<close>; the Virtqueue box behind a bridge handle is owned by the shim state that holds the handle, so the
  handle is replaced by the queue. The theory shows that every buffer token a driver adds comes
  back once, and what find\_vqs sets up on the device.
\<close>

section \<open>The bridge\<close>

definition linuxkpi_virtqueue_new ::
    "phys_frame_ctor \<Rightarrow> u16 \<Rightarrow> frame_allocator \<Rightarrow> (virtqueue \<times> frame_allocator) outcome" where
  "linuxkpi_virtqueue_new pf sz fa = virtq_new pf fa sz"

definition linuxkpi_virtqueue_free :: "virtqueue option \<Rightarrow> frame_allocator \<Rightarrow> frame_allocator" where
  "linuxkpi_virtqueue_free q fa = (case q of None \<Rightarrow> fa | Some v \<Rightarrow> virtq_drop fa v)"

definition linuxkpi_virtqueue_info :: "virtqueue \<Rightarrow> u16 \<times> u64 \<times> u64 \<times> u64" where
  "linuxkpi_virtqueue_info q = (qsize q, desc_phys q, avail_phys q, used_phys q)"

definition linuxkpi_virtqueue_push_descriptor ::
    "virtqueue \<Rightarrow> u64 \<Rightarrow> u32 \<Rightarrow> u16 \<Rightarrow> (c_int \<times> virtqueue) outcome" where
  "linuxkpi_virtqueue_push_descriptor q a l f =
     and_then (push_descriptor q a l f) (\<lambda>(r, q). Inr (case r of Some idx \<Rightarrow> ucast idx | None \<Rightarrow> -1, q))"

text \<open>The parts are copied into an array of eight; reading past the end of the array given is undefined.\<close>

definition linuxkpi_virtqueue_push_chain :: "virtqueue \<Rightarrow> part list \<Rightarrow> u32 \<Rightarrow> (c_int \<times> virtqueue) outcome" where
  "linuxkpi_virtqueue_push_chain q parts nparts =
     (if nparts = 0 \<or> nparts > 8 then Inr (-1, q)
      else if length parts < unat nparts then Inl Undefined
      else and_then (push_chain q (take (unat nparts) parts)) (\<lambda>(r, q).
        Inr (case r of Some idx \<Rightarrow> ucast idx | None \<Rightarrow> -1, q)))"

definition linuxkpi_virtqueue_pop_used :: "virtqueue \<Rightarrow> ((u32 \<times> u32) option \<times> virtqueue) run" where
  "linuxkpi_virtqueue_pop_used q =
     run_then (pop_used q) (\<lambda>(r, q). returns (map_option (\<lambda>e. (used_id e, used_len e)) r, q))"

definition linuxkpi_virtio_read_queue_size :: "'d virtio_hw \<Rightarrow> u64 \<Rightarrow> u16 \<Rightarrow> 'd virtio_m \<Rightarrow> u16 \<times> 'd virtio_m" where
  "linuxkpi_virtio_read_queue_size D common_cfg idx m =
     cc_read16 D common_cfg CC_QUEUE_SIZE (cc_write16 D common_cfg CC_QUEUE_SELECT idx m)"

definition thin_device :: "u64 \<Rightarrow> u64 \<Rightarrow> u32 \<Rightarrow> virtio_device" where
  "thin_device common_cfg notify_base moff =
     \<lparr>vd_bus = 0, vd_dev = 0, vd_func = 0, vd_device_id = 0, vd_common_cfg = common_cfg, vd_notify_base = notify_base,
      vd_notify_off_multiplier = moff, vd_isr = 0, vd_device_cfg = 0\<rparr>"

definition linuxkpi_virtio_activate_queue ::
    "'d virtio_hw \<Rightarrow> u64 \<Rightarrow> u64 \<Rightarrow> u32 \<Rightarrow> u16 \<Rightarrow> virtqueue \<Rightarrow> 'd virtio_m \<Rightarrow> (u64 \<times> 'd virtio_m) outcome" where
  "linuxkpi_virtio_activate_queue D common_cfg notify_base moff idx q m =
     activate_queue D (thin_device common_cfg notify_base moff) idx q m"

definition linuxkpi_virtio_set_driver_ok :: "'d virtio_hw \<Rightarrow> u64 \<Rightarrow> 'd virtio_m \<Rightarrow> 'd virtio_m" where
  "linuxkpi_virtio_set_driver_ok D common_cfg m = set_driver_ok D (thin_device common_cfg 0 0) m"

definition linuxkpi_virtio_notify :: "'d virtio_hw \<Rightarrow> u64 \<Rightarrow> u16 \<Rightarrow> 'd virtio_m \<Rightarrow> 'd virtio_m" where
  "linuxkpi_virtio_notify D notify_ptr idx m = notify D notify_ptr idx m"

section \<open>The shim\<close>

text \<open>The number of leading zero bits, from the most significant bit down.\<close>

definition leading_zeros :: "u16 \<Rightarrow> nat" where
  "leading_zeros w = length (takeWhile (\<lambda>i. \<not> bit w i) (rev [0..<16]))"

definition pow2_at_most :: "u16 \<Rightarrow> u16" where
  "pow2_at_most n =
     (if n = 0 then 0 else let capped = min n 128 in push_bit (15 - leading_zeros capped) 1)"

record shim_virtqueue_state =
  sh_handle :: virtqueue
  sh_tokens :: "u64 list"
  sh_notify_ptr :: u64
  sh_queue_idx :: u16
  sh_size :: u16

record lk_virtqueue =
  lq_vdev :: nat \<comment> \<open>the owning device\<close>
  lq_num_free :: u32
  lq_priv :: "shim_virtqueue_state option"

record virtqueue_info_c =
  vqi_name :: u64
  vqi_callback :: u64
  vqi_ctx :: bool

record scatterlist =
  sg_page_link :: u64
  sg_offset :: u32
  sg_length :: u32
  sg_dma_address :: u64
  sg_dma_length :: u32

text \<open>
  The loop of virtio\_find\_vqs from queue \<open>i\<close> on, with the entries of \<open>vqs\<close> written so far. An early
  return leaves the entries written and the queues activated.
\<close>

fun find_vqs_from ::
    "'d virtio_hw \<Rightarrow> phys_frame_ctor \<Rightarrow> nat \<Rightarrow> u64 \<Rightarrow> u64 \<Rightarrow> u32 \<Rightarrow> nat \<Rightarrow> virtqueue_info_c list \<Rightarrow> lk_virtqueue option list \<Rightarrow>
     frame_allocator \<Rightarrow> 'd virtio_m \<Rightarrow> (c_int \<times> lk_virtqueue option list \<times> frame_allocator \<times> 'd virtio_m) outcome" where
  "find_vqs_from D pf vdev cc nb moff i [] vqs fa m = Inr (0, vqs, fa, m)"
| "find_vqs_from D pf vdev cc nb moff i (info # infos) vqs fa m =
     (if vqi_name info = 0
      then find_vqs_from D pf vdev cc nb moff (Suc i) infos (vqs @ [None]) fa m
      else let (mx, m) = linuxkpi_virtio_read_queue_size D cc (of_nat i) m;
               sz = pow2_at_most mx
           in if sz = 0 then Inr (-1, vqs, fa, m)
              else and_then (linuxkpi_virtqueue_new pf sz fa) (\<lambda>(handle, fa).
                   and_then (linuxkpi_virtio_activate_queue D cc nb moff (of_nat i) handle m) (\<lambda>(notify_ptr, m).
                   let state = \<lparr>sh_handle = handle, sh_tokens = replicate (unat sz) 0, sh_notify_ptr = notify_ptr,
                                sh_queue_idx = of_nat i, sh_size = sz\<rparr>;
                       lq = \<lparr>lq_vdev = vdev, lq_num_free = ucast sz, lq_priv = Some state\<rparr>
                   in find_vqs_from D pf vdev cc nb moff (Suc i) infos (vqs @ [Some lq]) fa m)))"

definition virtqueue_get_vring_size :: "lk_virtqueue option \<Rightarrow> u32" where
  "virtqueue_get_vring_size lq =
     (case lq of None \<Rightarrow> 0 | Some v \<Rightarrow> (case lq_priv v of None \<Rightarrow> 0 | Some state \<Rightarrow> ucast (sh_size state)))"

definition saturating_sub :: "u32 \<Rightarrow> u32 \<Rightarrow> u32" where
  "saturating_sub a b = (if a < b then 0 else a - b)"

definition saturating_add :: "u32 \<Rightarrow> u32 \<Rightarrow> u32" where
  "saturating_add a b = (if unat a + unat b < 2 ^ 32 then a + b else -1)"

definition vq_add ::
    "lk_virtqueue option \<Rightarrow> scatterlist list option \<Rightarrow> u32 \<Rightarrow> u64 \<Rightarrow> u16 \<Rightarrow> (c_int \<times> lk_virtqueue option) outcome" where
  "vq_add lq sg num data sg_flags =
     (case (lq, sg) of
        (Some v, Some sgs) \<Rightarrow>
          if num = 0 \<or> num > 8 then Inr (-1, lq)
          else (case lq_priv v of
             None \<Rightarrow> Inr (-1, lq)
           | Some state \<Rightarrow>
               if length sgs < unat num then Inl Undefined
               else and_then
                 (if num = 1
                  then linuxkpi_virtqueue_push_descriptor (sh_handle state)
                         (sg_dma_address (sgs ! 0)) (sg_dma_length (sgs ! 0)) sg_flags
                  else linuxkpi_virtqueue_push_chain (sh_handle state)
                         (map (\<lambda>e. (sg_dma_address e, sg_dma_length e, sg_flags)) (take (unat num) sgs)) num)
                 (\<lambda>(head_idx, q).
                   let state = state\<lparr>sh_handle := q\<rparr>
                   in if sint head_idx < 0 then Inr (-1, Some (v\<lparr>lq_priv := Some state\<rparr>))
                      else if unat head_idx < length (sh_tokens state)
                      then Inr (0, Some (v\<lparr>lq_priv := Some (state\<lparr>sh_tokens := (sh_tokens state)[unat head_idx := data]\<rparr>),
                                          lq_num_free := saturating_sub (lq_num_free v) num\<rparr>))
                      else Inl Panic))
      | _ \<Rightarrow> Inr (-1, lq))"

definition virtqueue_add_outbuf ::
    "lk_virtqueue option \<Rightarrow> scatterlist list option \<Rightarrow> u32 \<Rightarrow> u64 \<Rightarrow> u32 \<Rightarrow> (c_int \<times> lk_virtqueue option) outcome" where
  "virtqueue_add_outbuf lq sg num data gfp_fl = vq_add lq sg num data 0"

definition virtqueue_add_inbuf ::
    "lk_virtqueue option \<Rightarrow> scatterlist list option \<Rightarrow> u32 \<Rightarrow> u64 \<Rightarrow> u32 \<Rightarrow> (c_int \<times> lk_virtqueue option) outcome" where
  "virtqueue_add_inbuf lq sg num data gfp_fl = vq_add lq sg num data VIRTQ_DESC_F_WRITE"

definition virtqueue_kick :: "'d virtio_hw \<Rightarrow> lk_virtqueue option \<Rightarrow> 'd virtio_m \<Rightarrow> c_int \<times> 'd virtio_m" where
  "virtqueue_kick D lq m =
     (case lq of None \<Rightarrow> (-1, m)
      | Some v \<Rightarrow> (case lq_priv v of None \<Rightarrow> (-1, m)
          | Some state \<Rightarrow> (1, linuxkpi_virtio_notify D (sh_notify_ptr state) (sh_queue_idx state) m)))"

text \<open>The token, and the length if one was written.\<close>

definition virtqueue_get_buf :: "lk_virtqueue option \<Rightarrow> (u64 \<times> u32 option \<times> lk_virtqueue option) run" where
  "virtqueue_get_buf lq =
     (case lq of None \<Rightarrow> returns (0, None, lq)
      | Some v \<Rightarrow> (case lq_priv v of None \<Rightarrow> returns (0, None, lq)
          | Some state \<Rightarrow>
              run_then (linuxkpi_virtqueue_pop_used (sh_handle state)) (\<lambda>(r, q).
                let state = state\<lparr>sh_handle := q\<rparr>
                in case r of
                     None \<Rightarrow> returns (0, None, Some (v\<lparr>lq_priv := Some state\<rparr>))
                   | Some (out_id, out_len) \<Rightarrow>
                       if unat out_id < length (sh_tokens state)
                       then returns (sh_tokens state ! unat out_id, Some out_len,
                              Some (v\<lparr>lq_priv := Some (state\<lparr>sh_tokens := (sh_tokens state)[unat out_id := 0]\<rparr>),
                                     lq_num_free := saturating_add (lq_num_free v) 1\<rparr>))
                       else Some (Inl Panic))))"

definition sg_init_one :: "u64 \<Rightarrow> scatterlist option \<Rightarrow> u64 \<Rightarrow> u32 \<Rightarrow> scatterlist option" where
  "sg_init_one hhdm sg buf buflen =
     map_option (\<lambda>_. \<lparr>sg_page_link = 0, sg_offset = 0, sg_length = buflen, sg_dma_address = buf - hhdm, sg_dma_length = buflen\<rparr>) sg"

section \<open>Queue sizes\<close>

lemma bit_of_range:
  assumes "2 ^ k \<le> unat (w :: u16)" "unat w < 2 ^ Suc k"
  shows "bit w k" "k < i \<Longrightarrow> \<not> bit w i"
proof -
  have b: "bit w j \<longleftrightarrow> odd (unat w div 2 ^ j)" for j
  proof -
    have "bit w j = bit (unat w) j" by (simp add: bit_unsigned_iff)
    then show ?thesis by (simp add: bit_iff_odd)
  qed
  have "unat w div 2 ^ k = 1" using assms by (simp add: div_nat_eqI)
  then show "bit w k" using b by simp
  assume "k < i"
  then have "(2 :: nat) ^ Suc k \<le> 2 ^ i" by (intro power_increasing) auto
  then have "unat w div 2 ^ i = 0" using assms(2) by simp
  then show "\<not> bit w i" using b by simp
qed

lemma leading_zeros_range:
  assumes "2 ^ k \<le> unat w" "unat w < 2 ^ Suc k" "k < 16"
  shows "leading_zeros w = 15 - k"
proof -
  have "[0..<16] = [0..<k] @ k # [Suc k..<16]"
    using assms(3) upt_add_eq_append [of 0 k "16 - k"] by (simp add: upt_conv_Cons)
  then have "rev [0..<16] = rev [Suc k..<16] @ k # rev [0..<k]" by simp
  then have "takeWhile (\<lambda>i. \<not> bit w i) (rev [0..<16]) = rev [Suc k..<16]"
    using bit_of_range [OF assms(1,2)] by (simp add: takeWhile_append)
  then show ?thesis by (simp add: leading_zeros_def)
qed

text \<open>The largest power of two that is at most the argument and 128.\<close>

lemma pow2_at_most_spec:
  assumes "n \<noteq> 0"
  shows "\<exists>k < 8. pow2_at_most n = 2 ^ k" "pow2_at_most n \<le> n" "unat (min n 128) < 2 * unat (pow2_at_most n)"
    "pow2_at_most n \<le> 128" "pow2_at_most n \<noteq> 0" "is_power_of_two (pow2_at_most n)"
proof -
  let ?c = "min n 128"
  have c: "0 < unat ?c" "unat ?c \<le> 128" "unat ?c \<le> unat n"
    using assms by (auto simp: min_def word_le_nat_alt unat_gt_0)
  obtain k where k: "2 ^ k \<le> unat ?c" "unat ?c < 2 ^ Suc k" using ex_power_ivl1 [of 2 "unat ?c"] c(1) by auto
  have "(2 :: nat) ^ k < 2 ^ 8" using k(1) c(2) by simp
  then have k8: "k < 8" by (rule power_less_imp_less_exp [rotated]) simp
  then have lz: "leading_zeros ?c = 15 - k" using leading_zeros_range [OF k] by simp
  have eq: "pow2_at_most n = 2 ^ k"
    using assms lz k8 by (simp add: pow2_at_most_def Let_def push_bit_eq_mult)
  have u: "unat (pow2_at_most n) = 2 ^ k"
  proof -
    have "(2 :: nat) ^ k \<le> 2 ^ 7" using k8 by (intro power_increasing) auto
    then have "unat (of_nat (2 ^ k) :: u16) = 2 ^ k" by (intro unat_of_nat_small) simp
    then show ?thesis unfolding eq by simp
  qed
  show ex: "\<exists>k < 8. pow2_at_most n = 2 ^ k" using eq k8 by blast
  show "pow2_at_most n \<le> n" "pow2_at_most n \<le> 128" using u k(1) c by (simp_all add: word_le_nat_alt)
  show "unat ?c < 2 * unat (pow2_at_most n)" using u k(2) by simp
  then show "pow2_at_most n \<noteq> 0" by auto
  show "is_power_of_two (pow2_at_most n)" using ex unfolding is_power_of_two_def by force
qed

section \<open>Tokens\<close>

text \<open>
  A driver and a device on one queue. The driver adds buffers, each with a token that is not null, and
  takes completions; the device fetches and completes as in \<^const>\<open>vq_step\<close>. The tokens added and
  the tokens handed back are recorded.
\<close>

record shim_sys =
  ss_vq :: lk_virtqueue
  ss_last_avail :: u16
  ss_taken :: "u16 list"
  ss_added :: "u64 list"
  ss_returned :: "u64 list"

definition sys_queue :: "shim_sys \<Rightarrow> vq_sys" where
  "sys_queue s = \<lparr>vq = sh_handle (the (lq_priv (ss_vq s))), last_avail = ss_last_avail s, taken = ss_taken s\<rparr>"

definition with_queue :: "virtqueue \<Rightarrow> lk_virtqueue \<Rightarrow> lk_virtqueue" where
  "with_queue q v = v\<lparr>lq_priv := map_option (\<lambda>st. st\<lparr>sh_handle := q\<rparr>) (lq_priv v)\<rparr>"

inductive shim_step :: "shim_sys \<Rightarrow> shim_sys \<Rightarrow> bool" where
  add_buf: "data \<noteq> 0 \<Longrightarrow> vq_add (Some (ss_vq s)) (Some sgs) num data fl = Inr (rc, Some v) \<Longrightarrow>
    shim_step s (s\<lparr>ss_vq := v, ss_added := (if rc = 0 then data # ss_added s else ss_added s)\<rparr>)"
| get_buf: "virtqueue_get_buf (Some (ss_vq s)) = returns (token, n, Some v) \<Longrightarrow>
    shim_step s (s\<lparr>ss_vq := v, ss_returned := (if token = 0 then ss_returned s else token # ss_returned s)\<rparr>)"
| fetch: "q = vq (sys_queue s) \<Longrightarrow> ss_last_avail s \<noteq> avail_idx q \<Longrightarrow>
    shim_step s (s\<lparr>ss_last_avail := ss_last_avail s + 1,
      ss_taken := avail_ring q ! unat (ss_last_avail s mod qsize q) # ss_taken s\<rparr>)"
| complete: "ss_taken s = xs @ h # ys \<Longrightarrow>
    shim_step s (s\<lparr>ss_taken := xs @ ys, ss_vq := with_queue (used_push (vq (sys_queue s)) h n) (ss_vq s)\<rparr>)"

text \<open>The tokens of the requests in flight stand at their heads.\<close>

definition shim_split :: "shim_sys \<Rightarrow> u16 list \<Rightarrow> u16 list list \<Rightarrow> u16 list list \<Rightarrow> u16 list list \<Rightarrow> bool" where
  "shim_split s fl pub tak dn \<longleftrightarrow>
     (\<exists>st. lq_priv (ss_vq s) = Some st \<and> vq_split (sys_queue s) fl pub tak dn \<and>
        length (sh_tokens st) = unat (qsize (sh_handle st)) \<and>
        (\<forall>r \<in> set (pub @ tak @ dn). sh_tokens st ! unat (hd r) \<noteq> 0) \<and>
        mset (ss_added s) = mset (ss_returned s) + image_mset (\<lambda>r. sh_tokens st ! unat (hd r)) (mset (pub @ tak @ dn)) \<and>
        unat (lq_num_free (ss_vq s)) \<le> unat (num_free (sh_handle st)))"

definition shim_inv :: "shim_sys \<Rightarrow> bool" where
  "shim_inv s \<longleftrightarrow> (\<exists>fl pub tak dn. shim_split s fl pub tak dn)"

lemma head_index:
  "\<not> sint (ucast (idx :: u16) :: c_int) < 0" "unat (ucast (idx :: u16) :: c_int) = unat idx"
proof -
  show u: "unat (ucast (idx :: u16) :: c_int) = unat idx"
    using unat_bound [of idx] by (simp add: unsigned_ucast_eq take_bit_nat_eq_self)
  have "sint (ucast idx :: c_int) = int (unat (ucast idx :: c_int))"
    using u unat_bound [of idx] by (intro sint_u32) simp
  then show "\<not> sint (ucast (idx :: u16) :: c_int) < 0" by simp
qed

definition sg_parts :: "scatterlist list \<Rightarrow> u32 \<Rightarrow> u16 \<Rightarrow> part list" where
  "sg_parts sgs num f = map (\<lambda>e. (sg_dma_address e, sg_dma_length e, f)) (take (unat num) sgs)"

text \<open>Adding a buffer is a chain push that records the token at the head.\<close>

lemma vq_add_eq:
  assumes "lq_priv v = Some st" "num \<noteq> 0" "\<not> num > 8" "unat num \<le> length sgs"
  shows "vq_add (Some v) (Some sgs) num data f =
    and_then (push_chain (sh_handle st) (sg_parts sgs num f)) (\<lambda>(r, q). case r of
       None \<Rightarrow> Inr (-1, Some (v\<lparr>lq_priv := Some (st\<lparr>sh_handle := q\<rparr>)\<rparr>))
     | Some idx \<Rightarrow>
         if unat idx < length (sh_tokens st)
         then Inr (0, Some (v\<lparr>lq_priv := Some (st\<lparr>sh_handle := q, sh_tokens := (sh_tokens st)[unat idx := data]\<rparr>),
                             lq_num_free := saturating_sub (lq_num_free v) num\<rparr>))
         else Inl Panic)"
proof -
  let ?ps = "sg_parts sgs num f"
  have len: "length ?ps = unat num" using assms(4) by (simp add: sg_parts_def)
  have one: "push_descriptor q (sg_dma_address (sgs ! 0)) (sg_dma_length (sgs ! 0)) f = push_chain q ?ps" if "num = 1" for q
  proof -
    have "sgs \<noteq> []" using assms(4) that by auto
    then obtain e es where "sgs = e # es" by (cases sgs) auto
    then show ?thesis using that by (simp add: push_descriptor_chain sg_parts_def)
  qed
  have more: "linuxkpi_virtqueue_push_chain q ?ps num = and_then (push_chain q ?ps) (\<lambda>(r, q).
      Inr (case r of Some idx \<Rightarrow> ucast idx | None \<Rightarrow> -1, q))" for q
    using assms(2,3) len by (simp add: linuxkpi_virtqueue_push_chain_def)
  have "vq_add (Some v) (Some sgs) num data f = and_then (and_then (push_chain (sh_handle st) ?ps) (\<lambda>(r, q).
      Inr (case r of Some idx \<Rightarrow> ucast idx :: c_int | None \<Rightarrow> -1, q)))
      (\<lambda>(head_idx, q). let state = st\<lparr>sh_handle := q\<rparr>
         in if sint head_idx < 0 then Inr (-1, Some (v\<lparr>lq_priv := Some state\<rparr>))
            else if unat head_idx < length (sh_tokens state)
            then Inr (0, Some (v\<lparr>lq_priv := Some (state\<lparr>sh_tokens := (sh_tokens state)[unat head_idx := data]\<rparr>),
                                lq_num_free := saturating_sub (lq_num_free v) num\<rparr>))
            else Inl Panic)"
    using assms one more unfolding vq_add_def linuxkpi_virtqueue_push_descriptor_def
    by (auto simp flip: sg_parts_def)
  then show ?thesis
    by (cases "push_chain (sh_handle st) ?ps") (auto simp: head_index split: option.splits)
qed

lemma vq_add_guards:
  assumes "lq_priv v = Some st" "vq_add (Some v) (Some sgs) num data f = Inr (rc, r)"
  shows "rc = -1 \<and> r = Some v \<or> num \<noteq> 0 \<and> \<not> num > 8 \<and> unat num \<le> length sgs"
  using assms by (auto simp: vq_add_def not_less split: if_splits)

lemma saturating_sub_unat: "unat (saturating_sub a b) = unat a - unat b"
  by (auto simp: saturating_sub_def word_less_nat_alt unat_sub word_le_nat_alt)

lemma saturating_add_unat: "unat (saturating_add a b) \<le> unat a + unat b"
proof (cases "unat a + unat b < 2 ^ 32")
  case True
  then show ?thesis by (simp add: saturating_add_def unat_add_noof)
next
  case False
  moreover have "unat (-1 :: u32) < 2 ^ 32" using unat_bound [of "-1 :: u32"] by simp
  ultimately show ?thesis by (simp add: saturating_add_def)
qed

lemma sys_queue_sel [simp]:
  "lq_priv (ss_vq s) = Some st \<Longrightarrow> vq (sys_queue s) = sh_handle st"
  "last_avail (sys_queue s) = ss_last_avail s" "taken (sys_queue s) = ss_taken s"
  by (simp_all add: sys_queue_def)

lemma sys_queue_upd:
  "sys_queue (s\<lparr>ss_vq := v, ss_added := a\<rparr>) = (sys_queue s)\<lparr>vq := sh_handle (the (lq_priv v))\<rparr>"
  "sys_queue (s\<lparr>ss_vq := v, ss_returned := a\<rparr>) = (sys_queue s)\<lparr>vq := sh_handle (the (lq_priv v))\<rparr>"
  by (simp_all add: sys_queue_def)

lemma tokens_elsewhere:
  assumes "vq_split u fl pub tak dn" "pub @ tak @ dn = us @ r # ws" "length toks = unat (qsize (vq u))"
  shows "\<forall>x \<in> set (us @ ws). toks[unat (hd r) := t] ! unat (hd x) = toks ! unat (hd x)" "toks[unat (hd r) := t] ! unat (hd r) = t"
proof -
  have acc: "vq_accounted (vq u) fl (pub @ tak @ dn)" using assms(1) by (simp add: vq_split_def)
  show "\<forall>x \<in> set (us @ ws). toks[unat (hd r) := t] ! unat (hd x) = toks ! unat (hd x)"
    using heads_distinct [OF acc assms(2)] by (metis nth_list_update_neq unat_cancel)
  show "toks[unat (hd r) := t] ! unat (hd r) = t"
    using head_in_table [OF assms(1), of r] assms(2,3) by simp
qed

lemma push_chain_qsize: "push_chain v parts = Inr (res, v') \<Longrightarrow> qsize v' = qsize v"
  by (auto simp: push_chain_def publish_def Let_def and_then_eq_Inr split: if_splits)

lemma image_mset_tokens:
  assumes "\<forall>x \<in> set rs. toks' ! unat (hd x) = toks ! unat (hd (x :: u16 list))"
  shows "image_mset (\<lambda>r. toks' ! unat (hd r)) (mset rs) = image_mset (\<lambda>r. toks ! unat (hd r)) (mset rs)"
  using assms by (intro image_mset_cong) simp

lemma shim_split_add:
  assumes "shim_split s fl pub tak dn" "data \<noteq> 0" "vq_add (Some (ss_vq s)) (Some sgs) num data f = Inr (rc, Some v)"
  shows "\<exists>fl' pub'. shim_split (s\<lparr>ss_vq := v, ss_added := (if rc = 0 then data # ss_added s else ss_added s)\<rparr>) fl' pub' tak dn"
proof -
  obtain st where st: "lq_priv (ss_vq s) = Some st" "vq_split (sys_queue s) fl pub tak dn"
    "length (sh_tokens st) = unat (qsize (sh_handle st))" "\<forall>r \<in> set (pub @ tak @ dn). sh_tokens st ! unat (hd r) \<noteq> 0"
    "mset (ss_added s) = mset (ss_returned s) + image_mset (\<lambda>r. sh_tokens st ! unat (hd r)) (mset (pub @ tak @ dn))"
    "unat (lq_num_free (ss_vq s)) \<le> unat (num_free (sh_handle st))"
    using assms(1) by (auto simp: shim_split_def)
  show ?thesis
  proof (cases "rc = -1 \<and> v = ss_vq s")
    case True
    then have "s\<lparr>ss_vq := v, ss_added := (if rc = 0 then data # ss_added s else ss_added s)\<rparr> = s" by simp
    then show ?thesis using assms(1) by auto
  next
    case False
    then have g: "num \<noteq> 0" "\<not> num > 8" "unat num \<le> length sgs" using vq_add_guards [OF st(1) assms(3)] by auto
    let ?ps = "sg_parts sgs num f"
    have len: "length ?ps = unat num" using g(3) by (simp add: sg_parts_def)
    obtain res q where push: "push_chain (sh_handle st) ?ps = Inr (res, q)"
      and v: "case res of None \<Rightarrow> rc = -1 \<and> v = (ss_vq s)\<lparr>lq_priv := Some (st\<lparr>sh_handle := q\<rparr>)\<rparr>
        | Some idx \<Rightarrow> rc = 0 \<and> v = (ss_vq s)\<lparr>lq_priv := Some (st\<lparr>sh_handle := q, sh_tokens := (sh_tokens st)[unat idx := data]\<rparr>),
            lq_num_free := saturating_sub (lq_num_free (ss_vq s)) num\<rparr>"
      using assms(3) unfolding vq_add_eq [OF st(1) g]
      by (auto elim!: and_then_pairE split: option.splits if_splits)
    from vq_split_push [OF st(2), of ?ps res q] push st(1)
    consider (full) "res = None" "q = sh_handle st"
      | (pushed) r fl' where "fl = r @ fl'" "length r = unat num" "res = Some (hd r)"
          "vq_split ((sys_queue s)\<lparr>vq := q\<rparr>) fl' (pub @ [r]) tak dn"
      using len by auto
    then show ?thesis
    proof cases
      case full
      then have "v = ss_vq s" "rc = -1" using v st(1) by auto
      with False show ?thesis by simp
    next
      case pushed
      let ?s' = "s\<lparr>ss_vq := v, ss_added := (if rc = 0 then data # ss_added s else ss_added s)\<rparr>"
      let ?tk = "(sh_tokens st)[unat (hd r) := data]"
      have v': "rc = 0" "lq_priv v = Some (st\<lparr>sh_handle := q, sh_tokens := ?tk\<rparr>)"
        "lq_num_free v = saturating_sub (lq_num_free (ss_vq s)) num"
        using v pushed(3) by simp_all
      have sq: "sys_queue ?s' = (sys_queue s)\<lparr>vq := q\<rparr>" using v'(2) unfolding sys_queue_upd by simp
      have qs: "qsize q = qsize (sh_handle st)" "unat (num_free q) + unat num = unat (num_free (sh_handle st))"
        using push_chain_qsize [OF push] pushed(1,2,4) st(1,2) by (auto simp: vq_split_def accounted_def)
      have tk: "\<forall>x \<in> set (pub @ tak @ dn). ?tk ! unat (hd x) = sh_tokens st ! unat (hd x)" "?tk ! unat (hd r) = data"
        using tokens_elsewhere [OF pushed(4), of pub r "tak @ dn" "sh_tokens st" data] st(3) qs(1) by auto
      have "mset (data # ss_added s) = mset (ss_returned s) + image_mset (\<lambda>r. ?tk ! unat (hd r)) (mset ((pub @ [r]) @ tak @ dn))"
        using st(5) image_mset_tokens [OF tk(1)] tk(2) by simp
      moreover have "\<forall>x \<in> set ((pub @ [r]) @ tak @ dn). ?tk ! unat (hd x) \<noteq> 0" using tk st(4) assms(2) by auto
      moreover have "unat (lq_num_free v) \<le> unat (num_free q)"
        using st(6) qs(2) v'(3) by (simp add: saturating_sub_unat)
      ultimately have "shim_split ?s' fl' (pub @ [r]) tak dn"
        unfolding shim_split_def sq using v' pushed(4) st(3) qs(1)
        by (intro exI [of _ "st\<lparr>sh_handle := q, sh_tokens := ?tk\<rparr>"]) (simp del: append_assoc)
      then show ?thesis by blast
    qed
  qed
qed

lemma pop_used_qsize: "pop_used v = Some (Inr (res, v')) \<Longrightarrow> qsize v' = qsize v"
  by (auto simp: pop_used_def Let_def and_then_eq_Inr split: if_splits)

text \<open>What get\_buf returns in a state of the invariant: the token of the oldest completion.\<close>

lemma get_buf_eq:
  assumes "shim_split s fl pub tak dn"
  shows "case dn of
      [] \<Rightarrow> virtqueue_get_buf (Some (ss_vq s)) = returns (0, None, Some (ss_vq s))
    | r # dn' \<Rightarrow> \<exists>st token n v. lq_priv (ss_vq s) = Some st \<and>
        virtqueue_get_buf (Some (ss_vq s)) = returns (token, Some n, Some v) \<and> token = sh_tokens st ! unat (hd r) \<and> token \<noteq> 0 \<and>
        shim_split (s\<lparr>ss_vq := v, ss_returned := token # ss_returned s\<rparr>) (rev r @ fl) pub tak dn'"
proof -
  obtain st where st: "lq_priv (ss_vq s) = Some st" "vq_split (sys_queue s) fl pub tak dn"
    "length (sh_tokens st) = unat (qsize (sh_handle st))" "\<forall>r \<in> set (pub @ tak @ dn). sh_tokens st ! unat (hd r) \<noteq> 0"
    "mset (ss_added s) = mset (ss_returned s) + image_mset (\<lambda>r. sh_tokens st ! unat (hd r)) (mset (pub @ tak @ dn))"
    "unat (lq_num_free (ss_vq s)) \<le> unat (num_free (sh_handle st))"
    using assms by (auto simp: shim_split_def)
  have same: "(ss_vq s)\<lparr>lq_priv := Some (st\<lparr>sh_handle := sh_handle st\<rparr>)\<rparr> = ss_vq s" using st(1) by simp
  show ?thesis
  proof (cases dn)
    case Nil
    then have "pop_used (sh_handle st) = Some (Inr (None, sh_handle st))" using vq_split_pop [OF st(2)] st(1) by simp
    then show ?thesis using Nil st(1) same by (simp add: virtqueue_get_buf_def linuxkpi_virtqueue_pop_used_def)
  next
    case (Cons r dn')
    obtain e q where q: "pop_used (sh_handle st) = Some (Inr (Some e, q))" "used_id e = ucast (hd r)"
      "unat (num_free q) = unat (num_free (sh_handle st)) + length r"
      "vq_split ((sys_queue s)\<lparr>vq := q\<rparr>) (rev r @ fl) pub tak dn'"
      using vq_split_pop [OF st(2)] st(1) Cons by auto
    have hd: "unat (ucast (hd r) :: u32) = unat (hd r)" using head_index(2) by simp
    have r: "unat (hd r) < length (sh_tokens st)"
      using head_in_table [OF st(2), of r] Cons st(1,3) by simp
    let ?tk = "(sh_tokens st)[unat (hd r) := 0]" and ?t = "sh_tokens st ! unat (hd r)"
    define v where "v = (ss_vq s)\<lparr>lq_priv := Some (st\<lparr>sh_handle := q, sh_tokens := ?tk\<rparr>),
      lq_num_free := saturating_add (lq_num_free (ss_vq s)) 1\<rparr>"
    have get: "virtqueue_get_buf (Some (ss_vq s)) = returns (?t, Some (used_len e), Some v)"
      using st(1) q(1,2) r hd by (simp add: virtqueue_get_buf_def linuxkpi_virtqueue_pop_used_def v_def)
    have sq: "sys_queue (s\<lparr>ss_vq := v, ss_returned := ?t # ss_returned s\<rparr>) = (sys_queue s)\<lparr>vq := q\<rparr>"
      unfolding sys_queue_upd v_def by simp
    have tk: "\<forall>x \<in> set (pub @ tak @ dn'). ?tk ! unat (hd x) = sh_tokens st ! unat (hd x)"
      using tokens_elsewhere(1) [OF st(2), of "pub @ tak" r dn' "sh_tokens st" 0] st(1,3) Cons by simp
    have "mset (ss_added s) = mset (?t # ss_returned s) + image_mset (\<lambda>r. ?tk ! unat (hd r)) (mset (pub @ tak @ dn'))"
      using st(5) image_mset_tokens [OF tk] Cons by simp
    moreover have "r \<noteq> []" using st(2) Cons by (auto simp: vq_split_def accounted_def dest: request_nonempty)
    then have "unat (lq_num_free v) \<le> unat (num_free q)"
      using st(6) q(3) saturating_add_unat [of "lq_num_free (ss_vq s)" 1] by (cases r) (auto simp: v_def)
    moreover have "\<forall>x \<in> set (pub @ tak @ dn'). ?tk ! unat (hd x) \<noteq> 0" using tk st(4) Cons by auto
    ultimately have "shim_split (s\<lparr>ss_vq := v, ss_returned := ?t # ss_returned s\<rparr>) (rev r @ fl) pub tak dn'"
      unfolding shim_split_def sq using q(4) st(3) pop_used_qsize [OF q(1)]
      by (intro exI [of _ "st\<lparr>sh_handle := q, sh_tokens := ?tk\<rparr>"]) (simp add: v_def)
    moreover have "?t \<noteq> 0" using st(4) Cons by simp
    ultimately show ?thesis using st(1) get Cons by auto
  qed
qed

lemma shim_step_inv:
  assumes "shim_inv s" "shim_step s t"
  shows "shim_inv t"
proof -
  obtain fl pub tak dn where sp: "shim_split s fl pub tak dn" using assms(1) by (auto simp: shim_inv_def)
  then obtain st where st: "lq_priv (ss_vq s) = Some st" "vq_split (sys_queue s) fl pub tak dn"
    by (auto simp: shim_split_def)
  show ?thesis
    using assms(2)
  proof cases
    case (add_buf data sgs num fl rc v)
    then show ?thesis using shim_split_add [OF sp] unfolding shim_inv_def by blast
  next
    case (get_buf token n v)
    show ?thesis
    proof (cases dn)
      case Nil
      then show ?thesis using get_buf get_buf_eq [OF sp] sp by (auto simp: shim_inv_def)
    next
      case (Cons r dn')
      then show ?thesis using get_buf get_buf_eq [OF sp] by (auto simp: shim_inv_def)
    qed
  next
    case (fetch q)
    obtain r pub' where r: "pub = r # pub'" "vq_split (sys_queue t) fl pub' (r # tak) dn"
      using vq_split_fetch [OF st(2)] fetch st(1) by (auto simp: sys_queue_def)
    have "shim_split t fl pub' (r # tak) dn"
      using sp r fetch(1) by (auto simp: shim_split_def)
    then show ?thesis by (auto simp: shim_inv_def)
  next
    case (complete xs h ys n)
    have sq: "sys_queue t = (sys_queue s)\<lparr>taken := xs @ ys, vq := used_push (vq (sys_queue s)) h n\<rparr>"
      using complete(1) st(1) by (simp add: sys_queue_def with_queue_def)
    obtain a r b where r: "tak = a @ r # b" "vq_split (sys_queue t) fl pub (a @ b) (dn @ [r])"
      using vq_split_complete [OF st(2), of xs h ys n] complete(2) unfolding sq by auto
    have "shim_split t fl pub (a @ b) (dn @ [r])"
      using sp r complete(1) st(1) by (auto simp: shim_split_def with_queue_def used_push_def)
    then show ?thesis by (auto simp: shim_inv_def)
  qed
qed

text \<open>A queue as virtio\_find\_vqs hands it out, and nothing exchanged yet.\<close>

definition shim_fresh :: "shim_sys \<Rightarrow> bool" where
  "shim_fresh s \<longleftrightarrow> ss_last_avail s = 0 \<and> ss_taken s = [] \<and> ss_added s = [] \<and> ss_returned s = [] \<and>
     (\<exists>D pf vdev cc nb moff infos fa m rc vqs fa' m'.
        find_vqs_from D pf vdev cc nb moff 0 infos [] fa (m :: unit virtio_m) = Inr (rc, vqs, fa', m') \<and> Some (ss_vq s) \<in> set vqs)"

lemma find_vqs_fresh:
  assumes "find_vqs_from D pf vdev cc nb moff i infos vqs\<^sub>0 fa m = Inr (rc, vqs, fa', m')" "Some v \<in> set vqs"
  shows "Some v \<in> set vqs\<^sub>0 \<or> (\<exists>st fa\<^sub>1 fa\<^sub>2. lq_priv v = Some st \<and> virtq_new pf fa\<^sub>1 (sh_size st) = Inr (sh_handle st, fa\<^sub>2) \<and>
    sh_tokens st = replicate (unat (sh_size st)) 0 \<and> lq_num_free v = ucast (sh_size st) \<and>
    is_power_of_two (sh_size st) \<and> sh_size st \<le> 128)"
  using assms
proof (induction infos arbitrary: i vqs\<^sub>0 fa m)
  case (Cons info infos)
  show ?case
  proof (cases "vqi_name info = 0")
    case True
    then show ?thesis using Cons.IH [of "Suc i" "vqs\<^sub>0 @ [None]"] Cons.prems by auto
  next
    case False
    obtain mx m\<^sub>1 where mx: "linuxkpi_virtio_read_queue_size D cc (of_nat i) m = (mx, m\<^sub>1)" by force
    show ?thesis
    proof (cases "pow2_at_most mx = 0")
      case True
      then show ?thesis using Cons.prems False mx by auto
    next
      case sz: False
      then have mx0: "mx \<noteq> 0" by (auto simp: pow2_at_most_def)
      let ?sz = "pow2_at_most mx"
      obtain q fa\<^sub>1 np m\<^sub>2 where q: "virtq_new pf fa ?sz = Inr (q, fa\<^sub>1)"
        and rest: "find_vqs_from D pf vdev cc nb moff (Suc i) infos (vqs\<^sub>0 @ [Some \<lparr>lq_vdev = vdev, lq_num_free = ucast ?sz,
          lq_priv = Some \<lparr>sh_handle = q, sh_tokens = replicate (unat ?sz) 0, sh_notify_ptr = np, sh_queue_idx = of_nat i, sh_size = ?sz\<rparr>\<rparr>])
          fa\<^sub>1 m\<^sub>2 = Inr (rc, vqs, fa', m')"
        using Cons.prems(1) False mx sz
        by (auto simp: linuxkpi_virtqueue_new_def Let_def elim!: and_then_pairE)
      from Cons.IH [OF rest Cons.prems(2)] show ?thesis
        using q pow2_at_most_spec(4,6) [OF mx0] by auto
    qed
  qed
qed simp

lemma shim_fresh_inv: "shim_fresh s \<Longrightarrow> shim_inv s"
proof -
  assume f: "shim_fresh s"
  then obtain st pf fa\<^sub>1 fa\<^sub>2 where st: "lq_priv (ss_vq s) = Some st" "virtq_new pf fa\<^sub>1 (sh_size st) = Inr (sh_handle st, fa\<^sub>2)"
    "sh_tokens st = replicate (unat (sh_size st)) 0" "lq_num_free (ss_vq s) = ucast (sh_size st)"
    unfolding shim_fresh_def using find_vqs_fresh [where ?vqs\<^sub>0 = "[]"] by fastforce
  have "vq_split (sys_queue s) (map of_nat [0..<unat (sh_size st)]) [] [] []"
    using f st(1) by (intro virtq_new_split [OF st(2)]) (auto simp: shim_fresh_def)
  moreover have "unat (ucast (sh_size st) :: u32) = unat (sh_size st)" using head_index(2) by simp
  ultimately show ?thesis
    using f st virtq_new_sizes_eq [OF st(2)] unfolding shim_inv_def shim_split_def shim_fresh_def
    by (intro exI [of _ "map of_nat [0..<unat (sh_size st)]"] exI [of _ "[]"] exI [of _ st]) simp
qed

interpretation shim: invariant_system shim_fresh shim_step shim_inv
  by unfold_locales (rule shim_fresh_inv, assumption, rule shim_step_inv)


text \<open>A device with queues of two entries, and one request through it.\<close>

definition two_entry_hw :: "unit virtio_hw" where
  "two_entry_hw = \<lparr>vh_read = (\<lambda>a d. (if a = 0x1018 then 2 else 0, d)), vh_write = (\<lambda>a v d. d),
     vh_run = (\<lambda>q d. (q, d)), vh_byte = (\<lambda>a d. 0)\<rparr>"

definition demo_find :: "(c_int \<times> lk_virtqueue option list \<times> frame_allocator \<times> unit virtio_m) outcome" where
  "demo_find = find_vqs_from two_entry_hw Inr 0 0x1000 0x3000 4 0 [\<lparr>vqi_name = 0x9000, vqi_callback = 0, vqi_ctx = False\<rparr>] []
     \<lparr>free = [0x5000], total_added_ctr = 1\<rparr> \<lparr>vm_dev = (), vm_log = []\<rparr>"

definition demo_lq :: lk_virtqueue where
  "demo_lq = (case demo_find of Inr (rc, lq # lqs, r) \<Rightarrow> the lq | _ \<Rightarrow> \<lparr>lq_vdev = 0, lq_num_free = 0, lq_priv = None\<rparr>)"

definition demo_shim :: shim_sys where
  "demo_shim = \<lparr>ss_vq = demo_lq, ss_last_avail = 0, ss_taken = [], ss_added = [], ss_returned = []\<rparr>"

lemma demo_shim_fresh: "shim_fresh demo_shim"
proof -
  have "\<not> isl demo_find" by code_simp
  then obtain rc vqs fa' m' where f\<^sub>0: "demo_find = Inr (rc, vqs, fa', m')" by (metis isl_def prod_cases4 sum.exhaust)
  have "length (fst (snd (projr demo_find))) = 1 \<and> hd (fst (snd (projr demo_find))) \<noteq> None" by code_simp
  then have "length vqs = 1 \<and> hd vqs \<noteq> None" unfolding f\<^sub>0 by simp
  then obtain lq where f: "demo_find = Inr (rc, [Some lq], fa', m')" using f\<^sub>0 by (cases vqs) auto
  have "demo_lq = lq" unfolding demo_lq_def f by simp
  with f show ?thesis unfolding shim_fresh_def demo_shim_def demo_find_def by fastforce
qed

definition demo_sg :: "scatterlist list" where
  "demo_sg = [\<lparr>sg_page_link = 0, sg_offset = 0, sg_length = 64, sg_dma_address = 0x8000, sg_dma_length = 64\<rparr>]"

definition demo_added :: "(c_int \<times> lk_virtqueue option) outcome" where
  "demo_added = vq_add (Some demo_lq) (Some demo_sg) 1 0x77 0"

end
