(* ===== verification/LkVirtio.thy ===== *)
theory LkVirtio
  imports LkVq LkPci
begin

unbundle bit_operations_syntax

text \<open>
  The virtio bus of the LinuxKPI shim, linuxkpi/src/virtio.rs: registration of a driver, the
  translation of PCI identifiers, feature negotiation, the configuration-change interrupt, and the
  calls by which a driver reaches its device. The device is a parameter of type \<^typ>\<open>'d virtio_hw\<close>;
  the driver's callbacks are parameters that act on the whole state, since the device structure
  they are given is shared with the interrupt handler. A leaked box is named by its position in
  the list of its kind.
\<close>

section \<open>State\<close>

definition VIRTIO_DEV_ANY_ID :: u32 where "VIRTIO_DEV_ANY_ID = 0xFFFFFFFF"

record virtio_device_id =
  vid_device :: u32
  vid_vendor :: u32

record lk_virtio_device =
  lv_id_device :: u32
  lv_id_vendor :: u32
  lv_priv_data :: u64
  lv_bus :: u8
  lv_pci_dev :: u8
  lv_func :: u8
  lv_common_cfg :: u64
  lv_notify_base :: u64
  lv_notify_off_multiplier :: u32
  lv_isr :: u64
  lv_device_cfg :: u64
  lv_config_set :: bool \<comment> \<open>the table of configuration operations is installed\<close>
  lv_features :: u64

text \<open>The contexts leaked by setup\_config\_changed\_msix are pairs of driver and device.\<close>

record ('h, 'd) lkv = "'h lk" +
  lkv_m :: "'d virtio_m"
  lkv_fa :: frame_allocator
  lkv_vdevs :: "lk_virtio_device list"
  lkv_ctxs :: "(u64 \<times> nat) list"
  lkv_registry :: "u64 list"
  lkv_log :: "string list"

record 's virtio_driver =
  vdr_id_table :: "virtio_device_id list option"
  vdr_feature_table :: "u32 list option"
  vdr_feature_table_size :: u32
  vdr_validate :: "(nat \<Rightarrow> 's \<Rightarrow> (c_int \<times> 's) outcome) option"
  vdr_probe :: "(nat \<Rightarrow> 's \<Rightarrow> (c_int \<times> 's) outcome) option"
  vdr_config_changed :: "(nat \<Rightarrow> 's \<Rightarrow> 's outcome) option"

section \<open>The bridge\<close>

definition linuxkpi_virtio_init_transport ::
    "'d virtio_hw \<Rightarrow> u64 \<Rightarrow> u64 \<Rightarrow> 'd virtio_m \<Rightarrow> (u64 \<times> 'd virtio_m) outcome" where
  "linuxkpi_virtio_init_transport D cc driver_feats m =
     (let m = cc_write8 D cc CC_DEVICE_STATUS 0 m;
          m = reset_wait D cc 16 m;
          m = cc_write8 D cc CC_DEVICE_STATUS STATUS_ACKNOWLEDGE m;
          m = cc_write8 D cc CC_DEVICE_STATUS (STATUS_ACKNOWLEDGE OR STATUS_DRIVER) m;
          m = cc_write32 D cc CC_DEVICE_FEATURE_SELECT 0 m;
          (dev_lo, m) = cc_read32 D cc CC_DEVICE_FEATURE m;
          m = cc_write32 D cc CC_DEVICE_FEATURE_SELECT 1 m;
          (dev_hi, m) = cc_read32 D cc CC_DEVICE_FEATURE m;
          device_features = push_bit 32 (ucast dev_hi) OR ucast dev_lo;
          negotiated = driver_feats AND device_features;
          drv_lo = ucast (negotiated AND 0xFFFFFFFF) :: u32;
          drv_hi = ucast (drop_bit 32 negotiated) :: u32;
          m = cc_write32 D cc CC_DRIVER_FEATURE_SELECT 0 m;
          m = cc_write32 D cc CC_DRIVER_FEATURE drv_lo m;
          m = cc_write32 D cc CC_DRIVER_FEATURE_SELECT 1 m;
          m = cc_write32 D cc CC_DRIVER_FEATURE drv_hi m;
          m = cc_write8 D cc CC_DEVICE_STATUS (STATUS_ACKNOWLEDGE OR STATUS_DRIVER OR STATUS_FEATURES_OK) m;
          (after, m) = cc_read8 D cc CC_DEVICE_STATUS m
      in and_then (rust_assert (after AND STATUS_FEATURES_OK = STATUS_FEATURES_OK)) (\<lambda>_. Inr (negotiated, m)))"

definition CC_MSIX_CONFIG :: usize where "CC_MSIX_CONFIG = 0x10"

definition linuxkpi_virtio_set_msix_config_vector :: "'d virtio_hw \<Rightarrow> u64 \<Rightarrow> u16 \<Rightarrow> 'd virtio_m \<Rightarrow> u16 \<times> 'd virtio_m" where
  "linuxkpi_virtio_set_msix_config_vector D cc v m = cc_read16 D cc CC_MSIX_CONFIG (cc_write16 D cc CC_MSIX_CONFIG v m)"

definition linuxkpi_virtio_reset_device :: "'d virtio_hw \<Rightarrow> u64 \<Rightarrow> 'd virtio_m \<Rightarrow> 'd virtio_m" where
  "linuxkpi_virtio_reset_device D cc m = reset_wait D cc 16 (cc_write8 D cc CC_DEVICE_STATUS 0 m)"

text \<open>The resolution may not return, as the capability walk may not.\<close>

definition linuxkpi_virtio_resolve ::
    "u64 \<Rightarrow> u8 \<Rightarrow> u8 \<Rightarrow> u8 \<Rightarrow> u16 \<Rightarrow> ('h, 'x) lk_scheme \<Rightarrow> virtio_device option run" where
  "linuxkpi_virtio_resolve hhdm b d f want s = map_option Inr (try_resolve (lk_cfg s) hhdm b d f want)"

section \<open>Matching\<close>

definition feature_bit :: "u32 \<Rightarrow> u64 \<Rightarrow> u64" where
  "feature_bit fbit acc = (if fbit < 64 then acc OR push_bit (unat fbit) 1 else acc)"

definition driver_features :: "'s virtio_driver \<Rightarrow> u64 outcome" where
  "driver_features drv =
     (case vdr_feature_table drv of
        None \<Rightarrow> Inr (push_bit 32 1)
      | Some tbl \<Rightarrow>
          if length tbl < unat (vdr_feature_table_size drv) then Inl Undefined
          else Inr (fold feature_bit (take (unat (vdr_feature_table_size drv)) tbl) (push_bit 32 1)))"

definition pci_to_virtio_id :: "u8 \<Rightarrow> u8 \<Rightarrow> u8 \<Rightarrow> u16 \<Rightarrow> ('h, 'x) lk_scheme \<Rightarrow> u32" where
  "pci_to_virtio_id b d f pci_device_id s =
     (if 0x1000 \<le> pci_device_id \<and> pci_device_id \<le> 0x103F
      then drop_bit 16 (linuxkpi_pci_config_read32 b d f 0x2C s) AND 0xFFFF
      else if 0x1040 \<le> pci_device_id \<and> pci_device_id \<le> 0x107F then ucast (pci_device_id - 0x1040)
      else 0)"

definition virtio_sentinel :: "virtio_device_id \<Rightarrow> bool" where
  "virtio_sentinel e \<longleftrightarrow> vid_device e = 0 \<and> vid_vendor e = 0"

definition virtio_entry_matches :: "u32 \<Rightarrow> virtio_device_id \<Rightarrow> bool" where
  "virtio_entry_matches virtio_id e \<longleftrightarrow> vid_device e = VIRTIO_DEV_ANY_ID \<or> vid_device e = virtio_id"

definition match_id_table :: "virtio_device_id list option \<Rightarrow> u32 \<Rightarrow> bool outcome" where
  "match_id_table id_table virtio_id =
     (case id_table of
        None \<Rightarrow> Inr False
      | Some es \<Rightarrow> and_then (table_search virtio_sentinel (virtio_entry_matches virtio_id) 256 0 es) (\<lambda>r. Inr (r \<noteq> None)))"

section \<open>The configuration-change interrupt\<close>

datatype lk_handler = Config_changed

definition setup_config_changed_msix ::
    "'d virtio_hw \<Rightarrow> config_hw \<Rightarrow> u64 \<Rightarrow> u8 \<Rightarrow> u8 \<Rightarrow> u8 \<Rightarrow> u64 \<Rightarrow> u64 \<Rightarrow> nat \<Rightarrow> (lk_handler, 'd) lkv \<Rightarrow>
     (bool \<times> (lk_handler, 'd) lkv) outcome" where
  "setup_config_changed_msix D W hhdm b d f common_cfg driver vdev s =
     (let info = linuxkpi_pci_msix_info b d f msix_info_zero s
      in if mi_present info = 0 \<or> mi_table_size info = 0 then Inr (False, s)
         else let (slot, pool) = alloc_slots 1 (lk_irq s); s = s\<lparr>lk_irq := pool\<rparr>
              in case slot of
                   None \<Rightarrow> Inr (False, s)
                 | Some slot \<Rightarrow> and_then (slot_idt_vector (unat slot) (lk_irq s)) (\<lambda>idt_vec.
                     let table_phys_base = linuxkpi_pci_bar_address b d f (ucast (mi_table_bar info)) s
                     in if table_phys_base = 0 then Inr (False, s)
                        else let table_phys = table_phys_base + ucast (mi_table_offset info);
                                 s = linuxkpi_paging_map_mmio table_phys 16 s;
                                 s = program_entry (table_phys + hhdm) 0 idt_vec s;
                                 cap = ucast (mi_cap_offset info);
                                 cur = linuxkpi_pci_config_read32 b d f cap s;
                                 s = linuxkpi_pci_config_write32 W b d f cap ((cur OR push_bit 31 1) AND NOT (push_bit 30 1)) s;
                                 (echoed, m) = linuxkpi_virtio_set_msix_config_vector D common_cfg 0 (lkv_m s);
                                 s = s\<lparr>lkv_m := m\<rparr>
                             in if echoed \<noteq> 0 then Inr (False, s)
                                else let s = s\<lparr>lkv_ctxs := lkv_ctxs s @ [(driver, vdev)]\<rparr>;
                                         ctx_raw = of_nat (length (lkv_ctxs s));
                                         (rc, pool) = request_irq (ucast slot) Config_changed ctx_raw (lk_irq s)
                                     in Inr (rc = 0, s\<lparr>lk_irq := pool\<rparr>)))"

text \<open>A context pointer is one more than the position of the context, so that it is not null.\<close>

definition config_changed_irq_dispatch ::
    "(u64 \<Rightarrow> (lk_handler, 'd) lkv virtio_driver) \<Rightarrow> u32 \<Rightarrow> u64 \<Rightarrow> (lk_handler, 'd) lkv \<Rightarrow> (lk_handler, 'd) lkv outcome" where
  "config_changed_irq_dispatch drivers irq dev_id s =
     (if dev_id = 0 then Inr s
      else if unat dev_id > length (lkv_ctxs s) then Inl Undefined
      else let (driver, vdev) = lkv_ctxs s ! (unat dev_id - 1)
           in case vdr_config_changed (drivers driver) of None \<Rightarrow> Inr s | Some cb \<Rightarrow> cb vdev s)"

section \<open>Registration\<close>

text \<open>What registration does with the device after negotiation: interrupt, validate, probe.\<close>

definition wire_config_changed ::
    "'d virtio_hw \<Rightarrow> config_hw \<Rightarrow> u64 \<Rightarrow> u64 \<Rightarrow> (lk_handler, 'd) lkv virtio_driver \<Rightarrow> u8 \<Rightarrow> u8 \<Rightarrow> u8 \<Rightarrow> u64 \<Rightarrow> nat \<Rightarrow>
     (lk_handler, 'd) lkv \<Rightarrow> (lk_handler, 'd) lkv outcome" where
  "wire_config_changed D W hhdm drv_ptr drv b d f common_cfg vdev_ptr s =
     (if vdr_config_changed drv = None then Inr s
      else and_then (setup_config_changed_msix D W hhdm b d f common_cfg drv_ptr vdev_ptr s) (\<lambda>(ok, s).
        Inr (if ok then s else s\<lparr>lkv_log := lkv_log s @ [''virtio: config-changed MSI-X setup FAILED'' @ [CHR 0x0A]]\<rparr>)))"

definition validate_and_probe ::
    "'d virtio_hw \<Rightarrow> (lk_handler, 'd) lkv virtio_driver \<Rightarrow> (nat \<Rightarrow> (lk_handler, 'd) lkv \<Rightarrow> (c_int \<times> (lk_handler, 'd) lkv) outcome) \<Rightarrow>
     u64 \<Rightarrow> nat \<Rightarrow> (lk_handler, 'd) lkv \<Rightarrow> (lk_handler, 'd) lkv outcome" where
  "validate_and_probe D drv probe_fn common_cfg vdev_ptr s =
     and_then (case vdr_validate drv of
                 None \<Rightarrow> Inr (0, s)
               | Some validate_fn \<Rightarrow> validate_fn vdev_ptr s) (\<lambda>(rc, s).
     if rc \<noteq> 0 then Inr (s\<lparr>lkv_m := linuxkpi_virtio_reset_device D common_cfg (lkv_m s)\<rparr>)
     else and_then (probe_fn vdev_ptr s) (\<lambda>(rc, s).
       if sint rc < 0 then Inr (s\<lparr>lkv_m := linuxkpi_virtio_reset_device D common_cfg (lkv_m s)\<rparr>)
       else Inr s))"

text \<open>The body of the loop for one function that carries the virtio vendor.\<close>

definition attach_device ::
    "'d virtio_hw \<Rightarrow> config_hw \<Rightarrow> u64 \<Rightarrow> u64 \<Rightarrow> (lk_handler, 'd) lkv virtio_driver \<Rightarrow> u64 \<Rightarrow> u8 \<Rightarrow> u8 \<Rightarrow> u8 \<Rightarrow> u16 \<Rightarrow>
     (lk_handler, 'd) lkv \<Rightarrow> (lk_handler, 'd) lkv run" where
  "attach_device D W hhdm drv_ptr drv feats b d f pci_device_id s =
     (let virtio_id = pci_to_virtio_id b d f pci_device_id s
      in run_then (Some (match_id_table (vdr_id_table drv) virtio_id)) (\<lambda>matched.
         if \<not> matched then returns s
         else case vdr_probe drv of
            None \<Rightarrow> returns s
          | Some probe_fn \<Rightarrow>
              run_then (linuxkpi_virtio_resolve hhdm b d f pci_device_id s) (\<lambda>raw.
              case raw of
                None \<Rightarrow> returns s
              | Some v \<Rightarrow>
                  let cmd = linuxkpi_pci_config_read32 b d f 0x04 s;
                      s = linuxkpi_pci_config_write32 W b d f 0x04 (cmd OR push_bit 2 1) s;
                      common_cfg = vd_common_cfg v
                  in Some (and_then (linuxkpi_virtio_init_transport D common_cfg feats (lkv_m s)) (\<lambda>(negotiated, m).
                     let s = s\<lparr>lkv_m := m\<rparr>;
                         vdev = \<lparr>lv_id_device = virtio_id, lv_id_vendor = ucast VIRTIO_VENDOR, lv_priv_data = 0, lv_bus = b,
                                 lv_pci_dev = d, lv_func = f, lv_common_cfg = common_cfg, lv_notify_base = vd_notify_base v,
                                 lv_notify_off_multiplier = vd_notify_off_multiplier v, lv_isr = vd_isr v,
                                 lv_device_cfg = vd_device_cfg v, lv_config_set = True, lv_features = negotiated\<rparr>;
                         vdev_ptr = length (lkv_vdevs s);
                         s = s\<lparr>lkv_vdevs := lkv_vdevs s @ [vdev]\<rparr>
                     in and_then (wire_config_changed D W hhdm drv_ptr drv b d f common_cfg vdev_ptr s) (\<lambda>s.
                        validate_and_probe D drv probe_fn common_cfg vdev_ptr s))))))"

fun fold_run :: "('a \<Rightarrow> 's \<Rightarrow> 's run) \<Rightarrow> 'a list \<Rightarrow> 's \<Rightarrow> 's run" where
  "fold_run k [] s = returns s"
| "fold_run k (x # xs) s = run_then (k x s) (fold_run k xs)"

definition visit_virtio :: "(u8 \<Rightarrow> u8 \<Rightarrow> u8 \<Rightarrow> u16 \<Rightarrow> 's \<Rightarrow> 's run) \<Rightarrow> u8 \<Rightarrow> u8 \<Rightarrow> u8 \<Rightarrow> u32 \<Rightarrow> 's \<Rightarrow> 's run" where
  "visit_virtio k b d f id_dword s =
     (if (ucast (id_dword AND 0xFFFF) :: u16) \<noteq> VIRTIO_VENDOR then returns s
      else k b d f (ucast (drop_bit 16 id_dword AND 0xFFFF)) s)"

definition walk_virtio_device ::
    "('s \<Rightarrow> config_space) \<Rightarrow> (u8 \<Rightarrow> u8 \<Rightarrow> u8 \<Rightarrow> u16 \<Rightarrow> 's \<Rightarrow> 's run) \<Rightarrow> u8 \<Rightarrow> u8 \<Rightarrow> 's \<Rightarrow> 's run" where
  "walk_virtio_device cf k b d s =
     (let ident = config_read32 (cf s) b d 0 0x00
      in if (ucast (ident AND 0xFFFF) :: u16) = 0xFFFF then returns s
         else run_then (visit_virtio k b d 0 ident s) (\<lambda>s.
           let header_type = ucast (drop_bit 16 (config_read32 (cf s) b d 0 0x0C) AND 0xFF) :: u8
           in if header_type AND 0x80 \<noteq> 0
              then fold_run (\<lambda>f s. let ident = config_read32 (cf s) b d f 0x00
                     in if (ucast (ident AND 0xFFFF) :: u16) = 0xFFFF then returns s else visit_virtio k b d f ident s)
                     [1, 2, 3, 4, 5, 6, 7] s
              else returns s))"

definition walk_virtio_devices ::
    "('s \<Rightarrow> config_space) \<Rightarrow> (u8 \<Rightarrow> u8 \<Rightarrow> u8 \<Rightarrow> u16 \<Rightarrow> 's \<Rightarrow> 's run) \<Rightarrow> 's \<Rightarrow> 's run" where
  "walk_virtio_devices cf k s =
     fold_run (\<lambda>b. fold_run (walk_virtio_device cf k b) (map of_nat [0..<32])) (map of_nat [0..<256]) s"

definition count_virtio_present :: "config_space \<Rightarrow> nat run" where
  "count_virtio_present cfg = walk_virtio_devices (\<lambda>n. cfg) (\<lambda>b d f i n. returns (n + 1)) 0"

definition register_virtio_driver ::
    "'d virtio_hw \<Rightarrow> config_hw \<Rightarrow> u64 \<Rightarrow> u64 \<Rightarrow> (lk_handler, 'd) lkv virtio_driver \<Rightarrow> (lk_handler, 'd) lkv \<Rightarrow>
     (c_int \<times> (lk_handler, 'd) lkv) run" where
  "register_virtio_driver D W hhdm drv_ptr drv s =
     (if drv_ptr = 0 then returns (-1, s)
      else run_then (Some (driver_features drv)) (\<lambda>feats.
           run_then (walk_virtio_devices lk_cfg (attach_device D W hhdm drv_ptr drv feats) s) (\<lambda>s.
           returns (0, s\<lparr>lkv_registry := lkv_registry s @ [drv_ptr]\<rparr>))))"

definition unregister_virtio_driver :: "u64 \<Rightarrow> ('h, 'd) lkv \<Rightarrow> ('h, 'd) lkv" where
  "unregister_virtio_driver p s =
     (if p = 0 then s else s\<lparr>lkv_registry := filter (\<lambda>q. q \<noteq> p) (lkv_registry s)\<rparr>)"

section \<open>Calls of a driver on its device\<close>

definition virtio_find_vqs ::
    "'d virtio_hw \<Rightarrow> phys_frame_ctor \<Rightarrow> nat option \<Rightarrow> u32 \<Rightarrow> virtqueue_info_c list option \<Rightarrow> bool \<Rightarrow> ('h, 'd) lkv \<Rightarrow>
     (c_int \<times> lk_virtqueue option list \<times> ('h, 'd) lkv) outcome" where
  "virtio_find_vqs D pf vdev nvqs vqs_info vqs_null s =
     (case (vdev, vqs_info) of
        (Some p, Some infos) \<Rightarrow>
          if vqs_null \<or> nvqs = 0 then Inr (-1, [], s)
          else if length (lkv_vdevs s) \<le> p \<or> length infos < unat nvqs then Inl Undefined
          else let v = lkv_vdevs s ! p
               in and_then (find_vqs_from D pf p (lv_common_cfg v) (lv_notify_base v) (lv_notify_off_multiplier v) 0
                     (take (unat nvqs) infos) [] (lkv_fa s) (lkv_m s)) (\<lambda>(rc, vqs, fa, m).
                   Inr (rc, vqs, s\<lparr>lkv_fa := fa, lkv_m := m\<rparr>))
      | _ \<Rightarrow> Inr (-1, [], s))"

definition virtio_clear_bit :: "lk_virtio_device option \<Rightarrow> u32 \<Rightarrow> lk_virtio_device option" where
  "virtio_clear_bit vdev fbit =
     map_option (\<lambda>v. if fbit \<ge> 64 then v else v\<lparr>lv_features := lv_features v AND NOT (push_bit (unat fbit) 1)\<rparr>) vdev"

definition virtio_has_feature :: "lk_virtio_device option \<Rightarrow> u32 \<Rightarrow> bool" where
  "virtio_has_feature vdev fbit =
     (case vdev of None \<Rightarrow> False | Some v \<Rightarrow> if fbit \<ge> 64 then False else lv_features v AND push_bit (unat fbit) 1 \<noteq> 0)"

definition virtio_device_ready :: "'d virtio_hw \<Rightarrow> lk_virtio_device option \<Rightarrow> 'd virtio_m \<Rightarrow> 'd virtio_m" where
  "virtio_device_ready D vdev m = (case vdev of None \<Rightarrow> m | Some v \<Rightarrow> linuxkpi_virtio_set_driver_ok D (lv_common_cfg v) m)"

definition virtio_reset_device :: "'d virtio_hw \<Rightarrow> lk_virtio_device option \<Rightarrow> 'd virtio_m \<Rightarrow> 'd virtio_m" where
  "virtio_reset_device D vdev m = (case vdev of None \<Rightarrow> m | Some v \<Rightarrow> linuxkpi_virtio_reset_device D (lv_common_cfg v) m)"

definition virtio_cread8 :: "'d virtio_hw \<Rightarrow> lk_virtio_device option \<Rightarrow> u32 \<Rightarrow> 'd virtio_m \<Rightarrow> u8 \<times> 'd virtio_m" where
  "virtio_cread8 D vdev off m = (case vdev of None \<Rightarrow> (0, m) | Some v \<Rightarrow> cc_read8 D (lv_device_cfg v) (ucast off) m)"

definition virtio_cread16 :: "'d virtio_hw \<Rightarrow> lk_virtio_device option \<Rightarrow> u32 \<Rightarrow> 'd virtio_m \<Rightarrow> u16 \<times> 'd virtio_m" where
  "virtio_cread16 D vdev off m = (case vdev of None \<Rightarrow> (0, m) | Some v \<Rightarrow> cc_read16 D (lv_device_cfg v) (ucast off) m)"

definition virtio_cread32 :: "'d virtio_hw \<Rightarrow> lk_virtio_device option \<Rightarrow> u32 \<Rightarrow> 'd virtio_m \<Rightarrow> u32 \<times> 'd virtio_m" where
  "virtio_cread32 D vdev off m = (case vdev of None \<Rightarrow> (0, m) | Some v \<Rightarrow> cc_read32 D (lv_device_cfg v) (ucast off) m)"

definition virtio_cwrite8 :: "'d virtio_hw \<Rightarrow> lk_virtio_device option \<Rightarrow> u32 \<Rightarrow> u8 \<Rightarrow> 'd virtio_m \<Rightarrow> 'd virtio_m" where
  "virtio_cwrite8 D vdev off x m = (case vdev of None \<Rightarrow> m | Some v \<Rightarrow> cc_write8 D (lv_device_cfg v) (ucast off) x m)"

definition virtio_cwrite16 :: "'d virtio_hw \<Rightarrow> lk_virtio_device option \<Rightarrow> u32 \<Rightarrow> u16 \<Rightarrow> 'd virtio_m \<Rightarrow> 'd virtio_m" where
  "virtio_cwrite16 D vdev off x m = (case vdev of None \<Rightarrow> m | Some v \<Rightarrow> cc_write16 D (lv_device_cfg v) (ucast off) x m)"

definition virtio_cwrite32 :: "'d virtio_hw \<Rightarrow> lk_virtio_device option \<Rightarrow> u32 \<Rightarrow> u32 \<Rightarrow> 'd virtio_m \<Rightarrow> 'd virtio_m" where
  "virtio_cwrite32 D vdev off x m = (case vdev of None \<Rightarrow> m | Some v \<Rightarrow> cc_write32 D (lv_device_cfg v) (ucast off) x m)"

section \<open>What registration does to a device\<close>

text \<open>The features a driver supports: those of its table below 64, and VERSION\_1.\<close>

definition supported :: "'s virtio_driver \<Rightarrow> nat set" where
  "supported drv = insert 32 (case vdr_feature_table drv of None \<Rightarrow> {}
     | Some tbl \<Rightarrow> {unat k |k. k \<in> set (take (unat (vdr_feature_table_size drv)) tbl) \<and> unat k < 64})"

lemma bit_fold_features:
  "bit (fold feature_bit ks acc) n \<longleftrightarrow> bit acc n \<or> n < 64 \<and> (\<exists>k \<in> set ks. unat k = n \<and> unat k < 64)"
proof (induction ks arbitrary: acc)
  case Nil
  then show ?case by simp
next
  case (Cons k ks)
  have "bit (feature_bit k acc) n \<longleftrightarrow> bit acc n \<or> n < 64 \<and> unat k = n \<and> unat k < 64"
    by (auto simp: feature_bit_def word_less_nat_alt bit_simps)
  then show ?case using Cons.IH by auto
qed

lemma driver_features_bits: "driver_features drv = Inr feats \<Longrightarrow> bit feats n \<longleftrightarrow> n \<in> supported drv"
proof -
  assume f: "driver_features drv = Inr feats"
  have v1: "bit (push_bit 32 1 :: u64) n \<longleftrightarrow> n = 32" unfolding bit_push_bit_iff bit_1_iff by auto
  show ?thesis
  proof (cases "vdr_feature_table drv")
    case None
    then show ?thesis using f v1 by (auto simp: driver_features_def supported_def)
  next
    case (Some tbl)
    let ?ks = "take (unat (vdr_feature_table_size drv)) tbl"
    have "feats = fold feature_bit ?ks (push_bit 32 1)" using f Some by (simp add: driver_features_def split: if_splits)
    then show ?thesis using bit_fold_features [of ?ks "push_bit 32 1" n] v1 Some by (auto simp: supported_def)
  qed
qed

lemma linuxkpi_init_log:
  assumes "linuxkpi_virtio_init_transport D c feats m = Inr (neg, m')"
  shows "\<exists>resets lo hi after. vm_log m' = vm_log m @ negotiation_log c neg resets lo hi after \<and>
    length resets \<le> 16 \<and> after AND 8 = 8 \<and> neg = feats AND (push_bit 32 (ucast hi) OR ucast lo)"
proof -
  define m1 where "m1 = reset_wait D c 16 (cc_write8 D c CC_DEVICE_STATUS 0 m)"
  obtain vs where vs: "vm_log m1 = vm_log m @ [CC_write (c + 0x14) 8 0] @ map (CC_read (c + 0x14) 8) vs" "length vs \<le> 16"
    using reset_wait_log [of D c 16 "cc_write8 D c CC_DEVICE_STATUS 0 m"] unfolding m1_def by (auto simp: cc_offsets)
  define m2 where "m2 = cc_write32 D c CC_DEVICE_FEATURE_SELECT 0
    (cc_write8 D c CC_DEVICE_STATUS (STATUS_ACKNOWLEDGE OR STATUS_DRIVER) (cc_write8 D c CC_DEVICE_STATUS STATUS_ACKNOWLEDGE m1))"
  obtain lo m3 where r3: "cc_read32 D c CC_DEVICE_FEATURE m2 = (lo, m3)" by force
  obtain hi m4 where r4: "cc_read32 D c CC_DEVICE_FEATURE (cc_write32 D c CC_DEVICE_FEATURE_SELECT 1 m3) = (hi, m4)" by force
  define n where "n = feats AND (push_bit 32 (ucast hi) OR ucast lo)"
  define m5 where "m5 = cc_write8 D c CC_DEVICE_STATUS (STATUS_ACKNOWLEDGE OR STATUS_DRIVER OR STATUS_FEATURES_OK)
    (cc_write32 D c CC_DRIVER_FEATURE (ucast (drop_bit 32 n)) (cc_write32 D c CC_DRIVER_FEATURE_SELECT 1
    (cc_write32 D c CC_DRIVER_FEATURE (ucast (n AND 0xFFFFFFFF)) (cc_write32 D c CC_DRIVER_FEATURE_SELECT 0 m4))))"
  obtain af m6 where r6: "cc_read8 D c CC_DEVICE_STATUS m5 = (af, m6)" by force
  have e: "af AND STATUS_FEATURES_OK = STATUS_FEATURES_OK" "neg = n" "m' = m6"
    using assms [unfolded linuxkpi_virtio_init_transport_def Let_def, folded m1_def, folded m2_def, unfolded r3 split_conv,
        unfolded r4 split_conv, folded n_def, folded m5_def, unfolded r6 split_conv]
    by (auto simp: and_then_eq_Inr)
  have "vm_log m' = vm_log m @ negotiation_log c n vs lo hi af"
    using cc_read32_log [OF r3] cc_read32_log [OF r4] cc_read8_log [OF r6] vs(1) e(3)
    by (simp add: m2_def m5_def negotiation_log_def cc_offsets status_bits feature_halves)
  then show ?thesis using vs(2) e n_def by (auto simp: status_bits)
qed

definition ends_in_reset :: "u64 \<Rightarrow> cc_io list \<Rightarrow> bool" where
  "ends_in_reset c log \<longleftrightarrow>
     (\<exists>before vs. log = before @ CC_write (c + 0x14) 8 0 # map (CC_read (c + 0x14) 8) vs \<and> length vs \<le> 16)"

lemma reset_device_log: "ends_in_reset c (vm_log (linuxkpi_virtio_reset_device D c m))"
  using reset_wait_log [of D c 16 "cc_write8 D c CC_DEVICE_STATUS 0 m"]
  by (auto simp: ends_in_reset_def linuxkpi_virtio_reset_device_def cc_offsets)


text \<open>A balloon device at 00:03.0 with its transport in BAR 0, and a driver for it.\<close>

definition balloon_cfg :: config_space where
  "balloon_cfg a =
     (if a = 0x80001800 then 0x10451AF4 else if a = 0x80001804 then 0x00100000 else if a = 0x80001810 then 0x1000
      else if a = 0x80001834 then 0x40
      else if a = 0x80001840 then 0x01105009 else if a = 0x8000184C then 0x1000
      else if a = 0x80001850 then 0x02146409 else if a = 0x80001858 then 0x2000 else if a = 0x8000185C then 0x1000
      else if a = 0x80001860 then 4
      else if a = 0x80001864 then 0x04100009 else if a = 0x8000186C then 0x1000 else if a = 0x80001870 then 0x1000
      else 0)"

definition balloon_driver :: "(lk_handler, u64) lkv virtio_driver" where
  "balloon_driver = \<lparr>vdr_id_table = Some [\<lparr>vid_device = 5, vid_vendor = VIRTIO_DEV_ANY_ID\<rparr>, \<lparr>vid_device = 0, vid_vendor = 0\<rparr>],
     vdr_feature_table = None, vdr_feature_table_size = 0, vdr_validate = None,
     vdr_probe = Some (\<lambda>k s. Inr (0, s)), vdr_config_changed = None\<rparr>"

definition balloon_lkv :: "(lk_handler, u64) lkv" where
  "balloon_lkv = \<lparr>lk_cfg = balloon_cfg, lk_mapped = [], lk_stores = [], lk_irq = irq_boot, lk_pci_registry = [],
     lkv_m = \<lparr>vm_dev = 7, vm_log = []\<rparr>, lkv_fa = \<lparr>free = [], total_added_ctr = 0\<rparr>, lkv_vdevs = [], lkv_ctxs = [],
     lkv_registry = [], lkv_log = []\<rparr>"

definition balloon_attach :: "(lk_handler, u64) lkv run" where
  "balloon_attach = attach_device demo_virtio_hw stored_hw 0 0x7000 balloon_driver (push_bit 32 1) 0 3 0 0x1045 balloon_lkv"


end
