(* ===== verification/LkPage.thy ===== *)
theory LkPage
  imports Frames Slab Klist LkIrq
begin

unbundle bit_operations_syntax

text \<open>
  Memory services of the LinuxKPI shim over the kernel's frame allocator: page descriptors and the
  balloon page list (linuxkpi/src/page.rs), coherent DMA memory (linuxkpi/src/dma.rs), the memory
  statistics (linuxkpi/src/mm.rs), and the locks and atomic counters they use
  (linuxkpi/src/locks.rs), with the frame calls of arsenal-kernel/src/linuxkpi\_bridge.rs.

  Memory is split by what lives in it: the bytes and the allocator state of the slab shim, the list
  nodes, the other fields of the page descriptors, and the lock words. The list node of a page is
  its first field, so it has the address of the page. The spin crate is a parameter: a record of
  its lock operations, of which the documented behaviour is \<open>spin_ok\<close>.
\<close>

section \<open>Frames through the bridge\<close>

definition linuxkpi_frames_alloc_frame :: "phys_frame_ctor \<Rightarrow> frame_allocator \<Rightarrow> (u64 \<times> frame_allocator) outcome" where
  "linuxkpi_frames_alloc_frame pf fa =
     and_then (alloc_frame pf fa) (\<lambda>(f, fa). Inr (case f of None \<Rightarrow> 0 | Some a \<Rightarrow> a, fa))"

definition linuxkpi_frames_free_frame :: "phys_frame_ctor \<Rightarrow> u64 \<Rightarrow> frame_allocator \<Rightarrow> frame_allocator outcome" where
  "linuxkpi_frames_free_frame pf phys fa = and_then (pf phys) (\<lambda>frame. Inr (free_frame fa frame))"

definition linuxkpi_frames_free_count :: "frame_allocator \<Rightarrow> u64" where
  "linuxkpi_frames_free_count fa = of_nat (free_count fa)"

definition linuxkpi_frames_total_count :: "frame_allocator \<Rightarrow> u64" where
  "linuxkpi_frames_total_count fa = total_added fa"

section \<open>Locks and atomic counters\<close>

type_synonym atomic_mem = "u64 \<rightharpoonup> c_int"

definition atomic_t_new :: "c_int \<Rightarrow> c_int" where
  "atomic_t_new v = v"

definition atomic_inc :: "u64 \<Rightarrow> atomic_mem \<Rightarrow> atomic_mem outcome" where
  "atomic_inc v h = (case h v of None \<Rightarrow> Inl Undefined | Some c \<Rightarrow> Inr (h(v \<mapsto> c + 1)))"

definition atomic_dec :: "u64 \<Rightarrow> atomic_mem \<Rightarrow> atomic_mem outcome" where
  "atomic_dec v h = (case h v of None \<Rightarrow> Inl Undefined | Some c \<Rightarrow> Inr (h(v \<mapsto> c - 1)))"

definition atomic_read :: "u64 \<Rightarrow> atomic_mem \<Rightarrow> c_int outcome" where
  "atomic_read v h = (case h v of None \<Rightarrow> Inl Undefined | Some c \<Rightarrow> Inr c)"

definition atomic_set :: "u64 \<Rightarrow> c_int \<Rightarrow> atomic_mem \<Rightarrow> atomic_mem outcome" where
  "atomic_set v i h = (case h v of None \<Rightarrow> Inl Undefined | Some c \<Rightarrow> Inr (h(v \<mapsto> i)))"

record 'l spin_crate =
  sm_new :: 'l
  sm_lock :: "'l \<Rightarrow> 'l run"
  sm_force_unlock :: "'l \<Rightarrow> 'l"

text \<open>
  The documented behaviour: a new lock is free, locking a free lock takes it, locking a held lock
  spins (nothing else runs in a sequential model, so it does not return), force\_unlock frees it.
\<close>

definition spin_ok :: "'l spin_crate \<Rightarrow> ('l \<Rightarrow> bool) \<Rightarrow> bool" where
  "spin_ok S held =
     (\<not> held (sm_new S) \<and> (\<forall>l. \<not> held l \<longrightarrow> (\<exists>l'. sm_lock S l = returns l' \<and> held l')) \<and>
      (\<forall>l. held l \<longrightarrow> sm_lock S l = None) \<and> (\<forall>l. \<not> held (sm_force_unlock S l)))"

type_synonym 'l lock_mem = "u64 \<rightharpoonup> 'l"

definition spin_lock_init :: "'l spin_crate \<Rightarrow> u64 \<Rightarrow> 'l lock_mem \<Rightarrow> 'l lock_mem" where
  "spin_lock_init S s h = h(s \<mapsto> sm_new S)"

definition spin_lock :: "'l spin_crate \<Rightarrow> u64 \<Rightarrow> 'l lock_mem \<Rightarrow> 'l lock_mem run" where
  "spin_lock S s h =
     (case h s of None \<Rightarrow> Some (Inl Undefined)
      | Some l \<Rightarrow> run_then (sm_lock S l) (\<lambda>l'. returns (h(s \<mapsto> l'))))"

definition spin_unlock :: "'l spin_crate \<Rightarrow> u64 \<Rightarrow> 'l lock_mem \<Rightarrow> 'l lock_mem outcome" where
  "spin_unlock S s h =
     (case h s of None \<Rightarrow> Inl Undefined | Some l \<Rightarrow> Inr (h(s \<mapsto> sm_force_unlock S l)))"

definition mutex_init :: "'l spin_crate \<Rightarrow> u64 \<Rightarrow> 'l lock_mem \<Rightarrow> 'l lock_mem" where
  "mutex_init S m h = h(m \<mapsto> sm_new S)"

definition mutex_lock :: "'l spin_crate \<Rightarrow> u64 \<Rightarrow> 'l lock_mem \<Rightarrow> 'l lock_mem run" where
  "mutex_lock S m h =
     (case h m of None \<Rightarrow> Some (Inl Undefined)
      | Some l \<Rightarrow> run_then (sm_lock S l) (\<lambda>l'. returns (h(m \<mapsto> l'))))"

definition mutex_unlock :: "'l spin_crate \<Rightarrow> u64 \<Rightarrow> 'l lock_mem \<Rightarrow> 'l lock_mem outcome" where
  "mutex_unlock S m h =
     (case h m of None \<Rightarrow> Inl Undefined | Some l \<Rightarrow> Inr (h(m \<mapsto> sm_force_unlock S l)))"

section \<open>Pages\<close>

record page =
  pg_phys :: u64
  pg_refcount :: c_int
  pg_private :: u64

definition SIZEOF_PAGE :: usize where "SIZEOF_PAGE = 40"

text \<open>Byte offsets of the fields of \<open>balloon_dev_info\<close>.\<close>

definition pages_lock_of :: "u64 \<Rightarrow> u64" where "pages_lock_of b = b + 8"
definition pages_of :: "u64 \<Rightarrow> u64" where "pages_of b = b + 24"

record ('s, 'l) pmem =
  pm_frames :: frame_allocator
  pm_slab :: "'s \<times> byte_mem"
  pm_nodes :: list_mem
  pm_desc :: "u64 \<rightharpoonup> page"
  pm_locks :: "'l lock_mem"
  pm_inflate_fired :: bool
  pm_log :: "string list"

definition alloc_pages ::
    "'s allocator \<Rightarrow> phys_frame_ctor \<Rightarrow> u32 \<Rightarrow> u32 \<Rightarrow> ('s, 'l) pmem \<Rightarrow> (u64 \<times> ('s, 'l) pmem) outcome" where
  "alloc_pages A pf flags order st =
     (if order \<noteq> 0 then Inl Panic
      else and_then (linuxkpi_frames_alloc_frame pf (pm_frames st)) (\<lambda>(phys, fa).
           let st = st\<lparr>pm_frames := fa\<rparr> in
           if phys = 0 then Inr (0, st)
           else and_then (kmalloc A SIZEOF_PAGE 1 (pm_slab st)) (\<lambda>(desc, sl).
                let st = st\<lparr>pm_slab := sl\<rparr> in
                if desc = 0
                then and_then (linuxkpi_frames_free_frame pf phys (pm_frames st)) (\<lambda>fa. Inr (0, st\<lparr>pm_frames := fa\<rparr>))
                else and_then (INIT_LIST_HEAD desc ((pm_nodes st)(desc \<mapsto> list_head_new))) (\<lambda>h.
                     Inr (desc, st\<lparr>pm_nodes := h,
                       pm_desc := (pm_desc st)(desc \<mapsto> \<lparr>pg_phys = phys, pg_refcount = 1, pg_private = 0\<rparr>)\<rparr>)))))"

definition free_pages :: "u64 \<Rightarrow> u32 \<Rightarrow> unit outcome" where
  "free_pages addr order = Inl Panic"

definition put_page :: "'s allocator \<Rightarrow> phys_frame_ctor \<Rightarrow> u64 \<Rightarrow> ('s, 'l) pmem \<Rightarrow> ('s, 'l) pmem outcome" where
  "put_page A pf p st =
     (if p = 0 then Inr st
      else case pm_desc st p of
        None \<Rightarrow> Inl Undefined
      | Some pg \<Rightarrow>
          (let new_count = pg_refcount pg - 1;
               st = st\<lparr>pm_desc := (pm_desc st)(p \<mapsto> pg\<lparr>pg_refcount := new_count\<rparr>)\<rparr>
           in if 0 < sint new_count then Inr st
              else if sint new_count < 0 then Inl Panic
              else and_then (linuxkpi_frames_free_frame pf (pg_phys pg) (pm_frames st)) (\<lambda>fa.
                   and_then (kfree A p (pm_slab st)) (\<lambda>sl.
                   Inr (st\<lparr>pm_frames := fa, pm_slab := sl, pm_nodes := (pm_nodes st)(p := None),
                          pm_desc := (pm_desc st)(p := None)\<rparr>)))))"

definition page_address :: "u64 \<Rightarrow> u64 \<Rightarrow> ('s, 'l) pmem \<Rightarrow> u64 outcome" where
  "page_address hhdm p st =
     (if p = 0 then Inr 0
      else case pm_desc st p of None \<Rightarrow> Inl Undefined | Some pg \<Rightarrow> Inr (hhdm + pg_phys pg))"

definition adjust_managed_page_count :: "u64 \<Rightarrow> 64 word \<Rightarrow> ('s, 'l) pmem \<Rightarrow> ('s, 'l) pmem" where
  "adjust_managed_page_count p n st =
     (if n \<noteq> 0 \<and> \<not> pm_inflate_fired st
      then st\<lparr>pm_inflate_fired := True, pm_log := pm_log st @ [''ARSENAL_VIRTIO_BALLOON_INFLATE_OK'']\<rparr>
      else st)"

definition balloon_page_alloc ::
    "'s allocator \<Rightarrow> phys_frame_ctor \<Rightarrow> ('s, 'l) pmem \<Rightarrow> (u64 \<times> ('s, 'l) pmem) outcome" where
  "balloon_page_alloc A pf st = alloc_pages A pf 0 0 st"

definition balloon_page_enqueue ::
    "'l spin_crate \<Rightarrow> u64 \<Rightarrow> u64 \<Rightarrow> ('s, 'l) pmem \<Rightarrow> ('s, 'l) pmem run" where
  "balloon_page_enqueue S b p st =
     (if b = 0 \<or> p = 0 then returns st
      else run_then (spin_lock S (pages_lock_of b) (pm_locks st)) (\<lambda>lk.
           Some (and_then (list_add_tail p (pages_of b) (pm_nodes st)) (\<lambda>h.
                 and_then (spin_unlock S (pages_lock_of b) lk) (\<lambda>lk.
                 Inr (st\<lparr>pm_nodes := h, pm_locks := lk\<rparr>))))))"

definition balloon_page_dequeue :: "'l spin_crate \<Rightarrow> u64 \<Rightarrow> ('s, 'l) pmem \<Rightarrow> (u64 \<times> ('s, 'l) pmem) run" where
  "balloon_page_dequeue S b st =
     (if b = 0 then returns (0, st)
      else run_then (spin_lock S (pages_lock_of b) (pm_locks st)) (\<lambda>lk.
           Some (and_then (load_node (pm_nodes st) (pages_of b)) (\<lambda>n.
                 and_then (if lh_next n = 0 \<or> lh_next n = pages_of b then Inr (0, pm_nodes st)
                           else and_then (list_del (lh_next n) (pm_nodes st)) (\<lambda>h. Inr (lh_next n, h))) (\<lambda>(r, h).
                 and_then (spin_unlock S (pages_lock_of b) lk) (\<lambda>lk.
                 Inr (r, st\<lparr>pm_nodes := h, pm_locks := lk\<rparr>)))))))"

section \<open>Coherent memory and statistics\<close>

definition dma_alloc_coherent ::
    "phys_frame_ctor \<Rightarrow> u64 \<Rightarrow> usize \<Rightarrow> bool \<Rightarrow> ('s, 'l) pmem \<Rightarrow> (u64 \<times> u64 option \<times> ('s, 'l) pmem) outcome" where
  "dma_alloc_coherent pf hhdm n handle_null st =
     (if handle_null \<or> n = 0 \<or> FRAME_SIZE < n then Inr (0, None, st)
      else and_then (linuxkpi_frames_alloc_frame pf (pm_frames st)) (\<lambda>(phys, fa).
           let st = st\<lparr>pm_frames := fa\<rparr> in
           if phys = 0 then Inr (0, None, st) else Inr (phys + hhdm, Some phys, st)))"

definition dma_free_coherent ::
    "phys_frame_ctor \<Rightarrow> usize \<Rightarrow> u64 \<Rightarrow> u64 \<Rightarrow> ('s, 'l) pmem \<Rightarrow> ('s, 'l) pmem outcome" where
  "dma_free_coherent pf n cpu_addr dma_handle st =
     (if cpu_addr = 0 then Inr st
      else and_then (linuxkpi_frames_free_frame pf dma_handle (pm_frames st)) (\<lambda>fa. Inr (st\<lparr>pm_frames := fa\<rparr>)))"

definition dma_map_single :: "u64 \<Rightarrow> u64 \<Rightarrow> usize \<Rightarrow> c_int \<Rightarrow> u64" where
  "dma_map_single hhdm cpu_addr n dir = (if cpu_addr = 0 then 0 else cpu_addr - hhdm)"

definition dma_set_mask :: "u64 \<Rightarrow> c_int" where "dma_set_mask mask_arg = 0"
definition dma_set_coherent_mask :: "u64 \<Rightarrow> c_int" where "dma_set_coherent_mask mask_arg = 0"

record sysinfo =
  si_uptime :: u64
  si_loads :: "u64 list"
  si_totalram :: u64
  si_freeram :: u64
  si_sharedram :: u64
  si_bufferram :: u64
  si_totalswap :: u64
  si_freeswap :: u64
  si_procs :: u16
  si_pad :: u16
  si_totalhigh :: u64
  si_freehigh :: u64
  si_mem_unit :: u32

definition si_meminfo :: "sysinfo option \<Rightarrow> ('s, 'l) pmem \<Rightarrow> sysinfo option" where
  "si_meminfo info st =
     (case info of None \<Rightarrow> None
      | Some i \<Rightarrow> Some \<lparr>si_uptime = 0, si_loads = [0, 0, 0], si_totalram = linuxkpi_frames_total_count (pm_frames st),
          si_freeram = linuxkpi_frames_free_count (pm_frames st), si_sharedram = 0, si_bufferram = 0,
          si_totalswap = 0, si_freeswap = 0, si_procs = 0, si_pad = 0, si_totalhigh = 0, si_freehigh = 0,
          si_mem_unit = 4096\<rparr>)"

definition si_mem_available :: "('s, 'l) pmem \<Rightarrow> u64" where
  "si_mem_available st = linuxkpi_frames_free_count (pm_frames st)"

definition register_oom_notifier :: "u64 \<Rightarrow> c_int outcome" where "register_oom_notifier nb = Inl Panic"
definition unregister_oom_notifier :: "u64 \<Rightarrow> c_int outcome" where "unregister_oom_notifier nb = Inl Panic"
definition page_reporting_register :: "u64 \<Rightarrow> c_int outcome" where "page_reporting_register prdev = Inl Panic"
definition page_reporting_unregister :: "u64 \<Rightarrow> unit outcome" where "page_reporting_unregister prdev = Inl Panic"
definition shrinker_alloc :: "u32 \<Rightarrow> u64 \<Rightarrow> u64 outcome" where "shrinker_alloc flags nm = Inl Panic"
definition shrinker_free :: "u64 \<Rightarrow> unit outcome" where "shrinker_free shrinker = Inl Panic"
definition shrinker_register :: "u64 \<Rightarrow> unit outcome" where "shrinker_register shrinker = Inl Panic"

section \<open>What the driver sees\<close>

text \<open>
  The driver sees the pages it owns with their frames (\<open>P\<close>), the page lists of the balloon devices
  (\<open>L\<close>, by the address of their list head) and the DMA frames it holds (\<open>D\<close>). Together with the
  free frames these are all the frames there are (\<open>T\<close>).
\<close>

definition frames_of :: "(u64 \<rightharpoonup> u64) \<Rightarrow> u64 multiset" where
  "frames_of P = image_mset (\<lambda>p. the (P p)) (mset_set (dom P))"

definition frame_sound :: "u64 \<Rightarrow> bool" where
  "frame_sound f = (4096 dvd unat f \<and> unat f < 2 ^ 52 \<and> f \<noteq> 0)"

definition inside_block :: "user_heap \<Rightarrow> u64 set \<Rightarrow> u64 \<Rightarrow> bool" where
  "inside_block U X k = (\<exists>v bs. U v = Some bs \<and> v \<notin> X \<and> unat v \<le> unat k \<and> unat k < unat v + length bs)"

definition blocks_ok :: "'s allocator \<Rightarrow> (u64 \<rightharpoonup> u64) \<Rightarrow> abs_lists \<Rightarrow> 's \<times> byte_mem \<Rightarrow> bool" where
  "blocks_ok A P L sl =
     (\<exists>U. slab_rep A U sl \<and> dom P \<subseteq> dom U \<and> (\<forall>k \<in> fst ` set L. inside_block U (dom P) k))"

definition locks_free :: "('l \<Rightarrow> bool) \<Rightarrow> abs_lists \<Rightarrow> 'l lock_mem \<Rightarrow> bool" where
  "locks_free held L lk = (\<forall>k \<in> fst ` set L. \<exists>l. lk (k - 16) = Some l \<and> \<not> held l)"

definition page_rep ::
    "'s allocator \<Rightarrow> ('l \<Rightarrow> bool) \<Rightarrow> u64 multiset \<Rightarrow> (u64 \<rightharpoonup> u64) \<Rightarrow> abs_lists \<Rightarrow> u64 multiset \<Rightarrow> ('s, 'l) pmem \<Rightarrow> bool" where
  "page_rep A held T P L D st =
     (finite (dom P) \<and> (\<forall>f \<in># T. frame_sound f) \<and>
      mset (free (pm_frames st)) + frames_of P + D = T \<and>
      blocks_ok A P L (pm_slab st) \<and>
      pm_desc st = (\<lambda>p. map_option (\<lambda>f. \<lparr>pg_phys = f, pg_refcount = 1, pg_private = 0\<rparr>) (P p)) \<and>
      lists_rep (pm_nodes st) L \<and> dom (pm_nodes st) = dom P \<union> fst ` set L \<and>
      (\<forall>xs \<in> snd ` set L. set xs \<subseteq> dom P) \<and> locks_free held L (pm_locks st))"

datatype page_op = Page_alloc | Page_put u64 | Enqueue u64 u64 | Dequeue u64 | Dma_alloc usize | Dma_free u64 u64

fun page_step ::
    "'s allocator \<Rightarrow> phys_frame_ctor \<Rightarrow> 'l spin_crate \<Rightarrow> u64 \<Rightarrow> page_op \<Rightarrow> ('s, 'l) pmem \<Rightarrow> ((u64 \<times> u64 option) \<times> ('s, 'l) pmem) run" where
  "page_step A pf S hhdm Page_alloc st = Some (and_then (balloon_page_alloc A pf st) (\<lambda>(r, st). Inr ((r, None), st)))"
| "page_step A pf S hhdm (Page_put p) st = Some (and_then (put_page A pf p st) (\<lambda>st. Inr ((0, None), st)))"
| "page_step A pf S hhdm (Enqueue b p) st = run_then (balloon_page_enqueue S b p st) (\<lambda>st. returns ((0, None), st))"
| "page_step A pf S hhdm (Dequeue b) st = run_then (balloon_page_dequeue S b st) (\<lambda>(r, st). returns ((r, None), st))"
| "page_step A pf S hhdm (Dma_alloc n) st =
     Some (and_then (dma_alloc_coherent pf hhdm n False st) (\<lambda>(r, h, st). Inr ((r, h), st)))"
| "page_step A pf S hhdm (Dma_free a h) st = Some (and_then (dma_free_coherent pf 0 a h st) (\<lambda>st. Inr ((0, None), st)))"

text \<open>The documented contracts: pages are NULL or owned and in no list, devices are NULL or initialised, DMA handles are held.\<close>

fun page_pre :: "(u64 \<rightharpoonup> u64) \<Rightarrow> abs_lists \<Rightarrow> u64 multiset \<Rightarrow> page_op \<Rightarrow> bool" where
  "page_pre P L D (Page_put p) = (p = 0 \<or> p \<in> dom P \<and> p \<notin> set (nodes L))"
| "page_pre P L D (Enqueue b p) = (b = 0 \<or> p = 0 \<or> pages_of b \<in> fst ` set L \<and> p \<in> dom P \<and> p \<notin> set (nodes L))"
| "page_pre P L D (Dequeue b) = (b = 0 \<or> pages_of b \<in> fst ` set L)"
| "page_pre P L D (Dma_free a h) = (a = 0 \<or> h \<in># D)"
| "page_pre P L D _ = True"

fun page_post ::
    "u64 \<Rightarrow> page_op \<Rightarrow> u64 \<times> u64 option \<Rightarrow> (u64 \<rightharpoonup> u64) \<Rightarrow> abs_lists \<Rightarrow> u64 multiset \<Rightarrow> (u64 \<rightharpoonup> u64) \<Rightarrow> abs_lists \<Rightarrow> u64 multiset \<Rightarrow> bool" where
  "page_post hhdm Page_alloc r P L D P' L' D' =
     (L' = L \<and> D' = D \<and> (fst r = 0 \<and> P' = P \<or>
        fst r \<noteq> 0 \<and> P (fst r) = None \<and> fst r \<notin> set (nodes L) \<and> (\<exists>f. P' = P(fst r \<mapsto> f))))"
| "page_post hhdm (Page_put p) r P L D P' L' D' = (L' = L \<and> D' = D \<and> P' = P(p := None))"
| "page_post hhdm (Enqueue b p) r P L D P' L' D' =
     (P' = P \<and> D' = D \<and> L' = (if b = 0 \<or> p = 0 then L else on_list (pages_of b) (\<lambda>xs. xs @ [p]) L))"
| "page_post hhdm (Dequeue b) r P L D P' L' D' =
     (P' = P \<and> D' = D \<and>
      (if b = 0 then fst r = 0 \<and> L' = L
       else case the (map_of L (pages_of b)) of [] \<Rightarrow> fst r = 0 \<and> L' = L
            | x # xs \<Rightarrow> fst r = x \<and> L' = on_list (pages_of b) tl L))"
| "page_post hhdm (Dma_alloc n) r P L D P' L' D' =
     (P' = P \<and> L' = L \<and> (case snd r of None \<Rightarrow> fst r = 0 \<and> D' = D
        | Some f \<Rightarrow> n \<noteq> 0 \<and> unat n \<le> 4096 \<and> fst r = f + hhdm \<and> D' = add_mset f D))"
| "page_post hhdm (Dma_free a h) r P L D P' L' D' = (P' = P \<and> L' = L \<and> D' = (if a = 0 then D else D - {#h#}))"

section \<open>Frames\<close>

lemma frames_of_upd: "finite (dom P) \<Longrightarrow> P p = None \<Longrightarrow> frames_of (P(p \<mapsto> f)) = add_mset f (frames_of P)"
proof -
  assume a: "finite (dom P)" "P p = None"
  then have "p \<notin> dom P" by auto
  then have "image_mset (\<lambda>x. the ((P(p \<mapsto> f)) x)) (mset_set (dom P)) = image_mset (\<lambda>x. the (P x)) (mset_set (dom P))"
    by (intro image_mset_cong) (use a in auto)
  then show ?thesis using a \<open>p \<notin> dom P\<close> by (simp add: frames_of_def)
qed

lemma frames_of_del:
  assumes "finite (dom P)" "P p = Some f"
  shows "frames_of P = add_mset f (frames_of (P(p := None)))"
proof -
  have "P = (P(p := None))(p \<mapsto> f)" using assms(2) by auto
  moreover have "frames_of ((P(p := None))(p \<mapsto> f)) = add_mset f (frames_of (P(p := None)))"
    by (rule frames_of_upd) (use assms(1) in simp_all)
  ultimately show ?thesis by simp
qed

lemma frames_alloc_cases:
  assumes "phys_frame_ok pf" "\<forall>f \<in># mset (free fa). frame_sound f"
  obtains "linuxkpi_frames_alloc_frame pf fa = Inr (0, fa)" "free fa = []"
  | f fa' where "linuxkpi_frames_alloc_frame pf fa = Inr (f, fa')" "f \<noteq> 0" "frame_sound f"
      "mset (free fa) = add_mset f (mset (free fa'))"
proof (cases "free fa = []")
  case True
  then show ?thesis using that(1) by (simp add: linuxkpi_frames_alloc_frame_def alloc_frame_def)
next
  case False
  obtain f fa' where f: "alloc_frame pf fa = Inr (Some f, fa')" "mset (free fa) = add_mset f (mset (free fa'))"
    using frame_pool.alloc_frame [OF alloc_frame_pool [OF assms(1)], of fa] assms(2) False by (auto simp: frame_sound_def)
  then have "frame_sound f" using assms(2) by simp
  then show ?thesis using that(2) f by (simp add: linuxkpi_frames_alloc_frame_def frame_sound_def)
qed

lemma frames_free_eq:
  "phys_frame_ok pf \<Longrightarrow> frame_sound f \<Longrightarrow> linuxkpi_frames_free_frame pf f fa = Inr (fa\<lparr>free := free fa @ [f]\<rparr>)"
  by (simp add: linuxkpi_frames_free_frame_def phys_frame_ok_def frame_sound_def free_frame_def)

section \<open>Descriptors\<close>

lemma blocks_apart:
  assumes "slab_rep A U (s, m)" "U p = Some bs" "U v = Some cs" "v \<noteq> p" "unat v \<le> unat k" "unat k < unat v + length cs"
  shows "k \<noteq> p"
proof
  assume k: "k = p"
  have ok: "alloc_ok A s" and b: "block_ok A s m p bs" "block_ok A s m v cs" using assms(1-3) by (auto simp: slab_rep_def)
  note bp = block_bounds [OF ok b(1)] and bv = block_bounds [OF ok b(2)]
  have "bs \<noteq> []" using b(1) by (simp add: block_ok_def)
  then have "unat p \<in> region (p - 16) \<lparr>lsize = of_nat (length bs) + 16, lalign = 16\<rparr>" using bp(2) by (simp add: bp(6))
  moreover have "unat p \<in> region (v - 16) \<lparr>lsize = of_nat (length cs) + 16, lalign = 16\<rparr>"
    using bv(2) assms(5,6) k by (simp add: bv(6))
  moreover have "v - 16 \<noteq> p - 16" using assms(4) by simp
  ultimately show False using ok b unfolding alloc_ok_def block_ok_def by blast
qed

lemma blocks_alloc:
  assumes A: "global_alloc A" and b: "blocks_ok A P L sl"
  obtains p sl' where "kmalloc A SIZEOF_PAGE fl sl = Inr (p, sl')" "p = 0 \<Longrightarrow> blocks_ok A P L sl'"
    "p \<noteq> 0 \<Longrightarrow> P p = None \<and> p \<notin> fst ` set L \<and> blocks_ok A (P(p \<mapsto> f)) L sl'"
proof -
  obtain s m where sl: "sl = (s, m)" by force
  obtain U where U: "slab_rep A U (s, m)" "dom P \<subseteq> dom U" "\<forall>k \<in> fst ` set L. inside_block U (dom P) k"
    using b by (auto simp: blocks_ok_def sl)
  obtain p s' m' where k: "kmalloc A SIZEOF_PAGE fl (s, m) = Inr (p, s', m')" "p = 0 \<Longrightarrow> slab_rep A U (s', m')"
    "p \<noteq> 0 \<Longrightarrow> U p = None \<and> 16 dvd unat p \<and> (\<exists>bs. length bs = unat SIZEOF_PAGE \<and> slab_rep A (U(p \<mapsto> bs)) (s', m'))"
    by (rule kmalloc_refines [OF A U(1), of SIZEOF_PAGE fl]) blast
  show ?thesis
  proof (rule that)
    show "kmalloc A SIZEOF_PAGE fl sl = Inr (p, s', m')" using k(1) sl by simp
    show "blocks_ok A P L (s', m')" if "p = 0" using k(2) [OF that] U(2,3) by (auto simp: blocks_ok_def)
    show "P p = None \<and> p \<notin> fst ` set L \<and> blocks_ok A (P(p \<mapsto> f)) L (s', m')" if p: "p \<noteq> 0"
    proof -
      obtain bs where bs: "slab_rep A (U(p \<mapsto> bs)) (s', m')" and new: "U p = None" using k(3) [OF p] by blast
      have ins: "k \<noteq> p \<and> inside_block (U(p \<mapsto> bs)) (dom (P(p \<mapsto> f))) k" if kL: "k \<in> fst ` set L" for k
      proof -
        obtain v cs where v: "U v = Some cs" "v \<notin> dom P" "unat v \<le> unat k" "unat k < unat v + length cs"
          using U(3) kL unfolding inside_block_def by blast
        then have "v \<noteq> p" using new by auto
        with blocks_apart [OF bs, of p bs v cs k] v show ?thesis by (auto simp: inside_block_def)
      qed
      moreover have "P p = None" using new U(2) by (metis domIff in_mono)
      moreover have "blocks_ok A (P(p \<mapsto> f)) L (s', m')"
        unfolding blocks_ok_def by (rule exI [of _ "U(p \<mapsto> bs)"]) (use bs U(2) ins in auto)
      ultimately show ?thesis by force
    qed
  qed
qed

lemma blocks_free:
  assumes A: "global_alloc A" and b: "blocks_ok A P L sl" and p: "P p = Some f"
  obtains sl' where "kfree A p sl = Inr sl'" "blocks_ok A (P(p := None)) L sl'"
proof -
  obtain s m where sl: "sl = (s, m)" by force
  obtain U where U: "slab_rep A U (s, m)" "dom P \<subseteq> dom U" "\<forall>k \<in> fst ` set L. inside_block U (dom P) k"
    using b by (auto simp: blocks_ok_def sl)
  obtain bs where bs: "U p = Some bs" using U(2) p by blast
  obtain s' m' where k: "kfree A p (s, m) = Inr (s', m')" "slab_rep A (U(p := None)) (s', m')"
    by (rule kfree_refines [OF A U(1) bs])
  have "inside_block (U(p := None)) (dom (P(p := None))) k" if kL: "k \<in> fst ` set L" for k
  proof -
    obtain v cs where "U v = Some cs" "v \<notin> dom P" "unat v \<le> unat k" "unat k < unat v + length cs"
      using U(3) kL unfolding inside_block_def by blast
    moreover from this(2) have "v \<noteq> p" using p by auto
    ultimately show ?thesis by (auto simp: inside_block_def)
  qed
  then have "blocks_ok A (P(p := None)) L (s', m')"
    unfolding blocks_ok_def by (intro exI [of _ "U(p := None)"]) (use k(2) U(2) in auto)
  then show ?thesis using that [of "(s', m')"] k(1) sl by simp
qed

section \<open>Lists and locks\<close>

lemma locks_freeD:
  assumes "locks_free held L lk" "pages_of b \<in> fst ` set L" "spin_ok S held"
  obtains l l' where "lk (pages_lock_of b) = Some l" "sm_lock S l = returns l'"
    "locks_free held L (lk(pages_lock_of b \<mapsto> sm_force_unlock S l'))"
proof -
  have "pages_lock_of b = pages_of b - 16" by (simp add: pages_lock_of_def pages_of_def)
  then obtain l where "lk (pages_lock_of b) = Some l" "\<not> held l" using assms(1,2) by (auto simp: locks_free_def)
  moreover from this(2) obtain l' where "sm_lock S l = returns l'" using assms(3) by (auto simp: spin_ok_def)
  moreover have "locks_free held L (lk(pages_lock_of b \<mapsto> sm_force_unlock S l'))"
    using assms(1,3) by (auto simp: locks_free_def spin_ok_def)
  ultimately show ?thesis using that by blast
qed

lemma fst_on_list [simp]: "fst ` set (on_list k f L) = fst ` set L"
  by (induction k f L rule: on_list.induct) simp_all

lemma nodes_heads: "k \<in> fst ` set L \<Longrightarrow> k \<in> set (nodes L)"
  by (force simp: nodes_def)

lemma list_entries_on_list:
  assumes "\<forall>xs \<in> snd ` set L. set xs \<subseteq> X" "\<And>xs. set xs \<subseteq> X \<Longrightarrow> set (f xs) \<subseteq> X"
  shows "\<forall>xs \<in> snd ` set (on_list k f L). set xs \<subseteq> X"
  using assms by (induction k f L rule: on_list.induct) simp_all

lemma removeAll_first:
  assumes "distinct (nodes L)" "map_of L k = Some (x # xs)"
  shows "map (\<lambda>(j, ys). (j, removeAll x ys)) L = on_list k tl L"
  using assms
proof (induction L)
  case (Cons a L)
  obtain j ys where a: "a = (j, ys)" by force
  show ?case
  proof (cases "j = k")
    case True
    then have "ys = x # xs" "x \<notin> set xs" "x \<notin> set (nodes L)" using Cons.prems a by auto
    then show ?thesis using True a by (simp add: removeAll_other_lists)
  next
    case False
    then have m: "map_of L k = Some (x # xs)" using Cons.prems a by simp
    then have "(k, x # xs) \<in> set L" by (rule map_of_SomeD)
    then have "x \<in> set (nodes L)" using nodes_member by fastforce
    then have "x \<notin> set ys" using Cons.prems a by auto
    then show ?thesis using Cons False a m by simp
  qed
qed simp

lemma lists_rep_other:
  assumes "lists_rep h L" "\<And>x. x \<in> set (nodes L) \<Longrightarrow> h' x = h x"
  shows "lists_rep h' L"
proof -
  have "is_list h' k xs" if kx: "(k, xs) \<in> set L" for k xs
  proof (rule is_list_frame)
    show "is_list h k xs" using assms(1) kx by (auto simp: lists_rep_def)
    show "h' x = h x" if "x \<in> set (k # xs)" for x using assms(2) nodes_member [OF kx] that by blast
  qed
  then show ?thesis using assms(1) by (auto simp: lists_rep_def)
qed

section \<open>Each operation\<close>

lemma page_repD:
  assumes "page_rep A held T P L D st"
  shows "finite (dom P)" "\<forall>f \<in># mset (free (pm_frames st)). frame_sound f"
    "mset (free (pm_frames st)) + frames_of P + D = T" "blocks_ok A P L (pm_slab st)"
    "pm_desc st = (\<lambda>p. map_option (\<lambda>f. \<lparr>pg_phys = f, pg_refcount = 1, pg_private = 0\<rparr>) (P p))"
    "lists_rep (pm_nodes st) L" "dom (pm_nodes st) = dom P \<union> fst ` set L"
    "\<forall>xs \<in> snd ` set L. set xs \<subseteq> dom P" "locks_free held L (pm_locks st)"
    "\<forall>f \<in># T. frame_sound f"
  using assms unfolding page_rep_def by auto

lemma entries_in_dom:
  assumes "page_rep A held T P L D st" "p \<in> set (nodes L)"
  shows "p \<in> dom P \<or> p \<in> fst ` set L"
  using assms(2) page_repD(8) [OF assms(1)] by (force simp: nodes_def)

lemma page_rep_null:
  assumes "page_rep A held T P L D st"
  shows "P 0 = None"
proof -
  obtain U where "slab_rep A U (fst (pm_slab st), snd (pm_slab st))" "dom P \<subseteq> dom U"
    using page_repD(4) [OF assms] by (auto simp: blocks_ok_def)
  with slab_rep_not_null [OF this(1)] show ?thesis by (metis domIff in_mono)
qed

lemma page_alloc_refines:
  assumes A: "global_alloc A" and pf: "phys_frame_ok pf" and r: "page_rep A held T P L D st"
  shows "\<exists>r st' P'. balloon_page_alloc A pf st = Inr (r, st') \<and>
    page_post hhdm Page_alloc (r, None) P L D P' L D \<and> page_rep A held T P' L D st'"
proof (cases rule: frames_alloc_cases [OF pf page_repD(2) [OF r]])
  case 1
  then show ?thesis using r by (simp add: balloon_page_alloc_def alloc_pages_def Let_def)
next
  case (2 f fa')
  note rep = page_repD [OF r]
  obtain p sl' where k: "kmalloc A SIZEOF_PAGE 1 (pm_slab st) = Inr (p, sl')" "p = 0 \<Longrightarrow> blocks_ok A P L sl'"
    "p \<noteq> 0 \<Longrightarrow> P p = None \<and> p \<notin> fst ` set L \<and> blocks_ok A (P(p \<mapsto> f)) L sl'"
    by (rule blocks_alloc [OF A rep(4), of 1 f]) blast
  show ?thesis
  proof (cases "p = 0")
    case True
    then have "balloon_page_alloc A pf st = Inr (0, st\<lparr>pm_frames := fa'\<lparr>free := free fa' @ [f]\<rparr>, pm_slab := sl'\<rparr>)"
      using 2 k(1) by (simp add: balloon_page_alloc_def alloc_pages_def Let_def frames_free_eq [OF pf])
    moreover have "page_rep A held T P L D (st\<lparr>pm_frames := fa'\<lparr>free := free fa' @ [f]\<rparr>, pm_slab := sl'\<rparr>)"
      using r k(2) [OF True] 2(4) by (simp add: page_rep_def)
    ultimately show ?thesis by auto
  next
    case False
    note p = k(3) [OF False, THEN conjunct1] k(3) [OF False, THEN conjunct2, THEN conjunct1] k(3) [OF False, THEN conjunct2, THEN conjunct2]
    have notin: "p \<notin> set (nodes L)" using entries_in_dom [OF r, of p] p(1,2) by (auto simp: domIff)
    obtain h where h: "INIT_LIST_HEAD p ((pm_nodes st)(p \<mapsto> list_head_new)) = Inr h"
      "dom h = dom ((pm_nodes st)(p \<mapsto> list_head_new))" "\<And>x. x \<noteq> p \<Longrightarrow> h x = ((pm_nodes st)(p \<mapsto> list_head_new)) x"
      by (rule INIT_LIST_HEAD_is_list [of p "(pm_nodes st)(p \<mapsto> list_head_new)"]) (use False in auto)
    have "lists_rep h L" by (rule lists_rep_other [OF rep(6)], metis h(3) notin fun_upd_other)
    moreover have "dom h = dom (P(p \<mapsto> f)) \<union> fst ` set L" using h(2) rep(7) by auto
    moreover have "mset (free fa') + frames_of (P(p \<mapsto> f)) + D = T"
      using rep(3) 2(4) by (simp add: frames_of_upd [of P p f, OF rep(1) p(1)])
    ultimately have "page_rep A held T (P(p \<mapsto> f)) L D (st\<lparr>pm_frames := fa', pm_slab := sl', pm_nodes := h,
        pm_desc := (pm_desc st)(p \<mapsto> \<lparr>pg_phys = f, pg_refcount = 1, pg_private = 0\<rparr>)\<rparr>)"
      using rep p by (auto simp: page_rep_def)
    moreover have "balloon_page_alloc A pf st = Inr (p, st\<lparr>pm_frames := fa', pm_slab := sl', pm_nodes := h,
        pm_desc := (pm_desc st)(p \<mapsto> \<lparr>pg_phys = f, pg_refcount = 1, pg_private = 0\<rparr>)\<rparr>)"
      using 2 k(1) False h(1) by (simp add: balloon_page_alloc_def alloc_pages_def Let_def)
    ultimately show ?thesis using False p(1) notin by auto
  qed
qed

lemma put_page_refines:
  assumes A: "global_alloc A" and pf: "phys_frame_ok pf" and r: "page_rep A held T P L D st"
    and p: "P p = Some f" "p \<notin> set (nodes L)" "p \<noteq> 0"
  shows "\<exists>st'. put_page A pf p st = Inr st' \<and> page_rep A held T (P(p := None)) L D st'"
proof -
  note rep = page_repD [OF r]
  obtain sl' where k: "kfree A p (pm_slab st) = Inr sl'" "blocks_ok A (P(p := None)) L sl'"
    by (rule blocks_free [OF A rep(4) p(1)])
  have total: "mset (free (pm_frames st)) + add_mset f (frames_of (P(p := None))) + D = T"
    using rep(3) frames_of_del [OF rep(1) p(1)] by simp
  then have sound: "frame_sound f" using rep(10) by (metis union_iff union_single_eq_member)
  let ?st = "st\<lparr>pm_frames := (pm_frames st)\<lparr>free := free (pm_frames st) @ [f]\<rparr>, pm_slab := sl',
    pm_nodes := (pm_nodes st)(p := None), pm_desc := (pm_desc st)(p := None)\<rparr>"
  have "put_page A pf p st = Inr ?st"
    using p k(1) rep(5) by (simp add: put_page_def Let_def frames_free_eq [OF pf sound])
  moreover have "lists_rep ((pm_nodes st)(p := None)) L" by (rule lists_rep_other [OF rep(6)]) (use p(2) in auto)
  moreover have "dom ((pm_nodes st)(p := None)) = dom (P(p := None)) \<union> fst ` set L"
    using rep(7) p(2) nodes_heads [of p L] by auto
  moreover have "\<forall>xs \<in> snd ` set L. set xs \<subseteq> dom (P(p := None))"
    using rep(8) p(2) nodes_member by fastforce
  ultimately have "page_rep A held T (P(p := None)) L D ?st"
    using rep k(2) total by (auto simp: page_rep_def)
  with \<open>put_page A pf p st = Inr ?st\<close> show ?thesis by blast
qed

lemma enqueue_refines:
  assumes S: "spin_ok S held" and r: "page_rep A held T P L D st"
    and pre: "b \<noteq> 0" "p \<noteq> 0" "pages_of b \<in> fst ` set L" "p \<in> dom P" "p \<notin> set (nodes L)"
  shows "\<exists>st'. balloon_page_enqueue S b p st = returns st' \<and>
    page_rep A held T P (on_list (pages_of b) (\<lambda>xs. xs @ [p]) L) D st'"
proof -
  note rep = page_repD [OF r]
  obtain l l' where l: "pm_locks st (pages_lock_of b) = Some l" "sm_lock S l = returns l'"
    "locks_free held L ((pm_locks st)(pages_lock_of b \<mapsto> sm_force_unlock S l'))"
    by (rule locks_freeD [OF rep(9) pre(3) S])
  have "abs_step (dom (pm_nodes st)) (Op_add_tail p (pages_of b)) L = Some (on_list (pages_of b) (\<lambda>xs. xs @ [p]) L)"
    using pre rep(7) by (simp add: fresh_def)
  then obtain h where h: "list_step (Op_add_tail p (pages_of b)) (pm_nodes st) = Inr h"
    "lists_rep h (on_list (pages_of b) (\<lambda>xs. xs @ [p]) L)" "dom h = dom (pm_nodes st)"
    using list_step_refines [OF rep(6)] by blast
  let ?st = "st\<lparr>pm_nodes := h, pm_locks := (pm_locks st)(pages_lock_of b \<mapsto> sm_force_unlock S l')\<rparr>"
  have "balloon_page_enqueue S b p st = returns ?st"
    using pre l h(1) by (simp add: balloon_page_enqueue_def spin_lock_def spin_unlock_def)
  moreover have "\<forall>xs \<in> snd ` set (on_list (pages_of b) (\<lambda>xs. xs @ [p]) L). set xs \<subseteq> dom P"
    by (rule list_entries_on_list [OF rep(8)]) (use pre(4) in auto)
  then have "page_rep A held T P (on_list (pages_of b) (\<lambda>xs. xs @ [p]) L) D ?st"
    using r l(3) h(2,3) by (simp add: page_rep_def blocks_ok_def locks_free_def)
  ultimately show ?thesis by blast
qed

lemma dequeue_refines:
  assumes S: "spin_ok S held" and r: "page_rep A held T P L D st" and pre: "b \<noteq> 0" "pages_of b \<in> fst ` set L"
  shows "\<exists>r st' L'. balloon_page_dequeue S b st = returns (r, st') \<and>
    page_post hhdm (Dequeue b) (r, None) P L D P L' D \<and> page_rep A held T P L' D st'"
proof -
  note rep = page_repD [OF r]
  obtain l l' where l: "pm_locks st (pages_lock_of b) = Some l" "sm_lock S l = returns l'"
    "locks_free held L ((pm_locks st)(pages_lock_of b \<mapsto> sm_force_unlock S l'))"
    by (rule locks_freeD [OF rep(9) pre(2) S])
  obtain xs where xs: "map_of L (pages_of b) = Some xs" using pre(2) by (metis map_of_eq_None_iff not_None_eq)
  then have "is_list (pm_nodes st) (pages_of b) xs" using rep(6) by (auto simp: lists_rep_def dest: map_of_SomeD)
  then obtain n where n: "pm_nodes st (pages_of b) = Some n" "lh_next n = hd (xs @ [pages_of b])" "0 \<notin> set xs" "pages_of b \<notin> set xs"
    using is_list_head_node [of "pm_nodes st" "pages_of b" xs] by (auto simp: is_list_def)
  let ?lk = "(pm_locks st)(pages_lock_of b \<mapsto> sm_force_unlock S l')"
  show ?thesis
  proof (cases xs)
    case Nil
    then have "balloon_page_dequeue S b st = returns (0, st\<lparr>pm_locks := ?lk\<rparr>)"
      using pre l n by (simp add: balloon_page_dequeue_def spin_lock_def spin_unlock_def load_node_def)
    moreover have "page_rep A held T P L D (st\<lparr>pm_locks := ?lk\<rparr>)" using r l(3) by (simp add: page_rep_def)
    ultimately show ?thesis using pre xs Nil by auto
  next
    case (Cons x ys)
    have "x \<in> \<Union> (set ` snd ` set L)" using map_of_SomeD [OF xs] Cons by force
    moreover have "distinct (nodes L)" using rep(6) by (simp add: lists_rep_def)
    ultimately have "abs_step (dom (pm_nodes st)) (Op_del x) L = Some (on_list (pages_of b) tl L)"
      using removeAll_first [of L "pages_of b" x ys] xs Cons by simp
    then obtain h where h: "list_step (Op_del x) (pm_nodes st) = Inr h" "lists_rep h (on_list (pages_of b) tl L)"
      "dom h = dom (pm_nodes st)"
      using list_step_refines [OF rep(6)] by blast
    let ?st = "st\<lparr>pm_nodes := h, pm_locks := ?lk\<rparr>"
    have "balloon_page_dequeue S b st = returns (x, ?st)"
      using pre l n Cons h(1) by (auto simp: balloon_page_dequeue_def spin_lock_def spin_unlock_def load_node_def)
    moreover have "\<forall>zs \<in> snd ` set (on_list (pages_of b) tl L). set zs \<subseteq> dom P"
      by (rule list_entries_on_list [OF rep(8)]) (metis list.set_sel(2) list.sel(2) subset_iff)
    then have "page_rep A held T P (on_list (pages_of b) tl L) D ?st"
      using r l(3) h(2,3) by (simp add: page_rep_def blocks_ok_def locks_free_def)
    ultimately show ?thesis using pre xs Cons by auto
  qed
qed

lemma dma_alloc_refines:
  assumes pf: "phys_frame_ok pf" and r: "page_rep A held T P L D st"
  shows "\<exists>r h st' D'. dma_alloc_coherent pf hhdm n False st = Inr (r, h, st') \<and>
    page_post hhdm (Dma_alloc n) (r, h) P L D P L D' \<and> page_rep A held T P L D' st'"
proof (cases "n = 0 \<or> FRAME_SIZE < n")
  case True
  then show ?thesis using r by (auto simp: dma_alloc_coherent_def)
next
  case False
  then have n: "n \<noteq> 0" "unat n \<le> 4096" by (simp_all add: FRAME_SIZE_def not_less word_le_nat_alt)
  show ?thesis
  proof (cases rule: frames_alloc_cases [OF pf page_repD(2) [OF r]])
    case 1
    then show ?thesis using r False by (auto simp: dma_alloc_coherent_def)
  next
    case (2 f fa')
    have "page_rep A held T P L (add_mset f D) (st\<lparr>pm_frames := fa'\<rparr>)" using r 2(4) by (simp add: page_rep_def)
    then show ?thesis using 2 False n by (auto simp: dma_alloc_coherent_def)
  qed
qed

lemma dma_free_refines:
  assumes pf: "phys_frame_ok pf" and r: "page_rep A held T P L D st" and h: "a \<noteq> 0" "h \<in># D"
  shows "\<exists>st'. dma_free_coherent pf n a h st = Inr st' \<and> page_rep A held T P L (D - {#h#}) st'"
proof -
  have "frame_sound h" using page_repD(3,10) [OF r] h(2) by (metis union_iff)
  moreover obtain D' where "D = add_mset h D'" using h(2) by (metis insert_DiffM)
  ultimately show ?thesis using r h(1) by (simp add: dma_free_coherent_def frames_free_eq [OF pf] page_rep_def)
qed

section \<open>Properties\<close>

text \<open>
  C23. Refinement of the page, balloon-list and DMA services. Over any global allocator, frame
  constructor and spin lock that keep their documented contracts, every call with arguments a
  driver may pass returns without panic or undefined behaviour and without waiting for ever on a
  lock, and acts on what the driver owns as specified: a page is fresh and in no list or NULL,
  put\_page returns page and frame, the page list of a device is a first-in first-out queue, a
  coherent buffer is one fresh frame at its direct-map address. Through every such call the free
  frames, the frames of live pages and the DMA frames together stay the same multiset \<open>T\<close>: no
  frame is lost, duplicated or given to two owners.
\<close>

theorem page_ops_refine:
  assumes "global_alloc A" "phys_frame_ok pf" "spin_ok S held" "page_rep A held T P L D st" "page_pre P L D c"
  shows "\<exists>r st' P' L' D'. page_step A pf S hhdm c st = returns (r, st') \<and>
    page_post hhdm c r P L D P' L' D' \<and> page_rep A held T P' L' D' st'"
proof (cases c)
  case Page_alloc
  obtain r st' P' where "balloon_page_alloc A pf st = Inr (r, st')"
    and "page_post hhdm Page_alloc (r, None) P L D P' L D" "page_rep A held T P' L D st'"
    using page_alloc_refines [OF assms(1,2,4)] by blast
  moreover from this(1) have "page_step A pf S hhdm Page_alloc st = returns ((r, None), st')" by simp
  ultimately show ?thesis unfolding Page_alloc by blast
next
  case (Page_put p)
  have "P(0 := None) = P" using page_rep_null [OF assms(4)] by auto
  then show ?thesis
    using put_page_refines [OF assms(1,2,4), of p] assms(4,5) Page_put by (cases "p = 0") (auto simp: put_page_def)
next
  case (Enqueue b p)
  then show ?thesis
    using enqueue_refines [OF assms(3,4), of b p] assms(4,5) by (cases "b = 0 \<or> p = 0") (auto simp: balloon_page_enqueue_def)
next
  case (Dequeue b)
  then show ?thesis
    using dequeue_refines [OF assms(3,4), of b hhdm] assms(4,5) by (cases "b = 0") (auto simp: balloon_page_dequeue_def)
next
  case (Dma_alloc n)
  then show ?thesis using dma_alloc_refines [OF assms(2,4), of hhdm n] by auto
next
  case (Dma_free a h)
  then show ?thesis
    using dma_free_refines [OF assms(2,4), of a h 0] assms(4,5) by (cases "a = 0") (auto simp: dma_free_coherent_def)
qed

text \<open>
  A machine with two free frames, a bump allocator and one balloon device, whose structure is a
  64-byte block; a lock is a flag.
\<close>

definition flag_lock :: "bool spin_crate" where
  "flag_lock = \<lparr>sm_new = False, sm_lock = (\<lambda>l. if l then None else returns True), sm_force_unlock = (\<lambda>_. False)\<rparr>"

definition demo_pmem :: "bump \<times> byte_mem \<Rightarrow> u64 \<Rightarrow> (bump, bool) pmem" where
  "demo_pmem sl k =
     \<lparr>pm_frames = \<lparr>free = [0x1000, 0x2000], total_added_ctr = 2\<rparr>, pm_slab = sl,
      pm_nodes = [k \<mapsto> \<lparr>lh_next = k, lh_prev = k\<rparr>], pm_desc = Map.empty, pm_locks = [k - 16 \<mapsto> False],
      pm_inflate_fired = False, pm_log = []\<rparr>"

lemma demo_pmem_rep:
  "\<exists>sl. page_rep bump_allocator (\<lambda>l. l) {#0x1000, 0x2000#} Map.empty [(0x1028, [])] {#} (demo_pmem sl 0x1028)"
proof -
  have rep0: "slab_rep bump_allocator Map.empty (fst bump_start, snd bump_start)"
    by (simp add: slab_rep_def alloc_ok_def bump_start_def bump_allocator_def)
  obtain p s m where k: "kmalloc bump_allocator 64 1 (fst bump_start, snd bump_start) = Inr (p, s, m)"
    "p \<noteq> 0 \<Longrightarrow> \<exists>bs. length bs = unat (64 :: usize) \<and> slab_rep bump_allocator (Map.empty(p \<mapsto> bs)) (s, m)"
    by (rule kmalloc_refines [OF bump_global_alloc rep0, of 64 1]) blast
  have "p = 0x1010"
    using k(1) by (simp add: kmalloc_def checked_add_def HEADER_SIZE_def PAYLOAD_ALIGN_def from_size_align_def size_fits_def
        call_alloc_def bump_allocator_def bump_start_def bump_alloc_def bump_fits_def)
  then obtain bs where bs: "length bs = 64" "slab_rep bump_allocator [0x1010 \<mapsto> bs] (s, m)" using k(2) by auto
  have "inside_block [0x1010 \<mapsto> bs] {} 0x1028" unfolding inside_block_def by (rule exI [of _ "0x1010"]) (simp add: bs(1))
  then have "blocks_ok bump_allocator Map.empty [(0x1028, [])] (s, m)"
    unfolding blocks_ok_def by (intro exI [of _ "[0x1010 \<mapsto> bs]"]) (use bs(2) in simp)
  then show ?thesis
    by (intro exI [of _ "(s, m)"])
      (auto simp: page_rep_def demo_pmem_def frames_of_def frame_sound_def lists_rep_def is_list_def linked_def locks_free_def)
qed

theorem page_ops_refine_witness:
  "\<exists>sl r st' P' L' D'. page_step bump_allocator x86_phys_frame flag_lock 0 Page_alloc (demo_pmem sl 0x1028) = returns (r, st') \<and>
     page_post 0 Page_alloc r Map.empty [(0x1028, [])] {#} P' L' D' \<and>
     mset (free (pm_frames st')) + frames_of P' + D' = {#0x1000, 0x2000#}"
proof -
  obtain sl where rep: "page_rep bump_allocator (\<lambda>l. l) {#0x1000, 0x2000#} Map.empty [(0x1028, [])] {#} (demo_pmem sl 0x1028)"
    using demo_pmem_rep by blast
  have "spin_ok flag_lock (\<lambda>l. l)" by (auto simp: spin_ok_def flag_lock_def)
  moreover have "page_pre Map.empty [(0x1028, [])] {#} Page_alloc" by simp
  ultimately obtain r st' P' L' D' where
    "page_step bump_allocator x86_phys_frame flag_lock 0 Page_alloc (demo_pmem sl 0x1028) = returns (r, st')"
    "page_post 0 Page_alloc r Map.empty [(0x1028, [])] {#} P' L' D'"
    "page_rep bump_allocator (\<lambda>l. l) {#0x1000, 0x2000#} P' L' D' st'"
    using page_ops_refine [OF bump_global_alloc x86_phys_frame_ok _ rep] by blast
  with page_repD(3) [OF this(3)] show ?thesis by blast
qed

text \<open>
  The bridge reports exhaustion as address 0, so a frame that starts at address 0 is taken from the
  pool and lost: both services answer NULL and no call can give it back.
\<close>

lemma frame_zero_lost:
  assumes "phys_frame_ok pf" "free (pm_frames st) = fs @ [0]"
  shows "balloon_page_alloc A pf st = Inr (0, st\<lparr>pm_frames := (pm_frames st)\<lparr>free := fs\<rparr>\<rparr>)"
    "dma_alloc_coherent pf hhdm 4096 False st = Inr (0, None, st\<lparr>pm_frames := (pm_frames st)\<lparr>free := fs\<rparr>\<rparr>)"
proof -
  have "pf 0 = Inr 0" using assms(1) by (simp add: phys_frame_ok_def)
  then show "balloon_page_alloc A pf st = Inr (0, st\<lparr>pm_frames := (pm_frames st)\<lparr>free := fs\<rparr>\<rparr>)"
    "dma_alloc_coherent pf hhdm 4096 False st = Inr (0, None, st\<lparr>pm_frames := (pm_frames st)\<lparr>free := fs\<rparr>\<rparr>)"
    using assms(2)
    by (simp_all add: balloon_page_alloc_def alloc_pages_def dma_alloc_coherent_def linuxkpi_frames_alloc_frame_def
        alloc_frame_def FRAME_SIZE_def Let_def)
qed

end
