(* ===== verification/FbFont.thy ===== *)
theory FbFont
  imports Prelude
begin

text \<open>
  The 8x16 console font, arsenal-kernel/src/fb\_font.rs: 256 glyphs of 16 rows, one byte per row,
  the most significant bit leftmost. The array is split in sixteen blocks of sixteen glyphs.
\<close>

definition GLYPH_W :: usize where "GLYPH_W = 8"
definition GLYPH_H :: usize where "GLYPH_H = 16"

definition FONT_0 :: "u8 list list" where
  "FONT_0 = [
    [0, 0, 0, 0, 0, 0, 0, 0, 0, 0, 0, 0, 0, 0, 0, 0],
    [0, 0, 0, 0, 0, 0, 0, 0, 0, 0, 0, 0, 0, 0, 0, 0],
    [0, 0, 0, 0, 0, 0, 0, 0, 0, 0, 0, 0, 0, 0, 0, 0],
    [0, 0, 0, 0, 0, 0, 0, 0, 0, 0, 0, 0, 0, 0, 0, 0],
    [0, 0, 0, 0, 0, 0, 0, 0, 0, 0, 0, 0, 0, 0, 0, 0],
    [0, 0, 0, 0, 0, 0, 0, 0, 0, 0, 0, 0, 0, 0, 0, 0],
    [0, 0, 0, 0, 0, 0, 0, 0, 0, 0, 0, 0, 0, 0, 0, 0],
    [0, 0, 0, 0, 0, 0, 0, 0, 0, 0, 0, 0, 0, 0, 0, 0],
    [0, 0, 0, 0, 0, 0, 0, 0, 0, 0, 0, 0, 0, 0, 0, 0],
    [0, 0, 0, 0, 0, 0, 0, 0, 0, 0, 0, 0, 0, 0, 0, 0],
    [0, 0, 0, 0, 0, 0, 0, 0, 0, 0, 0, 0, 0, 0, 0, 0],
    [0, 0, 0, 0, 0, 0, 0, 0, 0, 0, 0, 0, 0, 0, 0, 0],
    [0, 0, 0, 0, 0, 0, 0, 0, 0, 0, 0, 0, 0, 0, 0, 0],
    [0, 0, 0, 0, 0, 0, 0, 0, 0, 0, 0, 0, 0, 0, 0, 0],
    [0, 0, 0, 0, 0, 0, 0, 0, 0, 0, 0, 0, 0, 0, 0, 0],
    [0, 0, 0, 0, 0, 0, 0, 0, 0, 0, 0, 0, 0, 0, 0, 0]]"

definition FONT_1 :: "u8 list list" where
  "FONT_1 = [
    [0, 0, 0, 0, 0, 0, 0, 0, 0, 0, 0, 0, 0, 0, 0, 0],
    [0, 0, 0, 0, 0, 0, 0, 0, 0, 0, 0, 0, 0, 0, 0, 0],
    [0, 0, 0, 0, 0, 0, 0, 0, 0, 0, 0, 0, 0, 0, 0, 0],
    [0, 0, 0, 0, 0, 0, 0, 0, 0, 0, 0, 0, 0, 0, 0, 0],
    [0, 0, 0, 0, 0, 0, 0, 0, 0, 0, 0, 0, 0, 0, 0, 0],
    [0, 0, 0, 0, 0, 0, 0, 0, 0, 0, 0, 0, 0, 0, 0, 0],
    [0, 0, 0, 0, 0, 0, 0, 0, 0, 0, 0, 0, 0, 0, 0, 0],
    [0, 0, 0, 0, 0, 0, 0, 0, 0, 0, 0, 0, 0, 0, 0, 0],
    [0, 0, 0, 0, 0, 0, 0, 0, 0, 0, 0, 0, 0, 0, 0, 0],
    [0, 0, 0, 0, 0, 0, 0, 0, 0, 0, 0, 0, 0, 0, 0, 0],
    [0, 0, 0, 0, 0, 0, 0, 0, 0, 0, 0, 0, 0, 0, 0, 0],
    [0, 0, 0, 0, 0, 0, 0, 0, 0, 0, 0, 0, 0, 0, 0, 0],
    [0, 0, 0, 0, 0, 0, 0, 0, 0, 0, 0, 0, 0, 0, 0, 0],
    [0, 0, 0, 0, 0, 0, 0, 0, 0, 0, 0, 0, 0, 0, 0, 0],
    [0, 0, 0, 0, 0, 0, 0, 0, 0, 0, 0, 0, 0, 0, 0, 0],
    [0, 0, 0, 0, 0, 0, 0, 0, 0, 0, 0, 0, 0, 0, 0, 0]]"

definition FONT_2 :: "u8 list list" where
  "FONT_2 = [
    [0, 0, 0, 0, 0, 0, 0, 0, 0, 0, 0, 0, 0, 0, 0, 0],
    [0, 0, 0x18, 0x18, 0x18, 0x18, 0x18, 0x18, 0x18, 0, 0x18, 0x18, 0, 0, 0, 0],
    [0, 0x66, 0x66, 0x66, 0x66, 0, 0, 0, 0, 0, 0, 0, 0, 0, 0, 0],
    [0, 0, 0x6C, 0x6C, 0xFE, 0x6C, 0x6C, 0x6C, 0x6C, 0xFE, 0x6C, 0x6C, 0, 0, 0, 0],
    [0, 0x10, 0x7E, 0xD0, 0xD0, 0xD0, 0x7C, 0x16, 0x16, 0x16, 0x16, 0xFC, 0x10, 0, 0, 0],
    [0, 0, 0x06, 0x66, 0x6C, 0x0C, 0x18, 0x18, 0x30, 0x36, 0x66, 0x60, 0, 0, 0, 0],
    [0, 0, 0x38, 0x6C, 0x6C, 0x6C, 0x38, 0x70, 0xDA, 0xCC, 0xCC, 0x7A, 0, 0, 0, 0],
    [0, 0x18, 0x18, 0x18, 0x18, 0, 0, 0, 0, 0, 0, 0, 0, 0, 0, 0],
    [0, 0x0E, 0x18, 0x30, 0x30, 0x60, 0x60, 0x60, 0x60, 0x30, 0x30, 0x18, 0x0E, 0, 0, 0],
    [0, 0x70, 0x18, 0x0C, 0x0C, 0x06, 0x06, 0x06, 0x06, 0x0C, 0x0C, 0x18, 0x70, 0, 0, 0],
    [0, 0, 0, 0, 0x66, 0x3C, 0x18, 0xFF, 0x18, 0x3C, 0x66, 0, 0, 0, 0, 0],
    [0, 0, 0, 0, 0, 0x18, 0x18, 0x7E, 0x18, 0x18, 0, 0, 0, 0, 0, 0],
    [0, 0, 0, 0, 0, 0, 0, 0, 0, 0, 0x18, 0x18, 0x30, 0, 0, 0],
    [0, 0, 0, 0, 0, 0, 0, 0x7E, 0, 0, 0, 0, 0, 0, 0, 0],
    [0, 0, 0, 0, 0, 0, 0, 0, 0, 0, 0x18, 0x18, 0, 0, 0, 0],
    [0, 0x06, 0x06, 0x0C, 0x0C, 0x18, 0x18, 0x30, 0x30, 0x60, 0x60, 0xC0, 0xC0, 0, 0, 0]]"

definition FONT_3 :: "u8 list list" where
  "FONT_3 = [
    [0, 0, 0x7C, 0xC6, 0xC6, 0xCE, 0xDE, 0xF6, 0xE6, 0xC6, 0xC6, 0x7C, 0, 0, 0, 0],
    [0, 0, 0x18, 0x38, 0x78, 0x58, 0x18, 0x18, 0x18, 0x18, 0x18, 0x7E, 0, 0, 0, 0],
    [0, 0, 0x7C, 0xC6, 0x06, 0x06, 0x0C, 0x18, 0x30, 0x60, 0xC6, 0xFE, 0, 0, 0, 0],
    [0, 0, 0x7C, 0xC6, 0x06, 0x06, 0x3C, 0x06, 0x06, 0x06, 0xC6, 0x7C, 0, 0, 0, 0],
    [0, 0, 0xC0, 0xC0, 0xCC, 0xCC, 0xCC, 0xCC, 0xFE, 0x0C, 0x0C, 0x0C, 0, 0, 0, 0],
    [0, 0, 0xFE, 0xC6, 0xC0, 0xC0, 0xFC, 0x06, 0x06, 0x06, 0xC6, 0x7C, 0, 0, 0, 0],
    [0, 0, 0x7C, 0xC6, 0xC0, 0xC0, 0xFC, 0xC6, 0xC6, 0xC6, 0xC6, 0x7C, 0, 0, 0, 0],
    [0, 0, 0xFE, 0xC6, 0x06, 0x06, 0x0C, 0x18, 0x30, 0x30, 0x30, 0x30, 0, 0, 0, 0],
    [0, 0, 0x7C, 0xC6, 0xC6, 0xC6, 0x7C, 0xC6, 0xC6, 0xC6, 0xC6, 0x7C, 0, 0, 0, 0],
    [0, 0, 0x7C, 0xC6, 0xC6, 0xC6, 0xC6, 0x7E, 0x06, 0x06, 0xC6, 0x7C, 0, 0, 0, 0],
    [0, 0, 0, 0, 0, 0x18, 0x18, 0, 0, 0, 0x18, 0x18, 0, 0, 0, 0],
    [0, 0, 0, 0, 0, 0x18, 0x18, 0, 0, 0, 0x18, 0x18, 0x30, 0, 0, 0],
    [0, 0, 0x06, 0x0C, 0x18, 0x30, 0x60, 0x60, 0x30, 0x18, 0x0C, 0x06, 0, 0, 0, 0],
    [0, 0, 0, 0, 0, 0x7E, 0, 0, 0x7E, 0, 0, 0, 0, 0, 0, 0],
    [0, 0, 0x60, 0x30, 0x18, 0x0C, 0x06, 0x06, 0x0C, 0x18, 0x30, 0x60, 0, 0, 0, 0],
    [0, 0, 0x7C, 0xC6, 0x06, 0x0C, 0x18, 0x30, 0x30, 0, 0x30, 0x30, 0, 0, 0, 0]]"

definition FONT_4 :: "u8 list list" where
  "FONT_4 = [
    [0, 0, 0, 0x7C, 0xC2, 0xDA, 0xDA, 0xDA, 0xDA, 0xDE, 0xC0, 0x7C, 0, 0, 0, 0],
    [0, 0, 0x7C, 0xC6, 0xC6, 0xC6, 0xFE, 0xC6, 0xC6, 0xC6, 0xC6, 0xC6, 0, 0, 0, 0],
    [0, 0, 0xFC, 0xC6, 0xC6, 0xC6, 0xFC, 0xC6, 0xC6, 0xC6, 0xC6, 0xFC, 0, 0, 0, 0],
    [0, 0, 0x7E, 0xC0, 0xC0, 0xC0, 0xC0, 0xC0, 0xC0, 0xC0, 0xC0, 0x7E, 0, 0, 0, 0],
    [0, 0, 0xFC, 0xC6, 0xC6, 0xC6, 0xC6, 0xC6, 0xC6, 0xC6, 0xC6, 0xFC, 0, 0, 0, 0],
    [0, 0, 0x7E, 0xC0, 0xC0, 0xC0, 0xF8, 0xC0, 0xC0, 0xC0, 0xC0, 0x7E, 0, 0, 0, 0],
    [0, 0, 0x7E, 0xC0, 0xC0, 0xC0, 0xF8, 0xC0, 0xC0, 0xC0, 0xC0, 0xC0, 0, 0, 0, 0],
    [0, 0, 0x7E, 0xC0, 0xC0, 0xC0, 0xDE, 0xC6, 0xC6, 0xC6, 0xC6, 0x7E, 0, 0, 0, 0],
    [0, 0, 0xC6, 0xC6, 0xC6, 0xC6, 0xFE, 0xC6, 0xC6, 0xC6, 0xC6, 0xC6, 0, 0, 0, 0],
    [0, 0, 0x7E, 0x18, 0x18, 0x18, 0x18, 0x18, 0x18, 0x18, 0x18, 0x7E, 0, 0, 0, 0],
    [0, 0, 0x7E, 0x18, 0x18, 0x18, 0x18, 0x18, 0x18, 0x18, 0x18, 0xF0, 0, 0, 0, 0],
    [0, 0, 0xC6, 0xC6, 0xC6, 0xCC, 0xF8, 0xCC, 0xC6, 0xC6, 0xC6, 0xC6, 0, 0, 0, 0],
    [0, 0, 0xC0, 0xC0, 0xC0, 0xC0, 0xC0, 0xC0, 0xC0, 0xC0, 0xC0, 0x7E, 0, 0, 0, 0],
    [0, 0, 0xC6, 0xEE, 0xFE, 0xD6, 0xC6, 0xC6, 0xC6, 0xC6, 0xC6, 0xC6, 0, 0, 0, 0],
    [0, 0, 0xC6, 0xC6, 0xE6, 0xE6, 0xD6, 0xD6, 0xCE, 0xCE, 0xC6, 0xC6, 0, 0, 0, 0],
    [0, 0, 0x7C, 0xC6, 0xC6, 0xC6, 0xC6, 0xC6, 0xC6, 0xC6, 0xC6, 0x7C, 0, 0, 0, 0]]"

definition FONT_5 :: "u8 list list" where
  "FONT_5 = [
    [0, 0, 0xFC, 0xC6, 0xC6, 0xC6, 0xFC, 0xC0, 0xC0, 0xC0, 0xC0, 0xC0, 0, 0, 0, 0],
    [0, 0, 0x7C, 0xC6, 0xC6, 0xC6, 0xC6, 0xC6, 0xC6, 0xD6, 0xD6, 0x7C, 0x18, 0x0C, 0, 0],
    [0, 0, 0xFC, 0xC6, 0xC6, 0xC6, 0xFC, 0xC6, 0xC6, 0xC6, 0xC6, 0xC6, 0, 0, 0, 0],
    [0, 0, 0x7E, 0xC0, 0xC0, 0xC0, 0x7C, 0x06, 0x06, 0x06, 0x06, 0xFC, 0, 0, 0, 0],
    [0, 0, 0xFF, 0x18, 0x18, 0x18, 0x18, 0x18, 0x18, 0x18, 0x18, 0x18, 0, 0, 0, 0],
    [0, 0, 0xC6, 0xC6, 0xC6, 0xC6, 0xC6, 0xC6, 0xC6, 0xC6, 0xC6, 0x7E, 0, 0, 0, 0],
    [0, 0, 0xC6, 0xC6, 0xC6, 0xC6, 0xC6, 0xC6, 0xC6, 0x6C, 0x38, 0x10, 0, 0, 0, 0],
    [0, 0, 0xC6, 0xC6, 0xC6, 0xC6, 0xC6, 0xC6, 0xD6, 0xFE, 0xEE, 0xC6, 0, 0, 0, 0],
    [0, 0, 0xC6, 0xC6, 0xC6, 0x6C, 0x38, 0x6C, 0xC6, 0xC6, 0xC6, 0xC6, 0, 0, 0, 0],
    [0, 0, 0xC6, 0xC6, 0xC6, 0xC6, 0x7E, 0x06, 0x06, 0x06, 0x06, 0xFC, 0, 0, 0, 0],
    [0, 0, 0xFE, 0x06, 0x06, 0x0C, 0x18, 0x30, 0x60, 0xC0, 0xC0, 0xFE, 0, 0, 0, 0],
    [0, 0x3E, 0x30, 0x30, 0x30, 0x30, 0x30, 0x30, 0x30, 0x30, 0x30, 0x30, 0x3E, 0, 0, 0],
    [0, 0xC0, 0xC0, 0x60, 0x60, 0x30, 0x30, 0x18, 0x18, 0x0C, 0x0C, 0x06, 0x06, 0, 0, 0],
    [0, 0x7C, 0x0C, 0x0C, 0x0C, 0x0C, 0x0C, 0x0C, 0x0C, 0x0C, 0x0C, 0x0C, 0x7C, 0, 0, 0],
    [0, 0x10, 0x38, 0x6C, 0xC6, 0, 0, 0, 0, 0, 0, 0, 0, 0, 0, 0],
    [0, 0, 0, 0, 0, 0, 0, 0, 0, 0, 0, 0, 0, 0, 0xFE, 0]]"

definition FONT_6 :: "u8 list list" where
  "FONT_6 = [
    [0, 0x30, 0x18, 0x0C, 0, 0, 0, 0, 0, 0, 0, 0, 0, 0, 0, 0],
    [0, 0, 0, 0, 0, 0x7C, 0x06, 0x7E, 0xC6, 0xC6, 0xC6, 0x7E, 0, 0, 0, 0],
    [0, 0, 0xC0, 0xC0, 0xC0, 0xFC, 0xC6, 0xC6, 0xC6, 0xC6, 0xC6, 0xFC, 0, 0, 0, 0],
    [0, 0, 0, 0, 0, 0x7E, 0xC0, 0xC0, 0xC0, 0xC0, 0xC0, 0x7E, 0, 0, 0, 0],
    [0, 0, 0x06, 0x06, 0x06, 0x7E, 0xC6, 0xC6, 0xC6, 0xC6, 0xC6, 0x7E, 0, 0, 0, 0],
    [0, 0, 0, 0, 0, 0x7E, 0xC6, 0xC6, 0xFE, 0xC0, 0xC0, 0x7E, 0, 0, 0, 0],
    [0, 0, 0x1E, 0x30, 0x30, 0x30, 0x7C, 0x30, 0x30, 0x30, 0x30, 0x30, 0, 0, 0, 0],
    [0, 0, 0, 0, 0, 0x7E, 0xC6, 0xC6, 0xC6, 0xC6, 0xC6, 0x7C, 0x06, 0x06, 0xFC, 0],
    [0, 0, 0xC0, 0xC0, 0xC0, 0xFC, 0xC6, 0xC6, 0xC6, 0xC6, 0xC6, 0xC6, 0, 0, 0, 0],
    [0, 0, 0x18, 0x18, 0, 0x38, 0x18, 0x18, 0x18, 0x18, 0x18, 0x1C, 0, 0, 0, 0],
    [0, 0, 0x18, 0x18, 0, 0x18, 0x18, 0x18, 0x18, 0x18, 0x18, 0x18, 0x18, 0x18, 0x70, 0],
    [0, 0, 0xC0, 0xC0, 0xC0, 0xCC, 0xD8, 0xF0, 0xF0, 0xD8, 0xCC, 0xC6, 0, 0, 0, 0],
    [0, 0, 0x30, 0x30, 0x30, 0x30, 0x30, 0x30, 0x30, 0x30, 0x30, 0x1C, 0, 0, 0, 0],
    [0, 0, 0, 0, 0, 0xEC, 0xD6, 0xD6, 0xD6, 0xD6, 0xC6, 0xC6, 0, 0, 0, 0],
    [0, 0, 0, 0, 0, 0xFC, 0xC6, 0xC6, 0xC6, 0xC6, 0xC6, 0xC6, 0, 0, 0, 0],
    [0, 0, 0, 0, 0, 0x7C, 0xC6, 0xC6, 0xC6, 0xC6, 0xC6, 0x7C, 0, 0, 0, 0]]"

definition FONT_7 :: "u8 list list" where
  "FONT_7 = [
    [0, 0, 0, 0, 0, 0xFC, 0xC6, 0xC6, 0xC6, 0xC6, 0xC6, 0xFC, 0xC0, 0xC0, 0xC0, 0],
    [0, 0, 0, 0, 0, 0x7E, 0xC6, 0xC6, 0xC6, 0xC6, 0xC6, 0x7E, 0x06, 0x06, 0x06, 0],
    [0, 0, 0, 0, 0, 0x7E, 0xC6, 0xC0, 0xC0, 0xC0, 0xC0, 0xC0, 0, 0, 0, 0],
    [0, 0, 0, 0, 0, 0x7E, 0xC0, 0xC0, 0x7C, 0x06, 0x06, 0xFC, 0, 0, 0, 0],
    [0, 0, 0x30, 0x30, 0x30, 0x7C, 0x30, 0x30, 0x30, 0x30, 0x30, 0x1E, 0, 0, 0, 0],
    [0, 0, 0, 0, 0, 0xC6, 0xC6, 0xC6, 0xC6, 0xC6, 0xC6, 0x7E, 0, 0, 0, 0],
    [0, 0, 0, 0, 0, 0xC6, 0xC6, 0xC6, 0xC6, 0x6C, 0x38, 0x10, 0, 0, 0, 0],
    [0, 0, 0, 0, 0, 0xC6, 0xC6, 0xD6, 0xD6, 0xD6, 0xD6, 0x6E, 0, 0, 0, 0],
    [0, 0, 0, 0, 0, 0xC6, 0x6C, 0x38, 0x38, 0x6C, 0xC6, 0xC6, 0, 0, 0, 0],
    [0, 0, 0, 0, 0, 0xC6, 0xC6, 0xC6, 0xC6, 0xC6, 0xC6, 0x7E, 0x06, 0x06, 0xFC, 0],
    [0, 0, 0, 0, 0, 0xFE, 0x06, 0x0C, 0x18, 0x30, 0x60, 0xFE, 0, 0, 0, 0],
    [0, 0x0E, 0x18, 0x18, 0x18, 0x18, 0x70, 0x70, 0x18, 0x18, 0x18, 0x18, 0x0E, 0, 0, 0],
    [0, 0x18, 0x18, 0x18, 0x18, 0x18, 0x18, 0x18, 0x18, 0x18, 0x18, 0x18, 0x18, 0, 0, 0],
    [0, 0x70, 0x18, 0x18, 0x18, 0x18, 0x0E, 0x0E, 0x18, 0x18, 0x18, 0x18, 0x70, 0, 0, 0],
    [0, 0, 0, 0, 0, 0, 0x32, 0x7E, 0x4C, 0, 0, 0, 0, 0, 0, 0],
    [0, 0, 0, 0, 0, 0, 0, 0, 0, 0, 0, 0, 0, 0, 0, 0]]"

definition FONT_8 :: "u8 list list" where
  "FONT_8 = [
    [0, 0, 0, 0, 0, 0, 0, 0, 0, 0, 0, 0, 0, 0, 0, 0],
    [0, 0, 0, 0, 0, 0, 0, 0, 0, 0, 0, 0, 0, 0, 0, 0],
    [0, 0, 0, 0, 0, 0, 0, 0, 0, 0, 0, 0, 0, 0, 0, 0],
    [0, 0, 0, 0, 0, 0, 0, 0, 0, 0, 0, 0, 0, 0, 0, 0],
    [0, 0, 0, 0, 0, 0, 0, 0, 0, 0, 0, 0, 0, 0, 0, 0],
    [0, 0, 0, 0, 0, 0, 0, 0, 0, 0, 0, 0, 0, 0, 0, 0],
    [0, 0, 0, 0, 0, 0, 0, 0, 0, 0, 0, 0, 0, 0, 0, 0],
    [0, 0, 0, 0, 0, 0, 0, 0, 0, 0, 0, 0, 0, 0, 0, 0],
    [0, 0, 0, 0, 0, 0, 0, 0, 0, 0, 0, 0, 0, 0, 0, 0],
    [0, 0, 0, 0, 0, 0, 0, 0, 0, 0, 0, 0, 0, 0, 0, 0],
    [0, 0, 0, 0, 0, 0, 0, 0, 0, 0, 0, 0, 0, 0, 0, 0],
    [0, 0, 0, 0, 0, 0, 0, 0, 0, 0, 0, 0, 0, 0, 0, 0],
    [0, 0, 0, 0, 0, 0, 0, 0, 0, 0, 0, 0, 0, 0, 0, 0],
    [0, 0, 0, 0, 0, 0, 0, 0, 0, 0, 0, 0, 0, 0, 0, 0],
    [0, 0, 0, 0, 0, 0, 0, 0, 0, 0, 0, 0, 0, 0, 0, 0],
    [0, 0, 0, 0, 0, 0, 0, 0, 0, 0, 0, 0, 0, 0, 0, 0]]"

definition FONT_9 :: "u8 list list" where
  "FONT_9 = [
    [0, 0, 0, 0, 0, 0, 0, 0, 0, 0, 0, 0, 0, 0, 0, 0],
    [0, 0, 0, 0, 0, 0, 0, 0, 0, 0, 0, 0, 0, 0, 0, 0],
    [0, 0, 0, 0, 0, 0, 0, 0, 0, 0, 0, 0, 0, 0, 0, 0],
    [0, 0, 0, 0, 0, 0, 0, 0, 0, 0, 0, 0, 0, 0, 0, 0],
    [0, 0, 0, 0, 0, 0, 0, 0, 0, 0, 0, 0, 0, 0, 0, 0],
    [0, 0, 0, 0, 0, 0, 0, 0, 0, 0, 0, 0, 0, 0, 0, 0],
    [0, 0, 0, 0, 0, 0, 0, 0, 0, 0, 0, 0, 0, 0, 0, 0],
    [0, 0, 0, 0, 0, 0, 0, 0, 0, 0, 0, 0, 0, 0, 0, 0],
    [0, 0, 0, 0, 0, 0, 0, 0, 0, 0, 0, 0, 0, 0, 0, 0],
    [0, 0, 0, 0, 0, 0, 0, 0, 0, 0, 0, 0, 0, 0, 0, 0],
    [0, 0, 0, 0, 0, 0, 0, 0, 0, 0, 0, 0, 0, 0, 0, 0],
    [0, 0, 0, 0, 0, 0, 0, 0, 0, 0, 0, 0, 0, 0, 0, 0],
    [0, 0, 0, 0, 0, 0, 0, 0, 0, 0, 0, 0, 0, 0, 0, 0],
    [0, 0, 0, 0, 0, 0, 0, 0, 0, 0, 0, 0, 0, 0, 0, 0],
    [0, 0, 0, 0, 0, 0, 0, 0, 0, 0, 0, 0, 0, 0, 0, 0],
    [0, 0, 0, 0, 0, 0, 0, 0, 0, 0, 0, 0, 0, 0, 0, 0]]"

definition FONT_A :: "u8 list list" where
  "FONT_A = [
    [0, 0, 0, 0, 0, 0, 0, 0, 0, 0, 0, 0, 0, 0, 0, 0],
    [0, 0, 0x18, 0x18, 0, 0x18, 0x18, 0x18, 0x18, 0x18, 0x18, 0x18, 0, 0, 0, 0],
    [0, 0, 0, 0, 0x08, 0x7E, 0xC8, 0xC8, 0xC8, 0xC8, 0xC8, 0x7E, 0x08, 0, 0, 0],
    [0, 0, 0x38, 0x6C, 0x60, 0x60, 0x60, 0xF8, 0x60, 0x60, 0xC0, 0xFE, 0, 0, 0, 0],
    [0, 0, 0, 0, 0, 0x66, 0x3C, 0x66, 0x66, 0x66, 0x3C, 0x66, 0, 0, 0, 0],
    [0, 0, 0xC3, 0xC3, 0x66, 0x3C, 0x18, 0x3C, 0x18, 0x3C, 0x18, 0x18, 0, 0, 0, 0],
    [0, 0, 0x18, 0x18, 0x18, 0x18, 0x18, 0, 0, 0x18, 0x18, 0x18, 0x18, 0x18, 0, 0],
    [0, 0x3C, 0x66, 0x60, 0x30, 0x3C, 0x66, 0x66, 0x66, 0x66, 0x3C, 0x0C, 0x06, 0x66, 0x3C, 0],
    [0, 0, 0x6C, 0x6C, 0, 0, 0, 0, 0, 0, 0, 0, 0, 0, 0, 0],
    [0, 0, 0, 0x7C, 0x82, 0x9A, 0xA2, 0xA2, 0xA2, 0x9A, 0x82, 0x7C, 0, 0, 0, 0],
    [0, 0x38, 0x0C, 0x3C, 0x4C, 0x3C, 0, 0x7C, 0, 0, 0, 0, 0, 0, 0, 0],
    [0, 0, 0, 0, 0, 0, 0x33, 0x66, 0xCC, 0x66, 0x33, 0, 0, 0, 0, 0],
    [0, 0, 0, 0, 0, 0, 0xFE, 0x06, 0x06, 0x06, 0, 0, 0, 0, 0, 0],
    [0, 0, 0, 0, 0, 0, 0, 0, 0x3C, 0, 0, 0, 0, 0, 0, 0],
    [0, 0, 0, 0x7C, 0x82, 0xBA, 0xAA, 0xB2, 0xAA, 0xAA, 0x82, 0x7C, 0, 0, 0, 0],
    [0, 0x7C, 0, 0, 0, 0, 0, 0, 0, 0, 0, 0, 0, 0, 0, 0]]"

definition FONT_B :: "u8 list list" where
  "FONT_B = [
    [0, 0x38, 0x6C, 0x6C, 0x38, 0, 0, 0, 0, 0, 0, 0, 0, 0, 0, 0],
    [0, 0, 0, 0, 0, 0x18, 0x18, 0x7E, 0x18, 0x18, 0, 0x7E, 0, 0, 0, 0],
    [0, 0x38, 0x4C, 0x0C, 0x38, 0x60, 0x7C, 0, 0, 0, 0, 0, 0, 0, 0, 0],
    [0, 0x1C, 0x26, 0x0C, 0x06, 0x26, 0x1C, 0, 0, 0, 0, 0, 0, 0, 0, 0],
    [0, 0x0C, 0x18, 0x30, 0, 0, 0, 0, 0, 0, 0, 0, 0, 0, 0, 0],
    [0, 0, 0, 0, 0, 0xCC, 0xCC, 0xCC, 0xCC, 0xCC, 0xCC, 0xF6, 0xC0, 0xC0, 0xC0, 0],
    [0, 0, 0x7E, 0xD6, 0xD6, 0xD6, 0x76, 0x16, 0x16, 0x16, 0x16, 0x16, 0, 0, 0, 0],
    [0, 0, 0, 0, 0, 0, 0, 0x18, 0x18, 0, 0, 0, 0, 0, 0, 0],
    [0, 0, 0, 0, 0, 0, 0, 0, 0, 0, 0, 0, 0x18, 0x18, 0x30, 0],
    [0, 0x18, 0x38, 0x18, 0x18, 0x18, 0x3C, 0, 0, 0, 0, 0, 0, 0, 0, 0],
    [0, 0x38, 0x6C, 0x6C, 0x38, 0, 0, 0x7C, 0, 0, 0, 0, 0, 0, 0, 0],
    [0, 0, 0, 0, 0, 0, 0xCC, 0x66, 0x33, 0x66, 0xCC, 0, 0, 0, 0, 0],
    [0, 0x40, 0xC0, 0x40, 0x42, 0x46, 0xEC, 0x18, 0x30, 0x70, 0xD4, 0x94, 0x1E, 0x04, 0x04, 0],
    [0, 0x40, 0xC0, 0x40, 0x42, 0x46, 0xEC, 0x18, 0x30, 0x6C, 0xD2, 0x82, 0x0C, 0x10, 0x1E, 0],
    [0, 0x60, 0x90, 0x20, 0x12, 0x96, 0x6C, 0x18, 0x30, 0x70, 0xD4, 0x94, 0x1E, 0x04, 0x04, 0],
    [0, 0, 0x18, 0x18, 0, 0x18, 0x18, 0x30, 0x60, 0xC0, 0xC6, 0x7C, 0, 0, 0, 0]]"

definition FONT_C :: "u8 list list" where
  "FONT_C = [
    [0x30, 0x18, 0, 0x7C, 0xC6, 0xC6, 0xC6, 0xFE, 0xC6, 0xC6, 0xC6, 0xC6, 0, 0, 0, 0],
    [0x18, 0x30, 0, 0x7C, 0xC6, 0xC6, 0xC6, 0xFE, 0xC6, 0xC6, 0xC6, 0xC6, 0, 0, 0, 0],
    [0x38, 0x6C, 0, 0x7C, 0xC6, 0xC6, 0xC6, 0xFE, 0xC6, 0xC6, 0xC6, 0xC6, 0, 0, 0, 0],
    [0x32, 0x4C, 0, 0x7C, 0xC6, 0xC6, 0xC6, 0xFE, 0xC6, 0xC6, 0xC6, 0xC6, 0, 0, 0, 0],
    [0x6C, 0x6C, 0, 0x7C, 0xC6, 0xC6, 0xC6, 0xFE, 0xC6, 0xC6, 0xC6, 0xC6, 0, 0, 0, 0],
    [0x38, 0x6C, 0x38, 0x7C, 0xC6, 0xC6, 0xC6, 0xFE, 0xC6, 0xC6, 0xC6, 0xC6, 0, 0, 0, 0],
    [0, 0, 0x7E, 0xD8, 0xD8, 0xD8, 0xFE, 0xD8, 0xD8, 0xD8, 0xD8, 0xDE, 0, 0, 0, 0],
    [0, 0, 0x7E, 0xC0, 0xC0, 0xC0, 0xC0, 0xC0, 0xC0, 0xC0, 0xC0, 0x7E, 0x18, 0x18, 0x30, 0],
    [0x30, 0x18, 0, 0x7E, 0xC0, 0xC0, 0xC0, 0xF8, 0xC0, 0xC0, 0xC0, 0x7E, 0, 0, 0, 0],
    [0x18, 0x30, 0, 0x7E, 0xC0, 0xC0, 0xC0, 0xF8, 0xC0, 0xC0, 0xC0, 0x7E, 0, 0, 0, 0],
    [0x38, 0x6C, 0, 0x7E, 0xC0, 0xC0, 0xC0, 0xF8, 0xC0, 0xC0, 0xC0, 0x7E, 0, 0, 0, 0],
    [0x6C, 0x6C, 0, 0x7E, 0xC0, 0xC0, 0xC0, 0xF8, 0xC0, 0xC0, 0xC0, 0x7E, 0, 0, 0, 0],
    [0x30, 0x18, 0, 0x7E, 0x18, 0x18, 0x18, 0x18, 0x18, 0x18, 0x18, 0x7E, 0, 0, 0, 0],
    [0x0C, 0x18, 0, 0x7E, 0x18, 0x18, 0x18, 0x18, 0x18, 0x18, 0x18, 0x7E, 0, 0, 0, 0],
    [0x38, 0x6C, 0, 0x7E, 0x18, 0x18, 0x18, 0x18, 0x18, 0x18, 0x18, 0x7E, 0, 0, 0, 0],
    [0x66, 0x66, 0, 0x7E, 0x18, 0x18, 0x18, 0x18, 0x18, 0x18, 0x18, 0x7E, 0, 0, 0, 0]]"

definition FONT_D :: "u8 list list" where
  "FONT_D = [
    [0, 0, 0x7C, 0x66, 0x66, 0x66, 0xF6, 0x66, 0x66, 0x66, 0x66, 0x7C, 0, 0, 0, 0],
    [0x32, 0x4C, 0, 0xC6, 0xE6, 0xE6, 0xD6, 0xD6, 0xCE, 0xCE, 0xC6, 0xC6, 0, 0, 0, 0],
    [0x30, 0x18, 0, 0x7C, 0xC6, 0xC6, 0xC6, 0xC6, 0xC6, 0xC6, 0xC6, 0x7C, 0, 0, 0, 0],
    [0x18, 0x30, 0, 0x7C, 0xC6, 0xC6, 0xC6, 0xC6, 0xC6, 0xC6, 0xC6, 0x7C, 0, 0, 0, 0],
    [0x38, 0x6C, 0, 0x7C, 0xC6, 0xC6, 0xC6, 0xC6, 0xC6, 0xC6, 0xC6, 0x7C, 0, 0, 0, 0],
    [0x32, 0x4C, 0, 0x7C, 0xC6, 0xC6, 0xC6, 0xC6, 0xC6, 0xC6, 0xC6, 0x7C, 0, 0, 0, 0],
    [0x6C, 0x6C, 0, 0x7C, 0xC6, 0xC6, 0xC6, 0xC6, 0xC6, 0xC6, 0xC6, 0x7C, 0, 0, 0, 0],
    [0, 0, 0, 0, 0, 0xC6, 0x6C, 0x38, 0x38, 0x6C, 0xC6, 0, 0, 0, 0, 0],
    [0, 0x02, 0x7C, 0xC6, 0xCE, 0xCE, 0xD6, 0xD6, 0xE6, 0xE6, 0xC6, 0x7C, 0x80, 0, 0, 0],
    [0x30, 0x18, 0, 0xC6, 0xC6, 0xC6, 0xC6, 0xC6, 0xC6, 0xC6, 0xC6, 0x7E, 0, 0, 0, 0],
    [0x18, 0x30, 0, 0xC6, 0xC6, 0xC6, 0xC6, 0xC6, 0xC6, 0xC6, 0xC6, 0x7E, 0, 0, 0, 0],
    [0x38, 0x6C, 0, 0xC6, 0xC6, 0xC6, 0xC6, 0xC6, 0xC6, 0xC6, 0xC6, 0x7E, 0, 0, 0, 0],
    [0x6C, 0x6C, 0, 0xC6, 0xC6, 0xC6, 0xC6, 0xC6, 0xC6, 0xC6, 0xC6, 0x7E, 0, 0, 0, 0],
    [0x18, 0x30, 0, 0xC6, 0xC6, 0xC6, 0xC6, 0x7E, 0x06, 0x06, 0x06, 0xFC, 0, 0, 0, 0],
    [0, 0, 0, 0xC0, 0xC0, 0xFC, 0xC6, 0xC6, 0xC6, 0xC6, 0xC6, 0xFC, 0xC0, 0xC0, 0, 0],
    [0, 0, 0x78, 0xCC, 0xCC, 0xCC, 0xD8, 0xCC, 0xC6, 0xC6, 0xD6, 0xDC, 0, 0, 0, 0]]"

definition FONT_E :: "u8 list list" where
  "FONT_E = [
    [0, 0x60, 0x30, 0x18, 0, 0x7C, 0x06, 0x7E, 0xC6, 0xC6, 0xC6, 0x7E, 0, 0, 0, 0],
    [0, 0x0C, 0x18, 0x30, 0, 0x7C, 0x06, 0x7E, 0xC6, 0xC6, 0xC6, 0x7E, 0, 0, 0, 0],
    [0, 0x10, 0x38, 0x6C, 0, 0x7C, 0x06, 0x7E, 0xC6, 0xC6, 0xC6, 0x7E, 0, 0, 0, 0],
    [0, 0x32, 0x7E, 0x4C, 0, 0x7C, 0x06, 0x7E, 0xC6, 0xC6, 0xC6, 0x7E, 0, 0, 0, 0],
    [0, 0, 0x6C, 0x6C, 0, 0x7C, 0x06, 0x7E, 0xC6, 0xC6, 0xC6, 0x7E, 0, 0, 0, 0],
    [0, 0x38, 0x6C, 0x38, 0, 0x7C, 0x06, 0x7E, 0xC6, 0xC6, 0xC6, 0x7E, 0, 0, 0, 0],
    [0, 0, 0, 0, 0, 0x6E, 0x16, 0x16, 0x7E, 0xD0, 0xD0, 0x6E, 0, 0, 0, 0],
    [0, 0, 0, 0, 0, 0x7E, 0xC0, 0xC0, 0xC0, 0xC0, 0xC0, 0x7E, 0x18, 0x18, 0x30, 0],
    [0, 0x60, 0x30, 0x18, 0, 0x7E, 0xC6, 0xC6, 0xFE, 0xC0, 0xC0, 0x7E, 0, 0, 0, 0],
    [0, 0x0C, 0x18, 0x30, 0, 0x7E, 0xC6, 0xC6, 0xFE, 0xC0, 0xC0, 0x7E, 0, 0, 0, 0],
    [0, 0x10, 0x38, 0x6C, 0, 0x7E, 0xC6, 0xC6, 0xFE, 0xC0, 0xC0, 0x7E, 0, 0, 0, 0],
    [0, 0, 0x6C, 0x6C, 0, 0x7E, 0xC6, 0xC6, 0xFE, 0xC0, 0xC0, 0x7E, 0, 0, 0, 0],
    [0, 0x30, 0x18, 0x0C, 0, 0x38, 0x18, 0x18, 0x18, 0x18, 0x18, 0x1C, 0, 0, 0, 0],
    [0, 0x0C, 0x18, 0x30, 0, 0x38, 0x18, 0x18, 0x18, 0x18, 0x18, 0x1C, 0, 0, 0, 0],
    [0, 0x18, 0x3C, 0x66, 0, 0x38, 0x18, 0x18, 0x18, 0x18, 0x18, 0x1C, 0, 0, 0, 0],
    [0, 0, 0x66, 0x66, 0, 0x38, 0x18, 0x18, 0x18, 0x18, 0x18, 0x1C, 0, 0, 0, 0]]"

definition FONT_F :: "u8 list list" where
  "FONT_F = [
    [0, 0xD8, 0x70, 0xD8, 0x0C, 0x7C, 0xC6, 0xC6, 0xC6, 0xC6, 0xC6, 0x7C, 0, 0, 0, 0],
    [0, 0x32, 0x7E, 0x4C, 0, 0xFC, 0xC6, 0xC6, 0xC6, 0xC6, 0xC6, 0xC6, 0, 0, 0, 0],
    [0, 0x60, 0x30, 0x18, 0, 0x7C, 0xC6, 0xC6, 0xC6, 0xC6, 0xC6, 0x7C, 0, 0, 0, 0],
    [0, 0x0C, 0x18, 0x30, 0, 0x7C, 0xC6, 0xC6, 0xC6, 0xC6, 0xC6, 0x7C, 0, 0, 0, 0],
    [0, 0x10, 0x38, 0x6C, 0, 0x7C, 0xC6, 0xC6, 0xC6, 0xC6, 0xC6, 0x7C, 0, 0, 0, 0],
    [0, 0x32, 0x7E, 0x4C, 0, 0x7C, 0xC6, 0xC6, 0xC6, 0xC6, 0xC6, 0x7C, 0, 0, 0, 0],
    [0, 0, 0x6C, 0x6C, 0, 0x7C, 0xC6, 0xC6, 0xC6, 0xC6, 0xC6, 0x7C, 0, 0, 0, 0],
    [0, 0, 0, 0, 0x18, 0x18, 0, 0x7E, 0, 0x18, 0x18, 0, 0, 0, 0, 0],
    [0, 0, 0, 0, 0x02, 0x7C, 0xC6, 0xCE, 0xD6, 0xE6, 0xC6, 0x7C, 0x80, 0, 0, 0],
    [0, 0x60, 0x30, 0x18, 0, 0xC6, 0xC6, 0xC6, 0xC6, 0xC6, 0xC6, 0x7E, 0, 0, 0, 0],
    [0, 0x0C, 0x18, 0x30, 0, 0xC6, 0xC6, 0xC6, 0xC6, 0xC6, 0xC6, 0x7E, 0, 0, 0, 0],
    [0, 0x10, 0x38, 0x6C, 0, 0xC6, 0xC6, 0xC6, 0xC6, 0xC6, 0xC6, 0x7E, 0, 0, 0, 0],
    [0, 0, 0x6C, 0x6C, 0, 0xC6, 0xC6, 0xC6, 0xC6, 0xC6, 0xC6, 0x7E, 0, 0, 0, 0],
    [0, 0x0C, 0x18, 0x30, 0, 0xC6, 0xC6, 0xC6, 0xC6, 0xC6, 0xC6, 0x7E, 0x06, 0x06, 0xFC, 0],
    [0, 0, 0xC0, 0xC0, 0xC0, 0xFC, 0xC6, 0xC6, 0xC6, 0xC6, 0xC6, 0xFC, 0xC0, 0xC0, 0xC0, 0],
    [0, 0, 0x6C, 0x6C, 0, 0xC6, 0xC6, 0xC6, 0xC6, 0xC6, 0xC6, 0x7E, 0x06, 0x06, 0xFC, 0]]"

definition FONT :: "u8 list" where
  "FONT = concat (concat [FONT_0, FONT_1, FONT_2, FONT_3, FONT_4, FONT_5, FONT_6, FONT_7, FONT_8, FONT_9, FONT_A, FONT_B, FONT_C, FONT_D, FONT_E, FONT_F])"

lemma length_FONT: "length FONT = 4096"
  unfolding FONT_def FONT_0_def FONT_1_def FONT_2_def FONT_3_def FONT_4_def FONT_5_def FONT_6_def FONT_7_def FONT_8_def FONT_9_def FONT_A_def FONT_B_def FONT_C_def FONT_D_def FONT_E_def FONT_F_def by simp

end
