(* ===== verification/Fb.thy ===== *)
theory Fb
  imports FbFont
begin

unbundle bit_operations_syntax

text \<open>
  The framebuffer console, arsenal-kernel/src/fb.rs. The framebuffer is a memory of pixels, indexed
  from its base address; pointer arithmetic that leaves it and stores outside it are undefined
  behaviour. The fields read from the bootloader's descriptor (the limine crate) are a record.
\<close>

section \<open>Model\<close>

definition NAVY :: u32 where "NAVY = 0x000A1A2A"
definition AMBER :: u32 where "AMBER = 0x00FFB200"

record limine_framebuffer =
  lf_bpp :: u16
  lf_rgb :: bool \<comment> \<open>memory\_model() == MemoryModel::RGB\<close>
  lf_red_mask_shift :: u8
  lf_green_mask_shift :: u8
  lf_blue_mask_shift :: u8
  lf_pitch :: u64
  lf_width :: u64
  lf_height :: u64

record fb_info =
  fi_width :: usize
  fi_height :: usize
  fi_pitch_pixels :: usize
  fi_cursor_x :: usize
  fi_cursor_y :: usize

record fb_state =
  FB :: "fb_info option"
  FB_READY :: bool
  fb_pix :: "nat \<Rightarrow> u32"
  fb_len :: nat

definition fb_init :: "limine_framebuffer \<Rightarrow> fb_state \<Rightarrow> fb_state outcome" where
  "fb_init lf s =
     and_then (rust_assert (lf_bpp lf = 32)) (\<lambda>_.
     and_then (rust_assert (lf_rgb lf)) (\<lambda>_.
     and_then (rust_assert (lf_red_mask_shift lf = 16 \<and> lf_green_mask_shift lf = 8 \<and> lf_blue_mask_shift lf = 0)) (\<lambda>_.
     and_then (rust_assert (lf_pitch lf mod 4 = 0)) (\<lambda>_.
     Inr (s\<lparr>FB := Some \<lparr>fi_width = lf_width lf, fi_height = lf_height lf, fi_pitch_pixels = lf_pitch lf div 4,
                        fi_cursor_x = 0, fi_cursor_y = 0\<rparr>,
            FB_READY := True\<rparr>)))))"

definition ptr_add :: "fb_state \<Rightarrow> nat \<Rightarrow> usize \<Rightarrow> nat outcome" where
  "ptr_add s p n = (if p + unat n \<le> fb_len s then Inr (p + unat n) else Inl Undefined)"

definition write_volatile :: "nat \<Rightarrow> u32 \<Rightarrow> fb_state \<Rightarrow> fb_state outcome" where
  "write_volatile p v s = (if p < fb_len s then Inr (s\<lparr>fb_pix := (fb_pix s)(p := v)\<rparr>) else Inl Undefined)"

definition paint_row :: "nat \<Rightarrow> usize \<Rightarrow> u32 \<Rightarrow> fb_state \<Rightarrow> fb_state outcome" where
  "paint_row row w rgb =
     fold_out (\<lambda>x s. and_then (ptr_add s row (of_nat x)) (\<lambda>p. write_volatile p rgb s)) [0..<unat w]"

definition paint_rows :: "fb_info \<Rightarrow> nat \<Rightarrow> u32 \<Rightarrow> fb_state \<Rightarrow> fb_state outcome" where
  "paint_rows info y\<^sub>0 rgb =
     fold_out (\<lambda>y s. and_then (ptr_add s 0 (of_nat y * fi_pitch_pixels info)) (\<lambda>row. paint_row row (fi_width info) rgb s))
       [y\<^sub>0..<unat (fi_height info)]"

definition fb_clear :: "u32 \<Rightarrow> fb_state \<Rightarrow> fb_state outcome" where
  "fb_clear rgb s = and_then (expect (FB s)) (\<lambda>info. paint_rows info 0 rgb s)"

definition put_pixel :: "usize \<Rightarrow> usize \<Rightarrow> u32 \<Rightarrow> fb_state \<Rightarrow> fb_state outcome" where
  "put_pixel x y rgb s =
     and_then (expect (FB s)) (\<lambda>info.
       if x \<ge> fi_width info \<or> y \<ge> fi_height info then Inr s
       else and_then (ptr_add s 0 (y * fi_pitch_pixels info + x)) (\<lambda>p. write_volatile p rgb s))"

definition glyph_colour :: "u8 \<Rightarrow> u32 \<Rightarrow> u32 \<Rightarrow> nat \<Rightarrow> u32" where
  "glyph_colour bits fg bg col = (if drop_bit (7 - col) bits AND 1 = 1 then fg else bg)"

fun glyph_cols :: "fb_info \<Rightarrow> u8 \<Rightarrow> usize \<Rightarrow> nat \<Rightarrow> u32 \<Rightarrow> u32 \<Rightarrow> nat list \<Rightarrow> fb_state \<Rightarrow> fb_state outcome" where
  "glyph_cols info bits x row_ptr fg bg [] s = Inr s"
| "glyph_cols info bits x row_ptr fg bg (col # cols) s =
     (let px = x + of_nat col in
      if px \<ge> fi_width info then Inr s
      else and_then (ptr_add s row_ptr px) (\<lambda>p.
           and_then (write_volatile p (glyph_colour bits fg bg col) s)
             (glyph_cols info bits x row_ptr fg bg cols)))"

fun glyph_rows :: "fb_info \<Rightarrow> u8 \<Rightarrow> usize \<Rightarrow> usize \<Rightarrow> u32 \<Rightarrow> u32 \<Rightarrow> nat list \<Rightarrow> fb_state \<Rightarrow> fb_state outcome" where
  "glyph_rows info c x y fg bg [] s = Inr s"
| "glyph_rows info c x y fg bg (row # rows) s =
     and_then (slice_at FONT (unat c * unat GLYPH_H + row)) (\<lambda>bits.
       let py = y + of_nat row in
       if py \<ge> fi_height info then Inr s
       else and_then (ptr_add s 0 (py * fi_pitch_pixels info)) (\<lambda>row_ptr.
            and_then (glyph_cols info bits x row_ptr fg bg [0..<unat GLYPH_W] s)
              (glyph_rows info c x y fg bg rows)))"

definition render_glyph_inner :: "fb_info \<Rightarrow> u8 \<Rightarrow> usize \<Rightarrow> usize \<Rightarrow> u32 \<Rightarrow> u32 \<Rightarrow> fb_state \<Rightarrow> fb_state outcome" where
  "render_glyph_inner info c x y fg bg = glyph_rows info c x y fg bg [0..<unat GLYPH_H]"

fun render_bytes :: "fb_info \<Rightarrow> usize \<Rightarrow> usize \<Rightarrow> u32 \<Rightarrow> u32 \<Rightarrow> nat \<Rightarrow> u8 list \<Rightarrow> fb_state \<Rightarrow> fb_state outcome" where
  "render_bytes info x y fg bg i [] s = Inr s"
| "render_bytes info x y fg bg i (b # bs) s =
     (let gx = x + of_nat i * GLYPH_W in
      if gx \<ge> fi_width info then Inr s
      else and_then (render_glyph_inner info b gx y fg bg s) (render_bytes info x y fg bg (Suc i) bs))"

definition render_string :: "u8 list \<Rightarrow> usize \<Rightarrow> usize \<Rightarrow> u32 \<Rightarrow> u32 \<Rightarrow> fb_state \<Rightarrow> fb_state outcome" where
  "render_string bs x y fg bg s = and_then (expect (FB s)) (\<lambda>info. render_bytes info x y fg bg 0 bs s)"

text \<open>ptr::copy of \<open>n\<close> pixels between two places of the framebuffer, which may overlap.\<close>

definition ptr_copy :: "nat \<Rightarrow> nat \<Rightarrow> usize \<Rightarrow> fb_state \<Rightarrow> fb_state outcome" where
  "ptr_copy src dst n s =
     (if src + unat n \<le> fb_len s \<and> dst + unat n \<le> fb_len s
      then Inr (s\<lparr>fb_pix := (\<lambda>i. if dst \<le> i \<and> i < dst + unat n then fb_pix s (i - dst + src) else fb_pix s i)\<rparr>)
      else Inl Undefined)"

definition maybe_scroll :: "fb_info \<Rightarrow> fb_state \<Rightarrow> (fb_info \<times> fb_state) outcome" where
  "maybe_scroll info s =
     (if fi_cursor_y info + GLYPH_H \<le> fi_height info then Inr (info, s)
      else let scroll = GLYPH_H; keep_rows = fi_height info - scroll; pitch = fi_pitch_pixels info in
        and_then (ptr_add s 0 (scroll * pitch)) (\<lambda>src.
        and_then (ptr_copy src 0 (keep_rows * pitch) s) (\<lambda>s.
        and_then (paint_rows info (unat keep_rows) NAVY s) (\<lambda>s.
        Inr (info\<lparr>fi_cursor_y := keep_rows\<rparr>, s)))))"

definition new_line :: "fb_info \<Rightarrow> fb_info" where
  "new_line info = info\<lparr>fi_cursor_x := 0, fi_cursor_y := fi_cursor_y info + GLYPH_H\<rparr>"

definition print_byte :: "u8 \<Rightarrow> fb_info \<times> fb_state \<Rightarrow> (fb_info \<times> fb_state) outcome" where
  "print_byte b = (\<lambda>(info, s).
     if b = 10 then maybe_scroll (new_line info) s
     else if b = 13 then Inr (info\<lparr>fi_cursor_x := 0\<rparr>, s)
     else and_then (if fi_cursor_x info + GLYPH_W > fi_width info then maybe_scroll (new_line info) s else Inr (info, s))
       (\<lambda>(info, s).
        and_then (render_glyph_inner info b (fi_cursor_x info) (fi_cursor_y info) AMBER NAVY s) (\<lambda>s.
        Inr (info\<lparr>fi_cursor_x := fi_cursor_x info + GLYPH_W\<rparr>, s))))"

definition print_str_inner :: "fb_info \<Rightarrow> u8 list \<Rightarrow> fb_state \<Rightarrow> (fb_info \<times> fb_state) outcome" where
  "print_str_inner info bs s = fold_out print_byte bs (info, s)"

text \<open>The flag says whether another holder has the lock, so that try\_lock fails.\<close>

definition print_str :: "bool \<Rightarrow> u8 list \<Rightarrow> fb_state \<Rightarrow> fb_state outcome" where
  "print_str contended bs s =
     (if \<not> FB_READY s \<or> contended then Inr s
      else case FB s of None \<Rightarrow> Inr s
      | Some info \<Rightarrow> and_then (print_str_inner info bs s) (\<lambda>(info, s). Inr (s\<lparr>FB := Some info\<rparr>)))"

section \<open>Drawing\<close>

text \<open>
  A framebuffer whose rows fit its memory. Everything that is drawn is a list of pixels
  \<open>(row, column)\<close> with their colours.
\<close>

definition fb_ok :: "fb_info \<Rightarrow> fb_state \<Rightarrow> bool" where
  "fb_ok info s =
     (unat (fi_width info) \<le> unat (fi_pitch_pixels info) \<and>
      unat (fi_pitch_pixels info) * unat (fi_height info) \<le> fb_len s \<and> fb_len s < 2 ^ 61)"

definition pixel :: "fb_info \<Rightarrow> fb_state \<Rightarrow> nat \<Rightarrow> nat \<Rightarrow> u32" where
  "pixel info s y x = fb_pix s (y * unat (fi_pitch_pixels info) + x)"

definition draw :: "fb_info \<Rightarrow> (nat \<times> nat \<Rightarrow> u32) \<Rightarrow> (nat \<times> nat) list \<Rightarrow> fb_state \<Rightarrow> fb_state outcome" where
  "draw info v = fold_out (\<lambda>(y, x). write_volatile (y * unat (fi_pitch_pixels info) + x) (v (y, x)))"

definition on_screen :: "fb_info \<Rightarrow> nat \<times> nat \<Rightarrow> bool" where
  "on_screen info = (\<lambda>(y, x). y < unat (fi_height info) \<and> x < unat (fi_width info))"

definition box :: "nat \<Rightarrow> nat \<Rightarrow> nat \<Rightarrow> nat \<Rightarrow> (nat \<times> nat) list" where
  "box y h x w = concat (map (\<lambda>i. map (Pair i) [x..<x + w]) [y..<y + h])"

lemma set_box: "set (box y h x w) = {y..<y + h} \<times> {x..<x + w}"
  by (auto simp: box_def)

lemma row_offset:
  assumes "fb_ok info s" "y \<le> unat (fi_height info)"
  shows "unat (of_nat y * fi_pitch_pixels info) = y * unat (fi_pitch_pixels info)"
    "y * unat (fi_pitch_pixels info) \<le> fb_len s"
proof -
  have "y * unat (fi_pitch_pixels info) \<le> unat (fi_height info) * unat (fi_pitch_pixels info)"
    using assms(2) by (rule mult_right_mono) simp
  also have "\<dots> \<le> fb_len s" using assms(1) by (simp add: fb_ok_def mult.commute)
  finally show b: "y * unat (fi_pitch_pixels info) \<le> fb_len s" .
  then have "y * unat (fi_pitch_pixels info) < 2 ^ 64" using assms(1) by (simp add: fb_ok_def)
  moreover have "unat (of_nat y :: usize) = y" using assms(2) unat_bound [of "fi_height info"] by (intro unat_of_nat_small) simp
  ultimately show "unat (of_nat y * fi_pitch_pixels info) = y * unat (fi_pitch_pixels info)"
    by (simp add: unat_mult_lem [THEN iffD1])
qed

lemma row_bound:
  assumes "fb_ok info s" "y < unat (fi_height info)"
  shows "unat (of_nat y * fi_pitch_pixels info) = y * unat (fi_pitch_pixels info)"
    "y * unat (fi_pitch_pixels info) + unat (fi_width info) \<le> fb_len s"
  using row_offset(1) [of info s y] row_offset(2) [of info s "Suc y"] assms by (simp_all add: fb_ok_def)

lemma pixel_bound: "fb_ok info s \<Longrightarrow> on_screen info (y, x) \<Longrightarrow> y * unat (fi_pitch_pixels info) + x < fb_len s"
  using row_bound(2) [of info s y] by (auto simp: on_screen_def)

lemma write_volatile_in: "p < fb_len s \<Longrightarrow> write_volatile p v s = Inr (s\<lparr>fb_pix := (fb_pix s)(p := v)\<rparr>)"
  by (simp add: write_volatile_def)

lemma fb_ok_pix [simp]: "fb_ok info (s\<lparr>fb_pix := p\<rparr>) = fb_ok info s"
  by (simp add: fb_ok_def)

lemma position_eq_iff:
  assumes "x < p" "x' < (p :: nat)"
  shows "y * p + x = y' * p + x' \<longleftrightarrow> y = y' \<and> x = x'"
proof
  assume *: "y * p + x = y' * p + x'"
  have "y = (y * p + x) div p" "y' = (y' * p + x') div p" using assms by simp_all
  with * have "y = y'" by simp
  with * show "y = y' \<and> x = x'" by simp
qed simp

lemma draw_on_screen:
  assumes "fb_ok info s" "\<forall>k \<in> set ks. on_screen info k"
  obtains p where "draw info v ks s = Inr (s\<lparr>fb_pix := p\<rparr>)"
    "\<And>y x. x < unat (fi_pitch_pixels info) \<Longrightarrow>
      pixel info (s\<lparr>fb_pix := p\<rparr>) y x = (if (y, x) \<in> set ks then v (y, x) else pixel info s y x)"
proof -
  have "\<exists>p. draw info v ks s = Inr (s\<lparr>fb_pix := p\<rparr>) \<and> (\<forall>y x. x < unat (fi_pitch_pixels info) \<longrightarrow>
      pixel info (s\<lparr>fb_pix := p\<rparr>) y x = (if (y, x) \<in> set ks then v (y, x) else pixel info s y x))"
    using assms
  proof (induction ks arbitrary: s)
    case Nil
    then show ?case by (intro exI [of _ "fb_pix s"]) (simp add: draw_def)
  next
    case (Cons k ks)
    obtain y x where k: "k = (y, x)" by force
    let ?s = "s\<lparr>fb_pix := (fb_pix s)(y * unat (fi_pitch_pixels info) + x := v k)\<rparr>"
    have on: "on_screen info (y, x)" and px: "x < unat (fi_pitch_pixels info)"
      using Cons.prems k by (auto simp: on_screen_def fb_ok_def)
    obtain p where p: "draw info v ks ?s = Inr (?s\<lparr>fb_pix := p\<rparr>)"
      "\<forall>y x. x < unat (fi_pitch_pixels info) \<longrightarrow>
        pixel info (?s\<lparr>fb_pix := p\<rparr>) y x = (if (y, x) \<in> set ks then v (y, x) else pixel info ?s y x)"
      using Cons.IH [of ?s] Cons.prems by auto
    have "draw info v (k # ks) s = Inr (s\<lparr>fb_pix := p\<rparr>)"
      using p(1) pixel_bound [OF Cons.prems(1) on] k by (simp add: draw_def write_volatile_def)
    moreover have "pixel info ?s y' x' = (if (y', x') = k then v k else pixel info s y' x')" if "x' < unat (fi_pitch_pixels info)" for y' x'
      using position_eq_iff [OF that px] k by (simp add: pixel_def)
    ultimately show ?case using p(2) k by (intro exI [of _ p]) (auto simp: pixel_def)
  qed
  then show ?thesis using that by blast
qed

lemma fold_out_rows:
  assumes "\<And>y s. y \<in> set ys \<Longrightarrow> fb_ok info s \<Longrightarrow> f y s = draw info v (map (Pair y) (g y)) s"
    and "\<forall>y \<in> set ys. \<forall>x \<in> set (g y). on_screen info (y, x)" "fb_ok info s"
  shows "fold_out f ys s = draw info v (concat (map (\<lambda>y. map (Pair y) (g y)) ys)) s"
  using assms
proof (induction ys arbitrary: s)
  case Nil
  then show ?case by (simp add: draw_def)
next
  case (Cons y ys)
  have *: "f y s = draw info v (map (Pair y) (g y)) s" using Cons.prems by simp
  obtain p where p: "draw info v (map (Pair y) (g y)) s = Inr (s\<lparr>fb_pix := p\<rparr>)"
    by (rule draw_on_screen [OF Cons.prems(3), of "map (Pair y) (g y)" v]) (use Cons.prems(2) in auto)
  have "fold_out f ys (s\<lparr>fb_pix := p\<rparr>) = draw info v (concat (map (\<lambda>y. map (Pair y) (g y)) ys)) (s\<lparr>fb_pix := p\<rparr>)"
    by (rule Cons.IH) (use Cons.prems in simp_all)
  then show ?case using p * by (simp add: draw_def fold_out_append)
qed

lemma fold_out_row:
  assumes "\<And>x s. x \<in> set xs \<Longrightarrow> fb_ok info s \<Longrightarrow> f x s = write_volatile (y * unat (fi_pitch_pixels info) + x) (v (y, x)) s"
    and "\<forall>x \<in> set xs. on_screen info (y, x)" "fb_ok info s"
  shows "fold_out f xs s = draw info v (map (Pair y) xs) s"
  using assms
proof (induction xs arbitrary: s)
  case Nil
  then show ?case by (simp add: draw_def)
next
  case (Cons x xs)
  let ?s = "s\<lparr>fb_pix := (fb_pix s)(y * unat (fi_pitch_pixels info) + x := v (y, x))\<rparr>"
  have w: "write_volatile (y * unat (fi_pitch_pixels info) + x) (v (y, x)) s = Inr ?s"
    using Cons.prems pixel_bound [of info s y x] by (simp add: write_volatile_def)
  have "fold_out f xs ?s = draw info v (map (Pair y) xs) ?s" by (rule Cons.IH) (use Cons.prems in simp_all)
  then show ?case using w Cons.prems(1) [of x s] Cons.prems(3) by (simp add: draw_def)
qed

lemma paint_rows_draw:
  assumes "fb_ok info s"
  shows "paint_rows info y\<^sub>0 rgb s = draw info (\<lambda>_. rgb) (box y\<^sub>0 (unat (fi_height info) - y\<^sub>0) 0 (unat (fi_width info))) s"
proof -
  have row: "and_then (ptr_add s 0 (of_nat y * fi_pitch_pixels info)) (\<lambda>row. paint_row row (fi_width info) rgb s) =
      draw info (\<lambda>_. rgb) (map (Pair y) [0..<unat (fi_width info)]) s"
    if y: "y \<in> set [y\<^sub>0..<unat (fi_height info)]" and ok: "fb_ok info s" for y s
  proof -
    have yh: "y < unat (fi_height info)" using y by simp
    note rb = row_bound [OF ok yh]
    have "paint_row (y * unat (fi_pitch_pixels info)) (fi_width info) rgb s =
        draw info (\<lambda>_. rgb) (map (Pair y) [0..<unat (fi_width info)]) s"
      unfolding paint_row_def
    proof (rule fold_out_row)
      fix x s assume x: "x \<in> set [0..<unat (fi_width info)]" and "fb_ok info s"
      then have "unat (of_nat x :: usize) = x" using unat_bound [of "fi_width info"] by (intro unat_of_nat_small) simp
      then show "and_then (ptr_add s (y * unat (fi_pitch_pixels info)) (of_nat x)) (\<lambda>p. write_volatile p rgb s) =
          write_volatile (y * unat (fi_pitch_pixels info) + x) rgb s"
        using x row_bound(2) [OF \<open>fb_ok info s\<close> yh] by (simp add: ptr_add_def)
    qed (use yh ok in \<open>auto simp: on_screen_def\<close>)
    then show ?thesis using rb by (simp add: ptr_add_def)
  qed
  have "[y\<^sub>0..<y\<^sub>0 + (unat (fi_height info) - y\<^sub>0)] = [y\<^sub>0..<unat (fi_height info)]"
    by (cases "y\<^sub>0 \<le> unat (fi_height info)") simp_all
  then show ?thesis
    unfolding paint_rows_def box_def
    by (subst fold_out_rows [OF row]) (use assms in \<open>auto simp: on_screen_def\<close>)
qed

text \<open>The colour of the pixel at \<open>(i, j)\<close> of a glyph.\<close>

definition glyph_pixel :: "u8 \<Rightarrow> u32 \<Rightarrow> u32 \<Rightarrow> nat \<Rightarrow> nat \<Rightarrow> u32" where
  "glyph_pixel c fg bg i j = glyph_colour (FONT ! (unat c * 16 + i)) fg bg j"

lemma glyph_row_in_font: "i < 16 \<Longrightarrow> slice_at FONT (unat (c :: u8) * unat GLYPH_H + i) = Inr (FONT ! (unat c * 16 + i))"
  using unat_bound [of c] by (simp add: GLYPH_H_def length_FONT)

lemma glyph_cols_fold:
  assumes "fb_ok info s" "y < unat (fi_height info)" "\<forall>j \<in> set cols. unat x + j < unat (fi_width info)"
  shows "glyph_cols info bits x (y * unat (fi_pitch_pixels info)) fg bg cols s =
    fold_out (\<lambda>j. write_volatile (y * unat (fi_pitch_pixels info) + (unat x + j)) (glyph_colour bits fg bg j)) cols s"
  using assms
proof (induction cols arbitrary: s)
  case (Cons j cols)
  have j: "unat x + j < unat (fi_width info)" using Cons.prems by simp
  then have xj: "unat (x + of_nat j) = unat x + j"
    using unat_bound [of "fi_width info"] by (subst unat_add_noof) (simp_all add: unat_of_nat_small)
  have b: "y * unat (fi_pitch_pixels info) + (unat x + j) < fb_len s"
    using row_bound(2) [OF Cons.prems(1,2)] j by simp
  have "glyph_cols info bits x (y * unat (fi_pitch_pixels info)) fg bg cols (s\<lparr>fb_pix := q\<rparr>) =
    fold_out (\<lambda>j. write_volatile (y * unat (fi_pitch_pixels info) + (unat x + j)) (glyph_colour bits fg bg j)) cols (s\<lparr>fb_pix := q\<rparr>)" for q
    by (rule Cons.IH) (use Cons.prems in simp_all)
  moreover have "\<not> fi_width info \<le> x + of_nat j" using j by (simp add: word_le_nat_alt xj)
  ultimately show ?case using b by (simp add: ptr_add_def xj write_volatile_in)
qed simp

lemma glyph_rows_fold:
  assumes "fb_ok info s" "\<forall>i \<in> set rows. i < 16 \<and> unat y + i < unat (fi_height info)" "unat x + 8 \<le> unat (fi_width info)"
  shows "glyph_rows info c x y fg bg rows s =
    fold_out (\<lambda>i. glyph_cols info (FONT ! (unat c * 16 + i)) x ((unat y + i) * unat (fi_pitch_pixels info)) fg bg [0..<8]) rows s"
  using assms
proof (induction rows arbitrary: s)
  case (Cons i rows)
  have i: "i < 16" "unat y + i < unat (fi_height info)" using Cons.prems by simp_all
  then have yi: "unat (y + of_nat i) = unat y + i"
    using unat_bound [of "fi_height info"] by (subst unat_add_noof) (simp_all add: unat_of_nat_small)
  note rb = row_bound [OF Cons.prems(1) i(2)]
  have e: "(y + of_nat i) * fi_pitch_pixels info = of_nat (unat y + i) * fi_pitch_pixels info" by simp
  let ?cols = "glyph_cols info (FONT ! (unat c * 16 + i)) x ((unat y + i) * unat (fi_pitch_pixels info)) fg bg [0..<8] s"
  have cols: "?cols = draw info (\<lambda>(_, j). glyph_colour (FONT ! (unat c * 16 + i)) fg bg (j - unat x)) (map (Pair (unat y + i)) (map (\<lambda>j. unat x + j) [0..<8])) s"
    by (subst glyph_cols_fold [OF Cons.prems(1) i(2)]) (use Cons.prems(3) in \<open>simp_all add: draw_def fold_out_map\<close>)
  have on: "\<forall>k \<in> set (map (Pair (unat y + i)) (map (\<lambda>j. unat x + j) [0..<8])). on_screen info k"
    using Cons.prems(3) i by (simp add: on_screen_def)
  obtain p where p: "?cols = Inr (s\<lparr>fb_pix := p\<rparr>)"
    unfolding cols by (rule draw_on_screen [OF Cons.prems(1) on])
  have "glyph_rows info c x y fg bg rows (s\<lparr>fb_pix := p\<rparr>) =
    fold_out (\<lambda>i. glyph_cols info (FONT ! (unat c * 16 + i)) x ((unat y + i) * unat (fi_pitch_pixels info)) fg bg [0..<8]) rows (s\<lparr>fb_pix := p\<rparr>)"
    by (rule Cons.IH) (use Cons.prems in simp_all)
  moreover have "\<not> fi_height info \<le> y + of_nat i" using i(2) by (simp add: word_le_nat_alt yi)
  moreover have "ptr_add s 0 ((y + of_nat i) * fi_pitch_pixels info) = Inr ((unat y + i) * unat (fi_pitch_pixels info))"
    unfolding e using rb by (simp add: ptr_add_def)
  ultimately show ?case using p glyph_row_in_font [OF i(1), of c] by (simp add: GLYPH_W_def)
qed simp

lemma render_glyph_draw:
  assumes "fb_ok info s" "unat y + 16 \<le> unat (fi_height info)" "unat x + 8 \<le> unat (fi_width info)"
  shows "render_glyph_inner info c x y fg bg s =
    draw info (\<lambda>(r, k). glyph_pixel c fg bg (r - unat y) (k - unat x)) (box (unat y) 16 (unat x) 8) s"
proof -
  let ?v = "\<lambda>(r, k). glyph_pixel c fg bg (r - unat y) (k - unat x)"
  have "render_glyph_inner info c x y fg bg s =
    fold_out (\<lambda>i. glyph_cols info (FONT ! (unat c * 16 + i)) x ((unat y + i) * unat (fi_pitch_pixels info)) fg bg [0..<8]) [0..<16] s"
    unfolding render_glyph_inner_def by (subst glyph_rows_fold [OF assms(1)]) (use assms in \<open>simp_all add: GLYPH_H_def\<close>)
  also have "\<dots> = fold_out (\<lambda>r. glyph_cols info (FONT ! (unat c * 16 + (r - unat y))) x (r * unat (fi_pitch_pixels info)) fg bg [0..<8])
      (map (\<lambda>i. unat y + i) [0..<16]) s"
    by (simp only: fold_out_map add_diff_cancel_left')
  also have "map (\<lambda>i. unat y + i) [0..<16] = [unat y..<unat y + 16]" by (simp add: map_add_upt add.commute)
  also have "fold_out (\<lambda>r. glyph_cols info (FONT ! (unat c * 16 + (r - unat y))) x (r * unat (fi_pitch_pixels info)) fg bg [0..<8])
      [unat y..<unat y + 16] s = draw info ?v (box (unat y) 16 (unat x) 8) s"
    unfolding box_def
  proof (rule fold_out_rows)
    fix r s assume r: "r \<in> set [unat y..<unat y + 16]" and ok: "fb_ok info s"
    then have rh: "r < unat (fi_height info)" using assms(2) by simp
    have m: "[unat x..<unat x + 8] = map (\<lambda>j. unat x + j) [0..<8]" by (simp add: map_add_upt add.commute)
    show "glyph_cols info (FONT ! (unat c * 16 + (r - unat y))) x (r * unat (fi_pitch_pixels info)) fg bg [0..<8] s =
        draw info ?v (map (Pair r) [unat x..<unat x + 8]) s"
      unfolding m by (subst glyph_cols_fold [OF ok rh]) (use assms(3) in \<open>simp_all add: draw_def fold_out_map glyph_pixel_def\<close>)
  qed (use assms in \<open>auto simp: on_screen_def\<close>)
  finally show ?thesis .
qed

section \<open>Every access stays in the framebuffer\<close>

text \<open>Clipping: for any position a glyph only changes pixels, and never leaves the framebuffer.\<close>

lemma glyph_cols_safe:
  assumes "fb_ok info s" "y < unat (fi_height info)"
  shows "\<exists>p. glyph_cols info bits x (y * unat (fi_pitch_pixels info)) fg bg cols s = Inr (s\<lparr>fb_pix := p\<rparr>)"
  using assms
proof (induction cols arbitrary: s)
  case Nil
  show ?case by (rule exI [of _ "fb_pix s"]) simp
next
  case (Cons j cols)
  show ?case
  proof (cases "fi_width info \<le> x + of_nat j")
    case True
    then show ?thesis by (intro exI [of _ "fb_pix s"]) simp
  next
    case False
    then have "y * unat (fi_pitch_pixels info) + unat (x + of_nat j) < fb_len s"
      using row_bound(2) [OF Cons.prems] by (simp add: word_le_nat_alt)
    moreover obtain p where "glyph_cols info bits x (y * unat (fi_pitch_pixels info)) fg bg cols
        (s\<lparr>fb_pix := (fb_pix s)(y * unat (fi_pitch_pixels info) + unat (x + of_nat j) := glyph_colour bits fg bg j)\<rparr>) = Inr (s\<lparr>fb_pix := p\<rparr>)"
      using Cons.IH [of "s\<lparr>fb_pix := (fb_pix s)(y * unat (fi_pitch_pixels info) + unat (x + of_nat j) := glyph_colour bits fg bg j)\<rparr>"]
        Cons.prems by auto
    ultimately show ?thesis using False by (intro exI [of _ p]) (simp add: ptr_add_def write_volatile_in)
  qed
qed

lemma glyph_rows_safe:
  assumes "fb_ok info s" "\<forall>i \<in> set rows. i < 16"
  shows "\<exists>p. glyph_rows info c x y fg bg rows s = Inr (s\<lparr>fb_pix := p\<rparr>)"
  using assms
proof (induction rows arbitrary: s)
  case Nil
  show ?case by (rule exI [of _ "fb_pix s"]) simp
next
  case (Cons i rows)
  have i: "i < 16" using Cons.prems by simp
  show ?case
  proof (cases "fi_height info \<le> y + of_nat i")
    case True
    then show ?thesis using glyph_row_in_font [OF i, of c] by (intro exI [of _ "fb_pix s"]) simp
  next
    case False
    let ?y = "unat (y + of_nat i)"
    have h: "?y < unat (fi_height info)" using False by (simp add: word_le_nat_alt)
    note rb = row_bound [OF Cons.prems(1) h, simplified]
    obtain p where p: "glyph_cols info (FONT ! (unat c * 16 + i)) x (?y * unat (fi_pitch_pixels info)) fg bg [0..<8] s = Inr (s\<lparr>fb_pix := p\<rparr>)"
      using glyph_cols_safe [OF Cons.prems(1) h] by blast
    obtain q where "glyph_rows info c x y fg bg rows (s\<lparr>fb_pix := p\<rparr>) = Inr (s\<lparr>fb_pix := q\<rparr>)"
      using Cons.IH [of "s\<lparr>fb_pix := p\<rparr>"] Cons.prems by auto
    then show ?thesis
      using False p rb glyph_row_in_font [OF i, of c]
      by (intro exI [of _ q]) (simp add: ptr_add_def GLYPH_W_def Let_def del: upt_rec_numeral)
  qed
qed

lemma render_glyph_safe:
  "fb_ok info s \<Longrightarrow> \<exists>p. render_glyph_inner info c x y fg bg s = Inr (s\<lparr>fb_pix := p\<rparr>)"
  unfolding render_glyph_inner_def by (rule glyph_rows_safe) (simp_all add: GLYPH_H_def)

lemma render_bytes_safe:
  "fb_ok info s \<Longrightarrow> \<exists>p. render_bytes info x y fg bg i bs s = Inr (s\<lparr>fb_pix := p\<rparr>)"
proof (induction bs arbitrary: i s)
  case Nil
  show ?case by (rule exI [of _ "fb_pix s"]) simp
next
  case (Cons b bs)
  obtain p where "render_glyph_inner info b (x + of_nat i * GLYPH_W) y fg bg s = Inr (s\<lparr>fb_pix := p\<rparr>)"
    using render_glyph_safe [OF Cons.prems] by blast
  moreover obtain q where "render_bytes info x y fg bg (Suc i) bs (s\<lparr>fb_pix := p\<rparr>) = Inr (s\<lparr>fb_pix := q\<rparr>)"
    using Cons.IH [of "s\<lparr>fb_pix := p\<rparr>"] Cons.prems by auto
  ultimately have "render_bytes info x y fg bg i (b # bs) s =
      Inr (s\<lparr>fb_pix := if fi_width info \<le> x + of_nat i * GLYPH_W then fb_pix s else q\<rparr>)" by (simp add: Let_def)
  then show ?case by blast
qed

lemma maybe_scroll_exact:
  assumes ok: "fb_ok info s" and h: "16 \<le> unat (fi_height info)" and sc: "\<not> fi_cursor_y info + 16 \<le> fi_height info"
  obtains p where "maybe_scroll info s = Inr (info\<lparr>fi_cursor_y := fi_height info - 16\<rparr>, s\<lparr>fb_pix := p\<rparr>)"
    "\<And>y x. on_screen info (y, x) \<Longrightarrow> pixel info (s\<lparr>fb_pix := p\<rparr>) y x = (if y + 16 < unat (fi_height info) then pixel info s (y + 16) x else NAVY)"
proof -
  let ?h = "unat (fi_height info)" and ?p = "unat (fi_pitch_pixels info)"
  have keep: "unat (fi_height info - 16) = ?h - 16" using h by (simp add: unat_sub word_le_nat_alt)
  have k: "(fi_height info - 16) * fi_pitch_pixels info = of_nat (?h - 16) * fi_pitch_pixels info"
    by (simp add: keep [symmetric])
  have off: "unat (16 * fi_pitch_pixels info) = 16 * ?p" "16 * ?p \<le> fb_len s"
    "unat ((fi_height info - 16) * fi_pitch_pixels info) = (?h - 16) * ?p"
    unfolding k using row_offset [OF ok, of 16] row_offset [OF ok, of "?h - 16"] h by simp_all
  have tot: "16 * ?p + (?h - 16) * ?p = ?h * ?p" using h by (simp add: add_mult_distrib [symmetric])
  have len: "?h * ?p \<le> fb_len s" using ok by (simp add: fb_ok_def mult.commute)
  let ?q = "\<lambda>i. if i < (?h - 16) * ?p then fb_pix s (i + 16 * ?p) else fb_pix s i"
  have copy: "ptr_copy (16 * ?p) 0 ((fi_height info - 16) * fi_pitch_pixels info) s = Inr (s\<lparr>fb_pix := ?q\<rparr>)"
    using off tot len by (simp add: ptr_copy_def cong: if_cong)
  obtain p where p: "draw info (\<lambda>_. NAVY) (box (?h - 16) (?h - (?h - 16)) 0 (unat (fi_width info))) (s\<lparr>fb_pix := ?q\<rparr>) = Inr (s\<lparr>fb_pix := p\<rparr>)"
    "\<And>y x. x < ?p \<Longrightarrow> pixel info (s\<lparr>fb_pix := p\<rparr>) y x =
       (if (y, x) \<in> set (box (?h - 16) (?h - (?h - 16)) 0 (unat (fi_width info))) then NAVY else pixel info (s\<lparr>fb_pix := ?q\<rparr>) y x)"
    using draw_on_screen [of info "s\<lparr>fb_pix := ?q\<rparr>" "box (?h - 16) (?h - (?h - 16)) 0 (unat (fi_width info))" "\<lambda>_. NAVY"] ok h
    by (auto simp: set_box on_screen_def)
  show ?thesis
  proof (rule that)
    show "maybe_scroll info s = Inr (info\<lparr>fi_cursor_y := fi_height info - 16\<rparr>, s\<lparr>fb_pix := p\<rparr>)"
      using sc off copy p(1) ok
      by (simp add: maybe_scroll_def GLYPH_H_def ptr_add_def keep paint_rows_draw)
    fix y x assume on: "on_screen info (y, x)"
    then have x: "x < ?p" using ok by (auto simp: on_screen_def fb_ok_def)
    show "pixel info (s\<lparr>fb_pix := p\<rparr>) y x = (if y + 16 < ?h then pixel info s (y + 16) x else NAVY)"
    proof (cases "y + 16 < ?h")
      case True
      then have "(y + 1) * ?p \<le> (?h - 16) * ?p" by (intro mult_right_mono) simp_all
      then have "y * ?p + x < (?h - 16) * ?p" using x by simp
      then have "pixel info (s\<lparr>fb_pix := ?q\<rparr>) y x = pixel info s (y + 16) x"
        by (simp add: pixel_def algebra_simps)
      moreover have "(y, x) \<notin> set (box (?h - 16) (?h - (?h - 16)) 0 (unat (fi_width info)))" using True by (auto simp: set_box)
      ultimately show ?thesis using p(2) [OF x, of y] True by simp
    next
      case False
      then show ?thesis using p(2) [OF x, of y] on by (auto simp: set_box on_screen_def)
    qed
  qed
qed

lemma maybe_scroll_safe:
  assumes "fb_ok info s" "16 \<le> unat (fi_height info)"
  shows "\<exists>y p. maybe_scroll info s = Inr (info\<lparr>fi_cursor_y := y\<rparr>, s\<lparr>fb_pix := p\<rparr>)"
proof (cases "fi_cursor_y info + 16 \<le> fi_height info")
  case True
  then have "maybe_scroll info s = Inr (info\<lparr>fi_cursor_y := fi_cursor_y info\<rparr>, s\<lparr>fb_pix := fb_pix s\<rparr>)"
    by (simp add: maybe_scroll_def GLYPH_H_def)
  then show ?thesis by blast
next
  case False
  show ?thesis by (rule maybe_scroll_exact [OF assms False]) blast
qed

section \<open>The console as a text terminal\<close>

text \<open>
  The specification: a grid of \<open>R\<close> rows and \<open>C\<close> columns of character cells, a cursor, and what a
  byte does to them. Past the last column the text continues on the next row; past the last row
  the grid moves up by one row.
\<close>

record terminal =
  cells :: "nat \<Rightarrow> nat \<Rightarrow> u8 option"
  t_row :: nat
  t_col :: nat

definition t_newline :: "nat \<Rightarrow> terminal \<Rightarrow> terminal" where
  "t_newline R t =
     (if Suc (t_row t) < R then t\<lparr>t_row := Suc (t_row t), t_col := 0\<rparr>
      else t\<lparr>cells := (\<lambda>r. if Suc r < R then cells t (Suc r) else (\<lambda>_. None)), t_row := R - 1, t_col := 0\<rparr>)"

definition t_put :: "u8 \<Rightarrow> terminal \<Rightarrow> terminal" where
  "t_put b t = t\<lparr>cells := (cells t)(t_row t := (cells t (t_row t))(t_col t \<mapsto> b)), t_col := Suc (t_col t)\<rparr>"

definition t_byte :: "nat \<Rightarrow> nat \<Rightarrow> u8 \<Rightarrow> terminal \<Rightarrow> terminal" where
  "t_byte R C b t =
     (if b = 10 then t_newline R t
      else if b = 13 then t\<lparr>t_col := 0\<rparr>
      else t_put b (if t_col t = C then t_newline R t else t))"

definition cell_pixel :: "u8 option \<Rightarrow> nat \<Rightarrow> nat \<Rightarrow> u32" where
  "cell_pixel cell i j = (case cell of None \<Rightarrow> NAVY | Some b \<Rightarrow> glyph_pixel b AMBER NAVY i j)"

text \<open>The screen shows a grid when every pixel of every cell has the colour of its glyph.\<close>

definition shows_term :: "nat \<Rightarrow> nat \<Rightarrow> terminal \<Rightarrow> fb_info \<times> fb_state \<Rightarrow> bool" where
  "shows_term R C t = (\<lambda>(info, s).
     fb_ok info s \<and> 0 < R \<and> 0 < C \<and> unat (fi_height info) = 16 * R \<and> unat (fi_width info) div 8 = C \<and>
     t_row t < R \<and> t_col t \<le> C \<and> unat (fi_cursor_y info) = 16 * t_row t \<and> unat (fi_cursor_x info) = 8 * t_col t \<and>
     (\<forall>r c i j. r < R \<and> c < C \<and> i < 16 \<and> j < 8 \<longrightarrow>
        pixel info s (16 * r + i) (8 * c + j) = cell_pixel (cells t r c) i j))"

lemma pixel_info [simp]:
  "pixel (info\<lparr>fi_cursor_x := a\<rparr>) s = pixel info s" "pixel (info\<lparr>fi_cursor_y := a\<rparr>) s = pixel info s"
  by (simp_all add: pixel_def fun_eq_iff)

lemma fb_ok_info [simp]:
  "fb_ok (info\<lparr>fi_cursor_x := a\<rparr>) s = fb_ok info s" "fb_ok (info\<lparr>fi_cursor_y := a\<rparr>) s = fb_ok info s"
  by (simp_all add: fb_ok_def)

lemma on_screen_cell:
  assumes "unat (fi_height info) = 16 * R" "unat (fi_width info) div 8 = C" "r < R" "c < C" "i < 16" "j < 8"
  shows "on_screen info (16 * r + i, 8 * c + j)"
proof -
  have "8 * c + 8 \<le> 8 * C" "16 * r + 16 \<le> 16 * R" using assms(3,4) by simp_all
  moreover have "8 * C \<le> unat (fi_width info)" using assms(2) by auto
  ultimately show ?thesis using assms by (simp add: on_screen_def)
qed

lemma unat_add_small: "unat (a :: usize) + k < 2 ^ 64 \<Longrightarrow> unat (a + of_nat k) = unat a + k"
  by (subst unat_add_noof) (simp_all add: unat_of_nat_small)

lemma fb_small:
  assumes "fb_ok info s" "0 < unat (fi_width info)"
  shows "unat (fi_height info) < 2 ^ 61" "0 < unat (fi_height info) \<Longrightarrow> unat (fi_width info) < 2 ^ 61"
proof -
  let ?h = "unat (fi_height info)" and ?p = "unat (fi_pitch_pixels info)"
  have p: "0 < ?p" "unat (fi_width info) \<le> ?p" "?p * ?h < 2 ^ 61" using assms by (auto simp: fb_ok_def)
  have "1 * ?h \<le> ?p * ?h" using p(1) by (intro mult_right_mono) simp_all
  then show "?h < 2 ^ 61" using p(3) by linarith
  show "unat (fi_width info) < 2 ^ 61" if "0 < ?h"
  proof -
    have "?p * 1 \<le> ?p * ?h" using that by (intro mult_left_mono) simp_all
    then show ?thesis using p by linarith
  qed
qed

lemma shows_term_width: "shows_term R C t (info, s) \<Longrightarrow> 8 * C \<le> unat (fi_width info) \<and> 8 \<le> unat (fi_width info)"
  by (auto simp: shows_term_def)

lemma fb_ok_new_line [simp]: "fb_ok (new_line info) s = fb_ok info s"
  by (simp add: new_line_def)

lemma sel_new_line [simp]:
  "fi_height (new_line info) = fi_height info" "fi_width (new_line info) = fi_width info"
  "pixel (new_line info) s = pixel info s" "on_screen (new_line info) = on_screen info"
  by (simp_all add: new_line_def on_screen_def)

lemma new_line_refines:
  assumes "shows_term R C t (info, s)"
  shows "\<exists>info' p. maybe_scroll (new_line info) s = Inr (info', s\<lparr>fb_pix := p\<rparr>) \<and>
    shows_term R C (t_newline R t) (info', s\<lparr>fb_pix := p\<rparr>)"
proof -
  have a: "fb_ok info s" "unat (fi_height info) = 16 * R" "unat (fi_width info) div 8 = C" "0 < R"
    "t_row t < R" "unat (fi_cursor_y info) = 16 * t_row t"
    and px: "\<And>r c i j. r < R \<Longrightarrow> c < C \<Longrightarrow> i < 16 \<Longrightarrow> j < 8 \<Longrightarrow> pixel info s (16 * r + i) (8 * c + j) = cell_pixel (cells t r c) i j"
    using assms by (auto simp: shows_term_def)
  have b: "16 * R < 2 ^ 61" using fb_small(1) [OF a(1)] a(2) shows_term_width [OF assms] by simp
  have cy: "unat (fi_cursor_y info + 16) = 16 * Suc (t_row t)"
    using unat_add_small [of "fi_cursor_y info" 16] a(5,6) b by simp
  have cy2: "unat (fi_cursor_y info + 16 + 16) = 16 * Suc (Suc (t_row t))"
    using unat_add_small [of "fi_cursor_y info + 16" 16] a(5) b cy by simp
  show ?thesis
  proof (cases "Suc (t_row t) < R")
    case True
    then have "maybe_scroll (new_line info) s = Inr (new_line info, s\<lparr>fb_pix := fb_pix s\<rparr>)"
      using cy2 a(2) by (simp add: maybe_scroll_def new_line_def GLYPH_H_def word_le_nat_alt)
    moreover have "shows_term R C (t_newline R t) (new_line info, s\<lparr>fb_pix := fb_pix s\<rparr>)"
      using assms True cy by (simp add: shows_term_def t_newline_def new_line_def GLYPH_H_def)
    ultimately show ?thesis by blast
  next
    case False
    let ?i = "new_line info"
    have h16: "16 \<le> unat (fi_height ?i)" using a(2,4) by simp
    have sc: "\<not> fi_cursor_y ?i + 16 \<le> fi_height ?i"
      using False cy2 a(2) by (simp add: new_line_def GLYPH_H_def word_le_nat_alt)
    obtain p where p: "maybe_scroll ?i s = Inr (?i\<lparr>fi_cursor_y := fi_height ?i - 16\<rparr>, s\<lparr>fb_pix := p\<rparr>)"
      "\<And>y x. on_screen ?i (y, x) \<Longrightarrow> pixel ?i (s\<lparr>fb_pix := p\<rparr>) y x = (if y + 16 < unat (fi_height ?i) then pixel ?i s (y + 16) x else NAVY)"
      using maybe_scroll_exact [OF fb_ok_new_line [THEN iffD2, OF a(1)] h16 sc] by blast
    have px': "pixel info (s\<lparr>fb_pix := p\<rparr>) (16 * r + i) (8 * c + j) =
        cell_pixel (if Suc r < R then cells t (Suc r) c else None) i j"
      if "r < R" "c < C" "i < 16" "j < 8" for r c i j
      using p(2) [of "16 * r + i" "8 * c + j"] on_screen_cell [OF a(2,3) that] px [of "Suc r" c i j] that a(2)
      by (auto simp: new_line_def on_screen_def cell_pixel_def ac_simps)
    have "shows_term R C (t_newline R t) (?i\<lparr>fi_cursor_y := fi_height ?i - 16\<rparr>, s\<lparr>fb_pix := p\<rparr>)"
      using assms False px' a(2,4) by (auto simp: shows_term_def t_newline_def new_line_def unat_sub word_le_nat_alt)
    then show ?thesis using p(1) by blast
  qed
qed

lemma put_refines:
  assumes "shows_term R C t (info, s)" "t_col t < C"
  shows "\<exists>p. render_glyph_inner info b (fi_cursor_x info) (fi_cursor_y info) AMBER NAVY s = Inr (s\<lparr>fb_pix := p\<rparr>) \<and>
    shows_term R C (t_put b t) (info\<lparr>fi_cursor_x := fi_cursor_x info + GLYPH_W\<rparr>, s\<lparr>fb_pix := p\<rparr>)"
proof -
  let ?x = "unat (fi_cursor_x info)" and ?y = "unat (fi_cursor_y info)"
  have a: "fb_ok info s" "unat (fi_height info) = 16 * R" "unat (fi_width info) div 8 = C" "0 < R"
    "t_row t < R" "?y = 16 * t_row t" "?x = 8 * t_col t"
    and px: "\<And>r c i j. r < R \<Longrightarrow> c < C \<Longrightarrow> i < 16 \<Longrightarrow> j < 8 \<Longrightarrow> pixel info s (16 * r + i) (8 * c + j) = cell_pixel (cells t r c) i j"
    using assms by (auto simp: shows_term_def)
  note w = shows_term_width [OF assms(1)]
  have fit: "?y + 16 \<le> unat (fi_height info)" "?x + 8 \<le> unat (fi_width info)" using a w assms(2) by auto
  have cx: "unat (fi_cursor_x info + 8) = 8 * Suc (t_col t)"
    using unat_add_small [of "fi_cursor_x info" 8] a(7) fit(2) unat_bound [of "fi_width info"] by simp
  have on: "\<forall>k \<in> set (box ?y 16 ?x 8). on_screen info k" using fit by (auto simp: set_box on_screen_def)
  obtain p where p: "render_glyph_inner info b (fi_cursor_x info) (fi_cursor_y info) AMBER NAVY s = Inr (s\<lparr>fb_pix := p\<rparr>)"
    "\<And>y x. x < unat (fi_pitch_pixels info) \<Longrightarrow> pixel info (s\<lparr>fb_pix := p\<rparr>) y x =
       (if (y, x) \<in> set (box ?y 16 ?x 8) then glyph_pixel b AMBER NAVY (y - ?y) (x - ?x) else pixel info s y x)"
    using draw_on_screen [OF a(1) on, of "\<lambda>(r, k). glyph_pixel b AMBER NAVY (r - ?y) (k - ?x)"]
      render_glyph_draw [OF a(1) fit, of b AMBER NAVY] by auto
  have px': "pixel info (s\<lparr>fb_pix := p\<rparr>) (16 * r + i) (8 * c + j) = cell_pixel (cells (t_put b t) r c) i j"
    if rc: "r < R" "c < C" "i < 16" "j < 8" for r c i j
  proof -
    have x: "8 * c + j < unat (fi_pitch_pixels info)"
      using on_screen_cell [OF a(2,3) rc] a(1) by (auto simp: on_screen_def fb_ok_def)
    have "(16 * r + i, 8 * c + j) \<in> set (box ?y 16 ?x 8) \<longleftrightarrow> r = t_row t \<and> c = t_col t"
      using rc(3,4) a(6,7) by (auto simp: set_box)
    then show ?thesis using p(2) [OF x, of "16 * r + i"] px [OF rc] a(6,7) by (auto simp: t_put_def cell_pixel_def)
  qed
  have "shows_term R C (t_put b t) (info\<lparr>fi_cursor_x := fi_cursor_x info + GLYPH_W\<rparr>, s\<lparr>fb_pix := p\<rparr>)"
    using assms px' cx by (simp add: shows_term_def) (simp add: t_put_def GLYPH_W_def)
  then show ?thesis using p(1) by blast
qed

lemma wraps_iff:
  assumes "shows_term R C t (info, s)"
  shows "fi_cursor_x info + GLYPH_W > fi_width info \<longleftrightarrow> t_col t = C"
proof -
  have a: "fb_ok info s" "0 < R" "unat (fi_height info) = 16 * R" "unat (fi_width info) div 8 = C" "t_col t \<le> C"
    "unat (fi_cursor_x info) = 8 * t_col t"
    using assms by (auto simp: shows_term_def)
  note w = shows_term_width [OF assms]
  have "unat (fi_width info) < 2 ^ 61" by (rule fb_small(2) [OF a(1)]) (use a w in linarith)+
  then have "unat (fi_cursor_x info + 8) = 8 * t_col t + 8"
    using unat_add_small [of "fi_cursor_x info" 8] a(5,6) w by simp
  moreover have "unat (fi_width info) < 8 * C + 8" using a(4) by auto
  ultimately show ?thesis using a(5) w by (auto simp: word_less_nat_alt GLYPH_W_def)
qed

lemma print_byte_refines:
  assumes "shows_term R C t (info, s)"
  shows "\<exists>info' p. print_byte b (info, s) = Inr (info', s\<lparr>fb_pix := p\<rparr>) \<and>
    shows_term R C (t_byte R C b t) (info', s\<lparr>fb_pix := p\<rparr>)"
proof -
  consider "b = 10" | "b = 13" | "b \<noteq> 10" "b \<noteq> 13" "t_col t = C" | "b \<noteq> 10" "b \<noteq> 13" "t_col t < C"
    using assms by (fastforce simp: shows_term_def)
  then show ?thesis
  proof cases
    case 1
    then show ?thesis using new_line_refines [OF assms] by (simp add: print_byte_def t_byte_def)
  next
    case 2
    have "shows_term R C (t_byte R C b t) (info\<lparr>fi_cursor_x := 0\<rparr>, s\<lparr>fb_pix := fb_pix s\<rparr>)"
      using 2 assms by (simp add: t_byte_def shows_term_def)
    moreover have "print_byte b (info, s) = Inr (info\<lparr>fi_cursor_x := 0\<rparr>, s\<lparr>fb_pix := fb_pix s\<rparr>)"
      using 2 by (simp add: print_byte_def)
    ultimately show ?thesis by blast
  next
    case 3
    obtain info' p where n: "maybe_scroll (new_line info) s = Inr (info', s\<lparr>fb_pix := p\<rparr>)"
      "shows_term R C (t_newline R t) (info', s\<lparr>fb_pix := p\<rparr>)"
      using new_line_refines [OF assms] by blast
    moreover have "t_col (t_newline R t) < C" using assms by (auto simp: t_newline_def shows_term_def)
    ultimately obtain q where q: "render_glyph_inner info' b (fi_cursor_x info') (fi_cursor_y info') AMBER NAVY (s\<lparr>fb_pix := p\<rparr>) = Inr (s\<lparr>fb_pix := q\<rparr>)"
      "shows_term R C (t_put b (t_newline R t)) (info'\<lparr>fi_cursor_x := fi_cursor_x info' + GLYPH_W\<rparr>, s\<lparr>fb_pix := q\<rparr>)"
      using put_refines [OF n(2), of b] by auto
    have "print_byte b (info, s) = Inr (info'\<lparr>fi_cursor_x := fi_cursor_x info' + GLYPH_W\<rparr>, s\<lparr>fb_pix := q\<rparr>)"
      using n(1) q(1) 3 wraps_iff [OF assms] by (simp add: print_byte_def)
    then show ?thesis using q(2) 3 by (auto simp: t_byte_def)
  next
    case 4
    obtain p where p: "render_glyph_inner info b (fi_cursor_x info) (fi_cursor_y info) AMBER NAVY s = Inr (s\<lparr>fb_pix := p\<rparr>)"
      "shows_term R C (t_put b t) (info\<lparr>fi_cursor_x := fi_cursor_x info + GLYPH_W\<rparr>, s\<lparr>fb_pix := p\<rparr>)"
      using put_refines [OF assms 4(3)] by blast
    have "print_byte b (info, s) = Inr (info\<lparr>fi_cursor_x := fi_cursor_x info + GLYPH_W\<rparr>, s\<lparr>fb_pix := p\<rparr>)"
      using p(1) 4 wraps_iff [OF assms] by (simp add: print_byte_def)
    then show ?thesis using p(2) 4 by (auto simp: t_byte_def)
  qed
qed

lemma print_bytes_refine:
  assumes "shows_term R C t (info, s)"
  shows "\<exists>info' p. fold_out print_byte bs (info, s) = Inr (info', s\<lparr>fb_pix := p\<rparr>) \<and>
    shows_term R C (fold (t_byte R C) bs t) (info', s\<lparr>fb_pix := p\<rparr>)"
  using assms
proof (induction bs arbitrary: t info s)
  case Nil
  then show ?case by (intro exI [of _ info] exI [of _ "fb_pix s"]) simp
next
  case (Cons b bs)
  obtain info' p where b: "print_byte b (info, s) = Inr (info', s\<lparr>fb_pix := p\<rparr>)"
    "shows_term R C (t_byte R C b t) (info', s\<lparr>fb_pix := p\<rparr>)"
    using print_byte_refines [OF Cons.prems] by blast
  from Cons.IH [OF b(2)] show ?case by (auto simp: b(1))
qed

lemma print_str_shows:
  assumes "FB s = Some info" "shows_term R C t (info, s)"
  shows "\<exists>s' info'. print_str contended bs s = Inr s' \<and> FB s' = Some info' \<and> FB_READY s' = FB_READY s \<and>
    shows_term R C (if contended \<or> \<not> FB_READY s then t else fold (t_byte R C) bs t) (info', s')"
proof -
  obtain info' p where p: "print_str_inner info bs s = Inr (info', s\<lparr>fb_pix := p\<rparr>)"
    "shows_term R C (fold (t_byte R C) bs t) (info', s\<lparr>fb_pix := p\<rparr>)"
    using print_bytes_refine [OF assms(2), of bs] unfolding print_str_inner_def by blast
  have "shows_term R C u (info', s\<lparr>fb_pix := p, FB := f\<rparr>) = shows_term R C u (info', s\<lparr>fb_pix := p\<rparr>)" for u f
    by (simp add: shows_term_def fb_ok_def pixel_def)
  then show ?thesis using p assms by (auto simp: print_str_def)
qed

text \<open>Calls on the console, and the geometry they keep.\<close>

datatype fb_call = Clear u32 | Put_pixel usize usize u32 | Render "u8 list" usize usize u32 u32 | Print bool "u8 list"

fun fb_do :: "fb_call \<Rightarrow> fb_state \<Rightarrow> fb_state outcome" where
  "fb_do (Clear rgb) s = fb_clear rgb s"
| "fb_do (Put_pixel x y rgb) s = put_pixel x y rgb s"
| "fb_do (Render bs x y fg bg) s = render_string bs x y fg bg s"
| "fb_do (Print contended bs) s = print_str contended bs s"

definition same_geometry :: "fb_info \<Rightarrow> fb_info \<Rightarrow> bool" where
  "same_geometry i j = (fi_width i = fi_width j \<and> fi_height i = fi_height j \<and> fi_pitch_pixels i = fi_pitch_pixels j)"

definition fb_typed :: "fb_info \<Rightarrow> nat \<Rightarrow> fb_state \<Rightarrow> bool" where
  "fb_typed i n s = (fb_len s = n \<and> (\<exists>info. FB s = Some info \<and> same_geometry i info \<and> fb_ok info s \<and> 16 \<le> unat (fi_height info)))"

lemma pix_self [simp]: "\<exists>q. s = s\<lparr>fb_pix := q\<rparr>"
  by (rule exI [of _ "fb_pix s"]) simp

lemma print_byte_safe:
  assumes "fb_ok info s" "16 \<le> unat (fi_height info)"
  shows "\<exists>info' p. print_byte b (info, s) = Inr (info', s\<lparr>fb_pix := p\<rparr>) \<and> same_geometry info info'"
proof -
  have scroll: "\<exists>info' p. maybe_scroll (new_line info) s = Inr (info', s\<lparr>fb_pix := p\<rparr>) \<and> same_geometry info info'"
  proof -
    obtain y p where "maybe_scroll (new_line info) s = Inr ((new_line info)\<lparr>fi_cursor_y := y\<rparr>, s\<lparr>fb_pix := p\<rparr>)"
      using maybe_scroll_safe [of "new_line info" s] assms by auto
    then show ?thesis by (auto simp: same_geometry_def new_line_def)
  qed
  have put: "\<exists>p. render_glyph_inner info' b x y AMBER NAVY (s\<lparr>fb_pix := q\<rparr>) = Inr (s\<lparr>fb_pix := p\<rparr>)" if "same_geometry info info'" for info' x y q
    using render_glyph_safe [of info' "s\<lparr>fb_pix := q\<rparr>"] that assms(1) by (auto simp: same_geometry_def fb_ok_def)
  have s: "s = s\<lparr>fb_pix := fb_pix s\<rparr>" by simp
  have "\<exists>info' q. (if fi_cursor_x info + GLYPH_W > fi_width info then maybe_scroll (new_line info) s else Inr (info, s)) =
      Inr (info', s\<lparr>fb_pix := q\<rparr>) \<and> same_geometry info info'"
    using scroll s by (auto simp: same_geometry_def)
  then obtain info' q where wrap: "(if fi_cursor_x info + GLYPH_W > fi_width info then maybe_scroll (new_line info) s else Inr (info, s)) =
      Inr (info', s\<lparr>fb_pix := q\<rparr>)" and g: "same_geometry info info'" by blast
  obtain p where "render_glyph_inner info' b (fi_cursor_x info') (fi_cursor_y info') AMBER NAVY (s\<lparr>fb_pix := q\<rparr>) = Inr (s\<lparr>fb_pix := p\<rparr>)"
    using put [OF g] by blast
  then show ?thesis
    using wrap g scroll s by (cases "b = 10"; cases "b = 13") (auto simp: print_byte_def same_geometry_def)
qed

lemma print_bytes_safe:
  assumes "fb_ok info s" "16 \<le> unat (fi_height info)"
  shows "\<exists>info' p. fold_out print_byte bs (info, s) = Inr (info', s\<lparr>fb_pix := p\<rparr>) \<and> same_geometry info info'"
  using assms
proof (induction bs arbitrary: info s)
  case Nil
  show ?case by (intro exI [of _ info] exI [of _ "fb_pix s"]) (simp add: same_geometry_def)
next
  case (Cons b bs)
  obtain info' p where b: "print_byte b (info, s) = Inr (info', s\<lparr>fb_pix := p\<rparr>)" "same_geometry info info'"
    using print_byte_safe [OF Cons.prems] by blast
  obtain info'' q where "fold_out print_byte bs (info', s\<lparr>fb_pix := p\<rparr>) = Inr (info'', s\<lparr>fb_pix := q\<rparr>)" "same_geometry info' info''"
    using Cons.IH [of info' "s\<lparr>fb_pix := p\<rparr>"] Cons.prems b(2) by (auto simp: same_geometry_def fb_ok_def)
  then show ?case using b by (intro exI [of _ info''] exI [of _ q]) (simp add: same_geometry_def)
qed

lemma fb_do_typed:
  assumes "fb_typed i n s"
  shows "\<exists>s'. fb_do c s = Inr s' \<and> fb_typed i n s'"
proof -
  obtain info where t: "FB s = Some info" "same_geometry i info" "fb_ok info s" "16 \<le> unat (fi_height info)" "fb_len s = n"
    using assms by (auto simp: fb_typed_def)
  have keep: "fb_typed i n (s\<lparr>fb_pix := p\<rparr>)" for p using assms by (auto simp: fb_typed_def)
  show ?thesis
  proof (cases c)
    case (Clear rgb)
    have "\<exists>p. paint_rows info 0 rgb s = Inr (s\<lparr>fb_pix := p\<rparr>)"
      unfolding paint_rows_draw [OF t(3)]
      by (rule draw_on_screen [OF t(3), of "box 0 (unat (fi_height info) - 0) 0 (unat (fi_width info))" "\<lambda>_. rgb"])
        (auto simp: set_box on_screen_def)
    then show ?thesis using keep t(1) Clear by (auto simp: fb_clear_def)
  next
    case (Put_pixel x y rgb)
    show ?thesis
    proof (cases "x \<ge> fi_width info \<or> y \<ge> fi_height info")
      case True
      then show ?thesis using t(1) Put_pixel assms by (auto simp: put_pixel_def)
    next
      case False
      then have xy: "unat x < unat (fi_width info)" "unat y < unat (fi_height info)" by (auto simp: word_le_nat_alt)
      note rb = row_bound [OF t(3) xy(2), simplified]
      have "unat (y * fi_pitch_pixels info + x) = unat y * unat (fi_pitch_pixels info) + unat x"
        by (subst unat_add_noof) (use rb xy t(3) in \<open>simp_all add: fb_ok_def\<close>)
      then show ?thesis using False t(1) keep rb(2) xy(1) Put_pixel by (simp add: put_pixel_def ptr_add_def write_volatile_in)
    qed
  next
    case (Render bs x y fg bg)
    then show ?thesis using render_bytes_safe [OF t(3)] keep t(1) by (fastforce simp: render_string_def)
  next
    case (Print contended bs)
    obtain info' p where p: "fold_out print_byte bs (info, s) = Inr (info', s\<lparr>fb_pix := p\<rparr>)" "same_geometry info info'"
      using print_bytes_safe [OF t(3,4)] by blast
    then have "fb_typed i n (s\<lparr>fb_pix := p, FB := Some info'\<rparr>)" using t by (auto simp: fb_typed_def same_geometry_def fb_ok_def)
    then show ?thesis using p(1) t(1) assms Print by (simp add: print_str_def print_str_inner_def)
  qed
qed

lemma scroll_short_screen:
  assumes "fb_ok info s" "unat (fi_pitch_pixels info) \<in> {1..<2 ^ 32}" "unat (fi_height info) < 16" "unat (fi_cursor_y info) < 2 ^ 32"
  shows "maybe_scroll (new_line info) s = Inl Undefined"
proof -
  let ?p = "fi_pitch_pixels info" and ?h = "fi_height info"
  have "unat (fi_cursor_y info + 16 + 16) = unat (fi_cursor_y info) + 32"
    using unat_add_small [of "fi_cursor_y info" 32] assms(4) by (simp add: add.assoc)
  then have sc: "\<not> fi_cursor_y (new_line info) + GLYPH_H \<le> ?h"
    using assms(3) by (simp add: word_le_nat_alt new_line_def GLYPH_H_def)
  define w where "w = (16 - ?h) * ?p"
  have k: "unat (16 - ?h) = 16 - unat ?h" using assms(3) by (simp add: unat_sub word_le_nat_alt)
  have "unat w = (16 - unat ?h) * unat ?p"
  proof -
    have "(16 - unat ?h) * unat ?p \<le> 16 * unat ?p" by (intro mult_right_mono) simp_all
    then have "(16 - unat ?h) * unat ?p < 2 ^ LENGTH(64)" by (rule le_less_trans) (use assms(2) in simp)
    then have "unat (16 - ?h) * unat ?p < 2 ^ LENGTH(64)" unfolding k .
    then show ?thesis unfolding w_def k [symmetric] by (rule unat_mult_lem [THEN iffD1])
  qed
  then have "0 < unat w" "unat w \<le> 16 * unat ?p" using assms(2,3) by (simp_all add: mult_right_mono)
  moreover have "(?h - 16) * ?p = 0 - w" by (simp add: w_def algebra_simps)
  ultimately have "unat ((?h - 16) * ?p) = 2 ^ 64 - unat w" using unat_sub_if' [of 0 w] by simp
  then have big: "\<not> unat ((?h - 16) * ?p) \<le> fb_len s"
    using \<open>unat w \<le> 16 * unat ?p\<close> assms(2) assms(1) [unfolded fb_ok_def, THEN conjunct2, THEN conjunct2] by auto
  have "ptr_copy src 0 ((?h - 16) * ?p) s = Inl Undefined" for src using big by (simp add: ptr_copy_def)
  then show ?thesis using sc
    by (simp add: maybe_scroll_def Let_def ptr_add_def GLYPH_H_def) (simp add: new_line_def)
qed

text \<open>
  C32. Memory safety of the console. After initialisation on a framebuffer of at least one glyph row
  whose rows fit its memory, no sequence of clear, put\_pixel, render\_string and print\_str calls,
  with any coordinates and any bytes, computes a pointer or stores outside the framebuffer, panics
  or changes the geometry. The height bound is needed: below 16 rows the first scroll subtracts past
  zero and copies far outside the framebuffer.
\<close>

theorem fb_in_bounds:
  "(fb_typed i n s \<longrightarrow> (\<exists>s'. fold_out fb_do cs s = Inr s' \<and> fb_typed i n s')) \<and>
   (FB s = Some info \<and> FB_READY s \<and> fb_ok info s \<and> unat (fi_pitch_pixels info) \<in> {1..<2 ^ 32} \<and> unat (fi_height info) < 16 \<and>
    unat (fi_cursor_y info) < 2 ^ 32 \<longrightarrow> fb_do (Print False [10]) s = Inl Undefined)"
proof -
  have "\<exists>s'. fold_out fb_do cs s = Inr s' \<and> fb_typed i n s'" if "fb_typed i n s"
    by (rule fold_out_total [of "fb_typed i n", OF _ that]) (rule fb_do_typed)
  then show ?thesis
    using scroll_short_screen by (auto simp: print_str_def print_str_inner_def print_byte_def)
qed

text \<open>A cleared screen of two rows of two characters, and six bytes to print.\<close>

definition demo_fb :: "fb_state" where
  "demo_fb = \<lparr>FB = Some \<lparr>fi_width = 17, fi_height = 32, fi_pitch_pixels = 20, fi_cursor_x = 0, fi_cursor_y = 0\<rparr>,
     FB_READY = True, fb_pix = (\<lambda>_. NAVY), fb_len = 640\<rparr>"

definition demo_term :: terminal where
  "demo_term = \<lparr>cells = (\<lambda>_ _. None), t_row = 0, t_col = 0\<rparr>"

definition demo_text :: "u8 list" where
  "demo_text = [65, 66, 67, 10, 68, 13]"

theorem fb_in_bounds_witness:
  "(\<exists>s'. fold_out fb_do [Clear NAVY, Render demo_text 12 (- 3) AMBER NAVY, Put_pixel 99 0 1, Print False demo_text] demo_fb = Inr s') \<and>
   fb_do (Print False [10]) (demo_fb\<lparr>FB := Some ((the (FB demo_fb))\<lparr>fi_height := 15\<rparr>)\<rparr>) = Inl Undefined"
proof -
  have "fb_typed (the (FB demo_fb)) 640 demo_fb" by (simp add: fb_typed_def demo_fb_def same_geometry_def fb_ok_def)
  moreover have "fb_ok ((the (FB demo_fb))\<lparr>fi_height := 15\<rparr>) (demo_fb\<lparr>FB := Some ((the (FB demo_fb))\<lparr>fi_height := 15\<rparr>)\<rparr>)"
    by (simp add: demo_fb_def fb_ok_def)
  ultimately show ?thesis
    using fb_in_bounds [of "the (FB demo_fb)" 640 demo_fb "[Clear NAVY, Render demo_text 12 (- 3) AMBER NAVY, Put_pixel 99 0 1, Print False demo_text]"]
      fb_in_bounds [of "the (FB demo_fb)" 640 "demo_fb\<lparr>FB := Some ((the (FB demo_fb))\<lparr>fi_height := 15\<rparr>)\<rparr>" "[]" "(the (FB demo_fb))\<lparr>fi_height := 15\<rparr>"]
    by (simp del: fold_out.simps fb_do.simps) (auto simp: demo_fb_def simp del: fold_out.simps fb_do.simps)
qed

end
