(* ===== verification/Serial.thy ===== *)
theory Serial
  imports Fb
begin

unbundle bit_operations_syntax

text \<open>
  Text output: the COM1 driver with its framebuffer mirror (arsenal-kernel/src/serial.rs), and the
  LinuxKPI log that is routed to it (linuxkpi/src/log.rs). The UART is a parameter, a record of what
  reading and writing its ports does; its documented behaviour is \<open>uart_ok\<close>. The wait
  for an empty transmitter has no bound in the code and is a partial function.
\<close>

section \<open>The COM1 driver\<close>

definition COM1_BASE :: u16 where "COM1_BASE = 0x3F8"
definition PORT_DATA :: u16 where "PORT_DATA = COM1_BASE"
definition PORT_IER :: u16 where "PORT_IER = COM1_BASE + 1"
definition PORT_FCR :: u16 where "PORT_FCR = COM1_BASE + 2"
definition PORT_LCR :: u16 where "PORT_LCR = COM1_BASE + 3"
definition PORT_MCR :: u16 where "PORT_MCR = COM1_BASE + 4"
definition PORT_LSR :: u16 where "PORT_LSR = COM1_BASE + 5"
definition LSR_THRE :: u8 where "LSR_THRE = push_bit 5 1"

record 'd uart =
  ua_in :: "u16 \<Rightarrow> 'd \<Rightarrow> u8 \<times> 'd"
  ua_out :: "u16 \<Rightarrow> u8 \<Rightarrow> 'd \<Rightarrow> 'd"

definition serial_init :: "'d uart \<Rightarrow> 'd \<Rightarrow> 'd" where
  "serial_init U d =
     fold (\<lambda>(port, val). ua_out U port val)
       [(PORT_IER, 0x00), (PORT_LCR, 0x80), (PORT_DATA, 0x01), (PORT_IER, 0x00), (PORT_LCR, 0x03), (PORT_FCR, 0xC7), (PORT_MCR, 0x0B)] d"

partial_function (option) wait_thre :: "'d uart \<Rightarrow> 'd \<Rightarrow> 'd option" where
  "wait_thre U d = (case ua_in U PORT_LSR d of (v, d') \<Rightarrow> if v AND LSR_THRE = 0 then wait_thre U d' else Some d')"

definition write_byte :: "'d uart \<Rightarrow> u8 \<Rightarrow> 'd \<Rightarrow> 'd option" where
  "write_byte U b d = (case wait_thre U d of None \<Rightarrow> None | Some d' \<Rightarrow> Some (ua_out U PORT_DATA b d'))"

fun write_bytes :: "'d uart \<Rightarrow> u8 list \<Rightarrow> 'd \<Rightarrow> 'd option" where
  "write_bytes U [] d = Some d"
| "write_bytes U (b # bs) d = (case write_byte U b d of None \<Rightarrow> None | Some d' \<Rightarrow> write_bytes U bs d')"

definition write_str :: "'d uart \<Rightarrow> bool \<Rightarrow> u8 list \<Rightarrow> 'd \<times> fb_state \<Rightarrow> ('d \<times> fb_state) run" where
  "write_str U contended bs = (\<lambda>(d, s).
     case write_bytes U bs d of None \<Rightarrow> None
     | Some d' \<Rightarrow> Some (and_then (print_str contended bs s) (\<lambda>s'. Inr (d', s'))))"

definition linuxkpi_serial_sink :: "'d uart \<Rightarrow> u8 list option \<Rightarrow> 'd \<Rightarrow> 'd option" where
  "linuxkpi_serial_sink U p d = (case p of None \<Rightarrow> Some d | Some bs \<Rightarrow> if bs = [] then Some d else write_bytes U bs d)"

section \<open>The LinuxKPI log\<close>

definition KERN_SOH_BYTE :: u8 where "KERN_SOH_BYTE = 0x01"

definition KERN_LEVELS :: "(u8 \<times> string) list" where
  "KERN_LEVELS = [(0x30, ''EMERG''), (0x31, ''ALERT''), (0x32, ''CRIT''), (0x33, ''ERR''),
     (0x34, ''WARN''), (0x35, ''NOTICE''), (0x36, ''INFO''), (0x37, ''DEBUG'')]"

definition ascii :: "string \<Rightarrow> u8 list" where
  "ascii = map of_char"

definition strip_kern_level :: "u8 list \<Rightarrow> u8 list option \<times> u8 list" where
  "strip_kern_level bs =
     (if length bs < 2 \<or> bs ! 0 \<noteq> KERN_SOH_BYTE then (None, bs)
      else case map_of KERN_LEVELS (bs ! 1) of None \<Rightarrow> (None, bs) | Some tag \<Rightarrow> (Some (ascii tag), drop 2 bs))"

definition write_to_sink :: "'d uart \<Rightarrow> u8 list \<Rightarrow> 'd \<Rightarrow> 'd option" where
  "write_to_sink U bs d = (if bs = [] then Some d else linuxkpi_serial_sink U (Some bs) d)"

definition pr :: "'d uart \<Rightarrow> u8 list \<Rightarrow> 'd \<Rightarrow> 'd option" where
  "pr U bs d =
     (let (level_tag, body) = strip_kern_level bs in
      case (case level_tag of None \<Rightarrow> Some d
            | Some tag \<Rightarrow> Option.bind (write_to_sink U (ascii ''['') d) (\<lambda>d.
                Option.bind (write_to_sink U tag d) (write_to_sink U (ascii ''] '')))) of
        None \<Rightarrow> None | Some d' \<Rightarrow> write_to_sink U body d')"

text \<open>
  The argument of printk is a pointer to bytes: NULL, or the bytes of memory from there on, of which
  the string is the part before the first NUL; memory without a NUL is undefined behaviour.
\<close>

definition printk :: "'d uart \<Rightarrow> u8 list option \<Rightarrow> 'd \<Rightarrow> (32 word \<times> 'd) run" where
  "printk U fmt d =
     (case fmt of None \<Rightarrow> returns (0, d)
      | Some mem \<Rightarrow>
          if 0 \<notin> set mem then Some (Inl Undefined)
          else let bs = takeWhile (\<lambda>b. b \<noteq> 0) mem; (level_tag, body) = strip_kern_level bs in
            case (case level_tag of None \<Rightarrow> Some d
                  | Some tag \<Rightarrow> Option.bind (write_to_sink U (ascii ''['') d) (\<lambda>d.
                      Option.bind (write_to_sink U tag d) (write_to_sink U (ascii ''] '')))) of
              None \<Rightarrow> None
            | Some d' \<Rightarrow> (case write_to_sink U body d' of None \<Rightarrow> None | Some d'' \<Rightarrow> returns (of_nat (length body), d'')))"

section \<open>The line\<close>

text \<open>
  A 16550 with its divisor latch closed: reading the line status does not disturb what was sent,
  after finitely many reads the transmitter is empty, and a byte written then goes out.
\<close>

fun lsr_after :: "'d uart \<Rightarrow> nat \<Rightarrow> 'd \<Rightarrow> u8 \<times> 'd" where
  "lsr_after U 0 d = ua_in U PORT_LSR d"
| "lsr_after U (Suc n) d = lsr_after U n (snd (ua_in U PORT_LSR d))"

definition uart_ok :: "'d uart \<Rightarrow> ('d \<Rightarrow> bool) \<Rightarrow> ('d \<Rightarrow> u8 list) \<Rightarrow> bool" where
  "uart_ok U up sent =
     (\<forall>d. up d \<longrightarrow>
        (\<exists>n. fst (lsr_after U n d) AND LSR_THRE \<noteq> 0) \<and>
        (let (v, d') = ua_in U PORT_LSR d in
           sent d' = sent d \<and> up d' \<and>
           (v AND LSR_THRE \<noteq> 0 \<longrightarrow> (\<forall>b. sent (ua_out U PORT_DATA b d') = sent d' @ [b] \<and> up (ua_out U PORT_DATA b d')))))"

lemma uart_okD:
  assumes "uart_ok U up sent" "up d" "ua_in U PORT_LSR d = (v, d')"
  shows "sent d' = sent d" "up d'"
    "v AND LSR_THRE \<noteq> 0 \<Longrightarrow> sent (ua_out U PORT_DATA b d') = sent d' @ [b] \<and> up (ua_out U PORT_DATA b d')"
  using assms by (auto simp: uart_ok_def)

lemma write_byte_sent:
  assumes U: "uart_ok U up sent" and d: "up d"
  obtains d' where "write_byte U b d = Some d'" "sent d' = sent d @ [b]" "up d'"
proof -
  obtain n where "fst (lsr_after U n d) AND LSR_THRE \<noteq> 0" using U d unfolding uart_ok_def by blast
  then have "\<exists>d'. write_byte U b d = Some d' \<and> sent d' = sent d @ [b] \<and> up d'"
    using d
  proof (induction n arbitrary: d)
    case 0
    obtain v d' where r: "ua_in U PORT_LSR d = (v, d')" by force
    then show ?case
      using 0 uart_okD [OF U _ r] wait_thre.simps [of U d] by (simp add: write_byte_def)
  next
    case (Suc n)
    obtain v d' where r: "ua_in U PORT_LSR d = (v, d')" by force
    show ?case
    proof (cases "v AND LSR_THRE = 0")
      case True
      then have "wait_thre U d = wait_thre U d'" using r wait_thre.simps [of U d] by simp
      then show ?thesis
        using Suc.IH [of d'] Suc.prems r uart_okD [OF U Suc.prems(2) r] by (simp add: write_byte_def)
    next
      case False
      then show ?thesis
        using uart_okD [OF U Suc.prems(2) r] r wait_thre.simps [of U d] by (simp add: write_byte_def)
    qed
  qed
  then show ?thesis using that by blast
qed

lemma write_bytes_sent:
  assumes "uart_ok U up sent" "up d"
  shows "\<exists>d'. write_bytes U bs d = Some d' \<and> sent d' = sent d @ bs \<and> up d'"
  using assms(2)
proof (induction bs arbitrary: d)
  case (Cons b bs)
  obtain d' where "write_byte U b d = Some d'" "sent d' = sent d @ [b]" "up d'" by (rule write_byte_sent [OF assms(1) Cons.prems])
  then show ?case using Cons.IH [of d'] by auto
qed simp

lemma write_to_sink_sent:
  assumes "uart_ok U up sent" "up d"
  obtains d' where "write_to_sink U bs d = Some d'" "sent d' = sent d @ bs" "up d'"
proof -
  have "write_to_sink U bs d = write_bytes U bs d" by (simp add: write_to_sink_def linuxkpi_serial_sink_def)
  then show ?thesis using write_bytes_sent [OF assms, of bs] that by auto
qed

section \<open>Properties\<close>

text \<open>
  Text output refines a serial line and a text terminal. On a UART whose transmitter always
  drains, writing a string returns, sends exactly its bytes in order on the serial line, and leaves
  on a screen that shows a grid of characters exactly the grid a terminal has after those bytes:
  printable bytes fill the cell at the cursor with their glyph of the font, newline and carriage
  return move the cursor, long lines wrap and the grid scrolls up at the bottom with a blank last
  row. A string written while the console's lock is held, or before the console is initialised,
  appears on the serial line alone.
\<close>

theorem write_str_output:
  assumes "uart_ok U up sent" "up d" "FB s = Some info" "shows_term R C t (info, s)"
  shows "\<exists>d' s' info'. write_str U contended bs (d, s) = returns (d', s') \<and> sent d' = sent d @ bs \<and> up d' \<and>
    FB s' = Some info' \<and>
    shows_term R C (if contended \<or> \<not> FB_READY s then t else fold (t_byte R C) bs t) (info', s')"
proof -
  obtain d' where d: "write_bytes U bs d = Some d'" "sent d' = sent d @ bs" "up d'"
    using write_bytes_sent [OF assms(1,2)] by blast
  obtain s' info' where s: "print_str contended bs s = Inr s'" "FB s' = Some info'"
    "shows_term R C (if contended \<or> \<not> FB_READY s then t else fold (t_byte R C) bs t) (info', s')"
    using print_str_shows [OF assms(3,4)] by blast
  have "write_str U contended bs (d, s) = returns (d', s')" using d(1) s(1) by (simp add: write_str_def)
  then show ?thesis using d s by blast
qed

text \<open>The text a log message stands for: its level in brackets, if it has one, then the rest.\<close>

fun kern_text :: "u8 list \<Rightarrow> u8 list" where
  "kern_text (a # l # body) =
     (if a = 1 \<and> 0x30 \<le> l \<and> l \<le> 0x37
      then ascii (''['' @ [''EMERG'', ''ALERT'', ''CRIT'', ''ERR'', ''WARN'', ''NOTICE'', ''INFO'', ''DEBUG''] ! (unat l - 0x30) @ ''] '') @ body
      else a # l # body)"
| "kern_text bs = bs"

lemma level_values:
  assumes "0x30 \<le> l" "l \<le> (0x37 :: u8)"
  shows "l = 0x30 \<or> l = 0x31 \<or> l = 0x32 \<or> l = 0x33 \<or> l = 0x34 \<or> l = 0x35 \<or> l = 0x36 \<or> l = 0x37"
proof -
  have "unat l \<in> {0x30..0x37}" using assms by (simp add: word_le_nat_alt)
  then have "unat l = 0x30 \<or> unat l = 0x31 \<or> unat l = 0x32 \<or> unat l = 0x33 \<or> unat l = 0x34 \<or> unat l = 0x35 \<or> unat l = 0x36 \<or> unat l = 0x37"
    by auto
  then show ?thesis by (auto simp: word_unat_eq_iff)
qed

lemma strip_kern_text:
  "kern_text bs = (case strip_kern_level bs of (None, body) \<Rightarrow> body | (Some tag, body) \<Rightarrow> ascii ''['' @ tag @ ascii ''] '' @ body)"
proof (cases bs rule: kern_text.cases)
  case (1 a l body)
  show ?thesis
  proof (cases "0x30 \<le> l \<and> l \<le> 0x37")
    case True
    then have "l = 0x30 \<or> l = 0x31 \<or> l = 0x32 \<or> l = 0x33 \<or> l = 0x34 \<or> l = 0x35 \<or> l = 0x36 \<or> l = 0x37"
      using level_values by blast
    then show ?thesis unfolding 1
      by (elim disjE) (auto simp: strip_kern_level_def KERN_LEVELS_def KERN_SOH_BYTE_def ascii_def)
  next
    case False
    then have "map_of KERN_LEVELS l = None" by (auto simp: KERN_LEVELS_def)
    then show ?thesis using False 1 by (auto simp: strip_kern_level_def KERN_SOH_BYTE_def)
  qed
qed (simp_all add: strip_kern_level_def)

lemma log_sent:
  assumes "uart_ok U up sent" "up d" "strip_kern_level bs = (level_tag, body)"
  obtains d\<^sub>1 d\<^sub>2 where
    "(case level_tag of None \<Rightarrow> Some d
      | Some tag \<Rightarrow> Option.bind (write_to_sink U (ascii ''['') d) (\<lambda>d.
          Option.bind (write_to_sink U tag d) (write_to_sink U (ascii ''] '')))) = Some d\<^sub>1"
    "write_to_sink U body d\<^sub>1 = Some d\<^sub>2" "sent d\<^sub>2 = sent d @ kern_text bs" "up d\<^sub>2"
proof (cases level_tag)
  case None
  obtain d\<^sub>2 where "write_to_sink U body d = Some d\<^sub>2" "sent d\<^sub>2 = sent d @ body" "up d\<^sub>2"
    by (rule write_to_sink_sent [OF assms(1,2)])
  then show ?thesis using that [of d d\<^sub>2] None assms(3) by (simp add: strip_kern_text)
next
  case (Some tag)
  obtain a where a: "write_to_sink U (ascii ''['') d = Some a" "sent a = sent d @ ascii ''[''" "up a"
    by (rule write_to_sink_sent [OF assms(1,2)])
  obtain b where b: "write_to_sink U tag a = Some b" "sent b = sent a @ tag" "up b"
    by (rule write_to_sink_sent [OF assms(1) a(3)])
  obtain c where c: "write_to_sink U (ascii ''] '') b = Some c" "sent c = sent b @ ascii ''] ''" "up c"
    by (rule write_to_sink_sent [OF assms(1) b(3)])
  obtain e where e: "write_to_sink U body c = Some e" "sent e = sent c @ body" "up e"
    by (rule write_to_sink_sent [OF assms(1) c(3)])
  show ?thesis using that [of c e] a b c e Some assms(3) by (simp add: strip_kern_text)
qed

lemma payload_length:
  assumes "strip_kern_level bs = (tag, body)"
  shows "length body = length bs - (if kern_text bs = bs then 0 else 2)"
proof (cases tag)
  case None
  then have "body = bs" using assms by (auto simp: strip_kern_level_def split: if_splits option.splits)
  then show ?thesis using None assms by (simp add: strip_kern_text)
next
  case (Some x)
  then have b: "body = drop 2 bs" "bs ! 0 = 1" "2 \<le> length bs"
    using assms by (auto simp: strip_kern_level_def KERN_SOH_BYTE_def split: if_splits option.splits)
  have "kern_text bs ! 0 = 0x5B" using Some assms by (simp add: strip_kern_text ascii_def)
  then have "kern_text bs \<noteq> bs" using b(2) by auto
  then show ?thesis using b(1) by simp
qed

text \<open>
  The kernel log loses nothing. For every NUL-terminated message printk returns, and the serial
  line receives exactly the text of the message: with a KERN\_ prefix (SOH and a digit from 0 to 7)
  the name of the level in brackets and then the rest, otherwise every byte unchanged, malformed
  prefixes included; the result is the length of the payload without the prefix. The Rust entry
  point pr sends the same text. A NULL message sends nothing.
\<close>

theorem printk_output:
  assumes "uart_ok U up sent" "up d" "0 \<notin> set bs" "length bs < 2 ^ 31"
  shows "\<exists>d' k. printk U (Some (bs @ 0 # rest)) d = returns (k, d') \<and> sent d' = sent d @ kern_text bs \<and> up d' \<and>
      pr U bs d = Some d' \<and> unat k = length bs - (if kern_text bs = bs then 0 else 2) \<and> printk U None d = returns (0, d)"
proof -
  obtain tag body where t: "strip_kern_level bs = (tag, body)" by force
  obtain d\<^sub>1 d\<^sub>2 where d: "(case tag of None \<Rightarrow> Some d
      | Some tag \<Rightarrow> Option.bind (write_to_sink U (ascii ''['') d) (\<lambda>d.
          Option.bind (write_to_sink U tag d) (write_to_sink U (ascii ''] '')))) = Some d\<^sub>1"
    "write_to_sink U body d\<^sub>1 = Some d\<^sub>2" "sent d\<^sub>2 = sent d @ kern_text bs" "up d\<^sub>2"
    by (rule log_sent [OF assms(1,2) t])
  have "takeWhile (\<lambda>b. b \<noteq> 0) (bs @ 0 # rest) = bs" using assms(3) by (simp add: takeWhile_append)
  then have "printk U (Some (bs @ 0 # rest)) d = returns (of_nat (length body), d\<^sub>2)"
    unfolding printk_def by (simp add: t d(1,2))
  moreover have "pr U bs d = Some d\<^sub>2" unfolding pr_def t by (simp add: d(1,2))
  moreover have "length body = length bs - (if kern_text bs = bs then 0 else 2)" by (rule payload_length [OF t])
  moreover have "unat (of_nat (length body) :: 32 word) = length body"
    using assms(4) calculation(3) by (intro unat_of_nat_small) simp
  ultimately show ?thesis using d(3,4) by (auto simp: printk_def)
qed

text \<open>A UART that is busy for three status reads after every byte.\<close>

definition slow_uart :: "(u8 list \<times> nat) uart" where
  "slow_uart = \<lparr>ua_in = (\<lambda>port (l, k). if k = 0 then (LSR_THRE, l, 0) else (0, l, k - 1)),
     ua_out = (\<lambda>port b (l, k). if port = PORT_DATA then (l @ [b], 3) else (l, k))\<rparr>"

lemma slow_uart_ok: "uart_ok slow_uart (\<lambda>_. True) fst"
proof -
  have "\<exists>n. fst (lsr_after slow_uart n (l, k)) AND LSR_THRE \<noteq> 0" for l k
  proof (induction k)
    case 0
    show ?case by (rule exI [of _ 0]) (simp add: slow_uart_def LSR_THRE_def)
  next
    case (Suc k)
    then obtain n where "fst (lsr_after slow_uart n (l, k)) AND LSR_THRE \<noteq> 0" by blast
    then show ?case by (intro exI [of _ "Suc n"]) (simp add: slow_uart_def)
  qed
  then show ?thesis by (auto simp: uart_ok_def slow_uart_def)
qed

theorem write_str_output_witness:
  "\<exists>d' s' info'. write_str slow_uart False demo_text (([], 2), demo_fb) = returns (d', s') \<and> fst d' = demo_text \<and>
     FB s' = Some info' \<and> shows_term 2 2 (fold (t_byte 2 2) demo_text demo_term) (info', s') \<and>
     map (\<lambda>r. map (cells (fold (t_byte 2 2) demo_text demo_term) r) [0, 1]) [0, 1] = [[Some 67, None], [Some 68, None]]"
proof -
  have "shows_term 2 2 demo_term (the (FB demo_fb), demo_fb)"
    by (auto simp: shows_term_def fb_ok_def demo_fb_def demo_term_def pixel_def cell_pixel_def)
  moreover have "FB demo_fb = Some (the (FB demo_fb))" "FB_READY demo_fb" by (simp_all add: demo_fb_def)
  ultimately obtain d' s' info' where "write_str slow_uart False demo_text (([], 2), demo_fb) = returns (d', s')"
    "fst d' = [] @ demo_text" "FB s' = Some info'" "shows_term 2 2 (fold (t_byte 2 2) demo_text demo_term) (info', s')"
    using write_str_output [OF slow_uart_ok, where d = "([], 2)" and s = demo_fb and info = "the (FB demo_fb)" and
        R = 2 and C = 2 and t = demo_term and contended = False and bs = demo_text] by auto
  moreover have "map (\<lambda>r. map (cells (fold (t_byte 2 2) demo_text demo_term) r) [0, 1]) [0, 1] = [[Some 67, None], [Some 68, None]]"
    by (simp add: demo_text_def demo_term_def t_byte_def t_put_def t_newline_def)
  ultimately show ?thesis by (intro exI conjI) simp_all
qed

theorem printk_output_witness:
  "\<exists>d' k. printk slow_uart (Some [1, 0x34, 0x6F, 0x6B, 0, 7]) ([], 0) = returns (k, d') \<and>
     fst d' = ascii ''[WARN] ok'' \<and> unat k = 2"
proof -
  have "kern_text [1, 0x34, 0x6F, 0x6B] = ascii ''[WARN] ok''" by (simp add: ascii_def)
  moreover have "ascii ''[WARN] ok'' \<noteq> [1, 0x34, 0x6F, 0x6B]" by (simp add: ascii_def)
  ultimately show ?thesis
    using printk_output [OF slow_uart_ok, where d = "([], 0)" and bs = "[1, 0x34, 0x6F, 0x6B]" and rest = "[7]"] by auto
qed

end
