(* ===== verification/VirtioNet.thy ===== *)
theory VirtioNet
  imports VqSlots VirtioPci
begin

unbundle bit_operations_syntax

text \<open>
  The virtio-net driver, arsenal-kernel/src/virtio\_net.rs: the pool of receive buffers, the boxed
  transmit buffers, and the tokens of smoltcp's phy::Device. A buffer is a heap object, named by its
  address; the address of a new box is an argument, since the global allocator chooses it. A closure
  that smoltcp runs on a buffer is represented by the bytes it reads or the bytes it leaves.
\<close>

section \<open>Model\<close>

definition VIRTIO_NET_DEVICE_ID :: u16 where "VIRTIO_NET_DEVICE_ID = 0x1000"
definition RX_QUEUE_IDX :: u16 where "RX_QUEUE_IDX = 0"
definition TX_QUEUE_IDX :: u16 where "TX_QUEUE_IDX = 1"
definition NET_QUEUE_SIZE :: u16 where "NET_QUEUE_SIZE = 16"
definition NET_HDR_LEN :: nat where "NET_HDR_LEN = 12"
definition MTU :: nat where "MTU = 1514"
definition RX_BUFFER_LEN :: nat where "RX_BUFFER_LEN = NET_HDR_LEN + MTU"

definition virtio_net_hdr_default :: "u8 list" where
  "virtio_net_hdr_default = replicate NET_HDR_LEN 0"

record rx_buffer =
  rb_addr :: u64
  rb_bytes :: "u8 list"

record tx_buffer =
  tb_addr :: u64
  tb_hdr :: "u8 list"
  tb_payload :: "u8 list"

record rx_state =
  rx_queue :: virtqueue
  rx_notify :: u64
  rx_bufs :: "rx_buffer list"
  desc_to_buf :: "u8 list"

record tx_state =
  tx_queue :: virtqueue
  tx_notify :: u64
  in_flight :: "tx_buffer option list"

record virtio_net =
  vn_dev :: virtio_device
  vn_rx :: rx_state
  vn_tx :: tx_state

text \<open>Posting one receive buffer, as the constructor and every consumed receive token do.\<close>

definition rx_post :: "u64 \<Rightarrow> nat \<Rightarrow> rx_state \<Rightarrow> rx_state outcome" where
  "rx_post hhdm bufidx rx =
     and_then (slice_at (rx_bufs rx) bufidx) (\<lambda>b.
     and_then (push_descriptor (rx_queue rx) (rb_addr b - hhdm) (of_nat RX_BUFFER_LEN) VIRTQ_DESC_F_WRITE) (\<lambda>(r, q).
     and_then (expect r) (\<lambda>desc_id.
       if unat desc_id < length (desc_to_buf rx)
       then Inr (rx\<lparr>rx_queue := q, desc_to_buf := (desc_to_buf rx)[unat desc_id := of_nat bufidx]\<rparr>)
       else Inl Panic)))"

definition virtio_net_new ::
    "'d virtio_hw \<Rightarrow> phys_frame_ctor \<Rightarrow> u64 \<Rightarrow> u64 list \<Rightarrow> virtio_device \<Rightarrow> frame_allocator \<Rightarrow> 'd virtio_m \<Rightarrow>
     (virtio_net \<times> frame_allocator \<times> 'd virtio_m) outcome" where
  "virtio_net_new D pf hhdm boxes v fa m =
     and_then (init_transport D v (push_bit 32 (ucast VIRTIO_F_VERSION_1)) m) (\<lambda>(device_features, m).
     and_then (virtq_new pf fa NET_QUEUE_SIZE) (\<lambda>(rxq, fa).
     and_then (virtq_new pf fa NET_QUEUE_SIZE) (\<lambda>(txq, fa).
     and_then (activate_queue D v RX_QUEUE_IDX rxq m) (\<lambda>(rx_notify, m).
     and_then (activate_queue D v TX_QUEUE_IDX txq m) (\<lambda>(tx_notify, m).
     let rx = \<lparr>rx_queue = rxq, rx_notify = rx_notify,
               rx_bufs = map (\<lambda>a. \<lparr>rb_addr = a, rb_bytes = replicate RX_BUFFER_LEN 0\<rparr>) (take (unat NET_QUEUE_SIZE) boxes),
               desc_to_buf = replicate (unat NET_QUEUE_SIZE) 0\<rparr>
     in and_then (fold_out (rx_post hhdm) [0..<unat NET_QUEUE_SIZE] rx) (\<lambda>rx.
     let m = notify D rx_notify RX_QUEUE_IDX m;
         tx = \<lparr>tx_queue = txq, tx_notify = tx_notify, in_flight = replicate (unat NET_QUEUE_SIZE) None\<rparr>;
         m = set_driver_ok D v m
     in Inr (\<lparr>vn_dev = v, vn_rx = rx, vn_tx = tx\<rparr>, fa, m)))))))"

datatype tx_error = TooLarge | QueueFull

text \<open>
  The buffer both transmit paths build (copying more bytes than the buffer has panics), and the
  push they share; the flag says whether the queue had room.
\<close>

definition tx_buffer_of :: "u64 \<Rightarrow> u8 list \<Rightarrow> tx_buffer outcome" where
  "tx_buffer_of bx payload =
     (if length payload \<le> MTU
      then Inr \<lparr>tb_addr = bx, tb_hdr = virtio_net_hdr_default, tb_payload = payload @ replicate (MTU - length payload) 0\<rparr>
      else Inl Panic)"

definition tx_push :: "'d virtio_hw \<Rightarrow> u64 \<Rightarrow> tx_buffer \<Rightarrow> nat \<Rightarrow> tx_state \<Rightarrow> 'd virtio_m \<Rightarrow> (bool \<times> tx_state \<times> 'd virtio_m) outcome" where
  "tx_push D hhdm buf n tx m =
     and_then (push_descriptor (tx_queue tx) (tb_addr buf - hhdm) (of_nat (NET_HDR_LEN + n)) 0) (\<lambda>(r, q).
       case r of None \<Rightarrow> Inr (False, tx\<lparr>tx_queue := q\<rparr>, m)
       | Some desc_id \<Rightarrow>
           if unat desc_id < length (in_flight tx)
           then Inr (True, tx\<lparr>tx_queue := q, in_flight := (in_flight tx)[unat desc_id := Some buf]\<rparr>,
                     notify D (tx_notify tx) TX_QUEUE_IDX m)
           else Inl Panic)"

definition tx_submit ::
    "'d virtio_hw \<Rightarrow> u64 \<Rightarrow> u64 \<Rightarrow> u8 list \<Rightarrow> tx_state \<Rightarrow> 'd virtio_m \<Rightarrow> ((tx_error + unit) \<times> tx_state \<times> 'd virtio_m) outcome" where
  "tx_submit D hhdm bx payload tx m =
     (if MTU < length payload then Inr (Inl TooLarge, tx, m)
      else and_then (tx_buffer_of bx payload) (\<lambda>buf.
           and_then (tx_push D hhdm buf (length payload) tx m) (\<lambda>(room, tx, m).
           Inr (if room then Inr () else Inl QueueFull, tx, m))))"

partial_function (option) tx_reap :: "tx_state \<Rightarrow> tx_state run" where
  "tx_reap tx =
     (case pop_used (tx_queue tx) of
        None \<Rightarrow> None
      | Some (Inl e) \<Rightarrow> Some (Inl e)
      | Some (Inr (None, q)) \<Rightarrow> returns (tx\<lparr>tx_queue := q\<rparr>)
      | Some (Inr (Some elem, q)) \<Rightarrow>
          if unat (used_id elem) < length (in_flight tx)
          then tx_reap (tx\<lparr>tx_queue := q, in_flight := (in_flight tx)[unat (used_id elem) := None]\<rparr>)
          else Some (Inl Panic))"

definition tx_inflight :: "tx_state \<Rightarrow> nat" where
  "tx_inflight tx = length (filter (\<lambda>b. b \<noteq> None) (in_flight tx))"

text \<open>The receive token: a buffer index and a frame length. Consuming it shows the frame and posts the buffer again.\<close>

definition rx_consume ::
    "'d virtio_hw \<Rightarrow> u64 \<Rightarrow> nat \<Rightarrow> nat \<Rightarrow> rx_state \<Rightarrow> 'd virtio_m \<Rightarrow> (u8 list \<times> rx_state \<times> 'd virtio_m) outcome" where
  "rx_consume D hhdm bufidx n rx m =
     and_then (slice_at (rx_bufs rx) bufidx) (\<lambda>b.
       if NET_HDR_LEN + n \<le> length (rb_bytes b)
       then let buf = take n (drop NET_HDR_LEN (rb_bytes b)) in
         and_then (rx_post hhdm bufidx rx) (\<lambda>rx. Inr (buf, rx, notify D (rx_notify rx) RX_QUEUE_IDX m))
       else Inl Panic)"

text \<open>The transmit token: a full queue drops the frame.\<close>

definition tx_consume ::
    "'d virtio_hw \<Rightarrow> u64 \<Rightarrow> u64 \<Rightarrow> u8 list \<Rightarrow> tx_state \<Rightarrow> 'd virtio_m \<Rightarrow> (tx_state \<times> 'd virtio_m) outcome" where
  "tx_consume D hhdm bx payload tx m =
     and_then (tx_buffer_of bx payload) (\<lambda>buf.
     and_then (tx_push D hhdm buf (length payload) tx m) (\<lambda>(room, tx, m). Inr (tx, m)))"

definition net_receive :: "virtio_net \<Rightarrow> ((nat \<times> nat) option \<times> virtio_net) run" where
  "net_receive net =
     run_then (tx_reap (vn_tx net)) (\<lambda>tx.
     run_then (pop_used (rx_queue (vn_rx net))) (\<lambda>(r, q).
     let net = net\<lparr>vn_tx := tx, vn_rx := (vn_rx net)\<lparr>rx_queue := q\<rparr>\<rparr> in
     case r of None \<Rightarrow> returns (None, net)
     | Some elem \<Rightarrow>
         Some (and_then (slice_at (desc_to_buf (vn_rx net)) (unat (used_id elem))) (\<lambda>bufidx.
           Inr (Some (unat bufidx, unat (used_len elem) - NET_HDR_LEN), net)))))"

definition net_transmit :: "virtio_net \<Rightarrow> (bool \<times> virtio_net) run" where
  "net_transmit net =
     run_then (tx_reap (vn_tx net)) (\<lambda>tx.
     returns (num_free (tx_queue tx) \<noteq> 0, net\<lparr>vn_tx := tx\<rparr>))"

section \<open>The smoke test\<close>

text \<open>The device acts on rings and buffers between two polls.\<close>

type_synonym 'd net_hw = "virtio_net \<Rightarrow> 'd \<Rightarrow> virtio_net \<times> 'd"

fun net_tx_wait :: "'d net_hw \<Rightarrow> nat \<Rightarrow> virtio_net \<Rightarrow> 'd virtio_m \<Rightarrow> (virtio_net \<times> 'd virtio_m) run" where
  "net_tx_wait R 0 net m = Some (Inl Panic)"
| "net_tx_wait R (Suc n) net m =
     (let (net, d) = R net (vm_dev m); m = m\<lparr>vm_dev := d\<rparr> in
      run_then (tx_reap (vn_tx net)) (\<lambda>tx.
        let net = net\<lparr>vn_tx := tx\<rparr> in
        if tx_inflight tx = 0 then returns (net, m) else net_tx_wait R n net m))"

partial_function (option) net_drain ::
    "'d net_hw \<Rightarrow> 'd virtio_hw \<Rightarrow> u64 \<Rightarrow> virtio_net \<Rightarrow> 'd virtio_m \<Rightarrow> (virtio_net \<times> 'd virtio_m) run" where
  "net_drain R D hhdm net m =
     (case net_receive (fst (R net (vm_dev m))) of
        None \<Rightarrow> None
      | Some (Inl e) \<Rightarrow> Some (Inl e)
      | Some (Inr (None, net')) \<Rightarrow> returns (net', m\<lparr>vm_dev := snd (R net (vm_dev m))\<rparr>)
      | Some (Inr (Some tok, net')) \<Rightarrow>
          (case rx_consume D hhdm (fst tok) (snd tok) (vn_rx net') (m\<lparr>vm_dev := snd (R net (vm_dev m))\<rparr>) of
             Inl e \<Rightarrow> Some (Inl e)
           | Inr (buf, rx, m') \<Rightarrow> net_drain R D hhdm (net'\<lparr>vn_rx := rx\<rparr>) m'))"

definition net_smoke ::
    "'d net_hw \<Rightarrow> 'd virtio_hw \<Rightarrow> phys_frame_ctor \<Rightarrow> config_space \<Rightarrow> u64 \<Rightarrow> u64 list \<Rightarrow> u64 \<Rightarrow> frame_allocator \<Rightarrow> 'd virtio_m \<Rightarrow>
     (virtio_net \<times> frame_allocator \<times> 'd virtio_m) run" where
  "net_smoke R D pf cfg hhdm boxes bx fa m =
     (case find_device cfg hhdm VIRTIO_NET_DEVICE_ID of
        None \<Rightarrow> None
      | Some found \<Rightarrow>
          run_then (Some (expect found)) (\<lambda>v.
          run_then (Some (virtio_net_new D pf hhdm boxes v fa m)) (\<lambda>(net, fa, m).
          run_then (Some (tx_submit D hhdm bx (replicate 64 0) (vn_tx net) m)) (\<lambda>(r, tx, m).
          run_then (Some (rust_assert (r = Inr ()))) (\<lambda>_.
          run_then (net_tx_wait R 1000001 (net\<lparr>vn_tx := tx\<rparr>) m) (\<lambda>(net, m).
          run_then (net_drain R D hhdm net m) (\<lambda>(net, m).
          returns (net, fa, m))))))))"

section \<open>Transmission\<close>

text \<open>
  A transmit item is a buffer with the number of payload bytes it carries. The split of the transmit side
  into items published, held by the device and completed; every live box has its own address.
\<close>

definition tx_part :: "u64 \<Rightarrow> tx_buffer \<times> nat \<Rightarrow> part" where
  "tx_part hhdm x = (tb_addr (fst x) - hhdm, of_nat (NET_HDR_LEN + snd x), 0)"

definition tx_item :: "tx_buffer \<times> nat \<Rightarrow> bool" where
  "tx_item x \<longleftrightarrow> snd x \<le> MTU \<and> length (tb_payload (fst x)) = MTU \<and> tb_hdr (fst x) = virtio_net_hdr_default"

definition tx_frame :: "tx_buffer \<times> nat \<Rightarrow> u8 list" where
  "tx_frame x = take (snd x) (tb_payload (fst x))"

definition tx_sys :: "tx_state \<Rightarrow> u16 \<Rightarrow> u16 list \<Rightarrow> vq_sys" where
  "tx_sys tx av tk = \<lparr>vq = tx_queue tx, last_avail = av, taken = tk\<rparr>"

definition tx_split ::
    "u64 \<Rightarrow> tx_state \<Rightarrow> u16 \<Rightarrow> u16 list \<Rightarrow> (u16 \<Rightarrow> (tx_buffer \<times> nat) option) \<Rightarrow>
     (tx_buffer \<times> nat) list \<Rightarrow> (u16 \<times> tx_buffer \<times> nat) list \<Rightarrow> ((tx_buffer \<times> nat) \<times> u32) list \<Rightarrow> bool" where
  "tx_split hhdm tx av tk tab P T D \<longleftrightarrow>
     posted (tx_part hhdm) tab (tx_sys tx av tk) P T D \<and> qsize (tx_queue tx) = 16 \<and>
     in_flight tx = map (\<lambda>i. map_option fst (tab (of_nat i))) [0..<16] \<and>
     tx_inflight tx = length P + length T + length D \<and>
     (\<forall>h x. tab h = Some x \<longrightarrow> tx_item x \<and> unat h < 16) \<and>
     (\<forall>h k x y. tab h = Some x \<longrightarrow> tab k = Some y \<longrightarrow> tb_addr (fst x) = tb_addr (fst y) \<longrightarrow> h = k)"

lemma tx_sys_sel [simp]:
  "vq (tx_sys tx av tk) = tx_queue tx" "last_avail (tx_sys tx av tk) = av" "taken (tx_sys tx av tk) = tk"
  "(tx_sys tx av tk)\<lparr>vq := q\<rparr> = tx_sys (tx\<lparr>tx_queue := q\<rparr>) av tk"
  "tx_sys (tx\<lparr>tx_queue := q, in_flight := fl\<rparr>) av tk = tx_sys (tx\<lparr>tx_queue := q\<rparr>) av tk"
  by (simp_all add: tx_sys_def)

lemma tx_inflight_queue [simp]: "tx_inflight (tx\<lparr>tx_queue := q\<rparr>) = tx_inflight tx"
  by (simp add: tx_inflight_def)

lemma used_push_qsize [simp]: "qsize (used_push q h n) = qsize q"
  by (simp add: used_push_def)

lemma tx_inflight_card:
  "in_flight tx = map (\<lambda>i. map_option fst (tab (of_nat i :: u16))) [0..<n] \<Longrightarrow>
    tx_inflight tx = card {i. i < n \<and> tab (of_nat i) \<noteq> None}"
  unfolding tx_inflight_def length_filter_conv_card by (auto intro!: arg_cong [where f = card])

lemma table_update:
  fixes h :: u16
  assumes "unat h < n" "n \<le> 2 ^ 16" "xs = map (\<lambda>i. map_option fst (tab (of_nat i))) [0..<n]"
  shows "xs[unat h := map_option fst v] = map (\<lambda>i. map_option fst ((tab(h := v)) (of_nat i))) [0..<n]"
proof (rule nth_equalityI)
  fix i assume i: "i < length (xs[unat h := map_option fst v])"
  then have "of_nat i = h \<longleftrightarrow> i = unat h" using assms by (auto simp: unat_of_nat_small)
  then show "xs[unat h := map_option fst v] ! i = map (\<lambda>i. map_option fst ((tab(h := v)) (of_nat i))) [0..<n] ! i"
    using i assms by auto
qed (use assms in simp)

lemma unat_used_id: "unat (ucast (h :: u16) :: u32) = unat h"
  using unat_bound [of h] by (simp add: unsigned_ucast_eq take_bit_nat_eq_self)

lemma card_table_update:
  fixes tab :: "u16 \<Rightarrow> 'a option"
  assumes "unat h < n" "n \<le> 2 ^ 16"
  shows "card {i. i < n \<and> (tab(h \<mapsto> x)) (of_nat i) \<noteq> None} \<le> Suc (card {i. i < n \<and> tab (of_nat i) \<noteq> None})"
    and "tab h \<noteq> None \<Longrightarrow> Suc (card {i. i < n \<and> (tab(h := None)) (of_nat i) \<noteq> None}) = card {i. i < n \<and> tab (of_nat i) \<noteq> None}"
proof -
  have u: "of_nat i = h \<longleftrightarrow> i = unat h" if "i < n" for i using that assms by (auto simp: unat_of_nat_small)
  let ?S = "{i. i < n \<and> tab (of_nat i) \<noteq> None}"
  have "{i. i < n \<and> (tab(h \<mapsto> x)) (of_nat i) \<noteq> None} \<subseteq> insert (unat h) ?S" using u by auto
  then have "card {i. i < n \<and> (tab(h \<mapsto> x)) (of_nat i) \<noteq> None} \<le> card (insert (unat h) ?S)" by (intro card_mono) simp_all
  then show "card {i. i < n \<and> (tab(h \<mapsto> x)) (of_nat i) \<noteq> None} \<le> Suc (card ?S)"
    by (cases "unat h \<in> ?S") (simp_all add: insert_absorb)
  assume "tab h \<noteq> None"
  then have "?S = insert (unat h) {i. i < n \<and> (tab(h := None)) (of_nat i) \<noteq> None}" using u assms by auto
  moreover have "unat h \<notin> {i. i < n \<and> (tab(h := None)) (of_nat i) \<noteq> None}" by simp
  ultimately show "Suc (card {i. i < n \<and> (tab(h := None)) (of_nat i) \<noteq> None}) = card ?S"
    by (simp add: card_insert_disjoint)
qed

lemma tx_splitE:
  assumes "tx_split hhdm tx av tk tab P T D"
  obtains "posted (tx_part hhdm) tab (tx_sys tx av tk) P T D" "qsize (tx_queue tx) = 16"
    "in_flight tx = map (\<lambda>i. map_option fst (tab (of_nat i))) [0..<16]"
    "tx_inflight tx = length P + length T + length D" "length (in_flight tx) = 16"
    "\<forall>h x. tab h = Some x \<longrightarrow> tx_item x \<and> unat h < 16"
    "\<forall>h k x y. tab h = Some x \<longrightarrow> tab k = Some y \<longrightarrow> tb_addr (fst x) = tb_addr (fst y) \<longrightarrow> h = k"
proof -
  note sp = assms [unfolded tx_split_def]
  have "length (in_flight tx) = 16" using sp by simp
  then show ?thesis using sp by (elim conjE) (rule that)
qed

lemma tx_splitI:
  assumes "posted (tx_part hhdm) tab (tx_sys tx av tk) P T D" "qsize (tx_queue tx) = 16"
    "in_flight tx = map (\<lambda>i. map_option fst (tab (of_nat i))) [0..<16]"
    "tx_inflight tx = length P + length T + length D"
    "\<And>h x. tab h = Some x \<Longrightarrow> tx_item x \<and> unat h < 16"
    "\<And>h k x y. tab h = Some x \<Longrightarrow> tab k = Some y \<Longrightarrow> tb_addr (fst x) = tb_addr (fst y) \<Longrightarrow> h = k"
  shows "tx_split hhdm tx av tk tab P T D"
  unfolding tx_split_def using assms by (intro conjI allI impI) blast+

lemma tx_split_live:
  assumes "tx_split hhdm tx av tk tab P T D" "tab h = Some x"
  shows "in_flight tx ! unat h = Some (fst x)" "unat h < length (in_flight tx)"
proof -
  have u: "unat h < 16" and fl: "in_flight tx = map (\<lambda>i. map_option fst (tab (of_nat i))) [0..<16]"
    using assms by (auto elim!: tx_splitE)
  then show "in_flight tx ! unat h = Some (fst x)" using assms(2) by simp
  show "unat h < length (in_flight tx)" using u fl by simp
qed

definition live_boxes :: "tx_state \<Rightarrow> u64 set" where
  "live_boxes tx = {tb_addr b |b. Some b \<in> set (in_flight tx)}"

lemma tx_push_full:
  assumes "tx_split hhdm tx av tk tab P T D" "tx_inflight tx = 16"
  shows "tx_push H hhdm b n tx m = Inr (False, tx, m)"
proof -
  have "num_free (tx_queue tx) = 0"
    using assms posted_count [of _ _ "tx_sys tx av tk" P T D] by (auto elim!: tx_splitE simp: unat_eq_zero)
  then show ?thesis by (simp add: tx_push_def push_descriptor_def)
qed

lemma tx_push_room:
  assumes sp: "tx_split hhdm tx av tk tab P T D" and room: "tx_inflight tx \<noteq> 16"
    and item: "tx_item (b, n)" and fresh: "tb_addr b \<notin> live_boxes tx"
  obtains tx' tab' where "tx_push H hhdm b n tx m = Inr (True, tx', notify H (tx_notify tx) TX_QUEUE_IDX m)"
    "tx_split hhdm tx' av tk tab' (P @ [(b, n)]) T D"
proof -
  from sp obtain p: "posted (tx_part hhdm) tab (tx_sys tx av tk) P T D" and q: "qsize (tx_queue tx) = 16"
    and fl: "in_flight tx = map (\<lambda>i. map_option fst (tab (of_nat i))) [0..<16]"
    and cnt: "tx_inflight tx = length P + length T + length D" and len: "length (in_flight tx) = 16"
    and items: "\<forall>h x. tab h = Some x \<longrightarrow> tx_item x \<and> unat h < 16"
    and uniq: "\<forall>h k x y. tab h = Some x \<longrightarrow> tab k = Some y \<longrightarrow> tb_addr (fst x) = tb_addr (fst y) \<longrightarrow> h = k"
    by (rule tx_splitE)
  have nf: "num_free (vq (tx_sys tx av tk)) \<noteq> 0" using posted_count [OF p] room cnt q by (auto simp: unat_eq_zero)
  obtain h v where h: "push_descriptor (tx_queue tx) (tb_addr b - hhdm) (of_nat (NET_HDR_LEN + n)) 0 = Inr (Some h, v)"
    "unat h < 16" "qsize v = 16" "posted (tx_part hhdm) (tab(h \<mapsto> (b, n))) (tx_sys (tx\<lparr>tx_queue := v\<rparr>) av tk) (P @ [(b, n)]) T D"
    using posted_push [OF p, of "(b, n)" "tb_addr b - hhdm" "of_nat (NET_HDR_LEN + n)" 0] nf q
    by (auto simp: tx_part_def)
  let ?tx = "tx\<lparr>tx_queue := v, in_flight := (in_flight tx)[unat h := Some b]\<rparr>" and ?tab = "tab(h \<mapsto> (b, n))"
  have fl': "in_flight ?tx = map (\<lambda>i. map_option fst (?tab (of_nat i))) [0..<16]"
    using table_update [OF h(2) _ fl, of "Some (b, n)"] by simp
  have "tx_inflight ?tx \<le> Suc (tx_inflight tx)"
    using card_table_update(1) [OF h(2), of tab "(b, n)"] tx_inflight_card [OF fl] tx_inflight_card [OF fl'] by simp
  moreover have "length (P @ [(b, n)]) + length T + length D \<le> tx_inflight ?tx"
    using posted_table_size [OF h(4)] tx_inflight_card [OF fl'] h(3) by simp
  ultimately have cnt': "tx_inflight ?tx = length (P @ [(b, n)]) + length T + length D" using cnt by simp
  have other: "tb_addr (fst x) \<noteq> tb_addr b" if "tab k = Some x" for k x
  proof -
    have "Some (fst x) \<in> set (in_flight tx)" using tx_split_live [OF sp that] nth_mem by metis
    then have "tb_addr (fst x) \<in> live_boxes tx" unfolding live_boxes_def by blast
    then show ?thesis using fresh by metis
  qed
  have "tx_split hhdm ?tx av tk ?tab (P @ [(b, n)]) T D"
  proof (rule tx_splitI [OF _ _ fl' cnt'])
    show "posted (tx_part hhdm) ?tab (tx_sys ?tx av tk) (P @ [(b, n)]) T D" using h(4) by simp
    show "qsize (tx_queue ?tx) = 16" using h(3) by simp
    show "tx_item x \<and> unat k < 16" if "?tab k = Some x" for k x
      using that items item h(2) by (metis fun_upd_apply option.inject)
    show "k = l" if "?tab k = Some x" "?tab l = Some y" "tb_addr (fst x) = tb_addr (fst y)" for k l x y
      using that uniq other by (metis fst_conv fun_upd_apply option.inject)
  qed
  moreover have "tx_push H hhdm b n tx m = Inr (True, ?tx, notify H (tx_notify tx) TX_QUEUE_IDX m)"
    using h(1,2) len by (simp add: tx_push_def)
  ultimately show ?thesis using that by blast
qed

lemma tx_pop:
  assumes sp: "tx_split hhdm tx av tk tab P T ((x, l) # D)"
  obtains e q tab' where "pop_used (tx_queue tx) = Some (Inr (Some e, q))" "unat (used_id e) < length (in_flight tx)"
    "tx_split hhdm (tx\<lparr>tx_queue := q, in_flight := (in_flight tx)[unat (used_id e) := None]\<rparr>) av tk tab' P T D"
proof -
  from sp obtain p: "posted (tx_part hhdm) tab (tx_sys tx av tk) P T ((x, l) # D)" and q: "qsize (tx_queue tx) = 16"
    and fl: "in_flight tx = map (\<lambda>i. map_option fst (tab (of_nat i))) [0..<16]"
    and cnt: "tx_inflight tx = length P + length T + length ((x, l) # D)" and len: "length (in_flight tx) = 16"
    and items: "\<forall>h x. tab h = Some x \<longrightarrow> tx_item x \<and> unat h < 16"
    and uniq: "\<forall>h k x y. tab h = Some x \<longrightarrow> tab k = Some y \<longrightarrow> tb_addr (fst x) = tb_addr (fst y) \<longrightarrow> h = k"
    by (rule tx_splitE)
  obtain e v h where h: "pop_used (tx_queue tx) = Some (Inr (Some e, v))" "used_id e = ucast h" "unat h < 16" "qsize v = 16" "tab h = Some x"
    "\<forall>tab'. (\<forall>k. k \<noteq> h \<longrightarrow> tab' k = tab k) \<longrightarrow> posted (tx_part hhdm) tab' (tx_sys (tx\<lparr>tx_queue := v\<rparr>) av tk) P T D"
    using posted_pop [OF p] q by auto
  let ?tx = "tx\<lparr>tx_queue := v, in_flight := (in_flight tx)[unat h := None]\<rparr>" and ?tab = "tab(h := None)"
  have fl': "in_flight ?tx = map (\<lambda>i. map_option fst (?tab (of_nat i))) [0..<16]"
    using table_update [OF h(3) _ fl, of None] by simp
  have "tx_inflight ?tx = length P + length T + length D"
    using card_table_update(2) [OF h(3), of tab] tx_inflight_card [OF fl] tx_inflight_card [OF fl'] cnt h(5) by simp
  then have "tx_split hhdm ?tx av tk ?tab P T D"
  proof (intro tx_splitI [OF _ _ fl'])
    show "posted (tx_part hhdm) ?tab (tx_sys ?tx av tk) P T D" using h(6) by simp
    show "qsize (tx_queue ?tx) = 16" using h(4) by simp
    show "tx_item x \<and> unat k < 16" if "?tab k = Some x" for k x
      using that items by (metis fun_upd_apply option.distinct(1))
    show "k = l" if "?tab k = Some x" "?tab l = Some y" "tb_addr (fst x) = tb_addr (fst y)" for k l x y
      using that uniq by (metis fun_upd_apply option.distinct(1))
  qed
  then show ?thesis using that h(1-3) len by (simp add: unat_used_id)
qed

lemma tx_reap_eq:
  assumes "tx_split hhdm tx av tk tab P T D"
  shows "\<exists>tx' tab'. tx_reap tx = returns tx' \<and> tx_split hhdm tx' av tk tab' P T []"
  using assms
proof (induction D arbitrary: tx tab)
  case Nil
  then have "pop_used (tx_queue tx) = returns (None, tx_queue tx)"
    using posted_pop [of "tx_part hhdm" tab "tx_sys tx av tk" P T "[]"] by (auto elim: tx_splitE)
  then have "tx_reap tx = returns tx" by (simp add: tx_reap.simps)
  then show ?case using Nil by blast
next
  case (Cons d D)
  obtain x l where "d = (x, l)" by (cases d)
  then obtain e q tab' where "pop_used (tx_queue tx) = Some (Inr (Some e, q))" "unat (used_id e) < length (in_flight tx)"
    "tx_split hhdm (tx\<lparr>tx_queue := q, in_flight := (in_flight tx)[unat (used_id e) := None]\<rparr>) av tk tab' P T D"
    using Cons.prems by (auto elim: tx_pop)
  then show ?case using Cons.IH by (subst tx_reap.simps) simp
qed

text \<open>
  What the device reads when it follows a transmit descriptor: the bytes of the live box at that
  physical address, and nothing if no box lives there.
\<close>

definition box_at :: "u64 \<Rightarrow> u64 \<Rightarrow> tx_buffer option \<Rightarrow> bool" where
  "box_at hhdm a x = (case x of None \<Rightarrow> False | Some b \<Rightarrow> tb_addr b - hhdm = a)"

definition tx_dma :: "u64 \<Rightarrow> tx_state \<Rightarrow> u16 \<Rightarrow> u8 list option" where
  "tx_dma hhdm tx h =
     (let d = desc (tx_queue tx) ! unat h in
      case find (box_at hhdm (addr d)) (in_flight tx) of
        Some (Some b) \<Rightarrow> Some (take (unat (len d)) (tb_hdr b @ tb_payload b))
      | _ \<Rightarrow> None)"

lemma find_unique:
  assumes "i < length xs" "Q (xs ! i)" "\<forall>j < length xs. Q (xs ! j) \<longrightarrow> j = i"
  shows "find Q xs = Some (xs ! i)"
proof -
  have "\<not> Q (xs ! j)" if "j < i" for j
    using assms(3) [rule_format, of j] less_trans [OF that assms(1)] that by auto
  then show ?thesis using assms(1,2) unfolding find_Some_iff by blast
qed

lemma tx_dma_eq:
  assumes sp: "tx_split hhdm tx av tk tab P T D" and h: "tab h = Some x" "desc_part (desc (tx_queue tx) ! unat h) = tx_part hhdm x"
  shows "tx_dma hhdm tx h = Some (virtio_net_hdr_default @ tx_frame x)"
proof -
  let ?a = "tb_addr (fst x) - hhdm"
  note l = tx_split_live [OF sp h(1)]
  have d: "addr (desc (tx_queue tx) ! unat h) = ?a" "len (desc (tx_queue tx) ! unat h) = of_nat (NET_HDR_LEN + snd x)"
    using h(2) by (simp_all add: desc_part_def tx_part_def)
  have u: "j = unat h" if j: "j < length (in_flight tx)" "box_at hhdm ?a (in_flight tx ! j)" for j
  proof -
    have fl: "in_flight tx = map (\<lambda>i. map_option fst (tab (of_nat i))) [0..<16]" using sp by (rule tx_splitE)
    then have j16: "j < 16" and "in_flight tx ! j = map_option fst (tab (of_nat j))" using j(1) by simp_all
    then obtain y where y: "tab (of_nat j) = Some y" "tb_addr (fst y) = tb_addr (fst x)"
      using j(2) by (auto simp: box_at_def split: option.splits)
    have "\<forall>h k x y. tab h = Some x \<longrightarrow> tab k = Some y \<longrightarrow> tb_addr (fst x) = tb_addr (fst y) \<longrightarrow> h = k"
      using sp by (rule tx_splitE)
    then have "of_nat j = h" using y h(1) by blast
    then have "unat (of_nat j :: u16) = unat h" by simp
    moreover have "unat (of_nat j :: u16) = j" using j16 by (intro unat_of_nat_small) simp
    ultimately show ?thesis by simp
  qed
  have "box_at hhdm ?a (in_flight tx ! unat h)" using l(1) by (simp add: box_at_def)
  then have "find (box_at hhdm ?a) (in_flight tx) = Some (in_flight tx ! unat h)"
    by (intro find_unique l(2)) (use u in blast)+
  then have f: "find (box_at hhdm ?a) (in_flight tx) = Some (Some (fst x))" using l(1) by simp
  have "\<forall>h x. tab h = Some x \<longrightarrow> tx_item x \<and> unat h < 16" using sp by (rule tx_splitE)
  then have it: "tx_item x" using h(1) by blast
  have "unat (of_nat (NET_HDR_LEN + snd x) :: u32) = NET_HDR_LEN + snd x"
    using it by (intro unat_of_nat_small) (simp add: tx_item_def NET_HDR_LEN_def MTU_def)
  then show ?thesis
    using f it by (simp add: tx_dma_def Let_def d tx_frame_def tx_item_def virtio_net_hdr_default_def)
qed

lemma tx_fetch:
  assumes sp: "tx_split hhdm tx av tk tab P T D" and a: "av \<noteq> avail_idx (tx_queue tx)"
    and h: "h = avail_ring (tx_queue tx) ! unat (av mod qsize (tx_queue tx))"
  obtains x P' where "P = x # P'" "tx_dma hhdm tx h = Some (virtio_net_hdr_default @ tx_frame x)"
    "tx_split hhdm tx (av + 1) (h # tk) tab P' ((h, x) # T) D"
proof -
  have p: "posted (tx_part hhdm) tab (tx_sys tx av tk) P T D" using sp by (rule tx_splitE)
  obtain x P' where x: "P = x # P'" "tab h = Some x" "desc_part (desc (tx_queue tx) ! unat h) = tx_part hhdm x"
    "posted (tx_part hhdm) tab (tx_sys tx (av + 1) (h # tk)) P' ((h, x) # T) D"
    using posted_fetch [OF p, of h] a h by (auto simp: tx_sys_def)
  have "tx_split hhdm tx (av + 1) (h # tk) tab P' ((h, x) # T) D"
    using sp x(4) unfolding tx_split_def x(1) by simp
  then show ?thesis using that x(1) tx_dma_eq [OF sp x(2,3)] by blast
qed

lemma tx_complete:
  assumes sp: "tx_split hhdm tx av (xs @ h # ys) tab P T D"
  obtains x T\<^sub>1 T\<^sub>2 where "T = T\<^sub>1 @ (h, x) # T\<^sub>2"
    "tx_split hhdm (tx\<lparr>tx_queue := used_push (tx_queue tx) h n\<rparr>) av (xs @ ys) tab P (T\<^sub>1 @ T\<^sub>2) (D @ [(x, n)])"
proof -
  have p: "posted (tx_part hhdm) tab (tx_sys tx av (xs @ h # ys)) P T D" using sp by (rule tx_splitE)
  obtain x T\<^sub>1 T\<^sub>2 where x: "T = T\<^sub>1 @ (h, x) # T\<^sub>2"
    "posted (tx_part hhdm) tab (tx_sys (tx\<lparr>tx_queue := used_push (tx_queue tx) h n\<rparr>) av (xs @ ys)) P (T\<^sub>1 @ T\<^sub>2) (D @ [(x, n)])"
    by (rule posted_complete [OF p, of xs h ys n]) (auto simp: tx_sys_def)
  have "tx_split hhdm (tx\<lparr>tx_queue := used_push (tx_queue tx) h n\<rparr>) av (xs @ ys) tab P (T\<^sub>1 @ T\<^sub>2) (D @ [(x, n)])"
    using sp x(2) unfolding tx_split_def x(1) by simp
  then show ?thesis using that x(1) by blast
qed

lemma tx_fresh:
  assumes "virtq_new pf fa 16 = Inr (tx_queue tx, fa')" "in_flight tx = replicate 16 None"
  shows "tx_split hhdm tx 0 [] Map.empty [] [] []"
proof (rule tx_splitI)
  show "posted (tx_part hhdm) Map.empty (tx_sys tx 0 []) [] [] []"
    by (rule posted_fresh [of pf fa 16 _ fa']) (simp_all add: assms(1))
  show "qsize (tx_queue tx) = 16" using virtq_new_sizes_eq [OF assms(1)] by simp
  show "in_flight tx = map (\<lambda>i. map_option fst (Map.empty (of_nat i :: u16))) [0..<16]"
    by (simp add: assms(2) map_replicate_const)
qed (simp_all add: tx_inflight_def assms(2))

section \<open>Reception\<close>

text \<open>
  A receive item is a buffer index. The indices posted, held by the device, completed and lent to
  a token are exactly the pool, each once; a frame is what the device stored past the header.
\<close>

definition rx_part :: "u64 \<Rightarrow> u64 list \<Rightarrow> nat \<Rightarrow> part" where
  "rx_part hhdm addrs i = (addrs ! i - hhdm, of_nat RX_BUFFER_LEN, VIRTQ_DESC_F_WRITE)"

definition rx_tab :: "rx_state \<Rightarrow> u16 \<Rightarrow> nat option" where
  "rx_tab rx h = (if unat h < 16 then Some (unat (desc_to_buf rx ! unat h)) else None)"

definition rx_sys :: "rx_state \<Rightarrow> u16 \<Rightarrow> u16 list \<Rightarrow> vq_sys" where
  "rx_sys rx av tk = \<lparr>vq = rx_queue rx, last_avail = av, taken = tk\<rparr>"

definition rx_frame :: "rx_state \<Rightarrow> nat \<Rightarrow> nat \<Rightarrow> u8 list" where
  "rx_frame rx i n = take n (drop NET_HDR_LEN (rb_bytes (rx_bufs rx ! i)))"

definition rx_shape :: "rx_state \<Rightarrow> bool" where
  "rx_shape rx \<longleftrightarrow> qsize (rx_queue rx) = 16 \<and> length (rx_bufs rx) = 16 \<and> length (desc_to_buf rx) = 16 \<and>
     (\<forall>b \<in> set (rx_bufs rx). length (rb_bytes b) = RX_BUFFER_LEN) \<and> distinct (map rb_addr (rx_bufs rx))"

definition rx_split ::
    "u64 \<Rightarrow> rx_state \<Rightarrow> u16 \<Rightarrow> u16 list \<Rightarrow> nat list \<Rightarrow> (u16 \<times> nat) list \<Rightarrow> (nat \<times> u32) list \<Rightarrow> bool" where
  "rx_split hhdm rx av tk P T D \<longleftrightarrow>
     posted (rx_part hhdm (map rb_addr (rx_bufs rx))) (rx_tab rx) (rx_sys rx av tk) P T D \<and> rx_shape rx \<and>
     (\<forall>d \<in> set D. NET_HDR_LEN \<le> unat (snd d) \<and> unat (snd d) \<le> RX_BUFFER_LEN)"

definition rx_items :: "nat list \<Rightarrow> (u16 \<times> nat) list \<Rightarrow> (nat \<times> u32) list \<Rightarrow> nat multiset" where
  "rx_items P T D = mset P + mset (map snd T) + mset (map fst D)"

definition rx_pool :: "nat multiset" where "rx_pool = mset [0..<16]"

lemma set_rx_pool: "set_mset rx_pool = {0..<16}" by (simp add: rx_pool_def del: upt.simps)

lemma rx_sys_sel [simp]:
  "vq (rx_sys rx av tk) = rx_queue rx" "last_avail (rx_sys rx av tk) = av" "taken (rx_sys rx av tk) = tk"
  "(rx_sys rx av tk)\<lparr>vq := q\<rparr> = rx_sys (rx\<lparr>rx_queue := q\<rparr>) av tk"
  "rx_sys (rx\<lparr>rx_queue := q, desc_to_buf := fl\<rparr>) av tk = rx_sys (rx\<lparr>rx_queue := q\<rparr>) av tk"
  "rx_sys (rx\<lparr>rx_bufs := bs\<rparr>) av tk = rx_sys rx av tk"
  by (simp_all add: rx_sys_def)

lemma rx_tab_sel [simp]:
  "rx_tab (rx\<lparr>rx_queue := q\<rparr>) = rx_tab rx" "rx_tab (rx\<lparr>rx_bufs := bs\<rparr>) = rx_tab rx"
  by (simp_all add: rx_tab_def fun_eq_iff)

lemma rx_tab_update:
  assumes "unat h < 16" "length (desc_to_buf rx) = 16" "i < 16"
  shows "rx_tab (rx\<lparr>rx_queue := q, desc_to_buf := (desc_to_buf rx)[unat h := of_nat i]\<rparr>) = (rx_tab rx)(h \<mapsto> i)"
proof
  fix k
  have "unat (of_nat i :: u8) = i" using assms(3) by (intro unat_of_nat_small) simp
  then show "rx_tab (rx\<lparr>rx_queue := q, desc_to_buf := (desc_to_buf rx)[unat h := of_nat i]\<rparr>) k = ((rx_tab rx)(h \<mapsto> i)) k"
    using assms by (cases "k = h") (auto simp: rx_tab_def nth_update_word)
qed

lemma rx_shape_sel [simp]:
  "rx_shape (rx\<lparr>rx_queue := q\<rparr>) \<longleftrightarrow> rx_shape rx" if "qsize q = qsize (rx_queue rx)" for q
  using that by (simp add: rx_shape_def)

lemma rx_splitE:
  assumes "rx_split hhdm rx av tk P T D"
  obtains "posted (rx_part hhdm (map rb_addr (rx_bufs rx))) (rx_tab rx) (rx_sys rx av tk) P T D" "rx_shape rx"
    "qsize (rx_queue rx) = 16" "length (rx_bufs rx) = 16" "length (desc_to_buf rx) = 16"
    "\<forall>b \<in> set (rx_bufs rx). length (rb_bytes b) = RX_BUFFER_LEN" "distinct (map rb_addr (rx_bufs rx))"
    "\<forall>d \<in> set D. NET_HDR_LEN \<le> unat (snd d) \<and> unat (snd d) \<le> RX_BUFFER_LEN"
  using assms unfolding rx_split_def rx_shape_def by blast

lemma rx_split_room:
  assumes "rx_split hhdm rx av tk P T D"
  shows "unat (num_free (rx_queue rx)) + size (rx_items P T D) = 16"
proof -
  from assms obtain p: "posted (rx_part hhdm (map rb_addr (rx_bufs rx))) (rx_tab rx) (rx_sys rx av tk) P T D"
    and q: "qsize (rx_queue rx) = 16" by (rule rx_splitE)
  show ?thesis using posted_count [OF p] q by (simp add: rx_items_def)
qed

text \<open>Posting a buffer whose index is with nobody.\<close>

lemma rx_post_eq:
  assumes sp: "rx_split hhdm rx av tk P T D" and i: "i < 16" and room: "size (rx_items P T D) < 16"
  obtains rx' where "rx_post hhdm i rx = Inr rx'" "rx_split hhdm rx' av tk (P @ [i]) T D"
    "rx_bufs rx' = rx_bufs rx" "rx_notify rx' = rx_notify rx"
proof -
  from sp obtain p: "posted (rx_part hhdm (map rb_addr (rx_bufs rx))) (rx_tab rx) (rx_sys rx av tk) P T D"
    and sh: "rx_shape rx" and q: "qsize (rx_queue rx) = 16" "length (rx_bufs rx) = 16" "length (desc_to_buf rx) = 16"
    and D: "\<forall>d \<in> set D. NET_HDR_LEN \<le> unat (snd d) \<and> unat (snd d) \<le> RX_BUFFER_LEN"
    by (rule rx_splitE)
  have nf: "num_free (vq (rx_sys rx av tk)) \<noteq> 0" using rx_split_room [OF sp] room by auto
  have part: "rx_part hhdm (map rb_addr (rx_bufs rx)) i = (rb_addr (rx_bufs rx ! i) - hhdm, of_nat RX_BUFFER_LEN, VIRTQ_DESC_F_WRITE)"
    using i q(2) by (simp add: rx_part_def)
  have flag: "VIRTQ_DESC_F_WRITE AND NOT VIRTQ_DESC_F_NEXT = VIRTQ_DESC_F_WRITE" by code_simp
  obtain h v where h: "push_descriptor (rx_queue rx) (rb_addr (rx_bufs rx ! i) - hhdm) (of_nat RX_BUFFER_LEN) VIRTQ_DESC_F_WRITE = Inr (Some h, v)"
    "unat h < 16" "qsize v = 16"
    "posted (rx_part hhdm (map rb_addr (rx_bufs rx))) ((rx_tab rx)(h \<mapsto> i)) (rx_sys (rx\<lparr>rx_queue := v\<rparr>) av tk) (P @ [i]) T D"
    using posted_push [OF p part flag] nf q(1) by auto
  let ?rx = "rx\<lparr>rx_queue := v, desc_to_buf := (desc_to_buf rx)[unat h := of_nat i]\<rparr>"
  have "rx_shape ?rx" using sh h(3) unfolding rx_shape_def by simp
  moreover have "posted (rx_part hhdm (map rb_addr (rx_bufs ?rx))) (rx_tab ?rx) (rx_sys ?rx av tk) (P @ [i]) T D"
    using h(4) unfolding rx_tab_update [OF h(2) q(3) i, of v] by simp
  ultimately have "rx_split hhdm ?rx av tk (P @ [i]) T D" using D unfolding rx_split_def by blast
  moreover have "rx_post hhdm i rx = Inr ?rx" using h(1,2) q i by (simp add: rx_post_def slice_at_def expect_def)
  ultimately show ?thesis using that by simp
qed

lemma rx_pop:
  assumes sp: "rx_split hhdm rx av tk P T D"
  shows "case D of [] \<Rightarrow> pop_used (rx_queue rx) = returns (None, rx_queue rx)
    | (i, l) # D' \<Rightarrow> \<exists>e q. pop_used (rx_queue rx) = returns (Some e, q) \<and> used_len e = l \<and>
        unat (used_id e) < length (desc_to_buf rx) \<and> unat (desc_to_buf rx ! unat (used_id e)) = i \<and>
        rx_split hhdm (rx\<lparr>rx_queue := q\<rparr>) av tk P T D'"
proof -
  from sp obtain p: "posted (rx_part hhdm (map rb_addr (rx_bufs rx))) (rx_tab rx) (rx_sys rx av tk) P T D"
    and sh: "rx_shape rx" and q: "qsize (rx_queue rx) = 16" "length (rx_bufs rx) = 16" "length (desc_to_buf rx) = 16"
    and D: "\<forall>d \<in> set D. NET_HDR_LEN \<le> unat (snd d) \<and> unat (snd d) \<le> RX_BUFFER_LEN"
    by (rule rx_splitE)
  show ?thesis
  proof (cases D)
    case Nil
    then show ?thesis using posted_pop [OF p] by simp
  next
    case (Cons d D')
    obtain i l where d: "d = (i, l)" by (cases d)
    obtain e v h where h: "pop_used (rx_queue rx) = returns (Some e, v)" "used_id e = ucast h" "used_len e = l" "unat h < 16" "qsize v = 16"
      "rx_tab rx h = Some i" "posted (rx_part hhdm (map rb_addr (rx_bufs rx))) (rx_tab rx) (rx_sys (rx\<lparr>rx_queue := v\<rparr>) av tk) P T D'"
      using posted_pop [OF p] q(1) Cons d by auto
    have "rx_split hhdm (rx\<lparr>rx_queue := v\<rparr>) av tk P T D'"
      using h(5,7) sh D q(1) Cons unfolding rx_split_def by simp
    then show ?thesis using h(1-4,6) q(3) Cons d by (simp add: unat_used_id rx_tab_def)
  qed
qed

lemma rx_fetch:
  assumes sp: "rx_split hhdm rx av tk P T D" and a: "av \<noteq> avail_idx (rx_queue rx)"
    and h: "h = avail_ring (rx_queue rx) ! unat (av mod qsize (rx_queue rx))"
  obtains i P' where "P = i # P'" "rx_split hhdm rx (av + 1) (h # tk) P' ((h, i) # T) D"
proof -
  from sp have p: "posted (rx_part hhdm (map rb_addr (rx_bufs rx))) (rx_tab rx) (rx_sys rx av tk) P T D" by (rule rx_splitE)
  obtain i P' where i: "P = i # P'"
    "posted (rx_part hhdm (map rb_addr (rx_bufs rx))) (rx_tab rx) (rx_sys rx (av + 1) (h # tk)) P' ((h, i) # T) D"
    by (rule posted_fetch [OF p, of h]) (use a h in \<open>auto simp: rx_sys_def\<close>)
  then have "rx_split hhdm rx (av + 1) (h # tk) P' ((h, i) # T) D" using sp unfolding rx_split_def by blast
  then show ?thesis using that i(1) by blast
qed

text \<open>The device stores a received packet at the address of the descriptor.\<close>

definition rx_store :: "u64 \<Rightarrow> u64 \<Rightarrow> u8 list \<Rightarrow> rx_buffer \<Rightarrow> rx_buffer" where
  "rx_store hhdm a bytes b =
     (if rb_addr b - hhdm = a then b\<lparr>rb_bytes := bytes @ drop (length bytes) (rb_bytes b)\<rparr> else b)"

definition rx_dma :: "u64 \<Rightarrow> u16 \<Rightarrow> u8 list \<Rightarrow> rx_state \<Rightarrow> rx_state" where
  "rx_dma hhdm h bytes rx =
     rx\<lparr>rx_bufs := map (rx_store hhdm (addr (desc (rx_queue rx) ! unat h)) bytes) (rx_bufs rx),
        rx_queue := used_push (rx_queue rx) h (of_nat (length bytes))\<rparr>"

lemma rx_store_sel [simp]:
  "rb_addr (rx_store hhdm a bytes b) = rb_addr b"
  "rb_addr \<circ> rx_store hhdm a bytes = rb_addr"
  by (simp_all add: rx_store_def fun_eq_iff)

lemma rx_complete:
  assumes sp: "rx_split hhdm rx av (xs @ h # ys) P T D" and n: "NET_HDR_LEN \<le> length bytes" "length bytes \<le> RX_BUFFER_LEN"
    and pool: "\<forall>i \<in># rx_items P T D. i < 16"
  obtains i T\<^sub>1 T\<^sub>2 where "T = T\<^sub>1 @ (h, i) # T\<^sub>2"
    "rx_split hhdm (rx_dma hhdm h bytes rx) av (xs @ ys) P (T\<^sub>1 @ T\<^sub>2) (D @ [(i, of_nat (length bytes))])"
    "\<forall>j < 16. rx_bufs (rx_dma hhdm h bytes rx) ! j =
       (if j = i then (rx_bufs rx ! i)\<lparr>rb_bytes := bytes @ drop (length bytes) (rb_bytes (rx_bufs rx ! i))\<rparr> else rx_bufs rx ! j)"
    "unat (of_nat (length bytes) :: u32) = length bytes"
proof -
  from sp obtain p: "posted (rx_part hhdm (map rb_addr (rx_bufs rx))) (rx_tab rx) (rx_sys rx av (xs @ h # ys)) P T D"
    and sh: "rx_shape rx" and q: "qsize (rx_queue rx) = 16" "length (rx_bufs rx) = 16" "length (desc_to_buf rx) = 16"
    and lens: "\<forall>b \<in> set (rx_bufs rx). length (rb_bytes b) = RX_BUFFER_LEN" and dist: "distinct (map rb_addr (rx_bufs rx))"
    and D: "\<forall>d \<in> set D. NET_HDR_LEN \<le> unat (snd d) \<and> unat (snd d) \<le> RX_BUFFER_LEN"
    by (rule rx_splitE)
  let ?l = "of_nat (length bytes) :: u32" and ?rx = "rx_dma hhdm h bytes rx"
  have u: "unat ?l = length bytes" using n(2) by (intro unat_of_nat_small) (simp add: RX_BUFFER_LEN_def NET_HDR_LEN_def MTU_def)
  obtain i T\<^sub>1 T\<^sub>2 where i: "T = T\<^sub>1 @ (h, i) # T\<^sub>2"
    "desc_part (desc (rx_queue rx) ! unat h) = rx_part hhdm (map rb_addr (rx_bufs rx)) i"
    "posted (rx_part hhdm (map rb_addr (rx_bufs rx))) (rx_tab rx) (rx_sys (rx\<lparr>rx_queue := used_push (rx_queue rx) h ?l\<rparr>) av (xs @ ys)) P (T\<^sub>1 @ T\<^sub>2) (D @ [(i, ?l)])"
    by (rule posted_complete [OF p, of xs h ys ?l]) (auto simp: rx_sys_def)
  have i16: "i < 16" using pool i(1) by (simp add: rx_items_def)
  have a: "addr (desc (rx_queue rx) ! unat h) = rb_addr (rx_bufs rx ! i) - hhdm"
    using i(2) i16 q(2) by (simp add: desc_part_def rx_part_def)
  have same: "rb_addr (rx_bufs rx ! j) = rb_addr (rx_bufs rx ! i) \<longleftrightarrow> j = i" if "j < 16" for j
    using nth_eq_iff_index_eq [OF dist, of j i] that i16 q(2) by simp
  have buf: "rx_bufs ?rx ! j = (if j = i then (rx_bufs rx ! i)\<lparr>rb_bytes := bytes @ drop (length bytes) (rb_bytes (rx_bufs rx ! i))\<rparr> else rx_bufs rx ! j)"
    if "j < 16" for j
    using same [OF that] that q(2) by (auto simp: rx_dma_def rx_store_def a)
  have tab: "rx_tab ?rx = rx_tab rx" by (simp add: rx_tab_def rx_dma_def fun_eq_iff)
  have "rx_shape ?rx"
    using q lens dist n(2) unfolding rx_shape_def rx_dma_def by (auto simp: rx_store_def)
  moreover have "posted (rx_part hhdm (map rb_addr (rx_bufs ?rx))) (rx_tab ?rx) (rx_sys ?rx av (xs @ ys)) P (T\<^sub>1 @ T\<^sub>2) (D @ [(i, ?l)])"
    using i(3) unfolding tab by (simp add: rx_dma_def rx_sys_def)
  moreover have "\<forall>d \<in> set (D @ [(i, ?l)]). NET_HDR_LEN \<le> unat (snd d) \<and> unat (snd d) \<le> RX_BUFFER_LEN"
    using D n u by simp
  ultimately have "rx_split hhdm ?rx av (xs @ ys) P (T\<^sub>1 @ T\<^sub>2) (D @ [(i, ?l)])" unfolding rx_split_def by blast
  then show ?thesis using that i(1) buf u by blast
qed

text \<open>The receive side with the frames that have arrived and those the tokens have shown.\<close>

definition tokens :: "(nat \<times> nat) option \<Rightarrow> (nat \<times> nat) list" where
  "tokens tok = (case tok of None \<Rightarrow> [] | Some t \<Rightarrow> [t])"

definition rx_pending :: "rx_state \<Rightarrow> (nat \<times> nat) option \<Rightarrow> (nat \<times> u32) list \<Rightarrow> u8 list list" where
  "rx_pending rx tok D = map (\<lambda>t. rx_frame rx (fst t) (snd t)) (tokens tok) @
     map (\<lambda>d. rx_frame rx (fst d) (unat (snd d) - NET_HDR_LEN)) D"

definition rx_inv :: "u64 \<Rightarrow> rx_state \<Rightarrow> u16 \<Rightarrow> u16 list \<Rightarrow> (nat \<times> nat) option \<Rightarrow> u8 list list \<Rightarrow> u8 list list \<Rightarrow> bool" where
  "rx_inv hhdm rx av tk tok arrived delivered \<longleftrightarrow>
     (\<exists>P T D. rx_split hhdm rx av tk P T D \<and> rx_items P T D + mset (map fst (tokens tok)) = rx_pool \<and>
        (\<forall>t \<in> set (tokens tok). NET_HDR_LEN + snd t \<le> RX_BUFFER_LEN) \<and>
        arrived = delivered @ rx_pending rx tok D)"

lemma rx_invI:
  assumes "rx_split hhdm rx av tk P T D" "rx_items P T D + mset (map fst (tokens tok)) = rx_pool"
    "\<forall>t \<in> set (tokens tok). NET_HDR_LEN + snd t \<le> RX_BUFFER_LEN" "arrived = delivered @ rx_pending rx tok D"
  shows "rx_inv hhdm rx av tk tok arrived delivered"
  using assms unfolding rx_inv_def by blast

lemma pool_member:
  assumes "rx_items P T D + mset (map fst (tokens tok)) = rx_pool"
  shows "\<forall>i \<in># rx_items P T D. i < 16" "\<forall>t \<in> set (tokens tok). fst t < 16"
proof -
  have "set_mset (rx_items P T D) \<union> fst ` set (tokens tok) = {0..<16}"
    using arg_cong [OF assms, of set_mset] unfolding set_rx_pool by simp
  then show "\<forall>i \<in># rx_items P T D. i < 16" "\<forall>t \<in> set (tokens tok). fst t < 16"
    by (metis UnI1 UnI2 atLeastLessThan_iff imageI)+
qed

lemma rx_inv_complete:
  assumes "rx_inv hhdm rx av (xs @ h # ys) tok arrived delivered"
    and n: "NET_HDR_LEN \<le> length bytes" "length bytes \<le> RX_BUFFER_LEN"
  shows "rx_inv hhdm (rx_dma hhdm h bytes rx) av (xs @ ys) tok (arrived @ [drop NET_HDR_LEN bytes]) delivered"
proof -
  from assms(1) obtain P T D where sp: "rx_split hhdm rx av (xs @ h # ys) P T D"
    and pool: "rx_items P T D + mset (map fst (tokens tok)) = rx_pool"
    and tok: "\<forall>t \<in> set (tokens tok). NET_HDR_LEN + snd t \<le> RX_BUFFER_LEN"
    and arr: "arrived = delivered @ rx_pending rx tok D" unfolding rx_inv_def by blast
  let ?rx = "rx_dma hhdm h bytes rx" and ?l = "of_nat (length bytes) :: u32"
  obtain i T\<^sub>1 T\<^sub>2 where i: "T = T\<^sub>1 @ (h, i) # T\<^sub>2" "rx_split hhdm ?rx av (xs @ ys) P (T\<^sub>1 @ T\<^sub>2) (D @ [(i, ?l)])"
    "\<forall>j < 16. rx_bufs ?rx ! j =
       (if j = i then (rx_bufs rx ! i)\<lparr>rb_bytes := bytes @ drop (length bytes) (rb_bytes (rx_bufs rx ! i))\<rparr> else rx_bufs rx ! j)"
    "unat ?l = length bytes"
    by (rule rx_complete [OF sp n pool_member(1) [OF pool]])
  have "mset (P @ map snd T @ map fst D @ map fst (tokens tok)) = rx_pool"
    using pool by (simp add: rx_items_def add.assoc)
  then have "distinct (P @ map snd T @ map fst D @ map fst (tokens tok))"
    unfolding rx_pool_def by (metis distinct_upt mset_eq_imp_distinct_iff)
  then have off: "i \<notin> fst ` set D" "i \<notin> fst ` set (tokens tok)" using i(1) by auto
  have i16: "i < 16" using pool_member(1) [OF pool] i(1) by (simp add: rx_items_def)
  have keep: "rx_frame ?rx j n = rx_frame rx j n" if "j \<noteq> i" "j < 16" for j n
    using i(3) that by (simp add: rx_frame_def)
  have in16: "\<forall>d \<in> set D. fst d < 16" using pool_member(1) [OF pool] by (auto simp: rx_items_def)
  have "map (\<lambda>t. rx_frame ?rx (fst t) (snd t)) (tokens tok) = map (\<lambda>t. rx_frame rx (fst t) (snd t)) (tokens tok)"
    using off(2) pool_member(2) [OF pool] by (intro map_cong refl keep) auto
  moreover have "map (\<lambda>d. rx_frame ?rx (fst d) (unat (snd d) - NET_HDR_LEN)) D = map (\<lambda>d. rx_frame rx (fst d) (unat (snd d) - NET_HDR_LEN)) D"
    using off(1) in16 by (intro map_cong refl keep) auto
  moreover have "rx_frame ?rx i (unat ?l - NET_HDR_LEN) = drop NET_HDR_LEN bytes"
    using i(3,4) i16 n(1) by (simp add: rx_frame_def)
  ultimately have "rx_pending ?rx tok (D @ [(i, ?l)]) = rx_pending rx tok D @ [drop NET_HDR_LEN bytes]"
    by (simp add: rx_pending_def)
  moreover have "rx_items P (T\<^sub>1 @ T\<^sub>2) (D @ [(i, ?l)]) = rx_items P T D" by (simp add: i(1) rx_items_def)
  ultimately show ?thesis using pool tok arr by (intro rx_invI [OF i(2)]) simp_all
qed

lemma rx_inv_fetch:
  assumes "rx_inv hhdm rx av tk tok arrived delivered" "av \<noteq> avail_idx (rx_queue rx)"
  shows "rx_inv hhdm rx (av + 1) (avail_ring (rx_queue rx) ! unat (av mod qsize (rx_queue rx)) # tk) tok arrived delivered"
proof -
  from assms(1) obtain P T D where sp: "rx_split hhdm rx av tk P T D"
    and inv: "rx_items P T D + mset (map fst (tokens tok)) = rx_pool"
      "\<forall>t \<in> set (tokens tok). NET_HDR_LEN + snd t \<le> RX_BUFFER_LEN" "arrived = delivered @ rx_pending rx tok D"
    unfolding rx_inv_def by blast
  let ?h = "avail_ring (rx_queue rx) ! unat (av mod qsize (rx_queue rx))"
  obtain i P' where i: "P = i # P'" "rx_split hhdm rx (av + 1) (?h # tk) P' ((?h, i) # T) D"
    by (rule rx_fetch [OF sp assms(2) refl])
  have "rx_items P' ((?h, i) # T) D = rx_items P T D" by (simp add: i(1) rx_items_def)
  then show ?thesis using inv by (intro rx_invI [OF i(2)]) simp_all
qed

lemma rx_inv_receive:
  assumes "rx_inv hhdm rx av tk None arrived delivered"
  shows "arrived = delivered \<and> pop_used (rx_queue rx) = returns (None, rx_queue rx) \<or>
    (\<exists>e q. pop_used (rx_queue rx) = returns (Some e, q) \<and> unat (used_id e) < length (desc_to_buf rx) \<and>
       rx_inv hhdm (rx\<lparr>rx_queue := q\<rparr>) av tk
         (Some (unat (desc_to_buf rx ! unat (used_id e)), unat (used_len e) - NET_HDR_LEN)) arrived delivered)"
proof -
  from assms obtain P T D where sp: "rx_split hhdm rx av tk P T D" and pool: "rx_items P T D = rx_pool"
    and arr: "arrived = delivered @ rx_pending rx None D"
    unfolding rx_inv_def by (auto simp: tokens_def)
  have lens: "\<forall>d \<in> set D. NET_HDR_LEN \<le> unat (snd d) \<and> unat (snd d) \<le> RX_BUFFER_LEN" using sp by (rule rx_splitE)
  show ?thesis
  proof (cases D)
    case Nil
    then show ?thesis using rx_pop [OF sp] arr by (simp add: rx_pending_def tokens_def)
  next
    case (Cons d D')
    obtain i l where d: "d = (i, l)" by (cases d)
    obtain e q where e: "pop_used (rx_queue rx) = returns (Some e, q)" "used_len e = l"
      "unat (used_id e) < length (desc_to_buf rx)" "unat (desc_to_buf rx ! unat (used_id e)) = i"
      "rx_split hhdm (rx\<lparr>rx_queue := q\<rparr>) av tk P T D'"
      using rx_pop [OF sp] Cons d by auto
    have "rx_inv hhdm (rx\<lparr>rx_queue := q\<rparr>) av tk (Some (i, unat l - NET_HDR_LEN)) arrived delivered"
    proof (rule rx_invI [OF e(5)])
      show "rx_items P T D' + mset (map fst (tokens (Some (i, unat l - NET_HDR_LEN)))) = rx_pool"
        using pool Cons d by (simp add: rx_items_def tokens_def)
      show "\<forall>t \<in> set (tokens (Some (i, unat l - NET_HDR_LEN))). NET_HDR_LEN + snd t \<le> RX_BUFFER_LEN"
        using lens Cons d by (simp add: tokens_def)
      show "arrived = delivered @ rx_pending (rx\<lparr>rx_queue := q\<rparr>) (Some (i, unat l - NET_HDR_LEN)) D'"
        using arr Cons d by (simp add: rx_pending_def tokens_def rx_frame_def)
    qed
    then show ?thesis using e by auto
  qed
qed

lemma rx_inv_consume:
  assumes "rx_inv hhdm rx av tk (Some (i, n)) arrived delivered"
  obtains rx' where "\<And>m. rx_consume H hhdm i n rx m = Inr (rx_frame rx i n, rx', notify H (rx_notify rx) RX_QUEUE_IDX m)"
    "rx_inv hhdm rx' av tk None arrived (delivered @ [rx_frame rx i n])"
    "\<exists>rest. arrived = delivered @ rx_frame rx i n # rest"
proof -
  from assms obtain P T D where sp: "rx_split hhdm rx av tk P T D" and pool: "rx_items P T D + {#i#} = rx_pool"
    and n: "NET_HDR_LEN + n \<le> RX_BUFFER_LEN" and arr: "arrived = delivered @ rx_pending rx (Some (i, n)) D"
    unfolding rx_inv_def by (auto simp: tokens_def)
  have size: "size (rx_items P T D) < 16" using arg_cong [OF pool, of size] by (simp add: rx_pool_def)
  have i: "i < 16" using pool_member(2) [of P T D "Some (i, n)"] pool by (simp add: tokens_def)
  from sp have "length (rx_bufs rx) = 16 \<and> (\<forall>b \<in> set (rx_bufs rx). length (rb_bytes b) = RX_BUFFER_LEN)"
    by (rule rx_splitE) blast
  then have b: "slice_at (rx_bufs rx) i = Inr (rx_bufs rx ! i)" "NET_HDR_LEN + n \<le> length (rb_bytes (rx_bufs rx ! i))"
    using i n by (simp_all add: slice_at_def)
  obtain rx' where rx': "rx_post hhdm i rx = Inr rx'" "rx_split hhdm rx' av tk (P @ [i]) T D"
    "rx_bufs rx' = rx_bufs rx" "rx_notify rx' = rx_notify rx"
    by (rule rx_post_eq [OF sp i size])
  have "rx_inv hhdm rx' av tk None arrived (delivered @ [rx_frame rx i n])"
    using pool arr by (intro rx_invI [OF rx'(2)]) (simp_all add: tokens_def rx_items_def rx_pending_def rx_frame_def rx'(3))
  moreover have "rx_consume H hhdm i n rx m = Inr (rx_frame rx i n, rx', notify H (rx_notify rx) RX_QUEUE_IDX m)" for m
    using b rx'(1,4) by (simp add: rx_consume_def rx_frame_def)
  moreover have "\<exists>rest. arrived = delivered @ rx_frame rx i n # rest"
    using arr by (simp add: rx_pending_def tokens_def)
  ultimately show ?thesis using that by blast
qed

lemma rx_fresh:
  assumes "virtq_new pf fa 16 = Inr (rx_queue rx, fa')" "rx_shape rx" "k \<le> 16"
  shows "\<exists>rx'. fold_out (rx_post hhdm) [0..<k] rx = Inr rx' \<and> rx_split hhdm rx' 0 [] [0..<k] [] []"
  using assms(3)
proof (induction k)
  case 0
  have "posted (rx_part hhdm (map rb_addr (rx_bufs rx))) (rx_tab rx) (rx_sys rx 0 []) [] [] []"
    by (rule posted_fresh [of pf fa 16 _ fa']) (simp_all add: assms(1))
  then show ?case using assms(2) by (simp add: rx_split_def)
next
  case (Suc k)
  then obtain rx' where rx': "fold_out (rx_post hhdm) [0..<k] rx = Inr rx'" "rx_split hhdm rx' 0 [] [0..<k] [] []" by auto
  have "size (rx_items [0..<k] [] []) < 16" "k < 16" using Suc.prems by (simp_all add: rx_items_def)
  then obtain rx'' where "rx_post hhdm k rx' = Inr rx''" "rx_split hhdm rx'' 0 [] ([0..<k] @ [k]) [] []"
    using rx_post_eq [OF rx'(2)] by blast
  then show ?case using rx'(1) by (simp add: fold_out_append)
qed

section \<open>Driver and device together\<close>

text \<open>
  The driver's calls and the device's actions on both queues, in any order. A receive token borrows
  the driver, so submitting, reaping and polling wait until it is consumed; transmit tokens may be
  consumed meanwhile, as smoltcp does from within a receive closure. The device
  keeps its ring positions and the heads it holds. The history records the frames accepted for
  transmission, what the device read for each descriptor it fetched, the frames it stored and the frames
  shown to smoltcp. A new box never has the address of a live one.
\<close>

record net_sys =
  nt_net :: virtio_net
  nt_tx_avail :: u16
  nt_tx_taken :: "u16 list"
  nt_rx_avail :: u16
  nt_rx_taken :: "u16 list"
  nt_token :: "(nat \<times> nat) option"
  nt_accepted :: "u8 list list"
  nt_fetched :: "u8 list option list"
  nt_arrived :: "u8 list list"
  nt_delivered :: "u8 list list"

inductive net_step :: "'d virtio_hw \<Rightarrow> u64 \<Rightarrow> net_sys \<Rightarrow> net_sys \<Rightarrow> bool" for H hhdm where
  call_submit: "nt_token s = None \<Longrightarrow> bx \<notin> live_boxes (vn_tx (nt_net s)) \<Longrightarrow>
    tx_submit H hhdm bx payload (vn_tx (nt_net s)) m = Inr (r, tx, m') \<Longrightarrow>
    net_step H hhdm s (s\<lparr>nt_net := (nt_net s)\<lparr>vn_tx := tx\<rparr>, nt_accepted := nt_accepted s @ (if r = Inr () then [payload] else [])\<rparr>)"
| call_tx_token: "bx \<notin> live_boxes (vn_tx (nt_net s)) \<Longrightarrow>
    tx_consume H hhdm bx payload (vn_tx (nt_net s)) m = Inr (tx, m') \<Longrightarrow>
    net_step H hhdm s (s\<lparr>nt_net := (nt_net s)\<lparr>vn_tx := tx\<rparr>,
      nt_accepted := nt_accepted s @ (if num_free (tx_queue (vn_tx (nt_net s))) = 0 then [] else [payload])\<rparr>)"
| call_reap: "nt_token s = None \<Longrightarrow> tx_reap (vn_tx (nt_net s)) = returns tx \<Longrightarrow>
    net_step H hhdm s (s\<lparr>nt_net := (nt_net s)\<lparr>vn_tx := tx\<rparr>\<rparr>)"
| call_transmit: "nt_token s = None \<Longrightarrow> net_transmit (nt_net s) = returns (room, net) \<Longrightarrow>
    net_step H hhdm s (s\<lparr>nt_net := net\<rparr>)"
| call_receive: "nt_token s = None \<Longrightarrow> net_receive (nt_net s) = returns (tok, net) \<Longrightarrow>
    net_step H hhdm s (s\<lparr>nt_net := net, nt_token := tok\<rparr>)"
| call_rx_token: "nt_token s = Some (i, n) \<Longrightarrow> rx_consume H hhdm i n (vn_rx (nt_net s)) m = Inr (buf, rx, m') \<Longrightarrow>
    net_step H hhdm s (s\<lparr>nt_net := (nt_net s)\<lparr>vn_rx := rx\<rparr>, nt_token := None, nt_delivered := nt_delivered s @ [buf]\<rparr>)"
| device_tx_fetch: "q = tx_queue (vn_tx (nt_net s)) \<Longrightarrow> nt_tx_avail s \<noteq> avail_idx q \<Longrightarrow>
    h = avail_ring q ! unat (nt_tx_avail s mod qsize q) \<Longrightarrow>
    net_step H hhdm s (s\<lparr>nt_tx_avail := nt_tx_avail s + 1, nt_tx_taken := h # nt_tx_taken s,
      nt_fetched := nt_fetched s @ [tx_dma hhdm (vn_tx (nt_net s)) h]\<rparr>)"
| device_tx_complete: "nt_tx_taken s = xs @ h # ys \<Longrightarrow> tx = vn_tx (nt_net s) \<Longrightarrow>
    net_step H hhdm s (s\<lparr>nt_tx_taken := xs @ ys, nt_net := (nt_net s)\<lparr>vn_tx := tx\<lparr>tx_queue := used_push (tx_queue tx) h n\<rparr>\<rparr>\<rparr>)"
| device_rx_fetch: "q = rx_queue (vn_rx (nt_net s)) \<Longrightarrow> nt_rx_avail s \<noteq> avail_idx q \<Longrightarrow>
    net_step H hhdm s (s\<lparr>nt_rx_avail := nt_rx_avail s + 1,
      nt_rx_taken := avail_ring q ! unat (nt_rx_avail s mod qsize q) # nt_rx_taken s\<rparr>)"
| device_rx_complete: "nt_rx_taken s = xs @ h # ys \<Longrightarrow> NET_HDR_LEN \<le> length bytes \<Longrightarrow> length bytes \<le> RX_BUFFER_LEN \<Longrightarrow>
    net_step H hhdm s (s\<lparr>nt_rx_taken := xs @ ys, nt_net := (nt_net s)\<lparr>vn_rx := rx_dma hhdm h bytes (vn_rx (nt_net s))\<rparr>,
      nt_arrived := nt_arrived s @ [drop NET_HDR_LEN bytes]\<rparr>)"

definition net_fresh :: "'d virtio_hw \<Rightarrow> u64 \<Rightarrow> net_sys \<Rightarrow> bool" where
  "net_fresh H hhdm s \<longleftrightarrow>
     (\<exists>pf boxes v fa m fa' m'. virtio_net_new H pf hhdm boxes v fa m = Inr (nt_net s, fa', m') \<and>
        16 \<le> length boxes \<and> distinct boxes) \<and>
     nt_tx_avail s = 0 \<and> nt_tx_taken s = [] \<and> nt_rx_avail s = 0 \<and> nt_rx_taken s = [] \<and> nt_token s = None \<and>
     nt_accepted s = [] \<and> nt_fetched s = [] \<and> nt_arrived s = [] \<and> nt_delivered s = []"

definition tx_inv :: "u64 \<Rightarrow> tx_state \<Rightarrow> u16 \<Rightarrow> u16 list \<Rightarrow> u8 list list \<Rightarrow> u8 list option list \<Rightarrow> bool" where
  "tx_inv hhdm tx av tk accepted fetched \<longleftrightarrow>
     (\<exists>tab P T D sent. tx_split hhdm tx av tk tab P T D \<and> accepted = sent @ map tx_frame P \<and>
        fetched = map (\<lambda>f. Some (virtio_net_hdr_default @ f)) sent \<and> (\<forall>t \<in> set T. tx_frame (snd t) \<in> set sent))"

definition net_inv :: "u64 \<Rightarrow> net_sys \<Rightarrow> bool" where
  "net_inv hhdm s \<longleftrightarrow>
     tx_inv hhdm (vn_tx (nt_net s)) (nt_tx_avail s) (nt_tx_taken s) (nt_accepted s) (nt_fetched s) \<and>
     rx_inv hhdm (vn_rx (nt_net s)) (nt_rx_avail s) (nt_rx_taken s) (nt_token s) (nt_arrived s) (nt_delivered s)"

lemma tx_invI:
  assumes "tx_split hhdm tx av tk tab P T D" "accepted = sent @ map tx_frame P"
    "fetched = map (\<lambda>f. Some (virtio_net_hdr_default @ f)) sent" "\<forall>t \<in> set T. tx_frame (snd t) \<in> set sent"
  shows "tx_inv hhdm tx av tk accepted fetched"
  using assms unfolding tx_inv_def by blast

lemma tx_invE:
  assumes "tx_inv hhdm tx av tk accepted fetched"
  obtains tab P T D sent where "tx_split hhdm tx av tk tab P T D" "accepted = sent @ map tx_frame P"
    "fetched = map (\<lambda>f. Some (virtio_net_hdr_default @ f)) sent" "\<forall>t \<in> set T. tx_frame (snd t) \<in> set sent"
  using assms unfolding tx_inv_def by blast

lemma tx_inv_push:
  assumes "tx_inv hhdm tx av tk accepted fetched" "bx \<notin> live_boxes tx" "length payload \<le> MTU"
  obtains "tx_inflight tx = 16" "num_free (tx_queue tx) = 0"
      "and_then (tx_buffer_of bx payload) (\<lambda>buf. tx_push H hhdm buf (length payload) tx m) = Inr (False, tx, m)"
  | tx' where "tx_inflight tx < 16" "num_free (tx_queue tx) \<noteq> 0" "tx_inv hhdm tx' av tk (accepted @ [payload]) fetched"
      "and_then (tx_buffer_of bx payload) (\<lambda>buf. tx_push H hhdm buf (length payload) tx m) =
         Inr (True, tx', notify H (tx_notify tx) TX_QUEUE_IDX m)"
proof -
  from assms(1) obtain tab P T D sent where sp: "tx_split hhdm tx av tk tab P T D" and a: "accepted = sent @ map tx_frame P"
    "fetched = map (\<lambda>f. Some (virtio_net_hdr_default @ f)) sent" "\<forall>t \<in> set T. tx_frame (snd t) \<in> set sent" by (rule tx_invE)
  let ?b = "\<lparr>tb_addr = bx, tb_hdr = virtio_net_hdr_default, tb_payload = payload @ replicate (MTU - length payload) 0\<rparr>"
  let ?x = "(?b, length payload)"
  from sp have "posted (tx_part hhdm) tab (tx_sys tx av tk) P T D \<and> qsize (tx_queue tx) = 16 \<and> tx_inflight tx = length P + length T + length D"
    by (rule tx_splitE) blast
  then have nf: "unat (num_free (tx_queue tx)) + tx_inflight tx = 16" using posted_count [of _ tab "tx_sys tx av tk" P T D] by auto
  have buf: "tx_buffer_of bx payload = Inr ?b" using assms(3) by (simp add: tx_buffer_of_def)
  have item: "tx_item ?x" "tx_frame ?x = payload" using assms(3) by (simp_all add: tx_item_def tx_frame_def)
  show ?thesis
  proof (cases "tx_inflight tx = 16")
    case True
    moreover have "num_free (tx_queue tx) = 0" using nf True by (simp add: unat_eq_zero)
    ultimately show ?thesis using that(1) tx_push_full [OF sp True, of H ?b "length payload" m] buf by simp
  next
    case False
    obtain tx' tab' where t: "tx_push H hhdm ?b (length payload) tx m = Inr (True, tx', notify H (tx_notify tx) TX_QUEUE_IDX m)"
      "tx_split hhdm tx' av tk tab' (P @ [?x]) T D"
      by (rule tx_push_room [OF sp False item(1)]) (use assms(2) in simp_all)
    have "tx_inv hhdm tx' av tk (accepted @ [payload]) fetched" by (rule tx_invI [OF t(2) _ a(2,3)]) (simp add: a(1) item(2))
    moreover have "num_free (tx_queue tx) \<noteq> 0" "tx_inflight tx < 16" using nf False by auto
    ultimately show ?thesis using that(2) t(1) buf by simp
  qed
qed

lemma tx_submit_eq:
  assumes "tx_inv hhdm tx av tk accepted fetched" "bx \<notin> live_boxes tx"
  shows "\<exists>r tx' m'. tx_submit H hhdm bx payload tx m = Inr (r, tx', m') \<and>
    r = (if MTU < length payload then Inl TooLarge else if tx_inflight tx = 16 then Inl QueueFull else Inr ()) \<and>
    (r \<noteq> Inr () \<longrightarrow> tx' = tx \<and> m' = m) \<and>
    tx_inv hhdm tx' av tk (accepted @ (if r = Inr () then [payload] else [])) fetched"
proof (cases "MTU < length payload")
  case True
  then show ?thesis using assms(1) by (simp add: tx_submit_def)
next
  case False
  have e: "tx_submit H hhdm bx payload tx m = and_then (and_then (tx_buffer_of bx payload)
     (\<lambda>buf. tx_push H hhdm buf (length payload) tx m)) (\<lambda>(room, tx, m). Inr (if room then Inr () else Inl QueueFull, tx, m))"
    using False by (cases "tx_buffer_of bx payload") (simp_all add: tx_submit_def)
  show ?thesis
    by (rule tx_inv_push [OF assms, of payload H m]) (use False assms(1) e in auto)
qed

lemma tx_consume_inv:
  assumes "tx_inv hhdm tx av tk accepted fetched" "bx \<notin> live_boxes tx" "tx_consume H hhdm bx payload tx m = Inr (tx', m')"
  shows "tx_inv hhdm tx' av tk (accepted @ (if num_free (tx_queue tx) = 0 then [] else [payload])) fetched"
proof -
  have len: "length payload \<le> MTU" using assms(3) by (simp add: tx_consume_def tx_buffer_of_def split: if_splits)
  have e: "tx_consume H hhdm bx payload tx m = and_then (and_then (tx_buffer_of bx payload)
     (\<lambda>buf. tx_push H hhdm buf (length payload) tx m)) (\<lambda>(room, tx, m). Inr (tx, m))"
    by (cases "tx_buffer_of bx payload") (simp_all add: tx_consume_def)
  show ?thesis
    by (rule tx_inv_push [OF assms(1,2) len, of H m]) (use assms(1,3) e in auto)
qed

lemma tx_inv_reap:
  assumes "tx_inv hhdm tx av tk accepted fetched"
  obtains tx' where "tx_reap tx = returns tx'" "tx_inv hhdm tx' av tk accepted fetched"
    "tx_inflight tx' = length accepted - length fetched + length tk"
proof -
  from assms obtain tab P T D sent where sp: "tx_split hhdm tx av tk tab P T D" and a: "accepted = sent @ map tx_frame P"
    "fetched = map (\<lambda>f. Some (virtio_net_hdr_default @ f)) sent" "\<forall>t \<in> set T. tx_frame (snd t) \<in> set sent" by (rule tx_invE)
  obtain tx' tab' where t: "tx_reap tx = returns tx'" "tx_split hhdm tx' av tk tab' P T []" using tx_reap_eq [OF sp] by blast
  from t(2) have "posted (tx_part hhdm) tab' (tx_sys tx' av tk) P T [] \<and> tx_inflight tx' = length P + length T"
    by (rule tx_splitE) simp
  then have p: "posted (tx_part hhdm) tab' (tx_sys tx' av tk) P T []" and n: "tx_inflight tx' = length P + length T" by blast+
  have "length tk = length T" using posted_taken [OF p] by simp
  then show ?thesis using that [OF t(1) tx_invI [OF t(2) a]] a(1,2) n by simp
qed

lemma tx_inv_fetch:
  assumes "tx_inv hhdm tx av tk accepted fetched" "av \<noteq> avail_idx (tx_queue tx)"
    "h = avail_ring (tx_queue tx) ! unat (av mod qsize (tx_queue tx))"
  shows "tx_inv hhdm tx (av + 1) (h # tk) accepted (fetched @ [tx_dma hhdm tx h])"
proof -
  from assms(1) obtain tab P T D sent where sp: "tx_split hhdm tx av tk tab P T D" and a: "accepted = sent @ map tx_frame P"
    "fetched = map (\<lambda>f. Some (virtio_net_hdr_default @ f)) sent" "\<forall>t \<in> set T. tx_frame (snd t) \<in> set sent" by (rule tx_invE)
  obtain x P' where x: "P = x # P'" "tx_dma hhdm tx h = Some (virtio_net_hdr_default @ tx_frame x)"
    "tx_split hhdm tx (av + 1) (h # tk) tab P' ((h, x) # T) D"
    by (rule tx_fetch [OF sp assms(2,3)])
  show ?thesis by (rule tx_invI [OF x(3), of _ "sent @ [tx_frame x]"]) (use a x(1,2) in auto)
qed

lemma tx_inv_complete:
  assumes "tx_inv hhdm tx av (xs @ h # ys) accepted fetched"
  shows "tx_inv hhdm (tx\<lparr>tx_queue := used_push (tx_queue tx) h n\<rparr>) av (xs @ ys) accepted fetched"
proof -
  from assms obtain tab P T D sent where sp: "tx_split hhdm tx av (xs @ h # ys) tab P T D" and a: "accepted = sent @ map tx_frame P"
    "fetched = map (\<lambda>f. Some (virtio_net_hdr_default @ f)) sent" "\<forall>t \<in> set T. tx_frame (snd t) \<in> set sent" by (rule tx_invE)
  obtain x T\<^sub>1 T\<^sub>2 where x: "T = T\<^sub>1 @ (h, x) # T\<^sub>2"
    "tx_split hhdm (tx\<lparr>tx_queue := used_push (tx_queue tx) h n\<rparr>) av (xs @ ys) tab P (T\<^sub>1 @ T\<^sub>2) (D @ [(x, n)])"
    by (rule tx_complete [OF sp])
  show ?thesis by (rule tx_invI [OF x(2) a(1,2)]) (use a(3) x(1) in auto)
qed

lemma tx_inv_held:
  assumes "tx_inv hhdm tx av tk accepted fetched" "h \<in> set tk"
  shows "\<exists>f. tx_dma hhdm tx h = Some (virtio_net_hdr_default @ f) \<and> Some (virtio_net_hdr_default @ f) \<in> set fetched"
proof -
  from assms(1) obtain tab P T D sent where sp: "tx_split hhdm tx av tk tab P T D" and a: "accepted = sent @ map tx_frame P"
    "fetched = map (\<lambda>f. Some (virtio_net_hdr_default @ f)) sent" "\<forall>t \<in> set T. tx_frame (snd t) \<in> set sent" by (rule tx_invE)
  from sp have p: "posted (tx_part hhdm) tab (tx_sys tx av tk) P T D" by (rule tx_splitE)
  obtain x where x: "(h, x) \<in> set T" using posted_taken [OF p] assms(2) by auto
  have "tx_dma hhdm tx h = Some (virtio_net_hdr_default @ tx_frame x)"
    using posted_held [OF p x] by (intro tx_dma_eq [OF sp]) simp_all
  moreover have "tx_frame x \<in> set sent" using a(3) x by fastforce
  ultimately show ?thesis using a(2) by auto
qed

lemma net_receive_eq:
  assumes "tx_inv hhdm (vn_tx net) ta tt accepted fetched" "rx_inv hhdm (vn_rx net) ra rt None arrived delivered"
  obtains tok net' where "net_receive net = returns (tok, net')" "tx_inv hhdm (vn_tx net') ta tt accepted fetched"
    "rx_inv hhdm (vn_rx net') ra rt tok arrived delivered" "tok = None \<longleftrightarrow> arrived = delivered"
proof -
  obtain tx where tx: "tx_reap (vn_tx net) = returns tx" "tx_inv hhdm tx ta tt accepted fetched"
    using assms(1) by (rule tx_inv_reap)
  from rx_inv_receive [OF assms(2)] show ?thesis
  proof (elim disjE exE conjE)
    assume "arrived = delivered" "pop_used (rx_queue (vn_rx net)) = returns (None, rx_queue (vn_rx net))"
    then show ?thesis
      using that [of None "net\<lparr>vn_tx := tx\<rparr>"] tx assms(2) by (simp add: net_receive_def Let_def)
  next
    fix e :: virtq_used_elem and q
    let ?rx = "(vn_rx net)\<lparr>rx_queue := q\<rparr>"
    let ?tok = "Some (unat (desc_to_buf (vn_rx net) ! unat (used_id e)), unat (used_len e) - NET_HDR_LEN)"
    assume e: "pop_used (rx_queue (vn_rx net)) = returns (Some e, q)" "unat (used_id e) < length (desc_to_buf (vn_rx net))"
      and inv: "rx_inv hhdm ?rx ra rt ?tok arrived delivered"
    have "net_receive net = returns (?tok, net\<lparr>vn_tx := tx, vn_rx := ?rx\<rparr>)"
      using tx(1) e by (simp add: net_receive_def Let_def slice_at_def)
    moreover obtain rest where "arrived = delivered @ rest" "rest \<noteq> []"
      using rx_inv_consume [OF inv] by blast
    then have "arrived \<noteq> delivered" by simp
    ultimately show ?thesis using that tx(2) inv by simp
  qed
qed

text \<open>The start: the constructor's queues, with the sixteen buffers posted.\<close>

definition rx_start :: "u64 list \<Rightarrow> virtqueue \<Rightarrow> u64 \<Rightarrow> rx_state" where
  "rx_start boxes rxq rn = \<lparr>rx_queue = rxq, rx_notify = rn,
     rx_bufs = map (\<lambda>a. \<lparr>rb_addr = a, rb_bytes = replicate RX_BUFFER_LEN 0\<rparr>) (take 16 boxes), desc_to_buf = replicate 16 0\<rparr>"

lemma net_new_eq:
  "virtio_net_new H pf hhdm boxes v fa m =
     and_then (init_transport H v 0x100000000 m) (\<lambda>(df, m).
     and_then (virtq_new pf fa 16) (\<lambda>(rxq, fa).
     and_then (virtq_new pf fa 16) (\<lambda>(txq, fa).
     and_then (activate_queue H v 0 rxq m) (\<lambda>(rn, m).
     and_then (activate_queue H v 1 txq m) (\<lambda>(tn, m).
     and_then (fold_out (rx_post hhdm) [0..<16] (rx_start boxes rxq rn)) (\<lambda>rx.
     Inr (\<lparr>vn_dev = v, vn_rx = rx, vn_tx = \<lparr>tx_queue = txq, tx_notify = tn, in_flight = replicate 16 None\<rparr>\<rparr>, fa,
       set_driver_ok H v (notify H rn 0 m))))))))"
proof -
  have sz: "NET_QUEUE_SIZE = 16" "unat (16 :: u16) = 16" "push_bit 32 (ucast VIRTIO_F_VERSION_1) = (0x100000000 :: u64)"
    by (simp_all add: NET_QUEUE_SIZE_def VIRTIO_F_VERSION_1_def)
  show ?thesis unfolding virtio_net_new_def Let_def sz RX_QUEUE_IDX_def TX_QUEUE_IDX_def rx_start_def [symmetric] by (rule refl)
qed

lemma rx_start_shape:
  assumes "qsize rxq = 16" "16 \<le> length boxes" "distinct boxes"
  shows "rx_shape (rx_start boxes rxq rn)"
proof -
  have a: "map rb_addr (rx_bufs (rx_start boxes rxq rn)) = take 16 boxes" by (simp add: rx_start_def comp_def)
  show ?thesis unfolding rx_shape_def a using assms by (auto simp: rx_start_def)
qed

lemma rx_posts_all:
  assumes "virtq_new pf fa 16 = Inr (rxq, fa')" "16 \<le> length boxes" "distinct boxes"
  shows "\<exists>rx. fold_out (rx_post hhdm) [0..<16] (rx_start boxes rxq rn) = Inr rx \<and> rx_split hhdm rx 0 [] [0..<16] [] []"
  by (rule rx_fresh [of pf fa _ fa']) (use assms virtq_new_sizes_eq [OF assms(1)] in \<open>simp_all add: rx_start_shape, simp add: rx_start_def\<close>)

lemma net_new_inv: "net_fresh H hhdm s \<Longrightarrow> net_inv hhdm s"
proof -
  assume fresh: "net_fresh H hhdm s"
  then obtain pf boxes v fa m fa' m' where new: "virtio_net_new H pf hhdm boxes v fa m = Inr (nt_net s, fa', m')"
    and boxes: "16 \<le> length boxes" "distinct boxes" unfolding net_fresh_def by blast
  obtain rxq fa1 txq fa2 rn tn rx where q: "virtq_new pf fa 16 = Inr (rxq, fa1)" "virtq_new pf fa1 16 = Inr (txq, fa2)"
    "fold_out (rx_post hhdm) [0..<16] (rx_start boxes rxq rn) = Inr rx"
    and net: "\<lparr>vn_dev = v, vn_rx = rx, vn_tx = \<lparr>tx_queue = txq, tx_notify = tn, in_flight = replicate 16 None\<rparr>\<rparr> = nt_net s"
    using new unfolding net_new_eq by (auto simp: and_then_eq_Inr)
  have sel: "vn_rx (nt_net s) = rx" "tx_queue (vn_tx (nt_net s)) = txq" "in_flight (vn_tx (nt_net s)) = replicate 16 None"
    by (simp_all add: net [symmetric])
  have rx: "rx_split hhdm rx 0 [] [0..<16] [] []"
    using rx_posts_all [OF q(1) boxes, of hhdm rn] unfolding q(3) by blast
  have "rx_inv hhdm rx 0 [] None [] []"
    by (rule rx_invI [OF rx]) (simp_all add: tokens_def rx_items_def rx_pool_def rx_pending_def)
  moreover have "tx_split hhdm (vn_tx (nt_net s)) 0 [] Map.empty [] [] []"
    by (rule tx_fresh [of pf fa1 _ fa2]) (use q sel in simp_all)
  then have "tx_inv hhdm (vn_tx (nt_net s)) 0 [] [] []" by (rule tx_invI [of _ _ _ _ _ _ _ _ _ "[]"]) simp_all
  ultimately show ?thesis using fresh sel(1) unfolding net_inv_def net_fresh_def by simp
qed

lemma net_step_inv: "net_inv hhdm s \<Longrightarrow> net_step H hhdm s t \<Longrightarrow> net_inv hhdm t"
proof -
  assume inv: "net_inv hhdm s" and step: "net_step H hhdm s t"
  note tx = inv [unfolded net_inv_def, THEN conjunct1] and rx = inv [unfolded net_inv_def, THEN conjunct2]
  from step show ?thesis
  proof cases
    case (call_submit bx payload m r tx' m')
    have "tx_inv hhdm tx' (nt_tx_avail s) (nt_tx_taken s) (nt_accepted s @ (if r = Inr () then [payload] else [])) (nt_fetched s)"
      using tx_submit_eq [OF tx call_submit(3), of H payload m] unfolding call_submit(4) by blast
    then show ?thesis using call_submit(1) rx unfolding net_inv_def by simp
  next
    case (call_tx_token bx payload m tx' m')
    then show ?thesis using tx_consume_inv [OF tx call_tx_token(2,3)] rx unfolding net_inv_def by simp
  next
    case (call_reap tx')
    show ?thesis by (rule tx_inv_reap [OF tx]) (use call_reap rx in \<open>simp add: net_inv_def\<close>)
  next
    case (call_transmit room net)
    obtain tx' where "tx_reap (vn_tx (nt_net s)) = returns tx'" "tx_inv hhdm tx' (nt_tx_avail s) (nt_tx_taken s) (nt_accepted s) (nt_fetched s)"
      using tx by (rule tx_inv_reap)
    then show ?thesis using call_transmit rx unfolding net_inv_def net_transmit_def by auto
  next
    case (call_receive tok net)
    have rx': "rx_inv hhdm (vn_rx (nt_net s)) (nt_rx_avail s) (nt_rx_taken s) None (nt_arrived s) (nt_delivered s)" using rx call_receive(2) by simp
    show ?thesis by (rule net_receive_eq [OF tx rx']) (use call_receive in \<open>auto simp: net_inv_def\<close>)
  next
    case (call_rx_token i n m buf rx' m')
    have rx2: "rx_inv hhdm (vn_rx (nt_net s)) (nt_rx_avail s) (nt_rx_taken s) (Some (i, n)) (nt_arrived s) (nt_delivered s)" using rx call_rx_token(2) by simp
    show ?thesis by (rule rx_inv_consume [OF rx2, of H]) (use call_rx_token tx in \<open>auto simp: net_inv_def\<close>)
  next
    case (device_tx_fetch q h)
    then show ?thesis using tx_inv_fetch [OF tx, of h] rx unfolding net_inv_def by simp
  next
    case (device_tx_complete xs h ys tx' n)
    then show ?thesis using tx_inv_complete [of hhdm "vn_tx (nt_net s)" _ xs h ys] tx rx unfolding net_inv_def by simp
  next
    case (device_rx_fetch q)
    then show ?thesis using rx_inv_fetch [OF rx] tx unfolding net_inv_def by simp
  next
    case (device_rx_complete xs h ys bytes)
    then show ?thesis using rx_inv_complete [of hhdm "vn_rx (nt_net s)" _ xs h ys] tx rx unfolding net_inv_def by simp
  qed
qed

interpretation net: invariant_system "net_fresh H hhdm" "net_step H hhdm" "net_inv hhdm" for H hhdm
  by unfold_locales (rule net_new_inv, assumption, rule net_step_inv)

section \<open>Properties\<close>

text \<open>
  C13. Transmission, along any interleaving of submissions, transmit tokens, reaping and polling with a
  device that fetches and completes in any order. The device reads exactly the frames that were
  accepted, in order, each behind a header of twelve zero bytes; whatever
  it holds stays readable, unchanged, until it completes it, so no box is freed under the device.
  Reaping returns and leaves exactly the frames in flight that the device has not completed. A
  submission always returns: TooLarge beyond 1514 bytes, QueueFull exactly when sixteen frames are
  in flight, and in both cases nothing has changed.
\<close>
theorem transmit_exact:
  assumes "net_fresh H hhdm s\<^sub>0" "reachable (net_step H hhdm) s\<^sub>0 s"
  shows "(\<exists>sent queued tx'. nt_accepted s = sent @ queued \<and>
      nt_fetched s = map (\<lambda>f. Some (replicate 12 0 @ f)) sent \<and>
      (\<forall>h \<in> set (nt_tx_taken s). \<exists>f \<in> set sent. tx_dma hhdm (vn_tx (nt_net s)) h = Some (replicate 12 0 @ f)) \<and>
      tx_reap (vn_tx (nt_net s)) = returns tx' \<and> tx_inflight tx' = length queued + length (nt_tx_taken s)) \<and>
    (\<forall>bx payload m. bx \<notin> live_boxes (vn_tx (nt_net s)) \<longrightarrow>
      (\<exists>r tx' m'. tx_submit H hhdm bx payload (vn_tx (nt_net s)) m = Inr (r, tx', m') \<and>
        r = (if 1514 < length payload then Inl TooLarge else if tx_inflight (vn_tx (nt_net s)) = 16 then Inl QueueFull else Inr ()) \<and>
        (r \<noteq> Inr () \<longrightarrow> tx' = vn_tx (nt_net s) \<and> m' = m)))"
proof -
  have tx: "tx_inv hhdm (vn_tx (nt_net s)) (nt_tx_avail s) (nt_tx_taken s) (nt_accepted s) (nt_fetched s)"
    using net.reachable_inv [OF assms] unfolding net_inv_def by blast
  have hdr: "virtio_net_hdr_default = replicate 12 0" by (simp add: virtio_net_hdr_default_def NET_HDR_LEN_def)
  from tx obtain tab P T D sent where a: "nt_accepted s = sent @ map tx_frame P"
    "nt_fetched s = map (\<lambda>f. Some (virtio_net_hdr_default @ f)) sent" by (rule tx_invE)
  obtain tx' where t: "tx_reap (vn_tx (nt_net s)) = returns tx'"
    "tx_inflight tx' = length (nt_accepted s) - length (nt_fetched s) + length (nt_tx_taken s)" using tx by (rule tx_inv_reap)
  have held: "\<exists>f \<in> set sent. tx_dma hhdm (vn_tx (nt_net s)) h = Some (replicate 12 0 @ f)" if "h \<in> set (nt_tx_taken s)" for h
    using tx_inv_held [OF tx that] a(2) unfolding hdr by auto
  have "\<exists>sent queued tx'. nt_accepted s = sent @ queued \<and> nt_fetched s = map (\<lambda>f. Some (replicate 12 0 @ f)) sent \<and>
      (\<forall>h \<in> set (nt_tx_taken s). \<exists>f \<in> set sent. tx_dma hhdm (vn_tx (nt_net s)) h = Some (replicate 12 0 @ f)) \<and>
      tx_reap (vn_tx (nt_net s)) = returns tx' \<and> tx_inflight tx' = length queued + length (nt_tx_taken s)"
    using a t held by (intro exI [of _ sent] exI [of _ "map tx_frame P"] exI [of _ tx']) (simp add: hdr)
  moreover have "\<exists>r tx' m'. tx_submit H hhdm bx payload (vn_tx (nt_net s)) m = Inr (r, tx', m') \<and>
        r = (if 1514 < length payload then Inl TooLarge else if tx_inflight (vn_tx (nt_net s)) = 16 then Inl QueueFull else Inr ()) \<and>
        (r \<noteq> Inr () \<longrightarrow> tx' = vn_tx (nt_net s) \<and> m' = m)" if "bx \<notin> live_boxes (vn_tx (nt_net s))" for bx payload m
    using tx_submit_eq [OF tx that, of H payload m] unfolding MTU_def by blast
  ultimately show ?thesis by blast
qed

text \<open>
  C14. Reception, along the same interleavings with a device that stores packets of at most 1526
  bytes, header included. The frames shown to smoltcp are the frames the device stored, past
  their headers, in the order of their completion, each once and unchanged. Polling always
  returns; it hands out a token exactly when a frame is waiting, and consuming the token never panics, shows
  the oldest waiting frame and posts the buffer again.
\<close>
theorem receive_exact:
  assumes "net_fresh H hhdm s\<^sub>0" "reachable (net_step H hhdm) s\<^sub>0 s"
  shows "\<exists>pending. nt_arrived s = nt_delivered s @ pending \<and>
    (case nt_token s of
       Some (i, n) \<Rightarrow> pending \<noteq> [] \<and> (\<forall>m. \<exists>rx' m'. rx_consume H hhdm i n (vn_rx (nt_net s)) m = Inr (hd pending, rx', m'))
     | None \<Rightarrow> \<exists>tok net'. net_receive (nt_net s) = returns (tok, net') \<and>
         (case tok of None \<Rightarrow> pending = []
          | Some (i, n) \<Rightarrow> pending \<noteq> [] \<and> (\<forall>m. \<exists>rx' m'. rx_consume H hhdm i n (vn_rx net') m = Inr (hd pending, rx', m'))))"
proof -
  have tx: "tx_inv hhdm (vn_tx (nt_net s)) (nt_tx_avail s) (nt_tx_taken s) (nt_accepted s) (nt_fetched s)"
    and rx: "rx_inv hhdm (vn_rx (nt_net s)) (nt_rx_avail s) (nt_rx_taken s) (nt_token s) (nt_arrived s) (nt_delivered s)"
    using net.reachable_inv [OF assms] unfolding net_inv_def by blast+
  have use: "\<exists>pending. nt_arrived s = nt_delivered s @ pending \<and> pending \<noteq> [] \<and>
      (\<forall>m. \<exists>rx' m'. rx_consume H hhdm i n r m = Inr (hd pending, rx', m'))"
    if r: "rx_inv hhdm r (nt_rx_avail s) (nt_rx_taken s) (Some (i, n)) (nt_arrived s) (nt_delivered s)" for r i n
  proof -
    obtain rx' rest where "\<And>m. rx_consume H hhdm i n r m = Inr (rx_frame r i n, rx', notify H (rx_notify r) RX_QUEUE_IDX m)"
      "nt_arrived s = nt_delivered s @ rx_frame r i n # rest"
      using rx_inv_consume [OF r, of H] by metis
    then show ?thesis by (intro exI [of _ "rx_frame r i n # rest"]) simp
  qed
  show ?thesis
  proof (cases "nt_token s")
    case None
    obtain tok net' where t: "net_receive (nt_net s) = returns (tok, net')"
      "rx_inv hhdm (vn_rx net') (nt_rx_avail s) (nt_rx_taken s) tok (nt_arrived s) (nt_delivered s)"
      "tok = None \<longleftrightarrow> nt_arrived s = nt_delivered s"
      by (rule net_receive_eq [OF tx rx [unfolded None]])
    show ?thesis
    proof (cases tok)
      case None
      then show ?thesis using \<open>nt_token s = None\<close> t(1,3) by simp
    next
      case (Some p)
      then show ?thesis using \<open>nt_token s = None\<close> t(1) use [of "vn_rx net'" "fst p" "snd p"] t(2) by (cases p) auto
    qed
  next
    case (Some p)
    then show ?thesis using use [of "vn_rx (nt_net s)" "fst p" "snd p"] rx by (cases p) auto
  qed
qed

lemma rx_post_phys:
  "rx_post hhdm i rx = Inr rx' \<Longrightarrow> desc_phys (rx_queue rx') = desc_phys (rx_queue rx) \<and>
     avail_phys (rx_queue rx') = avail_phys (rx_queue rx) \<and> used_phys (rx_queue rx') = used_phys (rx_queue rx) \<and>
     rx_notify rx' = rx_notify rx"
  by (auto simp: rx_post_def and_then_eq_Inr push_descriptor_def publish_def Let_def split: if_splits)

text \<open>
  The bring-up of the network device. If the constructor returns, its accesses were: the
  negotiation, the activation of queue 0 and of queue 1, each with rings in a frame of its own taken
  from the pool, then the notification of the receive queue, and DRIVER\_OK last. So the device is told of the
  receive buffers before DRIVER\_OK is set, which section 3.1.1 of the virtio specification forbids.
\<close>
theorem net_bring_up_order:
  assumes "virtio_net_new H pf hhdm boxes v fa m = Inr (net, fa', m')"
  shows "\<exists>resets lo hi after rxq txq mx\<^sub>0 off\<^sub>0 mx\<^sub>1 off\<^sub>1 phys\<^sub>0 phys\<^sub>1.
    vm_log m' = vm_log m @ negotiation_log (vd_common_cfg v) 0x100000000 resets lo hi after @
      activation_log (vd_common_cfg v) 0 rxq mx\<^sub>0 off\<^sub>0 @ activation_log (vd_common_cfg v) 1 txq mx\<^sub>1 off\<^sub>1 @
      [CC_write (rx_notify (vn_rx net)) 16 0, CC_write (vd_common_cfg v + 0x14) 8 15] \<and>
    length resets \<le> 16 \<and> after AND 8 = 8 \<and> 16 \<le> mx\<^sub>0 \<and> 16 \<le> mx\<^sub>1 \<and>
    free fa = free fa' @ [last (butlast (free fa)), last (free fa)] \<and>
    pf (last (free fa)) = Inr phys\<^sub>0 \<and> pf (last (butlast (free fa))) = Inr phys\<^sub>1 \<and>
    desc_phys rxq = phys\<^sub>0 \<and> avail_phys rxq = phys\<^sub>0 + 256 \<and> used_phys rxq = phys\<^sub>0 + 292 \<and>
    desc_phys txq = phys\<^sub>1 \<and> avail_phys txq = phys\<^sub>1 + 256 \<and> used_phys txq = phys\<^sub>1 + 292 \<and>
    tx_queue (vn_tx net) = txq \<and> rx_notify (vn_rx net) = vd_notify_base v + ucast off\<^sub>0 * ucast (vd_notify_off_multiplier v)"
proof -
  obtain df m1 rxq fa1 txq rn m2 tn m3 rx where
    i: "init_transport H v 0x100000000 m = Inr (df, m1)" and q0: "virtq_new pf fa 16 = Inr (rxq, fa1)" and
    q1: "virtq_new pf fa1 16 = Inr (txq, fa')" and a0: "activate_queue H v 0 rxq m1 = Inr (rn, m2)" and
    a1: "activate_queue H v 1 txq m2 = Inr (tn, m3)" and
    rx: "fold_out (rx_post hhdm) [0..<16] (rx_start boxes rxq rn) = Inr rx" and
    net: "net = \<lparr>vn_dev = v, vn_rx = rx, vn_tx = \<lparr>tx_queue = txq, tx_notify = tn, in_flight = replicate 16 None\<rparr>\<rparr>" and
    m': "m' = set_driver_ok H v (notify H rn 0 m3)"
    using assms unfolding net_new_eq by (auto simp: and_then_eq_Inr)
  have nt: "rx_notify rx = rn"
    by (rule fold_out_invariant [OF rx]) (auto simp: rx_start_def dest: rx_post_phys)
  have off: "desc_size 16 = 256" "used_offset 16 = 292" by code_simp+
  have new: "free f \<noteq> [] \<and> pf (last (free f)) = Inr (desc_phys q) \<and> free f' = butlast (free f) \<and> qsize q = 16 \<and>
      avail_phys q = desc_phys q + 256 \<and> used_phys q = desc_phys q + 292" if "virtq_new pf f 16 = Inr (q, f')" for f q f'
    using that by (auto simp: virtq_new_def and_then_eq_Inr alloc_frame_def off split: if_splits)
  note n0 = new [OF q0] and n1 = new [OF q1]
  obtain resets lo hi after where
    l1: "vm_log m1 = vm_log m @ negotiation_log (vd_common_cfg v) 0x100000000 resets lo hi after"
      "length resets \<le> 16" "after AND 8 = 8"
    using init_transport_log [OF i] by blast
  obtain mx0 off0 where l2: "vm_log m2 = vm_log m1 @ activation_log (vd_common_cfg v) 0 rxq mx0 off0" "qsize rxq \<le> mx0"
      "rn = vd_notify_base v + ucast off0 * ucast (vd_notify_off_multiplier v)"
    using activate_queue_log [OF a0] by blast
  obtain mx1 off1 where l3: "vm_log m3 = vm_log m2 @ activation_log (vd_common_cfg v) 1 txq mx1 off1" "qsize txq \<le> mx1"
    using activate_queue_log [OF a1] by blast
  have log: "vm_log m' = vm_log m @ negotiation_log (vd_common_cfg v) 0x100000000 resets lo hi after @
      activation_log (vd_common_cfg v) 0 rxq mx0 off0 @ activation_log (vd_common_cfg v) 1 txq mx1 off1 @
      [CC_write (rx_notify (vn_rx net)) 16 0, CC_write (vd_common_cfg v + 0x14) 8 15]"
    by (simp add: m' net nt set_driver_ok_def notify_def cc_write_def status_bits cc_offsets l1(1) l2(1) l3(1))
  have fr: "free fa = free fa' @ [last (free fa1), last (free fa)]"
  proof -
    have "free fa' @ [last (free fa1)] = free fa1" "free fa1 @ [last (free fa)] = free fa" using n0 n1 append_butlast_last_id by metis+
    then show ?thesis by (metis append.assoc append_Cons append_Nil)
  qed
  show ?thesis
  proof (intro exI conjI)
    show "vm_log m' = vm_log m @ negotiation_log (vd_common_cfg v) 0x100000000 resets lo hi after @
      activation_log (vd_common_cfg v) 0 rxq mx0 off0 @ activation_log (vd_common_cfg v) 1 txq mx1 off1 @
      [CC_write (rx_notify (vn_rx net)) 16 0, CC_write (vd_common_cfg v + 0x14) 8 15]" by (rule log)
    show "free fa = free fa' @ [last (butlast (free fa)), last (free fa)]" using fr n0 by metis
  qed (use l1(2,3) l2(2,3) l3(2) n0 n1 nt net in simp_all)
qed

section \<open>A device with both queues, and one frame through it\<close>

definition demo_boxes :: "u64 list" where
  "demo_boxes = [0x10000, 0x11000, 0x12000, 0x13000, 0x14000, 0x15000, 0x16000, 0x17000,
     0x18000, 0x19000, 0x1A000, 0x1B000, 0x1C000, 0x1D000, 0x1E000, 0x1F000]"

definition demo_net_new :: "(virtio_net \<times> frame_allocator \<times> u64 virtio_m) outcome" where
  "demo_net_new = virtio_net_new demo_virtio_hw Inr 0 demo_boxes demo_virtio_device
     \<lparr>free = [0x5000, 0x6000], total_added_ctr = 2\<rparr> \<lparr>vm_dev = 7, vm_log = []\<rparr>"

definition demo_queues :: "(u64 \<times> u64) outcome" where
  "demo_queues =
     and_then (init_transport demo_virtio_hw demo_virtio_device 0x100000000 \<lparr>vm_dev = 7, vm_log = []\<rparr>) (\<lambda>(df, m).
     and_then (virtq_new Inr \<lparr>free = [0x5000, 0x6000], total_added_ctr = 2\<rparr> 16) (\<lambda>(rxq, fa).
     and_then (virtq_new Inr fa 16) (\<lambda>(txq, fa).
     and_then (activate_queue demo_virtio_hw demo_virtio_device 0 rxq m) (\<lambda>(rn, m).
     and_then (activate_queue demo_virtio_hw demo_virtio_device 1 txq m) (\<lambda>(tn, m). Inr (rn, tn))))))"

lemma demo_net_ok:
  "\<exists>net fa' m'. demo_net_new = Inr (net, fa', m') \<and> in_flight (vn_tx net) = replicate 16 None \<and> avail_idx (rx_queue (vn_rx net)) = 16"
proof -
  have "\<not> isl demo_queues" by code_simp
  then obtain df m1 rxq fa1 txq fa2 rn m2 tn m3 where
    q: "init_transport demo_virtio_hw demo_virtio_device 0x100000000 \<lparr>vm_dev = 7, vm_log = []\<rparr> = Inr (df, m1)"
      "virtq_new Inr \<lparr>free = [0x5000, 0x6000], total_added_ctr = 2\<rparr> 16 = Inr (rxq, fa1)" "virtq_new Inr fa1 16 = Inr (txq, fa2)"
      "activate_queue demo_virtio_hw demo_virtio_device 0 rxq m1 = Inr (rn, m2)"
      "activate_queue demo_virtio_hw demo_virtio_device 1 txq m2 = Inr (tn, m3)"
    by (cases demo_queues) (auto simp: demo_queues_def and_then_eq_Inr)
  have b: "16 \<le> length demo_boxes" "distinct demo_boxes" by (simp_all add: demo_boxes_def)
  obtain rx where rx: "fold_out (rx_post 0) [0..<16] (rx_start demo_boxes rxq rn) = Inr rx" "rx_split 0 rx 0 [] [0..<16] [] []"
    using rx_posts_all [OF q(2) b] by blast
  from rx(2) have "posted (rx_part 0 (map rb_addr (rx_bufs rx))) (rx_tab rx) (rx_sys rx 0 []) [0..<16] [] []" by (rule rx_splitE)
  then have "avail_idx (rx_queue rx) = 16" using posted_avail by fastforce
  then show ?thesis using rx(1) q unfolding demo_net_new_def net_new_eq by simp
qed

definition demo_net_sys :: "virtio_net \<Rightarrow> net_sys" where
  "demo_net_sys net = \<lparr>nt_net = net, nt_tx_avail = 0, nt_tx_taken = [], nt_rx_avail = 0, nt_rx_taken = [], nt_token = None,
     nt_accepted = [], nt_fetched = [], nt_arrived = [], nt_delivered = []\<rparr>"

lemma demo_net_fresh: "demo_net_new = Inr (net, fa', m') \<Longrightarrow> net_fresh demo_virtio_hw 0 (demo_net_sys net)"
proof -
  assume n: "demo_net_new = Inr (net, fa', m')"
  have "16 \<le> length demo_boxes \<and> distinct demo_boxes" by (simp add: demo_boxes_def)
  then have "\<exists>pf boxes v fa m fa' m'. virtio_net_new demo_virtio_hw pf 0 boxes v fa m = Inr (net, fa', m') \<and> 16 \<le> length boxes \<and> distinct boxes"
    using n unfolding demo_net_new_def by blast
  then show ?thesis unfolding net_fresh_def demo_net_sys_def by simp
qed

theorem transmit_exact_witness:
  "\<exists>net fa' m' tx' m''. demo_net_new = Inr (net, fa', m') \<and>
    tx_submit demo_virtio_hw 0 0x20000 [1, 2, 3] (vn_tx net) m' = Inr (Inr (), tx', m'') \<and>
    (\<exists>tx''. tx_reap tx' = returns tx'' \<and> tx_inflight tx'' = 1)"
proof -
  obtain net fa' m' where n: "demo_net_new = Inr (net, fa', m')" "in_flight (vn_tx net) = replicate 16 None" using demo_net_ok by blast
  note fresh = demo_net_fresh [OF n(1)]
  have net: "nt_net (demo_net_sys net) = net" "nt_token (demo_net_sys net) = None" by (simp_all add: demo_net_sys_def)
  have free: "0x20000 \<notin> live_boxes (vn_tx net)" "tx_inflight (vn_tx net) = 0" using n(2) by (auto simp: live_boxes_def tx_inflight_def)
  then obtain tx' m'' where s: "tx_submit demo_virtio_hw 0 0x20000 [1, 2, 3] (vn_tx net) m' = Inr (Inr (), tx', m'')"
    using transmit_exact [OF fresh rtranclp.rtrancl_refl, THEN conjunct2, rule_format, of "0x20000" "[1, 2, 3]" m'] net by auto
  let ?t = "(demo_net_sys net)\<lparr>nt_net := net\<lparr>vn_tx := tx'\<rparr>, nt_accepted := [[1, 2, 3]]\<rparr>"
  have "net_step demo_virtio_hw 0 (demo_net_sys net) ?t"
    using call_submit [of "demo_net_sys net" "0x20000" demo_virtio_hw 0 "[1, 2, 3]" m' "Inr ()" tx' m''] free s net
    by (simp add: demo_net_sys_def)
  then have "reachable (net_step demo_virtio_hw 0) (demo_net_sys net) ?t" by simp
  from transmit_exact [OF fresh this, THEN conjunct1] have "\<exists>tx''. tx_reap tx' = returns tx'' \<and> tx_inflight tx'' = 1"
    by (auto simp: demo_net_sys_def)
  then show ?thesis using n(1) s by blast
qed

text \<open>The device fetches the first receive buffer and stores a packet whose frame is 9, 8 in it.\<close>

theorem receive_exact_witness:
  "\<exists>net fa' m' i n net' rx' m''. demo_net_new = Inr (net, fa', m') \<and>
    net_receive (net\<lparr>vn_rx := rx_dma 0 (avail_ring (rx_queue (vn_rx net)) ! 0) (replicate 12 0 @ [9, 8]) (vn_rx net)\<rparr>) = returns (Some (i, n), net') \<and>
    rx_consume demo_virtio_hw 0 i n (vn_rx net') m' = Inr ([9, 8], rx', m'')"
proof -
  obtain net fa' m' where n: "demo_net_new = Inr (net, fa', m')" "avail_idx (rx_queue (vn_rx net)) = 16" using demo_net_ok by blast
  let ?s = "demo_net_sys net" and ?h = "avail_ring (rx_queue (vn_rx net)) ! 0" and ?p = "replicate 12 0 @ [9, 8] :: u8 list"
  let ?t = "?s\<lparr>nt_rx_avail := 1, nt_rx_taken := [?h]\<rparr>"
  let ?u = "?t\<lparr>nt_rx_taken := [], nt_net := net\<lparr>vn_rx := rx_dma 0 ?h ?p (vn_rx net)\<rparr>, nt_arrived := [[9, 8]]\<rparr>"
  have "net_step demo_virtio_hw 0 ?s ?t"
    using device_rx_fetch [of "rx_queue (vn_rx net)" ?s demo_virtio_hw 0] n(2) by (simp add: demo_net_sys_def)
  moreover have "net_step demo_virtio_hw 0 ?t ?u"
    using device_rx_complete [of ?t "[]" ?h "[]" ?p demo_virtio_hw 0]
    by (simp add: demo_net_sys_def NET_HDR_LEN_def RX_BUFFER_LEN_def MTU_def)
  ultimately have "reachable (net_step demo_virtio_hw 0) ?s ?u" by (meson converse_rtranclp_into_rtranclp rtranclp.rtrancl_refl)
  from receive_exact [OF demo_net_fresh [OF n(1)] this]
  obtain tok net' where t: "net_receive (net\<lparr>vn_rx := rx_dma 0 ?h ?p (vn_rx net)\<rparr>) = returns (tok, net')"
    "case tok of None \<Rightarrow> False | Some (i, n) \<Rightarrow> \<forall>m. \<exists>rx' m'. rx_consume demo_virtio_hw 0 i n (vn_rx net') m = Inr ([9, 8], rx', m')"
    by (auto simp: demo_net_sys_def split: option.splits)
  then show ?thesis using n(1) by (cases tok) (auto, metis)
qed

theorem net_bring_up_order_witness:
  "\<exists>net fa' m'. demo_net_new = Inr (net, fa', m') \<and> desc_phys (tx_queue (vn_tx net)) = 0x5000 \<and>
    last (vm_log m') = CC_write 0x1014 8 15"
proof -
  obtain net fa' m' where n: "demo_net_new = Inr (net, fa', m')" using demo_net_ok by blast
  from net_bring_up_order [OF this [unfolded demo_net_new_def]] show ?thesis
    by (intro exI [of _ net] exI [of _ fa'] exI [of _ m']) (auto simp: n demo_virtio_device_def)
qed

end
