(* ===== verification/Apic.thy ===== *)
theory Apic
  imports Sched Idt
begin

unbundle bit_operations_syntax

text \<open>
  The local APIC, arsenal-kernel/src/apic.rs: discovery and software enable, the calibration of
  its timer against channel 2 of the PIT, the periodic tick, and the interrupt handlers that use
  it; and the start of the other processors, arsenal-kernel/src/smp.rs. The chips are a parameter, a record
  of what their ports and registers do. Every access goes into a log, with the call of
  paging::map\_mmio. The value of the APIC base register, which the x86\_64 crate decodes, is an argument.
\<close>

section \<open>Model\<close>

definition LAPIC_REG_ID :: u32 where "LAPIC_REG_ID = 0x20"
definition LAPIC_REG_VERSION :: u32 where "LAPIC_REG_VERSION = 0x30"
definition LAPIC_REG_EOI :: u32 where "LAPIC_REG_EOI = 0xB0"
definition LAPIC_REG_SVR :: u32 where "LAPIC_REG_SVR = 0xF0"
definition LAPIC_REG_LVT_TIMER :: u32 where "LAPIC_REG_LVT_TIMER = 0x320"
definition LAPIC_REG_TIMER_INITIAL_COUNT :: u32 where "LAPIC_REG_TIMER_INITIAL_COUNT = 0x380"
definition LAPIC_REG_TIMER_CURRENT_COUNT :: u32 where "LAPIC_REG_TIMER_CURRENT_COUNT = 0x390"
definition LAPIC_REG_TIMER_DIVIDE :: u32 where "LAPIC_REG_TIMER_DIVIDE = 0x3E0"
definition LAPIC_SVR_ENABLE :: u32 where "LAPIC_SVR_ENABLE = push_bit 8 1"
definition LVT_MASKED :: u32 where "LVT_MASKED = push_bit 16 1"
definition LVT_TIMER_PERIODIC :: u32 where "LVT_TIMER_PERIODIC = push_bit 17 1"
definition LAPIC_TIMER_DIVIDE_16 :: u32 where "LAPIC_TIMER_DIVIDE_16 = 3"
definition PIT_CH2_DATA :: u16 where "PIT_CH2_DATA = 0x42"
definition PIT_COMMAND :: u16 where "PIT_COMMAND = 0x43"
definition PIT_CONTROL_B :: u16 where "PIT_CONTROL_B = 0x61"
definition PIT_CH2_GATE_BIT :: u8 where "PIT_CH2_GATE_BIT = push_bit 0 1"
definition PIT_SPEAKER_BIT :: u8 where "PIT_SPEAKER_BIT = push_bit 1 1"
definition PIT_CH2_OUT_BIT :: u8 where "PIT_CH2_OUT_BIT = push_bit 5 1"
definition PIT_FREQ_HZ :: u32 where "PIT_FREQ_HZ = 1193182"
definition CALIBRATION_MS :: u32 where "CALIBRATION_MS = 10"
definition CALIBRATION_PIT_COUNT :: u16 where "CALIBRATION_PIT_COUNT = ucast ((PIT_FREQ_HZ * CALIBRATION_MS) div 1000)"
definition TIMER_HZ :: u32 where "TIMER_HZ = 100"
definition PIC1_DATA :: u16 where "PIC1_DATA = 0x21"
definition PIC2_DATA :: u16 where "PIC2_DATA = 0xA1"
definition TIMER_OK_THRESHOLD :: usize where "TIMER_OK_THRESHOLD = 10"

record 'd apic_hw =
  ah_in :: "u16 \<Rightarrow> 'd \<Rightarrow> u8 \<times> 'd"
  ah_out :: "u16 \<Rightarrow> u8 \<Rightarrow> 'd \<Rightarrow> 'd"
  ah_read :: "u64 \<Rightarrow> 'd \<Rightarrow> u32 \<times> 'd"
  ah_write :: "u64 \<Rightarrow> u32 \<Rightarrow> 'd \<Rightarrow> 'd"

datatype apic_io =
    Port_in u16 u8
  | Port_out u16 u8
  | Lapic_read u64 u32
  | Lapic_write u64 u32
  | Map_mmio u64 u64

text \<open>The statics of apic.rs beside the chips and the log.\<close>

record 'd apic_m =
  am_dev :: 'd
  am_log :: "apic_io list"
  LAPIC_BASE :: u64
  LAPIC_VERSION :: u32
  LAPIC_ID :: u32

definition outb :: "'d apic_hw \<Rightarrow> u16 \<Rightarrow> u8 \<Rightarrow> 'd apic_m \<Rightarrow> 'd apic_m" where
  "outb H port val m = m\<lparr>am_dev := ah_out H port val (am_dev m), am_log := am_log m @ [Port_out port val]\<rparr>"

definition inb :: "'d apic_hw \<Rightarrow> u16 \<Rightarrow> 'd apic_m \<Rightarrow> u8 \<times> 'd apic_m" where
  "inb H port m = (let (v, d) = ah_in H port (am_dev m) in (v, m\<lparr>am_dev := d, am_log := am_log m @ [Port_in port v]\<rparr>))"

definition lapic_reg :: "u64 \<Rightarrow> u32 \<Rightarrow> 'd apic_m \<Rightarrow> u64 outcome" where
  "lapic_reg hhdm reg m =
     (let bs = LAPIC_BASE m in and_then (rust_assert (bs \<noteq> 0)) (\<lambda>_. Inr (bs + hhdm + ucast reg)))"

definition lapic_read :: "'d apic_hw \<Rightarrow> u64 \<Rightarrow> u32 \<Rightarrow> 'd apic_m \<Rightarrow> (u32 \<times> 'd apic_m) outcome" where
  "lapic_read H hhdm reg m =
     and_then (lapic_reg hhdm reg m) (\<lambda>a.
       let (v, d) = ah_read H a (am_dev m) in Inr (v, m\<lparr>am_dev := d, am_log := am_log m @ [Lapic_read a v]\<rparr>))"

definition lapic_write :: "'d apic_hw \<Rightarrow> u64 \<Rightarrow> u32 \<Rightarrow> u32 \<Rightarrow> 'd apic_m \<Rightarrow> 'd apic_m outcome" where
  "lapic_write H hhdm reg val m =
     and_then (lapic_reg hhdm reg m) (\<lambda>a.
       Inr (m\<lparr>am_dev := ah_write H a val (am_dev m), am_log := am_log m @ [Lapic_write a val]\<rparr>))"

definition send_eoi :: "'d apic_hw \<Rightarrow> u64 \<Rightarrow> 'd apic_m \<Rightarrow> 'd apic_m outcome" where
  "send_eoi H hhdm m = lapic_write H hhdm LAPIC_REG_EOI 0 m"

text \<open>The poll of the PIT's output, which the code does not bound.\<close>

partial_function (option) pit_wait :: "'d apic_hw \<Rightarrow> 'd apic_m \<Rightarrow> 'd apic_m option" where
  "pit_wait H m = (case inb H PIT_CONTROL_B m of (v, m') \<Rightarrow> if v AND PIT_CH2_OUT_BIT = 0 then pit_wait H m' else Some m')"

definition pit_program :: "'d apic_hw \<Rightarrow> 'd apic_m \<Rightarrow> u8 \<times> 'd apic_m" where
  "pit_program H m =
     (let (v, m) = inb H PIT_CONTROL_B m;
          port_61_base = v AND NOT (PIT_CH2_GATE_BIT OR PIT_SPEAKER_BIT);
          m = outb H PIT_CONTROL_B port_61_base m;
          m = outb H PIT_COMMAND 0xB0 m;
          m = outb H PIT_CH2_DATA (ucast (CALIBRATION_PIT_COUNT AND 0xFF)) m;
          m = outb H PIT_CH2_DATA (ucast (drop_bit 8 CALIBRATION_PIT_COUNT)) m
      in (port_61_base, m))"

definition calibrate_lapic_timer :: "'d apic_hw \<Rightarrow> u64 \<Rightarrow> 'd apic_m \<Rightarrow> (u32 \<times> 'd apic_m) run" where
  "calibrate_lapic_timer H hhdm m =
     (let (port_61_base, m) = pit_program H m in
      run_then (Some (lapic_write H hhdm LAPIC_REG_TIMER_DIVIDE LAPIC_TIMER_DIVIDE_16 m)) (\<lambda>m.
      run_then (Some (lapic_write H hhdm LAPIC_REG_LVT_TIMER (LVT_MASKED OR ucast TIMER_VECTOR) m)) (\<lambda>m.
      let m = outb H PIT_CONTROL_B (port_61_base OR PIT_CH2_GATE_BIT) m in
      run_then (Some (lapic_write H hhdm LAPIC_REG_TIMER_INITIAL_COUNT 0xFFFFFFFF m)) (\<lambda>m.
      case pit_wait H m of None \<Rightarrow> None
      | Some m \<Rightarrow>
          run_then (Some (lapic_read H hhdm LAPIC_REG_TIMER_CURRENT_COUNT m)) (\<lambda>(cur, m).
          let elapsed = 0xFFFFFFFF - cur in
          run_then (Some (lapic_write H hhdm LAPIC_REG_TIMER_INITIAL_COUNT 0 m)) (\<lambda>m.
          returns (elapsed, outb H PIT_CONTROL_B port_61_base m)))))))"

definition arm_periodic :: "'d apic_hw \<Rightarrow> u64 \<Rightarrow> u32 \<Rightarrow> 'd apic_m \<Rightarrow> 'd apic_m outcome" where
  "arm_periodic H hhdm initial_count m =
     and_then (lapic_write H hhdm LAPIC_REG_TIMER_DIVIDE LAPIC_TIMER_DIVIDE_16 m) (\<lambda>m.
     and_then (lapic_write H hhdm LAPIC_REG_LVT_TIMER (LVT_TIMER_PERIODIC OR ucast TIMER_VECTOR) m) (\<lambda>m.
     lapic_write H hhdm LAPIC_REG_TIMER_INITIAL_COUNT initial_count m))"

definition mask_8259 :: "'d apic_hw \<Rightarrow> 'd apic_m \<Rightarrow> 'd apic_m" where
  "mask_8259 H m = outb H PIC2_DATA 0xFF (outb H PIC1_DATA 0xFF m)"

definition saturating_mul32 :: "u32 \<Rightarrow> u32 \<Rightarrow> u32" where
  "saturating_mul32 a b = (if unat a * unat b < 2 ^ 32 then a * b else 0xFFFFFFFF)"

text \<open>What ApicBase::read returns: the address of the register page and the flags of the register.\<close>

record apic_base =
  ab_phys :: u64
  ab_lapic_enable :: bool
  ab_bsp :: bool
  ab_x2apic_enable :: bool

definition timer_initial_count :: "u32 \<Rightarrow> u32" where
  "timer_initial_count lapic_ticks_per_window =
     (let period_ms = 1000 div TIMER_HZ in saturating_mul32 lapic_ticks_per_window period_ms div CALIBRATION_MS)"

definition apic_init :: "'d apic_hw \<Rightarrow> u64 \<Rightarrow> apic_base \<Rightarrow> 'd apic_m \<Rightarrow> 'd apic_m run" where
  "apic_init H hhdm ab m =
     (let m = mask_8259 H m; phys = ab_phys ab in
      run_then (Some (rust_assert (ab_lapic_enable ab))) (\<lambda>_.
      run_then (Some (rust_assert (ab_bsp ab))) (\<lambda>_.
      run_then (Some (rust_assert (\<not> ab_x2apic_enable ab))) (\<lambda>_.
      let m = m\<lparr>am_log := am_log m @ [Map_mmio phys 0x1000]\<rparr>;
          m = m\<lparr>LAPIC_BASE := phys\<rparr> in
      run_then (Some (lapic_read H hhdm LAPIC_REG_ID m)) (\<lambda>(i, m).
      run_then (Some (lapic_read H hhdm LAPIC_REG_VERSION m)) (\<lambda>(version, m).
      let m = m\<lparr>LAPIC_VERSION := version, LAPIC_ID := drop_bit 24 i\<rparr> in
      run_then (Some (lapic_write H hhdm LAPIC_REG_SVR (LAPIC_SVR_ENABLE OR ucast SPURIOUS_VECTOR) m)) (\<lambda>m.
      run_then (calibrate_lapic_timer H hhdm m) (\<lambda>(lapic_ticks_per_window, m).
      run_then (Some (rust_assert (1000 \<le> lapic_ticks_per_window \<and> lapic_ticks_per_window \<le> 1000000000))) (\<lambda>_.
      Some (arm_periodic H hhdm (timer_initial_count lapic_ticks_per_window) m))))))))))"

definition apic_version :: "'d apic_m \<Rightarrow> u32" where "apic_version m = LAPIC_VERSION m"
definition lapic_id :: "'d apic_m \<Rightarrow> u8" where "lapic_id m = ucast (LAPIC_ID m)"

text \<open>The handlers. Spurious interrupts are logged once per core and not acknowledged.\<close>

definition spurious_handler :: "cpu_local \<Rightarrow> u32 option \<times> cpu_local" where
  "spurious_handler c = (if spurious_seen c then None else Some (cpu_id c), c\<lparr>spurious_seen := True\<rparr>)"

definition timer_handler :: "'d apic_hw \<Rightarrow> u64 \<Rightarrow> u64 \<Rightarrow> kern \<Rightarrow> 'd apic_m \<Rightarrow> (kern \<times> 'd apic_m) outcome" where
  "timer_handler H hhdm ret k m =
     (let k = k\<lparr>cpu := (cpu k)\<lparr>ticks := ticks (cpu k) + 1\<rparr>\<rparr> in
      and_then (send_eoi H hhdm m) (\<lambda>m.
      and_then (preempt ret k) (\<lambda>k. Inr (k, m))))"

text \<open>The probe of the idle loop: whether it prints the sentinel, and the latch.\<close>

definition observe_timer_ok :: "cpu_local \<Rightarrow> bool \<Rightarrow> bool \<times> bool" where
  "observe_timer_ok c latched = (if ticks c \<ge> TIMER_OK_THRESHOLD then (\<not> latched, True) else (False, latched))"

section \<open>The other processors\<close>

text \<open>The index of the slot that current\_cpu dereferences.\<close>

definition current_slot :: "(nat \<Rightarrow> u64) \<Rightarrow> cpus \<Rightarrow> nat outcome" where
  "current_slot slot_addr c =
     (case slot_at slot_addr (gs_base c) of
        None \<Rightarrow> Inl Undefined
      | Some i \<Rightarrow> (case slot_at slot_addr (self_ptr (slots c ! i)) of None \<Rightarrow> Inl Undefined | Some j \<Rightarrow> Inr j))"

definition ap_init :: "'d apic_hw \<Rightarrow> u64 \<Rightarrow> (nat \<Rightarrow> u64) \<Rightarrow> cpus \<Rightarrow> 'd apic_m \<Rightarrow> (cpus \<times> 'd apic_m) outcome" where
  "ap_init H hhdm slot_addr c m =
     and_then (lapic_write H hhdm LAPIC_REG_SVR (LAPIC_SVR_ENABLE OR ucast SPURIOUS_VECTOR) m) (\<lambda>m.
     and_then (lapic_read H hhdm LAPIC_REG_ID m) (\<lambda>(i, m).
     and_then (current_slot slot_addr c) (\<lambda>j.
     Inr (c\<lparr>slots := (slots c)[j := (slots c ! j)\<lparr>apic_id := drop_bit 24 i\<rparr>]\<rparr>, m))))"

text \<open>The structure through which the boot loader starts a processor.\<close>

record mp_cpu =
  mp_lapic_id :: u32
  mp_extra :: u64
  mp_goto :: bool

text \<open>ap\_entry up to the count: the page tables and the interrupt table it loads are shared and not part of the state.\<close>

definition ap_entry :: "'d apic_hw \<Rightarrow> u64 \<Rightarrow> (nat \<Rightarrow> u64) \<Rightarrow> mp_cpu \<Rightarrow> cpus \<Rightarrow> 'd apic_m \<Rightarrow> (cpus \<times> 'd apic_m) outcome" where
  "ap_entry H hhdm slot_addr p c m =
     (let slot = ucast (mp_extra p); ap = mp_lapic_id p in
      and_then (init_ap slot_addr slot ap c) (\<lambda>c. ap_init H hhdm slot_addr c m))"

text \<open>One round of the loop of init; the loop's locals are the next slot and the number launched.\<close>

definition launch_one :: "u32 \<Rightarrow> nat \<Rightarrow> u32 \<times> u32 \<times> mp_cpu list \<Rightarrow> u32 \<times> u32 \<times> mp_cpu list" where
  "launch_one bsp_lapic_id i = (\<lambda>(next_slot, launched, cs).
     let p = cs ! i in
     if mp_lapic_id p = bsp_lapic_id then (next_slot, launched, cs)
     else if unat next_slot \<ge> MAX_CPUS then (next_slot, launched, cs)
     else (next_slot + 1, launched + 1, cs[i := p\<lparr>mp_extra := ucast next_slot, mp_goto := True\<rparr>]))"

text \<open>
  The boot processor and the others together. Every processor has its own GS base and APIC;
  the slots and the online count are shared. A processor whose entry address is written runs
  ap\_entry, and then counts itself, at any time.
\<close>

record 'd smp_sys =
  sm_cpus :: "mp_cpu list"
  sm_pos :: nat
  sm_next :: u32
  sm_launched :: u32
  sm_slots :: "cpu_local list"
  sm_gs :: "nat \<Rightarrow> u64"
  sm_lapic :: "nat \<Rightarrow> 'd apic_m"
  sm_ready :: "nat set"
  sm_counted :: "nat set"
  AP_ONLINE_COUNT :: u32

inductive smp_step :: "(nat \<Rightarrow> 'd apic_hw) \<Rightarrow> u64 \<Rightarrow> (nat \<Rightarrow> u64) \<Rightarrow> u32 \<Rightarrow> 'd smp_sys \<Rightarrow> 'd smp_sys \<Rightarrow> bool"
  for H hhdm slot_addr bsp where
  bsp_round: "sm_pos s < length (sm_cpus s) \<Longrightarrow>
    launch_one bsp (sm_pos s) (sm_next s, sm_launched s, sm_cpus s) = (n, l, cs) \<Longrightarrow>
    smp_step H hhdm slot_addr bsp s (s\<lparr>sm_pos := sm_pos s + 1, sm_next := n, sm_launched := l, sm_cpus := cs\<rparr>)"
| ap_runs: "i < length (sm_cpus s) \<Longrightarrow> mp_goto (sm_cpus s ! i) \<Longrightarrow> i \<notin> sm_ready s \<Longrightarrow>
    ap_entry (H i) hhdm slot_addr (sm_cpus s ! i) \<lparr>slots = sm_slots s, gs_base = sm_gs s i\<rparr> (sm_lapic s i) = Inr (c, m) \<Longrightarrow>
    smp_step H hhdm slot_addr bsp s (s\<lparr>sm_slots := slots c, sm_gs := (sm_gs s)(i := gs_base c), sm_lapic := (sm_lapic s)(i := m),
      sm_ready := insert i (sm_ready s)\<rparr>)"
| ap_counts: "i \<in> sm_ready s \<Longrightarrow> i \<notin> sm_counted s \<Longrightarrow>
    smp_step H hhdm slot_addr bsp s (s\<lparr>sm_counted := insert i (sm_counted s), AP_ONLINE_COUNT := AP_ONLINE_COUNT s + 1\<rparr>)"

text \<open>The condition under which init stops waiting and returns.\<close>

definition smp_done :: "'d smp_sys \<Rightarrow> bool" where
  "smp_done s \<longleftrightarrow> sm_pos s = length (sm_cpus s) \<and> \<not> AP_ONLINE_COUNT s < sm_launched s"

section \<open>The bring-up\<close>

lemmas apic_regs = LAPIC_REG_ID_def LAPIC_REG_VERSION_def LAPIC_REG_EOI_def LAPIC_REG_SVR_def LAPIC_REG_LVT_TIMER_def
  LAPIC_REG_TIMER_INITIAL_COUNT_def LAPIC_REG_TIMER_CURRENT_COUNT_def LAPIC_REG_TIMER_DIVIDE_def
  LAPIC_SVR_ENABLE_def LVT_MASKED_def LVT_TIMER_PERIODIC_def LAPIC_TIMER_DIVIDE_16_def TIMER_VECTOR_def SPURIOUS_VECTOR_def

lemmas pit_regs = PIT_CH2_DATA_def PIT_COMMAND_def PIT_CONTROL_B_def PIT_CH2_GATE_BIT_def PIT_SPEAKER_BIT_def PIT_CH2_OUT_BIT_def
  PIC1_DATA_def PIC2_DATA_def

definition same_statics :: "'d apic_m \<Rightarrow> 'd apic_m \<Rightarrow> bool" where
  "same_statics m m' \<longleftrightarrow> LAPIC_BASE m' = LAPIC_BASE m \<and> LAPIC_VERSION m' = LAPIC_VERSION m \<and> LAPIC_ID m' = LAPIC_ID m"

lemma lapic_write_log:
  "lapic_write H hhdm reg val m = Inr m' \<Longrightarrow> LAPIC_BASE m \<noteq> 0 \<and> same_statics m m' \<and>
     am_log m' = am_log m @ [Lapic_write (LAPIC_BASE m + hhdm + ucast reg) val]"
  by (auto simp: lapic_write_def lapic_reg_def and_then_eq_Inr Let_def same_statics_def)

lemma lapic_read_log:
  "lapic_read H hhdm reg m = Inr (v, m') \<Longrightarrow> same_statics m m' \<and>
     am_log m' = am_log m @ [Lapic_read (LAPIC_BASE m + hhdm + ucast reg) v]"
  by (auto simp: lapic_read_def lapic_reg_def and_then_eq_Inr Let_def same_statics_def split: prod.splits)

lemma outb_log [simp]:
  "am_log (outb H p v m) = am_log m @ [Port_out p v]" "LAPIC_BASE (outb H p v m) = LAPIC_BASE m" "same_statics m (outb H p v m)"
  by (simp_all add: outb_def same_statics_def)

lemma inb_log: "inb H p m = (v, m') \<Longrightarrow> am_log m' = am_log m @ [Port_in p v] \<and> same_statics m m'"
  by (auto simp: inb_def Let_def same_statics_def split: prod.splits)

lemma same_statics_trans: "same_statics a b \<Longrightarrow> same_statics b c \<Longrightarrow> same_statics a c"
  by (simp add: same_statics_def)

lemma same_base: "same_statics m m' \<Longrightarrow> LAPIC_BASE m' = LAPIC_BASE m"
  by (simp add: same_statics_def)

lemma pit_wait_log:
  assumes "pit_wait H m = Some m'"
  shows "\<exists>vs v. am_log m' = am_log m @ map (Port_in 0x61) (vs @ [v]) \<and> (\<forall>w \<in> set vs. w AND 0x20 = 0) \<and> v AND 0x20 \<noteq> 0 \<and>
    same_statics m m'"
  using assms
proof (induction rule: pit_wait.raw_induct [rotated 1, consumes 1])
  case (1 pw H m m')
  obtain v m1 where i: "inb H PIT_CONTROL_B m = (v, m1)" by force
  note l = inb_log [OF i]
  show ?case
  proof (cases "v AND PIT_CH2_OUT_BIT = 0")
    case True
    then have "pw H m1 = Some m'" using 1(2) i by simp
    from 1(1) [OF this] obtain vs w where "am_log m' = am_log m1 @ map (Port_in 0x61) (vs @ [w])" "\<forall>w \<in> set vs. w AND 0x20 = 0"
      "w AND 0x20 \<noteq> 0" "same_statics m1 m'" by blast
    then show ?thesis using l True
      by (intro exI [of _ "v # vs"] exI [of _ w]) (auto simp: pit_regs same_statics_def)
  next
    case False
    then show ?thesis using 1(2) i l by (intro exI [of _ "[]"] exI [of _ v]) (auto simp: pit_regs)
  qed
qed

text \<open>The accesses of the PIT programming and of a whole calibration.\<close>

definition calibration_log :: "u64 \<Rightarrow> u8 \<Rightarrow> u8 list \<Rightarrow> u8 \<Rightarrow> u32 \<Rightarrow> apic_io list" where
  "calibration_log lapic v polls out cur =
     (let rest = v AND 0xFC in
      [Port_in 0x61 v, Port_out 0x61 rest, Port_out 0x43 0xB0, Port_out 0x42 0x9B, Port_out 0x42 0x2E,
       Lapic_write (lapic + 0x3E0) 3, Lapic_write (lapic + 0x320) 0x100EF,
       Port_out 0x61 (rest OR 1), Lapic_write (lapic + 0x380) 0xFFFFFFFF] @
      map (Port_in 0x61) (polls @ [out]) @
      [Lapic_read (lapic + 0x390) cur, Lapic_write (lapic + 0x380) 0, Port_out 0x61 rest])"

lemma pit_count: "(CALIBRATION_PIT_COUNT :: u16) = 0x2E9B"
  by (simp add: CALIBRATION_PIT_COUNT_def PIT_FREQ_HZ_def CALIBRATION_MS_def)

lemma calibrate_log:
  assumes "calibrate_lapic_timer H hhdm m = returns (e, m')"
  shows "\<exists>v polls out cur. am_log m' = am_log m @ calibration_log (LAPIC_BASE m + hhdm) v polls out cur \<and>
    (\<forall>w \<in> set polls. w AND 0x20 = 0) \<and> out AND 0x20 \<noteq> 0 \<and> e = 0xFFFFFFFF - cur \<and> same_statics m m' \<and> LAPIC_BASE m \<noteq> 0"
proof -
  obtain b m1 where p: "pit_program H m = (b, m1)" by force
  obtain v m0 where i: "inb H PIT_CONTROL_B m = (v, m0)" by force
  have nots: "NOT (PIT_CH2_GATE_BIT OR PIT_SPEAKER_BIT) = (0xFC :: u8)" by (simp add: pit_regs)
  have bm: "b = v AND 0xFC" "am_log m1 = am_log m @ [Port_in 0x61 v, Port_out 0x61 b, Port_out 0x43 0xB0, Port_out 0x42 0x9B, Port_out 0x42 0x2E]"
    "same_statics m m1"
    using p i inb_log [OF i] unfolding pit_program_def pit_count nots by (auto simp: Let_def pit_regs outb_def same_statics_def)
  obtain m2 m3 m4 m5 m6 c m7 where
    s: "lapic_write H hhdm LAPIC_REG_TIMER_DIVIDE LAPIC_TIMER_DIVIDE_16 m1 = Inr m2"
      "lapic_write H hhdm LAPIC_REG_LVT_TIMER (LVT_MASKED OR ucast TIMER_VECTOR) m2 = Inr m3"
      "lapic_write H hhdm LAPIC_REG_TIMER_INITIAL_COUNT 0xFFFFFFFF (outb H PIT_CONTROL_B (b OR PIT_CH2_GATE_BIT) m3) = Inr m4"
      "pit_wait H m4 = Some m5" "lapic_read H hhdm LAPIC_REG_TIMER_CURRENT_COUNT m5 = Inr (c, m6)"
      "lapic_write H hhdm LAPIC_REG_TIMER_INITIAL_COUNT 0 m6 = Inr m7"
    and r: "e = 0xFFFFFFFF - c" "m' = outb H PIT_CONTROL_B b m7"
    using assms p by (auto simp: calibrate_lapic_timer_def run_then_eq_ret Let_def split: option.splits)
  obtain polls out where w: "am_log m5 = am_log m4 @ map (Port_in 0x61) (polls @ [out])" "\<forall>w \<in> set polls. w AND 0x20 = 0"
    "out AND 0x20 \<noteq> 0" "same_statics m4 m5" using pit_wait_log [OF s(4)] by blast
  note l = lapic_write_log [OF s(1)] lapic_write_log [OF s(2)] lapic_write_log [OF s(3)] lapic_read_log [OF s(5)] lapic_write_log [OF s(6)]
  have st: "same_statics m m'" using bm(3) l w(4) r(2) by (auto simp: same_statics_def outb_def)
  have base: "LAPIC_BASE m1 = LAPIC_BASE m" "LAPIC_BASE m2 = LAPIC_BASE m" "LAPIC_BASE m3 = LAPIC_BASE m" "LAPIC_BASE m4 = LAPIC_BASE m"
    "LAPIC_BASE m5 = LAPIC_BASE m" "LAPIC_BASE m6 = LAPIC_BASE m" using bm(3) l w(4) by (auto simp: same_statics_def outb_def)
  have "am_log m' = am_log m @ calibration_log (LAPIC_BASE m + hhdm) v polls out c"
    using l w(1) bm base r(2) by (simp add: calibration_log_def Let_def apic_regs pit_regs)
  then show ?thesis using w(2,3) r(1) st l(1) base(1) by (intro exI [of _ v] exI [of _ polls] exI [of _ out] exI [of _ c]) auto
qed

text \<open>The count the timer is armed with: the calibrated one, unless ten times it does not fit in 32 bits.\<close>

lemma timer_initial_count_eq:
  assumes "n \<le> 1000000000"
  shows "timer_initial_count n = (if n \<le> 429496729 then n else 429496729)"
proof -
  have p: "(1000 :: u32) div TIMER_HZ = 10" by (simp add: TIMER_HZ_def)
  show ?thesis
  proof (cases "n \<le> 429496729")
    case True
    then have u: "unat n * 10 < 2 ^ 32" by (simp add: word_le_nat_alt)
    then have "unat (n * 10) = unat n * 10" by (simp add: unat_word_ariths)
    then have "unat (n * 10 div 10) = unat n" by (simp add: unat_div)
    then show ?thesis using True u by (simp add: timer_initial_count_def p saturating_mul32_def CALIBRATION_MS_def)
  next
    case False
    then have "\<not> unat n * 10 < 2 ^ 32" by (simp add: word_le_nat_alt)
    then show ?thesis using False by (simp add: timer_initial_count_def p saturating_mul32_def CALIBRATION_MS_def)
  qed
qed

text \<open>
  C21. The bring-up of the interrupt controller and its timer, for every chip. If apic::init returns, its
  accesses were exactly these: both 8259s masked; the register page mapped before the first
  register access, all of which lie in that page; the APIC enabled with the spurious vector
  0xFF; the timer run masked while the PIT counts 11931 cycles with the other bits of port 0x61
  preserved and the PIT polled until its output first rises; then the timer armed as periodic with
  vector 0xEF, the divider and the entry before the count. The count is the number of ticks that elapsed,
  which is between 1000 and 10^9, as long as that is at most 429496729, and 429496729 above that,
  where the multiplication saturates.
\<close>
theorem apic_init_exact:
  assumes "apic_init H hhdm ab m = returns m'"
  shows "\<exists>i version v polls out cur.
    (let r = ab_phys ab + hhdm; elapsed = 0xFFFFFFFF - cur in
      am_log m' = am_log m @ [Port_out 0x21 0xFF, Port_out 0xA1 0xFF, Map_mmio (ab_phys ab) 0x1000,
        Lapic_read (r + 0x20) i, Lapic_read (r + 0x30) version, Lapic_write (r + 0xF0) 0x1FF] @
        calibration_log r v polls out cur @
        [Lapic_write (r + 0x3E0) 3, Lapic_write (r + 0x320) 0x200EF,
         Lapic_write (r + 0x380) (if elapsed \<le> 429496729 then elapsed else 429496729)] \<and>
      (\<forall>w \<in> set polls. w AND 0x20 = 0) \<and> out AND 0x20 \<noteq> 0 \<and> 1000 \<le> elapsed \<and> elapsed \<le> 1000000000 \<and>
      ab_lapic_enable ab \<and> ab_bsp ab \<and> \<not> ab_x2apic_enable ab \<and>
      LAPIC_BASE m' = ab_phys ab \<and> apic_version m' = version \<and> lapic_id m' = ucast (drop_bit 24 i))"
proof -
  let ?m0 = "(mask_8259 H m)\<lparr>am_log := am_log (mask_8259 H m) @ [Map_mmio (ab_phys ab) 0x1000], LAPIC_BASE := ab_phys ab\<rparr>"
  obtain i m1 version m2 m3 e m4 where
    s: "lapic_read H hhdm LAPIC_REG_ID ?m0 = Inr (i, m1)" "lapic_read H hhdm LAPIC_REG_VERSION m1 = Inr (version, m2)"
      "lapic_write H hhdm LAPIC_REG_SVR (LAPIC_SVR_ENABLE OR ucast SPURIOUS_VECTOR)
         (m2\<lparr>LAPIC_VERSION := version, LAPIC_ID := drop_bit 24 i\<rparr>) = Inr m3"
      "calibrate_lapic_timer H hhdm m3 = returns (e, m4)" "arm_periodic H hhdm (timer_initial_count e) m4 = Inr m'"
    and g: "ab_lapic_enable ab" "ab_bsp ab" "\<not> ab_x2apic_enable ab" "1000 \<le> e" "e \<le> 1000000000"
    using assms by (auto simp: apic_init_def run_then_eq_ret Let_def)
  obtain v polls out cur where c: "am_log m4 = am_log m3 @ calibration_log (LAPIC_BASE m3 + hhdm) v polls out cur"
    "\<forall>w \<in> set polls. w AND 0x20 = 0" "out AND 0x20 \<noteq> 0" "e = 0xFFFFFFFF - cur" "same_statics m3 m4"
    using calibrate_log [OF s(4)] by blast
  obtain m5 m6 where a: "lapic_write H hhdm LAPIC_REG_TIMER_DIVIDE LAPIC_TIMER_DIVIDE_16 m4 = Inr m5"
    "lapic_write H hhdm LAPIC_REG_LVT_TIMER (LVT_TIMER_PERIODIC OR ucast TIMER_VECTOR) m5 = Inr m6"
    "lapic_write H hhdm LAPIC_REG_TIMER_INITIAL_COUNT (timer_initial_count e) m6 = Inr m'"
    using s(5) by (auto simp: arm_periodic_def and_then_eq_Inr)
  note l = lapic_read_log [OF s(1)] lapic_read_log [OF s(2)] lapic_write_log [OF s(3)] lapic_write_log [OF a(1)]
    lapic_write_log [OF a(2)] lapic_write_log [OF a(3)]
  have base: "LAPIC_BASE m1 = ab_phys ab" "LAPIC_BASE m2 = ab_phys ab" "LAPIC_BASE m3 = ab_phys ab" "LAPIC_BASE m4 = ab_phys ab"
    "LAPIC_BASE m5 = ab_phys ab" "LAPIC_BASE m6 = ab_phys ab" "LAPIC_BASE m' = ab_phys ab"
    "LAPIC_VERSION m' = version" "LAPIC_ID m' = drop_bit 24 i"
    using l c(5) by (auto simp: same_statics_def)
  have "am_log m' = am_log m @ [Port_out 0x21 0xFF, Port_out 0xA1 0xFF, Map_mmio (ab_phys ab) 0x1000,
      Lapic_read (ab_phys ab + hhdm + 0x20) i, Lapic_read (ab_phys ab + hhdm + 0x30) version, Lapic_write (ab_phys ab + hhdm + 0xF0) 0x1FF] @
      calibration_log (ab_phys ab + hhdm) v polls out cur @
      [Lapic_write (ab_phys ab + hhdm + 0x3E0) 3, Lapic_write (ab_phys ab + hhdm + 0x320) 0x200EF,
       Lapic_write (ab_phys ab + hhdm + 0x380) (timer_initial_count e)]"
    using l c(1) base by (simp add: mask_8259_def outb_def apic_regs pit_regs)
  then show ?thesis
    using c(2-4) g base timer_initial_count_eq [OF g(5)] unfolding Let_def apic_version_def lapic_id_def
    by (intro exI [of _ i] exI [of _ version] exI [of _ v] exI [of _ polls] exI [of _ out] exI [of _ cur] conjI) simp_all
qed

section \<open>The tick\<close>

text \<open>
  C8. A timer interrupt, at any point of any schedule. With room for a frame on the stack and the APIC
  mapped, the handler does not fault: it counts one tick, acknowledges exactly once before anything
  else, and switches to the next task, resumed with exactly its suspended context, if and only if
  preemption is enabled, the slice of ten ticks is used up and another task is queued; otherwise
  the interrupted task goes on. The scheduler's invariants hold afterwards.
\<close>
theorem timer_tick:
  assumes "sched_boot s\<^sub>0" "reachable sched_step s\<^sub>0 (k, g)" "room 64 (cur_stack k) (mach k)" "LAPIC_BASE m \<noteq> 0"
  shows "\<exists>k' m'. timer_handler H hhdm ret k m = Inr (k', m') \<and>
    am_log m' = am_log m @ [Lapic_write (LAPIC_BASE m + hhdm + 0xB0) 0] \<and>
    (if preempt_count (cpu k) = 0 \<and> SLICE_TICKS \<le> ticks (cpu k) + 1 - last_switch_tick (cpu k) \<and> runqueue (cpu k) \<noteq> []
     then switched (k\<lparr>cpu := (cpu k)\<lparr>ticks := ticks (cpu k) + 1\<rparr>\<rparr>, g) k' else k' = k\<lparr>cpu := (cpu k)\<lparr>ticks := ticks (cpu k) + 1\<rparr>\<rparr>) \<and>
    sched_inv (k', g(current (cpu k) \<mapsto> Preempted ret (mach k)))"
proof -
  let ?k = "k\<lparr>cpu := (cpu k)\<lparr>ticks := ticks (cpu k) + 1\<rparr>\<rparr>"
  have "sched_step (k, g) (?k, g)"
    using run_task [where k = k and g = g and m = "mach k" and ti = "ticks (cpu k) + 1" and pc = "preempt_count (cpu k)"] by simp
  then have inv: "sched_inv (?k, g)" by (rule sched.reachable_inv [OF assms(1) rtranclp.rtrancl_into_rtrancl [OF assms(2)]])
  have rm: "room 64 (cur_stack ?k) (mach ?k)" using assms(3) by simp
  obtain m' where e: "send_eoi H hhdm m = Inr m'" using assms(4) by (simp add: send_eoi_def lapic_write_def lapic_reg_def Let_def)
  have log: "am_log m' = am_log m @ [Lapic_write (LAPIC_BASE m + hhdm + 0xB0) 0]"
    using lapic_write_log [OF e [unfolded send_eoi_def]] by (simp add: apic_regs)
  show ?thesis
  proof (rule preempt_cases [OF inv rm, of ret])
    assume a: "preempt_count (cpu ?k) > 0 \<or> ticks (cpu ?k) - last_switch_tick (cpu ?k) < SLICE_TICKS \<or> runqueue (cpu ?k) = []"
      "preempt ret ?k = Inr ?k"
    have "timer_handler H hhdm ret k m = Inr (?k, m')" using e a(2) by (simp add: timer_handler_def Let_def)
    moreover have "\<not> (preempt_count (cpu k) = 0 \<and> SLICE_TICKS \<le> ticks (cpu k) + 1 - last_switch_tick (cpu k) \<and> runqueue (cpu k) \<noteq> [])"
      using a(1) by (auto simp: word_gt_0 not_le)
    moreover have "sched_inv (?k, g(current (cpu k) \<mapsto> Preempted ret (mach k)))" using hist_current_inv [OF inv] by simp
    ultimately show ?thesis using log by (intro exI [of _ ?k] exI [of _ m'] conjI) (simp_all only: if_not_P if_False simp_thms)
  next
    fix k' assume a: "preempt_count (cpu ?k) = 0" "ticks (cpu ?k) - last_switch_tick (cpu ?k) \<ge> SLICE_TICKS" "runqueue (cpu ?k) \<noteq> []"
      "preempt ret ?k = Inr k'" "switched (?k, g) k'" "sched_inv (k', g(current (cpu ?k) \<mapsto> Preempted ret (mach ?k)))"
    have "timer_handler H hhdm ret k m = Inr (k', m')" using e a(4) by (simp add: timer_handler_def Let_def)
    moreover have "preempt_count (cpu k) = 0 \<and> SLICE_TICKS \<le> ticks (cpu k) + 1 - last_switch_tick (cpu k) \<and> runqueue (cpu k) \<noteq> []"
      using a(1-3) by simp
    moreover have "sched_inv (k', g(current (cpu k) \<mapsto> Preempted ret (mach k)))" using a(6) by simp
    ultimately show ?thesis using log a(5) by (intro exI [of _ k'] exI [of _ m'] conjI) (simp_all only: if_P if_True simp_thms)
  qed
qed

section \<open>Slots of the processors\<close>

text \<open>The processors launched after the first so many reports: the first 63 that are not the boot processor.\<close>

definition launched :: "u32 \<Rightarrow> mp_cpu list \<Rightarrow> nat \<Rightarrow> nat list" where
  "launched bsp cs n = take 63 (filter (\<lambda>i. mp_lapic_id (cs ! i) \<noteq> bsp) [0..<n])"

definition slot_ready :: "(nat \<Rightarrow> u64) \<Rightarrow> u32 list \<Rightarrow> cpu_local list \<Rightarrow> (nat \<Rightarrow> u64) \<Rightarrow> nat \<Rightarrow> nat \<Rightarrow> bool" where
  "slot_ready slot_addr ids sl gs i j \<longleftrightarrow>
     self_ptr (sl ! (j + 1)) = slot_addr (j + 1) \<and> cpu_id (sl ! (j + 1)) = of_nat (j + 1) \<and>
     apic_id (sl ! (j + 1)) = ids ! i \<and> gs i = slot_addr (j + 1)"

definition smp_inv :: "(nat \<Rightarrow> u64) \<Rightarrow> u32 \<Rightarrow> u64 \<Rightarrow> u32 list \<Rightarrow> cpu_local \<Rightarrow> 'd smp_sys \<Rightarrow> bool" where
  "smp_inv slot_addr bsp bs ids slot0 s \<longleftrightarrow>
     (let L = launched bsp (sm_cpus s) (sm_pos s) in
      map mp_lapic_id (sm_cpus s) = ids \<and> sm_pos s \<le> length (sm_cpus s) \<and>
      sm_next s = of_nat (length L + 1) \<and> sm_launched s = of_nat (length L) \<and>
      (\<forall>i < length (sm_cpus s). mp_goto (sm_cpus s ! i) \<longleftrightarrow> i \<in> set L) \<and>
      (\<forall>j < length L. mp_extra (sm_cpus s ! (L ! j)) = of_nat (j + 1)) \<and>
      length (sm_slots s) = MAX_CPUS \<and> sm_slots s ! 0 = slot0 \<and> (\<forall>j < MAX_CPUS. cpu_id (sm_slots s ! j) = of_nat j) \<and>
      sm_ready s \<subseteq> set L \<and> (\<forall>j < length L. L ! j \<in> sm_ready s \<longrightarrow> slot_ready slot_addr ids (sm_slots s) (sm_gs s) (L ! j) j) \<and>
      sm_counted s \<subseteq> sm_ready s \<and> AP_ONLINE_COUNT s = of_nat (card (sm_counted s)) \<and>
      (\<forall>i. LAPIC_BASE (sm_lapic s i) = bs))"

text \<open>
  The hardware the start relies on: the slots have addresses of their own, the register page was mapped by
  the boot processor, and the APIC of a processor reports, in the top byte of its register, the identifier that
  the boot loader reported.
\<close>

definition smp_hw :: "(nat \<Rightarrow> 'd apic_hw) \<Rightarrow> u64 \<Rightarrow> (nat \<Rightarrow> u64) \<Rightarrow> u64 \<Rightarrow> u32 list \<Rightarrow> bool" where
  "smp_hw H hhdm slot_addr bs ids \<longleftrightarrow> inj_on slot_addr {..<MAX_CPUS} \<and> bs \<noteq> 0 \<and>
     (\<forall>i < length ids. \<forall>d. drop_bit 24 (fst (ah_read (H i) (bs + hhdm + 0x20) d)) = ids ! i)"

lemma ap_entry_eq:
  assumes hw: "inj_on slot_addr {..<MAX_CPUS}" "n < MAX_CPUS" "mp_extra p = of_nat n" "length sl = MAX_CPUS"
    and lapic: "LAPIC_BASE m = bs" "bs \<noteq> 0" "\<And>d. drop_bit 24 (fst (ah_read H (bs + hhdm + 0x20) d)) = mp_lapic_id p"
  obtains m' where "ap_entry H hhdm slot_addr p \<lparr>slots = sl, gs_base = g\<rparr> m =
      Inr (\<lparr>slots = sl[n := (sl ! n)\<lparr>self_ptr := slot_addr n, apic_id := mp_lapic_id p\<rparr>], gs_base = slot_addr n\<rparr>, m')" "LAPIC_BASE m' = bs"
proof -
  have n: "n < 64" using hw(2) by (simp add: MAX_CPUS_def)
  have u: "unat (ucast (mp_extra p) :: u32) = n" using n unfolding hw(3) by (simp add: unsigned_ucast_eq unat_of_nat take_bit_nat_eq_self)
  let ?sl = "sl[n := (sl ! n)\<lparr>self_ptr := slot_addr n, apic_id := mp_lapic_id p\<rparr>]"
  have init: "init_ap slot_addr (ucast (mp_extra p)) (mp_lapic_id p) \<lparr>slots = sl, gs_base = g\<rparr> = Inr \<lparr>slots = ?sl, gs_base = slot_addr n\<rparr>"
    using hw(2,4) u by (simp add: init_ap_def init_slot_def Let_def wrmsr_gs_eq)
  have cur: "current_slot slot_addr \<lparr>slots = ?sl, gs_base = slot_addr n\<rparr> = Inr n"
    using slot_at_own [OF hw(1,2)] hw(2,4) by (simp add: current_slot_def)
  obtain m1 where w: "lapic_write H hhdm LAPIC_REG_SVR (LAPIC_SVR_ENABLE OR ucast SPURIOUS_VECTOR) m = Inr m1" "LAPIC_BASE m1 = bs"
    using lapic by (simp add: lapic_write_def lapic_reg_def Let_def)
  obtain v m2 where r: "lapic_read H hhdm LAPIC_REG_ID m1 = Inr (v, m2)" "LAPIC_BASE m2 = bs" "drop_bit 24 v = mp_lapic_id p"
  proof -
    obtain v d where "ah_read H (bs + hhdm + 0x20) (am_dev m1) = (v, d)" by force
    then show ?thesis using that [of v "m1\<lparr>am_dev := d, am_log := am_log m1 @ [Lapic_read (bs + hhdm + 0x20) v]\<rparr>"] w(2) lapic(2) lapic(3) [of "am_dev m1"]
      by (simp add: lapic_read_def lapic_reg_def Let_def apic_regs)
  qed
  have "ap_entry H hhdm slot_addr p \<lparr>slots = sl, gs_base = g\<rparr> m = Inr (\<lparr>slots = ?sl, gs_base = slot_addr n\<rparr>, m2)"
    using hw(2,4) by (simp add: ap_entry_def init ap_init_def w(1) r(1) cur r(3))
  then show ?thesis using that r(2) by blast
qed

lemma launched_step:
  "launched bsp cs (Suc n) = (if mp_lapic_id (cs ! n) \<noteq> bsp \<and> length (launched bsp cs n) < 63 then launched bsp cs n @ [n] else launched bsp cs n)"
  by (auto simp: launched_def)

lemma launched_props: "distinct (launched bsp cs n)" "set (launched bsp cs n) \<subseteq> {..<n}" "length (launched bsp cs n) \<le> 63"
  by (auto simp: launched_def dest: in_set_takeD intro: distinct_take)

lemma launched_cong: "map mp_lapic_id cs = map mp_lapic_id cs' \<Longrightarrow> n \<le> length cs \<Longrightarrow> launched bsp cs n = launched bsp cs' n"
  unfolding launched_def by (rule arg_cong [where f = "take 63"], rule filter_cong) (auto dest: map_eq_imp_length_eq simp: list_eq_iff_nth_eq)

lemma smp_invE:
  assumes "smp_inv slot_addr bsp bs ids slot0 s"
  obtains L where "L = launched bsp (sm_cpus s) (sm_pos s)" "map mp_lapic_id (sm_cpus s) = ids" "sm_pos s \<le> length (sm_cpus s)"
      "sm_next s = of_nat (length L + 1)" "sm_launched s = of_nat (length L)"
      "\<forall>i < length (sm_cpus s). mp_goto (sm_cpus s ! i) \<longleftrightarrow> i \<in> set L"
      "\<forall>j < length L. mp_extra (sm_cpus s ! (L ! j)) = of_nat (j + 1)"
      "length (sm_slots s) = MAX_CPUS" "sm_slots s ! 0 = slot0" "\<forall>j < MAX_CPUS. cpu_id (sm_slots s ! j) = of_nat j"
      "sm_ready s \<subseteq> set L" "\<forall>j < length L. L ! j \<in> sm_ready s \<longrightarrow> slot_ready slot_addr ids (sm_slots s) (sm_gs s) (L ! j) j"
      "sm_counted s \<subseteq> sm_ready s" "AP_ONLINE_COUNT s = of_nat (card (sm_counted s))" "\<forall>i. LAPIC_BASE (sm_lapic s i) = bs"
  using assms unfolding smp_inv_def Let_def by blast

lemma smp_invI:
  assumes "L = launched bsp (sm_cpus s) (sm_pos s)" "map mp_lapic_id (sm_cpus s) = ids" "sm_pos s \<le> length (sm_cpus s)"
      "sm_next s = of_nat (length L + 1)" "sm_launched s = of_nat (length L)"
      "\<forall>i < length (sm_cpus s). mp_goto (sm_cpus s ! i) \<longleftrightarrow> i \<in> set L"
      "\<forall>j < length L. mp_extra (sm_cpus s ! (L ! j)) = of_nat (j + 1)"
      "length (sm_slots s) = MAX_CPUS" "sm_slots s ! 0 = slot0" "\<forall>j < MAX_CPUS. cpu_id (sm_slots s ! j) = of_nat j"
      "sm_ready s \<subseteq> set L" "\<forall>j < length L. L ! j \<in> sm_ready s \<longrightarrow> slot_ready slot_addr ids (sm_slots s) (sm_gs s) (L ! j) j"
      "sm_counted s \<subseteq> sm_ready s" "AP_ONLINE_COUNT s = of_nat (card (sm_counted s))" "\<forall>i. LAPIC_BASE (sm_lapic s i) = bs"
  shows "smp_inv slot_addr bsp bs ids slot0 s"
  using assms unfolding smp_inv_def Let_def by blast

lemma bsp_round_inv:
  assumes "smp_inv slot_addr bsp bs ids slot0 s" "sm_pos s < length (sm_cpus s)"
    "launch_one bsp (sm_pos s) (sm_next s, sm_launched s, sm_cpus s) = (n, l, cs)"
  shows "smp_inv slot_addr bsp bs ids slot0 (s\<lparr>sm_pos := sm_pos s + 1, sm_next := n, sm_launched := l, sm_cpus := cs\<rparr>)"
proof -
  let ?p = "sm_pos s"
  from assms(1) obtain L where L: "L = launched bsp (sm_cpus s) ?p" and I: "map mp_lapic_id (sm_cpus s) = ids" "?p \<le> length (sm_cpus s)"
      "sm_next s = of_nat (length L + 1)" "sm_launched s = of_nat (length L)"
      and go: "\<forall>i < length (sm_cpus s). mp_goto (sm_cpus s ! i) \<longleftrightarrow> i \<in> set L"
      "\<forall>j < length L. mp_extra (sm_cpus s ! (L ! j)) = of_nat (j + 1)"
      and sl: "length (sm_slots s) = MAX_CPUS" "sm_slots s ! 0 = slot0" "\<forall>j < MAX_CPUS. cpu_id (sm_slots s ! j) = of_nat j"
      and rd: "sm_ready s \<subseteq> set L" "\<forall>j < length L. L ! j \<in> sm_ready s \<longrightarrow> slot_ready slot_addr ids (sm_slots s) (sm_gs s) (L ! j) j"
      "sm_counted s \<subseteq> sm_ready s" "AP_ONLINE_COUNT s = of_nat (card (sm_counted s))" "\<forall>i. LAPIC_BASE (sm_lapic s i) = bs"
    by (rule smp_invE)
  note lp = launched_props [of bsp "sm_cpus s" ?p, folded L]
  have nL: "\<forall>j < length L. L ! j < ?p" using lp(2) nth_mem by blast
  have un: "unat (sm_next s) = length L + 1" unfolding I(3) using lp(3) by (intro unat_of_nat_small) simp
  show ?thesis
  proof (cases "mp_lapic_id (sm_cpus s ! ?p) \<noteq> bsp \<and> length L < 63")
    case False
    then have e: "n = sm_next s" "l = sm_launched s" "cs = sm_cpus s"
      using assms(3) un by (auto simp: launch_one_def Let_def MAX_CPUS_def split: if_splits)
    have "L = launched bsp (sm_cpus s) (Suc ?p)" using False L launched_step [of bsp "sm_cpus s" ?p] by auto
    then show ?thesis using assms(2) I go sl rd by (intro smp_invI [where L = L]) (simp_all add: e)
  next
    case True
    let ?c = "(sm_cpus s ! ?p)\<lparr>mp_extra := ucast (sm_next s), mp_goto := True\<rparr>"
    have e: "n = sm_next s + 1" "l = sm_launched s + 1" "cs = (sm_cpus s)[?p := ?c]"
      using assms(3) un True by (auto simp: launch_one_def Let_def MAX_CPUS_def split: if_splits)
    have ids: "map mp_lapic_id cs = map mp_lapic_id (sm_cpus s)" using assms(2) by (simp add: e(3) map_update list_update_same_conv)
    have L': "L @ [?p] = launched bsp cs (Suc ?p)"
      using True L launched_step [of bsp "sm_cpus s" ?p] launched_cong [OF ids, of "Suc ?p" bsp] assms(2) by (simp add: e(3))
    have ext: "\<forall>j < length (L @ [?p]). mp_extra (cs ! ((L @ [?p]) ! j)) = of_nat (j + 1)"
    proof (intro allI impI)
      fix j assume j: "j < length (L @ [?p])"
      show "mp_extra (cs ! ((L @ [?p]) ! j)) = of_nat (j + 1)"
      proof (cases "j < length L")
        case True
        then show ?thesis using go(2) nL by (auto simp: e(3) nth_append)
      next
        case False
        then have "j = length L" using j by simp
        moreover have "ucast (sm_next s) = (of_nat (unat (sm_next s)) :: u64)" by simp
        then have "ucast (sm_next s) = (of_nat (length L + 1) :: u64)" unfolding un .
        ultimately show ?thesis using assms(2) by (simp add: e(3) nth_append)
      qed
    qed
    have rdy: "\<forall>j < length (L @ [?p]). (L @ [?p]) ! j \<in> sm_ready s \<longrightarrow> slot_ready slot_addr ids (sm_slots s) (sm_gs s) ((L @ [?p]) ! j) j"
      using rd(1,2) lp(2) by (auto simp: nth_append less_Suc_eq)
    have len: "length cs = length (sm_cpus s)" by (simp add: e(3))
    have goto: "\<forall>i < length cs. mp_goto (cs ! i) \<longleftrightarrow> i \<in> set (L @ [?p])"
      using go(1) assms(2) unfolding len by (auto simp: e(3) nth_list_update)
    have nl: "n = of_nat (length (L @ [?p]) + 1)" "l = of_nat (length (L @ [?p]))" using e(1,2) I(3,4) by simp_all
    show ?thesis
    proof (rule smp_invI)
      show "L @ [?p] = launched bsp (sm_cpus (s\<lparr>sm_pos := ?p + 1, sm_next := n, sm_launched := l, sm_cpus := cs\<rparr>))
          (sm_pos (s\<lparr>sm_pos := ?p + 1, sm_next := n, sm_launched := l, sm_cpus := cs\<rparr>))" using L' by simp
      show "sm_ready (s\<lparr>sm_pos := ?p + 1, sm_next := n, sm_launched := l, sm_cpus := cs\<rparr>) \<subseteq> set (L @ [?p])" using rd(1) by auto
    qed (use assms(2) I(1) ids goto ext sl rd(3-5) rdy len nl in simp_all)
  qed
qed

lemma ap_runs_inv:
  assumes inv: "smp_inv slot_addr bsp bs ids slot0 s" and hw: "smp_hw H hhdm slot_addr bs ids"
    and i: "i < length (sm_cpus s)" "mp_goto (sm_cpus s ! i)" "i \<notin> sm_ready s"
  obtains c m where "ap_entry (H i) hhdm slot_addr (sm_cpus s ! i) \<lparr>slots = sm_slots s, gs_base = sm_gs s i\<rparr> (sm_lapic s i) = Inr (c, m)"
    "smp_inv slot_addr bsp bs ids slot0 (s\<lparr>sm_slots := slots c, sm_gs := (sm_gs s)(i := gs_base c), sm_lapic := (sm_lapic s)(i := m),
      sm_ready := insert i (sm_ready s)\<rparr>)"
proof -
  let ?p = "sm_pos s"
  from inv obtain L where L: "L = launched bsp (sm_cpus s) ?p" and I: "map mp_lapic_id (sm_cpus s) = ids" "?p \<le> length (sm_cpus s)"
      "sm_next s = of_nat (length L + 1)" "sm_launched s = of_nat (length L)"
      and go: "\<forall>i < length (sm_cpus s). mp_goto (sm_cpus s ! i) \<longleftrightarrow> i \<in> set L"
      "\<forall>j < length L. mp_extra (sm_cpus s ! (L ! j)) = of_nat (j + 1)"
      and sl: "length (sm_slots s) = MAX_CPUS" "sm_slots s ! 0 = slot0" "\<forall>j < MAX_CPUS. cpu_id (sm_slots s ! j) = of_nat j"
      and rd: "sm_ready s \<subseteq> set L" "\<forall>j < length L. L ! j \<in> sm_ready s \<longrightarrow> slot_ready slot_addr ids (sm_slots s) (sm_gs s) (L ! j) j"
      "sm_counted s \<subseteq> sm_ready s" "AP_ONLINE_COUNT s = of_nat (card (sm_counted s))" "\<forall>i. LAPIC_BASE (sm_lapic s i) = bs"
    by (rule smp_invE)
  note lp = launched_props [of bsp "sm_cpus s" ?p, folded L]
  obtain j where j: "j < length L" "L ! j = i" using go(1) i(1,2) by (auto simp: in_set_conv_nth)
  let ?n = "j + 1"
  have n: "?n < MAX_CPUS" "?n < length (sm_slots s)" using j(1) lp(3) sl(1) by (simp_all add: MAX_CPUS_def)
  have idi: "mp_lapic_id (sm_cpus s ! i) = ids ! i" using I(1) i(1) by auto
  let ?l = "(sm_slots s ! ?n)\<lparr>self_ptr := slot_addr ?n, apic_id := ids ! i\<rparr>"
  have ex: "mp_extra (sm_cpus s ! i) = of_nat ?n" using go(2) j by auto
  have len: "i < length ids" using I(1) i(1) by auto
  obtain m where m: "ap_entry (H i) hhdm slot_addr (sm_cpus s ! i) \<lparr>slots = sm_slots s, gs_base = sm_gs s i\<rparr> (sm_lapic s i) =
      Inr (\<lparr>slots = (sm_slots s)[?n := ?l], gs_base = slot_addr ?n\<rparr>, m)" "LAPIC_BASE m = bs"
    by (rule ap_entry_eq [of slot_addr ?n "sm_cpus s ! i" "sm_slots s" "sm_lapic s i" bs "H i" hhdm "sm_gs s i"])
      (use hw n ex sl(1) rd(5) len idi in \<open>auto simp: smp_hw_def\<close>)
  have rdy: "\<forall>k < length L. L ! k \<in> insert i (sm_ready s) \<longrightarrow>
      slot_ready slot_addr ids ((sm_slots s)[?n := ?l]) ((sm_gs s)(i := slot_addr ?n)) (L ! k) k"
  proof (intro allI impI)
    fix k assume k: "k < length L" "L ! k \<in> insert i (sm_ready s)"
    show "slot_ready slot_addr ids ((sm_slots s)[?n := ?l]) ((sm_gs s)(i := slot_addr ?n)) (L ! k) k"
    proof (cases "k = j")
      case True
      then show ?thesis using j n sl(3) by (simp add: slot_ready_def)
    next
      case False
      then have "L ! k \<noteq> i" using k(1) j lp(1) nth_eq_iff_index_eq by blast
      then show ?thesis using rd(2) k False by (simp add: slot_ready_def)
    qed
  qed
  have id': "\<forall>k < MAX_CPUS. cpu_id ((sm_slots s)[?n := ?l] ! k) = of_nat k" using sl(3) n(2) by (auto simp: nth_list_update)
  have "smp_inv slot_addr bsp bs ids slot0 (s\<lparr>sm_slots := (sm_slots s)[?n := ?l], sm_gs := (sm_gs s)(i := slot_addr ?n),
      sm_lapic := (sm_lapic s)(i := m), sm_ready := insert i (sm_ready s)\<rparr>)"
    by (rule smp_invI [where L = L]) (use L I go sl(1,2) rd id' rdy m(2) j nth_mem [OF j(1)] in auto)
  then show ?thesis using that m(1) by simp
qed

lemma ap_counts_inv:
  assumes "smp_inv slot_addr bsp bs ids slot0 s" "i \<in> sm_ready s" "i \<notin> sm_counted s"
  shows "smp_inv slot_addr bsp bs ids slot0 (s\<lparr>sm_counted := insert i (sm_counted s), AP_ONLINE_COUNT := AP_ONLINE_COUNT s + 1\<rparr>)"
proof -
  have "finite (sm_counted s)" using assms(1) unfolding smp_inv_def Let_def by (meson List.finite_set finite_subset)
  then have "card (insert i (sm_counted s)) = Suc (card (sm_counted s))" using assms(3) by simp
  then show ?thesis using assms(1,2) unfolding smp_inv_def Let_def by (simp add: add.commute)
qed

definition smp_start :: "(nat \<Rightarrow> 'd apic_hw) \<Rightarrow> u64 \<Rightarrow> (nat \<Rightarrow> u64) \<Rightarrow> u64 \<Rightarrow> u32 list \<Rightarrow> cpu_local \<Rightarrow> 'd smp_sys \<Rightarrow> bool" where
  "smp_start H hhdm slot_addr bs ids slot0 s \<longleftrightarrow> smp_hw H hhdm slot_addr bs ids \<and>
     map mp_lapic_id (sm_cpus s) = ids \<and> (\<forall>p \<in> set (sm_cpus s). \<not> mp_goto p) \<and> sm_pos s = 0 \<and> sm_next s = 1 \<and> sm_launched s = 0 \<and>
     sm_slots s = build_cpus[0 := slot0] \<and> cpu_id slot0 = 0 \<and> sm_ready s = {} \<and> sm_counted s = {} \<and> AP_ONLINE_COUNT s = 0 \<and>
     (\<forall>i. LAPIC_BASE (sm_lapic s i) = bs)"

lemma smp_start_inv: "smp_start H hhdm slot_addr bs ids slot0 s \<Longrightarrow> smp_inv slot_addr bsp bs ids slot0 s"
  unfolding smp_start_def by (rule smp_invI [where L = "[]"])
    (auto simp: launched_def build_cpus_def MAX_CPUS_def nth_list_update)

lemma smp_step_inv:
  assumes "smp_hw H hhdm slot_addr bs ids" "smp_inv slot_addr bsp bs ids slot0 s" "smp_step H hhdm slot_addr bsp s t"
  shows "smp_inv slot_addr bsp bs ids slot0 t"
  using assms(3)
proof cases
  case (bsp_round n l cs)
  then show ?thesis using bsp_round_inv [OF assms(2)] by simp
next
  case (ap_runs i c m)
  obtain c' m' where "ap_entry (H i) hhdm slot_addr (sm_cpus s ! i) \<lparr>slots = sm_slots s, gs_base = sm_gs s i\<rparr> (sm_lapic s i) = Inr (c', m')"
    "smp_inv slot_addr bsp bs ids slot0 (s\<lparr>sm_slots := slots c', sm_gs := (sm_gs s)(i := gs_base c'), sm_lapic := (sm_lapic s)(i := m'),
      sm_ready := insert i (sm_ready s)\<rparr>)"
    by (rule ap_runs_inv [OF assms(2,1) ap_runs(2-4)])
  then show ?thesis using ap_runs(1,5) by simp
next
  case (ap_counts i)
  then show ?thesis using ap_counts_inv [OF assms(2)] by simp
qed

interpretation smp: invariant_system "smp_start H hhdm slot_addr bs ids slot0" "smp_step H hhdm slot_addr bsp"
    "\<lambda>s. smp_hw H hhdm slot_addr bs ids \<and> smp_inv slot_addr bsp bs ids slot0 s" for H hhdm slot_addr bs ids slot0 bsp
proof unfold_locales
  show "smp_hw H hhdm slot_addr bs ids \<and> smp_inv slot_addr bsp bs ids slot0 s" if "smp_start H hhdm slot_addr bs ids slot0 s" for s
    using smp_start_inv [OF that] that unfolding smp_start_def by blast
qed (use smp_step_inv in blast)

text \<open>
  C20. The start of the other processors, in every interleaving of the boot processor with
  processors that run as soon as their entry address is written. The processors launched are the
  first 63 that are not the boot processor; each runs its entry without fault and then finds, through its own
  GS base, its own slot with the right index and APIC identifier, which no other processor has; the
  boot processor's slot is not touched. The boot processor stops waiting exactly when every processor has been
  considered and every launched one has counted itself.
\<close>
theorem smp_slots_exclusive:
  assumes "smp_start H hhdm slot_addr bs ids slot0 s\<^sub>0" "reachable (smp_step H hhdm slot_addr bsp) s\<^sub>0 s"
    "L = launched bsp (sm_cpus s) (sm_pos s)"
  shows "(\<forall>j < length L. if L ! j \<in> sm_ready s
      then \<exists>l. current_cpu slot_addr \<lparr>slots = sm_slots s, gs_base = sm_gs s (L ! j)\<rparr> = Inr l \<and> cpu_id l = of_nat (j + 1) \<and> apic_id l = ids ! (L ! j)
      else \<exists>c m. ap_entry (H (L ! j)) hhdm slot_addr (sm_cpus s ! (L ! j)) \<lparr>slots = sm_slots s, gs_base = sm_gs s (L ! j)\<rparr> (sm_lapic s (L ! j)) = Inr (c, m)) \<and>
    distinct L \<and> sm_slots s ! 0 = slot0 \<and> (smp_done s \<longleftrightarrow> sm_pos s = length ids \<and> sm_counted s = set L \<and> sm_ready s = set L)"
proof -
  have hw: "smp_hw H hhdm slot_addr bs ids" and inv: "smp_inv slot_addr bsp bs ids slot0 s" using smp.reachable_inv [OF assms(1,2)] by simp_all
  from inv obtain L' where L: "L' = launched bsp (sm_cpus s) (sm_pos s)" and I: "map mp_lapic_id (sm_cpus s) = ids" "sm_pos s \<le> length (sm_cpus s)"
      "sm_launched s = of_nat (length L')" and go: "\<forall>i < length (sm_cpus s). mp_goto (sm_cpus s ! i) \<longleftrightarrow> i \<in> set L'"
      and sl: "length (sm_slots s) = MAX_CPUS" "sm_slots s ! 0 = slot0"
      and rd: "sm_ready s \<subseteq> set L'" "\<forall>j < length L'. L' ! j \<in> sm_ready s \<longrightarrow> slot_ready slot_addr ids (sm_slots s) (sm_gs s) (L' ! j) j"
      "sm_counted s \<subseteq> sm_ready s" "AP_ONLINE_COUNT s = of_nat (card (sm_counted s))"
    by (rule smp_invE)
  have LL: "L' = L" using L assms(3) by simp
  note lp = launched_props [of bsp "sm_cpus s" "sm_pos s", folded assms(3)]
  have slot: "\<exists>l. current_cpu slot_addr \<lparr>slots = sm_slots s, gs_base = sm_gs s (L ! j)\<rparr> = Inr l \<and> cpu_id l = of_nat (j + 1) \<and> apic_id l = ids ! (L ! j)"
    if j: "j < length L" "L ! j \<in> sm_ready s" for j
  proof -
    have "slot_ready slot_addr ids (sm_slots s) (sm_gs s) (L ! j) j" using rd(2) j LL by simp
    moreover have "slot_at slot_addr (slot_addr (j + 1)) = Some (j + 1)"
      using hw j(1) lp(3) by (intro slot_at_own) (auto simp: smp_hw_def MAX_CPUS_def)
    ultimately show ?thesis by (simp add: current_cpu_def slot_ready_def)
  qed
  have runs: "\<exists>c m. ap_entry (H (L ! j)) hhdm slot_addr (sm_cpus s ! (L ! j)) \<lparr>slots = sm_slots s, gs_base = sm_gs s (L ! j)\<rparr> (sm_lapic s (L ! j)) = Inr (c, m)"
    if j: "j < length L" "L ! j \<notin> sm_ready s" for j
  proof -
    have "L ! j \<in> {..<sm_pos s}" using lp(2) nth_mem [OF j(1)] by blast
    then have m: "L ! j \<in> set L" "L ! j < length (sm_cpus s)" using I(2) nth_mem [OF j(1)] by simp_all
    then have "mp_goto (sm_cpus s ! (L ! j))" using go LL by blast
    then show ?thesis by (rule ap_runs_inv [OF inv hw m(2) _ j(2)]) blast
  qed
  have sub: "sm_counted s \<subseteq> set L" using rd(1,3) LL by blast
  then have c: "card (sm_counted s) \<le> length L" using distinct_card [OF lp(1)] card_mono [OF finite_set] by metis
  have "unat (AP_ONLINE_COUNT s) = card (sm_counted s)" "unat (sm_launched s) = length L"
    unfolding rd(4) I(3) LL using c lp(3) by (simp_all add: unat_of_nat_small)
  then have "\<not> AP_ONLINE_COUNT s < sm_launched s \<longleftrightarrow> card (sm_counted s) = length L" using c by (auto simp: word_less_nat_alt)
  also have "\<dots> \<longleftrightarrow> sm_counted s = set L" using sub distinct_card [OF lp(1)] by (metis card_subset_eq finite_set)
  finally have dn: "\<not> AP_ONLINE_COUNT s < sm_launched s \<longleftrightarrow> sm_counted s = set L" .
  have len: "length ids = length (sm_cpus s)" using I(1) by auto
  have "smp_done s \<longleftrightarrow> sm_pos s = length ids \<and> sm_counted s = set L \<and> sm_ready s = set L"
    unfolding smp_done_def dn len using rd(1,3) LL by blast
  moreover have "\<forall>j < length L. if L ! j \<in> sm_ready s
      then \<exists>l. current_cpu slot_addr \<lparr>slots = sm_slots s, gs_base = sm_gs s (L ! j)\<rparr> = Inr l \<and> cpu_id l = of_nat (j + 1) \<and> apic_id l = ids ! (L ! j)
      else \<exists>c m. ap_entry (H (L ! j)) hhdm slot_addr (sm_cpus s ! (L ! j)) \<lparr>slots = sm_slots s, gs_base = sm_gs s (L ! j)\<rparr> (sm_lapic s (L ! j)) = Inr (c, m)"
    by (intro allI impI, split if_split, intro conjI impI) (erule (1) slot, erule (1) runs)
  ultimately show ?thesis using lp(1) sl(2) by blast
qed

section \<open>Witnesses\<close>

text \<open>Chips whose PIT output is always high and whose timer has counted down 5000 ticks, with APIC identifier 1.\<close>

definition demo_apic_hw :: "unit apic_hw" where
  "demo_apic_hw = \<lparr>ah_in = (\<lambda>p d. (0x20, d)), ah_out = (\<lambda>p v d. d),
     ah_read = (\<lambda>a d. (if a = 0x1020 then 0x01000000 else 0xFFFFFFFF - 5000, d)), ah_write = (\<lambda>a v d. d)\<rparr>"

definition demo_apic_m :: "unit apic_m" where
  "demo_apic_m = \<lparr>am_dev = (), am_log = [], LAPIC_BASE = 0, LAPIC_VERSION = 0, LAPIC_ID = 0\<rparr>"

definition demo_apic_base :: apic_base where
  "demo_apic_base = \<lparr>ab_phys = 0x1000, ab_lapic_enable = True, ab_bsp = True, ab_x2apic_enable = False\<rparr>"

lemma demo_apic_sel [simp]:
  "ah_in demo_apic_hw p d = (0x20, d)" "ah_out demo_apic_hw p v d = d" "ah_write demo_apic_hw a w d = d"
  "ah_read demo_apic_hw a d = (if a = 0x1020 then 0x01000000 else 0xFFFFFFFF - 5000, d)"
  by (simp_all add: demo_apic_hw_def)

lemma demo_apic_ok: "\<exists>m. apic_init demo_apic_hw 0 demo_apic_base demo_apic_m = returns m"
proof -
  have w: "pit_wait demo_apic_hw m = Some (snd (inb demo_apic_hw PIT_CONTROL_B m))" for m
    by (subst pit_wait.simps) (simp add: inb_def PIT_CH2_OUT_BIT_def)
  show ?thesis
    by (simp add: apic_init_def calibrate_lapic_timer_def w pit_program_def arm_periodic_def lapic_write_def lapic_read_def lapic_reg_def
        mask_8259_def outb_def inb_def Let_def demo_apic_base_def demo_apic_m_def apic_regs pit_regs)
qed

theorem apic_init_exact_witness:
  "\<exists>m. apic_init demo_apic_hw 0 demo_apic_base demo_apic_m = returns m \<and> LAPIC_BASE m = 0x1000 \<and> hd (am_log m) = Port_out 0x21 0xFF"
proof -
  obtain m where m: "apic_init demo_apic_hw 0 demo_apic_base demo_apic_m = returns m" using demo_apic_ok by blast
  from apic_init_exact [OF m] show ?thesis using m by (auto simp: demo_apic_base_def demo_apic_m_def Let_def)
qed

theorem timer_tick_witness:
  "\<exists>k' m'. timer_handler demo_apic_hw 0 0x6000 demo_late (demo_apic_m\<lparr>LAPIC_BASE := 0x1000\<rparr>) = Inr (k', m') \<and>
    am_log m' = [Lapic_write 0x10B0 0]"
proof -
  from timer_tick [OF demo_boot_start demo_reach_late demo_room(2), of "demo_apic_m\<lparr>LAPIC_BASE := 0x1000\<rparr>" demo_apic_hw 0 "0x6000"]
  show ?thesis by (auto simp: demo_apic_m_def)
qed

text \<open>Two processors, of which the first boots.\<close>

definition demo_smp :: "unit smp_sys" where
  "demo_smp = \<lparr>sm_cpus = [\<lparr>mp_lapic_id = 0, mp_extra = 0, mp_goto = False\<rparr>, \<lparr>mp_lapic_id = 1, mp_extra = 0, mp_goto = False\<rparr>],
     sm_pos = 0, sm_next = 1, sm_launched = 0, sm_slots = build_cpus, sm_gs = (\<lambda>i. 0), sm_lapic = (\<lambda>i. demo_apic_m\<lparr>LAPIC_BASE := 0x1000\<rparr>),
     sm_ready = {}, sm_counted = {}, AP_ONLINE_COUNT = 0\<rparr>"

definition demo_hws :: "nat \<Rightarrow> unit apic_hw" where
  "demo_hws i = demo_apic_hw\<lparr>ah_read := (\<lambda>a d. (push_bit 24 (of_nat i), d))\<rparr>"

lemma inj_slot_addrs: "inj_on (\<lambda>i. of_nat (i + 1) :: u64) {..<MAX_CPUS}"
proof (rule inj_onI)
  fix i j assume a: "i \<in> {..<MAX_CPUS}" "j \<in> {..<MAX_CPUS}" "of_nat (i + 1) = (of_nat (j + 1) :: u64)"
  then have "i + 1 < 2 ^ LENGTH(64)" "j + 1 < 2 ^ LENGTH(64)" by (simp_all add: MAX_CPUS_def)
  note u = this [THEN unat_of_nat_small]
  show "i = j" using u(1) u(2) unfolding a(3) by (simp only: add_right_cancel)
qed

lemma demo_smp_start: "smp_start demo_hws 0 (\<lambda>i. of_nat (i + 1)) 0x1000 [0, 1] (build_cpus ! 0) demo_smp"
  unfolding smp_start_def smp_hw_def
proof (intro conjI)
  show "inj_on (\<lambda>i. of_nat (i + 1) :: u64) {..<MAX_CPUS}" by (rule inj_slot_addrs)
  show "\<forall>i < length [0, 1 :: u32]. \<forall>d. drop_bit 24 (fst (ah_read (demo_hws i) (0x1000 + 0 + 0x20) d)) = [0, 1] ! i"
    by (simp add: demo_hws_def less_Suc_eq)
  have "0 < MAX_CPUS" by (simp add: MAX_CPUS_def)
  then show "cpu_id (build_cpus ! 0) = 0" by (simp add: build_cpus_def cpu_local_new_def)
  show "sm_slots demo_smp = build_cpus[0 := build_cpus ! 0]" by (simp add: demo_smp_def)
qed (simp_all add: demo_smp_def demo_apic_m_def)

theorem smp_slots_exclusive_witness:
  "\<exists>s l. reachable (smp_step demo_hws 0 (\<lambda>i. of_nat (i + 1)) 0) demo_smp s \<and> smp_done s \<and>
    current_cpu (\<lambda>i. of_nat (i + 1)) \<lparr>slots = sm_slots s, gs_base = sm_gs s 1\<rparr> = Inr l \<and> cpu_id l = 1 \<and> apic_id l = 1"
proof -
  let ?a = "\<lambda>i. of_nat (i + 1) :: u64" and ?st = "smp_step demo_hws 0 (\<lambda>i. of_nat (i + 1)) 0"
  let ?p = "\<lparr>mp_lapic_id = 1, mp_extra = 1, mp_goto = True\<rparr>"
  let ?s = "demo_smp\<lparr>sm_pos := 2, sm_next := 2, sm_launched := 1, sm_cpus := [\<lparr>mp_lapic_id = 0, mp_extra = 0, mp_goto = False\<rparr>, ?p]\<rparr>"
  have "?st demo_smp (demo_smp\<lparr>sm_pos := 1\<rparr>)"
    using bsp_round [of demo_smp 0 1 0 "sm_cpus demo_smp" demo_hws 0 ?a] by (simp add: demo_smp_def launch_one_def)
  moreover have "?st (demo_smp\<lparr>sm_pos := 1\<rparr>) ?s"
    using bsp_round [of "demo_smp\<lparr>sm_pos := 1\<rparr>" 0 2 1 "sm_cpus ?s" demo_hws 0 ?a] by (simp add: demo_smp_def launch_one_def MAX_CPUS_def numeral_2_eq_2)
  ultimately have r: "reachable ?st demo_smp ?s" by (meson converse_rtranclp_into_rtranclp rtranclp.rtrancl_refl)
  have L: "[1] = launched 0 (sm_cpus ?s) (sm_pos ?s)" by (simp add: launched_def numeral_2_eq_2)
  obtain c m where e: "ap_entry (demo_hws 1) 0 ?a ?p \<lparr>slots = sm_slots ?s, gs_base = sm_gs ?s 1\<rparr> (sm_lapic ?s 1) = Inr (c, m)"
    using smp_slots_exclusive [OF demo_smp_start r L] by (auto simp: demo_smp_def)
  let ?t = "?s\<lparr>sm_slots := slots c, sm_gs := (sm_gs ?s)(1 := gs_base c), sm_lapic := (sm_lapic ?s)(1 := m), sm_ready := {1}\<rparr>"
  let ?u = "?t\<lparr>sm_counted := {1}, AP_ONLINE_COUNT := 1\<rparr>"
  have "?st ?s ?t" using ap_runs [of 1 ?s demo_hws 0 ?a c m 0] e by (simp add: demo_smp_def)
  moreover have "?st ?t ?u" using ap_counts [of 1 ?t demo_hws 0 ?a 0] by (simp add: demo_smp_def)
  ultimately have u: "reachable ?st demo_smp ?u" using r by (meson rtranclp.rtrancl_into_rtrancl)
  have "[1] = launched 0 (sm_cpus ?u) (sm_pos ?u)" using L by simp
  from smp_slots_exclusive [OF demo_smp_start u this] show ?thesis using u by (auto simp: demo_smp_def)
qed

end
