(* ===== verification/Gpu.thy ===== *)
theory Gpu
  imports VirtioPci Fb
begin

unbundle bit_operations_syntax

text \<open>
  The virtio-gpu driver, arsenal-kernel/src/virtio\_gpu.rs, with the vocabulary of display.rs: the
  control queue, the six commands with their layouts in memory, and the bring-up that presents a
  picture. Memory shared with the device is part of the device's state: storing to it is a parameter beside
  the transport's, and what the device has stored is read through \<open>vh_byte\<close>. The
  addresses of the boxes are arguments. The trace records the commands, the answers and the
  pixels stored; a reference semantics of the 2D commands gives it its meaning.
\<close>

section \<open>Model\<close>

datatype pixel_format = Xrgb8888

record display_info =
  di_width :: u32
  di_height :: u32
  di_format :: pixel_format

definition VIRTIO_GPU_DEVICE_ID :: u16 where "VIRTIO_GPU_DEVICE_ID = 0x1050"
definition GPU_CFG_NUM_SCANOUTS :: u64 where "GPU_CFG_NUM_SCANOUTS = 8"
definition CONTROL_QUEUE_IDX :: u16 where "CONTROL_QUEUE_IDX = 0"
definition CONTROL_QUEUE_SIZE :: u16 where "CONTROL_QUEUE_SIZE = 16"
definition VIRTIO_GPU_CMD_GET_DISPLAY_INFO :: u32 where "VIRTIO_GPU_CMD_GET_DISPLAY_INFO = 0x0100"
definition VIRTIO_GPU_CMD_RESOURCE_CREATE_2D :: u32 where "VIRTIO_GPU_CMD_RESOURCE_CREATE_2D = 0x0101"
definition VIRTIO_GPU_CMD_RESOURCE_FLUSH :: u32 where "VIRTIO_GPU_CMD_RESOURCE_FLUSH = 0x0104"
definition VIRTIO_GPU_CMD_SET_SCANOUT :: u32 where "VIRTIO_GPU_CMD_SET_SCANOUT = 0x0103"
definition VIRTIO_GPU_CMD_TRANSFER_TO_HOST_2D :: u32 where "VIRTIO_GPU_CMD_TRANSFER_TO_HOST_2D = 0x0105"
definition VIRTIO_GPU_CMD_RESOURCE_ATTACH_BACKING :: u32 where "VIRTIO_GPU_CMD_RESOURCE_ATTACH_BACKING = 0x0106"
definition VIRTIO_GPU_RESP_OK_NODATA :: u32 where "VIRTIO_GPU_RESP_OK_NODATA = 0x1100"
definition VIRTIO_GPU_RESP_OK_DISPLAY_INFO :: u32 where "VIRTIO_GPU_RESP_OK_DISPLAY_INFO = 0x1101"
definition VIRTIO_GPU_FORMAT_B8G8R8X8_UNORM :: u32 where "VIRTIO_GPU_FORMAT_B8G8R8X8_UNORM = 2"
definition SCANOUT_RESOURCE_ID :: u32 where "SCANOUT_RESOURCE_ID = 1"
definition SCANOUT_ID :: u32 where "SCANOUT_ID = 0"
definition MAX_SCANOUTS :: nat where "MAX_SCANOUTS = 16"

record ctrl_hdr =
  ch_type :: u32
  ch_flags :: u32
  ch_fence_id :: u64
  ch_ctx_id :: u32
  ch_ring_idx :: u8

record rect =
  r_x :: u32
  r_y :: u32
  r_width :: u32
  r_height :: u32

record mem_entry =
  me_addr :: u64
  me_length :: u32

text \<open>The request structures, one constructor each.\<close>

datatype gpu_req =
    Bare ctrl_hdr
  | ResourceCreate2d ctrl_hdr u32 u32 u32 u32 \<comment> \<open>resource, format, width, height\<close>
  | ResourceAttachBackingOne ctrl_hdr u32 u32 mem_entry \<comment> \<open>resource, number of entries, entry\<close>
  | SetScanout ctrl_hdr rect u32 u32 \<comment> \<open>rectangle, scanout, resource\<close>
  | TransferToHost2d ctrl_hdr rect u64 u32 \<comment> \<open>rectangle, offset, resource\<close>
  | ResourceFlush ctrl_hdr rect u32

definition hdr_cmd :: "u32 \<Rightarrow> ctrl_hdr" where
  "hdr_cmd t = \<lparr>ch_type = t, ch_flags = 0, ch_fence_id = 0, ch_ctx_id = 0, ch_ring_idx = 0\<rparr>"

definition le32 :: "u32 \<Rightarrow> u8 list" where "le32 w = le_bytes 4 (unat w)"
definition le64 :: "u64 \<Rightarrow> u8 list" where "le64 w = le_bytes 8 (unat w)"

definition hdr_bytes :: "ctrl_hdr \<Rightarrow> u8 list" where
  "hdr_bytes c = le32 (ch_type c) @ le32 (ch_flags c) @ le64 (ch_fence_id c) @ le32 (ch_ctx_id c) @ [ch_ring_idx c, 0, 0, 0]"

definition rect_bytes :: "rect \<Rightarrow> u8 list" where
  "rect_bytes r = le32 (r_x r) @ le32 (r_y r) @ le32 (r_width r) @ le32 (r_height r)"

fun req_bytes :: "gpu_req \<Rightarrow> u8 list" where
  "req_bytes (Bare c) = hdr_bytes c"
| "req_bytes (ResourceCreate2d c i f w h) = hdr_bytes c @ le32 i @ le32 f @ le32 w @ le32 h"
| "req_bytes (ResourceAttachBackingOne c i n e) = hdr_bytes c @ le32 i @ le32 n @ le64 (me_addr e) @ le32 (me_length e) @ le32 0"
| "req_bytes (SetScanout c r s i) = hdr_bytes c @ rect_bytes r @ le32 s @ le32 i"
| "req_bytes (TransferToHost2d c r off i) = hdr_bytes c @ rect_bytes r @ le64 off @ le32 i @ le32 0"
| "req_bytes (ResourceFlush c r i) = hdr_bytes c @ rect_bytes r @ le32 i @ le32 0"

definition req_size :: "gpu_req \<Rightarrow> u64" where
  "req_size q = (case q of Bare c \<Rightarrow> 24 | ResourceCreate2d c i f w h \<Rightarrow> 40 | ResourceAttachBackingOne c i n e \<Rightarrow> 48
     | SetScanout c r s i \<Rightarrow> 48 | TransferToHost2d c r off i \<Rightarrow> 56 | ResourceFlush c r i \<Rightarrow> 48)"

definition HDR_SIZE :: u64 where "HDR_SIZE = 24"
definition RESP_DISPLAY_INFO_SIZE :: u64 where "RESP_DISPLAY_INFO_SIZE = HDR_SIZE + of_nat MAX_SCANOUTS * 24"

datatype gpu_event =
    Gpu_cmd gpu_req
  | Gpu_answer u32
  | Gpu_pixels u64 "u32 list" \<comment> \<open>words stored at a physical address\<close>

text \<open>Stores to memory the device can read; \<open>vh_byte\<close> reads it back.\<close>

type_synonym 'd gpu_mem = "u64 \<Rightarrow> u8 list \<Rightarrow> 'd \<Rightarrow> 'd"

record 'd gpu_m =
  gm_io :: "'d virtio_m"
  gm_trace :: "gpu_event list"

definition gpu_dev :: "('d \<Rightarrow> 'd) \<Rightarrow> 'd gpu_m \<Rightarrow> 'd gpu_m" where
  "gpu_dev f m = m\<lparr>gm_io := (gm_io m)\<lparr>vm_dev := f (vm_dev (gm_io m))\<rparr>\<rparr>"

definition gpu_log :: "gpu_event \<Rightarrow> 'd gpu_m \<Rightarrow> 'd gpu_m" where
  "gpu_log e m = m\<lparr>gm_trace := gm_trace m @ [e]\<rparr>"

definition gpu_read32 :: "'d virtio_hw \<Rightarrow> u64 \<Rightarrow> 'd gpu_m \<Rightarrow> u32" where
  "gpu_read32 D a m = of_nat (le_nat (map (\<lambda>i. vh_byte D (a + of_nat i) (vm_dev (gm_io m))) [0..<4]))"

fun gpu_wait :: "'d virtio_hw \<Rightarrow> nat \<Rightarrow> virtqueue \<Rightarrow> 'd gpu_m \<Rightarrow> (virtqueue \<times> 'd gpu_m) run" where
  "gpu_wait D 0 q m = Some (Inl Panic)"
| "gpu_wait D (Suc n) q m =
     (let (q, d) = vh_run D q (vm_dev (gm_io m)); m = gpu_dev (\<lambda>_. d) m in
      run_then (pop_used q) (\<lambda>(r, q). case r of Some e \<Rightarrow> returns (q, m) | None \<Rightarrow> gpu_wait D n q m))"

definition gpu_submit ::
    "'d virtio_hw \<Rightarrow> virtqueue \<Rightarrow> u64 \<Rightarrow> u64 \<Rightarrow> u32 \<Rightarrow> u64 \<Rightarrow> u32 \<Rightarrow> 'd gpu_m \<Rightarrow> (virtqueue \<times> 'd gpu_m) run" where
  "gpu_submit D q notify_ptr req_phys req_len resp_phys resp_len m =
     run_then (Some (push_chain q [(req_phys, req_len, 0), (resp_phys, resp_len, VIRTQ_DESC_F_WRITE)])) (\<lambda>(h, q).
     run_then (Some (expect h)) (\<lambda>_.
     gpu_wait D 1000001 q (m\<lparr>gm_io := notify D notify_ptr CONTROL_QUEUE_IDX (gm_io m)\<rparr>)))"

text \<open>A request boxed together with its response, submitted and answered; the trace records it.\<close>

definition gpu_xfer ::
    "'d virtio_hw \<Rightarrow> 'd gpu_mem \<Rightarrow> u64 \<Rightarrow> u64 \<Rightarrow> virtqueue \<Rightarrow> u64 \<Rightarrow> gpu_req \<Rightarrow> u64 \<Rightarrow> u32 \<Rightarrow> 'd gpu_m \<Rightarrow> (virtqueue \<times> 'd gpu_m) run" where
  "gpu_xfer D S hhdm bx q notify_ptr req resp_size wanted m =
     (let m = gpu_dev (S bx (req_bytes req @ replicate (unat resp_size) 0)) m;
          req_phys = bx - hhdm;
          resp_phys = (bx + req_size req) - hhdm;
          m = gpu_log (Gpu_cmd req) m
      in run_then (gpu_submit D q notify_ptr req_phys (ucast (req_size req)) resp_phys (ucast resp_size) m) (\<lambda>(q, m).
         let resp_type = gpu_read32 D (bx + req_size req) m;
             m = gpu_log (Gpu_answer resp_type) m
         in run_then (Some (rust_assert (resp_type = wanted))) (\<lambda>_. returns (q, m))))"

definition cmd_nodata ::
    "'d virtio_hw \<Rightarrow> 'd gpu_mem \<Rightarrow> u64 \<Rightarrow> u64 \<Rightarrow> virtqueue \<Rightarrow> u64 \<Rightarrow> gpu_req \<Rightarrow> 'd gpu_m \<Rightarrow> (virtqueue \<times> 'd gpu_m) run" where
  "cmd_nodata D S hhdm bx q notify_ptr req m = gpu_xfer D S hhdm bx q notify_ptr req HDR_SIZE VIRTIO_GPU_RESP_OK_NODATA m"

fun scan_modes :: "'d virtio_hw \<Rightarrow> u64 \<Rightarrow> nat list \<Rightarrow> 'd gpu_m \<Rightarrow> display_info outcome" where
  "scan_modes D pmodes [] m = Inl Panic"
| "scan_modes D pmodes (i # rest) m =
     (let a = pmodes + of_nat i * 24;
          enabled = gpu_read32 D (a + 16) m; width = gpu_read32 D (a + 8) m; height = gpu_read32 D (a + 12) m
      in if enabled \<noteq> 0 then Inr \<lparr>di_width = width, di_height = height, di_format = Xrgb8888\<rparr> else scan_modes D pmodes rest m)"

definition get_display_info ::
    "'d virtio_hw \<Rightarrow> 'd gpu_mem \<Rightarrow> u64 \<Rightarrow> u64 \<Rightarrow> virtqueue \<Rightarrow> u64 \<Rightarrow> 'd gpu_m \<Rightarrow> (display_info \<times> virtqueue \<times> 'd gpu_m) run" where
  "get_display_info D S hhdm bx q notify_ptr m =
     run_then (gpu_xfer D S hhdm bx q notify_ptr (Bare (hdr_cmd VIRTIO_GPU_CMD_GET_DISPLAY_INFO)) RESP_DISPLAY_INFO_SIZE
       VIRTIO_GPU_RESP_OK_DISPLAY_INFO m) (\<lambda>(q, m).
     run_then (Some (scan_modes D (bx + HDR_SIZE + HDR_SIZE) [0..<MAX_SCANOUTS] m)) (\<lambda>info. returns (info, q, m)))"

text \<open>The picture: rows of the full width, amber in a band of forty rows around the middle; the bounds of the band wrap around.\<close>

definition paint_picture :: "usize \<Rightarrow> usize \<Rightarrow> u32 list outcome" where
  "paint_picture w h =
     and_then (rust_assert (w \<noteq> 0)) (\<lambda>_.
       let lo = h div 2 - 20; hi = h div 2 + 20
       in Inr (concat (map (\<lambda>y. replicate (unat w) (if lo \<le> of_nat y \<and> of_nat y < hi then AMBER else NAVY)) [0..<unat h])))"

definition store_pixels :: "'d gpu_mem \<Rightarrow> u64 \<Rightarrow> u64 \<Rightarrow> u32 list \<Rightarrow> 'd gpu_m \<Rightarrow> 'd gpu_m" where
  "store_pixels S hhdm fb ps m = gpu_log (Gpu_pixels (fb - hhdm) ps) (gpu_dev (S fb (concat (map le32 ps))) m)"

definition gpu_present ::
    "'d virtio_hw \<Rightarrow> 'd gpu_mem \<Rightarrow> (usize \<Rightarrow> u64 outcome) \<Rightarrow> u64 \<Rightarrow> (nat \<Rightarrow> u64) \<Rightarrow> virtqueue \<Rightarrow> u64 \<Rightarrow> 'd gpu_m \<Rightarrow> (virtqueue \<times> 'd gpu_m) run" where
  "gpu_present D S alloc hhdm bx ctrlq notify_ptr m =
     run_then (get_display_info D S hhdm (bx 0) ctrlq notify_ptr m) (\<lambda>(info, ctrlq, m).
     let fb_words = ucast (di_width info) * ucast (di_height info) :: usize in
     run_then (Some (alloc fb_words)) (\<lambda>fb.
     let m = store_pixels S hhdm fb (replicate (unat fb_words) 0) m;
         fb_phys = fb - hhdm;
         fb_bytes = ucast (fb_words * 4) :: u32 in
     run_then (cmd_nodata D S hhdm (bx 1) ctrlq notify_ptr (ResourceCreate2d (hdr_cmd VIRTIO_GPU_CMD_RESOURCE_CREATE_2D)
       SCANOUT_RESOURCE_ID VIRTIO_GPU_FORMAT_B8G8R8X8_UNORM (di_width info) (di_height info)) m) (\<lambda>(ctrlq, m).
     run_then (cmd_nodata D S hhdm (bx 2) ctrlq notify_ptr (ResourceAttachBackingOne (hdr_cmd VIRTIO_GPU_CMD_RESOURCE_ATTACH_BACKING)
       SCANOUT_RESOURCE_ID 1 \<lparr>me_addr = fb_phys, me_length = fb_bytes\<rparr>) m) (\<lambda>(ctrlq, m).
     run_then (Some (paint_picture (ucast (di_width info)) (ucast (di_height info)))) (\<lambda>ps.
     let m = store_pixels S hhdm fb ps m;
         full = \<lparr>r_x = 0, r_y = 0, r_width = di_width info, r_height = di_height info\<rparr> in
     run_then (cmd_nodata D S hhdm (bx 3) ctrlq notify_ptr (SetScanout (hdr_cmd VIRTIO_GPU_CMD_SET_SCANOUT) full SCANOUT_ID SCANOUT_RESOURCE_ID) m) (\<lambda>(ctrlq, m).
     run_then (cmd_nodata D S hhdm (bx 4) ctrlq notify_ptr (TransferToHost2d (hdr_cmd VIRTIO_GPU_CMD_TRANSFER_TO_HOST_2D) full 0 SCANOUT_RESOURCE_ID) m) (\<lambda>(ctrlq, m).
     cmd_nodata D S hhdm (bx 5) ctrlq notify_ptr (ResourceFlush (hdr_cmd VIRTIO_GPU_CMD_RESOURCE_FLUSH) full SCANOUT_RESOURCE_ID) m)))))))"

definition gpu_init ::
    "'d virtio_hw \<Rightarrow> 'd gpu_mem \<Rightarrow> (usize \<Rightarrow> u64 outcome) \<Rightarrow> phys_frame_ctor \<Rightarrow> config_space \<Rightarrow> u64 \<Rightarrow> (nat \<Rightarrow> u64) \<Rightarrow>
     frame_allocator \<Rightarrow> 'd gpu_m \<Rightarrow> (bool \<times> frame_allocator \<times> 'd gpu_m) run" where
  "gpu_init D S alloc pf cfg hhdm bx fa m =
     (case find_device cfg hhdm VIRTIO_GPU_DEVICE_ID of
        None \<Rightarrow> None
      | Some None \<Rightarrow> returns (False, fa, m)
      | Some (Some v) \<Rightarrow>
          run_then (Some (init_transport D v (push_bit 32 (ucast VIRTIO_F_VERSION_1)) (gm_io m))) (\<lambda>(device_features, io).
          let (num_scanouts, io) = cc_read32 D (vd_device_cfg v) GPU_CFG_NUM_SCANOUTS io in
          run_then (Some (virtq_new pf fa CONTROL_QUEUE_SIZE)) (\<lambda>(ctrlq, fa).
          run_then (Some (activate_queue D v CONTROL_QUEUE_IDX ctrlq io)) (\<lambda>(notify_ptr, io).
          run_then (gpu_present D S alloc hhdm bx ctrlq notify_ptr (m\<lparr>gm_io := set_driver_ok D v io\<rparr>)) (\<lambda>(ctrlq, m).
          returns (True, virtq_drop fa ctrlq, m))))))"

section \<open>What the commands mean\<close>

text \<open>
  The 2D part of section 5.7.6 of the virtio specification as a reference semantics: resources
  with a size, a backing and pixels; scanouts bound to resources; and what each scanout shows. A
  command that the specification does not allow in the present state has no meaning.
\<close>

record gpu_resource =
  gr_width :: nat
  gr_height :: nat
  gr_backing :: "(u64 \<times> nat) option"
  gr_pixels :: "u32 list"

record gpu_host =
  gh_mem :: "u64 \<Rightarrow> u32 list"
  gh_resources :: "u32 \<rightharpoonup> gpu_resource"
  gh_scanouts :: "u32 \<rightharpoonup> u32"
  gh_shown :: "u32 \<rightharpoonup> u32 list"

definition gpu_host_reset :: gpu_host where
  "gpu_host_reset = \<lparr>gh_mem = (\<lambda>_. []), gh_resources = Map.empty, gh_scanouts = Map.empty, gh_shown = Map.empty\<rparr>"

definition inside :: "rect \<Rightarrow> gpu_resource \<Rightarrow> bool" where
  "inside r g \<longleftrightarrow> 0 < unat (r_width r) \<and> 0 < unat (r_height r) \<and>
     unat (r_x r) + unat (r_width r) \<le> gr_width g \<and> unat (r_y r) + unat (r_height r) \<le> gr_height g"

definition copy_rect :: "rect \<Rightarrow> nat \<Rightarrow> u32 list \<Rightarrow> gpu_resource \<Rightarrow> u32 list" where
  "copy_rect r off src g =
     map (\<lambda>i. let x = i mod gr_width g; y = i div gr_width g in
        if unat (r_x r) \<le> x \<and> x < unat (r_x r) + unat (r_width r) \<and> unat (r_y r) \<le> y \<and> y < unat (r_y r) + unat (r_height r)
        then src ! (off div 4 + (y - unat (r_y r)) * gr_width g + (x - unat (r_x r)))
        else gr_pixels g ! i) [0..<gr_width g * gr_height g]"

fun host_cmd :: "gpu_req \<Rightarrow> gpu_host \<Rightarrow> gpu_host option" where
  "host_cmd (Bare c) s = Some s"
| "host_cmd (ResourceCreate2d c i f w h) s =
     (if i \<noteq> 0 \<and> gh_resources s i = None \<and> f = 2
      then Some (s\<lparr>gh_resources := (gh_resources s)(i \<mapsto> \<lparr>gr_width = unat w, gr_height = unat h, gr_backing = None,
        gr_pixels = replicate (unat w * unat h) 0\<rparr>)\<rparr>) else None)"
| "host_cmd (ResourceAttachBackingOne c i n e) s =
     (case gh_resources s i of Some g \<Rightarrow>
        if gr_backing g = None \<and> n = 1
        then Some (s\<lparr>gh_resources := (gh_resources s)(i \<mapsto> g\<lparr>gr_backing := Some (me_addr e, unat (me_length e))\<rparr>)\<rparr>) else None
      | None \<Rightarrow> None)"
| "host_cmd (SetScanout c r sc i) s =
     (case gh_resources s i of Some g \<Rightarrow> if inside r g then Some (s\<lparr>gh_scanouts := (gh_scanouts s)(sc \<mapsto> i)\<rparr>) else None | None \<Rightarrow> None)"
| "host_cmd (TransferToHost2d c r off i) s =
     (case gh_resources s i of Some g \<Rightarrow>
        (case gr_backing g of Some (a, n) \<Rightarrow>
           if inside r g \<and> unat off + 4 * ((unat (r_height r) - 1) * gr_width g + unat (r_width r)) \<le> n
           then Some (s\<lparr>gh_resources := (gh_resources s)(i \<mapsto> g\<lparr>gr_pixels := copy_rect r (unat off) (gh_mem s a) g\<rparr>)\<rparr>) else None
         | None \<Rightarrow> None)
      | None \<Rightarrow> None)"
| "host_cmd (ResourceFlush c r i) s =
     (case gh_resources s i of Some g \<Rightarrow>
        if inside r g then Some (s\<lparr>gh_shown := (\<lambda>sc. if gh_scanouts s sc = Some i then Some (gr_pixels g) else gh_shown s sc)\<rparr>) else None
      | None \<Rightarrow> None)"

fun host_run :: "gpu_event list \<Rightarrow> gpu_host \<Rightarrow> gpu_host option" where
  "host_run [] s = Some s"
| "host_run (Gpu_pixels a ps # es) s = host_run es (s\<lparr>gh_mem := (gh_mem s)(a := ps)\<rparr>)"
| "host_run (Gpu_answer t # es) s = host_run es s"
| "host_run (Gpu_cmd q # es) s = (case host_cmd q s of None \<Rightarrow> None | Some s' \<Rightarrow> host_run es s')"

section \<open>Properties\<close>

lemma req_bytes_length: "length (req_bytes q) = unat (req_size q)"
  by (cases q) (simp_all add: req_size_def hdr_bytes_def rect_bytes_def le32_def le64_def)

lemma gpu_wait_trace: "gpu_wait D n q m = returns (q', m') \<Longrightarrow> gm_trace m' = gm_trace m"
proof (induction n arbitrary: q m)
  case (Suc n)
  obtain q1 d where r: "vh_run D q (vm_dev (gm_io m)) = (q1, d)" by force
  from Suc.prems r obtain e q2 where p: "pop_used q1 = returns (e, q2)" by (auto simp: run_then_eq_ret Let_def)
  show ?case
  proof (cases e)
    case None
    then have "gpu_wait D n q2 (gpu_dev (\<lambda>_. d) m) = returns (q', m')" using Suc.prems r p by simp
    from Suc.IH [OF this] show ?thesis by (simp add: gpu_dev_def)
  next
    case (Some x)
    then show ?thesis using Suc.prems r p by (auto simp: gpu_dev_def)
  qed
qed simp

lemma gpu_xfer_trace:
  assumes "gpu_xfer D S hhdm bx q np req rs wanted m = returns (q', m')"
  shows "gm_trace m' = gm_trace m @ [Gpu_cmd req, Gpu_answer wanted]"
  using assms by (auto simp: gpu_xfer_def Let_def gpu_submit_def run_then_eq_ret gpu_log_def gpu_dev_def dest!: gpu_wait_trace)

lemma cmd_nodata_trace:
  "cmd_nodata D S hhdm bx q np req m = returns (q', m') \<Longrightarrow> gm_trace m' = gm_trace m @ [Gpu_cmd req, Gpu_answer 0x1100]"
  unfolding cmd_nodata_def VIRTIO_GPU_RESP_OK_NODATA_def by (rule gpu_xfer_trace)

lemma scan_modes_first:
  assumes "scan_modes D pm is m = Inr info"
  obtains i us vs where "is = us @ i # vs" "gpu_read32 D (pm + of_nat i * 24 + 16) m \<noteq> 0"
    "\<forall>j \<in> set us. gpu_read32 D (pm + of_nat j * 24 + 16) m = 0"
    "di_width info = gpu_read32 D (pm + of_nat i * 24 + 8) m" "di_height info = gpu_read32 D (pm + of_nat i * 24 + 12) m"
  using assms
proof (induction "is" arbitrary: thesis)
  case (Cons k ks)
  show ?case
  proof (cases "gpu_read32 D (pm + of_nat k * 24 + 16) m = 0")
    case True
    then have "scan_modes D pm ks m = Inr info" using Cons.prems(2) by simp
    with Cons.IH obtain i us vs where "ks = us @ i # vs" "gpu_read32 D (pm + of_nat i * 24 + 16) m \<noteq> 0"
      "\<forall>j \<in> set us. gpu_read32 D (pm + of_nat j * 24 + 16) m = 0"
      "di_width info = gpu_read32 D (pm + of_nat i * 24 + 8) m" "di_height info = gpu_read32 D (pm + of_nat i * 24 + 12) m" by blast
    then show ?thesis using True by (intro Cons.prems(1) [of "k # us" i vs]) auto
  next
    case False
    then show ?thesis using Cons.prems(2) by (intro Cons.prems(1) [of "[]" k ks]) (auto simp: Let_def)
  qed
qed simp

definition picture :: "nat \<Rightarrow> nat \<Rightarrow> u32 list" where
  "picture w h = concat (map (\<lambda>y. replicate w (if 40 \<le> h \<and> h div 2 - 20 \<le> y \<and> y < h div 2 + 20 then AMBER else NAVY)) [0..<h])"

lemma picture_length: "length (picture w h) = w * h"
proof -
  have "length (concat (map (\<lambda>y. replicate w (f y)) [0..<h])) = w * h" for f :: "nat \<Rightarrow> u32"
    by (induction h) simp_all
  then show ?thesis by (simp add: picture_def)
qed

lemma paint_picture_eq:
  assumes "paint_picture (ucast (w :: u32)) (ucast (h :: u32)) = Inr ps"
  shows "0 < unat w \<and> ps = picture (unat w) (unat h)"
proof -
  let ?h = "ucast h :: usize"
  have u: "unat (ucast w :: usize) = unat w" "unat ?h = unat h"
    using unat_bound [of w] unat_bound [of h] by (simp_all add: unsigned_ucast_eq take_bit_nat_eq_self)
  have half: "unat (?h div 2) = unat h div 2" by (simp add: unat_div u)
  have hi: "unat (?h div 2 + 20) = unat h div 2 + 20"
    using unat_bound [of h] half by (simp add: unat_word_ariths)
  have band: "?h div 2 - 20 \<le> of_nat y \<and> of_nat y < ?h div 2 + 20 \<longleftrightarrow> 40 \<le> unat h \<and> unat h div 2 - 20 \<le> y \<and> y < unat h div 2 + 20"
    if y: "y < unat h" for y
  proof -
    have uy: "unat (of_nat y :: usize) = y" using y unat_bound [of h] by (intro unat_of_nat_small) simp
    show ?thesis
    proof (cases "40 \<le> unat h")
      case True
      then have "unat (?h div 2 - 20) = unat h div 2 - 20" using half by (subst unat_sub) (simp_all add: word_le_nat_alt)
      then show ?thesis using True uy hi by (simp add: word_le_nat_alt word_less_nat_alt)
    next
      case False
      then have "unat (?h div 2) < 20" using half by simp
      then have "unat (?h div 2 - 20) = 2 ^ 64 + unat (?h div 2) - 20" by (simp add: unat_sub_if_size word_size word_le_nat_alt)
      then have "\<not> ?h div 2 - 20 \<le> of_nat y" using uy y unat_bound [of h] by (simp add: word_le_nat_alt)
      then show ?thesis using False by simp
    qed
  qed
  have "ps = concat (map (\<lambda>y. replicate (unat w) (if ?h div 2 - 20 \<le> of_nat y \<and> of_nat y < ?h div 2 + 20 then AMBER else NAVY)) [0..<unat h])" "w \<noteq> 0"
    using assms u by (auto simp: paint_picture_def Let_def and_then_eq_Inr)
  moreover have "map (\<lambda>y. replicate (unat w) (if ?h div 2 - 20 \<le> of_nat y \<and> of_nat y < ?h div 2 + 20 then AMBER else NAVY)) [0..<unat h] =
      map (\<lambda>y. replicate (unat w) (if 40 \<le> unat h \<and> unat h div 2 - 20 \<le> y \<and> y < unat h div 2 + 20 then AMBER else NAVY)) [0..<unat h]"
    by (rule map_cong [OF refl]) (simp only: set_upt atLeastLessThan_iff band)
  ultimately show ?thesis by (simp add: picture_def unat_gt_0)
qed

definition present_trace :: "u32 \<Rightarrow> u32 \<Rightarrow> u64 \<Rightarrow> gpu_event list" where
  "present_trace w h a =
     (let full = \<lparr>r_x = 0, r_y = 0, r_width = w, r_height = h\<rparr>; ok = Gpu_answer 0x1100 in
      [Gpu_cmd (Bare (hdr_cmd 0x100)), Gpu_answer 0x1101, Gpu_pixels a (replicate (unat w * unat h) 0),
       Gpu_cmd (ResourceCreate2d (hdr_cmd 0x101) 1 2 w h), ok,
       Gpu_cmd (ResourceAttachBackingOne (hdr_cmd 0x106) 1 1 \<lparr>me_addr = a, me_length = w * h * 4\<rparr>), ok,
       Gpu_pixels a (picture (unat w) (unat h)),
       Gpu_cmd (SetScanout (hdr_cmd 0x103) full 0 1), ok,
       Gpu_cmd (TransferToHost2d (hdr_cmd 0x105) full 0 1), ok,
       Gpu_cmd (ResourceFlush (hdr_cmd 0x104) full 1), ok])"

lemma copy_full:
  assumes "length src = gr_width g * gr_height g" "gr_width g = unat w" "gr_height g = unat h"
  shows "copy_rect \<lparr>r_x = 0, r_y = 0, r_width = w, r_height = h\<rparr> 0 src g = src"
proof (rule nth_equalityI)
  show "length (copy_rect \<lparr>r_x = 0, r_y = 0, r_width = w, r_height = h\<rparr> 0 src g) = length src" using assms(1) by (simp add: copy_rect_def)
  fix i assume "i < length (copy_rect \<lparr>r_x = 0, r_y = 0, r_width = w, r_height = h\<rparr> 0 src g)"
  then have i: "i < unat w * unat h" using assms(2,3) by (simp add: copy_rect_def)
  then have "0 < unat w" by (cases "unat w") auto
  moreover from i have "i div unat w < unat h" by (simp add: less_mult_imp_div_less mult.commute)
  ultimately show "copy_rect \<lparr>r_x = 0, r_y = 0, r_width = w, r_height = h\<rparr> 0 src g ! i = src ! i"
    using i assms(2,3) by (simp add: copy_rect_def Let_def)
qed

lemma host_presents:
  assumes "0 < unat w" "0 < unat h" "4 * (unat w * unat h) < 2 ^ 32"
  shows "\<exists>s. host_run (present_trace w h a) gpu_host_reset = Some s \<and> gh_shown s 0 = Some (picture (unat w) (unat h))"
proof -
  define n where "n = unat w * unat h"
  have n: "n < 1073741824" using assms(3) unfolding n_def [symmetric] by simp
  have "unat (w * h) = n" unfolding unat_word_ariths n_def [symmetric] using n by simp
  then have "unat (w * h * 4) = n * 4" using n by (simp add: unat_word_ariths(2) [of "w * h"])
  then have "unat (w * h * 4) = unat w * unat h * 4" by (simp only: n_def)
  moreover have "(unat h - 1) * unat w + unat w = unat w * unat h" using assms(2) by (cases "unat h") simp_all
  ultimately show ?thesis
    using assms picture_length [of "unat w" "unat h"]
    by (simp add: present_trace_def Let_def gpu_host_reset_def inside_def copy_full)
qed

text \<open>
  C24. The picture reaches the screen. If the bring-up finds a device and returns, then it issued exactly the
  six commands, each after the device had answered the previous one with success, and stored the
  picture in the backing before the transfer; and by the meaning of the commands every one of
  them is allowed when it is issued and scanout 0 finally shows the picture: navy, with a band of forty amber
  rows around the middle when there are at least forty rows. This holds for every display with
  fewer than 2^30 pixels and at least one row.
\<close>
theorem gpu_presents:
  assumes "gpu_init D S alloc pf cfg hhdm bx fa m = returns (True, fa', m')"
  shows "\<exists>w h a. gm_trace m' = gm_trace m @ present_trace w h a \<and> 0 < unat w \<and>
    (0 < unat h \<and> 4 * (unat w * unat h) < 2 ^ 32 \<longrightarrow>
      (\<exists>s. host_run (present_trace w h a) gpu_host_reset = Some s \<and> gh_shown s 0 = Some (picture (unat w) (unat h))))"
proof -
  obtain q np m0 q' where p: "gpu_present D S alloc hhdm bx q np m0 = returns (q', m')" and t0: "gm_trace m0 = gm_trace m"
    using assms by (auto simp: gpu_init_def run_then_eq_ret Let_def split_beta split: option.splits)
  obtain info q1 m1 fb q2 m2 q3 m3 ps q4 m4 q5 m5 where
    g: "get_display_info D S hhdm (bx 0) q np m0 = returns (info, q1, m1)" and
    c1: "cmd_nodata D S hhdm (bx 1) q1 np (ResourceCreate2d (hdr_cmd VIRTIO_GPU_CMD_RESOURCE_CREATE_2D) SCANOUT_RESOURCE_ID
       VIRTIO_GPU_FORMAT_B8G8R8X8_UNORM (di_width info) (di_height info))
       (store_pixels S hhdm fb (replicate (unat (ucast (di_width info) * ucast (di_height info) :: usize)) 0) m1) = returns (q2, m2)" and
    c2: "cmd_nodata D S hhdm (bx 2) q2 np (ResourceAttachBackingOne (hdr_cmd VIRTIO_GPU_CMD_RESOURCE_ATTACH_BACKING) SCANOUT_RESOURCE_ID 1
       \<lparr>me_addr = fb - hhdm, me_length = ucast (ucast (di_width info) * ucast (di_height info) * 4 :: usize)\<rparr>) m2 = returns (q3, m3)" and
    pp: "paint_picture (ucast (di_width info)) (ucast (di_height info)) = Inr ps" and
    c3: "cmd_nodata D S hhdm (bx 3) q3 np (SetScanout (hdr_cmd VIRTIO_GPU_CMD_SET_SCANOUT)
       \<lparr>r_x = 0, r_y = 0, r_width = di_width info, r_height = di_height info\<rparr> SCANOUT_ID SCANOUT_RESOURCE_ID) (store_pixels S hhdm fb ps m3) = returns (q4, m4)" and
    c4: "cmd_nodata D S hhdm (bx 4) q4 np (TransferToHost2d (hdr_cmd VIRTIO_GPU_CMD_TRANSFER_TO_HOST_2D)
       \<lparr>r_x = 0, r_y = 0, r_width = di_width info, r_height = di_height info\<rparr> 0 SCANOUT_RESOURCE_ID) m4 = returns (q5, m5)" and
    c5: "cmd_nodata D S hhdm (bx 5) q5 np (ResourceFlush (hdr_cmd VIRTIO_GPU_CMD_RESOURCE_FLUSH)
       \<lparr>r_x = 0, r_y = 0, r_width = di_width info, r_height = di_height info\<rparr> SCANOUT_RESOURCE_ID) m5 = returns (q', m')"
    using p by (auto simp: gpu_present_def run_then_eq_ret Let_def)
  let ?w = "di_width info" and ?h = "di_height info"
  have t1: "gm_trace m1 = gm_trace m @ [Gpu_cmd (Bare (hdr_cmd 0x100)), Gpu_answer 0x1101]"
    using g t0 by (auto simp: get_display_info_def run_then_eq_ret VIRTIO_GPU_CMD_GET_DISPLAY_INFO_def VIRTIO_GPU_RESP_OK_DISPLAY_INFO_def
        dest!: gpu_xfer_trace)
  have wh: "unat (ucast ?w * ucast ?h :: usize) = unat ?w * unat ?h"
  proof -
    have u: "unat (ucast ?w :: usize) = unat ?w" "unat (ucast ?h :: usize) = unat ?h"
      using unat_bound [of ?w] unat_bound [of ?h] by (simp_all add: unsigned_ucast_eq take_bit_nat_eq_self)
    have "unat ?w * unat ?h < 2 ^ 32 * 2 ^ 32" using unat_bound [of ?w] unat_bound [of ?h] by (intro mult_strict_mono) simp_all
    then show ?thesis by (simp add: unat_word_ariths u)
  qed
  have l4: "ucast (ucast ?w * ucast ?h * 4 :: usize) = ?w * ?h * 4"
  proof (rule unsigned_word_eqI)
    have "unat (ucast (ucast ?w * ucast ?h * 4 :: usize) :: u32) = unat ?w * unat ?h * 4 mod 2 ^ 64 mod 2 ^ 32"
      unfolding unsigned_ucast_eq take_bit_eq_mod unat_word_ariths(2) [of "ucast ?w * ucast ?h"] wh by simp
    also have "\<dots> = unat ?w * unat ?h * 4 mod 2 ^ 32" by (simp add: mod_mod_cancel)
    also have "\<dots> = unat (?w * ?h * 4)" by (simp add: unat_word_ariths mod_mult_left_eq)
    finally show "unat (ucast (ucast ?w * ucast ?h * 4 :: usize) :: u32) = unat (?w * ?h * 4)" .
  qed
  note pic = paint_picture_eq [OF pp]
  have "gm_trace m' = gm_trace m @ present_trace ?w ?h (fb - hhdm)"
    using t1 cmd_nodata_trace [OF c1] cmd_nodata_trace [OF c2] cmd_nodata_trace [OF c3] cmd_nodata_trace [OF c4] cmd_nodata_trace [OF c5] pic wh l4
    by (simp add: present_trace_def Let_def store_pixels_def gpu_log_def gpu_dev_def VIRTIO_GPU_CMD_RESOURCE_CREATE_2D_def
        VIRTIO_GPU_CMD_RESOURCE_ATTACH_BACKING_def VIRTIO_GPU_CMD_SET_SCANOUT_def VIRTIO_GPU_CMD_TRANSFER_TO_HOST_2D_def
        VIRTIO_GPU_CMD_RESOURCE_FLUSH_def SCANOUT_RESOURCE_ID_def SCANOUT_ID_def VIRTIO_GPU_FORMAT_B8G8R8X8_UNORM_def)
  moreover have "0 < unat ?w" using pic by simp
  ultimately show ?thesis using host_presents [of ?w ?h "fb - hhdm"]
    by (intro exI [of _ ?w] exI [of _ ?h] exI [of _ "fb - hhdm"]) simp
qed

section \<open>A device that answers\<close>

text \<open>
  With a device that completes the newest chain before every poll, a submission on an idle queue
  succeeds at the first poll and leaves the queue idle.
\<close>

definition vq_idle :: "virtqueue \<Rightarrow> bool" where
  "vq_idle q \<longleftrightarrow> (\<exists>fl. vq_split \<lparr>vq = q, last_avail = avail_idx q, taken = []\<rparr> fl [] [] [] \<and> 2 \<le> length fl)"

definition prompt_device :: "'d virtio_hw \<Rightarrow> bool" where
  "prompt_device D \<longleftrightarrow> (\<forall>q d. vh_run D q d = (used_push q (avail_ring q ! unat ((avail_idx q - 1) mod qsize q)) 24, d))"

lemma virtq_new_idle: "virtq_new pf fa sz = Inr (q, fa') \<Longrightarrow> 2 \<le> unat sz \<Longrightarrow> vq_idle q"
  using virtq_new_split [of pf fa sz q fa' "\<lparr>vq = q, last_avail = avail_idx q, taken = []\<rparr>"]
  by (auto simp: vq_idle_def virtq_new_def and_then_eq_Inr Let_def)

lemma prompt_round:
  assumes "vq_idle q" "prompt_device D"
  shows "\<exists>h q1 e q2. push_chain q [p1, p2] = Inr (Some h, q1) \<and> pop_used (fst (vh_run D q1 d)) = Some (Inr (Some e, q2)) \<and> vq_idle q2"
proof -
  let ?s = "\<lambda>q l t. \<lparr>vq = q, last_avail = l, taken = t\<rparr>"
  obtain fl where sp: "vq_split (?s q (avail_idx q) []) fl [] [] []" and fl: "2 \<le> length fl" using assms(1) by (auto simp: vq_idle_def)
  have inv: "vq_ok q" "vq_accounted q fl []" using sp by (simp_all add: vq_split_def)
  then have "2 \<le> unat (num_free q)" using fl by (simp add: accounted_def)
  then obtain h q1 where push: "push_chain q [p1, p2] = Inr (Some h, q1)" and ai: "avail_idx q1 = avail_idx q + 1"
    using push_chain_eq [OF inv, of "[p1, p2]"] by auto
  from vq_split_push [OF sp, of "[p1, p2]" "Some h" q1] push obtain r fl' where
    r: "fl = r @ fl'" "length r = 2" and s1: "vq_split (?s q1 (avail_idx q) []) fl' [r] [] []" by auto
  from vq_split_fetch [OF s1] ai obtain r' where r': "[r] = [r']"
    and s2: "vq_split (?s q1 (avail_idx q + 1) [avail_ring q1 ! unat (avail_idx q mod qsize q1)]) fl' [] [r'] []" by auto
  let ?q = "used_push q1 (avail_ring q1 ! unat (avail_idx q mod qsize q1)) 24"
  have s3: "vq_split (?s ?q (avail_idx q + 1) []) fl' [] [] [r]"
    using vq_split_complete [OF s2, of "[]" _ "[]" 24] r' by (auto simp: Cons_eq_append_conv)
  from vq_split_pop [OF s3] obtain e q2 where pop: "pop_used ?q = Some (Inr (Some e, q2))"
    and s4: "vq_split (?s q2 (avail_idx q + 1) []) (rev r @ fl') [] [] []" by auto
  from s4 have "avail_idx q2 = avail_idx q + 1" by (simp add: vq_split_def)
  with s4 r have "vq_idle q2" unfolding vq_idle_def by (intro exI [of _ "rev r @ fl'"]) simp
  with push pop ai assms(2) show ?thesis by (auto simp: prompt_device_def)
qed

lemma prompt_submit:
  assumes "vq_idle q" "prompt_device D"
  shows "\<exists>q' m'. vq_idle q' \<and> gpu_submit D q notify_ptr a l b k m = returns (q', m')"
proof -
  have n: "(1000001 :: nat) = Suc 1000000" by simp
  let ?m = "m\<lparr>gm_io := notify D notify_ptr CONTROL_QUEUE_IDX (gm_io m)\<rparr>"
  from prompt_round [OF assms, of "(a, l, 0)" "(b, k, VIRTQ_DESC_F_WRITE)" "vm_dev (gm_io ?m)"] obtain h q1 e q2 where
    "push_chain q [(a, l, 0), (b, k, VIRTQ_DESC_F_WRITE)] = Inr (Some h, q1)"
    "pop_used (fst (vh_run D q1 (vm_dev (gm_io ?m)))) = Some (Inr (Some e, q2))" "vq_idle q2" by blast
  then show ?thesis
    unfolding gpu_submit_def n gpu_wait.simps by (auto simp: Let_def split_beta)
qed

text \<open>
  A device at 00:00.0 with its three configuration regions in BAR 0, at 0x1000, 0x3000 and 0x2000, that
  completes the newest chain before every poll. Its memory holds the answers to six boxes 64 KiB
  apart, and one mode of 2 by 1 pixels.
\<close>

definition demo_gpu_cfg :: config_space where
  "demo_gpu_cfg a = (case map_of [(0x80000000, 0x10501AF4), (0x80000004, 0x00100000), (0x80000034, 0x40),
     (0x80000040, 0x01105009), (0x80000048, 0x1000), (0x80000050, 0x02146409), (0x80000058, 0x3000), (0x80000060, 4),
     (0x80000064, 0x04100009), (0x8000006C, 0x2000)] a of Some v \<Rightarrow> v | None \<Rightarrow> 0)"

definition demo_gpu_bytes :: "u64 \<Rightarrow> u8" where
  "demo_gpu_bytes a = (case map_of [(0x10018, 1), (0x10019, 0x11), (0x10038, 2), (0x1003C, 1), (0x10040, 1),
     (0x20029, 0x11), (0x30031, 0x11), (0x40031, 0x11), (0x50039, 0x11), (0x60031, 0x11)] a of Some v \<Rightarrow> v | None \<Rightarrow> 0)"

definition demo_gpu_hw :: "u64 virtio_hw" where
  "demo_gpu_hw = \<lparr>vh_read = (\<lambda>a d. (if a = 0x1014 then d else if a = 0x1018 then 256 else 1, d)),
     vh_write = (\<lambda>a v d. if a = 0x1014 then v else d),
     vh_run = (\<lambda>q d. (used_push q (avail_ring q ! unat ((avail_idx q - 1) mod qsize q)) 24, d)),
     vh_byte = (\<lambda>a d. demo_gpu_bytes a)\<rparr>"

definition demo_gpu_init :: "(bool \<times> frame_allocator \<times> u64 gpu_m) run" where
  "demo_gpu_init = gpu_init demo_gpu_hw (\<lambda>a bs d. d) (\<lambda>n. Inr 0x70000) Inr demo_gpu_cfg 0 (\<lambda>i. of_nat (i + 1) * 0x10000)
     \<lparr>free = [0x5000], total_added_ctr = 1\<rparr> \<lparr>gm_io = \<lparr>vm_dev = 7, vm_log = []\<rparr>, gm_trace = []\<rparr>"

lemma demo_gpu_find: "find_device demo_gpu_cfg 0 VIRTIO_GPU_DEVICE_ID =
  Some (Some \<lparr>vd_bus = 0, vd_dev = 0, vd_func = 0, vd_device_id = 0x1050, vd_common_cfg = 0x1000, vd_notify_base = 0x3000,
    vd_notify_off_multiplier = 4, vd_isr = 0, vd_device_cfg = 0x2000\<rparr>)"
  by code_simp

lemma demo_gpu_prompt: "prompt_device demo_gpu_hw"
  by (simp add: prompt_device_def demo_gpu_hw_def)

lemma demo_gpu_xfer:
  assumes "vq_idle q" "of_nat (le_nat (map (\<lambda>i. demo_gpu_bytes (b + req_size r + of_nat i)) [0..<4])) = wanted"
  shows "\<exists>q' m'. vq_idle q' \<and> gpu_xfer demo_gpu_hw S hhdm b q np r n wanted m = returns (q', m')"
proof -
  let ?m = "gpu_log (Gpu_cmd r) (gpu_dev (S b (req_bytes r @ replicate (unat n) 0)) m)"
  obtain q' m' where "vq_idle q'"
    "gpu_submit demo_gpu_hw q np (b - hhdm) (ucast (req_size r)) ((b + req_size r) - hhdm) (ucast n) ?m = returns (q', m')"
    using prompt_submit [OF assms(1) demo_gpu_prompt] by blast
  moreover have "gpu_read32 demo_gpu_hw (b + req_size r) m' = wanted"
    using assms(2) by (simp add: gpu_read32_def demo_gpu_hw_def)
  ultimately show ?thesis by (simp add: gpu_xfer_def Let_def)
qed

abbreviation demo_gpu_box :: "nat \<Rightarrow> u64" where
  "demo_gpu_box \<equiv> \<lambda>i. of_nat (i + 1) * 0x10000"

lemma demo_gpu_cmd:
  assumes "vq_idle q" "i < 6" "req_size r = [24, 40, 48, 48, 56, 48] ! i" "0 < i"
  shows "\<exists>q' m'. vq_idle q' \<and> cmd_nodata demo_gpu_hw S 0 (demo_gpu_box i) q np r m = returns (q', m')"
proof -
  have "i = 1 \<or> i = 2 \<or> i = 3 \<or> i = 4 \<or> i = 5" using assms(2,4) by linarith
  then have "of_nat (le_nat (map (\<lambda>k. demo_gpu_bytes (demo_gpu_box i + req_size r + of_nat k)) [0..<4])) = VIRTIO_GPU_RESP_OK_NODATA"
    using assms(3) by (elim disjE) (simp_all add: demo_gpu_bytes_def VIRTIO_GPU_RESP_OK_NODATA_def upt_rec)
  from demo_gpu_xfer [OF assms(1) this] show ?thesis by (simp add: cmd_nodata_def)
qed

lemma demo_gpu_mode:
  assumes "vq_idle q"
  shows "\<exists>q' m'. vq_idle q' \<and> get_display_info demo_gpu_hw S 0 (demo_gpu_box 0) q np m =
    returns (\<lparr>di_width = 2, di_height = 1, di_format = Xrgb8888\<rparr>, q', m')"
proof -
  let ?r = "Bare (hdr_cmd VIRTIO_GPU_CMD_GET_DISPLAY_INFO)"
  have "of_nat (le_nat (map (\<lambda>k. demo_gpu_bytes (demo_gpu_box 0 + req_size ?r + of_nat k)) [0..<4])) = VIRTIO_GPU_RESP_OK_DISPLAY_INFO"
    by (simp add: demo_gpu_bytes_def VIRTIO_GPU_RESP_OK_DISPLAY_INFO_def upt_rec req_size_def)
  from demo_gpu_xfer [OF assms this] obtain q' m' where idle: "vq_idle q'" and
    x: "gpu_xfer demo_gpu_hw S 0 (demo_gpu_box 0) q np ?r RESP_DISPLAY_INFO_SIZE VIRTIO_GPU_RESP_OK_DISPLAY_INFO m = returns (q', m')" by blast
  have "[0..<MAX_SCANOUTS] = 0 # [1..<16]" by (simp add: MAX_SCANOUTS_def upt_conv_Cons)
  then have "scan_modes demo_gpu_hw (demo_gpu_box 0 + HDR_SIZE + HDR_SIZE) [0..<MAX_SCANOUTS] m' =
      Inr \<lparr>di_width = 2, di_height = 1, di_format = Xrgb8888\<rparr>"
    by (simp add: HDR_SIZE_def gpu_read32_def demo_gpu_hw_def demo_gpu_bytes_def upt_rec del: upt_rec_numeral)
  with idle x show ?thesis by (simp add: get_display_info_def)
qed

lemma run_then_idle:
  assumes "\<exists>q m. vq_idle q \<and> x = returns (q, m)" "\<And>q m. vq_idle q \<Longrightarrow> \<exists>r. f (q, m) = returns r"
  shows "\<exists>r. run_then x f = returns r"
  using assms by auto

lemma demo_gpu_present:
  assumes "vq_idle q"
  shows "\<exists>r. gpu_present demo_gpu_hw S (\<lambda>n. Inr 0x70000) 0 demo_gpu_box q np m = returns r"
proof -
  obtain ps where ps: "paint_picture 2 1 = Inr ps" by (simp add: paint_picture_def)
  obtain q' m' where idle: "vq_idle q'" and mode: "get_display_info demo_gpu_hw S 0 (demo_gpu_box 0) q np m =
      returns (\<lparr>di_width = 2, di_height = 1, di_format = Xrgb8888\<rparr>, q', m')" using demo_gpu_mode [OF assms] by blast
  have rs: "req_size (ResourceCreate2d c i f w h) = [24, 40, 48, 48, 56, 48] ! 1"
    "req_size (ResourceAttachBackingOne c i n e) = [24, 40, 48, 48, 56, 48] ! 2"
    "req_size (SetScanout c r f i) = [24, 40, 48, 48, 56, 48] ! 3"
    "req_size (TransferToHost2d c r off i) = [24, 40, 48, 48, 56, 48] ! 4"
    "req_size (ResourceFlush c r i) = [24, 40, 48, 48, 56, 48] ! 5" for c i f w h n e r off
    by (simp_all add: req_size_def)
  have p: "paint_picture (ucast (2 :: u32)) (ucast (1 :: u32)) = Inr ps" using ps by simp
  have ex: "(\<exists>q m. vq_idle q \<and> x = returns (q, m)) \<Longrightarrow> \<exists>r. x = returns r" for x :: "(virtqueue \<times> u64 gpu_m) run" by blast
  show ?thesis
    unfolding gpu_present_def mode run_then_simps prod.case display_info.simps Let_def p
    by (intro run_then_idle [OF demo_gpu_cmd [OF _ _ rs(1)]] run_then_idle [OF demo_gpu_cmd [OF _ _ rs(2)]] run_then_idle [OF demo_gpu_cmd [OF _ _ rs(3)]]
        run_then_idle [OF demo_gpu_cmd [OF _ _ rs(4)]] ex [OF demo_gpu_cmd [OF _ _ rs(5)]] idle | simp only: prod.case run_then_simps | simp)+
qed

definition demo_gpu_queue :: "(virtqueue \<times> frame_allocator) outcome" where
  "demo_gpu_queue = virtq_new Inr \<lparr>free = [0x5000], total_added_ctr = 1\<rparr> CONTROL_QUEUE_SIZE"

definition demo_gpu_transport :: "(u64 \<times> u64 virtio_m) outcome" where
  "demo_gpu_transport = init_transport demo_gpu_hw \<lparr>vd_bus = 0, vd_dev = 0, vd_func = 0, vd_device_id = 0x1050, vd_common_cfg = 0x1000,
     vd_notify_base = 0x3000, vd_notify_off_multiplier = 4, vd_isr = 0, vd_device_cfg = 0x2000\<rparr>
     (push_bit 32 (ucast VIRTIO_F_VERSION_1)) \<lparr>vm_dev = 7, vm_log = []\<rparr>"

lemma demo_gpu_queue_ok: "\<not> isl demo_gpu_queue" by code_simp
lemma demo_gpu_transport_ok: "\<not> isl demo_gpu_transport" by code_simp

lemma demo_gpu_activate: "qsize q = 16 \<Longrightarrow> vd_common_cfg v = 0x1000 \<Longrightarrow> \<exists>r. activate_queue demo_gpu_hw v i q io = Inr r"
  by (simp add: activate_queue_def Let_def split_beta cc_read16_def CC_QUEUE_SIZE_def demo_gpu_hw_def)

lemma demo_gpu_returns: "\<exists>fa m. demo_gpu_init = returns (True, fa, m)"
proof -
  obtain q fa where q: "demo_gpu_queue = Inr (q, fa)" using demo_gpu_queue_ok by (metis isl_def prod.exhaust sum.exhaust)
  obtain feat io where t: "demo_gpu_transport = Inr (feat, io)" using demo_gpu_transport_ok by (metis isl_def prod.exhaust sum.exhaust)
  have idle: "vq_idle q" "qsize q = 16"
    using virtq_new_idle [OF q [unfolded demo_gpu_queue_def]] q
    by (auto simp: CONTROL_QUEUE_SIZE_def demo_gpu_queue_def virtq_new_def and_then_eq_Inr Let_def)
  let ?v = "\<lparr>vd_bus = 0, vd_dev = 0, vd_func = 0, vd_device_id = 0x1050, vd_common_cfg = 0x1000, vd_notify_base = 0x3000,
    vd_notify_off_multiplier = 4, vd_isr = 0, vd_device_cfg = 0x2000\<rparr> :: virtio_device"
  let ?io = "snd (cc_read32 demo_gpu_hw 0x2000 GPU_CFG_NUM_SCANOUTS io)"
  obtain np io' where a: "activate_queue demo_gpu_hw ?v CONTROL_QUEUE_IDX q ?io = Inr (np, io')"
    using demo_gpu_activate [OF idle(2), of ?v CONTROL_QUEUE_IDX ?io] by (metis prod.exhaust virtio_device.select_convs(5))
  obtain q' m' where "gpu_present demo_gpu_hw (\<lambda>a bs d. d) (\<lambda>n. Inr 0x70000) 0 demo_gpu_box q np
      \<lparr>gm_io = set_driver_ok demo_gpu_hw ?v io', gm_trace = []\<rparr> = returns (q', m')"
    using demo_gpu_present [OF idle(1)] by (metis prod.exhaust)
  then show ?thesis
    using q t a by (simp add: demo_gpu_init_def gpu_init_def demo_gpu_find demo_gpu_queue_def demo_gpu_transport_def split_beta)
qed

theorem gpu_presents_witness:
  "\<exists>fa m w h a. demo_gpu_init = returns (True, fa, m) \<and> gm_trace m = present_trace w h a \<and> 0 < unat w"
proof -
  obtain fa m where d: "demo_gpu_init = returns (True, fa, m)" using demo_gpu_returns by blast
  from gpu_presents [OF d [unfolded demo_gpu_init_def]] obtain w h a where "gm_trace m = present_trace w h a" "0 < unat w" by auto
  then show ?thesis using d by blast
qed

end
