(* ===== verification/Net.thy ===== *)
theory Net
  imports Prelude "HOL-Library.Sublist"
begin

unbundle bit_operations_syntax

text \<open>
  The network task, arsenal-kernel/src/net.rs: the TCP probe, the TLS handshake and the DHCP lease,
  driven from one polling loop. The TCP/IP stack (smoltcp) and the TLS engine (rustls) are not part of the
  repository: what they do is a parameter of every operation. The interface, the device and the
  socket set together are one state of type \<open>'w\<close>, an engine is a state of type \<open>'c\<close>. The trace
  records the bytes that cross the two boundaries and the lines printed.
\<close>

section \<open>Model\<close>

definition MAC :: "u8 list" where "MAC = [0x52, 0x54, 0x00, 0x4a, 0x52, 0x53]"
definition TCP_SMOKE_HOST :: "u8 list" where "TCP_SMOKE_HOST = [10, 0, 2, 2]"
definition TCP_SMOKE_PORT :: u16 where "TCP_SMOKE_PORT = 12345"
definition TCP_LOCAL_PORT :: u16 where "TCP_LOCAL_PORT = 49152"
definition TCP_BUF_BYTES :: nat where "TCP_BUF_BYTES = 4096"
definition TLS_SMOKE_PORT :: u16 where "TLS_SMOKE_PORT = 12346"
definition TLS_LOCAL_PORT :: u16 where "TLS_LOCAL_PORT = 49153"
definition TCP_TLS_BUF_BYTES :: nat where "TCP_TLS_BUF_BYTES = 16 * 1024"
definition TLS_OUTGOING_INITIAL :: nat where "TLS_OUTGOING_INITIAL = 4096"

text \<open>The states of the TLS engine and the answers of its encoder.\<close>

datatype conn_state =
  EncodeTlsData | TransmitTlsData | BlockedHandshake | WriteTraffic | Closed | PeerClosed | ReadTraffic | ReadEarlyData | OtherState

datatype encode_result = EncOk nat | InsufficientSize nat | EncErr

type_synonym ipv4 = "u8 list"

datatype dhcp_event = Configured ipv4 nat "ipv4 option" | Deconfigured

datatype dhcp_action = Configure ipv4 nat "ipv4 option" | Deconfigure

text \<open>
  The two libraries. A socket is named by its handle; looking up a handle that is not in the set
  panics. The engine works on the buffer of received bytes in place, and reports how many of
  them it is done with.
\<close>

record ('w, 'c) net_env =
  ne_rdtsc :: "'w \<Rightarrow> u64 \<times> 'w"
  ne_interface :: "u8 list \<Rightarrow> u64 \<Rightarrow> 'w \<Rightarrow> 'w"
  ne_dhcp_socket :: "'w \<Rightarrow> nat \<times> 'w"
  ne_poll :: "u64 \<Rightarrow> 'w \<Rightarrow> 'w"
  ne_connect :: "nat \<Rightarrow> ipv4 \<Rightarrow> u16 \<Rightarrow> u16 \<Rightarrow> 'w \<Rightarrow> nat option \<times> 'w"
  ne_established :: "nat \<Rightarrow> 'w \<Rightarrow> bool outcome"
  ne_can_recv :: "nat \<Rightarrow> 'w \<Rightarrow> bool"
  ne_recv :: "nat \<Rightarrow> 'w \<Rightarrow> u8 list option \<times> 'w"
  ne_can_send :: "nat \<Rightarrow> 'w \<Rightarrow> bool"
  ne_send_slice :: "nat \<Rightarrow> u8 list \<Rightarrow> 'w \<Rightarrow> nat option \<times> 'w"
  ne_remove :: "nat \<Rightarrow> 'w \<Rightarrow> 'w outcome"
  ne_dhcp_poll :: "nat \<Rightarrow> 'w \<Rightarrow> (dhcp_event option \<times> 'w) outcome"
  ne_set_addrs :: "(ipv4 \<times> nat) list \<Rightarrow> 'w \<Rightarrow> 'w"
  ne_add_route :: "ipv4 \<Rightarrow> 'w \<Rightarrow> 'w"
  ne_remove_route :: "'w \<Rightarrow> 'w"
  ne_tls_new :: "'w \<Rightarrow> 'c option \<times> 'w"
  ne_process :: "u8 list \<Rightarrow> 'c \<Rightarrow> u8 list \<times> nat \<times> conn_state option \<times> 'c"
  ne_encode :: "u8 list \<Rightarrow> 'c \<Rightarrow> encode_result \<times> u8 list \<times> 'c"
  ne_transmit_done :: "'c \<Rightarrow> 'c"

record 'c tls_state =
  ts_conn :: 'c
  incoming :: "u8 list"
  outgoing :: "u8 list"
  handshake_done :: bool

datatype net_event =
    Ev_line string
  | Ev_poll u64
  | Ev_start nat \<comment> \<open>a TLS connection begins on a socket\<close>
  | Ev_recv "u8 list" \<comment> \<open>received from the socket\<close>
  | Ev_call "u8 list" "u8 list" \<comment> \<open>a call of the engine: the received bytes before and after\<close>
  | Ev_discard nat
  | Ev_encoded "u8 list"
  | Ev_sent "u8 list" \<comment> \<open>accepted by the socket\<close>
  | Ev_done
  | Ev_remove nat

record ('w, 'c) net_stack =
  ns_world :: 'w \<comment> \<open>iface, device, sockets\<close>
  dhcp_handle :: nat
  configured :: bool
  tcp_handle :: "nat option"
  tcp_ok :: bool
  tls_tcp_handle :: "nat option"
  tls :: "'c tls_state option"
  tls_ok :: bool
  ns_trace :: "net_event list"

definition net_log :: "net_event \<Rightarrow> ('w, 'c) net_stack \<Rightarrow> ('w, 'c) net_stack" where
  "net_log e s = s\<lparr>ns_trace := ns_trace s @ [e]\<rparr>"

definition clock_now :: "('w, 'c) net_env \<Rightarrow> 'w \<Rightarrow> u64 \<times> 'w" where
  "clock_now E w = (let (tsc, w) = ne_rdtsc E w in (tsc div 3000, w))"

definition net_init :: "('w, 'c) net_env \<Rightarrow> 'w \<Rightarrow> ('w, 'c) net_stack" where
  "net_init E w =
     (let (now, w) = clock_now E w;
          w = ne_interface E MAC now w;
          (h, w) = ne_dhcp_socket E w
      in \<lparr>ns_world = w, dhcp_handle = h, configured = False, tcp_handle = None, tcp_ok = False, tls_tcp_handle = None,
          tls = None, tls_ok = False, ns_trace = [Ev_line ''net: smoltcp Interface up'']\<rparr>)"

definition start_tcp_smoke :: "('w, 'c) net_env \<Rightarrow> ('w, 'c) net_stack \<Rightarrow> ('w, 'c) net_stack" where
  "start_tcp_smoke E s =
     (let (r, w) = ne_connect E TCP_BUF_BYTES TCP_SMOKE_HOST TCP_SMOKE_PORT TCP_LOCAL_PORT (ns_world s);
          s = s\<lparr>ns_world := w\<rparr>
      in case r of
           None \<Rightarrow> net_log (Ev_line ''net: TCP connect refused'') s
         | Some h \<Rightarrow> net_log (Ev_line ''net: TCP connect'') (s\<lparr>tcp_handle := Some h\<rparr>))"

definition start_tls_smoke :: "('w, 'c) net_env \<Rightarrow> ('w, 'c) net_stack \<Rightarrow> ('w, 'c) net_stack" where
  "start_tls_smoke E s =
     (let (r, w) = ne_connect E TCP_TLS_BUF_BYTES TCP_SMOKE_HOST TLS_SMOKE_PORT TLS_LOCAL_PORT (ns_world s);
          s = s\<lparr>ns_world := w\<rparr>
      in case r of
           None \<Rightarrow> net_log (Ev_line ''net: TLS-TCP connect refused'') s
         | Some h \<Rightarrow>
             let s = s\<lparr>tls_tcp_handle := Some h\<rparr>;
                 (c, w) = ne_tls_new E (ns_world s);
                 s = s\<lparr>ns_world := w\<rparr>
             in case c of
                  None \<Rightarrow> net_log (Ev_line ''net: TLS client construct failed'') s
                | Some conn \<Rightarrow>
                    net_log (Ev_line ''net: TLS connect'') (net_log (Ev_start h)
                      (s\<lparr>tls := Some \<lparr>ts_conn = conn, incoming = [], outgoing = [], handshake_done = False\<rparr>\<rparr>)))"

text \<open>\<open>Vec::resize\<close>, \<open>Vec::truncate\<close> and \<open>Vec::drain(..n)\<close>.\<close>

definition vec_resize :: "u8 list \<Rightarrow> nat \<Rightarrow> u8 list" where
  "vec_resize v n = take n v @ replicate (n - length v) 0"

definition vec_drain :: "nat \<Rightarrow> u8 list \<Rightarrow> u8 list outcome" where
  "vec_drain n v = and_then (rust_assert (n \<le> length v)) (\<lambda>_. Inr (drop n v))"

text \<open>The loop around the encoder: the flag says that the handshake cannot go on.\<close>

partial_function (option) encode_loop ::
    "('w, 'c) net_env \<Rightarrow> nat \<Rightarrow> nat \<Rightarrow> u8 list \<Rightarrow> 'c \<Rightarrow> (bool \<times> u8 list \<times> 'c) option" where
  "encode_loop E start try_size out c =
     (let out = vec_resize out (start + try_size)
      in case ne_encode E (drop start out) c of (r, piece, c) \<Rightarrow>
           (let out = take start out @ piece
            in case r of
                 EncOk n \<Rightarrow> Some (False, take (start + n) out, c)
               | InsufficientSize required_size \<Rightarrow> encode_loop E start required_size out c
               | EncErr \<Rightarrow> Some (True, take start out, c)))"

text \<open>
  One round of the loop of drive\_rustls: what it does in a state of the engine, with the flag stop, and the
  value the function returns, if it returns.
\<close>

definition rustls_state ::
    "('w, 'c) net_env \<Rightarrow> conn_state \<Rightarrow> 'c tls_state \<Rightarrow> net_event list \<Rightarrow> (bool \<times> 'c tls_state \<times> net_event list) run" where
  "rustls_state E st t tr =
     (case st of
        EncodeTlsData \<Rightarrow>
          (case encode_loop E (length (outgoing t)) (max TLS_OUTGOING_INITIAL 2048) (outgoing t) (ts_conn t) of
             None \<Rightarrow> None
           | Some (failed, out, c) \<Rightarrow>
               returns (failed, t\<lparr>outgoing := out, ts_conn := c\<rparr>,
                 tr @ (if failed then [Ev_line ''tls: encode error''] else [Ev_encoded (drop (length (outgoing t)) out)])))
      | TransmitTlsData \<Rightarrow> returns (False, t\<lparr>ts_conn := ne_transmit_done E (ts_conn t)\<rparr>, tr)
      | BlockedHandshake \<Rightarrow> returns (True, t, tr)
      | WriteTraffic \<Rightarrow> returns (True, t\<lparr>handshake_done := True\<rparr>, tr @ [Ev_done])
      | Closed \<Rightarrow> returns (True, t, tr @ [Ev_line ''tls: connection closed mid-handshake''])
      | PeerClosed \<Rightarrow> returns (True, t, tr @ [Ev_line ''tls: connection closed mid-handshake''])
      | ReadTraffic \<Rightarrow> returns (False, t, tr)
      | ReadEarlyData \<Rightarrow> returns (False, t, tr)
      | OtherState \<Rightarrow> returns (True, t, tr))"

definition rustls_step ::
    "('w, 'c) net_env \<Rightarrow> 'c tls_state \<Rightarrow> net_event list \<Rightarrow> (bool option \<times> 'c tls_state \<times> net_event list) run" where
  "rustls_step E t tr =
     (let (buf, discard, state, c) = ne_process E (incoming t) (ts_conn t);
          tr = tr @ [Ev_call (incoming t) buf];
          t = t\<lparr>incoming := buf, ts_conn := c\<rparr>
      in case state of
           None \<Rightarrow> returns (Some False, t, tr @ [Ev_line ''tls: process_tls_records error''])
         | Some st \<Rightarrow>
             run_then (rustls_state E st t tr) (\<lambda>(stop, t, tr).
             run_then (if discard > 0
                       then Some (and_then (vec_drain discard (incoming t)) (\<lambda>b. Inr (t\<lparr>incoming := b\<rparr>, tr @ [Ev_discard discard])))
                       else returns (t, tr)) (\<lambda>(t, tr).
             returns (if stop then Some (handshake_done t) else None, t, tr))))"

partial_function (option) drive_rustls ::
    "('w, 'c) net_env \<Rightarrow> 'c tls_state \<Rightarrow> net_event list \<Rightarrow> (bool \<times> 'c tls_state \<times> net_event list) run" where
  "drive_rustls E t tr =
     (case rustls_step E t tr of
        None \<Rightarrow> None
      | Some (Inl e) \<Rightarrow> Some (Inl e)
      | Some (Inr (Some b, t, tr)) \<Rightarrow> returns (b, t, tr)
      | Some (Inr (None, t, tr)) \<Rightarrow> drive_rustls E t tr)"

partial_function (option) recv_loop ::
    "('w, 'c) net_env \<Rightarrow> nat \<Rightarrow> 'c tls_state \<Rightarrow> net_event list \<Rightarrow> 'w \<Rightarrow> ('c tls_state \<times> net_event list \<times> 'w) option" where
  "recv_loop E h t tr w =
     (if ne_can_recv E h w
      then case ne_recv E h w of (chunk, w) \<Rightarrow>
        (case chunk of
           None \<Rightarrow> Some (t, tr, w)
         | Some c \<Rightarrow> if c \<noteq> [] then recv_loop E h (t\<lparr>incoming := incoming t @ c\<rparr>) (tr @ [Ev_recv c]) w else Some (t, tr, w))
      else Some (t, tr, w))"

partial_function (option) send_loop ::
    "('w, 'c) net_env \<Rightarrow> nat \<Rightarrow> 'c tls_state \<Rightarrow> net_event list \<Rightarrow> 'w \<Rightarrow> ('c tls_state \<times> net_event list \<times> 'w) run" where
  "send_loop E h t tr w =
     (if outgoing t \<noteq> [] \<and> ne_can_send E h w
      then case ne_send_slice E h (outgoing t) w of (r, w) \<Rightarrow>
        (let sent = (case r of None \<Rightarrow> 0 | Some n \<Rightarrow> n)
         in if sent = 0 then returns (t, tr, w)
            else case vec_drain sent (outgoing t) of
                   Inl e \<Rightarrow> Some (Inl e)
                 | Inr out \<Rightarrow> send_loop E h (t\<lparr>outgoing := out\<rparr>) (tr @ [Ev_sent (take sent (outgoing t))]) w)
      else returns (t, tr, w))"

text \<open>The second look-up of the socket, before the last flush, panics like the first.\<close>

definition pump_tls :: "('w, 'c) net_env \<Rightarrow> ('w, 'c) net_stack \<Rightarrow> ('w, 'c) net_stack run" where
  "pump_tls E s =
     (case (tls_tcp_handle s, tls s) of
        (Some h, Some t) \<Rightarrow>
          if handshake_done t then returns s
          else
            run_then (Some (ne_established E h (ns_world s))) (\<lambda>est.
            if \<not> est then returns s
            else
              run_then (map_option Inr (recv_loop E h t (ns_trace s) (ns_world s))) (\<lambda>(t, tr, w).
              run_then (send_loop E h t tr w) (\<lambda>(t, tr, w).
              run_then (drive_rustls E t tr) (\<lambda>(just_done, t, tr).
              run_then (Some (ne_established E h w)) (\<lambda>_.
              run_then (send_loop E h t tr w) (\<lambda>(t, tr, w).
              let s = s\<lparr>tls := Some t, ns_trace := tr, ns_world := w\<rparr>
              in if just_done \<and> \<not> tls_ok s
                 then let s = net_log (Ev_line ''ARSENAL_TLS_OK'') (net_log (Ev_line ''net: TLS 1.3 handshake complete'') s)\<lparr>tls_ok := True\<rparr>
                      in run_then (Some (ne_remove E h (ns_world s))) (\<lambda>w.
                         returns (net_log (Ev_remove h) (s\<lparr>ns_world := w, tls_tcp_handle := None, tls := None\<rparr>)))
                 else returns s))))))
      | _ \<Rightarrow> returns s)"

definition watch_tcp :: "('w, 'c) net_env \<Rightarrow> ('w, 'c) net_stack \<Rightarrow> ('w, 'c) net_stack outcome" where
  "watch_tcp E s =
     (case tcp_handle s of
        Some h \<Rightarrow>
          if tcp_ok s then Inr s
          else and_then (ne_established E h (ns_world s)) (\<lambda>est.
            if est then Inr (net_log (Ev_line ''ARSENAL_TCP_OK'') (net_log (Ev_line ''net: TCP established'') s)\<lparr>tcp_ok := True\<rparr>) else Inr s)
      | None \<Rightarrow> Inr s)"

definition dhcp_action_of :: "dhcp_event option \<Rightarrow> dhcp_action option" where
  "dhcp_action_of e = (case e of None \<Rightarrow> None | Some (Configured a n r) \<Rightarrow> Some (Configure a n r) | Some Deconfigured \<Rightarrow> Some Deconfigure)"

fun apply_action :: "('w, 'c) net_env \<Rightarrow> dhcp_action option \<Rightarrow> ('w, 'c) net_stack \<Rightarrow> ('w, 'c) net_stack" where
  "apply_action E None s = s"
| "apply_action E (Some (Configure a n router)) s =
     (let s = s\<lparr>ns_world := ne_set_addrs E [(a, n)] (ns_world s)\<rparr>;
          s = (case router of None \<Rightarrow> s | Some gw \<Rightarrow> s\<lparr>ns_world := ne_add_route E gw (ns_world s)\<rparr>)
      in if \<not> configured s
         then let s = (net_log (Ev_line ''net: DHCPv4 lease'') s)\<lparr>configured := True\<rparr>;
                  s = (if tcp_handle s = None then start_tcp_smoke E s else s)
              in if tls_tcp_handle s = None then start_tls_smoke E s else s
         else s)"
| "apply_action E (Some Deconfigure) s =
     (let s = s\<lparr>ns_world := ne_remove_route E (ne_set_addrs E [] (ns_world s))\<rparr>
      in if configured s then (net_log (Ev_line ''net: DHCPv4 lease lost'') s)\<lparr>configured := False\<rparr> else s)"

text \<open>One round of the loop of poll\_loop, under the lock.\<close>

definition poll_once :: "('w, 'c) net_env \<Rightarrow> ('w, 'c) net_stack \<Rightarrow> ('w, 'c) net_stack run" where
  "poll_once E s =
     (let (now, w) = clock_now E (ns_world s);
          s = net_log (Ev_poll now) (s\<lparr>ns_world := ne_poll E now w\<rparr>)
      in run_then (Some (watch_tcp E s)) (\<lambda>s.
         run_then (pump_tls E s) (\<lambda>s.
         run_then (Some (ne_dhcp_poll E (dhcp_handle s) (ns_world s))) (\<lambda>(ev, w).
         returns (apply_action E (dhcp_action_of ev) (s\<lparr>ns_world := w\<rparr>))))))"

section \<open>Bytes in and out\<close>

text \<open>
  What the trace says the two buffers hold, by a reference semantics of the events: received bytes queue
  up behind those the engine has left, every call of the engine sees exactly this queue, encoded
  bytes queue up behind those not yet sent, and what the socket accepts is the front of that queue.
\<close>

fun pipe_step :: "net_event \<Rightarrow> u8 list \<times> u8 list \<Rightarrow> (u8 list \<times> u8 list) option" where
  "pipe_step (Ev_start h) (i, out) = Some ([], [])"
| "pipe_step (Ev_recv c) (i, out) = Some (i @ c, out)"
| "pipe_step (Ev_call b a) (i, out) = (if b = i then Some (a, out) else None)"
| "pipe_step (Ev_discard n) (i, out) = (if n \<le> length i then Some (drop n i, out) else None)"
| "pipe_step (Ev_encoded c) (i, out) = Some (i, out @ c)"
| "pipe_step (Ev_sent c) (i, out) = (if prefix c out then Some (i, drop (length c) out) else None)"
| "pipe_step e p = Some p"

fun pipes :: "net_event list \<Rightarrow> u8 list \<times> u8 list \<Rightarrow> (u8 list \<times> u8 list) option" where
  "pipes [] p = Some p"
| "pipes (e # es) p = (case pipe_step e p of None \<Rightarrow> None | Some p \<Rightarrow> pipes es p)"

lemma pipes_append: "pipes (xs @ ys) p = (case pipes xs p of None \<Rightarrow> None | Some p \<Rightarrow> pipes ys p)"
  by (induction xs arbitrary: p) (auto split: option.splits)

definition flows :: "net_event list \<Rightarrow> 'c tls_state \<Rightarrow> bool" where
  "flows tr t \<longleftrightarrow> pipes tr ([], []) = Some (incoming t, outgoing t)"

lemma take_vec_resize: "start \<le> length v \<Longrightarrow> take start (vec_resize v (start + n)) = take start v"
  by (simp add: vec_resize_def min_def)

lemma encode_loop_out:
  assumes "encode_loop E start n out c = Some r" "start \<le> length out"
  shows "case r of (failed, out', c') \<Rightarrow> if failed then out' = take start out else take start out' = take start out"
  using assms
proof (induction rule: encode_loop.raw_induct [rotated 1, consumes 1])
  case (1 enc E start n out c r)
  obtain q piece c1 where e: "ne_encode E (drop start (vec_resize out (start + n))) c = (q, piece, c1)" using prod_cases3 by blast
  note keep = take_vec_resize [OF 1(3), of n]
  have l: "start \<le> length (take start out @ piece)" using 1(3) by simp
  have t: "take start (take start out @ piece) = take start out" using 1(3) by simp
  note body = 1(2) [unfolded Let_def e prod.case keep]
  show ?case
  proof (cases q)
    case (EncOk k)
    then have "r = (False, take (start + k) (take start out @ piece), c1)" using body by simp
    then show ?thesis using 1(3) by (simp add: min_def)
  next
    case (InsufficientSize k)
    then have "enc E start k (take start out @ piece) c1 = Some r" using body by simp
    from 1(1) [OF this l] show ?thesis unfolding t .
  next
    case EncErr
    then have "r = (True, take start out, c1)" using body 1(3) by simp
    then show ?thesis by simp
  qed
qed

text \<open>
  The events of the byte loops, and what every one of the loops does with the engine's buffers:
  it extends the trace by such events, keeps the buffers in step with the trace, and marks the
  handshake as done only when the engine has said so.
\<close>

fun tls_event :: "net_event \<Rightarrow> bool" where
  "tls_event (Ev_poll n) = False"
| "tls_event (Ev_start h) = False"
| "tls_event (Ev_remove h) = False"
| "tls_event (Ev_line l) = (l \<in> {''tls: process_tls_records error'', ''tls: encode error'', ''tls: connection closed mid-handshake''})"
| "tls_event _ = True"

definition carries :: "'c tls_state \<Rightarrow> net_event list \<Rightarrow> 'c tls_state \<Rightarrow> net_event list \<Rightarrow> bool" where
  "carries t tr t' tr' \<longleftrightarrow> (\<exists>xs. tr' = tr @ xs \<and> list_all tls_event xs \<and>
     pipes xs (incoming t, outgoing t) = Some (incoming t', outgoing t') \<and>
     (handshake_done t' \<longrightarrow> handshake_done t \<or> Ev_done \<in> set xs))"

lemma carries_refl [simp, intro]: "carries t tr t tr"
  by (simp add: carries_def)

lemma carriesI:
  "list_all tls_event xs \<Longrightarrow> pipes xs (incoming t, outgoing t) = Some (incoming t', outgoing t') \<Longrightarrow>
   (handshake_done t' \<Longrightarrow> handshake_done t \<or> Ev_done \<in> set xs) \<Longrightarrow> carries t tr t' (tr @ xs)"
  by (auto simp: carries_def)

lemma carries_trans: 
  assumes "carries t tr t1 tr1" "carries t1 tr1 t2 tr2"
  shows "carries t tr t2 tr2"
proof -
  obtain xs where x: "tr1 = tr @ xs" "list_all tls_event xs" "pipes xs (incoming t, outgoing t) = Some (incoming t1, outgoing t1)"
    "handshake_done t1 \<longrightarrow> handshake_done t \<or> Ev_done \<in> set xs" using assms(1) by (auto simp: carries_def)
  obtain ys where y: "tr2 = tr1 @ ys" "list_all tls_event ys" "pipes ys (incoming t1, outgoing t1) = Some (incoming t2, outgoing t2)"
    "handshake_done t2 \<longrightarrow> handshake_done t1 \<or> Ev_done \<in> set ys" using assms(2) by (auto simp: carries_def)
  show ?thesis unfolding carries_def
    by (rule exI [of _ "xs @ ys"]) (use x y in \<open>auto simp: pipes_append\<close>)
qed

lemma carries_encode:
  assumes "encode_loop E (length (outgoing t)) n (outgoing t) c = Some (failed, out, c')"
  shows "carries t tr (t\<lparr>outgoing := out, ts_conn := c'\<rparr>)
    (tr @ (if failed then [Ev_line ''tls: encode error''] else [Ev_encoded (drop (length (outgoing t)) out)]))"
proof -
  have "if failed then out = outgoing t else take (length (outgoing t)) out = outgoing t"
    using encode_loop_out [OF assms] by simp
  then show ?thesis
    by (intro carriesI) (auto split: if_splits, metis append_take_drop_id)
qed

lemma carries_conn: "carries t tr (t\<lparr>ts_conn := c\<rparr>) tr"
  using carriesI [of "[]" t "t\<lparr>ts_conn := c\<rparr>" tr] by simp

lemma rustls_state_carries:
  assumes "rustls_state E st t tr = returns (stop, t', tr')"
  shows "carries t tr t' tr'"
proof (cases "st = EncodeTlsData")
  case True
  then obtain failed out c where e: "encode_loop E (length (outgoing t)) (max TLS_OUTGOING_INITIAL 2048) (outgoing t) (ts_conn t) = Some (failed, out, c)"
    and r: "t' = t\<lparr>outgoing := out, ts_conn := c\<rparr>"
      "tr' = tr @ (if failed then [Ev_line ''tls: encode error''] else [Ev_encoded (drop (length (outgoing t)) out)])"
    using assms by (auto simp: rustls_state_def split: option.splits)
  show ?thesis unfolding r by (rule carries_encode [OF e])
next
  case False
  then show ?thesis using assms by (cases st) (auto simp: rustls_state_def carries_conn intro!: carriesI)
qed

lemma rustls_step_carries:
  assumes "rustls_step E t tr = returns (r, t', tr')"
  shows "carries t tr t' tr' \<and> (r = Some True \<longrightarrow> handshake_done t')"
proof -
  obtain buf discard state c where p: "ne_process E (incoming t) (ts_conn t) = (buf, discard, state, c)" by (metis prod_cases4)
  define t1 where "t1 = t\<lparr>incoming := buf, ts_conn := c\<rparr>"
  define tr1 where "tr1 = tr @ [Ev_call (incoming t) buf]"
  have c1: "carries t tr t1 tr1" unfolding tr1_def by (rule carriesI) (simp_all add: t1_def)
  note body = assms [unfolded rustls_step_def p Let_def prod.case, folded t1_def tr1_def]
  show ?thesis
  proof (cases state)
    case None
    then have "r = Some False" "t' = t1" "tr' = tr1 @ [Ev_line ''tls: process_tls_records error'']" using body by simp_all
    moreover have "carries t1 tr1 t1 (tr1 @ [Ev_line ''tls: process_tls_records error''])" by (rule carriesI) simp_all
    ultimately show ?thesis using carries_trans [OF c1] by auto
  next
    case (Some st)
    from body [unfolded Some option.case] obtain stop t2 tr2 where
      m: "carries t1 tr1 t2 tr2" and
      d: "run_then (if discard > 0
            then Some (and_then (vec_drain discard (incoming t2)) (\<lambda>b. Inr (t2\<lparr>incoming := b\<rparr>, tr2 @ [Ev_discard discard])))
            else returns (t2, tr2))
          (\<lambda>(t, tr). returns (if stop then Some (handshake_done t) else None, t, tr)) = returns (r, t', tr')"
      unfolding run_then_eq_ret [of "rustls_state E st t1 tr1"] by (auto dest: rustls_state_carries)
    have "carries t2 tr2 t' tr' \<and> (r = Some True \<longrightarrow> handshake_done t')"
      using d by (auto simp: run_then_eq_ret vec_drain_def and_then_eq_Inr split: if_splits intro!: carriesI)
    then show ?thesis using carries_trans [OF carries_trans [OF c1 m]] by blast
  qed
qed

lemma drive_rustls_carries:
  assumes "drive_rustls E t tr = Some r" "r = Inr (b, t', tr')"
  shows "carries t tr t' tr' \<and> (b \<longrightarrow> handshake_done t')"
  using assms
proof (induction arbitrary: rule: drive_rustls.raw_induct [rotated 1, consumes 1])
  case (1 dr E t tr r)
  show ?case
  proof (cases "rustls_step E t tr")
    case (Some q)
    then obtain v t1 tr1 where q: "rustls_step E t tr = returns (v, t1, tr1)" using 1(2,3) by (cases q) auto
    note c = rustls_step_carries [OF q]
    show ?thesis
    proof (cases v)
      case None
      then have "dr E t1 tr1 = Some r" using 1(2) q by simp
      from 1(1) [OF this 1(3)] c show ?thesis using carries_trans by blast
    next
      case (Some b')
      then show ?thesis using 1(2,3) q c by auto
    qed
  qed (use 1(2) in simp)
qed

lemma recv_loop_carries:
  assumes "recv_loop E h t tr w = Some r" "r = (t', tr', w')"
  shows "carries t tr t' tr'"
  using assms
proof (induction rule: recv_loop.raw_induct [rotated 1, consumes 1])
  case (1 rl E h t tr w r)
  obtain chunk w1 where rc: "ne_recv E h w = (chunk, w1)" by force
  show ?case
  proof (cases "ne_can_recv E h w \<and> chunk \<noteq> None \<and> chunk \<noteq> Some []")
    case True
    then obtain c where c: "chunk = Some c" "c \<noteq> []" by auto
    then have "rl E h (t\<lparr>incoming := incoming t @ c\<rparr>) (tr @ [Ev_recv c]) w1 = Some r" using 1(2) rc True by simp
    from 1(1) [OF this 1(3)] have "carries (t\<lparr>incoming := incoming t @ c\<rparr>) (tr @ [Ev_recv c]) t' tr'" .
    moreover have "carries t tr (t\<lparr>incoming := incoming t @ c\<rparr>) (tr @ [Ev_recv c])" by (rule carriesI) simp_all
    ultimately show ?thesis using carries_trans by blast
  next
    case False
    then show ?thesis using 1(2,3) rc by (auto split: if_splits option.splits)
  qed
qed

lemma send_loop_carries:
  assumes "send_loop E h t tr w = Some r" "r = Inr (t', tr', w')"
  shows "carries t tr t' tr'"
  using assms
proof (induction rule: send_loop.raw_induct [rotated 1, consumes 1])
  case (1 sl E h t tr w r)
  obtain q w1 where sc: "ne_send_slice E h (outgoing t) w = (q, w1)" by force
  define sent where "sent = (case q of None \<Rightarrow> 0 | Some n \<Rightarrow> n)"
  show ?case
  proof (cases "outgoing t \<noteq> [] \<and> ne_can_send E h w \<and> sent \<noteq> 0")
    case True
    note body = 1(2) [unfolded sc prod.case Let_def, folded sent_def]
    have le: "sent \<le> length (outgoing t)" using body True 1(3) by (auto simp: vec_drain_def rust_assert_def split: if_splits)
    let ?t = "t\<lparr>outgoing := drop sent (outgoing t)\<rparr>" and ?tr = "tr @ [Ev_sent (take sent (outgoing t))]"
    have "sl E h ?t ?tr w1 = Some r" using body True le by (simp add: vec_drain_def)
    from 1(1) [OF this 1(3)] have "carries ?t ?tr t' tr'" .
    moreover have "carries t tr ?t ?tr" by (rule carriesI) (use le in \<open>simp_all add: take_is_prefix\<close>)
    ultimately show ?thesis using carries_trans by blast
  next
    case False
    then show ?thesis using 1(2,3) sc by (auto simp: sent_def split: if_splits)
  qed
qed

section \<open>The polling loop\<close>

lemma pump_tls_cases:
  assumes "pump_tls E s = returns s'"
  obtains (idle) "s' = s"
  | (moved) t t' tr w where "tls s = Some t" "carries t (ns_trace s) t' tr" "s' = s\<lparr>tls := Some t', ns_trace := tr, ns_world := w\<rparr>"
  | (finished) h t t' tr w where "tls_tcp_handle s = Some h" "tls s = Some t" "carries t (ns_trace s) t' tr"
      "Ev_done \<in> set tr" "\<not> tls_ok s"
      "s' = s\<lparr>tls_ok := True, ns_world := w, tls_tcp_handle := None, tls := None,
        ns_trace := tr @ [Ev_line ''net: TLS 1.3 handshake complete'', Ev_line ''ARSENAL_TLS_OK'', Ev_remove h]\<rparr>"
proof (cases "s' = s")
  case False
  then obtain h t where h: "tls_tcp_handle s = Some h" "tls s = Some t" "\<not> handshake_done t"
    using assms by (auto simp: pump_tls_def split: option.splits if_splits)
  from assms False obtain t1 tr1 w1 t2 tr2 w2 b t3 tr3 t4 tr4 w4 where
    r: "recv_loop E h t (ns_trace s) (ns_world s) = Some (t1, tr1, w1)" and
    s1: "send_loop E h t1 tr1 w1 = returns (t2, tr2, w2)" and
    d: "drive_rustls E t2 tr2 = returns (b, t3, tr3)" and
    s2: "send_loop E h t3 tr3 w2 = returns (t4, tr4, w4)" and
    fin: "(let s = s\<lparr>tls := Some t4, ns_trace := tr4, ns_world := w4\<rparr>
      in if b \<and> \<not> tls_ok s
         then let s = net_log (Ev_line ''ARSENAL_TLS_OK'') (net_log (Ev_line ''net: TLS 1.3 handshake complete'') s)\<lparr>tls_ok := True\<rparr>
              in run_then (Some (ne_remove E h (ns_world s))) (\<lambda>w.
                 returns (net_log (Ev_remove h) (s\<lparr>ns_world := w, tls_tcp_handle := None, tls := None\<rparr>)))
         else returns s) = returns s'"
    by (auto simp: pump_tls_def h run_then_eq_ret split: if_splits)
  have c: "carries t (ns_trace s) t3 tr3" and b: "b \<longrightarrow> handshake_done t3"
    using recv_loop_carries [OF r refl] send_loop_carries [OF s1 refl] drive_rustls_carries [OF d refl] carries_trans by blast+
  have c4: "carries t (ns_trace s) t4 tr4" using c send_loop_carries [OF s2 refl] carries_trans by blast
  show ?thesis
  proof (cases "b \<and> \<not> tls_ok s")
    case True
    then have "Ev_done \<in> set tr3" using c b h(3) by (auto simp: carries_def)
    then have dn: "Ev_done \<in> set tr4" using send_loop_carries [OF s2 refl] by (auto simp: carries_def)
    from fin True obtain w where "s' = s\<lparr>tls_ok := True, ns_world := w, tls_tcp_handle := None, tls := None,
        ns_trace := tr4 @ [Ev_line ''net: TLS 1.3 handshake complete'', Ev_line ''ARSENAL_TLS_OK'', Ev_remove h]\<rparr>"
      by (auto simp: run_then_eq_ret net_log_def Let_def)
    then show ?thesis using finished [OF h(1,2) c4 dn] True by blast
  next
    case False
    then have "s' = s\<lparr>tls := Some t4, ns_trace := tr4, ns_world := w4\<rparr>" using fin by (auto simp: Let_def)
    then show ?thesis using moved [OF h(2) c4] by blast
  qed
qed (rule idle)

text \<open>A round of the loop, or any change of the world outside it: the wire, the device, the clock.\<close>

inductive task_step :: "('w, 'c) net_env \<Rightarrow> ('w, 'c) net_stack \<Rightarrow> ('w, 'c) net_stack \<Rightarrow> bool" for E where
  step_poll: "poll_once E s = returns s' \<Longrightarrow> task_step E s s'"
| step_world: "task_step E s (s\<lparr>ns_world := w\<rparr>)"

definition lines :: "string \<Rightarrow> net_event list \<Rightarrow> nat" where
  "lines l tr = length (filter (\<lambda>e. e = Ev_line l) tr)"

lemma lines_simps [simp]:
  "lines l [] = 0"
  "lines l (e # es) = (if e = Ev_line l then 1 else 0) + lines l es"
  "lines l (xs @ ys) = lines l xs + lines l ys"
  by (simp_all add: lines_def)

definition announced :: "net_event list \<Rightarrow> bool" where
  "announced tr \<longleftrightarrow> (\<exists>xs ys. tr = xs @ Ev_line ''ARSENAL_TLS_OK'' # ys \<and> Ev_done \<in> set xs)"

lemma announced_append: "announced xs \<Longrightarrow> announced (xs @ ys)"
  unfolding announced_def by (metis append_Cons append_assoc)

definition task_inv :: "('w, 'c) net_stack \<Rightarrow> bool" where
  "task_inv s \<longleftrightarrow>
     (\<exists>p. pipes (ns_trace s) ([], []) = Some p) \<and>
     (\<forall>t. tls s = Some t \<longrightarrow> flows (ns_trace s) t \<and> (\<exists>h. Ev_start h \<in> set (ns_trace s))) \<and>
     lines ''ARSENAL_TCP_OK'' (ns_trace s) = (if tcp_ok s then 1 else 0) \<and>
     lines ''net: TCP connect'' (ns_trace s) = (if tcp_handle s = None then 0 else 1) \<and>
     lines ''ARSENAL_TLS_OK'' (ns_trace s) = (if tls_ok s then 1 else 0) \<and>
     (tls_ok s \<longrightarrow> announced (ns_trace s))"

lemma tls_events_lines:
  assumes "list_all tls_event xs" "l \<notin> {''tls: process_tls_records error'', ''tls: encode error'', ''tls: connection closed mid-handshake''}"
  shows "lines l xs = 0"
  using assms by (induction xs) (auto simp del: insert_iff)

lemma task_inv_quiet:
  assumes "task_inv s" "tls s' = tls s" "tcp_ok s' = tcp_ok s" "tcp_handle s' = tcp_handle s" "tls_ok s' = tls_ok s"
    and "ns_trace s' = ns_trace s @ xs" "\<forall>p. pipes xs p = Some p"
    and "lines ''ARSENAL_TCP_OK'' xs = 0" "lines ''net: TCP connect'' xs = 0" "lines ''ARSENAL_TLS_OK'' xs = 0"
  shows "task_inv s'"
  using assms by (auto simp: task_inv_def flows_def pipes_append announced_append split: option.splits)

lemma task_inv_log:
  "task_inv s \<Longrightarrow> l \<notin> {''ARSENAL_TCP_OK'', ''net: TCP connect'', ''ARSENAL_TLS_OK''} \<Longrightarrow> task_inv (net_log (Ev_line l) s)"
  by (rule task_inv_quiet [where xs = "[Ev_line l]"]) (auto simp: net_log_def)

lemma task_inv_fields [simp]:
  "task_inv (s\<lparr>ns_world := w\<rparr>) = task_inv s"
  "task_inv (s\<lparr>configured := b\<rparr>) = task_inv s" "task_inv (s\<lparr>tls_tcp_handle := r\<rparr>) = task_inv s"
  by (simp_all add: task_inv_def)

lemma task_inv_init: "task_inv (net_init E w)"
  by (simp add: net_init_def clock_now_def task_inv_def Let_def split_beta)

lemma task_inv_watch:
  assumes "watch_tcp E s = Inr s'" "task_inv s"
  shows "task_inv s'"
proof (cases "s' = s")
  case False
  then have "s' = net_log (Ev_line ''ARSENAL_TCP_OK'') (net_log (Ev_line ''net: TCP established'') s)\<lparr>tcp_ok := True\<rparr>" "\<not> tcp_ok s"
    using assms(1) by (auto simp: watch_tcp_def and_then_eq_Inr split: option.splits if_splits)
  then show ?thesis
    using assms(2) by (auto simp: task_inv_def net_log_def flows_def pipes_append announced_append split: option.splits)
qed (use assms in simp)

lemma task_inv_pump:
  assumes "pump_tls E s = returns s'" "task_inv s"
  shows "task_inv s'"
  using assms(1)
proof (cases rule: pump_tls_cases)
  case (moved t t' tr w)
  then obtain xs where xs: "tr = ns_trace s @ xs" "list_all tls_event xs" "pipes xs (incoming t, outgoing t) = Some (incoming t', outgoing t')"
    by (auto simp: carries_def)
  then show ?thesis
    using assms(2) moved tls_events_lines [OF xs(2)] by (auto simp: task_inv_def flows_def pipes_append announced_append)
next
  case (finished h t t' tr w)
  then obtain xs where xs: "tr = ns_trace s @ xs" "list_all tls_event xs" "pipes xs (incoming t, outgoing t) = Some (incoming t', outgoing t')"
    by (auto simp: carries_def)
  have "announced (tr @ [Ev_line ''net: TLS 1.3 handshake complete'', Ev_line ''ARSENAL_TLS_OK'', Ev_remove h])"
    unfolding announced_def
    by (rule exI [of _ "tr @ [Ev_line ''net: TLS 1.3 handshake complete'']"], rule exI [of _ "[Ev_remove h]"]) (use finished(4) in simp)
  then show ?thesis
    using assms(2) finished xs tls_events_lines [OF xs(2)] by (auto simp: task_inv_def flows_def pipes_append)
qed (use assms(2) in simp)

lemma task_inv_tcp:
  assumes "task_inv s" "tcp_handle s = None"
  shows "task_inv (start_tcp_smoke E s)"
proof -
  obtain r w where r: "ne_connect E TCP_BUF_BYTES TCP_SMOKE_HOST TCP_SMOKE_PORT TCP_LOCAL_PORT (ns_world s) = (r, w)" by force
  show ?thesis
  proof (cases r)
    case None
    then show ?thesis using r assms(1) by (simp add: start_tcp_smoke_def task_inv_log)
  next
    case (Some h)
    then show ?thesis
      using r assms by (auto simp: start_tcp_smoke_def task_inv_def net_log_def flows_def pipes_append announced_append split: option.splits)
  qed
qed

lemma task_inv_tls:
  assumes "task_inv s"
  shows "task_inv (start_tls_smoke E s)"
proof -
  obtain r w where r: "ne_connect E TCP_TLS_BUF_BYTES TCP_SMOKE_HOST TLS_SMOKE_PORT TLS_LOCAL_PORT (ns_world s) = (r, w)" by force
  show ?thesis
  proof (cases r)
    case None
    then show ?thesis using r assms(1) by (simp add: start_tls_smoke_def task_inv_log)
  next
    case (Some h)
    obtain c w' where c: "ne_tls_new E w = (c, w')" by force
    show ?thesis
    proof (cases c)
      case None
      then show ?thesis using r c Some assms by (simp add: start_tls_smoke_def task_inv_log)
    next
      case (Some conn)
      then show ?thesis using r c \<open>r = Some h\<close> assms
        by (auto simp: start_tls_smoke_def task_inv_def net_log_def flows_def pipes_append announced_append split: option.splits)
    qed
  qed
qed

lemma task_inv_action: "task_inv s \<Longrightarrow> task_inv (apply_action E a s)"
  by (induction E a s rule: apply_action.induct)
    (auto simp: Let_def task_inv_log task_inv_tcp task_inv_tls split: option.splits)

lemma task_inv_poll:
  assumes "poll_once E s = returns s'" "task_inv s"
  shows "task_inv s'"
proof -
  obtain now w where now: "clock_now E (ns_world s) = (now, w)" by force
  define s0 where "s0 = net_log (Ev_poll now) (s\<lparr>ns_world := ne_poll E now w\<rparr>)"
  from assms(1) obtain s1 s2 ev w' where
    s1: "watch_tcp E s0 = Inr s1" and s2: "pump_tls E s1 = returns s2" and
    s': "s' = apply_action E (dhcp_action_of ev) (s2\<lparr>ns_world := w'\<rparr>)"
    by (auto simp: poll_once_def now Let_def s0_def run_then_eq_ret)
  have "task_inv s0" by (rule task_inv_quiet [OF assms(2), of _ "[Ev_poll now]"]) (simp_all add: s0_def net_log_def)
  then have "task_inv s2" using task_inv_watch [OF s1] task_inv_pump [OF s2] by blast
  then show ?thesis unfolding s' by (simp add: task_inv_action)
qed

definition task_start :: "('w, 'c) net_env \<Rightarrow> ('w, 'c) net_stack \<Rightarrow> bool" where
  "task_start E s \<longleftrightarrow> (\<exists>w. s = net_init E w)"

interpretation nettask: invariant_system "task_start E" "task_step E" task_inv for E :: "('w, 'c) net_env"
proof
  show "task_inv s" if "task_start E s" for s using that by (auto simp: task_start_def task_inv_init)
  show "task_inv t" if "task_inv s" "task_step E s t" for s t
    using that(2,1) by cases (simp_all add: task_inv_poll)
qed

lemma task_reachable_inv: "task_start E s\<^sub>0 \<Longrightarrow> reachable (task_step E) s\<^sub>0 s \<Longrightarrow> task_inv s"
  by (rule nettask.reachable_inv)

text \<open>What the events of a connection sent and encoded.\<close>

definition sent_bytes :: "net_event list \<Rightarrow> u8 list" where
  "sent_bytes tr = concat (map (\<lambda>e. case e of Ev_sent c \<Rightarrow> c | _ \<Rightarrow> []) tr)"

definition encoded_bytes :: "net_event list \<Rightarrow> u8 list" where
  "encoded_bytes tr = concat (map (\<lambda>e. case e of Ev_encoded c \<Rightarrow> c | _ \<Rightarrow> []) tr)"

lemma pipes_out:
  assumes "pipes tr (i, out) = Some (i', out')" "\<forall>h. Ev_start h \<notin> set tr"
  shows "out @ encoded_bytes tr = sent_bytes tr @ out'"
  using assms
proof (induction tr arbitrary: i out)
  case Nil
  then show ?case by (simp add: encoded_bytes_def sent_bytes_def)
next
  case (Cons e es)
  obtain i1 out1 where p: "pipe_step e (i, out) = Some (i1, out1)" "pipes es (i1, out1) = Some (i', out')"
    using Cons.prems(1) by (auto split: option.splits)
  have ih: "out1 @ encoded_bytes es = sent_bytes es @ out'" using Cons.IH [OF p(2)] Cons.prems(2) by auto
  show ?case
    using p(1) ih Cons.prems(2)
    by (cases e) (auto simp: encoded_bytes_def sent_bytes_def prefix_def split: if_splits)
qed


text \<open>
  The sentinels are printed at most once each: TCP\_OK once for the one TCP probe there ever is, TLS\_OK
  once, and only after the engine has reported the end of a handshake. 
\<close>
theorem net_sentinels_once:
  assumes "task_start E s\<^sub>0" "reachable (task_step E) s\<^sub>0 s"
  shows "lines ''ARSENAL_TCP_OK'' (ns_trace s) \<le> 1 \<and> lines ''net: TCP connect'' (ns_trace s) \<le> 1 \<and>
    lines ''ARSENAL_TLS_OK'' (ns_trace s) \<le> 1 \<and>
    (\<forall>xs ys. ns_trace s = xs @ Ev_line ''ARSENAL_TLS_OK'' # ys \<longrightarrow> Ev_done \<in> set xs)"
proof -
  let ?ok = "Ev_line ''ARSENAL_TLS_OK''"
  have inv: "task_inv s" by (rule task_reachable_inv [OF assms])
  then have n: "lines ''ARSENAL_TLS_OK'' (ns_trace s) = (if tls_ok s then 1 else 0)" and ann: "tls_ok s \<longrightarrow> announced (ns_trace s)"
    and le: "lines ''ARSENAL_TCP_OK'' (ns_trace s) \<le> 1" "lines ''net: TCP connect'' (ns_trace s) \<le> 1"
    unfolding task_inv_def by simp_all
  have one: "?ok \<notin> set as \<and> ?ok \<notin> set bs" if "ns_trace s = as @ ?ok # bs" for as bs
  proof -
    have "lines ''ARSENAL_TLS_OK'' as + lines ''ARSENAL_TLS_OK'' bs = 0" using n that by (simp split: if_splits)
    then show ?thesis by (auto simp: lines_def filter_empty_conv)
  qed
  have "Ev_done \<in> set xs" if tr: "ns_trace s = xs @ ?ok # ys" for xs ys
  proof -
    have "tls_ok s" using n tr by (simp split: if_splits)
    then obtain us vs where u: "ns_trace s = us @ ?ok # vs" "Ev_done \<in> set us" using ann by (auto simp: announced_def)
    have "xs @ ?ok # ys = us @ ?ok # vs" using tr u(1) by simp
    then have "xs = us" using one [OF tr] one [OF u(1)] by (simp add: append_Cons_eq_iff)
    then show ?thesis using u(2) by simp
  qed
  then show ?thesis using le n by simp
qed

text \<open>No operation but the loop itself polls the interface.\<close>

definition no_poll :: "net_event list \<Rightarrow> bool" where
  "no_poll tr \<longleftrightarrow> (\<forall>n. Ev_poll n \<notin> set tr)"

lemma carries_no_poll: "carries t tr t' tr' \<Longrightarrow> \<exists>xs. tr' = tr @ xs \<and> no_poll xs"
  unfolding carries_def no_poll_def list_all_iff by (metis tls_event.simps(1))

lemma watch_tcp_extends:
  "watch_tcp E s = Inr s' \<Longrightarrow> \<exists>xs. ns_trace s' = ns_trace s @ xs \<and> no_poll xs \<and> tls_tcp_handle s' = tls_tcp_handle s \<and> tls_ok s' = tls_ok s"
  by (auto simp: watch_tcp_def and_then_eq_Inr net_log_def no_poll_def split: option.splits if_splits)

lemma start_extends:
  "\<exists>xs. ns_trace (start_tcp_smoke E s) = ns_trace s @ xs \<and> no_poll xs \<and> tls_ok (start_tcp_smoke E s) = tls_ok s"
  "\<exists>xs. ns_trace (start_tls_smoke E s) = ns_trace s @ xs \<and> no_poll xs \<and> tls_ok (start_tls_smoke E s) = tls_ok s"
  by (auto simp: start_tcp_smoke_def start_tls_smoke_def net_log_def no_poll_def split_beta Let_def split: option.splits)

lemma apply_action_extends:
  "\<exists>xs. ns_trace (apply_action E a s) = ns_trace s @ xs \<and> no_poll xs \<and> tls_ok (apply_action E a s) = tls_ok s"
proof -
  define P where "P s' = (\<exists>xs. ns_trace s' = ns_trace s @ xs \<and> no_poll xs \<and> tls_ok s' = tls_ok s)" for s' :: "('a, 'b) net_stack"
  have tcp: "P (start_tcp_smoke E s')" and tls: "P (start_tls_smoke E s')" if "P s'" for s'
    using that start_extends [where s = s' and E = E] unfolding P_def no_poll_def by (auto simp: ball_Un)
  have w: "P (s'\<lparr>ns_world := w\<rparr>) = P s'" "P (s'\<lparr>configured := b\<rparr>) = P s'" for s' w b by (simp_all add: P_def)
  have lg: "P (net_log (Ev_line l) s')" if "P s'" for l s' using that by (auto simp: P_def net_log_def no_poll_def)
  have "P s" by (simp add: P_def no_poll_def)
  then have "P (apply_action E a s)"
    by (cases "(E, a, s)" rule: apply_action.cases) (auto simp: Let_def w tcp tls lg split: option.splits)
  then show ?thesis by (simp add: P_def)
qed


section \<open>The loop around the engine returns\<close>

text \<open>
  What is asked of the engine: it is never done with more bytes than it was given; the encoder accepts a
  buffer of the size it has asked for; and every round that does not end the loop uses up
  something, measured by \<open>rank\<close>.
\<close>

definition encoder_ok :: "('w, 'c) net_env \<Rightarrow> ('c \<Rightarrow> nat) \<Rightarrow> nat \<Rightarrow> 'c \<Rightarrow> bool" where
  "encoder_ok E rank r c \<longleftrightarrow> (\<forall>buf. case ne_encode E buf c of
     (EncOk n, piece, c1) \<Rightarrow> rank c1 < r
   | (EncErr, piece, c1) \<Rightarrow> True
   | (InsufficientSize k, piece, c1) \<Rightarrow> (\<forall>buf1. length buf1 = k \<longrightarrow> (case ne_encode E buf1 c1 of
        (EncOk n, piece, c2) \<Rightarrow> rank c2 < r | (EncErr, piece, c2) \<Rightarrow> True | (InsufficientSize j, piece, c2) \<Rightarrow> False)))"

definition engine_ok :: "('w, 'c) net_env \<Rightarrow> ('c \<Rightarrow> nat) \<Rightarrow> bool" where
  "engine_ok E rank \<longleftrightarrow> (\<forall>b c b' n st c'. ne_process E b c = (b', n, Some st, c') \<longrightarrow> n \<le> length b' \<and>
     (st = EncodeTlsData \<longrightarrow> encoder_ok E rank (rank c) c') \<and>
     (st = TransmitTlsData \<longrightarrow> rank (ne_transmit_done E c') < rank c) \<and>
     (st = ReadTraffic \<or> st = ReadEarlyData \<longrightarrow> rank c' < rank c))"

lemma length_vec_resize [simp]: "length (vec_resize v n) = n"
  by (simp add: vec_resize_def)

lemma encode_loop_returns:
  assumes "encoder_ok E rank r c"
  shows "\<exists>failed out' c'. encode_loop E start n out c = Some (failed, out', c') \<and> (\<not> failed \<longrightarrow> rank c' < r)"
proof -
  obtain q piece c1 where e: "ne_encode E (drop start (vec_resize out (start + n))) c = (q, piece, c1)" using prod_cases3 by blast
  note ok = assms [unfolded encoder_ok_def, rule_format, of "drop start (vec_resize out (start + n))", unfolded e prod.case]
  show ?thesis
  proof (cases q)
    case (InsufficientSize k)
    let ?out = "take start (vec_resize out (start + n)) @ piece"
    obtain q2 piece2 c2 where e2: "ne_encode E (drop start (vec_resize ?out (start + k))) c1 = (q2, piece2, c2)" using prod_cases3 by blast
    have "case (q2, piece2, c2) of (EncOk n, piece, c2) \<Rightarrow> rank c2 < r | (EncErr, piece, c2) \<Rightarrow> True | (InsufficientSize j, piece, c2) \<Rightarrow> False"
      using ok InsufficientSize e2 [symmetric] by (auto simp del: take_append)
    then show ?thesis
      using e e2 InsufficientSize by (subst encode_loop.simps, cases q2) (auto simp: Let_def encode_loop.simps [of E start k])
  qed (use ok e in \<open>auto simp: encode_loop.simps [of E start n] Let_def\<close>)
qed

lemma rustls_step_returns:
  assumes "engine_ok E rank"
  shows "\<exists>v t' tr'. rustls_step E t tr = returns (v, t', tr') \<and> (v = None \<longrightarrow> rank (ts_conn t') < rank (ts_conn t))"
proof -
  obtain buf discard state c where p: "ne_process E (incoming t) (ts_conn t) = (buf, discard, state, c)" by (metis prod_cases4)
  let ?t = "t\<lparr>incoming := buf, ts_conn := c\<rparr>" and ?tr = "tr @ [Ev_call (incoming t) buf]"
  show ?thesis
  proof (cases state)
    case None
    then show ?thesis using p by (simp add: rustls_step_def)
  next
    case (Some st)
    note ok = assms [unfolded engine_ok_def, rule_format, OF p [unfolded Some]]
    have "\<exists>stop t1 tr1. rustls_state E st ?t ?tr = returns (stop, t1, tr1) \<and> incoming t1 = buf \<and> (\<not> stop \<longrightarrow> rank (ts_conn t1) < rank (ts_conn t))"
    proof (cases st)
      case EncodeTlsData
      then have "encoder_ok E rank (rank (ts_conn t)) c" using ok by simp
      from encode_loop_returns [OF this] obtain failed out' c' where
        "encode_loop E (length (outgoing t)) (max TLS_OUTGOING_INITIAL 2048) (outgoing t) c = Some (failed, out', c')"
        "\<not> failed \<longrightarrow> rank c' < rank (ts_conn t)" by blast
      then show ?thesis using EncodeTlsData by (simp add: rustls_state_def)
    qed (use ok in \<open>auto simp: rustls_state_def\<close>)
    then obtain stop t1 tr1 where "rustls_state E st ?t ?tr = returns (stop, t1, tr1)" "incoming t1 = buf"
      "\<not> stop \<longrightarrow> rank (ts_conn t1) < rank (ts_conn t)" by blast
    then show ?thesis using p Some ok by (simp add: rustls_step_def vec_drain_def)
  qed
qed

text \<open>
  An engine that stays in ReadTraffic, as it does when its records are not read, keeps the loop
  from ending.
\<close>

lemma drive_rustls_stuck:
  assumes "\<forall>b c. ne_process E b c = (b, 0, Some ReadTraffic, c)"
  shows "drive_rustls E t tr = None"
proof (rule ccontr)
  assume "drive_rustls E t tr \<noteq> None"
  then obtain r where "drive_rustls E t tr = Some r" by blast
  then show False
    using assms
  proof (induction rule: drive_rustls.raw_induct [rotated 1, consumes 1])
    case (1 dr E t tr r)
    have "rustls_step E t tr = returns (None, t, tr @ [Ev_call (incoming t) (incoming t)])"
      using 1(3) by (simp add: rustls_step_def rustls_state_def)
    then show ?case using 1 by auto
  qed
qed

text \<open>
  Driving the engine returns: with an engine that is never done with more bytes than it has, whose
  encoder accepts the size it has asked for, and that uses something up in every round
  that does not end the loop, the loop of drive\_rustls ends, and without a panic.
\<close>
theorem drive_rustls_returns:
  assumes "engine_ok E rank"
  shows "\<exists>b t' tr'. drive_rustls E t tr = returns (b, t', tr')"
proof (induction "rank (ts_conn t)" arbitrary: t tr rule: less_induct)
  case less
  obtain v t1 tr1 where s: "rustls_step E t tr = returns (v, t1, tr1)" "v = None \<longrightarrow> rank (ts_conn t1) < rank (ts_conn t)"
    using rustls_step_returns [OF assms] by blast
  show ?case
  proof (cases v)
    case None
    then show ?thesis using less [of t1 tr1] s by (subst drive_rustls.simps) simp
  next
    case (Some b)
    then show ?thesis using s(1) by (subst drive_rustls.simps) simp
  qed
qed

section \<open>A handshake\<close>

text \<open>
  An engine that sends two bytes, waits for an answer and is done; a stack that gets a lease in its
  first round, connects, accepts one byte at a time and receives one byte in the third round.
\<close>

definition demo_net :: "(nat, nat) net_env" where
  "demo_net = \<lparr>ne_rdtsc = (\<lambda>w. (of_nat w * 3000, w)), ne_interface = (\<lambda>m t w. w), ne_dhcp_socket = (\<lambda>w. (0, w)),
     ne_poll = (\<lambda>t w. w + 1), ne_connect = (\<lambda>n a p q w. (Some (if p = TCP_SMOKE_PORT then 1 else 2), w)),
     ne_established = (\<lambda>h w. Inr (2 \<le> w)), ne_can_recv = (\<lambda>h w. w = 3), ne_recv = (\<lambda>h w. (Some [7], w + 100)),
     ne_can_send = (\<lambda>h w. True), ne_send_slice = (\<lambda>h b w. (Some 1, w)), ne_remove = (\<lambda>h w. Inr w),
     ne_dhcp_poll = (\<lambda>h w. Inr (if w = 1 then Some (Configured [10, 0, 2, 15] 24 (Some [10, 0, 2, 2])) else None, w)),
     ne_set_addrs = (\<lambda>a w. w), ne_add_route = (\<lambda>g w. w), ne_remove_route = (\<lambda>w. w), ne_tls_new = (\<lambda>w. (Some 3, w)),
     ne_process = (\<lambda>b c. if c = 3 then (b, 0, Some EncodeTlsData, c) else if c = 2 then (b, 0, Some TransmitTlsData, c)
       else if b = [] then (b, 0, Some BlockedHandshake, c) else (b, length b, Some WriteTraffic, c)),
     ne_encode = (\<lambda>b c. if 2 \<le> length b then (EncOk 2, [22, 3] @ drop 2 b, 2) else (InsufficientSize 2, b, c)),
     ne_transmit_done = (\<lambda>c. 1)\<rparr>"

lemma demo_engine: "engine_ok demo_net id"
  by (auto simp: engine_ok_def encoder_ok_def demo_net_def split: if_splits)

theorem drive_rustls_returns_witness:
  "\<exists>b t' tr'. drive_rustls demo_net \<lparr>ts_conn = 3, incoming = [], outgoing = [], handshake_done = False\<rparr> [] = returns (b, t', tr')"
  by (rule drive_rustls_returns [OF demo_engine])

definition demo_stack :: "nat \<Rightarrow> nat tls_state option \<Rightarrow> net_event list \<Rightarrow> (nat, nat) net_stack" where
  "demo_stack w t tr = \<lparr>ns_world = w, dhcp_handle = 0, configured = True, tcp_handle = Some 1, tcp_ok = (2 \<le> w),
     tls_tcp_handle = (if w < 100 then Some 2 else None), tls = t, tls_ok = (100 \<le> w), ns_trace = tr\<rparr>"

definition demo_tr1 :: "net_event list" where
  "demo_tr1 = [Ev_line ''net: smoltcp Interface up'', Ev_poll 0, Ev_line ''net: DHCPv4 lease'', Ev_line ''net: TCP connect'',
     Ev_start 2, Ev_line ''net: TLS connect'']"

definition demo_tr2 :: "net_event list" where
  "demo_tr2 = demo_tr1 @ [Ev_poll 1, Ev_line ''net: TCP established'', Ev_line ''ARSENAL_TCP_OK'', Ev_call [] [], Ev_encoded [22, 3],
     Ev_call [] [], Ev_call [] [], Ev_sent [22], Ev_sent [3]]"

definition demo_tr3 :: "net_event list" where
  "demo_tr3 = demo_tr2 @ [Ev_poll 2, Ev_recv [7], Ev_call [7] [7], Ev_done, Ev_discard 1,
     Ev_line ''net: TLS 1.3 handshake complete'', Ev_line ''ARSENAL_TLS_OK'', Ev_remove 2]"

lemma demo_round1:
  "poll_once demo_net (net_init demo_net 0) =
     returns (demo_stack 1 (Some \<lparr>ts_conn = 3, incoming = [], outgoing = [], handshake_done = False\<rparr>) demo_tr1)"
  by (simp add: poll_once_def net_init_def clock_now_def demo_net_def net_log_def watch_tcp_def pump_tls_def dhcp_action_of_def
      start_tcp_smoke_def start_tls_smoke_def demo_stack_def demo_tr1_def TCP_SMOKE_PORT_def TLS_SMOKE_PORT_def Let_def)

lemma demo_round2:
  "poll_once demo_net (demo_stack 1 (Some \<lparr>ts_conn = 3, incoming = [], outgoing = [], handshake_done = False\<rparr>) demo_tr1) =
     returns (demo_stack 2 (Some \<lparr>ts_conn = 1, incoming = [], outgoing = [], handshake_done = False\<rparr>) demo_tr2)"
  by (simp add: poll_once_def clock_now_def demo_net_def net_log_def watch_tcp_def pump_tls_def dhcp_action_of_def
      demo_stack_def demo_tr2_def Let_def recv_loop.simps send_loop.simps drive_rustls.simps rustls_step_def rustls_state_def
      encode_loop.simps vec_drain_def TLS_OUTGOING_INITIAL_def)

lemma demo_round3:
  "poll_once demo_net (demo_stack 2 (Some \<lparr>ts_conn = 1, incoming = [], outgoing = [], handshake_done = False\<rparr>) demo_tr2) =
     returns (demo_stack 103 None demo_tr3)"
  by (simp add: poll_once_def clock_now_def demo_net_def net_log_def watch_tcp_def pump_tls_def dhcp_action_of_def
      demo_stack_def demo_tr3_def Let_def recv_loop.simps send_loop.simps drive_rustls.simps rustls_step_def rustls_state_def vec_drain_def)

lemma demo_run2:
  "reachable (task_step demo_net) (net_init demo_net 0)
     (demo_stack 2 (Some \<lparr>ts_conn = 1, incoming = [], outgoing = [], handshake_done = False\<rparr>) demo_tr2)"
  using step_poll [OF demo_round1] step_poll [OF demo_round2] by (meson rtranclp.rtrancl_into_rtrancl rtranclp.rtrancl_refl)

lemma demo_run3: "reachable (task_step demo_net) (net_init demo_net 0) (demo_stack 103 None demo_tr3)"
  using demo_run2 step_poll [OF demo_round3] by (rule rtranclp.rtrancl_into_rtrancl)

lemma demo_task_start: "task_start demo_net (net_init demo_net 0)"
  by (auto simp: task_start_def)


theorem net_sentinels_once_witness:
  "lines ''ARSENAL_TLS_OK'' demo_tr3 = 1 \<and> (\<forall>xs ys. demo_tr3 = xs @ Ev_line ''ARSENAL_TLS_OK'' # ys \<longrightarrow> Ev_done \<in> set xs)"
  using net_sentinels_once [OF demo_task_start demo_run3]
  by (simp add: demo_stack_def) (simp add: demo_tr3_def demo_tr2_def demo_tr1_def)


end
