(* ===== verification/Boot.thy ===== *)
theory Boot
  imports Frames
begin

text \<open>
  The boot path's own memory set-up, init\_heap of arsenal-kernel/src/main.rs with heap.rs: the kernel heap is the start of
  the largest usable region, and the frame allocator gets what is left. The responses of the bootloader are arguments; the
  allocator behind the heap (linked\_list\_allocator) is only given its region. The two tasks that check the scheduler at the end of
  the boot are here too, as steps that interleave at any point.
\<close>

section \<open>Model\<close>

definition HEAP_CAP :: usize where "HEAP_CAP = push_bit 20 16"

record boot_mem =
  hhdm_offset :: u64
  heap_phys_start :: u64
  heap_phys_end :: u64

text \<open>\<open>Iterator::max_by_key\<close>: the last of the elements with the greatest key.\<close>

fun max_by_length :: "entry list \<Rightarrow> entry option" where
  "max_by_length [] = None"
| "max_by_length (e # es) = (case max_by_length es of None \<Rightarrow> Some e | Some m \<Rightarrow> if length_of e \<le> length_of m then Some m else Some e)"

text \<open>The result is the region that the global allocator manages and what the boot path keeps of it.\<close>

definition init_heap :: "entry list option \<Rightarrow> u64 option \<Rightarrow> ((usize \<times> usize) \<times> boot_mem) outcome" where
  "init_heap memmap hhdm =
     and_then (expect memmap) (\<lambda>entries.
     and_then (expect hhdm) (\<lambda>hhdm_off.
     and_then (expect (max_by_length (filter (\<lambda>e. kind e = USABLE) entries))) (\<lambda>region.
       let heap_phys = base region;
           heap_size = min (length_of region) HEAP_CAP;
           heap_virt = heap_phys + hhdm_off
       in Inr ((heap_virt, heap_size),
               \<lparr>hhdm_offset = hhdm_off, heap_phys_start = heap_phys, heap_phys_end = heap_phys + heap_size\<rparr>))))"

text \<open>The part of the entry point that sets up memory: the heap, then the frame allocator over the same map.\<close>

definition boot_memory ::
    "phys_frame_ctor \<Rightarrow> entry list option \<Rightarrow> u64 option \<Rightarrow> ((usize \<times> usize) \<times> boot_mem \<times> frame_allocator) outcome" where
  "boot_memory pf memmap hhdm =
     and_then (init_heap memmap hhdm) (\<lambda>(heap, mem).
     and_then (expect memmap) (\<lambda>entries.
     and_then (frames_init pf new_frame_allocator entries (heap_phys_start mem) (heap_phys_end mem)) (\<lambda>fa.
       Inr (heap, mem, fa))))"

section \<open>Properties\<close>

lemma max_by_length_Some:
  "max_by_length es = Some m \<Longrightarrow> m \<in> set es \<and> (\<forall>e \<in> set es. length_of e \<le> length_of m)"
proof (induction es arbitrary: m)
  case (Cons e es)
  show ?case
  proof (cases "max_by_length es")
    case None
    then have "es = []" by (cases es) (auto split: option.splits if_splits)
    then show ?thesis using Cons.prems by simp
  next
    case (Some k)
    then show ?thesis using Cons.IH [OF Some] Cons.prems by (fastforce split: if_splits)
  qed
qed simp

lemma max_by_length_None: "max_by_length es = None \<longleftrightarrow> es = []"
  by (cases es) (auto split: option.splits)

text \<open>The heap needs a usable region and both responses of the bootloader, and nothing else.\<close>

lemma init_heap_panics:
  "init_heap memmap hhdm = Inl Panic \<longleftrightarrow> memmap = None \<or> hhdm = None \<or> (\<forall>e \<in> set (the memmap). kind e \<noteq> USABLE)"
  by (cases memmap; cases hhdm; cases "max_by_length (filter (\<lambda>e. kind e = USABLE) (the memmap))")
    (auto simp: init_heap_def Let_def max_by_length_None filter_empty_conv dest!: max_by_length_Some)

text \<open>
  C5. The heap and the frames share no byte. For every memory map below 2^52 on which the boot path
  returns, it puts the heap at the start of a usable region that
  is as long as any, at most 16 MiB of it, and fills the pool with exactly the 4-KiB frames inside
  usable regions that do not touch the heap, each once when the regions do not overlap.
\<close>
theorem boot_memory_split:
  assumes "phys_frame_ok pf" "map_ok es" "boot_memory pf (Some es) (Some hhdm) = Inr ((virt, sz), mem, fa)"
  shows "\<exists>e \<in> set es. kind e = USABLE \<and> (\<forall>e' \<in> set es. kind e' = USABLE \<longrightarrow> unat (length_of e') \<le> unat (length_of e)) \<and>
    unat sz = min (unat (length_of e)) (16 * 2 ^ 20) \<and> virt = base e + hhdm \<and>
    (\<forall>f. f \<in> set (free fa) \<longleftrightarrow>
       (\<exists>e' \<in> set es. kind e' = USABLE \<and> 4096 dvd unat f \<and> unat (base e') \<le> unat f \<and> unat f + 4096 \<le> unat (base e') + unat (length_of e')) \<and>
       {unat f..<unat f + 4096} \<inter> {unat (base e)..<unat (base e) + unat sz} = {}) \<and>
    (sorted_wrt entries_disjoint es \<longrightarrow> distinct (free fa))"
proof -
  obtain e where e: "max_by_length (filter (\<lambda>e. kind e = USABLE) es) = Some e"
    and r: "virt = base e + hhdm" "sz = min (length_of e) HEAP_CAP"
    and fi: "frames_init pf new_frame_allocator es (base e) (base e + sz) = Inr fa"
    using assms(3) by (auto simp: boot_memory_def init_heap_def and_then_eq_Inr Let_def)
  have e': "e \<in> set es" "kind e = USABLE" "\<forall>e' \<in> set es. kind e' = USABLE \<longrightarrow> unat (length_of e') \<le> unat (length_of e)"
    using max_by_length_Some [OF e] by (auto simp: word_le_nat_alt)
  have sz: "unat sz = min (unat (length_of e)) (16 * 2 ^ 20)"
    by (simp add: r(2) HEAP_CAP_def min_def word_le_nat_alt)
  have fit: "unat (base e) + unat (length_of e) \<le> 2 ^ 52" using assms(2) e'(1) by (auto simp: map_ok_def)
  then have he: "unat (base e + sz) = unat (base e) + unat sz" using sz by (simp add: unat_add_noof)
  then have le: "base e \<le> base e + sz" by (simp add: word_le_nat_alt)
  have pool: "set (free fa) = boot_frames es (base e) (base e + sz)" "fa = init_regions new_frame_allocator es (base e) (base e + sz)"
    using frames_init_boot [OF assms(1,2) le] fi by (auto split: if_splits)
  have out: "outside_heap (base e) (base e + sz) f \<longleftrightarrow> {unat f..<unat f + 4096} \<inter> {unat (base e)..<unat (base e) + unat sz} = {}"
    if "0 < unat sz" for f
    using that by (auto simp: outside_heap_def he disjoint_iff)
  have "f \<in> boot_frames es (base e) (base e + sz) \<longleftrightarrow>
       (\<exists>e' \<in> set es. kind e' = USABLE \<and> 4096 dvd unat f \<and> unat (base e') \<le> unat f \<and> unat f + 4096 \<le> unat (base e') + unat (length_of e')) \<and>
       {unat f..<unat f + 4096} \<inter> {unat (base e)..<unat (base e) + unat sz} = {}" for f
  proof (cases "0 < unat sz")
    case True
    then show ?thesis by (auto simp: boot_frames_def frames_within_def out)
  next
    case False
    then have "unat (length_of e) = 0" using sz by simp
    then have "unat (length_of e') = 0" if "e' \<in> set es" "kind e' = USABLE" for e' using e'(3) that by fastforce
    then show ?thesis by (fastforce simp: boot_frames_def frames_within_def)
  qed
  moreover have "sorted_wrt entries_disjoint es \<longrightarrow> distinct (free fa)"
    using distinct_init_regions [OF map_ok_entry_ok [OF assms(2)] le] pool(2) by blast
  ultimately show ?thesis using e' sz r(1) pool(1) by (intro bexI [OF _ e'(1)]) auto
qed

definition demo_map :: "entry list" where
  "demo_map = [\<lparr>base = 0x1000, length_of = 0x3000, kind = USABLE\<rparr>, \<lparr>base = 0x100000, length_of = 0x1001000, kind = USABLE\<rparr>,
     \<lparr>base = 0x4000, length_of = 0x9000, kind = BOOTLOADER_RECLAIMABLE\<rparr>]"

lemma demo_boot_memory: "\<exists>fa. boot_memory x86_phys_frame (Some demo_map) (Some 0xFFFF800000000000) =
    Inr ((0xFFFF800000100000, 0x1000000), \<lparr>hhdm_offset = 0xFFFF800000000000, heap_phys_start = 0x100000, heap_phys_end = 0x1100000\<rparr>, fa)"
proof -
  have "map_ok demo_map" by (simp add: map_ok_def demo_map_def)
  moreover have "0x1000 \<in> boot_frames demo_map 0x100000 0x1100000"
    by (simp add: boot_frames_def frames_within_def outside_heap_def demo_map_def)
  ultimately have "\<exists>fa. frames_init x86_phys_frame new_frame_allocator demo_map 0x100000 0x1100000 = Inr fa"
    using frames_init_boot(1) [OF x86_phys_frame_ok, of demo_map "0x100000" "0x1100000"] by auto
  then show ?thesis by (auto simp: boot_memory_def init_heap_def demo_map_def HEAP_CAP_def Let_def)
qed

theorem boot_memory_split_witness:
  "\<exists>mem fa. boot_memory x86_phys_frame (Some demo_map) (Some 0xFFFF800000000000) = Inr ((0xFFFF800000100000, 0x1000000), mem, fa) \<and>
     distinct (free fa) \<and> (\<forall>f \<in> set (free fa). 4096 dvd unat f)"
proof -
  obtain mem fa where b: "boot_memory x86_phys_frame (Some demo_map) (Some 0xFFFF800000000000) = Inr ((0xFFFF800000100000, 0x1000000), mem, fa)"
    using demo_boot_memory by blast
  have m: "map_ok demo_map" and d: "sorted_wrt entries_disjoint demo_map" by (simp_all add: map_ok_def demo_map_def entries_disjoint_def)
  show ?thesis using boot_memory_split [OF x86_phys_frame_ok m b] d b by blast
qed

section \<open>The two scheduler tasks\<close>

definition PING_PONG_ROUNDS :: nat where "PING_PONG_ROUNDS = 3"
definition PING_PONG_TASKS :: usize where "PING_PONG_TASKS = 2"

text \<open>Where a task is: in its rounds, between the increment of the counter and the test of the old value, or in the last loop.\<close>

datatype smoke_phase = Rounds nat | Finishing usize | Spinning

record smoke =
  ping :: smoke_phase
  pong :: smoke_phase
  tasks_finished :: usize
  smoke_out :: "string list"

fun task_turn :: "string \<Rightarrow> smoke_phase \<Rightarrow> usize \<Rightarrow> string list \<Rightarrow> smoke_phase \<times> usize \<times> string list" where
  "task_turn line (Rounds (Suc k)) ctr out = (Rounds k, ctr, out @ [line])"
| "task_turn line (Rounds 0) ctr out = (Finishing ctr, ctr + 1, out)"
| "task_turn line (Finishing prev) ctr out = (Spinning, ctr, if prev + 1 = PING_PONG_TASKS then out @ [''ARSENAL_SCHED_OK''] else out)"
| "task_turn line Spinning ctr out = (Spinning, ctr, out)"

definition ping_entry :: "smoke \<Rightarrow> smoke" where
  "ping_entry s = (let (p, c, out) = task_turn ''ping'' (ping s) (tasks_finished s) (smoke_out s) in s\<lparr>ping := p, tasks_finished := c, smoke_out := out\<rparr>)"

definition pong_entry :: "smoke \<Rightarrow> smoke" where
  "pong_entry s = (let (p, c, out) = task_turn ''pong'' (pong s) (tasks_finished s) (smoke_out s) in s\<lparr>pong := p, tasks_finished := c, smoke_out := out\<rparr>)"

definition smoke_start :: smoke where
  "smoke_start = \<lparr>ping = Rounds PING_PONG_ROUNDS, pong = Rounds PING_PONG_ROUNDS, tasks_finished = 0, smoke_out = []\<rparr>"

inductive smoke_step :: "smoke \<Rightarrow> smoke \<Rightarrow> bool" where
  ping_runs: "smoke_step s (ping_entry s)"
| pong_runs: "smoke_step s (pong_entry s)"

fun left :: "smoke_phase \<Rightarrow> nat" where
  "left (Rounds k) = k"
| "left _ = 0"

fun counted :: "smoke_phase \<Rightarrow> nat" where
  "counted (Rounds k) = 0"
| "counted _ = 1"

fun will_print :: "smoke_phase \<Rightarrow> nat" where
  "will_print (Finishing prev) = (if prev = 1 then 1 else 0)"
| "will_print _ = 0"

text \<open>The second task to count itself, and only that one, prints or has printed the sentinel.\<close>

definition smoke_inv :: "smoke \<Rightarrow> bool" where
  "smoke_inv s \<longleftrightarrow> unat (tasks_finished s) = counted (ping s) + counted (pong s) \<and>
     count_list (smoke_out s) ''ARSENAL_SCHED_OK'' + will_print (ping s) + will_print (pong s) = (if tasks_finished s = 2 then 1 else 0) \<and>
     count_list (smoke_out s) ''ping'' + left (ping s) = 3 \<and> count_list (smoke_out s) ''pong'' + left (pong s) = 3"

lemma smoke_inv_turns:
  assumes "smoke_inv s"
  shows "smoke_inv (ping_entry s)" "smoke_inv (pong_entry s)"
proof -
  have c: "counted p \<le> 1" for p by (cases p) auto
  then have ctr: "tasks_finished s = of_nat (counted (ping s) + counted (pong s))"
    using assms of_nat_unat_word [of "tasks_finished s"] unfolding smoke_inv_def by argo
  show "smoke_inv (ping_entry s)"
    using assms ctr c [of "pong s"]
    by (cases "ping s"; cases "left (ping s)"; cases "pong s")
      (auto simp: smoke_inv_def ping_entry_def PING_PONG_TASKS_def)
  show "smoke_inv (pong_entry s)"
    using assms ctr c [of "ping s"]
    by (cases "pong s"; cases "left (pong s)"; cases "ping s")
      (auto simp: smoke_inv_def pong_entry_def PING_PONG_TASKS_def)
qed

interpretation smoke_tasks: invariant_system "\<lambda>s. s = smoke_start" smoke_step smoke_inv
proof
  show "smoke_inv s" if "s = smoke_start" for s
    using that by (simp add: smoke_start_def smoke_inv_def PING_PONG_ROUNDS_def)
  show "smoke_inv t" if "smoke_inv s" "smoke_step s t" for s t
    using that(2,1) by cases (simp_all add: smoke_inv_turns)
qed

text \<open>
  The sentinel of the scheduler test is printed at most once and only after three lines of each task; when both
  tasks have reached their last loop it has been printed, in every interleaving.
\<close>

theorem sched_ok_once:
  assumes "reachable smoke_step smoke_start s"
  shows "count_list (smoke_out s) ''ARSENAL_SCHED_OK'' \<le> 1 \<and>
    (''ARSENAL_SCHED_OK'' \<in> set (smoke_out s) \<longrightarrow> count_list (smoke_out s) ''ping'' = 3 \<and> count_list (smoke_out s) ''pong'' = 3) \<and>
    (ping s = Spinning \<and> pong s = Spinning \<longrightarrow> count_list (smoke_out s) ''ARSENAL_SCHED_OK'' = 1)"
proof -
  have inv: "smoke_inv s" using smoke_tasks.reachable_inv [OF refl assms] .
  have two: "counted p + counted q = 2 \<Longrightarrow> left p = 0 \<and> left q = 0" for p q by (cases p; cases q) auto
  show ?thesis
    using inv two [of "ping s" "pong s"]
    by (auto simp: smoke_inv_def word_unat_eq_iff count_list_0_iff split: if_splits)
qed

theorem sched_ok_once_witness:
  "count_list (smoke_out (ping_entry (pong_entry smoke_start))) ''ARSENAL_SCHED_OK'' \<le> 1"
proof -
  have "reachable smoke_step smoke_start (ping_entry (pong_entry smoke_start))"
    by (meson ping_runs pong_runs rtranclp.rtrancl_into_rtrancl rtranclp.rtrancl_refl)
  from sched_ok_once [OF this] show ?thesis by simp
qed

end
