(* ===== verification/Rand.thy ===== *)
theory Rand
  imports Prelude
begin

unbundle bit_operations_syntax

text \<open>
  The random source, arsenal-kernel/src/rand.rs: RDRAND with ten tries where the processor has it, and a mix of two readings
  of the time-stamp counter otherwise. The instructions are parameters over a state of type \<open>'r\<close>.
\<close>

record 'r rng_hw =
  rh_cpuid_ecx :: u32
  rh_rdrand :: "'r \<Rightarrow> (u64 \<times> bool) \<times> 'r"
  rh_rdtsc :: "'r \<Rightarrow> u64 \<times> 'r"

definition CPUID_RDRAND_BIT :: u32 where "CPUID_RDRAND_BIT = push_bit 30 1"

definition has_rdrand :: "'r rng_hw \<Rightarrow> bool" where
  "has_rdrand H \<longleftrightarrow> rh_cpuid_ecx H AND CPUID_RDRAND_BIT \<noteq> 0"

fun rdrand_tries :: "'r rng_hw \<Rightarrow> nat \<Rightarrow> 'r \<Rightarrow> u64 option \<times> 'r" where
  "rdrand_tries H 0 s = (None, s)"
| "rdrand_tries H (Suc n) s =
     (let ((v, success), s) = rh_rdrand H s in if success then (Some v, s) else rdrand_tries H n s)"

definition rdrand64 :: "'r rng_hw \<Rightarrow> 'r \<Rightarrow> u64 option \<times> 'r" where
  "rdrand64 H s = rdrand_tries H 10 s"

definition tsc_mix :: "u64 \<Rightarrow> u64 \<Rightarrow> u64" where
  "tsc_mix a b =
     (let x = a XOR word_rotl 31 b;
          x = x * 0x9E3779B97F4A7C15;
          x = x XOR drop_bit 30 x;
          x = x * 0xBF58476D1CE4E5B9
      in x XOR drop_bit 27 x)"

definition random_word :: "'r rng_hw \<Rightarrow> bool \<Rightarrow> 'r \<Rightarrow> u64 \<times> 'r" where
  "random_word H use_rdrand s =
     (let (r, s) = (if use_rdrand then rdrand64 H s else (None, s))
      in case r of
           Some v \<Rightarrow> (v, s)
         | None \<Rightarrow> let (a, s) = rh_rdtsc H s; (b, s) = rh_rdtsc H s in (tsc_mix a b, s))"

function fill_from :: "'r rng_hw \<Rightarrow> bool \<Rightarrow> u8 list \<Rightarrow> nat \<Rightarrow> 'r \<Rightarrow> u8 list \<times> 'r" where
  "fill_from H use_rdrand dest i s =
     (if i < length dest
      then let (w, s) = random_word H use_rdrand s;
               bytes = le_bytes 8 (unat w);
               chunk = min (length dest - i) 8
           in fill_from H use_rdrand (take i dest @ take chunk bytes @ drop (i + chunk) dest) (i + chunk) s
      else (dest, s))"
  by pat_completeness auto
termination by (relation "measure (\<lambda>(H, u, dest, i, s). length dest - i)") auto

definition fill_bytes :: "'r rng_hw \<Rightarrow> u8 list \<Rightarrow> 'r \<Rightarrow> u8 list \<times> 'r" where
  "fill_bytes H dest s = fill_from H (has_rdrand H) dest 0 s"

text \<open>The words a request of \<open>n\<close> of them draws, one after the other.\<close>

fun draws :: "'r rng_hw \<Rightarrow> bool \<Rightarrow> nat \<Rightarrow> 'r \<Rightarrow> u64 list \<times> 'r" where
  "draws H u 0 s = ([], s)"
| "draws H u (Suc n) s = (let (w, s) = random_word H u s; (ws, s) = draws H u n s in (w # ws, s))"

declare fill_from.simps [simp del]

lemma fill_from_eq:
  "i \<le> length dest \<Longrightarrow> fill_from H u dest i s =
     (let (ws, s') = draws H u ((length dest - i + 7) div 8) s
      in (take i dest @ take (length dest - i) (concat (map (\<lambda>w. le_bytes 8 (unat w)) ws)), s'))"
proof (induction H u dest i s rule: fill_from.induct)
  case (1 H u dest i s)
  show ?case
  proof (cases "i < length dest")
    case True
    obtain w s1 where w: "random_word H u s = (w, s1)" by force
    define chunk where "chunk = min (length dest - i) 8"
    let ?dest = "take i dest @ take chunk (le_bytes 8 (unat w)) @ drop (i + chunk) dest"
    have c: "0 < chunk" "i + chunk \<le> length dest" using True by (auto simp: chunk_def)
    have len: "length ?dest = length dest" using c by (simp add: chunk_def)
    have n: "(length dest - i + 7) div 8 = Suc ((length dest - (i + chunk) + 7) div 8)" using True by (auto simp: chunk_def min_def)
    obtain ws s2 where d: "draws H u ((length dest - (i + chunk) + 7) div 8) s1 = (ws, s2)" by force
    have "fill_from H u dest i s = fill_from H u ?dest (i + chunk) s1"
      by (subst fill_from.simps) (simp add: True w chunk_def Let_def)
    also have "\<dots> = (take (i + chunk) ?dest @ take (length dest - (i + chunk)) (concat (map (\<lambda>w. le_bytes 8 (unat w)) ws)), s2)"
      using 1(1) [OF True w [symmetric] refl refl refl] c d len by (simp add: chunk_def [symmetric] del: append_take_drop_id)
    also have "take (i + chunk) ?dest = take i dest @ take chunk (le_bytes 8 (unat w))"
      using c by (simp add: chunk_def)
    finally show ?thesis using n w d c by (auto simp: Let_def chunk_def min_def)
  next
    case False
    then show ?thesis using 1(2) by (subst fill_from.simps) simp
  qed
qed

text \<open>The request is filled completely, eight bytes of each word drawn, low byte first, and the last word cut off.\<close>

lemma fill_bytes_exact:
  "fill_bytes H dest s =
     (let (ws, s') = draws H (has_rdrand H) ((length dest + 7) div 8) s
      in (take (length dest) (concat (map (\<lambda>w. le_bytes 8 (unat w)) ws)), s'))"
  using fill_from_eq [of 0 dest H "has_rdrand H" s] by (simp add: fill_bytes_def)

end
