(* ===== verification/LkMacros.thy ===== *)
theory LkMacros
  imports Prelude
begin

unbundle bit_operations_syntax

text \<open>
  The diagnostics of the LinuxKPI shim, linuxkpi/src/macros.rs with log\_decimal of lib.rs, and the user-space stubs of
  userspace.rs: the bytes written to the log, one list per call. A C string is \<open>None\<close> when the pointer is null and its
  bytes otherwise; a c\_int is a 32-bit word read as signed.
\<close>

section \<open>Model\<close>

type_synonym c_string = "u8 list option"

definition container_of :: "u64 \<Rightarrow> u64 \<Rightarrow> u64" where
  "container_of ptr offset = ptr - offset"

text \<open>The loop that fills the buffer of twenty bytes from its end.\<close>

function decimal_loop :: "u8 list \<Rightarrow> usize \<Rightarrow> u64 \<Rightarrow> (u8 list \<times> usize) outcome" where
  "decimal_loop buf i n =
     (if n > 0
      then let i = i - 1
           in if unat i < length buf then decimal_loop (buf[unat i := 0x30 + ucast (n mod 10)]) i (n div 10) else Inl Panic
      else Inr (buf, i))"
  by pat_completeness auto
termination
proof (relation "measure (\<lambda>(buf, i, n). unat n)")
  fix n :: u64
  assume "0 < n"
  then have "0 < unat n" by (simp add: unat_gt_0 word_neq_0_conv)
  then show "((buf[unat x := 0x30 + ucast (n mod 10)], x, n div 10), buf, i, n) \<in> measure (\<lambda>(buf, i, n). unat n)"
    for buf i x by (simp add: unat_div)
qed simp

definition log_decimal :: "usize \<Rightarrow> u8 list outcome" where
  "log_decimal n =
     (if n = 0 then Inr [0x30]
      else and_then (decimal_loop (replicate 20 0) 20 n) (\<lambda>(buf, i).
             and_then (rust_assert (unat i \<le> length buf)) (\<lambda>_. Inr (drop (unat i) buf))))"

definition log_decimal_int :: "u32 \<Rightarrow> u8 list outcome" where
  "log_decimal_int n =
     (let (sign, n) = (if sint n < 0 then ([0x2D], - n) else ([], n));
          n = scast n :: u64
      in and_then (log_decimal n) (\<lambda>ds. Inr (sign @ ds)))"

text \<open>\<open>core::str::from_utf8\<close>: the well-formed byte sequences of the Unicode standard.\<close>

fun utf8_ok :: "u8 list \<Rightarrow> bool" where
  "utf8_ok [] = True"
| "utf8_ok (a # bs) =
     (let cont = (\<lambda>b. 0x80 \<le> b \<and> b \<le> (0xBF :: u8))
      in if a < 0x80 then utf8_ok bs
         else if 0xC2 \<le> a \<and> a \<le> 0xDF then (case bs of b # r \<Rightarrow> cont b \<and> utf8_ok r | _ \<Rightarrow> False)
         else if 0xE0 \<le> a \<and> a \<le> 0xEF then
           (case bs of b # c # r \<Rightarrow> cont b \<and> (a = 0xE0 \<longrightarrow> 0xA0 \<le> b) \<and> (a = 0xED \<longrightarrow> b \<le> 0x9F) \<and> cont c \<and> utf8_ok r | _ \<Rightarrow> False)
         else if 0xF0 \<le> a \<and> a \<le> 0xF4 then
           (case bs of b # c # d # r \<Rightarrow> cont b \<and> (a = 0xF0 \<longrightarrow> 0x90 \<le> b) \<and> (a = 0xF4 \<longrightarrow> b \<le> 0x8F) \<and> cont c \<and> cont d \<and> utf8_ok r | _ \<Rightarrow> False)
         else False)"

definition c_text :: "string \<Rightarrow> u8 list" where
  "c_text s = map (\<lambda>c. of_nat (of_char c)) s"

definition cstr_or :: "c_string \<Rightarrow> u8 list \<Rightarrow> u8 list" where
  "cstr_or p dflt = (case p of None \<Rightarrow> dflt | Some bytes \<Rightarrow> if utf8_ok bytes then bytes else dflt)"

text \<open>The bytes of the warning; the other one panics whatever its arguments are.\<close>

definition linuxkpi_warn :: "c_string \<Rightarrow> u32 \<Rightarrow> c_string \<Rightarrow> u8 list outcome" where
  "linuxkpi_warn file line cond =
     (let file_s = cstr_or file (c_text ''<file?>''); cond_s = cstr_or cond (c_text ''<cond?>'')
      in and_then (log_decimal_int line) (\<lambda>ds.
           Inr (c_text ''[WARN] linuxkpi WARN_ON('' @ cond_s @ c_text '') at '' @ file_s @ c_text '':'' @ ds @ [0x0A])))"

definition linuxkpi_bug :: "c_string \<Rightarrow> u32 \<Rightarrow> c_string \<Rightarrow> u8 list outcome" where
  "linuxkpi_bug file line cond = Inl Panic"

text \<open>There is no user space yet.\<close>

definition copy_to_user :: "u64 \<Rightarrow> u64 \<Rightarrow> u64 \<Rightarrow> u64 outcome" where "copy_to_user to from n = Inl Panic"
definition copy_from_user :: "u64 \<Rightarrow> u64 \<Rightarrow> u64 \<Rightarrow> u64 outcome" where "copy_from_user to from n = Inl Panic"
definition linuxkpi_get_user_u8 :: "u64 \<Rightarrow> u8 outcome" where "linuxkpi_get_user_u8 ptr = Inl Panic"
definition linuxkpi_put_user_u8 :: "u8 \<Rightarrow> u64 \<Rightarrow> unit outcome" where "linuxkpi_put_user_u8 val ptr = Inl Panic"

section \<open>Decimal numerals\<close>

text \<open>The decimal digits of a number, most significant first, and the number a list of digits denotes.\<close>

fun digits :: "nat \<Rightarrow> nat list" where
  "digits n = (if n < 10 then [n] else digits (n div 10) @ [n mod 10])"

declare digits.simps [simp del] decimal_loop.simps [simp del]

definition numeral_of :: "nat \<Rightarrow> u8 list" where
  "numeral_of n = map (\<lambda>d. 0x30 + of_nat d) (digits n)"

lemma digits_bound: "n < 10 ^ k \<Longrightarrow> 0 < k \<Longrightarrow> length (digits n) \<le> k"
proof (induction n arbitrary: k rule: digits.induct)
  case (1 n)
  show ?case
  proof (cases "n < 10")
    case True
    then show ?thesis using 1(3) by (simp add: digits.simps [of n])
  next
    case False
    then obtain j where k: "k = Suc j" "0 < j" using 1(2,3) by (cases k; cases "k - 1") auto
    have "n div 10 < 10 ^ j" using 1(2) k(1) by (simp add: less_mult_imp_div_less mult.commute)
    from 1(1) [OF False this k(2)] show ?thesis using False k(1) by (simp add: digits.simps [of n])
  qed
qed

lemma digits_value: "foldl (\<lambda>a d. 10 * a + d) 0 (digits n) = n"
proof (induction n rule: digits.induct)
  case (1 n)
  then show ?case by (cases "n < 10") (simp_all add: digits.simps [of n])
qed

lemma digits_less: "\<forall>d \<in> set (digits n). d < 10"
proof (induction n rule: digits.induct)
  case (1 n)
  then show ?case by (cases "n < 10") (simp_all add: digits.simps [of n])
qed

text \<open>Filling the buffer writes the numeral just before the place where it starts.\<close>

lemma decimal_loop_eq:
  assumes "0 < unat n" "length (digits (unat n)) \<le> unat i" "unat i \<le> length buf"
  shows "\<exists>buf' i'. decimal_loop buf i n = Inr (buf', i') \<and> unat i' \<le> length buf' \<and>
    drop (unat i') buf' = numeral_of (unat n) @ drop (unat i) buf"
  using assms
proof (induction buf i n rule: decimal_loop.induct)
  case (1 buf i n)
  have i: "0 < unat i" using 1(3) by (auto simp: digits.simps [of "unat n"] split: if_splits)
  then have i1: "unat (i - 1) = unat i - 1" by (simp add: unat_minus_one unat_gt_0)
  have n: "n > 0" using 1(2) by (simp add: word_neq_0_conv unat_gt_0)
  let ?buf = "buf[unat (i - 1) := 0x30 + ucast (n mod 10)]"
  have lt: "unat (i - 1) < length buf" using i i1 1(4) by simp
  have c: "ucast (n mod 10) = (of_nat (unat n mod 10) :: u8)"
    unfolding unat_mod [symmetric, of n 10, simplified] by (rule of_nat_unat [symmetric])
  have d: "drop (unat (i - 1)) ?buf = (0x30 + of_nat (unat n mod 10)) # drop (unat i) buf"
    using lt i i1 c by (simp add: drop_update_swap Cons_nth_drop_Suc [symmetric])
  have step: "decimal_loop buf i n = decimal_loop ?buf (i - 1) (n div 10)"
    by (subst decimal_loop.simps) (simp add: n lt Let_def)
  show ?case
  proof (cases "unat n < 10")
    case True
    then have "n div 10 = 0" by (simp add: word_unat_eq_iff unat_div)
    then have "decimal_loop buf i n = Inr (?buf, i - 1)" unfolding step by (subst decimal_loop.simps) simp
    then show ?thesis using d lt True by (simp add: numeral_of_def digits.simps [of "unat n"])
  next
    case False
    have u: "unat (n div 10) = unat n div 10" by (simp add: unat_div)
    have "0 < unat (n div 10)" "length (digits (unat (n div 10))) \<le> unat (i - 1)" "unat (i - 1) \<le> length ?buf"
      using False 1(3) lt i1 by (simp_all add: u digits.simps [of "unat n"])
    from 1(1) [OF n refl lt this] show ?thesis
      using d False by (simp add: step u numeral_of_def digits.simps [of "unat n"])
  qed
qed

lemma log_decimal_eq: "log_decimal n = Inr (numeral_of (unat n))"
proof (cases "n = 0")
  case True
  then show ?thesis by (simp add: log_decimal_def numeral_of_def digits.simps [of 0])
next
  case False
  have "length (digits (unat n)) \<le> 20" using unat_bound [of n] by (intro digits_bound) simp_all
  then have "\<exists>buf' i'. decimal_loop (replicate 20 0) 20 n = Inr (buf', i') \<and> unat i' \<le> length buf' \<and>
      drop (unat i') buf' = numeral_of (unat n) @ drop (unat (20 :: usize)) (replicate 20 0)"
    using False by (intro decimal_loop_eq) (simp_all add: unat_gt_0)
  then show ?thesis using False by (auto simp: log_decimal_def)
qed

text \<open>
  The number a line is printed as: right for every line number but the least one, whose negation
  wraps around and is then widened with its sign.
\<close>

lemma widen_small:
  assumes "k < 2 ^ 31"
  shows "unat (scast (of_nat k :: u32) :: u64) = k" "sint (of_nat k :: u32) = int k"
proof -
  have b: "signed_take_bit 31 (int k) = int k" using assms by (simp add: signed_take_bit_int_eq_self)
  show s: "sint (of_nat k :: u32) = int k"
    using b assms by (simp add: sint_uint uint_nat unsigned_of_nat take_bit_nat_eq_self)
  have "(scast (of_nat k :: u32) :: u64) = of_int (sint (of_nat k :: u32))" by simp
  also have "\<dots> = of_nat k" by (simp only: s of_int_of_nat_eq)
  finally show "unat (scast (of_nat k :: u32) :: u64) = k" using assms unat_of_nat_small [of k, where 'a = 64] by simp
qed

theorem log_decimal_int_exact:
  "log_decimal_int n = Inr (if n = 0x80000000 then [0x2D] @ numeral_of 18446744071562067968
     else (if sint n < 0 then [0x2D] else []) @ numeral_of (nat \<bar>sint n\<bar>))"
proof (cases "n = 0x80000000")
  case True
  have "scast (- (0x80000000 :: u32)) = (18446744071562067968 :: u64)" "sint (0x80000000 :: u32) < 0" by simp_all
  then show ?thesis using True by (simp add: log_decimal_int_def log_decimal_eq)
next
  case False
  define k where "k = nat \<bar>sint n\<bar>"
  have b: "- (2 ^ 31) \<le> sint n" "sint n < 2 ^ 31" using sint_greater_eq [of n] sint_less [of n] by simp_all
  have "sint n \<noteq> - (2 ^ 31)"
  proof
    assume "sint n = - (2 ^ 31)"
    then have "sint n = sint (0x80000000 :: u32)" by simp
    then have "n = 0x80000000" by (rule signed_word_eqI)
    then show False using \<open>n \<noteq> 0x80000000\<close> by contradiction
  qed
  then have k: "k < 2 ^ 31" using b by (simp add: k_def)
  have "(if sint n < 0 then - n else n) = of_nat k"
  proof -
    have "n = of_int (sint n)" by (rule signed_word_eqI) (simp add: signed_take_bit_int_eq_self b)
    then have "(if sint n < 0 then - n else n) = of_int \<bar>sint n\<bar>" by (metis abs_of_neg abs_of_nonneg not_less of_int_minus)
    then show ?thesis by (simp add: k_def)
  qed
  then show ?thesis using False widen_small [OF k]
    by (cases "sint n < 0") (auto simp: log_decimal_int_def log_decimal_eq k_def)
qed

text \<open>
  The warning names the condition, the file and the line: for every line number but the least c\_int the
  bytes written are the fixed text with the condition, the file and the decimal numeral of the line, whose value is the line's.
\<close>
theorem linuxkpi_warn_exact:
  assumes "line \<noteq> 0x80000000" "utf8_ok file" "utf8_ok cond"
  shows "\<exists>ds. linuxkpi_warn (Some file) line (Some cond) =
      Inr (c_text ''[WARN] linuxkpi WARN_ON('' @ cond @ c_text '') at '' @ file @ c_text '':'' @ (if sint line < 0 then [0x2D] else []) @
        map (\<lambda>d. 0x30 + of_nat d) ds @ [0x0A]) \<and>
    (\<forall>d \<in> set ds. d < 10) \<and> foldl (\<lambda>a d. 10 * a + d) 0 ds = nat \<bar>sint line\<bar>"
proof (intro exI conjI)
  show "foldl (\<lambda>a d. 10 * a + d) 0 (digits (nat \<bar>sint line\<bar>)) = nat \<bar>sint line\<bar>" by (rule digits_value)
  show "\<forall>d \<in> set (digits (nat \<bar>sint line\<bar>)). d < 10" by (rule digits_less)
qed (use assms in \<open>simp add: linuxkpi_warn_def cstr_or_def log_decimal_int_exact numeral_of_def\<close>)

theorem linuxkpi_warn_exact_witness:
  "\<exists>ds. linuxkpi_warn (Some (c_text ''a.c'')) 42 (Some (c_text ''x'')) =
      Inr (c_text ''[WARN] linuxkpi WARN_ON('' @ c_text ''x'' @ c_text '') at '' @ c_text ''a.c'' @ c_text '':'' @ map (\<lambda>d. 0x30 + of_nat d) ds @ [0x0A]) \<and>
    foldl (\<lambda>a d. 10 * a + d) 0 ds = 42"
proof -
  have "utf8_ok (c_text ''a.c'')" "utf8_ok (c_text ''x'')" by (simp_all add: c_text_def)
  from linuxkpi_warn_exact [OF _ this, of 42] show ?thesis by auto
qed

end
