(* ===== verification/Spec2Isabelle.thy ===== *)
theory Spec2Isabelle
  imports Virtqueue Kbd Shell Sched Ioapic Pci Paging Klist Kprim Slab Workqueue Nvme VirtioPci Xhci LkPci LkVirtio LkPage Serial VirtioNet Apic Gpu Net Boot Rand LkMacros
begin

text \<open>
  A verification development for the Arsenal kernel (fieldOS).
\<close>

section \<open>Properties that span components\<close>



end
